(* ===== verification/Prelude.thy ===== *)
theory Prelude
  imports Main "HOL-Library.Word" "HOL-Library.Monad_Syntax"
begin

text \<open>
  The shared base of the development: the machine integer types of
  \<^verbatim>\<open>src/kernel/lib/types.h\<close>, the page constants that the memory code spells out as
  literals, the collections of simplification rules the component theories add to, and the
  lemmas on 32-bit addresses (no-overflow arithmetic through \<^const>\<open>unat\<close>, the
  page-rounding mask) that every memory component uses.

  Fallible code returns an \<^typ>\<open>'a option\<close>: \<^const>\<open>None\<close> is a machine fault of the
  running code (a page fault on an unmapped address, a dereference of a null pointer, an access
  outside an array, a failed \<^verbatim>\<open>ASSERT\<close> or a \<^verbatim>\<open>PANIC\<close>); error codes that
  the C functions return are ordinary result values.
\<close>

unbundle bit_operations_syntax

section \<open>Integer types\<close>

type_synonym u8 = "8 word"
type_synonym u16 = "16 word"
type_synonym u32 = "32 word"
type_synonym u64 = "64 word"

named_theorems addr_simps \<open>no-overflow rules for 32-bit address arithmetic\<close>

section \<open>Arithmetic of 32-bit addresses\<close>

lemma unat_u32_less [simp]: "unat (x :: u32) < 4294967296"
  using unsigned_less[of x, where ?'a = nat] by simp

lemma unat_u32_le [simp]: "unat (x :: u32) \<le> 4294967295"
  using unat_u32_less[of x] by linarith

lemma unat_add_u32 [addr_simps]:
  "unat a + unat b < 4294967296 \<Longrightarrow> unat (a + b) = unat a + unat b" for a b :: u32
  by (simp add: unat_word_ariths)

lemma unat_succ_u32: "x \<noteq> - 1 \<Longrightarrow> unat (x + 1) = unat x + 1" for x :: u32
proof -
  assume "x \<noteq> - 1"
  moreover have "unat x = unat (- 1 :: u32) \<Longrightarrow> x = - 1" by (simp add: word_unat_eq_iff)
  moreover have "unat (- 1 :: u32) = 4294967295" by (simp add: unsigned_minus_1_eq_mask mask_eq_exp_minus_1)
  ultimately have "unat x + unat (1 :: u32) < 4294967296" using unat_u32_less[of x] unfolding unsigned_1 by linarith
  from unat_add_u32[OF this] show ?thesis by simp
qed

lemma unat_sub_u32 [addr_simps]:
  "unat b \<le> unat a \<Longrightarrow> unat (a - b) = unat a - unat b" for a b :: u32
  by (rule unat_sub) (simp add: word_le_nat_alt)

lemma unat_mult_u32 [addr_simps]:
  "unat a * unat b < 4294967296 \<Longrightarrow> unat (a * b) = unat a * unat b" for a b :: u32
  by (simp add: unat_word_ariths)

lemma unat_of_nat_u32 [addr_simps]:
  "n < 4294967296 \<Longrightarrow> unat (of_nat n :: u32) = n"
  by (simp add: unat_of_nat)

lemma less_u32 [addr_simps]: "(a < b) = (unat a < unat b)" for a b :: u32
  by (rule word_less_nat_alt)

lemma le_u32 [addr_simps]: "(a \<le> b) = (unat a \<le> unat b)" for a b :: u32
  by (rule word_le_nat_alt)

lemma eq_u32: "(a = b) = (unat a = unat b)" for a b :: u32
  by (simp add: word_unat_eq_iff)

lemma unat_eqD: "unat a = unat b \<Longrightarrow> a = b" for a b :: u32
  by (simp add: eq_u32)

lemma inj_unat [simp]: "inj_on (unat :: u32 \<Rightarrow> nat) A"
  by (auto intro: inj_onI dest: unat_eqD)

lemma unat_div_u32 [addr_simps]: "unat (a div b) = unat a div unat b" for a b :: u32
  by (rule unat_div)

lemma unat_mod_u32 [addr_simps]: "unat (a mod b) = unat a mod unat b" for a b :: u32
  by (rule unat_mod)

section \<open>Pages\<close>

lemma and_low12: "x AND 0xFFF = x mod 0x1000" for x :: u32
  using take_bit_eq_mask[of 12 x] take_bit_eq_mod[of 12 x]
  by (simp add: mask_eq_exp_minus_1)

lemma and_low20: "x AND 0xFFFFF = x mod 0x100000" for x :: u32
  using take_bit_eq_mask[of 20 x] take_bit_eq_mod[of 20 x] by (simp add: mask_eq_exp_minus_1)

lemma high20_mask: "(0xFFFFF000 :: u32) = NOT (mask 12)"
  by (simp add: mask_eq_exp_minus_1)

lemma and_high20: "x AND 0xFFFFF000 = x - x mod 0x1000" for x :: u32
proof -
  have "x - (x AND mask 12) = x AND NOT (x AND mask 12)"
    by (rule disjunctive_diff_eq_and_not) (rule bit_word_eqI, auto simp: bit_simps)
  also have "\<dots> = x AND NOT (mask 12)"
    by (rule bit_word_eqI) (auto simp: bit_simps)
  also have "\<dots> = x AND 0xFFFFF000"
    by (simp only: high20_mask)
  finally show ?thesis
    using and_low12[of x] by (simp add: mask_eq_exp_minus_1)
qed

lemma unat_and_high20 [addr_simps]:
  "unat (x AND 0xFFFFF000) = unat x - unat x mod 0x1000" for x :: u32
  by (simp add: and_high20 unat_sub_u32 unat_mod)

lemma unat_and_low12 [addr_simps]: "unat (x AND 0xFFF) = unat x mod 0x1000" for x :: u32
  by (simp add: and_low12 unat_mod)

text \<open>
  The idiom \<^verbatim>\<open>if (x & 0xFFF) x = (x & 0xFFFFF000) + 0x1000;\<close> with which
  \<^verbatim>\<open>heap.c\<close>, \<^verbatim>\<open>seg.c\<close>, \<^verbatim>\<open>mem.c\<close> and \<^verbatim>\<open>shm.c\<close> round a
  size or an address up to a page.
\<close>

definition page_up :: "u32 \<Rightarrow> u32" where
  "page_up x = (if x AND 0xFFF \<noteq> 0 then (x AND 0xFFFFF000) + 0x1000 else x)"

lemma unat_page_up:
  assumes "unat x = 4096 * q + r" and "r < 4096" and "unat x \<le> 0xFFFFF000"
  shows "unat (page_up x) = (if r = 0 then 4096 * q else 4096 * (q + 1))"
proof -
  have m: "unat x mod 4096 = r" using assms(1,2) by simp
  then have z: "x AND 0xFFF = 0 \<longleftrightarrow> r = 0"
    by (metis unat_and_low12 unat_eq_zero)
  have h: "unat (x AND 0xFFFFF000) = 4096 * q"
    using m assms(1) by (simp add: unat_and_high20)
  show ?thesis
  proof (cases "r = 0")
    case True
    then show ?thesis using z assms(1) by (simp add: page_up_def)
  next
    case False
    have "unat ((x AND 0xFFFFF000) + 0x1000) = 4096 * q + 4096"
      using assms False by (subst unat_add_u32) (auto simp: h)
    then show ?thesis using z False by (simp add: page_up_def)
  qed
qed

lemma page_up_props:
  assumes "unat x \<le> 0xFFFFF000"
  shows "unat x \<le> unat (page_up x)" and "unat (page_up x) < unat x + 4096"
    and "4096 dvd unat (page_up x)"
proof -
  obtain q r where qr: "unat x = 4096 * q + r" "r < 4096"
    by (metis mod_less_divisor mult_div_mod_eq zero_less_numeral)
  note u = unat_page_up [OF qr assms]
  show "unat x \<le> unat (page_up x)" "unat (page_up x) < unat x + 4096"
    "4096 dvd unat (page_up x)"
    using qr by (auto simp: u)
qed

lemma page_up_aligned: "unat x mod 4096 = 0 \<Longrightarrow> page_up x = x"
  by (metis page_up_def unat_and_low12 unat_eq_zero)

lemma page_bounds: "n div 4096 * 4096 \<le> n" "n < (n div 4096 + 1) * 4096" for n :: nat
proof -
  define q r where "q = n div 4096" and "r = n mod 4096"
  have "n = q * 4096 + r" "r < 4096" by (simp_all add: q_def r_def)
  then show "n div 4096 * 4096 \<le> n" "n < (n div 4096 + 1) * 4096" unfolding q_def[symmetric] by simp_all
qed

section \<open>Lists\<close>

lemma takeWhile_dropWhile_sorted:
  assumes "sorted (map f xs)"
  shows "x \<in> set (takeWhile (\<lambda>y. f y < k) xs) \<longleftrightarrow> x \<in> set xs \<and> f x < k"
  using assms by (induction xs) auto

lemma list_update_last_append: "(xs @ [x])[length xs := y] = xs @ [y]"
  by simp

end
