(* ===== verification/Cmem.thy ===== *)
theory Cmem
  imports Prelude
begin

text \<open>
  Byte-addressed memory as the C code sees it: the contents of the 32-bit address space and
  which of its pages are present. A load or store that touches an absent page is a page fault
  and yields \<^const>\<open>None\<close>. Multi-byte accesses are little-endian and may be unaligned, as on
  the i586 the kernel is built for.

  The lemmas give the read-over-write laws and the frame rule of these accesses over natural
  number intervals, the form in which the allocator proofs use them.
\<close>

section \<open>Loads and stores\<close>

record cmem =
  mbytes :: "nat \<Rightarrow> u8"       \<comment> \<open>contents, by address\<close>
  mpresent :: "nat \<Rightarrow> bool"   \<comment> \<open>is page number \<open>n\<close> present?\<close>

definition ld8 :: "'a cmem_scheme \<Rightarrow> u32 \<Rightarrow> u8 option" where
  "ld8 s a = (if mpresent s (unat a div 4096) then Some (mbytes s (unat a)) else None)"

definition st8 :: "'a cmem_scheme \<Rightarrow> u32 \<Rightarrow> u8 \<Rightarrow> 'a cmem_scheme option" where
  "st8 s a v = (if mpresent s (unat a div 4096)
     then Some (s\<lparr>mbytes := (mbytes s)(unat a := v)\<rparr>) else None)"

definition of_bytes :: "u8 \<Rightarrow> u8 \<Rightarrow> u8 \<Rightarrow> u8 \<Rightarrow> u32" where
  "of_bytes b0 b1 b2 b3 =
     ucast b0 OR push_bit 8 (ucast b1) OR push_bit 16 (ucast b2) OR push_bit 24 (ucast b3)"

definition byte_of :: "nat \<Rightarrow> u32 \<Rightarrow> u8" where
  "byte_of i v = ucast (drop_bit (8 * i) v)"

definition ld32 :: "'a cmem_scheme \<Rightarrow> u32 \<Rightarrow> u32 option" where
  "ld32 s a = do {
     b0 \<leftarrow> ld8 s a; b1 \<leftarrow> ld8 s (a + 1); b2 \<leftarrow> ld8 s (a + 2); b3 \<leftarrow> ld8 s (a + 3);
     Some (of_bytes b0 b1 b2 b3) }"

definition st32 :: "'a cmem_scheme \<Rightarrow> u32 \<Rightarrow> u32 \<Rightarrow> 'a cmem_scheme option" where
  "st32 s a v = do {
     s \<leftarrow> st8 s a (byte_of 0 v); s \<leftarrow> st8 s (a + 1) (byte_of 1 v);
     s \<leftarrow> st8 s (a + 2) (byte_of 2 v); st8 s (a + 3) (byte_of 3 v) }"

lemma of_bytes_byte_of:
  "of_bytes (byte_of 0 v) (byte_of 1 v) (byte_of 2 v) (byte_of 3 v) = v"
proof (rule bit_word_eqI)
  fix n assume "n < LENGTH(32)"
  then have "n < 8 \<or> 8 \<le> n \<and> n < 16 \<or> 16 \<le> n \<and> n < 24 \<or> 24 \<le> n \<and> n < 32" by auto
  then show "bit (of_bytes (byte_of 0 v) (byte_of 1 v) (byte_of 2 v) (byte_of 3 v)) n = bit v n"
    by (elim disjE) (auto simp: of_bytes_def byte_of_def bit_simps)
qed

declare of_bytes_byte_of [unfolded One_nat_def, simp]

lemma byte_of_of_bytes [simp]:
  "byte_of 0 (of_bytes b0 b1 b2 b3) = b0" "byte_of 1 (of_bytes b0 b1 b2 b3) = b1" "byte_of (Suc 0) (of_bytes b0 b1 b2 b3) = b1"
  "byte_of 2 (of_bytes b0 b1 b2 b3) = b2" "byte_of 3 (of_bytes b0 b1 b2 b3) = b3"
  by (rule bit_word_eqI; simp add: of_bytes_def byte_of_def bit_simps; fastforce dest: bit_imp_le_length)+

section \<open>Total reads and writes over address intervals\<close>

text \<open>The word stored at address \<open>n\<close>, and the memory with \<open>v\<close> stored there.\<close>

definition rd :: "'a cmem_scheme \<Rightarrow> nat \<Rightarrow> u32" where
  "rd s n = of_bytes (mbytes s n) (mbytes s (n + 1)) (mbytes s (n + 2)) (mbytes s (n + 3))"

definition wr :: "'a cmem_scheme \<Rightarrow> nat \<Rightarrow> u32 \<Rightarrow> 'a cmem_scheme" where
  "wr s n v = s\<lparr>mbytes := (mbytes s)(n := byte_of 0 v, n + 1 := byte_of 1 v,
     n + 2 := byte_of 2 v, n + 3 := byte_of 3 v)\<rparr>"

text \<open>Every page that meets the interval from \<open>lo\<close> (included) to \<open>hi\<close> is present.\<close>

definition mapped :: "'a cmem_scheme \<Rightarrow> nat \<Rightarrow> nat \<Rightarrow> bool" where
  "mapped s lo hi \<longleftrightarrow> (\<forall>n. lo \<le> n \<and> n < hi \<longrightarrow> mpresent s (n div 4096))"

lemma mapped_sub: "mapped s lo hi \<Longrightarrow> lo \<le> lo' \<Longrightarrow> hi' \<le> hi \<Longrightarrow> mapped s lo' hi'"
  by (auto simp: mapped_def)

lemma mapped_join: "mapped s lo mid \<Longrightarrow> mapped s mid hi \<Longrightarrow> mapped s lo hi"
  by (auto simp: mapped_def) (meson not_le)

lemma unat_offsets:
  fixes a :: u32
  assumes "unat a + 4 \<le> 4294967296"
  shows "unat (a + 1) = unat a + 1" "unat (a + 2) = unat a + 2" "unat (a + 3) = unat a + 3"
  using assms by (simp_all add: unat_add_u32)

lemma ld32_rd:
  assumes "unat a + 4 \<le> 4294967296" and "mapped s (unat a) (unat a + 4)"
  shows "ld32 s a = Some (rd s (unat a))"
  using assms by (simp add: ld32_def ld8_def rd_def mapped_def unat_offsets)

lemma st32_wr:
  assumes "unat a + 4 \<le> 4294967296" and "mapped s (unat a) (unat a + 4)"
  shows "st32 s a v = Some (wr s (unat a) v)"
  using assms by (simp add: st32_def st8_def wr_def mapped_def unat_offsets)

lemma ld_in:
  assumes "mapped s lo hi" and "hi < 4294967296" and "unat w = n" and "lo \<le> n" and "n + 4 \<le> hi"
  shows "ld32 s w = Some (rd s n)"
  using assms by (subst ld32_rd) (auto elim!: mapped_sub)

lemma st_in:
  assumes "mapped s lo hi" and "hi < 4294967296" and "unat w = n" and "lo \<le> n" and "n + 4 \<le> hi"
  shows "st32 s w v = Some (wr s n v)"
  using assms by (subst st32_wr) (auto elim!: mapped_sub)

lemma wr_present [simp]: "mpresent (wr s n v) = mpresent s"
  by (simp add: wr_def)

lemma wr_more [simp]: "cmem.more (wr s n v) = cmem.more s"
  by (simp add: wr_def)

lemma mapped_wr [simp]: "mapped (wr s n v) lo hi = mapped s lo hi"
  by (simp add: mapped_def)

lemma rd_wr_same [simp]: "rd (wr s n v) n = v"
  by (simp add: rd_def wr_def)

lemma rd_wr_other:
  "n + 4 \<le> m \<or> m + 4 \<le> n \<Longrightarrow> rd (wr s n v) m = rd s m"
  by (auto simp: rd_def wr_def)

lemma mbytes_wr_other: "m < n \<or> n + 4 \<le> m \<Longrightarrow> mbytes (wr s n v) m = mbytes s m"
  by (auto simp: wr_def)

text \<open>Two memories that agree on an interval: the frame rule of the allocator proofs.\<close>

definition agree :: "'a cmem_scheme \<Rightarrow> 'b cmem_scheme \<Rightarrow> nat \<Rightarrow> nat \<Rightarrow> bool" where
  "agree s t lo hi \<longleftrightarrow> (\<forall>n. lo \<le> n \<and> n < hi \<longrightarrow> mbytes s n = mbytes t n)"

lemma agree_refl [simp]: "agree s s lo hi"
  by (simp add: agree_def)

lemma agree_sym: "agree s t lo hi \<Longrightarrow> agree t s lo hi"
  by (simp add: agree_def)

lemma agree_trans: "agree s t lo hi \<Longrightarrow> agree t u lo hi \<Longrightarrow> agree s u lo hi"
  by (simp add: agree_def)

lemma agree_sub: "agree s t lo hi \<Longrightarrow> lo \<le> lo' \<Longrightarrow> hi' \<le> hi \<Longrightarrow> agree s t lo' hi'"
  by (auto simp: agree_def)

lemma agree_empty [simp]: "hi \<le> lo \<Longrightarrow> agree s t lo hi"
  by (auto simp: agree_def)

lemma agree_rd: "agree s t lo hi \<Longrightarrow> lo \<le> n \<Longrightarrow> n + 4 \<le> hi \<Longrightarrow> rd t n = rd s n"
  by (simp add: agree_def rd_def)

lemma agree_wr: "agree s t lo hi \<Longrightarrow> hi \<le> n \<or> n + 4 \<le> lo \<Longrightarrow> agree s (wr t n v) lo hi"
  by (auto simp: agree_def wr_def)

end
