(* ===== verification/HeapIdx.thy ===== *)
theory HeapIdx
  imports Cmem
begin

text \<open>
  The hole index of the heap allocator (first part of \<^verbatim>\<open>src/kernel/mem/heap.c\<close>; the
  same code is in \<^verbatim>\<open>src/library/gc/mem.c\<close>): an array of header pointers, kept sorted by
  block size, in the memory just before the heap. The loops run on byte memory; the lemmas
  show that they implement sorted insertion and removal on the list of pointers that the array
  represents, and that they write nothing outside the array.
\<close>

section \<open>Model\<close>

text \<open>
  Layout of \<^verbatim>\<open>struct heap_header\<close>: \<open>magic\<close> at offset 0, \<open>is_hole\<close> at 4,
  \<open>size\<close> at 8 (12 bytes); of \<^verbatim>\<open>struct heap_footer\<close>: \<open>magic\<close> at 0,
  \<open>header\<close> at 4 (8 bytes).
\<close>

record heap =
  hp_idx :: u32
  idxused :: u32
  start_addr :: u32
  end_addr :: u32
  max_end :: u32

definition idx_slot :: "heap \<Rightarrow> u32 \<Rightarrow> u32" where
  "idx_slot h i = hp_idx h + 4 * i"     \<comment> \<open>\<^verbatim>\<open>&heap->idx[i]\<close>\<close>

text \<open>
  First loop of \<open>heapIdx_insert\<close>: \<open>insert_scan s h e it n\<close> with \<open>n\<close> slots left.
  \<open>Some None\<close> is the early return on finding \<open>e\<close>.
\<close>

fun insert_scan :: "'a cmem_scheme \<Rightarrow> heap \<Rightarrow> u32 \<Rightarrow> u32 \<Rightarrow> nat \<Rightarrow> u32 option option" where
  "insert_scan s h e it 0 = Some (Some it)"
| "insert_scan s h e it (Suc n) = do {
     p \<leftarrow> ld32 s (idx_slot h it);
     psize \<leftarrow> ld32 s (p + 8);
     esize \<leftarrow> ld32 s (e + 8);
     if psize < esize
     then (if p = e then Some None else insert_scan s h e (it + 1) n)
     else Some (Some it) }"

text \<open>Second loop: move \<open>n\<close> slots up, from \<open>it\<close> downwards.\<close>

fun shift_up :: "'a cmem_scheme \<Rightarrow> heap \<Rightarrow> u32 \<Rightarrow> nat \<Rightarrow> 'a cmem_scheme option" where
  "shift_up s h it 0 = Some s"
| "shift_up s h it (Suc n) = do {
     v \<leftarrow> ld32 s (idx_slot h (it - 1));
     s \<leftarrow> st32 s (idx_slot h it) v;
     shift_up s h (it - 1) n }"

definition heapIdx_insert ::
    "heap \<Rightarrow> 'a cmem_scheme \<Rightarrow> u32 \<Rightarrow> (heap \<times> 'a cmem_scheme) option" where
  "heapIdx_insert h s e =
     (if idxused h + 4 + hp_idx h \<ge> start_addr h then Some (h, s)
      else do {
        r \<leftarrow> insert_scan s h e 0 (unat (idxused h));
        case r of
          None \<Rightarrow> Some (h, s)
        | Some pos \<Rightarrow>
            if pos = idxused h then do {
              s \<leftarrow> st32 s (idx_slot h (idxused h)) e;
              Some (h\<lparr>idxused := idxused h + 1\<rparr>, s) }
            else do {
              s \<leftarrow> shift_up s h (idxused h) (unat (idxused h - pos));
              s \<leftarrow> st32 s (idx_slot h pos) e;
              Some (h\<lparr>idxused := idxused h + 1\<rparr>, s) } })"

text \<open>The loops of \<open>heapIdx_remove\<close>: find \<open>e\<close>, then move the slots above it down.\<close>

fun remove_scan :: "'a cmem_scheme \<Rightarrow> heap \<Rightarrow> u32 \<Rightarrow> u32 \<Rightarrow> nat \<Rightarrow> u32 option" where
  "remove_scan s h e it 0 = Some it"
| "remove_scan s h e it (Suc n) = do {
     p \<leftarrow> ld32 s (idx_slot h it);
     if p = e then Some it else remove_scan s h e (it + 1) n }"

fun shift_down :: "'a cmem_scheme \<Rightarrow> heap \<Rightarrow> u32 \<Rightarrow> nat \<Rightarrow> 'a cmem_scheme option" where
  "shift_down s h it 0 = Some s"
| "shift_down s h it (Suc n) = do {
     v \<leftarrow> ld32 s (idx_slot h (it + 1));
     s \<leftarrow> st32 s (idx_slot h it) v;
     shift_down s h (it + 1) n }"

definition heapIdx_remove ::
    "heap \<Rightarrow> 'a cmem_scheme \<Rightarrow> u32 \<Rightarrow> (heap \<times> 'a cmem_scheme) option" where
  "heapIdx_remove h s e = do {
     it \<leftarrow> remove_scan s h e 0 (unat (idxused h));
     if it = idxused h then Some (h, s)
     else do {
       let h = h\<lparr>idxused := idxused h - 1\<rparr>;
       s \<leftarrow> shift_down s h it (unat (idxused h - it));
       Some (h, s) } }"

section \<open>The list the array represents\<close>

text \<open>The pointers in slots \<open>lo\<close> to \<open>hi - 1\<close>.\<close>

definition slots :: "'a cmem_scheme \<Rightarrow> heap \<Rightarrow> nat \<Rightarrow> nat \<Rightarrow> u32 list" where
  "slots s h lo hi = map (\<lambda>i. rd s (unat (hp_idx h) + 4 * i)) [lo..<hi]"

abbreviation idx_list :: "'a cmem_scheme \<Rightarrow> heap \<Rightarrow> u32 list" where
  "idx_list s h \<equiv> slots s h 0 (unat (idxused h))"

text \<open>The array of \<open>n\<close> slots lies below the heap, in present pages.\<close>

definition idx_area :: "'a cmem_scheme \<Rightarrow> heap \<Rightarrow> nat \<Rightarrow> bool" where
  "idx_area s h n \<longleftrightarrow> unat (hp_idx h) + 4 * n \<le> unat (start_addr h)
     \<and> mapped s (unat (hp_idx h)) (unat (hp_idx h) + 4 * n)"

text \<open>The size field of the block a pointer refers to.\<close>

definition psize :: "'a cmem_scheme \<Rightarrow> u32 \<Rightarrow> nat" where
  "psize s p = unat (rd s (unat p + 8))"

definition psize_ok :: "'a cmem_scheme \<Rightarrow> u32 \<Rightarrow> bool" where
  "psize_ok s p \<longleftrightarrow> unat p + 12 \<le> 4294967296 \<and> mapped s (unat p + 8) (unat p + 12)"

lemma length_slots [simp]: "length (slots s h lo hi) = hi - lo"
  by (simp add: slots_def)

lemma slots_nth: "lo + i < hi \<Longrightarrow> slots s h lo hi ! i = rd s (unat (hp_idx h) + 4 * (lo + i))"
  unfolding slots_def by (subst nth_map, simp, subst nth_upt, simp, simp)

lemma slots_split:
  assumes "lo \<le> mid" and "mid \<le> hi"
  shows "slots s h lo hi = slots s h lo mid @ slots s h mid hi"
proof -
  have "[lo..<hi] = [lo..<mid] @ [mid..<hi]"
    using assms upt_add_eq_append[of lo mid "hi - mid"] by simp
  then show ?thesis by (simp add: slots_def)
qed

lemma slots_Cons: "lo < hi \<Longrightarrow> slots s h lo hi = rd s (unat (hp_idx h) + 4 * lo) # slots s h (Suc lo) hi"
  by (simp add: slots_def upt_conv_Cons)

lemma slots_snoc: "lo \<le> hi \<Longrightarrow> slots s h lo (Suc hi) = slots s h lo hi @ [rd s (unat (hp_idx h) + 4 * hi)]"
  by (simp add: slots_def)

lemma slots_empty [simp]: "hi \<le> lo \<Longrightarrow> slots s h lo hi = []"
  by (simp add: slots_def)

lemma slots_cong: "agree s t (unat (hp_idx h) + 4 * lo) (unat (hp_idx h) + 4 * hi)
    \<Longrightarrow> slots t h lo hi = slots s h lo hi"
  by (auto simp: slots_def intro!: agree_rd)

lemma slots_used [simp]: "slots s (h\<lparr>idxused := n\<rparr>) lo hi = slots s h lo hi"
  by (simp add: slots_def)

lemma slot_addr:
  assumes "idx_area s h n" and "unat i < n"
  shows "unat (idx_slot h i) = unat (hp_idx h) + 4 * unat i"
    and "unat (idx_slot h i) + 4 \<le> 4294967296"
    and "mapped s (unat (idx_slot h i)) (unat (idx_slot h i) + 4)"
proof -
  have b: "unat (hp_idx h) + 4 * unat i + 4 \<le> unat (start_addr h)"
    using assms by (simp add: idx_area_def)
  have "unat i < 1073741824"
    using b unat_u32_less[of "start_addr h"] by linarith
  then have "unat (4 * i) = 4 * unat i"
    by (subst unat_mult_u32) simp_all
  then show a: "unat (idx_slot h i) = unat (hp_idx h) + 4 * unat i"
    unfolding idx_slot_def using b unat_u32_less[of "start_addr h"]
    by (subst unat_add_u32) linarith+
  show "unat (idx_slot h i) + 4 \<le> 4294967296"
    using a b unat_u32_less[of "start_addr h"] by linarith
  show "mapped s (unat (idx_slot h i)) (unat (idx_slot h i) + 4)"
    using assms a by (auto simp: idx_area_def elim!: mapped_sub)
qed

lemma ld_slot: "idx_area s h n \<Longrightarrow> unat i < n \<Longrightarrow>
    ld32 s (idx_slot h i) = Some (rd s (unat (hp_idx h) + 4 * unat i))"
  using slot_addr[of s h n i] ld32_rd[of "idx_slot h i" s] by simp

lemma st_slot: "idx_area s h n \<Longrightarrow> unat i < n \<Longrightarrow>
    st32 s (idx_slot h i) v = Some (wr s (unat (hp_idx h) + 4 * unat i) v)"
  using slot_addr[of s h n i] st32_wr[of "idx_slot h i" s] by simp

lemma ld_psize: "psize_ok s p \<Longrightarrow> ld32 s (p + 8) = Some (rd s (unat p + 8))"
proof -
  assume p: "psize_ok s p"
  then have u: "unat (p + 8) = unat p + 8"
    by (subst unat_add_u32) (auto simp: psize_ok_def)
  show ?thesis using p u by (subst ld32_rd) (auto simp: psize_ok_def add.commute)
qed

lemma idx_area_wr [simp]: "idx_area (wr s a v) h n = idx_area s h n"
  by (simp add: idx_area_def)

lemma idx_area_less: "idx_area s h n \<Longrightarrow> m \<le> n \<Longrightarrow> idx_area s h m"
  by (auto simp: idx_area_def elim!: mapped_sub)

lemma idx_area_bound: "idx_area s h n \<Longrightarrow> n \<le> 1073741824"
  using unat_u32_less[of "start_addr h"] unfolding idx_area_def by linarith

section \<open>The loops on the represented list\<close>

lemma insert_scan_spec:
  assumes "idx_area s h (unat it + n)" and "psize_ok s e"
    and "\<forall>p \<in> set (slots s h (unat it) (unat it + n)). psize_ok s p \<and> p \<noteq> e"
  shows "insert_scan s h e it n = Some (Some (it + of_nat
     (length (takeWhile (\<lambda>p. psize s p < psize s e) (slots s h (unat it) (unat it + n))))))"
  using assms
proof (induction s h e it n rule: insert_scan.induct)
  case (2 s h e it n)
  let ?p = "rd s (unat (hp_idx h) + 4 * unat it)"
  have ld: "ld32 s (idx_slot h it) = Some ?p"
    using ld_slot[OF "2.prems"(1), of it] by simp
  have split: "slots s h (unat it) (unat it + Suc n) = ?p # slots s h (Suc (unat it)) (unat it + Suc n)"
    by (rule slots_Cons) simp
  have u: "unat (it + 1) = Suc (unat it)"
    using idx_area_bound[OF "2.prems"(1)] by (simp add: unat_add_u32)
  have p: "psize_ok s ?p" "?p \<noteq> e" using "2.prems"(3) unfolding split by auto
  have lt: "rd s (unat ?p + 8) < rd s (unat e + 8) \<longleftrightarrow> psize s ?p < psize s e"
    by (simp add: psize_def less_u32)
  note lds = ld ld_psize[OF p(1)] ld_psize[OF "2.prems"(2)]
  show ?case
  proof (cases "psize s ?p < psize s e")
    case True
    have "insert_scan s h e (it + 1) n = Some (Some (it + 1 + of_nat
       (length (takeWhile (\<lambda>p. psize s p < psize s e) (slots s h (Suc (unat it)) (Suc (unat it) + n))))))"
      using "2.IH"[OF ld ld_psize[OF p(1)] ld_psize[OF "2.prems"(2)]] "2.prems" p True split
      unfolding u by (simp add: lt)
    then show ?thesis using lds lt p True unfolding split by simp
  next
    case False
    then show ?thesis using lds lt unfolding split by simp
  qed
qed auto

lemma shift_up_spec:
  assumes "idx_area s h (Suc (unat it))" and "n \<le> unat it"
  shows "\<exists>s'. shift_up s h it n = Some s' \<and> mpresent s' = mpresent s \<and> cmem.more s' = cmem.more s
     \<and> (\<forall>lo hi. hi \<le> unat (hp_idx h) + 4 * (unat it - n)
              \<or> unat (hp_idx h) + 4 * Suc (unat it) \<le> lo \<longrightarrow> agree s s' lo hi)
     \<and> slots s' h (Suc (unat it - n)) (Suc (unat it)) = slots s h (unat it - n) (unat it)"
  using assms
proof (induction s h it n rule: shift_up.induct)
  case (2 s h it n)
  let ?b = "unat (hp_idx h)"
  have u: "unat (it - 1) = unat it - 1"
    using "2.prems" by (subst unat_sub_u32) auto
  let ?v = "rd s (?b + 4 * (unat it - 1))"
  let ?s = "wr s (?b + 4 * unat it) ?v"
  have ld: "ld32 s (idx_slot h (it - 1)) = Some ?v"
    using ld_slot[OF "2.prems"(1), of "it - 1"] u by simp
  have st: "st32 s (idx_slot h it) ?v = Some ?s"
    using st_slot[OF "2.prems"(1), of it] by simp
  have "idx_area ?s h (Suc (unat (it - 1)))"
    using "2.prems" u by (auto intro: idx_area_less)
  moreover have "n \<le> unat (it - 1)" using "2.prems" u by simp
  ultimately obtain s' where s': "shift_up ?s h (it - 1) n = Some s'"
    "mpresent s' = mpresent s" "cmem.more s' = cmem.more s"
    and fr: "\<And>lo hi. hi \<le> ?b + 4 * (unat it - 1 - n) \<or> ?b + 4 * Suc (unat it - 1) \<le> lo \<Longrightarrow> agree ?s s' lo hi"
    and sl: "slots s' h (Suc (unat it - 1 - n)) (Suc (unat it - 1)) = slots ?s h (unat it - 1 - n) (unat it - 1)"
    using "2.IH"[OF ld st] u by auto
  have i: "Suc (unat it - 1) = unat it" "unat it - 1 - n = unat it - Suc n" using "2.prems" by auto
  have "rd s' (?b + 4 * unat it) = ?v"
    using agree_rd[OF fr[of "?b + 4 * unat it + 4" "?b + 4 * unat it"]] i by simp
  then have "slots s' h (Suc (unat it - Suc n)) (Suc (unat it)) = slots ?s h (unat it - Suc n) (unat it - 1) @ [?v]"
    using sl i by (subst slots_snoc) (auto simp: Suc_diff_Suc)
  moreover have "slots ?s h (unat it - Suc n) (unat it - 1) = slots s h (unat it - Suc n) (unat it - 1)"
    by (rule slots_cong) (auto intro!: agree_wr)
  moreover have "slots s h (unat it - Suc n) (unat it) = slots s h (unat it - Suc n) (unat it - 1) @ [?v]"
    using "2.prems" slots_snoc[of "unat it - Suc n" "unat it - 1" s h] by simp
  moreover have "agree s s' lo hi" if "hi \<le> ?b + 4 * (unat it - Suc n) \<or> ?b + 4 * Suc (unat it) \<le> lo" for lo hi
    using that "2.prems" i by (intro agree_trans[OF agree_wr[OF agree_refl] fr]) auto
  ultimately show ?case using ld st s' by auto
qed (auto simp: Suc_diff_Suc)

lemma remove_scan_spec:
  assumes "idx_area s h (unat it + n)"
  shows "remove_scan s h e it n = Some (it + of_nat
     (length (takeWhile (\<lambda>p. p \<noteq> e) (slots s h (unat it) (unat it + n)))))"
  using assms
proof (induction s h e it n rule: remove_scan.induct)
  case (2 s h e it n)
  let ?p = "rd s (unat (hp_idx h) + 4 * unat it)"
  have ld: "ld32 s (idx_slot h it) = Some ?p"
    using ld_slot[OF "2.prems"(1), of it] by simp
  have split: "slots s h (unat it) (unat it + Suc n) = ?p # slots s h (Suc (unat it)) (unat it + Suc n)"
    by (rule slots_Cons) simp
  have u: "unat (it + 1) = Suc (unat it)"
    using idx_area_bound[OF "2.prems"(1)] by (simp add: unat_add_u32)
  show ?case
  proof (cases "?p = e")
    case True
    then show ?thesis using ld unfolding split by simp
  next
    case False
    have "remove_scan s h e (it + 1) n = Some (it + 1 + of_nat
       (length (takeWhile (\<lambda>p. p \<noteq> e) (slots s h (Suc (unat it)) (Suc (unat it) + n)))))"
      using "2.IH"[OF ld False] "2.prems" unfolding u by simp
    then show ?thesis using ld False unfolding split by simp
  qed
qed auto

lemma shift_down_spec:
  assumes "idx_area s h (Suc (unat it + n))"
  shows "\<exists>s'. shift_down s h it n = Some s' \<and> mpresent s' = mpresent s \<and> cmem.more s' = cmem.more s
     \<and> (\<forall>lo hi. hi \<le> unat (hp_idx h) + 4 * unat it
              \<or> unat (hp_idx h) + 4 * (unat it + n) \<le> lo \<longrightarrow> agree s s' lo hi)
     \<and> slots s' h (unat it) (unat it + n) = slots s h (Suc (unat it)) (Suc (unat it + n))"
  using assms
proof (induction s h it n rule: shift_down.induct)
  case (2 s h it n)
  let ?b = "unat (hp_idx h)"
  have u: "unat (it + 1) = Suc (unat it)"
    using idx_area_bound[OF "2.prems"] by (simp add: unat_add_u32)
  let ?v = "rd s (?b + 4 * Suc (unat it))"
  let ?s = "wr s (?b + 4 * unat it) ?v"
  have ld: "ld32 s (idx_slot h (it + 1)) = Some ?v"
    using ld_slot[OF "2.prems"(1), of "it + 1"] u by simp
  have st: "st32 s (idx_slot h it) ?v = Some ?s"
    using st_slot[OF "2.prems"(1), of it] by simp
  have "idx_area ?s h (Suc (unat (it + 1) + n))"
    using "2.prems" u by simp
  then obtain s' where s': "shift_down ?s h (it + 1) n = Some s'"
    "mpresent s' = mpresent s" "cmem.more s' = cmem.more s"
    and fr: "\<And>lo hi. hi \<le> ?b + 4 * Suc (unat it) \<or> ?b + 4 * (Suc (unat it) + n) \<le> lo \<Longrightarrow> agree ?s s' lo hi"
    and sl: "slots s' h (Suc (unat it)) (Suc (unat it) + n)
        = slots ?s h (Suc (Suc (unat it))) (Suc (Suc (unat it) + n))"
    using "2.IH"[OF ld st] u by auto
  have "rd s' (?b + 4 * unat it) = ?v"
    using agree_rd[OF fr[of "?b + 4 * unat it + 4" "?b + 4 * unat it"]] by simp
  then have "slots s' h (unat it) (unat it + Suc n)
      = ?v # slots ?s h (Suc (Suc (unat it))) (Suc (Suc (unat it) + n))"
    using sl by (subst slots_Cons) auto
  moreover have "slots ?s h (Suc (Suc (unat it))) (Suc (Suc (unat it) + n))
      = slots s h (Suc (Suc (unat it))) (Suc (Suc (unat it) + n))"
    by (rule slots_cong) (auto intro!: agree_wr)
  moreover have "slots s h (Suc (unat it)) (Suc (unat it + Suc n))
      = ?v # slots s h (Suc (Suc (unat it))) (Suc (Suc (unat it) + n))"
    by (subst slots_Cons) auto
  moreover have "agree s s' lo hi" if "hi \<le> ?b + 4 * unat it \<or> ?b + 4 * (unat it + Suc n) \<le> lo" for lo hi
    using that by (intro agree_trans[OF agree_wr[OF agree_refl] fr]) auto
  ultimately show ?case using ld st s' by auto
qed auto

section \<open>Insertion and removal\<close>

lemma take_slots: "n \<le> hi \<Longrightarrow> take n (slots s h 0 hi) = slots s h 0 n"
  by (simp add: slots_def take_map take_upt)

lemma drop_slots: "drop n (slots s h 0 hi) = slots s h n hi"
  by (simp add: slots_def drop_map drop_upt)

definition idx_ins :: "'a cmem_scheme \<Rightarrow> u32 \<Rightarrow> u32 list \<Rightarrow> u32 list" where
  "idx_ins s e xs = takeWhile (\<lambda>p. psize s p < psize s e) xs
     @ e # dropWhile (\<lambda>p. psize s p < psize s e) xs"

text \<open>The state after an index operation: the new list, and nothing else changed.\<close>

definition idx_upd :: "heap \<Rightarrow> 'a cmem_scheme \<Rightarrow> nat \<Rightarrow> u32 list \<Rightarrow> heap \<Rightarrow> 'a cmem_scheme \<Rightarrow> bool" where
  "idx_upd h s n xs h' s' \<longleftrightarrow> h' = h\<lparr>idxused := of_nat (length xs)\<rparr> \<and> idx_list s' h' = xs
     \<and> mpresent s' = mpresent s \<and> cmem.more s' = cmem.more s
     \<and> (\<forall>lo hi. hi \<le> unat (hp_idx h) \<or> unat (hp_idx h) + 4 * n \<le> lo \<longrightarrow> agree s s' lo hi)"

lemma heapIdx_insert_spec:
  assumes area: "idx_area s h (Suc (unat (idxused h)))"
    and room: "unat (idxused h) + 4 + unat (hp_idx h) < unat (start_addr h)"
    and e: "psize_ok s e" and ps: "\<forall>p \<in> set (idx_list s h). psize_ok s p \<and> p \<noteq> e"
  shows "\<exists>h' s'. heapIdx_insert h s e = Some (h', s')
     \<and> idx_upd h s (Suc (unat (idxused h))) (idx_ins s e (idx_list s h)) h' s'"
proof -
  let ?k = "unat (idxused h)" and ?b = "unat (hp_idx h)" and ?xs = "idx_list s h"
  define m where "m = length (takeWhile (\<lambda>p. psize s p < psize s e) ?xs)"
  have k: "?k < 1073741824" using idx_area_bound[OF area] by simp
  have m: "m \<le> ?k" using length_takeWhile_le[of _ ?xs] by (simp add: m_def)
  have um: "unat (of_nat m :: u32) = m" using m k by (simp add: unat_of_nat_u32)
  have "unat (idxused h + 4) = ?k + 4" using k by (simp add: unat_add_u32)
  moreover have "?k + 4 + ?b < 4294967296"
    using room unat_u32_less[of "start_addr h"] by linarith
  ultimately have "unat (idxused h + 4 + hp_idx h) = ?k + 4 + ?b"
    by (simp add: unat_add_u32)
  then have ng: "\<not> idxused h + 4 + hp_idx h \<ge> start_addr h"
    using room by (simp add: le_u32)
  have scan: "insert_scan s h e 0 ?k = Some (Some (of_nat m))"
    using insert_scan_spec[of s h 0 ?k e] idx_area_less[OF area, of ?k] e ps by (simp add: m_def)
  have tw: "takeWhile (\<lambda>p. psize s p < psize s e) ?xs = slots s h 0 m"
    using trans[OF takeWhile_eq_take take_slots[OF m, unfolded m_def]] by (simp add: m_def)
  have dw: "dropWhile (\<lambda>p. psize s p < psize s e) ?xs = slots s h m ?k"
    using trans[OF dropWhile_eq_drop drop_slots] by (simp add: m_def)
  have len: "length (idx_ins s e ?xs) = Suc ?k"
    using m by (simp add: idx_ins_def tw dw)
  have h': "h\<lparr>idxused := of_nat (Suc ?k)\<rparr> = h\<lparr>idxused := idxused h + 1\<rparr>" by (simp add: add.commute)
  have uk: "unat (1 + idxused h) = Suc ?k" using k by (simp add: unat_add_u32)
  show ?thesis
  proof (cases "of_nat m = idxused h")
    case True
    then have mk: "m = ?k" using um by simp
    let ?s = "wr s (?b + 4 * ?k) e"
    have "slots ?s h 0 (Suc ?k) = slots s h 0 ?k @ [e]"
      by (subst slots_snoc) (auto intro!: slots_cong agree_wr)
    then have "idx_upd h s (Suc ?k) (idx_ins s e ?xs) (h\<lparr>idxused := idxused h + 1\<rparr>) ?s"
      using len h' uk mk by (auto simp: idx_upd_def idx_ins_def tw dw add.commute intro!: agree_wr)
    then show ?thesis
      using ng scan True st_slot[OF area, of "idxused h"] by (auto simp: heapIdx_insert_def)
  next
    case False
    then have "m \<noteq> ?k" by auto
    then have mk: "m < ?k" using m by simp
    have d: "unat (idxused h - of_nat m) = ?k - m" using um m by (simp add: unat_sub_u32)
    obtain s1 where s1: "shift_up s h (idxused h) (?k - m) = Some s1"
      "mpresent s1 = mpresent s" "cmem.more s1 = cmem.more s"
      and fr: "\<And>lo hi. hi \<le> ?b + 4 * m \<or> ?b + 4 * Suc ?k \<le> lo \<Longrightarrow> agree s s1 lo hi"
      and sl: "slots s1 h (Suc m) (Suc ?k) = slots s h m ?k"
      using shift_up_spec[OF area, of "?k - m"] m by auto
    let ?s = "wr s1 (?b + 4 * m) e"
    have area1: "idx_area s1 h (Suc ?k)" using area s1(2) by (simp add: idx_area_def mapped_def)
    have st: "st32 s1 (idx_slot h (of_nat m)) e = Some ?s"
      using st_slot[OF area1, of "of_nat m"] um mk by simp
    have "slots ?s h 0 (Suc ?k) = slots ?s h 0 m @ e # slots ?s h (Suc m) (Suc ?k)"
      using mk slots_split[of 0 m "Suc ?k" ?s h] slots_Cons[of m "Suc ?k" ?s h] by simp
    also have "slots ?s h 0 m = slots s h 0 m"
      by (rule slots_cong) (auto intro!: agree_wr fr)
    also have "slots ?s h (Suc m) (Suc ?k) = slots s1 h (Suc m) (Suc ?k)"
      by (rule slots_cong) (auto intro!: agree_wr)
    finally have "idx_upd h s (Suc ?k) (idx_ins s e ?xs) (h\<lparr>idxused := idxused h + 1\<rparr>) ?s"
      using len h' uk sl s1 mk
      by (auto simp: idx_upd_def idx_ins_def tw dw add.commute intro!: agree_wr fr)
    then show ?thesis
      using ng scan False s1 st d by (auto simp: heapIdx_insert_def)
  qed
qed

lemma heapIdx_remove_spec:
  assumes area: "idx_area s h (unat (idxused h))"
  shows "\<exists>h' s'. heapIdx_remove h s e = Some (h', s')
     \<and> idx_upd h s (unat (idxused h)) (remove1 e (idx_list s h)) h' s'"
proof -
  let ?k = "unat (idxused h)" and ?b = "unat (hp_idx h)" and ?xs = "idx_list s h"
  define m where "m = length (takeWhile (\<lambda>p. p \<noteq> e) ?xs)"
  have k: "?k \<le> 1073741824" using idx_area_bound[OF area] by simp
  have m: "m \<le> ?k" using length_takeWhile_le[of _ ?xs] by (simp add: m_def)
  have um: "unat (of_nat m :: u32) = m" using m k by (simp add: unat_of_nat_u32)
  have scan: "remove_scan s h e 0 ?k = Some (of_nat m)"
    using remove_scan_spec[of s h 0 ?k e] area by (simp add: m_def)
  show ?thesis
  proof (cases "e \<in> set ?xs")
    case False
    then have "takeWhile (\<lambda>p. p \<noteq> e) ?xs = ?xs" by (simp add: takeWhile_eq_all_conv) blast
    then have "m = ?k" by (simp only: m_def length_slots diff_zero)
    then show ?thesis
      using False scan by (auto simp: heapIdx_remove_def idx_upd_def remove1_idem)
  next
    case True
    have "m \<noteq> length ?xs"
      using True takeWhile_eq_all_conv[of "\<lambda>p. p \<noteq> e" ?xs] takeWhile_eq_take[of "\<lambda>p. p \<noteq> e" ?xs]
      unfolding m_def by (metis take_all_iff order_refl)
    then have mk: "m < ?k" using m by (simp only: length_slots diff_zero)
    have xe: "?xs ! m = e" using nth_length_takeWhile[of "\<lambda>p. p \<noteq> e" ?xs] mk by (simp add: m_def)
    let ?h = "h\<lparr>idxused := idxused h - 1\<rparr>"
    have u1: "unat (idxused h - 1) = ?k - 1" using mk by (simp add: unat_sub_u32)
    have d: "unat (idxused ?h - of_nat m) = ?k - 1 - m"
      using um mk u1 by (simp add: unat_sub_u32)
    have area': "idx_area s ?h (Suc (unat (of_nat m :: u32) + (?k - 1 - m)))"
      using area mk um by (simp add: idx_area_def)
    obtain s1 where s1: "shift_down s ?h (of_nat m) (?k - 1 - m) = Some s1"
      "mpresent s1 = mpresent s" "cmem.more s1 = cmem.more s"
      and fr: "\<And>lo hi. hi \<le> ?b + 4 * m \<or> ?b + 4 * (?k - 1) \<le> lo \<Longrightarrow> agree s s1 lo hi"
      and sl: "slots s1 h m (?k - 1) = slots s h (Suc m) ?k"
      using shift_down_spec[OF area'] um mk by auto
    have tw: "takeWhile (\<lambda>p. p \<noteq> e) ?xs = slots s h 0 m"
      using trans[OF takeWhile_eq_take take_slots[OF m, unfolded m_def]] by (simp add: m_def)
    have xs: "?xs = slots s h 0 m @ e # slots s h (Suc m) ?k"
      using mk xe slots_split[of 0 m ?k s h] slots_Cons[of m ?k s h] slots_nth[of 0 m ?k s h]
      by (simp only: le0 less_imp_le add_0)
    have "e \<notin> set (takeWhile (\<lambda>p. p \<noteq> e) ?xs)" by (auto dest: set_takeWhileD)
    then have "e \<notin> set (slots s h 0 m)" unfolding tw .
    then have r: "remove1 e ?xs = slots s h 0 m @ slots s h (Suc m) ?k"
      using xs by (metis remove1.simps(2) remove1_append)
    have "slots s1 h 0 (?k - 1) = slots s1 h 0 m @ slots s1 h m (?k - 1)"
      using mk by (intro slots_split) auto
    also have "slots s1 h 0 m = slots s h 0 m"
      by (rule slots_cong) (auto intro!: fr)
    finally have l: "slots s1 h 0 (?k - 1) = remove1 e ?xs" using r sl by simp
    have "of_nat (length (remove1 e ?xs)) = idxused h - 1"
      using True mk by (simp add: length_remove1 of_nat_diff)
    then have "idx_upd h s ?k (remove1 e ?xs) ?h s1"
      using l u1 s1 mk by (auto simp: idx_upd_def intro!: fr)
    moreover have "of_nat m \<noteq> idxused h" using um mk by (metis less_irrefl)
    ultimately show ?thesis
      using scan s1(1) d by (auto simp: heapIdx_remove_def Let_def)
  qed
qed

end
