(* ===== verification/HeapCore.thy ===== *)
theory HeapCore
  imports HeapIdx
begin

text \<open>
  The allocation algorithm shared by the kernel heap (\<^verbatim>\<open>src/kernel/mem/heap.c\<close>) and the
  user heap (\<^verbatim>\<open>src/library/gc/mem.c\<close>), whose \<open>heap_alloc\<close> and \<open>heap_free\<close> are the
  same text: boundary-tagged blocks that tile the heap, best fit through the sorted hole
  index, splitting on allocation, coalescing on release. The two files differ in how the heap
  grows and shrinks; these are the arguments \<open>expand\<close> and \<open>contract\<close> here, instantiated in
  the theories \<open>KHeap\<close> and \<open>UHeap\<close>.

  The invariant \<open>heap_wf\<close> describes the heap by the list of its blocks. The lemmas show that
  taking a hole and releasing a block keep it, and what they do to the list of blocks.
\<close>

section \<open>Model\<close>

definition HEAP_MAGIC :: u32 where "HEAP_MAGIC = 0xBAD0BEEF"
definition HEAP_MIN_SIZE :: u32 where "HEAP_MIN_SIZE = 0x4000"

text \<open>The search loop of \<open>heap_alloc\<close> from slot \<open>it\<close>, \<open>n\<close> slots left.\<close>

fun find_hole :: "'a cmem_scheme \<Rightarrow> heap \<Rightarrow> u32 \<Rightarrow> u32 \<Rightarrow> nat \<Rightarrow> u32 option" where
  "find_hole s h newsize it 0 = Some it"
| "find_hole s h newsize it (Suc n) = do {
     p \<leftarrow> ld32 s (idx_slot h it);
     sz \<leftarrow> ld32 s (p + 8);
     if sz \<ge> newsize then Some it else find_hole s h newsize (it + 1) n }"

text \<open>The rest of \<open>heap_alloc\<close>, once a hole is found in slot \<open>it\<close>.\<close>

definition take_hole ::
    "heap \<Rightarrow> 'a cmem_scheme \<Rightarrow> u32 \<Rightarrow> u32 \<Rightarrow> (u32 \<times> heap \<times> 'a cmem_scheme) option" where
  "take_hole h s newsize it = do {
     loc \<leftarrow> ld32 s (idx_slot h it);
     lsize \<leftarrow> ld32 s (loc + 8);
     let footer = loc + lsize - 8;
     s \<leftarrow> st32 s (loc + 4) 0;
     (h, s) \<leftarrow> heapIdx_remove h s loc;
     lsize \<leftarrow> ld32 s (loc + 8);
     (h, s) \<leftarrow> (if lsize > newsize + 12 + 8 then do {
         s \<leftarrow> st32 s (loc + 8) newsize;
         let newfooter = loc + newsize - 8;
         s \<leftarrow> st32 s (newfooter + 4) loc;
         s \<leftarrow> st32 s newfooter HEAP_MAGIC;
         let nextloc = loc + newsize;
         s \<leftarrow> st32 s (nextloc + 4) 1;
         s \<leftarrow> st32 s nextloc HEAP_MAGIC;
         s \<leftarrow> st32 s (nextloc + 8) (footer - nextloc + 8);
         s \<leftarrow> st32 s (footer + 4) nextloc;
         s \<leftarrow> st32 s footer HEAP_MAGIC;
         heapIdx_insert h s nextloc }
       else Some (h, s));
     Some (loc + 12, h, s) }"

partial_function (option) heap_alloc ::
    "(heap \<Rightarrow> 'a cmem_scheme \<Rightarrow> u32 \<Rightarrow> (u32 \<times> heap \<times> 'a cmem_scheme) option)
     \<Rightarrow> heap \<Rightarrow> 'a cmem_scheme \<Rightarrow> u32 \<Rightarrow> (u32 \<times> heap \<times> 'a cmem_scheme) option" where
  "heap_alloc expand h s sz = do {
     let newsize = sz + 12 + 8;
     it \<leftarrow> find_hole s h newsize 0 (unat (idxused h));
     if it = idxused h then do {
       (r, h, s) \<leftarrow> expand h s ((sz AND 0xFFFFF000) + 0x1000);
       if r = 0 then Some (0, h, s) else heap_alloc expand h s sz }
     else take_hole h s newsize it }"

text \<open>The two merges of \<open>heap_free\<close>; each yields the header and footer to go on with.\<close>

definition unify_left ::
    "heap \<Rightarrow> 'a cmem_scheme \<Rightarrow> u32 \<Rightarrow> u32 \<Rightarrow> (u32 \<times> heap \<times> 'a cmem_scheme) option" where
  "unify_left h s header footer = do {
     let prev_footer = header - 8;
     pm \<leftarrow> ld32 s prev_footer;
     if pm = HEAP_MAGIC then do {
       ph \<leftarrow> ld32 s (prev_footer + 4);
       hole \<leftarrow> ld32 s (ph + 4);
       if hole \<noteq> 0 then do {
         let header = ph;
         (h, s) \<leftarrow> heapIdx_remove h s header;
         s \<leftarrow> st32 s (footer + 4) header;
         s \<leftarrow> st32 s (header + 8) (footer - header + 8);
         Some (header, h, s) }
       else Some (header, h, s) }
     else Some (header, h, s) }"

definition unify_right ::
    "heap \<Rightarrow> 'a cmem_scheme \<Rightarrow> u32 \<Rightarrow> u32 \<Rightarrow> (u32 \<times> heap \<times> 'a cmem_scheme) option" where
  "unify_right h s header footer = do {
     let next_header = footer + 8;
     nm \<leftarrow> ld32 s next_header;
     if nm = HEAP_MAGIC then do {
       hole \<leftarrow> ld32 s (next_header + 4);
       if hole \<noteq> 0 then do {
         (h, s) \<leftarrow> heapIdx_remove h s next_header;
         nsize \<leftarrow> ld32 s (next_header + 8);
         let footer = footer + nsize;
         s \<leftarrow> st32 s (footer + 4) header;
         s \<leftarrow> st32 s (header + 8) (footer - header + 8);
         Some (footer, h, s) }
       else Some (footer, h, s) }
     else Some (footer, h, s) }"

text \<open>Both merges, the hole mark and the index insertion.\<close>

definition release_block ::
    "heap \<Rightarrow> 'a cmem_scheme \<Rightarrow> u32 \<Rightarrow> u32 \<Rightarrow> (u32 \<times> u32 \<times> heap \<times> 'a cmem_scheme) option" where
  "release_block h s header footer = do {
     (header, h, s) \<leftarrow> unify_left h s header footer;
     (footer, h, s) \<leftarrow> unify_right h s header footer;
     s \<leftarrow> st32 s (header + 4) 1;
     (h, s) \<leftarrow> heapIdx_insert h s header;
     Some (header, footer, h, s) }"

definition heap_free ::
    "(heap \<Rightarrow> 'a cmem_scheme \<Rightarrow> (heap \<times> 'a cmem_scheme) option)
     \<Rightarrow> heap \<Rightarrow> 'a cmem_scheme \<Rightarrow> u32 \<Rightarrow> (heap \<times> 'a cmem_scheme) option" where
  "heap_free contract h s ptr =
     (if ptr = 0 then Some (h, s)
      else if ptr < start_addr h \<or> ptr > end_addr h then Some (h, s)
      else do {
        let header = ptr - 12;
        hsize \<leftarrow> ld32 s (header + 8);
        let footer = header + hsize - 8;
        hm \<leftarrow> ld32 s header;
        if hm \<noteq> HEAP_MAGIC then Some (h, s)
        else do {
          fm \<leftarrow> ld32 s footer;
          if fm \<noteq> HEAP_MAGIC then Some (h, s)
          else do {
            (header, footer, h, s) \<leftarrow> release_block h s header footer;
            size \<leftarrow> ld32 s (header + 8);
            if footer = end_addr h - 8 \<and> size \<ge> 0x2000
               \<and> end_addr h - start_addr h > HEAP_MIN_SIZE
            then contract h s
            else Some (h, s) } } })"

text \<open>
  The initialisation common to both \<open>heap_create\<close> functions, after the memory has been
  obtained: the empty index and one hole that covers the heap.
\<close>

definition init_hole :: "heap \<Rightarrow> 'a cmem_scheme \<Rightarrow> u32 \<Rightarrow> (heap \<times> 'a cmem_scheme) option" where
  "init_hole h s start = do {
     let h = h\<lparr>hp_idx := start, idxused := 0\<rparr>;
     let hole = start_addr h;
     s \<leftarrow> st32 s (hole + 8) (end_addr h - start_addr h);
     s \<leftarrow> st32 s hole HEAP_MAGIC;
     s \<leftarrow> st32 s (hole + 4) 1;
     let hole_footer = end_addr h - 8;
     s \<leftarrow> st32 s (hole_footer + 4) hole;
     s \<leftarrow> st32 s hole_footer HEAP_MAGIC;
     heapIdx_insert h s hole }"

section \<open>Blocks\<close>

type_synonym blk = "nat \<times> bool"    \<comment> \<open>size in bytes, is it a hole?\<close>

definition block :: "'a cmem_scheme \<Rightarrow> nat \<Rightarrow> nat \<Rightarrow> bool \<Rightarrow> bool" where
  "block s a n hole \<longleftrightarrow> 20 \<le> n
     \<and> rd s a = HEAP_MAGIC \<and> rd s (a + 4) = (if hole then 1 else 0) \<and> unat (rd s (a + 8)) = n
     \<and> rd s (a + n - 8) = HEAP_MAGIC \<and> unat (rd s (a + n - 4)) = a"

fun layout :: "'a cmem_scheme \<Rightarrow> nat \<Rightarrow> blk list \<Rightarrow> bool" where
  "layout s a [] = True"
| "layout s a ((n, hole) # bs) = (block s a n hole \<and> layout s (a + n) bs)"

definition blk_total :: "blk list \<Rightarrow> nat" where
  "blk_total bs = sum_list (map fst bs)"

text \<open>Addresses of the holes, and address and size of the allocated blocks.\<close>

fun hole_addrs :: "nat \<Rightarrow> blk list \<Rightarrow> nat set" where
  "hole_addrs a [] = {}"
| "hole_addrs a ((n, hole) # bs) = (if hole then {a} else {}) \<union> hole_addrs (a + n) bs"

fun used_blks :: "nat \<Rightarrow> blk list \<Rightarrow> (nat \<times> nat) set" where
  "used_blks a [] = {}"
| "used_blks a ((n, hole) # bs) = (if hole then {} else {(a, n)}) \<union> used_blks (a + n) bs"

text \<open>No two holes are neighbours.\<close>

fun no_adj :: "blk list \<Rightarrow> bool" where
  "no_adj ((n, x) # (m, y) # bs) = (\<not> (x \<and> y) \<and> no_adj ((m, y) # bs))"
| "no_adj _ = True"

lemma blk_total_simps [simp]:
  "blk_total [] = 0" "blk_total (b # bs) = fst b + blk_total bs" "blk_total (xs @ ys) = blk_total xs + blk_total ys"
  by (simp_all add: blk_total_def)

lemma layout_append [simp]:
  "layout s a (xs @ ys) \<longleftrightarrow> layout s a xs \<and> layout s (a + blk_total xs) ys"
  by (induction xs arbitrary: a) (auto simp: add.assoc)

lemma hole_addrs_append [simp]:
  "hole_addrs a (xs @ ys) = hole_addrs a xs \<union> hole_addrs (a + blk_total xs) ys"
  by (induction xs arbitrary: a) (auto simp: add.assoc)

lemma used_blks_append [simp]:
  "used_blks a (xs @ ys) = used_blks a xs \<union> used_blks (a + blk_total xs) ys"
  by (induction xs arbitrary: a) (auto simp: add.assoc)

lemma block_cong: "agree s t a (a + n) \<Longrightarrow> block s a n hole \<Longrightarrow> block t a n hole"
proof -
  assume ag: "agree s t a (a + n)" and b: "block s a n hole"
  have n: "20 \<le> n" using b by (simp add: block_def)
  have "rd t x = rd s x" if "a \<le> x" "x + 4 \<le> a + n" for x
    using agree_rd[OF ag that] .
  then show ?thesis using b n by (simp add: block_def)
qed

lemma layout_cong: "agree s t a (a + blk_total bs) \<Longrightarrow> layout s a bs \<Longrightarrow> layout t a bs"
proof (induction s a bs rule: layout.induct)
  case (2 s a n hole bs)
  have "agree s t a (a + n)" "agree s t (a + n) (a + n + blk_total bs)"
    by (rule agree_sub[OF "2.prems"(1)]; simp)+
  then show ?case using "2.IH" "2.prems" by (auto intro: block_cong)
qed simp

lemma hole_addrs_split:
  assumes "x \<in> hole_addrs a bs"
  obtains xs n ys where "bs = xs @ (n, True) # ys" "x = a + blk_total xs"
  using assms
proof (induction a bs arbitrary: thesis rule: hole_addrs.induct)
  case (2 a n hole bs)
  show ?case
  proof (cases "x \<in> hole_addrs (a + n) bs")
    case True
    then obtain xs m ys where "bs = xs @ (m, True) # ys" "x = a + n + blk_total xs"
      using "2.IH" by blast
    then show ?thesis using "2.prems"(1)[of "(n, hole) # xs" m ys] by simp
  next
    case False
    then show ?thesis using "2.prems"(1)[of "[]" n bs] "2.prems"(2) by (auto split: if_splits)
  qed
qed auto

lemma used_blks_split:
  assumes "(x, n) \<in> used_blks a bs"
  obtains xs ys where "bs = xs @ (n, False) # ys" "x = a + blk_total xs"
  using assms
proof (induction a bs arbitrary: thesis rule: used_blks.induct)
  case (2 a m hole bs)
  show ?case
  proof (cases "(x, n) \<in> used_blks (a + m) bs")
    case True
    then obtain xs ys where "bs = xs @ (n, False) # ys" "x = a + m + blk_total xs"
      using "2.IH" by blast
    then show ?thesis using "2.prems"(1)[of "(m, hole) # xs" ys] by simp
  next
    case False
    then show ?thesis using "2.prems"(1)[of "[]" bs] "2.prems"(2) by (auto split: if_splits)
  qed
qed auto

lemma layout_min: "layout s a bs \<Longrightarrow> (n, hole) \<in> set bs \<Longrightarrow> 20 \<le> n"
  by (induction s a bs rule: layout.induct) (auto simp: block_def)

lemma hole_addrs_bounds:
  "layout s a bs \<Longrightarrow> x \<in> hole_addrs a bs \<Longrightarrow> a \<le> x \<and> x + 20 \<le> a + blk_total bs"
  by (erule hole_addrs_split) (auto simp: block_def)

lemma hole_addrs_lower: "x \<in> hole_addrs a bs \<Longrightarrow> a \<le> x"
  by (erule hole_addrs_split) auto

section \<open>The heap invariant\<close>

text \<open>
  \<open>heap_inv s h bs J\<close>: the blocks \<open>bs\<close> tile the heap, the index is sorted by size and
  holds exactly the addresses \<open>J\<close>, index and heap are in present pages. The word eight bytes
  below the heap, which \<open>heap_free\<close> reads as the footer of the block before the first, is not
  the magic number.
\<close>

definition heap_inv :: "'a cmem_scheme \<Rightarrow> heap \<Rightarrow> blk list \<Rightarrow> nat set \<Rightarrow> bool" where
  "heap_inv s h bs J \<longleftrightarrow>
     layout s (unat (start_addr h)) bs
   \<and> unat (start_addr h) + blk_total bs = unat (end_addr h)
   \<and> 4096 \<le> unat (hp_idx h)
   \<and> unat (hp_idx h) + 4 * unat (idxused h) + 8 \<le> unat (start_addr h)
   \<and> mapped s (unat (hp_idx h)) (unat (end_addr h))
   \<and> distinct (idx_list s h) \<and> unat ` set (idx_list s h) = J
   \<and> sorted (map (psize s) (idx_list s h))
   \<and> (\<forall>x\<in>J. unat (start_addr h) \<le> x \<and> x + 12 \<le> unat (end_addr h))
   \<and> rd s (unat (start_addr h) - 8) \<noteq> HEAP_MAGIC"

definition heap_wf :: "'a cmem_scheme \<Rightarrow> heap \<Rightarrow> blk list \<Rightarrow> bool" where
  "heap_wf s h bs \<longleftrightarrow> heap_inv s h bs (hole_addrs (unat (start_addr h)) bs) \<and> no_adj bs"

text \<open>One more slot fits between the index and the guard word.\<close>

definition idx_room :: "heap \<Rightarrow> bool" where
  "idx_room h \<longleftrightarrow> unat (hp_idx h) + 4 * (unat (idxused h) + 1) + 8 \<le> unat (start_addr h)"

text \<open>The fields that no index operation changes.\<close>

definition same_bounds :: "heap \<Rightarrow> heap \<Rightarrow> bool" where
  "same_bounds h h' \<longleftrightarrow> hp_idx h' = hp_idx h \<and> start_addr h' = start_addr h
     \<and> end_addr h' = end_addr h \<and> max_end h' = max_end h"

lemma same_bounds_refl [simp]: "same_bounds h h"
  by (simp add: same_bounds_def)

lemma same_bounds_trans: "same_bounds h h' \<Longrightarrow> same_bounds h' h'' \<Longrightarrow> same_bounds h h''"
  by (simp add: same_bounds_def)

lemma heap_inv_idx_area: "heap_inv s h bs J \<Longrightarrow> idx_area s h (unat (idxused h))"
  by (auto simp: heap_inv_def idx_area_def elim!: mapped_sub)

lemma heap_inv_room_area: "heap_inv s h bs J \<Longrightarrow> idx_room h \<Longrightarrow> idx_area s h (Suc (unat (idxused h)))"
  by (auto simp: heap_inv_def idx_area_def idx_room_def elim!: mapped_sub)

lemma heap_inv_ld:
  assumes "heap_inv s h bs J" and "unat w = n" and "unat (hp_idx h) \<le> n" and "n + 4 \<le> unat (end_addr h)"
  shows "ld32 s w = Some (rd s n)" and "st32 s w v = Some (wr s n v)"
proof -
  have "unat w + 4 \<le> 4294967296" using assms unat_u32_less[of "end_addr h"] by linarith
  moreover have "mapped s (unat w) (unat w + 4)"
    using assms by (auto simp: heap_inv_def elim!: mapped_sub)
  ultimately show "ld32 s w = Some (rd s n)" "st32 s w v = Some (wr s n v)"
    using assms(2) ld32_rd st32_wr by auto
qed

lemma heap_inv_psize_ok:
  assumes "heap_inv s h bs J" and "unat (start_addr h) \<le> unat p" and "unat p + 12 \<le> unat (end_addr h)"
  shows "psize_ok s p"
proof -
  have "unat p + 12 \<le> 4294967296" using assms unat_u32_less[of "end_addr h"] by linarith
  then show ?thesis using assms by (auto simp: heap_inv_def psize_ok_def elim!: mapped_sub)
qed

text \<open>Rewriting the contents of some consecutive blocks.\<close>

lemma heap_inv_local:
  assumes inv: "heap_inv s h (xs @ mid @ ys) J"
    and a: "a = unat (start_addr h) + blk_total xs"
    and lo: "agree s t (unat (hp_idx h)) a"
    and hi: "agree s t (a + blk_total mid) (unat (end_addr h))"
    and pr: "mpresent t = mpresent s"
    and lay: "layout t a mid'" and tot: "blk_total mid' = blk_total mid"
    and sz: "\<forall>x\<in>J. rd t (x + 8) = rd s (x + 8)"
  shows "heap_inv t h (xs @ mid' @ ys) J"
proof -
  let ?S = "unat (start_addr h)" and ?I = "unat (hp_idx h)"
  have b: "?I + 4 * unat (idxused h) + 8 \<le> ?S" and J: "unat ` set (idx_list s h) = J"
    and e: "?S + blk_total (xs @ mid @ ys) = unat (end_addr h)"
    using inv by (auto simp: heap_inv_def)
  have idx: "idx_list t h = idx_list s h"
    using lo a b by (intro slots_cong) (auto elim!: agree_sub)
  have "psize t p = psize s p" if "p \<in> set (idx_list s h)" for p
    using that sz J by (auto simp: psize_def)
  then have "map (psize t) (idx_list t h) = map (psize s) (idx_list s h)"
    using idx by simp
  then have srt: "sorted (map (psize t) (idx_list t h))"
    using inv by (simp only: heap_inv_def)
  have "layout s ?S xs" "layout s (a + blk_total mid) ys"
    using inv a by (simp_all add: heap_inv_def)
  moreover have "agree s t ?S (?S + blk_total xs)"
    using a b by (intro agree_sub[OF lo]) auto
  moreover have "agree s t (a + blk_total mid) (a + blk_total mid + blk_total ys)"
    using a e by (intro agree_sub[OF hi]) auto
  ultimately have "layout t ?S xs" "layout t (a + blk_total mid') ys"
    using tot by (auto intro: layout_cong)
  moreover have "rd t (?S - 8) = rd s (?S - 8)"
    using lo a b by (intro agree_rd) auto
  moreover have "mapped t ?I (unat (end_addr h))"
    using inv pr by (simp add: heap_inv_def mapped_def)
  ultimately show ?thesis
    using inv lay tot srt a unfolding heap_inv_def idx by simp
qed

text \<open>Replacing the index.\<close>

lemma heap_inv_idx:
  assumes inv: "heap_inv s h bs J" and h': "same_bounds h h'"
    and ag: "agree s t (unat (start_addr h) - 8) (unat (end_addr h))" and pr: "mpresent t = mpresent s"
    and room: "unat (hp_idx h) + 4 * unat (idxused h') + 8 \<le> unat (start_addr h)"
    and d: "distinct (idx_list t h')" and J': "unat ` set (idx_list t h') = J'"
    and srt: "sorted (map (psize s) (idx_list t h'))"
    and bnd: "\<forall>x\<in>J'. unat (start_addr h) \<le> x \<and> x + 12 \<le> unat (end_addr h)"
  shows "heap_inv t h' bs J'"
proof -
  let ?S = "unat (start_addr h)"
  note b = inv[unfolded heap_inv_def]
  have "psize t p = psize s p" if "p \<in> set (idx_list t h')" for p
  proof -
    have "?S \<le> unat p \<and> unat p + 12 \<le> unat (end_addr h)" using that J' bnd by blast
    then show ?thesis
      unfolding psize_def by (intro arg_cong[where f = unat] agree_rd[OF ag]) auto
  qed
  then have "map (psize t) (idx_list t h') = map (psize s) (idx_list t h')" by simp
  then have "sorted (map (psize t) (idx_list t h'))" using srt by (simp only:)
  moreover have "agree s t ?S (?S + blk_total bs)"
    using b by (intro agree_sub[OF ag]) auto
  then have "layout t ?S bs" using b by (blast intro: layout_cong)
  moreover have "rd t (?S - 8) = rd s (?S - 8)"
    using b by (intro agree_rd[OF ag]) auto
  moreover have "mapped t (unat (hp_idx h)) (unat (end_addr h))"
    using b pr by (simp add: mapped_def)
  ultimately show ?thesis
    using b h' room d J' bnd unfolding heap_inv_def same_bounds_def by simp
qed

text \<open>What an index operation leaves alone.\<close>

definition idx_frame :: "heap \<Rightarrow> 'a cmem_scheme \<Rightarrow> heap \<Rightarrow> 'a cmem_scheme \<Rightarrow> bool" where
  "idx_frame h s h' s' \<longleftrightarrow> same_bounds h h' \<and> mpresent s' = mpresent s \<and> cmem.more s' = cmem.more s
     \<and> agree s s' 0 (unat (hp_idx h)) \<and> (\<forall>hi. agree s s' (unat (start_addr h) - 8) hi)"

lemma idx_frame_of_upd:
  assumes "idx_upd h s n xs h' s'" and "unat (hp_idx h) + 4 * n + 8 \<le> unat (start_addr h)"
  shows "idx_frame h s h' s'"
  using assms by (auto simp: idx_upd_def idx_frame_def same_bounds_def)

lemma idx_updD:
  assumes "idx_upd h s n xs h' s'"
  shows "idx_list s' h' = xs" and "idxused h' = of_nat (length xs)"
  using assms by (auto simp: idx_upd_def)

lemma heap_inv_remove:
  assumes inv: "heap_inv s h bs J"
  shows "\<exists>h' s'. heapIdx_remove h s e = Some (h', s') \<and> heap_inv s' h' bs (J - {unat e})
     \<and> idx_frame h s h' s' \<and> unat (idxused h') = (if unat e \<in> J then unat (idxused h) - 1 else unat (idxused h))"
proof -
  let ?xs = "idx_list s h"
  note b = inv[unfolded heap_inv_def]
  obtain h' s' where r: "heapIdx_remove h s e = Some (h', s')"
    and u: "idx_upd h s (unat (idxused h)) (remove1 e ?xs) h' s'"
    using heapIdx_remove_spec[OF heap_inv_idx_area[OF inv]] by blast
  have fr: "idx_frame h s h' s'" using idx_frame_of_upd[OF u] b by simp
  have dis: "distinct ?xs" using b by simp
  have J: "unat ` set (remove1 e ?xs) = J - {unat e}"
    using b dis by (auto simp: set_remove1_eq dest: unat_eqD)
  have le: "length (remove1 e ?xs) \<le> unat (idxused h)" by (simp add: length_remove1)
  then have k: "unat (idxused h') = length (remove1 e ?xs)"
    using idx_updD(2)[OF u] le_less_trans[OF _ unat_u32_less[of "idxused h"]]
    by (simp add: unat_of_nat_u32)
  have "unat e \<in> J \<longleftrightarrow> e \<in> set ?xs" using b by (auto dest: unat_eqD)
  then have k': "unat (idxused h') = (if unat e \<in> J then unat (idxused h) - 1 else unat (idxused h))"
    using k by (simp add: length_remove1)
  have "heap_inv s' h' bs (J - {unat e})"
  proof (rule heap_inv_idx[OF inv])
    show "sorted (map (psize s) (idx_list s' h'))"
      using b by (simp add: idx_updD(1)[OF u] sorted_map_remove1)
    show "distinct (idx_list s' h')" "unat ` set (idx_list s' h') = J - {unat e}"
      using dis J by (simp_all only: idx_updD(1)[OF u] distinct_remove1)
  qed (use fr b k le in \<open>auto simp: idx_frame_def\<close>)
  then show ?thesis using r fr k' by blast
qed

lemma sorted_idx_ins:
  "sorted (map (psize s) xs) \<Longrightarrow> sorted (map (psize s) (idx_ins s e xs))"
  by (induction xs) (auto simp: idx_ins_def dest!: set_takeWhileD set_dropWhileD)

lemma set_idx_ins: "set (idx_ins s e xs) = insert e (set xs)"
  unfolding idx_ins_def by (metis Un_insert_right list.simps(15) set_append takeWhile_dropWhile_id)

lemma distinct_idx_ins: "distinct xs \<Longrightarrow> e \<notin> set xs \<Longrightarrow> distinct (idx_ins s e xs)"
proof -
  assume d: "distinct xs" and e: "e \<notin> set xs"
  let ?P = "\<lambda>p. psize s p < psize s e"
  have "distinct (takeWhile ?P xs @ dropWhile ?P xs)"
    "e \<notin> set (takeWhile ?P xs @ dropWhile ?P xs)"
    unfolding takeWhile_dropWhile_id by (fact d e)+
  then show ?thesis
    unfolding idx_ins_def distinct_append set_append by simp
qed

lemma length_idx_ins: "length (idx_ins s e xs) = Suc (length xs)"
  by (induction xs) (auto simp: idx_ins_def)

lemma heap_inv_insert:
  assumes inv: "heap_inv s h bs J" and room: "idx_room h" and e: "unat e \<notin> J"
    and bnd: "unat (start_addr h) \<le> unat e" "unat e + 12 \<le> unat (end_addr h)"
  shows "\<exists>h' s'. heapIdx_insert h s e = Some (h', s') \<and> heap_inv s' h' bs (insert (unat e) J)
     \<and> idx_frame h s h' s' \<and> unat (idxused h') = Suc (unat (idxused h))"
proof -
  let ?xs = "idx_list s h"
  note b = inv[unfolded heap_inv_def]
  have ok: "\<forall>p \<in> set ?xs. psize_ok s p \<and> p \<noteq> e"
    using b e heap_inv_psize_ok[OF inv] by (metis imageI)
  obtain h' s' where r: "heapIdx_insert h s e = Some (h', s')"
    and u: "idx_upd h s (Suc (unat (idxused h))) (idx_ins s e ?xs) h' s'"
    using heapIdx_insert_spec[OF heap_inv_room_area[OF inv room] _ heap_inv_psize_ok[OF inv bnd] ok]
      room by (auto simp: idx_room_def)
  have fr: "idx_frame h s h' s'" using idx_frame_of_upd[OF u] room by (simp add: idx_room_def)
  have "Suc (unat (idxused h)) < 4294967296"
    using idx_area_bound[OF heap_inv_room_area[OF inv room]] by simp
  then have k: "unat (idxused h') = Suc (unat (idxused h))"
    using idx_updD(2)[OF u] by (simp add: length_idx_ins unat_of_nat_u32 del: of_nat_Suc)
  have "heap_inv s' h' bs (insert (unat e) J)"
  proof (rule heap_inv_idx[OF inv])
    show "unat ` set (idx_list s' h') = insert (unat e) J"
      using b by (simp add: idx_updD(1)[OF u] set_idx_ins)
    show "distinct (idx_list s' h')"
      using b ok by (auto simp: idx_updD(1)[OF u] intro!: distinct_idx_ins)
    show "sorted (map (psize s) (idx_list s' h'))"
      using b by (simp add: idx_updD(1)[OF u] sorted_idx_ins)
    show "unat (hp_idx h) + 4 * unat (idxused h') + 8 \<le> unat (start_addr h)"
      using k room by (simp add: idx_room_def)
  qed (use fr b bnd in \<open>auto simp: idx_frame_def\<close>)
  then show ?thesis using r fr k by blast
qed

section \<open>Allocation\<close>

lemma find_hole_spec:
  assumes "idx_area s h (unat it + n)"
    and "\<forall>p \<in> set (slots s h (unat it) (unat it + n)). psize_ok s p"
  shows "find_hole s h w it n = Some (it + of_nat
     (length (takeWhile (\<lambda>p. psize s p < unat w) (slots s h (unat it) (unat it + n)))))"
  using assms
proof (induction s h w it n rule: find_hole.induct)
  case (2 s h w it n)
  let ?p = "rd s (unat (hp_idx h) + 4 * unat it)"
  have ld: "ld32 s (idx_slot h it) = Some ?p"
    using ld_slot[OF "2.prems"(1), of it] by simp
  have split: "slots s h (unat it) (unat it + Suc n) = ?p # slots s h (Suc (unat it)) (unat it + Suc n)"
    by (rule slots_Cons) simp
  have u: "unat (it + 1) = Suc (unat it)"
    using idx_area_bound[OF "2.prems"(1)] by (simp add: unat_add_u32)
  have p: "psize_ok s ?p" using "2.prems"(2) unfolding split by simp
  have lt: "w \<le> rd s (unat ?p + 8) \<longleftrightarrow> \<not> psize s ?p < unat w"
    by (auto simp: psize_def le_u32)
  show ?case
  proof (cases "psize s ?p < unat w")
    case True
    have "find_hole s h w (it + 1) n = Some (it + 1 + of_nat
       (length (takeWhile (\<lambda>p. psize s p < unat w) (slots s h (Suc (unat it)) (Suc (unat it) + n)))))"
      using "2.IH"[OF ld ld_psize[OF p]] "2.prems" True split unfolding u by (simp add: lt)
    then show ?thesis using ld ld_psize[OF p] lt True unfolding split by simp
  next
    case False
    then show ?thesis using ld ld_psize[OF p] lt unfolding split by simp
  qed
qed auto

lemma holes_outside:
  assumes "layout s S (xs @ (n, True) # ys)" and "x \<in> hole_addrs S (xs @ (n, True) # ys)"
  shows "x + 20 \<le> S + blk_total xs \<or> x = S + blk_total xs \<or> S + blk_total xs + n \<le> x"
  using assms hole_addrs_bounds[of s S xs x] hole_addrs_lower[of x "S + blk_total xs + n" ys]
  by auto

text \<open>The writes that cut a block of \<open>n\<close> bytes at \<open>a\<close> after \<open>m\<close> bytes.\<close>

definition cut_block :: "'a cmem_scheme \<Rightarrow> nat \<Rightarrow> nat \<Rightarrow> nat \<Rightarrow> u32 \<Rightarrow> u32 \<Rightarrow> u32 \<Rightarrow> u32 \<Rightarrow> 'a cmem_scheme" where
  "cut_block s a m n w1 w2 w3 w4 =
     wr (wr (wr (wr (wr (wr (wr (wr s (a + 8) w1) (a + m - 4) w2) (a + m - 8) HEAP_MAGIC)
       (a + m + 4) 1) (a + m) HEAP_MAGIC) (a + m + 8) w3) (a + n - 4) w4) (a + n - 8) HEAP_MAGIC"

lemma cut_block_rd:
  assumes "20 \<le> m" and "m + 20 < n" and t: "t = cut_block s a m n w1 w2 w3 w4"
  shows "rd t a = rd s a" "rd t (a + 4) = rd s (a + 4)" "rd t (a + 8) = w1"
    "rd t (a + m - 8) = HEAP_MAGIC" "rd t (a + m - 4) = w2"
    "rd t (a + m) = HEAP_MAGIC" "rd t (a + m + 4) = 1" "rd t (a + m + 8) = w3"
    "rd t (a + n - 8) = HEAP_MAGIC" "rd t (a + n - 4) = w4"
proof -
  define p where "p = m - 8"
  define q where "q = n - m - 8"
  have p: "m = p + 8" and q: "n = p + 8 + q + 8" using assms(1,2) by (auto simp: p_def q_def)
  have pq: "12 \<le> p" "12 < q" using assms(1,2) p q by auto
  have e: "a + m - 8 = a + p" "a + m - 4 = a + p + 4" "a + n - 8 = a + p + 8 + q" "a + n - 4 = a + p + 8 + q + 4"
    "a + m = a + p + 8"
    using p q by auto
  show "rd t a = rd s a" "rd t (a + 4) = rd s (a + 4)" "rd t (a + 8) = w1"
    "rd t (a + m - 8) = HEAP_MAGIC" "rd t (a + m - 4) = w2"
    "rd t (a + m) = HEAP_MAGIC" "rd t (a + m + 4) = 1" "rd t (a + m + 8) = w3"
    "rd t (a + n - 8) = HEAP_MAGIC" "rd t (a + n - 4) = w4"
    using pq unfolding t cut_block_def e by (simp_all add: rd_wr_other)
qed

lemma cut_block_layout:
  assumes "block s a n False" and m: "20 \<le> m" "m + 20 < n"
    and "unat w1 = m" "unat w2 = a" "unat w3 = n - m" "unat w4 = a + m"
  shows "layout (cut_block s a m n w1 w2 w3 w4) a [(m, False), (n - m, True)]"
proof -
  have "a + m + (n - m) = a + n" using m by simp
  then show ?thesis using assms by (simp add: block_def cut_block_rd[OF m refl])
qed

lemma cut_block_agree:
  assumes "20 \<le> m" and "m + 20 < n" and "hi \<le> a \<or> a + n \<le> lo"
  shows "agree s (cut_block s a m n w1 w2 w3 w4) lo hi"
  using assms unfolding cut_block_def by (intro agree_wr agree_refl) auto

lemma cut_block_present [simp]:
  "mpresent (cut_block s a m n w1 w2 w3 w4) = mpresent s"
  "cmem.more (cut_block s a m n w1 w2 w3 w4) = cmem.more s"
  by (simp_all add: cut_block_def)

lemma block_set_hole:
  "block s a n b \<Longrightarrow> block (wr s (a + 4) (if c then 1 else 0)) a n c"
proof -
  assume b: "block s a n b"
  define k where "k = n - 8"
  have k: "n = k + 8" "12 \<le> k" using b by (auto simp: k_def block_def)
  have "a + n - 8 = a + k" "a + n - 4 = a + k + 4" using k by auto
  then show ?thesis using b k(2) by (simp add: block_def rd_wr_other)
qed

text \<open>No indexed header lies inside the \<open>n\<close> bytes at \<open>a\<close>, but for \<open>a\<close> itself.\<close>

definition apart :: "nat set \<Rightarrow> nat \<Rightarrow> nat \<Rightarrow> bool" where
  "apart J a n \<longleftrightarrow> (\<forall>x\<in>J. x + 20 \<le> a \<or> x = a \<or> a + n \<le> x)"

lemma apart_diff: "apart J a n \<Longrightarrow> apart (J - X) a n"
  by (simp add: apart_def)

lemma heap_inv_set_hole:
  assumes inv: "heap_inv s h (xs @ (n, b) # ys) J" and a: "a = unat (start_addr h) + blk_total xs"
    and J: "apart J a n" and w: "w = (if c then 1 else 0)"
  shows "heap_inv (wr s (a + 4) w) h (xs @ (n, c) # ys) J"
proof -
  have blk: "block s a n b" using inv a by (simp add: heap_inv_def)
  then have n: "20 \<le> n" by (simp add: block_def)
  have sz: "\<forall>x\<in>J. rd (wr s (a + 4) w) (x + 8) = rd s (x + 8)"
    using J n by (intro ballI rd_wr_other) (auto simp: apart_def)
  have "heap_inv (wr s (a + 4) w) h (xs @ [(n, c)] @ ys) J"
    by (rule heap_inv_local[where mid = "[(n, b)]", OF _ a])
      (use inv n block_set_hole[OF blk, of c] sz w in \<open>auto intro!: agree_wr\<close>)
  then show ?thesis by simp
qed

lemma heap_inv_fit:
  assumes "heap_inv s h (xs @ (n, b) # ys) J" and "a = unat (start_addr h) + blk_total xs"
  shows "unat (hp_idx h) + 8 \<le> a" "4096 \<le> unat (hp_idx h)" "a + n \<le> unat (end_addr h)"
    "a + n < 4294967296" "20 \<le> n" "block s a n b"
proof -
  show b: "block s a n b" and e: "a + n \<le> unat (end_addr h)"
    using assms by (simp_all add: heap_inv_def)
  then show "20 \<le> n" by (simp add: block_def)
  show "a + n < 4294967296" using e unat_u32_less[of "end_addr h"] by linarith
  show "unat (hp_idx h) + 8 \<le> a" "4096 \<le> unat (hp_idx h)" using assms by (auto simp: heap_inv_def)
qed

text \<open>Address computations inside a block.\<close>

lemma blk_addrs:
  fixes loc :: u32
  assumes "unat loc = a" and "a + n < 4294967296" and "20 \<le> n"
  shows "unat (loc + 4) = a + 4" "unat (loc + 8) = a + 8" "unat (loc + 12) = a + 12"
    and "unat w = n \<Longrightarrow> unat (loc + w - 8) = a + n - 8"
    and "unat w = n \<Longrightarrow> unat (loc + w - 8 + 4) = a + n - 4"
    and "unat w = n \<Longrightarrow> unat (loc + w) = a + n"
proof -
  show "unat (loc + 4) = a + 4" "unat (loc + 8) = a + 8" "unat (loc + 12) = a + 12"
    using assms by (simp_all add: unat_add_u32)
  assume w: "unat w = n"
  then show s: "unat (loc + w) = a + n" using assms by (simp add: unat_add_u32)
  then show f: "unat (loc + w - 8) = a + n - 8" using assms by (simp add: unat_sub_u32)
  show "unat (loc + w - 8 + 4) = a + n - 4"
    using f assms by (subst unat_add_u32) auto
qed

lemma heap_inv_mapped: "heap_inv s h bs J \<Longrightarrow> mapped s (unat (hp_idx h)) (unat (end_addr h))"
  by (simp add: heap_inv_def)

lemma end_addr_bound: "unat (end_addr h) < 4294967296"
  by (rule unat_u32_less)

lemma heap_inv_cut:
  assumes inv: "heap_inv s h (xs @ (n, False) # ys) J" and a: "a = unat (start_addr h) + blk_total xs"
    and J: "apart J a n" "a \<notin> J" and m: "20 \<le> m" "m + 20 < n"
    and w: "unat w1 = m" "unat w2 = a" "unat w3 = n - m" "unat w4 = a + m"
  shows "heap_inv (cut_block s a m n w1 w2 w3 w4) h (xs @ [(m, False), (n - m, True)] @ ys) J"
proof (rule heap_inv_local[where mid = "[(n, False)]", OF _ a])
  show "heap_inv s h (xs @ [(n, False)] @ ys) J" using inv by simp
  show "\<forall>x\<in>J. rd (cut_block s a m n w1 w2 w3 w4) (x + 8) = rd s (x + 8)"
  proof
    fix x assume "x \<in> J"
    then have "x + 20 \<le> a \<or> a + n \<le> x" using J by (auto simp: apart_def)
    then have "agree s (cut_block s a m n w1 w2 w3 w4) (x + 8) (x + 12)"
      by (intro cut_block_agree[OF m]) auto
    then show "rd (cut_block s a m n w1 w2 w3 w4) (x + 8) = rd s (x + 8)"
      by (rule agree_rd) auto
  qed
qed (use heap_inv_fit[OF inv a] m w in \<open>auto simp: cut_block_layout simp del: layout.simps intro!: cut_block_agree\<close>)

text \<open>The stores of the splitting branch of \<open>take_hole\<close>.\<close>

lemma cut_stores:
  fixes loc newsize lsize :: u32
  assumes mp: "mapped s lo hi" "hi < 4294967296" and ad: "unat loc = a" "lo \<le> a" "a + n \<le> hi"
    and sz: "unat newsize = m" "unat lsize = n" "20 \<le> m" "m + 20 < n"
  defines "footer \<equiv> loc + lsize - 8" and "newfooter \<equiv> loc + newsize - 8" and "nextloc \<equiv> loc + newsize"
  shows "do { s \<leftarrow> st32 s (loc + 8) newsize;
         s \<leftarrow> st32 s (newfooter + 4) loc;
         s \<leftarrow> st32 s newfooter HEAP_MAGIC;
         s \<leftarrow> st32 s (nextloc + 4) 1;
         s \<leftarrow> st32 s nextloc HEAP_MAGIC;
         s \<leftarrow> st32 s (nextloc + 8) (footer - nextloc + 8);
         s \<leftarrow> st32 s (footer + 4) nextloc;
         s \<leftarrow> st32 s footer HEAP_MAGIC;
         f s } = f (cut_block s a m n newsize loc (footer - nextloc + 8) nextloc)"
    and "unat (footer - nextloc + 8) = n - m" and "unat nextloc = a + m"
proof -
  have n: "a + n < 4294967296" "20 \<le> n" and m': "a + m < 4294967296" using mp ad sz by linarith+
  note A = blk_addrs[OF ad(1) n(1,2)] and B = blk_addrs[OF ad(1) m' sz(3)]
  have f: "unat footer = a + n - 8" "unat (footer + 4) = a + n - 4"
    unfolding footer_def using A(4,5) sz(2) by auto
  have g: "unat newfooter = a + m - 8" "unat (newfooter + 4) = a + m - 4" "unat nextloc = a + m"
    unfolding newfooter_def nextloc_def using B(4,5,6) sz(1) by auto
  have k: "unat (nextloc + 4) = a + m + 4" "unat (nextloc + 8) = a + m + 8"
    using g(3) n sz by (simp_all add: unat_add_u32)
  show "unat nextloc = a + m" by (rule g(3))
  have "unat (footer - nextloc) = n - m - 8" using f g sz by (subst unat_sub_u32) auto
  then show "unat (footer - nextloc + 8) = n - m" using n sz by (subst unat_add_u32) auto
  show "do { s \<leftarrow> st32 s (loc + 8) newsize;
         s \<leftarrow> st32 s (newfooter + 4) loc;
         s \<leftarrow> st32 s newfooter HEAP_MAGIC;
         s \<leftarrow> st32 s (nextloc + 4) 1;
         s \<leftarrow> st32 s nextloc HEAP_MAGIC;
         s \<leftarrow> st32 s (nextloc + 8) (footer - nextloc + 8);
         s \<leftarrow> st32 s (footer + 4) nextloc;
         s \<leftarrow> st32 s footer HEAP_MAGIC;
         f s } = f (cut_block s a m n newsize loc (footer - nextloc + 8) nextloc)"
    using mp ad sz n unfolding cut_block_def
    by (simp add: st_in[OF _ mp(2) A(2)] st_in[OF _ mp(2) f(1)] st_in[OF _ mp(2) f(2)]
        st_in[OF _ mp(2) g(1)] st_in[OF _ mp(2) g(2)] st_in[OF _ mp(2) g(3)]
        st_in[OF _ mp(2) k(1)] st_in[OF _ mp(2) k(2)])
qed

text \<open>
  What taking a hole does: \<open>taken n m\<close> replaces the hole of \<open>n\<close> bytes when \<open>m\<close> bytes are
  needed, and \<open>off_block\<close> says that nothing else in the heap changes.
\<close>

definition taken :: "nat \<Rightarrow> nat \<Rightarrow> blk list" where
  "taken n m = (if m + 20 < n then [(m, False), (n - m, True)] else [(n, False)])"

definition off_block :: "heap \<Rightarrow> 'a cmem_scheme \<Rightarrow> heap \<Rightarrow> 'a cmem_scheme \<Rightarrow> nat \<Rightarrow> nat \<Rightarrow> bool" where
  "off_block h s h' s' a n \<longleftrightarrow> same_bounds h h' \<and> mpresent s' = mpresent s \<and> cmem.more s' = cmem.more s
     \<and> agree s s' 0 (unat (hp_idx h)) \<and> agree s s' (unat (start_addr h) - 8) a
     \<and> (\<forall>hi. agree s s' (a + n) hi)"

lemma off_block_local:
  assumes "mpresent t = mpresent s" and "cmem.more t = cmem.more s"
    and "\<And>lo hi. hi \<le> a \<or> a + n \<le> lo \<Longrightarrow> agree s t lo hi" and "unat (hp_idx h) \<le> a"
  shows "off_block h s h t a n"
  using assms by (auto simp: off_block_def)

lemma off_block_idx:
  assumes "idx_frame h s h' s'" and "unat (start_addr h) \<le> a"
  shows "off_block h s h' s' a n"
proof -
  have "agree s s' (unat (start_addr h) - 8) hi" for hi using assms by (simp add: idx_frame_def)
  then have "agree s s' (unat (start_addr h) - 8) a" "agree s s' (a + n) hi" for hi
    using assms(2) by (auto intro: agree_sub[of s s' "unat (start_addr h) - 8" hi])
  then show ?thesis using assms by (simp add: off_block_def idx_frame_def)
qed

lemma off_block_trans:
  assumes "off_block h s h1 s1 a n" and "off_block h1 s1 h2 s2 a n"
  shows "off_block h s h2 s2 a n"
proof -
  have "hp_idx h1 = hp_idx h" "start_addr h1 = start_addr h"
    using assms(1) by (auto simp: off_block_def same_bounds_def)
  then show ?thesis using assms
    unfolding off_block_def by (auto intro: agree_trans same_bounds_trans)
qed

lemma take_hole_ok:
  assumes inv: "heap_inv s h (xs @ (n, True) # ys) J" and a: "a = unat (start_addr h) + blk_total xs"
    and J: "apart J a n" "a \<in> J" and k: "k < unat (idxused h)" "unat (idx_list s h ! k) = a"
    and m: "unat newsize = m" "20 \<le> m" "m \<le> n"
  shows "\<exists>h' s'. take_hole h s newsize (of_nat k) = Some (of_nat (a + 12), h', s')
     \<and> heap_inv s' h' (xs @ taken n m @ ys) (J - {a} \<union> (if m + 20 < n then {a + m} else {}))
     \<and> off_block h s h' s' a n
     \<and> unat (idxused h') = (if m + 20 < n then unat (idxused h) else unat (idxused h) - 1)"
proof -
  let ?I = "unat (hp_idx h)" and ?E = "unat (end_addr h)"
  note fit = heap_inv_fit[OF inv a]
  define loc where "loc = idx_list s h ! k"
  define lsize where "lsize = rd s (a + 8)"
  have loc: "unat loc = a" and ls: "unat lsize = n"
    using k fit by (auto simp: loc_def lsize_def block_def)
  note A = blk_addrs[OF loc fit(4,5)]
  note mp = heap_inv_mapped[OF inv] end_addr_bound
  have k32: "unat (of_nat k :: u32) = k" using k(1) unat_u32_less[of "idxused h"] by (intro unat_of_nat_u32) linarith
  have ld1: "ld32 s (idx_slot h (of_nat k)) = Some loc"
    using ld_slot[OF heap_inv_idx_area[OF inv], of "of_nat k"] k k32 by (simp add: loc_def slots_nth)
  have ld2: "ld32 s (loc + 8) = Some lsize"
    unfolding lsize_def using fit by (intro ld_in[OF mp A(2)]) auto
  have st1: "st32 s (loc + 4) 0 = Some (wr s (a + 4) 0)"
    using fit by (intro st_in[OF mp A(1)]) auto
  have inv1: "heap_inv (wr s (a + 4) 0) h (xs @ (n, False) # ys) J"
    using heap_inv_set_hole[OF inv a J(1), of 0 False] by simp
  obtain h2 s2 where r: "heapIdx_remove h (wr s (a + 4) 0) loc = Some (h2, s2)"
    and inv2: "heap_inv s2 h2 (xs @ (n, False) # ys) (J - {a})"
    and fr2: "idx_frame h (wr s (a + 4) 0) h2 s2" and k2: "unat (idxused h2) = unat (idxused h) - 1"
    using heap_inv_remove[OF inv1, of loc] loc J(2) by auto
  have h2: "unat (hp_idx h2) = ?I" "unat (start_addr h2) = unat (start_addr h)" "unat (end_addr h2) = ?E"
    "same_bounds h h2"
    using fr2 by (auto simp: idx_frame_def same_bounds_def)
  have a2: "a = unat (start_addr h2) + blk_total xs" using a h2 by simp
  note fit2 = heap_inv_fit[OF inv2 a2]
  have off2: "off_block h s h2 s2 a n"
    using fit a by (intro off_block_trans[OF off_block_local off_block_idx[OF fr2]])
      (auto intro!: agree_wr)
  have "unat (rd s2 (a + 8)) = unat lsize" using fit2(6) ls by (simp add: block_def)
  then have ld3: "ld32 s2 (loc + 8) = Some lsize"
    using ld_in[OF heap_inv_mapped[OF inv2] end_addr_bound A(2)] fit2 h2 by (auto dest: unat_eqD)
  have e: "n + 4096 \<le> ?E" using fit a by linarith
  have "m + 20 < 4294967296" using m e end_addr_bound[of h] by linarith
  then have "unat (newsize + 12 + 8) = m + 20"
    using m by (simp add: unat_add_u32)
  then have cond: "newsize + 12 + 8 < lsize \<longleftrightarrow> m + 20 < n"
    using ls by (simp add: less_u32)
  have ret: "loc + 12 = of_nat (a + 12)"
    using A(3) fit by (intro unat_eqD) (simp add: unat_of_nat_u32 del: of_nat_add)
  note ev = ld1 ld2 st1 r ld3 cond ret
  show ?thesis
  proof (cases "m + 20 < n")
    case False
    then have "take_hole h s newsize (of_nat k) = Some (of_nat (a + 12), h2, s2)"
      by (simp only: take_hole_def Let_def ev Option.bind_lunit prod.case if_False)
    then show ?thesis using False inv2 off2 k2 by (simp add: taken_def)
  next
    case True
    let ?d = "loc + lsize - 8 - (loc + newsize) + 8"
    let ?t = "cut_block s2 a m n newsize loc ?d (loc + newsize)"
    note cs = cut_stores[OF heap_inv_mapped[OF inv2] end_addr_bound loc _ _ m(1) ls m(2) True]
    have fit2le: "unat (hp_idx h2) \<le> a" "a + n \<le> unat (end_addr h2)" using fit2 by auto
    have c: "unat ?d = n - m" "unat (loc + newsize) = a + m"
      by (fact cs(2,3)[OF fit2le])+
    have inv3: "heap_inv ?t h2 (xs @ [(m, False), (n - m, True)] @ ys) (J - {a})"
      using heap_inv_cut[OF inv2 a2 apart_diff[OF J(1)] _ m(2) True m(1) loc c] by simp
    have room: "idx_room h2" using inv k k2 h2 unfolding heap_inv_def idx_room_def by auto
    have ni: "unat (loc + newsize) \<notin> J - {a}"
      using J(1) c(2) m True unfolding apart_def by auto
    have bnd: "unat (start_addr h2) \<le> unat (loc + newsize)" "unat (loc + newsize) + 12 \<le> unat (end_addr h2)"
      using c(2) a2 fit2(3) True by linarith+
    from heap_inv_insert[OF inv3 room ni bnd, unfolded c(2)] obtain h4 s4 where i: "heapIdx_insert h2 ?t (loc + newsize) = Some (h4, s4)"
      and inv4: "heap_inv s4 h4 (xs @ [(m, False), (n - m, True)] @ ys) (insert (a + m) (J - {a}))"
      and fr4: "idx_frame h2 ?t h4 s4" and k4: "unat (idxused h4) = Suc (unat (idxused h2))"
      by blast
    have "take_hole h s newsize (of_nat k) = Some (of_nat (a + 12), h4, s4)"
      using True by (simp only: take_hole_def Let_def ev Option.bind_lunit prod.case if_True i
        cs(1)[OF fit2le, of "\<lambda>s. heapIdx_insert h2 s (loc + newsize)"])
    moreover have "off_block h s h4 s4 a n"
      using fit2 a2
      by (intro off_block_trans[OF off2] off_block_trans[OF off_block_local off_block_idx[OF fr4]])
        (auto intro!: cut_block_agree[OF m(2) True])
    ultimately show ?thesis using True inv4 k k2 k4 by (auto simp: taken_def Un_commute)
  qed
qed

lemma hole_addrs_in:
  assumes "x \<in> hole_addrs (unat (start_addr h)) bs" and "heap_inv s h bs J"
  obtains xs n ys where "bs = xs @ (n, True) # ys" and "x = unat (start_addr h) + blk_total xs"
    and "\<And>p. unat p = x \<Longrightarrow> psize s p = n"
proof -
  obtain xs n ys where b: "bs = xs @ (n, True) # ys" and x: "x = unat (start_addr h) + blk_total xs"
    using assms(1) by (rule hole_addrs_split)
  then have "block s x n True" using assms(2) by (simp add: heap_inv_def)
  then show ?thesis using that b x by (auto simp: psize_def block_def)
qed

lemma heap_wf_apart:
  assumes "heap_wf s h (xs @ (n, True) # ys)" and "a = unat (start_addr h) + blk_total xs"
  shows "apart (hole_addrs (unat (start_addr h)) (xs @ (n, True) # ys)) a n"
  using assms holes_outside[of s "unat (start_addr h)" xs n ys]
  unfolding heap_wf_def heap_inv_def apart_def by blast

lemma no_adj_append:
  "no_adj (xs @ ys) \<longleftrightarrow> no_adj xs \<and> no_adj ys
     \<and> (xs = [] \<or> ys = [] \<or> \<not> (snd (last xs) \<and> snd (hd ys)))"
proof (induction xs)
  case (Cons x xs)
  obtain n a where x: "x = (n, a)" by fastforce
  have "no_adj ((n, a) # zs) \<longleftrightarrow> no_adj zs \<and> (zs = [] \<or> \<not> (a \<and> snd (hd zs)))" for zs
    by (cases zs) auto
  then show ?case using Cons x by (cases xs) auto
qed simp

lemma no_adj_Cons: "no_adj (b # ys) \<longleftrightarrow> no_adj ys \<and> (ys = [] \<or> \<not> (snd b \<and> snd (hd ys)))"
  using no_adj_append[of "[b]" ys] by (cases b) auto

lemma no_adj_taken:
  "no_adj (xs @ (n, True) # ys) \<Longrightarrow> no_adj (xs @ taken n m @ ys)"
  by (auto simp: no_adj_append no_adj_Cons taken_def)

text \<open>The hole that \<open>heap_alloc\<close> finds is the smallest that is large enough.\<close>

lemma best_hole:
  assumes wf: "heap_wf s h bs" and w: "unat w = m"
    and ex: "\<exists>(n, b) \<in> set bs. b \<and> m \<le> n"
  obtains k xs n ys where "find_hole s h w 0 (unat (idxused h)) = Some (of_nat k)"
    and "k < unat (idxused h)" and "bs = xs @ (n, True) # ys" and "m \<le> n"
    and "unat (idx_list s h ! k) = unat (start_addr h) + blk_total xs"
    and "\<And>n'. (n', True) \<in> set bs \<Longrightarrow> m \<le> n' \<Longrightarrow> n \<le> n'"
proof -
  let ?S = "unat (start_addr h)" and ?L = "idx_list s h"
  have inv: "heap_inv s h bs (hole_addrs ?S bs)" using wf by (simp add: heap_wf_def)
  note b = inv[unfolded heap_inv_def]
  define k where "k = length (takeWhile (\<lambda>p. psize s p < m) ?L)"
  have "\<forall>p\<in>set ?L. psize_ok s p"
    using b heap_inv_psize_ok[OF inv] by (metis imageI)
  then have fd: "find_hole s h w 0 (unat (idxused h)) = Some (of_nat k)"
    using find_hole_spec[of s h 0 "unat (idxused h)" w] heap_inv_idx_area[OF inv] w by (simp add: k_def)
  have hole_ptr: "\<exists>p\<in>set ?L. psize s p = n'" if n': "(n', True) \<in> set bs" for n'
  proof -
    obtain xs ys where bs: "bs = xs @ (n', True) # ys" using n' by (meson split_list)
    then have "?S + blk_total xs \<in> unat ` set ?L" using b by simp
    then obtain p where p: "p \<in> set ?L" "unat p = ?S + blk_total xs" by auto
    moreover have "block s (?S + blk_total xs) n' True" using b bs by simp
    ultimately have "psize s p = n'" by (simp add: psize_def block_def)
    then show ?thesis using p(1) by blast
  qed
  obtain p where "p \<in> set ?L" "m \<le> psize s p" using ex hole_ptr by fastforce
  then have "\<not> (\<forall>p\<in>set ?L. psize s p < m)" by force
  then have "k \<noteq> length ?L"
    unfolding k_def by (metis takeWhile_eq_all_conv takeWhile_eq_take take_all_iff order_refl)
  moreover have "k \<le> length ?L" unfolding k_def by (rule length_takeWhile_le)
  ultimately have k: "k < length ?L" by simp
  have big: "m \<le> psize s (?L ! k)"
    using nth_length_takeWhile[of "\<lambda>p. psize s p < m" ?L] k by (simp add: k_def)
  have "unat (?L ! k) \<in> hole_addrs ?S bs" using b k by (metis imageI nth_mem)
  then obtain xs n ys where bs: "bs = xs @ (n, True) # ys" and x: "unat (?L ! k) = ?S + blk_total xs"
    and n: "psize s (?L ! k) = n"
    using hole_addrs_in[OF _ inv] by metis
  have "n \<le> n'" if n': "(n', True) \<in> set bs" "m \<le> n'" for n'
  proof -
    obtain i where i: "i < length ?L" "psize s (?L ! i) = n'"
      using hole_ptr[OF n'(1)] by (metis in_set_conv_nth)
    have "\<not> i < k"
    proof
      assume "i < k"
      then have "psize s (?L ! i) < m"
        using nth_mem[of i "takeWhile (\<lambda>p. psize s p < m) ?L"] takeWhile_nth[of i "\<lambda>p. psize s p < m" ?L]
        by (metis k_def set_takeWhileD)
      then show False using i n' by simp
    qed
    then show ?thesis using b i n k sorted_nth_mono[of "map (psize s) ?L" k i] by simp
  qed
  then show ?thesis using that[OF fd _ bs _ x] k big n by simp
qed

lemma heap_alloc_fits:
  assumes wf: "heap_wf s h bs" and sz: "unat sz + 20 < 4294967296"
    and ex: "\<exists>(n, b) \<in> set bs. b \<and> unat sz + 20 \<le> n"
  shows "\<exists>xs n ys p h' s'. heap_alloc expand h s sz = Some (p, h', s')
     \<and> bs = xs @ (n, True) # ys \<and> unat sz + 20 \<le> n
     \<and> (\<forall>n'. (n', True) \<in> set bs \<and> unat sz + 20 \<le> n' \<longrightarrow> n \<le> n')
     \<and> unat p = unat (start_addr h) + blk_total xs + 12
     \<and> heap_wf s' h' (xs @ taken n (unat sz + 20) @ ys)
     \<and> off_block h s h' s' (unat (start_addr h) + blk_total xs) n
     \<and> unat (idxused h') \<le> unat (idxused h)"
proof -
  let ?S = "unat (start_addr h)" and ?m = "unat sz + 20"
  have w: "unat (sz + 12 + 8) = ?m" using sz by (simp add: unat_add_u32)
  obtain k xs n ys where fd: "find_hole s h (sz + 12 + 8) 0 (unat (idxused h)) = Some (of_nat k)"
    and k: "k < unat (idxused h)" and bs: "bs = xs @ (n, True) # ys" and n: "?m \<le> n"
    and x: "unat (idx_list s h ! k) = ?S + blk_total xs"
    and best: "\<And>n'. (n', True) \<in> set bs \<Longrightarrow> ?m \<le> n' \<Longrightarrow> n \<le> n'"
    using best_hole[OF wf w ex] by metis
  let ?a = "?S + blk_total xs"
  have inv: "heap_inv s h (xs @ (n, True) # ys) (hole_addrs ?S bs)"
    using wf bs by (simp add: heap_wf_def)
  have ap: "apart (hole_addrs ?S bs) ?a n" using heap_wf_apart[of s h xs n ys] wf bs by simp
  have aJ: "?a \<in> hole_addrs ?S bs" using bs by simp
  obtain h' s' where t: "take_hole h s (sz + 12 + 8) (of_nat k) = Some (of_nat (?a + 12), h', s')"
    and inv': "heap_inv s' h' (xs @ taken n ?m @ ys) (hole_addrs ?S bs - {?a} \<union> (if ?m + 20 < n then {?a + ?m} else {}))"
    and off: "off_block h s h' s' ?a n"
    and ku: "unat (idxused h') = (if ?m + 20 < n then unat (idxused h) else unat (idxused h) - 1)"
    using take_hole_ok[OF inv refl ap aJ k x w _ n] by auto
  have "?a \<notin> hole_addrs ?S xs" "?a \<notin> hole_addrs (?a + n) ys"
    using inv hole_addrs_bounds[of s ?S xs ?a] hole_addrs_lower[of ?a "?a + n" ys] heap_inv_fit(5)[OF inv refl]
    by (auto simp: heap_inv_def)
  then have "hole_addrs ?S bs - {?a} \<union> (if ?m + 20 < n then {?a + ?m} else {})
      = hole_addrs ?S (xs @ taken n ?m @ ys)"
    using n bs by (auto simp: taken_def)
  moreover have "start_addr h' = start_addr h" using off by (simp add: off_block_def same_bounds_def)
  ultimately have wf': "heap_wf s' h' (xs @ taken n ?m @ ys)"
    using inv' no_adj_taken[of xs n ys ?m] wf bs by (simp add: heap_wf_def)
  have "unat (of_nat k :: u32) = k" using k unat_u32_less[of "idxused h"] by (intro unat_of_nat_u32) linarith
  then have "of_nat k \<noteq> idxused h" using k by auto
  then have al: "heap_alloc expand h s sz = Some (of_nat (?a + 12), h', s')"
    by (subst heap_alloc.simps) (simp only: Let_def fd t Option.bind_lunit if_False)
  have "unat (of_nat (?a + 12) :: u32) = ?a + 12"
    using heap_inv_fit[OF inv refl] by (intro unat_of_nat_u32) linarith
  then show ?thesis using al bs n best wf' off ku by auto
qed

section \<open>Growing heaps\<close>

text \<open>The effect of \<open>heap_expand\<close> on the list of blocks.\<close>

definition grow :: "blk list \<Rightarrow> nat \<Rightarrow> blk list" where
  "grow bs q = (if bs \<noteq> [] \<and> snd (last bs) then butlast bs @ [(fst (last bs) + q, True)]
     else bs @ [(q, True)])"

definition ends_in_hole :: "blk list \<Rightarrow> bool" where
  "ends_in_hole bs \<longleftrightarrow> bs \<noteq> [] \<and> snd (last bs)"

lemma used_blks_grow [simp]: "used_blks a (grow bs q) = used_blks a bs"
proof (cases "ends_in_hole bs")
  case True
  then obtain xs n where "bs = xs @ [(n, True)]"
    unfolding ends_in_hole_def by (metis append_butlast_last_id prod.collapse)
  then show ?thesis by (simp add: grow_def)
qed (auto simp: grow_def ends_in_hole_def)

lemma grow_ends: "ends_in_hole (grow bs q)"
  by (simp add: grow_def ends_in_hole_def)

lemma grow_ne: "grow bs q \<noteq> []"
  by (simp add: grow_def)

lemma grow_twice: "\<exists>n. (n, True) \<in> set (grow (grow bs q) q) \<and> 2 * q \<le> n"
proof (cases "ends_in_hole bs")
  case True
  then show ?thesis by (intro exI[of _ "fst (last bs) + q + q"]) (simp add: grow_def ends_in_hole_def)
next
  case False
  then show ?thesis by (intro exI[of _ "q + q"]) (auto simp: grow_def ends_in_hole_def)
qed

lemma used_blks_taken:
  "used_blks S (xs @ taken n m @ ys)
     = insert (S + blk_total xs, if m + 20 < n then m else n) (used_blks S (xs @ (n, True) # ys))"
  by (auto simp: taken_def)

lemma used_blks_bounds:
  "layout s a bs \<Longrightarrow> (x, n) \<in> used_blks a bs \<Longrightarrow> a \<le> x \<and> x + n \<le> a + blk_total bs \<and> 20 \<le> n"
  by (erule used_blks_split) (auto simp: block_def)

lemma used_blks_lower: "(x, n) \<in> used_blks a bs \<Longrightarrow> a \<le> x"
  by (erule used_blks_split) auto

text \<open>Allocated blocks do not overlap.\<close>

lemma used_blks_disjoint:
  assumes "layout s a bs" and "(x, n) \<in> used_blks a bs" and "(y, m) \<in> used_blks a bs" and "(x, n) \<noteq> (y, m)"
  shows "x + n \<le> y \<or> y + m \<le> x"
  using assms
proof (induction s a bs rule: layout.induct)
  case (2 s a k hole bs)
  then show ?case
    using used_blks_lower[of x n "a + k" bs] used_blks_lower[of y m "a + k" bs]
    by (auto split: if_splits)
qed simp

text \<open>Allocated blocks keep their contents when only the hole at \<open>a\<close> is rewritten.\<close>

lemma off_block_keeps:
  assumes "off_block h s h' s' (unat (start_addr h) + blk_total xs) n"
    and "layout s (unat (start_addr h)) (xs @ (n, True) # ys)"
    and "(x, k) \<in> used_blks (unat (start_addr h)) (xs @ (n, True) # ys)"
  shows "agree s s' x (x + k)"
proof -
  let ?S = "unat (start_addr h)"
  have "(x, k) \<in> used_blks ?S xs \<or> (x, k) \<in> used_blks (?S + blk_total xs + n) ys"
    using assms(3) by auto
  then have "?S \<le> x \<and> x + k \<le> ?S + blk_total xs \<or> ?S + blk_total xs + n \<le> x"
    using used_blks_bounds[of s ?S xs x k] used_blks_lower[of x k _ ys] assms(2) by auto
  then show ?thesis using assms(1) unfolding off_block_def
    by (auto intro: agree_sub)
qed

text \<open>The contents of every allocated block are the same in both memories.\<close>

definition keeps_used :: "heap \<Rightarrow> blk list \<Rightarrow> 'a cmem_scheme \<Rightarrow> 'a cmem_scheme \<Rightarrow> bool" where
  "keeps_used h bs s s' \<longleftrightarrow> (\<forall>(x, k) \<in> used_blks (unat (start_addr h)) bs. agree s s' x (x + k))"

lemma keeps_used_trans:
  "keeps_used h bs s s1 \<Longrightarrow> keeps_used h' bs' s1 s2 \<Longrightarrow> start_addr h' = start_addr h
   \<Longrightarrow> used_blks (unat (start_addr h)) bs' = used_blks (unat (start_addr h)) bs \<Longrightarrow> keeps_used h bs s s2"
  unfolding keeps_used_def by (auto intro: agree_trans)

text \<open>
  The outcome of \<open>heap_alloc\<close>: a null pointer and the same allocated blocks, or a pointer to a
  new allocated block with room for \<open>sz\<close> bytes; in both cases the heap is well-formed and the
  contents of the blocks that were allocated before are unchanged. \<open>env\<close> is what the provider
  of the memory keeps true of the heap's surroundings.
\<close>

definition alloc_outcome ::
    "(heap \<Rightarrow> 'a cmem_scheme \<Rightarrow> bool) \<Rightarrow> heap \<Rightarrow> 'a cmem_scheme \<Rightarrow> blk list \<Rightarrow> nat \<Rightarrow> (u32 \<times> heap \<times> 'a cmem_scheme) option \<Rightarrow> bool" where
  "alloc_outcome env h s bs sz r \<longleftrightarrow> (\<exists>p h' s' bs'. r = Some (p, h', s')
     \<and> heap_wf s' h' bs' \<and> env h' s' \<and> bs' \<noteq> [] \<and> start_addr h' = start_addr h \<and> keeps_used h bs s s'
     \<and> (let S = unat (start_addr h) in
          p = 0 \<and> used_blks S bs' = used_blks S bs
        \<or> (\<exists>k. sz + 20 \<le> k \<and> S + 12 \<le> unat p
              \<and> used_blks S bs' = insert (unat p - 12, k) (used_blks S bs)
              \<and> (\<forall>(x, l) \<in> used_blks S bs. x + l \<le> unat p - 12 \<or> unat p - 12 + k \<le> x))))"

lemma used_outside:
  assumes "layout s S (xs @ (n, b) # ys)" and "(x, l) \<in> used_blks S xs \<union> used_blks (S + blk_total xs + n) ys"
  shows "x + l \<le> S + blk_total xs \<or> S + blk_total xs + n \<le> x"
  using assms used_blks_bounds[of s S xs x l] used_blks_lower[of x l _ ys] by auto

lemma alloc_outcome_fits:
  assumes wf: "heap_wf s h bs" and sz: "unat sz + 20 < 4294967296"
    and ex: "\<exists>(n, b) \<in> set bs. b \<and> unat sz + 20 \<le> n"
    and env: "\<And>h' s'. same_bounds h h' \<Longrightarrow> mpresent s' = mpresent s \<Longrightarrow> cmem.more s' = cmem.more s \<Longrightarrow> env h' s'"
  shows "alloc_outcome env h s bs (unat sz) (heap_alloc expand h s sz)"
proof -
  let ?S = "unat (start_addr h)" and ?m = "unat sz + 20"
  obtain xs n ys p h' s' where al: "heap_alloc expand h s sz = Some (p, h', s')"
    and bs: "bs = xs @ (n, True) # ys" and n: "?m \<le> n" and p: "unat p = ?S + blk_total xs + 12"
    and wf': "heap_wf s' h' (xs @ taken n ?m @ ys)" and off: "off_block h s h' s' (?S + blk_total xs) n"
    using heap_alloc_fits[OF wf sz ex] by blast
  let ?k = "if ?m + 20 < n then ?m else n"
  have lay: "layout s ?S (xs @ (n, True) # ys)" using wf bs by (simp add: heap_wf_def heap_inv_def)
  have keep: "keeps_used h bs s s'"
    unfolding keeps_used_def using off_block_keeps[OF off lay] bs by blast
  have u: "used_blks ?S (xs @ taken n ?m @ ys) = insert (unat p - 12, ?k) (used_blks ?S bs)"
    unfolding bs used_blks_taken using p by simp
  have d: "\<forall>(x, l) \<in> used_blks ?S bs. x + l \<le> unat p - 12 \<or> unat p - 12 + ?k \<le> x"
  proof clarify
    fix x l assume "(x, l) \<in> used_blks ?S bs" and "\<not> unat p - 12 + ?k \<le> x"
    then show "x + l \<le> unat p - 12"
      using used_outside[OF lay, of x l] p n bs by (auto split: if_splits)
  qed
  have start: "start_addr h' = start_addr h" using off by (simp add: off_block_def same_bounds_def)
  have env': "env h' s'" using off by (intro env) (simp_all add: off_block_def)
  have "?m \<le> ?k" "?S + 12 \<le> unat p" "xs @ taken n ?m @ ys \<noteq> []" using n p by (auto simp: taken_def)
  then show ?thesis unfolding alloc_outcome_def Let_def using al wf' env' start keep u d by blast
qed

text \<open>
  The contract of a heap's growth operation, and the total correctness of allocation over it.
  \<open>ready h s q n\<close> says that the operation can be called \<open>n\<close> times for \<open>q\<close> bytes without a
  fault.
\<close>

locale heap_source =
  fixes expand :: "heap \<Rightarrow> 'a cmem_scheme \<Rightarrow> u32 \<Rightarrow> (u32 \<times> heap \<times> 'a cmem_scheme) option"
    and env :: "heap \<Rightarrow> 'a cmem_scheme \<Rightarrow> bool"
    and ready :: "heap \<Rightarrow> 'a cmem_scheme \<Rightarrow> u32 \<Rightarrow> nat \<Rightarrow> bool"
  assumes env_frame: "\<lbrakk> env h s; same_bounds h h'; mpresent s' = mpresent s; cmem.more s' = cmem.more s \<rbrakk> \<Longrightarrow> env h' s'"
    and expand_ok: "\<lbrakk> heap_wf s h bs; env h s; bs \<noteq> []; idx_room h \<or> ends_in_hole bs; ready h s q (Suc n);
      4096 dvd unat q; 0 < unat q; unat (end_addr h) + unat q < 4294967296 \<rbrakk> \<Longrightarrow>
        expand h s q = Some (0, h, s)
      \<or> (\<exists>h' s'. expand h s q = Some (1, h', s') \<and> heap_wf s' h' (grow bs (unat q))
           \<and> start_addr h' = start_addr h \<and> end_addr h' = end_addr h + q
           \<and> keeps_used h bs s s' \<and> env h' s' \<and> ready h' s' q n)"
begin

lemma alloc_no_fit:
  assumes wf: "heap_wf s h bs" and sz: "unat sz + 20 < 4294967296"
    and no: "\<not> (\<exists>(n, b) \<in> set bs. b \<and> unat sz + 20 \<le> n)"
  shows "heap_alloc expand h s sz = do {
       (r, h, s) \<leftarrow> expand h s ((sz AND 0xFFFFF000) + 0x1000);
       if r = 0 then Some (0, h, s) else heap_alloc expand h s sz }"
proof -
  let ?S = "unat (start_addr h)" and ?L = "idx_list s h"
  have inv: "heap_inv s h bs (hole_addrs ?S bs)" using wf by (simp add: heap_wf_def)
  note b = inv[unfolded heap_inv_def]
  have w: "unat (sz + 12 + 8) = unat sz + 20" using sz by (simp add: unat_add_u32)
  have "psize s p < unat sz + 20" if p: "p \<in> set ?L" for p
  proof -
    have "unat p \<in> hole_addrs ?S bs" using p b by blast
    then obtain xs n ys where "bs = xs @ (n, True) # ys" "psize s p = n"
      using hole_addrs_in[OF _ inv] by metis
    then show ?thesis using no by auto
  qed
  then have "length (takeWhile (\<lambda>p. psize s p < unat sz + 20) ?L) = unat (idxused h)"
    by (metis takeWhile_eq_all_conv length_slots diff_zero)
  moreover have "\<forall>p\<in>set ?L. psize_ok s p"
    using b heap_inv_psize_ok[OF inv] by (metis imageI)
  ultimately have "find_hole s h (sz + 12 + 8) 0 (unat (idxused h)) = Some (idxused h)"
    using find_hole_spec[of s h 0 "unat (idxused h)" "sz + 12 + 8"] heap_inv_idx_area[OF inv]
    unfolding w by (simp add: add.commute)
  then show ?thesis
    by (subst heap_alloc.simps) (simp only: Let_def Option.bind_lunit refl if_True)
qed

lemma alloc_after_expand:
  assumes wf: "heap_wf s h bs" and env: "env h s" and ne: "bs \<noteq> []" and rm: "idx_room h \<or> ends_in_hole bs"
    and q: "q = (sz AND 0xFFFFF000) + 0x1000" "unat q = unat sz - unat sz mod 4096 + 4096"
    and rd: "ready h s q (Suc n)" and ov: "unat (end_addr h) + unat q < 4294967296"
    and no: "\<not> (\<exists>(n, b) \<in> set bs. b \<and> unat sz + 20 \<le> n)"
    and next_ok: "\<And>h' s'. heap_wf s' h' (grow bs (unat q)) \<Longrightarrow> env h' s' \<Longrightarrow> start_addr h' = start_addr h
      \<Longrightarrow> end_addr h' = end_addr h + q \<Longrightarrow> ready h' s' q n
      \<Longrightarrow> alloc_outcome env h' s' (grow bs (unat q)) (unat sz) (heap_alloc expand h' s' sz)"
  shows "alloc_outcome env h s bs (unat sz) (heap_alloc expand h s sz)"
proof -
  have sz: "unat sz + 20 < 4294967296"
  proof -
    have "unat sz < unat q" using q(2) by (simp add: less_diff_conv2 minus_mod_eq_mult_div)
    moreover have "4096 \<le> unat (end_addr h)" using wf by (auto simp: heap_wf_def heap_inv_def)
    ultimately show ?thesis using ov by linarith
  qed
  have al: "heap_alloc expand h s sz = do {
       (r, h, s) \<leftarrow> expand h s q; if r = 0 then Some (0, h, s) else heap_alloc expand h s sz }"
    using alloc_no_fit[OF wf sz no] q(1) by simp
  have "4096 dvd unat sz - unat sz mod 4096 + 4096" by (intro dvd_add dvd_minus_mod) simp
  then have dvd: "4096 dvd unat q" "0 < unat q" unfolding q(2) by simp_all
  consider "expand h s q = Some (0, h, s)"
    | h' s' where "expand h s q = Some (1, h', s')" "heap_wf s' h' (grow bs (unat q))"
        "start_addr h' = start_addr h" "end_addr h' = end_addr h + q" "keeps_used h bs s s'" "env h' s'" "ready h' s' q n"
    using expand_ok[OF wf env ne rm rd dvd ov] by blast
  then show ?thesis
  proof cases
    case 1
    then show ?thesis using al wf env ne unfolding alloc_outcome_def Let_def
      by (intro exI[of _ 0] exI[of _ h] exI[of _ s] exI[of _ bs]) (simp add: keeps_used_def split_def)
  next
    case 2
    have "alloc_outcome env h' s' (grow bs (unat q)) (unat sz) (heap_alloc expand h' s' sz)"
      using next_ok 2 by blast
    moreover have "heap_alloc expand h s sz = heap_alloc expand h' s' sz" using al 2 by simp
    ultimately show ?thesis
      using keeps_used_trans[OF 2(5), of h' "grow bs (unat q)"] 2(3)
      unfolding alloc_outcome_def Let_def by fastforce
  qed
qed

lemma alloc_total:
  assumes wf: "heap_wf s h bs" and env: "env h s" and ne: "bs \<noteq> []" and rm: "idx_room h \<or> ends_in_hole bs"
    and q: "q = (sz AND 0xFFFFF000) + 0x1000"
    and rd: "ready h s q 2" and ov: "unat (end_addr h) + 2 * unat q < 4294967296" and sz: "unat sz < 0xFFFFF000"
  shows "alloc_outcome env h s bs (unat sz) (heap_alloc expand h s sz)"
proof -
  have uq: "unat q = unat sz - unat sz mod 4096 + 4096"
  proof -
    have "unat sz - unat sz mod 4096 \<le> unat sz" by simp
    then show ?thesis unfolding q using sz by (subst unat_add_u32) (simp_all add: addr_simps)
  qed
  have szq: "unat sz < unat q" "4096 \<le> unat q" unfolding uq using mod_less_divisor[of 4096 "unat sz"] by linarith+
  have fits: "alloc_outcome env h s bs (unat sz) (heap_alloc expand h s sz)"
    if "heap_wf s h bs" "env h s" "\<exists>(n, b) \<in> set bs. b \<and> unat sz + 20 \<le> n" for h s bs
    using alloc_outcome_fits[OF that(1) _ that(3) env_frame[OF that(2)]] sz by simp
  show ?thesis
  proof (cases "\<exists>(n, b) \<in> set bs. b \<and> unat sz + 20 \<le> n")
    case False
    show ?thesis
    proof (rule alloc_after_expand[where n = 1, OF wf env ne rm q uq _ _ False])
      fix h1 and s1 :: "'a cmem_scheme" assume h1: "heap_wf s1 h1 (grow bs (unat q))" "env h1 s1" "end_addr h1 = end_addr h + q" "ready h1 s1 q 1"
      have e1: "unat (end_addr h1) = unat (end_addr h) + unat q"
        unfolding h1(3) using ov by (simp add: unat_add_u32)
      show "alloc_outcome env h1 s1 (grow bs (unat q)) (unat sz) (heap_alloc expand h1 s1 sz)"
      proof (cases "\<exists>(n, b) \<in> set (grow bs (unat q)). b \<and> unat sz + 20 \<le> n")
        case nofit: False
        show ?thesis
        proof (rule alloc_after_expand[where n = 0, OF h1(1,2) _ _ q uq _ _ nofit])
          fix h2 and s2 :: "'a cmem_scheme" assume h2: "heap_wf s2 h2 (grow (grow bs (unat q)) (unat q))" "env h2 s2"
          obtain n where n: "(n, True) \<in> set (grow (grow bs (unat q)) (unat q))" "2 * unat q \<le> n"
            using grow_twice by blast
          moreover have "unat sz + 20 \<le> n" using n(2) szq by linarith
          ultimately show "alloc_outcome env h2 s2 (grow (grow bs (unat q)) (unat q)) (unat sz) (heap_alloc expand h2 s2 sz)"
            by (intro fits[OF h2] bexI[of _ "(n, True)"]) auto
        qed (use h1 e1 ov grow_ends in \<open>auto simp: grow_ne\<close>)
      qed (use h1 fits in blast)
    qed (use rd ov in \<open>simp_all add: numeral_2_eq_2\<close>)
  qed (use wf env fits in blast)
qed

end

end
