(* ===== verification/HeapFree.thy ===== *)
theory HeapFree
  imports HeapCore
begin

text \<open>
  Correctness of \<open>heap_free\<close> and of the initialisation of a heap, over the block lists of
  \<open>HeapCore\<close>: releasing an allocated block merges it with the holes on both sides, keeps every
  other allocated block and its contents, and leaves no two holes side by side. The release of
  the last block reads the word behind the heap, so it needs that word mapped; the lemmas state
  this, and that the release faults otherwise.
\<close>

section \<open>Joining two blocks\<close>

text \<open>The holes of a heap other than the block of \<open>n\<close> bytes after \<open>xs\<close>.\<close>

definition others :: "nat \<Rightarrow> blk list \<Rightarrow> nat \<Rightarrow> blk list \<Rightarrow> nat set" where
  "others S xs n ys = hole_addrs S xs \<union> hole_addrs (S + blk_total xs + n) ys"

lemma others_gap:
  assumes "layout s S xs" and "x \<in> others S xs n ys" and "a = S + blk_total xs"
  shows "x + 20 \<le> a \<or> a + n \<le> x"
  using assms hole_addrs_bounds[of s S xs x] hole_addrs_lower[of x _ ys] by (auto simp: others_def)

lemma block_join:
  assumes "block s a n b" and "block s (a + n) m c" and "unat w1 = a" and "unat w2 = n + m"
  shows "block (wr (wr s (a + n + m - 4) w1) (a + 8) w2) a (n + m) b"
proof -
  define k where "k = n + m - 8"
  have k: "n + m = k + 8" "32 \<le> k" using assms(1,2) by (auto simp: k_def block_def)
  have e: "a + n + m = a + k + 8" using k by simp
  have f: "rd s (a + k) = HEAP_MAGIC" using assms(2) k by (simp add: block_def e)
  show ?thesis using assms k f by (simp add: block_def e rd_wr_other)
qed

lemma heap_inv_join:
  assumes inv: "heap_inv s h (xs @ (n, b) # (m, c) # ys) J" and a: "a = unat (start_addr h) + blk_total xs"
    and J: "\<forall>x\<in>J. x + 20 \<le> a \<or> a + (n + m) \<le> x" and w: "unat w1 = a" "unat w2 = n + m"
  shows "heap_inv (wr (wr s (a + n + m - 4) w1) (a + 8) w2) h (xs @ (n + m, b) # ys) J"
proof -
  let ?t = "wr (wr s (a + n + m - 4) w1) (a + 8) w2"
  have blk: "block s a n b" "block s (a + n) m c" using inv a by (simp_all add: heap_inv_def)
  have nm: "20 \<le> n" "20 \<le> m" using blk by (simp_all add: block_def)
  have sz: "\<forall>x\<in>J. rd ?t (x + 8) = rd s (x + 8)"
  proof
    fix x assume "x \<in> J"
    then have "x + 20 \<le> a \<or> a + (n + m) \<le> x" using J by blast
    then show "rd ?t (x + 8) = rd s (x + 8)" using nm by (subst rd_wr_other, linarith)+ simp
  qed
  have "heap_inv ?t h (xs @ [(n + m, b)] @ ys) J"
    by (rule heap_inv_local[where mid = "[(n, b), (m, c)]", OF _ a])
      (use inv nm block_join[OF blk w] sz in \<open>auto intro!: agree_wr\<close>)
  then show ?thesis by simp
qed

text \<open>The stores that end both merges.\<close>

lemma join_stores:
  fixes header footer :: u32
  assumes inv: "heap_inv s h (xs @ (n, b) # (m, c) # ys) J" and a: "a = unat (start_addr h) + blk_total xs"
    and J: "\<forall>x\<in>J. x + 20 \<le> a \<or> a + (n + m) \<le> x"
    and hd: "unat header = a" and ft: "unat footer = a + (n + m) - 8"
  shows "\<exists>t. heap_inv t h (xs @ (n + m, b) # ys) J \<and> off_block h s h t a (n + m)
     \<and> do { s \<leftarrow> st32 s (footer + 4) header; s \<leftarrow> st32 s (header + 8) (footer - header + 8); f s } = f t"
proof -
  let ?w = "footer - header + 8" and ?s1 = "wr s (a + n + m - 4) header"
  note fit = heap_inv_fit[OF inv a]
  have m: "20 \<le> m" and e: "a + (n + m) \<le> unat (end_addr h)" using inv a by (auto simp: heap_inv_def block_def)
  have e32: "a + (n + m) < 4294967296" using e end_addr_bound[of h] by linarith
  have w: "unat ?w = n + m" using hd ft fit m e32
    by (subst unat_add_u32) (auto simp: unat_sub_u32)
  have u: "unat (footer + 4) = a + n + m - 4" using ft fit m e32 by (subst unat_add_u32) auto
  have u8: "unat (header + 8) = a + 8" using hd fit e32 by (simp add: unat_add_u32)
  have st: "st32 s (footer + 4) header = Some ?s1"
    using fit m e by (intro st_in[OF heap_inv_mapped[OF inv] end_addr_bound u]) auto
  have st': "st32 ?s1 (header + 8) ?w = Some (wr ?s1 (a + 8) ?w)"
    using fit e heap_inv_mapped[OF inv] by (intro st_in[OF _ end_addr_bound u8]) auto
  have "off_block h s h (wr ?s1 (a + 8) ?w) a (n + m)"
    using fit m by (intro off_block_local) (auto intro!: agree_wr)
  then show ?thesis using heap_inv_join[OF inv a J hd w] st st' by (intro exI) auto
qed

lemma off_block_mono:
  assumes "off_block h s h' s' a n" and "a' \<le> a" and "a + n \<le> a' + n'"
  shows "off_block h s h' s' a' n'"
  using assms unfolding off_block_def by (auto intro: agree_sub)

section \<open>The merges\<close>

text \<open>What a merge does to the blocks on each side.\<close>

definition merge_left :: "blk list \<Rightarrow> nat \<Rightarrow> blk list \<times> nat \<times> bool" where
  "merge_left xs n = (if xs \<noteq> [] \<and> snd (last xs) then (butlast xs, fst (last xs) + n, True) else (xs, n, False))"

definition merge_right :: "nat \<Rightarrow> blk list \<Rightarrow> nat \<times> blk list" where
  "merge_right n ys = (case ys of (m, True) # ys' \<Rightarrow> (n + m, ys') | _ \<Rightarrow> (n, ys))"

text \<open>The word that follows the heap can be read, and is not taken for a block header.\<close>

definition past_end :: "'a cmem_scheme \<Rightarrow> heap \<Rightarrow> bool" where
  "past_end s h \<longleftrightarrow> unat (end_addr h) + 4 \<le> 4294967296
     \<and> mapped s (unat (end_addr h)) (unat (end_addr h) + 4) \<and> rd s (unat (end_addr h)) \<noteq> HEAP_MAGIC"

definition released :: "heap \<Rightarrow> 'a cmem_scheme \<Rightarrow> heap \<Rightarrow> 'a cmem_scheme \<Rightarrow> blk list \<Rightarrow> nat \<Rightarrow> bool \<Rightarrow> blk list \<Rightarrow> bool" where
  "released h s h' s' xs n b ys \<longleftrightarrow>
     heap_inv s' h' (xs @ (n, b) # ys) (others (unat (start_addr h)) xs n ys)
     \<and> off_block h s h' s' (unat (start_addr h) + blk_total xs) n
     \<and> unat (idxused h') \<le> unat (idxused h)"

lemma unify_left_ok:
  assumes inv: "heap_inv s h (xs @ (n, False) # ys) (others (unat (start_addr h)) xs n ys)"
    and a: "a = unat (start_addr h) + blk_total xs" and hd: "unat header = a" and ft: "unat footer = a + n - 8"
    and ml: "merge_left xs n = (xs1, n1, b1)"
  shows "\<exists>hd1 h1 s1. unify_left h s header footer = Some (hd1, h1, s1)
     \<and> unat hd1 = unat (start_addr h) + blk_total xs1 \<and> released h s h1 s1 xs1 n1 b1 ys"
proof (cases "xs = []")
  case True
  note fit = heap_inv_fit[OF inv a]
  have "unat (header - 8) = a - 8" using hd fit by (simp add: unat_sub_u32)
  then have "ld32 s (header - 8) = Some (rd s (a - 8))"
    using fit by (intro ld_in[OF heap_inv_mapped[OF inv] end_addr_bound]) auto
  moreover have "rd s (a - 8) \<noteq> HEAP_MAGIC" using inv a True by (simp add: heap_inv_def)
  ultimately have "unify_left h s header footer = Some (header, h, s)"
    by (simp only: unify_left_def Let_def Option.bind_lunit if_False)
  moreover have "released h s h s xs n False ys" using inv by (simp add: released_def off_block_def)
  ultimately show ?thesis using ml True hd a by (auto simp: merge_left_def)
next
  case False
  then obtain xs' m c where xs: "xs = xs' @ [(m, c)]" by (metis append_butlast_last_id prod.collapse)
  let ?S = "unat (start_addr h)"
  define p where "p = ?S + blk_total xs'"
  have ap: "a = p + m" using a xs by (simp add: p_def)
  note fit = heap_inv_fit[OF inv a]
  have inv': "heap_inv s h (xs' @ (m, c) # (n, False) # ys) (others ?S xs n ys)" using inv xs by simp
  note fit' = heap_inv_fit[OF inv' p_def]
  define ph where "ph = rd s (a - 4)"
  have uph: "unat ph = p" using fit'(6) by (simp add: block_def ap ph_def)
  have rds: "rd s (a - 8) = HEAP_MAGIC" "rd s (p + 4) = (if c then 1 else 0)"
    using fit'(6) by (simp_all add: block_def ap)
  note mp = heap_inv_mapped[OF inv] end_addr_bound
  have u: "unat (header - 8) = a - 8" using hd fit by (simp add: unat_sub_u32)
  have u4: "unat (header - 8 + 4) = a - 4" using u fit by (subst unat_add_u32) auto
  have uph4: "unat (ph + 4) = p + 4" using uph fit' by (simp add: unat_add_u32)
  have lds: "ld32 s (header - 8) = Some HEAP_MAGIC" "ld32 s (header - 8 + 4) = Some ph"
    "ld32 s (ph + 4) = Some (if c then 1 else 0)"
    using fit fit' ld_in[OF mp u] ld_in[OF mp u4] ld_in[OF mp uph4] rds unfolding ph_def by auto
  note ev = unify_left_def Let_def lds Option.bind_lunit refl if_True
  show ?thesis
  proof (cases c)
    case False
    then have "unify_left h s header footer = Some (header, h, s)" by (simp only: ev) simp
    moreover have "released h s h s xs n False ys" using inv by (simp add: released_def off_block_def)
    ultimately show ?thesis using ml xs False hd a by (auto simp: merge_left_def)
  next
    case True
    have lay: "layout s ?S xs'" using inv' by (simp add: heap_inv_def)
    have J: "others ?S xs n ys - {unat ph} = others ?S xs' (m + n) ys"
      using True xs uph fit fit' hole_addrs_bounds[OF lay, of p]
      by (auto simp: others_def p_def add.assoc dest: hole_addrs_lower)
    obtain h1 s1 where r: "heapIdx_remove h s ph = Some (h1, s1)"
      and inv1: "heap_inv s1 h1 (xs' @ (m, c) # (n, False) # ys) (others ?S xs' (m + n) ys)"
      and fr: "idx_frame h s h1 s1" and k: "unat (idxused h1) \<le> unat (idxused h)"
      using heap_inv_remove[OF inv', of ph] J by (auto split: if_splits)
    have st: "start_addr h1 = start_addr h" using fr by (simp add: idx_frame_def same_bounds_def)
    obtain t where t: "heap_inv t h1 (xs' @ (m + n, c) # ys) (others ?S xs' (m + n) ys)"
      "off_block h1 s1 h1 t p (m + n)"
      "do { s \<leftarrow> st32 s1 (footer + 4) ph; s \<leftarrow> st32 s (ph + 8) (footer - ph + 8); Some (ph, h1, s) } = Some (ph, h1, t)"
      using join_stores[OF inv1, of p ph footer "\<lambda>s. Some (ph, h1, s)"] others_gap[OF lay _ p_def] st uph ft ap
      by (fastforce simp: p_def)
    have "off_block h s h1 t p (m + n)"
      using off_block_trans[OF off_block_idx[OF fr] t(2)] by (simp add: p_def)
    then have "released h s h1 t xs' (m + n) True ys" using t(1) k True by (simp add: released_def p_def)
    moreover have "unify_left h s header footer = Some (ph, h1, t)"
      using True t(3) by (simp only: ev r prod.case one_neq_zero not_False_eq_True)
    ultimately show ?thesis using ml xs True uph by (auto simp: merge_left_def p_def)
  qed
qed

lemma unify_right_ok:
  assumes inv: "heap_inv s h (xs @ (n, b) # ys) (others (unat (start_addr h)) xs n ys)"
    and a: "a = unat (start_addr h) + blk_total xs" and hd: "unat header = a" and ft: "unat footer = a + n - 8"
    and pe: "ys \<noteq> [] \<or> past_end s h" and mr: "merge_right n ys = (n1, ys1)"
  shows "\<exists>ft1 h1 s1. unify_right h s header footer = Some (ft1, h1, s1)
     \<and> unat ft1 = a + n1 - 8 \<and> released h s h1 s1 xs n1 b ys1"
proof (cases ys)
  case Nil
  note fit = heap_inv_fit[OF inv a]
  have e: "a + n = unat (end_addr h)" using inv a Nil by (simp add: heap_inv_def)
  have u: "unat (footer + 8) = a + n" using ft fit by (subst unat_add_u32) auto
  have "ld32 s (footer + 8) = Some (rd s (a + n))" "rd s (a + n) \<noteq> HEAP_MAGIC"
    using pe Nil u e by (auto simp: past_end_def ld32_rd)
  then have "unify_right h s header footer = Some (footer, h, s)"
    by (simp only: unify_right_def Let_def Option.bind_lunit if_False)
  moreover have "released h s h s xs n b ys" using inv by (simp add: released_def off_block_def)
  ultimately show ?thesis using mr Nil ft by (auto simp: merge_right_def)
next
  case (Cons y ys')
  obtain m c where y: "y = (m, c)" by fastforce
  let ?S = "unat (start_addr h)"
  note fit = heap_inv_fit[OF inv a]
  have inv': "heap_inv s h ((xs @ [(n, b)]) @ (m, c) # ys') (others ?S xs n ys)" using inv Cons y by simp
  have q: "a + n = ?S + blk_total (xs @ [(n, b)])" using a by simp
  note fit' = heap_inv_fit[OF inv' q]
  note mp = heap_inv_mapped[OF inv] end_addr_bound
  have u: "unat (footer + 8) = a + n" using ft fit by (subst unat_add_u32) auto
  have u4: "unat (footer + 8 + 4) = a + n + 4" "unat (footer + 8 + 8) = a + n + 8"
    using u fit' by (subst unat_add_u32; simp)+
  have lds: "ld32 s (footer + 8) = Some HEAP_MAGIC" "ld32 s (footer + 8 + 4) = Some (if c then 1 else 0)"
    using fit fit' ld_in[OF mp u] ld_in[OF mp u4(1)] by (auto simp: block_def)
  note ev = unify_right_def Let_def lds Option.bind_lunit refl if_True
  show ?thesis
  proof (cases c)
    case False
    then have "unify_right h s header footer = Some (footer, h, s)" by (simp only: ev) simp
    moreover have "released h s h s xs n b ys" using inv by (simp add: released_def off_block_def)
    ultimately show ?thesis using mr Cons y False ft by (auto simp: merge_right_def)
  next
    case True
    have lay: "layout s ?S xs" using inv by (simp add: heap_inv_def)
    have J: "others ?S xs n ys - {unat (footer + 8)} = others ?S xs (n + m) ys'"
      using True Cons y u fit fit' hole_addrs_bounds[OF lay, of "a + n"]
      by (auto simp: others_def a add.assoc dest: hole_addrs_lower)
    obtain h1 s1 where r: "heapIdx_remove h s (footer + 8) = Some (h1, s1)"
      and inv1: "heap_inv s1 h1 (xs @ (n, b) # (m, c) # ys') (others ?S xs (n + m) ys')"
      and fr: "idx_frame h s h1 s1" and k: "unat (idxused h1) \<le> unat (idxused h)"
      using heap_inv_remove[OF inv', of "footer + 8"] J by (auto split: if_splits)
    have st: "start_addr h1 = start_addr h" using fr by (simp add: idx_frame_def same_bounds_def)
    have "heap_inv s1 h1 ((xs @ [(n, b)]) @ (m, c) # ys') (others ?S xs (n + m) ys')" using inv1 by simp
    note fit1 = heap_inv_fit[OF this, of "a + n"]
    define nsize where "nsize = rd s1 (a + n + 8)"
    have un: "unat nsize = m" using fit1(6) q st by (simp add: block_def nsize_def add.assoc)
    have ldn: "ld32 s1 (footer + 8 + 8) = Some nsize"
      unfolding nsize_def using fit1 q st by (intro ld_in[OF heap_inv_mapped[OF inv1] end_addr_bound u4(2)]) auto
    have uf: "unat (footer + nsize) = a + (n + m) - 8" using ft un fit fit' by (subst unat_add_u32) auto
    obtain t where t: "heap_inv t h1 (xs @ (n + m, b) # ys') (others ?S xs (n + m) ys')"
      "off_block h1 s1 h1 t a (n + m)"
      "do { s \<leftarrow> st32 s1 (footer + nsize + 4) header;
            s \<leftarrow> st32 s (header + 8) (footer + nsize - header + 8); Some (footer + nsize, h1, s) }
         = Some (footer + nsize, h1, t)"
      using join_stores[OF inv1, of a header "footer + nsize" "\<lambda>s. Some (footer + nsize, h1, s)"]
        others_gap[OF lay _ a] st hd uf a by fastforce
    have "off_block h s h1 t a (n + m)"
      using off_block_trans[OF off_block_idx[OF fr] t(2)] by (simp add: a)
    then have "released h s h1 t xs (n + m) b ys'" using t(1) k by (simp add: released_def a)
    moreover have "unify_right h s header footer = Some (footer + nsize, h1, t)"
      using True t(3) by (simp only: ev r ldn prod.case one_neq_zero not_False_eq_True)
    ultimately show ?thesis using mr Cons y True uf by (auto simp: merge_right_def)
  qed
qed

section \<open>Release\<close>

text \<open>The blocks after the release of the block of \<open>n\<close> bytes between \<open>xs\<close> and \<open>ys\<close>.\<close>

definition freed_parts :: "blk list \<Rightarrow> nat \<Rightarrow> blk list \<Rightarrow> blk list \<times> nat \<times> blk list" where
  "freed_parts xs n ys = (let (xs1, n1, _) = merge_left xs n; (n2, ys2) = merge_right n1 ys in (xs1, n2, ys2))"

definition freed :: "blk list \<Rightarrow> nat \<Rightarrow> blk list \<Rightarrow> blk list" where
  "freed xs n ys = (let (xs1, n1, ys1) = freed_parts xs n ys in xs1 @ (n1, True) # ys1)"

lemma merge_left_cases:
  obtains (merge) xs' m where "xs = xs' @ [(m, True)]" "merge_left xs n = (xs', m + n, True)"
  | (keep) "merge_left xs n = (xs, n, False)" "xs = [] \<or> \<not> snd (last xs)"
proof (cases "xs \<noteq> [] \<and> snd (last xs)")
  case True
  then have "xs = butlast xs @ [(fst (last xs), True)]" by (metis append_butlast_last_id prod.collapse)
  then show ?thesis using True that(1) by (simp add: merge_left_def)
qed (auto simp: merge_left_def that)

lemma merge_right_cases:
  obtains (merge) m ys' where "ys = (m, True) # ys'" "\<And>n. merge_right n ys = (n + m, ys')"
  | (keep) "\<And>n. merge_right n ys = (n, ys)" "ys = [] \<or> \<not> snd (hd ys)"
proof (cases "ys \<noteq> [] \<and> snd (hd ys)")
  case True
  then have "ys = (fst (hd ys), True) # tl ys" by (metis list.collapse prod.collapse)
  then show ?thesis using that(1)[of "fst (hd ys)" "tl ys"]
    by (metis (no_types, lifting) bool.case(1) list.case(2) merge_right_def prod.case)
next
  case False
  then show ?thesis by (intro that(2)) (auto simp: merge_right_def split: list.splits bool.splits)
qed

lemma freed_used: "used_blks S (freed xs n ys) = used_blks S xs \<union> used_blks (S + blk_total xs + n) ys"
  by (rule merge_left_cases[of xs n]; rule merge_right_cases[of ys])
    (simp_all add: freed_def freed_parts_def add.assoc)

lemma freed_total: "blk_total (freed xs n ys) = blk_total (xs @ (n, b) # ys)"
  by (rule merge_left_cases[of xs n]; rule merge_right_cases[of ys]) (simp_all add: freed_def freed_parts_def)

lemma freed_ne: "freed xs n ys \<noteq> []"
  by (simp add: freed_def split_def Let_def)

lemma no_adj_freed: "no_adj (xs @ (n, False) # ys) \<Longrightarrow> no_adj (freed xs n ys)"
  by (rule merge_left_cases[of xs n]; rule merge_right_cases[of ys])
    (auto simp: freed_def freed_parts_def no_adj_append no_adj_Cons)

lemma hole_addrs_others: "hole_addrs S (xs @ (n, True) # ys) = insert (S + blk_total xs) (others S xs n ys)"
  by (simp add: others_def)

lemma finish_release:
  assumes rel: "released h s h2 s2 xs n b ys" and hd: "unat header = unat (start_addr h) + blk_total xs"
    and room: "idx_room h"
  shows "\<exists>h' s'. do { s \<leftarrow> st32 s2 (header + 4) 1; (h, s) \<leftarrow> heapIdx_insert h2 s header; Some (header, footer, h, s) }
      = Some (header, footer, h', s')
     \<and> heap_inv s' h' (xs @ (n, True) # ys) (hole_addrs (unat (start_addr h)) (xs @ (n, True) # ys))
     \<and> off_block h s h' s' (unat header) n"
proof -
  let ?S = "unat (start_addr h)" and ?J = "others (unat (start_addr h)) xs n ys"
  have inv: "heap_inv s2 h2 (xs @ (n, b) # ys) ?J" and off: "off_block h s h2 s2 (unat header) n"
    and k: "unat (idxused h2) \<le> unat (idxused h)"
    using rel hd by (simp_all add: released_def)
  have bd: "hp_idx h2 = hp_idx h" "start_addr h2 = start_addr h" "end_addr h2 = end_addr h"
    using off by (simp_all add: off_block_def same_bounds_def)
  have hd2: "unat header = unat (start_addr h2) + blk_total xs" using hd bd by simp
  note fit = heap_inv_fit[OF inv hd2]
  have lay: "layout s2 ?S xs" using inv bd by (simp add: heap_inv_def)
  have gap: "x + 20 \<le> unat header \<or> unat header + n \<le> x" if "x \<in> ?J" for x
    by (rule others_gap[OF lay that hd])
  have ap: "apart ?J (unat header) n" using gap by (auto simp: apart_def)
  have nin: "unat header \<notin> ?J" using gap fit by fastforce
  have u4: "unat (header + 4) = unat header + 4" using fit by (simp add: unat_add_u32)
  have st: "st32 s2 (header + 4) 1 = Some (wr s2 (unat header + 4) 1)"
    using fit by (intro st_in[OF heap_inv_mapped[OF inv] end_addr_bound u4]) auto
  have inv3: "heap_inv (wr s2 (unat header + 4) 1) h2 (xs @ (n, True) # ys) ?J"
    using heap_inv_set_hole[OF inv hd2 ap, of 1 True] by simp
  have room2: "idx_room h2" using room k bd by (simp add: idx_room_def)
  obtain h4 s4 where i: "heapIdx_insert h2 (wr s2 (unat header + 4) 1) header = Some (h4, s4)"
    and inv4: "heap_inv s4 h4 (xs @ (n, True) # ys) (insert (unat header) ?J)"
    and fr4: "idx_frame h2 (wr s2 (unat header + 4) 1) h4 s4"
    using heap_inv_insert[OF inv3 room2 nin] fit hd2 by auto
  have "off_block h s h4 s4 (unat header) n"
    using fit hd2
    by (intro off_block_trans[OF off] off_block_trans[OF off_block_local off_block_idx[OF fr4]])
      (auto intro!: agree_wr)
  then show ?thesis using st i inv4 hd hole_addrs_others[of ?S xs n ys] by simp
qed

text \<open>
  The last word of the merged block before its footer, and where the merged block lies: what
  \<open>heap_free\<close> tests before it shrinks the heap.
\<close>

lemma release_block_ok:
  assumes wf: "heap_wf s h (xs @ (n, False) # ys)" and a: "a = unat (start_addr h) + blk_total xs"
    and hd: "unat header = a" and ft: "unat footer = a + n - 8"
    and room: "idx_room h" and pe: "ys \<noteq> [] \<or> past_end s h"
  shows "\<exists>header' footer' h' s' xs1 n1 ys1. release_block h s header footer = Some (header', footer', h', s')
     \<and> freed_parts xs n ys = (xs1, n1, ys1) \<and> unat header' = unat (start_addr h) + blk_total xs1
     \<and> unat footer' = unat header' + n1 - 8
     \<and> heap_wf s' h' (freed xs n ys) \<and> off_block h s h' s' (unat header') n1"
proof -
  let ?S = "unat (start_addr h)"
  obtain xs1 n1 b1 where ml: "merge_left xs n = (xs1, n1, b1)" by (metis prod.exhaust)
  obtain n2 ys2 where mr: "merge_right n1 ys = (n2, ys2)" by fastforce
  have fp: "freed_parts xs n ys = (xs1, n2, ys2)" by (simp add: freed_parts_def ml mr)
  then have fd: "freed xs n ys = xs1 @ (n2, True) # ys2" by (simp add: freed_def)
  have inv: "heap_inv s h (xs @ (n, False) # ys) (others ?S xs n ys)"
    using wf by (simp add: heap_wf_def others_def)
  have n20: "20 \<le> n" using heap_inv_fit[OF inv a] by simp
  have tot: "?S + blk_total xs1 + n1 = a + n" using ml a
    by (cases xs n rule: merge_left_cases) auto
  obtain hd1 h1 s1 where ul: "unify_left h s header footer = Some (hd1, h1, s1)"
    and hd1: "unat hd1 = ?S + blk_total xs1" and r1: "released h s h1 s1 xs1 n1 b1 ys"
    using unify_left_ok[OF inv a hd ft ml] by blast
  have off1: "off_block h s h1 s1 (?S + blk_total xs1) n1" using r1 by (simp add: released_def)
  have bd: "hp_idx h1 = hp_idx h" "start_addr h1 = start_addr h" "end_addr h1 = end_addr h" "mpresent s1 = mpresent s"
    using off1 by (simp_all add: off_block_def same_bounds_def)
  have inv1: "heap_inv s1 h1 (xs1 @ (n1, b1) # ys) (others (unat (start_addr h1)) xs1 n1 ys)"
    using r1 bd by (simp add: released_def)
  have pe1: "ys \<noteq> [] \<or> past_end s1 h1"
  proof (cases "ys = []")
    case True
    then have E: "a + n = unat (end_addr h)" using inv a by (simp add: heap_inv_def)
    have "agree s s1 (a + n) (a + n + 4)" using off1 tot by (simp add: off_block_def)
    then have "rd s1 (a + n) = rd s (a + n)" by (rule agree_rd) auto
    then show ?thesis using pe True bd E by (simp add: past_end_def mapped_def)
  qed simp
  have ft1: "unat footer = ?S + blk_total xs1 + n1 - 8" using ft tot by simp
  obtain ft2 h2 s2 where ur: "unify_right h1 s1 hd1 footer = Some (ft2, h2, s2)"
    and ft2: "unat ft2 = ?S + blk_total xs1 + n2 - 8" and r2: "released h1 s1 h2 s2 xs1 n2 b1 ys2"
    using unify_right_ok[OF inv1 _ _ _ pe1 mr, of "?S + blk_total xs1" hd1 footer] bd hd1 ft1 by auto
  have le: "n1 \<le> n2" using mr by (cases ys rule: merge_right_cases) auto
  have "off_block h s h1 s1 (?S + blk_total xs1) n2" using off_block_mono[OF off1] le by simp
  then have rel: "released h s h2 s2 xs1 n2 b1 ys2"
    using r1 r2 bd by (auto simp: released_def intro: off_block_trans)
  obtain h' s' where fin: "do { s \<leftarrow> st32 s2 (hd1 + 4) 1; (h, s) \<leftarrow> heapIdx_insert h2 s hd1; Some (hd1, ft2, h, s) }
      = Some (hd1, ft2, h', s')" and inv': "heap_inv s' h' (freed xs n ys) (hole_addrs ?S (freed xs n ys))"
    and off: "off_block h s h' s' (unat hd1) n2"
    using finish_release[OF rel hd1 room, of ft2, folded fd] by (elim exE conjE) (rule that)
  have "start_addr h' = start_addr h" using off by (simp add: off_block_def same_bounds_def)
  then have "heap_wf s' h' (freed xs n ys)"
    using inv' no_adj_freed wf by (simp add: heap_wf_def)
  moreover have "release_block h s header footer = Some (hd1, ft2, h', s')"
    using ul ur fin by (simp add: release_block_def)
  ultimately show ?thesis using fp hd1 ft2 off by auto
qed

lemma freed_keeps:
  assumes wf: "heap_wf s h (xs @ (n, False) # ys)" and fd: "freed xs n ys = xs1 @ (n1, True) # ys1"
    and wf': "heap_wf s' h' (freed xs n ys)" and off: "off_block h s h' s' (unat (start_addr h) + blk_total xs1) n1"
    and u: "(x, k) \<in> used_blks (unat (start_addr h)) xs \<union> used_blks (unat (start_addr h) + blk_total xs + n) ys"
  shows "agree s s' x (x + k)"
proof -
  let ?S = "unat (start_addr h)"
  have st: "start_addr h' = start_addr h" using off by (simp add: off_block_def same_bounds_def)
  have "layout s' ?S (xs1 @ (n1, True) # ys1)" using wf' fd st by (simp add: heap_wf_def heap_inv_def)
  moreover have "(x, k) \<in> used_blks ?S xs1 \<union> used_blks (?S + blk_total xs1 + n1) ys1"
    using u freed_used[of ?S xs n ys] unfolding fd by simp
  moreover have "?S \<le> x" using u used_blks_lower by fastforce
  ultimately have "?S \<le> x \<and> (x + k \<le> ?S + blk_total xs1 \<or> ?S + blk_total xs1 + n1 \<le> x)"
    using used_outside[of s' ?S xs1 n1 True ys1 x k] by blast
  then show ?thesis using off unfolding off_block_def by (auto intro: agree_sub)
qed

lemma layout_total_pos: "layout s a bs \<Longrightarrow> bs \<noteq> [] \<Longrightarrow> 20 \<le> blk_total bs"
  by (cases bs) (auto simp: block_def)

lemma heap_free_step:
  assumes wf: "heap_wf s h (xs @ (n, False) # ys)"
    and ptr: "unat ptr = unat (start_addr h) + blk_total xs + 12"
    and room: "idx_room h" and pe: "ys \<noteq> [] \<or> past_end s h"
  shows "\<exists>h' s' xs1 n1 ys1. freed_parts xs n ys = (xs1, n1, ys1) \<and> heap_wf s' h' (freed xs n ys)
     \<and> off_block h s h' s' (unat (start_addr h) + blk_total xs1) n1
     \<and> heap_free contract h s ptr =
        (if ys1 = [] \<and> 0x2000 \<le> n1 \<and> 0x4000 < unat (end_addr h) - unat (start_addr h)
         then contract h' s' else Some (h', s'))"
proof -
  let ?S = "unat (start_addr h)" and ?E = "unat (end_addr h)"
  define a where "a = ?S + blk_total xs"
  have inv: "heap_inv s h (xs @ (n, False) # ys) (hole_addrs ?S (xs @ (n, False) # ys))" using wf by (simp add: heap_wf_def)
  note fit = heap_inv_fit[OF inv a_def] and mp = heap_inv_mapped[OF inv] end_addr_bound
  have hd: "unat (ptr - 12) = a" using ptr by (simp add: a_def unat_sub_u32)
  note A = blk_addrs[OF hd fit(4,5)]
  define w where "w = rd s (a + 8)"
  have w: "unat w = n" using fit by (simp add: w_def block_def)
  have ld1: "ld32 s (ptr - 12 + 8) = Some w" unfolding w_def using fit by (intro ld_in[OF mp A(2)]) auto
  have ld2: "ld32 s (ptr - 12) = Some HEAP_MAGIC" using fit ld_in[OF mp hd] by (simp add: block_def)
  have ld3: "ld32 s (ptr - 12 + w - 8) = Some HEAP_MAGIC" using fit ld_in[OF mp A(4)[OF w]] by (simp add: block_def)
  obtain header' footer' h' s' xs1 n1 ys1 where rel: "release_block h s (ptr - 12) (ptr - 12 + w - 8) = Some (header', footer', h', s')"
    and fp: "freed_parts xs n ys = (xs1, n1, ys1)" and hd': "unat header' = ?S + blk_total xs1"
    and ft': "unat footer' = unat header' + n1 - 8" and wf': "heap_wf s' h' (freed xs n ys)"
    and off: "off_block h s h' s' (unat header') n1"
    using release_block_ok[OF wf a_def hd A(4)[OF w] room pe] by blast
  have fd: "freed xs n ys = xs1 @ (n1, True) # ys1" using fp by (simp add: freed_def)
  have bd: "start_addr h' = start_addr h" "end_addr h' = end_addr h" using off by (simp_all add: off_block_def same_bounds_def)
  have inv': "heap_inv s' h' (xs1 @ (n1, True) # ys1) (hole_addrs ?S (freed xs n ys))"
    using wf' bd fd by (simp add: heap_wf_def)
  have hd'': "unat header' = unat (start_addr h') + blk_total xs1" using hd' bd by simp
  note fit' = heap_inv_fit[OF inv' hd'']
  have u8: "unat (header' + 8) = unat header' + 8" using fit' by (simp add: unat_add_u32)
  define w' where "w' = rd s' (unat header' + 8)"
  have ld4: "ld32 s' (header' + 8) = Some w'"
    unfolding w'_def using fit' by (intro ld_in[OF heap_inv_mapped[OF inv'] end_addr_bound u8]) auto
  have w': "unat w' = n1" using fit'(6) by (simp add: w'_def block_def)
  have "layout s' (unat header' + n1) ys1" using inv' hd'' by (simp add: heap_inv_def)
  then have "ys1 \<noteq> [] \<Longrightarrow> 20 \<le> blk_total ys1" by (rule layout_total_pos)
  moreover have "unat header' + n1 + blk_total ys1 = ?E" using inv' hd'' bd by (simp add: heap_inv_def)
  ultimately have "ys1 = [] \<longleftrightarrow> unat header' + n1 = ?E" by fastforce
  moreover have "unat (end_addr h' - 8) = ?E - 8" using fit' bd by (simp add: unat_sub_u32)
  ultimately have c1: "footer' = end_addr h' - 8 \<longleftrightarrow> ys1 = []"
    unfolding eq_u32 ft' using fit' bd by (auto intro: arg_cong[of _ _ "\<lambda>x. x - 8"])
  have SE: "?S \<le> ?E" using fit a_def by simp
  have c2: "end_addr h' - start_addr h' > HEAP_MIN_SIZE \<longleftrightarrow> 0x4000 < ?E - ?S" "0x2000 \<le> w' \<longleftrightarrow> 0x2000 \<le> n1"
    using SE w' by (simp_all add: bd less_u32 le_u32 unat_sub_u32 HEAP_MIN_SIZE_def)
  have g: "ptr \<noteq> 0" "\<not> (ptr < start_addr h \<or> ptr > end_addr h)"
    using ptr fit a_def by (auto simp: less_u32 eq_u32)
  have "heap_free contract h s ptr =
        (if ys1 = [] \<and> 0x2000 \<le> n1 \<and> 0x4000 < ?E - ?S then contract h' s' else Some (h', s'))"
    using g by (simp only: heap_free_def Let_def if_False ld1 ld2 ld3 ld4 Option.bind_lunit rel prod.case
      c1 c2 not_True_eq_False refl)
  then show ?thesis using fp wf' off unfolding hd' by blast
qed

text \<open>
  What \<open>heap_contract\<close> gives back of a heap with \<open>t\<close> bytes that ends in a hole of \<open>n\<close> bytes: as many pages as leave at most 16 kilobytes of heap, or at most one page of hole.
\<close>

definition pages_up :: "nat \<Rightarrow> nat" where
  "pages_up y = (y + 4095) div 4096"

definition give_back :: "nat \<Rightarrow> nat \<Rightarrow> nat" where
  "give_back t n = 4096 * min (pages_up (t - 0x4000)) (pages_up (n - 0x1000))"

lemma pages_up_Suc: "0 < y \<Longrightarrow> pages_up y = Suc (pages_up (y - 4096))"
proof (cases "4096 \<le> y")
  case True
  then obtain k where "y = 4096 + k" using le_Suc_ex by blast
  then show ?thesis by (simp add: pages_up_def)
next
  case False
  assume "0 < y"
  then have "(y + 4095) div 4096 = 1" using False by (intro div_nat_eqI) simp_all
  then show ?thesis using False by (simp add: pages_up_def)
qed

lemma give_back_step: "0x4000 < t \<Longrightarrow> 0x1000 < n \<Longrightarrow> give_back t n = 4096 + give_back (t - 4096) (n - 4096)"
  using pages_up_Suc[of "t - 0x4000"] pages_up_Suc[of "n - 0x1000"] by (simp add: give_back_def min_Suc_Suc diff_right_commute)

lemma give_back_0: "\<not> (0x4000 < t \<and> 0x1000 < n) \<Longrightarrow> give_back t n = 0"
  by (auto simp: give_back_def pages_up_def)

text \<open>
  The outcome of \<open>heap_free\<close> on the block of \<open>n\<close> bytes between \<open>xs\<close> and \<open>ys\<close>: the heap is well-formed; its blocks are the old ones, with a hole in the place of this block and of the
  holes beside it (\<open>freed_parts\<close>); if this hole is the last and has at least two pages, and the heap more than 16 kilobytes, \<open>q\<close> bytes of it are given back, which moves the end of the
  heap; the allocated blocks are the others, with unchanged contents.
\<close>

definition free_outcome :: "(heap \<Rightarrow> 'a cmem_scheme \<Rightarrow> bool) \<Rightarrow> heap \<Rightarrow> 'a cmem_scheme \<Rightarrow> blk list \<Rightarrow> nat \<Rightarrow> blk list \<Rightarrow> (heap \<times> 'a cmem_scheme) option \<Rightarrow> bool" where
  "free_outcome env h s xs n ys r \<longleftrightarrow> (\<exists>h' s' xs1 n1 ys1 q. r = Some (h', s') \<and> freed_parts xs n ys = (xs1, n1, ys1)
     \<and> q = (if ys1 = [] \<and> 0x2000 \<le> n1 \<and> 0x4000 < unat (end_addr h) - unat (start_addr h) then give_back (unat (end_addr h) - unat (start_addr h)) n1 else 0)
     \<and> heap_wf s' h' (xs1 @ (n1 - q, True) # ys1) \<and> unat (end_addr h') + q = unat (end_addr h) \<and> env h' s' \<and> start_addr h' = start_addr h
     \<and> used_blks (unat (start_addr h)) (xs1 @ (n1 - q, True) # ys1)
         = used_blks (unat (start_addr h)) (xs @ (n, False) # ys) - {(unat (start_addr h) + blk_total xs, n)}
     \<and> (\<forall>(y, l) \<in> used_blks (unat (start_addr h)) (xs1 @ (n1 - q, True) # ys1). agree s s' y (y + l)))"

lemma used_blks_minus:
  assumes lay: "layout s S (xs @ (n, False) # ys)"
  shows "used_blks S (xs @ (n, False) # ys) - {(S + blk_total xs, n)}
     = used_blks S xs \<union> used_blks (S + blk_total xs + n) ys"
proof -
  have "(S + blk_total xs, n) \<notin> used_blks S xs \<union> used_blks (S + blk_total xs + n) ys"
    using used_outside[OF lay, of "S + blk_total xs" n] lay by (auto simp: block_def)
  then show ?thesis by auto
qed

text \<open>
  The contract of a heap's contraction. It shrinks the last hole by whole pages, so it needs
  that what is left of the hole has room for its header and footer.
\<close>

definition rest_ok :: "nat \<Rightarrow> bool" where
  "rest_ok n \<longleftrightarrow> n mod 4096 = 0 \<or> 20 \<le> n mod 4096"

lemma rest_room:
  assumes "rest_ok n" and "4096 dvd q" and "q < n"
  shows "q + 20 \<le> n"
proof (rule ccontr)
  assume c: "\<not> q + 20 \<le> n"
  define r where "r = n - q"
  obtain j where "q = 4096 * j" using assms(2) by (elim dvdE)
  then have "n = 4096 * j + r" "0 < r" "r < 20" using assms(3) c by (auto simp: r_def)
  then show False using assms(1) by (simp add: rest_ok_def)
qed

locale heap_sink =
  fixes contract :: "heap \<Rightarrow> 'a cmem_scheme \<Rightarrow> (heap \<times> 'a cmem_scheme) option"
    and env :: "heap \<Rightarrow> 'a cmem_scheme \<Rightarrow> bool"
  assumes env_frame: "\<lbrakk> env h s; same_bounds h h'; mpresent s' = mpresent s; cmem.more s' = cmem.more s \<rbrakk> \<Longrightarrow> env h' s'"
    and contract_ok: "\<lbrakk> heap_wf s h (xs @ [(n, True)]); env h s; 0x2000 \<le> n; rest_ok n;
        0x4000 < unat (end_addr h) - unat (start_addr h) \<rbrakk> \<Longrightarrow>
       \<exists>h' s' q. contract h s = Some (h', s') \<and> q = give_back (unat (end_addr h) - unat (start_addr h)) n
         \<and> heap_wf s' h' (xs @ [(n - q, True)]) \<and> unat (end_addr h') + q = unat (end_addr h) \<and> env h' s' \<and> start_addr h' = start_addr h
         \<and> keeps_used h (xs @ [(n, True)]) s s'"
begin

lemma free_total:
  assumes wf: "heap_wf s h (xs @ (n, False) # ys)" and stb: "env h s"
    and ptr: "unat ptr = unat (start_addr h) + blk_total xs + 12"
    and room: "idx_room h" and pe: "ys \<noteq> [] \<or> past_end s h"
    and rest: "\<And>xs1 n1. freed_parts xs n ys = (xs1, n1, []) \<Longrightarrow> rest_ok n1"
  shows "free_outcome env h s xs n ys (heap_free contract h s ptr)"
proof -
  let ?S = "unat (start_addr h)" and ?U = "used_blks (unat (start_addr h)) xs \<union> used_blks (unat (start_addr h) + blk_total xs + n) ys"
  obtain h' s' xs1 n1 ys1 where fp: "freed_parts xs n ys = (xs1, n1, ys1)" and wf': "heap_wf s' h' (freed xs n ys)"
    and off: "off_block h s h' s' (?S + blk_total xs1) n1"
    and fr: "heap_free contract h s ptr = (if ys1 = [] \<and> 0x2000 \<le> n1 \<and> 0x4000 < unat (end_addr h) - ?S
         then contract h' s' else Some (h', s'))"
    using heap_free_step[OF wf ptr room pe] by blast
  have fd: "freed xs n ys = xs1 @ (n1, True) # ys1" using fp by (simp add: freed_def)
  have bd: "start_addr h' = start_addr h" "end_addr h' = end_addr h" "same_bounds h h'"
      "mpresent s' = mpresent s" "cmem.more s' = cmem.more s"
    using off by (simp_all add: off_block_def same_bounds_def)
  have "layout s ?S (xs @ (n, False) # ys)" using wf by (simp add: heap_wf_def heap_inv_def)
  note minus = used_blks_minus[OF this]
  have keep: "agree s s' y (y + l)" if "(y, l) \<in> ?U" for y l
    using freed_keeps[OF wf fd wf' off that] .
  show ?thesis
  proof (cases "ys1 = [] \<and> 0x2000 \<le> n1 \<and> 0x4000 < unat (end_addr h) - ?S")
    case False
    then have "heap_free contract h s ptr = Some (h', s')" using fr by (simp only: if_False)
    moreover have "heap_wf s' h' (xs1 @ (n1 - 0, True) # ys1)" "used_blks ?S (xs1 @ (n1 - 0, True) # ys1) = ?U"
      using wf' freed_used[of ?S xs n ys] fd by simp_all
    ultimately show ?thesis unfolding free_outcome_def minus using fp env_frame[OF stb bd(3,4,5)] bd(1,2) keep False
      by - (rule exI[of _ h'], rule exI[of _ s'], rule exI[of _ xs1], rule exI[of _ n1], rule exI[of _ ys1], rule exI[of _ 0], auto)
  next
    case True
    have rest1: "rest_ok n1" using rest fp True by simp
    have wf1: "heap_wf s' h' (xs1 @ [(n1, True)])" using wf' fd True by simp
    obtain h2 s2 q where c: "contract h' s' = Some (h2, s2)" and q: "q = give_back (unat (end_addr h) - ?S) n1"
      and wf2: "heap_wf s2 h2 (xs1 @ [(n1 - q, True)])" "unat (end_addr h2) + q = unat (end_addr h)" "env h2 s2"
      and st2: "start_addr h2 = start_addr h" and k2: "keeps_used h' (xs1 @ [(n1, True)]) s' s2"
      using contract_ok[OF wf1 env_frame[OF stb bd(3,4,5)] _ rest1] True bd(1,2) by auto
    have u: "used_blks ?S (xs1 @ [(n1 - q, True)]) = ?U" "used_blks ?S (xs1 @ [(n1, True)]) = ?U"
      using freed_used[of ?S xs n ys] fd True by simp_all
    have "agree s s2 y (y + l)" if y: "(y, l) \<in> ?U" for y l
    proof -
      have "agree s' s2 y (y + l)" using k2 y unfolding keeps_used_def bd u by blast
      then show ?thesis using keep[OF y] agree_trans by blast
    qed
    moreover have "heap_free contract h s ptr = Some (h2, s2)" using fr c True by simp
    ultimately show ?thesis unfolding free_outcome_def minus using wf2 st2 q fp True u(1)
      by - (rule exI[of _ h2], rule exI[of _ s2], rule exI[of _ xs1], rule exI[of _ n1], rule exI[of _ "[]"], rule exI[of _ q], auto)
  qed
qed

end

end
