(* ===== verification/HeapResize.thy ===== *)
theory HeapResize
  imports HeapFree
begin

text \<open>
  The part of \<open>heap_expand\<close>, \<open>heap_contract\<close> and \<open>heap_create\<close> that the kernel heap and the
  user heap share: rewriting the last block when the end of the heap moves, and how far a
  contraction goes. Obtaining and returning the memory differs and is in \<open>KHeap\<close> and \<open>UHeap\<close>.
\<close>

section \<open>Model\<close>

text \<open>\<open>heap_expand\<close> once the memory up to \<open>newEnd\<close> is there.\<close>

definition grow_hole :: "heap \<Rightarrow> 'a cmem_scheme \<Rightarrow> u32 \<Rightarrow> u32 \<Rightarrow> (heap \<times> 'a cmem_scheme) option" where
  "grow_hole h s quantity newEnd = do {
     let last_footer = end_addr h - 8;
     last_header \<leftarrow> ld32 s (last_footer + 4);
     is_hole \<leftarrow> ld32 s (last_header + 4);
     (h, s) \<leftarrow> (if is_hole \<noteq> 0 then do {
         (h, s) \<leftarrow> heapIdx_remove h s last_header;
         sz \<leftarrow> ld32 s (last_header + 8);
         s \<leftarrow> st32 s (last_header + 8) (sz + quantity);
         let last_footer = newEnd - 8;
         s \<leftarrow> st32 s last_footer HEAP_MAGIC;
         s \<leftarrow> st32 s (last_footer + 4) last_header;
         heapIdx_insert h s last_header }
       else do {
         let last_header = end_addr h;
         let last_footer = newEnd - 8;
         s \<leftarrow> st32 s (last_header + 4) 1;
         s \<leftarrow> st32 s last_header HEAP_MAGIC;
         s \<leftarrow> st32 s (last_header + 8) quantity;
         s \<leftarrow> st32 s last_footer HEAP_MAGIC;
         s \<leftarrow> st32 s (last_footer + 4) last_header;
         heapIdx_insert h s last_header });
     Some (h\<lparr>end_addr := newEnd\<rparr>, s) }"

text \<open>The loop of \<open>heap_contract\<close> that computes how many bytes to give back.\<close>

function contract_qty :: "heap \<Rightarrow> u32 \<Rightarrow> u32 \<Rightarrow> u32" where
  "contract_qty h lsize quantity =
     (if (end_addr h - start_addr h) - quantity > HEAP_MIN_SIZE \<and> lsize - quantity > 0x1000
      then contract_qty h lsize (quantity + 0x1000) else quantity)"
  by pat_completeness auto
termination
proof (relation "measure (\<lambda>(h, lsize, q). unat (lsize - q))")
  fix h :: heap and lsize q :: u32
  assume "end_addr h - start_addr h - q > HEAP_MIN_SIZE \<and> lsize - q > 0x1000"
  then have g: "4096 < unat (lsize - q)" by (simp add: less_u32)
  have "lsize - (q + 0x1000) = lsize - q - 0x1000" by simp
  then have "unat (lsize - (q + 0x1000)) = unat (lsize - q) - 4096"
    using g by (simp only: unat_sub_u32) (simp add: unat_sub_u32)
  then show "((h, lsize, q + 0x1000), h, lsize, q) \<in> measure (\<lambda>(h, lsize, q). unat (lsize - q))"
    using g by simp
qed simp

declare contract_qty.simps [simp del]

text \<open>The rewriting of the last block in \<open>heap_contract\<close>.\<close>

definition shrink_hole :: "heap \<Rightarrow> 'a cmem_scheme \<Rightarrow> u32 \<Rightarrow> u32 \<Rightarrow> u32 \<Rightarrow> (heap \<times> 'a cmem_scheme) option" where
  "shrink_hole h s last_header last_footer quantity = do {
     (h, s) \<leftarrow> heapIdx_remove h s last_header;
     sz \<leftarrow> ld32 s (last_header + 8);
     s \<leftarrow> st32 s (last_header + 8) (sz - quantity);
     let last_footer = last_footer - quantity;
     s \<leftarrow> st32 s last_footer HEAP_MAGIC;
     s \<leftarrow> st32 s (last_footer + 4) last_header;
     heapIdx_insert h s last_header }"

section \<open>Moving the end of the heap\<close>

lemma heap_inv_resize:
  assumes inv: "heap_inv s h (xs @ mid) J" and a: "a = unat (start_addr h) + blk_total xs"
    and lo: "agree s t (unat (start_addr h) - 8) a" and idx: "idx_list t h = idx_list s h"
    and mp: "mapped t (unat (hp_idx h)) (unat e)"
    and lay: "layout t a mid'" and tot: "a + blk_total mid' = unat e"
    and J: "\<forall>x\<in>J. x + 12 \<le> a"
  shows "heap_inv t (h\<lparr>end_addr := e\<rparr>) (xs @ mid') J"
proof -
  let ?S = "unat (start_addr h)" and ?I = "unat (hp_idx h)"
  have b: "?I + 4 * unat (idxused h) + 8 \<le> ?S" and JJ: "unat ` set (idx_list s h) = J"
    and JS: "\<forall>x\<in>J. ?S \<le> x"
    using inv by (auto simp: heap_inv_def)
  have "rd t (x + 8) = rd s (x + 8)" if "x \<in> J" for x
    using that J JS b by (intro agree_rd[OF lo]) fastforce+
  then have "psize t p = psize s p" if "p \<in> set (idx_list s h)" for p
    using that JJ by (auto simp: psize_def)
  then have "map (psize t) (idx_list t h) = map (psize s) (idx_list s h)"
    using idx by simp
  then have srt: "sorted (map (psize t) (idx_list t h))"
    using inv by (simp only: heap_inv_def)
  have "layout s ?S xs" using inv by (simp add: heap_inv_def)
  moreover have "agree s t ?S (?S + blk_total xs)"
    using a b by (intro agree_sub[OF lo]) auto
  ultimately have "layout t ?S xs" by (auto intro: layout_cong)
  moreover have "rd t (?S - 8) = rd s (?S - 8)"
    using lo a b by (intro agree_rd) auto
  moreover have "slots t (h\<lparr>end_addr := e\<rparr>) = slots t h" by (simp add: slots_def fun_eq_iff)
  moreover have "\<forall>x\<in>J. x + 12 \<le> unat e" using J tot by fastforce
  ultimately show ?thesis
    using inv lay tot srt a mp unfolding heap_inv_def idx by (simp add: idx)
qed

lemma heap_wf_agree:
  fixes s t :: "'a cmem_scheme"
  assumes wf: "heap_wf s h bs" and ag: "agree s t (unat (hp_idx h)) (unat (end_addr h))"
    and mp: "mapped t (unat (hp_idx h)) (unat (end_addr h))"
  shows "heap_wf t h bs"
proof -
  let ?S = "unat (start_addr h)"
  have inv: "heap_inv s h (bs @ []) (hole_addrs ?S bs)" using wf by (simp add: heap_wf_def)
  have b: "unat (hp_idx h) + 4 * unat (idxused h) + 8 \<le> ?S" and e: "?S + blk_total bs = unat (end_addr h)"
    and lay: "layout s ?S bs"
    using inv by (auto simp: heap_inv_def)
  have "idx_list t h = idx_list s h" using b e by (intro slots_cong agree_sub[OF ag]) auto
  then have "heap_inv t (h\<lparr>end_addr := end_addr h\<rparr>) (bs @ []) (hole_addrs ?S bs)"
    using b e mp hole_addrs_bounds[OF lay]
    by (intro heap_inv_resize[OF inv refl agree_sub[OF ag]]) fastforce+
  then show ?thesis using wf by (simp add: heap_wf_def)
qed

lemma keeps_used_agree:
  assumes "agree s t lo hi" and "lo \<le> unat (start_addr h)" and "layout s (unat (start_addr h)) xs"
    and "unat (start_addr h) + blk_total xs \<le> hi"
  shows "keeps_used h xs s t"
  unfolding keeps_used_def
proof clarify
  fix x k assume "(x, k) \<in> used_blks (unat (start_addr h)) xs"
  then show "agree s t x (x + k)"
    using used_blks_bounds[OF assms(3)] assms(2,4) by (intro agree_sub[OF assms(1)]) fastforce+
qed

lemma keeps_used_snoc [simp]: "keeps_used h (xs @ [(n, True)]) s t = keeps_used h xs s t"
  by (simp add: keeps_used_def)

text \<open>The index operations do not look at the end of the heap.\<close>

lemma insert_scan_end [simp]: "insert_scan s (h\<lparr>end_addr := e\<rparr>) x it n = insert_scan s h x it n"
  by (induction n arbitrary: it) (simp_all add: idx_slot_def cong: if_cong)

lemma shift_up_end [simp]: "shift_up s (h\<lparr>end_addr := e\<rparr>) it n = shift_up s h it n"
  by (induction n arbitrary: it s) (simp_all add: idx_slot_def)

lemma heapIdx_insert_end:
  "heapIdx_insert (h\<lparr>end_addr := e\<rparr>) s x = map_option (\<lambda>(h, s). (h\<lparr>end_addr := e\<rparr>, s)) (heapIdx_insert h s x)"
  unfolding heapIdx_insert_def
  by (auto simp: idx_slot_def split: option.splits Option.bind_splits)

lemma insert_at_end:
  assumes inv: "heap_inv s (h\<lparr>end_addr := e\<rparr>) bs J" and room: "idx_room h" and x: "unat x \<notin> J"
    and bnd: "unat (start_addr h) \<le> unat x" "unat x + 12 \<le> unat e"
  shows "\<exists>h' s'. heapIdx_insert h s x = Some (h', s') \<and> heap_inv s' (h'\<lparr>end_addr := e\<rparr>) bs (insert (unat x) J)
     \<and> idx_frame h s h' s'"
proof -
  let ?h = "h\<lparr>end_addr := e\<rparr>"
  have "idx_room ?h" using room by (simp add: idx_room_def)
  then obtain h2 s' where i: "heapIdx_insert ?h s x = Some (h2, s')" and inv2: "heap_inv s' h2 bs (insert (unat x) J)"
    and fr: "idx_frame ?h s h2 s'"
    using heap_inv_insert[OF inv _ x] bnd by auto
  obtain h' where i': "heapIdx_insert h s x = Some (h', s')" and h2: "h2 = h'\<lparr>end_addr := e\<rparr>"
    using i unfolding heapIdx_insert_end by auto
  have "heapIdx_insert h s x = heapIdx_insert (?h\<lparr>end_addr := end_addr h\<rparr>) s x" by simp
  also have "\<dots> = Some (h2\<lparr>end_addr := end_addr h\<rparr>, s')"
    by (simp only: heapIdx_insert_end[where h = ?h] i) simp
  finally have "h' = h2\<lparr>end_addr := end_addr h\<rparr>" using i' by simp
  then have "idx_frame h s h' s'" using fr by (simp add: idx_frame_def same_bounds_def)
  then show ?thesis using i' inv2 h2 by blast
qed

section \<open>Growing\<close>

definition same_env :: "heap \<Rightarrow> 'a cmem_scheme \<Rightarrow> heap \<Rightarrow> 'a cmem_scheme \<Rightarrow> bool" where
  "same_env h s h' s' \<longleftrightarrow> hp_idx h' = hp_idx h \<and> start_addr h' = start_addr h \<and> max_end h' = max_end h
     \<and> mpresent s' = mpresent s \<and> cmem.more s' = cmem.more s"

lemma idx_frame_agree: "idx_frame h s h' s' \<Longrightarrow> unat (start_addr h) \<le> lo \<Longrightarrow> agree s s' lo hi"
  unfolding idx_frame_def using agree_sub[of s s' "unat (start_addr h) - 8" hi lo hi] by auto

lemma last_block:
  assumes inv: "heap_inv s h (xs @ [(n, b)]) J" and a: "a = unat (start_addr h) + blk_total xs"
  shows "ld32 s (end_addr h - 8 + 4) = Some (of_nat a)" "unat (of_nat a :: u32) = a"
    "ld32 s (of_nat a + 4) = Some (if b then 1 else 0)" "unat (end_addr h) = a + n"
proof -
  note fit = heap_inv_fit[OF inv a]
  show e: "unat (end_addr h) = a + n" using inv a by (simp add: heap_inv_def)
  show ua: "unat (of_nat a :: u32) = a" using fit by (simp add: unat_of_nat_u32)
  note mp = heap_inv_mapped[OF inv] end_addr_bound
  have u: "unat (end_addr h - 8 + 4) = a + n - 4"
  proof -
    have "unat (end_addr h - 8) = a + n - 8" using e fit by (simp add: unat_sub_u32)
    then show ?thesis using fit by (subst unat_add_u32) auto
  qed
  have "rd s (a + n - 4) = of_nat a" using fit(6) ua by (intro unat_eqD) (simp add: block_def)
  then show "ld32 s (end_addr h - 8 + 4) = Some (of_nat a)"
    using fit e by (subst ld_in[OF mp u]) auto
  have "unat (of_nat a + 4 :: u32) = a + 4" using ua fit by (simp add: unat_add_u32)
  then show "ld32 s (of_nat a + 4) = Some (if b then 1 else 0)"
    using fit e by (subst ld_in[OF mp]) (auto simp: block_def)
qed

lemma block_resized:
  assumes "rd s a = HEAP_MAGIC" and "rd s (a + 4) = (if b then 1 else 0)"
    and "20 \<le> m" and "unat w = m" and "unat w1 = a"
  shows "block (wr (wr (wr s (a + 8) w) (a + m - 8) HEAP_MAGIC) (a + m - 4) w1) a m b"
proof -
  define k where "k = m - 8"
  have k: "m = k + 8" "12 \<le> k" using assms(3) by (auto simp: k_def)
  show ?thesis using assms k by (simp add: block_def rd_wr_other)
qed

lemma block_created:
  assumes "20 \<le> m" and "unat w = m" and "unat w1 = a"
  shows "block (wr (wr (wr (wr (wr s (a + 4) 1) a HEAP_MAGIC) (a + 8) w) (a + m - 8) HEAP_MAGIC) (a + m - 4) w1) a m True"
proof -
  define k where "k = m - 8"
  have k: "m = k + 8" "12 \<le> k" using assms(1) by (auto simp: k_def)
  show ?thesis using assms k by (simp add: block_def rd_wr_other)
qed

text \<open>The index operations read nothing but the index and the size fields.\<close>

lemma heapIdx_remove_agree:
  fixes s0 s :: "'a cmem_scheme"
  assumes inv: "heap_inv s0 h bs J" and ag: "agree s0 s (unat (hp_idx h)) (unat (start_addr h))"
    and mp: "mapped s (unat (hp_idx h)) (unat (start_addr h))"
  shows "\<exists>h1 t s1. heapIdx_remove h s0 e = Some (h1, t) \<and> heapIdx_remove h s e = Some (h1, s1)
     \<and> idx_list s1 h1 = idx_list t h1 \<and> idx_frame h s h1 s1"
proof -
  have b: "unat (hp_idx h) + 4 * unat (idxused h) + 8 \<le> unat (start_addr h)" using inv by (simp add: heap_inv_def)
  have area: "idx_area s h (unat (idxused h))" using b mp by (auto simp: idx_area_def elim: mapped_sub)
  have "idx_list s h = idx_list s0 h" using b by (intro slots_cong agree_sub[OF ag]) auto
  then obtain h1 t h2 s1 where "heapIdx_remove h s0 e = Some (h1, t)" "heapIdx_remove h s e = Some (h2, s1)"
    "idx_upd h s0 (unat (idxused h)) (remove1 e (idx_list s0 h)) h1 t"
    and u: "idx_upd h s (unat (idxused h)) (remove1 e (idx_list s0 h)) h2 s1"
    using heapIdx_remove_spec[OF heap_inv_idx_area[OF inv], of e] heapIdx_remove_spec[OF area, of e] by auto
  moreover have "idx_frame h s h2 s1" using idx_frame_of_upd[OF u b] .
  ultimately show ?thesis by (auto simp: idx_upd_def)
qed

lemma idx_used_pos: "heap_inv s h bs J \<Longrightarrow> J \<noteq> {} \<Longrightarrow> 0 < unat (idxused h)"
  unfolding heap_inv_def by (metis diff_0_eq_0 gr0I image_is_empty length_0_conv length_slots list.set(1))

text \<open>
  Replacing the last hole by one of \<open>m\<close> bytes: the steps that \<open>heap_expand\<close> and
  \<open>heap_contract\<close> have in common. The heap was well-formed in the memory \<open>s0\<close>; the present
  memory \<open>s\<close> still has what lies below the end of the last header.
\<close>

lemma resize_remove:
  fixes s0 s :: "'a cmem_scheme"
  assumes wf: "heap_wf s0 h (xs @ [(n, True)])" and a: "a = unat (start_addr h) + blk_total xs"
    and ag: "agree s0 s (unat (hp_idx h)) (a + 12)" and mp: "mapped s (unat (hp_idx h)) (a + 12)" and lh: "unat lh = a"
  shows "\<exists>h1 (t :: 'a cmem_scheme) s1. heapIdx_remove h s lh = Some (h1, s1) \<and> idx_room h1
     \<and> heap_inv t h1 (xs @ [(n, True)]) (hole_addrs (unat (start_addr h)) xs)
     \<and> agree t s1 (unat (start_addr h) - 8) (a + 12) \<and> idx_list s1 h1 = idx_list t h1 \<and> idx_frame h s h1 s1"
proof -
  let ?S = "unat (start_addr h)"
  have inv: "heap_inv s0 h (xs @ [(n, True)]) (hole_addrs ?S (xs @ [(n, True)]))" using wf by (simp add: heap_wf_def)
  have lay: "layout s0 ?S xs" and I: "unat (hp_idx h) \<le> ?S - 8" "?S \<le> a + 12" using inv a by (auto simp: heap_inv_def)
  have J: "hole_addrs ?S (xs @ [(n, True)]) - {unat lh} = hole_addrs ?S xs"
    using hole_addrs_bounds[OF lay] lh a by fastforce
  obtain h1 t where r0: "heapIdx_remove h s0 lh = Some (h1, t)" and inv1: "heap_inv t h1 (xs @ [(n, True)]) (hole_addrs ?S xs)"
    and fr0: "idx_frame h s0 h1 t" and k: "unat (idxused h1) = unat (idxused h) - 1"
    using heap_inv_remove[OF inv, of lh] J lh a by auto
  obtain s1 where r: "heapIdx_remove h s lh = Some (h1, s1)" and l: "idx_list s1 h1 = idx_list t h1" and fr: "idx_frame h s h1 s1"
    using heapIdx_remove_agree[OF inv agree_sub[OF ag] mapped_sub[OF mp], of lh] r0 I by auto
  have "agree t s0 (?S - 8) (a + 12)" "agree s s1 (?S - 8) (a + 12)"
    using fr0 fr by (auto simp: idx_frame_def intro: agree_sym)
  then have t1: "agree t s1 (?S - 8) (a + 12)"
    using agree_sub[OF ag I(1) le_refl] agree_trans by metis
  have "0 < unat (idxused h)" using idx_used_pos[OF inv] by simp
  then have "idx_room h1" using k fr0 inv by (simp add: idx_room_def heap_inv_def idx_frame_def same_bounds_def)
  then show ?thesis using r inv1 t1 l fr by blast
qed

lemma resize_last:
  fixes lh lf w' :: u32 and s0 s :: "'a cmem_scheme"
  assumes wf: "heap_wf s0 h (xs @ [(n, True)])" and a: "a = unat (start_addr h) + blk_total xs"
    and ag: "agree s0 s (unat (hp_idx h)) (a + 12)" and mp: "mapped s (unat (hp_idx h)) (a + m)"
    and lh: "unat lh = a" and m: "20 \<le> m" "a + m < 4294967296" "unat w' = m"
    and lf: "unat lf = a + m - 8" and szf: "\<And>w. unat w = n \<Longrightarrow> f w = w'"
  shows "\<exists>h' s'. do { (h, s) \<leftarrow> heapIdx_remove h s lh; sz \<leftarrow> ld32 s (lh + 8); s \<leftarrow> st32 s (lh + 8) (f sz);
         s \<leftarrow> st32 s lf HEAP_MAGIC; s \<leftarrow> st32 s (lf + 4) lh; heapIdx_insert h s lh } = Some (h', s')
     \<and> heap_wf s' (h'\<lparr>end_addr := of_nat (a + m)\<rparr>) (xs @ [(m, True)])
     \<and> same_env h s h' s' \<and> keeps_used h (xs @ [(n, True)]) s s'"
proof -
  let ?S = "unat (start_addr h)" and ?J = "hole_addrs (unat (start_addr h)) xs"
  obtain h1 and t0 s1 :: "'a cmem_scheme" where r: "heapIdx_remove h s lh = Some (h1, s1)" and room: "idx_room h1"
    and inv1: "heap_inv t0 h1 (xs @ [(n, True)]) ?J" and ts: "agree t0 s1 (?S - 8) (a + 12)"
    and il: "idx_list s1 h1 = idx_list t0 h1" and fr: "idx_frame h s h1 s1"
    using resize_remove[OF wf a ag mapped_sub[OF mp] lh] m by auto
  have bd: "hp_idx h1 = hp_idx h" "start_addr h1 = start_addr h" "end_addr h1 = end_addr h" "max_end h1 = max_end h"
    "mpresent s1 = mpresent s" "cmem.more s1 = cmem.more s"
    using fr by (simp_all add: idx_frame_def same_bounds_def)
  have mp1: "mapped s1 (unat (hp_idx h1)) (a + m)" using mp bd by (simp add: mapped_def)
  have a1: "a = unat (start_addr h1) + blk_total xs" using a bd by simp
  note fit1 = heap_inv_fit[OF inv1 a1]
  have rds: "rd s1 (a + i) = rd t0 (a + i)" if "i \<le> 8" for i
    using that a by (intro agree_rd[OF ts]) auto
  have lay: "layout t0 ?S xs" using inv1 bd by (simp add: heap_inv_def)
  have Jb: "x + 20 \<le> a" if "x \<in> ?J" for x using hole_addrs_bounds[OF lay that] a by simp
  define w where "w = rd s1 (a + 8)"
  have w: "unat w = n" using fit1 rds[of 8] by (simp add: w_def block_def)
  have u8: "unat (lh + 8) = a + 8" using lh m by (simp add: unat_add_u32)
  have u4: "unat (lf + 4) = a + m - 4" using lf m by (subst unat_add_u32) auto
  have ld: "ld32 s1 (lh + 8) = Some w"
    unfolding w_def using fit1 m by (intro ld_in[OF mp1 m(2) u8]) auto
  let ?t1 = "wr s1 (a + 8) w'" and ?t2 = "wr (wr s1 (a + 8) w') (a + m - 8) HEAP_MAGIC"
  let ?t = "wr ?t2 (a + m - 4) lh"
  have sts: "st32 s1 (lh + 8) w' = Some ?t1" "st32 ?t1 lf HEAP_MAGIC = Some ?t2" "st32 ?t2 (lf + 4) lh = Some ?t"
    using fit1 m mp1 lf u4 u8 by (auto intro!: st_in)
  have ae: "unat (of_nat (a + m) :: u32) = a + m" using m by (intro unat_of_nat_u32)
  have agr: "agree s1 ?t lo hi" if "hi \<le> a" for lo hi
    using that m by (intro agree_wr agree_refl) auto
  have blk: "block ?t a m True"
    using rds[of 0] rds[of 4] fit1(6) by (intro block_resized[OF _ _ m(1,3) lh]) (simp_all add: block_def)
  have inv2: "heap_inv ?t (h1\<lparr>end_addr := of_nat (a + m)\<rparr>) (xs @ [(m, True)]) ?J"
  proof (rule heap_inv_resize[OF inv1 a1])
    show "layout ?t a [(m, True)]" using blk by simp
    show "\<forall>x\<in>?J. x + 12 \<le> a" using Jb by fastforce
    show "agree t0 ?t (unat (start_addr h1) - 8) a"
      using agree_trans[OF agree_sub[OF ts, of "?S - 8" a] agr] bd by simp
    have "unat (hp_idx h1) + 4 * unat (idxused h1) \<le> a" using inv1 a1 by (simp add: heap_inv_def)
    then have "idx_list ?t h1 = idx_list s1 h1" by (intro slots_cong agr) simp
    then show "idx_list ?t h1 = idx_list t0 h1" using il by simp
  qed (use ae mp1 in auto)
  have nin: "unat lh \<notin> ?J" using Jb lh by fastforce
  obtain h2 s2 where i: "heapIdx_insert h1 ?t lh = Some (h2, s2)"
    and inv3: "heap_inv s2 (h2\<lparr>end_addr := of_nat (a + m)\<rparr>) (xs @ [(m, True)]) (insert a ?J)"
    and fr2: "idx_frame h1 ?t h2 s2"
    using insert_at_end[OF inv2 room nin] lh ae m a1 by auto
  have bd2: "hp_idx h2 = hp_idx h" "start_addr h2 = start_addr h" "max_end h2 = max_end h"
    "mpresent s2 = mpresent s" "cmem.more s2 = cmem.more s"
    using fr2 bd by (simp_all add: idx_frame_def same_bounds_def)
  have no: "no_adj (xs @ [(m, True)])" using wf by (auto simp: heap_wf_def no_adj_append)
  have wf2: "heap_wf s2 (h2\<lparr>end_addr := of_nat (a + m)\<rparr>) (xs @ [(m, True)])"
    using inv3 bd2 a no by (simp add: heap_wf_def insert_commute)
  have "agree s s2 x (x + k)" if "(x, k) \<in> used_blks ?S xs" for x k
  proof -
    have b: "?S \<le> x" "x + k \<le> a" using used_blks_bounds[OF lay that] a by auto
    have "agree s s1 x (x + k)" using idx_frame_agree[OF fr b(1)] .
    moreover have "agree ?t s2 x (x + k)" using idx_frame_agree[OF fr2] b(1) bd by simp
    ultimately show ?thesis using agr[OF b(2), of x] agree_trans by blast
  qed
  then have "keeps_used h (xs @ [(n, True)]) s s2" by (auto simp: keeps_used_def)
  moreover have "do { (h, s) \<leftarrow> heapIdx_remove h s lh; sz \<leftarrow> ld32 s (lh + 8); s \<leftarrow> st32 s (lh + 8) (f sz);
         s \<leftarrow> st32 s lf HEAP_MAGIC; s \<leftarrow> st32 s (lf + 4) lh; heapIdx_insert h s lh } = Some (h2, s2)"
    by (simp only: r ld sts szf[OF w] i Option.bind_lunit prod.case)
  moreover have "same_env h s h2 s2" using bd2 by (simp add: same_env_def)
  ultimately show ?thesis using wf2 by blast
qed

text \<open>A new last hole behind an allocated block.\<close>

lemma append_hole:
  fixes q e' :: u32
  assumes wf: "heap_wf s h bs" and nh: "\<not> ends_in_hole bs" and room: "idx_room h"
    and q: "20 \<le> unat q" and e': "unat e' = unat (end_addr h) + unat q"
    and mp: "mapped s (unat (hp_idx h)) (unat e')"
  shows "\<exists>h' s'. do { s \<leftarrow> st32 s (end_addr h + 4) 1; s \<leftarrow> st32 s (end_addr h) HEAP_MAGIC;
         s \<leftarrow> st32 s (end_addr h + 8) q; s \<leftarrow> st32 s (e' - 8) HEAP_MAGIC;
         s \<leftarrow> st32 s (e' - 8 + 4) (end_addr h); heapIdx_insert h s (end_addr h) } = Some (h', s')
     \<and> heap_wf s' (h'\<lparr>end_addr := e'\<rparr>) (bs @ [(unat q, True)])
     \<and> same_env h s h' s' \<and> keeps_used h bs s s'"
proof -
  let ?S = "unat (start_addr h)" and ?J = "hole_addrs (unat (start_addr h)) bs"
  have inv: "heap_inv s h (bs @ []) ?J" using wf by (simp add: heap_wf_def)
  define a where "a = ?S + blk_total bs"
  have ea: "unat (end_addr h) = a" using inv by (simp add: heap_inv_def a_def)
  have lay: "layout s ?S bs" using inv by (simp add: heap_inv_def)
  have ia: "unat (hp_idx h) \<le> a" "?S \<le> a" using inv by (auto simp: heap_inv_def a_def)
  have Jb: "x + 20 \<le> a" if "x \<in> ?J" for x using hole_addrs_bounds[OF lay that] by (simp add: a_def)
  have e32: "a + unat q < 4294967296" using e' ea unat_u32_less[of e'] by simp
  have u: "unat (end_addr h + 4) = a + 4" "unat (end_addr h + 8) = a + 8"
    using ea q e32 by (simp_all add: unat_add_u32)
  have uf: "unat (e' - 8) = a + unat q - 8" using e' ea q by (simp add: unat_sub_u32)
  then have uf4: "unat (e' - 8 + 4) = a + unat q - 4" using q e32 by (subst unat_add_u32) auto
  let ?t1 = "wr s (a + 4) 1" and ?t2 = "wr (wr s (a + 4) 1) a HEAP_MAGIC"
  let ?t3 = "wr ?t2 (a + 8) q" and ?t4 = "wr (wr ?t2 (a + 8) q) (a + unat q - 8) HEAP_MAGIC"
  let ?t = "wr ?t4 (a + unat q - 4) (end_addr h)"
  have mp': "mapped s (unat (hp_idx h)) (a + unat q)" using mp e' ea by simp
  have sts: "st32 s (end_addr h + 4) 1 = Some ?t1" "st32 ?t1 (end_addr h) HEAP_MAGIC = Some ?t2"
    "st32 ?t2 (end_addr h + 8) q = Some ?t3" "st32 ?t3 (e' - 8) HEAP_MAGIC = Some ?t4"
    "st32 ?t4 (e' - 8 + 4) (end_addr h) = Some ?t"
    using mp' e32 ia q u ea uf uf4 by (auto intro!: st_in)
  have agr: "agree s ?t lo hi" if "hi \<le> a" for lo hi
    using that q by (intro agree_wr agree_refl) auto
  have inv2: "heap_inv ?t (h\<lparr>end_addr := e'\<rparr>) (bs @ [(unat q, True)]) ?J"
  proof (rule heap_inv_resize[OF inv a_def])
    show "layout ?t a [(unat q, True)]" using block_created[OF q refl ea] by simp
    show "\<forall>x\<in>?J. x + 12 \<le> a" using Jb by fastforce
    show "idx_list ?t h = idx_list s h" using inv by (intro slots_cong agr) (simp add: heap_inv_def a_def)
  qed (use mp' e' ea agr in auto)
  have nin: "unat (end_addr h) \<notin> ?J" using Jb ea by fastforce
  obtain h2 s2 where i: "heapIdx_insert h ?t (end_addr h) = Some (h2, s2)"
    and inv3: "heap_inv s2 (h2\<lparr>end_addr := e'\<rparr>) (bs @ [(unat q, True)]) (insert a ?J)"
    and fr2: "idx_frame h ?t h2 s2"
    using insert_at_end[OF inv2 room nin] ea e' q ia by auto
  have bd2: "hp_idx h2 = hp_idx h" "start_addr h2 = start_addr h" "max_end h2 = max_end h"
    "mpresent s2 = mpresent s" "cmem.more s2 = cmem.more s"
    using fr2 by (simp_all add: idx_frame_def same_bounds_def)
  have "no_adj (bs @ [(unat q, True)])" using wf nh by (auto simp: heap_wf_def no_adj_append ends_in_hole_def)
  then have wf2: "heap_wf s2 (h2\<lparr>end_addr := e'\<rparr>) (bs @ [(unat q, True)])"
    using inv3 bd2 by (simp add: heap_wf_def a_def insert_commute)
  have "agree s s2 x (x + k)" if "(x, k) \<in> used_blks ?S bs" for x k
  proof -
    have b: "?S \<le> x" "x + k \<le> a" using used_blks_bounds[OF lay that] by (auto simp: a_def)
    show ?thesis using agr[OF b(2), of x] idx_frame_agree[OF fr2 b(1)] by (rule agree_trans)
  qed
  then have "keeps_used h bs s s2" by (auto simp: keeps_used_def)
  moreover have "same_env h s h2 s2" using bd2 by (simp add: same_env_def)
  ultimately show ?thesis using wf2 by (simp only: sts i Option.bind_lunit) blast
qed

lemma grow_hole_ok:
  assumes wf: "heap_wf s h bs" and ne: "bs \<noteq> []" and rm: "idx_room h \<or> ends_in_hole bs"
    and q: "20 \<le> unat q" and ov: "unat (end_addr h) + unat q < 4294967296"
    and mp: "mapped s (unat (hp_idx h)) (unat (end_addr h) + unat q)"
  shows "\<exists>h' s'. grow_hole h s q (end_addr h + q) = Some (h', s') \<and> heap_wf s' h' (grow bs (unat q))
     \<and> end_addr h' = end_addr h + q \<and> same_env h s h' s' \<and> keeps_used h bs s s'"
proof -
  obtain xs n b where bs: "bs = xs @ [(n, b)]" using ne by (metis append_butlast_last_id prod.collapse)
  let ?S = "unat (start_addr h)" and ?e = "end_addr h + q"
  define a where "a = ?S + blk_total xs"
  have inv: "heap_inv s h (xs @ [(n, b)]) (hole_addrs ?S bs)" using wf bs by (simp add: heap_wf_def)
  note lb = last_block[OF inv a_def]
  have e': "unat ?e = unat (end_addr h) + unat q" using ov by (simp add: unat_add_u32)
  show ?thesis
  proof (cases b)
    case True
    let ?m = "n + unat q"
    have uf: "unat (?e - 8) = a + ?m - 8" using e' lb(4) q by (simp add: unat_sub_u32)
    have wq: "w + q = of_nat ?m" if "unat w = n" for w :: u32
      by (rule unat_eqD) (use that ov lb(4) in \<open>simp add: unat_add_u32 unat_of_nat_u32 del: of_nat_add\<close>)
    have um: "unat (of_nat ?m :: u32) = ?m" using ov lb(4) by (intro unat_of_nat_u32) simp
    have em: "of_nat (a + ?m) = ?e" using e' lb(4) ov
      by (intro unat_eqD) (simp add: unat_of_nat_u32 del: of_nat_add)
    have "\<exists>h' s'. do { (h, s) \<leftarrow> heapIdx_remove h s (of_nat a); sz \<leftarrow> ld32 s (of_nat a + 8);
         s \<leftarrow> st32 s (of_nat a + 8) (sz + q); s \<leftarrow> st32 s (?e - 8) HEAP_MAGIC; s \<leftarrow> st32 s (?e - 8 + 4) (of_nat a);
         heapIdx_insert h s (of_nat a) } = Some (h', s')
       \<and> heap_wf s' (h'\<lparr>end_addr := of_nat (a + ?m)\<rparr>) (xs @ [(?m, True)])
       \<and> same_env h s h' s' \<and> keeps_used h (xs @ [(n, True)]) s s'"
      by (rule resize_last[OF _ a_def agree_refl _ lb(2) _ _ um uf wq]) (use wf bs True q ov lb(4) mp in \<open>simp_all add: add.assoc\<close>)
    then obtain h' s' where ex: "do { (h, s) \<leftarrow> heapIdx_remove h s (of_nat a); sz \<leftarrow> ld32 s (of_nat a + 8);
         s \<leftarrow> st32 s (of_nat a + 8) (sz + q); s \<leftarrow> st32 s (?e - 8) HEAP_MAGIC; s \<leftarrow> st32 s (?e - 8 + 4) (of_nat a);
         heapIdx_insert h s (of_nat a) } = Some (h', s')"
       and res: "heap_wf s' (h'\<lparr>end_addr := ?e\<rparr>) (xs @ [(?m, True)])"
         "same_env h s h' s'" "keeps_used h (xs @ [(n, True)]) s s'" unfolding em by (elim exE conjE) (rule that)
    have "grow_hole h s q ?e = Some (h'\<lparr>end_addr := ?e\<rparr>, s')"
      using True by (simp only: grow_hole_def Let_def lb if_True one_neq_zero not_False_eq_True
        Option.bind_lunit ex prod.case)
    then show ?thesis using res bs True by (auto simp: grow_def same_env_def)
  next
    case False
    have nh: "\<not> ends_in_hole bs" using bs False by (simp add: ends_in_hole_def)
    then have room: "idx_room h" using rm by simp
    obtain h' s' where ex: "do { s \<leftarrow> st32 s (end_addr h + 4) 1; s \<leftarrow> st32 s (end_addr h) HEAP_MAGIC;
         s \<leftarrow> st32 s (end_addr h + 8) q; s \<leftarrow> st32 s (?e - 8) HEAP_MAGIC;
         s \<leftarrow> st32 s (?e - 8 + 4) (end_addr h); heapIdx_insert h s (end_addr h) } = Some (h', s')"
       and res: "heap_wf s' (h'\<lparr>end_addr := ?e\<rparr>) (bs @ [(unat q, True)])" "same_env h s h' s'" "keeps_used h bs s s'"
      using append_hole[OF wf nh room q e', unfolded e', OF mp] by (elim exE conjE) (rule that)
    have "grow_hole h s q ?e = Some (h'\<lparr>end_addr := ?e\<rparr>, s')"
      using False by (simp only: grow_hole_def Let_def lb if_False not_True_eq_False refl
        Option.bind_lunit ex prod.case)
    then show ?thesis using res bs False by (auto simp: grow_def same_env_def)
  qed
qed

section \<open>Shrinking\<close>

text \<open>
  How far \<open>heap_contract\<close> goes: a multiple of the page size that leaves at least
  \<open>0x3001\<close> bytes of heap and at least one byte of the last hole.
\<close>

lemma contract_qty_bounds:
  assumes "4096 dvd unat q" and "q0 \<le> q" and "unat q < unat lsize" and "unat lsize \<le> unat (end_addr h - start_addr h)"
    and "q = q0 \<or> unat (end_addr h - start_addr h) - unat q > 0x3000"
  shows "let r = contract_qty h lsize q in 4096 dvd unat r \<and> q \<le> r \<and> unat r < unat lsize
     \<and> (r = q0 \<or> unat (end_addr h - start_addr h) - unat r > 0x3000)"
  using assms
proof (induction h lsize q rule: contract_qty.induct)
  case (1 h lsize q)
  let ?d = "end_addr h - start_addr h"
  show ?case
  proof (cases "?d - q > HEAP_MIN_SIZE \<and> lsize - q > 0x1000")
    case True
    have sub: "unat (?d - q) = unat ?d - unat q" "unat (lsize - q) = unat lsize - unat q"
      using "1.prems" by (simp_all add: unat_sub_u32)
    have g: "0x4000 < unat ?d - unat q" "0x1000 < unat lsize - unat q"
      using True unfolding less_u32 sub by (simp_all add: HEAP_MIN_SIZE_def)
    have uq: "unat (q + 0x1000) = unat q + 4096"
    proof -
      have "unat q + 4096 < 4294967296" using g(2) unat_u32_less[of lsize] by linarith
      then show ?thesis by (simp add: unat_add_u32)
    qed
    have "let r = contract_qty h lsize (q + 0x1000) in 4096 dvd unat r \<and> q + 0x1000 \<le> r \<and> unat r < unat lsize
       \<and> (r = q0 \<or> unat ?d - unat r > 0x3000)"
      using "1.prems" g True by (intro "1.IH") (auto simp: uq le_u32)
    moreover have "contract_qty h lsize q = contract_qty h lsize (q + 0x1000)"
      using True by (subst contract_qty.simps) simp
    ultimately show ?thesis using uq by (auto simp: Let_def le_u32)
  next
    case False
    then have "contract_qty h lsize q = q" by (subst contract_qty.simps) auto
    then show ?thesis using "1.prems" by (auto simp: le_u32)
  qed
qed

text \<open>The loop computes what is given back.\<close>

lemma contract_qty_give_back:
  assumes "unat q \<le> unat lsize" and "unat lsize \<le> unat (end_addr h - start_addr h)"
  shows "unat (contract_qty h lsize q) = unat q + give_back (unat (end_addr h - start_addr h) - unat q) (unat lsize - unat q)"
  using assms
proof (induction h lsize q rule: contract_qty.induct)
  case (1 h lsize q)
  let ?d = "end_addr h - start_addr h"
  have sub: "unat (?d - q) = unat ?d - unat q" "unat (lsize - q) = unat lsize - unat q" using "1.prems" by (simp_all add: unat_sub_u32)
  have g: "?d - q > HEAP_MIN_SIZE \<and> lsize - q > 0x1000 \<longleftrightarrow> 0x4000 < unat ?d - unat q \<and> 0x1000 < unat lsize - unat q"
    unfolding less_u32 sub by (simp add: HEAP_MIN_SIZE_def)
  show ?case
  proof (cases "?d - q > HEAP_MIN_SIZE \<and> lsize - q > 0x1000")
    case True
    have gt: "0x4000 < unat ?d - unat q" "0x1000 < unat lsize - unat q" using True g by blast+
    have "unat q + 4096 < 4294967296" using gt(2) unat_u32_less[of lsize] by linarith
    then have uq: "unat (q + 0x1000) = unat q + 4096" by (subst unat_add_u32) simp_all
    have "contract_qty h lsize q = contract_qty h lsize (q + 0x1000)" using True by (subst contract_qty.simps) simp
    then show ?thesis using "1.IH"[OF True] "1.prems" gt give_back_step[OF gt] by (simp add: uq)
  next
    case False
    then have "contract_qty h lsize q = q" by (subst contract_qty.simps) auto
    then show ?thesis using give_back_0 False g by simp
  qed
qed

lemma shrink_hole_ok:
  fixes s0 s :: "'a cmem_scheme"
  assumes wf: "heap_wf s0 h (xs @ [(n, True)])" and q: "unat q + 20 \<le> n"
    and ag: "agree s0 s (unat (hp_idx h)) (unat (end_addr h) - unat q)"
    and mp: "mapped s (unat (hp_idx h)) (unat (end_addr h) - unat q)"
  shows "\<exists>h' s'. shrink_hole h s (of_nat (unat (start_addr h) + blk_total xs)) (end_addr h - 8) q = Some (h', s')
     \<and> heap_wf s' (h'\<lparr>end_addr := end_addr h - q\<rparr>) (xs @ [(n - unat q, True)])
     \<and> same_env h s h' s' \<and> keeps_used h (xs @ [(n, True)]) s s'"
proof -
  let ?S = "unat (start_addr h)" and ?m = "n - unat q"
  define a where "a = ?S + blk_total xs"
  have inv: "heap_inv s0 h (xs @ [(n, True)]) (hole_addrs ?S (xs @ [(n, True)]))" using wf by (simp add: heap_wf_def)
  note lb = last_block[OF inv a_def] and fit = heap_inv_fit[OF inv a_def]
  have uf: "unat (end_addr h - 8 - q) = a + ?m - 8"
    using lb(4) q by (simp add: unat_sub_u32)
  have um: "unat (of_nat ?m :: u32) = ?m" using fit by (intro unat_of_nat_u32) simp
  have wq: "w - q = of_nat ?m" if "unat w = n" for w :: u32
    by (rule unat_eqD) (use that um q in \<open>simp add: unat_sub_u32\<close>)
  have em: "of_nat (a + ?m) = end_addr h - q"
    using lb(4) fit q by (intro unat_eqD) (simp add: unat_of_nat_u32 unat_sub_u32 del: of_nat_add)
  show ?thesis
    unfolding shrink_hole_def Let_def a_def[symmetric] em[symmetric]
    by (rule resize_last[OF wf a_def agree_sub[OF ag] _ lb(2) _ _ um uf wq]) (use q fit mp lb(4) in simp_all)
qed

section \<open>A new heap\<close>

lemma block_init:
  assumes "20 \<le> m" and "unat w = m" and "unat w1 = a"
  shows "block (wr (wr (wr (wr (wr s (a + 8) w) a HEAP_MAGIC) (a + 4) 1) (a + m - 4) w1) (a + m - 8) HEAP_MAGIC) a m True"
proof -
  define k where "k = m - 8"
  have k: "m = k + 8" "12 \<le> k" using assms(1) by (auto simp: k_def)
  show ?thesis using assms k by (simp add: block_def rd_wr_other)
qed

lemma init_hole_ok:
  assumes st: "4096 \<le> unat start" "unat start + 12 \<le> unat (start_addr h)"
    and sz: "unat (start_addr h) + 20 \<le> unat (end_addr h)"
    and mp: "mapped s (unat start) (unat (end_addr h))"
    and guard: "rd s (unat (start_addr h) - 8) \<noteq> HEAP_MAGIC"
  shows "\<exists>h' s'. init_hole h s start = Some (h', s')
     \<and> heap_wf s' h' [(unat (end_addr h) - unat (start_addr h), True)]
     \<and> hp_idx h' = start \<and> idxused h' = 1 \<and> start_addr h' = start_addr h \<and> end_addr h' = end_addr h
     \<and> max_end h' = max_end h \<and> mpresent s' = mpresent s \<and> cmem.more s' = cmem.more s"
proof -
  let ?S = "unat (start_addr h)" and ?E = "unat (end_addr h)"
  define h0 where "h0 = h\<lparr>hp_idx := start, idxused := 0\<rparr>"
  define d where "d = end_addr h - start_addr h"
  have d: "unat d = ?E - ?S" using sz by (simp add: d_def unat_sub_u32)
  have E32: "?S + 20 < 4294967296" using sz end_addr_bound[of h] by linarith
  have u: "unat (start_addr h + 8) = ?S + 8" "unat (start_addr h + 4) = ?S + 4" "unat (end_addr h - 8) = ?E - 8"
    using sz E32 by (simp_all add: unat_add_u32 unat_sub_u32)
  have "?E - 4 < 4294967296" using end_addr_bound[of h] by linarith
  then have u4: "unat (end_addr h - 8 + 4) = ?E - 4" using u(3) sz by (subst unat_add_u32) auto
  let ?t1 = "wr s (?S + 8) d" and ?t2 = "wr (wr s (?S + 8) d) ?S HEAP_MAGIC"
  let ?t3 = "wr ?t2 (?S + 4) 1" and ?t4 = "wr (wr ?t2 (?S + 4) 1) (?E - 4) (start_addr h)"
  let ?t = "wr ?t4 (?E - 8) HEAP_MAGIC"
  have sts: "st32 s (start_addr h + 8) d = Some ?t1" "st32 ?t1 (start_addr h) HEAP_MAGIC = Some ?t2"
    "st32 ?t2 (start_addr h + 4) 1 = Some ?t3" "st32 ?t3 (end_addr h - 8 + 4) (start_addr h) = Some ?t4"
    "st32 ?t4 (end_addr h - 8) HEAP_MAGIC = Some ?t"
    using mp st sz u u4 by (auto intro!: st_in)
  have e: "?S + (?E - ?S) - 4 = ?E - 4" "?S + (?E - ?S) - 8 = ?E - 8" using sz by simp_all
  have blk: "block ?t ?S (?E - ?S) True"
    using block_init[of "?E - ?S" d "start_addr h" ?S s] sz d unfolding e by simp
  have g: "rd ?t (?S - 8) = rd s (?S - 8)"
    using st sz by (subst rd_wr_other, linarith)+ simp
  have "heap_inv ?t h0 [(?E - ?S, True)] {}"
    unfolding heap_inv_def using blk g guard mp st sz by (auto simp: h0_def)
  moreover have "idx_room h0" using st by (simp add: idx_room_def h0_def)
  ultimately obtain h' s' where i: "heapIdx_insert h0 ?t (start_addr h) = Some (h', s')"
    and inv: "heap_inv s' h' [(?E - ?S, True)] {?S}" and fr: "idx_frame h0 ?t h' s'" and k: "unat (idxused h') = 1"
    using heap_inv_insert[of ?t h0 "[(?E - ?S, True)]" "{}" "start_addr h"] sz by (auto simp: h0_def)
  have k1: "idxused h' = 1" using k by (intro unat_eqD) simp
  have bd: "hp_idx h' = start" "start_addr h' = start_addr h" "end_addr h' = end_addr h" "max_end h' = max_end h"
    "mpresent s' = mpresent s" "cmem.more s' = cmem.more s"
    using fr by (simp_all add: idx_frame_def same_bounds_def h0_def)
  have "start_addr h0 = start_addr h" "end_addr h0 = end_addr h" by (simp_all add: h0_def)
  then have "init_hole h s start = Some (h', s')"
    by (simp only: init_hole_def Let_def h0_def[symmetric] d_def[symmetric] sts Option.bind_lunit i)
  then show ?thesis using inv k1 bd by (auto simp: heap_wf_def)
qed

end
