(* ===== verification/Bitset.thy ===== *)
theory Bitset
  imports Prelude
begin

text \<open>
  \<^verbatim>\<open>src/kernel/lib/bitset.c\<close>: the bitmap behind the physical frame allocator of
  \<^verbatim>\<open>src/kernel/mem/paging.c\<close>. An access outside the array of words is a fault.
  The operations are related to the set of used positions they represent, and
  \<open>bitset_firstFree\<close> is shown to find the least free position below
  \<open>32 * (size div 32)\<close>: positions of an incomplete last word are never handed out.
\<close>

section \<open>Model\<close>

record bitset =
  bits :: "u32 list"
  bsize :: u32

definition INDEX_FROM_BIT :: "u32 \<Rightarrow> u32" where
  "INDEX_FROM_BIT a = a div (8 * 4)"

definition OFFSET_FROM_BIT :: "u32 \<Rightarrow> u32" where
  "OFFSET_FROM_BIT a = a mod (8 * 4)"

definition one_shl :: "nat \<Rightarrow> u32" where
  "one_shl off = push_bit off 1"    \<comment> \<open>\<^verbatim>\<open>0x1 << off\<close>\<close>

definition bits_at :: "bitset \<Rightarrow> u32 \<Rightarrow> u32 option" where
  "bits_at t i = (if unat i < length (bits t) then Some (bits t ! unat i) else None)"

definition bitset_set :: "bitset \<Rightarrow> u32 \<Rightarrow> bitset option" where
  "bitset_set t num = (let idx = INDEX_FROM_BIT num; off = OFFSET_FROM_BIT num in do {
     w \<leftarrow> bits_at t idx;
     Some (t\<lparr>bits := (bits t)[unat idx := w OR one_shl (unat off)]\<rparr>) })"

definition bitset_clear :: "bitset \<Rightarrow> u32 \<Rightarrow> bitset option" where
  "bitset_clear t num = (let idx = INDEX_FROM_BIT num; off = OFFSET_FROM_BIT num in do {
     w \<leftarrow> bits_at t idx;
     Some (t\<lparr>bits := (bits t)[unat idx := w AND NOT (one_shl (unat off))]\<rparr>) })"

definition bitset_test :: "bitset \<Rightarrow> u32 \<Rightarrow> u32 option" where
  "bitset_test t num = (let idx = INDEX_FROM_BIT num; off = OFFSET_FROM_BIT num in do {
     w \<leftarrow> bits_at t idx;
     Some (w AND one_shl (unat off)) })"

text \<open>
  The two loops of \<open>bitset_firstFree\<close>: \<open>firstFree_bit w j n\<close> runs the inner loop from bit
  \<open>j\<close> with \<open>n\<close> bits left, \<open>firstFree_from t i n\<close> the outer loop from word \<open>i\<close> with
  \<open>n\<close> words left.
\<close>

fun firstFree_bit :: "u32 \<Rightarrow> nat \<Rightarrow> nat \<Rightarrow> nat option" where
  "firstFree_bit w j 0 = None"
| "firstFree_bit w j (Suc n) =
     (let toTest = one_shl j in
      if w AND toTest = 0 then Some j else firstFree_bit w (Suc j) n)"

fun firstFree_from :: "bitset \<Rightarrow> u32 \<Rightarrow> nat \<Rightarrow> u32 option" where
  "firstFree_from t i 0 = Some (- 1)"
| "firstFree_from t i (Suc n) = do {
     w \<leftarrow> bits_at t i;
     if w \<noteq> 0xFFFFFFFF then
       (case firstFree_bit w 0 32 of
          Some j \<Rightarrow> Some (i * 4 * 8 + of_nat j)
        | None \<Rightarrow> firstFree_from t (i + 1) n)
     else firstFree_from t (i + 1) n }"

definition bitset_firstFree :: "bitset \<Rightarrow> u32 option" where
  "bitset_firstFree t = firstFree_from t 0 (unat (INDEX_FROM_BIT (bsize t)))"

section \<open>The set of used positions\<close>

definition bs_used :: "bitset \<Rightarrow> nat set" where
  "bs_used t = {n. n < 32 * length (bits t) \<and> bit (bits t ! (n div 32)) (n mod 32)}"

text \<open>The array is long enough for the declared size.\<close>

definition bs_ok :: "bitset \<Rightarrow> bool" where
  "bs_ok t \<longleftrightarrow> unat (bsize t) div 32 \<le> length (bits t)"

lemma idx_off:
  "unat (INDEX_FROM_BIT a) = unat a div 32" "unat (OFFSET_FROM_BIT a) = unat a mod 32"
  by (simp_all add: INDEX_FROM_BIT_def OFFSET_FROM_BIT_def addr_simps)

lemma bits_at_Some: "unat a div 32 < length (bits t) \<Longrightarrow>
    bits_at t (INDEX_FROM_BIT a) = Some (bits t ! (unat a div 32))"
  by (simp add: bits_at_def idx_off)

lemma in_range: "unat a < 32 * length (bits t) \<longleftrightarrow> unat a div 32 < length (bits t)"
  by (metis div_less_iff_less_mult mult.commute zero_less_numeral)

lemma bit_one_shl: "bit (one_shl m) n \<longleftrightarrow> n = m \<and> m < 32"
  by (auto simp: one_shl_def bit_simps)

lemma and_one_shl_0: "j < 32 \<Longrightarrow> (w AND one_shl j = 0) = (\<not> bit w j)"
proof -
  assume j: "j < 32"
  have "w AND one_shl j = (if bit w j then one_shl j else 0)"
    by (rule bit_word_eqI) (auto simp: bit_simps bit_one_shl)
  moreover have "one_shl j \<noteq> 0"
    using j bit_one_shl[of j j] by force
  ultimately show ?thesis by simp
qed

text \<open>Replacing one word changes the represented set within that word only.\<close>

lemma used_update:
  assumes "i < length (bits t)"
  shows "bs_used (t\<lparr>bits := (bits t)[i := w]\<rparr>) =
    {n \<in> bs_used t. n div 32 \<noteq> i} \<union> {n. n div 32 = i \<and> bit w (n mod 32)}"
proof (rule set_eqI)
  fix n
  have "n div 32 = i \<Longrightarrow> n < 32 * length (bits t)"
    using assms by (metis div_less_iff_less_mult mult.commute zero_less_numeral)
  then show "n \<in> bs_used (t\<lparr>bits := (bits t)[i := w]\<rparr>) \<longleftrightarrow>
      n \<in> {n \<in> bs_used t. n div 32 \<noteq> i} \<union> {n. n div 32 = i \<and> bit w (n mod 32)}"
    using assms by (cases "n div 32 = i") (auto simp: bs_used_def)
qed

lemma same_position: "n div 32 = m div 32 \<Longrightarrow> n mod 32 = m mod 32 \<Longrightarrow> n = m" for n m :: nat
  by (metis div_mod_decomp)

lemma word_part: "i < length (bits t) \<Longrightarrow>
    {n. n div 32 = i \<and> bit (bits t ! i) (n mod 32)} = {n \<in> bs_used t. n div 32 = i}"
  by (auto simp: bs_used_def)

lemma bitset_set_used:
  assumes "unat a < 32 * length (bits t)"
  shows "\<exists>t'. bitset_set t a = Some t' \<and> bs_used t' = insert (unat a) (bs_used t)
      \<and> length (bits t') = length (bits t) \<and> bsize t' = bsize t"
proof -
  let ?i = "unat a div 32" and ?w = "bits t ! (unat a div 32) OR one_shl (unat a mod 32)"
  have i: "?i < length (bits t)" using assms in_range by blast
  have "{n. n div 32 = ?i \<and> bit ?w (n mod 32)}
      = insert (unat a) {n \<in> bs_used t. n div 32 = ?i}"
    unfolding word_part [OF i, symmetric] by (auto simp: bit_or_iff bit_one_shl intro: same_position)
  then have "bs_used (t\<lparr>bits := (bits t)[?i := ?w]\<rparr>) = insert (unat a) (bs_used t)"
    unfolding used_update [OF i] by auto
  then show ?thesis
    using bits_at_Some[OF i] by (simp add: bitset_set_def idx_off)
qed

lemma bitset_clear_used:
  assumes "unat a < 32 * length (bits t)"
  shows "\<exists>t'. bitset_clear t a = Some t' \<and> bs_used t' = bs_used t - {unat a}
      \<and> length (bits t') = length (bits t) \<and> bsize t' = bsize t"
proof -
  let ?i = "unat a div 32" and ?w = "bits t ! (unat a div 32) AND NOT (one_shl (unat a mod 32))"
  have i: "?i < length (bits t)" using assms in_range by blast
  have "{n. n div 32 = ?i \<and> bit ?w (n mod 32)} = {n \<in> bs_used t. n div 32 = ?i} - {unat a}"
    unfolding word_part [OF i, symmetric]
    by (auto simp: bit_and_iff bit_not_iff bit_one_shl intro: same_position)
  then have "bs_used (t\<lparr>bits := (bits t)[?i := ?w]\<rparr>) = bs_used t - {unat a}"
    unfolding used_update [OF i] by auto
  then show ?thesis
    using bits_at_Some[OF i] by (simp add: bitset_clear_def idx_off)
qed

lemma bitset_test_used:
  assumes "unat a < 32 * length (bits t)"
  shows "\<exists>w. bitset_test t a = Some w \<and> (w \<noteq> 0 \<longleftrightarrow> unat a \<in> bs_used t)"
proof -
  have i: "unat a div 32 < length (bits t)" using assms in_range by blast
  show ?thesis
    using bits_at_Some[OF i] assms
    by (simp add: bitset_test_def idx_off bs_used_def and_one_shl_0)
qed

section \<open>The least free position\<close>

lemma firstFree_bit_spec:
  assumes "j + n \<le> 32"
  shows "case firstFree_bit w j n of
     Some k \<Rightarrow> j \<le> k \<and> k < j + n \<and> \<not> bit w k \<and> (\<forall>m. j \<le> m \<and> m < k \<longrightarrow> bit w m)
   | None \<Rightarrow> \<forall>m. j \<le> m \<and> m < j + n \<longrightarrow> bit w m"
  using assms
proof (induction w j n rule: firstFree_bit.induct)
  case (2 w j n)
  show ?case
  proof (cases "bit w j")
    case True
    then have "firstFree_bit w j (Suc n) = firstFree_bit w (Suc j) n"
      using "2.prems" by (simp add: and_one_shl_0)
    moreover have "m = j \<or> Suc j \<le> m" if "j \<le> m" for m using that by auto
    ultimately show ?thesis
      using "2.IH" "2.prems" True and_one_shl_0[of j w]
      by (fastforce split: option.splits)
  next
    case False
    then show ?thesis using "2.prems" by (auto simp: and_one_shl_0)
  qed
qed auto

lemma firstFree_bit_full: "firstFree_bit w 0 32 = None \<longleftrightarrow> w = 0xFFFFFFFF"
proof
  assume "firstFree_bit w 0 32 = None"
  then have "\<forall>m<32. bit w m" using firstFree_bit_spec[of 0 32 w] by simp
  then have "w = - 1" by (intro bit_word_eqI) (simp add: bit_simps)
  then show "w = 0xFFFFFFFF" by simp
next
  assume "w = 0xFFFFFFFF"
  then have "w = - 1" by simp
  then have "m < 32 \<Longrightarrow> bit w m" for m by (simp add: bit_simps)
  then show "firstFree_bit w 0 32 = None"
    using firstFree_bit_spec[of 0 32 w] by (auto split: option.splits)
qed

lemma word_positions:
  assumes "m div 32 = i" and "i < length (bits t)"
  shows "m \<in> bs_used t \<longleftrightarrow> bit (bits t ! i) (m mod 32)"
  using assms by (auto simp: bs_used_def div_less_iff_less_mult [symmetric] mult.commute
      simp flip: div_less_iff_less_mult)

lemma firstFree_from_spec:
  assumes "unat i + n \<le> length (bits t)" and "unat i + n < 134217728"
  shows "(\<exists>k. firstFree_from t i n = Some (of_nat k) \<and> 32 * unat i \<le> k \<and> k < 32 * (unat i + n)
            \<and> k \<notin> bs_used t \<and> (\<forall>m. 32 * unat i \<le> m \<and> m < k \<longrightarrow> m \<in> bs_used t))
       \<or> firstFree_from t i n = Some (- 1)
            \<and> (\<forall>m. 32 * unat i \<le> m \<and> m < 32 * (unat i + n) \<longrightarrow> m \<in> bs_used t)"
  using assms
proof (induction t i n rule: firstFree_from.induct)
  case (2 t i n)
  let ?w = "bits t ! unat i"
  have i: "unat i < length (bits t)" using "2.prems" by simp
  have w: "bits_at t i = Some ?w" using i by (simp add: bits_at_def)
  have pos: "32 * unat i + j \<in> bs_used t \<longleftrightarrow> bit ?w j" if "j < 32" for j
    using word_positions[OF _ i, of "32 * unat i + j"] that by simp
  have before: "\<exists>j<32. m = 32 * unat i + j"
    if "32 * unat i \<le> m" and "m < 32 * unat i + 32" for m
    using that by (metis add_less_cancel_left le_Suc_ex)
  show ?case
  proof (cases "?w = 0xFFFFFFFF")
    case True
    then have full: "m \<in> bs_used t" if "32 * unat i \<le> m" "m < 32 * unat i + 32" for m
      using before[OF that] pos firstFree_bit_spec[of 0 32 ?w] firstFree_bit_full[of ?w] by auto
    have u: "unat (i + 1) = unat i + 1" using "2.prems" by (simp add: unat_add_u32)
    have eq: "firstFree_from t i (Suc n) = firstFree_from t (i + 1) n"
      using True w by simp
    have ext: "\<forall>m. 32 * unat i \<le> m \<and> m < k \<longrightarrow> m \<in> bs_used t"
      if "\<forall>m. 32 * unat (i + 1) \<le> m \<and> m < k \<longrightarrow> m \<in> bs_used t" for k
      using that full unfolding u by (metis add.commute distrib_left mult.right_neutral not_less)
    have n: "unat i + Suc n = unat (i + 1) + n" using u by simp
    have lo: "32 * unat (i + 1) \<le> k \<Longrightarrow> 32 * unat i \<le> k" for k using u by simp
    have "unat (i + 1) + n \<le> length (bits t)" "unat (i + 1) + n < 134217728"
      using "2.prems" u by simp_all
    moreover have "\<not> ?w \<noteq> 0xFFFFFFFF" using True by simp
    ultimately show ?thesis
      using "2.IH"(2)[OF w] ext lo unfolding eq n by blast
  next
    case False
    then obtain j where j: "firstFree_bit ?w 0 32 = Some j"
      using firstFree_bit_full[of ?w] by auto
    then have j32: "j < 32" and free: "\<not> bit ?w j" and least: "\<forall>m<j. bit ?w m"
      using firstFree_bit_spec[of 0 32 ?w] by auto
    have r: "firstFree_from t i (Suc n) = Some (of_nat (32 * unat i + j))"
      using False w j by (simp add: mult.commute)
    have "m \<in> bs_used t" if "32 * unat i \<le> m" "m < 32 * unat i + j" for m
      using that before[of m] least pos j32 by auto
    then show ?thesis
      using r pos[OF j32] free j32 by (intro disjI1 exI[of _ "32 * unat i + j"]) auto
  qed
qed auto

lemma firstFree_least:
  assumes "bs_ok t"
  shows "\<exists>r. bitset_firstFree t = Some r \<and>
    (if r = 0xFFFFFFFF then \<forall>m < 32 * (unat (bsize t) div 32). m \<in> bs_used t
     else unat r < 32 * (unat (bsize t) div 32) \<and> unat r \<notin> bs_used t
          \<and> (\<forall>m < unat r. m \<in> bs_used t))"
proof -
  let ?n = "unat (bsize t) div 32"
  have n: "?n < 134217728"
    using unat_u32_less[of "bsize t"] by (simp add: div_less_iff_less_mult)
  have eq: "bitset_firstFree t = firstFree_from t 0 ?n"
    by (simp add: bitset_firstFree_def idx_off)
  have k: "unat (of_nat k :: u32) = k \<and> (of_nat k :: u32) \<noteq> 0xFFFFFFFF" if "k < 32 * ?n" for k
  proof -
    have "k < 4294967295" using that n by linarith
    then have "unat (of_nat k :: u32) = k" by (simp add: unat_of_nat_u32)
    then show ?thesis using \<open>k < 4294967295\<close> by (auto simp: eq_u32)
  qed
  show ?thesis
    using firstFree_from_spec[of 0 ?n t] assms n k unfolding eq bs_ok_def by fastforce
qed

text \<open>
  C13. The bitmap search of the frame allocator: on a bitmap whose array covers its declared size,
  \<open>bitset_firstFree\<close> returns without a fault, and the result is the least free position among
  those of complete words, or \<open>0xFFFFFFFF\<close> exactly when all of these are used.
\<close>

theorem bitset_firstFree_least:
  assumes "bs_ok t"
  shows "\<exists>r. bitset_firstFree t = Some r \<and>
    (if r = 0xFFFFFFFF then \<forall>m < 32 * (unat (bsize t) div 32). m \<in> bs_used t
     else unat r < 32 * (unat (bsize t) div 32) \<and> unat r \<notin> bs_used t
          \<and> (\<forall>m < unat r. m \<in> bs_used t))"
  by (rule firstFree_least[OF assms])

theorem bitset_firstFree_least_witness:
  "bs_ok \<lparr>bits = [0xFFFFFFFF, 0x17], bsize = 70\<rparr>
   \<and> bitset_firstFree \<lparr>bits = [0xFFFFFFFF, 0x17], bsize = 70\<rparr> = Some 35
   \<and> 35 \<notin> bs_used \<lparr>bits = [0xFFFFFFFF, 0x17], bsize = 70\<rparr>"
proof -
  let ?t = "\<lparr>bits = [0xFFFFFFFF, 0x17], bsize = 70\<rparr> :: bitset"
  have ok: "bs_ok ?t" by (simp add: bs_ok_def)
  have v: "bitset_firstFree ?t = Some 35" by code_simp
  show ?thesis using bitset_firstFree_least[OF ok] ok v by simp
qed

end
