(* ===== verification/KState.thy ===== *)
theory KState
  imports Cmem Bitset
begin

text \<open>
  The state of the kernel (\<^verbatim>\<open>src/kernel\<close>). Each C structure is a record and lives in a
  typed store, a partial map from pointers to records of its type; linked lists stay linked
  through the pointer fields, so aliasing is as in the code. Pointer 0 is the null pointer and
  a dereference outside the store is a fault (\<^const>\<open>None\<close>).

  \<open>kmalloc\<close> hands out a pointer that was never used before. \<open>kfree\<close> only notes the pointer as
  freed: the structure can still be read through a stale pointer, as on the real heap until the
  block is reused. Fields that the code does not initialise have the value \<open>kjunk\<close> gives for
  the new pointer.
\<close>

type_synonym ptr = nat

section \<open>Structures\<close>

text \<open>\<^verbatim>\<open>mem/paging.h\<close>. The frame field has 20 bits.\<close>

record page =
  pg_present :: bool
  pg_rw :: bool
  pg_user :: bool
  pg_frame :: u32

record page_directory =
  pd_tables :: "nat \<Rightarrow> ptr"
  pd_tablesPhysical :: "nat \<Rightarrow> u32"
  pd_page :: u32                    \<comment> \<open>the page that \<open>tablesPhysical\<close> points to\<close>
  pd_physicalAddr :: u32
  pd_mappedSegs :: ptr

text \<open>
  \<^verbatim>\<open>mem/seg.h\<close> and \<^verbatim>\<open>ipc/shm.h\<close>: the four function pointers of a segment are
  determined by its kind, which also holds what \<open>seg_data\<close> points to.
\<close>

record simpleseg =
  ss_writable :: bool
  ss_start :: u32
  ss_len :: u32

record shmseg =
  sh_len :: u32
  sh_frames :: "u32 list"
  sh_framesAt :: ptr                \<comment> \<open>the address of the array \<open>frames\<close>\<close>
  sh_owner :: ptr

datatype segdata = SimpleSeg simpleseg | ShmSeg shmseg

record segment =
  sg_data :: segdata
  sg_dataAt :: ptr                  \<comment> \<open>the address in \<open>seg_data\<close>\<close>
  sg_mappings :: int

record segment_map =
  sm_seg :: ptr
  sm_pagedir :: ptr
  sm_start :: u32
  sm_len :: u32
  sm_next :: ptr

text \<open>\<^verbatim>\<open>task/task.h\<close>.\<close>

record process =
  pid :: u32
  uid :: u32
  privilege :: u32
  thread_count :: u32
  parent :: ptr
  pagedir :: ptr
  stacksBottom :: u32
  objects :: ptr
  next_objdesc :: u32
  heapseg :: ptr
  pr_next :: ptr
  threads :: ptr

record thread =
  th_process :: ptr
  th_esp :: u32
  th_ebp :: u32
  th_eip :: u32
  th_state :: u8
  kernelStack_addr :: ptr
  kernelStack_size :: u32
  userStack_seg :: ptr
  th_next :: ptr
  queue_next :: ptr

text \<open>\<^verbatim>\<open>ipc/object.h\<close> and \<^verbatim>\<open>ipc/request.h\<close>.\<close>

record object =
  owner :: ptr
  descriptors :: int
  busyMutex :: u32
  ob_request :: ptr
  wakeupOnRq :: ptr

record obj_descriptor =
  od_obj :: ptr
  od_id :: u32
  od_next :: ptr

record request =
  rq_obj :: ptr
  requester :: ptr
  func :: u32
  params :: "u32 list"
  obj_close :: "u32 list"
  shmsize :: "u32 list"
  shm_sndr :: "ptr list"
  shm_rcv :: "ptr list"
  acknowledged :: u32
  answer :: u64
  errcode :: u32
  rq_pid :: u32

section \<open>The kernel state\<close>

text \<open>
  The memory part comes first and extends the byte memory of the kernel's address space. The
  lists of sleeping threads (wake-up time and thread) and of interrupt waiters are only ever
  walked by the functions that own them and are lists here. The only interrupt handler that the
  kernel registers is \<open>timer_callback\<close>.
\<close>

datatype irq_handler = No_handler | Timer_callback

record kernel = cmem +
  frames :: bitset
  kernel_pagedir :: ptr
  current_pagedir :: ptr
  pdirs :: "ptr \<rightharpoonup> page_directory"
  ptables :: "ptr \<rightharpoonup> (nat \<Rightarrow> page)"
  freepages :: "(u32 \<times> u32) list"
  mem_placementAddr :: u32
  kheap_working :: bool
  segs :: "ptr \<rightharpoonup> segment"
  segmaps :: "ptr \<rightharpoonup> segment_map"
  procs :: "ptr \<rightharpoonup> process"
  thrs :: "ptr \<rightharpoonup> thread"
  processes :: ptr
  kernel_process :: ptr
  current_thread :: ptr
  idle_thread :: ptr
  nextpid :: u32
  manager_object :: ptr
  rqueue :: "nat \<Rightarrow> ptr"
  rlast :: "nat \<Rightarrow> ptr"
  sleeping_threads :: "(u32 \<times> ptr) list"
  tick :: u32
  frequency :: u32
  uptime :: u32
  irq_wakeup :: "nat \<Rightarrow> ptr list"
  irq_handlers :: "nat \<Rightarrow> irq_handler"
  objs :: "ptr \<rightharpoonup> object"
  descs :: "ptr \<rightharpoonup> obj_descriptor"
  rqs :: "ptr \<rightharpoonup> request"
  if_locks :: u32
  next_ptr :: ptr
  freed_ptrs :: "ptr set"
  kjunk :: "ptr \<Rightarrow> nat"
  tss_esp0 :: u32
  thread_run_addr :: u32            \<comment> \<open>the address of the code of \<open>thread_run\<close>\<close>
  port_out :: "(16 word \<times> u8) list"  \<comment> \<open>what was written to the ports\<close>
  kstacks :: "ptr \<rightharpoonup> u32 list"     \<comment> \<open>the words on top of a new kernel stack\<close>

text \<open>
  The values of the static variables before the kernel starts, with the pages in \<open>pres\<close>
  present and \<open>junk\<close> as the contents of fresh memory.
\<close>

definition kernel0 :: "(nat \<Rightarrow> bool) \<Rightarrow> (ptr \<Rightarrow> nat) \<Rightarrow> kernel" where
  "kernel0 pres junk = \<lparr>mbytes = \<lambda>_. 0, mpresent = pres, frames = \<lparr>bits = [], bsize = 0\<rparr>,
     kernel_pagedir = 0, current_pagedir = 0, pdirs = (\<lambda>_. None), ptables = (\<lambda>_. None), freepages = [], mem_placementAddr = 0, kheap_working = False,
     segs = (\<lambda>_. None), segmaps = (\<lambda>_. None), procs = (\<lambda>_. None), thrs = (\<lambda>_. None), processes = 0, kernel_process = 0,
     current_thread = 0, idle_thread = 0, nextpid = 1, manager_object = 0, rqueue = \<lambda>_. 0, rlast = \<lambda>_. 0,
     sleeping_threads = [], tick = 0, frequency = 0, uptime = 0, irq_wakeup = \<lambda>_. [], irq_handlers = \<lambda>_. No_handler,
     objs = (\<lambda>_. None), descs = (\<lambda>_. None), rqs = (\<lambda>_. None), if_locks = 1, next_ptr = 1, freed_ptrs = {}, kjunk = junk,
     tss_esp0 = 0, thread_run_addr = 0xE0110000, port_out = [], kstacks = (\<lambda>_. None)\<rparr>"

definition kmalloc_ptr :: "kernel \<Rightarrow> ptr \<times> kernel" where
  "kmalloc_ptr s = (next_ptr s, s\<lparr>next_ptr := next_ptr s + 1\<rparr>)"

definition kfree_ptr :: "ptr \<Rightarrow> kernel \<Rightarrow> kernel" where
  "kfree_ptr p s = (if p = 0 then s else s\<lparr>freed_ptrs := insert p (freed_ptrs s)\<rparr>)"

text \<open>Dereferences and field updates through a pointer.\<close>

definition the_proc :: "kernel \<Rightarrow> ptr \<Rightarrow> process option" where
  "the_proc s p = (if p = 0 then None else procs s p)"

definition upd_proc :: "ptr \<Rightarrow> (process \<Rightarrow> process) \<Rightarrow> kernel \<Rightarrow> kernel option" where
  "upd_proc p f s = do { x \<leftarrow> the_proc s p; Some (s\<lparr>procs := (procs s)(p \<mapsto> f x)\<rparr>) }"

definition the_thr :: "kernel \<Rightarrow> ptr \<Rightarrow> thread option" where
  "the_thr s p = (if p = 0 then None else thrs s p)"

definition upd_thr :: "ptr \<Rightarrow> (thread \<Rightarrow> thread) \<Rightarrow> kernel \<Rightarrow> kernel option" where
  "upd_thr p f s = do { x \<leftarrow> the_thr s p; Some (s\<lparr>thrs := (thrs s)(p \<mapsto> f x)\<rparr>) }"

definition the_pd :: "kernel \<Rightarrow> ptr \<Rightarrow> page_directory option" where
  "the_pd s p = (if p = 0 then None else pdirs s p)"

definition upd_pd :: "ptr \<Rightarrow> (page_directory \<Rightarrow> page_directory) \<Rightarrow> kernel \<Rightarrow> kernel option" where
  "upd_pd p f s = do { x \<leftarrow> the_pd s p; Some (s\<lparr>pdirs := (pdirs s)(p \<mapsto> f x)\<rparr>) }"

definition the_seg :: "kernel \<Rightarrow> ptr \<Rightarrow> segment option" where
  "the_seg s p = (if p = 0 then None else segs s p)"

definition upd_seg :: "ptr \<Rightarrow> (segment \<Rightarrow> segment) \<Rightarrow> kernel \<Rightarrow> kernel option" where
  "upd_seg p f s = do { x \<leftarrow> the_seg s p; Some (s\<lparr>segs := (segs s)(p \<mapsto> f x)\<rparr>) }"

definition the_map :: "kernel \<Rightarrow> ptr \<Rightarrow> segment_map option" where
  "the_map s p = (if p = 0 then None else segmaps s p)"

definition upd_map :: "ptr \<Rightarrow> (segment_map \<Rightarrow> segment_map) \<Rightarrow> kernel \<Rightarrow> kernel option" where
  "upd_map p f s = do { x \<leftarrow> the_map s p; Some (s\<lparr>segmaps := (segmaps s)(p \<mapsto> f x)\<rparr>) }"

definition the_obj :: "kernel \<Rightarrow> ptr \<Rightarrow> object option" where
  "the_obj s p = (if p = 0 then None else objs s p)"

definition upd_obj :: "ptr \<Rightarrow> (object \<Rightarrow> object) \<Rightarrow> kernel \<Rightarrow> kernel option" where
  "upd_obj p f s = do { x \<leftarrow> the_obj s p; Some (s\<lparr>objs := (objs s)(p \<mapsto> f x)\<rparr>) }"

definition the_desc :: "kernel \<Rightarrow> ptr \<Rightarrow> obj_descriptor option" where
  "the_desc s p = (if p = 0 then None else descs s p)"

definition upd_desc :: "ptr \<Rightarrow> (obj_descriptor \<Rightarrow> obj_descriptor) \<Rightarrow> kernel \<Rightarrow> kernel option" where
  "upd_desc p f s = do { x \<leftarrow> the_desc s p; Some (s\<lparr>descs := (descs s)(p \<mapsto> f x)\<rparr>) }"

definition the_rq :: "kernel \<Rightarrow> ptr \<Rightarrow> request option" where
  "the_rq s p = (if p = 0 then None else rqs s p)"

definition upd_rq :: "ptr \<Rightarrow> (request \<Rightarrow> request) \<Rightarrow> kernel \<Rightarrow> kernel option" where
  "upd_rq p f s = do { x \<leftarrow> the_rq s p; Some (s\<lparr>rqs := (rqs s)(p \<mapsto> f x)\<rparr>) }"

lemmas deref_defs = the_proc_def the_thr_def the_pd_def the_seg_def the_map_def the_obj_def the_desc_def the_rq_def
lemmas upd_defs = upd_proc_def upd_thr_def upd_pd_def upd_seg_def upd_map_def upd_obj_def upd_desc_def upd_rq_def

text \<open>A dereference looks at its own store only.\<close>

lemma the_proc_frame [simp]:
  "the_proc (frames_update f1 s) = the_proc s" "the_proc (current_pagedir_update f2 s) = the_proc s"
  "the_proc (pdirs_update f3 s) = the_proc s" "the_proc (ptables_update f4 s) = the_proc s"
  "the_proc (mpresent_update f5 s) = the_proc s" "the_proc (freepages_update f6 s) = the_proc s"
  "the_proc (segs_update f7 s) = the_proc s" "the_proc (segmaps_update f8 s) = the_proc s"
  "the_proc (thrs_update f9 s) = the_proc s" "the_proc (processes_update f10 s) = the_proc s"
  "the_proc (kernel_process_update f11 s) = the_proc s" "the_proc (current_thread_update f12 s) = the_proc s"
  "the_proc (idle_thread_update f13 s) = the_proc s" "the_proc (nextpid_update f14 s) = the_proc s"
  "the_proc (manager_object_update f15 s) = the_proc s" "the_proc (rqueue_update f16 s) = the_proc s"
  "the_proc (rlast_update f17 s) = the_proc s" "the_proc (sleeping_threads_update f18 s) = the_proc s"
  "the_proc (tick_update f19 s) = the_proc s" "the_proc (frequency_update f20 s) = the_proc s"
  "the_proc (uptime_update f21 s) = the_proc s" "the_proc (irq_wakeup_update f22 s) = the_proc s"
  "the_proc (irq_handlers_update f23 s) = the_proc s" "the_proc (objs_update f24 s) = the_proc s"
  "the_proc (descs_update f25 s) = the_proc s" "the_proc (rqs_update f26 s) = the_proc s"
  "the_proc (if_locks_update f27 s) = the_proc s" "the_proc (next_ptr_update f28 s) = the_proc s"
  "the_proc (freed_ptrs_update f29 s) = the_proc s" "the_proc (tss_esp0_update f30 s) = the_proc s"
  "the_proc (port_out_update f31 s) = the_proc s" "the_proc (kstacks_update f32 s) = the_proc s"
  by (simp_all add: the_proc_def fun_eq_iff)

lemma the_thr_frame [simp]:
  "the_thr (frames_update f1 s) = the_thr s" "the_thr (current_pagedir_update f2 s) = the_thr s"
  "the_thr (pdirs_update f3 s) = the_thr s" "the_thr (ptables_update f4 s) = the_thr s"
  "the_thr (mpresent_update f5 s) = the_thr s" "the_thr (freepages_update f6 s) = the_thr s"
  "the_thr (segs_update f7 s) = the_thr s" "the_thr (segmaps_update f8 s) = the_thr s"
  "the_thr (procs_update f9 s) = the_thr s" "the_thr (processes_update f10 s) = the_thr s"
  "the_thr (kernel_process_update f11 s) = the_thr s" "the_thr (current_thread_update f12 s) = the_thr s"
  "the_thr (idle_thread_update f13 s) = the_thr s" "the_thr (nextpid_update f14 s) = the_thr s"
  "the_thr (manager_object_update f15 s) = the_thr s" "the_thr (rqueue_update f16 s) = the_thr s"
  "the_thr (rlast_update f17 s) = the_thr s" "the_thr (sleeping_threads_update f18 s) = the_thr s"
  "the_thr (tick_update f19 s) = the_thr s" "the_thr (frequency_update f20 s) = the_thr s"
  "the_thr (uptime_update f21 s) = the_thr s" "the_thr (irq_wakeup_update f22 s) = the_thr s"
  "the_thr (irq_handlers_update f23 s) = the_thr s" "the_thr (objs_update f24 s) = the_thr s"
  "the_thr (descs_update f25 s) = the_thr s" "the_thr (rqs_update f26 s) = the_thr s"
  "the_thr (if_locks_update f27 s) = the_thr s" "the_thr (next_ptr_update f28 s) = the_thr s"
  "the_thr (freed_ptrs_update f29 s) = the_thr s" "the_thr (tss_esp0_update f30 s) = the_thr s"
  "the_thr (port_out_update f31 s) = the_thr s" "the_thr (kstacks_update f32 s) = the_thr s"
  by (simp_all add: the_thr_def fun_eq_iff)

lemma the_pd_frame [simp]:
  "the_pd (frames_update f1 s) = the_pd s" "the_pd (current_pagedir_update f2 s) = the_pd s"
  "the_pd (ptables_update f3 s) = the_pd s" "the_pd (mpresent_update f4 s) = the_pd s"
  "the_pd (freepages_update f5 s) = the_pd s" "the_pd (segs_update f6 s) = the_pd s"
  "the_pd (segmaps_update f7 s) = the_pd s" "the_pd (procs_update f8 s) = the_pd s"
  "the_pd (thrs_update f9 s) = the_pd s" "the_pd (processes_update f10 s) = the_pd s"
  "the_pd (kernel_process_update f11 s) = the_pd s" "the_pd (current_thread_update f12 s) = the_pd s"
  "the_pd (idle_thread_update f13 s) = the_pd s" "the_pd (nextpid_update f14 s) = the_pd s"
  "the_pd (manager_object_update f15 s) = the_pd s" "the_pd (rqueue_update f16 s) = the_pd s"
  "the_pd (rlast_update f17 s) = the_pd s" "the_pd (sleeping_threads_update f18 s) = the_pd s"
  "the_pd (tick_update f19 s) = the_pd s" "the_pd (frequency_update f20 s) = the_pd s"
  "the_pd (uptime_update f21 s) = the_pd s" "the_pd (irq_wakeup_update f22 s) = the_pd s"
  "the_pd (irq_handlers_update f23 s) = the_pd s" "the_pd (objs_update f24 s) = the_pd s"
  "the_pd (descs_update f25 s) = the_pd s" "the_pd (rqs_update f26 s) = the_pd s"
  "the_pd (if_locks_update f27 s) = the_pd s" "the_pd (next_ptr_update f28 s) = the_pd s"
  "the_pd (freed_ptrs_update f29 s) = the_pd s" "the_pd (tss_esp0_update f30 s) = the_pd s"
  "the_pd (port_out_update f31 s) = the_pd s" "the_pd (kstacks_update f32 s) = the_pd s"
  by (simp_all add: the_pd_def fun_eq_iff)

lemma the_seg_frame [simp]:
  "the_seg (frames_update f1 s) = the_seg s" "the_seg (current_pagedir_update f2 s) = the_seg s"
  "the_seg (pdirs_update f3 s) = the_seg s" "the_seg (ptables_update f4 s) = the_seg s"
  "the_seg (mpresent_update f5 s) = the_seg s" "the_seg (freepages_update f6 s) = the_seg s"
  "the_seg (segmaps_update f7 s) = the_seg s" "the_seg (procs_update f8 s) = the_seg s"
  "the_seg (thrs_update f9 s) = the_seg s" "the_seg (processes_update f10 s) = the_seg s"
  "the_seg (kernel_process_update f11 s) = the_seg s" "the_seg (current_thread_update f12 s) = the_seg s"
  "the_seg (idle_thread_update f13 s) = the_seg s" "the_seg (nextpid_update f14 s) = the_seg s"
  "the_seg (manager_object_update f15 s) = the_seg s" "the_seg (rqueue_update f16 s) = the_seg s"
  "the_seg (rlast_update f17 s) = the_seg s" "the_seg (sleeping_threads_update f18 s) = the_seg s"
  "the_seg (tick_update f19 s) = the_seg s" "the_seg (frequency_update f20 s) = the_seg s"
  "the_seg (uptime_update f21 s) = the_seg s" "the_seg (irq_wakeup_update f22 s) = the_seg s"
  "the_seg (irq_handlers_update f23 s) = the_seg s" "the_seg (objs_update f24 s) = the_seg s"
  "the_seg (descs_update f25 s) = the_seg s" "the_seg (rqs_update f26 s) = the_seg s"
  "the_seg (if_locks_update f27 s) = the_seg s" "the_seg (next_ptr_update f28 s) = the_seg s"
  "the_seg (freed_ptrs_update f29 s) = the_seg s" "the_seg (tss_esp0_update f30 s) = the_seg s"
  "the_seg (port_out_update f31 s) = the_seg s" "the_seg (kstacks_update f32 s) = the_seg s"
  by (simp_all add: the_seg_def fun_eq_iff)

lemma the_map_frame [simp]:
  "the_map (frames_update f1 s) = the_map s" "the_map (current_pagedir_update f2 s) = the_map s"
  "the_map (pdirs_update f3 s) = the_map s" "the_map (ptables_update f4 s) = the_map s"
  "the_map (mpresent_update f5 s) = the_map s" "the_map (freepages_update f6 s) = the_map s"
  "the_map (segs_update f7 s) = the_map s" "the_map (procs_update f8 s) = the_map s"
  "the_map (thrs_update f9 s) = the_map s" "the_map (processes_update f10 s) = the_map s"
  "the_map (kernel_process_update f11 s) = the_map s" "the_map (current_thread_update f12 s) = the_map s"
  "the_map (idle_thread_update f13 s) = the_map s" "the_map (nextpid_update f14 s) = the_map s"
  "the_map (manager_object_update f15 s) = the_map s" "the_map (rqueue_update f16 s) = the_map s"
  "the_map (rlast_update f17 s) = the_map s" "the_map (sleeping_threads_update f18 s) = the_map s"
  "the_map (tick_update f19 s) = the_map s" "the_map (frequency_update f20 s) = the_map s"
  "the_map (uptime_update f21 s) = the_map s" "the_map (irq_wakeup_update f22 s) = the_map s"
  "the_map (irq_handlers_update f23 s) = the_map s" "the_map (objs_update f24 s) = the_map s"
  "the_map (descs_update f25 s) = the_map s" "the_map (rqs_update f26 s) = the_map s"
  "the_map (if_locks_update f27 s) = the_map s" "the_map (next_ptr_update f28 s) = the_map s"
  "the_map (freed_ptrs_update f29 s) = the_map s" "the_map (tss_esp0_update f30 s) = the_map s"
  "the_map (port_out_update f31 s) = the_map s" "the_map (kstacks_update f32 s) = the_map s"
  by (simp_all add: the_map_def fun_eq_iff)

lemma the_obj_frame [simp]:
  "the_obj (frames_update f1 s) = the_obj s" "the_obj (current_pagedir_update f2 s) = the_obj s"
  "the_obj (pdirs_update f3 s) = the_obj s" "the_obj (ptables_update f4 s) = the_obj s"
  "the_obj (mpresent_update f5 s) = the_obj s" "the_obj (freepages_update f6 s) = the_obj s"
  "the_obj (segs_update f7 s) = the_obj s" "the_obj (segmaps_update f8 s) = the_obj s"
  "the_obj (procs_update f9 s) = the_obj s" "the_obj (thrs_update f10 s) = the_obj s"
  "the_obj (processes_update f11 s) = the_obj s" "the_obj (kernel_process_update f12 s) = the_obj s"
  "the_obj (current_thread_update f13 s) = the_obj s" "the_obj (idle_thread_update f14 s) = the_obj s"
  "the_obj (nextpid_update f15 s) = the_obj s" "the_obj (manager_object_update f16 s) = the_obj s"
  "the_obj (rqueue_update f17 s) = the_obj s" "the_obj (rlast_update f18 s) = the_obj s"
  "the_obj (sleeping_threads_update f19 s) = the_obj s" "the_obj (tick_update f20 s) = the_obj s"
  "the_obj (frequency_update f21 s) = the_obj s" "the_obj (uptime_update f22 s) = the_obj s"
  "the_obj (irq_wakeup_update f23 s) = the_obj s" "the_obj (irq_handlers_update f24 s) = the_obj s"
  "the_obj (descs_update f25 s) = the_obj s" "the_obj (rqs_update f26 s) = the_obj s"
  "the_obj (if_locks_update f27 s) = the_obj s" "the_obj (next_ptr_update f28 s) = the_obj s"
  "the_obj (freed_ptrs_update f29 s) = the_obj s" "the_obj (tss_esp0_update f30 s) = the_obj s"
  "the_obj (port_out_update f31 s) = the_obj s" "the_obj (kstacks_update f32 s) = the_obj s"
  by (simp_all add: the_obj_def fun_eq_iff)

lemma the_desc_frame [simp]:
  "the_desc (frames_update f1 s) = the_desc s" "the_desc (current_pagedir_update f2 s) = the_desc s"
  "the_desc (pdirs_update f3 s) = the_desc s" "the_desc (ptables_update f4 s) = the_desc s"
  "the_desc (mpresent_update f5 s) = the_desc s" "the_desc (freepages_update f6 s) = the_desc s"
  "the_desc (segs_update f7 s) = the_desc s" "the_desc (segmaps_update f8 s) = the_desc s"
  "the_desc (procs_update f9 s) = the_desc s" "the_desc (thrs_update f10 s) = the_desc s"
  "the_desc (processes_update f11 s) = the_desc s" "the_desc (kernel_process_update f12 s) = the_desc s"
  "the_desc (current_thread_update f13 s) = the_desc s" "the_desc (idle_thread_update f14 s) = the_desc s"
  "the_desc (nextpid_update f15 s) = the_desc s" "the_desc (manager_object_update f16 s) = the_desc s"
  "the_desc (rqueue_update f17 s) = the_desc s" "the_desc (rlast_update f18 s) = the_desc s"
  "the_desc (sleeping_threads_update f19 s) = the_desc s" "the_desc (tick_update f20 s) = the_desc s"
  "the_desc (frequency_update f21 s) = the_desc s" "the_desc (uptime_update f22 s) = the_desc s"
  "the_desc (irq_wakeup_update f23 s) = the_desc s" "the_desc (irq_handlers_update f24 s) = the_desc s"
  "the_desc (objs_update f25 s) = the_desc s" "the_desc (rqs_update f26 s) = the_desc s"
  "the_desc (if_locks_update f27 s) = the_desc s" "the_desc (next_ptr_update f28 s) = the_desc s"
  "the_desc (freed_ptrs_update f29 s) = the_desc s" "the_desc (tss_esp0_update f30 s) = the_desc s"
  "the_desc (port_out_update f31 s) = the_desc s" "the_desc (kstacks_update f32 s) = the_desc s"
  by (simp_all add: the_desc_def fun_eq_iff)

lemma the_rq_frame [simp]:
  "the_rq (frames_update f1 s) = the_rq s" "the_rq (current_pagedir_update f2 s) = the_rq s"
  "the_rq (pdirs_update f3 s) = the_rq s" "the_rq (ptables_update f4 s) = the_rq s"
  "the_rq (mpresent_update f5 s) = the_rq s" "the_rq (freepages_update f6 s) = the_rq s"
  "the_rq (segs_update f7 s) = the_rq s" "the_rq (segmaps_update f8 s) = the_rq s"
  "the_rq (procs_update f9 s) = the_rq s" "the_rq (thrs_update f10 s) = the_rq s"
  "the_rq (processes_update f11 s) = the_rq s" "the_rq (kernel_process_update f12 s) = the_rq s"
  "the_rq (current_thread_update f13 s) = the_rq s" "the_rq (idle_thread_update f14 s) = the_rq s"
  "the_rq (nextpid_update f15 s) = the_rq s" "the_rq (manager_object_update f16 s) = the_rq s"
  "the_rq (rqueue_update f17 s) = the_rq s" "the_rq (rlast_update f18 s) = the_rq s"
  "the_rq (sleeping_threads_update f19 s) = the_rq s" "the_rq (tick_update f20 s) = the_rq s"
  "the_rq (frequency_update f21 s) = the_rq s" "the_rq (uptime_update f22 s) = the_rq s"
  "the_rq (irq_wakeup_update f23 s) = the_rq s" "the_rq (irq_handlers_update f24 s) = the_rq s"
  "the_rq (objs_update f25 s) = the_rq s" "the_rq (descs_update f26 s) = the_rq s"
  "the_rq (if_locks_update f27 s) = the_rq s" "the_rq (next_ptr_update f28 s) = the_rq s"
  "the_rq (freed_ptrs_update f29 s) = the_rq s" "the_rq (tss_esp0_update f30 s) = the_rq s"
  "the_rq (port_out_update f31 s) = the_rq s" "the_rq (kstacks_update f32 s) = the_rq s"
  by (simp_all add: the_rq_def fun_eq_iff)

lemma deref_cong: "procs s' = procs s \<Longrightarrow> the_proc s' = the_proc s" "thrs s' = thrs s \<Longrightarrow> the_thr s' = the_thr s"
  "pdirs s' = pdirs s \<Longrightarrow> the_pd s' = the_pd s" "segs s' = segs s \<Longrightarrow> the_seg s' = the_seg s"
  "segmaps s' = segmaps s \<Longrightarrow> the_map s' = the_map s" "objs s' = objs s \<Longrightarrow> the_obj s' = the_obj s"
  "descs s' = descs s \<Longrightarrow> the_desc s' = the_desc s" "rqs s' = rqs s \<Longrightarrow> the_rq s' = the_rq s"
  by (simp_all add: deref_defs fun_eq_iff)

section \<open>Linked lists\<close>

text \<open>\<open>linked nxt m p xs\<close>: following \<open>nxt\<close> from \<open>p\<close> in the store \<open>m\<close> meets the structures \<open>xs\<close> and ends at null.\<close>

fun linked :: "('a \<Rightarrow> ptr) \<Rightarrow> (ptr \<rightharpoonup> 'a) \<Rightarrow> ptr \<Rightarrow> ptr list \<Rightarrow> bool" where
  "linked nxt m p [] = (p = 0)"
| "linked nxt m p (x # xs) = (p = x \<and> x \<noteq> 0 \<and> (\<exists>v. m x = Some v \<and> linked nxt m (nxt v) xs))"

lemma linked_other: "x \<notin> set xs \<Longrightarrow> linked nxt (m(x \<mapsto> v)) p xs = linked nxt m p xs"
  by (induction xs arbitrary: p) auto

lemma linked_known: "linked nxt m p xs \<Longrightarrow> set xs \<subseteq> dom m - {0}"
  by (induction xs arbitrary: p) auto

lemma linked_cong:
  "(\<And>x v. x \<in> set xs \<Longrightarrow> m x = Some v \<Longrightarrow> \<exists>v'. m' x = Some v' \<and> nxt v' = nxt v) \<Longrightarrow> linked nxt m p xs \<Longrightarrow> linked nxt m' p xs"
proof (induction xs arbitrary: p)
  case (Cons x xs)
  then obtain v v' where "m x = Some v" "m' x = Some v'" "nxt v' = nxt v" by fastforce
  then show ?case using Cons by auto
qed simp

lemma linked_unique: "linked nxt m p xs \<Longrightarrow> linked nxt m p ys \<Longrightarrow> xs = ys"
proof (induction xs arbitrary: p ys)
  case Nil
  then show ?case by (cases ys) auto
next
  case (Cons x xs)
  then show ?case by (cases ys) auto
qed

lemma linked_drop: "linked nxt m p (xs @ y # ys) \<Longrightarrow> linked nxt m y (y # ys)"
  by (induction xs arbitrary: p) auto

lemma linked_distinct: "linked nxt m p xs \<Longrightarrow> distinct xs"
proof (induction xs arbitrary: p)
  case (Cons x xs)
  have "x \<notin> set xs"
  proof
    assume "x \<in> set xs"
    then obtain us vs where xs: "xs = us @ x # vs" by (meson split_list)
    then obtain v where "m x = Some v" "linked nxt m (nxt v) (us @ x # vs)" using Cons.prems by auto
    then have "linked nxt m x (x # vs)" "linked nxt m x (x # us @ x # vs)" using Cons.prems xs linked_drop by fastforce+
    then have "x # vs = x # us @ x # vs" by (rule linked_unique)
    then show False by simp
  qed
  then show ?case using Cons by auto
qed simp

lemma linked_next: "linked nxt m p (xs @ b # t # ys) \<Longrightarrow> \<exists>v. m b = Some v \<and> b \<noteq> 0 \<and> nxt v = t"
  by (induction xs arbitrary: p) auto

text \<open>Unlinking \<open>t\<close> after \<open>b\<close>, and appending \<open>t\<close> after the last structure.\<close>

lemma linked_unlink:
  assumes "linked nxt m p (xs @ b # t # ys)" and "m t = Some tv" and "nxt v = nxt tv"
  shows "linked nxt (m(b \<mapsto> v)) p (xs @ b # ys)"
  using linked_distinct[OF assms(1)] assms
proof (induction xs arbitrary: p)
  case Nil
  then show ?case by (auto simp: linked_other linked_other[unfolded fun_upd_def])
qed (auto simp: linked_other)

lemma linked_snoc:
  assumes "linked nxt m p (ts @ [l])" and "t \<notin> set (ts @ [l])" and "t \<noteq> 0" and "nxt v = t"
    and "m t = Some tt" and "nxt tt = 0"
  shows "linked nxt (m(l \<mapsto> v)) p (ts @ [l, t])"
  using linked_distinct[OF assms(1)] assms
proof (induction ts arbitrary: p)
  case (Cons a ts)
  then show ?case by (auto simp: linked_other)
qed auto

section \<open>The global interrupt lock\<close>

text \<open>
  \<open>cli\<close> and \<open>sti\<close> of \<^verbatim>\<open>core/sys.c\<close>: a counter of nested locks; interrupts are enabled
  when it is back at 0. The result of \<open>sti\<close> tells whether interrupts are enabled.
\<close>

definition cli :: "kernel \<Rightarrow> kernel" where
  "cli s = s\<lparr>if_locks := if_locks s + 1\<rparr>"

definition sti :: "kernel \<Rightarrow> bool \<times> kernel" where
  "sti s = (let s = (if if_locks s > 0 then s\<lparr>if_locks := if_locks s - 1\<rparr> else s) in (if_locks s = 0, s))"

section \<open>Ports\<close>

definition outb :: "16 word \<Rightarrow> u8 \<Rightarrow> kernel \<Rightarrow> kernel" where
  "outb port val s = s\<lparr>port_out := port_out s @ [(port, val)]\<rparr>"

fun outbs :: "(16 word \<times> u8) list \<Rightarrow> kernel \<Rightarrow> kernel" where
  "outbs [] s = s"
| "outbs ((port, val) # ps) s = outbs ps (outb port val s)"

lemma outbs_log: "outbs ps s = s\<lparr>port_out := port_out s @ ps\<rparr>"
  by (induction ps s rule: outbs.induct) (simp_all add: outb_def)

end
