(* ===== verification/Sched.thy ===== *)
theory Sched
  imports KState
begin

text \<open>
  The scheduler's run queues, \<^verbatim>\<open>src/kernel/task/sched.c\<close>: four singly linked queues of
  threads, one per priority, linked through \<open>queue_next\<close>. The pointer operations are shown to
  implement four lists of threads, first in first out, with lower priority numbers served
  first; the locale \<open>run_queue\<close> states this contract, and what follows from it for a client is
  proved in it.
\<close>

section \<open>Model\<close>

definition PRIORITIES :: nat where "PRIORITIES = 4"

text \<open>\<^verbatim>\<open>PRIORITY(t)\<close>, the index into the arrays of queues.\<close>

definition PRIORITY :: "kernel \<Rightarrow> ptr \<Rightarrow> nat option" where
  "PRIORITY s t = do { th \<leftarrow> the_thr s t; p \<leftarrow> the_proc s (th_process th); Some (unat (privilege p)) }"

definition sched_enqueueIn :: "ptr \<Rightarrow> nat \<Rightarrow> kernel \<Rightarrow> kernel option" where
  "sched_enqueueIn t qid s =
     (if qid \<ge> PRIORITIES then None else do {
        s \<leftarrow> upd_thr t (\<lambda>th. th\<lparr>queue_next := 0\<rparr>) s;
        if rqueue s qid = 0 then
          Some (s\<lparr>rqueue := (rqueue s)(qid := t), rlast := (rlast s)(qid := t)\<rparr>)
        else do {
          s \<leftarrow> upd_thr (rlast s qid) (\<lambda>th. th\<lparr>queue_next := t\<rparr>) s;
          Some (s\<lparr>rlast := (rlast s)(qid := t)\<rparr>) } })"

definition sched_dequeueFrom :: "nat \<Rightarrow> kernel \<Rightarrow> (ptr \<times> kernel) option" where
  "sched_dequeueFrom qid s =
     (if rqueue s qid = 0 then Some (0, s)
      else do {
        let it = rqueue s qid;
        th \<leftarrow> the_thr s it;
        if (queue_next th = 0 \<and> it = rlast s qid) \<or> it \<noteq> rlast s qid then do {
          let s = s\<lparr>rqueue := (rqueue s)(qid := queue_next th)\<rparr>;
          let s = (if rqueue s qid = 0 then s\<lparr>rlast := (rlast s)(qid := 0)\<rparr> else s);
          Some (it, s) }
        else None })"     \<comment> \<open>the \<^verbatim>\<open>ASSERT\<close>\<close>

definition sched_enqueue :: "ptr \<Rightarrow> kernel \<Rightarrow> kernel option" where
  "sched_enqueue t s = (if t = idle_thread s then Some s else do { q \<leftarrow> PRIORITY s t; sched_enqueueIn t q s })"

text \<open>The loop of \<open>sched_dequeue\<close> over the priorities from \<open>i\<close>, \<open>n\<close> of them left.\<close>

fun dequeue_from :: "nat \<Rightarrow> nat \<Rightarrow> kernel \<Rightarrow> (ptr \<times> kernel) option" where
  "dequeue_from i 0 s = Some (0, s)"
| "dequeue_from i (Suc n) s = do {
     (it, s) \<leftarrow> sched_dequeueFrom i s;
     if it \<noteq> 0 then Some (it, s) else dequeue_from (Suc i) n s }"

definition sched_dequeue :: "kernel \<Rightarrow> (ptr \<times> kernel) option" where
  "sched_dequeue s = do {
     (it, s) \<leftarrow> dequeue_from 0 PRIORITIES s;
     if it = 0 then Some (idle_thread s, s) else Some (it, s) }"

section \<open>The contract of the run queues\<close>

text \<open>
  \<open>R s Q\<close>: the state \<open>s\<close> represents the queues \<open>Q\<close>. \<open>others s s'\<close>: the two states differ in
  the queues only.
\<close>

locale run_queue =
  fixes enq :: "'t \<Rightarrow> 's \<Rightarrow> 's option" and deq :: "'s \<Rightarrow> ('t \<times> 's) option"
    and R :: "'s \<Rightarrow> (nat \<Rightarrow> 't list) \<Rightarrow> bool" and prio :: "'s \<Rightarrow> 't \<Rightarrow> nat option" and idle :: "'s \<Rightarrow> 't"
    and others :: "'s \<Rightarrow> 's \<Rightarrow> bool" and levels :: nat
  assumes enq_ok: "\<lbrakk> R s Q; t \<noteq> idle s; prio s t = Some q; q < levels; \<And>i. i < levels \<Longrightarrow> t \<notin> set (Q i) \<rbrakk>
      \<Longrightarrow> \<exists>s'. enq t s = Some s' \<and> R s' (Q(q := Q q @ [t])) \<and> others s s'"
    and enq_idle: "enq (idle s) s = Some s"
    and deq_ok: "\<lbrakk> R s Q; i < levels; Q i = x # xs; \<And>j. j < i \<Longrightarrow> Q j = [] \<rbrakk>
      \<Longrightarrow> \<exists>s'. deq s = Some (x, s') \<and> R s' (Q(i := xs)) \<and> others s s'"
    and deq_idle: "\<lbrakk> R s Q; \<And>j. j < levels \<Longrightarrow> Q j = [] \<rbrakk> \<Longrightarrow> deq s = Some (idle s, s)"
    and others_refl: "others s s"
    and others_trans: "others s s' \<Longrightarrow> others s' s'' \<Longrightarrow> others s s''"
    and others_prio: "others s s' \<Longrightarrow> prio s' t = prio s t"
    and others_idle: "others s s' \<Longrightarrow> idle s' = idle s"
begin

text \<open>Calls of \<open>enq\<close> for a list of threads, and what the queues are then.\<close>

primrec enqs :: "'t list \<Rightarrow> 's \<Rightarrow> 's option" where
  "enqs [] s = Some s"
| "enqs (t # ts) s = do { s \<leftarrow> enq t s; enqs ts s }"

definition joined :: "'s \<Rightarrow> (nat \<Rightarrow> 't list) \<Rightarrow> 't list \<Rightarrow> nat \<Rightarrow> 't list" where
  "joined s Q ts q = Q q @ filter (\<lambda>t. prio s t = Some q) ts"

lemma enqs_ok:
  assumes "R s Q" and "distinct ts" and "\<And>t. t \<in> set ts \<Longrightarrow> t \<noteq> idle s \<and> (\<exists>q<levels. prio s t = Some q) \<and> (\<forall>i<levels. t \<notin> set (Q i))"
  shows "\<exists>s'. enqs ts s = Some s' \<and> R s' (joined s Q ts) \<and> others s s'"
  using assms
proof (induction ts arbitrary: s Q)
  case Nil
  have "joined s Q [] = Q" by (simp add: joined_def fun_eq_iff)
  then show ?case using Nil.prems(1) others_refl by simp
next
  case (Cons t ts)
  obtain q where q: "q < levels" "prio s t = Some q" using Cons.prems(3)[of t] by auto
  from enq_ok[OF Cons.prems(1) _ q(2,1)] Cons.prems(3)[of t] obtain s1 where
    s1: "enq t s = Some s1" "R s1 (Q(q := Q q @ [t]))" "others s s1" by auto
  note o = others_prio[OF s1(3)] others_idle[OF s1(3)]
  have "\<exists>s'. enqs ts s1 = Some s' \<and> R s' (joined s1 (Q(q := Q q @ [t])) ts) \<and> others s1 s'"
    using Cons.prems(2,3) by (intro Cons.IH[OF s1(2)]) (auto simp: o)
  moreover have "joined s1 (Q(q := Q q @ [t])) ts = joined s Q (t # ts)" using q(2) by (auto simp: joined_def o fun_eq_iff)
  ultimately show ?case using s1(1) others_trans[OF s1(3)] by auto
qed

text \<open>\<open>n\<close> calls of \<open>deq\<close>.\<close>

primrec deqs :: "nat \<Rightarrow> 's \<Rightarrow> ('t list \<times> 's) option" where
  "deqs 0 s = Some ([], s)"
| "deqs (Suc n) s = do { (x, s) \<leftarrow> deq s; (xs, s) \<leftarrow> deqs n s; Some (x # xs, s) }"

lemma deqs_fifo:
  assumes "R s Q" and "i < levels" and "Q i = xs @ ys" and "\<And>j. j < i \<Longrightarrow> Q j = []"
  shows "\<exists>s'. deqs (length xs) s = Some (xs, s') \<and> R s' (Q(i := ys)) \<and> others s s'"
  using assms
proof (induction xs arbitrary: s Q)
  case Nil
  then have "Q(i := ys) = Q" by auto
  then show ?case using Nil others_refl by simp
next
  case (Cons x xs)
  obtain s1 where s1: "deq s = Some (x, s1)" "R s1 (Q(i := xs @ ys))" "others s s1"
    using deq_ok[OF Cons.prems(1,2)] Cons.prems(3,4) by auto
  have "(Q(i := xs @ ys)) i = xs @ ys" "\<And>j. j < i \<Longrightarrow> (Q(i := xs @ ys)) j = []" using Cons.prems(4) by simp_all
  then obtain s2 where "deqs (length xs) s1 = Some (xs, s2)" "R s2 ((Q(i := xs @ ys))(i := ys))" "others s1 s2"
    using Cons.IH[OF s1(2) Cons.prems(2)] by blast
  then have "R s2 (Q(i := ys))" "deqs (length (x # xs)) s = Some (x # xs, s2)" "others s s2"
    using s1 others_trans[of s s1 s2] by simp_all
  then show ?case by blast
qed

lemma deqs_add: "deqs (m + n) s = do { (xs, s) \<leftarrow> deqs m s; (ys, s) \<leftarrow> deqs n s; Some (xs @ ys, s) }"
proof (induction m arbitrary: s)
  case 0
  show ?case by (cases "deqs n s") auto
next
  case (Suc m)
  show ?case
  proof (cases "deq s")
    case (Some y)
    obtain x s1 where "y = (x, s1)" by (cases y)
    then show ?thesis using Some by (cases "deqs m s1") (auto simp: Suc.IH Option.bind_assoc intro!: Option.bind_cong split: prod.split)
  qed simp
qed

text \<open>Everything is returned by priority, and within a priority from the front of the queue.\<close>

lemma deqs_levels:
  assumes "R s Q" and "k \<le> levels"
  shows "\<exists>s'. deqs (length (concat (map Q [0..<k]))) s = Some (concat (map Q [0..<k]), s')
     \<and> R s' (\<lambda>q. if q < k then [] else Q q) \<and> others s s'"
  using assms(2)
proof (induction k)
  case 0
  show ?case using assms(1) others_refl by simp
next
  case (Suc k)
  then obtain s1 where s1: "deqs (length (concat (map Q [0..<k]))) s = Some (concat (map Q [0..<k]), s1)"
      "R s1 (\<lambda>q. if q < k then [] else Q q)" "others s s1" by auto
  obtain s2 where s2: "deqs (length (Q k)) s1 = Some (Q k, s2)" "R s2 ((\<lambda>q. if q < k then [] else Q q)(k := []))" "others s1 s2"
    using deqs_fifo[OF s1(2), of k "Q k" "[]"] Suc.prems by auto
  have "(\<lambda>q. if q < k then [] else Q q)(k := []) = (\<lambda>q. if q < Suc k then [] else Q q)" by (auto simp: fun_eq_iff)
  then show ?case using s1(1) s2 others_trans[OF s1(3)] by (auto simp: deqs_add simp del: length_concat)
qed

lemma enqs_deqs:
  assumes "R s Q" and "distinct ts" and "\<And>t. t \<in> set ts \<Longrightarrow> t \<noteq> idle s \<and> (\<exists>q<levels. prio s t = Some q) \<and> (\<forall>i<levels. t \<notin> set (Q i))"
    and "xs = concat (map (joined s Q ts) [0..<levels])"
  shows "\<exists>s1 s2. enqs ts s = Some s1 \<and> deqs (length xs) s1 = Some (xs, s2) \<and> R s2 (\<lambda>q. if q < levels then [] else joined s Q ts q)
     \<and> deq s2 = Some (idle s, s2) \<and> others s s2"
proof -
  obtain s1 where s1: "enqs ts s = Some s1" "R s1 (joined s Q ts)" "others s s1" using enqs_ok[OF assms(1-3)] by auto
  obtain s2 where s2: "deqs (length xs) s1 = Some (xs, s2)" "R s2 (\<lambda>q. if q < levels then [] else joined s Q ts q)" "others s1 s2"
    using deqs_levels[OF s1(2) order.refl] unfolding assms(4) by auto
  have o: "others s s2" using others_trans[OF s1(3) s2(3)] .
  have "deq s2 = Some (idle s2, s2)" by (rule deq_idle[OF s2(2)]) simp
  then show ?thesis using s1(1) s2(1,2) o others_idle[OF o] by auto
qed

text \<open>What \<open>deq\<close> returns, whatever the queues are.\<close>

lemma deq_cases:
  assumes "R s Q"
  obtains (idle) "deq s = Some (idle s, s)" "\<And>j. j < levels \<Longrightarrow> Q j = []"
  | (pop) i x xs s' where "i < levels" "Q i = x # xs" "\<And>j. j < i \<Longrightarrow> Q j = []"
      "deq s = Some (x, s')" "R s' (Q(i := xs))" "others s s'"
proof (cases "\<exists>i<levels. Q i \<noteq> []")
  case True
  define i where "i = (LEAST i. Q i \<noteq> [])"
  obtain k where k: "k < levels" "Q k \<noteq> []" using True by blast
  have i: "Q i \<noteq> []" unfolding i_def using LeastI[of "\<lambda>i. Q i \<noteq> []", OF k(2)] .
  have least: "Q j = []" if "j < i" for j using that not_less_Least unfolding i_def by blast
  have lt: "i < levels" using k Least_le[of "\<lambda>i. Q i \<noteq> []", OF k(2)] unfolding i_def by simp
  obtain x xs where x: "Q i = x # xs" using i by (cases "Q i") auto
  then show ?thesis using deq_ok[OF assms lt x least] pop[OF lt x least] by blast
qed (use assms deq_idle idle in blast)

end

section \<open>The linked lists\<close>

text \<open>The list of threads found by following \<open>queue_next\<close> from \<open>p\<close>.\<close>

abbreviation qpath :: "(ptr \<rightharpoonup> thread) \<Rightarrow> ptr \<Rightarrow> ptr list \<Rightarrow> bool" where
  "qpath \<equiv> linked queue_next"

definition runq :: "kernel \<Rightarrow> (nat \<Rightarrow> ptr list) \<Rightarrow> bool" where
  "runq s Q \<longleftrightarrow> (\<forall>i<PRIORITIES. qpath (thrs s) (rqueue s i) (Q i) \<and> distinct (Q i)
       \<and> rlast s i = (if Q i = [] then 0 else last (Q i)))
     \<and> (\<forall>i<PRIORITIES. \<forall>j<PRIORITIES. i \<noteq> j \<longrightarrow> set (Q i) \<inter> set (Q j) = {})"

text \<open>Threads without their link, and everything else.\<close>

definition same_threads :: "(ptr \<rightharpoonup> thread) \<Rightarrow> (ptr \<rightharpoonup> thread) \<Rightarrow> bool" where
  "same_threads m m' \<longleftrightarrow> dom m' = dom m
     \<and> (\<forall>t th th'. m t = Some th \<longrightarrow> m' t = Some th' \<longrightarrow> th'\<lparr>queue_next := 0\<rparr> = th\<lparr>queue_next := 0\<rparr>)"

definition queues_only :: "kernel \<Rightarrow> kernel \<Rightarrow> bool" where
  "queues_only s s' \<longleftrightarrow> (\<exists>m q l. s' = s\<lparr>thrs := m, rqueue := q, rlast := l\<rparr> \<and> same_threads (thrs s) m)"

lemma same_threads_refl [simp]: "same_threads m m"
  by (simp add: same_threads_def)

lemma same_threads_trans: "same_threads m m' \<Longrightarrow> same_threads m' m'' \<Longrightarrow> same_threads m m''"
  unfolding same_threads_def by (metis domD domI)

lemma same_threads_upd: "m t = Some th \<Longrightarrow> same_threads m (m(t \<mapsto> th\<lparr>queue_next := x\<rparr>))"
  by (auto simp: same_threads_def)

lemma queues_only_refl [simp]: "queues_only s s"
  unfolding queues_only_def by (intro exI[of _ "thrs s"] exI[of _ "rqueue s"] exI[of _ "rlast s"]) simp

lemma queues_only_trans: "queues_only s s' \<Longrightarrow> queues_only s' s'' \<Longrightarrow> queues_only s s''"
  unfolding queues_only_def by (elim exE conjE) (auto intro: same_threads_trans)

lemma runq_upd_other:
  assumes "runq s Q" and "\<And>i. i < PRIORITIES \<Longrightarrow> t \<notin> set (Q i)"
  shows "runq (s\<lparr>thrs := (thrs s)(t \<mapsto> th)\<rparr>) Q"
  using assms by (simp add: runq_def linked_other)

lemma runq_change:
  assumes "runq s Q" and "qpath (thrs s') (rqueue s' i) xs" and "distinct xs"
    and "rlast s' i = (if xs = [] then 0 else last xs)"
    and "\<And>j. j < PRIORITIES \<Longrightarrow> j \<noteq> i \<Longrightarrow> qpath (thrs s') (rqueue s' j) (Q j) \<and> rlast s' j = rlast s j \<and> set xs \<inter> set (Q j) = {}"
  shows "runq s' (Q(i := xs))"
  using assms unfolding runq_def by (simp add: Int_commute)

lemma runq_disjoint: "runq s Q \<Longrightarrow> i < PRIORITIES \<Longrightarrow> j < PRIORITIES \<Longrightarrow> j \<noteq> i \<Longrightarrow> set (Q i) \<inter> set (Q j) = {}"
  unfolding runq_def by blast

lemma sched_enqueueIn_ok:
  assumes R: "runq s Q" and q: "q < PRIORITIES" and t: "the_thr s t = Some tt"
    and new: "\<And>i. i < PRIORITIES \<Longrightarrow> t \<notin> set (Q i)"
  shows "\<exists>s'. sched_enqueueIn t q s = Some s' \<and> runq s' (Q(q := Q q @ [t])) \<and> queues_only s s'"
proof -
  have t0: "t \<noteq> 0" "thrs s t = Some tt" using t by (auto simp: the_thr_def split: if_splits)
  let ?s = "s\<lparr>thrs := (thrs s)(t \<mapsto> tt\<lparr>queue_next := 0\<rparr>)\<rparr>"
  have R1: "runq ?s Q" using runq_upd_other[OF R new] .
  have o1: "queues_only s ?s" unfolding queues_only_def
    by (intro exI[of _ "thrs ?s"] exI[of _ "rqueue s"] exI[of _ "rlast s"]) (simp add: same_threads_upd t0)
  have u: "upd_thr t (\<lambda>th. th\<lparr>queue_next := 0\<rparr>) s = Some ?s" using t by (simp add: upd_thr_def)
  have Rq: "qpath (thrs ?s) (rqueue s q) (Q q)" "rlast s q = (if Q q = [] then 0 else last (Q q))" "distinct (Q q)"
    using R1 q by (auto simp: runq_def)
  show ?thesis
  proof (cases "Q q = []")
    case True
    then have "rqueue s q = 0" using Rq by simp
    let ?s' = "?s\<lparr>rqueue := (rqueue s)(q := t), rlast := (rlast s)(q := t)\<rparr>"
    have "sched_enqueueIn t q s = Some ?s'" using u q \<open>rqueue s q = 0\<close> by (simp add: sched_enqueueIn_def)
    moreover have "runq ?s' (Q(q := Q q @ [t]))"
      using R1 True t0 new by (intro runq_change[OF R1]) (auto simp: runq_def)
    moreover have "queues_only ?s ?s'" unfolding queues_only_def
      by (intro exI[of _ "thrs ?s"] exI[of _ "rqueue ?s'"] exI[of _ "rlast ?s'"]) simp
    ultimately show ?thesis using queues_only_trans[OF o1] by blast
  next
    case False
    then obtain ts l where tl: "Q q = ts @ [l]" by (metis append_butlast_last_id)
    have ne: "rqueue s q \<noteq> 0" using Rq(1) False by (cases "Q q") auto
    have l: "l \<noteq> 0" "l \<noteq> t" using linked_known[OF Rq(1)] new[OF q] tl by auto
    obtain tl' where lt: "thrs s l = Some tl'" using linked_known[OF Rq(1)] tl l by (auto split: if_splits)
    let ?s' = "?s\<lparr>thrs := (thrs ?s)(l \<mapsto> tl'\<lparr>queue_next := t\<rparr>), rlast := (rlast s)(q := t)\<rparr>"
    have "sched_enqueueIn t q s = Some ?s'"
      using u q ne Rq(2) tl l lt by (simp add: sched_enqueueIn_def upd_thr_def the_thr_def)
    moreover have "runq ?s' (Q(q := Q q @ [t]))"
    proof -
      have "qpath (thrs ?s') (rqueue s q) (ts @ [l, t])"
        using linked_snoc[of queue_next "thrs ?s" "rqueue s q" ts l t "tl'\<lparr>queue_next := t\<rparr>" "tt\<lparr>queue_next := 0\<rparr>"] Rq tl new[OF q] t0 by auto
      moreover have "qpath (thrs ?s') (rqueue s i) (Q i)" if "i < PRIORITIES" "i \<noteq> q" for i
      proof -
        have "l \<notin> set (Q i)" using R q that tl by (fastforce simp: runq_def)
        then show ?thesis using R1 that by (simp add: runq_def linked_other)
      qed
      moreover have "set (ts @ [l, t]) \<inter> set (Q j) = {}" if "j < PRIORITIES" "j \<noteq> q" for j
        using runq_disjoint[OF R q that] new[OF that(1)] tl by auto
      ultimately have "runq ?s' (Q(q := ts @ [l, t]))"
        using Rq(3) tl new[OF q] by (intro runq_change[OF R1]) auto
      then show ?thesis using tl by simp
    qed
    moreover have "queues_only ?s ?s'" unfolding queues_only_def
      by (intro exI[of _ "thrs ?s'"] exI[of _ "rqueue s"] exI[of _ "rlast ?s'"])
        (use same_threads_upd[of "thrs ?s" l tl' t] l lt in simp)
    ultimately show ?thesis using queues_only_trans[OF o1] by blast
  qed
qed

lemma sched_dequeueFrom_ok:
  assumes R: "runq s Q" and i: "i < PRIORITIES"
  shows "Q i = [] \<Longrightarrow> sched_dequeueFrom i s = Some (0, s)"
    and "Q i = x # xs \<Longrightarrow> \<exists>s'. sched_dequeueFrom i s = Some (x, s') \<and> x \<noteq> 0 \<and> runq s' (Q(i := xs)) \<and> queues_only s s'"
proof -
  have Ri: "qpath (thrs s) (rqueue s i) (Q i)" "rlast s i = (if Q i = [] then 0 else last (Q i))" "distinct (Q i)"
    using R i by (auto simp: runq_def)
  show "Q i = [] \<Longrightarrow> sched_dequeueFrom i s = Some (0, s)" using Ri by (simp add: sched_dequeueFrom_def)
  assume Q: "Q i = x # xs"
  then obtain th where x: "rqueue s i = x" "x \<noteq> 0" "thrs s x = Some th" and p: "qpath (thrs s) (queue_next th) xs"
    using Ri by auto
  have qn: "queue_next th = 0 \<longleftrightarrow> xs = []" using p by (cases xs) auto
  have asrt: "(queue_next th = 0 \<and> x = rlast s i) \<or> x \<noteq> rlast s i"
    using Ri(2,3) Q qn by (cases xs) auto
  let ?s' = "s\<lparr>rqueue := (rqueue s)(i := queue_next th), rlast := (rlast s)(i := if xs = [] then 0 else rlast s i)\<rparr>"
  have "sched_dequeueFrom i s = Some (x, ?s')"
    using x asrt qn by (auto simp: sched_dequeueFrom_def the_thr_def Let_def fun_upd_idem)
  moreover have "runq ?s' (Q(i := xs))"
    using R Ri Q p runq_disjoint[OF R i] by (intro runq_change[OF R]) (fastforce simp: runq_def)+
  moreover have "queues_only s ?s'" unfolding queues_only_def
    by (intro exI[of _ "thrs s"] exI[of _ "rqueue ?s'"] exI[of _ "rlast ?s'"]) simp
  ultimately show "\<exists>s'. sched_dequeueFrom i s = Some (x, s') \<and> x \<noteq> 0 \<and> runq s' (Q(i := xs)) \<and> queues_only s s'"
    using x by blast
qed

lemma dequeue_from_empty:
  assumes "runq s Q" and "i + n = PRIORITIES" and "\<And>j. i \<le> j \<Longrightarrow> j < PRIORITIES \<Longrightarrow> Q j = []"
  shows "dequeue_from i n s = Some (0, s)"
  using assms(2,3)
proof (induction n arbitrary: i)
  case (Suc n)
  then show ?case using sched_dequeueFrom_ok(1)[OF assms(1), of i] Suc.IH[of "Suc i"] by simp
qed simp

lemma dequeue_from_ok:
  assumes "runq s Q" and "i + n = PRIORITIES" and "i \<le> k" and "k < PRIORITIES" and "Q k = x # xs"
    and "\<And>j. i \<le> j \<Longrightarrow> j < k \<Longrightarrow> Q j = []"
  shows "\<exists>s'. dequeue_from i n s = Some (x, s') \<and> x \<noteq> 0 \<and> runq s' (Q(k := xs)) \<and> queues_only s s'"
  using assms(2,3,6)
proof (induction n arbitrary: i)
  case (Suc n)
  have i: "i < PRIORITIES" "Suc i + n = PRIORITIES" using Suc.prems by auto
  note deq = sched_dequeueFrom_ok[OF assms(1) i(1)]
  show ?case
  proof (cases "k = i")
    case True
    obtain s' where s': "sched_dequeueFrom i s = Some (x, s')" "x \<noteq> 0" "runq s' (Q(i := xs))" "queues_only s s'"
      using deq(2)[of x xs] assms(5) True by auto
    then have "dequeue_from i (Suc n) s = Some (x, s')" by simp
    then show ?thesis using s' unfolding True by blast
  next
    case False
    then have "Q i = []" using Suc.prems by simp
    then show ?thesis using deq(1) Suc.IH[OF i(2)] Suc.prems False by simp
  qed
qed (use assms(4) in simp)

lemma PRIORITY_thr: "PRIORITY s t = Some q \<Longrightarrow> \<exists>th. the_thr s t = Some th"
  by (auto simp: PRIORITY_def split: bind_splits)

lemma queues_only_prio:
  assumes "queues_only s s'"
  shows "PRIORITY s' t = PRIORITY s t" "idle_thread s' = idle_thread s"
proof -
  obtain m q l where s': "s' = s\<lparr>thrs := m, rqueue := q, rlast := l\<rparr>" and m: "dom m = dom (thrs s)"
      "\<And>th th'. thrs s t = Some th \<Longrightarrow> m t = Some th' \<Longrightarrow> th'\<lparr>queue_next := 0\<rparr> = th\<lparr>queue_next := 0\<rparr>"
    using assms by (auto simp: queues_only_def same_threads_def)
  have "map_option th_process (m t) = map_option th_process (thrs s t)"
  proof (cases "thrs s t")
    case None
    then show ?thesis using m(1) by (metis domIff option.simps(8))
  next
    case (Some th)
    then obtain th' where th': "m t = Some th'" using m(1) by (metis domD domI)
    then have "th_process (th'\<lparr>queue_next := 0\<rparr>) = th_process (th\<lparr>queue_next := 0\<rparr>)" using m(2)[OF Some] by simp
    then show ?thesis using Some th' by simp
  qed
  then show "PRIORITY s' t = PRIORITY s t"
    by (cases "m t"; cases "thrs s t") (simp_all add: PRIORITY_def the_thr_def the_proc_def s')
  show "idle_thread s' = idle_thread s" using s' by simp
qed

interpretation sq: run_queue sched_enqueue sched_dequeue runq PRIORITY idle_thread queues_only PRIORITIES
proof
  fix s Q t q
  assume "runq s Q" "t \<noteq> idle_thread s" "PRIORITY s t = Some q" "q < PRIORITIES" "\<And>i. i < PRIORITIES \<Longrightarrow> t \<notin> set (Q i)"
  then show "\<exists>s'. sched_enqueue t s = Some s' \<and> runq s' (Q(q := Q q @ [t])) \<and> queues_only s s'"
    using PRIORITY_thr[of s t q] sched_enqueueIn_ok[of s Q q t] by (auto simp: sched_enqueue_def)
next
  fix s Q i x xs
  assume "runq s Q" "i < PRIORITIES" "Q i = x # xs" "\<And>j. j < i \<Longrightarrow> Q j = []"
  then show "\<exists>s'. sched_dequeue s = Some (x, s') \<and> runq s' (Q(i := xs)) \<and> queues_only s s'"
    using dequeue_from_ok[of s Q 0 PRIORITIES i x xs] by (auto simp: sched_dequeue_def)
next
  fix s Q assume "runq s Q" "\<And>j. j < PRIORITIES \<Longrightarrow> Q j = []"
  then show "sched_dequeue s = Some (idle_thread s, s)"
    using dequeue_from_empty[of s Q 0 PRIORITIES] by (simp add: sched_dequeue_def)
qed (auto simp: sched_enqueue_def queues_only_prio intro: queues_only_trans)

section \<open>Properties\<close>

text \<open>
  C10. Scheduling order. Threads \<open>ts\<close> of any priorities, none of them in a queue, are enqueued one after the other. Then successive calls of \<open>sched_dequeue\<close> return all threads by
  priority, and those of one priority in the order of their enqueueing, behind the ones that were in the queue before; then \<open>sched_dequeue\<close> returns the idle thread. Nothing but the queues
  changes. \<open>sq.enqs\<close> and \<open>sq.deqs\<close> are the successive calls of \<open>sched_enqueue\<close> and \<open>sched_dequeue\<close>.
\<close>

theorem sched_fifo:
  assumes "runq s Q" and "distinct ts"
    and "\<And>t. t \<in> set ts \<Longrightarrow> t \<noteq> idle_thread s \<and> (\<exists>q<PRIORITIES. PRIORITY s t = Some q) \<and> (\<forall>i<PRIORITIES. t \<notin> set (Q i))"
    and "xs = concat (map (\<lambda>q. Q q @ filter (\<lambda>t. PRIORITY s t = Some q) ts) [0..<PRIORITIES])"
  shows "\<exists>s1 s2. sq.enqs ts s = Some s1 \<and> sq.deqs (length xs) s1 = Some (xs, s2) \<and> (\<exists>Q'. runq s2 Q' \<and> (\<forall>i<PRIORITIES. Q' i = []))
     \<and> sched_dequeue s2 = Some (idle_thread s, s2) \<and> queues_only s s2"
proof -
  have "xs = concat (map (sq.joined s Q ts) [0..<PRIORITIES])" unfolding assms(4) sq.joined_def ..
  from sq.enqs_deqs[OF assms(1-3) this] obtain s1 s2 where
    s: "sq.enqs ts s = Some s1" "sq.deqs (length xs) s1 = Some (xs, s2)" "runq s2 (\<lambda>q. if q < PRIORITIES then [] else sq.joined s Q ts q)"
      "sched_dequeue s2 = Some (idle_thread s, s2)" "queues_only s s2" by blast
  then have "\<exists>Q'. runq s2 Q' \<and> (\<forall>i<PRIORITIES. Q' i = [])" by (intro exI[of _ "\<lambda>q. if q < PRIORITIES then [] else sq.joined s Q ts q"]) simp
  then show ?thesis using s by blast
qed

definition two_threads :: kernel where
  "two_threads = (kernel0 (\<lambda>_. True) (\<lambda>_. 0))\<lparr>
     procs := [1 \<mapsto> \<lparr>pid = 1, uid = 0, privilege = 3, thread_count = 2, parent = 0, pagedir = 0, stacksBottom = 0,
       objects = 0, next_objdesc = 0, heapseg = 0, pr_next = 0, threads = 2\<rparr>],
     thrs := [2 \<mapsto> \<lparr>th_process = 1, th_esp = 0, th_ebp = 0, th_eip = 0, th_state = 0, kernelStack_addr = 0,
         kernelStack_size = 0, userStack_seg = 0, th_next = 3, queue_next = 3\<rparr>,
       3 \<mapsto> \<lparr>th_process = 1, th_esp = 0, th_ebp = 0, th_eip = 0, th_state = 0, kernelStack_addr = 0,
         kernelStack_size = 0, userStack_seg = 0, th_next = 0, queue_next = 0\<rparr>],
     rqueue := (\<lambda>_. 0)(3 := 2), rlast := (\<lambda>_. 0)(3 := 3)\<rparr>"

lemma two_threads_runq: "runq two_threads ((\<lambda>_. [])(3 := [2, 3]))"
  by (auto simp: runq_def two_threads_def kernel0_def)

text \<open>Thread 5, of the highest priority, and thread 6, of the lowest, come to the queue of two threads.\<close>

definition four_threads :: kernel where
  "four_threads = two_threads\<lparr>procs := (procs two_threads)(4 \<mapsto> (the (procs two_threads 1))\<lparr>privilege := 0\<rparr>),
     thrs := (thrs two_threads)(5 \<mapsto> (the (thrs two_threads 3))\<lparr>th_process := 4\<rparr>, 6 \<mapsto> the (thrs two_threads 3))\<rparr>"

theorem sched_fifo_witness:
  "\<exists>s1 s2. sq.enqs [6, 5] four_threads = Some s1 \<and> sq.deqs 4 s1 = Some ([5, 2, 3, 6], s2) \<and> sched_dequeue s2 = Some (0, s2) \<and> queues_only four_threads s2"
proof -
  let ?Q = "(\<lambda>_. [])((3 :: nat) := [2, 3 :: ptr])"
  have p: "PRIORITY four_threads 5 = Some 0" "PRIORITY four_threads 6 = Some 3" "idle_thread four_threads = 0"
    by (simp_all add: PRIORITY_def the_thr_def the_proc_def four_threads_def two_threads_def kernel0_def)
  have q: "runq four_threads ?Q" by (auto simp: runq_def four_threads_def two_threads_def kernel0_def)
  have l: "[5, 2, 3, 6] = concat (map (\<lambda>q. ?Q q @ filter (\<lambda>t. PRIORITY four_threads t = Some q) [6, 5]) [0..<PRIORITIES])"
    by (simp add: p PRIORITIES_def upt_rec)
  have "t \<noteq> idle_thread four_threads \<and> (\<exists>q<PRIORITIES. PRIORITY four_threads t = Some q) \<and> (\<forall>i<PRIORITIES. t \<notin> set (?Q i))" if "t \<in> set [6, 5]" for t
    using that by (auto simp: p PRIORITIES_def)
  from sched_fifo[OF q _ this l] show ?thesis by (simp add: p(3) numeral_eq_Suc del: sq.deqs.simps) blast
qed

text \<open>
  \<open>sched_dequeue\<close> never fails on well-formed queues: it returns the idle thread exactly
  when all queues are empty, otherwise the first thread of the first non-empty queue.
\<close>

theorem sched_dequeue_cases:
  assumes "runq s Q"
  shows "(\<exists>i x xs s'. i < PRIORITIES \<and> Q i = x # xs \<and> (\<forall>j<i. Q j = []) \<and> sched_dequeue s = Some (x, s')
        \<and> runq s' (Q(i := xs)) \<and> queues_only s s')
     \<or> (\<forall>j<PRIORITIES. Q j = []) \<and> sched_dequeue s = Some (idle_thread s, s)"
  by (rule sq.deq_cases[OF assms]) blast+

theorem sched_dequeue_cases_witness:
  "\<exists>s'. sched_dequeue two_threads = Some (2, s') \<and> runq s' ((\<lambda>_. [])(3 := [3]))"
proof -
  have "((\<lambda>_. [])((3 :: nat) := [2, 3]))(3 := [3]) = (\<lambda>_. [])(3 := [3 :: ptr])" by auto
  then show ?thesis
    using sched_dequeue_cases[OF two_threads_runq] by (auto split: if_splits simp: PRIORITIES_def)
qed

end
