(* ===== verification/Paging.thy ===== *)
theory Paging
  imports Sched
begin

text \<open>
  Physical frames, page tables and page directories: \<^verbatim>\<open>src/kernel/mem/paging.c\<close> and the
  page allocator of \<^verbatim>\<open>src/kernel/mem/mem.c\<close>. A page is referred to by its table and its
  index in it; the null pointer is \<^const>\<open>None\<close>.

  \<open>hw_present\<close> is the walk that the processor does: the directory entry in \<open>tablesPhysical\<close>
  must have its present bit set, and so must the page. \<open>mmu\<close> refreshes the view of the present
  pages after the tables of the current directory may have changed.
\<close>

section \<open>Model\<close>

subsection \<open>Frames\<close>

definition frame_alloc :: "kernel \<Rightarrow> (u32 \<times> kernel) option" where
  "frame_alloc s = do {
     free \<leftarrow> bitset_firstFree (frames s);
     b \<leftarrow> bitset_set (frames s) free;
     Some (free, s\<lparr>frames := b\<rparr>) }"

definition frame_free :: "u32 \<Rightarrow> kernel \<Rightarrow> kernel option" where
  "frame_free f s = do { b \<leftarrow> bitset_clear (frames s) f; Some (s\<lparr>frames := b\<rparr>) }"

subsection \<open>Pages\<close>

type_synonym pageref = "(ptr \<times> nat) option"

definition hw_present :: "kernel \<Rightarrow> ptr \<Rightarrow> nat \<Rightarrow> bool" where
  "hw_present s pd n = (case pdirs s pd of None \<Rightarrow> False | Some d \<Rightarrow>
     bit (pd_tablesPhysical d (n div 1024)) 0
     \<and> (case ptables s (pd_tables d (n div 1024)) of None \<Rightarrow> False | Some t \<Rightarrow> pg_present (t (n mod 1024))))"

definition mmu :: "kernel \<Rightarrow> kernel" where
  "mmu s = s\<lparr>mpresent := hw_present s (current_pagedir s)\<rparr>"

definition get_page :: "kernel \<Rightarrow> ptr \<times> nat \<Rightarrow> page option" where
  "get_page s r = do { t \<leftarrow> ptables s (fst r); Some (t (snd r)) }"

definition set_page :: "ptr \<times> nat \<Rightarrow> page \<Rightarrow> kernel \<Rightarrow> kernel option" where
  "set_page r p s = do {
     t \<leftarrow> ptables s (fst r);
     Some (mmu (s\<lparr>ptables := (ptables s)(fst r \<mapsto> t(snd r := p))\<rparr>)) }"

definition page_map :: "pageref \<Rightarrow> u32 \<Rightarrow> bool \<Rightarrow> bool \<Rightarrow> kernel \<Rightarrow> kernel option" where
  "page_map pg frame user rw s = (case pg of None \<Rightarrow> Some s | Some r \<Rightarrow> do {
     p \<leftarrow> get_page s r;
     if pg_frame p = 0 \<and> \<not> pg_present p
     then set_page r \<lparr>pg_present = True, pg_rw = rw, pg_user = user, pg_frame = frame AND 0xFFFFF\<rparr> s
     else Some s })"

definition page_unmap :: "pageref \<Rightarrow> kernel \<Rightarrow> kernel option" where
  "page_unmap pg s = (case pg of None \<Rightarrow> Some s | Some r \<Rightarrow> do {
     p \<leftarrow> get_page s r; set_page r (p\<lparr>pg_frame := 0, pg_present := False\<rparr>) s })"

definition page_unmapFree :: "pageref \<Rightarrow> kernel \<Rightarrow> kernel option" where
  "page_unmapFree pg s = (case pg of None \<Rightarrow> Some s | Some r \<Rightarrow> do {
     p \<leftarrow> get_page s r;
     s \<leftarrow> (if pg_frame p \<noteq> 0 then frame_free (pg_frame p) s else Some s);
     set_page r (p\<lparr>pg_frame := 0, pg_present := False\<rparr>) s })"

subsection \<open>Page tables\<close>

definition empty_table :: "nat \<Rightarrow> page" where
  "empty_table = (\<lambda>_. \<lparr>pg_present = False, pg_rw = False, pg_user = False, pg_frame = 0\<rparr>)"

text \<open>\<open>tasking_updateKernelPagetable\<close> of \<^verbatim>\<open>task/task.c\<close>: the loop over the processes.\<close>

partial_function (option) update_pds :: "ptr \<Rightarrow> nat \<Rightarrow> ptr \<Rightarrow> u32 \<Rightarrow> kernel \<Rightarrow> kernel option" where
  "update_pds it idx table phys s =
     (if it = 0 then Some s
      else do {
        p \<leftarrow> the_proc s it;
        s \<leftarrow> upd_pd (pagedir p) (\<lambda>d. d\<lparr>pd_tables := (pd_tables d)(idx := table),
               pd_tablesPhysical := (pd_tablesPhysical d)(idx := phys)\<rparr>) s;
        update_pds (pr_next p) idx table phys s })"

definition tasking_updateKernelPagetable :: "nat \<Rightarrow> ptr \<Rightarrow> u32 \<Rightarrow> kernel \<Rightarrow> kernel option" where
  "tasking_updateKernelPagetable idx table phys s =
     (if idx < 896 then Some s else update_pds (processes s) idx table phys s)"

text \<open>
  \<open>pagedir_getPage\<close>, with the function that provides a page for a new table as an argument:
  \<open>kmalloc_page\<close> calls it in turn, see below.
\<close>

definition getPage_with ::
    "(kernel \<Rightarrow> (u32 \<times> u32 \<times> kernel) option) \<Rightarrow> ptr \<Rightarrow> u32 \<Rightarrow> bool \<Rightarrow> kernel \<Rightarrow> (pageref \<times> kernel) option" where
  "getPage_with alloc pd address mk s = do {
     d \<leftarrow> the_pd s pd;
     let address = unat address div 0x1000;
     let table_idx = address div 1024;
     if pd_tables d table_idx \<noteq> 0 then Some (Some (pd_tables d table_idx, address mod 1024), s)
     else if mk then do {
       (virt, phys, s) \<leftarrow> alloc s;
       let table = unat virt;
       s \<leftarrow> upd_pd pd (\<lambda>d. d\<lparr>pd_tables := (pd_tables d)(table_idx := table),
              pd_tablesPhysical := (pd_tablesPhysical d)(table_idx := phys)\<rparr>) s;
       s \<leftarrow> (if table_idx \<ge> 896 then tasking_updateKernelPagetable table_idx table phys s else Some s);
       let s = s\<lparr>ptables := (ptables s)(table \<mapsto> empty_table)\<rparr>;
       s \<leftarrow> upd_pd pd (\<lambda>d. d\<lparr>pd_tablesPhysical := (pd_tablesPhysical d)
              (table_idx := pd_tablesPhysical d table_idx OR 0x07)\<rparr>) s;
       Some (Some (table, address mod 1024), mmu s) }
     else Some (None, s) }"

subsection \<open>The cache of pages\<close>

text \<open>
  \<open>freepages\<close> holds the pages of the cache, the one to hand out next first. \<open>get_free_pages\<close>
  is guarded by a static lock, so that a nested \<open>kmalloc_page\<close>, called while the cache is being
  filled, takes a page from the cache as it is.
\<close>

definition FREEPAGESTOKEEP :: nat where "FREEPAGESTOKEEP = 5"

definition kmalloc_page_nested :: "kernel \<Rightarrow> (u32 \<times> u32 \<times> kernel) option" where
  "kmalloc_page_nested s = (case freepages (cli s) of
       [] \<Rightarrow> None
     | (virt, phys) # rest \<Rightarrow> Some (virt, phys, snd (sti ((cli s)\<lparr>freepages := rest\<rparr>))))"

text \<open>The search for an unused page from \<open>0xFFFFF000\<close> down to \<open>0xF0000000\<close>.\<close>

fun find_page :: "nat \<Rightarrow> u32 \<Rightarrow> kernel \<Rightarrow> (u32 \<times> kernel) option" where
  "find_page 0 i s = Some (i, s)"
| "find_page (Suc n) i s = do {
     (pg, s) \<leftarrow> getPage_with kmalloc_page_nested (kernel_pagedir s) i True s;
     r \<leftarrow> pg;
     p \<leftarrow> get_page s r;
     if pg_frame p = 0 then Some (i, s) else find_page n (i - 0x1000) s }"

partial_function (option) get_free_pages :: "kernel \<Rightarrow> kernel option" where
  "get_free_pages s =
     (if length (freepages s) \<ge> FREEPAGESTOKEEP then Some s
      else if kheap_working s then do {
        (i, s) \<leftarrow> find_page 0x10000 0xFFFFF000 s;
        (f, s) \<leftarrow> frame_alloc s;
        let phys = f * 0x1000;
        (pg, s) \<leftarrow> getPage_with kmalloc_page_nested (kernel_pagedir s) i False s;
        s \<leftarrow> page_map pg (phys div 0x1000) False False s;
        get_free_pages (s\<lparr>freepages := (i, phys) # freepages s\<rparr>) }
      else do {
        let a = mem_placementAddr s;
        let a = (if a AND 0xFFFFF000 \<noteq> 0 then (a AND 0xFFFFF000) + 0x1000 else a);
        let s = s\<lparr>mem_placementAddr := a + 0x1000\<rparr>;
        get_free_pages (s\<lparr>freepages := (a, a - 0xE0000000) # freepages s\<rparr>) })"

definition kmalloc_page :: "kernel \<Rightarrow> (u32 \<times> u32 \<times> kernel) option" where
  "kmalloc_page s = do {
     s \<leftarrow> get_free_pages (cli s);
     case freepages s of
       [] \<Rightarrow> None
     | (virt, phys) # rest \<Rightarrow> Some (virt, phys, snd (sti (s\<lparr>freepages := rest\<rparr>))) }"

definition pagedir_getPage :: "ptr \<Rightarrow> u32 \<Rightarrow> bool \<Rightarrow> kernel \<Rightarrow> (pageref \<times> kernel) option" where
  "pagedir_getPage = getPage_with kmalloc_page"

definition kfree_page :: "u32 \<Rightarrow> kernel \<Rightarrow> kernel option" where
  "kfree_page addr s =
     (if kheap_working s then do {
        (pg, s) \<leftarrow> pagedir_getPage (kernel_pagedir s) addr False s;
        page_unmapFree pg s }
      else Some s)"

subsection \<open>Page directories\<close>

definition pagedir_switch :: "ptr \<Rightarrow> kernel \<Rightarrow> kernel option" where
  "pagedir_switch pd s = do { _ \<leftarrow> the_pd s pd; Some (mmu (s\<lparr>current_pagedir := pd\<rparr>)) }"

definition pagedir_new :: "kernel \<Rightarrow> (ptr \<times> kernel) option" where
  "pagedir_new s = do {
     let (pd, s) = kmalloc_ptr s;
     (virt, phys, s) \<leftarrow> kmalloc_page s;
     kd \<leftarrow> the_pd s (kernel_pagedir s);
     let d = \<lparr>pd_tables = (\<lambda>i. if i < 896 then 0 else pd_tables kd i),
              pd_tablesPhysical = (\<lambda>i. if i < 896 then 0 else pd_tablesPhysical kd i),
              pd_page = virt, pd_physicalAddr = phys, pd_mappedSegs = 0\<rparr>;
     Some (pd, s\<lparr>pdirs := (pdirs s)(pd \<mapsto> d)\<rparr>) }"

section \<open>The pool of frames\<close>

locale frame_pool =
  fixes alloc :: "'s \<Rightarrow> (u32 \<times> 's) option" and release :: "u32 \<Rightarrow> 's \<Rightarrow> 's option"
    and used :: "'s \<Rightarrow> nat set" and cap :: "'s \<Rightarrow> nat" and ok :: "'s \<Rightarrow> bool"
  assumes alloc_ok: "\<lbrakk> ok s; n < cap s; n \<notin> used s \<rbrakk> \<Longrightarrow> \<exists>f s'. alloc s = Some (f, s') \<and> unat f < cap s
        \<and> unat f \<notin> used s \<and> used s' = insert (unat f) (used s) \<and> cap s' = cap s \<and> ok s'"
    and release_ok: "\<lbrakk> ok s; unat f < cap s \<rbrakk> \<Longrightarrow> \<exists>s'. release f s = Some s' \<and> used s' = used s - {unat f}
        \<and> cap s' = cap s \<and> ok s'"
begin

definition free_frames :: "'s \<Rightarrow> nat set" where
  "free_frames s = {..<cap s} - used s"

primrec allocs :: "nat \<Rightarrow> 's \<Rightarrow> (u32 list \<times> 's) option" where
  "allocs 0 s = Some ([], s)"
| "allocs (Suc n) s = do { (f, s) \<leftarrow> alloc s; (fs, s) \<leftarrow> allocs n s; Some (f # fs, s) }"

lemma alloc_free:
  assumes "ok s" and "free_frames s \<noteq> {}"
  shows "\<exists>f s'. alloc s = Some (f, s') \<and> unat f \<in> free_frames s \<and> free_frames s' = free_frames s - {unat f}
     \<and> used s' = insert (unat f) (used s) \<and> ok s'"
proof -
  obtain n where "n < cap s" "n \<notin> used s" using assms(2) by (auto simp: free_frames_def)
  then show ?thesis using alloc_ok[OF assms(1)] by (fastforce simp: free_frames_def)
qed

text \<open>As long as there are free frames, allocations succeed and return distinct frames.\<close>

lemma allocs_distinct:
  assumes "ok s" and "n \<le> card (free_frames s)"
  shows "\<exists>fs s'. allocs n s = Some (fs, s') \<and> length fs = n \<and> distinct fs
     \<and> unat ` set fs \<subseteq> free_frames s \<and> used s' = used s \<union> unat ` set fs \<and> ok s'"
  using assms
proof (induction n arbitrary: s)
  case (Suc n)
  have fin: "finite (free_frames s)" by (simp add: free_frames_def)
  obtain f s1 where f: "alloc s = Some (f, s1)" "unat f \<in> free_frames s" "free_frames s1 = free_frames s - {unat f}"
    "used s1 = insert (unat f) (used s)" "ok s1"
    using alloc_free[OF Suc.prems(1)] Suc.prems(2) by fastforce
  then obtain fs s2 where g: "allocs n s1 = Some (fs, s2)" "length fs = n" "distinct fs" "unat ` set fs \<subseteq> free_frames s1"
     "used s2 = used s1 \<union> unat ` set fs" "ok s2"
  proof -
    have "n \<le> card (free_frames s1)" using f(2,3) Suc.prems(2) fin by simp
    then show ?thesis using Suc.IH[OF f(5)] that by blast
  qed
  have "f \<notin> set fs" using g(4) f(3) by auto
  then show ?case using f g by auto
qed simp

text \<open>Allocating and releasing a frame is neutral.\<close>

lemma alloc_release:
  assumes "ok s" and "alloc s = Some (f, s1)" and "free_frames s \<noteq> {}"
  shows "\<exists>s2. release f s1 = Some s2 \<and> used s2 = used s \<and> ok s2"
proof -
  obtain n where n: "n < cap s" "n \<notin> used s" using assms(3) by (auto simp: free_frames_def)
  have a: "unat f < cap s1" "unat f \<notin> used s" "used s1 = insert (unat f) (used s)" "ok s1"
    using alloc_ok[OF assms(1) n] assms(2) by auto
  then show ?thesis using release_ok[OF a(4,1)] by auto
qed

end

definition frame_cap :: "kernel \<Rightarrow> nat" where
  "frame_cap s = 32 * (unat (bsize (frames s)) div 32)"

definition frames_ok :: "kernel \<Rightarrow> bool" where
  "frames_ok s \<longleftrightarrow> bs_ok (frames s)"

lemma frame_alloc_frames: "frame_alloc s = Some (f, s') \<Longrightarrow> s' = s\<lparr>frames := frames s'\<rparr>"
  by (auto simp: frame_alloc_def split: bind_splits)

interpretation fp: frame_pool frame_alloc frame_free "\<lambda>s. bs_used (frames s)" frame_cap frames_ok
proof
  fix s n assume ok: "frames_ok s" and n: "n < frame_cap s" "n \<notin> bs_used (frames s)"
  obtain r where r: "bitset_firstFree (frames s) = Some r"
    and c: "if r = 0xFFFFFFFF then \<forall>m < 32 * (unat (bsize (frames s)) div 32). m \<in> bs_used (frames s)
     else unat r < 32 * (unat (bsize (frames s)) div 32) \<and> unat r \<notin> bs_used (frames s) \<and> (\<forall>m < unat r. m \<in> bs_used (frames s))"
    using firstFree_least ok unfolding frames_ok_def by blast
  have r1: "unat r < frame_cap s" "unat r \<notin> bs_used (frames s)"
    using c n by (auto simp: frame_cap_def split: if_splits)
  have "frame_cap s \<le> 32 * length (bits (frames s))" using ok by (simp add: frame_cap_def frames_ok_def bs_ok_def)
  then obtain t where "bitset_set (frames s) r = Some t" "bs_used t = insert (unat r) (bs_used (frames s))"
      "length (bits t) = length (bits (frames s))" "bsize t = bsize (frames s)"
    using bitset_set_used[of r "frames s"] r1 by auto
  then show "\<exists>f s'. frame_alloc s = Some (f, s') \<and> unat f < frame_cap s \<and> unat f \<notin> bs_used (frames s)
      \<and> bs_used (frames s') = insert (unat f) (bs_used (frames s)) \<and> frame_cap s' = frame_cap s \<and> frames_ok s'"
    using r r1 ok by (simp add: frame_alloc_def frame_cap_def frames_ok_def bs_ok_def)
next
  fix s and f :: u32 assume ok: "frames_ok s" and f: "unat f < frame_cap s"
  have "frame_cap s \<le> 32 * length (bits (frames s))" using ok by (simp add: frame_cap_def frames_ok_def bs_ok_def)
  then show "\<exists>s'. frame_free f s = Some s' \<and> bs_used (frames s') = bs_used (frames s) - {unat f}
      \<and> frame_cap s' = frame_cap s \<and> frames_ok s'"
    using bitset_clear_used[of f "frames s"] f ok
    by (auto simp: frame_free_def frame_cap_def frames_ok_def bs_ok_def)
qed

text \<open>
  C11. The physical allocator never hands out a frame twice: \<open>n\<close> allocations, with at least \<open>n\<close>
  frames free, all succeed, return \<open>n\<close> distinct frames that were free, and mark exactly these
  as used.
\<close>

theorem frame_allocs_distinct:
  assumes "frames_ok s" and "n \<le> card ({..<frame_cap s} - bs_used (frames s))"
  shows "\<exists>fs s'. fp.allocs n s = Some (fs, s') \<and> length fs = n \<and> distinct fs
     \<and> unat ` set fs \<subseteq> {..<frame_cap s} - bs_used (frames s)
     \<and> bs_used (frames s') = bs_used (frames s) \<union> unat ` set fs \<and> frames_ok s'"
  using fp.allocs_distinct[OF assms(1)] assms(2) by (simp add: fp.free_frames_def)

definition small_pool :: kernel where
  "small_pool = (kernel0 (\<lambda>_. True) (\<lambda>_. 0))\<lparr>frames := \<lparr>bits = [0xFFFFFFF0, 0xFFFFFFFE], bsize = 64\<rparr>\<rparr>"

lemma small_pool_free: "frames_ok small_pool" "{..<frame_cap small_pool} - bs_used (frames small_pool) \<supseteq> {0, 1, 32}"
  by (auto simp: frames_ok_def bs_ok_def small_pool_def kernel0_def frame_cap_def bs_used_def)

theorem frame_allocs_distinct_witness:
  "\<exists>fs s'. fp.allocs 3 small_pool = Some (fs, s') \<and> length fs = 3 \<and> distinct fs"
proof -
  have "card {0, 1, 32 :: nat} \<le> card ({..<frame_cap small_pool} - bs_used (frames small_pool))"
    using small_pool_free(2) by (intro card_mono) auto
  then show ?thesis using frame_allocs_distinct[OF small_pool_free(1), of 3] by auto
qed

section \<open>Pages and tables\<close>

lemma mmu_fields [simp]:
  "frames (mmu s) = frames s" "pdirs (mmu s) = pdirs s" "ptables (mmu s) = ptables s" "current_pagedir (mmu s) = current_pagedir s"
  "kernel_pagedir (mmu s) = kernel_pagedir s" "mbytes (mmu s) = mbytes s" "segs (mmu s) = segs s" "segmaps (mmu s) = segmaps s"
  "mpresent (mmu s) = hw_present s (current_pagedir s)"
  by (simp_all add: mmu_def)

lemma hw_present_cong: "pdirs s = pdirs s' \<Longrightarrow> ptables s = ptables s' \<Longrightarrow> hw_present s = hw_present s'"
  by (intro ext) (simp add: hw_present_def split: option.split)

lemma mmu_idem [simp]: "mmu (mmu s) = mmu s"
  using hw_present_cong[of "mmu s" s] by (simp add: mmu_def)

lemma set_page_ok:
  assumes "get_page s r = Some p0"
  shows "\<exists>s'. set_page r p s = Some s' \<and> get_page s' r = Some p \<and> (\<forall>r'. r' \<noteq> r \<longrightarrow> get_page s' r' = get_page s r')
     \<and> frames s' = frames s \<and> pdirs s' = pdirs s \<and> dom (ptables s') = dom (ptables s) \<and> mbytes s' = mbytes s"
proof -
  obtain t where t: "ptables s (fst r) = Some t" using assms by (auto simp: get_page_def split: bind_splits)
  let ?s = "mmu (s\<lparr>ptables := (ptables s)(fst r \<mapsto> t(snd r := p))\<rparr>)"
  have "get_page ?s r' = get_page s r'" if "r' \<noteq> r" for r'
    using that t by (cases r; cases r') (auto simp: get_page_def)
  moreover have "set_page r p s = Some ?s" using t by (simp add: set_page_def)
  moreover have "get_page ?s r = Some p" "dom (ptables ?s) = dom (ptables s)" using t by (auto simp: get_page_def)
  ultimately show ?thesis by (intro exI[of _ ?s]) simp
qed

lemma page_map_ok:
  assumes "get_page s r = Some p0" and "pg_frame p0 = 0" and "\<not> pg_present p0"
  shows "\<exists>s'. page_map (Some r) f user rw s = Some s'
     \<and> get_page s' r = Some \<lparr>pg_present = True, pg_rw = rw, pg_user = user, pg_frame = f AND 0xFFFFF\<rparr>
     \<and> (\<forall>r'. r' \<noteq> r \<longrightarrow> get_page s' r' = get_page s r')
     \<and> frames s' = frames s \<and> pdirs s' = pdirs s \<and> dom (ptables s') = dom (ptables s) \<and> mbytes s' = mbytes s"
  using set_page_ok[OF assms(1)] assms by (simp add: page_map_def)

lemma page_unmapFree_ok:
  assumes "get_page s r = Some p" and "frames_ok s" and "unat (pg_frame p) < frame_cap s"
  shows "\<exists>s'. page_unmapFree (Some r) s = Some s' \<and> get_page s' r = Some (p\<lparr>pg_frame := 0, pg_present := False\<rparr>)
     \<and> (\<forall>r'. r' \<noteq> r \<longrightarrow> get_page s' r' = get_page s r')
     \<and> bs_used (frames s') = (if pg_frame p = 0 then bs_used (frames s) else bs_used (frames s) - {unat (pg_frame p)})
     \<and> pdirs s' = pdirs s"
proof -
  obtain s1 where s1: "(if pg_frame p \<noteq> 0 then frame_free (pg_frame p) s else Some s) = Some s1"
      "bs_used (frames s1) = (if pg_frame p = 0 then bs_used (frames s) else bs_used (frames s) - {unat (pg_frame p)})"
      "s1 = s\<lparr>frames := frames s1\<rparr>"
  proof (cases "pg_frame p = 0")
    case False
    obtain s1 where r: "frame_free (pg_frame p) s = Some s1" "bs_used (frames s1) = bs_used (frames s) - {unat (pg_frame p)}"
      using fp.release_ok[OF assms(2,3)] by blast
    moreover have "s1 = s\<lparr>frames := frames s1\<rparr>" using r(1) by (auto simp: frame_free_def split: bind_splits)
    ultimately show ?thesis using that False by simp
  qed (use that in simp)
  have g: "get_page s1 r' = get_page s r'" for r' by (subst s1(3)) (simp add: get_page_def)
  have pd: "pdirs s1 = pdirs s" by (subst s1(3)) simp
  show ?thesis
    using set_page_ok[of s1 r p "p\<lparr>pg_frame := 0, pg_present := False\<rparr>"] assms(1) s1(1,2) g pd
    by (auto simp: page_unmapFree_def)
qed

text \<open>
  C12. Mapping a free page to a newly allocated frame and then unmapping it with
  \<open>page_unmapFree\<close> gives back the frame and leaves the page unmapped; in between the page is
  mapped to this frame and no other page changes.
\<close>

theorem map_unmap_roundtrip:
  assumes "get_page s r = Some p0" and "pg_frame p0 = 0" and "\<not> pg_present p0" and "frames_ok s"
    and "frame_alloc s = Some (f, s1)" and "n < frame_cap s" and "n \<notin> bs_used (frames s)"
    and "0 < unat f" and "frame_cap s \<le> 0x100000"
  shows "\<exists>s2 s3 p. page_map (Some r) f user rw s1 = Some s2 \<and> get_page s2 r = Some p \<and> pg_present p \<and> pg_frame p = f
     \<and> page_unmapFree (Some r) s2 = Some s3 \<and> bs_used (frames s3) = bs_used (frames s)
     \<and> get_page s3 r = Some (p\<lparr>pg_frame := 0, pg_present := False\<rparr>)
     \<and> (\<forall>r'. r' \<noteq> r \<longrightarrow> get_page s2 r' = get_page s r' \<and> get_page s3 r' = get_page s r')"
proof -
  have f: "unat f < frame_cap s" "unat f \<notin> bs_used (frames s)" "bs_used (frames s1) = insert (unat f) (bs_used (frames s))"
      "frames_ok s1" "frame_cap s1 = frame_cap s"
    using fp.alloc_ok[OF assms(4,6,7)] assms(5) by auto
  have s1: "get_page s1 r' = get_page s r'" for r'
    using frame_alloc_frames[OF assms(5)] by (metis (no_types, lifting) get_page_def kernel.select_convs(5) kernel.surjective kernel.update_convs(1))
  have msk: "f AND 0xFFFFF = f" using f(1) assms(9) by (intro unat_eqD) (simp add: and_low20 unat_mod_u32)
  let ?p = "\<lparr>pg_present = True, pg_rw = rw, pg_user = user, pg_frame = f\<rparr>"
  obtain s2 where s2: "page_map (Some r) f user rw s1 = Some s2" "get_page s2 r = Some ?p"
      "\<forall>r'. r' \<noteq> r \<longrightarrow> get_page s2 r' = get_page s1 r'" "frames s2 = frames s1"
    using page_map_ok[of s1 r p0 f user rw] s1 assms(1-3) msk by auto
  have "frames_ok s2" "unat (pg_frame ?p) < frame_cap s2" using f s2(4) by (simp_all add: frames_ok_def frame_cap_def)
  then obtain s3 where s3: "page_unmapFree (Some r) s2 = Some s3" "get_page s3 r = Some (?p\<lparr>pg_frame := 0, pg_present := False\<rparr>)"
      "\<forall>r'. r' \<noteq> r \<longrightarrow> get_page s3 r' = get_page s2 r'" "bs_used (frames s3) = bs_used (frames s2) - {unat f}"
  proof -
    have "f \<noteq> 0" using assms(8) by auto
    then show ?thesis using page_unmapFree_ok[OF s2(2) \<open>frames_ok s2\<close> \<open>unat (pg_frame ?p) < frame_cap s2\<close>] that by force
  qed
  have "bs_used (frames s3) = bs_used (frames s)" using s3(4) s2(4) f by auto
  then show ?thesis using s2 s3 s1 by (intro exI[of _ s2] exI[of _ s3] exI[of _ ?p]) simp
qed

definition one_table :: kernel where
  "one_table = small_pool\<lparr>frames := \<lparr>bits = [0xFFFFFFF1, 0xFFFFFFFE], bsize = 64\<rparr>, ptables := [7 \<mapsto> empty_table]\<rparr>"

theorem map_unmap_roundtrip_witness:
  "\<exists>s1 s2 s3. frame_alloc one_table = Some (1, s1) \<and> page_map (Some (7, 5)) 1 True True s1 = Some s2
     \<and> page_unmapFree (Some (7, 5)) s2 = Some s3 \<and> bs_used (frames s3) = bs_used (frames one_table)"
proof -
  have f: "bitset_firstFree \<lparr>bits = [0xFFFFFFF1, 0xFFFFFFFE], bsize = 64\<rparr> = Some 1"
    "bitset_set \<lparr>bits = [0xFFFFFFF1, 0xFFFFFFFE], bsize = 64\<rparr> 1 = Some \<lparr>bits = [0xFFFFFFF3, 0xFFFFFFFE], bsize = 64\<rparr>"
    by code_simp+
  obtain s1 where a: "frame_alloc one_table = Some (1, s1)" using f by (simp add: frame_alloc_def one_table_def)
  have "get_page one_table (7, 5) = Some (empty_table 5)" by (simp add: get_page_def one_table_def)
  moreover have "frames_ok one_table" "1 < frame_cap one_table" "1 \<notin> bs_used (frames one_table)" "frame_cap one_table \<le> 0x100000"
    by (simp_all add: frames_ok_def bs_ok_def frame_cap_def bs_used_def one_table_def bit_numeral_rec)
  ultimately have "\<exists>s2 s3 p. page_map (Some (7, 5)) 1 True True s1 = Some s2 \<and> get_page s2 (7, 5) = Some p \<and> pg_present p \<and> pg_frame p = 1
     \<and> page_unmapFree (Some (7, 5)) s2 = Some s3 \<and> bs_used (frames s3) = bs_used (frames one_table)
     \<and> get_page s3 (7, 5) = Some (p\<lparr>pg_frame := 0, pg_present := False\<rparr>)
     \<and> (\<forall>r'. r' \<noteq> (7, 5) \<longrightarrow> get_page s2 r' = get_page one_table r' \<and> get_page s3 r' = get_page one_table r')"
    using map_unmap_roundtrip[of one_table "(7, 5)" "empty_table 5" 1 s1 1 True True] a by (simp add: empty_table_def)
  then show ?thesis using a by blast
qed

text \<open>Once a page has been obtained, asking for it again returns the same page and changes nothing.\<close>

lemma getPage_known:
  assumes "the_pd s pd = Some d" and "pd_tables d (unat a div 0x1000 div 1024) \<noteq> 0"
  shows "getPage_with alloc pd a mk s = Some (Some (pd_tables d (unat a div 0x1000 div 1024), unat a div 0x1000 mod 1024), s)"
  using assms by (simp add: getPage_with_def Let_def)

text \<open>The new table in the directories of the processes, for a single process.\<close>

lemma update_pds_one:
  assumes "it \<noteq> 0" and "the_proc s it = Some pr" and "pr_next pr = 0" and "the_pd s (pagedir pr) = Some dp"
  shows "update_pds it idx table phys s = Some (s\<lparr>pdirs := (pdirs s)(pagedir pr \<mapsto>
     dp\<lparr>pd_tables := (pd_tables dp)(idx := table), pd_tablesPhysical := (pd_tablesPhysical dp)(idx := phys)\<rparr>)\<rparr>)"
  using assms by (subst update_pds.simps) (simp add: upd_pd_def update_pds.simps)

text \<open>
  A page table created for the kernel's address space is entered in the directories of the
  processes before its flags are set: in the kernel's own directory the entry is present, in
  a process's directory it points to the table but is not, so no page of this table can be
  accessed while the process runs.
\<close>

theorem kernel_table_not_present:
  assumes "ti = unat a div 0x1000 div 1024" and "896 \<le> ti" and "the_pd s kpd = Some d" and "pd_tables d ti = 0"
    and "alloc s = Some (virt, phys, s1)" and "\<not> bit phys 0" and "the_pd s1 kpd = Some d1"
    and "processes s1 \<noteq> 0" and "the_proc s1 (processes s1) = Some pr" and "pr_next pr = 0"
    and "pagedir pr \<noteq> kpd" and "the_pd s1 (pagedir pr) = Some dp"
  shows "\<exists>pg s' d' dp'. getPage_with alloc kpd a True s = Some (pg, s')
     \<and> pdirs s' kpd = Some d' \<and> bit (pd_tablesPhysical d' ti) 0 \<and> pd_tables d' ti = unat virt
     \<and> pdirs s' (pagedir pr) = Some dp' \<and> pd_tables dp' ti = unat virt
     \<and> (\<forall>n. n div 1024 = ti \<longrightarrow> \<not> hw_present s' (pagedir pr) n)"
proof -
  have k0: "kpd \<noteq> 0" "pagedir pr \<noteq> 0" using assms(7,12) by (auto simp: the_pd_def split: if_splits)
  define s2 where "s2 = s1\<lparr>pdirs := (pdirs s1)(kpd \<mapsto> d1\<lparr>pd_tables := (pd_tables d1)(ti := unat virt),
     pd_tablesPhysical := (pd_tablesPhysical d1)(ti := phys)\<rparr>)\<rparr>"
  have u1: "upd_pd kpd (\<lambda>d. d\<lparr>pd_tables := (pd_tables d)(ti := unat virt),
     pd_tablesPhysical := (pd_tablesPhysical d)(ti := phys)\<rparr>) s1 = Some s2"
    using assms(7) by (simp add: upd_pd_def s2_def)
  have p2: "processes s2 \<noteq> 0" "the_proc s2 (processes s2) = Some pr" "the_pd s2 (pagedir pr) = Some dp"
    using assms(8,9,11,12) k0 by (simp_all add: s2_def the_proc_def the_pd_def)
  define dp' where "dp' = dp\<lparr>pd_tables := (pd_tables dp)(ti := unat virt), pd_tablesPhysical := (pd_tablesPhysical dp)(ti := phys)\<rparr>"
  define s3 where "s3 = s2\<lparr>pdirs := (pdirs s2)(pagedir pr \<mapsto> dp')\<rparr>"
  have u2: "tasking_updateKernelPagetable ti (unat virt) phys s2 = Some s3"
    using update_pds_one[OF p2(1,2) assms(10) p2(3)] assms(2)
    by (simp add: tasking_updateKernelPagetable_def s3_def dp'_def)
  define s4 where "s4 = s3\<lparr>ptables := (ptables s3)(unat virt \<mapsto> empty_table)\<rparr>"
  define d2 where "d2 = d1\<lparr>pd_tables := (pd_tables d1)(ti := unat virt), pd_tablesPhysical := (pd_tablesPhysical d1)(ti := phys)\<rparr>"
  have "the_pd s4 kpd = Some d2" using k0 assms(11) by (simp add: s4_def s3_def s2_def d2_def the_pd_def)
  then have u3: "upd_pd kpd (\<lambda>d. d\<lparr>pd_tablesPhysical := (pd_tablesPhysical d)(ti := pd_tablesPhysical d ti OR 0x07)\<rparr>) s4
      = Some (s4\<lparr>pdirs := (pdirs s4)(kpd \<mapsto> d2\<lparr>pd_tablesPhysical := (pd_tablesPhysical d2)(ti := pd_tablesPhysical d2 ti OR 0x07)\<rparr>)\<rparr>)"
    (is "_ = Some ?s5") by (simp add: upd_pd_def)
  have g: "getPage_with alloc kpd a True s = Some (Some (unat virt, unat a div 0x1000 mod 1024), mmu ?s5)"
    using assms(3,4,5,2) by (simp add: getPage_with_def Let_def assms(1)[symmetric] u1 u2 s4_def[symmetric] u3)
  have b: "bit (phys OR 7) 0" by (simp add: bit_or_iff bit_numeral_rec)
  have "pdirs (mmu ?s5) (pagedir pr) = Some dp'" using assms(11) by (simp add: s4_def s3_def)
  moreover have "\<not> hw_present (mmu ?s5) (pagedir pr) n" if "n div 1024 = ti" for n
    using that assms(6,11) by (simp add: hw_present_def s4_def s3_def dp'_def)
  ultimately show ?thesis using g b by (auto simp: d2_def dp'_def)
qed

definition two_dirs :: kernel where
  "two_dirs = two_threads\<lparr>kernel_pagedir := 10, processes := 1, freepages := [(0xFFFFE000, 0x3000)],
     procs := (procs two_threads)(1 \<mapsto> (the (procs two_threads 1))\<lparr>pagedir := 11\<rparr>),
     pdirs := [10 \<mapsto> \<lparr>pd_tables = \<lambda>_. 0, pd_tablesPhysical = \<lambda>_. 0, pd_page = 0, pd_physicalAddr = 0x1000, pd_mappedSegs = 0\<rparr>,
       11 \<mapsto> \<lparr>pd_tables = \<lambda>_. 0, pd_tablesPhysical = \<lambda>_. 0, pd_page = 0, pd_physicalAddr = 0x2000, pd_mappedSegs = 0\<rparr>]\<rparr>"

theorem kernel_table_not_present_witness:
  "\<exists>pg s' dp'. getPage_with kmalloc_page_nested 10 0xE0400000 True two_dirs = Some (pg, s')
     \<and> pdirs s' 11 = Some dp' \<and> pd_tables dp' 897 = 0xFFFFE000 \<and> \<not> hw_present s' 11 (897 * 1024 + 3)"
proof -
  define s1 where "s1 = snd (sti ((cli two_dirs)\<lparr>freepages := []\<rparr>))"
  have a: "kmalloc_page_nested two_dirs = Some (0xFFFFE000, 0x3000, s1)"
    by (simp add: kmalloc_page_nested_def two_dirs_def cli_def s1_def)
  have st: "the_pd two_dirs 10 = Some \<lparr>pd_tables = \<lambda>_. 0, pd_tablesPhysical = \<lambda>_. 0, pd_page = 0, pd_physicalAddr = 0x1000, pd_mappedSegs = 0\<rparr>"
      "the_pd s1 10 = Some \<lparr>pd_tables = \<lambda>_. 0, pd_tablesPhysical = \<lambda>_. 0, pd_page = 0, pd_physicalAddr = 0x1000, pd_mappedSegs = 0\<rparr>"
      "the_pd s1 11 = Some \<lparr>pd_tables = \<lambda>_. 0, pd_tablesPhysical = \<lambda>_. 0, pd_page = 0, pd_physicalAddr = 0x2000, pd_mappedSegs = 0\<rparr>"
      "processes s1 = 1" "the_proc s1 1 = Some ((the (procs two_threads 1))\<lparr>pagedir := 11\<rparr>)"
    by (simp_all add: s1_def two_dirs_def the_pd_def the_proc_def cli_def sti_def Let_def)
  have n: "pr_next ((the (procs two_threads 1))\<lparr>pagedir := 11\<rparr>) = 0" by (simp add: two_threads_def)
  show ?thesis
    using kernel_table_not_present[where alloc = kmalloc_page_nested and s = two_dirs and a = "0xE0400000" and ti = 897
        and kpd = 10 and pr = "(the (procs two_threads 1))\<lparr>pagedir := 11\<rparr>", OF _ _ st(1) _ a _ st(2) _ _ n] st(3-5)
    by (auto simp: bit_numeral_rec)
qed

end
