(* ===== verification/KHeap.thy ===== *)
theory KHeap
  imports HeapResize Paging
begin

text \<open>
  The kernel heap: \<open>heap_create\<close>, \<open>heap_expand\<close> and \<open>heap_contract\<close> of
  \<^verbatim>\<open>src/kernel/mem/heap.c\<close>, which map and unmap pages of the kernel's address space, and
  \<open>kmalloc\<close> and \<open>kfree\<close> of \<^verbatim>\<open>src/kernel/mem/mem.c\<close>. Mapping and unmapping one page are
  arguments of the heap operations, \<open>kmap\<close> and \<open>kunmap\<close> in the kernel; the contract of mapping is the locale
  \<open>kernel_pages\<close>, interpreted on the paging code.
\<close>

section \<open>Model\<close>

definition kmap :: "u32 \<Rightarrow> kernel \<Rightarrow> kernel option" where
  "kmap a s = do {
     (pg, s) \<leftarrow> pagedir_getPage (kernel_pagedir s) a True s;
     (f, s) \<leftarrow> frame_alloc s;
     page_map pg f False False s }"

definition kunmap :: "u32 \<Rightarrow> kernel \<Rightarrow> kernel option" where
  "kunmap a s = do {
     (pg, s) \<leftarrow> pagedir_getPage (kernel_pagedir s) a False s;
     page_unmapFree pg s }"

text \<open>The loops over the pages of an address range.\<close>

partial_function (option) map_range :: "(u32 \<Rightarrow> 's \<Rightarrow> 's option) \<Rightarrow> u32 \<Rightarrow> u32 \<Rightarrow> 's \<Rightarrow> 's option" where
  "map_range f i e s = (if i < e then do { s \<leftarrow> f i s; map_range f (i + 0x1000) e s } else Some s)"

partial_function (option) unmap_down :: "(u32 \<Rightarrow> 's \<Rightarrow> 's option) \<Rightarrow> u32 \<Rightarrow> u32 \<Rightarrow> 's \<Rightarrow> (u32 \<times> 's) option" where
  "unmap_down f i e s = (if i \<ge> e then do { s \<leftarrow> f i s; unmap_down f (i - 0x1000) e s } else Some (i, s))"

definition kheap_create ::
    "(u32 \<Rightarrow> 'a cmem_scheme \<Rightarrow> 'a cmem_scheme option) \<Rightarrow> 'a cmem_scheme \<Rightarrow> u32 \<Rightarrow> u32 \<Rightarrow> u32 \<Rightarrow> u32 \<Rightarrow> heap
     \<Rightarrow> (heap \<times> 'a cmem_scheme) option" where
  "kheap_create map1 s start idxsize datasize maxdatasize h = do {
     let start = page_up start;
     let h = h\<lparr>start_addr := start + idxsize, end_addr := start + idxsize + datasize,
               max_end := start + idxsize + maxdatasize\<rparr>;
     s \<leftarrow> map_range map1 start (end_addr h) s;
     init_hole h s start }"

definition kheap_expand ::
    "(u32 \<Rightarrow> 'a cmem_scheme \<Rightarrow> 'a cmem_scheme option) \<Rightarrow> heap \<Rightarrow> 'a cmem_scheme \<Rightarrow> u32
     \<Rightarrow> (u32 \<times> heap \<times> 'a cmem_scheme) option" where
  "kheap_expand map1 h s quantity = do {
     let quantity = page_up quantity;
     if end_addr h + quantity > max_end h then Some (0, h, s)
     else do {
       let newEnd = end_addr h + quantity;
       s \<leftarrow> map_range map1 (end_addr h) newEnd s;
       (h, s) \<leftarrow> grow_hole h s quantity newEnd;
       Some (1, h, s) } }"

definition kheap_contract ::
    "(u32 \<Rightarrow> 'a cmem_scheme \<Rightarrow> 'a cmem_scheme option) \<Rightarrow> heap \<Rightarrow> 'a cmem_scheme \<Rightarrow> (heap \<times> 'a cmem_scheme) option" where
  "kheap_contract unmap1 h s = do {
     let last_footer = end_addr h - 8;
     last_header \<leftarrow> ld32 s (last_footer + 4);
     is_hole \<leftarrow> ld32 s (last_header + 4);
     if is_hole = 0 then Some (h, s)
     else do {
       lsize \<leftarrow> ld32 s (last_header + 8);
       let quantity = contract_qty h lsize 0;
       if quantity = 0 then Some (h, s)
       else do {
         let newEnd = end_addr h - quantity;
         (h, s) \<leftarrow> shrink_hole h s last_header last_footer quantity;
         (e, s) \<leftarrow> unmap_down unmap1 (end_addr h - 0x1000) newEnd s;
         Some (h\<lparr>end_addr := e\<rparr>, s) } } }"

text \<open>\<open>mem.c\<close>, with the static \<open>kheap\<close> passed along.\<close>

definition kheap_init :: "heap \<Rightarrow> kernel \<Rightarrow> (heap \<times> kernel) option" where
  "kheap_init h s = do {
     (h, s) \<leftarrow> kheap_create kmap s ((mem_placementAddr s AND 0xFFFFF000) + 0x1000) 0x1000 0x8000 0x08000000 h;
     Some (h, s\<lparr>kheap_working := True\<rparr>) }"

definition kmalloc :: "heap \<Rightarrow> kernel \<Rightarrow> u32 \<Rightarrow> (u32 \<times> heap \<times> kernel) option" where
  "kmalloc h s sz =
     (if kheap_working s then heap_alloc (kheap_expand kmap) h s sz
      else Some (mem_placementAddr s, h, s\<lparr>mem_placementAddr := mem_placementAddr s + sz\<rparr>))"

definition kfree :: "heap \<Rightarrow> kernel \<Rightarrow> u32 \<Rightarrow> (heap \<times> kernel) option" where
  "kfree h s p = (if kheap_working s then heap_free (kheap_contract kunmap) h s p else Some (h, s))"

section \<open>Mapping kernel pages\<close>

text \<open>
  \<open>can_map a n s\<close>: the \<open>n\<close> pages from \<open>a\<close> can be mapped.
\<close>

locale kernel_pages =
  fixes map1 :: "u32 \<Rightarrow> 'a cmem_scheme \<Rightarrow> 'a cmem_scheme option" and can_map :: "u32 \<Rightarrow> nat \<Rightarrow> 'a cmem_scheme \<Rightarrow> bool"
  assumes map1_ok: "\<lbrakk> can_map a (Suc n) s; 4096 dvd unat a \<rbrakk> \<Longrightarrow> \<exists>s'. map1 a s = Some s'
        \<and> (\<forall>p. mpresent s p \<longrightarrow> mpresent s' p) \<and> mpresent s' (unat a div 4096)
        \<and> (\<forall>x. x div 4096 \<noteq> unat a div 4096 \<longrightarrow> mbytes s' x = mbytes s x) \<and> can_map (a + 0x1000) n s'"
    and can_map_frame: "\<lbrakk> can_map a n s; mpresent s' = mpresent s; cmem.more s' = cmem.more s \<rbrakk> \<Longrightarrow> can_map a n s'"
begin

lemma map_range_ok:
  assumes "can_map i (k + m) s" and "4096 dvd unat i" and "unat e = unat i + 4096 * k"
  shows "\<exists>s'. map_range map1 i e s = Some s' \<and> (\<forall>p. mpresent s p \<longrightarrow> mpresent s' p)
     \<and> mapped s' (unat i) (unat e) \<and> agree s s' 0 (unat i) \<and> can_map e m s'"
  using assms
proof (induction k arbitrary: i s)
  case 0
  then have "i = e" by (simp add: eq_u32)
  moreover have "map_range map1 e e s = Some s" by (subst map_range.simps) simp
  ultimately show ?case using 0(1) by (auto simp: mapped_def)
next
  case (Suc k)
  have lt: "i < e" using Suc.prems(3) by (simp add: less_u32)
  have ui: "unat (i + 0x1000) = unat i + 4096"
  proof -
    have "unat i + 4096 \<le> unat e" using Suc.prems(3) by simp
    then have "unat i + 4096 < 4294967296" using unat_u32_less[of e] by linarith
    then show ?thesis by (simp add: unat_add_u32)
  qed
  obtain s1 where s1: "map1 i s = Some s1" "\<forall>p. mpresent s p \<longrightarrow> mpresent s1 p" "mpresent s1 (unat i div 4096)"
      "\<forall>x. x div 4096 \<noteq> unat i div 4096 \<longrightarrow> mbytes s1 x = mbytes s x" "can_map (i + 0x1000) (k + m) s1"
    using map1_ok[of i "k + m" s] Suc.prems by auto
  obtain s2 where s2: "map_range map1 (i + 0x1000) e s1 = Some s2" "\<forall>p. mpresent s1 p \<longrightarrow> mpresent s2 p"
      "mapped s2 (unat i + 4096) (unat e)" "agree s1 s2 0 (unat i + 4096)" "can_map e m s2"
    using Suc.IH[OF s1(5)] Suc.prems ui by auto
  obtain j where j: "unat i = 4096 * j" using Suc.prems(2) by (elim dvdE)
  have pg: "x div 4096 = j" if "4096 * j \<le> x" "x < 4096 * j + 4096" for x
    using that by (intro div_nat_eqI) auto
  have "mapped s2 (unat i) (unat i + 4096)"
    using s1(3) s2(2) pg unfolding mapped_def j by simp
  then have "mapped s2 (unat i) (unat e)" using s2(3) mapped_join by blast
  moreover have "agree s s2 0 (unat i)"
  proof -
    have "x div 4096 \<noteq> j" if "x < 4096 * j" for x using that page_bounds(1)[of x] by auto
    then have "agree s s1 0 (unat i)" using s1(4) unfolding agree_def j by simp
    moreover have "agree s1 s2 0 (unat i)" using agree_sub[OF s2(4)] by simp
    ultimately show ?thesis by (rule agree_trans)
  qed
  moreover have "map_range map1 i e s = Some s2" by (subst map_range.simps) (simp add: lt s1(1) s2(1))
  ultimately show ?case using s1(2) s2(2,5) by blast
qed

lemma kheap_expand_ok:
  assumes wf: "heap_wf s h bs" and ne: "bs \<noteq> []" and rm: "idx_room h \<or> ends_in_hole bs" and al: "4096 dvd unat (end_addr h)"
    and rdy: "can_map (end_addr h) (Suc n * (unat q div 4096)) s"
    and q: "4096 dvd unat q" "0 < unat q" and ov: "unat (end_addr h) + unat q < 4294967296"
  shows "kheap_expand map1 h s q = Some (0, h, s)
      \<or> (\<exists>h' s'. kheap_expand map1 h s q = Some (1, h', s') \<and> heap_wf s' h' (grow bs (unat q))
           \<and> start_addr h' = start_addr h \<and> end_addr h' = end_addr h + q
           \<and> keeps_used h bs s s' \<and> 4096 dvd unat (end_addr h')
           \<and> can_map (end_addr h') (n * (unat q div 4096)) s')"
proof (cases "max_end h < end_addr h + q")
  case True
  have pu: "page_up q = q" using q by (intro page_up_aligned) auto
  show ?thesis using True by (simp add: kheap_expand_def pu)
next
  case False
  let ?e = "end_addr h + q"
  have pu: "page_up q = q" using q by (intro page_up_aligned) auto
  have e: "unat ?e = unat (end_addr h) + unat q" using ov by (simp add: unat_add_u32)
  have q20: "20 \<le> unat q" using q by (auto dest: dvd_imp_le)
  have k: "unat ?e = unat (end_addr h) + 4096 * (unat q div 4096)" using e q by simp
  obtain s1 where s1: "map_range map1 (end_addr h) ?e s = Some s1" "\<forall>p. mpresent s p \<longrightarrow> mpresent s1 p"
      "mapped s1 (unat (end_addr h)) (unat ?e)" "agree s s1 0 (unat (end_addr h))" "can_map ?e (n * (unat q div 4096)) s1"
    using map_range_ok[OF _ al k, of "n * (unat q div 4096)" s] rdy by auto
  have ag: "agree s s1 (unat (hp_idx h)) (unat (end_addr h))" using agree_sub[OF s1(4)] by simp
  have "mapped s1 (unat (hp_idx h)) (unat (end_addr h))"
    using wf s1(2) by (auto simp: heap_wf_def heap_inv_def mapped_def)
  then have mp: "mapped s1 (unat (hp_idx h)) (unat (end_addr h) + unat q)" using mapped_join s1(3) e by metis
  have wf1: "heap_wf s1 h bs" using heap_wf_agree[OF wf ag mapped_sub[OF mp]] by simp
  obtain h' s' where g: "grow_hole h s1 q ?e = Some (h', s')" and wf': "heap_wf s' h' (grow bs (unat q))"
    and e': "end_addr h' = ?e" and env: "same_env h s1 h' s'" and kp: "keeps_used h bs s1 s'"
    using grow_hole_ok[OF wf1 ne rm q20 ov mp] by blast
  have "keeps_used h bs s s1" using wf by (intro keeps_used_agree[OF ag]) (auto simp: heap_wf_def heap_inv_def)
  then have "keeps_used h bs s s'" using keeps_used_trans[OF _ kp] by simp
  moreover have "can_map (end_addr h') (n * (unat q div 4096)) s'"
    using can_map_frame[OF s1(5)] env e' by (simp add: same_env_def)
  moreover have "4096 dvd unat (end_addr h')" using e' e al q(1) by simp
  moreover have "kheap_expand map1 h s q = Some (1, h', s')" using False s1(1) g by (simp add: kheap_expand_def pu)
  ultimately show ?thesis using wf' e' env by (auto simp: same_env_def)
qed

end

sublocale kernel_pages \<subseteq> ksource: heap_source "kheap_expand map1" "\<lambda>h s. 4096 dvd unat (end_addr h)"
    "\<lambda>h s q n. can_map (end_addr h) (n * (unat q div 4096)) s"
proof
  fix h h' :: heap assume "4096 dvd unat (end_addr h)" "same_bounds h h'"
  then show "4096 dvd unat (end_addr h')" by (simp add: same_bounds_def)
qed (use kheap_expand_ok in blast)

text \<open>
  The kernel's pages: page \<open>p\<close> can be mapped when the kernel's and the current directory share
  its table, the table is present and the page is free.
\<close>

definition kpage_ref :: "kernel \<Rightarrow> nat \<Rightarrow> ptr \<times> nat" where
  "kpage_ref s p = (pd_tables (the (pdirs s (kernel_pagedir s))) (p div 1024), p mod 1024)"

definition kpage_free :: "kernel \<Rightarrow> nat \<Rightarrow> bool" where
  "kpage_free s p \<longleftrightarrow> (\<exists>kd cd. the_pd s (kernel_pagedir s) = Some kd \<and> the_pd s (current_pagedir s) = Some cd
     \<and> pd_tables kd (p div 1024) \<noteq> 0 \<and> pd_tables cd (p div 1024) = pd_tables kd (p div 1024)
     \<and> bit (pd_tablesPhysical cd (p div 1024)) 0
     \<and> (\<exists>pg. get_page s (kpage_ref s p) = Some pg \<and> pg_frame pg = 0 \<and> \<not> pg_present pg))"

definition kcan_map :: "u32 \<Rightarrow> nat \<Rightarrow> kernel \<Rightarrow> bool" where
  "kcan_map a n s \<longleftrightarrow> frames_ok s \<and> n \<le> card (fp.free_frames s)
     \<and> mpresent s = hw_present s (current_pagedir s)
     \<and> (\<forall>k<n. kpage_free s (unat a div 4096 + k)) \<and> inj_on (\<lambda>k. kpage_ref s (unat a div 4096 + k)) {..<n}
     \<and> unat a + 4096 * n < 4294967296"

lemma page_map_kernel:
  assumes "get_page s r = Some pg" and "pg_frame pg = 0" and "\<not> pg_present pg" and "mpresent s = hw_present s (current_pagedir s)"
    and "the_pd s (current_pagedir s) = Some cd" and "r = (pd_tables cd (p div 1024), p mod 1024)" and "bit (pd_tablesPhysical cd (p div 1024)) 0"
  shows "\<exists>s'. page_map (Some r) f user rw s = Some s' \<and> (\<forall>q. mpresent s q \<longrightarrow> mpresent s' q) \<and> mpresent s' p
     \<and> mbytes s' = mbytes s \<and> frames s' = frames s \<and> pdirs s' = pdirs s \<and> kernel_pagedir s' = kernel_pagedir s
     \<and> current_pagedir s' = current_pagedir s \<and> mpresent s' = hw_present s' (current_pagedir s')
     \<and> (\<forall>r'. r' \<noteq> r \<longrightarrow> get_page s' r' = get_page s r')"
proof -
  obtain t where t: "ptables s (fst r) = Some t" "t (snd r) = pg" using assms(1) by (auto simp: get_page_def split: bind_splits)
  define pg' where "pg' = \<lparr>pg_present = True, pg_rw = rw, pg_user = user, pg_frame = f AND 0xFFFFF\<rparr>"
  define s1 where "s1 = s\<lparr>ptables := (ptables s)(fst r \<mapsto> t(snd r := pg'))\<rparr>"
  have pm: "page_map (Some r) f user rw s = Some (mmu s1)"
    using assms(1-3) t by (simp add: page_map_def set_page_def pg'_def s1_def)
  have hw: "hw_present s1 (current_pagedir s) q" if "hw_present s (current_pagedir s) q" for q
    using that t by (auto simp: hw_present_def s1_def pg'_def split: option.splits if_splits)
  have pd: "pdirs s (current_pagedir s) = Some cd" using assms(5) by (simp add: the_pd_def split: if_splits)
  have "hw_present s1 (current_pagedir s) p"
    using pd assms(6,7) by (simp add: hw_present_def s1_def pg'_def)
  moreover have "get_page (mmu s1) r' = get_page s r'" if "r' \<noteq> r" for r'
    using that t by (cases r; cases r') (auto simp: get_page_def s1_def)
  moreover have "hw_present (mmu s1) = hw_present s1" by (rule hw_present_cong) simp_all
  ultimately show ?thesis using pm hw assms(4) by (intro exI[of _ "mmu s1"]) (simp add: s1_def)
qed

interpretation kp: kernel_pages kmap kcan_map
proof
  fix a n s assume c: "kcan_map a (Suc n) s" and al: "4096 dvd unat a"
  let ?p = "unat a div 4096"
  have "kpage_free s (?p + 0)" using c unfolding kcan_map_def by blast
  then obtain kd cd pg where kd: "the_pd s (kernel_pagedir s) = Some kd" and cd: "the_pd s (current_pagedir s) = Some cd"
      and tb: "pd_tables kd (?p div 1024) \<noteq> 0" "pd_tables cd (?p div 1024) = pd_tables kd (?p div 1024)"
        "bit (pd_tablesPhysical cd (?p div 1024)) 0"
      and pg: "get_page s (kpage_ref s ?p) = Some pg" "pg_frame pg = 0" "\<not> pg_present pg"
    unfolding kpage_free_def by auto
  have kpd: "pdirs s (kernel_pagedir s) = Some kd" using kd by (simp add: the_pd_def split: if_splits)
  have ref: "kpage_ref s ?p = (pd_tables cd (?p div 1024), ?p mod 1024)" using kpd tb by (simp add: kpage_ref_def)
  have gp: "pagedir_getPage (kernel_pagedir s) a True s = Some (Some (kpage_ref s ?p), s)"
    using getPage_known[OF kd tb(1)] ref tb(2) by (simp add: pagedir_getPage_def)
  have ne: "fp.free_frames s \<noteq> {}" and ok: "frames_ok s" using c by (auto simp: kcan_map_def)
  obtain f s1 where f: "frame_alloc s = Some (f, s1)" "unat f \<in> fp.free_frames s" "fp.free_frames s1 = fp.free_frames s - {unat f}" "frames_ok s1"
    using fp.alloc_free[OF ok ne] by blast
  have s1: "s1 = s\<lparr>frames := frames s1\<rparr>" by (rule frame_alloc_frames[OF f(1)])
  have flds: "current_pagedir s1 = current_pagedir s" "mpresent s1 = mpresent s" "mbytes s1 = mbytes s"
      "kernel_pagedir s1 = kernel_pagedir s" "pdirs s1 = pdirs s" "ptables s1 = ptables s"
    by (subst s1, simp)+
  have same: "get_page s1 = get_page s" "hw_present s1 = hw_present s" "the_pd s1 = the_pd s"
    using flds hw_present_cong[of s1 s] by (simp_all add: get_page_def the_pd_def fun_eq_iff)
  note same = same flds
  obtain s2 where s2: "page_map (Some (kpage_ref s ?p)) f False False s1 = Some s2" "\<forall>q. mpresent s1 q \<longrightarrow> mpresent s2 q"
      "mpresent s2 ?p" "mbytes s2 = mbytes s1" "frames s2 = frames s1" "pdirs s2 = pdirs s1" "kernel_pagedir s2 = kernel_pagedir s1"
      "current_pagedir s2 = current_pagedir s1" "mpresent s2 = hw_present s2 (current_pagedir s2)"
      "\<forall>r'. r' \<noteq> kpage_ref s ?p \<longrightarrow> get_page s2 r' = get_page s1 r'"
    using page_map_kernel[of s1 "kpage_ref s ?p" pg cd ?p f False False] pg same cd ref tb c by (auto simp: kcan_map_def)
  have a1: "unat (a + 0x1000) = unat a + 4096" and a2: "unat (a + 0x1000) div 4096 = ?p + 1"
  proof -
    have "unat a + 4096 < 4294967296" using c by (simp add: kcan_map_def)
    then show u: "unat (a + 0x1000) = unat a + 4096" by (simp add: unat_add_u32)
    show "unat (a + 0x1000) div 4096 = ?p + 1" unfolding u by simp
  qed
  have ref2: "kpage_ref s2 q = kpage_ref s q" for q using s2 same by (simp add: kpage_ref_def)
  have inj: "inj_on (\<lambda>k. kpage_ref s (?p + k)) {..<Suc n}" using c by (simp add: kcan_map_def)
  have "kpage_free s2 (?p + 1 + k)" if "k < n" for k
  proof -
    have "kpage_ref s (?p + Suc k) \<noteq> kpage_ref s (?p + 0)"
      using inj_onD[OF inj, of "Suc k" 0] that by auto
    then have "get_page s2 (kpage_ref s (?p + 1 + k)) = get_page s (kpage_ref s (?p + 1 + k))"
      using s2(10)[rule_format, of "kpage_ref s (?p + 1 + k)"] same(1) by simp
    moreover have "\<forall>k<Suc n. kpage_free s (?p + k)" using c by (simp add: kcan_map_def)
    then have "kpage_free s (?p + Suc k)" using that by blast
    moreover have "the_pd s2 = the_pd s" using s2(6) flds by (simp add: the_pd_def fun_eq_iff)
    ultimately show ?thesis by (simp add: kpage_free_def ref2 s2(7,8) flds)
  qed
  moreover have "inj_on (\<lambda>k. kpage_ref s2 (?p + 1 + k)) {..<n}"
  proof (rule inj_onI)
    fix x y assume "x \<in> {..<n}" "y \<in> {..<n}" "kpage_ref s2 (?p + 1 + x) = kpage_ref s2 (?p + 1 + y)"
    then show "x = y" using inj_onD[OF inj, of "Suc x" "Suc y"] by (simp add: ref2)
  qed
  moreover have "n \<le> card (fp.free_frames s2)"
  proof -
    have "fp.free_frames s2 = fp.free_frames s - {unat f}" using f(3) s2(5) by (simp add: fp.free_frames_def frame_cap_def)
    moreover have "finite (fp.free_frames s)" by (simp add: fp.free_frames_def)
    moreover have "Suc n \<le> card (fp.free_frames s)" using c by (simp add: kcan_map_def)
    ultimately show ?thesis using f(2) by simp
  qed
  moreover have "frames_ok s2" using f(4) s2(5) by (simp add: frames_ok_def)
  ultimately have "kcan_map (a + 0x1000) n s2"
    using c a1 s2(9) unfolding kcan_map_def a2 by (simp add: add.assoc)
  moreover have "kmap a s = Some s2" using gp f(1) s2(1) by (simp add: kmap_def)
  ultimately show "\<exists>s'. kmap a s = Some s' \<and> (\<forall>p. mpresent s p \<longrightarrow> mpresent s' p) \<and> mpresent s' (unat a div 4096)
      \<and> (\<forall>x. x div 4096 \<noteq> unat a div 4096 \<longrightarrow> mbytes s' x = mbytes s x) \<and> kcan_map (a + 0x1000) n s'"
    using s2(2,3,4) same by auto
next
  fix a n and s s' :: kernel assume c: "kcan_map a n s" and m: "mpresent s' = mpresent s" "cmem.more s' = cmem.more s"
  have eq: "frames s' = frames s" "pdirs s' = pdirs s" "ptables s' = ptables s" "kernel_pagedir s' = kernel_pagedir s"
      "current_pagedir s' = current_pagedir s"
    using m(2) by (cases s; cases s'; simp)+
  have "hw_present s' = hw_present s" using eq by (intro hw_present_cong) simp_all
  moreover have "fp.free_frames s' = fp.free_frames s" using eq by (simp add: fp.free_frames_def frame_cap_def)
  moreover have "kpage_free s' = kpage_free s" "kpage_ref s' = kpage_ref s"
    using eq by (simp_all add: kpage_free_def kpage_ref_def the_pd_def get_page_def fun_eq_iff)
  ultimately show "kcan_map a n s'" using c m eq by (simp add: kcan_map_def frames_ok_def)
qed

section \<open>The kernel allocator\<close>

text \<open>
  C9. \<open>kmalloc\<close> on the kernel heap: when the pages that the heap may have to grow by can be
  mapped, the call terminates without a fault, keeps the heap well-formed and all allocated
  blocks and their contents, and returns null or a new block with room for the requested bytes
  that overlaps no other block.
\<close>

theorem kmalloc_correct:
  assumes "kheap_working s" and "heap_wf s h bs" and "bs \<noteq> []" and "4096 dvd unat (end_addr h)"
    and "idx_room h \<or> ends_in_hole bs" and "unat sz < 0xFFFFF000"
    and "q = (sz AND 0xFFFFF000) + 0x1000" and "kcan_map (end_addr h) (2 * (unat q div 4096)) s"
    and "unat (end_addr h) + 2 * unat q < 4294967296"
  shows "alloc_outcome (\<lambda>h s. 4096 dvd unat (end_addr h)) h s bs (unat sz) (kmalloc h s sz)"
  using kp.ksource.alloc_total[OF assms(2,4,3,5,7,8,9,6)] assms(1) by (simp add: kmalloc_def)

text \<open>A kernel with one page table: nine pages from \<open>0xE0200000\<close> are mapped, the others are free.\<close>

definition heap_pages :: kernel where
  "heap_pages = (kernel0 (\<lambda>n. n div 1024 = 896 \<and> 512 \<le> n mod 1024 \<and> n mod 1024 < 521) (\<lambda>_. 0))\<lparr>
     kheap_working := True, kernel_pagedir := 10, current_pagedir := 10, frames := \<lparr>bits = replicate 32 0, bsize = 1024\<rparr>,
     pdirs := [10 \<mapsto> \<lparr>pd_tables = (\<lambda>_. 0)(896 := 7), pd_tablesPhysical = (\<lambda>_. 0)(896 := 0x4007), pd_page = 0, pd_physicalAddr = 0x1000, pd_mappedSegs = 0\<rparr>],
     ptables := [7 \<mapsto> \<lambda>i. if 512 \<le> i \<and> i < 521 then \<lparr>pg_present = True, pg_rw = False, pg_user = False, pg_frame = 9\<rparr> else empty_table i]\<rparr>"

definition heap_bounds :: heap where
  "heap_bounds = \<lparr>hp_idx = 0, idxused = 0, start_addr = 0xE0201000, end_addr = 0xE0209000, max_end = 0xE8201000\<rparr>"

lemma heap_pages_present: "mpresent heap_pages = hw_present heap_pages 10"
  by (intro ext) (auto simp: heap_pages_def kernel0_def hw_present_def empty_table_def bit_numeral_rec)

lemma heap_pages_map: "kcan_map 0xE0209000 2 heap_pages"
proof -
  have used: "bs_used (frames heap_pages) = {}" by (auto simp: bs_used_def heap_pages_def)
  have free: "fp.free_frames heap_pages = {..<1024}"
    unfolding fp.free_frames_def used by (simp add: frame_cap_def heap_pages_def)
  have ok: "frames_ok heap_pages" by (simp add: frames_ok_def bs_ok_def heap_pages_def)
  have pf: "kpage_free heap_pages (918025 + k)" if "k < 2" for k
    using that by (auto simp: kpage_free_def kpage_ref_def heap_pages_def the_pd_def get_page_def empty_table_def bit_numeral_rec
        less_2_cases_iff)
  have inj: "inj_on (\<lambda>k. kpage_ref heap_pages (918025 + k)) {..<2}"
    by (rule inj_onI) (auto simp: kpage_ref_def less_2_cases_iff)
  have cur: "current_pagedir heap_pages = 10" by (simp add: heap_pages_def)
  show ?thesis unfolding kcan_map_def using ok pf inj heap_pages_present by (simp add: free cur)
qed

lemma more_working: "cmem.more s = cmem.more t \<Longrightarrow> kheap_working s = kheap_working t" for s t :: kernel
  by (cases s; cases t) simp

lemma kernel_heap_exists:
  "\<exists>h s. heap_wf s h [(0x8000, True)] \<and> kheap_working s \<and> end_addr h = 0xE0209000 \<and> start_addr h = 0xE0201000
     \<and> hp_idx h = 0xE0200000 \<and> idxused h = 1 \<and> kcan_map (end_addr h) 2 s"
proof -
  have mp: "mapped heap_pages 0xE0200000 0xE0209000"
    unfolding mapped_def
  proof (intro allI impI)
    fix n :: nat assume n: "0xE0200000 \<le> n \<and> n < 0xE0209000"
    have "918016 \<le> n div 4096" "n div 4096 < 918025" using n div_le_mono[of "0xE0200000" n 4096] by (simp_all add: div_less_iff_less_mult)
    then obtain k where k: "n div 4096 = 918016 + k" "k < 9" using le_Suc_ex[of 918016 "n div 4096"] by auto
    then have "n div 4096 = 512 + k + 896 * 1024" by simp
    then have "n div 4096 div 1024 = 896" "n div 4096 mod 1024 = 512 + k" using k(2) by (simp_all only: div_mult_self1 mod_mult_self1) simp_all
    then show "mpresent heap_pages (n div 4096)" using k(2) by (simp add: heap_pages_def kernel0_def)
  qed
  have "rd heap_pages 0xE0200FF8 \<noteq> HEAP_MAGIC" by (simp add: rd_def heap_pages_def kernel0_def of_bytes_def HEAP_MAGIC_def)
  then obtain h s where r: "heap_wf s h [(0x8000, True)]" "hp_idx h = 0xE0200000" "idxused h = 1" "start_addr h = 0xE0201000" "end_addr h = 0xE0209000"
      and e: "mpresent s = mpresent heap_pages" "cmem.more s = cmem.more heap_pages"
    using init_hole_ok[of "0xE0200000" heap_bounds heap_pages] mp by (auto simp: heap_bounds_def)
  have "kheap_working s" using more_working[OF e(2)] by (simp add: heap_pages_def)
  moreover have "kcan_map (end_addr h) 2 s" using kp.can_map_frame[OF heap_pages_map e] r(5) by simp
  ultimately show ?thesis using r by blast
qed

theorem kmalloc_correct_witness:
  "\<exists>h s. heap_wf s h [(0x8000, True)] \<and> alloc_outcome (\<lambda>h s. 4096 dvd unat (end_addr h)) h s [(0x8000, True)] 100 (kmalloc h s 100)"
proof -
  obtain h s where "heap_wf s h [(0x8000, True)]" "kheap_working s" "end_addr h = 0xE0209000" "kcan_map (end_addr h) 2 s"
    using kernel_heap_exists by blast
  then show ?thesis
    using kmalloc_correct[of s h "[(0x8000, True)]" 100 "0x1000"] by (auto simp: ends_in_hole_def)
qed

text \<open>
  \<open>kfree\<close> of an allocated block that does not make the heap shrink: exactly this block
  becomes a hole, merged with the holes beside it; the heap stays well-formed and all other
  blocks keep their contents.
\<close>

theorem kfree_correct:
  assumes "kheap_working s" and "heap_wf s h (xs @ (n, False) # ys)" and "unat p = unat (start_addr h) + blk_total xs + 12"
    and "idx_room h" and "ys \<noteq> [] \<or> past_end s h"
    and "\<And>xs1 n1. freed_parts xs n ys = (xs1, n1, []) \<Longrightarrow> n1 < 0x2000 \<or> unat (end_addr h) - unat (start_addr h) \<le> 0x4000"
  shows "free_outcome (\<lambda>_ _. True) h s xs n ys (kfree h s p)"
proof -
  let ?S = "unat (start_addr h)"
  obtain h' s' xs1 n1 ys1 where fp: "freed_parts xs n ys = (xs1, n1, ys1)" and wf': "heap_wf s' h' (freed xs n ys)"
    and off: "off_block h s h' s' (?S + blk_total xs1) n1"
    and fr: "heap_free (kheap_contract kunmap) h s p = (if ys1 = [] \<and> 0x2000 \<le> n1 \<and> 0x4000 < unat (end_addr h) - ?S
         then kheap_contract kunmap h' s' else Some (h', s'))"
    using heap_free_step[OF assms(2,3,4,5)] by blast
  have fd: "freed xs n ys = xs1 @ (n1, True) # ys1" using fp by (simp add: freed_def)
  have no: "\<not> (ys1 = [] \<and> 0x2000 \<le> n1 \<and> 0x4000 < unat (end_addr h) - ?S)" using assms(6)[of xs1 n1] fp by auto
  then have "kfree h s p = Some (h', s')" using fr assms(1) by (simp only: kfree_def if_True if_False)
  moreover have "layout s ?S (xs @ (n, False) # ys)" using assms(2) by (simp add: heap_wf_def heap_inv_def)
  note minus = used_blks_minus[OF this]
  moreover have "start_addr h' = start_addr h" "end_addr h' = end_addr h" using off by (simp_all add: off_block_def same_bounds_def)
  ultimately show ?thesis unfolding free_outcome_def minus
    using wf' fd fp no freed_used[of ?S xs n ys] freed_keeps[OF assms(2) fd wf' off]
    by - (rule exI[of _ h'], rule exI[of _ s'], rule exI[of _ xs1], rule exI[of _ n1], rule exI[of _ ys1], rule exI[of _ 0], auto)
qed

lemma heapIdx_end:
  "heapIdx_insert h s e = Some (h', s') \<Longrightarrow> end_addr h' = end_addr h"
  "heapIdx_remove h s e = Some (h', s') \<Longrightarrow> end_addr h' = end_addr h"
  by (auto simp: heapIdx_insert_def heapIdx_remove_def Let_def split: if_splits bind_splits option.splits)

lemma shrink_hole_end: "shrink_hole h s lh lf q = Some (h', s') \<Longrightarrow> end_addr h' = end_addr h"
  by (auto simp: shrink_hole_def Let_def dest!: heapIdx_end split: bind_splits)

lemma unmap_down_end:
  assumes "\<And>a s. \<exists>s'. f a s = Some s'" and "unat i + 4096 = unat e + 4096 * k" and "4096 \<le> unat e"
  shows "\<exists>s'. unmap_down f i e s = Some (e - 0x1000, s')"
  using assms(2)
proof (induction k arbitrary: i s)
  case 0
  have "unat (e - 0x1000) = unat e - 4096" using assms(3) by (simp add: unat_sub_u32)
  then have "i = e - 0x1000" using 0 by (intro unat_eqD) simp
  moreover have "\<not> e \<le> i" using 0 by (simp add: le_u32)
  ultimately show ?case by (subst unmap_down.simps) simp
next
  case (Suc k)
  obtain s1 where s1: "f i s = Some s1" using assms(1) by blast
  have le: "e \<le> i" using Suc.prems by (simp add: le_u32)
  have "unat (i - 0x1000) = unat i - 4096" using Suc.prems assms(3) by (simp add: unat_sub_u32)
  then have "\<exists>s'. unmap_down f (i - 0x1000) e s1 = Some (e - 0x1000, s')" using Suc.prems assms(3) by (intro Suc.IH) simp
  then show ?case by (subst unmap_down.simps) (simp add: le s1)
qed

text \<open>
  Contraction of the kernel heap loses a page: the last hole is shortened by a positive
  multiple \<open>q\<close> of the page size and then ends at \<open>end_addr - q\<close>, but the loop that unmaps the
  pages leaves \<open>end_addr\<close> one page below that, so the recorded end lies inside the last hole.
\<close>

theorem kheap_contract_end:
  fixes s :: "'a cmem_scheme"
  assumes wf: "heap_wf s h (xs @ [(n, True)])" and n: "0x2000 \<le> n" "rest_ok n"
    and big: "0x4000 < unat (end_addr h) - unat (start_addr h)" and un: "\<And>a s. \<exists>s'. unmap1 a s = Some s'"
  shows "\<exists>h' s' q (s1 :: 'a cmem_scheme). kheap_contract unmap1 h s = Some (h', s') \<and> 0x1000 \<le> unat q \<and> 4096 dvd unat q
     \<and> heap_wf s1 (h'\<lparr>end_addr := end_addr h - q\<rparr>) (xs @ [(n - unat q, True)])
     \<and> end_addr h' = end_addr h - q - 0x1000"
proof -
  let ?S = "unat (start_addr h)" and ?E = "unat (end_addr h)"
  define a where "a = ?S + blk_total xs"
  have inv: "heap_inv s h (xs @ [(n, True)]) (hole_addrs ?S (xs @ [(n, True)]))" using wf by (simp add: heap_wf_def)
  note lb = last_block[OF inv a_def] and fit = heap_inv_fit[OF inv a_def]
  have u8: "unat (of_nat a + 8 :: u32) = a + 8" using lb(2) fit by (simp add: unat_add_u32)
  define w where "w = rd s (a + 8)"
  have w: "unat w = n" using fit by (simp add: w_def block_def)
  have ldw: "ld32 s (of_nat a + 8) = Some w"
    unfolding w_def using fit by (intro ld_in[OF heap_inv_mapped[OF inv] end_addr_bound u8]) auto
  define q where "q = contract_qty h w 0"
  have SE: "unat (end_addr h - start_addr h) = ?E - ?S" using fit a_def by (simp add: unat_sub_u32)
  have nE: "n \<le> ?E - ?S" using lb(4) a_def by simp
  have "q = contract_qty h w 0x1000"
    unfolding q_def using big n SE w by (subst contract_qty.simps) (simp add: less_u32 HEAP_MIN_SIZE_def)
  then have qb: "4096 dvd unat q" "0x1000 \<le> unat q" "unat q < n"
    using contract_qty_bounds[of "0x1000" "0x1000" w h] n w SE nE by (auto simp: Let_def le_u32)
  have q20: "unat q + 20 \<le> n" using rest_room[OF n(2) qb(1,3)] .
  have mp: "mapped s (unat (hp_idx h)) (?E - unat q)" using mapped_sub[OF heap_inv_mapped[OF inv]] by simp
  obtain h1 s1 where sh: "shrink_hole h s (of_nat a) (end_addr h - 8) q = Some (h1, s1)"
    and wf1: "heap_wf s1 (h1\<lparr>end_addr := end_addr h - q\<rparr>) (xs @ [(n - unat q, True)])"
    using shrink_hole_ok[OF wf q20 agree_refl mp] unfolding a_def[symmetric] by blast
  have e1: "end_addr h1 = end_addr h" using shrink_hole_end[OF sh] .
  have e: "unat (end_addr h - q) = ?E - unat q" using qb lb(4) by (simp add: unat_sub_u32)
  obtain j where j: "unat q = 4096 * j" using qb(1) by (elim dvdE)
  have "4096 \<le> unat (end_addr h - q)" using e fit qb lb(4) by linarith
  moreover have "unat (end_addr h - 0x1000) + 4096 = unat (end_addr h - q) + 4096 * j"
    using e j qb lb(4) by (simp add: unat_sub_u32)
  ultimately obtain s2 where ud: "unmap_down unmap1 (end_addr h - 0x1000) (end_addr h - q) s1 = Some (end_addr h - q - 0x1000, s2)"
    using unmap_down_end[of unmap1 "end_addr h - 0x1000" "end_addr h - q" j s1] un by blast
  have q0: "(q = 0) = False" using qb(2) by auto
  have "kheap_contract unmap1 h s = Some (h1\<lparr>end_addr := end_addr h - q - 0x1000\<rparr>, s2)"
    by (simp only: kheap_contract_def Let_def lb if_True if_False one_neq_zero Option.bind_lunit ldw q_def[symmetric] q0 sh e1 ud prod.case)
  then show ?thesis using wf1 qb by (intro exI[of _ "h1\<lparr>end_addr := end_addr h - q - 0x1000\<rparr>"] exI[of _ s2] exI[of _ q] exI[of _ s1]) simp
qed

lemma kernel_heap_used:
  "\<exists>h (s :: kernel). heap_wf s h [(120, False), (120, False), (0x8000 - 240, True)] \<and> kheap_working s \<and> idx_room h
     \<and> start_addr h = 0xE0201000"
proof -
  obtain h and s :: kernel where h: "heap_wf s h [(0x8000, True)]" "kheap_working s" "start_addr h = 0xE0201000" "hp_idx h = 0xE0200000" "idxused h = 1"
    using kernel_heap_exists by blast
  obtain p1 h1 s1 where w1: "heap_wf s1 h1 [(120, False), (0x8000 - 120, True)]" and k1: "unat (idxused h1) \<le> unat (idxused h)"
      and o1: "off_block h s h1 s1 (unat (start_addr h)) 0x8000"
    using heap_alloc_fits[OF h(1), of 100 "\<lambda>h s q. None"] by (auto simp: taken_def Cons_eq_append_conv)
  obtain h2 s2 where w2: "heap_wf s2 h2 [(120, False), (120, False), (0x8000 - 240, True)]" and k2: "unat (idxused h2) \<le> unat (idxused h1)"
      and o2: "off_block h1 s1 h2 s2 (unat (start_addr h1) + 120) (0x8000 - 120)"
    using heap_alloc_fits[OF w1, of 100 "\<lambda>h s q. None"] by (auto simp: taken_def Cons_eq_append_conv)
  have "kheap_working s2" "start_addr h2 = start_addr h" "hp_idx h2 = hp_idx h"
    using o1 o2 h(2) more_working[of s1 s] more_working[of s2 s1] by (auto simp: off_block_def same_bounds_def)
  then show ?thesis using w2 k1 k2 h by (intro exI[of _ h2] exI[of _ s2]) (simp add: idx_room_def)
qed

theorem kfree_correct_witness:
  "\<exists>h (s :: kernel). heap_wf s h [(120, False), (120, False), (0x8000 - 240, True)]
     \<and> free_outcome (\<lambda>_ _. True) h s [] 120 [(120, False), (0x8000 - 240, True)] (kfree h s 0xE020100C)"
proof -
  obtain h and s :: kernel where h: "heap_wf s h [(120, False), (120, False), (0x8000 - 240, True)]" "kheap_working s" "idx_room h" "start_addr h = 0xE0201000"
    using kernel_heap_used by blast
  have "freed_parts [] 120 [(120, False), (0x8000 - 240, True)] = ([], 120, [(120, False), (0x8000 - 240, True)])"
    by (simp add: freed_parts_def merge_left_def merge_right_def)
  then show ?thesis
    using kfree_correct[of s h "[]" 120 "[(120, False), (0x8000 - 240, True)]" "0xE020100C"] h by auto
qed

theorem kheap_contract_end_witness:
  "\<exists>h (s :: kernel) h' s' q. heap_wf s h [(0x8000, True)] \<and> end_addr h = 0xE0209000
     \<and> kheap_contract (\<lambda>a s. Some (s :: kernel)) h s = Some (h', s') \<and> 0x1000 \<le> unat q \<and> end_addr h' = end_addr h - q - 0x1000"
proof -
  obtain h and s :: kernel where h: "heap_wf s h [(0x8000, True)]" "end_addr h = 0xE0209000" "start_addr h = 0xE0201000"
    using kernel_heap_exists by blast
  then obtain h' s' q where "kheap_contract (\<lambda>a s. Some s) h s = Some (h', s')" "0x1000 \<le> unat q" "end_addr h' = end_addr h - q - 0x1000"
    using kheap_contract_end[of s h "[]" "0x8000" "\<lambda>a s. Some s"] by (auto simp: rest_ok_def)
  then show ?thesis using h by blast
qed

end
