(* ===== verification/Seg.thy ===== *)
theory Seg
  imports Paging
begin

text \<open>
  Segments of a process's address space: \<^verbatim>\<open>src/kernel/mem/seg.c\<close> (simple segments,
  mapped on demand), \<^verbatim>\<open>src/kernel/ipc/shm.c\<close> (shared memory), and the parts of
  \<^verbatim>\<open>src/kernel/mem/paging.c\<close> that use them, \<open>paging_fault\<close> and \<open>pagedir_delete\<close>. The calls
  through a segment's function pointers are a case distinction on the kind of the segment.
\<close>

section \<open>Model\<close>

subsection \<open>Simple segments\<close>

definition simpleseg_make :: "u32 \<Rightarrow> u32 \<Rightarrow> bool \<Rightarrow> kernel \<Rightarrow> ptr \<times> kernel" where
  "simpleseg_make start len writable s = (
     let (ss, s) = kmalloc_ptr s; (se, s) = kmalloc_ptr s in
     (se, s\<lparr>segs := (segs s)(se \<mapsto>
        \<lparr>sg_data = SimpleSeg \<lparr>ss_writable = writable, ss_start = start, ss_len = len\<rparr>, sg_dataAt = ss, sg_mappings = 0\<rparr>)\<rparr>))"

definition new_map :: "u32 \<Rightarrow> u32 \<Rightarrow> kernel \<Rightarrow> ptr \<times> kernel" where
  "new_map start len s = (let (sm, s) = kmalloc_ptr s in
     (sm, s\<lparr>segmaps := (segmaps s)(sm \<mapsto>
        \<lparr>sm_seg = kjunk s sm, sm_pagedir = kjunk s sm, sm_start = start, sm_len = len, sm_next = kjunk s sm\<rparr>)\<rparr>))"

definition simpleseg_map :: "simpleseg \<Rightarrow> kernel \<Rightarrow> ptr \<times> kernel" where
  "simpleseg_map ss s = new_map (ss_start ss) (ss_len ss) s"

text \<open>Free the pages of a directory from \<open>i\<close> up to \<open>e\<close>.\<close>

partial_function (option) unmapFree_range :: "ptr \<Rightarrow> u32 \<Rightarrow> u32 \<Rightarrow> kernel \<Rightarrow> kernel option" where
  "unmapFree_range pd i e s =
     (if i < e then do {
        (pg, s) \<leftarrow> pagedir_getPage pd i False s;
        s \<leftarrow> page_unmapFree pg s;
        unmapFree_range pd (i + 0x1000) e s }
      else Some s)"

definition simpleseg_unmap :: "segment_map \<Rightarrow> kernel \<Rightarrow> kernel option" where
  "simpleseg_unmap sm s = unmapFree_range (sm_pagedir sm) (sm_start sm) (sm_start sm + sm_len sm) s"

definition simpleseg_handleFault :: "segment_map \<Rightarrow> simpleseg \<Rightarrow> u32 \<Rightarrow> bool \<Rightarrow> kernel \<Rightarrow> (u32 \<times> kernel) option" where
  "simpleseg_handleFault sm ss addr write s =
     (if write \<and> \<not> ss_writable ss then Some (1, s)
      else do {
        let addr = addr AND 0xFFFFF000;
        (pg, s) \<leftarrow> pagedir_getPage (sm_pagedir sm) addr True s;
        r \<leftarrow> pg;
        p \<leftarrow> get_page s r;
        if pg_frame p \<noteq> 0 then Some (1, s)
        else do {
          (f, s) \<leftarrow> frame_alloc s;
          s \<leftarrow> page_map pg f True (ss_writable ss) s;
          Some (0, s) } })"

definition simpleseg_delete :: "simpleseg \<Rightarrow> kernel \<Rightarrow> kernel option" where
  "simpleseg_delete ss s = Some s"

subsection \<open>Shared memory segments\<close>

definition shmseg_make :: "u32 \<Rightarrow> ptr \<Rightarrow> kernel \<Rightarrow> ptr \<times> kernel" where
  "shmseg_make len own s = (
     let (ss, s) = kmalloc_ptr s; (se, s) = kmalloc_ptr s; (fr, s) = kmalloc_ptr s in
     (se, s\<lparr>segs := (segs s)(se \<mapsto>
        \<lparr>sg_data = ShmSeg \<lparr>sh_len = len, sh_frames = replicate (unat (len div 0x1000)) 0, sh_framesAt = fr, sh_owner = own\<rparr>,
         sg_dataAt = ss, sg_mappings = 0\<rparr>)\<rparr>))"

definition shmseg_map :: "shmseg \<Rightarrow> u32 \<Rightarrow> kernel \<Rightarrow> ptr \<times> kernel" where
  "shmseg_map sh offset s = new_map offset (sh_len sh) s"

partial_function (option) unmap_range :: "ptr \<Rightarrow> u32 \<Rightarrow> u32 \<Rightarrow> u32 \<Rightarrow> kernel \<Rightarrow> kernel option" where
  "unmap_range pd start i len s =
     (if i < len then do {
        (pg, s) \<leftarrow> pagedir_getPage pd (start + i) False s;
        s \<leftarrow> page_unmap pg s;
        unmap_range pd start (i + 0x1000) len s }
      else Some s)"

definition shmseg_unmap :: "segment_map \<Rightarrow> kernel \<Rightarrow> kernel option" where
  "shmseg_unmap sm s = unmap_range (sm_pagedir sm) (sm_start sm) 0 (sm_len sm) s"

definition shmseg_handleFault :: "segment_map \<Rightarrow> shmseg \<Rightarrow> u32 \<Rightarrow> bool \<Rightarrow> kernel \<Rightarrow> (u32 \<times> kernel) option" where
  "shmseg_handleFault sm sh addr write s = do {
     let addr = addr AND 0xFFFFF000;
     (pg, s) \<leftarrow> pagedir_getPage (sm_pagedir sm) addr True s;
     r \<leftarrow> pg;
     p \<leftarrow> get_page s r;
     if pg_frame p \<noteq> 0 then Some (1, s)
     else do {
       let frame_idx = unat ((addr - sm_start sm) div 0x1000);
       if frame_idx \<ge> length (sh_frames sh) then None
       else do {
         (f, s) \<leftarrow> (if sh_frames sh ! frame_idx = 0 then do {
             (f, s) \<leftarrow> frame_alloc s;
             s \<leftarrow> upd_seg (sm_seg sm) (\<lambda>sg. sg\<lparr>sg_data := ShmSeg (sh\<lparr>sh_frames := (sh_frames sh)[frame_idx := f]\<rparr>)\<rparr>) s;
             Some (f, s) }
           else Some (sh_frames sh ! frame_idx, s));
         s \<leftarrow> page_map pg f True True s;
         Some (0, s) } } }"

fun free_frames_list :: "u32 list \<Rightarrow> kernel \<Rightarrow> kernel option" where
  "free_frames_list [] s = Some s"
| "free_frames_list (f # fs) s = do {
     s \<leftarrow> (if f \<noteq> 0 then frame_free f s else Some s);
     free_frames_list fs s }"

definition shmseg_delete :: "shmseg \<Rightarrow> kernel \<Rightarrow> kernel option" where
  "shmseg_delete sh s = do {
     s \<leftarrow> free_frames_list (take (unat (sh_len sh div 0x1000)) (sh_frames sh)) s;
     Some (kfree_ptr (sh_framesAt sh) s) }"

subsection \<open>Mapping and unmapping\<close>

definition seg_map :: "ptr \<Rightarrow> ptr \<Rightarrow> u32 \<Rightarrow> kernel \<Rightarrow> (ptr \<times> kernel) option" where
  "seg_map seg pd offset s = do {
     sg \<leftarrow> the_seg s seg;
     let (sm, s) = (case sg_data sg of SimpleSeg ss \<Rightarrow> simpleseg_map ss s | ShmSeg sh \<Rightarrow> shmseg_map sh offset s);
     if sm = 0 then Some (0, s)
     else do {
       s \<leftarrow> upd_seg seg (\<lambda>sg. sg\<lparr>sg_mappings := sg_mappings sg + 1\<rparr>) s;
       d \<leftarrow> the_pd s pd;
       s \<leftarrow> upd_map sm (\<lambda>m. m\<lparr>sm_seg := seg, sm_pagedir := pd, sm_next := pd_mappedSegs d\<rparr>) s;
       s \<leftarrow> upd_pd pd (\<lambda>d. d\<lparr>pd_mappedSegs := sm\<rparr>) s;
       Some (sm, s) } }"

text \<open>The loop of \<open>seg_unmap\<close>: the last mapping before \<open>map\<close> in the list from \<open>m\<close>.\<close>

partial_function (option) find_before :: "kernel \<Rightarrow> ptr \<Rightarrow> ptr \<Rightarrow> ptr option" where
  "find_before s m target = do {
     x \<leftarrow> the_map s m;
     if sm_next x \<noteq> 0 \<and> sm_next x \<noteq> target then find_before s (sm_next x) target else Some m }"

definition unlink_map :: "ptr \<Rightarrow> segment_map \<Rightarrow> kernel \<Rightarrow> kernel option" where
  "unlink_map target tm s = do {
     d \<leftarrow> the_pd s (sm_pagedir tm);
     if pd_mappedSegs d = target then do {
       h \<leftarrow> the_map s (pd_mappedSegs d);
       upd_pd (sm_pagedir tm) (\<lambda>d. d\<lparr>pd_mappedSegs := sm_next h\<rparr>) s }
     else do {
       m \<leftarrow> find_before s (pd_mappedSegs d) target;
       x \<leftarrow> the_map s m;
       if sm_next x = target then upd_map m (\<lambda>x. x\<lparr>sm_next := sm_next tm\<rparr>) s else Some s } }"

definition seg_unmap :: "ptr \<Rightarrow> kernel \<Rightarrow> kernel option" where
  "seg_unmap target s = do {
     tm \<leftarrow> the_map s target;
     sg \<leftarrow> the_seg s (sm_seg tm);
     s \<leftarrow> (case sg_data sg of SimpleSeg _ \<Rightarrow> simpleseg_unmap tm s | ShmSeg _ \<Rightarrow> shmseg_unmap tm s);
     s \<leftarrow> unlink_map target tm s;
     s \<leftarrow> upd_seg (sm_seg tm) (\<lambda>sg. sg\<lparr>sg_mappings := sg_mappings sg - 1\<rparr>) s;
     sg \<leftarrow> the_seg s (sm_seg tm);
     s \<leftarrow> (if sg_mappings sg = 0 then do {
         s \<leftarrow> (case sg_data sg of SimpleSeg ss \<Rightarrow> simpleseg_delete ss s | ShmSeg sh \<Rightarrow> shmseg_delete sh s);
         Some (kfree_ptr (sm_seg tm) (kfree_ptr (sg_dataAt sg) s)) }
       else Some s);
     Some (kfree_ptr target s) }"

definition simpleseg_resize :: "ptr \<Rightarrow> u32 \<Rightarrow> kernel \<Rightarrow> (u32 \<times> kernel) option" where
  "simpleseg_resize m len s =
     (if m = 0 then Some (- 1, s)
      else do {
        sm \<leftarrow> the_map s m;
        sg \<leftarrow> the_seg s (sm_seg sm);
        case sg_data sg of ShmSeg _ \<Rightarrow> Some (- 2, s)
        | SimpleSeg ss \<Rightarrow> do {
          let len = page_up len;
          s \<leftarrow> (if len < sm_len sm
               then unmapFree_range (sm_pagedir sm) (sm_start sm + len) (sm_start sm + sm_len sm) s else Some s);
          if len \<noteq> sm_len sm then do {
            s \<leftarrow> upd_map m (\<lambda>sm. sm\<lparr>sm_len := len\<rparr>) s;
            s \<leftarrow> upd_seg (sm_seg sm) (\<lambda>sg. sg\<lparr>sg_data := SimpleSeg (ss\<lparr>ss_len := len\<rparr>)\<rparr>) s;
            Some (0, s) }
          else Some (0, s) } })"

subsection \<open>Page faults and deletion of a directory\<close>

partial_function (option) find_seg :: "kernel \<Rightarrow> ptr \<Rightarrow> u32 \<Rightarrow> ptr option" where
  "find_seg s m addr =
     (if m = 0 then Some 0
      else do {
        x \<leftarrow> the_map s m;
        if sm_start x \<le> addr \<and> sm_start x + sm_len x > addr then Some m else find_seg s (sm_next x) addr })"

text \<open>\<open>addr\<close> is the contents of register \<^verbatim>\<open>cr2\<close>. The messages on an unhandled fault are left out.\<close>

definition paging_fault :: "u32 \<Rightarrow> u32 \<Rightarrow> u32 \<Rightarrow> kernel \<Rightarrow> (u32 \<times> kernel) option" where
  "paging_fault addr err_code eip s = do {
     d \<leftarrow> the_pd s (current_pagedir s);
     seg \<leftarrow> find_seg s (pd_mappedSegs d) addr;
     if seg = 0 then Some (1, s)
     else do {
       sm \<leftarrow> the_map s seg;
       sg \<leftarrow> the_seg s (sm_seg sm);
       let write = (err_code AND 2 \<noteq> 0 \<and> eip < 0xE0000000);
       (r, s) \<leftarrow> (case sg_data sg of SimpleSeg ss \<Rightarrow> simpleseg_handleFault sm ss addr write s
                 | ShmSeg sh \<Rightarrow> shmseg_handleFault sm sh addr write s);
       if r \<noteq> 0 then Some (1, s) else Some (0, s) } }"

partial_function (option) unmap_all :: "ptr \<Rightarrow> kernel \<Rightarrow> kernel option" where
  "unmap_all pd s = do {
     d \<leftarrow> the_pd s pd;
     if pd_mappedSegs d \<noteq> 0 then do { s \<leftarrow> seg_unmap (pd_mappedSegs d) s; unmap_all pd s } else Some s }"

fun free_tables :: "ptr \<Rightarrow> nat \<Rightarrow> nat \<Rightarrow> kernel \<Rightarrow> kernel option" where
  "free_tables pd i 0 s = Some s"
| "free_tables pd i (Suc n) s = do {
     d \<leftarrow> the_pd s pd;
     s \<leftarrow> kfree_page (of_nat (pd_tables d i)) s;
     free_tables pd (Suc i) n s }"

definition pagedir_delete :: "ptr \<Rightarrow> kernel \<Rightarrow> kernel option" where
  "pagedir_delete pd s = do {
     s \<leftarrow> unmap_all pd s;
     s \<leftarrow> free_tables pd 0 896 s;
     d \<leftarrow> the_pd s pd;
     s \<leftarrow> kfree_page (pd_page d) s;
     Some (kfree_ptr pd s) }"

subsection \<open>Shared memory system calls\<close>

partial_function (option) getByOff :: "kernel \<Rightarrow> ptr \<Rightarrow> u32 \<Rightarrow> ptr option" where
  "getByOff s m offset =
     (if m = 0 then Some 0
      else do {
        x \<leftarrow> the_map s m;
        if sm_start x = offset then do {
          sg \<leftarrow> the_seg s (sm_seg x);
          case sg_data sg of ShmSeg _ \<Rightarrow> Some m | SimpleSeg _ \<Rightarrow> getByOff s (sm_next x) offset }
        else getByOff s (sm_next x) offset })"

definition shmseg_getByOff :: "ptr \<Rightarrow> u32 \<Rightarrow> kernel \<Rightarrow> ptr option" where
  "shmseg_getByOff pr offset s = do { p \<leftarrow> the_proc s pr; d \<leftarrow> the_pd s (pagedir p); getByOff s (pd_mappedSegs d) offset }"

definition shm_create :: "u32 \<Rightarrow> u32 \<Rightarrow> kernel \<Rightarrow> (u32 \<times> kernel) option" where
  "shm_create offset len s =
     (if offset \<ge> 0xE0000000 then Some (- 1, s)
      else if len \<ge> 0x10000000 then Some (- 1, s)
      else if offset + len \<ge> 0xE0000000 then Some (- 1, s)
      else do {
        t \<leftarrow> the_thr s (current_thread s);
        p \<leftarrow> the_proc s (th_process t);
        let (seg, s) = shmseg_make len (th_process t) s;
        (_, s) \<leftarrow> seg_map seg (pagedir p) offset s;
        Some (0, s) })"

definition shm_delete :: "u32 \<Rightarrow> kernel \<Rightarrow> (u32 \<times> kernel) option" where
  "shm_delete offset s = do {
     t \<leftarrow> the_thr s (current_thread s);
     m \<leftarrow> shmseg_getByOff (th_process t) offset s;
     if m = 0 then Some (- 1, s) else do { s \<leftarrow> seg_unmap m s; Some (0, s) } }"

section \<open>What changes only pages\<close>

definition pages_only :: "kernel \<Rightarrow> kernel \<Rightarrow> bool" where
  "pages_only s s' \<longleftrightarrow> (\<exists>m f t. s' = s\<lparr>mpresent := m, frames := f, ptables := t\<rparr>)"

lemma pages_only_refl [simp]: "pages_only s s"
  unfolding pages_only_def by (intro exI[of _ "mpresent s"] exI[of _ "frames s"] exI[of _ "ptables s"]) simp

lemma pages_only_trans: "pages_only s s' \<Longrightarrow> pages_only s' s'' \<Longrightarrow> pages_only s s''"
  unfolding pages_only_def by (elim exE) (simp, blast)

lemma pages_only_fields:
  "pages_only s s' \<Longrightarrow> segs s' = segs s" "pages_only s s' \<Longrightarrow> segmaps s' = segmaps s" "pages_only s s' \<Longrightarrow> pdirs s' = pdirs s"
  "pages_only s s' \<Longrightarrow> freed_ptrs s' = freed_ptrs s" "pages_only s s' \<Longrightarrow> procs s' = procs s" "pages_only s s' \<Longrightarrow> thrs s' = thrs s"
  "pages_only s s' \<Longrightarrow> current_pagedir s' = current_pagedir s"
  by (auto simp: pages_only_def)

lemma pages_onlyI: "s' = s\<lparr>mpresent := mpresent s', frames := frames s', ptables := ptables s'\<rparr> \<Longrightarrow> pages_only s s'"
  unfolding pages_only_def by blast

lemma set_page_only: "set_page r p s = Some s' \<Longrightarrow> pages_only s s'"
  by (rule pages_onlyI) (auto simp: set_page_def mmu_def split: bind_splits intro!: kernel.equality)

lemma frame_free_only: "frame_free f s = Some s' \<Longrightarrow> pages_only s s'"
  by (rule pages_onlyI) (auto simp: frame_free_def split: bind_splits intro!: kernel.equality)

lemma page_unmapFree_only: "page_unmapFree pg s = Some s' \<Longrightarrow> pages_only s s'"
  by (auto simp: page_unmapFree_def split: option.splits bind_splits if_splits
      intro: set_page_only pages_only_trans[OF frame_free_only set_page_only])

lemma page_unmap_only: "page_unmap pg s = Some s' \<Longrightarrow> pages_only s s'"
  by (auto simp: page_unmap_def split: option.splits bind_splits intro: set_page_only)

lemma getPage_nomake: "pagedir_getPage pd a False s = Some (pg, s') \<Longrightarrow> s' = s"
  by (auto simp: pagedir_getPage_def getPage_with_def Let_def split: bind_splits if_splits)

lemma unmapFree_range_only:
  assumes "unmapFree_range pd i e s = Some s'"
  shows "pages_only s s'"
  by (rule unmapFree_range.raw_induct[where P = "\<lambda>pd i e s s'. pages_only s s'", OF _ assms])
    (auto split: if_splits bind_splits dest!: getPage_nomake page_unmapFree_only, blast intro: pages_only_trans)

lemma unmap_range_only:
  assumes "unmap_range pd st i l s = Some s'"
  shows "pages_only s s'"
  by (rule unmap_range.raw_induct[where P = "\<lambda>pd st i l s s'. pages_only s s'", OF _ assms])
    (auto split: if_splits bind_splits dest!: getPage_nomake page_unmap_only, blast intro: pages_only_trans)

section \<open>Unmapping pages never fails\<close>

text \<open>The tables of the directory exist, and the frames in page tables are frames that the bitmap covers.\<close>

definition pages_wf :: "kernel \<Rightarrow> ptr \<Rightarrow> bool" where
  "pages_wf s pd \<longleftrightarrow> (\<exists>d. the_pd s pd = Some d \<and> (\<forall>i. pd_tables d i \<noteq> 0 \<longrightarrow> ptables s (pd_tables d i) \<noteq> None))
     \<and> (\<forall>tb t j. ptables s tb = Some t \<longrightarrow> pg_frame (t j) = 0 \<or> unat (pg_frame (t j)) < 32 * length (bits (frames s)))"

lemma pages_wf_cong: "pdirs s' = pdirs s \<Longrightarrow> ptables s' = ptables s \<Longrightarrow> frames s' = frames s \<Longrightarrow> pages_wf s' pd = pages_wf s pd"
  by (simp add: pages_wf_def the_pd_def)

lemma page_unmapFree_total:
  assumes wf: "pages_wf s pd" and r: "get_page s (tb, j) = Some pg"
  shows "\<exists>s'. page_unmapFree (Some (tb, j)) s = Some s' \<and> pages_wf s' pd"
proof -
  obtain t where t: "ptables s tb = Some t" "pg = t j" using r by (auto simp: get_page_def split: bind_splits)
  have "\<exists>b. (if pg_frame pg \<noteq> 0 then frame_free (pg_frame pg) s else Some s) = Some (s\<lparr>frames := b\<rparr>) \<and> length (bits b) = length (bits (frames s))"
  proof (cases "pg_frame pg = 0")
    case False
    then have "unat (pg_frame pg) < 32 * length (bits (frames s))" using wf t by (auto simp: pages_wf_def)
    then show ?thesis using bitset_clear_used[of "pg_frame pg" "frames s"] False by (auto simp: frame_free_def)
  qed (auto intro!: exI[of _ "frames s"])
  then obtain b where b: "(if pg_frame pg \<noteq> 0 then frame_free (pg_frame pg) s else Some s) = Some (s\<lparr>frames := b\<rparr>)" "length (bits b) = length (bits (frames s))"
    by blast
  define s' where "s' = mmu (s\<lparr>frames := b, ptables := (ptables s)(tb \<mapsto> t(j := pg\<lparr>pg_frame := 0, pg_present := False\<rparr>))\<rparr>)"
  have f: "the_pd s' = the_pd s" "ptables s' = (ptables s)(tb \<mapsto> t(j := pg\<lparr>pg_frame := 0, pg_present := False\<rparr>))" "frames s' = b"
    by (simp_all add: s'_def mmu_def)
  have "page_unmapFree (Some (tb, j)) s = Some s'"
    unfolding page_unmapFree_def option.case r Option.bind_lunit b(1) using t by (simp add: set_page_def s'_def)
  moreover have "pages_wf s' pd" using wf t b(2) unfolding pages_wf_def f by (auto split: if_splits)
  ultimately show ?thesis by blast
qed

lemma unmapFree_range_total:
  "pages_wf s pd \<Longrightarrow> unat e \<le> 0xFFFFF000 \<Longrightarrow> \<exists>s'. unmapFree_range pd i e s = Some s' \<and> pages_wf s' pd"
proof (induction "unat e - unat i" arbitrary: i s rule: less_induct)
  case less
  show ?case
  proof (cases "i < e")
    case True
    obtain d where d: "the_pd s pd = Some d" "\<And>i. pd_tables d i \<noteq> 0 \<Longrightarrow> ptables s (pd_tables d i) \<noteq> None"
      using less.prems(1) by (auto simp: pages_wf_def)
    have "\<exists>pg s1. pagedir_getPage pd i False s = Some (pg, s) \<and> page_unmapFree pg s = Some s1 \<and> pages_wf s1 pd"
    proof (cases "pd_tables d (unat i div 4096 div 1024) = 0")
      case False
      then obtain t where "ptables s (pd_tables d (unat i div 4096 div 1024)) = Some t" using d(2) by blast
      then have "get_page s (pd_tables d (unat i div 4096 div 1024), unat i div 4096 mod 1024) = Some (t (unat i div 4096 mod 1024))" by (simp add: get_page_def)
      then show ?thesis using page_unmapFree_total[OF less.prems(1)] d(1) False by (simp add: pagedir_getPage_def getPage_with_def Let_def)
    qed (use d less.prems(1) in \<open>simp add: pagedir_getPage_def getPage_with_def page_unmapFree_def\<close>)
    then obtain pg s1 where s1: "pagedir_getPage pd i False s = Some (pg, s)" "page_unmapFree pg s = Some s1" "pages_wf s1 pd" by blast
    have lt: "unat i < unat e" using True by (simp add: word_less_nat_alt)
    then have "unat i + unat (0x1000 :: u32) < 4294967296" using less.prems(2) by simp
    from unat_add_u32[OF this] have "unat e - unat (i + 0x1000) < unat e - unat i" using lt by simp
    then obtain s' where "unmapFree_range pd (i + 0x1000) e s1 = Some s'" "pages_wf s' pd" using less.hyps[OF _ s1(3) less.prems(2)] by blast
    then show ?thesis using True s1 by (subst unmapFree_range.simps) simp
  next
    case False
    then show ?thesis using less.prems(1) by (subst unmapFree_range.simps) simp
  qed
qed

section \<open>The list of mappings\<close>

abbreviation map_path :: "(ptr \<rightharpoonup> segment_map) \<Rightarrow> ptr \<Rightarrow> ptr list \<Rightarrow> bool" where
  "map_path \<equiv> linked sm_next"

lemma find_before_ok:
  assumes "map_path (segmaps s) p (xs @ b # t # ys)" and "distinct (xs @ b # t # ys)"
  shows "find_before s p t = Some b"
  using assms
proof (induction xs arbitrary: p)
  case Nil
  then show ?case by (subst find_before.simps) (auto simp: the_map_def)
next
  case (Cons a xs)
  then obtain sm where sm: "segmaps s a = Some sm" "map_path (segmaps s) (sm_next sm) (xs @ b # t # ys)" "p = a" "a \<noteq> 0" by auto
  have "sm_next sm \<noteq> 0" "sm_next sm \<noteq> t" using sm(2) Cons.prems(2) by (cases xs; auto)+
  then show ?case using Cons.IH[OF sm(2)] Cons.prems(2) sm by (subst find_before.simps) (simp add: the_map_def)
qed

definition maps_of :: "kernel \<Rightarrow> ptr \<Rightarrow> ptr list \<Rightarrow> bool" where
  "maps_of s pd ms \<longleftrightarrow> (\<exists>d. the_pd s pd = Some d \<and> map_path (segmaps s) (pd_mappedSegs d) ms \<and> distinct ms)"

lemma unlink_map_ok:
  assumes "maps_of s pd (xs @ t # ys)" and "segmaps s t = Some tm" and "sm_pagedir tm = pd"
  shows "\<exists>s'. unlink_map t tm s = Some s' \<and> maps_of s' pd (xs @ ys) \<and> segs s' = segs s \<and> freed_ptrs s' = freed_ptrs s"
proof -
  obtain d where d: "the_pd s pd = Some d" "map_path (segmaps s) (pd_mappedSegs d) (xs @ t # ys)" "distinct (xs @ t # ys)"
    using assms(1) by (auto simp: maps_of_def)
  have pd0: "pd \<noteq> 0" using d(1) by (auto simp: the_pd_def split: if_splits)
  show ?thesis
  proof (cases xs rule: rev_cases)
    case Nil
    then have "pd_mappedSegs d = t" "t \<noteq> 0" "map_path (segmaps s) (sm_next tm) ys" using d(2) assms(2) by auto
    then show ?thesis using d assms pd0 Nil
      by (auto simp: unlink_map_def upd_pd_def the_map_def maps_of_def the_pd_def)
  next
    case (snoc xs' b)
    have path: "map_path (segmaps s) (pd_mappedSegs d) (xs' @ b # t # ys)" "distinct (xs' @ b # t # ys)" using d snoc by simp_all
    obtain bm where bm: "segmaps s b = Some bm" "b \<noteq> 0" "sm_next bm = t"
      using linked_next[OF path(1)] by blast
    have ne: "pd_mappedSegs d \<noteq> t" using path by (cases xs') auto
    have "find_before s (pd_mappedSegs d) t = Some b" by (rule find_before_ok[OF path])
    then have "unlink_map t tm s = Some (s\<lparr>segmaps := (segmaps s)(b \<mapsto> bm\<lparr>sm_next := sm_next tm\<rparr>)\<rparr>)"
      using d(1) assms ne bm by (simp add: unlink_map_def upd_map_def the_map_def)
    then show ?thesis using d(1) linked_unlink[OF path(1) assms(2), of "bm\<lparr>sm_next := sm_next tm\<rparr>"] path(2) snoc by (auto simp: maps_of_def the_pd_def)
  qed
qed

lemma seg_unmap_ok:
  assumes "maps_of s pd (xs @ t # ys)" and "segmaps s t = Some tm" and "sm_pagedir tm = pd"
    and "the_seg s (sm_seg tm) = Some sg" and "sg_data sg = SimpleSeg ss" and "pages_wf s pd" and "unat (sm_start tm + sm_len tm) \<le> 0xFFFFF000"
    and "t \<noteq> 0" and "sg_dataAt sg \<noteq> 0"
  shows "\<exists>s'. seg_unmap t s = Some s' \<and> maps_of s' pd (xs @ ys)
     \<and> segs s' (sm_seg tm) = Some (sg\<lparr>sg_mappings := sg_mappings sg - 1\<rparr>)
     \<and> freed_ptrs s' = freed_ptrs s \<union> {t} \<union> (if sg_mappings sg = 1 then {sg_dataAt sg, sm_seg tm} else {})"
proof -
  obtain s1 where u: "simpleseg_unmap tm s = Some s1" "pages_wf s1 pd"
    using unmapFree_range_total[OF assms(6,7)] assms(3) by (auto simp: simpleseg_unmap_def)
  have po: "pages_only s s1" using u(1) unmapFree_range_only by (auto simp: simpleseg_unmap_def)
  note f = pages_only_fields[OF po]
  have m1: "maps_of s1 pd (xs @ t # ys)" using assms(1) f by (auto simp: maps_of_def the_pd_def split: if_splits)
  obtain s2 where s2: "unlink_map t tm s1 = Some s2" "maps_of s2 pd (xs @ ys)" "segs s2 = segs s1" "freed_ptrs s2 = freed_ptrs s1"
    using unlink_map_ok[OF m1 _ assms(3)] assms(2) f by auto
  have sg0: "sm_seg tm \<noteq> 0" "segs s (sm_seg tm) = Some sg" using assms(4) by (auto simp: the_seg_def split: if_splits)
  have tm: "the_map s t = Some tm" using assms(2,8) by (simp add: the_map_def)
  let ?s3 = "s2\<lparr>segs := (segs s2)(sm_seg tm \<mapsto> sg\<lparr>sg_mappings := sg_mappings sg - 1\<rparr>)\<rparr>"
  let ?s4 = "kfree_ptr t (if sg_mappings sg = 1 then kfree_ptr (sm_seg tm) (kfree_ptr (sg_dataAt sg) ?s3) else ?s3)"
  have "seg_unmap t s = Some ?s4"
    using tm assms(4,5) u(1) s2 sg0 f by (simp add: seg_unmap_def upd_seg_def the_seg_def simpleseg_delete_def)
  moreover have "maps_of ?s4 pd (xs @ ys)" using s2(2) by (auto simp: maps_of_def the_pd_def kfree_ptr_def split: if_splits)
  ultimately show ?thesis using sg0 s2 f assms(8,9) by (intro exI[of _ ?s4]) (auto simp: kfree_ptr_def)
qed

subsection \<open>Shared segments\<close>

lemma page_unmap_total:
  assumes wf: "pages_wf s pd" and r: "get_page s (tb, j) = Some pg"
  shows "\<exists>s'. page_unmap (Some (tb, j)) s = Some s' \<and> pages_wf s' pd \<and> frames s' = frames s"
proof -
  obtain t where t: "ptables s tb = Some t" "pg = t j" using r by (auto simp: get_page_def split: bind_splits)
  define s' where "s' = mmu (s\<lparr>ptables := (ptables s)(tb \<mapsto> t(j := pg\<lparr>pg_frame := 0, pg_present := False\<rparr>))\<rparr>)"
  have f: "the_pd s' = the_pd s" "ptables s' = (ptables s)(tb \<mapsto> t(j := pg\<lparr>pg_frame := 0, pg_present := False\<rparr>))" "frames s' = frames s"
    by (simp_all add: s'_def mmu_def)
  have "page_unmap (Some (tb, j)) s = Some s'" using r t by (simp add: page_unmap_def set_page_def s'_def)
  moreover have "pages_wf s' pd" using wf t unfolding pages_wf_def f by (auto split: if_splits)
  ultimately show ?thesis using f(3) by blast
qed

lemma unmap_range_total:
  "pages_wf s pd \<Longrightarrow> unat l \<le> 0xFFFFF000 \<Longrightarrow> \<exists>s'. unmap_range pd st i l s = Some s' \<and> pages_wf s' pd \<and> frames s' = frames s"
proof (induction "unat l - unat i" arbitrary: i s rule: less_induct)
  case less
  show ?case
  proof (cases "i < l")
    case True
    obtain d where d: "the_pd s pd = Some d" "\<And>i. pd_tables d i \<noteq> 0 \<Longrightarrow> ptables s (pd_tables d i) \<noteq> None"
      using less.prems(1) by (auto simp: pages_wf_def)
    let ?n = "unat (st + i) div 4096"
    have "\<exists>pg s1. pagedir_getPage pd (st + i) False s = Some (pg, s) \<and> page_unmap pg s = Some s1 \<and> pages_wf s1 pd \<and> frames s1 = frames s"
    proof (cases "pd_tables d (?n div 1024) = 0")
      case False
      then obtain t where "ptables s (pd_tables d (?n div 1024)) = Some t" using d(2) by blast
      then have "get_page s (pd_tables d (?n div 1024), ?n mod 1024) = Some (t (?n mod 1024))" by (simp add: get_page_def)
      then show ?thesis using page_unmap_total[OF less.prems(1)] d(1) False by (simp add: pagedir_getPage_def getPage_with_def Let_def)
    qed (use d less.prems(1) in \<open>simp add: pagedir_getPage_def getPage_with_def page_unmap_def\<close>)
    then obtain pg s1 where s1: "pagedir_getPage pd (st + i) False s = Some (pg, s)" "page_unmap pg s = Some s1" "pages_wf s1 pd" "frames s1 = frames s" by blast
    have lt: "unat i < unat l" using True by (simp add: word_less_nat_alt)
    then have "unat i + unat (0x1000 :: u32) < 4294967296" using less.prems(2) by simp
    from unat_add_u32[OF this] have "unat l - unat (i + 0x1000) < unat l - unat i" using lt by simp
    from less.hyps[OF this s1(3) less.prems(2)] s1(4) obtain s' where "unmap_range pd st (i + 0x1000) l s1 = Some s'" "pages_wf s' pd" "frames s' = frames s" by auto
    then show ?thesis using True s1 by (subst unmap_range.simps) simp
  next
    case False
    then show ?thesis using less.prems(1) by (subst unmap_range.simps) simp
  qed
qed

lemma free_frames_total:
  "\<forall>f\<in>set fs. f = 0 \<or> unat f < 32 * length (bits (frames s)) \<Longrightarrow>
     \<exists>b. free_frames_list fs s = Some (s\<lparr>frames := b\<rparr>) \<and> bs_used b = bs_used (frames s) - unat ` (set fs - {0})"
proof (induction fs arbitrary: s)
  case Nil
  then show ?case by (auto intro!: exI[of _ "frames s"])
next
  case (Cons f fs)
  have "\<exists>b. (if f \<noteq> 0 then frame_free f s else Some s) = Some (s\<lparr>frames := b\<rparr>) \<and> bs_used b = bs_used (frames s) - unat ` ({f} - {0}) \<and> length (bits b) = length (bits (frames s))"
  proof (cases "f = 0")
    case False
    then show ?thesis using bitset_clear_used[of f "frames s"] Cons.prems by (auto simp: frame_free_def)
  qed (auto intro!: exI[of _ "frames s"])
  then obtain b where b: "(if f \<noteq> 0 then frame_free f s else Some s) = Some (s\<lparr>frames := b\<rparr>)" "bs_used b = bs_used (frames s) - unat ` ({f} - {0})"
    "length (bits b) = length (bits (frames s))" by blast
  from Cons.IH[of "s\<lparr>frames := b\<rparr>"] Cons.prems b(3) obtain c where
    "free_frames_list fs (s\<lparr>frames := b\<rparr>) = Some (s\<lparr>frames := c\<rparr>)" "bs_used c = bs_used b - unat ` (set fs - {0})" by auto
  moreover have "set (f # fs) - {0} = ({f} - {0}) \<union> (set fs - {0})" by auto
  then have "bs_used (frames s) - unat ` (set (f # fs) - {0}) = bs_used (frames s) - unat ` ({f} - {0}) - unat ` (set fs - {0})" by (simp only: image_Un) blast
  ultimately show ?case using b(1,2) by (simp only: free_frames_list.simps Option.bind_lunit) blast
qed

text \<open>The page at an address is not mapped in a directory.\<close>

definition no_page :: "kernel \<Rightarrow> ptr \<Rightarrow> u32 \<Rightarrow> bool" where
  "no_page s pd a \<longleftrightarrow> (\<exists>d. the_pd s pd = Some d \<and> (pd_tables d (unat a div 4096 div 1024) = 0
     \<or> (\<exists>p. get_page s (pd_tables d (unat a div 4096 div 1024), unat a div 4096 mod 1024) = Some p \<and> pg_frame p = 0 \<and> \<not> pg_present p)))"

text \<open>One step of the two loops: the page is cleared, and no page becomes mapped.\<close>

definition clears :: "ptr \<Rightarrow> u32 \<Rightarrow> kernel \<Rightarrow> kernel \<Rightarrow> bool" where
  "clears pd a s s' \<longleftrightarrow> no_page s' pd a \<and> (\<forall>b. no_page s pd b \<longrightarrow> no_page s' pd b)"

lemma set_page_clears:
  assumes "pagedir_getPage pd a False s = Some (Some r, s)" and "set_page r (p\<lparr>pg_frame := 0, pg_present := False\<rparr>) s' = Some s''"
    and "pdirs s' = pdirs s" and "ptables s' = ptables s"
  shows "clears pd a s s''"
proof -
  from assms(1) obtain d where d: "the_pd s pd = Some d" "r = (pd_tables d (unat a div 4096 div 1024), unat a div 4096 mod 1024)"
    by (auto simp: pagedir_getPage_def getPage_with_def Let_def split: bind_splits if_splits)
  from assms(2) obtain t where t: "ptables s (fst r) = Some t" "s'' = mmu (s'\<lparr>ptables := (ptables s)(fst r \<mapsto> t(snd r := p\<lparr>pg_frame := 0, pg_present := False\<rparr>))\<rparr>)"
    using assms(4) by (auto simp: set_page_def split: bind_splits)
  have f: "the_pd s'' pd = the_pd s pd" "get_page s'' x = (if x = r then Some (p\<lparr>pg_frame := 0, pg_present := False\<rparr>) else get_page s x)" for x
    using assms(3,4) t by (cases x; cases r; auto simp: t(2) mmu_def the_pd_def get_page_def)+
  show ?thesis using d by (auto simp: clears_def no_page_def f)
qed

lemma unmapFree_clears: "pagedir_getPage pd a False s = Some (pg, s) \<Longrightarrow> page_unmapFree pg s = Some s' \<Longrightarrow> clears pd a s s'"
proof (cases pg)
  case None
  assume "pagedir_getPage pd a False s = Some (pg, s)" "page_unmapFree pg s = Some s'"
  then show ?thesis using None by (auto simp: page_unmapFree_def clears_def no_page_def pagedir_getPage_def getPage_with_def Let_def split: bind_splits if_splits)
next
  case (Some r)
  assume a: "pagedir_getPage pd a False s = Some (pg, s)" "page_unmapFree pg s = Some s'"
  from a(2) Some obtain p s1 where s1: "(if pg_frame p \<noteq> 0 then frame_free (pg_frame p) s else Some s) = Some s1"
     "set_page r (p\<lparr>pg_frame := 0, pg_present := False\<rparr>) s1 = Some s'" by (auto simp: page_unmapFree_def split: bind_splits)
  then have "pdirs s1 = pdirs s" "ptables s1 = ptables s" by (auto simp: frame_free_def split: if_splits bind_splits)
  then show ?thesis using set_page_clears[OF a(1)[unfolded Some] s1(2)] by blast
qed

lemma unmap_clears: "pagedir_getPage pd a False s = Some (pg, s) \<Longrightarrow> page_unmap pg s = Some s' \<Longrightarrow> clears pd a s s'"
proof (cases pg)
  case None
  assume "pagedir_getPage pd a False s = Some (pg, s)" "page_unmap pg s = Some s'"
  then show ?thesis using None by (auto simp: page_unmap_def clears_def no_page_def pagedir_getPage_def getPage_with_def Let_def split: bind_splits if_splits)
next
  case (Some r)
  assume a: "pagedir_getPage pd a False s = Some (pg, s)" "page_unmap pg s = Some s'"
  from a(2) Some obtain p where "set_page r (p\<lparr>pg_frame := 0, pg_present := False\<rparr>) s = Some s'" by (auto simp: page_unmap_def split: bind_splits)
  then show ?thesis using set_page_clears[OF a(1)[unfolded Some]] by blast
qed

lemma next_address:
  fixes i e :: u32
  assumes "unat i + 4096 * Suc k < unat e"
  shows "unat (i + 0x1000) + 4096 * k < unat e" "i + of_nat (4096 * Suc k) = i + 0x1000 + of_nat (4096 * k)"
proof -
  have "unat i + 4096 < 4294967296" using assms unat_u32_less[of e] unfolding mult_Suc_right by linarith
  then have "unat (i + 0x1000) = unat i + 4096" by (subst unat_add_u32) simp_all
  then show "unat (i + 0x1000) + 4096 * k < unat e" using assms by simp
  show "i + of_nat (4096 * Suc k) = i + 0x1000 + of_nat (4096 * k)" by (simp add: algebra_simps)
qed

lemma unmapFree_range_clears:
  assumes "unmapFree_range pd i e s = Some s'"
  shows "(\<forall>b. no_page s pd b \<longrightarrow> no_page s' pd b) \<and> (\<forall>k. unat i + 4096 * k < unat e \<longrightarrow> no_page s' pd (i + of_nat (4096 * k)))"
proof (rule unmapFree_range.raw_induct[where P = "\<lambda>pd i e s s'. (\<forall>b. no_page s pd b \<longrightarrow> no_page s' pd b) \<and> (\<forall>k. unat i + 4096 * k < unat e \<longrightarrow> no_page s' pd (i + of_nat (4096 * k)))", OF _ assms])
  fix loop pd and i e :: u32 and s s' :: kernel
  assume IH: "\<And>pd i e s s'. loop pd i e s = Some s' \<Longrightarrow> (\<forall>b. no_page s pd b \<longrightarrow> no_page s' pd b) \<and> (\<forall>k. unat i + 4096 * k < unat e \<longrightarrow> no_page s' pd (i + of_nat (4096 * k)))"
    and st: "(if i < e then do { (pg, s) \<leftarrow> pagedir_getPage pd i False s; s \<leftarrow> page_unmapFree pg s; loop pd (i + 0x1000) e s } else Some s) = Some s'"
  show "(\<forall>b. no_page s pd b \<longrightarrow> no_page s' pd b) \<and> (\<forall>k. unat i + 4096 * k < unat e \<longrightarrow> no_page s' pd (i + of_nat (4096 * k)))"
  proof (cases "i < e")
    case True
    from st True obtain pg s1 where "pagedir_getPage pd i False s = Some (pg, s)" "page_unmapFree pg s = Some s1" and l: "loop pd (i + 0x1000) e s1 = Some s'"
      by (auto split: bind_splits dest: getPage_nomake)
    then have c: "clears pd i s s1" by (blast intro: unmapFree_clears)
    note ih = IH[OF l]
    have "no_page s' pd (i + of_nat (4096 * k))" if "unat i + 4096 * k < unat e" for k
    proof (cases k)
      case (Suc j)
      then show ?thesis using ih next_address(1)[OF that[unfolded Suc]] unfolding Suc next_address(2)[OF that[unfolded Suc]] by blast
    qed (use c ih in \<open>auto simp: clears_def\<close>)
    then show ?thesis using c ih unfolding clears_def by blast
  qed (use st in \<open>auto simp: less_u32\<close>)
qed

lemma unmap_range_clears:
  assumes "unmap_range pd st i l s = Some s'"
  shows "(\<forall>b. no_page s pd b \<longrightarrow> no_page s' pd b) \<and> (\<forall>k. unat i + 4096 * k < unat l \<longrightarrow> no_page s' pd (st + (i + of_nat (4096 * k))))"
proof (rule unmap_range.raw_induct[where P = "\<lambda>pd st i l s s'. (\<forall>b. no_page s pd b \<longrightarrow> no_page s' pd b) \<and> (\<forall>k. unat i + 4096 * k < unat l \<longrightarrow> no_page s' pd (st + (i + of_nat (4096 * k))))", OF _ assms])
  fix loop pd and st i l :: u32 and s s' :: kernel
  assume IH: "\<And>pd st i l s s'. loop pd st i l s = Some s' \<Longrightarrow> (\<forall>b. no_page s pd b \<longrightarrow> no_page s' pd b) \<and> (\<forall>k. unat i + 4096 * k < unat l \<longrightarrow> no_page s' pd (st + (i + of_nat (4096 * k))))"
    and stp: "(if i < l then do { (pg, s) \<leftarrow> pagedir_getPage pd (st + i) False s; s \<leftarrow> page_unmap pg s; loop pd st (i + 0x1000) l s } else Some s) = Some s'"
  show "(\<forall>b. no_page s pd b \<longrightarrow> no_page s' pd b) \<and> (\<forall>k. unat i + 4096 * k < unat l \<longrightarrow> no_page s' pd (st + (i + of_nat (4096 * k))))"
  proof (cases "i < l")
    case True
    from stp True obtain pg s1 where "pagedir_getPage pd (st + i) False s = Some (pg, s)" "page_unmap pg s = Some s1" and l: "loop pd st (i + 0x1000) l s1 = Some s'"
      by (auto split: bind_splits dest: getPage_nomake)
    then have c: "clears pd (st + i) s s1" by (blast intro: unmap_clears)
    note ih = IH[OF l]
    have "no_page s' pd (st + (i + of_nat (4096 * k)))" if "unat i + 4096 * k < unat l" for k
    proof (cases k)
      case (Suc j)
      then show ?thesis using ih next_address(1)[OF that[unfolded Suc]] unfolding Suc next_address(2)[OF that[unfolded Suc]] by blast
    qed (use c ih in \<open>auto simp: clears_def\<close>)
    then show ?thesis using c ih unfolding clears_def by blast
  qed (use stp in \<open>auto simp: less_u32\<close>)
qed

lemma unlink_map_pages:
  assumes "unlink_map t tm s = Some s'"
  shows "frames s' = frames s" "no_page s' pd a = no_page s pd a"
proof -
  have f: "frames s' = frames s \<and> ptables s' = ptables s \<and> map_option pd_tables (the_pd s' pd) = map_option pd_tables (the_pd s pd)"
    using assms by (auto simp: unlink_map_def upd_pd_def upd_map_def the_pd_def split: bind_splits if_splits)
  then show "frames s' = frames s" by blast
  show "no_page s' pd a = no_page s pd a" using f by (cases "the_pd s pd"; cases "the_pd s' pd") (auto simp: no_page_def get_page_def)
qed

lemma frame_free_bits: "frame_free f s = Some s' \<Longrightarrow> length (bits (frames s')) = length (bits (frames s))"
  by (auto simp: frame_free_def bitset_clear_def Let_def split: bind_splits)

lemma unmapFree_bits: "page_unmapFree pg s = Some s' \<Longrightarrow> length (bits (frames s')) = length (bits (frames s))"
  by (auto simp: page_unmapFree_def set_page_def mmu_def split: option.splits bind_splits if_splits dest!: frame_free_bits)

lemma unmapFree_range_bits:
  assumes "unmapFree_range pd i e s = Some s'"
  shows "length (bits (frames s')) = length (bits (frames s))"
  by (rule unmapFree_range.raw_induct[where P = "\<lambda>pd i e s s'. length (bits (frames s')) = length (bits (frames s))", OF _ assms])
    (auto split: if_splits bind_splits dest!: getPage_nomake unmapFree_bits)

lemma seg_pages_unmapped:
  assumes "pages_wf s pd" and "sm_pagedir tm = pd" and "unat (sm_start tm) + unat (sm_len tm) \<le> 0xFFFFF000"
  shows "\<exists>s1. (case sg_data sg of SimpleSeg _ \<Rightarrow> simpleseg_unmap tm s | ShmSeg _ \<Rightarrow> shmseg_unmap tm s) = Some s1 \<and> pages_only s s1
     \<and> length (bits (frames s1)) = length (bits (frames s)) \<and> (\<forall>sh. sg_data sg = ShmSeg sh \<longrightarrow> frames s1 = frames s)
     \<and> (\<forall>k. 4096 * k < unat (sm_len tm) \<longrightarrow> no_page s1 pd (sm_start tm + of_nat (4096 * k)))"
proof (cases "sg_data sg")
  case (SimpleSeg ss)
  have e: "unat (sm_start tm + sm_len tm) = unat (sm_start tm) + unat (sm_len tm)" using assms(3) by (intro unat_add_u32) simp
  then have "unat (sm_start tm + sm_len tm) \<le> 0xFFFFF000" using assms(3) by simp
  from unmapFree_range_total[OF assms(1) this, of "sm_start tm"] obtain s1 where
    s1: "unmapFree_range pd (sm_start tm) (sm_start tm + sm_len tm) s = Some s1" by blast
  have "\<forall>k. 4096 * k < unat (sm_len tm) \<longrightarrow> no_page s1 pd (sm_start tm + of_nat (4096 * k))" using unmapFree_range_clears[OF s1] e by simp
  then show ?thesis using SimpleSeg s1 unmapFree_range_only[OF s1] unmapFree_range_bits[OF s1] assms(2) by (simp add: simpleseg_unmap_def)
next
  case (ShmSeg sh)
  have "unat (sm_len tm) \<le> 0xFFFFF000" using assms(3) by simp
  from unmap_range_total[OF assms(1) this, of "sm_start tm" 0] obtain s1 where
    s1: "unmap_range pd (sm_start tm) 0 (sm_len tm) s = Some s1" "frames s1 = frames s" by blast
  have "\<forall>k. 4096 * k < unat (sm_len tm) \<longrightarrow> no_page s1 pd (sm_start tm + of_nat (4096 * k))" using unmap_range_clears[OF s1(1)] by simp
  then show ?thesis using ShmSeg s1 unmap_range_only[OF s1(1)] assms(2) by (simp add: shmseg_unmap_def)
qed

text \<open>The last steps of \<open>seg_unmap\<close>, and what they free.\<close>

definition seg_ptrs :: "ptr \<Rightarrow> segment \<Rightarrow> ptr set" where
  "seg_ptrs seg sg = {seg, sg_dataAt sg} \<union> (case sg_data sg of SimpleSeg _ \<Rightarrow> {} | ShmSeg sh \<Rightarrow> {sh_framesAt sh})"

definition shm_frames :: "segment \<Rightarrow> nat set" where
  "shm_frames sg = (case sg_data sg of SimpleSeg _ \<Rightarrow> {} | ShmSeg sh \<Rightarrow> unat ` (set (take (unat (sh_len sh div 0x1000)) (sh_frames sh)) - {0}))"

definition seg_known :: "kernel \<Rightarrow> segment \<Rightarrow> bool" where
  "seg_known s sg \<longleftrightarrow> sg_dataAt sg \<noteq> 0 \<and> (\<forall>f\<in>shm_frames sg. f < 32 * length (bits (frames s))) \<and> (\<forall>sh. sg_data sg = ShmSeg sh \<longrightarrow> sh_framesAt sh \<noteq> 0)"

lemma no_page_cong: "pdirs s' = pdirs s \<Longrightarrow> ptables s' = ptables s \<Longrightarrow> no_page s' pd a = no_page s pd a"
  by (simp add: no_page_def get_page_def the_pd_def)

lemma kfree_ptr_fields: "p \<noteq> 0 \<Longrightarrow> freed_ptrs (kfree_ptr p s) = insert p (freed_ptrs s)" "frames (kfree_ptr p s) = frames s" "pdirs (kfree_ptr p s) = pdirs s"
  "ptables (kfree_ptr p s) = ptables s" "segs (kfree_ptr p s) = segs s" "segmaps (kfree_ptr p s) = segmaps s"
  by (simp_all add: kfree_ptr_def)

lemma seg_delete_ok:
  assumes "seg_known s sg"
  shows "\<exists>s'. (case sg_data sg of SimpleSeg ss \<Rightarrow> simpleseg_delete ss s | ShmSeg sh \<Rightarrow> shmseg_delete sh s) = Some s'
     \<and> bs_used (frames s') = bs_used (frames s) - shm_frames sg \<and> segs s' = segs s \<and> segmaps s' = segmaps s \<and> pdirs s' = pdirs s \<and> ptables s' = ptables s
     \<and> freed_ptrs s' = freed_ptrs s \<union> (case sg_data sg of SimpleSeg _ \<Rightarrow> {} | ShmSeg sh \<Rightarrow> {sh_framesAt sh})"
proof (cases "sg_data sg")
  case (SimpleSeg ss)
  then show ?thesis by (simp add: simpleseg_delete_def shm_frames_def)
next
  case (ShmSeg sh)
  let ?fs = "take (unat (sh_len sh div 0x1000)) (sh_frames sh)"
  have "\<forall>f\<in>set ?fs. f = 0 \<or> unat f < 32 * length (bits (frames s))" using assms ShmSeg by (auto simp: seg_known_def shm_frames_def)
  from free_frames_total[OF this] obtain b where "free_frames_list ?fs s = Some (s\<lparr>frames := b\<rparr>)" "bs_used b = bs_used (frames s) - unat ` (set ?fs - {0})" by blast
  then show ?thesis using assms ShmSeg by (auto simp: shmseg_delete_def shm_frames_def seg_known_def kfree_ptr_fields)
qed


lemma seg_map_ok:
  assumes "maps_of s pd ms" and "the_seg s seg = Some sg" and "next_ptr s \<noteq> 0" and "next_ptr s \<notin> set ms"
  shows "\<exists>s' sm. seg_map seg pd off s = Some (next_ptr s, s') \<and> maps_of s' pd (next_ptr s # ms)
     \<and> segs s' seg = Some (sg\<lparr>sg_mappings := sg_mappings sg + 1\<rparr>)
     \<and> segmaps s' (next_ptr s) = Some sm \<and> sm_seg sm = seg \<and> sm_pagedir sm = pd
     \<and> (case sg_data sg of SimpleSeg ss \<Rightarrow> sm_start sm = ss_start ss \<and> sm_len sm = ss_len ss
        | ShmSeg sh \<Rightarrow> sm_start sm = off \<and> sm_len sm = sh_len sh)
     \<and> freed_ptrs s' = freed_ptrs s"
proof -
  obtain d where d: "the_pd s pd = Some d" "map_path (segmaps s) (pd_mappedSegs d) ms" "distinct ms"
    using assms(1) by (auto simp: maps_of_def)
  have nz: "pd \<noteq> 0" "seg \<noteq> 0" "segs s seg = Some sg" "pdirs s pd = Some d"
    using d(1) assms(2) by (auto simp: the_pd_def the_seg_def split: if_splits)
  let ?m = "next_ptr s"
  define st where "st = (case sg_data sg of SimpleSeg ss \<Rightarrow> ss_start ss | ShmSeg sh \<Rightarrow> off)"
  define ln where "ln = (case sg_data sg of SimpleSeg ss \<Rightarrow> ss_len ss | ShmSeg sh \<Rightarrow> sh_len sh)"
  let ?sm = "\<lparr>sm_seg = seg, sm_pagedir = pd, sm_start = st, sm_len = ln, sm_next = pd_mappedSegs d\<rparr>"
  let ?s' = "s\<lparr>next_ptr := ?m + 1, segmaps := (segmaps s)(?m \<mapsto> ?sm),
      segs := (segs s)(seg \<mapsto> sg\<lparr>sg_mappings := sg_mappings sg + 1\<rparr>), pdirs := (pdirs s)(pd \<mapsto> d\<lparr>pd_mappedSegs := ?m\<rparr>)\<rparr>"
  have "seg_map seg pd off s = Some (?m, ?s')"
    using assms(2,3) nz by (cases "sg_data sg")
      (simp_all add: seg_map_def simpleseg_map_def shmseg_map_def new_map_def kmalloc_ptr_def upd_seg_def upd_map_def upd_pd_def
        deref_defs st_def ln_def Let_def)
  moreover have "maps_of ?s' pd (?m # ms)" using d nz assms(3,4) by (simp add: maps_of_def the_pd_def linked_other)
  ultimately show ?thesis by (intro exI[of _ ?s'] exI[of _ ?sm]) (auto simp: st_def ln_def split: segdata.split)
qed

text \<open>
  Mapping a segment puts a new mapping of the segment's range at the head of the page
  directory's list, keeps the other mappings and increments the segment's count.
\<close>

theorem seg_map_correct:
  assumes "maps_of s pd ms" and "the_seg s seg = Some sg" and "next_ptr s \<noteq> 0" and "next_ptr s \<notin> set ms"
  shows "\<exists>s' sm. seg_map seg pd off s = Some (next_ptr s, s') \<and> maps_of s' pd (next_ptr s # ms)
     \<and> segs s' seg = Some (sg\<lparr>sg_mappings := sg_mappings sg + 1\<rparr>)
     \<and> segmaps s' (next_ptr s) = Some sm \<and> sm_seg sm = seg \<and> sm_pagedir sm = pd
     \<and> (case sg_data sg of SimpleSeg ss \<Rightarrow> sm_start sm = ss_start ss \<and> sm_len sm = ss_len ss
        | ShmSeg sh \<Rightarrow> sm_start sm = off \<and> sm_len sm = sh_len sh)"
  using seg_map_ok[OF assms] by blast

definition one_segment :: kernel where
  "one_segment = two_dirs\<lparr>current_pagedir := 11, next_ptr := 30, frames := \<lparr>bits = [0xFFFFFFF1, 0xFFFFFFFE], bsize = 64\<rparr>,
     segs := [20 \<mapsto> \<lparr>sg_data = SimpleSeg \<lparr>ss_writable = True, ss_start = 0x100000, ss_len = 0x2000\<rparr>, sg_dataAt = 19, sg_mappings = 1\<rparr>],
     segmaps := [21 \<mapsto> \<lparr>sm_seg = 20, sm_pagedir = 11, sm_start = 0x100000, sm_len = 0x2000, sm_next = 0\<rparr>],
     ptables := [7 \<mapsto> empty_table],
     pdirs := (pdirs two_dirs)(11 \<mapsto> \<lparr>pd_tables = (\<lambda>_. 0)(0 := 7), pd_tablesPhysical = (\<lambda>_. 0)(0 := 0x4007),
        pd_page = 0, pd_physicalAddr = 0x2000, pd_mappedSegs = 21\<rparr>)\<rparr>"

lemma one_segment_maps: "maps_of one_segment 11 [21]"
  by (simp add: maps_of_def one_segment_def the_pd_def)

theorem seg_map_correct_witness:
  "\<exists>s'. seg_map 20 11 0 one_segment = Some (30, s') \<and> maps_of s' 11 [30, 21]"
proof -
  have "the_seg one_segment 20 = Some \<lparr>sg_data = SimpleSeg \<lparr>ss_writable = True, ss_start = 0x100000, ss_len = 0x2000\<rparr>, sg_dataAt = 19, sg_mappings = 1\<rparr>"
    "next_ptr one_segment = 30" by (simp_all add: one_segment_def the_seg_def)
  then show ?thesis using seg_map_correct[OF one_segment_maps, of 20 _ 0] by fastforce
qed

text \<open>A segment of shared memory with one page, which has frame 5; its only mapping is removed.\<close>

definition shared_segment :: kernel where
  "shared_segment = one_segment\<lparr>segs := [20 \<mapsto> \<lparr>sg_data = ShmSeg \<lparr>sh_len = 0x1000, sh_frames = [5], sh_framesAt = 18, sh_owner = 1\<rparr>, sg_dataAt = 19, sg_mappings = 1\<rparr>],
     segmaps := [21 \<mapsto> \<lparr>sm_seg = 20, sm_pagedir = 11, sm_start = 0x100000, sm_len = 0x1000, sm_next = 0\<rparr>],
     ptables := [7 \<mapsto> empty_table(256 := \<lparr>pg_present = True, pg_rw = True, pg_user = True, pg_frame = 5\<rparr>)]\<rparr>"


section \<open>Page faults\<close>

definition covers :: "kernel \<Rightarrow> u32 \<Rightarrow> ptr \<Rightarrow> bool" where
  "covers s addr m = (case segmaps s m of None \<Rightarrow> False | Some x \<Rightarrow> sm_start x \<le> addr \<and> sm_start x + sm_len x > addr)"

lemma find_seg_ok:
  "map_path (segmaps s) p ms \<Longrightarrow> find_seg s p addr = Some (case filter (covers s addr) ms of [] \<Rightarrow> 0 | m # _ \<Rightarrow> m)"
proof (induction ms arbitrary: p)
  case Nil
  then show ?case by (subst find_seg.simps) simp
next
  case (Cons m ms)
  then obtain sm where "segmaps s m = Some sm" "p = m" "m \<noteq> 0" "map_path (segmaps s) (sm_next sm) ms" by auto
  moreover then have "covers s addr m \<longleftrightarrow> sm_start sm \<le> addr \<and> sm_start sm + sm_len sm > addr" by (simp add: covers_def)
  ultimately show ?case using Cons.IH[of "sm_next sm"] by (subst find_seg.simps) (simp add: the_map_def)
qed

text \<open>
  A page fault at an address that no segment of the current page directory covers is not
  handled and changes nothing.
\<close>

theorem fault_outside:
  assumes "maps_of s (current_pagedir s) ms" and "\<forall>m \<in> set ms. \<not> covers s addr m"
  shows "paging_fault addr err eip s = Some (1, s)"
proof -
  obtain d where d: "the_pd s (current_pagedir s) = Some d" "map_path (segmaps s) (pd_mappedSegs d) ms"
    using assms(1) by (auto simp: maps_of_def)
  have "filter (covers s addr) ms = []" using assms(2) by simp
  then show ?thesis using d(1) find_seg_ok[OF d(2), of addr] by (simp add: paging_fault_def)
qed

theorem fault_outside_witness: "paging_fault 0x200000 2 0x100000 one_segment = Some (1, one_segment)"
proof -
  have "maps_of one_segment (current_pagedir one_segment) [21]" using one_segment_maps by (simp add: one_segment_def)
  then show ?thesis by (rule fault_outside) (simp add: covers_def one_segment_def)
qed

text \<open>
  C17. Demand paging: a page fault at an address covered by a simple segment, a read or a write
  to a writable segment, on a page that is not mapped yet and whose page table exists, is handled by mapping the page to
  a frame that was free, accessible from user mode, and writable as the segment is; no other
  page changes. A write from user code to a read-only segment is refused and changes nothing.
\<close>

theorem fault_simple:
  assumes "maps_of s (current_pagedir s) ms" and "filter (covers s addr) ms = m # rest" and "segmaps s m = Some sm"
    and "m \<noteq> 0" and "the_seg s (sm_seg sm) = Some sg" and "sg_data sg = SimpleSeg ss"
    and "the_pd s (sm_pagedir sm) = Some d" and "pd_tables d (unat addr div 4096 div 1024) \<noteq> 0"
    and "get_page s (pd_tables d (unat addr div 4096 div 1024), unat addr div 4096 mod 1024) = Some p"
    and "pg_frame p = 0" and "\<not> pg_present p" and "frames_ok s" and "n < frame_cap s" and "n \<notin> bs_used (frames s)"
  shows "if (err AND 2 \<noteq> 0 \<and> eip < 0xE0000000) \<and> \<not> ss_writable ss then paging_fault addr err eip s = Some (1, s)
     else \<exists>f s'. paging_fault addr err eip s = Some (0, s') \<and> unat f < frame_cap s \<and> unat f \<notin> bs_used (frames s)
        \<and> bs_used (frames s') = insert (unat f) (bs_used (frames s))
        \<and> get_page s' (pd_tables d (unat addr div 4096 div 1024), unat addr div 4096 mod 1024)
            = Some \<lparr>pg_present = True, pg_rw = ss_writable ss, pg_user = True, pg_frame = f AND 0xFFFFF\<rparr>
        \<and> (\<forall>r'. r' \<noteq> (pd_tables d (unat addr div 4096 div 1024), unat addr div 4096 mod 1024)
             \<longrightarrow> get_page s' r' = get_page s r')"
proof -
  let ?r = "(pd_tables d (unat addr div 4096 div 1024), unat addr div 4096 mod 1024)"
  let ?w = "err AND 2 \<noteq> 0 \<and> eip < 0xE0000000"
  obtain cd where cd: "the_pd s (current_pagedir s) = Some cd" "map_path (segmaps s) (pd_mappedSegs cd) ms"
    using assms(1) by (auto simp: maps_of_def)
  have m: "the_map s m = Some sm" using assms(3,4) by (simp add: the_map_def)
  have pf: "paging_fault addr err eip s = do { (r, s) \<leftarrow> simpleseg_handleFault sm ss addr ?w s; if r \<noteq> 0 then Some (1, s) else Some (0, s) }"
    using cd(1) find_seg_ok[OF cd(2), of addr] assms(2,4,5,6) m by (simp add: paging_fault_def Let_def)
  show ?thesis
  proof (cases "?w \<and> \<not> ss_writable ss")
    case True
    then have "paging_fault addr err eip s = Some (1, s)" by (simp add: pf simpleseg_handleFault_def)
    then show ?thesis using True by simp
  next
    case False
    have pgno: "unat (addr AND 0xFFFFF000) div 4096 = unat addr div 4096"
      unfolding unat_and_high20 by (simp add: minus_mod_eq_mult_div)
    have gp: "pagedir_getPage (sm_pagedir sm) (addr AND 0xFFFFF000) True s = Some (Some ?r, s)"
      using getPage_known[OF assms(7), of "addr AND 0xFFFFF000"] assms(8) pgno by (simp add: pagedir_getPage_def)
    obtain f s1 where f: "frame_alloc s = Some (f, s1)" "unat f < frame_cap s" "unat f \<notin> bs_used (frames s)"
        "bs_used (frames s1) = insert (unat f) (bs_used (frames s))"
      using fp.alloc_ok[OF assms(12,13,14)] by blast
    have "ptables s1 = ptables s" by (subst frame_alloc_frames[OF f(1)]) simp
    then have g1: "get_page s1 = get_page s" by (simp add: get_page_def fun_eq_iff)
    obtain s2 where s2: "page_map (Some ?r) f True (ss_writable ss) s1 = Some s2"
        "get_page s2 ?r = Some \<lparr>pg_present = True, pg_rw = ss_writable ss, pg_user = True, pg_frame = f AND 0xFFFFF\<rparr>"
        "\<forall>r'. r' \<noteq> ?r \<longrightarrow> get_page s2 r' = get_page s1 r'" "frames s2 = frames s1"
      using page_map_ok[of s1 ?r p f True "ss_writable ss"] assms(9,10,11) g1 by auto
    have "paging_fault addr err eip s = Some (0, s2)"
      using False gp assms(9,10) f(1) s2(1) by (auto simp: pf simpleseg_handleFault_def)
    then show ?thesis using False f s2 g1 by auto
  qed
qed

theorem fault_simple_witness:
  "\<exists>f s'. paging_fault 0x100123 2 0x100000 one_segment = Some (0, s') \<and> unat f \<notin> bs_used (frames one_segment)
     \<and> get_page s' (7, 256) = Some \<lparr>pg_present = True, pg_rw = True, pg_user = True, pg_frame = f AND 0xFFFFF\<rparr>"
proof -
  let ?ss = "\<lparr>ss_writable = True, ss_start = 0x100000, ss_len = 0x2000\<rparr>"
  let ?sg = "\<lparr>sg_data = SimpleSeg ?ss, sg_dataAt = 19, sg_mappings = 1\<rparr>"
  let ?sm = "\<lparr>sm_seg = 20, sm_pagedir = 11, sm_start = 0x100000, sm_len = 0x2000, sm_next = 0\<rparr>"
  let ?d = "the (pdirs one_segment 11)"
  let ?p = "\<lparr>pg_present = False, pg_rw = False, pg_user = False, pg_frame = 0\<rparr>"
  have ms: "maps_of one_segment (current_pagedir one_segment) [21]" using one_segment_maps by (simp add: one_segment_def)
  have h: "filter (covers one_segment 0x100123) [21] = 21 # []" "segmaps one_segment 21 = Some ?sm" "(21::nat) \<noteq> 0"
    "the_seg one_segment (sm_seg ?sm) = Some ?sg" "sg_data ?sg = SimpleSeg ?ss"
    "the_pd one_segment (sm_pagedir ?sm) = Some ?d"
    by (simp_all add: covers_def one_segment_def deref_defs)
  have t: "pd_tables ?d (unat (0x100123 :: u32) div 4096 div 1024) = 7" by (simp add: one_segment_def)
  have g: "get_page one_segment (7, unat (0x100123 :: u32) div 4096 mod 1024) = Some ?p"
    by (simp add: one_segment_def get_page_def empty_table_def)
  have f: "frames_ok one_segment" "1 < frame_cap one_segment" "1 \<notin> bs_used (frames one_segment)"
    by (simp_all add: one_segment_def frames_ok_def bs_ok_def frame_cap_def bs_used_def bit_numeral_rec)
  show ?thesis
    using fault_simple[OF ms h(1,2,3,4,5,6) _ _ _ _ f, unfolded t, OF _ g, of 2 "0x100000"] by fastforce
qed

end
