(* ===== verification/Tasking.thy ===== *)
theory Tasking
  imports Paging
begin

text \<open>
  Context switches, blocking and waking up of threads: the first half of
  \<^verbatim>\<open>src/kernel/task/task.c\<close>, with \<open>gdt_setKernelStack\<close> of \<^verbatim>\<open>src/kernel/mem/gdt.c\<close>.

  A call of \<open>tasking_switch\<close> returns twice: at once on another thread, whose saved registers are
  loaded, and later on the calling thread, when it is chosen again. The model takes the
  registers of the calling thread and returns the registers that are loaded; a function that
  blocks is the part up to the switch, and what it does afterwards is a definition of its own.
  A panic and a failed assertion halt the machine and are \<^const>\<open>None\<close>.
\<close>

section \<open>Model\<close>

definition TS_RUNNING :: u8 where "TS_RUNNING = 0"
definition TS_WAKEWAIT :: u8 where "TS_WAKEWAIT = 2"
definition PL_UNKNOWN :: u32 where "PL_UNKNOWN = 4"
definition PL_SERVICE :: u32 where "PL_SERVICE = 2"
definition PL_DRIVER :: u32 where "PL_DRIVER = 1"
definition PL_KERNEL :: u32 where "PL_KERNEL = 0"

lemmas task_consts = TS_RUNNING_def TS_WAKEWAIT_def PL_UNKNOWN_def PL_SERVICE_def PL_DRIVER_def PL_KERNEL_def

record cpu =
  esp :: u32
  ebp :: u32
  eip :: u32

definition gdt_setKernelStack :: "u32 \<Rightarrow> kernel \<Rightarrow> kernel" where
  "gdt_setKernelStack esp0 s = s\<lparr>tss_esp0 := esp0\<rparr>"

text \<open>The two halves of \<open>tasking_switch\<close>: leaving the current thread and entering the next.\<close>

definition leave_current :: "cpu \<Rightarrow> kernel \<Rightarrow> kernel option" where
  "leave_current r s =
     (if current_thread s \<noteq> 0 then do {
        s \<leftarrow> upd_thr (current_thread s) (\<lambda>t. t\<lparr>th_esp := esp r, th_ebp := ebp r, th_eip := eip r\<rparr>) s;
        t \<leftarrow> the_thr s (current_thread s);
        if th_state t = TS_RUNNING then sched_enqueue (current_thread s) s else Some s }
      else Some s)"

definition enter_next :: "kernel \<Rightarrow> (cpu \<times> kernel) option" where
  "enter_next s = do {
     (t, s) \<leftarrow> sched_dequeue s;
     let s = s\<lparr>current_thread := t\<rparr>;
     if t = 0 then None
     else do {
       th \<leftarrow> the_thr s t;
       p \<leftarrow> the_proc s (th_process th);
       s \<leftarrow> pagedir_switch (pagedir p) s;
       let s = gdt_setKernelStack (of_nat (kernelStack_addr th) + kernelStack_size th) s;
       Some (\<lparr>esp = th_esp th, ebp = th_ebp th, eip = th_eip th\<rparr>, s) } }"

definition tasking_switch :: "cpu \<Rightarrow> kernel \<Rightarrow> (cpu \<times> kernel) option" where
  "tasking_switch r s = (if processes s = 0 then None else do { s \<leftarrow> leave_current r s; enter_next s })"

definition thread_goInactive :: "cpu \<Rightarrow> kernel \<Rightarrow> (cpu \<times> kernel) option" where
  "thread_goInactive r s = do {
     s \<leftarrow> upd_thr (current_thread s) (\<lambda>t. t\<lparr>th_state := TS_WAKEWAIT\<rparr>) s;
     tasking_switch r s }"

definition thread_wakeUp :: "ptr \<Rightarrow> kernel \<Rightarrow> kernel option" where
  "thread_wakeUp t s = do {
     th \<leftarrow> the_thr s t;
     if th_state th = TS_WAKEWAIT then do {
       s \<leftarrow> upd_thr t (\<lambda>t. t\<lparr>th_state := TS_RUNNING\<rparr>) s;
       sched_enqueue t s }
     else Some s }"

definition proc_priv :: "kernel \<Rightarrow> u32 option" where
  "proc_priv s =
     (if current_thread s = 0 then Some PL_UNKNOWN
      else do {
        t \<leftarrow> the_thr s (current_thread s);
        if th_process t = 0 then Some PL_UNKNOWN
        else do { p \<leftarrow> the_proc s (th_process t); Some (privilege p) } })"

section \<open>The scheduling invariant\<close>

text \<open>
  A thread is live when it exists and was not freed; it is ready when it is live and running
  and is neither the thread \<open>c\<close> that has the processor nor the idle thread.
\<close>

definition live :: "kernel \<Rightarrow> ptr \<Rightarrow> bool" where
  "live s t \<longleftrightarrow> (\<exists>th. the_thr s t = Some th) \<and> t \<notin> freed_ptrs s"

definition ready :: "ptr \<Rightarrow> kernel \<Rightarrow> ptr \<Rightarrow> bool" where
  "ready c s t \<longleftrightarrow> (\<exists>th. the_thr s t = Some th \<and> th_state th = TS_RUNNING) \<and> t \<notin> freed_ptrs s \<and> t \<noteq> c \<and> t \<noteq> idle_thread s"

definition waiting :: "kernel \<Rightarrow> ptr \<Rightarrow> bool" where
  "waiting s t \<longleftrightarrow> (\<exists>th. the_thr s t = Some th \<and> th_state th = TS_WAKEWAIT)"

definition thr_ok :: "kernel \<Rightarrow> ptr \<Rightarrow> bool" where
  "thr_ok s t \<longleftrightarrow> (\<exists>th p d. the_thr s t = Some th \<and> the_proc s (th_process th) = Some p
     \<and> unat (privilege p) < PRIORITIES \<and> the_pd s (pagedir p) = Some d)"

text \<open>Each queue holds exactly the ready threads of its priority.\<close>

definition sched_inv :: "ptr \<Rightarrow> kernel \<Rightarrow> (nat \<Rightarrow> ptr list) \<Rightarrow> bool" where
  "sched_inv c s Q \<longleftrightarrow> runq s Q \<and> (\<forall>i<PRIORITIES. set (Q i) = {t. ready c s t \<and> PRIORITY s t = Some i})
     \<and> (\<forall>t. live s t \<longrightarrow> thr_ok s t) \<and> live s (idle_thread s) \<and> (c \<noteq> 0 \<longrightarrow> live s c)"

lemma the_thr_nz [simp]: "the_thr s 0 = None"
  by (simp add: the_thr_def)

lemma the_thr_pos: "the_thr s t = Some th \<Longrightarrow> 0 < t"
  by (cases "t = 0") auto

lemma ready_live: "ready c s t \<Longrightarrow> live s t"
  by (auto simp: ready_def live_def)

lemma sched_invD:
  assumes "sched_inv c s Q"
  shows "runq s Q" "i < PRIORITIES \<Longrightarrow> t \<in> set (Q i) \<longleftrightarrow> ready c s t \<and> PRIORITY s t = Some i"
    "live s t \<Longrightarrow> thr_ok s t" "live s (idle_thread s)" "c \<noteq> 0 \<Longrightarrow> live s c"
  using assms by (auto simp: sched_inv_def)

lemma thr_ok_PRIORITY: "thr_ok s t \<Longrightarrow> \<exists>i<PRIORITIES. PRIORITY s t = Some i"
  by (auto simp: thr_ok_def PRIORITY_def)

text \<open>Every ready thread is in some queue, and it is in one queue only.\<close>

lemma sched_inv_ready: "sched_inv c s Q \<Longrightarrow> ready c s t \<Longrightarrow> \<exists>i<PRIORITIES. t \<in> set (Q i)"
  using thr_ok_PRIORITY[OF sched_invD(3)[OF _ ready_live]] sched_invD(2) by metis

text \<open>What scheduling does not depend on.\<close>

lemma sched_frame [simp]:
  "live (sleeping_threads_update f0 s) t = live s t" "ready c (sleeping_threads_update f0 s) t = ready c s t"
  "waiting (sleeping_threads_update f0 s) t = waiting s t" "thr_ok (sleeping_threads_update f0 s) t = thr_ok s t"
  "PRIORITY (sleeping_threads_update f0 s) t = PRIORITY s t" "runq (sleeping_threads_update f0 s) Q = runq s Q"
  "live (irq_wakeup_update f1 s) t = live s t" "ready c (irq_wakeup_update f1 s) t = ready c s t"
  "waiting (irq_wakeup_update f1 s) t = waiting s t" "thr_ok (irq_wakeup_update f1 s) t = thr_ok s t"
  "PRIORITY (irq_wakeup_update f1 s) t = PRIORITY s t" "runq (irq_wakeup_update f1 s) Q = runq s Q"
  "live (tick_update f2 s) t = live s t" "ready c (tick_update f2 s) t = ready c s t"
  "waiting (tick_update f2 s) t = waiting s t" "thr_ok (tick_update f2 s) t = thr_ok s t"
  "PRIORITY (tick_update f2 s) t = PRIORITY s t" "runq (tick_update f2 s) Q = runq s Q"
  "live (uptime_update f3 s) t = live s t" "ready c (uptime_update f3 s) t = ready c s t"
  "waiting (uptime_update f3 s) t = waiting s t" "thr_ok (uptime_update f3 s) t = thr_ok s t"
  "PRIORITY (uptime_update f3 s) t = PRIORITY s t" "runq (uptime_update f3 s) Q = runq s Q"
  "live (frequency_update f4 s) t = live s t" "ready c (frequency_update f4 s) t = ready c s t"
  "waiting (frequency_update f4 s) t = waiting s t" "thr_ok (frequency_update f4 s) t = thr_ok s t"
  "PRIORITY (frequency_update f4 s) t = PRIORITY s t" "runq (frequency_update f4 s) Q = runq s Q"
  "live (port_out_update f5 s) t = live s t" "ready c (port_out_update f5 s) t = ready c s t"
  "waiting (port_out_update f5 s) t = waiting s t" "thr_ok (port_out_update f5 s) t = thr_ok s t"
  "PRIORITY (port_out_update f5 s) t = PRIORITY s t" "runq (port_out_update f5 s) Q = runq s Q"
  "live (objs_update f6 s) t = live s t" "ready c (objs_update f6 s) t = ready c s t"
  "waiting (objs_update f6 s) t = waiting s t" "thr_ok (objs_update f6 s) t = thr_ok s t"
  "PRIORITY (objs_update f6 s) t = PRIORITY s t" "runq (objs_update f6 s) Q = runq s Q"
  "live (descs_update f7 s) t = live s t" "ready c (descs_update f7 s) t = ready c s t"
  "waiting (descs_update f7 s) t = waiting s t" "thr_ok (descs_update f7 s) t = thr_ok s t"
  "PRIORITY (descs_update f7 s) t = PRIORITY s t" "runq (descs_update f7 s) Q = runq s Q"
  "live (rqs_update f8 s) t = live s t" "ready c (rqs_update f8 s) t = ready c s t"
  "waiting (rqs_update f8 s) t = waiting s t" "thr_ok (rqs_update f8 s) t = thr_ok s t"
  "PRIORITY (rqs_update f8 s) t = PRIORITY s t" "runq (rqs_update f8 s) Q = runq s Q"
  "live (segs_update f9 s) t = live s t" "ready c (segs_update f9 s) t = ready c s t"
  "waiting (segs_update f9 s) t = waiting s t" "thr_ok (segs_update f9 s) t = thr_ok s t"
  "PRIORITY (segs_update f9 s) t = PRIORITY s t" "runq (segs_update f9 s) Q = runq s Q"
  "live (segmaps_update f10 s) t = live s t" "ready c (segmaps_update f10 s) t = ready c s t"
  "waiting (segmaps_update f10 s) t = waiting s t" "thr_ok (segmaps_update f10 s) t = thr_ok s t"
  "PRIORITY (segmaps_update f10 s) t = PRIORITY s t" "runq (segmaps_update f10 s) Q = runq s Q"
  "live (next_ptr_update f11 s) t = live s t" "ready c (next_ptr_update f11 s) t = ready c s t"
  "waiting (next_ptr_update f11 s) t = waiting s t" "thr_ok (next_ptr_update f11 s) t = thr_ok s t"
  "PRIORITY (next_ptr_update f11 s) t = PRIORITY s t" "runq (next_ptr_update f11 s) Q = runq s Q"
  "live (irq_handlers_update f12 s) t = live s t" "ready c (irq_handlers_update f12 s) t = ready c s t"
  "waiting (irq_handlers_update f12 s) t = waiting s t" "thr_ok (irq_handlers_update f12 s) t = thr_ok s t"
  "PRIORITY (irq_handlers_update f12 s) t = PRIORITY s t" "runq (irq_handlers_update f12 s) Q = runq s Q"
  "live (kstacks_update f13 s) t = live s t" "ready c (kstacks_update f13 s) t = ready c s t"
  "waiting (kstacks_update f13 s) t = waiting s t" "thr_ok (kstacks_update f13 s) t = thr_ok s t"
  "PRIORITY (kstacks_update f13 s) t = PRIORITY s t" "runq (kstacks_update f13 s) Q = runq s Q"
  "live (nextpid_update f14 s) t = live s t" "ready c (nextpid_update f14 s) t = ready c s t"
  "waiting (nextpid_update f14 s) t = waiting s t" "thr_ok (nextpid_update f14 s) t = thr_ok s t"
  "PRIORITY (nextpid_update f14 s) t = PRIORITY s t" "runq (nextpid_update f14 s) Q = runq s Q"
  "live (manager_object_update f15 s) t = live s t" "ready c (manager_object_update f15 s) t = ready c s t"
  "waiting (manager_object_update f15 s) t = waiting s t" "thr_ok (manager_object_update f15 s) t = thr_ok s t"
  "PRIORITY (manager_object_update f15 s) t = PRIORITY s t" "runq (manager_object_update f15 s) Q = runq s Q"
  "live (if_locks_update f16 s) t = live s t" "ready c (if_locks_update f16 s) t = ready c s t"
  "waiting (if_locks_update f16 s) t = waiting s t" "thr_ok (if_locks_update f16 s) t = thr_ok s t"
  "PRIORITY (if_locks_update f16 s) t = PRIORITY s t" "runq (if_locks_update f16 s) Q = runq s Q"
  "live (current_thread_update f17 s) t = live s t" "ready c (current_thread_update f17 s) t = ready c s t"
  "waiting (current_thread_update f17 s) t = waiting s t" "thr_ok (current_thread_update f17 s) t = thr_ok s t"
  "PRIORITY (current_thread_update f17 s) t = PRIORITY s t" "runq (current_thread_update f17 s) Q = runq s Q"
  "live (processes_update f18 s) t = live s t" "ready c (processes_update f18 s) t = ready c s t"
  "waiting (processes_update f18 s) t = waiting s t" "thr_ok (processes_update f18 s) t = thr_ok s t"
  "PRIORITY (processes_update f18 s) t = PRIORITY s t" "runq (processes_update f18 s) Q = runq s Q"
  "live (mpresent_update f19 s) t = live s t" "ready c (mpresent_update f19 s) t = ready c s t"
  "waiting (mpresent_update f19 s) t = waiting s t" "thr_ok (mpresent_update f19 s) t = thr_ok s t"
  "PRIORITY (mpresent_update f19 s) t = PRIORITY s t" "runq (mpresent_update f19 s) Q = runq s Q"
  "live (current_pagedir_update f20 s) t = live s t" "ready c (current_pagedir_update f20 s) t = ready c s t"
  "waiting (current_pagedir_update f20 s) t = waiting s t" "thr_ok (current_pagedir_update f20 s) t = thr_ok s t"
  "PRIORITY (current_pagedir_update f20 s) t = PRIORITY s t" "runq (current_pagedir_update f20 s) Q = runq s Q"
  "live (tss_esp0_update f21 s) t = live s t" "ready c (tss_esp0_update f21 s) t = ready c s t"
  "waiting (tss_esp0_update f21 s) t = waiting s t" "thr_ok (tss_esp0_update f21 s) t = thr_ok s t"
  "PRIORITY (tss_esp0_update f21 s) t = PRIORITY s t" "runq (tss_esp0_update f21 s) Q = runq s Q"
  "live (frames_update f22 s) t = live s t" "ready c (frames_update f22 s) t = ready c s t"
  "waiting (frames_update f22 s) t = waiting s t" "thr_ok (frames_update f22 s) t = thr_ok s t"
  "PRIORITY (frames_update f22 s) t = PRIORITY s t" "runq (frames_update f22 s) Q = runq s Q"
  "live (ptables_update f23 s) t = live s t" "ready c (ptables_update f23 s) t = ready c s t"
  "waiting (ptables_update f23 s) t = waiting s t" "thr_ok (ptables_update f23 s) t = thr_ok s t"
  "PRIORITY (ptables_update f23 s) t = PRIORITY s t" "runq (ptables_update f23 s) Q = runq s Q"
  "live (freepages_update f24 s) t = live s t" "ready c (freepages_update f24 s) t = ready c s t"
  "waiting (freepages_update f24 s) t = waiting s t" "thr_ok (freepages_update f24 s) t = thr_ok s t"
  "PRIORITY (freepages_update f24 s) t = PRIORITY s t" "runq (freepages_update f24 s) Q = runq s Q"
  by (simp_all add: live_def ready_def waiting_def thr_ok_def PRIORITY_def runq_def)

lemma sched_inv_frame [simp]:
  "sched_inv c (sleeping_threads_update f0 s) Q = sched_inv c s Q"
  "sched_inv c (irq_wakeup_update f1 s) Q = sched_inv c s Q"
  "sched_inv c (tick_update f2 s) Q = sched_inv c s Q"
  "sched_inv c (uptime_update f3 s) Q = sched_inv c s Q"
  "sched_inv c (frequency_update f4 s) Q = sched_inv c s Q"
  "sched_inv c (port_out_update f5 s) Q = sched_inv c s Q"
  "sched_inv c (objs_update f6 s) Q = sched_inv c s Q"
  "sched_inv c (descs_update f7 s) Q = sched_inv c s Q"
  "sched_inv c (rqs_update f8 s) Q = sched_inv c s Q"
  "sched_inv c (segs_update f9 s) Q = sched_inv c s Q"
  "sched_inv c (segmaps_update f10 s) Q = sched_inv c s Q"
  "sched_inv c (next_ptr_update f11 s) Q = sched_inv c s Q"
  "sched_inv c (irq_handlers_update f12 s) Q = sched_inv c s Q"
  "sched_inv c (kstacks_update f13 s) Q = sched_inv c s Q"
  "sched_inv c (nextpid_update f14 s) Q = sched_inv c s Q"
  "sched_inv c (manager_object_update f15 s) Q = sched_inv c s Q"
  "sched_inv c (if_locks_update f16 s) Q = sched_inv c s Q"
  "sched_inv c (current_thread_update f17 s) Q = sched_inv c s Q"
  "sched_inv c (processes_update f18 s) Q = sched_inv c s Q"
  "sched_inv c (mpresent_update f19 s) Q = sched_inv c s Q"
  "sched_inv c (current_pagedir_update f20 s) Q = sched_inv c s Q"
  "sched_inv c (tss_esp0_update f21 s) Q = sched_inv c s Q"
  "sched_inv c (frames_update f22 s) Q = sched_inv c s Q"
  "sched_inv c (ptables_update f23 s) Q = sched_inv c s Q"
  "sched_inv c (freepages_update f24 s) Q = sched_inv c s Q"
  by (simp_all add: sched_inv_def)

subsection \<open>What a change of the queues keeps\<close>

lemma queues_only_fields:
  assumes "queues_only s s'"
  shows "procs s' = procs s" "pdirs s' = pdirs s" "idle_thread s' = idle_thread s" "freed_ptrs s' = freed_ptrs s"
    "current_thread s' = current_thread s" "processes s' = processes s" "segmaps s' = segmaps s" "segs s' = segs s"
    "objs s' = objs s" "descs s' = descs s" "rqs s' = rqs s" "sleeping_threads s' = sleeping_threads s"
    "irq_wakeup s' = irq_wakeup s" "next_ptr s' = next_ptr s"
  using assms by (auto simp: queues_only_def)

lemma queues_only_thr:
  assumes "queues_only s s'"
  shows "the_thr s t = None \<longleftrightarrow> the_thr s' t = None"
    "the_thr s t = Some th \<Longrightarrow> \<exists>q. the_thr s' t = Some (th\<lparr>queue_next := q\<rparr>)"
proof -
  have st: "same_threads (thrs s) (thrs s')" using assms by (auto simp: queues_only_def)
  then have "thrs s t = None \<longleftrightarrow> thrs s' t = None" unfolding same_threads_def by (metis domIff)
  then show "the_thr s t = None \<longleftrightarrow> the_thr s' t = None" by (simp add: the_thr_def)
  assume th: "the_thr s t = Some th"
  then have t: "thrs s t = Some th" "t \<noteq> 0" by (auto simp: the_thr_def split: if_splits)
  then obtain th' where th': "thrs s' t = Some th'" using st unfolding same_threads_def by (metis domD domI)
  then have "th'\<lparr>queue_next := 0\<rparr> = th\<lparr>queue_next := 0\<rparr>" using st t unfolding same_threads_def by blast
  then have "th' = th\<lparr>queue_next := queue_next th'\<rparr>" by (cases th, cases th') simp
  then show "\<exists>q. the_thr s' t = Some (th\<lparr>queue_next := q\<rparr>)" using th' t by (metis the_thr_def)
qed

lemma queues_only_PRIORITY:
  assumes "queues_only s s'"
  shows "PRIORITY s' t = PRIORITY s t"
proof (cases "the_thr s t")
  case None
  then show ?thesis using queues_only_thr(1)[OF assms, of t] by (simp add: PRIORITY_def)
next
  case (Some th)
  then show ?thesis using queues_only_thr(2)[OF assms Some] queues_only_fields[OF assms] by (auto simp: PRIORITY_def the_proc_def)
qed

lemma queues_only_preds:
  assumes "queues_only s s'"
  shows "live s' t = live s t" "ready c s' t = ready c s t" "thr_ok s' t = thr_ok s t"
proof -
  note f = queues_only_fields[OF assms]
  have *: "(\<exists>th. the_thr s' t = Some th \<and> P th) \<longleftrightarrow> (\<exists>th. the_thr s t = Some th \<and> P th)"
    if "\<And>th q. P (th\<lparr>queue_next := q\<rparr>) = P th" for P
    using queues_only_thr[OF assms, of t] that by (cases "the_thr s t") fastforce+
  show "live s' t = live s t" using *[of "\<lambda>_. True"] f by (simp add: live_def)
  show "ready c s' t = ready c s t" using *[of "\<lambda>th. th_state th = TS_RUNNING"] f by (simp add: ready_def)
  show "thr_ok s' t = thr_ok s t"
    using *[of "\<lambda>th. \<exists>p d. the_proc s (th_process th) = Some p \<and> unat (privilege p) < PRIORITIES \<and> the_pd s (pagedir p) = Some d"] f
    by (simp add: thr_ok_def deref_cong(1)[OF f(1)] deref_cong(3)[OF f(2)])
qed

text \<open>An update of one thread that keeps its process.\<close>

lemma the_thr_upd: "c \<noteq> 0 \<Longrightarrow> the_thr (s\<lparr>thrs := (thrs s)(c \<mapsto> x)\<rparr>) t = (if t = c then Some x else the_thr s t)"
  by (simp add: the_thr_def)

lemma upd_thr_PRIORITY:
  assumes "the_thr s c = Some th" and "th_process (f th) = th_process th"
  shows "PRIORITY (s\<lparr>thrs := (thrs s)(c \<mapsto> f th)\<rparr>) t = PRIORITY s t"
  using assms by (cases "c = 0") (auto simp: PRIORITY_def the_thr_upd)

lemma upd_thr_thr_ok:
  assumes "the_thr s c = Some th" and "th_process (f th) = th_process th"
  shows "thr_ok (s\<lparr>thrs := (thrs s)(c \<mapsto> f th)\<rparr>) t = thr_ok s t" "live (s\<lparr>thrs := (thrs s)(c \<mapsto> f th)\<rparr>) t = live s t"
  using assms by (cases "c = 0"; auto simp: thr_ok_def live_def the_thr_upd)+

lemma runq_upd_queued:
  assumes "runq s Q" and "thrs s c = Some th" and "queue_next (f th) = queue_next th"
  shows "runq (s\<lparr>thrs := (thrs s)(c \<mapsto> f th)\<rparr>) Q"
proof -
  have "qpath ((thrs s)(c \<mapsto> f th)) p xs" if "qpath (thrs s) p xs" for p xs
    using that by (rule linked_cong[rotated]) (use assms in \<open>auto split: if_splits\<close>)
  then show ?thesis using assms by (simp add: runq_def)
qed

section \<open>What a switch changes\<close>

definition switch_only :: "kernel \<Rightarrow> kernel \<Rightarrow> bool" where
  "switch_only s s' \<longleftrightarrow> (\<exists>m q l c d p e. s' = s\<lparr>thrs := m, rqueue := q, rlast := l, current_thread := c, current_pagedir := d,
     mpresent := p, tss_esp0 := e\<rparr>)"

lemma switch_onlyI:
  "s' = s\<lparr>thrs := thrs s', rqueue := rqueue s', rlast := rlast s', current_thread := current_thread s', current_pagedir := current_pagedir s',
     mpresent := mpresent s', tss_esp0 := tss_esp0 s'\<rparr> \<Longrightarrow> switch_only s s'"
  unfolding switch_only_def by blast

lemma switch_only_refl [simp]: "switch_only s s"
  by (rule switch_onlyI) simp

lemma switch_only_trans: "switch_only s s' \<Longrightarrow> switch_only s' s'' \<Longrightarrow> switch_only s s''"
  unfolding switch_only_def by (elim exE) (simp, blast)

lemma switch_only_fields:
  assumes "switch_only s s'"
  shows "sleeping_threads s' = sleeping_threads s" "irq_wakeup s' = irq_wakeup s" "objs s' = objs s" "descs s' = descs s" "rqs s' = rqs s"
    "segs s' = segs s" "segmaps s' = segmaps s" "procs s' = procs s" "pdirs s' = pdirs s" "freed_ptrs s' = freed_ptrs s" "next_ptr s' = next_ptr s"
    "processes s' = processes s" "idle_thread s' = idle_thread s" "manager_object s' = manager_object s" "if_locks s' = if_locks s"
    "tick s' = tick s" "uptime s' = uptime s" "frequency s' = frequency s" "irq_handlers s' = irq_handlers s" "kernel_process s' = kernel_process s"
    "nextpid s' = nextpid s" "kjunk s' = kjunk s" "kstacks s' = kstacks s" "ptables s' = ptables s" "frames s' = frames s"
  using assms by (auto simp: switch_only_def)

lemma upd_thr_only: "upd_thr t f s = Some s' \<Longrightarrow> switch_only s s'"
  by (rule switch_onlyI) (auto simp: upd_thr_def split: bind_splits intro!: kernel.equality)

lemma enqueue_only: "sched_enqueue t s = Some s' \<Longrightarrow> switch_only s s'"
  by (rule switch_onlyI) (auto simp: sched_enqueue_def sched_enqueueIn_def upd_thr_def split: bind_splits if_splits intro!: kernel.equality)

lemma dequeue_only: "sched_dequeue s = Some (t, s') \<Longrightarrow> switch_only s s'"
proof -
  have 1: "switch_only s s'" if "sched_dequeueFrom i s = Some (t, s')" for i s t s'
    using that by (intro switch_onlyI) (auto simp: sched_dequeueFrom_def Let_def split: if_splits bind_splits intro!: kernel.equality)
  have "dequeue_from i n s = Some (t, s') \<Longrightarrow> switch_only s s'" for i n s t s'
  proof (induction n arbitrary: i s)
    case (Suc n)
    then obtain it s1 where "sched_dequeueFrom i s = Some (it, s1)" by (auto split: bind_splits)
    then show ?case using Suc.IH[of "Suc i" s1] Suc.prems 1[of i s it s1] by (auto split: if_splits intro: switch_only_trans)
  qed simp
  then show "sched_dequeue s = Some (t, s') \<Longrightarrow> ?thesis" by (auto simp: sched_dequeue_def split: bind_splits if_splits)
qed

lemma dequeue_thrs: "sched_dequeue s = Some (t, s') \<Longrightarrow> thrs s' = thrs s"
proof -
  have 1: "thrs s' = thrs s" if "sched_dequeueFrom i s = Some (t, s')" for i s t s'
    using that by (auto simp: sched_dequeueFrom_def Let_def split: if_splits bind_splits)
  have "dequeue_from i n s = Some (t, s') \<Longrightarrow> thrs s' = thrs s" for i n s t s'
  proof (induction n arbitrary: i s)
    case (Suc n)
    then obtain it s1 where "sched_dequeueFrom i s = Some (it, s1)" by (auto split: bind_splits)
    then show ?case using Suc.IH[of "Suc i" s1] Suc.prems 1[of i s it s1] by (auto split: if_splits)
  qed simp
  then show "sched_dequeue s = Some (t, s') \<Longrightarrow> ?thesis" by (auto simp: sched_dequeue_def split: bind_splits if_splits)
qed

lemma enter_thrs: "enter_next s = Some (r, s') \<Longrightarrow> thrs s' = thrs s"
  by (auto simp: enter_next_def pagedir_switch_def gdt_setKernelStack_def mmu_def Let_def dest!: dequeue_thrs split: bind_splits if_splits)

lemma leave_only: "leave_current r s = Some s' \<Longrightarrow> switch_only s s'"
  by (auto simp: leave_current_def split: bind_splits if_splits intro: switch_only_trans dest!: upd_thr_only enqueue_only)

lemma enter_only: "enter_next s = Some (r, s') \<Longrightarrow> switch_only s s'"
proof -
  assume e: "enter_next s = Some (r, s')"
  then obtain t s1 where d: "sched_dequeue s = Some (t, s1)" by (auto simp: enter_next_def split: bind_splits)
  have "switch_only s1 s'"
    using e d by (intro switch_onlyI) (auto simp: enter_next_def pagedir_switch_def gdt_setKernelStack_def mmu_def Let_def
      split: bind_splits if_splits intro!: kernel.equality)
  then show ?thesis using dequeue_only[OF d] switch_only_trans by blast
qed

lemma tasking_switch_only: "tasking_switch r s = Some (r', s') \<Longrightarrow> switch_only s s'"
  by (auto simp: tasking_switch_def split: bind_splits if_splits dest!: leave_only enter_only intro: switch_only_trans)

lemma goInactive_only: "thread_goInactive r s = Some (r', s') \<Longrightarrow> switch_only s s'"
  by (auto simp: thread_goInactive_def split: bind_splits dest!: upd_thr_only tasking_switch_only intro: switch_only_trans)

lemma wakeUp_only: "thread_wakeUp t s = Some s' \<Longrightarrow> switch_only s s'"
  by (auto simp: thread_wakeUp_def split: bind_splits if_splits dest!: upd_thr_only enqueue_only intro: switch_only_trans)

section \<open>Every step keeps the invariant\<close>

text \<open>Entering a ready thread that no queue holds yet.\<close>

lemma sched_inv_add:
  assumes rq: "runq s Q" and Q: "\<And>i x. i < PRIORITIES \<Longrightarrow> x \<in> set (Q i) \<longleftrightarrow> ready c s x \<and> x \<noteq> t \<and> PRIORITY s x = Some i"
    and t: "ready c s t" and ok: "\<And>x. live s x \<Longrightarrow> thr_ok s x" "live s (idle_thread s)" "c \<noteq> 0 \<Longrightarrow> live s c"
  shows "\<exists>s' q. sched_enqueue t s = Some s' \<and> q < PRIORITIES \<and> PRIORITY s t = Some q \<and> sched_inv c s' (Q(q := Q q @ [t])) \<and> queues_only s s'"
proof -
  obtain q where q: "q < PRIORITIES" "PRIORITY s t = Some q" using thr_ok_PRIORITY[OF ok(1)[OF ready_live[OF t]]] by blast
  have "t \<notin> set (Q i)" if "i < PRIORITIES" for i using Q[OF that] by simp
  moreover have "t \<noteq> idle_thread s" using t by (simp add: ready_def)
  ultimately obtain s' where s': "sched_enqueue t s = Some s'" "runq s' (Q(q := Q q @ [t]))" "queues_only s s'"
    using sq.enq_ok[OF rq _ q(2,1)] by blast
  note p = queues_only_preds[OF s'(3)] queues_only_PRIORITY[OF s'(3)] queues_only_fields[OF s'(3)]
  have "set ((Q(q := Q q @ [t])) i) = {x. ready c s' x \<and> PRIORITY s' x = Some i}" if "i < PRIORITIES" for i
  proof (rule set_eqI)
    fix x show "x \<in> set ((Q(q := Q q @ [t])) i) \<longleftrightarrow> x \<in> {x. ready c s' x \<and> PRIORITY s' x = Some i}"
      using Q[OF that, of x] q t by (cases "x = t") (auto simp: p(2,4))
  qed
  then have "sched_inv c s' (Q(q := Q q @ [t]))" using s'(2) ok by (simp add: sched_inv_def p)
  then show ?thesis using s' q by blast
qed

lemma sched_inv_enqueue:
  assumes I: "sched_inv c s Q" and st: "the_thr s c = Some th" "th_state th = TS_RUNNING" and c: "c \<noteq> idle_thread s"
  shows "\<exists>s' q. sched_enqueue c s = Some s' \<and> q < PRIORITIES \<and> PRIORITY s c = Some q
     \<and> sched_inv 0 s' (Q(q := Q q @ [c])) \<and> queues_only s s'"
proof -
  note inv = sched_invD[OF I]
  have l: "live s c" using inv(5) the_thr_pos[OF st(1)] by simp
  have r: "ready 0 s t \<longleftrightarrow> ready c s t \<or> t = c" "\<not> ready c s c" for t
    using st l c by (auto simp: ready_def live_def dest: the_thr_pos)
  show ?thesis
    by (rule sched_inv_add) (use inv r in \<open>auto simp: r\<close>)
qed

text \<open>Updates of a thread or a process that do not matter to the scheduler.\<close>

lemma sched_inv_upd_thr:
  assumes I: "sched_inv c s Q" and th: "the_thr s x = Some th"
    and f: "th_process (f th) = th_process th" "th_state (f th) = th_state th" "queue_next (f th) = queue_next th"
  shows "sched_inv c (s\<lparr>thrs := (thrs s)(x \<mapsto> f th)\<rparr>) Q"
proof -
  let ?s = "s\<lparr>thrs := (thrs s)(x \<mapsto> f th)\<rparr>"
  have x: "x \<noteq> 0" "thrs s x = Some th" using th by (auto simp: the_thr_def split: if_splits)
  have "runq ?s Q" using runq_upd_queued[OF sched_invD(1)[OF I] x(2), of f] f(3) by simp
  moreover have "thr_ok ?s t = thr_ok s t" "live ?s t = live s t" "PRIORITY ?s t = PRIORITY s t" "ready c ?s t = ready c s t" for t
    using th x f upd_thr_thr_ok[of s x th f] upd_thr_PRIORITY[of s x th f] by (simp_all add: ready_def the_thr_upd)
  ultimately show ?thesis using I by (simp add: sched_inv_def)
qed

lemma sched_inv_upd_proc:
  assumes I: "sched_inv c s Q" and p: "the_proc s x = Some p" and f: "privilege (f p) = privilege p" "pagedir (f p) = pagedir p"
  shows "sched_inv c (s\<lparr>procs := (procs s)(x \<mapsto> f p)\<rparr>) Q"
proof -
  let ?s = "s\<lparr>procs := (procs s)(x \<mapsto> f p)\<rparr>"
  have x: "x \<noteq> 0" using p by (auto simp: the_proc_def split: if_splits)
  then have "the_proc ?s y = (if y = x then Some (f p) else the_proc s y)" for y by (simp add: the_proc_def)
  then have "thr_ok ?s t = thr_ok s t" "live ?s t = live s t" "PRIORITY ?s t = PRIORITY s t" "ready c ?s t = ready c s t" for t
    using p f by (auto simp: thr_ok_def live_def PRIORITY_def ready_def split: option.splits bind_splits)
  moreover have "runq ?s Q" using sched_invD(1)[OF I] by (simp add: runq_def)
  ultimately show ?thesis using I by (simp add: sched_inv_def)
qed

lemma sched_inv_leave:
  assumes I: "sched_inv (current_thread s) s Q"
  shows "\<exists>s' Q'. leave_current r s = Some s' \<and> sched_inv 0 s' Q'
     \<and> (case the_thr s (current_thread s) of None \<Rightarrow> s' = s \<and> Q' = Q
        | Some th \<Rightarrow> queues_only (s\<lparr>thrs := (thrs s)(current_thread s \<mapsto> th\<lparr>th_esp := esp r, th_ebp := ebp r, th_eip := eip r\<rparr>)\<rparr>) s'
          \<and> (if th_state th = TS_RUNNING \<and> current_thread s \<noteq> idle_thread s
             then \<exists>q<PRIORITIES. PRIORITY s (current_thread s) = Some q \<and> Q' = Q(q := Q q @ [current_thread s]) else Q' = Q))"
proof (cases "current_thread s = 0")
  case True
  then show ?thesis using I by (auto simp: leave_current_def)
next
  case False
  define c where "c = current_thread s"
  note inv = sched_invD[OF I[folded c_def]]
  obtain th where th: "the_thr s c = Some th" using inv(5) False by (auto simp: live_def c_def)
  define th1 where "th1 = th\<lparr>th_esp := esp r, th_ebp := ebp r, th_eip := eip r\<rparr>"
  define s1 where "s1 = s\<lparr>thrs := (thrs s)(c \<mapsto> th1)\<rparr>"
  have c0: "c \<noteq> 0" "thrs s c = Some th" using th by (auto simp: the_thr_def split: if_splits)
  have t1: "the_thr s1 t = (if t = c then Some th1 else the_thr s t)" for t using c0 by (simp add: s1_def the_thr_upd)
  have ok: "thr_ok s1 t = thr_ok s t" "live s1 t = live s t" "PRIORITY s1 t = PRIORITY s t" for t
    using th upd_thr_thr_ok[of s c th "\<lambda>_. th1"] upd_thr_PRIORITY[of s c th "\<lambda>_. th1"] by (simp_all add: s1_def th1_def)
  have f1: "freed_ptrs s1 = freed_ptrs s" "idle_thread s1 = idle_thread s" by (simp_all add: s1_def)
  have rd: "ready x s1 t = ready x s t" for x t using th by (cases "t = c") (simp_all add: ready_def t1 f1 th1_def)
  have "runq s1 Q" unfolding s1_def by (rule runq_upd_queued[OF inv(1) c0(2)]) (simp add: th1_def)
  then have I1: "sched_inv c s1 Q" using I[folded c_def] unfolding sched_inv_def ok rd by (simp add: s1_def)
  have lc: "leave_current r s = (if th_state th = TS_RUNNING then sched_enqueue c s1 else Some s1)"
  proof -
    have "upd_thr c (\<lambda>t. t\<lparr>th_esp := esp r, th_ebp := ebp r, th_eip := eip r\<rparr>) s = Some s1"
      using th by (simp add: upd_thr_def s1_def th1_def)
    moreover have "current_thread s1 = c" by (simp add: s1_def c_def)
    ultimately show ?thesis unfolding leave_current_def c_def[symmetric] using c0(1) by (simp add: t1) (simp add: th1_def)
  qed
  have ok0: "live s1 (idle_thread s1)" using sched_invD(4)[OF I1] .
  show ?thesis
  proof (cases "th_state th = TS_RUNNING \<and> c \<noteq> idle_thread s")
    case True
    have "the_thr s1 c = Some th1" "th_state th1 = TS_RUNNING" "c \<noteq> idle_thread s1"
      using True by (simp_all add: t1) (simp_all add: th1_def s1_def)
    then obtain s' q where "sched_enqueue c s1 = Some s'" "q < PRIORITIES" "PRIORITY s1 c = Some q"
        "sched_inv 0 s' (Q(q := Q q @ [c]))" "queues_only s1 s'"
      using sched_inv_enqueue[OF I1] by blast
    then show ?thesis using True th lc unfolding c_def[symmetric] ok by (auto simp: s1_def th1_def)
  next
    case False
    have "ready c s1 t \<longleftrightarrow> ready 0 s1 t" for t using False th c0 unfolding rd by (auto simp: ready_def dest: the_thr_pos)
    then have "sched_inv 0 s1 Q" using I1 by (simp add: sched_inv_def)
    moreover have "leave_current r s = Some s1" using False sq.enq_idle[of s1] lc by (auto simp: s1_def)
    ultimately show ?thesis using False th unfolding c_def[symmetric] by (auto simp: s1_def th1_def)
  qed
qed

lemma sched_inv_enter:
  assumes I: "sched_inv 0 s Q"
  shows "\<exists>t th p s' Q'. enter_next s = Some (\<lparr>esp = th_esp th, ebp = th_ebp th, eip = th_eip th\<rparr>, s')
     \<and> the_thr s t = Some th \<and> the_proc s (th_process th) = Some p \<and> current_thread s' = t \<and> sched_inv t s' Q'
     \<and> current_pagedir s' = pagedir p \<and> tss_esp0 s' = of_nat (kernelStack_addr th) + kernelStack_size th
     \<and> ((\<exists>i xs. i < PRIORITIES \<and> Q i = t # xs \<and> (\<forall>j<i. Q j = []) \<and> Q' = Q(i := xs))
        \<or> (\<forall>j<PRIORITIES. Q j = []) \<and> t = idle_thread s \<and> Q' = Q)
     \<and> processes s' = processes s \<and> idle_thread s' = idle_thread s \<and> procs s' = procs s
     \<and> (\<exists>s2. queues_only s s2 \<and> thrs s' = thrs s2)"
proof -
  note inv = sched_invD[OF I]
  obtain t s2 Q' where deq: "sched_dequeue s = Some (t, s2)" "runq s2 Q'" "queues_only s s2"
    and t: "(\<exists>i xs. i < PRIORITIES \<and> Q i = t # xs \<and> (\<forall>j<i. Q j = []) \<and> Q' = Q(i := xs))
        \<or> (\<forall>j<PRIORITIES. Q j = []) \<and> t = idle_thread s \<and> Q' = Q"
    using sq.deq_cases[OF inv(1)] inv(1) by (metis queues_only_refl)
  note p = queues_only_preds[OF deq(3)] queues_only_PRIORITY[OF deq(3)] and f = queues_only_fields[OF deq(3)]
  have lt: "live s t"
    using t
  proof (elim disjE exE conjE)
    fix i xs assume "i < PRIORITIES" "Q i = t # xs"
    then show ?thesis using inv(2)[of i t] ready_live by fastforce
  qed (simp add: inv(4))
  then obtain th pr d where th: "the_thr s t = Some th" "the_proc s (th_process th) = Some pr" "the_pd s (pagedir pr) = Some d"
    using inv(3)[of t] by (auto simp: thr_ok_def)
  obtain q where q: "the_thr s2 t = Some (th\<lparr>queue_next := q\<rparr>)" using queues_only_thr(2)[OF deq(3) th(1)] by blast
  define s3 where "s3 = gdt_setKernelStack (of_nat (kernelStack_addr th) + kernelStack_size th)
     (mmu (s2\<lparr>current_thread := t, current_pagedir := pagedir pr\<rparr>))"
  have s3: "thrs s3 = thrs s2" "procs s3 = procs s" "pdirs s3 = pdirs s" "freed_ptrs s3 = freed_ptrs s" "idle_thread s3 = idle_thread s"
    "processes s3 = processes s" "current_thread s3 = t" "current_pagedir s3 = pagedir pr" "rqueue s3 = rqueue s2" "rlast s3 = rlast s2"
    "tss_esp0 s3 = of_nat (kernelStack_addr th) + kernelStack_size th"
    using f by (simp_all add: s3_def gdt_setKernelStack_def mmu_def)
  have "enter_next s = Some (\<lparr>esp = th_esp th, ebp = th_ebp th, eip = th_eip th\<rparr>, s3)"
    using deq(1) q th the_thr_pos[OF th(1)] deref_cong(1)[OF f(1)] deref_cong(3)[OF f(2)]
    by (simp add: enter_next_def pagedir_switch_def s3_def Let_def)
  moreover have "sched_inv t s3 Q'"
  proof -
    have e: "live s3 x = live s x" "thr_ok s3 x = thr_ok s x" "PRIORITY s3 x = PRIORITY s x" "ready y s3 x = ready y s x" for x y
      using p(1)[of x] p(2)[of y x] p(3)[of x] p(4)[of x] deref_cong(2)[OF s3(1)] deref_cong(1)[of s3 s2] deref_cong(3)[of s3 s2] s3 f
      by (simp_all add: live_def thr_ok_def PRIORITY_def ready_def)
    have "runq s3 Q'" using deq(2) s3 by (simp add: runq_def)
    moreover have "set (Q' i) = {x. ready t s3 x \<and> PRIORITY s3 x = Some i}" if i: "i < PRIORITIES" for i
    proof -
      have "ready t s x \<longleftrightarrow> ready 0 s x \<and> x \<noteq> t" for x by (auto simp: ready_def dest: the_thr_pos)
      moreover have "set (Q' i) = set (Q i) - {t}"
        using t
      proof (elim disjE exE conjE)
        fix k xs assume k: "k < PRIORITIES" "Q k = t # xs" "Q' = Q(k := xs)"
        have "distinct (Q k)" using inv(1) k(1) by (simp add: runq_def)
        moreover have "set (Q i) \<inter> set (Q k) = {}" if "k \<noteq> i" using runq_disjoint[OF inv(1) i k(1) that] .
        ultimately show ?thesis using k by (cases "i = k") auto
      qed (use i in simp)
      ultimately show ?thesis using inv(2)[OF i] unfolding e by auto
    qed
    ultimately show ?thesis using inv(3,4) lt unfolding sched_inv_def e s3(5) by blast
  qed
  ultimately show ?thesis using th t s3 deq(3) by blast
qed

text \<open>A whole switch.\<close>

lemma tasking_switch_ok:
  assumes I: "sched_inv (current_thread s) s Q" and p: "processes s \<noteq> 0"
  shows "\<exists>r' s' Q'. tasking_switch r s = Some (r', s') \<and> sched_inv (current_thread s') s' Q' \<and> processes s' \<noteq> 0"
proof -
  obtain s1 Q1 where s1: "leave_current r s = Some s1" "sched_inv 0 s1 Q1" using sched_inv_leave[OF I] by blast
  then show ?thesis using sched_inv_enter[OF s1(2)] switch_only_fields(12)[OF leave_only[OF s1(1)]] p by (auto simp: tasking_switch_def)
qed

lemma sched_inv_block:
  assumes I: "sched_inv c s Q" and th: "the_thr s c = Some th"
  shows "sched_inv c (s\<lparr>thrs := (thrs s)(c \<mapsto> th\<lparr>th_state := x\<rparr>)\<rparr>) Q"
proof -
  let ?s = "s\<lparr>thrs := (thrs s)(c \<mapsto> th\<lparr>th_state := x\<rparr>)\<rparr>"
  note inv = sched_invD[OF I]
  have c0: "c \<noteq> 0" "thrs s c = Some th" using th by (auto simp: the_thr_def split: if_splits)
  have "runq ?s Q" by (rule runq_upd_queued[OF inv(1) c0(2)]) simp
  moreover have "thr_ok ?s t = thr_ok s t" "live ?s t = live s t" "PRIORITY ?s t = PRIORITY s t" "ready c ?s t = ready c s t" for t
    using th c0 upd_thr_thr_ok[of s c th "\<lambda>th. th\<lparr>th_state := x\<rparr>"] upd_thr_PRIORITY[of s c th "\<lambda>th. th\<lparr>th_state := x\<rparr>"]
    by (simp_all add: ready_def the_thr_upd)
  ultimately show ?thesis using I by (simp add: sched_inv_def)
qed

lemma thread_goInactive_ok:
  assumes I: "sched_inv (current_thread s) s Q" and p: "processes s \<noteq> 0" and c: "current_thread s \<noteq> 0"
  shows "\<exists>r' s' Q'. thread_goInactive r s = Some (r', s') \<and> sched_inv (current_thread s') s' Q' \<and> processes s' \<noteq> 0"
proof -
  obtain th where th: "the_thr s (current_thread s) = Some th" using sched_invD(5)[OF I c] by (auto simp: live_def)
  show ?thesis
    using tasking_switch_ok[of "s\<lparr>thrs := (thrs s)(current_thread s \<mapsto> th\<lparr>th_state := TS_WAKEWAIT\<rparr>)\<rparr>" Q r]
      sched_inv_block[OF I th, of TS_WAKEWAIT] th p by (simp add: thread_goInactive_def upd_thr_def)
qed

lemma thread_wakeUp_ok:
  assumes I: "sched_inv c s Q" and t: "live s t" "t \<noteq> c"
  shows "\<exists>s' Q'. thread_wakeUp t s = Some s' \<and> sched_inv c s' Q' \<and> current_thread s' = current_thread s \<and> processes s' = processes s
     \<and> freed_ptrs s' = freed_ptrs s \<and> sleeping_threads s' = sleeping_threads s \<and> irq_wakeup s' = irq_wakeup s
     \<and> (\<forall>x. live s' x = live s x) \<and> (waiting s t \<and> t \<noteq> idle_thread s \<longrightarrow> ready c s' t) \<and> (\<forall>x. ready c s x \<longrightarrow> ready c s' x)
     \<and> idle_thread s' = idle_thread s \<and> (\<forall>x. waiting s x \<longrightarrow> waiting s' x \<or> x = t)"
proof -
  note inv = sched_invD[OF I]
  obtain th where th: "the_thr s t = Some th" using t by (auto simp: live_def)
  have t0: "t \<noteq> 0" "thrs s t = Some th" using th by (auto simp: the_thr_def split: if_splits)
  define s1 where "s1 = s\<lparr>thrs := (thrs s)(t \<mapsto> th\<lparr>th_state := TS_RUNNING\<rparr>)\<rparr>"
  have t1: "the_thr s1 x = (if x = t then Some (th\<lparr>th_state := TS_RUNNING\<rparr>) else the_thr s x)" for x
    using t0 by (simp add: s1_def the_thr_upd)
  have e: "thr_ok s1 x = thr_ok s x" "live s1 x = live s x" "PRIORITY s1 x = PRIORITY s x" for x
    using th upd_thr_thr_ok[of s t th "\<lambda>th. th\<lparr>th_state := TS_RUNNING\<rparr>"]
      upd_thr_PRIORITY[of s t th "\<lambda>th. th\<lparr>th_state := TS_RUNNING\<rparr>"] by (simp_all add: s1_def)
  have f: "freed_ptrs s1 = freed_ptrs s" "idle_thread s1 = idle_thread s" "current_thread s1 = current_thread s"
    "processes s1 = processes s" "sleeping_threads s1 = sleeping_threads s" "irq_wakeup s1 = irq_wakeup s" by (simp_all add: s1_def)
  have rq: "runq s1 Q" unfolding s1_def by (rule runq_upd_queued[OF inv(1) t0(2)]) simp
  have w: "waiting s1 x" if "waiting s x" "x \<noteq> t" for x using that by (auto simp: waiting_def t1)
  consider (no) "th_state th \<noteq> TS_WAKEWAIT" | (idle) "th_state th = TS_WAKEWAIT" "t = idle_thread s"
    | (yes) "th_state th = TS_WAKEWAIT" "t \<noteq> idle_thread s" by blast
  then show ?thesis
  proof cases
    case no
    then show ?thesis using th I by (auto simp: thread_wakeUp_def waiting_def)
  next
    case idle
    have "ready c s1 x = ready c s x" for x using th idle(2) by (cases "x = t") (simp_all add: ready_def t1 f)
    then have "sched_inv c s1 Q" using I rq unfolding sched_inv_def e f by simp
    moreover have "thread_wakeUp t s = Some s1"
      using th idle sq.enq_idle[of s1] by (simp add: thread_wakeUp_def upd_thr_def s1_def)
    ultimately show ?thesis using idle by (auto simp: e f w) (auto simp: ready_def t1 f split: if_splits)
  next
    case yes
    have r: "ready c s1 x \<longleftrightarrow> ready c s x \<or> x = t" "\<not> ready c s t" for x
      using th t yes by (auto simp: ready_def t1 f live_def task_consts)
    have "\<exists>s' q. sched_enqueue t s1 = Some s' \<and> q < PRIORITIES \<and> PRIORITY s1 t = Some q \<and> sched_inv c s' (Q(q := Q q @ [t])) \<and> queues_only s1 s'"
      by (rule sched_inv_add[OF rq]) (use inv r e f in auto)
    then obtain s' q where s': "sched_enqueue t s1 = Some s'" "sched_inv c s' (Q(q := Q q @ [t]))" "queues_only s1 s'" by blast
    note g = queues_only_preds[OF s'(3)] queues_only_PRIORITY[OF s'(3)] and h = queues_only_fields[OF s'(3)]
    moreover have "thread_wakeUp t s = Some s'" using th yes s'(1) by (simp add: thread_wakeUp_def upd_thr_def s1_def)
    moreover have "waiting s' x" if "waiting s x" "x \<noteq> t" for x
      using w[OF that] queues_only_thr(2)[OF s'(3)] by (fastforce simp: waiting_def)
    ultimately show ?thesis using h f s'(2) by (auto simp: g e r)
  qed
qed

section \<open>Reachable states\<close>

text \<open>The timer preempts the current thread, the current thread blocks, or a live thread is woken up.\<close>

inductive sched_step :: "kernel \<Rightarrow> kernel \<Rightarrow> bool" where
  preempt: "tasking_switch r s = Some (r', s') \<Longrightarrow> sched_step s s'"
| block: "\<lbrakk> current_thread s \<noteq> 0; thread_goInactive r s = Some (r', s') \<rbrakk> \<Longrightarrow> sched_step s s'"
| wake: "\<lbrakk> live s t; t \<noteq> current_thread s; thread_wakeUp t s = Some s' \<rbrakk> \<Longrightarrow> sched_step s s'"

inductive_cases sched_stepE: "sched_step s s'"

definition sched_ok :: "kernel \<Rightarrow> bool" where
  "sched_ok s \<longleftrightarrow> (\<exists>Q. sched_inv (current_thread s) s Q) \<and> processes s \<noteq> 0"

lemma sched_ok_step: "sched_step s s' \<Longrightarrow> sched_ok s \<Longrightarrow> sched_ok s'"
proof (induction rule: sched_step.induct)
  case (preempt r s r' s')
  then show ?case using tasking_switch_ok[of s _ r] by (fastforce simp: sched_ok_def)
next
  case (block s r r' s')
  then show ?case using thread_goInactive_ok[of s _ r] by (fastforce simp: sched_ok_def)
next
  case (wake s t s')
  then obtain Q where "sched_inv (current_thread s) s Q" "processes s \<noteq> 0" by (auto simp: sched_ok_def)
  then show ?case using thread_wakeUp_ok[of "current_thread s" s Q t] wake by (force simp: sched_ok_def)
qed

lemma sched_ok_steps: "sched_step\<^sup>*\<^sup>* s s' \<Longrightarrow> sched_ok s \<Longrightarrow> sched_ok s'"
  by (induction rule: rtranclp_induct) (auto intro: sched_ok_step)

text \<open>
  C2. The scheduling invariant: in every state reached from a good state by preemptions, by
  threads that block and by threads that are woken up, each run queue holds exactly the ready
  threads of its priority, each once, and neither a context switch nor a thread that blocks
  can fail.
\<close>

theorem sched_invariant:
  assumes "sched_ok s" and "sched_step\<^sup>*\<^sup>* s s'"
  shows "\<exists>Q. runq s' Q \<and> (\<forall>i<PRIORITIES. distinct (Q i)
        \<and> set (Q i) = {t. ready (current_thread s') s' t \<and> PRIORITY s' t = Some i})
     \<and> (\<forall>t. ready (current_thread s') s' t \<longrightarrow> (\<exists>i<PRIORITIES. t \<in> set (Q i)))
     \<and> (\<exists>r' s''. tasking_switch r s' = Some (r', s''))
     \<and> (current_thread s' \<noteq> 0 \<longrightarrow> (\<exists>r' s''. thread_goInactive r s' = Some (r', s'')))"
proof -
  obtain Q where Q: "sched_inv (current_thread s') s' Q" "processes s' \<noteq> 0"
    using sched_ok_steps[OF assms(2,1)] by (auto simp: sched_ok_def)
  moreover have "\<forall>i<PRIORITIES. distinct (Q i) \<and> set (Q i) = {t. ready (current_thread s') s' t \<and> PRIORITY s' t = Some i}"
    using Q(1) by (auto simp: sched_inv_def runq_def)
  ultimately show ?thesis
    using tasking_switch_ok[OF Q, of r] thread_goInactive_ok[OF Q, of r] sched_inv_ready[OF Q(1)] sched_invD(1)[OF Q(1)] by blast
qed

section \<open>Contexts\<close>

text \<open>The registers saved in a thread.\<close>

definition ctx :: "kernel \<Rightarrow> ptr \<Rightarrow> cpu option" where
  "ctx s t = map_option (\<lambda>th. \<lparr>esp = th_esp th, ebp = th_ebp th, eip = th_eip th\<rparr>) (the_thr s t)"

lemma ctx_upd [simp]:
  assumes "the_thr s t = Some th" and "th_esp (f th) = th_esp th" "th_ebp (f th) = th_ebp th" "th_eip (f th) = th_eip th"
  shows "ctx (s\<lparr>thrs := (thrs s)(t \<mapsto> f th)\<rparr>) x = ctx s x"
  using assms the_thr_pos[OF assms(1)] by (auto simp: ctx_def the_thr_upd)

lemma upd_thr_ctx:
  assumes "upd_thr t f s = Some s'" and "\<And>th. th_esp (f th) = th_esp th" "\<And>th. th_ebp (f th) = th_ebp th" "\<And>th. th_eip (f th) = th_eip th"
  shows "ctx s' x = ctx s x"
  using assms by (auto simp: upd_thr_def split: bind_splits)

lemma ctx_enqueue: "sched_enqueue t s = Some s' \<Longrightarrow> ctx s' x = ctx s x"
proof -
  have *: "ctx (s\<lparr>rqueue := a, rlast := b\<rparr>) x = ctx s x" "ctx (s\<lparr>rlast := b\<rparr>) x = ctx s x" "ctx (s\<lparr>rqueue := a\<rparr>) x = ctx s x" for s a b by (simp_all add: ctx_def)
  assume "sched_enqueue t s = Some s'"
  then show ?thesis
    by (auto simp: sched_enqueue_def sched_enqueueIn_def * split: if_splits bind_splits dest!: upd_thr_ctx[where x = x])
qed

lemma ctx_leave: "leave_current r s = Some s' \<Longrightarrow> ctx s' x = (if x = current_thread s \<and> x \<noteq> 0 then Some r else ctx s x)"
proof -
  assume l: "leave_current r s = Some s'"
  show ?thesis
  proof (cases "current_thread s = 0")
    case False
    then obtain th where th: "the_thr s (current_thread s) = Some th"
      using l by (auto simp: leave_current_def upd_thr_def split: bind_splits)
    let ?s = "s\<lparr>thrs := (thrs s)(current_thread s \<mapsto> th\<lparr>th_esp := esp r, th_ebp := ebp r, th_eip := eip r\<rparr>)\<rparr>"
    have "ctx ?s x = (if x = current_thread s then Some r else ctx s x)" using False by (simp add: ctx_def the_thr_upd)
    moreover have "ctx s' x = ctx ?s x"
      using l False th by (auto simp: leave_current_def upd_thr_def the_thr_upd split: if_splits dest: ctx_enqueue)
    ultimately show ?thesis using False by simp
  qed (use l in \<open>auto simp: leave_current_def\<close>)
qed

lemma ctx_enter: "enter_next s = Some (r, s') \<Longrightarrow> ctx s' x = ctx s x \<and> ctx s (current_thread s') = Some r"
proof -
  assume e: "enter_next s = Some (r, s')"
  then have "ctx s (current_thread s') = Some r"
    by (auto simp: enter_next_def pagedir_switch_def gdt_setKernelStack_def mmu_def ctx_def Let_def
        dest!: dequeue_thrs deref_cong(2) split: bind_splits if_splits)
  then show ?thesis using deref_cong(2)[OF enter_thrs[OF e]] by (simp add: ctx_def)
qed

lemma ctx_switch:
  assumes "tasking_switch r s = Some (r', s')"
  shows "ctx s' x = (if x = current_thread s \<and> x \<noteq> 0 then Some r else ctx s x)" "ctx s' (current_thread s') = Some r'"
proof -
  obtain s1 where "leave_current r s = Some s1" "enter_next s1 = Some (r', s')"
    using assms by (auto simp: tasking_switch_def split: if_splits bind_splits)
  then show "ctx s' x = (if x = current_thread s \<and> x \<noteq> 0 then Some r else ctx s x)" "ctx s' (current_thread s') = Some r'"
    using ctx_leave[of r s s1 x] ctx_enter[of s1 r' s'] by simp_all
qed

lemma ctx_step:
  assumes "sched_step s s'" and "current_thread s \<noteq> x"
  shows "ctx s' x = ctx s x"
  using assms
proof (cases rule: sched_step.cases)
  case (preempt r r')
  then show ?thesis using ctx_switch(1) assms(2) by fastforce
next
  case (block r r')
  then obtain s1 where s1: "upd_thr (current_thread s) (\<lambda>t. t\<lparr>th_state := TS_WAKEWAIT\<rparr>) s = Some s1" "tasking_switch r s1 = Some (r', s')"
    by (auto simp: thread_goInactive_def split: bind_splits)
  then have "current_thread s1 = current_thread s" "ctx s1 x = ctx s x" by (auto simp: upd_thr_def split: bind_splits)
  then show ?thesis using ctx_switch(1)[OF s1(2)] assms(2) by auto
next
  case (wake t)
  then show ?thesis
    by (auto simp: thread_wakeUp_def split: bind_splits if_splits dest!: ctx_enqueue[where x = x] upd_thr_ctx[where x = x])
qed

text \<open>
  C14. Contexts survive switches: when a thread \<open>c\<close> is switched out with the registers \<open>r\<close> (\<open>esp\<close>, \<open>ebp\<close> and \<open>eip\<close>, which \<open>struct thread\<close> saves), then
  whatever the other threads do until \<open>c\<close> is chosen again, the switch that chooses \<open>c\<close> loads
  exactly \<open>r\<close>.
\<close>

theorem context_roundtrip:
  assumes "tasking_switch r s = Some (r1, s1)" and "current_thread s = c" and "c \<noteq> 0"
    and "(\<lambda>a b. sched_step a b \<and> current_thread a \<noteq> c)\<^sup>*\<^sup>* s1 s2" and "current_thread s2 \<noteq> c"
    and "tasking_switch r2 s2 = Some (r3, s3)" and "current_thread s3 = c"
  shows "r3 = r"
proof -
  have "ctx s2 c = ctx s1 c" using assms(4) by (induction rule: rtranclp_induct) (auto dest: ctx_step)
  then show ?thesis using ctx_switch(1)[OF assms(1), of c] ctx_switch[OF assms(6)] assms(2,3,5,7) by auto
qed

section \<open>Round robin\<close>

text \<open>\<open>running i s c\<close>: the thread \<open>c\<close> has the processor and priority \<open>i\<close>, and nothing of higher priority is ready.\<close>

definition has_cpu :: "nat \<Rightarrow> kernel \<Rightarrow> ptr \<Rightarrow> (nat \<Rightarrow> ptr list) \<Rightarrow> bool" where
  "has_cpu i s c Q \<longleftrightarrow> current_thread s = c \<and> sched_inv c s Q \<and> processes s \<noteq> 0 \<and> c \<noteq> idle_thread s \<and> i < PRIORITIES
     \<and> (\<exists>th. the_thr s c = Some th \<and> th_state th = TS_RUNNING) \<and> PRIORITY s c = Some i \<and> (\<forall>j<i. Q j = [])"

lemma enter_head:
  assumes I: "sched_inv 0 s Q" and i: "i < PRIORITIES" "Q i = y # zs" "\<forall>j<i. Q j = []"
  shows "\<exists>r s' s2. enter_next s = Some (r, s') \<and> current_thread s' = y \<and> sched_inv y s' (Q(i := zs)) \<and> processes s' = processes s
     \<and> idle_thread s' = idle_thread s \<and> procs s' = procs s \<and> queues_only s s2 \<and> thrs s' = thrs s2"
  using sched_inv_enter[OF I]
proof (elim exE conjE disjE, goal_cases)
  case (1 t th p s' Q' s2 k xs)
  have "k = i" using 1 i by (metis list.distinct(1) nat_neq_iff)
  then have "t = y" "Q' = Q(i := zs)" using 1 i by simp_all
  then show ?case using 1 by blast
qed (use i in simp)

lemma has_cpu_switch:
  assumes "has_cpu i s c Q" and "Q i = y # zs"
  shows "\<exists>r' s'. tasking_switch r s = Some (r', s') \<and> has_cpu i s' y (Q(i := zs @ [c]))"
proof -
  obtain th where h: "current_thread s = c" "sched_inv (current_thread s) s Q" "processes s \<noteq> 0" "c \<noteq> idle_thread s" "i < PRIORITIES"
      "the_thr s c = Some th" "th_state th = TS_RUNNING" "PRIORITY s c = Some i" "\<forall>j<i. Q j = []"
    using assms(1) by (auto simp: has_cpu_def)
  obtain s1 where s1: "leave_current r s = Some s1" "sched_inv 0 s1 (Q(i := Q i @ [c]))"
    using sched_inv_leave[OF h(2), of r] h by auto
  obtain r' s' s2 where e: "enter_next s1 = Some (r', s')" "current_thread s' = y" "sched_inv y s' ((Q(i := Q i @ [c]))(i := zs @ [c]))"
      "processes s' = processes s1" "idle_thread s' = idle_thread s1" "procs s' = procs s1" and s2: "queues_only s1 s2" "thrs s' = thrs s2"
    using enter_head[OF s1(2) h(5), of y "zs @ [c]"] h(9) assms(2) by auto
  have "y \<in> set ((Q(i := Q i @ [c])) i)" using assms(2) by simp
  then have ry: "ready 0 s1 y" "PRIORITY s1 y = Some i" using sched_invD(2)[OF s1(2) h(5)] by auto
  have "PRIORITY s' y = PRIORITY s2 y" using s2(2) e(6) queues_only_fields(1)[OF s2(1)] deref_cong(1)[of s' s2] deref_cong(2)[of s' s2]
    by (simp add: PRIORITY_def)
  then have "PRIORITY s' y = Some i" using ry queues_only_PRIORITY[OF s2(1)] by simp
  moreover obtain ty where "the_thr s1 y = Some ty" "th_state ty = TS_RUNNING" "y \<noteq> idle_thread s1" using ry by (auto simp: ready_def)
  moreover have "the_thr s' y = the_thr s2 y" using s2(2) by (simp add: the_thr_def)
  ultimately have "has_cpu i s' y (Q(i := zs @ [c]))"
    using e h switch_only_fields(12)[OF leave_only[OF s1(1)]] queues_only_thr(2)[OF s2(1), of y ty] by (auto simp: has_cpu_def)
  then show ?thesis using s1(1) e(1) h(3) by (auto simp: tasking_switch_def)
qed

text \<open>Switches at which the thread that has the processor is found with the registers \<open>rs\<close>, one after the other.\<close>

fun switches :: "cpu list \<Rightarrow> kernel \<Rightarrow> kernel option" where
  "switches [] s = Some s"
| "switches (r # rs) s = do { (_, s) \<leftarrow> tasking_switch r s; switches rs s }"

lemma has_cpu_switches:
  "has_cpu i s c Q \<Longrightarrow> Q i = xs @ y # ys \<Longrightarrow> length rs = length xs + 1
     \<Longrightarrow> \<exists>s'. switches rs s = Some s' \<and> has_cpu i s' y (Q(i := ys @ c # xs))"
proof (induction xs arbitrary: s c Q ys rs)
  case Nil
  then obtain r where r: "rs = [r]" by (auto simp: length_Suc_conv)
  obtain r' s' where "tasking_switch r s = Some (r', s')" "has_cpu i s' y (Q(i := ys @ [c]))"
    using has_cpu_switch[OF Nil.prems(1), of y ys r] Nil.prems(2) by auto
  then have "switches rs s = Some s'" "has_cpu i s' y (Q(i := ys @ c # []))" using r by simp_all
  then show ?case by blast
next
  case (Cons a xs)
  then obtain r rs' where rs: "rs = r # rs'" "length rs' = length xs + 1" by (auto simp: length_Suc_conv)
  obtain r' s1 where s1: "tasking_switch r s = Some (r', s1)" "has_cpu i s1 a (Q(i := (xs @ y # ys) @ [c]))"
    using has_cpu_switch[OF Cons.prems(1), of a "xs @ y # ys" r] Cons.prems(2) by auto
  obtain s' where "switches rs' s1 = Some s'" "has_cpu i s' y ((Q(i := (xs @ y # ys) @ [c]))(i := (ys @ [c]) @ a # xs))"
    using Cons.IH[OF s1(2) _ rs(2), of "ys @ [c]"] by (metis append_Cons append_assoc fun_upd_same)
  then have "switches rs s = Some s'" "has_cpu i s' y (Q(i := ys @ c # a # xs))" using s1(1) rs(1) by simp_all
  then show ?case by blast
qed

text \<open>
  C15. Round robin: while threads of one priority run and only get preempted, and none of a
  higher priority is ready, each thread of the queue gets the processor, the one behind \<open>k\<close>
  others after \<open>k + 1\<close> switches.
\<close>

theorem round_robin:
  assumes "has_cpu i s c Q" and "Q i = xs @ y # ys" and "length rs = length xs + 1"
  shows "\<exists>s'. switches rs s = Some s' \<and> current_thread s' = y \<and> has_cpu i s' y (Q(i := ys @ c # xs))"
  using has_cpu_switches[OF assms] by (auto simp: has_cpu_def)

section \<open>A concrete state\<close>

text \<open>Thread 6 has the processor, threads 2 and 3 of the same process wait for it, thread 4 is the idle thread.\<close>

definition demo_proc :: "u32 \<Rightarrow> ptr \<Rightarrow> process" where
  "demo_proc pl t = \<lparr>pid = 1, uid = 0, privilege = pl, thread_count = 3, parent = 0, pagedir = 10, stacksBottom = 0xDF000000,
     objects = 0, next_objdesc = 0, heapseg = 0, pr_next = 0, threads = t\<rparr>"

definition demo_thread :: "ptr \<Rightarrow> ptr \<Rightarrow> thread" where
  "demo_thread p q = \<lparr>th_process = p, th_esp = 0, th_ebp = 0, th_eip = 0, th_state = 0, kernelStack_addr = 0x1000,
     kernelStack_size = 0x8000, userStack_seg = 0, th_next = 0, queue_next = q\<rparr>"

definition sched_demo :: kernel where
  "sched_demo = (kernel0 (\<lambda>_. True) (\<lambda>_. 0))\<lparr>procs := [1 \<mapsto> demo_proc 3 2, 5 \<mapsto> demo_proc 0 4],
     thrs := [2 \<mapsto> demo_thread 1 3, 3 \<mapsto> demo_thread 1 0, 4 \<mapsto> demo_thread 5 0, 6 \<mapsto> demo_thread 1 0],
     processes := 1, current_thread := 6, idle_thread := 4, next_ptr := 20,
     pdirs := [10 \<mapsto> \<lparr>pd_tables = (\<lambda>_. 0), pd_tablesPhysical = (\<lambda>_. 0), pd_page = 0, pd_physicalAddr = 0x2000, pd_mappedSegs = 0\<rparr>],
     rqueue := (\<lambda>_. 0)(3 := 2), rlast := (\<lambda>_. 0)(3 := 3)\<rparr>"

lemma demo_threads: "the_thr sched_demo t = (if t = 2 then Some (demo_thread 1 3) else if t = 3 \<or> t = 6 then Some (demo_thread 1 0)
    else if t = 4 then Some (demo_thread 5 0) else None)"
  by (auto simp: sched_demo_def the_thr_def)

lemma demo_ready: "ready 6 sched_demo t \<longleftrightarrow> t = 2 \<or> t = 3"
  by (auto simp: ready_def demo_threads) (auto simp: sched_demo_def kernel0_def demo_thread_def task_consts)

lemma demo_priority: "PRIORITY sched_demo t = (if t = 2 \<or> t = 3 \<or> t = 6 then Some 3 else if t = 4 then Some 0 else None)"
  unfolding PRIORITY_def demo_threads by (simp add: demo_thread_def sched_demo_def the_proc_def demo_proc_def)

lemma demo_inv: "sched_inv 6 sched_demo ((\<lambda>_. [])(3 := [2, 3]))"
proof -
  have "runq sched_demo ((\<lambda>_. [])(3 := [2, 3]))" by (auto simp: runq_def sched_demo_def demo_thread_def)
  moreover have "thr_ok sched_demo t" if "live sched_demo t" for t
    using that by (auto simp: live_def thr_ok_def demo_threads demo_thread_def PRIORITIES_def split: if_splits)
      (simp_all add: sched_demo_def the_proc_def the_pd_def demo_proc_def)
  moreover have "live sched_demo 4" "live sched_demo 6" "idle_thread sched_demo = 4"
    by (simp_all add: live_def demo_threads) (simp_all add: sched_demo_def kernel0_def)
  ultimately show ?thesis by (auto simp: sched_inv_def demo_ready demo_priority)
qed

lemma demo_has_cpu: "has_cpu 3 sched_demo 6 ((\<lambda>_. [])(3 := [2, 3]))"
proof -
  have "current_thread sched_demo = 6" "processes sched_demo = 1" "idle_thread sched_demo = 4" by (simp_all add: sched_demo_def)
  then show ?thesis using demo_inv by (simp add: has_cpu_def demo_priority demo_threads demo_thread_def task_consts PRIORITIES_def)
qed

lemma demo_ok: "sched_ok sched_demo"
  using demo_has_cpu by (auto simp: sched_ok_def has_cpu_def)

theorem sched_invariant_witness:
  "\<exists>s' Q. sched_step\<^sup>*\<^sup>* sched_demo s' \<and> s' \<noteq> sched_demo \<and> runq s' Q \<and> (\<exists>r' s''. tasking_switch \<lparr>esp = 1, ebp = 2, eip = 3\<rparr> s' = Some (r', s''))"
proof -
  obtain r' s' where s': "tasking_switch \<lparr>esp = 1, ebp = 2, eip = 3\<rparr> sched_demo = Some (r', s')" "has_cpu 3 s' 2 (((\<lambda>_. [])(3 := [2, 3]))(3 := [3] @ [6]))"
    using has_cpu_switch[OF demo_has_cpu, of 2 "[3]" "\<lparr>esp = 1, ebp = 2, eip = 3\<rparr>"] by auto
  then have st: "sched_step\<^sup>*\<^sup>* sched_demo s'" by (blast intro: sched_step.preempt)
  have "s' \<noteq> sched_demo" using s'(2) by (auto simp: has_cpu_def) (simp add: sched_demo_def)
  then show ?thesis using sched_invariant[OF demo_ok st, of "\<lparr>esp = 1, ebp = 2, eip = 3\<rparr>"] st by blast
qed

theorem context_roundtrip_witness:
  "\<exists>r1 s1 s2 s3. tasking_switch \<lparr>esp = 1, ebp = 2, eip = 3\<rparr> sched_demo = Some (r1, s1) \<and> current_thread s1 = 2
     \<and> current_thread s2 = 3 \<and> tasking_switch r1 s2 = Some (\<lparr>esp = 1, ebp = 2, eip = 3\<rparr>, s3) \<and> current_thread s3 = 6"
proof -
  let ?r = "\<lparr>esp = 1, ebp = 2, eip = 3 :: u32\<rparr>"
  let ?Q = "(\<lambda>_. [])((3 :: nat) := [2, 3 :: ptr])"
  obtain r1 s1 where s1: "tasking_switch ?r sched_demo = Some (r1, s1)" "has_cpu 3 s1 2 (?Q(3 := [3] @ [6]))"
    using has_cpu_switch[OF demo_has_cpu, of 2 "[3]" ?r] by auto
  obtain r2 s2 where s2: "tasking_switch r1 s1 = Some (r2, s2)" "has_cpu 3 s2 3 ((?Q(3 := [3] @ [6]))(3 := [6] @ [2]))"
    using has_cpu_switch[OF s1(2), of 3 "[6]" r1] by auto
  obtain r3 s3 where s3: "tasking_switch r1 s2 = Some (r3, s3)" "has_cpu 3 s3 6 (((?Q(3 := [3] @ [6]))(3 := [6] @ [2]))(3 := [2] @ [3]))"
    using has_cpu_switch[OF s2(2), of 6 "[2]" r1] by auto
  have c: "current_thread sched_demo = 6" "current_thread s1 = 2" "current_thread s2 = 3" "current_thread s3 = 6"
    using demo_has_cpu s1(2) s2(2) s3(2) by (simp_all only: has_cpu_def)
  have "(\<lambda>a b. sched_step a b \<and> current_thread a \<noteq> 6)\<^sup>*\<^sup>* s1 s2" using sched_step.preempt[OF s2(1)] c by auto
  then have "r3 = ?r" using context_roundtrip[OF s1(1) c(1) _ _ _ s3(1) c(4)] c by simp
  then show ?thesis using s1 s2 s3 c by blast
qed

theorem round_robin_witness: "\<exists>s'. switches [\<lparr>esp = 1, ebp = 2, eip = 3\<rparr>, \<lparr>esp = 4, ebp = 5, eip = 6\<rparr>] sched_demo = Some s' \<and> current_thread s' = 3"
  using round_robin[OF demo_has_cpu, of "[2]" 3 "[]" "[\<lparr>esp = 1, ebp = 2, eip = 3\<rparr>, \<lparr>esp = 4, ebp = 5, eip = 6\<rparr>]"] by auto

end
