(* ===== verification/Object.thy ===== *)
theory Object
  imports KState
begin

text \<open>
  Objects and object descriptors, \<^verbatim>\<open>src/kernel/ipc/object.c\<close>. A process has a linked list of
  descriptors; an object counts the descriptors that refer to it. The locale
  \<open>descriptor_table\<close> states the list as a table from numbers to objects.
\<close>

section \<open>Model\<close>

definition MUTEX_UNLOCKED :: u32 where "MUTEX_UNLOCKED = 0"
definition MUTEX_LOCKED :: u32 where "MUTEX_LOCKED = 1"

definition obj_new :: "ptr \<Rightarrow> kernel \<Rightarrow> ptr \<times> kernel" where
  "obj_new own s = (let (ret, s) = kmalloc_ptr s in
     (ret, s\<lparr>objs := (objs s)(ret \<mapsto> \<lparr>owner = own, descriptors = 0, busyMutex = MUTEX_UNLOCKED, ob_request = 0, wakeupOnRq = 0\<rparr>)\<rparr>))"

definition obj_delete :: "ptr \<Rightarrow> kernel \<Rightarrow> kernel option" where
  "obj_delete ob s = do {
     x \<leftarrow> the_obj s ob;
     if descriptors x > 0 then Some s
     else if busyMutex x \<noteq> MUTEX_UNLOCKED then Some s
     else if ob_request x \<noteq> 0 then Some s
     else Some (kfree_ptr ob s) }"

subsection \<open>Descriptors\<close>

partial_function (option) get_from :: "kernel \<Rightarrow> ptr \<Rightarrow> ptr \<Rightarrow> u32 option" where
  "get_from s it ob =
     (if it = 0 then Some (- 1)
      else do { d \<leftarrow> the_desc s it; if od_obj d = ob then Some (od_id d) else get_from s (od_next d) ob })"

definition objdesc_get :: "ptr \<Rightarrow> ptr \<Rightarrow> kernel \<Rightarrow> u32 option" where
  "objdesc_get proc ob s = do { p \<leftarrow> the_proc s proc; get_from s (objects p) ob }"

partial_function (option) read_from :: "kernel \<Rightarrow> ptr \<Rightarrow> u32 \<Rightarrow> ptr option" where
  "read_from s it i =
     (if it = 0 then Some 0
      else do { d \<leftarrow> the_desc s it; if od_id d = i then Some (od_obj d) else read_from s (od_next d) i })"

definition objdesc_read :: "ptr \<Rightarrow> u32 \<Rightarrow> kernel \<Rightarrow> ptr option" where
  "objdesc_read proc i s = do { p \<leftarrow> the_proc s proc; read_from s (objects p) i }"

definition objdesc_add :: "ptr \<Rightarrow> ptr \<Rightarrow> kernel \<Rightarrow> (u32 \<times> kernel) option" where
  "objdesc_add proc ob s = do {
     tmp \<leftarrow> objdesc_get proc ob s;
     if tmp \<noteq> - 1 then Some (- 1, s)
     else do {
       p \<leftarrow> the_proc s proc;
       let (ret, s) = kmalloc_ptr s;
       let s = s\<lparr>descs := (descs s)(ret \<mapsto> \<lparr>od_obj = ob, od_id = next_objdesc p, od_next = objects p\<rparr>)\<rparr>;
       s \<leftarrow> upd_proc proc (\<lambda>p. p\<lparr>objects := ret\<rparr>) s;
       s \<leftarrow> upd_obj ob (\<lambda>o'. o'\<lparr>descriptors := descriptors o' + 1\<rparr>) s;
       s \<leftarrow> upd_proc proc (\<lambda>p. p\<lparr>next_objdesc := next_objdesc p + 1\<rparr>) s;
       d \<leftarrow> the_desc s ret;
       Some (od_id d, s) } }"

text \<open>
  The loop of \<open>objdesc_rm\<close> over the elements behind the head. Once \<open>e->next\<close> is
  overwritten, the two following statements work on the successor of the removed element.
\<close>

partial_function (option) rm_loop :: "ptr \<Rightarrow> u32 \<Rightarrow> kernel \<Rightarrow> kernel option" where
  "rm_loop e i s = do {
     x \<leftarrow> the_desc s e;
     if od_next x \<noteq> 0 then do {
       n \<leftarrow> the_desc s (od_next x);
       if od_id n = i then do {
         s \<leftarrow> upd_desc e (\<lambda>x. x\<lparr>od_next := od_next n\<rparr>) s;
         x \<leftarrow> the_desc s e;
         y \<leftarrow> the_desc s (od_next x);
         s \<leftarrow> upd_obj (od_obj y) (\<lambda>o'. o'\<lparr>descriptors := descriptors o' - 1\<rparr>) s;
         Some (kfree_ptr (od_next x) s) }
       else rm_loop (od_next x) i s }
     else Some s }"

definition objdesc_rm :: "ptr \<Rightarrow> u32 \<Rightarrow> kernel \<Rightarrow> kernel option" where
  "objdesc_rm proc i s = do {
     p \<leftarrow> the_proc s proc;
     let e = objects p;
     hit \<leftarrow> (if e = 0 then Some False else do { x \<leftarrow> the_desc s e; Some (od_id x = i) });
     if hit then do {
       x \<leftarrow> the_desc s e;
       s \<leftarrow> upd_proc proc (\<lambda>p. p\<lparr>objects := od_next x\<rparr>) s;
       s \<leftarrow> upd_obj (od_obj x) (\<lambda>o'. o'\<lparr>descriptors := descriptors o' - 1\<rparr>) s;
       Some (kfree_ptr e s) }
     else rm_loop e i s }"

subsection \<open>Creating and closing objects\<close>

definition obj_createP :: "ptr \<Rightarrow> kernel \<Rightarrow> (u32 \<times> kernel) option" where
  "obj_createP p s = (let (ob, s) = obj_new p s in objdesc_add p ob s)"

definition obj_closeP :: "ptr \<Rightarrow> u32 \<Rightarrow> kernel \<Rightarrow> kernel option" where
  "obj_closeP p i s = do {
     ob \<leftarrow> objdesc_read p i s;
     if ob = 0 then Some s
     else do {
       s \<leftarrow> objdesc_rm p i s;
       x \<leftarrow> the_obj s ob;
       if owner x = p then
         (if descriptors x > 0 then upd_obj ob (\<lambda>x. x\<lparr>owner := 0\<rparr>) s else obj_delete ob s)
       else if descriptors x = 0 \<and> owner x = 0 then obj_delete ob s
       else Some s } }"

partial_function (option) obj_closeall :: "ptr \<Rightarrow> kernel \<Rightarrow> kernel option" where
  "obj_closeall p s = do {
     x \<leftarrow> the_proc s p;
     if objects x \<noteq> 0 then do {
       d \<leftarrow> the_desc s (objects x);
       s \<leftarrow> obj_closeP p (od_id d) s;
       obj_closeall p s }
     else Some s }"

subsection \<open>System calls\<close>

definition current_process :: "kernel \<Rightarrow> ptr option" where
  "current_process s = do { t \<leftarrow> the_thr s (current_thread s); Some (th_process t) }"

definition object_create :: "kernel \<Rightarrow> (u32 \<times> kernel) option" where
  "object_create s = do { p \<leftarrow> current_process s; obj_createP p s }"

definition object_owned :: "u32 \<Rightarrow> kernel \<Rightarrow> u32 option" where
  "object_owned i s = do {
     p \<leftarrow> current_process s;
     ob \<leftarrow> objdesc_read p i s;
     if ob = 0 then Some (- 10)
     else do { x \<leftarrow> the_obj s ob; Some (if owner x = p then 1 else 0) } }"

definition object_close :: "u32 \<Rightarrow> kernel \<Rightarrow> kernel option" where
  "object_close i s = do { p \<leftarrow> current_process s; obj_closeP p i s }"

section \<open>The contract of a descriptor table\<close>

text \<open>
  \<open>T s p t\<close>: in state \<open>s\<close> the process \<open>p\<close> has the table \<open>t\<close> of numbers and objects.
  \<open>none\<close> is what an unknown number reads as, and \<open>usable\<close> says that an entry can be made.
\<close>

locale descriptor_table =
  fixes add :: "'p \<Rightarrow> 'o \<Rightarrow> 's \<Rightarrow> (u32 \<times> 's) option" and get :: "'p \<Rightarrow> 'o \<Rightarrow> 's \<Rightarrow> u32 option"
    and rd :: "'p \<Rightarrow> u32 \<Rightarrow> 's \<Rightarrow> 'o option" and T :: "'s \<Rightarrow> 'p \<Rightarrow> (u32 \<times> 'o) list \<Rightarrow> bool"
    and usable :: "'s \<Rightarrow> 'p \<Rightarrow> 'o \<Rightarrow> bool" and none :: 'o
  assumes read_ok: "T s p t \<Longrightarrow> rd p i s = Some (case map_of t i of None \<Rightarrow> none | Some ob \<Rightarrow> ob)"
    and get_ok: "T s p t \<Longrightarrow> get p ob s = Some (case find (\<lambda>x. snd x = ob) t of None \<Rightarrow> - 1 | Some x \<Rightarrow> fst x)"
    and add_new: "\<lbrakk> T s p t; usable s p ob; ob \<notin> snd ` set t \<rbrakk>
      \<Longrightarrow> \<exists>i s'. add p ob s = Some (i, s') \<and> i \<notin> fst ` set t \<and> i \<noteq> - 1 \<and> T s' p ((i, ob) # t)"
    and add_old: "\<lbrakk> T s p t; ob \<in> snd ` set t \<rbrakk> \<Longrightarrow> add p ob s = Some (- 1, s)"
    and add_other: "\<lbrakk> T s q u; add p ob s = Some (i, s'); q \<noteq> p \<rbrakk> \<Longrightarrow> T s' q u"
    and table_distinct: "T s p t \<Longrightarrow> distinct (map fst t) \<and> distinct (map snd t) \<and> - 1 \<notin> fst ` set t"
begin

lemma read_entry: "T s p t \<Longrightarrow> (i, ob) \<in> set t \<Longrightarrow> rd p i s = Some ob"
  using read_ok[of s p t i] table_distinct[of s p t] by (simp add: map_of_is_SomeI)

lemma get_entry:
  assumes "T s p t" and "(i, ob) \<in> set t"
  shows "get p ob s = Some i"
proof -
  obtain x where x: "find (\<lambda>x. snd x = ob) t = Some x" using assms(2) by (cases "find (\<lambda>x. snd x = ob) t") (auto simp: find_None_iff)
  then have "x \<in> set t" "snd x = ob" by (auto simp: find_Some_iff)
  then have "x = (i, ob)" using assms(2) table_distinct[OF assms(1)] by (auto simp: distinct_map inj_on_def)
  then show ?thesis using get_ok[OF assms(1)] x by simp
qed

text \<open>A new entry can be read back, everything else reads as before, in this and in other processes.\<close>

lemma add_read:
  assumes "T s p t" and "usable s p ob" and "ob \<notin> snd ` set t"
  obtains i s' where "add p ob s = Some (i, s')" "rd p i s' = Some ob" "get p ob s' = Some i"
    "\<And>j. j \<noteq> i \<Longrightarrow> rd p j s' = rd p j s" "\<And>q u j. T s q u \<Longrightarrow> q \<noteq> p \<Longrightarrow> rd q j s' = rd q j s"
proof -
  obtain i s' where a: "add p ob s = Some (i, s')" "T s' p ((i, ob) # t)" using add_new[OF assms] by blast
  have "rd q j s' = rd q j s" if "T s q u" "q \<noteq> p" for q u j
    using read_ok[OF that(1)] read_ok[OF add_other[OF that(1) a(1) that(2)]] by simp
  then show ?thesis using that[OF a(1)] read_entry[OF a(2)] get_entry[OF a(2)] read_ok[OF a(2)] read_ok[OF assms(1)] by simp
qed

end

section \<open>The linked list\<close>

abbreviation desc_path :: "(ptr \<rightharpoonup> obj_descriptor) \<Rightarrow> ptr \<Rightarrow> ptr list \<Rightarrow> bool" where
  "desc_path \<equiv> linked od_next"

definition entry :: "kernel \<Rightarrow> ptr \<Rightarrow> u32 \<times> ptr" where
  "entry s d = (case descs s d of None \<Rightarrow> (0, 0) | Some x \<Rightarrow> (od_id x, od_obj x))"

definition desc_list :: "kernel \<Rightarrow> ptr \<Rightarrow> ptr list \<Rightarrow> (u32 \<times> ptr) list \<Rightarrow> bool" where
  "desc_list s p ds t \<longleftrightarrow> (\<exists>pr. the_proc s p = Some pr \<and> desc_path (descs s) (objects pr) ds \<and> map (entry s) ds = t
     \<and> (\<forall>d\<in>set ds. d < next_ptr s) \<and> (\<forall>x\<in>set t. unat (fst x) < unat (next_objdesc pr))
     \<and> distinct (map fst t) \<and> distinct (map snd t))"

definition desc_table :: "kernel \<Rightarrow> ptr \<Rightarrow> (u32 \<times> ptr) list \<Rightarrow> bool" where
  "desc_table s p t \<longleftrightarrow> (\<exists>ds. desc_list s p ds t)"

definition can_add :: "kernel \<Rightarrow> ptr \<Rightarrow> ptr \<Rightarrow> bool" where
  "can_add s p ob \<longleftrightarrow> (\<exists>x. the_obj s ob = Some x) \<and> next_ptr s \<noteq> 0 \<and> (\<exists>pr. the_proc s p = Some pr \<and> next_objdesc pr \<noteq> - 1)"

lemma entry_known: "descs s d = Some x \<Longrightarrow> entry s d = (od_id x, od_obj x)"
  by (simp add: entry_def)

lemma read_from_ok: "desc_path (descs s) it ds \<Longrightarrow> read_from s it i = Some (case map_of (map (entry s) ds) i of None \<Rightarrow> 0 | Some ob \<Rightarrow> ob)"
proof (induction ds arbitrary: it)
  case Nil
  then show ?case by (subst read_from.simps) simp
next
  case (Cons d ds)
  then obtain x where "descs s d = Some x" "it = d" "d \<noteq> 0" "desc_path (descs s) (od_next x) ds" by auto
  then show ?case using Cons.IH[of "od_next x"] by (subst read_from.simps) (simp add: the_desc_def entry_known)
qed

lemma get_from_ok:
  "desc_path (descs s) it ds \<Longrightarrow> get_from s it ob = Some (case find (\<lambda>x. snd x = ob) (map (entry s) ds) of None \<Rightarrow> - 1 | Some x \<Rightarrow> fst x)"
proof (induction ds arbitrary: it)
  case Nil
  then show ?case by (subst get_from.simps) simp
next
  case (Cons d ds)
  then obtain x where "descs s d = Some x" "it = d" "d \<noteq> 0" "desc_path (descs s) (od_next x) ds" by auto
  then show ?case using Cons.IH[of "od_next x"] by (subst get_from.simps) (simp add: the_desc_def entry_known)
qed

lemma entry_other: "d \<notin> set ds \<Longrightarrow> map (entry (s\<lparr>descs := (descs s)(d \<mapsto> x)\<rparr>)) ds = map (entry s) ds"
  by (auto simp: entry_def)

lemma entry_cong: "descs s' = descs s \<Longrightarrow> entry s' = entry s"
  by (simp add: entry_def fun_eq_iff)

lemma desc_list_frame: "desc_list (s\<lparr>objs := f\<rparr>) p ds t = desc_list s p ds t" "desc_list (kfree_ptr x s) p ds t = desc_list s p ds t"
  by (simp_all add: desc_list_def entry_def[abs_def] kfree_ptr_def)

lemma desc_listD:
  assumes "desc_list s p ds t" and "the_proc s p = Some pr"
  shows "desc_path (descs s) (objects pr) ds" "map (entry s) ds = t" "\<And>d. d \<in> set ds \<Longrightarrow> d < next_ptr s"
    "\<And>x. x \<in> set t \<Longrightarrow> unat (fst x) < unat (next_objdesc pr)" "distinct (map fst t)" "distinct (map snd t)"
  using assms by (auto simp: desc_list_def)

lemma objdesc_read_ok: "desc_table s p t \<Longrightarrow> objdesc_read p i s = Some (case map_of t i of None \<Rightarrow> 0 | Some ob \<Rightarrow> ob)"
  by (auto simp: desc_table_def desc_list_def objdesc_read_def read_from_ok)

lemma objdesc_get_ok:
  "desc_table s p t \<Longrightarrow> objdesc_get p ob s = Some (case find (\<lambda>x. snd x = ob) t of None \<Rightarrow> - 1 | Some x \<Rightarrow> fst x)"
  by (auto simp: desc_table_def desc_list_def objdesc_get_def get_from_ok)

lemma table_no_minus1: "desc_table s p t \<Longrightarrow> - 1 \<notin> fst ` set t"
proof
  assume "desc_table s p t" "- 1 \<in> fst ` set t"
  then obtain ds pr x where "desc_list s p ds t" "the_proc s p = Some pr" "x \<in> set t" "fst x = - 1"
    unfolding desc_table_def desc_list_def by (elim exE imageE) (metis (no_types, lifting))
  then have "unat (- 1 :: u32) < unat (next_objdesc pr)" using desc_listD(4) by metis
  then show False using word_order.extremum[of "next_objdesc pr"] by (simp add: word_le_nat_alt)
qed

lemma objdesc_get_new: "desc_table s p t \<Longrightarrow> ob \<notin> snd ` set t \<Longrightarrow> objdesc_get p ob s = Some (- 1)"
proof -
  assume t: "desc_table s p t" "ob \<notin> snd ` set t"
  then have "find (\<lambda>x. snd x = ob) t = None" by (force simp: find_None_iff)
  then show ?thesis using objdesc_get_ok[OF t(1)] by simp
qed

lemma objdesc_get_old: "desc_table s p t \<Longrightarrow> ob \<in> snd ` set t \<Longrightarrow> \<exists>i. objdesc_get p ob s = Some i \<and> i \<noteq> - 1"
proof -
  assume t: "desc_table s p t" "ob \<in> snd ` set t"
  then obtain x where x: "find (\<lambda>x. snd x = ob) t = Some x" by (cases "find (\<lambda>x. snd x = ob) t") (auto simp: find_None_iff)
  then have "x \<in> set t" by (auto simp: find_Some_iff)
  then have "fst x \<in> fst ` set t" by simp
  then show ?thesis using objdesc_get_ok[OF t(1), of ob] table_no_minus1[OF t(1)] x by (metis option.simps(5))
qed

text \<open>The state after a new entry.\<close>

definition added :: "ptr \<Rightarrow> ptr \<Rightarrow> process \<Rightarrow> object \<Rightarrow> kernel \<Rightarrow> kernel" where
  "added p ob pr x s = s\<lparr>next_ptr := next_ptr s + 1,
     descs := (descs s)(next_ptr s \<mapsto> \<lparr>od_obj = ob, od_id = next_objdesc pr, od_next = objects pr\<rparr>),
     procs := (procs s)(p \<mapsto> pr\<lparr>objects := next_ptr s, next_objdesc := next_objdesc pr + 1\<rparr>),
     objs := (objs s)(ob \<mapsto> x\<lparr>descriptors := descriptors x + 1\<rparr>)\<rparr>"

lemma objdesc_add_eq:
  assumes "objdesc_get p ob s = Some (- 1)" and "the_proc s p = Some pr" and "the_obj s ob = Some x" and "next_ptr s \<noteq> 0"
  shows "objdesc_add p ob s = Some (next_objdesc pr, added p ob pr x s)"
proof -
  have nz: "p \<noteq> 0" "ob \<noteq> 0" using assms(2,3) by (auto simp: deref_defs split: if_splits)
  then show ?thesis using assms
    by (simp add: objdesc_add_def kmalloc_ptr_def Let_def upd_proc_def upd_obj_def the_proc_def the_obj_def the_desc_def added_def)
qed

lemma added_table:
  assumes t: "desc_table s p t" and pr: "the_proc s p = Some pr" "next_objdesc pr \<noteq> - 1" and new: "ob \<notin> snd ` set t" and np: "next_ptr s \<noteq> 0"
  shows "desc_table (added p ob pr x s) p ((next_objdesc pr, ob) # t)" "next_objdesc pr \<notin> fst ` set t"
proof -
  obtain ds where ds: "desc_list s p ds t" using t by (auto simp: desc_table_def)
  note l = desc_listD[OF ds pr(1)]
  let ?s = "added p ob pr x s"
  have p0: "p \<noteq> 0" using pr(1) by (auto simp: the_proc_def split: if_splits)
  have nd: "next_ptr s \<notin> set ds" using l(3) by auto
  have e: "entry ?s (next_ptr s) = (next_objdesc pr, ob)" "map (entry ?s) ds = t"
    using l(2) nd by (auto simp: entry_def added_def)
  have i: "unat (next_objdesc pr + 1) = unat (next_objdesc pr) + 1"
    by (rule unat_succ_u32[OF pr(2)])
  show nid: "next_objdesc pr \<notin> fst ` set t" using l(4) by fastforce
  have "desc_path (descs ?s) (next_ptr s) (next_ptr s # ds)" using l(1) nd np by (simp add: added_def linked_other)
  moreover have "the_proc ?s p = Some (pr\<lparr>objects := next_ptr s, next_objdesc := next_objdesc pr + 1\<rparr>)"
    using p0 by (simp add: added_def the_proc_def)
  moreover have "\<forall>d\<in>set (next_ptr s # ds). d < next_ptr ?s" using l(3) by (auto simp: added_def dest: less_SucI)
  moreover have "\<forall>y\<in>set ((next_objdesc pr, ob) # t). unat (fst y) < unat (next_objdesc pr + 1)"
    unfolding i using l(4) by (auto simp: less_Suc_eq)
  ultimately have "desc_list ?s p (next_ptr s # ds) ((next_objdesc pr, ob) # t)"
    unfolding desc_list_def using e l(5,6) new nid by (intro exI[of _ "pr\<lparr>objects := next_ptr s, next_objdesc := next_objdesc pr + 1\<rparr>"]) simp
  then show "desc_table ?s p ((next_objdesc pr, ob) # t)" by (auto simp: desc_table_def)
qed

lemma added_other:
  assumes u: "desc_table s q u" and "q \<noteq> p"
  shows "desc_table (added p ob pr x s) q u"
proof -
  obtain ds pq where ds: "desc_list s q ds u" "the_proc s q = Some pq" using u by (auto simp: desc_table_def desc_list_def)
  note l = desc_listD[OF ds]
  have nd: "next_ptr s \<notin> set ds" using l(3) by auto
  have "map (entry (added p ob pr x s)) ds = u" using l(2) nd by (auto simp: entry_def added_def)
  moreover have "desc_path (descs (added p ob pr x s)) (objects pq) ds" using l(1) nd by (simp add: added_def linked_other)
  moreover have "the_proc (added p ob pr x s) q = Some pq" using ds(2) assms(2) by (auto simp: added_def the_proc_def split: if_splits)
  ultimately have "desc_list (added p ob pr x s) q ds u" using l(3-6) by (auto simp: desc_list_def added_def dest: less_SucI)
  then show ?thesis by (auto simp: desc_table_def)
qed

lemma objdesc_add_cases:
  assumes "objdesc_add p ob s = Some (i, s')"
  shows "s' = s \<or> (\<exists>pr x. the_proc s p = Some pr \<and> the_obj s ob = Some x \<and> s' = added p ob pr x s)"
  using assms objdesc_add_eq[of p ob s]
  by (cases "next_ptr s = 0") (auto simp: objdesc_add_def kmalloc_ptr_def upd_defs deref_defs Let_def split: bind_splits if_splits)

interpretation dt: descriptor_table objdesc_add objdesc_get objdesc_read desc_table can_add 0
proof
  fix s p t ob assume t: "desc_table s p t" "can_add s p ob" "ob \<notin> snd ` set t"
  then obtain pr x where c: "the_proc s p = Some pr" "next_objdesc pr \<noteq> - 1" "the_obj s ob = Some x" "next_ptr s \<noteq> 0"
    by (auto simp: can_add_def)
  show "\<exists>i s'. objdesc_add p ob s = Some (i, s') \<and> i \<notin> fst ` set t \<and> i \<noteq> - 1 \<and> desc_table s' p ((i, ob) # t)"
    using objdesc_add_eq[OF objdesc_get_new[OF t(1,3)] c(1,3,4)] added_table[OF t(1) c(1,2) t(3) c(4)] c(2) by simp
next
  fix s p t ob assume "desc_table s p t" "ob \<in> snd ` set t"
  then show "objdesc_add p ob s = Some (- 1, s)" using objdesc_get_old[of s p t ob] by (auto simp: objdesc_add_def)
next
  fix s q u p ob i s' assume "desc_table s q u" "objdesc_add p ob s = Some (i, s')" "q \<noteq> p"
  then show "desc_table s' q u" using objdesc_add_cases[of p ob s i s'] added_other[of s q u p ob] by auto
next
  fix s p t assume "desc_table s p t"
  then show "distinct (map fst t) \<and> distinct (map snd t) \<and> - 1 \<notin> fst ` set t"
    using table_no_minus1 by (auto simp: desc_table_def desc_list_def)
qed (simp_all add: objdesc_read_ok objdesc_get_ok)

section \<open>Adding descriptors\<close>

text \<open>
  C21. A descriptor that is added can be read back: for an object that the process has no
  descriptor to, \<open>objdesc_add\<close> returns a fresh number under which \<open>objdesc_read\<close> finds the object and
  \<open>objdesc_get\<close> the number, every other number of this and of any other process reads as before,
  and the object counts one descriptor more.
\<close>

theorem objdesc_add_roundtrip:
  assumes "desc_table s p t" and "can_add s p ob" and "ob \<notin> snd ` set t" and "the_obj s ob = Some x"
  shows "\<exists>i s'. objdesc_add p ob s = Some (i, s') \<and> objdesc_read p i s' = Some ob \<and> objdesc_get p ob s' = Some i
     \<and> (\<forall>j. j \<noteq> i \<longrightarrow> objdesc_read p j s' = objdesc_read p j s)
     \<and> (\<forall>q u j. desc_table s q u \<longrightarrow> q \<noteq> p \<longrightarrow> objdesc_read q j s' = objdesc_read q j s)
     \<and> the_obj s' ob = Some (x\<lparr>descriptors := descriptors x + 1\<rparr>)"
proof -
  obtain pr where c: "the_proc s p = Some pr" "next_ptr s \<noteq> 0" using assms(2) by (auto simp: can_add_def)
  have e: "objdesc_add p ob s = Some (next_objdesc pr, added p ob pr x s)"
    using objdesc_add_eq[OF objdesc_get_new[OF assms(1,3)] c(1) assms(4) c(2)] .
  have "the_obj (added p ob pr x s) ob = Some (x\<lparr>descriptors := descriptors x + 1\<rparr>)"
    using assms(4) by (auto simp: added_def the_obj_def split: if_splits)
  then show ?thesis using e by (rule_tac dt.add_read[OF assms(1-3)]) auto
qed

section \<open>Removing descriptors\<close>

lemma desc_list_entry: "desc_list s p ds t \<Longrightarrow> d \<in> set ds \<Longrightarrow> \<exists>x. descs s d = Some x \<and> d \<noteq> 0 \<and> entry s d = (od_id x, od_obj x)"
  using linked_known by (fastforce simp: desc_list_def entry_def)

lemma objdesc_rm_head:
  assumes l: "desc_list s p (d # ds) ((i, ob) # t)" and pr: "the_proc s p = Some pr" and x: "the_obj s ob = Some x"
  shows "\<exists>dx. descs s d = Some dx \<and> objdesc_rm p i s = Some (kfree_ptr d (s\<lparr>procs := (procs s)(p \<mapsto> pr\<lparr>objects := od_next dx\<rparr>),
      objs := (objs s)(ob \<mapsto> x\<lparr>descriptors := descriptors x - 1\<rparr>)\<rparr>))"
    and "\<And>s'. objdesc_rm p i s = Some s' \<Longrightarrow> desc_list s' p ds t"
proof -
  note h = desc_listD[OF l pr]
  obtain dx where dx: "descs s d = Some dx" "d \<noteq> 0" "objects pr = d" "desc_path (descs s) (od_next dx) ds" using h(1) by auto
  have e: "od_id dx = i" "od_obj dx = ob" using h(2) dx(1) by (simp_all add: entry_known)
  have nz: "p \<noteq> 0" "ob \<noteq> 0" "objs s ob = Some x" using pr x by (auto simp: deref_defs split: if_splits)
  let ?s = "kfree_ptr d (s\<lparr>procs := (procs s)(p \<mapsto> pr\<lparr>objects := od_next dx\<rparr>), objs := (objs s)(ob \<mapsto> x\<lparr>descriptors := descriptors x - 1\<rparr>)\<rparr>)"
  have r: "objdesc_rm p i s = Some ?s" using dx e nz pr by (simp add: objdesc_rm_def upd_defs the_desc_def the_obj_def Let_def)
  then show "\<exists>dx. descs s d = Some dx \<and> objdesc_rm p i s = Some (kfree_ptr d (s\<lparr>procs := (procs s)(p \<mapsto> pr\<lparr>objects := od_next dx\<rparr>),
      objs := (objs s)(ob \<mapsto> x\<lparr>descriptors := descriptors x - 1\<rparr>)\<rparr>))" using dx by blast
  have f: "descs ?s = descs s" "next_ptr ?s = next_ptr s" by (simp_all add: kfree_ptr_def)
  have "the_proc ?s p = Some (pr\<lparr>objects := od_next dx\<rparr>)" using nz dx(2) by (simp add: kfree_ptr_def the_proc_def)
  then have "desc_list ?s p ds t"
    unfolding desc_list_def f entry_cong[OF f(1)] using h dx(4) by (intro exI[of _ "pr\<lparr>objects := od_next dx\<rparr>"]) auto
  then show "desc_list s' p ds t" if "objdesc_rm p i s = Some s'" for s' using that r by simp
qed

lemma rm_loop_skip:
  assumes "desc_path (descs s) e (xs @ b # d # ys)" and "i \<notin> fst ` entry s ` set (tl (xs @ [b]))"
  shows "rm_loop e i s = rm_loop b i s"
  using assms
proof (induction xs arbitrary: e)
  case (Cons a xs)
  then obtain x where x: "descs s a = Some x" "e = a" "a \<noteq> 0" "desc_path (descs s) (od_next x) (xs @ b # d # ys)" by auto
  obtain n nx where n: "od_next x = n" "n \<noteq> 0" "descs s n = Some nx" "n \<in> set (xs @ [b])" using x(4) by (cases xs) auto
  have "od_id nx \<noteq> i" using Cons.prems(2) n by (auto simp: entry_known) (metis entry_known fst_conv image_eqI)+
  moreover have "i \<notin> fst ` entry s ` set (tl (xs @ [b]))" using Cons.prems(2) by (cases xs) auto
  ultimately show ?case using Cons.IH[OF x(4)] x n by (subst rm_loop.simps) (simp add: the_desc_def)
qed simp

lemma objdesc_rm_loop:
  assumes l: "desc_list s p (xs @ b # d # ys) t" and d: "entry s d = (i, ob)"
  shows "objdesc_rm p i s = rm_loop b i s"
proof -
  obtain pr where pr: "the_proc s p = Some pr" using l by (auto simp: desc_list_def)
  note h = desc_listD[OF l pr]
  have ids: "i \<notin> fst ` entry s ` set (xs @ [b])" using h(5) d unfolding h(2)[symmetric] by (auto simp: image_iff)
  moreover have "set (tl (xs @ [b])) \<subseteq> set (xs @ [b])" by (cases xs) auto
  ultimately have "rm_loop (objects pr) i s = rm_loop b i s" by (intro rm_loop_skip[OF h(1)]) blast
  moreover obtain e ex where "objects pr = e" "e \<noteq> 0" "descs s e = Some ex" "e \<in> set (xs @ [b])" using h(1) by (cases xs) auto
  moreover then have "od_id ex \<noteq> i" using ids by (auto simp: entry_known) (metis entry_known fst_conv image_eqI)+
  ultimately show ?thesis using pr by (simp add: objdesc_rm_def the_desc_def)
qed

text \<open>
  Removing the descriptor at the head of the list, the one added last: exactly this
  descriptor leaves the table and is freed, and its object counts one descriptor less.
\<close>

theorem objdesc_rm_first:
  assumes "desc_list s p (d # ds) ((i, ob) # t)" and "the_obj s ob = Some x"
  shows "\<exists>s'. objdesc_rm p i s = Some s' \<and> desc_table s' p t \<and> the_obj s' ob = Some (x\<lparr>descriptors := descriptors x - 1\<rparr>)
     \<and> freed_ptrs s' = insert d (freed_ptrs s)"
proof -
  obtain pr where pr: "the_proc s p = Some pr" using assms(1) by (auto simp: desc_list_def)
  have "d \<noteq> 0" using desc_list_entry[OF assms(1), of d] by auto
  moreover have "ob \<noteq> 0" using assms(2) by (auto simp: the_obj_def split: if_splits)
  ultimately show ?thesis using objdesc_rm_head[OF assms(1) pr assms(2)] by (auto simp: desc_table_def kfree_ptr_def the_obj_def)
qed

text \<open>
  C23. Removing a descriptor that is not at the head of the list goes wrong: if it is the last
  one, the kernel dereferences the null pointer; otherwise the descriptor that follows it is freed
  although it stays in the table, and the object of that one loses the reference.
\<close>

theorem objdesc_rm_wrong:
  assumes "desc_list s p (xs @ b # d # ys) t" and "entry s d = (i, ob)"
  shows "(ys = [] \<longrightarrow> objdesc_rm p i s = None)
     \<and> (\<forall>e zs x. ys = e # zs \<longrightarrow> the_obj s (snd (entry s e)) = Some x \<longrightarrow>
        (\<exists>s'. objdesc_rm p i s = Some s' \<and> e \<in> freed_ptrs s' \<and> (d \<in> freed_ptrs s' \<longleftrightarrow> d \<in> freed_ptrs s)
          \<and> (\<exists>pr. the_proc s' p = Some pr \<and> desc_path (descs s') (objects pr) (xs @ b # e # zs))
          \<and> the_obj s' (snd (entry s e)) = Some (x\<lparr>descriptors := descriptors x - 1\<rparr>)))"
proof -
  obtain pr where pr: "the_proc s p = Some pr" using assms(1) by (auto simp: desc_list_def)
  note h = desc_listD[OF assms(1) pr]
  obtain bx dx where bx: "descs s b = Some bx" "b \<noteq> 0" "od_next bx = d" and dx: "descs s d = Some dx" "d \<noteq> 0" "od_id dx = i"
    using linked_next[OF h(1)] desc_list_entry[OF assms(1), of d] assms(2) by auto
  have dist: "distinct (xs @ b # d # ys)" by (rule linked_distinct[OF h(1)])
  have nx: "od_next dx = (case ys of [] \<Rightarrow> 0 | e # _ \<Rightarrow> e)"
    using linked_drop[of od_next "descs s" _ "xs @ [b]" d ys] h(1) dx by (cases ys) auto
  note rm = objdesc_rm_loop[OF assms]
  let ?s1 = "s\<lparr>descs := (descs s)(b \<mapsto> bx\<lparr>od_next := od_next dx\<rparr>)\<rparr>"
  show ?thesis
  proof (intro conjI impI allI)
    assume "ys = []"
    then show "objdesc_rm p i s = None" unfolding rm using bx dx nx by (subst rm_loop.simps) (simp add: upd_desc_def the_desc_def)
  next
    fix e zs x assume ys: "ys = e # zs" and x: "the_obj s (snd (entry s e)) = Some x"
    obtain ex where ex: "descs s e = Some ex" "e \<noteq> 0" "entry s e = (od_id ex, od_obj ex)" using desc_list_entry[OF assms(1), of e] ys by auto
    have ne: "b \<noteq> e" "d \<noteq> e" using dist ys by auto
    have o0: "od_obj ex \<noteq> 0" "objs s (od_obj ex) = Some x" using x ex(3) by (auto simp: the_obj_def split: if_splits)
    let ?s' = "kfree_ptr e (?s1\<lparr>objs := (objs s)(od_obj ex \<mapsto> x\<lparr>descriptors := descriptors x - 1\<rparr>)\<rparr>)"
    have "objdesc_rm p i s = Some ?s'" unfolding rm using bx dx nx ys ex ne o0
      by (subst rm_loop.simps) (simp add: upd_desc_def upd_obj_def the_desc_def the_obj_def)
    moreover have "desc_path (descs ?s') (objects pr) (xs @ b # e # zs)"
      using linked_unlink[OF h(1) dx(1), of "bx\<lparr>od_next := od_next dx\<rparr>"] ys ex(2) by (simp add: kfree_ptr_def)
    moreover have "the_proc ?s' p = Some pr" "the_obj ?s' (snd (entry s e)) = Some (x\<lparr>descriptors := descriptors x - 1\<rparr>)"
      using pr o0 ex(3) by (simp_all add: kfree_ptr_def the_obj_def)
    ultimately show "\<exists>s'. objdesc_rm p i s = Some s' \<and> e \<in> freed_ptrs s' \<and> (d \<in> freed_ptrs s' \<longleftrightarrow> d \<in> freed_ptrs s)
          \<and> (\<exists>pr. the_proc s' p = Some pr \<and> desc_path (descs s') (objects pr) (xs @ b # e # zs))
          \<and> the_obj s' (snd (entry s e)) = Some (x\<lparr>descriptors := descriptors x - 1\<rparr>)"
      using ex(2) ne by (intro exI[of _ ?s']) (simp add: kfree_ptr_def)
  qed
qed

section \<open>Closing everything\<close>

lemma closeP_head:
  assumes l: "desc_list s p (d # ds) ((i, ob) # t)" and x: "the_obj s ob = Some x"
  shows "\<exists>s'. obj_closeP p i s = Some s' \<and> desc_list s' p ds t \<and> freed_ptrs s' \<subseteq> freed_ptrs s \<union> {d, ob} \<and> insert d (freed_ptrs s) \<subseteq> freed_ptrs s'
     \<and> (\<forall>o'. o' \<noteq> ob \<longrightarrow> objs s' o' = objs s o')"
proof -
  obtain pr where pr: "the_proc s p = Some pr" using l by (auto simp: desc_list_def)
  have rd: "objdesc_read p i s = Some ob" using objdesc_read_ok[of s p "(i, ob) # t" i] l by (auto simp: desc_table_def)
  have d0: "d \<noteq> 0" using desc_list_entry[OF l, of d] by auto
  have ob0: "ob \<noteq> 0" using x by (auto simp: the_obj_def split: if_splits)
  obtain s1 where s1: "objdesc_rm p i s = Some s1" "objs s1 = (objs s)(ob \<mapsto> x\<lparr>descriptors := descriptors x - 1\<rparr>)"
      "freed_ptrs s1 = insert d (freed_ptrs s)"
    using objdesc_rm_head(1)[OF l pr x] d0 by (auto simp: kfree_ptr_def)
  have l1: "desc_list s1 p ds t" using objdesc_rm_head(2)[OF l pr x s1(1)] .
  have x1: "the_obj s1 ob = Some (x\<lparr>descriptors := descriptors x - 1\<rparr>)" using ob0 s1(2) by (simp add: the_obj_def)
  define s2 where "s2 = s1\<lparr>objs := (objs s1)(ob \<mapsto> x\<lparr>descriptors := descriptors x - 1, owner := 0\<rparr>)\<rparr>"
  have fr: "desc_list (kfree_ptr ob s1) p ds t" "desc_list s2 p ds t" unfolding desc_list_frame s2_def by (rule l1)+
  have del: "obj_delete ob s1 = Some s1 \<or> obj_delete ob s1 = Some (kfree_ptr ob s1)" by (simp add: obj_delete_def x1)
  have up: "upd_obj ob (\<lambda>x. x\<lparr>owner := 0\<rparr>) s1 = Some s2" by (simp add: upd_obj_def x1 s2_def)
  have "obj_closeP p i s = (if owner x = p then (if descriptors x - 1 > 0 then Some s2 else obj_delete ob s1)
      else if descriptors x - 1 = 0 \<and> owner x = 0 then obj_delete ob s1 else Some s1)"
    unfolding obj_closeP_def rd s1(1) Option.bind_lunit x1 up using ob0 by simp
  then consider "obj_closeP p i s = Some s1" | "obj_closeP p i s = Some (kfree_ptr ob s1)" | "obj_closeP p i s = Some s2"
    using del by (auto split: if_splits)
  then show ?thesis
  proof cases
    case 1
    then show ?thesis using l1 s1 by auto
  next
    case 2
    then show ?thesis using fr(1) s1 ob0 by (intro exI[of _ "kfree_ptr ob s1"]) (auto simp: kfree_ptr_def)
  next
    case 3
    then show ?thesis using fr(2) s1 by (intro exI[of _ s2]) (auto simp: s2_def)
  qed
qed

lemma closeall_ok:
  assumes "desc_list s p ds t" and "\<forall>e\<in>set t. \<exists>x. the_obj s (snd e) = Some x"
  shows "\<exists>s'. obj_closeall p s = Some s' \<and> desc_list s' p [] [] \<and> set ds \<subseteq> freed_ptrs s' \<and> freed_ptrs s \<subseteq> freed_ptrs s'
     \<and> freed_ptrs s' \<subseteq> freed_ptrs s \<union> set ds \<union> snd ` set t"
  using assms
proof (induction ds arbitrary: s t)
  case Nil
  then obtain pr where "the_proc s p = Some pr" "objects pr = 0" "t = []" by (auto simp: desc_list_def)
  then show ?case using Nil.prems(1) by (subst obj_closeall.simps) simp
next
  case (Cons d ds)
  obtain pr where pr: "the_proc s p = Some pr" using Cons.prems(1) by (auto simp: desc_list_def)
  note h = desc_listD[OF Cons.prems(1) pr]
  obtain i ob t' where t: "t = (i, ob) # t'" using h(2) by (cases t) auto
  obtain dx where dx: "descs s d = Some dx" "d \<noteq> 0" "objects pr = d" "od_id dx = i" using h(1,2) t by (auto simp: entry_known)
  obtain x where x: "the_obj s ob = Some x" using Cons.prems(2) t by auto
  obtain s1 where s1: "obj_closeP p i s = Some s1" "desc_list s1 p ds t'" "freed_ptrs s1 \<subseteq> freed_ptrs s \<union> {d, ob}"
      "insert d (freed_ptrs s) \<subseteq> freed_ptrs s1" "\<forall>o'. o' \<noteq> ob \<longrightarrow> objs s1 o' = objs s o'"
    using closeP_head[OF Cons.prems(1)[unfolded t] x] by blast
  have "\<forall>e\<in>set t'. \<exists>x. the_obj s1 (snd e) = Some x"
  proof
    fix e assume e: "e \<in> set t'"
    then have "snd e \<noteq> ob" using h(6) t by auto
    moreover obtain x where "the_obj s (snd e) = Some x" using Cons.prems(2) e t by auto
    ultimately show "\<exists>x. the_obj s1 (snd e) = Some x" using s1(5) by (simp add: the_obj_def split: if_splits)
  qed
  then obtain s2 where s2: "obj_closeall p s1 = Some s2" "desc_list s2 p [] []" "set ds \<subseteq> freed_ptrs s2" "freed_ptrs s1 \<subseteq> freed_ptrs s2"
      "freed_ptrs s2 \<subseteq> freed_ptrs s1 \<union> set ds \<union> snd ` set t'"
    using Cons.IH[OF s1(2)] by blast
  have "obj_closeall p s = Some s2" using pr dx s1(1) s2(1) by (subst obj_closeall.simps) (simp add: the_desc_def)
  moreover have "set (d # ds) \<subseteq> freed_ptrs s2" "freed_ptrs s \<subseteq> freed_ptrs s2" using s1(4) s2(3,4) by auto
  moreover have "freed_ptrs s2 \<subseteq> freed_ptrs s \<union> set (d # ds) \<union> snd ` set t" using s1(3) s2(5) t by auto
  ultimately show ?case using s2(2) by blast
qed

text \<open>
  Closing all objects of a process ends, and in the end the process has no descriptor left:
  every descriptor is freed, and nothing else but some of the objects they referred to.
\<close>

theorem obj_closeall_terminates:
  assumes "desc_list s p ds t" and "\<forall>e\<in>set t. \<exists>x. the_obj s (snd e) = Some x"
  shows "\<exists>s'. obj_closeall p s = Some s' \<and> desc_table s' p [] \<and> set ds \<subseteq> freed_ptrs s'
     \<and> freed_ptrs s' \<subseteq> freed_ptrs s \<union> set ds \<union> snd ` set t"
  using closeall_ok[OF assms] by (auto simp: desc_table_def)

section \<open>A concrete state\<close>

text \<open>Process 1 has the descriptors 0, 1 and 2 to the objects 10, 11 and 12.\<close>

definition object_demo :: kernel where
  "object_demo = (kernel0 (\<lambda>_. True) (\<lambda>_. 0))\<lparr>next_ptr := 30,
     procs := [1 \<mapsto> \<lparr>pid = 1, uid = 0, privilege = 3, thread_count = 1, parent = 0, pagedir = 0, stacksBottom = 0xDF000000,
       objects = 22, next_objdesc = 3, heapseg = 0, pr_next = 0, threads = 2\<rparr>],
     objs := [10 \<mapsto> \<lparr>owner = 1, descriptors = 1, busyMutex = 0, ob_request = 0, wakeupOnRq = 0\<rparr>,
              11 \<mapsto> \<lparr>owner = 0, descriptors = 1, busyMutex = 0, ob_request = 0, wakeupOnRq = 0\<rparr>,
              12 \<mapsto> \<lparr>owner = 1, descriptors = 1, busyMutex = 0, ob_request = 0, wakeupOnRq = 0\<rparr>,
              13 \<mapsto> \<lparr>owner = 2, descriptors = 4, busyMutex = 0, ob_request = 0, wakeupOnRq = 0\<rparr>],
     descs := [20 \<mapsto> \<lparr>od_obj = 10, od_id = 0, od_next = 0\<rparr>, 21 \<mapsto> \<lparr>od_obj = 11, od_id = 1, od_next = 20\<rparr>,
               22 \<mapsto> \<lparr>od_obj = 12, od_id = 2, od_next = 21\<rparr>]\<rparr>"

lemma object_demo_list: "desc_list object_demo 1 [22, 21, 20] [(2, 12), (1, 11), (0, 10)]"
  by (simp add: desc_list_def object_demo_def the_proc_def entry_def)

lemma object_demo_objs: "the_obj object_demo 10 = Some \<lparr>owner = 1, descriptors = 1, busyMutex = 0, ob_request = 0, wakeupOnRq = 0\<rparr>"
  "the_obj object_demo 11 = Some \<lparr>owner = 0, descriptors = 1, busyMutex = 0, ob_request = 0, wakeupOnRq = 0\<rparr>"
  "the_obj object_demo 12 = Some \<lparr>owner = 1, descriptors = 1, busyMutex = 0, ob_request = 0, wakeupOnRq = 0\<rparr>"
  "the_obj object_demo 13 = Some \<lparr>owner = 2, descriptors = 4, busyMutex = 0, ob_request = 0, wakeupOnRq = 0\<rparr>"
  by (simp_all add: object_demo_def the_obj_def)

theorem objdesc_add_roundtrip_witness:
  "\<exists>i s'. objdesc_add 1 13 object_demo = Some (i, s') \<and> objdesc_read 1 i s' = Some 13 \<and> objdesc_get 1 13 s' = Some i"
proof -
  have "desc_table object_demo 1 [(2, 12), (1, 11), (0, 10)]" using object_demo_list by (auto simp: desc_table_def)
  moreover have "can_add object_demo 1 13" using object_demo_objs(4) by (simp add: can_add_def) (simp add: object_demo_def the_proc_def)
  ultimately show ?thesis using objdesc_add_roundtrip[OF _ _ _ object_demo_objs(4)] by fastforce
qed

theorem objdesc_rm_first_witness:
  "\<exists>s'. objdesc_rm 1 2 object_demo = Some s' \<and> desc_table s' 1 [(1, 11), (0, 10)]"
  using objdesc_rm_first[OF object_demo_list object_demo_objs(3)] by blast

theorem objdesc_rm_wrong_witness:
  "objdesc_rm 1 0 object_demo = None \<and> (\<exists>s'. objdesc_rm 1 1 object_demo = Some s' \<and> 20 \<in> freed_ptrs s'
     \<and> (\<exists>pr. the_proc s' 1 = Some pr \<and> desc_path (descs s') (objects pr) [22, 20]))"
proof -
  have e: "entry object_demo 20 = (0, 10)" "entry object_demo 21 = (1, 11)" by (simp_all add: entry_def object_demo_def)
  have l: "desc_list object_demo 1 ([22] @ 21 # 20 # []) [(2, 12), (1, 11), (0, 10)]" "desc_list object_demo 1 ([] @ 22 # 21 # 20 # []) [(2, 12), (1, 11), (0, 10)]"
    using object_demo_list by simp_all
  show ?thesis using objdesc_rm_wrong[OF l(1) e(1)] objdesc_rm_wrong[OF l(2) e(2)] e(1) object_demo_objs(1) by auto
qed

theorem obj_closeall_terminates_witness:
  "\<exists>s'. obj_closeall 1 object_demo = Some s' \<and> desc_table s' 1 [] \<and> {20, 21, 22} \<subseteq> freed_ptrs s'"
  using obj_closeall_terminates[OF object_demo_list] object_demo_objs by auto

end
