(* ===== verification/Process.thy ===== *)
theory Process
  imports Seg Tasking Object
begin

text \<open>
  Creation and deletion of threads and processes: the second half of
  \<^verbatim>\<open>src/kernel/task/task.c\<close>. The functions that end a thread do not return to it: they
  yield the registers and the state with which the next thread goes on.
\<close>

section \<open>Model\<close>

definition KSTACKSIZE :: u32 where "KSTACKSIZE = 0x8000"
definition USER_STACK_SIZE :: u32 where "USER_STACK_SIZE = 0x8000"
definition EX_TH_NORMAL :: u32 where "EX_TH_NORMAL = 0x10000"
definition EX_TH_EXCEPTION :: u32 where "EX_TH_EXCEPTION = 0x10001"
definition EX_PR_EXCEPTION :: u32 where "EX_PR_EXCEPTION = 0x10002"

lemmas exit_consts = EX_TH_NORMAL_def EX_TH_EXCEPTION_def EX_PR_EXCEPTION_def

subsection \<open>New threads\<close>

definition blank_thread :: "ptr \<Rightarrow> nat \<Rightarrow> thread" where
  "blank_thread proc junk = \<lparr>th_process = proc, th_esp = of_nat junk, th_ebp = of_nat junk, th_eip = of_nat junk, th_state = of_nat junk,
     kernelStack_addr = junk, kernelStack_size = of_nat junk, userStack_seg = junk, th_next = 0, queue_next = junk\<rparr>"

definition new_user_stack :: "ptr \<Rightarrow> ptr \<Rightarrow> kernel \<Rightarrow> kernel option" where
  "new_user_stack proc t s = do {
     s \<leftarrow> upd_proc proc (\<lambda>p. p\<lparr>stacksBottom := stacksBottom p - USER_STACK_SIZE\<rparr>) s;
     p \<leftarrow> the_proc s proc;
     let (sg, s) = simpleseg_make (stacksBottom p) USER_STACK_SIZE True s;
     (m, s) \<leftarrow> seg_map sg (pagedir p) 0 s;
     upd_thr t (\<lambda>x. x\<lparr>userStack_seg := m\<rparr>) s }"

text \<open>The last thread of the list from \<open>i\<close>.\<close>

partial_function (option) last_thread :: "kernel \<Rightarrow> ptr \<Rightarrow> ptr option" where
  "last_thread s i = do { x \<leftarrow> the_thr s i; if th_next x \<noteq> 0 then last_thread s (th_next x) else Some i }"

definition append_thread :: "ptr \<Rightarrow> ptr \<Rightarrow> kernel \<Rightarrow> kernel option" where
  "append_thread proc t s = do {
     p \<leftarrow> the_proc s proc;
     if threads p = 0 then upd_proc proc (\<lambda>p. p\<lparr>threads := t\<rparr>) s
     else do { i \<leftarrow> last_thread s (threads p); upd_thr i (\<lambda>x. x\<lparr>th_next := t\<rparr>) s } }"

definition init_kernel_stack :: "ptr \<Rightarrow> u32 \<Rightarrow> u32 \<Rightarrow> kernel \<Rightarrow> kernel option" where
  "init_kernel_stack t entry_point dat s = (
     let (ks, s) = kmalloc_ptr s;
         s = s\<lparr>kstacks := (kstacks s)(ks \<mapsto> [0, of_nat t, entry_point, dat])\<rparr>;
         stack = of_nat ks + KSTACKSIZE - 16 in
     upd_thr t (\<lambda>x. x\<lparr>kernelStack_addr := ks, kernelStack_size := KSTACKSIZE, th_esp := stack, th_ebp := stack + 8,
       th_eip := thread_run_addr s, th_state := TS_RUNNING\<rparr>) s)"

definition thread_new :: "ptr \<Rightarrow> u32 \<Rightarrow> u32 \<Rightarrow> kernel \<Rightarrow> (ptr \<times> kernel) option" where
  "thread_new proc entry_point dat s = do {
     let (t, s) = kmalloc_ptr s;
     let s = s\<lparr>thrs := (thrs s)(t \<mapsto> blank_thread proc (kjunk s t))\<rparr>;
     s \<leftarrow> upd_proc proc (\<lambda>p. p\<lparr>thread_count := thread_count p + 1\<rparr>) s;
     p \<leftarrow> the_proc s proc;
     s \<leftarrow> (if privilege p \<ge> PL_SERVICE then new_user_stack proc t s else Some s);
     s \<leftarrow> init_kernel_stack t entry_point dat s;
     s \<leftarrow> sched_enqueue t s;
     s \<leftarrow> append_thread proc t s;
     Some (t, s) }"

text \<open>What a new thread does first: it jumps to user mode with a stack pointer, or calls its entry point in the kernel.\<close>

datatype start = User_mode u32 u32 "u32 list" | Kernel_mode u32 u32

definition thread_run :: "ptr \<Rightarrow> u32 \<Rightarrow> u32 \<Rightarrow> kernel \<Rightarrow> (start \<times> kernel) option" where
  "thread_run t entry_point dat s = do {
     th \<leftarrow> the_thr s t;
     p \<leftarrow> the_proc s (th_process th);
     s \<leftarrow> pagedir_switch (pagedir p) s;
     if privilege p \<ge> PL_SERVICE then do {
       m \<leftarrow> the_map s (userStack_seg th);
       Some (User_mode (sm_start m + sm_len m - 8) entry_point [0, dat], s) }
     else Some (Kernel_mode entry_point dat, s) }"

subsection \<open>New processes\<close>

definition process_new :: "ptr \<Rightarrow> u32 \<Rightarrow> u32 \<Rightarrow> kernel \<Rightarrow> (ptr \<times> kernel) option" where
  "process_new par uid' priv s = do {
     let (p, s) = kmalloc_ptr s;
     let n = nextpid s;
     let s = s\<lparr>nextpid := nextpid s + 1\<rparr>;
     (pd, s) \<leftarrow> pagedir_new s;
     let s = s\<lparr>procs := (procs s)(p \<mapsto> \<lparr>pid = n, uid = uid', privilege = priv, thread_count = 0, parent = par, pagedir = pd,
       stacksBottom = 0xDF000000, objects = 0, next_objdesc = 0, heapseg = 0, pr_next = processes s, threads = kjunk s p\<rparr>)\<rparr>;
     let (ob, s) = obj_new p s;
     let s = (if manager_object s = 0 then s\<lparr>manager_object := ob\<rparr> else s);
     (_, s) \<leftarrow> objdesc_add p ob s;
     (_, s) \<leftarrow> objdesc_add p (manager_object s) s;
     Some (p, s\<lparr>processes := p\<rparr>) }"

text \<open>\<open>idle\<close> is the address of \<open>task_idle\<close>.\<close>

definition tasking_init :: "u32 \<Rightarrow> kernel \<Rightarrow> kernel option" where
  "tasking_init idle s = do {
     let s = cli s;
     let (kp, s) = kmalloc_ptr s;
     let j = kjunk s kp;
     let s = s\<lparr>kernel_process := kp, procs := (procs s)(kp \<mapsto> \<lparr>pid = 0, uid = 0, privilege = PL_KERNEL, thread_count = 0, parent = kp,
       pagedir = kernel_pagedir s, stacksBottom = of_nat j, objects = j, next_objdesc = of_nat j, heapseg = j, pr_next = 0, threads = j\<rparr>),
       current_thread := 0\<rparr>;
     (t, s) \<leftarrow> thread_new kp idle 0 s;
     let s = s\<lparr>idle_thread := t\<rparr>;
     s \<leftarrow> upd_proc kp (\<lambda>p. p\<lparr>threads := t\<rparr>) s;
     Some (snd (sti s)) }"

subsection \<open>Deletion\<close>

partial_function (option) unlink_thread :: "ptr \<Rightarrow> ptr \<Rightarrow> ptr \<Rightarrow> kernel \<Rightarrow> kernel option" where
  "unlink_thread it th nxt s =
     (if it = 0 then Some s
      else do {
        x \<leftarrow> the_thr s it;
        if th_next x = th then upd_thr it (\<lambda>x. x\<lparr>th_next := nxt\<rparr>) s else unlink_thread (th_next x) th nxt s })"

definition thread_delete :: "ptr \<Rightarrow> kernel \<Rightarrow> kernel option" where
  "thread_delete th s = do {
     x \<leftarrow> the_thr s th;
     p \<leftarrow> the_proc s (th_process x);
     s \<leftarrow> (if threads p = th then upd_proc (th_process x) (\<lambda>p. p\<lparr>threads := th_next x\<rparr>) s
          else unlink_thread (threads p) th (th_next x) s);
     let s = (if current_thread s = th then s\<lparr>current_thread := 0\<rparr> else s);
     s \<leftarrow> upd_proc (th_process x) (\<lambda>p. p\<lparr>thread_count := thread_count p - 1\<rparr>) s;
     let s = kfree_ptr (kernelStack_addr x) s;
     s \<leftarrow> (if userStack_seg x \<noteq> 0 then seg_unmap (userStack_seg x) s else Some s);
     Some (kfree_ptr th s) }"

text \<open>The loop over the threads reads the link of a thread that was freed.\<close>

partial_function (option) delete_threads :: "ptr \<Rightarrow> kernel \<Rightarrow> kernel option" where
  "delete_threads it s =
     (if it = 0 then Some s
      else do {
        s \<leftarrow> thread_delete it s;
        x \<leftarrow> the_thr s it;
        delete_threads (th_next x) s })"

partial_function (option) unlink_process :: "ptr \<Rightarrow> ptr \<Rightarrow> ptr \<Rightarrow> kernel \<Rightarrow> kernel option" where
  "unlink_process it pr nxt s =
     (if it = 0 then Some s
      else do {
        x \<leftarrow> the_proc s it;
        if pr_next x = pr then upd_proc it (\<lambda>x. x\<lparr>pr_next := nxt\<rparr>) s else unlink_process (pr_next x) pr nxt s })"

definition process_delete :: "ptr \<Rightarrow> kernel \<Rightarrow> kernel option" where
  "process_delete pr s = do {
     p \<leftarrow> the_proc s pr;
     s \<leftarrow> delete_threads (threads p) s;
     s \<leftarrow> obj_closeall pr s;
     p \<leftarrow> the_proc s pr;
     s \<leftarrow> (if processes s = pr then Some (s\<lparr>processes := pr_next p\<rparr>) else unlink_process (processes s) pr (pr_next p) s);
     s \<leftarrow> pagedir_delete (pagedir p) s;
     Some (kfree_ptr pr s) }"

subsection \<open>Exits\<close>

definition thread_exit2 :: "u32 \<Rightarrow> cpu \<Rightarrow> kernel \<Rightarrow> (cpu \<times> kernel) option" where
  "thread_exit2 reason r s = do {
     s \<leftarrow> (if current_thread s = 0 then Some s
          else do {
            th \<leftarrow> the_thr s (current_thread s);
            if th_process th = 0 then Some s
            else do {
              pr \<leftarrow> the_proc s (th_process th);
              if (reason = EX_TH_NORMAL \<or> reason = EX_TH_EXCEPTION) \<and> thread_count pr > 1
              then thread_delete (current_thread s) s
              else process_delete (th_process th) s } });
     tasking_switch r (snd (sti s)) }"

text \<open>The page directory of the kernel is loaded, but not recorded in \<open>current_pagedir\<close>. \<open>r\<close> are the registers on the temporary stack.\<close>

definition thread_exit_stackJmp :: "u32 \<Rightarrow> cpu \<Rightarrow> kernel \<Rightarrow> (cpu \<times> kernel) option" where
  "thread_exit_stackJmp reason r s = do {
     let s = cli s;
     _ \<leftarrow> the_pd s (kernel_pagedir s);
     thread_exit2 reason r (s\<lparr>mpresent := hw_present s (kernel_pagedir s)\<rparr>) }"

definition thread_exit :: "cpu \<Rightarrow> kernel \<Rightarrow> (cpu \<times> kernel) option" where
  "thread_exit r s = thread_exit_stackJmp EX_TH_NORMAL r s"

definition process_exit :: "u32 \<Rightarrow> cpu \<Rightarrow> kernel \<Rightarrow> (cpu \<times> kernel) option" where
  "process_exit retval r s =
     thread_exit_stackJmp (if retval = EX_TH_NORMAL \<or> retval = EX_TH_EXCEPTION then EX_PR_EXCEPTION else retval) r s"

text \<open>
  Exceptions: before tasking the handler returns 0 (\<^const>\<open>Inl\<close>), otherwise it ends the thread or, for a page fault,
  the process (\<^const>\<open>Inr\<close>). There are 19 messages; a kernel exception panics.
\<close>

definition tasking_handleException :: "u32 \<Rightarrow> u32 \<Rightarrow> cpu \<Rightarrow> kernel \<Rightarrow> (u32 + (cpu \<times> kernel)) option" where
  "tasking_handleException int_no eip' r s =
     (if current_thread s = 0 then Some (Inl 0)
      else if int_no \<ge> 19 then None
      else if eip' \<ge> 0xE0000000 then None
      else do {
        x \<leftarrow> thread_exit_stackJmp (if int_no = 14 then EX_PR_EXCEPTION else EX_TH_EXCEPTION) r s;
        Some (Inr x) })"

subsection \<open>The heap segment\<close>

definition map_heapseg :: "ptr \<Rightarrow> u32 \<Rightarrow> u32 \<Rightarrow> kernel \<Rightarrow> (u32 \<times> kernel) option" where
  "map_heapseg pr start len s = do {
     let (sg, s) = simpleseg_make start len True s;
     if sg = 0 then Some (- 5, s)
     else do {
       p \<leftarrow> the_proc s pr;
       (m, s) \<leftarrow> seg_map sg (pagedir p) 0 s;
       s \<leftarrow> upd_proc pr (\<lambda>p. p\<lparr>heapseg := m\<rparr>) s;
       Some (if m = 0 then - 1 else 0, s) } }"

definition process_setheapseg :: "u32 \<Rightarrow> u32 \<Rightarrow> kernel \<Rightarrow> (u32 \<times> kernel) option" where
  "process_setheapseg start end' s = do {
     pr \<leftarrow> current_process s;
     if start \<ge> 0xE0000000 \<or> end' \<ge> 0xE0000000 then Some (- 1, s)
     else do {
       p \<leftarrow> the_proc s pr;
       if heapseg p = 0 then map_heapseg pr start (end' - start) s
       else do {
         m \<leftarrow> the_map s (heapseg p);
         if sm_start m \<noteq> start then do {
           s \<leftarrow> seg_unmap (heapseg p) s;
           map_heapseg pr start (end' - start) s }
         else simpleseg_resize (heapseg p) (end' - start) s } } }"

section \<open>Creating a thread\<close>

lemma seg_map_procs: "seg_map seg pd off s = Some (m, s') \<Longrightarrow> procs s' = procs s"
  by (auto simp: seg_map_def simpleseg_map_def shmseg_map_def new_map_def kmalloc_ptr_def upd_seg_def upd_map_def upd_pd_def Let_def
      split: bind_splits if_splits segdata.splits)

text \<open>The segment and the mapping of a user stack that ends at \<open>b\<close>, at the pointers from \<open>n\<close> on.\<close>

definition stack_seg :: "u32 \<Rightarrow> ptr \<Rightarrow> segment" where
  "stack_seg b n = \<lparr>sg_data = SimpleSeg \<lparr>ss_writable = True, ss_start = b - USER_STACK_SIZE, ss_len = USER_STACK_SIZE\<rparr>, sg_dataAt = n, sg_mappings = 1\<rparr>"

definition stack_map :: "u32 \<Rightarrow> ptr \<Rightarrow> ptr \<Rightarrow> ptr \<Rightarrow> segment_map" where
  "stack_map b n pd nxt = \<lparr>sm_seg = n + 1, sm_pagedir = pd, sm_start = b - USER_STACK_SIZE, sm_len = USER_STACK_SIZE, sm_next = nxt\<rparr>"

definition with_stack :: "ptr \<Rightarrow> ptr \<Rightarrow> process \<Rightarrow> page_directory \<Rightarrow> thread \<Rightarrow> kernel \<Rightarrow> kernel" where
  "with_stack proc t p d th s = (let n = next_ptr s in
     s\<lparr>next_ptr := n + 3, procs := (procs s)(proc \<mapsto> p\<lparr>stacksBottom := stacksBottom p - USER_STACK_SIZE\<rparr>),
       segs := (segs s)(n + 1 \<mapsto> stack_seg (stacksBottom p) n),
       segmaps := (segmaps s)(n + 2 \<mapsto> stack_map (stacksBottom p) n (pagedir p) (pd_mappedSegs d)),
       pdirs := (pdirs s)(pagedir p \<mapsto> d\<lparr>pd_mappedSegs := n + 2\<rparr>), thrs := (thrs s)(t \<mapsto> th\<lparr>userStack_seg := n + 2\<rparr>)\<rparr>)"

lemma new_user_stack_eq:
  assumes "the_proc s proc = Some p" and "the_pd s (pagedir p) = Some d" and "the_thr s t = Some th"
  shows "new_user_stack proc t s = Some (with_stack proc t p d th s)"
proof -
  have nz: "proc \<noteq> 0" "pagedir p \<noteq> 0" "t \<noteq> 0" "procs s proc = Some p" "pdirs s (pagedir p) = Some d" "thrs s t = Some th"
    using assms by (auto simp: deref_defs split: if_splits)
  then show ?thesis
    by (simp add: new_user_stack_def with_stack_def simpleseg_make_def seg_map_def simpleseg_map_def new_map_def kmalloc_ptr_def Let_def
        upd_proc_def upd_seg_def upd_map_def upd_pd_def upd_thr_def deref_defs stack_seg_def stack_map_def)
qed

text \<open>The thread that a call of \<open>thread_new\<close> makes and the state before it is entered in the queues and lists.\<close>

definition made_thread :: "ptr \<Rightarrow> ptr \<Rightarrow> ptr \<Rightarrow> u32 \<Rightarrow> nat \<Rightarrow> thread" where
  "made_thread proc us ks run junk = \<lparr>th_process = proc, th_esp = of_nat ks + KSTACKSIZE - 16, th_ebp = of_nat ks + KSTACKSIZE - 8, th_eip = run,
     th_state = TS_RUNNING, kernelStack_addr = ks, kernelStack_size = KSTACKSIZE, userStack_seg = us, th_next = 0, queue_next = junk\<rparr>"

definition made :: "ptr \<Rightarrow> process \<Rightarrow> page_directory \<Rightarrow> u32 \<Rightarrow> u32 \<Rightarrow> kernel \<Rightarrow> kernel" where
  "made proc p d entry_point dat s = (
     let t = next_ptr s; junk = kjunk s t;
         s1 = s\<lparr>next_ptr := t + 1, thrs := (thrs s)(t \<mapsto> blank_thread proc junk),
                procs := (procs s)(proc \<mapsto> p\<lparr>thread_count := thread_count p + 1\<rparr>)\<rparr>;
         user = (privilege p \<ge> PL_SERVICE);
         s2 = (if user then with_stack proc t (p\<lparr>thread_count := thread_count p + 1\<rparr>) d (blank_thread proc junk) s1 else s1);
         ks = next_ptr s2; us = (if user then next_ptr s1 + 2 else junk) in
     s2\<lparr>next_ptr := ks + 1, kstacks := (kstacks s2)(ks \<mapsto> [0, of_nat t, entry_point, dat]),
       thrs := (thrs s2)(t \<mapsto> made_thread proc us ks (thread_run_addr s) junk)\<rparr>)"

lemma thread_new_eq:
  assumes "the_proc s proc = Some p" and "the_pd s (pagedir p) = Some d" and "next_ptr s \<noteq> 0"
  shows "thread_new proc entry_point dat s = do {
     s1 \<leftarrow> sched_enqueue (next_ptr s) (made proc p d entry_point dat s);
     s2 \<leftarrow> append_thread proc (next_ptr s) s1; Some (next_ptr s, s2) }"
proof -
  let ?t = "next_ptr s" and ?p = "p\<lparr>thread_count := thread_count p + 1\<rparr>"
  let ?s1 = "s\<lparr>next_ptr := ?t + 1, thrs := (thrs s)(?t \<mapsto> blank_thread proc (kjunk s ?t)), procs := (procs s)(proc \<mapsto> ?p)\<rparr>"
  have nz: "proc \<noteq> 0" "procs s proc = Some p" using assms(1) by (auto simp: the_proc_def split: if_splits)
  have p1: "the_proc ?s1 proc = Some ?p" "the_pd ?s1 (pagedir ?p) = Some d" "the_thr ?s1 ?t = Some (blank_thread proc (kjunk s ?t))"
    using nz assms(2,3) by (simp_all add: the_proc_def the_thr_def)
  have st: "new_user_stack proc ?t ?s1 = Some (with_stack proc ?t ?p d (blank_thread proc (kjunk s ?t)) ?s1)"
    by (rule new_user_stack_eq[OF p1])
  have init: "init_kernel_stack ?t entry_point dat (if privilege p \<ge> PL_SERVICE then with_stack proc ?t ?p d (blank_thread proc (kjunk s ?t)) ?s1 else ?s1)
      = Some (made proc p d entry_point dat s)"
    using assms(3) by (auto simp: init_kernel_stack_def kmalloc_ptr_def Let_def upd_thr_def the_thr_def made_def made_thread_def blank_thread_def
        with_stack_def intro!: kernel.equality)
  show ?thesis using nz assms st init
    by (simp add: thread_new_def kmalloc_ptr_def upd_proc_def the_proc_def split: if_splits)
qed

lemma made_fields:
  fixes s :: kernel
  defines "t \<equiv> next_ptr s" and "user \<equiv> \<lambda>p. privilege p \<ge> PL_SERVICE"
  defines "ks \<equiv> \<lambda>p. if user p then t + 4 else t + 1"
  shows "thrs (made proc p d e a s) = (thrs s)(t \<mapsto> made_thread proc (if user p then t + 3 else kjunk s t) (ks p) (thread_run_addr s) (kjunk s t))"
    "procs (made proc p d e a s) = (procs s)(proc \<mapsto> p\<lparr>thread_count := thread_count p + 1,
        stacksBottom := stacksBottom p - (if user p then USER_STACK_SIZE else 0)\<rparr>)"
    "pdirs (made proc p d e a s) = (if user p then (pdirs s)(pagedir p \<mapsto> d\<lparr>pd_mappedSegs := t + 3\<rparr>) else pdirs s)"
    "kstacks (made proc p d e a s) = (kstacks s)(ks p \<mapsto> [0, of_nat t, e, a])"
    "segmaps (made proc p d e a s) = (if user p then (segmaps s)(t + 3 \<mapsto> stack_map (stacksBottom p) (t + 1) (pagedir p) (pd_mappedSegs d)) else segmaps s)"
    "freed_ptrs (made proc p d e a s) = freed_ptrs s" "idle_thread (made proc p d e a s) = idle_thread s"
    "rqueue (made proc p d e a s) = rqueue s" "rlast (made proc p d e a s) = rlast s" "current_thread (made proc p d e a s) = current_thread s"
    "processes (made proc p d e a s) = processes s"
  by (simp_all add: made_def with_stack_def Let_def user_def ks_def t_def numeral_3_eq_3 eval_nat_numeral)

lemma last_thread_ok: "linked th_next (thrs s) i (ts @ [l]) \<Longrightarrow> last_thread s i = Some l"
proof (induction ts arbitrary: i)
  case Nil
  then show ?case by (subst last_thread.simps) (auto simp: the_thr_def)
next
  case (Cons a ts)
  then obtain x where x: "thrs s a = Some x" "i = a" "a \<noteq> 0" "linked th_next (thrs s) (th_next x) (ts @ [l])" by auto
  have "th_next x \<noteq> 0" using x(4) by (cases ts) auto
  then show ?case using Cons.IH[OF x(4)] x by (subst last_thread.simps) (simp add: the_thr_def)
qed

lemma append_thread_ok:
  assumes I: "sched_inv c s Q" and p: "the_proc s proc = Some p" and t: "the_thr s t = Some th" "th_next th = 0"
    and ts: "linked th_next (thrs s) (threads p) ts" "t \<notin> set ts"
  shows "\<exists>s' p'. append_thread proc t s = Some s' \<and> sched_inv c s' Q \<and> the_proc s' proc = Some p' \<and> (\<exists>x. p' = p\<lparr>threads := x\<rparr>)
     \<and> linked th_next (thrs s') (threads p') (ts @ [t]) \<and> (\<exists>q. the_thr s' t = Some (th\<lparr>queue_next := q\<rparr>)) \<and> kstacks s' = kstacks s
     \<and> segmaps s' = segmaps s \<and> current_thread s' = current_thread s \<and> processes s' = processes s"
proof -
  have nz: "proc \<noteq> 0" "t \<noteq> 0" "thrs s t = Some th" using p t by (auto simp: deref_defs split: if_splits)
  show ?thesis
  proof (cases ts rule: rev_cases)
    case Nil
    let ?s = "s\<lparr>procs := (procs s)(proc \<mapsto> p\<lparr>threads := t\<rparr>)\<rparr>"
    have "sched_inv c ?s Q" using sched_inv_upd_proc[OF I p, of "\<lambda>p. p\<lparr>threads := t\<rparr>"] by simp
    moreover have "append_thread proc t s = Some ?s" using p ts(1) Nil by (simp add: append_thread_def upd_proc_def)
    moreover have "\<exists>q. the_thr ?s t = Some (th\<lparr>queue_next := q\<rparr>)" using t by (intro exI[of _ "queue_next th"]) simp
    ultimately show ?thesis using nz t Nil
      by (intro exI[of _ ?s] exI[of _ "p\<lparr>threads := t\<rparr>"]) (auto simp: the_proc_def)
  next
    case (snoc us l)
    obtain lx where lx: "thrs s l = Some lx" "l \<noteq> 0" "l \<noteq> t" using linked_known[OF ts(1)] snoc ts(2) by fastforce
    let ?s = "s\<lparr>thrs := (thrs s)(l \<mapsto> lx\<lparr>th_next := t\<rparr>)\<rparr>"
    have h0: "threads p \<noteq> 0" using ts(1) snoc by (cases us) auto
    have "sched_inv c ?s Q" using sched_inv_upd_thr[OF I, of l lx "\<lambda>x. x\<lparr>th_next := t\<rparr>"] lx by (simp add: the_thr_def)
    moreover have "append_thread proc t s = Some ?s"
      using p h0 last_thread_ok[of s "threads p" us l] ts(1) snoc lx by (simp add: append_thread_def upd_thr_def the_thr_def)
    moreover have "linked th_next (thrs ?s) (threads p) (ts @ [t])"
      using linked_snoc[of th_next "thrs s" "threads p" us l t "lx\<lparr>th_next := t\<rparr>" th] ts snoc nz t by simp
    moreover have "\<exists>q. the_thr ?s t = Some (th\<lparr>queue_next := q\<rparr>)" using nz lx(3) by (intro exI[of _ "queue_next th"]) (simp add: the_thr_def)
    moreover have "\<exists>x. p = p\<lparr>threads := x\<rparr>" by (intro exI[of _ "threads p"]) simp
    ultimately show ?thesis using p by (intro exI[of _ ?s] exI[of _ p]) simp
  qed
qed

lemma made_sched:
  fixes s :: kernel
  defines "t \<equiv> next_ptr s"
  assumes I: "sched_inv c s Q" and p: "the_proc s proc = Some p" "unat (privilege p) < PRIORITIES" "the_pd s (pagedir p) = Some d"
    and t: "t \<noteq> 0" "thrs s t = None" "t \<notin> freed_ptrs s"
  shows "\<exists>s' q. sched_enqueue t (made proc p d e a s) = Some s' \<and> PRIORITY (made proc p d e a s) t = Some q \<and> q = unat (privilege p)
     \<and> sched_inv c s' (Q(q := Q q @ [t])) \<and> queues_only (made proc p d e a s) s'"
proof -
  let ?M = "made proc p d e a s"
  note m = made_fields[where proc = proc and p = p and d = d and e = e and a = a and s = s, folded t_def]
  note inv = sched_invD[OF I]
  have nz: "proc \<noteq> 0" "pagedir p \<noteq> 0" "procs s proc = Some p" using p by (auto simp: deref_defs split: if_splits)
  have th: "the_thr ?M x = (if x = t then Some (made_thread proc (if privilege p \<ge> PL_SERVICE then t + 3 else kjunk s t)
      (if privilege p \<ge> PL_SERVICE then t + 4 else t + 1) (thread_run_addr s) (kjunk s t)) else the_thr s x)" for x
    using t(1) by (simp add: the_thr_def m(1))
  have nt: "the_thr s t = None" using t(2) by (simp add: the_thr_def)
  have pr: "\<exists>y'. the_proc ?M x = Some y' \<and> privilege y' = privilege y \<and> pagedir y' = pagedir y" if "the_proc s x = Some y" for x y
    using that nz by (auto simp: the_proc_def m(2) split: if_splits)
  have pd: "\<exists>y'. the_pd ?M x = Some y'" if "the_pd s x = Some y" for x y using that by (auto simp: the_pd_def m(3) split: if_splits)
  have lv: "live ?M x \<longleftrightarrow> live s x \<or> x = t" for x using t(3) nt by (auto simp: live_def th m(6))
  have it: "idle_thread s \<noteq> t" "c \<noteq> t" using inv(4,5) nt t(1) by (auto simp: live_def)
  have rd: "ready c ?M x \<longleftrightarrow> ready c s x \<or> x = t" "\<not> ready c s t" for x
    using t(3) nt it by (auto simp: ready_def th m(6,7) made_thread_def)
  have ok: "thr_ok ?M x" if lx: "live ?M x" for x
  proof (cases "x = t")
    case True
    then show ?thesis using pr[OF p(1)] p(2) pd[OF p(3)] by (auto simp: thr_ok_def th made_thread_def)
  next
    case False
    then obtain h y z where "the_thr s x = Some h" "the_proc s (th_process h) = Some y" "unat (privilege y) < PRIORITIES" "the_pd s (pagedir y) = Some z"
      using inv(3)[of x] lx lv by (auto simp: thr_ok_def)
    then show ?thesis using False pr[of "th_process h" y] pd[of "pagedir y" z] by (auto simp: thr_ok_def th)
  qed
  have prio: "PRIORITY ?M x = PRIORITY s x" if "live s x" for x
  proof -
    have "x \<noteq> t" using that nt by (auto simp: live_def)
    moreover obtain h y where "the_thr s x = Some h" "the_proc s (th_process h) = Some y"
      using sched_invD(3)[OF I \<open>live s x\<close>] by (auto simp: thr_ok_def)
    ultimately show ?thesis using pr[of "th_process h" y] by (auto simp: PRIORITY_def th)
  qed
  have pt: "PRIORITY ?M t = Some (unat (privilege p))" using pr[OF p(1)] by (auto simp: PRIORITY_def th made_thread_def)
  have nq: "t \<notin> set (Q i)" if "i < PRIORITIES" for i using inv(2)[OF that] rd(2) by simp
  have "runq (s\<lparr>thrs := thrs ?M\<rparr>) Q" unfolding m(1) by (rule runq_upd_other[OF inv(1) nq])
  then have rq: "runq ?M Q" by (simp add: runq_def m(8,9))
  have "\<exists>s' q. sched_enqueue t ?M = Some s' \<and> q < PRIORITIES \<and> PRIORITY ?M t = Some q \<and> sched_inv c s' (Q(q := Q q @ [t])) \<and> queues_only ?M s'"
  proof (rule sched_inv_add[OF rq])
    fix i x assume i: "i < PRIORITIES"
    show "x \<in> set (Q i) \<longleftrightarrow> ready c ?M x \<and> x \<noteq> t \<and> PRIORITY ?M x = Some i"
      using inv(2)[OF i, of x] rd prio[OF ready_live, of c x] by auto
  qed (use rd ok lv inv(4,5) m(7) in auto)
  then show ?thesis using pt by auto
qed

text \<open>
  C19. A new thread: \<open>thread_new\<close> for a process with a page directory succeeds; the new thread is the
  last in the list of threads of the process and the last in the queue of its priority, the
  scheduling invariant is kept, its kernel stack holds a null return address and the arguments
  \<open>(t, entry_point, data)\<close> of \<open>thread_run\<close> at the stack pointer with which it starts, and in user mode its
  user stack is the \<open>USER_STACK_SIZE\<close> bytes below the lowest stack of the process, mapped in the page directory.
\<close>

theorem thread_new_correct:
  fixes s :: kernel
  assumes I: "sched_inv c s Q" and p: "the_proc s proc = Some p" "unat (privilege p) < PRIORITIES" "the_pd s (pagedir p) = Some d"
    and t: "next_ptr s = t" "t \<noteq> 0" "thrs s t = None" "t \<notin> freed_ptrs s" and ts: "linked th_next (thrs s) (threads p) ts"
  shows "\<exists>s' p' th. thread_new proc e a s = Some (t, s') \<and> sched_inv c s' (Q(unat (privilege p) := Q (unat (privilege p)) @ [t]))
     \<and> the_proc s' proc = Some p' \<and> thread_count p' = thread_count p + 1 \<and> linked th_next (thrs s') (threads p') (ts @ [t])
     \<and> the_thr s' t = Some th \<and> th_process th = proc \<and> th_state th = TS_RUNNING \<and> th_eip th = thread_run_addr s
     \<and> th_esp th = of_nat (kernelStack_addr th) + kernelStack_size th - 16
     \<and> kstacks s' (kernelStack_addr th) = Some [0, of_nat t, e, a]
     \<and> (if privilege p \<ge> PL_SERVICE
        then stacksBottom p' = stacksBottom p - USER_STACK_SIZE
          \<and> segmaps s' (userStack_seg th) = Some (stack_map (stacksBottom p) (t + 1) (pagedir p) (pd_mappedSegs d))
        else stacksBottom p' = stacksBottom p)"
proof -
  let ?M = "made proc p d e a s" and ?Q = "Q(unat (privilege p) := Q (unat (privilege p)) @ [t])"
  note m = made_fields[where proc = proc and p = p and d = d and e = e and a = a and s = s, unfolded t(1)]
  obtain s1 where s1: "sched_enqueue t ?M = Some s1" "sched_inv c s1 ?Q" "queues_only ?M s1"
    using made_sched[OF I p] t by auto
  note f = queues_only_fields[OF s1(3)] and o = switch_only_fields[OF enqueue_only[OF s1(1)]]
  have nz: "proc \<noteq> 0" using p(1) by (auto simp: the_proc_def split: if_splits)
  let ?p1 = "p\<lparr>thread_count := thread_count p + 1, stacksBottom := stacksBottom p - (if privilege p \<ge> PL_SERVICE then USER_STACK_SIZE else 0)\<rparr>"
  let ?th = "made_thread proc (if privilege p \<ge> PL_SERVICE then t + 3 else kjunk s t) (if privilege p \<ge> PL_SERVICE then t + 4 else t + 1)
      (thread_run_addr s) (kjunk s t)"
  have p1: "the_proc s1 proc = Some ?p1" using nz by (simp add: the_proc_def f(1) m(2))
  have "the_thr ?M t = Some ?th" using t(2) by (simp add: the_thr_def m(1))
  then obtain q where q: "the_thr s1 t = Some (?th\<lparr>queue_next := q\<rparr>)" using queues_only_thr(2)[OF s1(3)] by blast
  have tn: "t \<notin> set ts" using linked_known[OF ts] t(3) by auto
  have "linked th_next (thrs ?M) (threads p) ts" using ts tn by (simp add: m(1) linked_other)
  moreover have "\<exists>v'. thrs s1 x = Some v' \<and> th_next v' = th_next v" if "x \<in> set ts" "thrs ?M x = Some v" for x v
  proof -
    have "x \<noteq> 0" using linked_known[OF ts] that(1) by auto
    then show ?thesis using queues_only_thr(2)[OF s1(3), of x v] that(2) by (auto simp: the_thr_def)
  qed
  ultimately have l1: "linked th_next (thrs s1) (threads ?p1) ts" using linked_cong[of ts "thrs ?M" "thrs s1" th_next "threads p"] by simp
  have "th_next (?th\<lparr>queue_next := q\<rparr>) = 0" by (simp add: made_thread_def)
  from append_thread_ok[OF s1(2) p1 q this l1 tn] obtain s2 p2 x q2 where
      s2: "append_thread proc t s1 = Some s2" "sched_inv c s2 ?Q" "the_proc s2 proc = Some p2" "p2 = ?p1\<lparr>threads := x\<rparr>"
      "linked th_next (thrs s2) (threads p2) (ts @ [t])" "the_thr s2 t = Some (?th\<lparr>queue_next := q, queue_next := q2\<rparr>)"
      "kstacks s2 = kstacks s1" "segmaps s2 = segmaps s1"
    by (elim exE conjE) blast
  have new: "thread_new proc e a s = Some (t, s2)" using thread_new_eq[OF p(1,3)] t(1,2) s1(1) s2(1) by simp
  have k: "kstacks s2 = kstacks ?M" "segmaps s2 = segmaps ?M" using s2(7,8) o f by simp_all
  have "thread_count p2 = thread_count p + 1" "stacksBottom p2 = stacksBottom ?p1" using s2(4) by simp_all
  moreover have "kstacks s2 (if privilege p \<ge> PL_SERVICE then t + 4 else t + 1) = Some [0, of_nat t, e, a]" using k(1) m(4) by simp
  moreover have "segmaps s2 (t + 3) = Some (stack_map (stacksBottom p) (t + 1) (pagedir p) (pd_mappedSegs d))" if "privilege p \<ge> PL_SERVICE"
    using k(2) m(5) that by simp
  ultimately show ?thesis using new s2(2,3,5,6)
    by (intro exI[of _ s2] exI[of _ p2] exI[of _ "?th\<lparr>queue_next := q2\<rparr>"]) (simp add: made_thread_def)
qed

section \<open>Creating a process\<close>

lemma kmalloc_page_cached:
  assumes "freepages s = (v, ph) # rest" and "length rest \<ge> 4"
  shows "\<exists>l. kmalloc_page s = Some (v, ph, s\<lparr>if_locks := l, freepages := rest\<rparr>)"
proof -
  have "get_free_pages (cli s) = Some (cli s)" using assms by (subst get_free_pages.simps) (simp add: cli_def FREEPAGESTOKEEP_def)
  then have "kmalloc_page s = Some (v, ph, s\<lparr>if_locks := if_locks (snd (sti ((cli s)\<lparr>freepages := rest\<rparr>))), freepages := rest\<rparr>)"
    using assms(1) by (auto simp: kmalloc_page_def cli_def sti_def Let_def)
  then show ?thesis by blast
qed

definition blank_pd :: "page_directory \<Rightarrow> u32 \<Rightarrow> u32 \<Rightarrow> page_directory" where
  "blank_pd kd v ph = \<lparr>pd_tables = (\<lambda>i. if i < 896 then 0 else pd_tables kd i),
     pd_tablesPhysical = (\<lambda>i. if i < 896 then 0 else pd_tablesPhysical kd i), pd_page = v, pd_physicalAddr = ph, pd_mappedSegs = 0\<rparr>"

lemma pagedir_new_cached:
  assumes "freepages s = (v, ph) # rest" and "length rest \<ge> 4" and "the_pd s (kernel_pagedir s) = Some kd"
  shows "\<exists>l. pagedir_new s = Some (next_ptr s, s\<lparr>next_ptr := next_ptr s + 1, if_locks := l, freepages := rest,
     pdirs := (pdirs s)(next_ptr s \<mapsto> blank_pd kd v ph)\<rparr>)"
proof -
  let ?s = "s\<lparr>next_ptr := next_ptr s + 1\<rparr>"
  obtain l where "kmalloc_page ?s = Some (v, ph, ?s\<lparr>if_locks := l, freepages := rest\<rparr>)" using kmalloc_page_cached[of ?s] assms by auto
  then show ?thesis using assms(3) by (auto simp: pagedir_new_def kmalloc_ptr_def blank_pd_def)
qed

definition blank_process :: "u32 \<Rightarrow> u32 \<Rightarrow> u32 \<Rightarrow> ptr \<Rightarrow> ptr \<Rightarrow> ptr \<Rightarrow> nat \<Rightarrow> process" where
  "blank_process n u priv par pd nxt junk = \<lparr>pid = n, uid = u, privilege = priv, thread_count = 0, parent = par, pagedir = pd,
     stacksBottom = 0xDF000000, objects = 0, next_objdesc = 0, heapseg = 0, pr_next = nxt, threads = junk\<rparr>"

text \<open>
  A new process: while the page cache is filled, \<open>process_new\<close> succeeds. The process has the next
  process number and heads the list of processes; its page directory shares the page tables of the
  kernel and has no others; descriptor 0 is its new root object, which it owns, and descriptor 1
  the object of the first process, the manager. Its list of threads is never initialised.
\<close>

theorem process_new_correct:
  fixes s :: kernel
  assumes "freepages s = (v, ph) # rest" and "length rest \<ge> 4" and "the_pd s (kernel_pagedir s) = Some kd"
    and "next_ptr s = n" and "n \<noteq> 0" and "manager_object s = 0 \<or> the_obj s (manager_object s) = Some mo \<and> manager_object s < n"
  shows "\<exists>s' p'. process_new par u priv s = Some (n, s') \<and> the_proc s' n = Some p' \<and> pid p' = nextpid s \<and> nextpid s' = nextpid s + 1
     \<and> privilege p' = priv \<and> parent p' = par \<and> processes s' = n \<and> pr_next p' = processes s
     \<and> the_pd s' (pagedir p') = Some (blank_pd kd v ph)
     \<and> desc_table s' n (if manager_object s = 0 then [(0, n + 2)] else [(1, manager_object s), (0, n + 2)])
     \<and> (\<exists>x. the_obj s' (n + 2) = Some x \<and> owner x = n) \<and> manager_object s' = (if manager_object s = 0 then n + 2 else manager_object s)
     \<and> threads p' = kjunk s n"
proof -
  define p0 where "p0 = blank_process (nextpid s) u priv par (n + 1) (processes s) (kjunk s n)"
  let ?sa = "s\<lparr>next_ptr := n + 1, nextpid := nextpid s + 1\<rparr>"
  obtain l where pd: "pagedir_new ?sa = Some (n + 1, ?sa\<lparr>next_ptr := n + 2, if_locks := l, freepages := rest,
      pdirs := (pdirs s)(n + 1 \<mapsto> blank_pd kd v ph)\<rparr>)"
    using pagedir_new_cached[of ?sa v ph rest kd] assms by auto
  define m where "m = (if manager_object s = 0 then n + 2 else manager_object s)"
  define s0 where "s0 = s\<lparr>nextpid := nextpid s + 1, if_locks := l, freepages := rest, pdirs := (pdirs s)(n + 1 \<mapsto> blank_pd kd v ph),
     procs := (procs s)(n \<mapsto> p0), next_ptr := Suc (Suc (Suc n)),
     objs := (objs s)(n + 2 \<mapsto> \<lparr>owner = n, descriptors = 0, busyMutex = MUTEX_UNLOCKED, ob_request = 0, wakeupOnRq = 0\<rparr>)\<rparr>"
  define s1 where "s1 = (if manager_object s = 0 then s0\<lparr>manager_object := m\<rparr> else s0)"
  have new: "process_new par u priv s = do { (_, s) \<leftarrow> objdesc_add n (n + 2) s1; (_, s) \<leftarrow> objdesc_add n (manager_object s) s; Some (n, s\<lparr>processes := n\<rparr>) }"
    unfolding process_new_def kmalloc_ptr_def using pd assms(4)
    by (auto simp: obj_new_def kmalloc_ptr_def Let_def s1_def s0_def m_def p0_def blank_process_def)
  have q1: "the_proc s1 n = Some p0" "next_objdesc p0 = 0" using assms(5) by (simp_all add: s1_def s0_def the_proc_def p0_def blank_process_def)
  have t0: "desc_table s1 n []" using q1 by (auto simp: desc_table_def desc_list_def p0_def blank_process_def intro!: exI[of _ "[]"])
  let ?x = "\<lparr>owner = n, descriptors = 0, busyMutex = MUTEX_UNLOCKED, ob_request = 0, wakeupOnRq = 0\<rparr>"
  have o1: "the_obj s1 (n + 2) = Some ?x" by (simp add: s1_def s0_def the_obj_def)
  define s2 where "s2 = added n (n + 2) p0 ?x s1"
  have nz1: "next_ptr s1 \<noteq> 0" by (simp add: s1_def s0_def)
  have a1: "objdesc_add n (n + 2) s1 = Some (0, s2)"
    using objdesc_add_eq[OF objdesc_get_new[OF t0] q1(1) o1 nz1] q1(2) by (simp add: s2_def)
  have t1: "desc_table s2 n [(0, n + 2)]" unfolding s2_def
    using added_table(1)[OF t0 q1(1) _ _ nz1, of "n + 2" ?x] q1(2) by simp
  have f2: "the_obj s2 (n + 2) = Some (?x\<lparr>descriptors := 1\<rparr>)" "manager_object s2 = m" "nextpid s2 = nextpid s + 1" "next_ptr s2 = n + 4"
    "the_pd s2 (n + 1) = Some (blank_pd kd v ph)" "the_obj s2 y = (if y = n + 2 then Some (?x\<lparr>descriptors := 1\<rparr>) else the_obj s y)" for y
    by (simp_all add: s2_def added_def s1_def s0_def m_def the_obj_def the_pd_def)
  have p2: "the_proc s2 n = Some (p0\<lparr>objects := n + 3, next_objdesc := 1\<rparr>)" using assms(5) q1(2) by (simp add: s2_def added_def the_proc_def s1_def s0_def)
  note res = new[unfolded a1, simplified]
  show ?thesis
  proof (cases "manager_object s = 0")
    case True
    then have "objdesc_add n m s2 = Some (- 1, s2)" using dt.add_old[OF t1, of "n + 2"] by (simp add: m_def)
    then have "process_new par u priv s = Some (n, s2\<lparr>processes := n\<rparr>)" using res f2(2) by simp
    moreover have "desc_table (s2\<lparr>processes := n\<rparr>) n [(0, n + 2)]" using t1 by (simp add: desc_table_def desc_list_def entry_def[abs_def])
    ultimately show ?thesis using True p2 f2 by (auto simp: p0_def blank_process_def m_def)
  next
    case False
    then have m: "m = manager_object s" "the_obj s2 m = Some mo" "m \<noteq> n + 2" using assms(6) f2(6) by (auto simp: m_def)
    let ?p = "p0\<lparr>objects := n + 3, next_objdesc := 1\<rparr>"
    have nz2: "next_ptr s2 \<noteq> 0" using f2(4) by simp
    have nm: "m \<notin> snd ` set [(0 :: u32, n + 2)]" using m(3) by simp
    have a2: "objdesc_add n m s2 = Some (1, added n m ?p mo s2)" using objdesc_add_eq[OF objdesc_get_new[OF t1 nm] p2 m(2) nz2] by simp
    have t2: "desc_table (added n m ?p mo s2) n [(1, m), (0, n + 2)]" using added_table(1)[OF t1 p2 _ nm nz2, of mo] by simp
    have r: "process_new par u priv s = Some (n, (added n m ?p mo s2)\<lparr>processes := n\<rparr>)" using res f2(2) a2 by simp
    have "desc_table ((added n m ?p mo s2)\<lparr>processes := n\<rparr>) n [(1, m), (0, n + 2)]" using t2 by (simp add: desc_table_def desc_list_def entry_def[abs_def])
    moreover have "the_proc (added n m ?p mo s2) n = Some (?p\<lparr>objects := n + 4, next_objdesc := 2\<rparr>)" using assms(5) f2(4) by (simp add: added_def the_proc_def)
    moreover have "the_obj (added n m ?p mo s2) (n + 2) = Some (?x\<lparr>descriptors := 1\<rparr>)" "the_pd (added n m ?p mo s2) = the_pd s2"
      "nextpid (added n m ?p mo s2) = nextpid s2" "manager_object (added n m ?p mo s2) = m"
      using f2(1,2) m(3) by (simp_all add: added_def the_obj_def)
    ultimately show ?thesis using False r f2 m(1) by (auto simp: p0_def blank_process_def)
  qed
qed

section \<open>The end of a thread\<close>

text \<open>What unmapping a segment leaves alone.\<close>

definition not_mem :: "kernel \<Rightarrow> kernel \<Rightarrow> bool" where
  "not_mem s s' \<longleftrightarrow> thrs s' = thrs s \<and> procs s' = procs s \<and> rqueue s' = rqueue s \<and> rlast s' = rlast s \<and> idle_thread s' = idle_thread s
     \<and> current_thread s' = current_thread s \<and> processes s' = processes s \<and> (\<forall>x. the_pd s' x = None \<longleftrightarrow> the_pd s x = None) \<and> freed_ptrs s \<subseteq> freed_ptrs s'
     \<and> objs s' = objs s \<and> rqs s' = rqs s \<and> next_ptr s' = next_ptr s"

lemma not_mem_refl [simp]: "not_mem s s"
  by (simp add: not_mem_def)

lemma not_mem_trans: "not_mem s s' \<Longrightarrow> not_mem s' s'' \<Longrightarrow> not_mem s s''"
  by (auto simp: not_mem_def)

lemma pages_only_not_mem: "pages_only s s' \<Longrightarrow> not_mem s s'"
  by (auto simp: pages_only_def not_mem_def)

lemma free_frames_only: "free_frames_list fs s = Some s' \<Longrightarrow> pages_only s s'"
  by (induction fs arbitrary: s) (auto split: bind_splits if_splits intro: pages_only_trans[OF frame_free_only])

lemma kfree_not_mem [simp]: "not_mem s (kfree_ptr p s)"
  by (auto simp: not_mem_def kfree_ptr_def)

lemma unlink_map_not_mem: "unlink_map t tm s = Some s' \<Longrightarrow> not_mem s s'"
  by (auto simp: unlink_map_def upd_pd_def upd_map_def not_mem_def the_pd_def split: bind_splits if_splits)

lemma seg_unmap_not_mem:
  assumes "seg_unmap m s = Some s'"
  shows "not_mem s s'"
proof -
  obtain tm sg s1 s2 sg2 s3 where st: "the_map s m = Some tm" "the_seg s (sm_seg tm) = Some sg"
      "(case sg_data sg of SimpleSeg _ \<Rightarrow> simpleseg_unmap tm s | ShmSeg _ \<Rightarrow> shmseg_unmap tm s) = Some s1" "unlink_map m tm s1 = Some s2"
      "upd_seg (sm_seg tm) (\<lambda>sg. sg\<lparr>sg_mappings := sg_mappings sg - 1\<rparr>) s2 = Some s3" "the_seg s3 (sm_seg tm) = Some sg2"
    and fin: "s' = kfree_ptr m s3 \<or> (\<exists>s4. (case sg_data sg2 of SimpleSeg ss \<Rightarrow> simpleseg_delete ss s3 | ShmSeg sh \<Rightarrow> shmseg_delete sh s3) = Some s4
        \<and> s' = kfree_ptr m (kfree_ptr (sm_seg tm) (kfree_ptr (sg_dataAt sg2) s4)))"
    using assms by (auto simp: seg_unmap_def split: bind_splits if_splits)
  have "pages_only s s1" using st(3) by (auto simp: simpleseg_unmap_def shmseg_unmap_def split: segdata.splits dest: unmapFree_range_only unmap_range_only)
  moreover have "not_mem s2 s3" using st(5) by (auto simp: upd_seg_def not_mem_def split: bind_splits)
  ultimately have "not_mem s s3" using pages_only_not_mem unlink_map_not_mem[OF st(4)] not_mem_trans by meson
  moreover have "not_mem s3 s4" if "(case sg_data sg2 of SimpleSeg ss \<Rightarrow> simpleseg_delete ss s3 | ShmSeg sh \<Rightarrow> shmseg_delete sh s3) = Some s4" for s4
    using that by (auto simp: simpleseg_delete_def shmseg_delete_def split: segdata.splits bind_splits
        intro: not_mem_trans[OF pages_only_not_mem[OF free_frames_only]])
  ultimately show ?thesis using fin not_mem_trans[of s s3] by (auto intro!: not_mem_trans[OF _ kfree_not_mem])
qed

text \<open>Freeing what is not a thread, and freeing the thread that has the processor.\<close>

lemma sched_inv_not_mem:
  assumes I: "sched_inv c s Q" and n: "not_mem s s'" and F: "\<forall>x. thrs s x \<noteq> None \<longrightarrow> x \<in> freed_ptrs s' \<longrightarrow> x \<in> freed_ptrs s"
  shows "sched_inv c s' Q"
proof -
  have f: "thrs s' = thrs s" "procs s' = procs s" "rqueue s' = rqueue s" "rlast s' = rlast s" "idle_thread s' = idle_thread s" "freed_ptrs s \<subseteq> freed_ptrs s'"
    and pd: "\<And>x. the_pd s' x = None \<longleftrightarrow> the_pd s x = None" using n by (auto simp: not_mem_def)
  note t = deref_cong(2)[OF f(1)] and p = deref_cong(1)[OF f(2)]
  have th: "the_thr s x \<noteq> None \<Longrightarrow> x \<in> freed_ptrs s' \<longleftrightarrow> x \<in> freed_ptrs s" for x using F f(6) by (auto simp: the_thr_def split: if_splits)
  have "live s' x = live s x" "ready c s' x = ready c s x" for x using th[of x] f(5) by (auto simp: live_def ready_def t)
  moreover have "PRIORITY s' x = PRIORITY s x" for x by (simp add: PRIORITY_def t p)
  moreover have "thr_ok s' x = thr_ok s x" for x using pd by (auto simp: thr_ok_def t p) (metis not_None_eq)+
  moreover have "runq s' Q" using sched_invD(1)[OF I] f by (simp add: runq_def)
  ultimately show ?thesis using I f(5) by (simp add: sched_inv_def)
qed

lemma sched_inv_weak:
  assumes "sched_inv c s Q" and "thrs s' = thrs s" "procs s' = procs s" "pdirs s' = pdirs s" "rqueue s' = rqueue s" "rlast s' = rlast s"
    "idle_thread s' = idle_thread s" "freed_ptrs s \<subseteq> freed_ptrs s'" "\<And>x. thrs s x \<noteq> None \<Longrightarrow> x \<in> freed_ptrs s' \<Longrightarrow> x \<in> freed_ptrs s"
  shows "sched_inv c s' Q"
proof -
  have "sched_inv c (s'\<lparr>current_thread := current_thread s, processes := processes s, objs := objs s, rqs := rqs s, next_ptr := next_ptr s\<rparr>) Q"
    by (rule sched_inv_not_mem[OF assms(1)]) (use assms deref_cong(3)[OF assms(4)] in \<open>auto simp: not_mem_def\<close>)
  then show ?thesis by simp
qed

lemma sched_inv_kill:
  assumes I: "sched_inv c s Q" and c: "c \<noteq> 0" "c \<noteq> idle_thread s"
  shows "sched_inv 0 (kfree_ptr c s) Q"
proof -
  have f: "freed_ptrs (kfree_ptr c s) = insert c (freed_ptrs s)" "\<And>t. the_thr (kfree_ptr c s) t = the_thr s t"
    "idle_thread (kfree_ptr c s) = idle_thread s" "runq (kfree_ptr c s) Q = runq s Q" "\<And>t. PRIORITY (kfree_ptr c s) t = PRIORITY s t"
    "\<And>t. thr_ok (kfree_ptr c s) t = thr_ok s t"
    using c(1) by (simp_all add: kfree_ptr_def runq_def PRIORITY_def thr_ok_def)
  have "ready 0 (kfree_ptr c s) t = ready c s t" for t by (auto simp: ready_def f dest: the_thr_pos)
  moreover have "live (kfree_ptr c s) t \<longleftrightarrow> live s t \<and> t \<noteq> c" for t by (auto simp: live_def f)
  ultimately show ?thesis using I c by (simp add: sched_inv_def f)
qed

lemma unlink_thread_ok:
  assumes "linked th_next (thrs s) it (xs @ b # t # ys)" and "thrs s b = Some bx"
  shows "unlink_thread it t n s = Some (s\<lparr>thrs := (thrs s)(b \<mapsto> bx\<lparr>th_next := n\<rparr>)\<rparr>)"
  using assms
proof (induction xs arbitrary: it)
  case Nil
  then show ?case by (subst unlink_thread.simps) (auto simp: upd_thr_def the_thr_def)
next
  case (Cons a xs)
  have dist: "distinct ((a # xs) @ b # t # ys)" by (rule linked_distinct[OF Cons.prems(1)])
  obtain x where x: "thrs s a = Some x" "it = a" "a \<noteq> 0" "linked th_next (thrs s) (th_next x) (xs @ b # t # ys)" using Cons.prems(1) by auto
  have "th_next x \<noteq> t" using x(4) dist by (cases xs) auto
  then have "unlink_thread it t n s = unlink_thread (th_next x) t n s" using x(1-3) by (subst unlink_thread.simps) (simp add: the_thr_def)
  then show ?case using Cons.IH[OF x(4) Cons.prems(2)] by (rule trans)
qed

text \<open>Taking a thread out of the list of its process.\<close>

definition unlink_from_process :: "ptr \<Rightarrow> thread \<Rightarrow> process \<Rightarrow> kernel \<Rightarrow> kernel option" where
  "unlink_from_process th x p s = (if threads p = th then upd_proc (th_process x) (\<lambda>p. p\<lparr>threads := th_next x\<rparr>) s
     else unlink_thread (threads p) th (th_next x) s)"

lemma unlink_from_process_ok:
  assumes I: "sched_inv c s Q" and x: "the_thr s th = Some x" and p: "the_proc s (th_process x) = Some p"
    and ts: "linked th_next (thrs s) (threads p) (xs @ th # ys)"
  shows "\<exists>s' p'. unlink_from_process th x p s = Some s' \<and> sched_inv c s' Q \<and> the_proc s' (th_process x) = Some p' \<and> thread_count p' = thread_count p
     \<and> linked th_next (thrs s') (threads p') (xs @ ys) \<and> (\<forall>y. thrs s' y = None \<longleftrightarrow> thrs s y = None) \<and> freed_ptrs s' = freed_ptrs s
     \<and> current_thread s' = current_thread s \<and> idle_thread s' = idle_thread s \<and> processes s' = processes s \<and> segmaps s' = segmaps s \<and> segs s' = segs s \<and> pdirs s' = pdirs s
     \<and> ptables s' = ptables s \<and> frames s' = frames s"
proof -
  have nz: "th_process x \<noteq> 0" "th \<noteq> 0" "thrs s th = Some x" using x p by (auto simp: deref_defs split: if_splits)
  show ?thesis
  proof (cases xs rule: rev_cases)
    case Nil
    then have h: "threads p = th" "linked th_next (thrs s) (th_next x) ys" using ts nz by auto
    let ?s = "s\<lparr>procs := (procs s)(th_process x \<mapsto> p\<lparr>threads := th_next x\<rparr>)\<rparr>"
    have "sched_inv c ?s Q" using sched_inv_upd_proc[OF I p, of "\<lambda>p. p\<lparr>threads := th_next x\<rparr>"] by simp
    then show ?thesis using h p nz Nil by (intro exI[of _ ?s] exI[of _ "p\<lparr>threads := th_next x\<rparr>"])
      (simp add: unlink_from_process_def upd_proc_def the_proc_def)
  next
    case (snoc us b)
    have path: "linked th_next (thrs s) (threads p) (us @ b # th # ys)" using ts snoc by simp
    obtain bx where bx: "thrs s b = Some bx" "b \<noteq> 0" using linked_next[OF path] by blast
    have ne: "threads p \<noteq> th" using linked_distinct[OF path] path by (cases us) auto
    let ?s = "s\<lparr>thrs := (thrs s)(b \<mapsto> bx\<lparr>th_next := th_next x\<rparr>)\<rparr>"
    have "sched_inv c ?s Q" using sched_inv_upd_thr[OF I, of b bx "\<lambda>y. y\<lparr>th_next := th_next x\<rparr>"] bx by (simp add: the_thr_def)
    moreover have "unlink_from_process th x p s = Some ?s" using ne unlink_thread_ok[OF path bx(1)] by (simp add: unlink_from_process_def)
    moreover have "linked th_next (thrs ?s) (threads p) (xs @ ys)"
      using linked_unlink[OF path nz(3), of "bx\<lparr>th_next := th_next x\<rparr>"] snoc by simp
    ultimately show ?thesis using p bx by (intro exI[of _ ?s] exI[of _ p]) auto
  qed
qed

text \<open>A user stack: a mapping of a simple segment in the list of its page directory, with pointers that are not threads.\<close>

definition stack_ok :: "kernel \<Rightarrow> ptr \<Rightarrow> bool" where
  "stack_ok s m \<longleftrightarrow> (\<exists>us vs tm sg ss. maps_of s (sm_pagedir tm) (us @ m # vs) \<and> segmaps s m = Some tm \<and> the_seg s (sm_seg tm) = Some sg
     \<and> sg_data sg = SimpleSeg ss \<and> pages_wf s (sm_pagedir tm) \<and> unat (sm_start tm + sm_len tm) \<le> 0xFFFFF000 \<and> m \<noteq> 0 \<and> sg_dataAt sg \<noteq> 0
     \<and> thrs s m = None \<and> thrs s (sm_seg tm) = None \<and> thrs s (sg_dataAt sg) = None)"

lemma stack_ok_unmap:
  assumes "stack_ok s m"
  shows "\<exists>s'. seg_unmap m s = Some s' \<and> not_mem s s' \<and> (\<forall>x. thrs s x \<noteq> None \<longrightarrow> x \<in> freed_ptrs s' \<longrightarrow> x \<in> freed_ptrs s)"
proof -
  obtain us vs tm sg ss where h: "maps_of s (sm_pagedir tm) (us @ m # vs)" "segmaps s m = Some tm" "the_seg s (sm_seg tm) = Some sg"
      "sg_data sg = SimpleSeg ss" "pages_wf s (sm_pagedir tm)" "unat (sm_start tm + sm_len tm) \<le> 0xFFFFF000" "m \<noteq> 0" "sg_dataAt sg \<noteq> 0"
      "thrs s m = None" "thrs s (sm_seg tm) = None" "thrs s (sg_dataAt sg) = None"
    using assms unfolding stack_ok_def by blast
  obtain s' where s': "seg_unmap m s = Some s'" "freed_ptrs s' = freed_ptrs s \<union> {m} \<union> (if sg_mappings sg = 1 then {sg_dataAt sg, sm_seg tm} else {})"
    using seg_unmap_ok[OF h(1,2) refl h(3-8)] by blast
  moreover have "\<forall>x. thrs s x \<noteq> None \<longrightarrow> x \<in> freed_ptrs s' \<longrightarrow> x \<in> freed_ptrs s" unfolding s'(2) using h(9-11) by (auto split: if_splits)
  ultimately show ?thesis using seg_unmap_not_mem by blast
qed

lemma stack_ok_cong:
  assumes "stack_ok s m" and "segmaps s' = segmaps s" "segs s' = segs s" "pdirs s' = pdirs s" "ptables s' = ptables s" "frames s' = frames s"
    "\<forall>y. thrs s' y = None \<longleftrightarrow> thrs s y = None"
  shows "stack_ok s' m"
  using assms pages_wf_cong[OF assms(4-6)] deref_cong(4)[OF assms(3)] deref_cong(3)[OF assms(4)]
  unfolding stack_ok_def maps_of_def by auto

text \<open>
  C20. A thread that exits while its process has other threads: it leaves the list of threads of
  the process, which counts one less, its user stack is unmapped, it is freed and is not scheduled again,
  the scheduling invariant holds, and another thread gets the processor.
\<close>

theorem thread_exit_correct:
  fixes s :: kernel
  assumes I: "sched_inv c s Q" and c: "current_thread s = c" "c \<noteq> 0" "c \<noteq> idle_thread s" "processes s \<noteq> 0"
    and x: "the_thr s c = Some x" and p: "the_proc s (th_process x) = Some p" "thread_count p > 1"
    and ts: "linked th_next (thrs s) (threads p) (xs @ c # ys)" and ks: "thrs s (kernelStack_addr x) = None"
    and kpd: "the_pd s (kernel_pagedir s) = Some kd" and us: "userStack_seg x \<noteq> 0 \<longrightarrow> stack_ok s (userStack_seg x)"
  shows "\<exists>r' s' p' Q'. thread_exit r s = Some (r', s') \<and> sched_inv (current_thread s') s' Q' \<and> current_thread s' \<noteq> c \<and> \<not> live s' c
     \<and> the_proc s' (th_process x) = Some p' \<and> thread_count p' = thread_count p - 1 \<and> linked th_next (thrs s') (threads p') (xs @ ys)"
proof -
  define s0 where "s0 = (cli s)\<lparr>mpresent := hw_present (cli s) (kernel_pagedir s)\<rparr>"
  have f0: "the_thr s0 = the_thr s" "the_proc s0 = the_proc s" "thrs s0 = thrs s" "current_thread s0 = c" "processes s0 = processes s"
    "idle_thread s0 = idle_thread s" "freed_ptrs s0 = freed_ptrs s" "kernel_pagedir (cli s) = kernel_pagedir s" "the_pd (cli s) = the_pd s"
    "segmaps s0 = segmaps s" "segs s0 = segs s" "pdirs s0 = pdirs s" "ptables s0 = ptables s" "frames s0 = frames s"
    using c by (simp_all add: cli_def s0_def)
  have I0: "sched_inv c s0 Q" by (rule sched_inv_not_mem[OF I]) (simp_all add: not_mem_def cli_def s0_def)
  have x0: "the_thr s0 c = Some x" "the_proc s0 (th_process x) = Some p" "linked th_next (thrs s0) (threads p) (xs @ c # ys)"
    using x p(1) ts f0 by simp_all
  have nz: "th_process x \<noteq> 0" using p by (auto simp: deref_defs split: if_splits)
  obtain s1 p1 where s1: "unlink_from_process c x p s0 = Some s1" "sched_inv c s1 Q" "the_proc s1 (th_process x) = Some p1" "thread_count p1 = thread_count p"
      "linked th_next (thrs s1) (threads p1) (xs @ ys)" "\<forall>y. thrs s1 y = None \<longleftrightarrow> thrs s0 y = None" "freed_ptrs s1 = freed_ptrs s0"
      "current_thread s1 = current_thread s0" "idle_thread s1 = idle_thread s0" "processes s1 = processes s0" "segmaps s1 = segmaps s0"
      "segs s1 = segs s0" "pdirs s1 = pdirs s0" "ptables s1 = ptables s0" "frames s1 = frames s0"
    using unlink_from_process_ok[OF I0 x0] by (elim exE conjE) blast
  define s3 where "s3 = kfree_ptr (kernelStack_addr x) (s1\<lparr>current_thread := 0,
     procs := (procs s1)(th_process x \<mapsto> p1\<lparr>thread_count := thread_count p1 - 1\<rparr>)\<rparr>)"
  have f3: "thrs s3 = thrs s1" "current_thread s3 = 0" "idle_thread s3 = idle_thread s" "processes s3 = processes s" "segmaps s3 = segmaps s"
    "segs s3 = segs s" "pdirs s3 = pdirs s" "ptables s3 = ptables s" "frames s3 = frames s"
    "procs s3 = (procs s1)(th_process x \<mapsto> p1\<lparr>thread_count := thread_count p1 - 1\<rparr>)"
    using s1 f0 by (simp_all add: s3_def kfree_ptr_def)
  have I2: "sched_inv c (s1\<lparr>procs := (procs s1)(th_process x \<mapsto> p1\<lparr>thread_count := thread_count p1 - 1\<rparr>)\<rparr>) Q"
    using sched_inv_upd_proc[OF s1(2,3), of "\<lambda>p. p\<lparr>thread_count := thread_count p - 1\<rparr>"] by simp
  have k1: "thrs s1 (kernelStack_addr x) = None" using ks s1(6) f0(3) by simp
  have I3: "sched_inv c s3 Q" by (rule sched_inv_weak[OF I2]) (use k1 in \<open>auto simp: s3_def kfree_ptr_def split: if_splits\<close>)
  obtain s4 where s4: "(if userStack_seg x \<noteq> 0 then seg_unmap (userStack_seg x) s3 else Some s3) = Some s4" "not_mem s3 s4"
      "\<forall>x. thrs s3 x \<noteq> None \<longrightarrow> x \<in> freed_ptrs s4 \<longrightarrow> x \<in> freed_ptrs s3"
  proof (cases "userStack_seg x = 0")
    case False
    then have "stack_ok s3 (userStack_seg x)" using stack_ok_cong[of s "userStack_seg x" s3] us f3 s1(6) f0(3) by simp
    then show ?thesis using stack_ok_unmap[of s3] that False by auto
  qed (use that[of s3] in simp)
  have I4: "sched_inv c s4 Q" by (rule sched_inv_not_mem[OF I3 s4(2,3)])
  have f4: "thrs s4 = thrs s1" "procs s4 = procs s3" "current_thread s4 = 0" "idle_thread s4 = idle_thread s" "processes s4 = processes s"
    using s4(2) f3 by (auto simp: not_mem_def)
  define s5 where "s5 = snd (sti (kfree_ptr c s4))"
  have "sched_inv 0 (kfree_ptr c s4) Q" by (rule sched_inv_kill[OF I4]) (use c f4 in auto)
  then have "sched_inv 0 s5 Q" by (simp add: s5_def sti_def Let_def)
  moreover have "current_thread s5 = 0" using f4(3) by (simp add: s5_def sti_def Let_def kfree_ptr_def)
  ultimately have I5: "sched_inv (current_thread s5) s5 Q" by simp
  have f5: "processes s5 \<noteq> 0" "c \<in> freed_ptrs s5" "thrs s5 = thrs s1" "procs s5 = procs s3" "current_thread s5 = 0"
    using c(2,4) f4 by (auto simp: s5_def sti_def Let_def kfree_ptr_def)
  have "thread_delete c s0 = Some (kfree_ptr c s4)"
    using s1(1,3,8) x0(1,2) nz s4(1) c(1) f0(4) unfolding thread_delete_def s3_def
    by (cases "userStack_seg x = 0") (simp_all add: upd_proc_def unlink_from_process_def Let_def)
  then have "thread_exit2 EX_TH_NORMAL r s0 = tasking_switch r s5" using x0 p(2) nz c(2) f0(4) by (simp add: thread_exit2_def s5_def)
  moreover have "thread_exit r s = thread_exit2 EX_TH_NORMAL r s0"
    using kpd f0(8,9) by (simp add: thread_exit_def thread_exit_stackJmp_def s0_def Let_def)
  ultimately have ex: "thread_exit r s = tasking_switch r s5" by simp
  obtain r' s' Q' where s': "tasking_switch r s5 = Some (r', s')" "sched_inv (current_thread s') s' Q'"
    using tasking_switch_ok[OF I5 f5(1)] by blast
  have "thrs s' = thrs s1" using s'(1) f5 enter_thrs by (fastforce simp: tasking_switch_def leave_current_def)
  moreover have "procs s' = procs s3" "freed_ptrs s' = freed_ptrs s5" using switch_only_fields[OF tasking_switch_only[OF s'(1)]] f5(4) by simp_all
  then have "the_proc s' (th_process x) = Some (p1\<lparr>thread_count := thread_count p1 - 1\<rparr>)" "\<not> live s' c"
    using nz f3(10) f5(2) by (simp_all add: the_proc_def live_def)
  moreover then have "current_thread s' \<noteq> c" using sched_invD(5)[OF s'(2)] c(2) by auto
  ultimately show ?thesis using ex s' s1(4,5) by auto
qed

section \<open>The heap segment\<close>

text \<open>
  The system call that places the heap: an address in the kernel's half is refused and changes
  nothing; the first call maps a segment from \<open>start\<close> to \<open>end\<close> and records it as the heap segment of the
  process; a later call with the same start and a larger end extends the segment to whole pages.
\<close>

theorem process_setheapseg_correct:
  fixes s :: kernel
  assumes "current_process s = Some pr" and "the_proc s pr = Some p" and "maps_of s (pagedir p) ms"
    and "\<forall>m\<in>set ms. m < next_ptr s" and "next_ptr s = n" and "n \<noteq> 0"
  shows "(start \<ge> 0xE0000000 \<or> end' \<ge> 0xE0000000 \<longrightarrow> process_setheapseg start end' s = Some (- 1, s))
     \<and> (start < 0xE0000000 \<and> end' < 0xE0000000 \<and> heapseg p = 0 \<longrightarrow>
        (\<exists>s'. process_setheapseg start end' s = Some (0, s') \<and> maps_of s' (pagedir p) ((n + 2) # ms)
          \<and> the_proc s' pr = Some (p\<lparr>heapseg := n + 2\<rparr>)
          \<and> (\<exists>m. segmaps s' (n + 2) = Some m \<and> sm_start m = start \<and> sm_len m = end' - start \<and> sm_pagedir m = pagedir p)))
     \<and> (\<forall>m sg ss. start < 0xE0000000 \<and> end' < 0xE0000000 \<and> the_map s (heapseg p) = Some m \<and> sm_start m = start
          \<and> the_seg s (sm_seg m) = Some sg \<and> sg_data sg = SimpleSeg ss \<and> sm_len m < page_up (end' - start) \<longrightarrow>
        (\<exists>s'. process_setheapseg start end' s = Some (0, s') \<and> segmaps s' (heapseg p) = Some (m\<lparr>sm_len := page_up (end' - start)\<rparr>)))"
proof (intro conjI impI allI)
  assume "start \<ge> 0xE0000000 \<or> end' \<ge> 0xE0000000"
  then show "process_setheapseg start end' s = Some (- 1, s)" using assms(1) by (simp add: process_setheapseg_def)
next
  assume a: "start < 0xE0000000 \<and> end' < 0xE0000000 \<and> heapseg p = 0"
  let ?sg = "\<lparr>sg_data = SimpleSeg \<lparr>ss_writable = True, ss_start = start, ss_len = end' - start\<rparr>, sg_dataAt = n, sg_mappings = 0\<rparr>"
  define s1 where "s1 = s\<lparr>next_ptr := Suc (Suc n), segs := (segs s)(Suc n \<mapsto> ?sg)\<rparr>"
  have mk: "simpleseg_make start (end' - start) True s = (n + 1, s1)" using assms(5) by (simp add: simpleseg_make_def kmalloc_ptr_def s1_def Let_def)
  have m1: "maps_of s1 (pagedir p) ms" using assms(3) by (simp add: maps_of_def s1_def)
  have sg1: "the_seg s1 (n + 1) = Some ?sg" by (simp add: the_seg_def s1_def)
  have n1: "next_ptr s1 \<noteq> 0" "next_ptr s1 \<notin> set ms" "next_ptr s1 = n + 2" using assms(4,5) by (auto simp: s1_def)
  obtain s2 sm where s2: "seg_map (n + 1) (pagedir p) 0 s1 = Some (n + 2, s2)" "maps_of s2 (pagedir p) ((n + 2) # ms)"
      "segmaps s2 (n + 2) = Some sm" "sm_pagedir sm = pagedir p" "sm_start sm = start" "sm_len sm = end' - start"
    using seg_map_ok[OF m1 sg1 n1(1,2), of 0] unfolding n1(3) by auto
  have pr: "the_proc s2 pr = Some p" "pr \<noteq> 0" using seg_map_procs[OF s2(1)] assms(2) by (auto simp: s1_def the_proc_def split: if_splits)
  have e: "process_setheapseg start end' s = Some (0, s2\<lparr>procs := (procs s2)(pr \<mapsto> p\<lparr>heapseg := n + 2\<rparr>)\<rparr>)"
    using assms(1,2) a mk s2(1) pr(1)
    by (auto simp: process_setheapseg_def map_heapseg_def upd_proc_def s1_def the_proc_def split: if_splits)
  have "maps_of (s2\<lparr>procs := (procs s2)(pr \<mapsto> p\<lparr>heapseg := n + 2\<rparr>)\<rparr>) (pagedir p) ((n + 2) # ms)" using s2(2) by (simp add: maps_of_def)
  then show "\<exists>s'. process_setheapseg start end' s = Some (0, s') \<and> maps_of s' (pagedir p) ((n + 2) # ms)
          \<and> the_proc s' pr = Some (p\<lparr>heapseg := n + 2\<rparr>)
          \<and> (\<exists>m. segmaps s' (n + 2) = Some m \<and> sm_start m = start \<and> sm_len m = end' - start \<and> sm_pagedir m = pagedir p)"
    using e s2 pr(2) by (intro exI[of _ "s2\<lparr>procs := (procs s2)(pr \<mapsto> p\<lparr>heapseg := n + 2\<rparr>)\<rparr>"]) (auto simp: the_proc_def)
next
  fix m sg ss
  assume a: "start < 0xE0000000 \<and> end' < 0xE0000000 \<and> the_map s (heapseg p) = Some m \<and> sm_start m = start
          \<and> the_seg s (sm_seg m) = Some sg \<and> sg_data sg = SimpleSeg ss \<and> sm_len m < page_up (end' - start)"
  have h: "heapseg p \<noteq> 0" "\<not> page_up (end' - start) < sm_len m" using a by (auto simp: the_map_def split: if_splits)
  have "simpleseg_resize (heapseg p) (end' - start) s = Some (0, s\<lparr>segmaps := (segmaps s)(heapseg p \<mapsto> m\<lparr>sm_len := page_up (end' - start)\<rparr>),
      segs := (segs s)(sm_seg m \<mapsto> sg\<lparr>sg_data := SimpleSeg (ss\<lparr>ss_len := page_up (end' - start)\<rparr>)\<rparr>)\<rparr>)"
    using a h by (auto simp: simpleseg_resize_def upd_map_def upd_seg_def Let_def)
  then show "\<exists>s'. process_setheapseg start end' s = Some (0, s') \<and> segmaps s' (heapseg p) = Some (m\<lparr>sm_len := page_up (end' - start)\<rparr>)"
    using assms(1,2) a h by (auto simp: process_setheapseg_def)
qed

section \<open>A concrete state\<close>

text \<open>The scheduling example with a filled page cache; threads 2 and 6 are linked in the list of their process.\<close>

definition process_demo :: kernel where
  "process_demo = sched_demo\<lparr>thrs := (thrs sched_demo)(2 \<mapsto> (demo_thread 1 3)\<lparr>th_next := 6\<rparr>), kernel_pagedir := 10,
     freepages := [(0xFFFF0000, 0x10000), (0xFFFF1000, 0x11000), (0xFFFF2000, 0x12000), (0xFFFF3000, 0x13000), (0xFFFF4000, 0x14000)],
     if_locks := 0\<rparr>"

lemma process_demo_inv: "sched_inv 6 process_demo ((\<lambda>_. [])(3 := [2, 3]))"
proof -
  have "sched_inv 6 (sched_demo\<lparr>thrs := (thrs sched_demo)(2 \<mapsto> (demo_thread 1 3)\<lparr>th_next := 6\<rparr>)\<rparr>) ((\<lambda>_. [])(3 := [2, 3]))"
    using sched_inv_upd_thr[OF demo_inv, of 2 "demo_thread 1 3" "\<lambda>x. x\<lparr>th_next := 6\<rparr>"] by (simp add: demo_threads)
  then show ?thesis by (rule sched_inv_weak) (simp_all add: process_demo_def)
qed

lemma process_demo_fields: "the_proc process_demo 1 = Some (demo_proc 3 2)" "next_ptr process_demo = 20" "thrs process_demo 20 = None"
  "20 \<notin> freed_ptrs process_demo" "the_thr process_demo 6 = Some (demo_thread 1 0)" "current_thread process_demo = 6"
  "idle_thread process_demo = 4" "processes process_demo = 1" "kernel_pagedir process_demo = 10"
  "the_pd process_demo 10 = Some \<lparr>pd_tables = (\<lambda>_. 0), pd_tablesPhysical = (\<lambda>_. 0), pd_page = 0, pd_physicalAddr = 0x2000, pd_mappedSegs = 0\<rparr>"
  by (simp_all add: process_demo_def sched_demo_def kernel0_def the_proc_def the_thr_def the_pd_def)

lemma process_demo_list: "linked th_next (thrs process_demo) 2 [2, 6]"
  by (simp add: process_demo_def sched_demo_def demo_thread_def)

theorem thread_new_correct_witness:
  "\<exists>s' p'. thread_new 1 0x20000000 7 process_demo = Some (20, s') \<and> the_proc s' 1 = Some p' \<and> linked th_next (thrs s') (threads p') [2, 6, 20]
     \<and> stacksBottom p' = 0xDEFF8000"
proof -
  have c: "threads (demo_proc 3 2) = 2" "pagedir (demo_proc 3 2) = 10" "privilege (demo_proc 3 2) = 3" "stacksBottom (demo_proc 3 2) = 0xDF000000"
    by (simp_all add: demo_proc_def)
  show ?thesis
    using thread_new_correct[OF process_demo_inv process_demo_fields(1), where t = 20 and e = "0x20000000" and a = 7 and ts = "[2, 6]"] process_demo_fields process_demo_list
    unfolding c by (auto simp: PRIORITIES_def PL_SERVICE_def USER_STACK_SIZE_def)
qed

theorem process_new_correct_witness:
  "\<exists>s'. process_new 1 0 3 process_demo = Some (20, s') \<and> desc_table s' 20 [(0, 22)] \<and> processes s' = 20"
proof -
  have f: "freepages process_demo = (0xFFFF0000, 0x10000) # [(0xFFFF1000, 0x11000), (0xFFFF2000, 0x12000), (0xFFFF3000, 0x13000), (0xFFFF4000, 0x14000)]"
    "manager_object process_demo = 0" by (simp_all add: process_demo_def sched_demo_def kernel0_def)
  show ?thesis using process_new_correct[OF f(1), of _ 20] process_demo_fields f(2) by fastforce
qed

theorem thread_exit_correct_witness:
  "\<exists>r' s' p'. thread_exit \<lparr>esp = 1, ebp = 2, eip = 3\<rparr> process_demo = Some (r', s') \<and> \<not> live s' 6 \<and> the_proc s' 1 = Some p'
     \<and> linked th_next (thrs s') (threads p') [2] \<and> thread_count p' = 2"
proof -
  have c: "threads (demo_proc 3 2) = 2" "thread_count (demo_proc 3 2) = 3" "th_process (demo_thread 1 0) = 1" "userStack_seg (demo_thread 1 0) = 0"
    "kernelStack_addr (demo_thread 1 0) = 0x1000" by (simp_all add: demo_proc_def demo_thread_def)
  have l: "linked th_next (thrs process_demo) (threads (demo_proc 3 2)) ([2] @ 6 # [])" using process_demo_list c(1) by simp
  have k: "thrs process_demo (kernelStack_addr (demo_thread 1 0)) = None" unfolding c by (simp add: process_demo_def sched_demo_def)
  have p: "the_proc process_demo (th_process (demo_thread 1 0)) = Some (demo_proc 3 2)" using process_demo_fields(1) c by simp
  show ?thesis
    using thread_exit_correct[OF process_demo_inv process_demo_fields(6) _ _ _ process_demo_fields(5) p _ l k _ _, of _ "\<lparr>esp = 1, ebp = 2, eip = 3\<rparr>"]
      process_demo_fields(7-10) c by auto
qed

theorem process_setheapseg_correct_witness:
  "process_setheapseg 0xE0000000 0 process_demo = Some (- 1, process_demo)
     \<and> (\<exists>s'. process_setheapseg 0x20000000 0x20110000 process_demo = Some (0, s') \<and> maps_of s' 10 [22])"
proof -
  have c: "current_process process_demo = Some 1" by (simp add: current_process_def process_demo_fields) (simp add: demo_thread_def)
  have m: "maps_of process_demo (pagedir (demo_proc 3 2)) []" "heapseg (demo_proc 3 2) = 0" "pagedir (demo_proc 3 2) = 10"
    by (simp_all add: maps_of_def demo_proc_def process_demo_fields)
  show ?thesis
    using process_setheapseg_correct[OF c process_demo_fields(1) m(1) _ process_demo_fields(2), of "0xE0000000" 0]
      process_setheapseg_correct[OF c process_demo_fields(1) m(1) _ process_demo_fields(2), of "0x20000000" "0x20110000"] m(2,3) by auto
qed

end
