(* ===== verification/Timer.thy ===== *)
theory Timer
  imports Tasking "HOL-Library.Multiset"
begin

text \<open>
  The timer and sleeping threads, \<^verbatim>\<open>src/kernel/task/timer.c\<close>. The list of sleeping threads is
  a list of wake-up times and threads; that it is sorted by time is an invariant, and it makes the
  loop that stops at the first thread that is not due wake up exactly the threads that are due.
\<close>

section \<open>Model\<close>

text \<open>The divisor of the timer chip and the handler of interrupt 0. A frequency of 0 is a division by zero.\<close>

definition timer_init :: "u32 \<Rightarrow> kernel \<Rightarrow> kernel option" where
  "timer_init freq s =
     (if freq = 0 then None
      else do {
        let s = s\<lparr>frequency := freq, irq_handlers := (irq_handlers s)(0 := Timer_callback)\<rparr>;
        let divisor = 1193180 div freq;
        Some (outbs [(0x43, 0x36), (0x40, ucast (divisor AND 0xFF)), (0x40, ucast (divisor div 256))] s) })"

definition timer_uptime :: "kernel \<Rightarrow> u32" where
  "timer_uptime s = uptime s"

definition timer_time :: "kernel \<Rightarrow> u32 option" where
  "timer_time s = (if frequency s = 0 then None else Some (uptime s * 1000 + tick s * 1000 div frequency s))"

text \<open>Insertion before the first thread that is due at the same time or later.\<close>

fun sleep_insert :: "u32 \<times> ptr \<Rightarrow> (u32 \<times> ptr) list \<Rightarrow> (u32 \<times> ptr) list" where
  "sleep_insert sf [] = [sf]"
| "sleep_insert sf (x # xs) = (if fst x \<ge> fst sf then sf # x # xs else x # sleep_insert sf xs)"

definition thread_sleep :: "u32 \<Rightarrow> cpu \<Rightarrow> kernel \<Rightarrow> (cpu \<times> kernel) option" where
  "thread_sleep msecs r s =
     (if current_thread s = 0 then Some (r, s)
      else do {
        time \<leftarrow> timer_time s;
        thread_goInactive r (s\<lparr>sleeping_threads := sleep_insert (time + msecs, current_thread s) (sleeping_threads s)\<rparr>) })"

fun wakeUp_due :: "u32 \<Rightarrow> (u32 \<times> ptr) list \<Rightarrow> kernel \<Rightarrow> kernel option" where
  "wakeUp_due time [] s = Some (s\<lparr>sleeping_threads := []\<rparr>)"
| "wakeUp_due time (x # xs) s =
     (if fst x \<le> time then do {
        s \<leftarrow> thread_wakeUp (snd x) s;
        wakeUp_due time xs (s\<lparr>sleeping_threads := xs\<rparr>) }
      else Some (s\<lparr>sleeping_threads := x # xs\<rparr>))"

definition timer_wakeUpSleepingThreads :: "kernel \<Rightarrow> kernel option" where
  "timer_wakeUpSleepingThreads s = do { time \<leftarrow> timer_time s; wakeUp_due time (sleeping_threads s) s }"

definition count_tick :: "kernel \<Rightarrow> kernel" where
  "count_tick s = (let s = s\<lparr>tick := tick s + 1\<rparr> in
     if tick s = frequency s then s\<lparr>uptime := uptime s + 1, tick := 0\<rparr> else s)"

definition timer_callback :: "kernel \<Rightarrow> kernel option" where
  "timer_callback s = timer_wakeUpSleepingThreads (count_tick s)"

section \<open>The list of sleeping threads\<close>

abbreviation by_time :: "(u32 \<times> ptr) list \<Rightarrow> bool" where
  "by_time xs \<equiv> sorted (map fst xs)"

lemma mset_sleep_insert: "mset (sleep_insert x xs) = add_mset x (mset xs)"
  by (induction xs) auto

lemma set_sleep_insert: "set (sleep_insert x xs) = insert x (set xs)"
  by (induction xs) auto

lemma sorted_sleep_insert: "by_time xs \<Longrightarrow> by_time (sleep_insert x xs)"
  by (induction xs) (auto simp: set_sleep_insert)

text \<open>A sorted list is what is due followed by what is not.\<close>

lemma by_time_split: "by_time xs \<Longrightarrow> xs = filter (\<lambda>x. fst x \<le> t) xs @ filter (\<lambda>x. \<not> fst x \<le> t) xs"
proof (induction xs)
  case (Cons x xs)
  show ?case
  proof (cases "fst x \<le> t")
    case False
    then have "\<not> fst y \<le> t" if "y \<in> set xs" for y using Cons.prems that by fastforce
    then show ?thesis using False by (simp add: filter_id_conv)
  qed (use Cons in simp)
qed simp

text \<open>Every sleeper is a live thread other than the current one.\<close>

definition sleepers_ok :: "kernel \<Rightarrow> bool" where
  "sleepers_ok s \<longleftrightarrow> (\<forall>x\<in>set (sleeping_threads s). live s (snd x) \<and> snd x \<noteq> current_thread s)"

lemma wakeUp_due_ok:
  assumes "sched_inv c s Q" and "by_time xs" and "\<forall>x\<in>set xs. live s (snd x) \<and> snd x \<noteq> c" and "current_thread s = c"
  shows "\<exists>s' Q'. wakeUp_due t xs s = Some s' \<and> sched_inv c s' Q' \<and> current_thread s' = c \<and> processes s' = processes s
     \<and> sleeping_threads s' = filter (\<lambda>x. \<not> fst x \<le> t) xs \<and> irq_wakeup s' = irq_wakeup s \<and> freed_ptrs s' = freed_ptrs s
     \<and> (\<forall>x. live s' x = live s x) \<and> (\<forall>y. ready c s y \<longrightarrow> ready c s' y)
     \<and> (\<forall>x\<in>set xs. fst x \<le> t \<longrightarrow> waiting s (snd x) \<longrightarrow> snd x \<noteq> idle_thread s \<longrightarrow> ready c s' (snd x))"
  using assms
proof (induction xs arbitrary: s Q)
  case Nil
  then show ?case by auto
next
  case (Cons x xs)
  show ?case
  proof (cases "fst x \<le> t")
    case False
    have "filter (\<lambda>x. \<not> fst x \<le> t) (x # xs) = x # xs" "\<forall>y\<in>set (x # xs). \<not> fst y \<le> t"
      using Cons.prems(2) False by (auto simp: filter_id_conv)
    then show ?thesis using Cons.prems(1,4) False by auto
  next
    case True
    have "live s (snd x)" "snd x \<noteq> c" using Cons.prems(3) by auto
    then obtain s1 Q1 where s1: "thread_wakeUp (snd x) s = Some s1" "sched_inv c s1 Q1" "current_thread s1 = current_thread s"
        "processes s1 = processes s" "freed_ptrs s1 = freed_ptrs s" "irq_wakeup s1 = irq_wakeup s" "\<forall>y. live s1 y = live s y"
        "waiting s (snd x) \<and> snd x \<noteq> idle_thread s \<longrightarrow> ready c s1 (snd x)" "\<forall>y. ready c s y \<longrightarrow> ready c s1 y"
        "idle_thread s1 = idle_thread s" "\<forall>y. waiting s y \<longrightarrow> waiting s1 y \<or> y = snd x"
      using thread_wakeUp_ok[OF Cons.prems(1)] by blast
    let ?s2 = "s1\<lparr>sleeping_threads := xs\<rparr>"
    have i2: "sched_inv c ?s2 Q1" using s1(2) by simp
    obtain s' Q' where s': "wakeUp_due t xs ?s2 = Some s'" "sched_inv c s' Q'" "current_thread s' = c" "processes s' = processes ?s2"
        "sleeping_threads s' = filter (\<lambda>x. \<not> fst x \<le> t) xs" "irq_wakeup s' = irq_wakeup ?s2" "freed_ptrs s' = freed_ptrs ?s2"
        "\<forall>x. live s' x = live ?s2 x" "\<forall>y. ready c ?s2 y \<longrightarrow> ready c s' y"
        "\<forall>x\<in>set xs. fst x \<le> t \<longrightarrow> waiting ?s2 (snd x) \<longrightarrow> snd x \<noteq> idle_thread ?s2 \<longrightarrow> ready c s' (snd x)"
      using Cons.IH[OF i2] Cons.prems(2,3,4) s1(3,7) by auto
    have "ready c s' (snd y)" if y: "y \<in> set (x # xs)" "fst y \<le> t" "waiting s (snd y)" "snd y \<noteq> idle_thread s" for y
    proof (cases "snd y = snd x")
      case True
      then show ?thesis using s1(8) s'(9) y by auto
    next
      case False
      then show ?thesis using y s'(10) s1(10,11) by auto
    qed
    then show ?thesis using True s1 s' by auto
  qed
qed

text \<open>The state of a thread; only waking a thread up changes it.\<close>

definition thr_state :: "kernel \<Rightarrow> ptr \<Rightarrow> u8 option" where
  "thr_state s t = map_option th_state (the_thr s t)"

lemma waiting_state: "waiting s t \<longleftrightarrow> thr_state s t = Some TS_WAKEWAIT"
  by (auto simp: waiting_def thr_state_def)

lemma upd_thr_state: "upd_thr p f s = Some s' \<Longrightarrow> (\<And>th. th_state (f th) = th_state th) \<Longrightarrow> thr_state s' = thr_state s"
  by (auto simp: upd_thr_def thr_state_def fun_eq_iff the_thr_def split: bind_splits if_splits)

lemma enqueue_state: "sched_enqueue t s = Some s' \<Longrightarrow> thr_state s' = thr_state s"
proof -
  have f: "thr_state (s\<lparr>rqueue := a\<rparr>) = thr_state s" "thr_state (s\<lparr>rlast := b\<rparr>) = thr_state s" for s a b by (simp_all add: thr_state_def fun_eq_iff)
  assume "sched_enqueue t s = Some s'"
  then show ?thesis by (auto simp: sched_enqueue_def sched_enqueueIn_def f split: bind_splits if_splits dest!: upd_thr_state)
qed

lemma wakeUp_state:
  assumes "thread_wakeUp t s = Some s'" and "y \<noteq> t"
  shows "thr_state s' y = thr_state s y"
proof -
  have "thr_state s1 y = thr_state s y" if "upd_thr t f s = Some s1" for s1 f
    using that assms(2) by (auto simp: upd_thr_def thr_state_def the_thr_def split: bind_splits if_splits)
  then show ?thesis using assms(1) by (auto simp: thread_wakeUp_def dest!: enqueue_state split: bind_splits if_splits)
qed

lemma wakeUp_due_state:
  "wakeUp_due t xs s = Some s' \<Longrightarrow> \<forall>x\<in>set xs. fst x \<le> t \<longrightarrow> snd x \<noteq> y \<Longrightarrow> thr_state s' y = thr_state s y"
proof (induction t xs s rule: wakeUp_due.induct)
  case (2 time x xs s)
  show ?case
  proof (cases "fst x \<le> time")
    case True
    with "2.prems"(1) obtain s1 where s1: "thread_wakeUp (snd x) s = Some s1" "wakeUp_due time xs (s1\<lparr>sleeping_threads := xs\<rparr>) = Some s'" by (auto split: bind_splits)
    have "thr_state s' y = thr_state (s1\<lparr>sleeping_threads := xs\<rparr>) y" using "2.IH"[OF True s1] "2.prems"(2) by simp
    moreover have "thr_state s1 y = thr_state s y" using wakeUp_state[OF s1(1)] "2.prems"(2) True by simp
    ultimately show ?thesis by (simp add: thr_state_def the_thr_def)
  qed (use "2.prems" in \<open>auto simp: thr_state_def the_thr_def\<close>)
qed (auto simp: thr_state_def the_thr_def)

section \<open>Properties\<close>

text \<open>
  C16. A timer interrupt wakes up exactly the threads that are due: it never fails; the threads whose wake-up time has come leave the list of sleepers, and those of them that wait become
  ready; every other thread keeps its state, so that the sleepers that are not due still wait and are in no run queue; the list stays sorted and the scheduling invariant is kept.
\<close>

theorem timer_wakes:
  assumes "sched_inv (current_thread s) s Q" and "by_time (sleeping_threads s)" and "sleepers_ok s" and "frequency s \<noteq> 0"
  shows "\<exists>t s' Q'. timer_time (count_tick s) = Some t \<and> timer_callback s = Some s' \<and> sched_inv (current_thread s') s' Q'
     \<and> current_thread s' = current_thread s \<and> sleeping_threads s' = filter (\<lambda>x. \<not> fst x \<le> t) (sleeping_threads s)
     \<and> by_time (sleeping_threads s') \<and> sleepers_ok s'
     \<and> (\<forall>x\<in>set (sleeping_threads s). fst x \<le> t \<longrightarrow> waiting s (snd x) \<longrightarrow> snd x \<noteq> idle_thread s \<longrightarrow> ready (current_thread s) s' (snd x))
     \<and> (\<forall>y. (\<forall>x\<in>set (sleeping_threads s). fst x \<le> t \<longrightarrow> snd x \<noteq> y) \<longrightarrow> thr_state s' y = thr_state s y
          \<and> (waiting s y \<longrightarrow> waiting s' y \<and> (\<forall>i<PRIORITIES. y \<notin> set (Q' i))))"
proof -
  let ?s = "count_tick s"
  have f: "sched_inv (current_thread s) ?s Q" "sleeping_threads ?s = sleeping_threads s" "current_thread ?s = current_thread s"
    "frequency ?s = frequency s" "idle_thread ?s = idle_thread s" "live ?s x = live s x" "waiting ?s x = waiting s x" "thr_state ?s x = thr_state s x" for x
    using assms(1) by (simp_all add: count_tick_def Let_def thr_state_def the_thr_def)
  obtain t where t: "timer_time ?s = Some t" using assms(4) f(4) by (simp add: timer_time_def)
  have "\<forall>x\<in>set (sleeping_threads s). live ?s (snd x) \<and> snd x \<noteq> current_thread s" using assms(3) f by (simp add: sleepers_ok_def)
  from wakeUp_due_ok[OF f(1) assms(2) this f(3), of t] obtain s' Q' where
    s': "wakeUp_due t (sleeping_threads s) ?s = Some s'" "sched_inv (current_thread s) s' Q'" "current_thread s' = current_thread s"
      "sleeping_threads s' = filter (\<lambda>x. \<not> fst x \<le> t) (sleeping_threads s)" "\<forall>x. live s' x = live s x"
      "\<forall>x\<in>set (sleeping_threads s). fst x \<le> t \<longrightarrow> waiting s (snd x) \<longrightarrow> snd x \<noteq> idle_thread s \<longrightarrow> ready (current_thread s) s' (snd x)"
    using f(5-7) by auto
  have st: "thr_state s' y = thr_state s y" if "\<forall>x\<in>set (sleeping_threads s). fst x \<le> t \<longrightarrow> snd x \<noteq> y" for y
    using wakeUp_due_state[OF s'(1) that] f(8) by simp
  have "y \<notin> set (Q' i)" if "waiting s' y" "i < PRIORITIES" for y i
    using s'(2) that by (auto simp: sched_inv_def ready_def waiting_def task_consts)
  then show ?thesis using t s' st assms(2,3) sorted_filter[of fst "sleeping_threads s"]
    by (intro exI[of _ t] exI[of _ s'] exI[of _ Q']) (auto simp: timer_callback_def timer_wakeUpSleepingThreads_def sleepers_ok_def f(2) waiting_state)
qed

text \<open>
  Sleeping: the calling thread is entered in the sorted list of sleepers with the time at
  which it is due, whatever its place, and another thread gets the processor.
\<close>

theorem thread_sleep_correct:
  assumes "sched_inv (current_thread s) s Q" and "processes s \<noteq> 0" and "current_thread s \<noteq> 0" and "timer_time s = Some t"
    and "by_time (sleeping_threads s)"
  shows "\<exists>r' s' Q'. thread_sleep msecs r s = Some (r', s') \<and> sched_inv (current_thread s') s' Q'
     \<and> mset (sleeping_threads s') = add_mset (t + msecs, current_thread s) (mset (sleeping_threads s)) \<and> by_time (sleeping_threads s')"
proof -
  let ?s = "s\<lparr>sleeping_threads := sleep_insert (t + msecs, current_thread s) (sleeping_threads s)\<rparr>"
  obtain r' s' Q' where s': "thread_goInactive r ?s = Some (r', s')" "sched_inv (current_thread s') s' Q'"
    using thread_goInactive_ok[of ?s Q r] assms by auto
  have "sleeping_threads s' = sleeping_threads ?s" using switch_only_fields(1)[OF goInactive_only[OF s'(1)]] .
  then show ?thesis using s' assms by (auto simp: thread_sleep_def mset_sleep_insert sorted_sleep_insert)
qed

text \<open>
  The clock: with \<open>tick\<close> below the frequency, each timer interrupt advances the number of
  ticks since the start, \<open>uptime * frequency + tick\<close>, by one and keeps \<open>tick\<close> below the frequency,
  until \<open>uptime\<close> overflows.
\<close>

theorem count_tick_counts:
  assumes "tick s < frequency s" and "uptime s \<noteq> - 1"
  shows "tick (count_tick s) < frequency (count_tick s)
    \<and> unat (uptime (count_tick s)) * unat (frequency s) + unat (tick (count_tick s)) = unat (uptime s) * unat (frequency s) + unat (tick s) + 1"
proof -
  have "unat (tick s) < unat (frequency s)" using assms(1) by (simp add: word_less_nat_alt)
  then have "unat (tick s) + unat (1 :: u32) < 4294967296" using unat_u32_less[of "frequency s"] unfolding unsigned_1 by linarith
  from unat_add_u32[OF this] have t: "unat (tick s + 1) = unat (tick s) + 1" by simp
  have u: "unat (uptime s + 1) = unat (uptime s) + 1" using assms(2) by (rule unat_succ_u32)
  show ?thesis
  proof (cases "tick s + 1 = frequency s")
    case True
    then have "unat (frequency s) = unat (tick s) + 1" using t by simp
    then show ?thesis using True u assms(1) by (simp add: count_tick_def word_less_nat_alt)
  next
    case False
    then have "unat (tick s) + 1 \<noteq> unat (frequency s)" using t unat_eqD by metis
    then show ?thesis using False t assms(1) by (simp add: count_tick_def word_less_nat_alt)
  qed
qed

section \<open>A concrete state\<close>

text \<open>Thread 3 of the scheduling example sleeps until 1500 ms; the clock is at 1490 ms, with 100 ticks in a second.\<close>

definition timer_demo :: kernel where
  "timer_demo = sched_demo\<lparr>frequency := 100, tick := 49, uptime := 1, sleeping_threads := [(1500, 3)]\<rparr>"

lemma timer_demo_inv: "sched_inv (current_thread timer_demo) timer_demo ((\<lambda>_. [])(3 := [2, 3]))"
proof -
  have "current_thread timer_demo = 6" by (simp add: timer_demo_def sched_demo_def)
  then show ?thesis using demo_inv by (simp add: timer_demo_def)
qed

text \<open>Thread 3 waits until 1500 ms and thread 2 until 2000 ms; the interrupt comes at 1500 ms.\<close>

definition sleep_demo :: kernel where
  "sleep_demo = timer_demo\<lparr>thrs := (thrs sched_demo)(2 \<mapsto> (demo_thread 1 0)\<lparr>th_state := TS_WAKEWAIT\<rparr>, 3 \<mapsto> (demo_thread 1 0)\<lparr>th_state := TS_WAKEWAIT\<rparr>),
     rqueue := (\<lambda>_. 0), rlast := (\<lambda>_. 0), sleeping_threads := [(1500, 3), (2000, 2)]\<rparr>"

lemma sleep_threads: "the_thr sleep_demo t = (if t = 2 \<or> t = 3 then Some ((demo_thread 1 0)\<lparr>th_state := TS_WAKEWAIT\<rparr>)
    else if t = 6 then Some (demo_thread 1 0) else if t = 4 then Some (demo_thread 5 0) else None)"
  by (auto simp: sleep_demo_def timer_demo_def sched_demo_def the_thr_def)

lemma sleep_demo_inv: "sched_inv (current_thread sleep_demo) sleep_demo (\<lambda>_. [])"
proof -
  have c: "current_thread sleep_demo = 6" "idle_thread sleep_demo = 4" "freed_ptrs sleep_demo = {}"
    by (simp_all add: sleep_demo_def timer_demo_def sched_demo_def kernel0_def)
  have "runq sleep_demo (\<lambda>_. [])" by (auto simp: runq_def sleep_demo_def)
  moreover have "thr_ok sleep_demo t" if "live sleep_demo t" for t
    using that by (auto simp: live_def thr_ok_def sleep_threads demo_thread_def PRIORITIES_def split: if_splits)
      (simp_all add: sleep_demo_def timer_demo_def sched_demo_def the_proc_def the_pd_def demo_proc_def)
  moreover have "\<not> ready 6 sleep_demo t" for t by (simp add: ready_def sleep_threads c(2) demo_thread_def task_consts)
  ultimately show ?thesis by (auto simp: sched_inv_def c live_def sleep_threads)
qed

theorem timer_wakes_witness:
  "\<exists>s'. timer_callback sleep_demo = Some s' \<and> sleeping_threads s' = [(2000, 2)] \<and> waiting sleep_demo 3 \<and> ready 6 s' 3 \<and> waiting s' 2"
proof -
  have c: "current_thread sleep_demo = 6" "idle_thread sleep_demo = 4" "freed_ptrs sleep_demo = {}" "sleeping_threads sleep_demo = [(1500, 3), (2000, 2)]"
    by (simp_all add: sleep_demo_def timer_demo_def sched_demo_def kernel0_def)
  have w: "waiting sleep_demo 3" "waiting sleep_demo 2" by (simp_all add: waiting_def sleep_threads)
  have "sleepers_ok sleep_demo" by (simp add: sleepers_ok_def c live_def sleep_threads)
  moreover have "by_time (sleeping_threads sleep_demo)" "frequency sleep_demo \<noteq> 0" by (simp_all add: c(4)) (simp add: sleep_demo_def timer_demo_def)
  moreover have t: "timer_time (count_tick sleep_demo) = Some 1500" by (simp add: sleep_demo_def timer_demo_def count_tick_def timer_time_def)
  ultimately show ?thesis using timer_wakes[OF sleep_demo_inv] w unfolding c t by auto
qed

theorem thread_sleep_correct_witness:
  "\<exists>r' s'. thread_sleep 5 \<lparr>esp = 1, ebp = 2, eip = 3\<rparr> timer_demo = Some (r', s') \<and> by_time (sleeping_threads s')
     \<and> mset (sleeping_threads s') = {# (1495, 6), (1500, 3) #}"
proof -
  have c: "processes timer_demo \<noteq> 0" "current_thread timer_demo = 6" "timer_time timer_demo = Some 1490" "sleeping_threads timer_demo = [(1500, 3)]"
    by (simp_all add: timer_demo_def sched_demo_def timer_time_def)
  then show ?thesis
    using thread_sleep_correct[OF timer_demo_inv, of 1490 5 "\<lparr>esp = 1, ebp = 2, eip = 3\<rparr>"] by auto
qed

theorem count_tick_counts_witness:
  "tick (count_tick timer_demo) < frequency (count_tick timer_demo) \<and> unat (tick (count_tick timer_demo)) = 50"
proof -
  have "tick timer_demo < frequency timer_demo" "uptime timer_demo \<noteq> - 1" by (simp_all add: timer_demo_def)
  from count_tick_counts[OF this] show ?thesis by (simp add: timer_demo_def count_tick_def)
qed

end
