(* ===== verification/Request.thy ===== *)
theory Request
  imports Process Timer
begin

text \<open>
  Requests between processes, \<^verbatim>\<open>src/kernel/ipc/request.c\<close>, with the mutex of
  \<^verbatim>\<open>src/kernel/lib/mutex.c\<close> that protects an object. A system call that blocks ends with \<open>Wait\<close>: the
  calling thread is switched out and, when it runs again, continues with the definition named
  in the comment. The structures in user memory are arguments and results.
\<close>

section \<open>Model\<close>

definition RS_PENDING :: u32 where "RS_PENDING = 0"
definition RS_PROCESSED :: u32 where "RS_PROCESSED = 1"
definition RS_FINISHED :: u32 where "RS_FINISHED = 2"
definition RS_INTERRUPTED :: u32 where "RS_INTERRUPTED = 3"
definition PT_VOID :: u32 where "PT_VOID = 0"
definition PT_OBJDESC :: u32 where "PT_OBJDESC = 1"
definition PT_LONG :: u32 where "PT_LONG = 2"
definition PT_LONGLONG :: u32 where "PT_LONGLONG = 3"
definition PT_SHM :: u32 where "PT_SHM = 3"

lemmas rq_consts = RS_PENDING_def RS_PROCESSED_def RS_FINISHED_def RS_INTERRUPTED_def PT_VOID_def PT_OBJDESC_def PT_LONG_def
  PT_LONGLONG_def PT_SHM_def MUTEX_UNLOCKED_def MUTEX_LOCKED_def

datatype 'a outcome = Return 'a | Wait cpu

record user_request =
  ur_func :: u32
  ur_params :: "u32 list"
  ur_shmsize :: "u32 list"
  ur_isBlocking :: bool
  ur_pid :: u32

record user_sendrequest =
  us_func :: u32
  us_a :: u32
  us_b :: u32
  us_c :: u32
  us_answeri :: u32
  us_answerll :: u64
  us_errcode :: u32

subsection \<open>The mutex of an object\<close>

text \<open>One atomic exchange: the old value of the mutex.\<close>

definition exchange_busy :: "ptr \<Rightarrow> kernel \<Rightarrow> (u32 \<times> kernel) option" where
  "exchange_busy ob s = do { x \<leftarrow> the_obj s ob; s \<leftarrow> upd_obj ob (\<lambda>x. x\<lparr>busyMutex := MUTEX_LOCKED\<rparr>) s; Some (busyMutex x, s) }"

text \<open>One round of \<open>mutex_lock\<close>: the mutex is taken, or the thread sleeps for a millisecond and tries again.\<close>

definition mutex_lock :: "ptr \<Rightarrow> cpu \<Rightarrow> kernel \<Rightarrow> (unit outcome \<times> kernel) option" where
  "mutex_lock ob r s = do {
     (old, s) \<leftarrow> exchange_busy ob s;
     if old = MUTEX_LOCKED then do { (r, s) \<leftarrow> thread_sleep 1 r s; Some (Wait r, s) } else Some (Return (), s) }"

definition mutex_lockE :: "ptr \<Rightarrow> kernel \<Rightarrow> (u32 \<times> kernel) option" where
  "mutex_lockE ob s = do { (old, s) \<leftarrow> exchange_busy ob s; Some (if old = MUTEX_LOCKED then 0 else 1, s) }"

definition mutex_unlock :: "ptr \<Rightarrow> kernel \<Rightarrow> kernel option" where
  "mutex_unlock ob s = upd_obj ob (\<lambda>x. x\<lparr>busyMutex := MUTEX_UNLOCKED\<rparr>) s"

subsection \<open>Receiving a request\<close>

text \<open>The type of parameter \<open>i\<close>, and of the result, in the function number.\<close>

definition param_type :: "u32 \<Rightarrow> nat \<Rightarrow> u32" where
  "param_type f i = drop_bit (28 - 2 * i) f AND 3"

definition result_type :: "u32 \<Rightarrow> u32" where
  "result_type f = drop_bit 30 f"

definition finish_request :: "ptr \<Rightarrow> ptr \<Rightarrow> kernel \<Rightarrow> kernel option" where
  "finish_request ob rq s = do {
     let s = kfree_ptr rq s;
     s \<leftarrow> upd_obj ob (\<lambda>x. x\<lparr>ob_request := 0\<rparr>) s;
     mutex_unlock ob s }"

definition request_take :: "ptr \<Rightarrow> kernel \<Rightarrow> ((u32 \<times> user_request option) \<times> kernel) option" where
  "request_take ob s = do {
     x \<leftarrow> the_obj s ob;
     s \<leftarrow> upd_rq (ob_request x) (\<lambda>q. q\<lparr>acknowledged := RS_PROCESSED\<rparr>) s;
     q \<leftarrow> the_rq s (ob_request x);
     let u = \<lparr>ur_func = func q, ur_params = params q, ur_shmsize = shmsize q, ur_isBlocking = (requester q \<noteq> 0), ur_pid = rq_pid q\<rparr>;
     if ur_isBlocking u \<or> (\<exists>p\<in>set (shm_sndr q). p \<noteq> 0) then Some ((0, Some u), s)
     else do {
       s \<leftarrow> finish_request ob (ob_request x) s;
       Some ((0, Some u), s) } }"

text \<open>One round of the loop of \<open>request_get\<close>; a thread that waited continues here.\<close>

definition request_get_loop :: "ptr \<Rightarrow> cpu \<Rightarrow> kernel \<Rightarrow> ((u32 \<times> user_request option) outcome \<times> kernel) option" where
  "request_get_loop ob r s = do {
     x \<leftarrow> the_obj s ob;
     pend \<leftarrow> (if ob_request x = 0 then Some False else do { q \<leftarrow> the_rq s (ob_request x); Some (acknowledged q = RS_PENDING) });
     if busyMutex x \<noteq> MUTEX_LOCKED \<and> \<not> pend then do {
       s \<leftarrow> upd_obj ob (\<lambda>x. x\<lparr>wakeupOnRq := current_thread s\<rparr>) s;
       (r, s) \<leftarrow> thread_goInactive r s;
       Some (Wait r, s) }
     else do { (v, s) \<leftarrow> request_take ob s; Some (Return v, s) } }"

definition request_get :: "u32 \<Rightarrow> bool \<Rightarrow> cpu \<Rightarrow> kernel \<Rightarrow> ((u32 \<times> user_request option) outcome \<times> kernel) option" where
  "request_get i wait r s = do {
     cp \<leftarrow> current_process s;
     ob \<leftarrow> objdesc_read cp i s;
     if ob = 0 then Some (Return (- 10, None), s)
     else do {
       x \<leftarrow> the_obj s ob;
       if owner x \<noteq> cp then Some (Return (- 2, None), s)
       else do {
         taken \<leftarrow> (if ob_request x = 0 then Some False else do { q \<leftarrow> the_rq s (ob_request x); Some (acknowledged q \<noteq> RS_PENDING) });
         if taken then Some (Return (- 3, None), s)
         else if \<not> wait \<and> ob_request x = 0 then Some (Return (- 1, None), s)
         else request_get_loop ob r s } } }"

definition request_has :: "u32 \<Rightarrow> kernel \<Rightarrow> u32 option" where
  "request_has i s = do {
     cp \<leftarrow> current_process s;
     ob \<leftarrow> objdesc_read cp i s;
     if ob = 0 then Some (- 10)
     else do {
       x \<leftarrow> the_obj s ob;
       if owner x \<noteq> cp then Some (- 2)
       else if ob_request x = 0 \<or> busyMutex x = MUTEX_UNLOCKED then Some 0
       else do { q \<leftarrow> the_rq s (ob_request x); Some (if acknowledged q = RS_PENDING then 1 else 2) } } }"

subsection \<open>Answering\<close>

text \<open>Writing member \<open>n\<close> of the union \<open>answer\<close> sets its lower half.\<close>

definition set_n :: "u32 \<Rightarrow> u64 \<Rightarrow> u64" where
  "set_n v a = (a AND 0xFFFFFFFF00000000) OR ucast v"

fun release_params :: "ptr \<Rightarrow> (ptr \<times> u32) list \<Rightarrow> kernel \<Rightarrow> kernel option" where
  "release_params own [] s = Some s"
| "release_params own ((m, d) # ps) s = do {
     s \<leftarrow> (if m \<noteq> 0 then seg_unmap m s else Some s);
     s \<leftarrow> (if d \<noteq> 0 then obj_closeP own d s else Some s);
     release_params own ps s }"

definition answer_objdesc :: "ptr \<Rightarrow> ptr \<Rightarrow> u32 \<Rightarrow> kernel \<Rightarrow> (u32 \<times> kernel) option" where
  "answer_objdesc own rqer ans s = (
     if ans \<ge> 0x80000000 then Some (ans, s)
     else do {
       t \<leftarrow> the_thr s rqer;
       let rproc = th_process t;
       if own = rproc then Some (ans, s)
       else do {
         ob \<leftarrow> objdesc_read own ans s;
         if ob \<noteq> 0 then do {
           n \<leftarrow> objdesc_get rproc ob s;
           if n = - 1 then objdesc_add rproc ob s else Some (n, s) }
         else Some (- 1, s) } })"

definition set_answer :: "ptr \<Rightarrow> ptr \<Rightarrow> u32 \<Rightarrow> u32 \<Rightarrow> kernel \<Rightarrow> kernel option" where
  "set_answer own rq ans ans2 s = do {
     q \<leftarrow> the_rq s rq;
     if result_type (func q) = PT_OBJDESC then do {
       (n, s) \<leftarrow> answer_objdesc own (requester q) ans s;
       upd_rq rq (\<lambda>q. q\<lparr>answer := set_n n (answer q)\<rparr>) s }
     else if result_type (func q) = PT_LONG then upd_rq rq (\<lambda>q. q\<lparr>answer := set_n ans (answer q)\<rparr>) s
     else if result_type (func q) = PT_LONGLONG then upd_rq rq (\<lambda>q. q\<lparr>answer := push_bit 32 (ucast ans2) OR ucast ans\<rparr>) s
     else Some s }"

text \<open>The answer to the blocking request \<open>q\<close> of the object \<open>x\<close> at \<open>ob\<close>.\<close>

definition answer_request :: "ptr \<Rightarrow> object \<Rightarrow> request \<Rightarrow> u32 \<Rightarrow> u32 \<Rightarrow> u32 \<Rightarrow> kernel \<Rightarrow> kernel option" where
  "answer_request ob x q ans ans2 err s = do {
     s \<leftarrow> release_params (owner x) (zip (shm_rcv q) (obj_close q)) s;
     s \<leftarrow> upd_rq (ob_request x) (\<lambda>q. q\<lparr>acknowledged := RS_FINISHED\<rparr>) s;
     s \<leftarrow> set_answer (owner x) (ob_request x) ans ans2 s;
     s \<leftarrow> upd_rq (ob_request x) (\<lambda>q. q\<lparr>errcode := err\<rparr>) s;
     s \<leftarrow> thread_wakeUp (requester q) s;
     s \<leftarrow> upd_obj ob (\<lambda>x. x\<lparr>ob_request := 0\<rparr>) s;
     mutex_unlock ob s }"

definition request_answer :: "u32 \<Rightarrow> u32 \<Rightarrow> u32 \<Rightarrow> u32 \<Rightarrow> kernel \<Rightarrow> kernel option" where
  "request_answer i ans ans2 err s = do {
     cp \<leftarrow> current_process s;
     ob \<leftarrow> objdesc_read cp i s;
     if ob = 0 then Some s
     else do {
       x \<leftarrow> the_obj s ob;
       if owner x \<noteq> cp then Some s
       else if ob_request x = 0 then Some s
       else do {
         q \<leftarrow> the_rq s (ob_request x);
         if acknowledged q = RS_PENDING \<or> requester q = 0 then Some s
         else answer_request ob x q ans ans2 err s } } }"

subsection \<open>Mapping shared memory of a request\<close>

definition map_param :: "ptr \<Rightarrow> ptr \<Rightarrow> request \<Rightarrow> u32 \<Rightarrow> nat \<Rightarrow> kernel \<Rightarrow> kernel option" where
  "map_param own rq q pos n s = do {
     m \<leftarrow> the_map s (shm_sndr q ! n);
     p \<leftarrow> the_proc s own;
     (rcv, s) \<leftarrow> seg_map (sm_seg m) (pagedir p) pos s;
     s \<leftarrow> upd_rq rq (\<lambda>q. q\<lparr>shm_rcv := (shm_rcv q)[n := rcv]\<rparr>) s;
     upd_seg (sm_seg m) (\<lambda>g. g\<lparr>sg_mappings := sg_mappings g - 1\<rparr>) s }"

definition request_mapShm :: "u32 \<Rightarrow> u32 \<Rightarrow> int \<Rightarrow> kernel \<Rightarrow> (u32 \<times> kernel) option" where
  "request_mapShm i pos number s = (
     if number > 2 \<or> number < 0 then Some (- 9, s)
     else do {
       cp \<leftarrow> current_process s;
       ob \<leftarrow> objdesc_read cp i s;
       if ob = 0 then Some (- 10, s)
       else do {
         x \<leftarrow> the_obj s ob;
         if owner x \<noteq> cp then Some (- 2, s)
         else if ob_request x = 0 then Some (- 3, s)
         else do {
           q \<leftarrow> the_rq s (ob_request x);
           if acknowledged q = RS_PENDING then Some (- 3, s)
           else if param_type (func q) (nat number) \<noteq> PT_SHM then Some (- 4, s)
           else do {
             same \<leftarrow> (if requester q = 0 then Some False else do { t \<leftarrow> the_thr s (requester q); Some (owner x = th_process t) });
             if same then Some (- 7, s)
             else if shm_sndr q ! nat number = 0 then Some (- 5, s)
             else do {
               s \<leftarrow> map_param (owner x) (ob_request x) q pos (nat number) s;
               q \<leftarrow> the_rq s (ob_request x);
               if requester q \<noteq> 0 then Some (0, s)
               else if \<exists>(a, b)\<in>set (zip (shm_sndr q) (shm_rcv q)). a \<noteq> 0 \<and> b = 0 then Some (0, s)
               else do { s \<leftarrow> finish_request ob (ob_request x) s; Some (0, s) } } } } } })"

subsection \<open>Making a request\<close>

definition mk_param :: "ptr \<Rightarrow> ptr \<Rightarrow> ptr \<Rightarrow> nat \<Rightarrow> u32 \<Rightarrow> kernel \<Rightarrow> kernel option" where
  "mk_param cp own rq i v s = do {
     q \<leftarrow> the_rq s rq;
     let n = param_type (func q) i;
     if n = PT_OBJDESC then
       (if v \<ge> 0x80000000 \<or> own = cp then upd_rq rq (\<lambda>q. q\<lparr>params := (params q)[i := v]\<rparr>) s
        else do {
          ob \<leftarrow> objdesc_read cp v s;
          d \<leftarrow> objdesc_get own ob s;
          (d, s) \<leftarrow> (if d = - 1 then do {
              (d, s) \<leftarrow> objdesc_add own ob s;
              s \<leftarrow> upd_rq rq (\<lambda>q. q\<lparr>obj_close := (obj_close q)[i := d]\<rparr>) s;
              Some (d, s) }
            else Some (d, s));
          upd_rq rq (\<lambda>q. q\<lparr>params := (params q)[i := d]\<rparr>) s })
     else if n = PT_LONG then upd_rq rq (\<lambda>q. q\<lparr>params := (params q)[i := v]\<rparr>) s
     else if n = PT_SHM then do {
       s \<leftarrow> upd_rq rq (\<lambda>q. q\<lparr>shmsize := (shmsize q)[i := 0]\<rparr>) s;
       t \<leftarrow> shmseg_getByOff cp v s;
       if own = cp then do {
         s \<leftarrow> upd_rq rq (\<lambda>q. q\<lparr>params := (params q)[i := v]\<rparr>) s;
         if t \<noteq> 0 then do { m \<leftarrow> the_map s t; upd_rq rq (\<lambda>q. q\<lparr>shmsize := (shmsize q)[i := sm_len m]\<rparr>) s } else Some s }
       else do {
         s \<leftarrow> upd_rq rq (\<lambda>q. q\<lparr>shm_sndr := (shm_sndr q)[i := t]\<rparr>) s;
         m \<leftarrow> the_map s t;
         s \<leftarrow> upd_seg (sm_seg m) (\<lambda>g. g\<lparr>sg_mappings := sg_mappings g + 1\<rparr>) s;
         upd_rq rq (\<lambda>q. q\<lparr>shmsize := (shmsize q)[i := sm_len m]\<rparr>) s } }
     else Some s }"

definition blank_request :: "ptr \<Rightarrow> ptr \<Rightarrow> u32 \<Rightarrow> u32 \<Rightarrow> nat \<Rightarrow> request" where
  "blank_request ob rqer f p junk = \<lparr>rq_obj = ob, requester = rqer, func = f, params = [0, 0, 0], obj_close = [0, 0, 0],
     shmsize = [of_nat junk, of_nat junk, of_nat junk], shm_sndr = [0, 0, 0], shm_rcv = [0, 0, 0], acknowledged = RS_PENDING,
     answer = of_nat junk, errcode = of_nat junk, rq_pid = p\<rparr>"

definition mk_params :: "ptr \<Rightarrow> ptr \<Rightarrow> ptr \<Rightarrow> u32 \<Rightarrow> u32 \<Rightarrow> u32 \<Rightarrow> kernel \<Rightarrow> kernel option" where
  "mk_params cp own rq a b c s = do {
     s \<leftarrow> mk_param cp own rq 0 a s;
     s \<leftarrow> mk_param cp own rq 1 b s;
     mk_param cp own rq 2 c s }"

text \<open>The object refers to the request, and a thread that waits for one is woken up.\<close>

definition attach_request :: "ptr \<Rightarrow> ptr \<Rightarrow> kernel \<Rightarrow> kernel option" where
  "attach_request ob rq s = do {
     s \<leftarrow> upd_obj ob (\<lambda>x. x\<lparr>ob_request := rq\<rparr>) s;
     x \<leftarrow> the_obj s ob;
     if wakeupOnRq x \<noteq> 0 then do {
       s \<leftarrow> thread_wakeUp (wakeupOnRq x) s;
       upd_obj ob (\<lambda>x. x\<lparr>wakeupOnRq := 0\<rparr>) s }
     else Some s }"

text \<open>What follows once the mutex is locked: the request and an error code.\<close>

definition mkrequest_fill :: "ptr \<Rightarrow> ptr \<Rightarrow> u32 \<Rightarrow> u32 \<Rightarrow> u32 \<Rightarrow> u32 \<Rightarrow> kernel \<Rightarrow> ((ptr \<times> u32) \<times> kernel) option" where
  "mkrequest_fill ob rqer f a b c s = do {
     cp \<leftarrow> current_process s;
     x \<leftarrow> the_obj s ob;
     if owner x = 0 then do { s \<leftarrow> mutex_unlock ob s; Some ((0, - 11), s) }
     else do {
       p \<leftarrow> the_proc s cp;
       let (rq, s) = kmalloc_ptr s;
       let s = s\<lparr>rqs := (rqs s)(rq \<mapsto> blank_request ob rqer f (pid p) (kjunk s rq))\<rparr>;
       s \<leftarrow> mk_params cp (owner x) rq a b c s;
       s \<leftarrow> attach_request ob rq s;
       Some ((rq, 0), s) } }"

text \<open>A thread that found the mutex locked continues with \<open>mkrequest_lock\<close>.\<close>

definition mkrequest_lock :: "ptr \<Rightarrow> ptr \<Rightarrow> u32 \<Rightarrow> u32 \<Rightarrow> u32 \<Rightarrow> u32 \<Rightarrow> cpu \<Rightarrow> kernel \<Rightarrow> ((ptr \<times> u32) outcome \<times> kernel) option" where
  "mkrequest_lock ob rqer f a b c r s = do {
     (l, s) \<leftarrow> mutex_lock ob r s;
     case l of Wait r \<Rightarrow> Some (Wait r, s)
     | Return _ \<Rightarrow> do { (v, s) \<leftarrow> mkrequest_fill ob rqer f a b c s; Some (Return v, s) } }"

definition mkrequest :: "u32 \<Rightarrow> ptr \<Rightarrow> u32 \<Rightarrow> u32 \<Rightarrow> u32 \<Rightarrow> u32 \<Rightarrow> cpu \<Rightarrow> kernel \<Rightarrow> ((ptr \<times> u32) outcome \<times> kernel) option" where
  "mkrequest i rqer f a b c r s = do {
     cp \<leftarrow> current_process s;
     ob \<leftarrow> objdesc_read cp i s;
     if ob = 0 then Some (Return (0, - 10), s) else mkrequest_lock ob rqer f a b c r s }"

text \<open>A blocking request: once it is made the thread sleeps, and when it is woken up it continues with \<open>request_resume\<close>.\<close>

definition request_made :: "(ptr \<times> u32) outcome \<Rightarrow> cpu \<Rightarrow> kernel \<Rightarrow> (u32 outcome \<times> kernel) option" where
  "request_made v r s = (case v of Wait r' \<Rightarrow> Some (Wait r', s)
     | Return (rq, e) \<Rightarrow> (if e \<noteq> 0 then Some (Return e, s) else if rq = 0 then Some (Return (- 1), s)
         else do { (r', s) \<leftarrow> thread_goInactive r s; Some (Wait r', s) }))"

definition request :: "u32 \<Rightarrow> user_sendrequest \<Rightarrow> cpu \<Rightarrow> kernel \<Rightarrow> (u32 outcome \<times> kernel) option" where
  "request i u r s = do {
     (v, s) \<leftarrow> mkrequest i (current_thread s) (us_func u) (us_a u) (us_b u) (us_c u) r s;
     request_made v r s }"

definition request_resume :: "ptr \<Rightarrow> user_sendrequest \<Rightarrow> kernel \<Rightarrow> (u32 \<times> user_sendrequest \<times> kernel) option" where
  "request_resume rq u s = do {
     q \<leftarrow> the_rq s rq;
     if acknowledged q = RS_INTERRUPTED then Some (- 2, u, s)
     else do {
       let u = (if result_type (us_func u) = PT_OBJDESC \<or> result_type (us_func u) = PT_LONG then u\<lparr>us_answeri := ucast (answer q)\<rparr>
                else if result_type (us_func u) = PT_LONGLONG then u\<lparr>us_answerll := answer q\<rparr> else u);
       Some (0, u\<lparr>us_errcode := errcode q\<rparr>, kfree_ptr rq s) } }"

definition msg_made :: "(ptr \<times> u32) outcome \<Rightarrow> user_sendrequest \<Rightarrow> kernel \<Rightarrow> ((u32 \<times> user_sendrequest) outcome \<times> kernel) option" where
  "msg_made v u s = (case v of Wait r' \<Rightarrow> Some (Wait r', s)
     | Return (rq, e) \<Rightarrow> (if e \<noteq> 0 then Some (Return (e, u), s) else if rq = 0 then Some (Return (- 1, u), s)
         else Some (Return (0, u\<lparr>us_errcode := 0\<rparr>), s)))"

definition send_msg :: "u32 \<Rightarrow> user_sendrequest \<Rightarrow> cpu \<Rightarrow> kernel \<Rightarrow> ((u32 \<times> user_sendrequest) outcome \<times> kernel) option" where
  "send_msg i u r s = do {
     (v, s) \<leftarrow> mkrequest i 0 (us_func u) (us_a u) (us_b u) (us_c u) r s;
     msg_made v u s }"

end
