(* ===== verification/Rpc.thy ===== *)
theory Rpc
  imports Request
begin

text \<open>
  What the system calls of \<^verbatim>\<open>src/kernel/ipc/request.c\<close> achieve together: a message or a
  blocking request of one process is delivered to the owner of the object, and the answer is
  delivered to the requester. Other threads run between the steps; of them we assume only that
  they leave the object and the request alone, which the mutex of the object is there for.
\<close>

section \<open>Making a request of plain parameters\<close>

text \<open>No parameter is a descriptor or shared memory.\<close>

definition plain :: "u32 \<Rightarrow> bool" where
  "plain f \<longleftrightarrow> (\<forall>i<3. param_type f i = PT_VOID \<or> param_type f i = PT_LONG)"

definition arg :: "u32 \<Rightarrow> nat \<Rightarrow> u32 \<Rightarrow> u32" where
  "arg f i v = (if param_type f i = PT_LONG then v else 0)"

text \<open>The request that is made.\<close>

definition made_rq :: "ptr \<Rightarrow> ptr \<Rightarrow> u32 \<Rightarrow> u32 \<Rightarrow> u32 \<Rightarrow> u32 \<Rightarrow> u32 \<Rightarrow> nat \<Rightarrow> request" where
  "made_rq ob rqer f a b c p junk = (blank_request ob rqer f p junk)\<lparr>params := [arg f 0 a, arg f 1 b, arg f 2 c]\<rparr>"

lemma plainD: "plain f \<Longrightarrow> i < 3 \<Longrightarrow> param_type f i = PT_VOID \<or> param_type f i = PT_LONG"
  by (simp add: plain_def)

lemma blank_func [simp]: "func (blank_request ob rqer f p junk) = f"
  by (simp add: blank_request_def)

lemma mk_param_value:
  assumes "the_rq s rq = Some q" and "func q = f" and "param_type f i = PT_VOID \<or> param_type f i = PT_LONG" and "params q ! i = 0"
  shows "mk_param cp own rq i v s = Some (s\<lparr>rqs := (rqs s)(rq \<mapsto> q\<lparr>params := (params q)[i := arg f i v]\<rparr>)\<rparr>)"
proof -
  have q: "rqs s rq = Some q" using assms(1) by (auto simp: the_rq_def split: if_splits)
  have "(params q)[i := 0] = params q" using assms(4) by (metis list_update_id)
  then have id: "s = s\<lparr>rqs := (rqs s)(rq \<mapsto> q\<lparr>params := (params q)[i := 0]\<rparr>)\<rparr>" using q by (simp add: fun_upd_idem)
  show ?thesis
  proof (cases "param_type f i = PT_LONG")
    case True
    then show ?thesis using assms(1,2) by (simp add: mk_param_def upd_rq_def arg_def rq_consts)
  next
    case False
    then have "param_type f i = PT_VOID" using assms(3) by simp
    then have "mk_param cp own rq i v s = Some s" using assms(1,2) by (simp add: mk_param_def rq_consts)
    then show ?thesis using id False by (simp add: arg_def)
  qed
qed

lemmas mk_param_plain = mk_param_value[OF _ _ plainD]

text \<open>The request becomes the one of the object, and the thread that waits for one wakes up.\<close>

lemma attach_request_ok:
  assumes x: "the_obj s ob = Some x" and I: "sched_inv c s Q" and w: "wakeupOnRq x = 0 \<or> live s (wakeupOnRq x) \<and> wakeupOnRq x \<noteq> c"
  shows "\<exists>s1 s' Q'. attach_request ob rq s = Some s' \<and> switch_only s s1
     \<and> s' = s1\<lparr>objs := (objs s)(ob \<mapsto> x\<lparr>ob_request := rq, wakeupOnRq := 0\<rparr>)\<rparr>
     \<and> sched_inv c s' Q' \<and> current_thread s' = current_thread s \<and> (\<forall>t. live s' t = live s t)
     \<and> (waiting s (wakeupOnRq x) \<and> wakeupOnRq x \<noteq> idle_thread s \<longrightarrow> ready c s' (wakeupOnRq x))"
proof -
  have ob: "ob \<noteq> 0" "objs s ob = Some x" using x(1) by (auto simp: the_obj_def split: if_splits)
  define s0 where "s0 = s\<lparr>objs := (objs s)(ob \<mapsto> x\<lparr>ob_request := rq\<rparr>)\<rparr>"
  have I0: "sched_inv c s0 Q" "\<And>t. live s0 t = live s t" "\<And>t. waiting s0 t = waiting s t" "idle_thread s0 = idle_thread s" using I by (simp_all add: s0_def)
  have e: "attach_request ob rq s = (if wakeupOnRq x \<noteq> 0 then do {
            s \<leftarrow> thread_wakeUp (wakeupOnRq x) s0; upd_obj ob (\<lambda>x. x\<lparr>wakeupOnRq := 0\<rparr>) s } else Some s0)"
  proof -
    have "upd_obj ob (\<lambda>x. x\<lparr>ob_request := rq\<rparr>) s = Some s0" "the_obj s0 ob = Some (x\<lparr>ob_request := rq\<rparr>)"
      using ob by (simp_all add: upd_obj_def the_obj_def s0_def)
    then show ?thesis by (simp add: attach_request_def)
  qed
  show ?thesis
  proof (cases "wakeupOnRq x = 0")
    case True
    then have "x\<lparr>ob_request := rq, wakeupOnRq := 0\<rparr> = x\<lparr>ob_request := rq\<rparr>" by (cases x) simp
    then have s0: "s0 = s\<lparr>objs := (objs s)(ob \<mapsto> x\<lparr>ob_request := rq, wakeupOnRq := 0\<rparr>)\<rparr>" by (simp only: s0_def)
    have "attach_request ob rq s = Some s0" "current_thread s0 = current_thread s" "\<not> waiting s (wakeupOnRq x)"
      using e True by (simp_all add: s0_def waiting_def)
    then show ?thesis using s0 I0(1,2) switch_only_refl by blast
  next
    case False
    then have l: "live s0 (wakeupOnRq x)" "wakeupOnRq x \<noteq> c" using w by (simp_all add: I0)
    obtain s2 Q2 where s2: "thread_wakeUp (wakeupOnRq x) s0 = Some s2" "sched_inv c s2 Q2" "current_thread s2 = current_thread s0" "\<And>t. live s2 t = live s0 t"
        "waiting s0 (wakeupOnRq x) \<and> wakeupOnRq x \<noteq> idle_thread s0 \<longrightarrow> ready c s2 (wakeupOnRq x)"
      using thread_wakeUp_ok[OF I0(1) l] by (elim exE conjE) blast
    note so = wakeUp_only[OF s2(1)]
    note k = switch_only_fields[OF so]
    define s3 where "s3 = s2\<lparr>objs := (objs s)(ob \<mapsto> x\<lparr>ob_request := rq, wakeupOnRq := 0\<rparr>)\<rparr>"
    have "objs s2 ob = Some (x\<lparr>ob_request := rq\<rparr>)" using k(3) by (simp add: s0_def)
    then have "attach_request ob rq s = Some s3" using e False s2(1) k(3) ob by (simp add: upd_obj_def the_obj_def s3_def s0_def)
    moreover have "switch_only s (s2\<lparr>objs := objs s\<rparr>)" using so unfolding switch_only_def s0_def by (elim exE) (simp, blast)
    moreover have "s3 = s2\<lparr>objs := objs s\<rparr>\<lparr>objs := (objs s)(ob \<mapsto> x\<lparr>ob_request := rq, wakeupOnRq := 0\<rparr>)\<rparr>" by (simp add: s3_def)
    moreover have "sched_inv c s3 Q2" "current_thread s3 = current_thread s" "\<forall>t. live s3 t = live s t" using s2(2-4) I0(2) by (simp_all add: s3_def s0_def)
    moreover have "waiting s (wakeupOnRq x) \<and> wakeupOnRq x \<noteq> idle_thread s \<longrightarrow> ready c s3 (wakeupOnRq x)" using s2(5) unfolding I0(3,4) by (simp add: s3_def)
    ultimately show ?thesis by blast
  qed
qed

lemma mkrequest_fill_plain:
  assumes cp: "current_process s = Some cp" "the_proc s cp = Some p" and x: "the_obj s ob = Some x" "owner x \<noteq> 0"
    and f: "plain f" and np: "next_ptr s \<noteq> 0" and I: "sched_inv (current_thread s) s Q"
    and w: "wakeupOnRq x = 0 \<or> live s (wakeupOnRq x) \<and> wakeupOnRq x \<noteq> current_thread s"
  shows "\<exists>s' Q'. mkrequest_fill ob rqer f a b c s = Some ((next_ptr s, 0), s')
     \<and> the_obj s' ob = Some (x\<lparr>ob_request := next_ptr s, wakeupOnRq := 0\<rparr>)
     \<and> the_rq s' (next_ptr s) = Some (made_rq ob rqer f a b c (pid p) (kjunk s (next_ptr s)))
     \<and> sched_inv (current_thread s) s' Q' \<and> current_thread s' = current_thread s \<and> processes s' = processes s
     \<and> freed_ptrs s' = freed_ptrs s \<and> (\<forall>t. live s' t = live s t)
     \<and> (waiting s (wakeupOnRq x) \<and> wakeupOnRq x \<noteq> idle_thread s \<longrightarrow> ready (current_thread s) s' (wakeupOnRq x))"
proof -
  let ?rq = "next_ptr s" and ?c = "current_thread s"
  have ob: "ob \<noteq> 0" "objs s ob = Some x" using x(1) by (auto simp: the_obj_def split: if_splits)
  define q where "q = made_rq ob rqer f a b c (pid p) (kjunk s ?rq)"
  define s1 where "s1 = s\<lparr>next_ptr := ?rq + 1, rqs := (rqs s)(?rq \<mapsto> q)\<rparr>"
  have e: "mkrequest_fill ob rqer f a b c s = (do { s \<leftarrow> attach_request ob ?rq s1; Some ((?rq, 0), s) })"
    using cp x ob np f
    by (simp add: mkrequest_fill_def mk_params_def kmalloc_ptr_def Let_def mk_param_plain the_rq_def s1_def q_def made_rq_def blank_request_def numeral_2_eq_2)
  have s1: "the_obj s1 ob = Some x" "sched_inv ?c s1 Q" "\<And>t. live s1 t = live s t" "\<And>t. waiting s1 t = waiting s t" "idle_thread s1 = idle_thread s"
    "objs s1 = objs s" "rqs s1 ?rq = Some q" "current_thread s1 = ?c" "processes s1 = processes s" "freed_ptrs s1 = freed_ptrs s"
    using x(1) I by (simp_all add: s1_def the_obj_def)
  have "wakeupOnRq x = 0 \<or> live s1 (wakeupOnRq x) \<and> wakeupOnRq x \<noteq> ?c" using w s1(3) by simp
  from attach_request_ok[OF s1(1,2) this, of ?rq] obtain s2 s' Q' where s': "attach_request ob ?rq s1 = Some s'" "switch_only s1 s2"
      "s' = s2\<lparr>objs := (objs s1)(ob \<mapsto> x\<lparr>ob_request := ?rq, wakeupOnRq := 0\<rparr>)\<rparr>" "sched_inv ?c s' Q'" "current_thread s' = current_thread s1"
      "\<forall>t. live s' t = live s1 t" "waiting s1 (wakeupOnRq x) \<and> wakeupOnRq x \<noteq> idle_thread s1 \<longrightarrow> ready ?c s' (wakeupOnRq x)"
    by (elim exE conjE) (rule that; assumption)
  note k = switch_only_fields[OF s'(2)]
  have "the_obj s' ob = Some (x\<lparr>ob_request := ?rq, wakeupOnRq := 0\<rparr>)" "the_rq s' ?rq = Some q" "processes s' = processes s" "freed_ptrs s' = freed_ptrs s"
    using s'(3) ob np k s1 by (simp_all add: the_obj_def the_rq_def)
  then show ?thesis using e s' s1 by (intro exI[of _ s'] exI[of _ Q']) (simp add: q_def)
qed

text \<open>
  A thread of process \<open>cp\<close> can send to object \<open>ob\<close>, which nobody else sends to at the moment, under
  its descriptor \<open>i\<close>.
\<close>

definition can_send :: "kernel \<Rightarrow> u32 \<Rightarrow> ptr \<Rightarrow> ptr \<Rightarrow> process \<Rightarrow> object \<Rightarrow> bool" where
  "can_send s i ob cp p x \<longleftrightarrow> current_process s = Some cp \<and> the_proc s cp = Some p \<and> objdesc_read cp i s = Some ob
     \<and> the_obj s ob = Some x \<and> busyMutex x = MUTEX_UNLOCKED \<and> owner x \<noteq> 0 \<and> next_ptr s \<noteq> 0
     \<and> (wakeupOnRq x = 0 \<or> live s (wakeupOnRq x) \<and> wakeupOnRq x \<noteq> current_thread s)"

text \<open>The object while the request \<open>rq\<close> waits.\<close>

definition busy_with :: "ptr \<Rightarrow> object \<Rightarrow> object" where
  "busy_with rq x = x\<lparr>busyMutex := MUTEX_LOCKED, ob_request := rq, wakeupOnRq := 0\<rparr>"

text \<open>The state with the mutex of the object locked.\<close>

definition locked :: "ptr \<Rightarrow> object \<Rightarrow> kernel \<Rightarrow> kernel" where
  "locked ob x s = s\<lparr>objs := (objs s)(ob \<mapsto> x\<lparr>busyMutex := MUTEX_LOCKED\<rparr>)\<rparr>"

lemma mkrequest_unlocked:
  assumes "can_send s i ob cp p x"
  shows "mkrequest i rqer f a b c r s = (do { (v, s) \<leftarrow> mkrequest_fill ob rqer f a b c (locked ob x s); Some (Return v, s) })"
    and "current_process (locked ob x s) = Some cp" "the_obj (locked ob x s) ob = Some (x\<lparr>busyMutex := MUTEX_LOCKED\<rparr>)"
proof -
  note d = assms[unfolded can_send_def]
  have ob: "ob \<noteq> 0" "objs s ob = Some x" using d by (auto simp: the_obj_def split: if_splits)
  show "mkrequest i rqer f a b c r s = (do { (v, s) \<leftarrow> mkrequest_fill ob rqer f a b c (locked ob x s); Some (Return v, s) })"
    using d ob by (simp add: mkrequest_def mkrequest_lock_def mutex_lock_def exchange_busy_def upd_obj_def locked_def rq_consts)
  show "current_process (locked ob x s) = Some cp" "the_obj (locked ob x s) ob = Some (x\<lparr>busyMutex := MUTEX_LOCKED\<rparr>)"
    using d ob by (simp_all add: locked_def current_process_def the_obj_def)
qed

lemma locked_fields [simp]:
  "the_proc (locked ob x s) = the_proc s" "next_ptr (locked ob x s) = next_ptr s" "kjunk (locked ob x s) = kjunk s" "idle_thread (locked ob x s) = idle_thread s"
  "current_thread (locked ob x s) = current_thread s" "processes (locked ob x s) = processes s" "freed_ptrs (locked ob x s) = freed_ptrs s"
  "live (locked ob x s) t = live s t" "waiting (locked ob x s) t = waiting s t" "sched_inv k (locked ob x s) Q = sched_inv k s Q"
  "segs (locked ob x s) = segs s" "segmaps (locked ob x s) = segmaps s" "procs (locked ob x s) = procs s" "pdirs (locked ob x s) = pdirs s"
  by (simp_all add: locked_def fun_eq_iff the_proc_def)

lemma mkrequest_plain:
  assumes c: "can_send s i ob cp p x" and f: "plain f" and I: "sched_inv (current_thread s) s Q"
  shows "\<exists>s' Q'. mkrequest i rqer f a b c r s = Some (Return (next_ptr s, 0), s')
     \<and> the_obj s' ob = Some (busy_with (next_ptr s) x)
     \<and> the_rq s' (next_ptr s) = Some (made_rq ob rqer f a b c (pid p) (kjunk s (next_ptr s)))
     \<and> sched_inv (current_thread s) s' Q' \<and> current_thread s' = current_thread s \<and> processes s' = processes s
     \<and> freed_ptrs s' = freed_ptrs s \<and> (\<forall>t. live s' t = live s t)
     \<and> (waiting s (wakeupOnRq x) \<and> wakeupOnRq x \<noteq> idle_thread s \<longrightarrow> ready (current_thread s) s' (wakeupOnRq x))"
  using mkrequest_fill_plain[OF mkrequest_unlocked(2)[OF c] _ mkrequest_unlocked(3)[OF c], of p f Q rqer a b c] mkrequest_unlocked(1)[OF c, of rqer f a b c r] f c I
  by (simp add: busy_with_def can_send_def) (elim exE conjE, intro exI conjI, (assumption | simp)+)

section \<open>Receiving\<close>

text \<open>A thread of the owner of \<open>ob\<close> receives under its descriptor \<open>j\<close>.\<close>

definition serves :: "ptr \<Rightarrow> u32 \<Rightarrow> ptr \<Rightarrow> kernel \<Rightarrow> bool" where
  "serves own j ob s \<longleftrightarrow> current_process s = Some own \<and> objdesc_read own j s = Some ob"

lemma read_from_same:
  assumes "descs s' = descs s"
  shows "read_from s it i = Some v \<Longrightarrow> read_from s' it i = Some v"
proof -
  have "t = s \<longrightarrow> read_from s' it i = Some v" if "read_from t it i = Some v" for t
  proof (rule read_from.raw_induct[where P = "\<lambda>t it i v. t = s \<longrightarrow> read_from s' it i = Some v", OF _ that])
    fix g :: "kernel \<Rightarrow> nat \<Rightarrow> u32 \<Rightarrow> nat option" and t it i v
    assume IH: "\<And>t it i v. g t it i = Some v \<Longrightarrow> t = s \<longrightarrow> read_from s' it i = Some v"
      and "(if it = 0 then Some 0 else do { d \<leftarrow> the_desc t it; if od_id d = i then Some (od_obj d) else g t (od_next d) i }) = Some v"
    then show "t = s \<longrightarrow> read_from s' it i = Some v" using deref_cong(7)[OF assms]
      by (subst read_from.simps) (auto split: if_splits bind_splits)
  qed
  then show "read_from s it i = Some v \<Longrightarrow> read_from s' it i = Some v" by blast
qed

lemma objdesc_read_same: "procs s' = procs s \<Longrightarrow> descs s' = descs s \<Longrightarrow> objdesc_read p i s = Some v \<Longrightarrow> objdesc_read p i s' = Some v"
  using read_from_same[of s' s] deref_cong(1)[of s' s] by (auto simp: objdesc_read_def split: bind_splits)

lemma serves_rqs: "serves own j ob s \<Longrightarrow> serves own j ob (s\<lparr>rqs := f\<rparr>)"
  using objdesc_read_same[of "s\<lparr>rqs := f\<rparr>" s] by (simp add: serves_def current_process_def)

text \<open>What the receiver sees of a request.\<close>

definition seen :: "request \<Rightarrow> user_request" where
  "seen q = \<lparr>ur_func = func q, ur_params = params q, ur_shmsize = shmsize q, ur_isBlocking = (requester q \<noteq> 0), ur_pid = rq_pid q\<rparr>"

lemma request_get_pending:
  assumes x: "the_obj s ob = Some x" "busyMutex x = MUTEX_LOCKED" "ob_request x = rq" and q: "the_rq s rq = Some q" "acknowledged q = RS_PENDING"
    and o: "serves (owner x) j ob s"
  shows "request_get j wait r s = (do { (v, s) \<leftarrow> request_take ob s; Some (Return v, s) })"
proof -
  have "ob \<noteq> 0" "rq \<noteq> 0" using x q by (auto simp: the_obj_def the_rq_def split: if_splits)
  then show ?thesis using assms by (simp add: request_get_def request_get_loop_def serves_def)
qed

lemma request_take_kept:
  assumes "the_obj s ob = Some x" and "the_rq s (ob_request x) = Some q" and "requester q \<noteq> 0 \<or> (\<exists>m\<in>set (shm_sndr q). m \<noteq> 0)"
  shows "request_take ob s = Some ((0, Some (seen q)), s\<lparr>rqs := (rqs s)(ob_request x \<mapsto> q\<lparr>acknowledged := RS_PROCESSED\<rparr>)\<rparr>)"
proof -
  have "ob_request x \<noteq> 0" using assms(2) by (auto simp: the_rq_def split: if_splits)
  then show ?thesis using assms by (simp add: request_take_def upd_rq_def the_rq_def seen_def Let_def)
qed

lemmas request_take_blocking = request_take_kept[OF _ _ disjI1]

lemma request_take_message:
  assumes "the_obj s ob = Some x" and "the_rq s (ob_request x) = Some q" and "requester q = 0" and "\<forall>m\<in>set (shm_sndr q). m = 0"
  shows "\<exists>s'. request_take ob s = Some ((0, Some (seen q)), s')
     \<and> the_obj s' ob = Some (x\<lparr>ob_request := 0, busyMutex := MUTEX_UNLOCKED\<rparr>) \<and> ob_request x \<in> freed_ptrs s'
     \<and> thrs s' = thrs s \<and> procs s' = procs s \<and> descs s' = descs s \<and> (\<forall>ob'. ob' \<noteq> ob \<longrightarrow> the_obj s' ob' = the_obj s ob')"
proof -
  have nz: "ob_request x \<noteq> 0" "ob \<noteq> 0" "objs s ob = Some x" using assms(1,2) by (auto simp: the_rq_def the_obj_def split: if_splits)
  then show ?thesis using assms
    by (simp add: request_take_def upd_rq_def the_rq_def seen_def Let_def finish_request_def kfree_ptr_def mutex_unlock_def upd_obj_def the_obj_def)
      auto
qed

lemma made_rq_fields [simp]:
  "func (made_rq ob rqer f a b c p junk) = f" "requester (made_rq ob rqer f a b c p junk) = rqer" "rq_pid (made_rq ob rqer f a b c p junk) = p"
  "acknowledged (made_rq ob rqer f a b c p junk) = RS_PENDING" "shm_sndr (made_rq ob rqer f a b c p junk) = [0, 0, 0]"
  "shm_rcv (made_rq ob rqer f a b c p junk) = [0, 0, 0]" "obj_close (made_rq ob rqer f a b c p junk) = [0, 0, 0]"
  "params (made_rq ob rqer f a b c p junk) = [arg f 0 a, arg f 1 b, arg f 2 c]"
  by (simp_all add: made_rq_def blank_request_def)

lemma busy_with_fields [simp]:
  "busyMutex (busy_with rq x) = MUTEX_LOCKED" "ob_request (busy_with rq x) = rq" "owner (busy_with rq x) = owner x"
  "wakeupOnRq (busy_with rq x) = 0" "descriptors (busy_with rq x) = descriptors x"
  by (simp_all add: busy_with_def)

section \<open>Messages\<close>

text \<open>The state after other threads ran that leave object \<open>ob\<close> and request \<open>rq\<close> alone.\<close>

definition untouched :: "ptr \<Rightarrow> ptr \<Rightarrow> kernel \<Rightarrow> kernel \<Rightarrow> bool" where
  "untouched ob rq s t \<longleftrightarrow> the_obj t ob = the_obj s ob \<and> the_rq t rq = the_rq s rq"

text \<open>
  Delivery of messages: \<open>send_msg\<close> to a free object, with plain parameters, returns 0 and wakes up
  the thread that waits for requests, if any. Then \<open>request_get\<close> of the owner, whether it is willing
  to wait or not, returns the function, the parameters (0 for those of type void), the pid of
  the sender and that nobody waits for an answer; the request is freed, the object is free again.
\<close>

theorem message_delivery:
  assumes "can_send s i ob cp p x" and "plain (us_func u)" and "sched_inv (current_thread s) s Q"
  shows "\<exists>s'. send_msg i u r s = Some (Return (0, u\<lparr>us_errcode := 0\<rparr>), s')
     \<and> (waiting s (wakeupOnRq x) \<and> wakeupOnRq x \<noteq> idle_thread s \<longrightarrow> ready (current_thread s) s' (wakeupOnRq x))
     \<and> (\<forall>t j wait r'. untouched ob (next_ptr s) s' t \<and> serves (owner x) j ob t \<longrightarrow>
          (\<exists>ur t'. request_get j wait r' t = Some (Return (0, Some ur), t') \<and> ur_func ur = us_func u
             \<and> ur_params ur = [arg (us_func u) 0 (us_a u), arg (us_func u) 1 (us_b u), arg (us_func u) 2 (us_c u)]
             \<and> ur_pid ur = pid p \<and> \<not> ur_isBlocking ur \<and> next_ptr s \<in> freed_ptrs t'
             \<and> the_obj t' ob = Some (x\<lparr>ob_request := 0, wakeupOnRq := 0\<rparr>)))"
proof -
  let ?rq = "next_ptr s" and ?q = "made_rq ob 0 (us_func u) (us_a u) (us_b u) (us_c u) (pid p) (kjunk s (next_ptr s))"
  obtain s' where s': "mkrequest i 0 (us_func u) (us_a u) (us_b u) (us_c u) r s = Some (Return (?rq, 0), s')"
      "the_obj s' ob = Some (busy_with ?rq x)" "the_rq s' ?rq = Some ?q"
      "waiting s (wakeupOnRq x) \<and> wakeupOnRq x \<noteq> idle_thread s \<longrightarrow> ready (current_thread s) s' (wakeupOnRq x)"
    using mkrequest_plain[OF assms, of 0 "us_a u" "us_b u" "us_c u" r] by (elim exE conjE) blast
  have m: "busyMutex x = MUTEX_UNLOCKED" "?rq \<noteq> 0" using assms(1) by (simp_all add: can_send_def)
  have "\<exists>ur t'. request_get j wait r' t = Some (Return (0, Some ur), t') \<and> ur_func ur = us_func u
             \<and> ur_params ur = [arg (us_func u) 0 (us_a u), arg (us_func u) 1 (us_b u), arg (us_func u) 2 (us_c u)]
             \<and> ur_pid ur = pid p \<and> \<not> ur_isBlocking ur \<and> ?rq \<in> freed_ptrs t'
             \<and> the_obj t' ob = Some (x\<lparr>ob_request := 0, wakeupOnRq := 0\<rparr>)"
    if t: "untouched ob ?rq s' t" "serves (owner x) j ob t" for t j wait r'
  proof -
    have o: "the_obj t ob = Some (busy_with ?rq x)" "the_rq t ?rq = Some ?q" using t(1) s'(2,3) by (simp_all add: untouched_def)
    obtain t' where t': "request_take ob t = Some ((0, Some (seen ?q)), t')" "?rq \<in> freed_ptrs t'"
        "the_obj t' ob = Some ((busy_with ?rq x)\<lparr>ob_request := 0, busyMutex := MUTEX_UNLOCKED\<rparr>)"
      using request_take_message[OF o(1), of ?q] o(2) by auto
    have "x\<lparr>ob_request := 0, wakeupOnRq := 0\<rparr> = (busy_with ?rq x)\<lparr>ob_request := 0, busyMutex := MUTEX_UNLOCKED\<rparr>"
      using m(1) by (simp add: busy_with_def)
    then show ?thesis using request_get_pending[OF o(1) _ _ o(2)] t(2) t' by (simp add: seen_def)
  qed
  then show ?thesis using s' m(2) by (intro exI[of _ s']) (simp add: send_msg_def msg_made_def)
qed

section \<open>Answers\<close>

lemma set_n_low: "ucast (set_n v a) = v"
proof -
  have "(0xFFFFFFFF00000000 :: u64) = NOT (mask 32)" by (simp add: mask_eq_exp_minus_1)
  then have "set_n v a = (a AND NOT (mask 32)) OR ucast v" by (simp only: set_n_def)
  then show ?thesis by (intro bit_word_eqI) (auto simp: bit_simps)
qed

text \<open>The request after an answer to a function that does not return a descriptor.\<close>

definition with_answer :: "u32 \<Rightarrow> u32 \<Rightarrow> u32 \<Rightarrow> request \<Rightarrow> request" where
  "with_answer ans ans2 err q = q\<lparr>acknowledged := RS_FINISHED,
     answer := (if result_type (func q) = PT_LONG then set_n ans (answer q)
                else if result_type (func q) = PT_LONGLONG then push_bit 32 (ucast ans2) OR ucast ans else answer q), errcode := err\<rparr>"

lemma release_none: "release_params own [(0, 0), (0, 0), (0, 0)] s = Some s"
  by simp

lemma request_answer_plain:
  assumes x: "the_obj s ob = Some x" and q: "the_rq s (ob_request x) = Some q" "acknowledged q = RS_PROCESSED" "requester q \<noteq> 0"
      "shm_rcv q = [0, 0, 0]" "obj_close q = [0, 0, 0]" "result_type (func q) \<noteq> PT_OBJDESC"
    and o: "serves (owner x) j ob s" and I: "sched_inv (current_thread s) s Q" and l: "live s (requester q)" "requester q \<noteq> current_thread s"
  shows "\<exists>s' Q'. request_answer j ans ans2 err s = Some s' \<and> the_rq s' (ob_request x) = Some (with_answer ans ans2 err q)
     \<and> the_obj s' ob = Some (x\<lparr>ob_request := 0, busyMutex := MUTEX_UNLOCKED\<rparr>)
     \<and> sched_inv (current_thread s) s' Q' \<and> current_thread s' = current_thread s
     \<and> (waiting s (requester q) \<and> requester q \<noteq> idle_thread s \<longrightarrow> ready (current_thread s) s' (requester q))"
proof -
  let ?rq = "ob_request x" and ?c = "current_thread s"
  have nz: "?rq \<noteq> 0" "ob \<noteq> 0" "objs s ob = Some x" "rqs s ?rq = Some q" using x q(1) by (auto simp: the_rq_def the_obj_def split: if_splits)
  define s1 where "s1 = s\<lparr>rqs := (rqs s)(?rq \<mapsto> with_answer ans ans2 err q)\<rparr>"
  have e: "request_answer j ans ans2 err s = (do {
      s \<leftarrow> thread_wakeUp (requester q) s1;
      s \<leftarrow> upd_obj ob (\<lambda>x. x\<lparr>ob_request := 0\<rparr>) s;
      mutex_unlock ob s })"
    using o x q nz unfolding request_answer_def answer_request_def serves_def s1_def with_answer_def
    by (auto simp: set_answer_def upd_rq_def the_rq_def rq_consts)
  have I1: "sched_inv ?c s1 Q" "live s1 (requester q)" "waiting s1 t = waiting s t" "idle_thread s1 = idle_thread s"
      "the_rq s1 ?rq = Some (with_answer ans ans2 err q)" "the_obj s1 ob = Some x" "current_thread s1 = ?c" for t
    using I l nz x by (simp_all add: s1_def the_rq_def)
  obtain s2 Q2 where s2: "thread_wakeUp (requester q) s1 = Some s2" "sched_inv ?c s2 Q2" "current_thread s2 = current_thread s1"
      "waiting s1 (requester q) \<and> requester q \<noteq> idle_thread s1 \<longrightarrow> ready ?c s2 (requester q)"
    using thread_wakeUp_ok[OF I1(1,2) l(2)] by (elim exE conjE) blast
  note k = switch_only_fields[OF wakeUp_only[OF s2(1)]]
  have o2: "the_obj s2 ob = Some x" "the_rq s2 ?rq = Some (with_answer ans ans2 err q)"
    using I1(5,6) deref_cong(6)[OF k(3)] deref_cong(8)[OF k(5)] by simp_all
  define s3 where "s3 = s2\<lparr>objs := (objs s2)(ob \<mapsto> x\<lparr>ob_request := 0, busyMutex := MUTEX_UNLOCKED\<rparr>)\<rparr>"
  have "request_answer j ans ans2 err s = Some s3"
    using e s2(1) o2 nz by (simp add: mutex_unlock_def upd_obj_def the_obj_def s3_def)
  moreover have "the_obj s3 ob = Some (x\<lparr>ob_request := 0, busyMutex := MUTEX_UNLOCKED\<rparr>)" using nz by (simp add: s3_def the_obj_def)
  ultimately show ?thesis using s2 o2 I1 by (intro exI[of _ s3] exI[of _ Q2]) (simp add: s3_def)
qed

text \<open>What the requester gets back.\<close>

definition returned :: "u32 \<Rightarrow> u32 \<Rightarrow> u32 \<Rightarrow> user_sendrequest \<Rightarrow> user_sendrequest" where
  "returned ans ans2 err u =
     (if result_type (us_func u) = PT_LONG then u\<lparr>us_answeri := ans, us_errcode := err\<rparr>
      else if result_type (us_func u) = PT_LONGLONG then u\<lparr>us_answerll := push_bit 32 (ucast ans2) OR ucast ans, us_errcode := err\<rparr>
      else u\<lparr>us_errcode := err\<rparr>)"

lemma request_resume_answered:
  assumes "the_rq s rq = Some (with_answer ans ans2 err q)" and "func q = us_func u" and "result_type (func q) \<noteq> PT_OBJDESC"
  shows "request_resume rq u s = Some (0, returned ans ans2 err u, kfree_ptr rq s)"
  using assms by (simp add: request_resume_def with_answer_def returned_def set_n_low rq_consts Let_def)

section \<open>Remote calls\<close>

lemma remote_call_ok:
  assumes "can_send s i ob cp p x" and "plain (us_func u)" and "result_type (us_func u) \<noteq> PT_OBJDESC"
    and "sched_inv (current_thread s) s Q" and "processes s \<noteq> 0" and "rq = next_ptr s" and "c = current_thread s"
  shows "\<exists>r1 s1. request i u r s = Some (Wait r1, s1) \<and> (\<exists>Q1. sched_inv (current_thread s1) s1 Q1)
     \<and> (\<forall>t j wait r'. untouched ob rq s1 t \<and> serves (owner x) j ob t \<longrightarrow>
          (\<exists>ur s2. request_get j wait r' t = Some (Return (0, Some ur), s2) \<and> ur_func ur = us_func u
             \<and> ur_params ur = [arg (us_func u) 0 (us_a u), arg (us_func u) 1 (us_b u), arg (us_func u) 2 (us_c u)]
             \<and> ur_pid ur = pid p \<and> ur_isBlocking ur \<and> (\<exists>f. s2 = t\<lparr>rqs := f\<rparr>)
             \<and> (\<forall>t2 Q2 ans ans2 err. untouched ob rq s2 t2 \<and> serves (owner x) j ob t2 \<and> sched_inv (current_thread t2) t2 Q2
                  \<and> live t2 c \<and> waiting t2 c \<and> c \<noteq> current_thread t2 \<and> c \<noteq> idle_thread t2 \<longrightarrow>
                  (\<exists>s3. request_answer j ans ans2 err t2 = Some s3 \<and> ready (current_thread t2) s3 c
                     \<and> the_obj s3 ob = Some (x\<lparr>ob_request := 0, wakeupOnRq := 0\<rparr>)
                     \<and> (\<forall>t3. the_rq t3 rq = the_rq s3 rq \<longrightarrow>
                          request_resume rq u t3 = Some (0, returned ans ans2 err u, kfree_ptr rq t3))))))"
proof -
  let ?q = "made_rq ob c (us_func u) (us_a u) (us_b u) (us_c u) (pid p) (kjunk s rq)" and ?x = "busy_with rq x"
  let ?q' = "?q\<lparr>acknowledged := RS_PROCESSED\<rparr>"
  have m: "busyMutex x = MUTEX_UNLOCKED" "rq \<noteq> 0" "c \<noteq> 0" using assms(1,6,7)
    by (auto simp: can_send_def current_process_def the_thr_def split: bind_splits if_splits)
  obtain s0 Q0 where s0: "mkrequest i c (us_func u) (us_a u) (us_b u) (us_c u) r s = Some (Return (rq, 0), s0)"
      "the_obj s0 ob = Some ?x" "the_rq s0 rq = Some ?q" "sched_inv (current_thread s0) s0 Q0" "processes s0 \<noteq> 0" "current_thread s0 = c"
    using mkrequest_plain[OF assms(1,2,4), of c "us_a u" "us_b u" "us_c u" r] assms(5-7) by (elim exE conjE) auto
  obtain r1 s1 Q1 where s1: "thread_goInactive r s0 = Some (r1, s1)" "sched_inv (current_thread s1) s1 Q1"
    using thread_goInactive_ok[OF s0(4,5)] m(3) s0(6) by blast
  note k = switch_only_fields[OF goInactive_only[OF s1(1)]]
  have o1: "the_obj s1 ob = Some ?x" "the_rq s1 rq = Some ?q" using s0(2,3) deref_cong(6)[OF k(3)] deref_cong(8)[OF k(5)] by simp_all
  have rq: "request i u r s = Some (Wait r1, s1)" using s0(1) s1(1) m(2) assms(7) by (simp add: request_def request_made_def)
  have get: "request_get j wait r' t = Some (Return (0, Some (seen ?q)), t\<lparr>rqs := (rqs t)(rq \<mapsto> ?q')\<rparr>)"
    if "untouched ob rq s1 t" "serves (owner x) j ob t" for t j wait r'
    using that o1 request_get_pending[of t ob ?x rq ?q j wait r'] request_take_blocking[of t ob ?x ?q] m(3) by (simp add: untouched_def)
  have ans: "\<exists>s3. request_answer j ans ans2 err t2 = Some s3 \<and> ready (current_thread t2) s3 c
                     \<and> the_obj s3 ob = Some (x\<lparr>ob_request := 0, wakeupOnRq := 0\<rparr>) \<and> the_rq s3 rq = Some (with_answer ans ans2 err ?q')"
    if t: "the_obj t2 ob = Some ?x" "the_rq t2 rq = Some ?q'" "serves (owner x) j ob t2" "sched_inv (current_thread t2) t2 Q2"
      "live t2 c" "waiting t2 c" "c \<noteq> current_thread t2" "c \<noteq> idle_thread t2" for t2 j Q2 ans ans2 err
  proof -
    have "x\<lparr>ob_request := 0, wakeupOnRq := 0\<rparr> = ?x\<lparr>ob_request := 0, busyMutex := MUTEX_UNLOCKED\<rparr>" using m(1) by (simp add: busy_with_def)
    then show ?thesis using request_answer_plain[OF t(1) _ _ _ _ _ _ _ t(4), of ?q' j ans ans2 err] t m(3) assms(3) by auto
  qed
  have "\<exists>s3. request_answer j ans ans2 err t2 = Some s3 \<and> ready (current_thread t2) s3 c
                     \<and> the_obj s3 ob = Some (x\<lparr>ob_request := 0, wakeupOnRq := 0\<rparr>)
                     \<and> (\<forall>t3. the_rq t3 rq = the_rq s3 rq \<longrightarrow> request_resume rq u t3 = Some (0, returned ans ans2 err u, kfree_ptr rq t3))"
    if t: "untouched ob rq s1 t" "untouched ob rq (t\<lparr>rqs := (rqs t)(rq \<mapsto> ?q')\<rparr>) t2" "serves (owner x) j ob t2"
      "sched_inv (current_thread t2) t2 Q2" "live t2 c" "waiting t2 c" "c \<noteq> current_thread t2" "c \<noteq> idle_thread t2" for t t2 j Q2 ans ans2 err
  proof -
    have "the_obj t2 ob = Some ?x" "the_rq t2 rq = Some ?q'" using t(1,2) o1 m(2) by (simp_all add: untouched_def the_rq_def)
    then show ?thesis using ans[OF _ _ t(3-8), of ans ans2 err] request_resume_answered[of _ rq ans ans2 err ?q' u] assms(3) by fastforce
  qed
  then show ?thesis using rq s1(2) get m(3) by (intro exI[of _ r1] exI[of _ s1]) (fastforce simp: seen_def)
qed

text \<open>
  C3. A remote call: \<open>request\<close> to a free object, with plain parameters and a result that is not a
  descriptor, makes the requester wait. When the owner of the object receives, it gets the
  function, the parameters, the pid of the caller and that an answer is expected. When the
  owner answers, the requester, still waiting, becomes ready and the object is free again. When the requester
  runs again, its system call returns 0 with the answer and the error code of the owner, and
  the request is freed.
\<close>

theorem remote_call:
  assumes "can_send s i ob cp p x" and "plain (us_func u)" and "result_type (us_func u) \<noteq> PT_OBJDESC"
    and "sched_inv (current_thread s) s Q" and "processes s \<noteq> 0" and "rq = next_ptr s" and "c = current_thread s"
  shows "\<exists>r1 s1. request i u r s = Some (Wait r1, s1) \<and> (\<exists>Q1. sched_inv (current_thread s1) s1 Q1)
     \<and> (\<forall>t j wait r'. untouched ob rq s1 t \<and> serves (owner x) j ob t \<longrightarrow>
          (\<exists>ur s2. request_get j wait r' t = Some (Return (0, Some ur), s2) \<and> ur_func ur = us_func u
             \<and> ur_params ur = [arg (us_func u) 0 (us_a u), arg (us_func u) 1 (us_b u), arg (us_func u) 2 (us_c u)]
             \<and> ur_pid ur = pid p \<and> ur_isBlocking ur \<and> (\<exists>f. s2 = t\<lparr>rqs := f\<rparr>)
             \<and> (\<forall>t2 Q2 ans ans2 err. untouched ob rq s2 t2 \<and> serves (owner x) j ob t2 \<and> sched_inv (current_thread t2) t2 Q2
                  \<and> live t2 c \<and> waiting t2 c \<and> c \<noteq> current_thread t2 \<and> c \<noteq> idle_thread t2 \<longrightarrow>
                  (\<exists>s3. request_answer j ans ans2 err t2 = Some s3 \<and> ready (current_thread t2) s3 c
                     \<and> the_obj s3 ob = Some (x\<lparr>ob_request := 0, wakeupOnRq := 0\<rparr>)
                     \<and> (\<forall>t3. the_rq t3 rq = the_rq s3 rq \<longrightarrow>
                          request_resume rq u t3 = Some (0, returned ans ans2 err u, kfree_ptr rq t3))))))"
  using assms by (rule remote_call_ok)

section \<open>Passing descriptors\<close>

lemma the_rq_upd: "rq \<noteq> 0 \<Longrightarrow> the_rq (s\<lparr>rqs := (rqs s)(rq \<mapsto> x)\<rparr>) t = (if t = rq then Some x else the_rq s t)"
  by (simp add: the_rq_def)

lemma desc_table_cong:
  assumes "procs s' = procs s" "descs s' = descs s" "next_ptr s' = next_ptr s"
  shows "desc_table s' p t = desc_table s p t"
  using assms deref_cong(1)[OF assms(1)] entry_cong[OF assms(2)] by (simp add: desc_table_def desc_list_def)

lemma desc_table_rqs [simp]: "desc_table (s\<lparr>rqs := f\<rparr>) p t = desc_table s p t"
  by (rule desc_table_cong) simp_all

lemma known_descriptor:
  assumes "the_rq s rq = Some q" and "param_type (func q) i = PT_OBJDESC" and "i < length (params q)" and "i < length (obj_close q)"
    and "v < 0x80000000" and "own \<noteq> cp" and "desc_table s cp tc" and "desc_table s own to" and "(v, ob) \<in> set tc" and "can_add s own ob"
  shows "\<exists>s' q'. mk_param cp own rq i v s = Some s' \<and> the_rq s' rq = Some q' \<and> objdesc_read own (params q' ! i) s' = Some ob
     \<and> (ob \<in> snd ` set to \<longrightarrow> (params q' ! i, ob) \<in> set to \<and> obj_close q' = obj_close q)
     \<and> (ob \<notin> snd ` set to \<longrightarrow> params q' ! i \<notin> fst ` set to \<and> obj_close q' ! i = params q' ! i)
     \<and> (\<forall>j o'. (j, o') \<in> set to \<longrightarrow> objdesc_read own j s' = Some o') \<and> desc_table s' cp tc"
proof -
  have rq: "rq \<noteq> 0" "rqs s rq = Some q" using assms(1) by (auto simp: the_rq_def split: if_splits)
  have rd: "objdesc_read cp v s = Some ob" by (rule dt.read_entry[OF assms(7,9)])
  have v: "\<not> v \<ge> 0x80000000" using assms(5) by simp
  show ?thesis
  proof (cases "ob \<in> snd ` set to")
    case True
    then obtain d where d: "(d, ob) \<in> set to" by auto
    have g: "objdesc_get own ob s = Some d" "d \<noteq> - 1" using dt.get_entry[OF assms(8) d] dt.table_distinct[OF assms(8)] d by force+
    define s1 where "s1 = s\<lparr>rqs := (rqs s)(rq \<mapsto> q\<lparr>params := (params q)[i := d]\<rparr>)\<rparr>"
    have e: "mk_param cp own rq i v s = Some s1" using assms(1,2,6) rd v g by (simp add: mk_param_def upd_rq_def s1_def)
    have t: "desc_table s1 own to" "desc_table s1 cp tc" using assms(7,8) by (simp_all add: s1_def)
    have "the_rq s1 rq = Some (q\<lparr>params := (params q)[i := d]\<rparr>)" using rq by (simp add: s1_def the_rq_def)
    then show ?thesis using e d t dt.read_entry[OF t(1)] assms(3) True by (intro exI[of _ s1]) simp
  next
    case False
    obtain d s1 where a: "objdesc_add own ob s = Some (d, s1)" "d \<notin> fst ` set to" "desc_table s1 own ((d, ob) # to)"
      using dt.add_new[OF assms(8,10) False] by blast
    have t1: "desc_table s1 cp tc" using dt.add_other[OF assms(7) a(1)] assms(6) by simp
    have g: "objdesc_get own ob s = Some (- 1)" by (rule objdesc_get_new[OF assms(8) False])
    have r1: "the_rq s1 rq = Some q" using objdesc_add_cases[OF a(1)] rq by (auto simp: added_def the_rq_def)
    define s2 where "s2 = s1\<lparr>rqs := (rqs s1)(rq \<mapsto> q\<lparr>obj_close := (obj_close q)[i := d], params := (params q)[i := d]\<rparr>)\<rparr>"
    have e: "mk_param cp own rq i v s = Some s2"
      using assms(1,2,6) rd v g a(1) r1 rq(1) by (simp add: mk_param_def upd_rq_def the_rq_upd s2_def)
    have t: "desc_table s2 own ((d, ob) # to)" "desc_table s2 cp tc" using a(3) t1 by (simp_all add: s2_def)
    have "the_rq s2 rq = Some (q\<lparr>obj_close := (obj_close q)[i := d], params := (params q)[i := d]\<rparr>)" using rq by (simp add: s2_def the_rq_def)
    then show ?thesis using e t dt.read_entry[OF t(1)] assms(3,4) False a(2) by (intro exI[of _ s2]) simp
  qed
qed

text \<open>A number that is no descriptor of the sender: the kernel adds a descriptor to the null pointer.\<close>

lemma unknown_descriptor:
  assumes "the_rq s rq = Some q" and "param_type (func q) i = PT_OBJDESC" and "v < 0x80000000" and "own \<noteq> cp"
    and "desc_table s cp tc" and "desc_table s own to" and "v \<notin> fst ` set tc" and "0 \<notin> snd ` set to"
  shows "mk_param cp own rq i v s = None"
proof -
  have v: "\<not> v \<ge> 0x80000000" using assms(3) by simp
  have "map_of tc v = None" using assms(7) by (simp add: map_of_eq_None_iff)
  then have rd: "objdesc_read cp v s = Some 0" using objdesc_read_ok[OF assms(5), of v] by simp
  have g: "objdesc_get own 0 s = Some (- 1)" by (rule objdesc_get_new[OF assms(6,8)])
  have z: "upd_obj 0 f x = None" for f x by (simp add: upd_obj_def the_obj_def)
  have "objdesc_add own 0 s = None" using g by (auto simp: objdesc_add_def z split: bind_split prod.split)
  then show ?thesis using assms(1,2,4) v rd g by (simp add: mk_param_def)
qed

text \<open>
  C22. Passing an object to another process: when a parameter is a descriptor \<open>v\<close> of the sender, the receiver finds in
  its place a descriptor of its own to the same object. It is an old one if the receiver had
  one, and otherwise a new one, which is noted in \<open>obj_close\<close>. All descriptors that
  the two processes had stay valid. When \<open>v\<close> is no descriptor of the sender, the kernel dereferences null.
  The number 0 is no exception: the comment before the loop says that it means that nothing is shared and that it stays 0, but
  the code shares the object with descriptor 0, or faults if there is none.
\<close>

theorem descriptor_passing:
  assumes "the_rq s rq = Some q" and "param_type (func q) i = PT_OBJDESC" and "i < length (params q)" and "i < length (obj_close q)"
    and "v < 0x80000000" and "own \<noteq> cp" and "desc_table s cp tc" and "desc_table s own to" and "0 \<notin> snd ` set to"
    and "\<And>ob. (v, ob) \<in> set tc \<Longrightarrow> can_add s own ob"
  shows "if v \<in> fst ` set tc then \<exists>ob s' q'. (v, ob) \<in> set tc \<and> mk_param cp own rq i v s = Some s' \<and> the_rq s' rq = Some q'
       \<and> objdesc_read own (params q' ! i) s' = Some ob
       \<and> (ob \<in> snd ` set to \<longrightarrow> (params q' ! i, ob) \<in> set to \<and> obj_close q' = obj_close q)
       \<and> (ob \<notin> snd ` set to \<longrightarrow> params q' ! i \<notin> fst ` set to \<and> obj_close q' ! i = params q' ! i)
       \<and> (\<forall>j o'. (j, o') \<in> set to \<longrightarrow> objdesc_read own j s' = Some o') \<and> desc_table s' cp tc
     else mk_param cp own rq i v s = None"
proof (cases "v \<in> fst ` set tc")
  case True
  then obtain ob where ob: "(v, ob) \<in> set tc" by auto
  from known_descriptor[OF assms(1-8) ob assms(10)[OF ob]] show ?thesis using True ob by (simp only: if_True) blast
next
  case False
  then show ?thesis using unknown_descriptor[OF assms(1,2,5-8) False assms(9)] by simp
qed

section \<open>Refused and blocking calls\<close>

text \<open>
  Error codes: the calls of the receiver refuse, without any effect, a descriptor that does
  not exist (-10), an object of another process (-2), an object without a request (-1 for
  \<open>request_get\<close> without waiting, -3 for \<open>request_mapShm\<close>), a second \<open>request_get\<close> of a request
  that is being processed (-3) and a parameter number out of range (-9). \<open>request_has\<close> tells
  whether there is no request (0), one that waits (1) or one that is being processed (2).
\<close>

theorem request_errors:
  assumes "current_process s = Some cp" and "objdesc_read cp i s = Some ob" and "ob \<noteq> 0 \<longrightarrow> the_obj s ob = Some x"
    and "ob \<noteq> 0 \<and> ob_request x \<noteq> 0 \<longrightarrow> the_rq s (ob_request x) = Some q \<and> busyMutex x = MUTEX_LOCKED"
  shows "request_has i s = Some (if ob = 0 then - 10 else if owner x \<noteq> cp then - 2 else if ob_request x = 0 then 0
       else if acknowledged q = RS_PENDING then 1 else 2)
    \<and> (ob = 0 \<longrightarrow> request_get i wait r s = Some (Return (- 10, None), s))
    \<and> (ob \<noteq> 0 \<and> owner x \<noteq> cp \<longrightarrow> request_get i wait r s = Some (Return (- 2, None), s))
    \<and> (ob \<noteq> 0 \<and> owner x = cp \<and> ob_request x = 0 \<longrightarrow> request_get i False r s = Some (Return (- 1, None), s))
    \<and> (ob \<noteq> 0 \<and> owner x = cp \<and> ob_request x \<noteq> 0 \<and> acknowledged q \<noteq> RS_PENDING \<longrightarrow> request_get i wait r s = Some (Return (- 3, None), s))
    \<and> (ob = 0 \<or> owner x \<noteq> cp \<or> ob_request x = 0 \<or> acknowledged q = RS_PENDING \<longrightarrow> request_answer i a a2 e s = Some s
        \<and> request_mapShm i pos n s = Some (if n \<notin> {0..2} then - 9 else if ob = 0 then - 10 else if owner x \<noteq> cp then - 2 else - 3, s))"
proof -
  consider (none) "ob = 0" | (other) "ob \<noteq> 0" "owner x \<noteq> cp" | (empty) "ob \<noteq> 0" "owner x = cp" "ob_request x = 0"
    | (pend) "ob \<noteq> 0" "owner x = cp" "ob_request x \<noteq> 0" "acknowledged q = RS_PENDING"
    | (proc) "ob \<noteq> 0" "owner x = cp" "ob_request x \<noteq> 0" "acknowledged q \<noteq> RS_PENDING" by blast
  then show ?thesis
    by cases (use assms in \<open>simp_all add: request_get_def request_has_def request_answer_def request_mapShm_def rq_consts\<close>)
qed

section \<open>A concrete state\<close>

text \<open>
  Process 1 has a descriptor 0 to the object 30 of process 7. Thread 6 of process 1 and thread 8 of
  process 7 take turns: one of them, \<open>c\<close>, has the processor and the other one is blocked, 8 until a
  request arrives. Threads 2 and 3 are ready.
\<close>

definition rpc_thread :: "ptr \<Rightarrow> bool \<Rightarrow> thread" where
  "rpc_thread p run = (demo_thread p 0)\<lparr>th_state := (if run then TS_RUNNING else TS_WAKEWAIT)\<rparr>"

definition rpc_object :: object where
  "rpc_object = \<lparr>owner = 7, descriptors = 2, busyMutex = 0, ob_request = 0, wakeupOnRq = 8\<rparr>"

definition rpc_demo :: "ptr \<Rightarrow> kernel" where
  "rpc_demo c = sched_demo\<lparr>
     procs := [1 \<mapsto> (demo_proc 3 2)\<lparr>objects := 22, next_objdesc := 2\<rparr>, 5 \<mapsto> demo_proc 0 4, 7 \<mapsto> (demo_proc 2 8)\<lparr>pid := 3, objects := 21, next_objdesc := 1\<rparr>],
     thrs := [2 \<mapsto> demo_thread 1 3, 3 \<mapsto> demo_thread 1 0, 4 \<mapsto> demo_thread 5 0, 6 \<mapsto> rpc_thread 1 (c = 6), 8 \<mapsto> rpc_thread 7 (c = 8)],
     current_thread := c, objs := [30 \<mapsto> rpc_object, 31 \<mapsto> rpc_object\<lparr>owner := 1, wakeupOnRq := 0\<rparr>],
     descs := [21 \<mapsto> \<lparr>od_obj = 30, od_id = 0, od_next = 0\<rparr>, 22 \<mapsto> \<lparr>od_obj = 30, od_id = 0, od_next = 23\<rparr>,
       23 \<mapsto> \<lparr>od_obj = 31, od_id = 1, od_next = 0\<rparr>], next_ptr := 40\<rparr>"

definition rpc_call :: user_sendrequest where
  "rpc_call = \<lparr>us_func = 0xA2000001, us_a = 5, us_b = 6, us_c = 7, us_answeri = 0, us_answerll = 0, us_errcode = 0\<rparr>"

lemma rpc_threads: "the_thr (rpc_demo c) t = (if t = 2 then Some (demo_thread 1 3) else if t = 3 then Some (demo_thread 1 0)
    else if t = 4 then Some (demo_thread 5 0) else if t = 6 then Some (rpc_thread 1 (c = 6)) else if t = 8 then Some (rpc_thread 7 (c = 8)) else None)"
  by (auto simp: rpc_demo_def the_thr_def)

lemma rpc_fields: "freed_ptrs (rpc_demo c) = {}" "idle_thread (rpc_demo c) = 4" "current_thread (rpc_demo c) = c" "next_ptr (rpc_demo c) = 40"
  "processes (rpc_demo c) = 1" "the_obj (rpc_demo c) 30 = Some rpc_object"
  by (simp_all add: rpc_demo_def sched_demo_def kernel0_def the_obj_def)

lemma rpc_ready: "c = 6 \<or> c = 8 \<Longrightarrow> ready c (rpc_demo c) t \<longleftrightarrow> t = 2 \<or> t = 3"
  by (auto simp: ready_def rpc_threads rpc_fields rpc_thread_def demo_thread_def task_consts)

lemma rpc_priority: "PRIORITY (rpc_demo c) t = (if t = 2 \<or> t = 3 \<or> t = 6 then Some 3 else if t = 8 then Some 2 else if t = 4 then Some 0 else None)"
  unfolding PRIORITY_def rpc_threads by (simp add: demo_thread_def rpc_thread_def rpc_demo_def the_proc_def demo_proc_def)

lemma rpc_inv: "c = 6 \<or> c = 8 \<Longrightarrow> sched_inv c (rpc_demo c) ((\<lambda>_. [])(3 := [2, 3]))"
proof -
  assume c: "c = 6 \<or> c = 8"
  have "runq (rpc_demo c) ((\<lambda>_. [])(3 := [2, 3]))" by (auto simp: runq_def rpc_demo_def sched_demo_def demo_thread_def)
  moreover have "thr_ok (rpc_demo c) t" if "live (rpc_demo c) t" for t
    using that by (auto simp: live_def thr_ok_def rpc_threads demo_thread_def rpc_thread_def PRIORITIES_def split: if_splits)
      (simp_all add: rpc_demo_def sched_demo_def the_proc_def the_pd_def demo_proc_def)
  moreover have "live (rpc_demo c) 4" "live (rpc_demo c) c" using c by (auto simp: live_def rpc_threads rpc_fields)
  ultimately show ?thesis using rpc_ready[OF c] rpc_priority[of c] by (auto simp: sched_inv_def rpc_fields PRIORITIES_def)
qed

lemma rpc_process: "current_process (rpc_demo 6) = Some 1" "current_process (rpc_demo 8) = Some 7"
  by (simp_all add: current_process_def rpc_fields rpc_threads rpc_thread_def demo_thread_def)

lemma rpc_tables: "desc_table (rpc_demo c) 1 [(0, 30), (1, 31)]" "desc_table (rpc_demo c) 7 [(0, 30)]"
proof -
  have "desc_list (rpc_demo c) 1 [22, 23] [(0, 30), (1, 31)]" "desc_list (rpc_demo c) 7 [21] [(0, 30)]"
    by (simp_all add: desc_list_def rpc_demo_def the_proc_def entry_def)
  then show "desc_table (rpc_demo c) 1 [(0, 30), (1, 31)]" "desc_table (rpc_demo c) 7 [(0, 30)]" by (auto simp: desc_table_def)
qed

lemma rpc_can_send: "can_send (rpc_demo 6) 0 30 1 ((demo_proc 3 2)\<lparr>objects := 22, next_objdesc := 2\<rparr>) rpc_object"
proof -
  have "objdesc_read 1 0 (rpc_demo 6) = Some 30" using dt.read_entry[OF rpc_tables(1)] by simp
  moreover have "the_proc (rpc_demo 6) 1 = Some ((demo_proc 3 2)\<lparr>objects := 22, next_objdesc := 2\<rparr>)" by (simp add: rpc_demo_def the_proc_def)
  moreover have "live (rpc_demo 6) 8" by (simp add: live_def rpc_threads rpc_fields)
  ultimately show ?thesis by (simp add: can_send_def rpc_process rpc_fields) (simp add: rpc_object_def MUTEX_UNLOCKED_def)
qed

lemma rpc_plain: "plain 0xA2000001" "result_type 0xA2000001 = 2" "arg 0xA2000001 0 v = v" "arg 0xA2000001 (Suc 0) v = 0" "arg 0xA2000001 2 v = v"
proof -
  have p: "param_type 0xA2000001 0 = 2" "param_type 0xA2000001 (Suc 0) = 0" "param_type 0xA2000001 2 = 2"
    by (simp_all add: param_type_def drop_bit_eq_div)
  then show "plain 0xA2000001" by (auto simp: plain_def less_Suc_eq numeral_3_eq_3 numeral_2_eq_2 rq_consts)
  show "result_type 0xA2000001 = 2" by (simp add: result_type_def drop_bit_eq_div)
  show "arg 0xA2000001 0 v = v" "arg 0xA2000001 (Suc 0) v = 0" "arg 0xA2000001 2 v = v" using p by (simp_all add: arg_def rq_consts)
qed

lemma rpc_serves: "serves 7 0 30 (rpc_demo 8\<lparr>objs := f, rqs := g\<rparr>)"
proof -
  have "desc_table (rpc_demo 8\<lparr>objs := f, rqs := g\<rparr>) 7 [(0, 30)]" using desc_table_cong[of "rpc_demo 8\<lparr>objs := f, rqs := g\<rparr>" "rpc_demo 8"] rpc_tables(2) by simp
  then show ?thesis using dt.read_entry rpc_process(2) by (fastforce simp: serves_def current_process_def)
qed

theorem message_delivery_witness:
  "\<exists>s' ur t'. send_msg 0 rpc_call \<lparr>esp = 0, ebp = 0, eip = 0\<rparr> (rpc_demo 6) = Some (Return (0, rpc_call), s') \<and> ready 6 s' 8
     \<and> request_get 0 True \<lparr>esp = 0, ebp = 0, eip = 0\<rparr> (rpc_demo 8\<lparr>objs := objs s', rqs := rqs s'\<rparr>) = Some (Return (0, Some ur), t')
     \<and> ur_func ur = 0xA2000001 \<and> ur_params ur = [5, 0, 7] \<and> ur_pid ur = 1 \<and> \<not> ur_isBlocking ur
     \<and> the_obj t' 30 = Some (rpc_object\<lparr>wakeupOnRq := 0\<rparr>)"
proof -
  let ?r = "\<lparr>esp = 0, ebp = 0, eip = 0 :: u32\<rparr>" and ?t = "\<lambda>s'. rpc_demo 8\<lparr>objs := objs s', rqs := rqs s'\<rparr>"
  have f: "us_func rpc_call = 0xA2000001" "us_a rpc_call = 5" "us_c rpc_call = 7" "rpc_call\<lparr>us_errcode := 0\<rparr> = rpc_call" by (simp_all add: rpc_call_def)
  have w: "wakeupOnRq rpc_object = 8" "owner rpc_object = 7" "waiting (rpc_demo 6) 8" "rpc_object\<lparr>ob_request := 0\<rparr> = rpc_object"
    by (simp_all add: rpc_object_def waiting_def rpc_threads rpc_thread_def)
  have "plain (us_func rpc_call)" "sched_inv (current_thread (rpc_demo 6)) (rpc_demo 6) ((\<lambda>_. [])(3 := [2, 3]))"
    using rpc_plain(1) rpc_inv[of 6] by (simp_all add: f rpc_fields)
  note m = message_delivery[OF rpc_can_send this, of ?r]
  obtain s' where s': "send_msg 0 rpc_call ?r (rpc_demo 6) = Some (Return (0, rpc_call), s')" "ready 6 s' 8"
    and g: "\<And>t j wait r'. untouched 30 40 s' t \<Longrightarrow> serves 7 j 30 t \<Longrightarrow>
          (\<exists>ur t'. request_get j wait r' t = Some (Return (0, Some ur), t') \<and> ur_func ur = 0xA2000001 \<and> ur_params ur = [5, 0, 7]
             \<and> ur_pid ur = 1 \<and> \<not> ur_isBlocking ur \<and> the_obj t' 30 = Some (rpc_object\<lparr>wakeupOnRq := 0\<rparr>))"
    using m unfolding f w rpc_fields by (elim exE conjE) (fastforce simp: w rpc_plain demo_proc_def)
  have "untouched 30 40 s' (?t s')" by (simp add: untouched_def the_obj_def the_rq_def)
  from g[OF this rpc_serves, of True ?r] s' show ?thesis by blast
qed

theorem remote_call_witness:
  "\<exists>r1 s1 ur s2 s3 s4. request 0 rpc_call \<lparr>esp = 0, ebp = 0, eip = 0\<rparr> (rpc_demo 6) = Some (Wait r1, s1)
     \<and> request_get 0 False r1 (rpc_demo 8\<lparr>objs := objs s1, rqs := rqs s1\<rparr>) = Some (Return (0, Some ur), s2)
     \<and> ur_params ur = [5, 0, 7] \<and> ur_isBlocking ur
     \<and> request_answer 0 35 0 1 (rpc_demo 8\<lparr>objs := objs s2, rqs := rqs s2\<rparr>) = Some s3 \<and> ready 8 s3 6
     \<and> request_resume 40 rpc_call s3 = Some (0, rpc_call\<lparr>us_answeri := 35, us_errcode := 1\<rparr>, s4)"
proof -
  let ?r = "\<lparr>esp = 0, ebp = 0, eip = 0 :: u32\<rparr>" and ?t = "\<lambda>s'. rpc_demo 8\<lparr>objs := objs s', rqs := rqs s'\<rparr>"
  have f: "us_func rpc_call = 0xA2000001" "us_a rpc_call = 5" "us_c rpc_call = 7" "owner rpc_object = 7" by (simp_all add: rpc_call_def rpc_object_def)
  have ret: "returned 35 0 1 rpc_call = rpc_call\<lparr>us_answeri := 35, us_errcode := 1\<rparr>" by (simp add: returned_def f rpc_plain rq_consts)
  have "plain (us_func rpc_call)" "result_type (us_func rpc_call) \<noteq> PT_OBJDESC"
      "sched_inv (current_thread (rpc_demo 6)) (rpc_demo 6) ((\<lambda>_. [])(3 := [2, 3]))" "processes (rpc_demo 6) \<noteq> 0"
      "40 = next_ptr (rpc_demo 6)" "6 = current_thread (rpc_demo 6)"
    using rpc_plain(1,2) rpc_inv[of 6] by (simp_all add: f rpc_fields rq_consts)
  note m = remote_call[OF rpc_can_send this, of ?r]
  obtain r1 s1 where s1: "request 0 rpc_call ?r (rpc_demo 6) = Some (Wait r1, s1)"
    and g: "\<forall>t j wait r'. untouched 30 40 s1 t \<and> serves 7 j 30 t \<longrightarrow>
          (\<exists>ur s2. request_get j wait r' t = Some (Return (0, Some ur), s2) \<and> ur_func ur = 0xA2000001 \<and> ur_params ur = [5, 0, 7]
             \<and> ur_pid ur = pid ((demo_proc 3 2)\<lparr>objects := 22, next_objdesc := 2\<rparr>) \<and> ur_isBlocking ur \<and> (\<exists>f. s2 = t\<lparr>rqs := f\<rparr>) \<and> (\<forall>t2 Q2 ans ans2 err. untouched 30 40 s2 t2 \<and> serves 7 j 30 t2 \<and> sched_inv (current_thread t2) t2 Q2
         \<and> live t2 6 \<and> waiting t2 6 \<and> 6 \<noteq> current_thread t2 \<and> 6 \<noteq> idle_thread t2 \<longrightarrow>
         (\<exists>s3. request_answer j ans ans2 err t2 = Some s3 \<and> ready (current_thread t2) s3 6
            \<and> the_obj s3 30 = Some (rpc_object\<lparr>ob_request := 0, wakeupOnRq := 0\<rparr>)
            \<and> (\<forall>t3. the_rq t3 40 = the_rq s3 40 \<longrightarrow>
                 request_resume 40 rpc_call t3 = Some (0, returned ans ans2 err rpc_call, kfree_ptr 40 t3)))))"
    using m unfolding f rpc_plain(3-5) One_nat_def by (elim exE conjE) (rule that; assumption)
  have u: "untouched 30 40 s (?t s)" for s by (simp add: untouched_def the_obj_def the_rq_def)
  obtain ur s2 where s2: "request_get 0 False r1 (?t s1) = Some (Return (0, Some ur), s2)" "ur_params ur = [5, 0, 7]" "ur_isBlocking ur"
    and a: "(\<forall>t2 Q2 ans ans2 err. untouched 30 40 s2 t2 \<and> serves 7 0 30 t2 \<and> sched_inv (current_thread t2) t2 Q2
         \<and> live t2 6 \<and> waiting t2 6 \<and> 6 \<noteq> current_thread t2 \<and> 6 \<noteq> idle_thread t2 \<longrightarrow>
         (\<exists>s3. request_answer 0 ans ans2 err t2 = Some s3 \<and> ready (current_thread t2) s3 6
            \<and> the_obj s3 30 = Some (rpc_object\<lparr>ob_request := 0, wakeupOnRq := 0\<rparr>)
            \<and> (\<forall>t3. the_rq t3 40 = the_rq s3 40 \<longrightarrow>
                 request_resume 40 rpc_call t3 = Some (0, returned ans ans2 err rpc_call, kfree_ptr 40 t3))))"
    using g[rule_format, OF conjI[OF u rpc_serves], of False r1] by (elim exE conjE) (rule that; assumption)
  have "live (?t s2) 6" "waiting (?t s2) 6" "sched_inv (current_thread (?t s2)) (?t s2) ((\<lambda>_. [])(3 := [2, 3]))"
      "6 \<noteq> current_thread (?t s2)" "6 \<noteq> idle_thread (?t s2)" "current_thread (?t s2) = 8"
    using rpc_inv[of 8] by (simp_all add: live_def waiting_def rpc_threads rpc_fields rpc_thread_def)
  then obtain s3 where "request_answer 0 35 0 1 (?t s2) = Some s3" "ready 8 s3 6" "request_resume 40 rpc_call s3 = Some (0, returned 35 0 1 rpc_call, kfree_ptr 40 s3)"
    using a[rule_format, of "?t s2" _ 35 0 1] u[of s2] rpc_serves by metis
  then show ?thesis using s1 s2 ret by auto
qed

text \<open>A request of process 1 to process 7 whose first parameter is a descriptor.\<close>

definition desc_demo :: kernel where
  "desc_demo = (rpc_demo 6)\<lparr>rqs := [39 \<mapsto> blank_request 30 6 0x10000000 1 0]\<rparr>"

theorem descriptor_passing_witness:
  "(\<exists>s' q'. mk_param 1 7 39 0 1 desc_demo = Some s' \<and> the_rq s' 39 = Some q' \<and> objdesc_read 7 (params q' ! 0) s' = Some 31
     \<and> params q' ! 0 \<noteq> 0 \<and> obj_close q' ! 0 = params q' ! 0 \<and> objdesc_read 7 0 s' = Some 30)
   \<and> (\<exists>s' q'. mk_param 1 7 39 0 0 desc_demo = Some s' \<and> the_rq s' 39 = Some q' \<and> objdesc_read 7 (params q' ! 0) s' = Some 30)
   \<and> mk_param 1 7 39 0 5 desc_demo = None"
proof -
  let ?q = "blank_request 30 6 0x10000000 1 0"
  have q: "the_rq desc_demo 39 = Some ?q" "param_type (func ?q) 0 = PT_OBJDESC" "0 < length (params ?q)" "0 < length (obj_close ?q)"
    by (simp_all add: desc_demo_def the_rq_def blank_request_def param_type_def drop_bit_eq_div rq_consts)
  have t: "desc_table desc_demo 1 [(0, 30), (1, 31)]" "desc_table desc_demo 7 [(0, 30)]" using rpc_tables by (simp_all add: desc_demo_def)
  have a: "can_add desc_demo 7 ob" if "(v, ob) \<in> set [(0, 30), (1, 31)]" for v :: u32 and ob
    using that by (auto simp: can_add_def desc_demo_def rpc_demo_def the_obj_def the_proc_def)
  have v: "(0 :: u32) < 0x80000000" "(1 :: u32) < 0x80000000" "(5 :: u32) < 0x80000000" "(7 :: ptr) \<noteq> 1" "0 \<notin> snd ` set [(0 :: u32, 30 :: ptr)]" by simp_all
  note d = descriptor_passing[OF q _ v(4) t v(5) a]
  show ?thesis using d[OF v(2)] d[OF v(1)] d[OF v(3)] by fastforce
qed

theorem request_errors_witness:
  "request_has 0 (rpc_demo 8) = Some 0 \<and> request_get 0 False \<lparr>esp = 0, ebp = 0, eip = 0\<rparr> (rpc_demo 8) = Some (Return (- 1, None), rpc_demo 8)
     \<and> request_mapShm 0 0 3 (rpc_demo 8) = Some (- 9, rpc_demo 8) \<and> request_mapShm 0 0 1 (rpc_demo 8) = Some (- 3, rpc_demo 8)
     \<and> request_has 0 (rpc_demo 6) = Some (- 2) \<and> request_has 5 (rpc_demo 8) = Some (- 10)"
proof -
  have rd: "objdesc_read 7 0 (rpc_demo 8) = Some 30" "objdesc_read 1 0 (rpc_demo 6) = Some 30" "objdesc_read 7 5 (rpc_demo 8) = Some 0"
    using dt.read_entry[OF rpc_tables(1)] dt.read_entry[OF rpc_tables(2)] dt.read_ok[OF rpc_tables(2)] by simp_all
  have o: "ob_request rpc_object = 0" "owner rpc_object = 7" by (simp_all add: rpc_object_def)
  note e = request_errors[where x = rpc_object and q = undefined]
  have "request_mapShm 0 0 n (rpc_demo 8) = Some (if n \<notin> {0..2} then - 9 else - 3, rpc_demo 8)" for n
    using e[OF rpc_process(2) rd(1), where n = n] rpc_fields(6) o by simp
  from this[of 3] this[of 1] show ?thesis
    using e[OF rpc_process(2) rd(1)] e[OF rpc_process(1) rd(2)] e[OF rpc_process(2) rd(3)] rpc_fields(6) o by simp
qed

end
