(* ===== verification/IpcInv.thy ===== *)
theory IpcInv
  imports Rpc
begin

text \<open>
  The protocol between the mutex of an object and its request: in every reachable state an object is locked
  exactly while it has a request, and the request belongs to this object. So \<open>request_get\<close>, whose
  loop ends as soon as the mutex is locked, always finds a request.
\<close>

section \<open>The invariant\<close>

definition ob_ok :: "kernel \<Rightarrow> ptr \<Rightarrow> object \<Rightarrow> bool" where
  "ob_ok s ob x \<longleftrightarrow> busyMutex x = (if ob_request x = 0 then MUTEX_UNLOCKED else MUTEX_LOCKED)
     \<and> (ob_request x \<noteq> 0 \<longrightarrow> ob_request x < next_ptr s
        \<and> (\<exists>q. the_rq s (ob_request x) = Some q \<and> rq_obj q = ob \<and> acknowledged q \<in> {RS_PENDING, RS_PROCESSED}))"

text \<open>The invariant for all objects but \<open>ob\<close>, which is being worked on, and for all objects.\<close>

definition ipc_but :: "ptr \<Rightarrow> kernel \<Rightarrow> bool" where
  "ipc_but ob s \<longleftrightarrow> next_ptr s \<noteq> 0 \<and> (\<forall>o' x. the_obj s o' = Some x \<longrightarrow> o' < next_ptr s \<and> (o' = ob \<or> ob_ok s o' x))"

definition ipc_inv :: "kernel \<Rightarrow> bool" where
  "ipc_inv s \<longleftrightarrow> ipc_but 0 s"

text \<open>What is done to objects and requests besides locking, unlocking and attaching.\<close>

definition obj_keep :: "kernel \<Rightarrow> kernel \<Rightarrow> bool" where
  "obj_keep s s' \<longleftrightarrow> next_ptr s \<le> next_ptr s'
     \<and> (\<forall>ob x'. the_obj s' ob = Some x' \<longrightarrow> (\<exists>x. the_obj s ob = Some x \<and> busyMutex x' = busyMutex x \<and> ob_request x' = ob_request x)
          \<or> next_ptr s \<le> ob \<and> ob < next_ptr s' \<and> busyMutex x' = MUTEX_UNLOCKED \<and> ob_request x' = 0)
     \<and> (\<forall>rq q. the_rq s rq = Some q \<longrightarrow> (\<exists>q'. the_rq s' rq = Some q' \<and> rq_obj q' = rq_obj q \<and> acknowledged q' = acknowledged q))"

lemma the_obj_pos: "the_obj s ob = Some x \<Longrightarrow> ob \<noteq> 0"
  by (auto simp: the_obj_def split: if_splits)

lemma the_rq_pos: "the_rq s rq = Some q \<Longrightarrow> rq \<noteq> 0"
  by (auto simp: the_rq_def split: if_splits)

lemma the_obj_upd: "ob \<noteq> 0 \<Longrightarrow> the_obj (s\<lparr>objs := (objs s)(ob \<mapsto> x)\<rparr>) t = (if t = ob then Some x else the_obj s t)"
  by (simp add: the_obj_def)

lemma obj_keepD:
  assumes "obj_keep s s'"
  shows "next_ptr s \<le> next_ptr s'"
    "the_obj s' ob = Some x' \<Longrightarrow> (\<exists>x. the_obj s ob = Some x \<and> busyMutex x' = busyMutex x \<and> ob_request x' = ob_request x)
       \<or> next_ptr s \<le> ob \<and> ob < next_ptr s' \<and> busyMutex x' = MUTEX_UNLOCKED \<and> ob_request x' = 0"
    "the_rq s rq = Some q \<Longrightarrow> \<exists>q'. the_rq s' rq = Some q' \<and> rq_obj q' = rq_obj q \<and> acknowledged q' = acknowledged q"
  using assms by (simp_all add: obj_keep_def)

lemma obj_keep_refl [simp]: "obj_keep s s"
  by (auto simp: obj_keep_def)

lemma obj_keep_trans:
  assumes "obj_keep s s'" and "obj_keep s' s''"
  shows "obj_keep s s''"
  unfolding obj_keep_def
proof (intro conjI allI impI)
  show le: "next_ptr s \<le> next_ptr s''" using obj_keepD(1)[OF assms(1)] obj_keepD(1)[OF assms(2)] by simp
next
  fix ob x'' assume x: "the_obj s'' ob = Some x''"
  show "(\<exists>x. the_obj s ob = Some x \<and> busyMutex x'' = busyMutex x \<and> ob_request x'' = ob_request x)
      \<or> next_ptr s \<le> ob \<and> ob < next_ptr s'' \<and> busyMutex x'' = MUTEX_UNLOCKED \<and> ob_request x'' = 0"
    using obj_keepD(2)[OF assms(2) x]
  proof (elim disjE exE conjE)
    fix x' assume x': "the_obj s' ob = Some x'" "busyMutex x'' = busyMutex x'" "ob_request x'' = ob_request x'"
    show ?thesis using obj_keepD(2)[OF assms(1) x'(1)] obj_keepD(1)[OF assms(2)] x'(2,3) by auto
  qed (use obj_keepD(1)[OF assms(1)] in auto)
next
  fix rq q assume "the_rq s rq = Some q"
  then show "\<exists>q'. the_rq s'' rq = Some q' \<and> rq_obj q' = rq_obj q \<and> acknowledged q' = acknowledged q"
    using obj_keepD(3)[OF assms(1)] obj_keepD(3)[OF assms(2)] by metis
qed

lemma obj_keepI: "objs s' = objs s \<Longrightarrow> rqs s' = rqs s \<Longrightarrow> next_ptr s \<le> next_ptr s' \<Longrightarrow> obj_keep s s'"
  using deref_cong(6)[of s' s] deref_cong(8)[of s' s] by (auto simp: obj_keep_def)

lemma obj_keep_obj:
  assumes "obj_keep s s'" and "the_obj s' ob = Some x'" and "ob < next_ptr s"
  shows "\<exists>x. the_obj s ob = Some x \<and> busyMutex x' = busyMutex x \<and> ob_request x' = ob_request x"
  using obj_keepD(2)[OF assms(1,2)] assms(3) by auto

lemma ob_ok_keep:
  assumes "obj_keep s s'" and "ob_ok s ob x" and "busyMutex x' = busyMutex x" "ob_request x' = ob_request x"
  shows "ob_ok s' ob x'"
  using assms(2-4) obj_keepD(1)[OF assms(1)] obj_keepD(3)[OF assms(1), of "ob_request x"] by (force simp: ob_ok_def)

lemma ipc_but_keep:
  assumes k: "obj_keep s s'" and I: "ipc_but ob s"
  shows "ipc_but ob s'"
  unfolding ipc_but_def
proof (intro conjI allI impI)
  show "next_ptr s' \<noteq> 0" using assms by (auto simp: obj_keep_def ipc_but_def)
  fix o' x' assume x': "the_obj s' o' = Some x'"
  note c = obj_keepD(2)[OF k x']
  show "o' < next_ptr s'" using c I obj_keepD(1)[OF k] by (auto simp: ipc_but_def dest: order_less_le_trans)
  show "o' = ob \<or> ob_ok s' o' x'" using c
  proof (elim disjE exE conjE)
    fix x assume x: "the_obj s o' = Some x" "busyMutex x' = busyMutex x" "ob_request x' = ob_request x"
    then have "o' = ob \<or> ob_ok s o' x" using I by (simp add: ipc_but_def)
    then show ?thesis using ob_ok_keep[OF k _ x(2,3)] by blast
  qed (simp add: ob_ok_def)
qed

lemma ipc_inv_keep: "obj_keep s s' \<Longrightarrow> ipc_inv s \<Longrightarrow> ipc_inv s'"
  unfolding ipc_inv_def by (rule ipc_but_keep)

lemma ipc_inv_but: "ipc_inv s \<Longrightarrow> ipc_but ob s"
  by (auto simp: ipc_inv_def ipc_but_def dest: the_obj_pos)

lemma ipc_inv_ok: "ipc_inv s \<Longrightarrow> the_obj s ob = Some x \<Longrightarrow> ob_ok s ob x \<and> ob < next_ptr s"
  by (auto simp: ipc_inv_def ipc_but_def dest: the_obj_pos)

lemma ipc_but_done: "ipc_but ob s \<Longrightarrow> the_obj s ob = Some x \<Longrightarrow> ob_ok s ob x \<Longrightarrow> ipc_inv s"
  unfolding ipc_inv_def ipc_but_def by fastforce

text \<open>Work on the object \<open>ob\<close> and on its request does not concern the others.\<close>

lemma ob_ok_objs [simp]: "ob_ok (s\<lparr>objs := f\<rparr>) = ob_ok s"
  by (simp add: ob_ok_def fun_eq_iff)

lemma ipc_but_obj:
  assumes I: "ipc_but ob s" and u: "upd_obj ob f s = Some s'"
  shows "ipc_but ob s'"
proof -
  obtain x where x: "the_obj s ob = Some x" "s' = s\<lparr>objs := (objs s)(ob \<mapsto> f x)\<rparr>" using u by (auto simp: upd_obj_def split: bind_splits)
  have "o' < next_ptr s \<and> (o' = ob \<or> ob_ok s o' y)" if "the_obj s' o' = Some y" for o' y
    using that I x(1) by (cases "o' = ob") (auto simp: x(2) the_obj_upd[OF the_obj_pos[OF x(1)]] ipc_but_def)
  then show ?thesis using I by (simp add: ipc_but_def x(2))
qed

lemma ipc_but_rq:
  assumes I: "ipc_but ob s" and q: "the_rq s rq = Some q" "rq_obj q = ob" and f: "upd_rq rq f s = Some s'"
  shows "ipc_but ob s'"
proof -
  have s': "s' = s\<lparr>rqs := (rqs s)(rq \<mapsto> f q)\<rparr>" using q f by (simp add: upd_rq_def)
  have "ob_ok s' o' x" if "o' \<noteq> ob" "ob_ok s o' x" for o' x
    using that q the_rq_pos[OF q(1)] by (auto simp: ob_ok_def s' the_rq_upd)
  then show ?thesis using I by (auto simp: ipc_but_def s')
qed

section \<open>Operations that keep mutexes and requests\<close>

lemma obj_keep_switch: "switch_only s s' \<Longrightarrow> obj_keep s s'"
  using switch_only_fields[of s s'] by (intro obj_keepI) simp_all

lemma obj_keep_not_mem: "not_mem s s' \<Longrightarrow> obj_keep s s'"
  by (intro obj_keepI) (simp_all add: not_mem_def)

lemma obj_keep_kfree [simp]: "obj_keep s (kfree_ptr p s)"
  by (intro obj_keepI) (simp_all add: kfree_ptr_def)

lemma obj_keep_upd_seg: "upd_seg g f s = Some s' \<Longrightarrow> obj_keep s s'"
  by (intro obj_keepI) (auto simp: upd_seg_def split: bind_splits)

lemma obj_keep_upd_proc: "upd_proc p f s = Some s' \<Longrightarrow> obj_keep s s'"
  by (intro obj_keepI) (auto simp: upd_proc_def split: bind_splits)

lemma obj_keep_upd_desc: "upd_desc p f s = Some s' \<Longrightarrow> obj_keep s s'"
  by (intro obj_keepI) (auto simp: upd_desc_def split: bind_splits)

lemma obj_keep_upd_obj:
  assumes "upd_obj ob f s = Some s'" and "\<And>x. busyMutex (f x) = busyMutex x" "\<And>x. ob_request (f x) = ob_request x"
  shows "obj_keep s s'"
proof -
  obtain x where x: "the_obj s ob = Some x" "s' = s\<lparr>objs := (objs s)(ob \<mapsto> f x)\<rparr>" using assms(1) by (auto simp: upd_obj_def split: bind_splits)
  then show ?thesis using assms(2,3) by (auto simp: obj_keep_def the_obj_upd[OF the_obj_pos[OF x(1)]] split: if_splits)
qed

lemma obj_keep_upd_rq:
  assumes "upd_rq rq f s = Some s'" and "\<And>q. rq_obj (f q) = rq_obj q" "\<And>q. acknowledged (f q) = acknowledged q"
  shows "obj_keep s s'"
proof -
  obtain q where q: "the_rq s rq = Some q" "s' = s\<lparr>rqs := (rqs s)(rq \<mapsto> f q)\<rparr>" using assms(1) by (auto simp: upd_rq_def split: bind_splits)
  then show ?thesis using assms(2,3) by (auto simp: obj_keep_def the_rq_upd[OF the_rq_pos[OF q(1)]])
qed

lemmas obj_keep_upds = obj_keep_upd_seg obj_keep_upd_proc obj_keep_upd_desc

lemma objdesc_add_keep: "objdesc_add p ob s = Some (i, s') \<Longrightarrow> obj_keep s s'"
proof (drule objdesc_add_cases, elim disjE exE conjE)
  fix pr x assume x: "the_obj s ob = Some x" "s' = added p ob pr x s"
  then show ?thesis using the_obj_pos[OF x(1)] by (auto simp: obj_keep_def added_def the_obj_def the_rq_def split: if_splits)
qed simp

lemma rm_loop_keep:
  assumes "rm_loop e i s = Some s'"
  shows "obj_keep s s'"
proof (rule rm_loop.raw_induct[where P = "\<lambda>e i s s'. obj_keep s s'", OF _ assms])
  fix rec e i s s'
  assume IH: "\<And>e i s s'. rec e i s = Some s' \<Longrightarrow> obj_keep s s'"
    and h: "do {
     x \<leftarrow> the_desc s e;
     if od_next x \<noteq> 0 then do {
       n \<leftarrow> the_desc s (od_next x);
       if od_id n = i then do {
         s \<leftarrow> upd_desc e (\<lambda>x. x\<lparr>od_next := od_next n\<rparr>) s;
         x \<leftarrow> the_desc s e;
         y \<leftarrow> the_desc s (od_next x);
         s \<leftarrow> upd_obj (od_obj y) (\<lambda>o'. o'\<lparr>descriptors := descriptors o' - 1\<rparr>) s;
         Some (kfree_ptr (od_next x) s) }
       else rec (od_next x) i s }
     else Some s } = Some s'"
  show "obj_keep s s'"
    using h IH by (auto split: bind_splits if_splits intro!: obj_keep_trans[OF obj_keep_upd_desc obj_keep_trans[OF obj_keep_upd_obj obj_keep_kfree]])
qed

lemma objdesc_rm_keep:
  assumes "objdesc_rm p i s = Some s'"
  shows "obj_keep s s'"
  using assms rm_loop_keep
  by (auto simp: objdesc_rm_def Let_def split: bind_splits if_splits
      intro!: obj_keep_trans[OF obj_keep_upd_proc obj_keep_trans[OF obj_keep_upd_obj obj_keep_kfree]])

lemma obj_delete_keep: "obj_delete ob s = Some s' \<Longrightarrow> obj_keep s s'"
  by (auto simp: obj_delete_def split: bind_splits if_splits)

lemma obj_closeP_keep:
  assumes "obj_closeP p i s = Some s'"
  shows "obj_keep s s'"
proof (cases "objdesc_rm p i s")
  case None
  then show ?thesis using assms by (auto simp: obj_closeP_def split: bind_splits if_splits)
next
  case (Some s1)
  have "obj_keep s1 s'" if "objdesc_read p i s \<noteq> Some 0"
    using assms Some that obj_delete_keep by (auto simp: obj_closeP_def split: bind_splits if_splits intro: obj_keep_upd_obj)
  then show ?thesis using assms objdesc_rm_keep[OF Some] obj_keep_trans by (cases "objdesc_read p i s = Some 0") (auto simp: obj_closeP_def)
qed

lemma obj_createP_keep:
  assumes "obj_createP p s = Some (i, s')"
  shows "obj_keep s s'"
proof -
  obtain ob s1 where n: "obj_new p s = (ob, s1)" by fastforce
  then have "obj_keep s s1" by (auto simp: obj_new_def kmalloc_ptr_def obj_keep_def the_obj_def the_rq_def Let_def split: if_splits)
  then show ?thesis using assms n objdesc_add_keep obj_keep_trans by (auto simp: obj_createP_def)
qed

lemma release_params_keep: "release_params own ps s = Some s' \<Longrightarrow> obj_keep s s'"
proof (induction own ps s arbitrary: s' rule: release_params.induct)
  case (2 own m d ps s)
  then obtain s1 s2 where st: "(if m \<noteq> 0 then seg_unmap m s else Some s) = Some s1" "(if d \<noteq> 0 then obj_closeP own d s1 else Some s1) = Some s2"
      "release_params own ps s2 = Some s'" by (auto split: bind_splits)
  have "obj_keep s s1" using st(1) by (auto split: if_splits intro: obj_keep_not_mem seg_unmap_not_mem)
  moreover have "obj_keep s1 s2" using st(2) by (auto split: if_splits intro: obj_closeP_keep)
  ultimately show ?case using 2(1)[OF st] obj_keep_trans by blast
qed simp

lemma seg_map_keep: "seg_map g pd off s = Some (m, s') \<Longrightarrow> obj_keep s s'"
  by (intro obj_keepI) (auto simp: seg_map_def simpleseg_map_def shmseg_map_def new_map_def kmalloc_ptr_def Let_def upd_defs
      split: bind_splits if_splits segdata.splits)

lemma answer_objdesc_keep: "answer_objdesc own t ans s = Some (n, s') \<Longrightarrow> obj_keep s s'"
  by (auto simp: answer_objdesc_def Let_def split: bind_splits if_splits intro: objdesc_add_keep)

lemma set_answer_keep: "set_answer own rq ans ans2 s = Some s' \<Longrightarrow> obj_keep s s'"
  by (auto simp: set_answer_def split: bind_splits if_splits intro: obj_keep_upd_rq obj_keep_trans[OF answer_objdesc_keep obj_keep_upd_rq])

lemma mk_param_desc_keep:
  assumes "do { d \<leftarrow> objdesc_get own ob s;
          (d, s) \<leftarrow> (if d = - 1 then do {
              (d, s) \<leftarrow> objdesc_add own ob s;
              s \<leftarrow> upd_rq rq (\<lambda>q. q\<lparr>obj_close := (obj_close q)[i := d]\<rparr>) s;
              Some (d, s) }
            else Some (d, s));
          upd_rq rq (\<lambda>q. q\<lparr>params := (params q)[i := d]\<rparr>) s } = Some s'"
  shows "obj_keep s s'"
  using assms
  by (auto split: bind_splits if_splits intro: obj_keep_upd_rq obj_keep_trans[OF objdesc_add_keep obj_keep_trans[OF obj_keep_upd_rq obj_keep_upd_rq]])

lemma mk_param_shm_keep:
  assumes "do { t \<leftarrow> shmseg_getByOff cp v s1;
       if own = cp then do {
         s \<leftarrow> upd_rq rq (\<lambda>q. q\<lparr>params := (params q)[i := v]\<rparr>) s1;
         if t \<noteq> 0 then do { m \<leftarrow> the_map s t; upd_rq rq (\<lambda>q. q\<lparr>shmsize := (shmsize q)[i := sm_len m]\<rparr>) s } else Some s }
       else do {
         s \<leftarrow> upd_rq rq (\<lambda>q. q\<lparr>shm_sndr := (shm_sndr q)[i := t]\<rparr>) s1;
         m \<leftarrow> the_map s t;
         s \<leftarrow> upd_seg (sm_seg m) (\<lambda>g. g\<lparr>sg_mappings := sg_mappings g + 1\<rparr>) s;
         upd_rq rq (\<lambda>q. q\<lparr>shmsize := (shmsize q)[i := sm_len m]\<rparr>) s } } = Some s'"
  shows "obj_keep s1 s'"
  using assms
  by (auto split: bind_splits if_splits intro: obj_keep_upd_rq obj_keep_trans[OF obj_keep_upd_rq obj_keep_upd_rq]
      obj_keep_trans[OF obj_keep_upd_rq obj_keep_trans[OF obj_keep_upd_seg obj_keep_upd_rq]])

lemma mk_param_keep:
  assumes "mk_param cp own rq i v s = Some s'"
  shows "obj_keep s s'"
proof -
  obtain q where q: "the_rq s rq = Some q" using assms by (auto simp: mk_param_def split: bind_splits)
  let ?n = "param_type (func q) i"
  consider (desc) "?n = PT_OBJDESC" "\<not> (v \<ge> 0x80000000 \<or> own = cp)" | (val) "?n = PT_LONG \<or> ?n = PT_OBJDESC \<and> (v \<ge> 0x80000000 \<or> own = cp)"
    | (shm) "?n = PT_SHM" | (void) "?n \<noteq> PT_LONG" "?n \<noteq> PT_SHM" "?n \<noteq> PT_OBJDESC" by blast
  then show ?thesis
  proof cases
    case desc
    then obtain ob where "objdesc_read cp v s = Some ob" using assms q by (auto simp: mk_param_def split: bind_splits)
    then show ?thesis using mk_param_desc_keep[of own ob s rq i s'] assms q desc by (simp add: mk_param_def)
  next
    case shm
    then obtain s1 where s1: "upd_rq rq (\<lambda>q. q\<lparr>shmsize := (shmsize q)[i := 0]\<rparr>) s = Some s1"
      using assms q by (auto simp: mk_param_def rq_consts split: bind_splits)
    have "obj_keep s1 s'" using mk_param_shm_keep[of cp v s1 own rq i s'] assms q shm s1 by (simp add: mk_param_def rq_consts)
    then show ?thesis using obj_keep_trans[OF obj_keep_upd_rq[OF s1]] by simp
  qed (use assms q in \<open>auto simp: mk_param_def rq_consts intro: obj_keep_upd_rq\<close>)
qed

section \<open>The system calls\<close>

text \<open>Unlocking an object without a request.\<close>

lemma detach_ok:
  assumes I: "ipc_but ob s" and u: "do { s \<leftarrow> upd_obj ob (\<lambda>x. x\<lparr>ob_request := 0\<rparr>) s; mutex_unlock ob s } = Some s'"
  shows "ipc_inv s'"
proof -
  obtain x where x: "the_obj s ob = Some x" using u by (auto simp: upd_obj_def split: bind_splits)
  have nz: "ob \<noteq> 0" by (rule the_obj_pos[OF x])
  have s': "s' = s\<lparr>objs := (objs s)(ob \<mapsto> x\<lparr>ob_request := 0, busyMutex := MUTEX_UNLOCKED\<rparr>)\<rparr>"
    using u x nz by (simp add: upd_obj_def mutex_unlock_def the_obj_upd)
  have "ipc_but ob s'" using ipc_but_obj[OF I, of "\<lambda>x. x\<lparr>ob_request := 0, busyMutex := MUTEX_UNLOCKED\<rparr>" s'] x s' by (simp add: upd_obj_def)
  then show ?thesis by (rule ipc_but_done[of ob s' "x\<lparr>ob_request := 0, busyMutex := MUTEX_UNLOCKED\<rparr>"]) (simp_all add: s' the_obj_upd nz ob_ok_def)
qed

lemma finish_request_ok: "ipc_but ob s \<Longrightarrow> finish_request ob rq s = Some s' \<Longrightarrow> ipc_inv s'"
  using detach_ok[OF ipc_but_keep[OF obj_keep_kfree]] by (simp add: finish_request_def)

lemma request_take_ok:
  assumes I: "ipc_inv s" and t: "request_take ob s = Some (v, s')"
  shows "ipc_inv s'"
proof -
  obtain x q where x: "the_obj s ob = Some x" and q: "the_rq s (ob_request x) = Some q"
    using t by (auto simp: request_take_def upd_rq_def split: bind_splits)
  have rq: "ob_request x \<noteq> 0" by (rule the_rq_pos[OF q])
  have ok: "ob_ok s ob x" using ipc_inv_ok[OF I x] by simp
  define s1 where "s1 = s\<lparr>rqs := (rqs s)(ob_request x \<mapsto> q\<lparr>acknowledged := RS_PROCESSED\<rparr>)\<rparr>"
  have u: "upd_rq (ob_request x) (\<lambda>q. q\<lparr>acknowledged := RS_PROCESSED\<rparr>) s = Some s1" using q by (simp add: upd_rq_def s1_def)
  have o1: "ob_ok s1 ob x" "the_obj s1 ob = Some x" using ok q rq x by (auto simp: ob_ok_def s1_def the_rq_upd)
  have I1: "ipc_but ob s1" using ipc_but_rq[OF ipc_inv_but[OF I] q _ u] ok q rq by (simp add: ob_ok_def)
  have "s' = s1 \<or> finish_request ob (ob_request x) s1 = Some s'"
    using t x q u by (auto simp: request_take_def Let_def split: bind_splits if_splits)
  then show ?thesis using ipc_but_done[OF I1 o1(2,1)] finish_request_ok[OF I1] by blast
qed

lemma goInactive_keep: "thread_goInactive r s = Some (r', s') \<Longrightarrow> obj_keep s s'"
  by (intro obj_keep_switch goInactive_only)

lemma request_get_loop_ok:
  assumes I: "ipc_inv s" and l: "request_get_loop ob r s = Some (v, s')"
  shows "ipc_inv s'"
proof -
  have "(\<exists>v. request_take ob s = Some (v, s'))
      \<or> (\<exists>s1 r'. upd_obj ob (\<lambda>x. x\<lparr>wakeupOnRq := current_thread s\<rparr>) s = Some s1 \<and> thread_goInactive r s1 = Some (r', s'))"
    using l by (auto simp: request_get_loop_def split: bind_splits if_splits)
  then show ?thesis
  proof (elim disjE exE conjE)
    fix s1 r' assume s1: "upd_obj ob (\<lambda>x. x\<lparr>wakeupOnRq := current_thread s\<rparr>) s = Some s1" "thread_goInactive r s1 = Some (r', s')"
    have "obj_keep s s1" by (rule obj_keep_upd_obj[OF s1(1)]) simp_all
    then show ?thesis using ipc_inv_keep[OF _ I] obj_keep_trans goInactive_keep[OF s1(2)] by blast
  qed (rule request_take_ok[OF I])
qed

lemma request_get_ok: "ipc_inv s \<Longrightarrow> request_get i w r s = Some (v, s') \<Longrightarrow> ipc_inv s'"
  by (auto simp: request_get_def split: bind_splits if_splits intro: request_get_loop_ok)

lemma map_param_keep:
  assumes "map_param own rq q pos n s = Some s'"
  shows "obj_keep s s'"
proof -
  obtain m :: segment_map and pd rcv s1 s2 where st: "seg_map (sm_seg m) pd pos s = Some (rcv, s1)"
      "upd_rq rq (\<lambda>q. q\<lparr>shm_rcv := (shm_rcv q)[n := rcv]\<rparr>) s1 = Some s2"
      "upd_seg (sm_seg m) (\<lambda>g. g\<lparr>sg_mappings := sg_mappings g - 1\<rparr>) s2 = Some s'"
    using assms by (auto simp: map_param_def split: bind_splits)
  have "obj_keep s1 s2" by (rule obj_keep_upd_rq[OF st(2)]) simp_all
  then show ?thesis using seg_map_keep[OF st(1)] obj_keep_upd_seg[OF st(3)] obj_keep_trans by blast
qed

lemma request_mapShm_ok:
  assumes I: "ipc_inv s" and m: "request_mapShm i pos n s = Some (v, s')"
  shows "ipc_inv s'"
proof (cases "s' = s")
  case False
  have "\<exists>own rq q ob s1. map_param own rq q pos (nat n) s = Some s1 \<and> (s' = s1 \<or> finish_request ob rq s1 = Some s')"
    using m False unfolding request_mapShm_def
    by (simp split: bind_splits if_splits) blast+
  then obtain own rq q ob s1 where s1: "map_param own rq q pos (nat n) s = Some s1" "s' = s1 \<or> finish_request ob rq s1 = Some s'"
    by blast
  have "ipc_inv s1" by (rule ipc_inv_keep[OF map_param_keep[OF s1(1)] I])
  then show ?thesis using s1(2) finish_request_ok[OF ipc_inv_but] by blast
qed (use I in simp)

lemma answer_request_ok:
  assumes I: "ipc_inv s" and x: "the_obj s ob = Some x" and q: "the_rq s (ob_request x) = Some q"
    and a: "answer_request ob x q ans ans2 err s = Some s'"
  shows "ipc_inv s'"
proof -
  obtain s1 s2 s3 s4 s5 where st: "release_params (owner x) (zip (shm_rcv q) (obj_close q)) s = Some s1"
        "upd_rq (ob_request x) (\<lambda>q. q\<lparr>acknowledged := RS_FINISHED\<rparr>) s1 = Some s2"
        "set_answer (owner x) (ob_request x) ans ans2 s2 = Some s3" "upd_rq (ob_request x) (\<lambda>q. q\<lparr>errcode := err\<rparr>) s3 = Some s4"
        "thread_wakeUp (requester q) s4 = Some s5" "do { s \<leftarrow> upd_obj ob (\<lambda>x. x\<lparr>ob_request := 0\<rparr>) s5; mutex_unlock ob s } = Some s'"
    using a by (auto simp: answer_request_def split: bind_splits)
  have "rq_obj q = ob" using ipc_inv_ok[OF I x] q the_rq_pos[OF q] by (auto simp: ob_ok_def)
  moreover have k1: "obj_keep s s1" by (rule release_params_keep[OF st(1)])
  ultimately obtain q1 where q1: "the_rq s1 (ob_request x) = Some q1" "rq_obj q1 = ob" using obj_keepD(3)[OF k1 q] by auto
  have "ipc_but ob s2" by (rule ipc_but_rq[OF ipc_but_keep[OF k1 ipc_inv_but[OF I]] q1 st(2)])
  moreover have "obj_keep s2 s3" by (rule set_answer_keep[OF st(3)])
  moreover have "obj_keep s3 s4" by (rule obj_keep_upd_rq[OF st(4)]) simp_all
  moreover have "obj_keep s4 s5" by (rule obj_keep_switch[OF wakeUp_only[OF st(5)]])
  ultimately have "ipc_but ob s5" by (meson ipc_but_keep)
  then show ?thesis by (rule detach_ok[OF _ st(6)])
qed

lemma request_answer_ok: "ipc_inv s \<Longrightarrow> request_answer i ans ans2 err s = Some s' \<Longrightarrow> ipc_inv s'"
  using answer_request_ok by (auto simp: request_answer_def split: bind_splits if_splits)

text \<open>Attaching a new request to an object that the caller has just locked.\<close>

definition just_locked :: "ptr \<Rightarrow> kernel \<Rightarrow> bool" where
  "just_locked ob s \<longleftrightarrow> ipc_but ob s \<and> (\<forall>x. the_obj s ob = Some x \<longrightarrow> busyMutex x = MUTEX_LOCKED \<and> ob_request x = 0)"

lemma just_locked_keep:
  assumes "obj_keep s s'" and "just_locked ob s" and "ob < next_ptr s"
  shows "just_locked ob s'"
  unfolding just_locked_def
proof (intro conjI allI impI)
  show "ipc_but ob s'" using ipc_but_keep[OF assms(1)] assms(2) by (simp add: just_locked_def)
  fix x' assume "the_obj s' ob = Some x'"
  then show "busyMutex x' = MUTEX_LOCKED" "ob_request x' = 0"
    using obj_keep_obj[OF assms(1) _ assms(3)] assms(2) by (fastforce simp: just_locked_def)+
qed

lemma new_request_ok:
  assumes I: "ipc_but ob s" and k: "kmalloc_ptr s = (rq, s1)" and s2: "s2 = s1\<lparr>rqs := (rqs s1)(rq \<mapsto> q)\<rparr>"
  shows "ipc_but ob s2 \<and> the_rq s2 rq = Some q \<and> rq < next_ptr s2 \<and> rq \<noteq> 0 \<and> next_ptr s \<le> next_ptr s2 \<and> objs s2 = objs s"
proof -
  have rq: "rq = next_ptr s" "s1 = s\<lparr>next_ptr := next_ptr s + 1\<rparr>" "rq \<noteq> 0" using I k by (auto simp: kmalloc_ptr_def ipc_but_def)
  have r: "the_rq s2 t = (if t = rq then Some q else the_rq s t)" for t using rq(2,3) by (simp add: s2 the_rq_def)
  have "next_ptr s2 = next_ptr s + 1" by (simp add: s2 rq)
  then have "ob_ok s2 o' x" if "ob_ok s o' x" for o' x using that rq(1) unfolding ob_ok_def r by auto
  then have "ipc_but ob s2" using I rq unfolding ipc_but_def by (fastforce simp: s2)
  moreover have "the_rq s2 rq = Some q" by (simp only: r) simp
  moreover have "rq < next_ptr s2" "next_ptr s \<le> next_ptr s2" "objs s2 = objs s" using rq by (simp_all add: s2)
  ultimately show ?thesis using rq(3) by blast
qed

lemma attach_ok:
  assumes J: "just_locked ob s" and rq: "rq \<noteq> 0" "rq < next_ptr s" "the_rq s rq = Some q" "rq_obj q = ob" "acknowledged q = RS_PENDING"
    and u: "attach_request ob rq s = Some s'"
  shows "ipc_inv s'"
proof -
  obtain s1 where u: "upd_obj ob (\<lambda>x. x\<lparr>ob_request := rq\<rparr>) s = Some s1" and w: "s' = s1 \<or> (\<exists>t s2. thread_wakeUp t s1 = Some s2
      \<and> upd_obj ob (\<lambda>x. x\<lparr>wakeupOnRq := 0\<rparr>) s2 = Some s')"
    using u by (auto simp: attach_request_def split: bind_splits if_splits)
  obtain x where x: "the_obj s ob = Some x" "s1 = s\<lparr>objs := (objs s)(ob \<mapsto> x\<lparr>ob_request := rq\<rparr>)\<rparr>" using u by (auto simp: upd_obj_def split: bind_splits)
  have nz: "ob \<noteq> 0" by (rule the_obj_pos[OF x(1)])
  have "ob_ok s1 ob (x\<lparr>ob_request := rq\<rparr>)" using J x rq by (simp add: ob_ok_def just_locked_def)
  moreover have "ipc_but ob s1" using ipc_but_obj[OF _ u] J by (simp add: just_locked_def)
  ultimately have I1: "ipc_inv s1" by (intro ipc_but_done[of ob s1 "x\<lparr>ob_request := rq\<rparr>"]) (simp_all add: x(2) the_obj_upd nz)
  have "obj_keep s1 s'" if "thread_wakeUp t s1 = Some s2" "upd_obj ob (\<lambda>x. x\<lparr>wakeupOnRq := 0\<rparr>) s2 = Some s'" for t s2
    using obj_keep_trans[OF obj_keep_switch[OF wakeUp_only[OF that(1)]] obj_keep_upd_obj[OF that(2)]] by simp
  then show ?thesis using w ipc_inv_keep[OF _ I1] I1 by blast
qed

lemma mk_params_keep:
  assumes "mk_params cp own rq a b c s = Some s'"
  shows "obj_keep s s'"
proof -
  obtain s1 s2 where "mk_param cp own rq 0 a s = Some s1" "mk_param cp own rq 1 b s1 = Some s2" "mk_param cp own rq 2 c s2 = Some s'"
    using assms by (auto simp: mk_params_def split: bind_splits)
  then show ?thesis using mk_param_keep obj_keep_trans by meson
qed

lemma mkrequest_fill_ok:
  assumes J: "just_locked ob s" and m: "mkrequest_fill ob rqer f a b c s = Some (v, s')"
  shows "ipc_inv s'"
proof -
  obtain cp x where x: "the_obj s ob = Some x" and cp: "current_process s = Some cp" using m by (auto simp: mkrequest_fill_def split: bind_splits)
  have I: "ipc_but ob s" and ob: "ob < next_ptr s" using J x by (auto simp: just_locked_def ipc_but_def)
  show ?thesis
  proof (cases "owner x = 0")
    case True
    have "s = s\<lparr>objs := (objs s)(ob \<mapsto> x\<lparr>ob_request := 0\<rparr>)\<rparr>"
      using J x by (cases x) (auto simp: just_locked_def the_obj_def fun_upd_idem split: if_splits)
    then have "upd_obj ob (\<lambda>x. x\<lparr>ob_request := 0\<rparr>) s = Some s" using x by (simp add: upd_obj_def)
    then show ?thesis using detach_ok[OF I, of s'] m True x cp by (simp add: mkrequest_fill_def split: bind_splits)
  next
    case False
    obtain p where p: "the_proc s cp = Some p" using m x cp False by (auto simp: mkrequest_fill_def split: bind_splits)
    obtain rq s1 where k: "kmalloc_ptr s = (rq, s1)" by fastforce
    let ?q = "blank_request ob rqer f (pid p) (kjunk s1 rq)"
    define s2 where "s2 = s1\<lparr>rqs := (rqs s1)(rq \<mapsto> ?q)\<rparr>"
    note n = new_request_ok[OF I k s2_def]
    obtain s3 where st: "mk_params cp (owner x) rq a b c s2 = Some s3" "attach_request ob rq s3 = Some s'"
      using m x cp p k False by (auto simp: mkrequest_fill_def s2_def Let_def split: bind_splits)
    have k3: "obj_keep s2 s3" by (rule mk_params_keep[OF st(1)])
    have "just_locked ob s2" using J n deref_cong(6)[of s2 s] by (simp add: just_locked_def)
    then have J3: "just_locked ob s3" by (rule just_locked_keep[OF k3]) (use n ob in linarith)
    obtain q' where q': "the_rq s3 rq = Some q'" "rq_obj q' = ob" "acknowledged q' = RS_PENDING"
      using obj_keepD(3)[OF k3, of rq ?q] n by (auto simp: blank_request_def)
    show ?thesis by (rule attach_ok[OF J3 _ _ q' st(2)]) (use n obj_keepD(1)[OF k3] in auto)
  qed
qed

lemma thread_sleep_keep: "thread_sleep ms r s = Some (r', s') \<Longrightarrow> objs s' = objs s \<and> rqs s' = rqs s \<and> next_ptr s' = next_ptr s"
proof -
  assume "thread_sleep ms r s = Some (r', s')"
  then have "s' = s \<or> (\<exists>l. switch_only (s\<lparr>sleeping_threads := l\<rparr>) s')"
    by (auto simp: thread_sleep_def split: bind_splits if_splits dest!: goInactive_only)
  then show ?thesis by (auto dest: switch_only_fields(3,5,11))
qed

text \<open>A thread that finds the object locked sleeps and changes neither the object nor its request.\<close>

lemma mkrequest_lock_busy:
  assumes x: "the_obj s ob = Some x" "busyMutex x = MUTEX_LOCKED" and m: "mkrequest_lock ob rqer f a b c r s = Some (v, s')"
  shows "(\<exists>r'. v = Wait r') \<and> objs s' = objs s \<and> rqs s' = rqs s \<and> next_ptr s' = next_ptr s"
proof -
  have "s\<lparr>objs := (objs s)(ob \<mapsto> x\<lparr>busyMutex := MUTEX_LOCKED\<rparr>)\<rparr> = s"
    using x by (cases x) (auto simp: the_obj_def fun_upd_idem split: if_splits)
  then have "exchange_busy ob s = Some (MUTEX_LOCKED, s)" using x by (simp add: exchange_busy_def upd_obj_def)
  then obtain r' where "thread_sleep 1 r s = Some (r', s')" "v = Wait r'"
    using m by (auto simp: mkrequest_lock_def mutex_lock_def split: bind_splits)
  then show ?thesis using thread_sleep_keep by blast
qed

lemma mkrequest_lock_ok:
  assumes I: "ipc_inv s" and m: "mkrequest_lock ob rqer f a b c r s = Some (v, s')"
  shows "ipc_inv s'"
proof -
  obtain x where x: "the_obj s ob = Some x" using m by (auto simp: mkrequest_lock_def mutex_lock_def exchange_busy_def split: bind_splits)
  note ok = ipc_inv_ok[OF I x] and nz = the_obj_pos[OF x]
  define s1 where "s1 = s\<lparr>objs := (objs s)(ob \<mapsto> x\<lparr>busyMutex := MUTEX_LOCKED\<rparr>)\<rparr>"
  have e: "exchange_busy ob s = Some (busyMutex x, s1)" using x by (simp add: exchange_busy_def upd_obj_def s1_def)
  have u: "upd_obj ob (\<lambda>x. x\<lparr>busyMutex := MUTEX_LOCKED\<rparr>) s = Some s1" using x by (simp add: upd_obj_def s1_def)
  show ?thesis
  proof (cases "busyMutex x = MUTEX_LOCKED")
    case True
    then show ?thesis using mkrequest_lock_busy[OF x True m] by (intro ipc_inv_keep[OF obj_keepI I]) simp_all
  next
    case False
    then have "ob_request x = 0" using ok by (auto simp: ob_ok_def split: if_splits)
    then have "just_locked ob s1" using ipc_but_obj[OF ipc_inv_but[OF I] u] by (simp add: just_locked_def s1_def the_obj_upd nz)
    then show ?thesis using mkrequest_fill_ok[of ob s1] m e False by (auto simp: mkrequest_lock_def mutex_lock_def split: bind_splits)
  qed
qed

lemma mkrequest_ok: "ipc_inv s \<Longrightarrow> mkrequest i rqer f a b c r s = Some (v, s') \<Longrightarrow> ipc_inv s'"
  by (auto simp: mkrequest_def split: bind_splits if_splits intro: mkrequest_lock_ok)

lemma request_made_ok: "ipc_inv s \<Longrightarrow> request_made v r s = Some (w, s') \<Longrightarrow> ipc_inv s'"
  by (auto simp: request_made_def split: outcome.splits prod.splits bind_splits if_splits intro: ipc_inv_keep[OF goInactive_keep])

lemma msg_made_same: "msg_made v u s = Some (w, s') \<Longrightarrow> s' = s"
  by (auto simp: msg_made_def split: outcome.splits prod.splits if_splits)

section \<open>Reachable states\<close>

text \<open>
  The system calls of objects and requests, with any arguments and by any thread, what a
  thread does that continues after it waited (for the mutex, for a request, for the answer),
  and everything else the kernel does, which leaves objects and requests alone.
\<close>

inductive ipc_step :: "kernel \<Rightarrow> kernel \<Rightarrow> bool" where
  sending: "send_msg i u r s = Some (v, s') \<Longrightarrow> ipc_step s s'"
| requesting: "request i u r s = Some (w, s') \<Longrightarrow> ipc_step s s'"
| locking: "mkrequest_lock ob rqer f a b c r s = Some (x, s') \<Longrightarrow> ipc_step s s'"
| sleeping: "request_made x r s = Some (w, s') \<Longrightarrow> ipc_step s s'"
| getting: "request_get i wait r s = Some (g, s') \<Longrightarrow> ipc_step s s'"
| getting_on: "request_get_loop ob r s = Some (g, s') \<Longrightarrow> ipc_step s s'"
| mapping: "request_mapShm i pos n s = Some (e, s') \<Longrightarrow> ipc_step s s'"
| answering: "request_answer i ans ans2 err s = Some s' \<Longrightarrow> ipc_step s s'"
| resuming: "request_resume rq u s = Some (e, u', s') \<Longrightarrow> ipc_step s s'"
| creating: "object_create s = Some (i, s') \<Longrightarrow> ipc_step s s'"
| closing: "object_close i s = Some s' \<Longrightarrow> ipc_step s s'"
| other: "objs s' = objs s \<Longrightarrow> rqs s' = rqs s \<Longrightarrow> next_ptr s \<le> next_ptr s' \<Longrightarrow> ipc_step s s'"

lemma ipc_inv_step: "ipc_step s s' \<Longrightarrow> ipc_inv s \<Longrightarrow> ipc_inv s'"
proof (induction rule: ipc_step.induct)
  case (sending i u r s v s')
  then show ?case by (auto simp: send_msg_def split: bind_splits intro: mkrequest_ok dest!: msg_made_same)
next
  case (requesting i u r s w s')
  then show ?case by (auto simp: request_def split: bind_splits intro: request_made_ok mkrequest_ok)
next
  case (resuming rq u s e u' s')
  then show ?case by (auto simp: request_resume_def Let_def split: bind_splits if_splits intro: ipc_inv_keep[OF obj_keep_kfree])
next
  case (creating s i s')
  then show ?case by (auto simp: object_create_def split: bind_splits intro: ipc_inv_keep[OF obj_createP_keep])
next
  case (closing i s s')
  then show ?case by (auto simp: object_close_def split: bind_splits intro: ipc_inv_keep[OF obj_closeP_keep])
next
  case (other s' s)
  then show ?case using ipc_inv_keep[OF obj_keepI] by blast
qed (auto intro: mkrequest_lock_ok request_made_ok request_get_ok request_get_loop_ok request_mapShm_ok request_answer_ok)

lemma ipc_inv_steps: "ipc_step\<^sup>*\<^sup>* s s' \<Longrightarrow> ipc_inv s \<Longrightarrow> ipc_inv s'"
  by (induction rule: rtranclp_induct) (auto intro: ipc_inv_step)

text \<open>
  C4. The object protocol: in every state that is reached from a state without pending requests
  by system calls of any threads in any order, an object is locked exactly while it has a
  request; the request exists, it is this object's and it is pending or being processed, and two objects never
  share a request. A thread that wants to make another request of this object then sleeps, and the
  object and its request stay as they are.
\<close>

theorem object_protocol:
  assumes "\<And>ob x. the_obj s ob = Some x \<Longrightarrow> ob < next_ptr s \<and> ob_request x = 0 \<and> busyMutex x = MUTEX_UNLOCKED" and "next_ptr s \<noteq> 0"
    and "ipc_step\<^sup>*\<^sup>* s s'" and "the_obj s' ob = Some x"
  shows "(busyMutex x = MUTEX_LOCKED \<longleftrightarrow> ob_request x \<noteq> 0) \<and> (busyMutex x = MUTEX_LOCKED \<or> busyMutex x = MUTEX_UNLOCKED)
     \<and> (ob_request x \<noteq> 0 \<longrightarrow> (\<exists>q. the_rq s' (ob_request x) = Some q \<and> rq_obj q = ob \<and> acknowledged q \<in> {RS_PENDING, RS_PROCESSED}))
     \<and> (\<forall>ob' x'. the_obj s' ob' = Some x' \<and> ob_request x' = ob_request x \<and> ob_request x \<noteq> 0 \<longrightarrow> ob' = ob)
     \<and> (\<forall>rqer f a b c r v s''. ob_request x \<noteq> 0 \<and> mkrequest_lock ob rqer f a b c r s' = Some (v, s'') \<longrightarrow>
          (\<exists>r'. v = Wait r') \<and> the_obj s'' ob = Some x \<and> the_rq s'' (ob_request x) = the_rq s' (ob_request x))"
proof -
  have "ipc_inv s" using assms(1,2) by (auto simp: ipc_inv_def ipc_but_def ob_ok_def)
  then have I: "ipc_inv s'" by (rule ipc_inv_steps[OF assms(3)])
  have ok: "ob_ok s' ob x" using ipc_inv_ok[OF I assms(4)] by simp
  have m: "busyMutex x = MUTEX_LOCKED \<longleftrightarrow> ob_request x \<noteq> 0" "busyMutex x = MUTEX_LOCKED \<or> busyMutex x = MUTEX_UNLOCKED"
    and q: "ob_request x \<noteq> 0 \<longrightarrow> (\<exists>q. the_rq s' (ob_request x) = Some q \<and> rq_obj q = ob \<and> acknowledged q \<in> {RS_PENDING, RS_PROCESSED})"
    using ok by (auto simp: ob_ok_def rq_consts split: if_splits)
  have d: "ob' = ob" if "the_obj s' ob' = Some x'" "ob_request x' = ob_request x" "ob_request x \<noteq> 0" for ob' x'
    using ipc_inv_ok[OF I that(1)] that(2,3) q by (auto simp: ob_ok_def)
  have w: "(\<exists>r'. v = Wait r') \<and> the_obj s'' ob = Some x \<and> the_rq s'' (ob_request x) = the_rq s' (ob_request x)"
    if "ob_request x \<noteq> 0" "mkrequest_lock ob rqer f a b c r s' = Some (v, s'')" for rqer f a b c r v s''
    using mkrequest_lock_busy[OF assms(4) _ that(2)] m(1) that(1) assms(4) deref_cong(6)[of s'' s'] deref_cong(8)[of s'' s'] by simp
  show ?thesis using m q d w by blast
qed

theorem object_protocol_witness:
  "\<exists>v s' x. send_msg 0 rpc_call \<lparr>esp = 0, ebp = 0, eip = 0\<rparr> (rpc_demo 6) = Some (v, s') \<and> the_obj s' 30 = Some x
     \<and> busyMutex x = MUTEX_LOCKED \<and> ob_request x = 40 \<and> (\<exists>q. the_rq s' 40 = Some q \<and> rq_obj q = 30)"
proof -
  let ?r = "\<lparr>esp = 0, ebp = 0, eip = 0 :: u32\<rparr>" and ?s = "rpc_demo 6"
  have f: "us_func rpc_call = 0xA2000001" by (simp add: rpc_call_def)
  have init: "\<And>ob x. the_obj ?s ob = Some x \<Longrightarrow> ob < next_ptr ?s \<and> ob_request x = 0 \<and> busyMutex x = MUTEX_UNLOCKED" "next_ptr ?s \<noteq> 0"
    by (auto simp: rpc_demo_def the_obj_def rpc_object_def rq_consts split: if_splits)
  obtain s' where s': "mkrequest 0 0 (us_func rpc_call) (us_a rpc_call) (us_b rpc_call) (us_c rpc_call) ?r ?s = Some (Return (40, 0), s')"
      "the_obj s' 30 = Some (busy_with 40 rpc_object)"
    using mkrequest_plain[OF rpc_can_send, of "us_func rpc_call"] rpc_plain(1) rpc_inv[of 6] unfolding rpc_fields f by blast
  then have m: "send_msg 0 rpc_call ?r ?s = Some (Return (0, rpc_call\<lparr>us_errcode := 0\<rparr>), s')" by (simp add: send_msg_def msg_made_def)
  have "ipc_step\<^sup>*\<^sup>* ?s s'" using ipc_step.sending[OF m] by blast
  from object_protocol[OF init this s'(2)] m s'(2) show ?thesis by auto
qed

end
