(* ===== verification/Monitor.thy ===== *)
theory Monitor
  imports Prelude
begin

text \<open>
  The text screen, \<^verbatim>\<open>src/kernel/core/monitor.c\<close>: 25 lines of 80 characters in video memory, and a
  cursor. An access outside video memory and an overflow of a signed integer are undefined and are \<^const>\<open>None\<close>. Theorems: the cursor
  stays on the screen, so that nothing is ever written outside; what is printed for a number.
\<close>

section \<open>Model\<close>

record monitor =
  cursor_x :: int
  cursor_y :: int
  video_memory :: "16 word list"
  attribute :: u8
  mon_ports :: "(16 word \<times> u8) list"  \<comment> \<open>what was written to the ports\<close>

text \<open>The static variables before the kernel starts, with \<open>v\<close> on the screen.\<close>

definition monitor0 :: "16 word list \<Rightarrow> monitor" where
  "monitor0 v = \<lparr>cursor_x = 0, cursor_y = 0, video_memory = v, attribute = 0x07, mon_ports = []\<rparr>"

definition vstore :: "int \<Rightarrow> 16 word \<Rightarrow> monitor \<Rightarrow> monitor option" where
  "vstore i w m = (if 0 \<le> i \<and> nat i < length (video_memory m) then Some (m\<lparr>video_memory := (video_memory m)[nat i := w]\<rparr>) else None)"

definition cursor_location :: "monitor \<Rightarrow> 16 word" where
  "cursor_location m = word_of_int (cursor_y m * 80 + cursor_x m)"

definition move_cursor :: "monitor \<Rightarrow> monitor" where
  "move_cursor m = m\<lparr>mon_ports := mon_ports m @
     [(0x3D4, 14), (0x3D5, ucast (drop_bit 8 (cursor_location m))), (0x3D4, 15), (0x3D5, ucast (cursor_location m))]\<rparr>"

definition blank :: "monitor \<Rightarrow> 16 word" where
  "blank m = push_bit 8 (ucast (attribute m)) OR 0x20"

fun copy_up :: "nat \<Rightarrow> nat \<Rightarrow> monitor \<Rightarrow> monitor option" where
  "copy_up i 0 m = Some m"
| "copy_up i (Suc n) m = do {
     w \<leftarrow> (if i + 80 < length (video_memory m) then Some (video_memory m ! (i + 80)) else None);
     m \<leftarrow> vstore (int i) w m;
     copy_up (Suc i) n m }"

fun fill_blank :: "nat \<Rightarrow> nat \<Rightarrow> 16 word \<Rightarrow> monitor \<Rightarrow> monitor option" where
  "fill_blank i 0 w m = Some m"
| "fill_blank i (Suc n) w m = do { m \<leftarrow> vstore (int i) w m; fill_blank (Suc i) n w m }"

definition scroll :: "monitor \<Rightarrow> monitor option" where
  "scroll m =
     (if cursor_y m \<ge> 25 then do {
        let w = blank m;
        m \<leftarrow> copy_up 0 (80 * 24) m;
        m \<leftarrow> fill_blank (80 * 24) 80 w m;
        Some (m\<lparr>cursor_y := 24\<rparr>) }
      else Some m)"

text \<open>A \<^verbatim>\<open>char\<close> is signed: bytes from 0x80 on are below the blank and are not printed.\<close>

definition put_char :: "u8 \<Rightarrow> monitor \<Rightarrow> monitor option" where
  "put_char c m =
     (if c = 8 \<and> cursor_x m \<noteq> 0 then Some (m\<lparr>cursor_x := cursor_x m - 1\<rparr>)
      else if c = 9 then Some (m\<lparr>cursor_x := (cursor_x m + 8) AND NOT 7\<rparr>)
      else if c = 13 then Some (m\<lparr>cursor_x := 0\<rparr>)
      else if c = 10 then Some (m\<lparr>cursor_x := 0, cursor_y := cursor_y m + 1\<rparr>)
      else if 32 \<le> sint c then do {
        m \<leftarrow> vstore (cursor_y m * 80 + cursor_x m) (ucast c OR push_bit 8 (ucast (attribute m))) m;
        Some (m\<lparr>cursor_x := cursor_x m + 1\<rparr>) }
      else Some m)"

definition monitor_put :: "u8 \<Rightarrow> monitor \<Rightarrow> monitor option" where
  "monitor_put c m = do {
     m \<leftarrow> put_char c m;
     let m = (if cursor_x m \<ge> 80 then m\<lparr>cursor_x := 0, cursor_y := cursor_y m + 1\<rparr> else m);
     m \<leftarrow> scroll m;
     Some (move_cursor m) }"

definition monitor_clear :: "monitor \<Rightarrow> monitor option" where
  "monitor_clear m = do {
     m \<leftarrow> fill_blank 0 (80 * 25) (blank m) m;
     Some (move_cursor (m\<lparr>cursor_x := 0, cursor_y := 0\<rparr>)) }"

text \<open>The bytes of the string; its terminating zero may be left out.\<close>

fun monitor_write :: "u8 list \<Rightarrow> monitor \<Rightarrow> monitor option" where
  "monitor_write [] m = Some m"
| "monitor_write (c # cs) m = (if c \<noteq> 0 then do { m \<leftarrow> monitor_put c m; monitor_write cs m } else Some m)"

definition hexdigits :: "u8 list" where
  "hexdigits = [0x30, 0x31, 0x32, 0x33, 0x34, 0x35, 0x36, 0x37, 0x38, 0x39, 0x61, 0x62, 0x63, 0x64, 0x65, 0x66, 0]"

definition numbers :: "u8 list" where
  "numbers = [0x30, 0x31, 0x32, 0x33, 0x34, 0x35, 0x36, 0x37, 0x38, 0x39, 0]"

definition char_at :: "u8 list \<Rightarrow> nat \<Rightarrow> u8 option" where
  "char_at cs i = (if i < length cs then Some (cs ! i) else None)"

fun hex_loop :: "nat \<Rightarrow> u32 \<Rightarrow> monitor \<Rightarrow> monitor option" where
  "hex_loop 0 v m = Some m"
| "hex_loop (Suc n) v m = do {
     c \<leftarrow> char_at hexdigits (unat (drop_bit 28 v));
     m \<leftarrow> monitor_put c m;
     hex_loop n (push_bit 4 v) m }"

definition monitor_writeHex :: "u32 \<Rightarrow> monitor \<Rightarrow> monitor option" where
  "monitor_writeHex v m = do {
     m \<leftarrow> monitor_put 0x30 m;
     m \<leftarrow> monitor_put 0x78 m;
     hex_loop 8 v m }"

text \<open>
  \<^verbatim>\<open>while (v / order > 0) order *= 10\<close>, with a signed \<open>order\<close>. The values of \<open>v\<close> only get smaller, so
  they are natural numbers here.
\<close>

function order_loop :: "nat \<Rightarrow> nat \<Rightarrow> nat option" where
  "order_loop v order =
     (if v div order > 0 then if order * 10 \<ge> 2 ^ 31 then None else order_loop v (order * 10) else Some order)"
  by pat_completeness auto
termination
proof (relation "measure (\<lambda>(v, order). Suc v - order)")
  fix v order :: nat assume "v div order > 0"
  then have "0 < order" "order \<le> v" by (simp_all add: div_greater_zero_iff)
  then show "((v, order * 10), v, order) \<in> measure (\<lambda>(v, order). Suc v - order)" by auto
qed simp

declare order_loop.simps [simp del]

partial_function (option) zero_loop :: "nat \<Rightarrow> nat \<Rightarrow> monitor \<Rightarrow> monitor option" where
  "zero_loop no order m =
     (if no < order then do {
        m \<leftarrow> monitor_put 0x30 m;
        if no * 10 \<ge> 2 ^ 31 then None else zero_loop (no * 10) order m }
      else Some m)"

partial_function (option) dec_loop :: "nat \<Rightarrow> monitor \<Rightarrow> monitor option" where
  "dec_loop v m =
     (if v > 0 then do {
        order \<leftarrow> order_loop v 1;
        let order = order div 10;
        if order = 0 then None
        else do {
          c \<leftarrow> char_at numbers (v div order);
          m \<leftarrow> monitor_put c m;
          let v = v - v div order * order;
          no \<leftarrow> order_loop v 1;
          m \<leftarrow> zero_loop no order m;
          dec_loop v m } }
      else Some m)"

definition monitor_writeDec :: "u32 \<Rightarrow> monitor \<Rightarrow> monitor option" where
  "monitor_writeDec v m = (if v = 0 then monitor_put 0x30 m else dec_loop (unat v) m)"

section \<open>The cursor stays on the screen\<close>

definition on_screen :: "monitor \<Rightarrow> bool" where
  "on_screen m \<longleftrightarrow> 0 \<le> cursor_x m \<and> cursor_x m < 80 \<and> 0 \<le> cursor_y m \<and> cursor_y m < 25 \<and> length (video_memory m) = 2000"

lemma copy_up_ok:
  assumes "length (video_memory m) = i + n + 80"
  shows "copy_up i n m = Some (m\<lparr>video_memory := take i (video_memory m) @ drop (i + 80) (video_memory m) @ drop (i + n) (video_memory m)\<rparr>)"
  using assms
proof (induction i n m rule: copy_up.induct)
  case (1 i m)
  then show ?case by simp
next
  case (2 i n m)
  let ?v = "video_memory m"
  let ?m = "m\<lparr>video_memory := ?v[i := ?v ! (i + 80)]\<rparr>"
  have i: "i < length ?v" "i + 80 < length ?v" using 2(2) by simp_all
  have "copy_up i (Suc n) m = copy_up (Suc i) n ?m" using i by (simp add: vstore_def)
  also have "\<dots> = Some (?m\<lparr>video_memory := take (Suc i) (video_memory ?m) @ drop (Suc i + 80) (video_memory ?m) @ drop (Suc i + n) (video_memory ?m)\<rparr>)"
    using 2(1)[of "?v ! (i + 80)" ?m] 2(2) i by (simp add: vstore_def)
  also have "take (Suc i) (video_memory ?m) = take i ?v @ [?v ! (i + 80)]" using i by (simp add: take_Suc_conv_app_nth)
  also have "drop (Suc i + 80) (video_memory ?m) = drop (Suc i + 80) ?v" by simp
  also have "drop (Suc i + n) (video_memory ?m) = drop (Suc i + n) ?v" by simp
  finally show ?case using i Cons_nth_drop_Suc[of "i + 80" ?v] by simp
qed

lemma fill_blank_ok:
  assumes "i + n \<le> length (video_memory m)"
  shows "fill_blank i n w m = Some (m\<lparr>video_memory := take i (video_memory m) @ replicate n w @ drop (i + n) (video_memory m)\<rparr>)"
  using assms
proof (induction i n w m rule: fill_blank.induct)
  case (1 i w m)
  then show ?case by simp
next
  case (2 i n w m)
  let ?m = "m\<lparr>video_memory := (video_memory m)[i := w]\<rparr>"
  have i: "i < length (video_memory m)" using 2(2) by simp
  have "fill_blank i (Suc n) w m = fill_blank (Suc i) n w ?m" using i by (simp add: vstore_def)
  also have "\<dots> = Some (?m\<lparr>video_memory := take (Suc i) (video_memory ?m) @ replicate n w @ drop (Suc i + n) (video_memory ?m)\<rparr>)"
    using 2(1)[of ?m] 2(2) i by (simp add: vstore_def)
  finally show ?case using i by (simp add: take_Suc_conv_app_nth)
qed

lemma scroll_ok:
  assumes "length (video_memory m) = 2000"
  shows "scroll m = Some (if cursor_y m \<ge> 25 then m\<lparr>video_memory := drop 80 (video_memory m) @ replicate 80 (blank m), cursor_y := 24\<rparr> else m)"
proof -
  have "copy_up 0 (80 * 24) m = Some (m\<lparr>video_memory := drop 80 (video_memory m) @ drop 1920 (video_memory m)\<rparr>)"
    using copy_up_ok[of m 0 1920] assms by simp
  then show ?thesis using assms fill_blank_ok[of 1920 80 "m\<lparr>video_memory := drop 80 (video_memory m) @ drop 1920 (video_memory m)\<rparr>" "blank m"]
    by (simp add: scroll_def Let_def)
qed

lemma tab_stop: "x AND NOT 7 = x div 8 * (8 :: int)"
proof -
  have "(7 :: int) = mask 3" by (simp add: mask_eq_exp_minus_1)
  then have "x AND NOT 7 = x AND NOT (mask 3)" by (simp only:)
  also have "\<dots> = push_bit 3 (drop_bit 3 x)" by (rule bit_eqI) (auto simp: bit_simps)
  finally show ?thesis by (simp add: push_bit_eq_mult drop_bit_eq_div)
qed

text \<open>A character, before scrolling: the cursor may be one line too low.\<close>

lemma put_char_ok:
  assumes "on_screen m"
  shows "\<exists>m'. put_char c m = Some m' \<and> length (video_memory m') = 2000 \<and> 0 \<le> cursor_x m' \<and> 0 \<le> cursor_y m'
     \<and> (if cursor_x m' \<ge> 80 then cursor_y m' < 25 else cursor_y m' \<le> 25) \<and> mon_ports m' = mon_ports m \<and> attribute m' = attribute m"
proof -
  have m: "0 \<le> cursor_x m" "cursor_x m < 80" "0 \<le> cursor_y m" "cursor_y m < 25" "length (video_memory m) = 2000" using assms by (auto simp: on_screen_def)
  then have "0 \<le> cursor_y m * 80 + cursor_x m" "nat (cursor_y m * 80 + cursor_x m) < 2000" by simp_all
  then show ?thesis using m by (auto simp: put_char_def vstore_def tab_stop)
qed

lemma monitor_put_ok:
  assumes "on_screen m"
  shows "\<exists>m'. monitor_put c m = Some m' \<and> on_screen m' \<and> attribute m' = attribute m \<and> mon_ports m' = mon_ports m @
     [(0x3D4, 14), (0x3D5, ucast (drop_bit 8 (cursor_location m'))), (0x3D4, 15), (0x3D5, ucast (cursor_location m'))]"
proof -
  obtain m1 where m1: "put_char c m = Some m1" "length (video_memory m1) = 2000" "0 \<le> cursor_x m1" "0 \<le> cursor_y m1"
      "if cursor_x m1 \<ge> 80 then cursor_y m1 < 25 else cursor_y m1 \<le> 25" "mon_ports m1 = mon_ports m" "attribute m1 = attribute m"
    using put_char_ok[OF assms] by blast
  define m2 where "m2 = (if cursor_x m1 \<ge> 80 then m1\<lparr>cursor_x := 0, cursor_y := cursor_y m1 + 1\<rparr> else m1)"
  have m2: "length (video_memory m2) = 2000" "0 \<le> cursor_x m2" "cursor_x m2 < 80" "0 \<le> cursor_y m2" "cursor_y m2 \<le> 25" "mon_ports m2 = mon_ports m" "attribute m2 = attribute m"
    using m1 by (auto simp: m2_def split: if_splits)
  define m3 where "m3 = (if cursor_y m2 \<ge> 25 then m2\<lparr>video_memory := drop 80 (video_memory m2) @ replicate 80 (blank m2), cursor_y := 24\<rparr> else m2)"
  have "monitor_put c m = Some (move_cursor m3)" using m1(1) scroll_ok[OF m2(1)] by (simp add: monitor_put_def m2_def[symmetric] m3_def)
  moreover have "on_screen m3" "mon_ports m3 = mon_ports m" "attribute m3 = attribute m" using m2 by (auto simp: on_screen_def m3_def)
  ultimately show ?thesis by (auto simp: move_cursor_def on_screen_def cursor_location_def)
qed

lemma monitor_write_ok: "on_screen m \<Longrightarrow> \<exists>m'. monitor_write cs m = Some m' \<and> on_screen m' \<and> attribute m' = attribute m"
proof (induction cs m rule: monitor_write.induct)
  case (2 c cs m)
  then show ?case using monitor_put_ok[of m c] by (cases "c = 0") fastforce+
qed simp

text \<open>
  C26. Nothing is written outside the screen: from a state with the cursor on the screen, writing any
  string succeeds, with the cursor on the screen again, and each character that is put tells
  the hardware where the cursor is afterwards. A printable character appears at the old position
  of the cursor, on a screen that is scrolled up by a line if this was the last position, and nothing else on the
  screen changes.
\<close>

theorem screen_bounds:
  assumes "on_screen m"
  shows "(\<exists>m'. monitor_write cs m = Some m' \<and> on_screen m')
     \<and> (\<exists>m'. monitor_put c m = Some m' \<and> on_screen m'
        \<and> drop (length (mon_ports m)) (mon_ports m') = [(0x3D4, 14), (0x3D5, ucast (drop_bit 8 (cursor_location m'))), (0x3D4, 15), (0x3D5, ucast (cursor_location m'))]
        \<and> (32 \<le> sint c \<longrightarrow> (let pos = nat (cursor_y m * 80 + cursor_x m); v = (video_memory m)[pos := ucast c OR push_bit 8 (ucast (attribute m))] in
             video_memory m' = (if pos = 1999 then drop 80 v @ replicate 80 (blank m) else v)
             \<and> (pos < 1999 \<longrightarrow> nat (cursor_y m' * 80 + cursor_x m') = Suc pos))))"
proof -
  obtain m' where m': "monitor_put c m = Some m'" "on_screen m'" "mon_ports m' = mon_ports m @
     [(0x3D4, 14), (0x3D5, ucast (drop_bit 8 (cursor_location m'))), (0x3D4, 15), (0x3D5, ucast (cursor_location m'))]"
    using monitor_put_ok[OF assms] by blast
  let ?pos = "nat (cursor_y m * 80 + cursor_x m)"
  let ?v = "(video_memory m)[?pos := ucast c OR push_bit 8 (ucast (attribute m))]"
  have b: "0 \<le> cursor_x m" "cursor_x m < 80" "0 \<le> cursor_y m" "cursor_y m < 25" "length (video_memory m) = 2000" using assms by (auto simp: on_screen_def)
  have "video_memory m' = (if ?pos = 1999 then drop 80 ?v @ replicate 80 (blank m) else ?v) \<and> (?pos < 1999 \<longrightarrow> nat (cursor_y m' * 80 + cursor_x m') = Suc ?pos)"
    if c: "32 \<le> sint c"
  proof -
    have nc: "c \<noteq> 8" "c \<noteq> 9" "c \<noteq> 13" "c \<noteq> 10" using c by auto
    let ?m1 = "m\<lparr>video_memory := ?v, cursor_x := cursor_x m + 1\<rparr>"
    let ?m2 = "if cursor_x ?m1 \<ge> 80 then ?m1\<lparr>cursor_x := 0, cursor_y := cursor_y m + 1\<rparr> else ?m1"
    have "put_char c m = Some ?m1" using c nc b by (simp add: put_char_def vstore_def)
    then have e: "monitor_put c m = (do { m \<leftarrow> scroll ?m2; Some (move_cursor m) })" by (simp add: monitor_put_def Let_def)
    have "scroll ?m2 = Some (if cursor_y ?m2 \<ge> 25 then ?m2\<lparr>video_memory := drop 80 ?v @ replicate 80 (blank m), cursor_y := 24\<rparr> else ?m2)"
      using scroll_ok[of ?m2] b by (simp add: blank_def)
    then have "m' = move_cursor (if cursor_y ?m2 \<ge> 25 then ?m2\<lparr>video_memory := drop 80 ?v @ replicate 80 (blank m), cursor_y := 24\<rparr> else ?m2)"
      using e m'(1) by simp
    moreover have "cursor_y ?m2 \<ge> 25 \<longleftrightarrow> ?pos = 1999" using b by auto
    ultimately show ?thesis using b by (auto simp: move_cursor_def)
  qed
  moreover have "\<exists>m'. monitor_write cs m = Some m' \<and> on_screen m'" using monitor_write_ok[OF assms] by blast
  ultimately show ?thesis using m' unfolding Let_def by - (rule conjI, blast, intro exI[of _ m'] conjI impI; simp)
qed

theorem screen_bounds_witness:
  "\<exists>m'. monitor_put 0x41 (monitor0 (replicate 2000 0)) = Some m' \<and> on_screen m' \<and> video_memory m' ! 0 = 0x741"
proof -
  let ?m = "monitor0 (replicate 2000 0)"
  have "on_screen ?m" by (simp add: on_screen_def monitor0_def)
  from screen_bounds[OF this, of "[]" "0x41"] obtain m' where "monitor_put 0x41 ?m = Some m'" "on_screen m'"
      "video_memory m' = (replicate 2000 0)[0 := 0x741]"
    by (auto simp: monitor0_def Let_def)
  then show ?thesis by (intro exI[of _ m']) simp
qed

section \<open>Decimal numbers\<close>

text \<open>The \<open>k\<close> last decimal digits of \<open>v\<close>, the reference for what is printed.\<close>

fun digits :: "nat \<Rightarrow> nat \<Rightarrow> nat list" where
  "digits 0 v = []"
| "digits (Suc k) v = v div 10 ^ k mod 10 # digits k (v mod 10 ^ k)"

definition puts :: "nat list \<Rightarrow> monitor \<Rightarrow> monitor option" where
  "puts ds m = monitor_write (map (\<lambda>d. of_nat d + 0x30) ds) m"

lemma digits_value: "v < 10 ^ k \<Longrightarrow> foldl (\<lambda>a d. 10 * a + d) x (digits k v) = x * 10 ^ k + v"
proof (induction k arbitrary: v x)
  case (Suc k)
  have "v div 10 ^ k < 10" using Suc.prems by (simp add: less_mult_imp_div_less)
  then show ?case using Suc.IH[of "v mod 10 ^ k" "10 * x + v div 10 ^ k"] mult_div_mod_eq[of "10 ^ k" v] by (simp add: algebra_simps)
qed simp

lemma digits_range: "d \<in> set (digits k v) \<Longrightarrow> d < 10"
  by (induction k v rule: digits.induct) auto

lemma length_digits [simp]: "length (digits k v) = k"
  by (induction k v rule: digits.induct) auto

lemma digits_pad: "v < 10 ^ j \<Longrightarrow> j \<le> k \<Longrightarrow> digits k v = replicate (k - j) 0 @ digits j v"
proof (induction k)
  case (Suc k)
  show ?case
  proof (cases "j = Suc k")
    case False
    then have j: "j \<le> k" using Suc.prems by simp
    have "v < 10 ^ k" by (rule less_le_trans[OF Suc.prems(1) power_increasing[OF j]]) simp
    then show ?thesis using Suc.IH[OF Suc.prems(1) j] j by (simp add: Suc_diff_le)
  qed simp
qed simp

lemma puts_Nil [simp]: "puts [] m = Some m"
  by (simp add: puts_def)

lemma digit_char:
  assumes "d < 10"
  shows "char_at numbers d = Some (of_nat d + 0x30)" "(of_nat d + 0x30 :: u8) \<noteq> 0"
proof -
  have "d \<in> {0, 1, 2, 3, 4, 5, 6, 7, 8, 9}" using assms by auto
  then show "char_at numbers d = Some (of_nat d + 0x30)" "(of_nat d + 0x30 :: u8) \<noteq> 0"
    by (elim insertE; simp add: char_at_def numbers_def)+
qed

lemma puts_Cons: "d < 10 \<Longrightarrow> puts (d # ds) m = do { m \<leftarrow> monitor_put (of_nat d + 0x30) m; puts ds m }"
  using digit_char(2)[of d] by (simp add: puts_def)

lemma puts_append: "\<forall>d\<in>set ds. d < 10 \<Longrightarrow> puts (ds @ es) m = do { m \<leftarrow> puts ds m; puts es m }"
  by (induction ds arbitrary: m) (auto simp: puts_Cons split: bind_splits)

lemma order_loop_pow:
  assumes "v < 10 ^ Suc j" and "10 ^ j \<le> v" and "Suc j \<le> 9" and "i \<le> Suc j"
  shows "order_loop v (10 ^ i) = Some (10 ^ Suc j)"
  using assms(4)
proof (induction "Suc j - i" arbitrary: i)
  case 0
  then have "i = Suc j" by simp
  then show ?case using assms(1) by (subst order_loop.simps) simp
next
  case (Suc n)
  then have i: "i \<le> j" by simp
  have le: "(10 :: nat) ^ i \<le> v" by (rule order_trans[OF power_increasing[OF i] assms(2)]) simp
  have "(10 :: nat) ^ Suc i \<le> 10 ^ 9" using i assms(3) by (intro power_increasing) simp_all
  then have "\<not> (10 :: nat) ^ i * 10 \<ge> 2 ^ 31" by simp
  moreover have "order_loop v (10 ^ i * 10) = Some (10 ^ Suc j)" using Suc(1)[of "Suc i"] Suc(2) i by (simp add: mult.commute)
  ultimately show ?case using le by (subst order_loop.simps) (simp add: div_greater_zero_iff)
qed

lemma order_loop_none:
  assumes "10 ^ 9 \<le> v" and "i \<le> 9"
  shows "order_loop v (10 ^ i) = None"
  using assms(2)
proof (induction "9 - i" arbitrary: i)
  case 0
  then have "i = 9" by simp
  then show ?case using assms(1) by (subst order_loop.simps) (simp add: div_greater_zero_iff)
next
  case (Suc n)
  then have i: "i \<le> 8" by simp
  have le: "(10 :: nat) ^ i \<le> v" by (rule order_trans[OF power_increasing assms(1)]) (use i in simp_all)
  have "order_loop v (10 ^ i * 10) = None" using Suc(1)[of "Suc i"] Suc(2) i by (simp add: mult.commute)
  then show ?case using le by (subst order_loop.simps) (simp add: div_greater_zero_iff)
qed

lemma zero_loop_pow: "i \<le> k \<Longrightarrow> k \<le> 9 \<Longrightarrow> zero_loop (10 ^ i) (10 ^ k) m = puts (replicate (k - i) 0) m"
proof (induction "k - i" arbitrary: i m)
  case 0
  then show ?case by (subst zero_loop.simps) simp
next
  case (Suc n)
  then have i: "i < k" by simp
  have "(10 :: nat) ^ Suc i \<le> 10 ^ 9" using i Suc(4) by (intro power_increasing) simp_all
  then have b: "\<not> (10 :: nat) ^ i * 10 \<ge> 2 ^ 31" by simp
  have r: "k - i = Suc (k - Suc i)" using i by simp
  have "zero_loop (10 ^ i * 10) (10 ^ k) m' = puts (replicate (k - Suc i) 0) m'" for m' using Suc(1)[of "Suc i" m'] Suc(2,4) i by (simp add: mult.commute)
  then show ?case unfolding r using i b by (subst zero_loop.simps) (simp add: puts_Cons)
qed

lemma log10_ex: "0 < v \<Longrightarrow> v < 10 ^ k \<Longrightarrow> \<exists>j<k. 10 ^ j \<le> v \<and> v < (10 :: nat) ^ Suc j"
proof (induction k)
  case (Suc k)
  show ?case
  proof (cases "v < 10 ^ k")
    case True
    then show ?thesis using Suc.IH[OF Suc.prems(1)] by (meson less_SucI)
  next
    case False
    then show ?thesis using Suc.prems(2) by (intro exI[of _ k]) simp
  qed
qed simp

lemma dec_loop_digits: "10 ^ k \<le> v \<Longrightarrow> v < 10 ^ Suc k \<Longrightarrow> k < 9 \<Longrightarrow> dec_loop v m = puts (digits (Suc k) v) m"
proof (induction k arbitrary: v m rule: less_induct)
  case (less k)
  let ?v = "v mod 10 ^ k"
  have v: "v > 0" "v - v div 10 ^ k * 10 ^ k = ?v" using less.prems by (auto simp: minus_div_mult_eq_mod intro: Nat.gr0I)
  have d: "v div 10 ^ k < 10" using less.prems(2) by (simp add: less_mult_imp_div_less)
  have o: "order_loop v 1 = Some (10 ^ Suc k)" using order_loop_pow[of v k 0] less.prems by simp
  have "\<exists>j. order_loop ?v 1 = Some (10 ^ j) \<and> j \<le> k \<and> ?v < 10 ^ j \<and> (\<forall>m. dec_loop ?v m = puts (digits j ?v) m \<or> ?v = 0 \<and> j = 0)"
  proof (cases "?v = 0")
    case True
    then show ?thesis by (intro exI[of _ 0]) (simp add: order_loop.simps)
  next
    case False
    then obtain j where j: "j < k" "10 ^ j \<le> ?v" "?v < 10 ^ Suc j" using log10_ex[of ?v k] by auto
    then show ?thesis using order_loop_pow[of ?v j 0] less.IH[OF j] less.prems(3) by (intro exI[of _ "Suc j"]) auto
  qed
  then obtain j where j: "order_loop ?v 1 = Some (10 ^ j)" "j \<le> k" "?v < 10 ^ j" "\<And>m. dec_loop ?v m = puts (digits j ?v) m \<or> ?v = 0 \<and> j = 0" by blast
  have r: "dec_loop ?v = puts (digits j ?v)"
  proof
    fix m' show "dec_loop ?v m' = puts (digits j ?v) m'" using j(4)[of m'] by (elim disjE conjE) (simp_all add: dec_loop.simps[of 0])
  qed
  have "dec_loop v m = do { m \<leftarrow> monitor_put (of_nat (v div 10 ^ k) + 0x30) m; m \<leftarrow> puts (replicate (k - j) 0) m; puts (digits j ?v) m }"
    using v o d j(1) r zero_loop_pow[OF j(2)] less.prems(3) digit_char(1)[OF d] by (subst dec_loop.simps) (simp add: Let_def)
  also have "\<dots> = do { m \<leftarrow> monitor_put (of_nat (v div 10 ^ k) + 0x30) m; puts (digits k ?v) m }"
    using digits_pad[OF j(3,2)] by (simp add: puts_append)
  finally show ?case using d by (simp add: puts_Cons)
qed

lemma writeDec_text:
  assumes v: "unat v < 10 ^ 9"
  shows "\<exists>ds. (\<forall>m. monitor_writeDec v m = monitor_write (map (\<lambda>d. of_nat d + 0x30) ds) m) \<and> (\<forall>d\<in>set ds. d < 10)
       \<and> ds \<noteq> [] \<and> (v \<noteq> 0 \<longrightarrow> hd ds \<noteq> 0) \<and> foldl (\<lambda>a d. 10 * a + d) 0 ds = unat v"
proof (cases "v = 0")
  case True
  have "monitor_writeDec 0 m = monitor_write (map (\<lambda>d. of_nat d + 0x30) [0]) m" for m by (cases "monitor_put 48 m"; simp add: monitor_writeDec_def)
  then show ?thesis using True by (intro exI[of _ "[0]"]) simp
next
  case False
  then have "0 < unat v" by (simp add: unat_gt_0)
  from log10_ex[OF this v] obtain k where k: "k < 9" "10 ^ k \<le> unat v" "unat v < 10 ^ Suc k" by blast
  have "unat v div 10 ^ k < 10" "0 < unat v div 10 ^ k" using k(2,3) by (simp_all add: less_mult_imp_div_less div_greater_zero_iff)
  then have "hd (digits (Suc k) (unat v)) \<noteq> 0" by simp
  then show ?thesis using False dec_loop_digits[OF k(2,3,1)] digits_range[of _ "Suc k" "unat v"] digits_value[OF k(3), of 0]
    by (intro exI[of _ "digits (Suc k) (unat v)"]) (simp add: monitor_writeDec_def puts_def del: digits.simps, simp)
qed

text \<open>
  Decimal numbers: for a number below \<open>10\<^sup>9\<close>, \<open>monitor_writeDec\<close> prints exactly its decimal digits
  without leading zeros. For a larger number the signed variable \<open>order\<close> overflows, which is undefined.
\<close>

theorem writeDec_digits:
  shows "(unat v < 10 ^ 9 \<longrightarrow> (\<exists>ds. monitor_writeDec v m = monitor_write (map (\<lambda>d. of_nat d + 0x30) ds) m \<and> (\<forall>d\<in>set ds. d < 10)
       \<and> ds \<noteq> [] \<and> (v \<noteq> 0 \<longrightarrow> hd ds \<noteq> 0) \<and> foldl (\<lambda>a d. 10 * a + d) 0 ds = unat v))
     \<and> (10 ^ 9 \<le> unat v \<longrightarrow> monitor_writeDec v m = None)"
proof (intro conjI impI)
  assume "unat v < 10 ^ 9"
  from writeDec_text[OF this] show "\<exists>ds. monitor_writeDec v m = monitor_write (map (\<lambda>d. of_nat d + 0x30) ds) m \<and> (\<forall>d\<in>set ds. d < 10)
       \<and> ds \<noteq> [] \<and> (v \<noteq> 0 \<longrightarrow> hd ds \<noteq> 0) \<and> foldl (\<lambda>a d. 10 * a + d) 0 ds = unat v" by blast
next
  assume v: "10 ^ 9 \<le> unat v"
  then have "0 < unat v" by simp
  then have "v \<noteq> 0" by (simp add: unat_gt_0)
  then show "monitor_writeDec v m = None" using order_loop_none[OF v, of 0] \<open>0 < unat v\<close> by (simp add: monitor_writeDec_def) (subst dec_loop.simps, simp)
qed

theorem writeDec_digits_witness:
  "\<exists>ds. monitor_writeDec 4096 (monitor0 []) = monitor_write (map (\<lambda>d. of_nat d + 0x30) ds) (monitor0 []) \<and> foldl (\<lambda>a d. 10 * a + d) 0 ds = (4096 :: nat)
     \<and> monitor_writeDec 4000000000 (monitor0 []) = None"
  using writeDec_digits[of 4096 "monitor0 []"] writeDec_digits[of 4000000000 "monitor0 []"] by auto

section \<open>Hexadecimal numbers\<close>

lemma hexdigit: "d < 16 \<Longrightarrow> char_at hexdigits d = Some (hexdigits ! d) \<and> hexdigits ! d \<noteq> 0"
proof -
  assume d: "d < 16"
  have l: "length hexdigits = 17" by (simp add: hexdigits_def)
  have "take 16 hexdigits ! d \<in> set (take 16 hexdigits)" using d l by (intro nth_mem) simp
  then have "hexdigits ! d \<in> set (take 16 hexdigits)" using d by simp
  then have "hexdigits ! d \<noteq> 0" by (auto simp: hexdigits_def)
  then show ?thesis using d l by (simp add: char_at_def)
qed

lemma unat_nibble: "unat (drop_bit 28 v) = unat v div 2 ^ 28" for v :: u32
  by (simp only: unat_drop_bit_eq) (simp add: drop_bit_eq_div)

lemma top_nibble: "unat (drop_bit 28 v) < 16" for v :: u32
  using unat_u32_less[of v] unfolding unat_nibble by (simp add: less_mult_imp_div_less)

text \<open>The digits that the loop prints from \<open>v\<close> on, most significant first.\<close>

fun nibbles :: "nat \<Rightarrow> u32 \<Rightarrow> nat list" where
  "nibbles 0 v = []"
| "nibbles (Suc n) v = unat (drop_bit 28 v) # nibbles n (push_bit 4 v)"

lemma hex_loop_nibbles: "hex_loop n v m = monitor_write (map (\<lambda>d. hexdigits ! d) (nibbles n v)) m"
proof (induction n v m rule: hex_loop.induct)
  case (2 n v m)
  have h: "char_at hexdigits (unat (drop_bit 28 v)) = Some (hexdigits ! unat (drop_bit 28 v))" "hexdigits ! unat (drop_bit 28 v) \<noteq> 0"
    using hexdigit[OF top_nibble] by simp_all
  show ?case using h 2[OF h(1)] by (auto split: bind_splits)
qed simp

lemma nibbles_value: "n \<le> 8 \<Longrightarrow> foldl (\<lambda>a d. 16 * a + d) x (nibbles n v) = x * 16 ^ n + unat v div 2 ^ (32 - 4 * n)"
proof (induction n v arbitrary: x rule: nibbles.induct)
  case (1 v)
  have "unat v div 2 ^ 32 = 0" using unat_u32_less[of v] by simp
  then show ?case by simp
next
  case (2 n v)
  let ?a = "unat v div 2 ^ 28" and ?r = "unat v mod 2 ^ 28" and ?e = "28 - 4 * n"
  have e: "32 - 4 * n = 4 + ?e" "28 = ?e + 4 * n" "32 - 4 * Suc n = ?e" using 2(2) by simp_all
  have "unat (push_bit 4 v) = unat v * 16 mod 2 ^ 32" by (simp add: push_bit_eq_mult unat_word_ariths mult.commute)
  also have "\<dots> = ?r * 16" using mult_mod_right[of 16 "unat v" "2 ^ 28 :: nat"] by (simp add: mult.commute)
  finally have "unat (push_bit 4 v) div 2 ^ (32 - 4 * n) = ?r div 2 ^ ?e" unfolding e(1) by (simp add: power_add div_mult2_eq)
  moreover have "unat (drop_bit 28 v) = ?a" by (rule unat_nibble)
  moreover have "unat v = (?a * 2 ^ (4 * n)) * 2 ^ ?e + ?r"
  proof -
    have "4 * n + ?e = 28" using e(2) by simp
    then have p: "(2 :: nat) ^ (4 * n) * 2 ^ ?e = 2 ^ 28" by (simp only: power_add[symmetric])
    show ?thesis by (simp only: mult.assoc p div_mult_mod_eq)
  qed
  then have "unat v div 2 ^ ?e = ?a * 2 ^ (4 * n) + ?r div 2 ^ ?e" by (metis div_mult_self3 power_not_zero zero_neq_numeral)
  moreover have "(2 :: nat) ^ (4 * n) = 16 ^ n" by (simp add: power_mult)
  ultimately show ?case using 2 by (simp add: e(3) algebra_simps)
qed

lemma writeHex_digits:
  "\<exists>ds. monitor_writeHex v m = monitor_write ([0x30, 0x78] @ map (\<lambda>d. hexdigits ! d) ds) m \<and> length ds = 8 \<and> (\<forall>d\<in>set ds. d < 16)
     \<and> foldl (\<lambda>a d. 16 * a + d) 0 ds = unat v"
proof (intro exI[of _ "nibbles 8 v"] conjI)
  have "set (nibbles n v) \<subseteq> {..<16}" "length (nibbles n v) = n" for n by (induction n v rule: nibbles.induct) (auto simp: top_nibble)
  then show "length (nibbles 8 v) = 8" "\<forall>d\<in>set (nibbles 8 v). d < 16" by blast+
  show "monitor_writeHex v m = monitor_write ([0x30, 0x78] @ map (\<lambda>d. hexdigits ! d) (nibbles 8 v)) m"
    by (cases "monitor_put 0x30 m") (simp_all add: monitor_writeHex_def hex_loop_nibbles)
  show "foldl (\<lambda>a d. 16 * a + d) 0 (nibbles 8 v) = unat v" using nibbles_value[of 8 0 v] by simp
qed

end
