(* ===== verification/Idt.thy ===== *)
theory Idt
  imports IpcInv Monitor
begin

text \<open>
  Interrupts, \<^verbatim>\<open>src/kernel/task/idt.c\<close>: the table of gates, exceptions, interrupt requests and
  threads that wait for one. The entry stubs are assembly; their addresses are parameters. The stubs pass the
  number of an interrupt request as \<open>err_code\<close>.
\<close>

section \<open>Model\<close>

record idt_entry =
  base_lo :: u16
  sel :: u16
  always0 :: u8
  flags :: u8
  base_hi :: u16

record registers =
  rg_edi :: u32
  rg_esi :: u32
  rg_ebp :: u32
  rg_esp :: u32
  rg_ebx :: u32
  rg_edx :: u32
  rg_ecx :: u32
  rg_eax :: u32
  int_no :: u32
  err_code :: u32
  rg_eip :: u32

definition idt_setGate :: "u8 \<Rightarrow> u32 \<Rightarrow> u16 \<Rightarrow> u8 \<Rightarrow> idt_entry list \<Rightarrow> idt_entry list" where
  "idt_setGate num base sl fl es = es[unat num := \<lparr>base_lo = ucast (base AND 0xFFFF), sel = sl, always0 = 0, flags = fl OR 0x60,
     base_hi = ucast (drop_bit 16 base AND 0xFFFF)\<rparr>]"

text \<open>The gates in the order in which \<open>idt_init\<close> sets them: 32 exceptions, 16 interrupt requests, the system call.\<close>

definition idt_gates :: "(nat \<Rightarrow> u32) \<Rightarrow> (nat \<Rightarrow> u32) \<Rightarrow> u32 \<Rightarrow> (nat \<times> u32) list" where
  "idt_gates isr irq syscall64 = map (\<lambda>i. (i, isr i)) [0..<32] @ map (\<lambda>i. (32 + i, irq i)) [0..<16] @ [(64, syscall64)]"

definition irq_remap :: "(16 word \<times> u8) list" where
  "irq_remap = [(0x20, 0x11), (0xA0, 0x11), (0x21, 0x20), (0xA1, 0x28), (0x21, 0x04), (0xA1, 0x02), (0x21, 0x01), (0xA1, 0x01),
     (0x21, 0x0), (0xA1, 0x0)]"

definition idt_init :: "(nat \<Rightarrow> u32) \<Rightarrow> (nat \<Rightarrow> u32) \<Rightarrow> u32 \<Rightarrow> monitor \<Rightarrow> kernel \<Rightarrow> (idt_entry list \<times> monitor \<times> kernel) option" where
  "idt_init isr irq syscall64 m s = do {
     let es = replicate 256 \<lparr>base_lo = 0, sel = 0, always0 = 0, flags = 0, base_hi = 0\<rparr>;
     let s = outbs irq_remap s;
     let es = foldl (\<lambda>es (n, a). idt_setGate (of_nat n) a 0x08 0x8E es) es (idt_gates isr irq syscall64);
     m \<leftarrow> monitor_write [0x5B, 0x49, 0x44, 0x54, 0x5D, 0x20] m;
     Some (es, m, s) }"

text \<open>
  Exceptions. The faulting address is in a control register. \<^const>\<open>Inl\<close>: the handler returns to the thread; \<^const>\<open>Inr\<close>: the thread
  ended and another one continues. A panic is \<^const>\<open>None\<close>.
\<close>

definition idt_isrHandler :: "u32 \<Rightarrow> registers \<Rightarrow> cpu \<Rightarrow> kernel \<Rightarrow> (kernel + (cpu \<times> kernel)) option" where
  "idt_isrHandler cr2 regs r s = do {
     (bad, s) \<leftarrow> (if int_no regs = 14 then do { (v, s) \<leftarrow> paging_fault cr2 (err_code regs) (rg_eip regs) s; Some (v \<noteq> 0, s) } else Some (True, s));
     if bad then do {
       v \<leftarrow> tasking_handleException (int_no regs) (rg_eip regs) r s;
       case v of Inl z \<Rightarrow> (if z = 0 then None else Some (Inl s)) | Inr x \<Rightarrow> Some (Inr x) }
     else Some (Inl s) }"

text \<open>The loop over the waiters of interrupt request \<open>n\<close>, the last one that came first.\<close>

fun wake_waiters :: "nat \<Rightarrow> ptr list \<Rightarrow> kernel \<Rightarrow> kernel option" where
  "wake_waiters n [] s = Some (s\<lparr>irq_wakeup := (irq_wakeup s)(n := [])\<rparr>)"
| "wake_waiters n (t # ts) s = do {
     s \<leftarrow> thread_wakeUp t s;
     wake_waiters n ts (s\<lparr>irq_wakeup := (irq_wakeup s)(n := ts)\<rparr>) }"

definition idt_irqHandler :: "registers \<Rightarrow> cpu \<Rightarrow> kernel \<Rightarrow> (cpu \<times> kernel) option" where
  "idt_irqHandler regs r s = do {
     let n = unat (err_code regs);
     let doSwitch = (n = 0 \<or> (n < 16 \<and> irq_wakeup s n \<noteq> []));
     let s = (if err_code regs > 7 then outb 0xA0 0x20 s else s);
     let s = outb 0x20 0x20 s;
     if n \<ge> 16 then None
     else do {
       s \<leftarrow> wake_waiters n (irq_wakeup s n) s;
       s \<leftarrow> (case irq_handlers s n of No_handler \<Rightarrow> Some s | Timer_callback \<Rightarrow> timer_callback s);
       if doSwitch then tasking_switch r s else Some (r, s) } }"

definition idt_handleIrq :: "u32 \<Rightarrow> irq_handler \<Rightarrow> kernel \<Rightarrow> kernel" where
  "idt_handleIrq number h s =
     (if sint number < 16 \<and> sint number \<ge> 0 then s\<lparr>irq_handlers := (irq_handlers s)(unat number := h)\<rparr> else s)"

text \<open>The number of a request that may not be waited for is ignored.\<close>

definition idt_waitIrq :: "u32 \<Rightarrow> cpu \<Rightarrow> kernel \<Rightarrow> (cpu \<times> kernel) option" where
  "idt_waitIrq number r s = do {
     pl \<leftarrow> (if sint number < 16 \<and> sint number \<ge> 0 then proc_priv s else Some PL_UNKNOWN);
     if sint number < 16 \<and> sint number \<ge> 0 \<and> pl \<le> PL_DRIVER then
       thread_goInactive r (s\<lparr>irq_wakeup := (irq_wakeup s)(unat number := current_thread s # irq_wakeup s (unat number))\<rparr>)
     else Some (r, s) }"

section \<open>The gates\<close>

definition gate_base :: "idt_entry \<Rightarrow> u32" where
  "gate_base e = push_bit 16 (ucast (base_hi e)) OR ucast (base_lo e)"

lemma gate_base_setGate:
  "gate_base \<lparr>base_lo = ucast (base AND 0xFFFF), sel = sl, always0 = z, flags = fl, base_hi = ucast (drop_bit 16 base AND 0xFFFF)\<rparr> = base"
proof -
  have m: "(0xFFFF :: u32) = mask 16" by (simp add: mask_eq_exp_minus_1)
  show ?thesis unfolding gate_base_def idt_entry.simps m
    by (rule bit_word_eqI) (auto simp: bit_simps)
qed

lemma gates_lookup:
  assumes "distinct (map fst gs)" and "\<forall>g\<in>set gs. fst g < 256" and "length es = 256"
  shows "foldl (\<lambda>es (n, a). idt_setGate (of_nat n) a sl fl es) es gs ! i =
     (case map_of gs i of None \<Rightarrow> es ! i
      | Some a \<Rightarrow> \<lparr>base_lo = ucast (a AND 0xFFFF), sel = sl, always0 = 0, flags = fl OR 0x60, base_hi = ucast (drop_bit 16 a AND 0xFFFF)\<rparr>)"
  using assms
proof (induction gs arbitrary: es)
  case (Cons g gs)
  obtain n a where g: "g = (n, a)" by fastforce
  have n: "unat (of_nat n :: u8) = n" "n < length es" using Cons.prems(2,3) g by (simp_all add: unat_of_nat)
  show ?case
  proof (cases "i = n")
    case True
    then have "map_of gs i = None" using Cons.prems(1) g by (simp add: map_of_eq_None_iff)
    then show ?thesis using Cons.IH[of "idt_setGate (of_nat n) a sl fl es"] Cons.prems n True g by (simp add: idt_setGate_def)
  next
    case False
    then show ?thesis using Cons.IH[of "idt_setGate (of_nat n) a sl fl es"] Cons.prems n g
      by (simp add: idt_setGate_def split: option.splits)
  qed
qed simp

text \<open>
  C27. The interrupt table: after \<open>idt_init\<close> the gates 0 to 31, 32 to 47 and 64 lead to the stubs of the
  exceptions, of the interrupt requests and of the system call, each in the kernel's code
  segment, and all other gates are absent. Every gate that is present has descriptor privilege 3, that is user code
  may raise it, also those of exceptions and interrupt requests.
\<close>

theorem idt_table:
  assumes "on_screen m"
  shows "\<exists>es m' s'. idt_init isr irq syscall64 m s = Some (es, m', s') \<and> length es = 256 \<and> on_screen m'
     \<and> (\<forall>i<32. gate_base (es ! i) = isr i) \<and> (\<forall>i<16. gate_base (es ! (32 + i)) = irq i) \<and> gate_base (es ! 64) = syscall64
     \<and> (\<forall>i<256. if i < 48 \<or> i = 64 then sel (es ! i) = 0x08 \<and> flags (es ! i) = 0xEE \<and> drop_bit 5 (flags (es ! i)) AND 3 = 3 else flags (es ! i) = 0)
     \<and> port_out s' = port_out s @ irq_remap"
proof -
  let ?es = "replicate 256 \<lparr>base_lo = 0, sel = 0, always0 = 0, flags = 0, base_hi = 0\<rparr>" and ?gs = "idt_gates isr irq syscall64"
  define es where "es = foldl (\<lambda>es (n, a). idt_setGate (of_nat n) a 0x08 0x8E es) ?es ?gs"
  obtain m' where m': "monitor_write [0x5B, 0x49, 0x44, 0x54, 0x5D, 0x20] m = Some m'" "on_screen m'" using monitor_write_ok[OF assms] by blast
  have "length (foldl (\<lambda>es (n, a). idt_setGate (of_nat n) a sl fl es) es gs) = length es" for sl fl es gs
    by (induction gs arbitrary: es) (auto simp: idt_setGate_def)
  then have len: "length es = 256" by (simp add: es_def)
  have d: "distinct (map fst ?gs)" by (auto simp: idt_gates_def comp_def distinct_map inj_on_def)
  have r: "\<forall>g\<in>set ?gs. fst g < 256" by (auto simp: idt_gates_def)
  have in_gs: "i < 32 \<Longrightarrow> (i, isr i) \<in> set ?gs" "i < 16 \<Longrightarrow> (32 + i, irq i) \<in> set ?gs" "(64, syscall64) \<in> set ?gs" for i
    by (auto simp: idt_gates_def)
  have look: "es ! i = (case map_of ?gs i of None \<Rightarrow> ?es ! i
      | Some a \<Rightarrow> \<lparr>base_lo = ucast (a AND 0xFFFF), sel = 8, always0 = 0, flags = 0x8E OR 0x60, base_hi = ucast (drop_bit 16 a AND 0xFFFF)\<rparr>)" for i
    unfolding es_def by (rule gates_lookup[OF d r]) simp
  have g: "gate_base (es ! i) = a \<and> sel (es ! i) = 8 \<and> flags (es ! i) = 0xEE" if "(i, a) \<in> set ?gs" for i a
    using that d by (simp add: look map_of_is_SomeI gate_base_setGate)
  have "(0xEE :: u8) = 0x8E OR 0x60" "drop_bit 5 (0xEE :: u8) AND 3 = 3" by (simp_all add: drop_bit_eq_div)
  have dpl: "if i < 48 \<or> i = 64 then sel (es ! i) = 8 \<and> flags (es ! i) = 0xEE \<and> drop_bit 5 (flags (es ! i)) AND 3 = 3 else flags (es ! i) = 0"
    if "i < 256" for i
  proof (cases "i < 48 \<or> i = 64")
    case True
    have "\<exists>a. (i, a) \<in> set ?gs"
    proof (cases "32 \<le> i \<and> i < 48")
      case True
      then have "32 \<le> i" "i < 48" by simp_all
      then have "i - 32 < 16" "32 + (i - 32) = i" by linarith+
      then show ?thesis using in_gs(2)[of "i - 32"] by auto
    qed (use True in_gs(1)[of i] in_gs(3) in auto)
    then show ?thesis using g True by (auto simp: drop_bit_eq_div)
  next
    case False
    then have "map_of ?gs i = None" by (auto simp: map_of_eq_None_iff idt_gates_def)
    then show ?thesis using False that by (simp add: look)
  qed
  have e: "idt_init isr irq syscall64 m s = Some (es, m', outbs irq_remap s)" using m' by (simp add: idt_init_def Let_def es_def)
  have "port_out (outbs irq_remap s) = port_out s @ irq_remap" by (simp add: outbs_log)
  moreover have "\<forall>i<32. gate_base (es ! i) = isr i" "\<forall>i<16. gate_base (es ! (32 + i)) = irq i" "gate_base (es ! 64) = syscall64"
    using g in_gs by blast+
  ultimately show ?thesis using e len m'(2) dpl by (intro exI[of _ es] exI[of _ m'] exI[of _ "outbs irq_remap s"] conjI allI impI) blast+
qed

theorem idt_table_witness:
  "\<exists>es m' s'. idt_init (\<lambda>i. 0xE0100000 + of_nat i) (\<lambda>i. 0xE0200000 + of_nat i) 0xE0300000 (monitor0 (replicate 2000 0)) sched_demo = Some (es, m', s')
     \<and> gate_base (es ! 14) = 0xE010000E \<and> gate_base (es ! 64) = 0xE0300000 \<and> flags (es ! 14) = 0xEE"
proof -
  have "on_screen (monitor0 (replicate 2000 0))" by (simp add: on_screen_def monitor0_def)
  from idt_table[OF this, of "\<lambda>i. 0xE0100000 + of_nat i" "\<lambda>i. 0xE0200000 + of_nat i" "0xE0300000" sched_demo]
  show ?thesis by (elim exE conjE) fastforce
qed

section \<open>Interrupt requests\<close>

text \<open>The states of threads do not change in a context switch.\<close>

lemma tasking_switch_state:
  assumes "tasking_switch r s = Some (r', s')"
  shows "thr_state s' = thr_state s"
proof -
  obtain s1 where s1: "leave_current r s = Some s1" "enter_next s1 = Some (r', s')" using assms by (auto simp: tasking_switch_def split: bind_splits if_splits)
  have "thr_state s1 = thr_state s" using s1(1) by (auto simp: leave_current_def split: bind_splits if_splits dest!: upd_thr_state enqueue_state)
  moreover have "thr_state s' = thr_state s1" using deref_cong(2)[OF enter_thrs[OF s1(2)]] by (simp add: thr_state_def fun_eq_iff)
  ultimately show ?thesis by simp
qed

lemma ready_switch:
  assumes "tasking_switch r s = Some (r', s')" and "ready c s t"
  shows "ready (current_thread s') s' t \<or> current_thread s' = t"
proof -
  have "thr_state s' t = Some TS_RUNNING" using assms(2) tasking_switch_state[OF assms(1)] by (auto simp: thr_state_def ready_def)
  then show ?thesis using assms(2) switch_only_fields[OF tasking_switch_only[OF assms(1)]] by (auto simp: thr_state_def ready_def)
qed

lemma wake_waiters_ok:
  assumes "sched_inv c s Q" and "\<forall>t\<in>set ts. live s t \<and> t \<noteq> c"
  shows "\<exists>s' Q'. wake_waiters n ts s = Some s' \<and> sched_inv c s' Q' \<and> current_thread s' = current_thread s \<and> processes s' = processes s
     \<and> irq_wakeup s' = (irq_wakeup s)(n := []) \<and> sleeping_threads s' = sleeping_threads s \<and> idle_thread s' = idle_thread s
     \<and> (\<forall>x. live s' x = live s x) \<and> (\<forall>x. ready c s x \<longrightarrow> ready c s' x) \<and> (\<forall>t\<in>set ts. waiting s t \<longrightarrow> t \<noteq> idle_thread s \<longrightarrow> ready c s' t)
     \<and> irq_handlers s' = irq_handlers s \<and> frequency s' = frequency s \<and> port_out s' = port_out s"
  using assms
proof (induction ts arbitrary: s Q)
  case Nil
  then show ?case by auto
next
  case (Cons t ts)
  have "live s t" "t \<noteq> c" using Cons.prems(2) by auto
  then obtain s1 Q1 where s1: "thread_wakeUp t s = Some s1" "sched_inv c s1 Q1" "current_thread s1 = current_thread s"
      "processes s1 = processes s" "irq_wakeup s1 = irq_wakeup s" "sleeping_threads s1 = sleeping_threads s" "\<forall>y. live s1 y = live s y"
      "waiting s t \<and> t \<noteq> idle_thread s \<longrightarrow> ready c s1 t" "\<forall>y. ready c s y \<longrightarrow> ready c s1 y"
      "idle_thread s1 = idle_thread s" "\<forall>y. waiting s y \<longrightarrow> waiting s1 y \<or> y = t"
    using thread_wakeUp_ok[OF Cons.prems(1)] by blast
  have k: "irq_handlers s1 = irq_handlers s" "frequency s1 = frequency s" "port_out s1 = port_out s"
    using wakeUp_only[OF s1(1)] by (auto simp: switch_only_def)
  let ?s2 = "s1\<lparr>irq_wakeup := (irq_wakeup s1)(n := ts)\<rparr>"
  have i2: "sched_inv c ?s2 Q1" "\<forall>t\<in>set ts. live ?s2 t \<and> t \<noteq> c" using s1(2,7) Cons.prems(2) by simp_all
  obtain s' Q' where s': "wake_waiters n ts ?s2 = Some s'" "sched_inv c s' Q'" "current_thread s' = current_thread ?s2" "processes s' = processes ?s2"
      "irq_wakeup s' = (irq_wakeup ?s2)(n := [])" "sleeping_threads s' = sleeping_threads ?s2" "idle_thread s' = idle_thread ?s2"
      "\<forall>x. live s' x = live ?s2 x" "\<forall>x. ready c ?s2 x \<longrightarrow> ready c s' x" "\<forall>t\<in>set ts. waiting ?s2 t \<longrightarrow> t \<noteq> idle_thread ?s2 \<longrightarrow> ready c s' t"
      "irq_handlers s' = irq_handlers ?s2" "frequency s' = frequency ?s2" "port_out s' = port_out ?s2"
    using Cons.IH[OF i2] by (elim exE conjE) blast
  have "ready c s' y" if y: "y \<in> set (t # ts)" "waiting s y" "y \<noteq> idle_thread s" for y
  proof (cases "y = t")
    case True
    then show ?thesis using s1(8) s'(9) y by auto
  next
    case False
    then show ?thesis using y s'(10) s1(10,11) by auto
  qed
  then show ?case using s1 s' k by (intro exI[of _ s'] exI[of _ Q']) auto
qed

lemma timer_callback_ok:
  assumes I: "sched_inv (current_thread s) s Q" and t: "by_time (sleeping_threads s)" "sleepers_ok s" "frequency s \<noteq> 0"
  shows "\<exists>s' Q'. timer_callback s = Some s' \<and> sched_inv (current_thread s') s' Q' \<and> current_thread s' = current_thread s
     \<and> processes s' = processes s \<and> irq_wakeup s' = irq_wakeup s \<and> (\<forall>x. ready (current_thread s) s x \<longrightarrow> ready (current_thread s) s' x)"
proof -
  let ?s = "count_tick s"
  have f: "sched_inv (current_thread s) ?s Q" "sleeping_threads ?s = sleeping_threads s" "current_thread ?s = current_thread s" "processes ?s = processes s"
    "frequency ?s = frequency s" "irq_wakeup ?s = irq_wakeup s" "live ?s x = live s x" "ready c ?s x = ready c s x" for x c
    using I by (simp_all add: count_tick_def Let_def)
  obtain time where time: "timer_time ?s = Some time" using t(3) f(5) by (simp add: timer_time_def)
  have "\<forall>x\<in>set (sleeping_threads s). live ?s (snd x) \<and> snd x \<noteq> current_thread s" using t(2) f by (simp add: sleepers_ok_def)
  from wakeUp_due_ok[OF f(1) t(1) this f(3), of time] show ?thesis
    using time f by (simp add: timer_callback_def timer_wakeUpSleepingThreads_def) metis
qed

text \<open>
  C25. An interrupt request: while every waiting thread exists and the sleepers are in order, request \<open>n\<close> is handled
  without a failure. All
  threads that waited for it leave the list and can run, or run already; if there was one or if this
  is the timer, the scheduler runs; the waiters of other requests stay and the scheduling
  invariant is kept.
\<close>

theorem irq_wakes:
  assumes "sched_inv (current_thread s) s Q" and "processes s \<noteq> 0" and "n < 16" and "err_code regs = of_nat n"
    and "\<forall>t\<in>set (irq_wakeup s n). live s t \<and> t \<noteq> current_thread s"
    and "irq_handlers s n = Timer_callback \<longrightarrow> by_time (sleeping_threads s) \<and> sleepers_ok s \<and> frequency s \<noteq> 0"
  shows "\<exists>r' s' Q'. idt_irqHandler regs r s = Some (r', s') \<and> irq_wakeup s' = (irq_wakeup s)(n := []) \<and> sched_inv (current_thread s') s' Q'
     \<and> (\<forall>t\<in>set (irq_wakeup s n). waiting s t \<longrightarrow> t \<noteq> idle_thread s \<longrightarrow> ready (current_thread s') s' t \<or> current_thread s' = t)
     \<and> (n \<noteq> 0 \<and> irq_wakeup s n = [] \<longrightarrow> current_thread s' = current_thread s \<and> r' = r)"
proof -
  let ?c = "current_thread s"
  have n: "unat (err_code regs) = n" using assms(3,4) by (simp add: unat_of_nat)
  define s0 where "s0 = outb 0x20 0x20 (if err_code regs > 7 then outb 0xA0 0x20 s else s)"
  have f: "sched_inv ?c s0 Q" "irq_wakeup s0 = irq_wakeup s" "current_thread s0 = ?c" "processes s0 = processes s" "irq_handlers s0 = irq_handlers s"
      "sleeping_threads s0 = sleeping_threads s" "frequency s0 = frequency s" "idle_thread s0 = idle_thread s"
      "live s0 t = live s t" "waiting s0 t = waiting s t" for t
    using assms(1) by (simp_all add: s0_def outb_def)
  have "\<forall>t\<in>set (irq_wakeup s n). live s0 t \<and> t \<noteq> ?c" using assms(5) f(9) by simp
  from wake_waiters_ok[OF f(1) this, of n] obtain s1 Q1 where s1: "wake_waiters n (irq_wakeup s n) s0 = Some s1" "sched_inv ?c s1 Q1"
      "current_thread s1 = current_thread s0" "processes s1 = processes s0" "irq_wakeup s1 = (irq_wakeup s0)(n := [])"
      "sleeping_threads s1 = sleeping_threads s0" "\<forall>x. live s1 x = live s0 x"
      "\<forall>t\<in>set (irq_wakeup s n). waiting s0 t \<longrightarrow> t \<noteq> idle_thread s0 \<longrightarrow> ready ?c s1 t" "irq_handlers s1 = irq_handlers s0" "frequency s1 = frequency s0"
    by (elim exE conjE) blast
  have "\<exists>s2 Q2. (case irq_handlers s1 n of No_handler \<Rightarrow> Some s1 | Timer_callback \<Rightarrow> timer_callback s1) = Some s2 \<and> sched_inv ?c s2 Q2
      \<and> current_thread s2 = ?c \<and> processes s2 = processes s1 \<and> irq_wakeup s2 = irq_wakeup s1 \<and> (\<forall>x. ready ?c s1 x \<longrightarrow> ready ?c s2 x)"
  proof (cases "irq_handlers s1 n")
    case No_handler
    then show ?thesis using s1(2,3) f(3) by auto
  next
    case Timer_callback
    then have "by_time (sleeping_threads s1)" "sleepers_ok s1" "frequency s1 \<noteq> 0"
      using assms(6) s1 f by (auto simp: sleepers_ok_def)
    then show ?thesis using timer_callback_ok[of s1 Q1] s1(2,3) f(3) Timer_callback by auto
  qed
  then obtain s2 Q2 where s2: "(case irq_handlers s1 n of No_handler \<Rightarrow> Some s1 | Timer_callback \<Rightarrow> timer_callback s1) = Some s2" "sched_inv ?c s2 Q2"
      "current_thread s2 = ?c" "processes s2 = processes s1" "irq_wakeup s2 = irq_wakeup s1" "\<forall>x. ready ?c s1 x \<longrightarrow> ready ?c s2 x" by blast
  let ?sw = "n = 0 \<or> irq_wakeup s n \<noteq> []"
  have e: "idt_irqHandler regs r s = (if ?sw then tasking_switch r s2 else Some (r, s2))"
    using s1(1) s2(1) f(2) assms(3) unfolding idt_irqHandler_def n Let_def s0_def[symmetric] by simp
  have w: "ready ?c s2 t" if "t \<in> set (irq_wakeup s n)" "waiting s t" "t \<noteq> idle_thread s" for t
    using that s1(8) s2(6) f(8,10) by simp
  show ?thesis
  proof (cases ?sw)
    case True
    obtain r' s' Q' where s': "tasking_switch r s2 = Some (r', s')" "sched_inv (current_thread s') s' Q'"
      using tasking_switch_ok[of s2 Q2 r] s2(2-4) s1(4) f(4) assms(2) by auto
    have "irq_wakeup s' = (irq_wakeup s)(n := [])" using switch_only_fields(2)[OF tasking_switch_only[OF s'(1)]] s2(5) s1(5) f(2) by simp
    then show ?thesis using e True s' w ready_switch[OF s'(1)] by (intro exI[of _ r'] exI[of _ s'] exI[of _ Q']) auto
  next
    case False
    then show ?thesis using e s2 s1(5) f(2) by (intro exI[of _ r] exI[of _ s2] exI[of _ Q2]) auto
  qed
qed

text \<open>Thread 8 of the previous example waits for request 1, the keyboard, while thread 6 runs.\<close>

definition irq_demo :: kernel where
  "irq_demo = (rpc_demo 6)\<lparr>irq_wakeup := (\<lambda>_. [])(1 := [8])\<rparr>"

definition irq_regs :: registers where
  "irq_regs = \<lparr>rg_edi = 0, rg_esi = 0, rg_ebp = 0, rg_esp = 0, rg_ebx = 0, rg_edx = 0, rg_ecx = 0, rg_eax = 0, int_no = 33, err_code = 1, rg_eip = 0\<rparr>"

theorem irq_wakes_witness:
  "\<exists>r' s'. idt_irqHandler irq_regs \<lparr>esp = 0, ebp = 0, eip = 0\<rparr> irq_demo = Some (r', s') \<and> irq_wakeup s' 1 = []
     \<and> (ready (current_thread s') s' 8 \<or> current_thread s' = 8)"
proof -
  have "sched_inv (current_thread irq_demo) irq_demo ((\<lambda>_. [])(3 := [2, 3]))" "processes irq_demo \<noteq> 0" "(1 :: nat) < 16" "err_code irq_regs = of_nat 1"
      "\<forall>t\<in>set (irq_wakeup irq_demo 1). live irq_demo t \<and> t \<noteq> current_thread irq_demo"
      "irq_handlers irq_demo 1 = Timer_callback \<longrightarrow> by_time (sleeping_threads irq_demo) \<and> sleepers_ok irq_demo \<and> frequency irq_demo \<noteq> 0"
    using rpc_inv[of 6] by (simp_all add: irq_demo_def irq_regs_def rpc_fields live_def rpc_threads) (simp add: rpc_demo_def sched_demo_def kernel0_def)
  note h = irq_wakes[OF this, of "\<lparr>esp = 0, ebp = 0, eip = 0\<rparr>"]
  have "irq_wakeup irq_demo 1 = [8]" "waiting irq_demo 8" "idle_thread irq_demo = 4"
    by (simp_all add: irq_demo_def waiting_def rpc_threads rpc_thread_def rpc_fields)
  then show ?thesis using h by fastforce
qed

end
