(* ===== verification/Syscall.thy ===== *)
theory Syscall
  imports Idt
begin

text \<open>
  System calls: the table and the wrappers of \<^verbatim>\<open>src/kernel/task/syscall.c\<close>, the handler of interrupt 64 in
  \<^verbatim>\<open>src/kernel/task/idt.c\<close>, and on the other side the functions of \<^verbatim>\<open>src/library/gc/syscall.c\<close> that
  put the number and the arguments into registers. Theorem: both sides agree.
\<close>

section \<open>Model\<close>

text \<open>What a call reads from and writes to the memory of its process.\<close>

record user_mem =
  get_send :: "u32 \<Rightarrow> user_sendrequest"
  get_str :: "u32 \<Rightarrow> u8 list"

datatype user_write = Write_request u32 user_request | Write_sendrequest u32 user_sendrequest

text \<open>
  How a call ends: with a value for \<open>eax\<close>; with none; with an unspecified one (\<open>printk_sc\<close> uses the value of a
  function that returns none); or on another thread, or on the same one if it was chosen again,
  whose registers are loaded.
\<close>

datatype sys_result = Value u32 | Void | Junk | Switched cpu

type_synonym sys_handler = "user_mem \<Rightarrow> registers \<Rightarrow> cpu \<Rightarrow> monitor \<Rightarrow> kernel
    \<Rightarrow> (sys_result \<times> user_write option \<times> monitor \<times> kernel) option"

definition thread_exit_sc :: sys_handler where
  "thread_exit_sc um g r m s = do { (r, s) \<leftarrow> thread_exit r s; Some (Switched r, None, m, s) }"

definition schedule_sc :: sys_handler where
  "schedule_sc um g r m s = do { (r, s) \<leftarrow> tasking_switch r s; Some (Switched r, None, m, s) }"

definition thread_sleep_sc :: sys_handler where
  "thread_sleep_sc um g r m s = do { (r, s) \<leftarrow> thread_sleep (rg_ebx g) r s; Some (Switched r, None, m, s) }"

definition process_exit_sc :: sys_handler where
  "process_exit_sc um g r m s = do { (r, s) \<leftarrow> process_exit (rg_ebx g) r s; Some (Switched r, None, m, s) }"

definition printk_sc :: sys_handler where
  "printk_sc um g r m s = do { m \<leftarrow> monitor_write (get_str um (rg_ebx g)) m; Some (Junk, None, m, s) }"

definition irq_wait_sc :: sys_handler where
  "irq_wait_sc um g r m s = do { (r, s) \<leftarrow> idt_waitIrq (rg_ebx g) r s; Some (Switched r, None, m, s) }"

definition proc_priv_sc :: sys_handler where
  "proc_priv_sc um g r m s = do { v \<leftarrow> proc_priv s; Some (Value v, None, m, s) }"

definition shm_create_sc :: sys_handler where
  "shm_create_sc um g r m s = do { (v, s) \<leftarrow> shm_create (rg_ebx g) (rg_ecx g) s; Some (Value v, None, m, s) }"

definition shm_delete_sc :: sys_handler where
  "shm_delete_sc um g r m s = do { (v, s) \<leftarrow> shm_delete (rg_ebx g) s; Some (Value v, None, m, s) }"

definition object_create_sc :: sys_handler where
  "object_create_sc um g r m s = do { (v, s) \<leftarrow> object_create s; Some (Value v, None, m, s) }"

definition object_owned_sc :: sys_handler where
  "object_owned_sc um g r m s = do { v \<leftarrow> object_owned (rg_ebx g) s; Some (Value v, None, m, s) }"

definition object_close_sc :: sys_handler where
  "object_close_sc um g r m s = do { s \<leftarrow> object_close (rg_ebx g) s; Some (Void, None, m, s) }"

definition request_get_sc :: sys_handler where
  "request_get_sc um g r m s = do {
     (v, s) \<leftarrow> request_get (rg_ebx g) (rg_edx g \<noteq> 0) r s;
     Some (case v of Wait r \<Rightarrow> (Switched r, None, m, s) | Return (e, u) \<Rightarrow> (Value e, map_option (Write_request (rg_ecx g)) u, m, s)) }"

definition request_has_sc :: sys_handler where
  "request_has_sc um g r m s = do { v \<leftarrow> request_has (rg_ebx g) s; Some (Value v, None, m, s) }"

definition request_answer_sc :: sys_handler where
  "request_answer_sc um g r m s = do { s \<leftarrow> request_answer (rg_ebx g) (rg_ecx g) (rg_edx g) (rg_esi g) s; Some (Void, None, m, s) }"

definition request_mapShm_sc :: sys_handler where
  "request_mapShm_sc um g r m s = do { (v, s) \<leftarrow> request_mapShm (rg_ebx g) (rg_ecx g) (sint (rg_edx g)) s; Some (Value v, None, m, s) }"

definition request_sc :: sys_handler where
  "request_sc um g r m s = do {
     (v, s) \<leftarrow> request (rg_ebx g) (get_send um (rg_ecx g)) r s;
     Some (case v of Wait r \<Rightarrow> (Switched r, None, m, s) | Return e \<Rightarrow> (Value e, None, m, s)) }"

definition send_msg_sc :: sys_handler where
  "send_msg_sc um g r m s = do {
     (v, s) \<leftarrow> send_msg (rg_ebx g) (get_send um (rg_ecx g)) r s;
     Some (case v of Wait r \<Rightarrow> (Switched r, None, m, s) | Return (e, u) \<Rightarrow> (Value e, Some (Write_sendrequest (rg_ecx g) u), m, s)) }"

definition proc_setheap_sc :: sys_handler where
  "proc_setheap_sc um g r m s = do { (v, s) \<leftarrow> process_setheapseg (rg_ebx g) (rg_ecx g) s; Some (Value v, None, m, s) }"

definition thread_new_sc :: sys_handler where
  "thread_new_sc um g r m s = do {
     p \<leftarrow> current_process s;
     (t, s) \<leftarrow> thread_new p (rg_ebx g) (rg_ecx g) s;
     Some (Void, None, m, s) }"

definition NUMBER_OF_SYSCALLS :: nat where "NUMBER_OF_SYSCALLS = 32"

definition syscalls :: "sys_handler option list" where
  "syscalls = [Some thread_exit_sc,
     Some schedule_sc,
     Some thread_sleep_sc,
     Some process_exit_sc,
     Some printk_sc,
     Some thread_new_sc,
     Some irq_wait_sc,
     Some proc_priv_sc,
     Some shm_create_sc,
     Some shm_delete_sc,
     Some object_create_sc,
     Some object_owned_sc,
     Some object_close_sc,
     Some request_get_sc,
     Some request_has_sc,
     Some request_answer_sc,
     Some request_mapShm_sc,
     Some request_sc,
     Some send_msg_sc,
     Some proc_setheap_sc] @ replicate 12 None"

definition idt_syscallHandler :: sys_handler where
  "idt_syscallHandler um g r m s =
     (if unat (rg_eax g) < NUMBER_OF_SYSCALLS then
        case syscalls ! unat (rg_eax g) of Some h \<Rightarrow> h um g r m s | None \<Rightarrow> Some (Void, None, m, s)
      else Some (Void, None, m, s))"

subsection \<open>The library\<close>

text \<open>The registers when \<^verbatim>\<open>int $64\<close> is executed.\<close>

definition call :: "u32 \<Rightarrow> u32 \<Rightarrow> u32 \<Rightarrow> u32 \<Rightarrow> u32 \<Rightarrow> u32 \<Rightarrow> registers \<Rightarrow> registers" where
  "call a b c d e f g = g\<lparr>rg_eax := a, rg_ebx := b, rg_ecx := c, rg_edx := d, rg_esi := e, rg_edi := f\<rparr>"

definition usr_thread_exit :: "registers \<Rightarrow> registers" where
  "usr_thread_exit g = call 0 0 0 0 0 0 g"

definition usr_schedule :: "registers \<Rightarrow> registers" where
  "usr_schedule g = call 1 0 0 0 0 0 g"

definition usr_thread_sleep :: "u32 \<Rightarrow> registers \<Rightarrow> registers" where
  "usr_thread_sleep time g = call 2 time 0 0 0 0 g"

definition usr_process_exit :: "u32 \<Rightarrow> registers \<Rightarrow> registers" where
  "usr_process_exit retval g = call 3 retval 0 0 0 0 g"

definition usr_printk :: "u32 \<Rightarrow> registers \<Rightarrow> registers" where
  "usr_printk str g = call 4 str 0 0 0 0 g"

definition usr_thread_new :: "u32 \<Rightarrow> u32 \<Rightarrow> registers \<Rightarrow> registers" where
  "usr_thread_new ep data g = call 5 ep data 0 0 0 g"

definition usr_irq_wait :: "u32 \<Rightarrow> registers \<Rightarrow> registers" where
  "usr_irq_wait number g = call 6 number 0 0 0 0 g"

definition usr_proc_priv :: "registers \<Rightarrow> registers" where
  "usr_proc_priv g = call 7 0 0 0 0 0 g"

definition usr_shm_create :: "u32 \<Rightarrow> u32 \<Rightarrow> registers \<Rightarrow> registers" where
  "usr_shm_create offset len g = call 8 offset len 0 0 0 g"

definition usr_shm_delete :: "u32 \<Rightarrow> registers \<Rightarrow> registers" where
  "usr_shm_delete offset g = call 9 offset 0 0 0 0 g"

definition usr_object_create :: "registers \<Rightarrow> registers" where
  "usr_object_create g = call 10 0 0 0 0 0 g"

definition usr_object_owned :: "u32 \<Rightarrow> registers \<Rightarrow> registers" where
  "usr_object_owned i g = call 11 i 0 0 0 0 g"

definition usr_object_close :: "u32 \<Rightarrow> registers \<Rightarrow> registers" where
  "usr_object_close i g = call 12 i 0 0 0 0 g"

definition usr_request_get :: "u32 \<Rightarrow> u32 \<Rightarrow> u32 \<Rightarrow> registers \<Rightarrow> registers" where
  "usr_request_get i rq wait g = call 13 i rq wait 0 0 g"

definition usr_request_has :: "u32 \<Rightarrow> registers \<Rightarrow> registers" where
  "usr_request_has i g = call 14 i 0 0 0 0 g"

definition usr_request_answer :: "u32 \<Rightarrow> u32 \<Rightarrow> u32 \<Rightarrow> u32 \<Rightarrow> registers \<Rightarrow> registers" where
  "usr_request_answer i a a2 err g = call 15 i a a2 err 0 g"

definition usr_request_mapShm :: "u32 \<Rightarrow> u32 \<Rightarrow> u32 \<Rightarrow> registers \<Rightarrow> registers" where
  "usr_request_mapShm i offset number g = call 16 i offset number 0 0 g"

definition usr_request :: "u32 \<Rightarrow> u32 \<Rightarrow> registers \<Rightarrow> registers" where
  "usr_request i rq g = call 17 i rq 0 0 0 g"

definition usr_send_msg :: "u32 \<Rightarrow> u32 \<Rightarrow> registers \<Rightarrow> registers" where
  "usr_send_msg i rq g = call 18 i rq 0 0 0 g"

definition usr_proc_setheap :: "u32 \<Rightarrow> u32 \<Rightarrow> registers \<Rightarrow> registers" where
  "usr_proc_setheap start stop g = call 19 start stop 0 0 0 g"

section \<open>The two sides agree\<close>

lemmas sc_defs = thread_exit_sc_def schedule_sc_def thread_sleep_sc_def process_exit_sc_def printk_sc_def thread_new_sc_def irq_wait_sc_def proc_priv_sc_def shm_create_sc_def shm_delete_sc_def object_create_sc_def object_owned_sc_def object_close_sc_def request_get_sc_def request_has_sc_def request_answer_sc_def request_mapShm_sc_def request_sc_def send_msg_sc_def proc_setheap_sc_def
lemmas usr_defs = usr_thread_exit_def usr_schedule_def usr_thread_sleep_def usr_process_exit_def usr_printk_def usr_thread_new_def usr_irq_wait_def usr_proc_priv_def usr_shm_create_def usr_shm_delete_def usr_object_create_def usr_object_owned_def usr_object_close_def usr_request_has_def usr_request_answer_def usr_request_mapShm_def usr_proc_setheap_def usr_request_get_def usr_request_def usr_send_msg_def

lemma call_fields [simp]: "rg_eax (call a b c d e f g) = a" "rg_ebx (call a b c d e f g) = b" "rg_ecx (call a b c d e f g) = c"
  "rg_edx (call a b c d e f g) = d" "rg_esi (call a b c d e f g) = e"
  by (simp_all add: call_def)

text \<open>The entries of the table.\<close>

lemma syscall_call:
  assumes "i < 32"
  shows "idt_syscallHandler um (call (of_nat i) b c d e f g) r m s =
     (case syscalls ! i of Some h \<Rightarrow> h um (call (of_nat i) b c d e f g) r m s | None \<Rightarrow> Some (Void, None, m, s))"
  using assms by (simp add: idt_syscallHandler_def NUMBER_OF_SYSCALLS_def unat_of_nat)

lemma syscall_table: "syscalls ! 0 = Some thread_exit_sc"
  "syscalls ! 1 = Some schedule_sc"
  "syscalls ! 2 = Some thread_sleep_sc"
  "syscalls ! 3 = Some process_exit_sc"
  "syscalls ! 4 = Some printk_sc"
  "syscalls ! 5 = Some thread_new_sc"
  "syscalls ! 6 = Some irq_wait_sc"
  "syscalls ! 7 = Some proc_priv_sc"
  "syscalls ! 8 = Some shm_create_sc"
  "syscalls ! 9 = Some shm_delete_sc"
  "syscalls ! 10 = Some object_create_sc"
  "syscalls ! 11 = Some object_owned_sc"
  "syscalls ! 12 = Some object_close_sc"
  "syscalls ! 13 = Some request_get_sc"
  "syscalls ! 14 = Some request_has_sc"
  "syscalls ! 15 = Some request_answer_sc"
  "syscalls ! 16 = Some request_mapShm_sc"
  "syscalls ! 17 = Some request_sc"
  "syscalls ! 18 = Some send_msg_sc"
  "syscalls ! 19 = Some proc_setheap_sc"
  by (simp_all add: syscalls_def)

lemma syscall_none: "20 \<le> i \<Longrightarrow> i < 32 \<Longrightarrow> syscalls ! i = None"
  by (simp add: syscalls_def nth_append)

text \<open>
  C34. The interface of system calls: for each function of the library, executing interrupt 64 with the
  registers that it sets up calls the corresponding kernel function with the same arguments
  in the same order, and returns its value. A number that is not in the table has no effect.
\<close>

theorem syscall_interface:
  assumes "sys = (\<lambda>g. idt_syscallHandler um g r m s)"
  shows "sys (usr_thread_exit g) = do { (r, s) \<leftarrow> thread_exit r s; Some (Switched r, None, m, s) }
     \<and> sys (usr_schedule g) = do { (r, s) \<leftarrow> tasking_switch r s; Some (Switched r, None, m, s) }
     \<and> sys (usr_thread_sleep a g) = do { (r, s) \<leftarrow> thread_sleep a r s; Some (Switched r, None, m, s) }
     \<and> sys (usr_process_exit a g) = do { (r, s) \<leftarrow> process_exit a r s; Some (Switched r, None, m, s) }
     \<and> sys (usr_printk a g) = do { m \<leftarrow> monitor_write (get_str um a) m; Some (Junk, None, m, s) }
     \<and> sys (usr_thread_new a b g) = do { p \<leftarrow> current_process s; (t, s) \<leftarrow> thread_new p a b s; Some (Void, None, m, s) }
     \<and> sys (usr_irq_wait a g) = do { (r, s) \<leftarrow> idt_waitIrq a r s; Some (Switched r, None, m, s) }
     \<and> sys (usr_proc_priv g) = do { v \<leftarrow> proc_priv s; Some (Value v, None, m, s) }
     \<and> sys (usr_shm_create a b g) = do { (v, s) \<leftarrow> shm_create a b s; Some (Value v, None, m, s) }
     \<and> sys (usr_shm_delete a g) = do { (v, s) \<leftarrow> shm_delete a s; Some (Value v, None, m, s) }
     \<and> sys (usr_object_create g) = do { (v, s) \<leftarrow> object_create s; Some (Value v, None, m, s) }
     \<and> sys (usr_object_owned a g) = do { v \<leftarrow> object_owned a s; Some (Value v, None, m, s) }
     \<and> sys (usr_object_close a g) = do { s \<leftarrow> object_close a s; Some (Void, None, m, s) }
     \<and> sys (usr_request_has a g) = do { v \<leftarrow> request_has a s; Some (Value v, None, m, s) }
     \<and> sys (usr_request_answer a b c d g) = do { s \<leftarrow> request_answer a b c d s; Some (Void, None, m, s) }
     \<and> sys (usr_request_mapShm a b c g) = do { (v, s) \<leftarrow> request_mapShm a b (sint c) s; Some (Value v, None, m, s) }
     \<and> sys (usr_proc_setheap a b g) = do { (v, s) \<leftarrow> process_setheapseg a b s; Some (Value v, None, m, s) }
     \<and> sys (usr_request_get a b c g) = do { (v, s) \<leftarrow> request_get a (c \<noteq> 0) r s;
         Some (case v of Wait r \<Rightarrow> (Switched r, None, m, s) | Return (e, u) \<Rightarrow> (Value e, map_option (Write_request b) u, m, s)) }
     \<and> sys (usr_request a b g) = do { (v, s) \<leftarrow> request a (get_send um b) r s;
         Some (case v of Wait r \<Rightarrow> (Switched r, None, m, s) | Return e \<Rightarrow> (Value e, None, m, s)) }
     \<and> sys (usr_send_msg a b g) = do { (v, s) \<leftarrow> send_msg a (get_send um b) r s;
         Some (case v of Wait r \<Rightarrow> (Switched r, None, m, s) | Return (e, u) \<Rightarrow> (Value e, Some (Write_sendrequest b u), m, s)) }
     \<and> (unat (rg_eax g) \<ge> 20 \<longrightarrow> sys g = Some (Void, None, m, s))"
proof -
  have n: "sys g = Some (Void, None, m, s)" if "unat (rg_eax g) \<ge> 20"
    using that syscall_none[of "unat (rg_eax g)"] by (simp add: assms idt_syscallHandler_def NUMBER_OF_SYSCALLS_def)
  note c = syscall_call[of 0] syscall_call[of 1] syscall_call[of 2] syscall_call[of 3] syscall_call[of 4] syscall_call[of 5] syscall_call[of 6] syscall_call[of 7] syscall_call[of 8] syscall_call[of 9] syscall_call[of 10] syscall_call[of 11] syscall_call[of 12] syscall_call[of 13] syscall_call[of 14] syscall_call[of 15] syscall_call[of 16] syscall_call[of 17] syscall_call[of 18] syscall_call[of 19]
  show ?thesis unfolding assms usr_defs
    using c n[unfolded assms] by (simp add: syscall_table[simplified] sc_defs cong: outcome.case_cong)
qed

theorem syscall_interface_witness:
  "idt_syscallHandler \<lparr>get_send = \<lambda>_. rpc_call, get_str = \<lambda>_. []\<rparr> (usr_proc_priv irq_regs) \<lparr>esp = 0, ebp = 0, eip = 0\<rparr> (monitor0 []) (rpc_demo 6)
     = Some (Value 3, None, monitor0 [], rpc_demo 6)
   \<and> idt_syscallHandler \<lparr>get_send = \<lambda>_. rpc_call, get_str = \<lambda>_. []\<rparr> (irq_regs\<lparr>rg_eax := 25\<rparr>) \<lparr>esp = 0, ebp = 0, eip = 0\<rparr> (monitor0 []) (rpc_demo 6)
     = Some (Void, None, monitor0 [], rpc_demo 6)"
proof -
  let ?um = "\<lparr>get_send = \<lambda>_. rpc_call, get_str = \<lambda>_. []\<rparr> :: user_mem" and ?r = "\<lparr>esp = 0, ebp = 0, eip = 0 :: u32\<rparr>"
  note h = syscall_interface[OF refl, where um = ?um and r = ?r and m = "monitor0 []" and s = "rpc_demo 6"]
  have "proc_priv (rpc_demo 6) = Some 3"
    by (simp add: proc_priv_def rpc_fields rpc_threads rpc_thread_def demo_thread_def) (simp add: rpc_demo_def the_proc_def demo_proc_def)
  then show ?thesis using h[where g = irq_regs] h[where g = "irq_regs\<lparr>rg_eax := 25\<rparr>"] by simp
qed

end
