(* ===== verification/UHeap.thy ===== *)
theory UHeap
  imports HeapResize
begin

text \<open>
  The heap of a user process, \<^verbatim>\<open>src/library/gc/mem.c\<close>: \<open>malloc\<close> and \<open>free\<close> over the
  shared algorithm, with growth and contraction through the system call \<open>proc_setheap\<close>, which
  resizes the heap segment of the process. The system call is an argument \<open>setheap\<close> of the
  operations (result code and new memory); its contract is the locale \<open>heap_segment\<close>, and the
  operations satisfy the contracts \<open>heap_source\<close> and \<open>heap_sink\<close> of the algorithm over it.
\<close>

section \<open>Model\<close>

type_synonym 'a setheap_call = "u32 \<Rightarrow> u32 \<Rightarrow> 'a cmem_scheme \<Rightarrow> (u32 \<times> 'a cmem_scheme) option"

definition uheap_create ::
    "'a setheap_call \<Rightarrow> 'a cmem_scheme \<Rightarrow> u32 \<Rightarrow> u32 \<Rightarrow> u32 \<Rightarrow> u32 \<Rightarrow> heap \<Rightarrow> (u32 \<times> heap \<times> 'a cmem_scheme) option" where
  "uheap_create setheap s start idxsize datasize maxdatasize h = do {
     let start = page_up start;
     let h = h\<lparr>start_addr := start + idxsize, end_addr := start + idxsize + datasize,
               max_end := start + idxsize + maxdatasize\<rparr>;
     (r, s) \<leftarrow> setheap start (end_addr h) s;
     if r \<noteq> 0 then Some (- 1, h, s)
     else do { (h, s) \<leftarrow> init_hole h s start; Some (0, h, s) } }"

definition uheap_expand ::
    "'a setheap_call \<Rightarrow> heap \<Rightarrow> 'a cmem_scheme \<Rightarrow> u32 \<Rightarrow> (u32 \<times> heap \<times> 'a cmem_scheme) option" where
  "uheap_expand setheap h s quantity = do {
     let quantity = page_up quantity;
     if end_addr h + quantity > max_end h then Some (0, h, s)
     else do {
       let newEnd = end_addr h + quantity;
       (r, s) \<leftarrow> setheap (hp_idx h) newEnd s;
       if r \<noteq> 0 then Some (0, h, s)
       else do { (h, s) \<leftarrow> grow_hole h s quantity newEnd; Some (1, h, s) } } }"

definition uheap_contract :: "'a setheap_call \<Rightarrow> heap \<Rightarrow> 'a cmem_scheme \<Rightarrow> (heap \<times> 'a cmem_scheme) option" where
  "uheap_contract setheap h s = do {
     let last_footer = end_addr h - 8;
     last_header \<leftarrow> ld32 s (last_footer + 4);
     is_hole \<leftarrow> ld32 s (last_header + 4);
     if is_hole = 0 then Some (h, s)
     else do {
       lsize \<leftarrow> ld32 s (last_header + 8);
       let quantity = contract_qty h lsize 0;
       if quantity = 0 then Some (h, s)
       else do {
         let newEnd = end_addr h - quantity;
         (r, s) \<leftarrow> setheap (hp_idx h) newEnd s;
         if r \<noteq> 0 then Some (h, s)
         else do {
           (h, s) \<leftarrow> shrink_hole h s last_header last_footer quantity;
           Some (h\<lparr>end_addr := newEnd\<rparr>, s) } } } }"

text \<open>The static variables \<^verbatim>\<open>h\<close> and \<^verbatim>\<open>heap_ok\<close>.\<close>

record uheap =
  the_heap :: heap
  heap_ok :: bool

definition malloc :: "'a setheap_call \<Rightarrow> uheap \<Rightarrow> 'a cmem_scheme \<Rightarrow> u32 \<Rightarrow> (u32 \<times> uheap \<times> 'a cmem_scheme) option" where
  "malloc setheap u s sz = do {
     (r, u, s) \<leftarrow> (if \<not> heap_ok u then do {
         (r, h, s) \<leftarrow> uheap_create setheap s 0x20000000 0x00010000 0x00100000 0x4F000000 (the_heap u);
         if r \<noteq> 0 then Some (r, u\<lparr>the_heap := h\<rparr>, s) else Some (0, u\<lparr>the_heap := h, heap_ok := True\<rparr>, s) }
       else Some (0, u, s));
     if r \<noteq> 0 then Some (0, u, s)
     else do {
       (p, h, s) \<leftarrow> heap_alloc (uheap_expand setheap) (the_heap u) s sz;
       Some (p, u\<lparr>the_heap := h\<rparr>, s) } }"

definition free :: "'a setheap_call \<Rightarrow> uheap \<Rightarrow> 'a cmem_scheme \<Rightarrow> u32 \<Rightarrow> (uheap \<times> 'a cmem_scheme) option" where
  "free setheap u s p =
     (if \<not> heap_ok u \<or> p < start_addr (the_heap u) \<or> p > end_addr (the_heap u) then Some (u, s)
      else do {
        (h, s) \<leftarrow> heap_free (uheap_contract setheap) (the_heap u) s p;
        Some (u\<lparr>the_heap := h\<rparr>, s) })"

section \<open>The heap segment\<close>

text \<open>The heap \<open>h\<close>, with its index, fills the segment.\<close>

definition in_seg :: "('a cmem_scheme \<Rightarrow> u32 \<Rightarrow> u32 \<Rightarrow> bool) \<Rightarrow> heap \<Rightarrow> 'a cmem_scheme \<Rightarrow> bool" where
  "in_seg seg_at h s \<longleftrightarrow> seg_at s (hp_idx h) (end_addr h)
     \<and> 4096 dvd unat (hp_idx h) \<and> 4096 dvd unat (end_addr h)"

text \<open>
  What \<open>proc_setheap\<close> promises about a segment that \<open>seg_at\<close> says runs from \<open>a\<close> to \<open>e\<close>: it
  fails, which only happens when the segment is to grow, and changes nothing, or the segment then runs to the new end, its
  pages can be accessed and what is in both the old and the new segment keeps its contents.
\<close>

locale heap_segment =
  fixes setheap :: "u32 \<Rightarrow> u32 \<Rightarrow> 'a cmem_scheme \<Rightarrow> (u32 \<times> 'a cmem_scheme) option"
    and seg_at :: "'a cmem_scheme \<Rightarrow> u32 \<Rightarrow> u32 \<Rightarrow> bool"
  assumes seg_frame: "\<lbrakk> seg_at s a e; mpresent s' = mpresent s; cmem.more s' = cmem.more s \<rbrakk> \<Longrightarrow> seg_at s' a e"
    and seg_resize: "\<lbrakk> seg_at s a e; 4096 dvd unat a; 4096 dvd unat e; 4096 dvd unat e'; unat a < unat e' \<rbrakk> \<Longrightarrow>
        (\<exists>r. setheap a e' s = Some (r, s) \<and> r \<noteq> 0 \<and> unat e < unat e')
      \<or> (\<exists>s'. setheap a e' s = Some (0, s') \<and> seg_at s' a e' \<and> mapped s' (unat a) (unat e')
            \<and> agree s s' (unat a) (min (unat e) (unat e')))"
begin

lemma uheap_expand_ok:
  assumes wf: "heap_wf s h bs" and ne: "bs \<noteq> []" and rm: "idx_room h \<or> ends_in_hole bs" and seg: "in_seg seg_at h s"
    and q: "4096 dvd unat q" "0 < unat q" and ov: "unat (end_addr h) + unat q < 4294967296"
  shows "uheap_expand setheap h s q = Some (0, h, s)
      \<or> (\<exists>h' s'. uheap_expand setheap h s q = Some (1, h', s') \<and> heap_wf s' h' (grow bs (unat q))
           \<and> start_addr h' = start_addr h \<and> end_addr h' = end_addr h + q
           \<and> keeps_used h bs s s' \<and> in_seg seg_at h' s')"
proof -
  let ?e = "end_addr h + q"
  have pu: "page_up q = q" using q by (intro page_up_aligned) auto
  have e: "unat ?e = unat (end_addr h) + unat q" using ov by (simp add: unat_add_u32)
  have al: "4096 dvd unat (hp_idx h)" "4096 dvd unat (end_addr h)" "4096 dvd unat ?e" and lt: "unat (hp_idx h) < unat ?e"
    using seg q wf e by (auto simp: in_seg_def heap_wf_def heap_inv_def)
  have q20: "20 \<le> unat q" using q by (auto dest: dvd_imp_le)
  consider (full) "max_end h < ?e" | (fail) r where "\<not> max_end h < ?e" "setheap (hp_idx h) ?e s = Some (r, s)" "r \<noteq> 0"
    | (ok) s1 where "\<not> max_end h < ?e" "setheap (hp_idx h) ?e s = Some (0, s1)" "seg_at s1 (hp_idx h) ?e"
        "mapped s1 (unat (hp_idx h)) (unat ?e)" "agree s s1 (unat (hp_idx h)) (min (unat (end_addr h)) (unat ?e))"
    using seg_resize[of s "hp_idx h" "end_addr h" ?e] al lt seg unfolding in_seg_def by blast
  then show ?thesis
  proof cases
    case full
    then show ?thesis by (simp add: uheap_expand_def pu)
  next
    case fail
    then show ?thesis by (simp add: uheap_expand_def pu)
  next
    case ok
    have ag: "agree s s1 (unat (hp_idx h)) (unat (end_addr h))" using ok(5) e by (simp add: min_def)
    have mp: "mapped s1 (unat (hp_idx h)) (unat (end_addr h) + unat q)" using ok(4) e by simp
    have wf1: "heap_wf s1 h bs" using heap_wf_agree[OF wf ag mapped_sub[OF mp]] by simp
    obtain h' s' where g: "grow_hole h s1 q ?e = Some (h', s')" and wf': "heap_wf s' h' (grow bs (unat q))"
      and e': "end_addr h' = ?e" and env: "same_env h s1 h' s'" and k: "keeps_used h bs s1 s'"
      using grow_hole_ok[OF wf1 ne rm q20 ov mp] by blast
    have "keeps_used h bs s s1"
      using wf by (intro keeps_used_agree[OF ag]) (auto simp: heap_wf_def heap_inv_def)
    then have "keeps_used h bs s s'" using keeps_used_trans[OF _ k] by simp
    moreover have "in_seg seg_at h' s'" using env e' al ok(3) seg_frame[of s1 "hp_idx h" ?e s']
      by (simp add: in_seg_def same_env_def)
    ultimately show ?thesis using ok g wf' e' env by (simp add: uheap_expand_def pu same_env_def)
  qed
qed

lemma uheap_contract_ok:
  assumes wf: "heap_wf s h (xs @ [(n, True)])" and seg: "in_seg seg_at h s" and rest: "rest_ok n"
  shows "\<exists>h' s' q. uheap_contract setheap h s = Some (h', s') \<and> q = give_back (unat (end_addr h) - unat (start_addr h)) n
     \<and> heap_wf s' h' (xs @ [(n - q, True)]) \<and> unat (end_addr h') + q = unat (end_addr h) \<and> in_seg seg_at h' s'
     \<and> start_addr h' = start_addr h \<and> keeps_used h (xs @ [(n, True)]) s s'"
proof -
  let ?S = "unat (start_addr h)" and ?E = "unat (end_addr h)"
  define a where "a = ?S + blk_total xs"
  have inv: "heap_inv s h (xs @ [(n, True)]) (hole_addrs ?S (xs @ [(n, True)]))" using wf by (simp add: heap_wf_def)
  note lb = last_block[OF inv a_def] and fit = heap_inv_fit[OF inv a_def]
  have u8: "unat (of_nat a + 8 :: u32) = a + 8" using lb(2) fit by (simp add: unat_add_u32)
  define w where "w = rd s (a + 8)"
  have w: "unat w = n" using fit by (simp add: w_def block_def)
  have ldw: "ld32 s (of_nat a + 8) = Some w"
    unfolding w_def using fit by (intro ld_in[OF heap_inv_mapped[OF inv] end_addr_bound u8]) auto
  define q where "q = contract_qty h w 0"
  have SE: "unat (end_addr h - start_addr h) = ?E - ?S" using fit a_def by (simp add: unat_sub_u32)
  have "n \<le> ?E - ?S" using lb(4) a_def by simp
  then have qb: "4096 dvd unat q" "unat q < n" and gb: "unat q = give_back (?E - ?S) n"
    using contract_qty_bounds[of 0 0 w h] contract_qty_give_back[of 0 w h] fit w SE unfolding q_def Let_def by auto
  note ev = uheap_contract_def Let_def lb if_True if_False one_neq_zero Option.bind_lunit ldw q_def[symmetric] prod.case refl
  show ?thesis
  proof (cases "q = 0")
    case True
    have "uheap_contract setheap h s = Some (h, s)" by (simp only: ev True)
    then show ?thesis using wf seg gb True by (auto simp: keeps_used_def)
  next
    case False
    have q20: "unat q + 20 \<le> n" using rest_room[OF rest qb] .
    have e: "unat (end_addr h - q) = ?E - unat q" using qb lb(4) by (simp add: unat_sub_u32)
    have al: "4096 dvd unat (hp_idx h)" "4096 dvd unat (end_addr h)" "4096 dvd unat (end_addr h - q)"
      and lt: "unat (hp_idx h) < unat (end_addr h - q)"
      using seg qb e fit lb(4) by (auto simp: in_seg_def dvd_diff_nat)
    have "seg_at s (hp_idx h) (end_addr h)" using seg by (simp add: in_seg_def)
    from seg_resize[OF this al lt] e obtain s1 where
      ok: "setheap (hp_idx h) (end_addr h - q) s = Some (0, s1)" "seg_at s1 (hp_idx h) (end_addr h - q)" "mapped s1 (unat (hp_idx h)) (?E - unat q)"
          "agree s s1 (unat (hp_idx h)) (min ?E (?E - unat q))" by auto
    have ag: "agree s s1 (unat (hp_idx h)) (?E - unat q)" using ok(4) by simp
    obtain h' s' where sh: "shrink_hole h s1 (of_nat a) (end_addr h - 8) q = Some (h', s')"
      and wf': "heap_wf s' (h'\<lparr>end_addr := end_addr h - q\<rparr>) (xs @ [(n - unat q, True)])"
      and env: "same_env h s1 h' s'" and k: "keeps_used h (xs @ [(n, True)]) s1 s'"
      using shrink_hole_ok[OF wf q20 ag ok(3)] unfolding a_def[symmetric] by blast
    have lay: "layout s ?S xs" using inv by (simp add: heap_inv_def)
    have "keeps_used h (xs @ [(n, True)]) s s1"
      using keeps_used_agree[OF ag _ lay] fit q20 lb(4) inv by (auto simp: a_def heap_inv_def)
    then have "keeps_used h (xs @ [(n, True)]) s s'" using keeps_used_trans[OF _ k] by simp
    moreover have "uheap_contract setheap h s = Some (h'\<lparr>end_addr := end_addr h - q\<rparr>, s')"
      using False sh ok(1) by (simp only: ev) simp
    moreover have "in_seg seg_at (h'\<lparr>end_addr := end_addr h - q\<rparr>) s'"
      using env al seg_frame[OF ok(2), of s'] by (simp add: in_seg_def same_env_def)
    moreover have "unat (end_addr h - q) + unat q = ?E" using e q20 lb(4) by linarith
    ultimately show ?thesis using wf' env unfolding gb[symmetric]
      by - (rule exI[of _ "h'\<lparr>end_addr := end_addr h - q\<rparr>"], rule exI[of _ s'], rule exI[of _ "unat q"], auto simp: same_env_def)
  qed
qed

lemma in_seg_frame:
  "in_seg seg_at h s \<Longrightarrow> same_bounds h h' \<Longrightarrow> mpresent s' = mpresent s \<Longrightarrow> cmem.more s' = cmem.more s \<Longrightarrow> in_seg seg_at h' s'"
  using seg_frame by (auto simp: in_seg_def same_bounds_def)

end

sublocale heap_segment \<subseteq> usource: heap_source "uheap_expand setheap" "in_seg seg_at" "\<lambda>h s q n. True"
  using in_seg_frame uheap_expand_ok by unfold_locales blast+

sublocale heap_segment \<subseteq> usink: heap_sink "uheap_contract setheap" "in_seg seg_at"
  using in_seg_frame uheap_contract_ok by unfold_locales blast+

section \<open>The system call as a process sees it\<close>

text \<open>
  \<open>process_setheapseg\<close> of \<^verbatim>\<open>src/kernel/task/task.c\<close> seen from the process: the memory of
  the segment can be accessed because the page fault handler maps pages on demand. \<open>useg\<close> is
  start and length of the heap segment, if there is one; \<open>junk\<close> gives the contents of the
  frames that new pages get.
\<close>

record umem = cmem +
  useg :: "(u32 \<times> u32) option"

definition seg_page :: "u32 \<Rightarrow> u32 \<Rightarrow> nat \<Rightarrow> bool" where
  "seg_page start len n \<longleftrightarrow> n * 4096 < unat start + unat len \<and> unat start < (n + 1) * 4096"

definition map_seg :: "(nat \<Rightarrow> u8) \<Rightarrow> u32 \<Rightarrow> u32 \<Rightarrow> umem \<Rightarrow> umem" where
  "map_seg junk start len s = s\<lparr>
     mbytes := (\<lambda>a. if mpresent s (a div 4096) then mbytes s a else junk a),
     mpresent := (\<lambda>n. mpresent s n \<or> seg_page start len n), useg := Some (start, len)\<rparr>"

definition unmap_pages :: "u32 \<Rightarrow> u32 \<Rightarrow> umem \<Rightarrow> umem" where
  "unmap_pages start len s = s\<lparr>mpresent := (\<lambda>n. mpresent s n \<and> \<not> seg_page start len n)\<rparr>"

definition proc_setheap :: "(nat \<Rightarrow> u8) \<Rightarrow> u32 \<Rightarrow> u32 \<Rightarrow> umem \<Rightarrow> (u32 \<times> umem) option" where
  "proc_setheap junk start end' s =
     (if start \<ge> 0xE0000000 \<or> end' \<ge> 0xE0000000 then Some (- 1, s)
      else case useg s of
        None \<Rightarrow> Some (0, map_seg junk start (end' - start) s)
      | Some (st, len) \<Rightarrow>
          if st \<noteq> start then Some (0, map_seg junk start (end' - start) (unmap_pages st len s))
          else (let newlen = page_up (end' - start) in
            if newlen < len then Some (0, (unmap_pages (start + newlen) (len - newlen) s)\<lparr>useg := Some (start, newlen)\<rparr>)
            else if newlen > len then Some (0, map_seg junk start newlen s)
            else Some (0, s)))"

definition umem_seg :: "umem \<Rightarrow> u32 \<Rightarrow> u32 \<Rightarrow> bool" where
  "umem_seg s a e \<longleftrightarrow> useg s = Some (a, e - a) \<and> unat a \<le> unat e \<and> e < 0xE0000000
     \<and> (\<forall>n. seg_page a (e - a) n \<longrightarrow> mpresent s n)"

lemma seg_page_in: "unat a \<le> n \<Longrightarrow> n < unat a + unat l \<Longrightarrow> seg_page a l (n div 4096)"
  using page_bounds[of n] by (auto simp: seg_page_def)

lemma seg_page_sub: "seg_page a l n \<Longrightarrow> unat l \<le> unat l' \<Longrightarrow> seg_page a l' n"
  by (auto simp: seg_page_def)

lemma umem_seg_mapped: "umem_seg s a e \<Longrightarrow> mapped s (unat a) (unat e)"
  using seg_page_in[of a _ "e - a"] by (auto simp: umem_seg_def mapped_def unat_sub_u32)

text \<open>A shorter segment does not meet the pages that are given back.\<close>

lemma seg_page_split:
  assumes "4096 dvd unat a" and "4096 dvd unat l" and "unat (a + l) = unat a + unat l" and "seg_page a l n"
  shows "\<not> seg_page (a + l) m n"
proof -
  obtain i j where ij: "unat a = 4096 * i" "unat l = 4096 * j" using assms(1,2) by (auto elim!: dvdE)
  then have "4096 * n < 4096 * (i + j)" using assms(4) by (simp add: seg_page_def)
  then have "n + 1 \<le> i + j" by simp
  then have "4096 * (n + 1) \<le> 4096 * (i + j)" by (rule mult_le_mono2)
  then show ?thesis using assms(3) ij by (simp add: seg_page_def)
qed

interpretation um: heap_segment "proc_setheap junk" umem_seg for junk
proof
  fix s s' :: umem and a e
  assume "umem_seg s a e" "mpresent s' = mpresent s" "cmem.more s' = cmem.more s"
  moreover have "useg s' = useg s" using \<open>cmem.more s' = cmem.more s\<close> by (cases s; cases s') simp
  ultimately show "umem_seg s' a e" by (simp add: umem_seg_def)
next
  fix s :: umem and a e e' :: u32
  assume seg: "umem_seg s a e" and al: "4096 dvd unat a" "4096 dvd unat e" "4096 dvd unat e'" and lt: "unat a < unat e'"
  have us: "useg s = Some (a, e - a)" and ae: "unat a \<le> unat e" "e < 0xE0000000" and pr: "\<And>n. seg_page a (e - a) n \<Longrightarrow> mpresent s n"
    using seg by (auto simp: umem_seg_def)
  have l: "unat (e' - a) = unat e' - unat a" "unat (e - a) = unat e - unat a" using lt ae by (simp_all add: unat_sub_u32)
  have pu: "page_up (e' - a) = e' - a" using al lt l by (intro page_up_aligned) (auto simp: dvd_diff_nat)
  have fail: "proc_setheap junk a e' s = Some (- 1, s)" if "a \<ge> 0xE0000000 \<or> e' \<ge> 0xE0000000"
    using that by (simp add: proc_setheap_def)
  show "(\<exists>r. proc_setheap junk a e' s = Some (r, s) \<and> r \<noteq> 0 \<and> unat e < unat e')
      \<or> (\<exists>s'. proc_setheap junk a e' s = Some (0, s') \<and> umem_seg s' a e' \<and> mapped s' (unat a) (unat e')
            \<and> agree s s' (unat a) (min (unat e) (unat e')))"
  proof (cases "a \<ge> 0xE0000000 \<or> e' \<ge> 0xE0000000")
    case True
    then have "proc_setheap junk a e' s = Some (- 1, s)" by (simp add: proc_setheap_def)
    moreover have "unat e < unat e'" using True ae by (auto simp: less_u32 le_u32)
    ultimately show ?thesis by auto
  next
    case False
    have kept: "agree s s' (unat a) (min (unat e) (unat e'))"
      if "\<And>n. mpresent s (n div 4096) \<Longrightarrow> mbytes s' n = mbytes s n" for s' :: umem
      using that umem_seg_mapped[OF seg] by (auto simp: agree_def mapped_def)
    consider (less) "e' - a < e - a" | (more) "e - a < e' - a" | (eq) "e' - a = e - a" by fastforce
    then obtain s' where "proc_setheap junk a e' s = Some (0, s')" "umem_seg s' a e'"
      and "\<And>n. mpresent s (n div 4096) \<Longrightarrow> mbytes s' n = mbytes s n"
    proof cases
      case less
      let ?s = "(unmap_pages (a + (e' - a)) (e - a - (e' - a)) s)\<lparr>useg := Some (a, e' - a)\<rparr>"
      have "mpresent ?s n" if n: "seg_page a (e' - a) n" for n
        using seg_page_split[OF al(1) _ _ n, of "e - a - (e' - a)"] pr seg_page_sub[OF n, of "e - a"] less l al lt
        by (auto simp: unmap_pages_def less_u32 dvd_diff_nat)
      then show ?thesis using False us pu less lt by (intro that[of ?s]) (auto simp: proc_setheap_def umem_seg_def unmap_pages_def)
    next
      case more
      then have "\<not> e' - a < e - a" by simp
      then show ?thesis using False us pu more lt pr
        by (intro that[of "map_seg junk a (e' - a) s"]) (auto simp: proc_setheap_def umem_seg_def map_seg_def Let_def)
    next
      case eq
      then show ?thesis using False us pu lt seg by (intro that[of s]) (auto simp: proc_setheap_def umem_seg_def)
    qed
    then show ?thesis using kept umem_seg_mapped by blast
  qed
qed

section \<open>The allocator of a process\<close>

text \<open>The state of the allocator once a first call of \<open>malloc\<close> has set it up.\<close>

definition uheap_inv :: "uheap \<Rightarrow> umem \<Rightarrow> blk list \<Rightarrow> bool" where
  "uheap_inv u s bs \<longleftrightarrow> heap_ok u \<and> heap_wf s (the_heap u) bs \<and> in_seg umem_seg (the_heap u) s \<and> bs \<noteq> []"

lemma page_up_start: "page_up 0x20000000 = 0x20000000"
  by (rule page_up_aligned) simp

lemma uheap_create_fresh:
  assumes seg: "useg s = None"
    and guard: "rd (map_seg junk 0x20000000 0x110000 s) 0x2000FFF8 \<noteq> HEAP_MAGIC"
  shows "\<exists>h' s'. uheap_create (proc_setheap junk) s 0x20000000 0x00010000 0x00100000 0x4F000000 h = Some (0, h', s')
     \<and> heap_wf s' h' [(0x100000, True)] \<and> in_seg umem_seg h' s' \<and> idxused h' = 1
     \<and> hp_idx h' = 0x20000000 \<and> start_addr h' = 0x20010000 \<and> end_addr h' = 0x20110000 \<and> max_end h' = 0x6F010000"
proof -
  let ?s = "map_seg junk 0x20000000 0x110000 s"
  let ?h = "h\<lparr>start_addr := 0x20010000, end_addr := 0x20110000, max_end := 0x6F010000\<rparr>"
  have sg: "umem_seg ?s 0x20000000 0x20110000" by (simp add: umem_seg_def map_seg_def)
  have mp: "mapped ?s 0x20000000 0x20110000" using umem_seg_mapped[OF sg] by simp
  have call: "proc_setheap junk 0x20000000 0x20110000 s = Some (0, ?s)"
    using seg by (simp add: proc_setheap_def)
  obtain h' s' where i: "init_hole ?h ?s 0x20000000 = Some (h', s')" and wf: "heap_wf s' h' [(0x100000, True)]"
    and h': "idxused h' = 1" "hp_idx h' = 0x20000000" "start_addr h' = 0x20010000" "end_addr h' = 0x20110000" "max_end h' = 0x6F010000"
    and fr: "mpresent s' = mpresent ?s" "cmem.more s' = cmem.more ?s"
    using init_hole_ok[of "0x20000000" ?h ?s] mp guard by auto
  have "umem_seg s' 0x20000000 0x20110000" by (rule um.seg_frame[OF sg fr])
  then have "in_seg umem_seg h' s'" using h' by (simp add: in_seg_def)
  then show ?thesis using i wf h' call by (simp add: uheap_create_def page_up_start Let_def)
qed

definition fresh_uheap :: uheap where
  "fresh_uheap = \<lparr>the_heap = \<lparr>hp_idx = 0, idxused = 0, start_addr = 0, end_addr = 0, max_end = 0\<rparr>, heap_ok = False\<rparr>"

definition fresh_umem :: umem where
  "fresh_umem = \<lparr>mbytes = \<lambda>_. 0, mpresent = \<lambda>_. False, useg = None\<rparr>"

lemma fresh_state:
  "\<not> heap_ok fresh_uheap" "useg fresh_umem = None"
  "rd (map_seg (\<lambda>_. 0) 0x20000000 0x110000 fresh_umem) 0x2000FFF8 \<noteq> HEAP_MAGIC"
  by (simp_all add: fresh_uheap_def fresh_umem_def rd_def map_seg_def of_bytes_def HEAP_MAGIC_def)

lemma malloc_fresh:
  assumes "\<not> heap_ok u" and "useg s = None" and "unat sz + 20 \<le> 0x100000"
    and "rd (map_seg junk 0x20000000 0x110000 s) 0x2000FFF8 \<noteq> HEAP_MAGIC"
  shows "\<exists>u' s'. malloc (proc_setheap junk) u s sz = Some (0x2001000C, u', s')
     \<and> uheap_inv u' s' (taken 0x100000 (unat sz + 20)) \<and> unat (idxused (the_heap u')) \<le> 1
     \<and> hp_idx (the_heap u') = 0x20000000 \<and> start_addr (the_heap u') = 0x20010000 \<and> end_addr (the_heap u') = 0x20110000"
proof -
  obtain h1 s1 where c: "uheap_create (proc_setheap junk) s 0x20000000 0x00010000 0x00100000 0x4F000000 (the_heap u) = Some (0, h1, s1)"
    and wf: "heap_wf s1 h1 [(0x100000, True)]" and sg: "in_seg umem_seg h1 s1" and k: "idxused h1 = 1"
    and h1: "hp_idx h1 = 0x20000000" "start_addr h1 = 0x20010000" "end_addr h1 = 0x20110000"
    using uheap_create_fresh[OF assms(2,4)] by blast
  have sz: "unat sz + 20 < 4294967296" using assms(3) by simp
  obtain xs n ys p h' s' where al: "heap_alloc (uheap_expand (proc_setheap junk)) h1 s1 sz = Some (p, h', s')"
    and bs: "[(0x100000, True)] = xs @ (n, True) # ys" and p: "unat p = unat (start_addr h1) + blk_total xs + 12"
    and wf': "heap_wf s' h' (xs @ taken n (unat sz + 20) @ ys)"
    and off: "off_block h1 s1 h' s' (unat (start_addr h1) + blk_total xs) n" and k': "unat (idxused h') \<le> unat (idxused h1)"
    using heap_alloc_fits[OF wf sz, where expand = "uheap_expand (proc_setheap junk)"] assms(3) by auto
  have x: "xs = []" "n = 0x100000" "ys = []" using bs by (auto simp: Cons_eq_append_conv)
  have "p = 0x2001000C" using p x h1 by (intro unat_eqD) simp
  moreover have "in_seg umem_seg h' s'" using um.in_seg_frame[OF sg] off by (simp add: off_block_def)
  moreover have "taken 0x100000 (unat sz + 20) \<noteq> []" by (simp add: taken_def)
  ultimately show ?thesis using c al wf' x k k' h1 off assms(1)
    by (auto simp: malloc_def uheap_inv_def off_block_def same_bounds_def)
qed

lemma malloc_100:
  "\<exists>u s. malloc (proc_setheap (\<lambda>_. 0)) fresh_uheap fresh_umem 100 = Some (0x2001000C, u, s)
     \<and> uheap_inv u s [(120, False), (1048456, True)] \<and> idx_room (the_heap u)
     \<and> start_addr (the_heap u) = 0x20010000 \<and> end_addr (the_heap u) = 0x20110000"
  using malloc_fresh[OF fresh_state(1,2) _ fresh_state(3), of 100] by (fastforce simp: taken_def idx_room_def)

text \<open>
  First allocation of a process: with no heap yet, \<open>malloc\<close> has the kernel map the heap
  segment, builds the index and one hole of 1 MB, and returns a block at the start of the heap
  (payload address \<open>0x2001000C\<close>); the heap is then well-formed, with the block followed by
  the rest of the hole.
\<close>

theorem malloc_first:
  assumes "\<not> heap_ok u" and "useg s = None" and "unat sz + 20 \<le> 0x100000"
    and "rd (map_seg junk 0x20000000 0x110000 s) 0x2000FFF8 \<noteq> HEAP_MAGIC"
  shows "\<exists>u' s'. malloc (proc_setheap junk) u s sz = Some (0x2001000C, u', s')
     \<and> uheap_inv u' s' (taken 0x100000 (unat sz + 20)) \<and> unat (idxused (the_heap u')) \<le> 1
     \<and> hp_idx (the_heap u') = 0x20000000 \<and> start_addr (the_heap u') = 0x20010000 \<and> end_addr (the_heap u') = 0x20110000"
  by (rule malloc_fresh[OF assms])

theorem malloc_first_witness:
  "\<exists>u s. malloc (proc_setheap (\<lambda>_. 0)) fresh_uheap fresh_umem 100 = Some (0x2001000C, u, s)
     \<and> uheap_inv u s [(120, False), (1048456, True)]"
  using malloc_first[OF fresh_state(1,2) _ fresh_state(3), of 100] by (auto simp: taken_def)

text \<open>
  C1. Every later \<open>malloc\<close> of up to 1 GB terminates, keeps the heap well-formed and all
  allocated blocks and their contents, and returns either null with nothing allocated, or a new
  block with room for the requested bytes that overlaps no other block. (The heap has to have a
  free index slot, or to end in a hole, for the case that it must grow.)
\<close>

theorem malloc_correct:
  assumes "uheap_inv u s bs" and "idx_room (the_heap u) \<or> ends_in_hole bs"
    and "unat sz \<le> 0x40000000" and "unat (end_addr (the_heap u)) \<le> 0x70000000"
  shows "\<exists>r. malloc (proc_setheap junk) u s sz = map_option (\<lambda>(p, h, s). (p, u\<lparr>the_heap := h\<rparr>, s)) r
     \<and> alloc_outcome (in_seg umem_seg) (the_heap u) s bs (unat sz) r"
proof -
  let ?q = "(sz AND 0xFFFFF000) + 0x1000"
  have "unat (sz AND 0xFFFFF000) \<le> unat sz" by (simp add: addr_simps)
  then have "unat ?q \<le> 0x40001000" using assms(3) by (subst unat_add_u32) simp_all
  then have "unat (end_addr (the_heap u)) + 2 * unat ?q < 4294967296" using assms(4) by simp
  then have "alloc_outcome (in_seg umem_seg) (the_heap u) s bs (unat sz)
      (heap_alloc (uheap_expand (proc_setheap junk)) (the_heap u) s sz)"
    using assms by (intro um.usource.alloc_total[OF _ _ _ _ refl]) (auto simp: uheap_inv_def)
  moreover have "malloc (proc_setheap junk) u s sz = map_option (\<lambda>(p, h, s). (p, u\<lparr>the_heap := h\<rparr>, s))
      (heap_alloc (uheap_expand (proc_setheap junk)) (the_heap u) s sz)"
    using assms(1) by (simp add: malloc_def uheap_inv_def map_conv_bind_option split_def o_def)
  ultimately show ?thesis by blast
qed

theorem malloc_correct_witness:
  "\<exists>u s r. malloc (proc_setheap (\<lambda>_. 0)) fresh_uheap fresh_umem 100 = Some (0x2001000C, u, s)
     \<and> malloc (proc_setheap (\<lambda>_. 0)) u s 0x200000 = map_option (\<lambda>(p, h, s). (p, u\<lparr>the_heap := h\<rparr>, s)) r
     \<and> alloc_outcome (in_seg umem_seg) (the_heap u) s [(120, False), (1048456, True)] 0x200000 r"
proof -
  obtain u s where m: "malloc (proc_setheap (\<lambda>_. 0)) fresh_uheap fresh_umem 100 = Some (0x2001000C, u, s)"
    and inv: "uheap_inv u s [(120, False), (1048456, True)]" and b: "idx_room (the_heap u)" "end_addr (the_heap u) = 0x20110000"
    using malloc_100 by blast
  show ?thesis using malloc_correct[OF inv, of "0x200000" "\<lambda>_. 0"] m b by auto
qed

text \<open>
  C8. \<open>free\<close> of an allocated block terminates and leaves the heap well-formed. The block, merged with the holes beside it, becomes a hole; all other blocks and their contents are as
  before. If this hole is the last of the heap and has at least two pages, and the heap has more than 16 kilobytes, the heap is contracted: its end moves down, and the hole shrinks, by
  as many pages as leave at most 16 kilobytes of heap or at most one page of hole (\<open>give_back\<close>). Otherwise the end stays.
  The block must not be the last of the heap unless the word behind the heap can be read, and what a contraction leaves of the last hole must have room for its header and footer.
\<close>

theorem free_correct:
  assumes "uheap_inv u s (xs @ (n, False) # ys)" and "unat p = unat (start_addr (the_heap u)) + blk_total xs + 12"
    and "idx_room (the_heap u)" and "ys \<noteq> [] \<or> past_end s (the_heap u)"
    and "\<And>xs1 n1. freed_parts xs n ys = (xs1, n1, []) \<Longrightarrow> rest_ok n1"
  shows "\<exists>r. free (proc_setheap junk) u s p = map_option (\<lambda>(h, s). (u\<lparr>the_heap := h\<rparr>, s)) r
     \<and> free_outcome (in_seg umem_seg) (the_heap u) s xs n ys r"
proof -
  let ?h = "the_heap u"
  have inv: "heap_wf s ?h (xs @ (n, False) # ys)" "in_seg umem_seg ?h s" "heap_ok u" using assms(1) by (auto simp: uheap_inv_def)
  have "20 \<le> n" "unat (start_addr ?h) + blk_total xs + n \<le> unat (end_addr ?h)"
    using inv(1) by (auto simp: heap_wf_def heap_inv_def block_def)
  then have "\<not> p < start_addr ?h" "\<not> end_addr ?h < p" using assms(2) by (simp_all add: less_u32)
  then have "free (proc_setheap junk) u s p = map_option (\<lambda>(h, s). (u\<lparr>the_heap := h\<rparr>, s))
      (heap_free (uheap_contract (proc_setheap junk)) ?h s p)"
    using inv(3) by (simp add: free_def map_conv_bind_option split_def o_def)
  moreover have "free_outcome (in_seg umem_seg) ?h s xs n ys (heap_free (uheap_contract (proc_setheap junk)) ?h s p)"
    using assms(5) by (intro um.usink.free_total[OF inv(1,2) assms(2,3,4)]) blast
  ultimately show ?thesis by blast
qed

text \<open>Freeing the only block of the first heap joins it with the hole and gives back 252 of the 256 pages.\<close>

theorem free_correct_witness:
  "\<exists>u s u' s'. malloc (proc_setheap (\<lambda>_. 0)) fresh_uheap fresh_umem 100 = Some (0x2001000C, u, s)
     \<and> free (proc_setheap (\<lambda>_. 0)) u s 0x2001000C = Some (u', s') \<and> heap_wf s' (the_heap u') [(0x4000, True)]
     \<and> end_addr (the_heap u) = 0x20110000 \<and> unat (end_addr (the_heap u')) = 0x20014000"
proof -
  obtain u s where m: "malloc (proc_setheap (\<lambda>_. 0)) fresh_uheap fresh_umem 100 = Some (0x2001000C, u, s)"
    and inv: "uheap_inv u s [(120, False), (1048456, True)]" and b: "idx_room (the_heap u)" "start_addr (the_heap u) = 0x20010000" "end_addr (the_heap u) = 0x20110000"
    using malloc_100 by blast
  have fp: "freed_parts [] 120 [(1048456, True)] = ([], 0x100000, [])" by (simp add: freed_parts_def merge_left_def merge_right_def)
  have gb: "give_back 0x100000 0x100000 = 0xFC000" by (simp add: give_back_def pages_up_def)
  have "rest_ok 0x100000" by (simp add: rest_ok_def)
  then obtain r where r: "free (proc_setheap (\<lambda>_. 0)) u s 0x2001000C = map_option (\<lambda>(h, s). (u\<lparr>the_heap := h\<rparr>, s)) r"
     "free_outcome (in_seg umem_seg) (the_heap u) s [] 120 [(1048456, True)] r"
    using free_correct[of u s "[]" 120 "[(1048456, True)]" "0x2001000C" "\<lambda>_. 0"] inv b(1,2) fp by auto
  from r(2) obtain h' s' where "r = Some (h', s')" "heap_wf s' h' [(0x4000, True)]" "unat (end_addr h') + 0xFC000 = 0x20110000"
    unfolding free_outcome_def fp b(2,3) by (auto simp: gb)
  then show ?thesis using m r(1) b(3) by auto
qed

end
