(* ===== verification/Strings.thy ===== *)
theory Strings
  imports UHeap "HOL-Library.Signed_Division"
begin

text \<open>
  The string and memory functions of the user library, \<^verbatim>\<open>src/library/std/string.c\<close>, and the copies of some of
  them in the kernel, \<^verbatim>\<open>src/kernel/lib/stdlib.c\<close>, over the byte memory of theory \<open>Cmem\<close>. A loop over a string
  need not end, so it is a partial function; theorems: on terminated strings the functions return, and with what result.
\<close>

section \<open>Model\<close>

text \<open>The loop reads \<^verbatim>\<open>str[i]\<close> and counts the terminating zero too.\<close>

partial_function (option) strlen_loop :: "'a cmem_scheme \<Rightarrow> u32 \<Rightarrow> int \<Rightarrow> int option" where
  "strlen_loop s str i = do {
     c \<leftarrow> ld8 s (str + of_int i);
     if c = 0 then Some (i + 1) else strlen_loop s str (i + 1) }"

definition strlen :: "'a cmem_scheme \<Rightarrow> u32 \<Rightarrow> int option" where
  "strlen s str = strlen_loop s str 0"

partial_function (option) strchr :: "'a cmem_scheme \<Rightarrow> u32 \<Rightarrow> u8 \<Rightarrow> u32 option" where
  "strchr s str c = do {
     x \<leftarrow> ld8 s str;
     if x = 0 then Some 0 else if x = c then Some str else strchr s (str + 1) c }"

text \<open>Words first, then the remaining bytes.\<close>

fun copy_words :: "u32 \<Rightarrow> u32 \<Rightarrow> u32 \<Rightarrow> nat \<Rightarrow> 'a cmem_scheme \<Rightarrow> 'a cmem_scheme option" where
  "copy_words d sr i 0 s = Some s"
| "copy_words d sr i (Suc n) s = do {
     v \<leftarrow> ld32 s (sr + 4 * i);
     s \<leftarrow> st32 s (d + 4 * i) v;
     copy_words d sr (i + 1) n s }"

fun copy_bytes :: "u32 \<Rightarrow> u32 \<Rightarrow> u32 \<Rightarrow> nat \<Rightarrow> 'a cmem_scheme \<Rightarrow> 'a cmem_scheme option" where
  "copy_bytes dest src i 0 s = Some s"
| "copy_bytes dest src i (Suc n) s = do {
     v \<leftarrow> ld8 s (src + i);
     s \<leftarrow> st8 s (dest + i) v;
     copy_bytes dest src (i + 1) n s }"

definition memcpy :: "u32 \<Rightarrow> u32 \<Rightarrow> int \<Rightarrow> 'a cmem_scheme \<Rightarrow> (u32 \<times> 'a cmem_scheme) option" where
  "memcpy vd vs count s = do {
     let f = (of_int (count smod 4) :: u32);
     let n = (of_int (count sdiv 4) :: u32);
     s \<leftarrow> copy_words vd vs 0 (unat n) s;
     s \<leftarrow> (if f \<noteq> 0 then (let i = of_int count - f in copy_bytes vd vs i (unat (of_int count :: u32) - unat i) s) else Some s);
     Some (vd, s) }"

fun set_bytes :: "u32 \<Rightarrow> u8 \<Rightarrow> u32 \<Rightarrow> nat \<Rightarrow> 'a cmem_scheme \<Rightarrow> 'a cmem_scheme option" where
  "set_bytes dest val i 0 s = Some s"
| "set_bytes dest val i (Suc n) s = do { s \<leftarrow> st8 s (dest + i) val; set_bytes dest val (i + 1) n s }"

definition memset :: "u32 \<Rightarrow> u8 \<Rightarrow> int \<Rightarrow> 'a cmem_scheme \<Rightarrow> (u32 \<times> 'a cmem_scheme) option" where
  "memset dest val count s = do { s \<leftarrow> set_bytes dest val 0 (nat count) s; Some (dest, s) }"

definition st16 :: "'a cmem_scheme \<Rightarrow> u32 \<Rightarrow> u16 \<Rightarrow> 'a cmem_scheme option" where
  "st16 s a v = do { s \<leftarrow> st8 s a (ucast v); st8 s (a + 1) (ucast (drop_bit 8 v)) }"

fun set_words :: "u32 \<Rightarrow> u16 \<Rightarrow> u32 \<Rightarrow> nat \<Rightarrow> 'a cmem_scheme \<Rightarrow> 'a cmem_scheme option" where
  "set_words dest val i 0 s = Some s"
| "set_words dest val i (Suc n) s = do { s \<leftarrow> st16 s (dest + 2 * i) val; set_words dest val (i + 1) n s }"

definition memsetw :: "u32 \<Rightarrow> u16 \<Rightarrow> int \<Rightarrow> 'a cmem_scheme \<Rightarrow> (u32 \<times> 'a cmem_scheme) option" where
  "memsetw dest val count s = do { s \<leftarrow> set_words dest val 0 (nat count) s; Some (dest, s) }"

text \<open>Returns the source, not the destination.\<close>

definition strcpy :: "u32 \<Rightarrow> u32 \<Rightarrow> 'a cmem_scheme \<Rightarrow> (u32 \<times> 'a cmem_scheme) option" where
  "strcpy dest src s = do {
     n \<leftarrow> strlen s src;
     (_, s) \<leftarrow> memcpy dest src (n + 1) s;
     Some (src, s) }"

text \<open>\<open>mal\<close> is the allocator with its state \<open>u\<close>; \<open>malloc setheap\<close> of theory \<open>UHeap\<close> is one.\<close>

definition strdup :: "('h \<Rightarrow> 'a cmem_scheme \<Rightarrow> u32 \<Rightarrow> (u32 \<times> 'h \<times> 'a cmem_scheme) option) \<Rightarrow> 'h \<Rightarrow> u32 \<Rightarrow> 'a cmem_scheme \<Rightarrow> (u32 \<times> 'h \<times> 'a cmem_scheme) option" where
  "strdup mal u src s = do {
     n \<leftarrow> strlen s src;
     (ret, u, s) \<leftarrow> mal u s (of_int (n + 1));
     if ret = 0 then Some (ret, u, s)
     else do { (_, s) \<leftarrow> strcpy ret src s; Some (ret, u, s) } }"

partial_function (option) strcat_loop :: "u32 \<Rightarrow> u32 \<Rightarrow> 'a cmem_scheme \<Rightarrow> (u32 \<times> 'a cmem_scheme) option" where
  "strcat_loop dest2 src s = do {
     c \<leftarrow> ld8 s src;
     if c = 0 then Some (dest2, s)
     else do { s \<leftarrow> st8 s dest2 c; strcat_loop (dest2 + 1) (src + 1) s } }"

definition strcat :: "u32 \<Rightarrow> u32 \<Rightarrow> 'a cmem_scheme \<Rightarrow> (u32 \<times> 'a cmem_scheme) option" where
  "strcat dest src s = do {
     n \<leftarrow> strlen s dest;
     (dest2, s) \<leftarrow> strcat_loop (dest + (of_int n - 1)) src s;
     s \<leftarrow> st8 s dest2 0;
     Some (dest, s) }"

partial_function (option) strcmp :: "'a cmem_scheme \<Rightarrow> u32 \<Rightarrow> u32 \<Rightarrow> int option" where
  "strcmp s s1 s2 = do {
     a \<leftarrow> ld8 s s1;
     b \<leftarrow> ld8 s s2;
     if a \<noteq> 0 \<and> a = b then strcmp s (s1 + 1) (s2 + 1) else Some (uint a - uint b) }"

text \<open>The bytes of a literal, and the string at an address, as one that prints it reads it.\<close>

definition lit :: "string \<Rightarrow> u8 list" where "lit cs = map of_char cs"

partial_function (option) string_at :: "'a cmem_scheme \<Rightarrow> u32 \<Rightarrow> u8 list option" where
  "string_at s a = do { c \<leftarrow> ld8 s a; if c = 0 then Some [] else do { cs \<leftarrow> string_at s (a + 1); Some (c # cs) } }"

section \<open>Ranges and strings\<close>

text \<open>A range of \<open>n\<close> bytes at \<open>a\<close> that is mapped and does not wrap around; its contents; memory with other contents there.\<close>

definition range_ok :: "'a cmem_scheme \<Rightarrow> u32 \<Rightarrow> nat \<Rightarrow> bool" where
  "range_ok s a n \<longleftrightarrow> unat a + n \<le> 2 ^ 32 \<and> mapped s (unat a) (unat a + n)"

definition bytes_at :: "'a cmem_scheme \<Rightarrow> u32 \<Rightarrow> nat \<Rightarrow> u8 list" where
  "bytes_at s a n = map (mbytes s) [unat a ..< unat a + n]"

definition put_bytes :: "u32 \<Rightarrow> u8 list \<Rightarrow> 'a cmem_scheme \<Rightarrow> 'a cmem_scheme" where
  "put_bytes a xs s = s\<lparr>mbytes := (\<lambda>n. if unat a \<le> n \<and> n < unat a + length xs then xs ! (n - unat a) else mbytes s n)\<rparr>"

definition apart :: "u32 \<Rightarrow> nat \<Rightarrow> u32 \<Rightarrow> nat \<Rightarrow> bool" where
  "apart a n b m \<longleftrightarrow> unat a + n \<le> unat b \<or> unat b + m \<le> unat a"

definition cstring :: "'a cmem_scheme \<Rightarrow> u32 \<Rightarrow> u8 list \<Rightarrow> bool" where
  "cstring s a xs \<longleftrightarrow> range_ok s a (length xs + 1) \<and> bytes_at s a (length xs + 1) = xs @ [0] \<and> 0 \<notin> set xs"

lemma unat_plus_nat: "unat a + i < 2 ^ 32 \<Longrightarrow> unat (a + of_nat i) = unat a + i" for a :: u32
  by (simp add: unat_word_ariths unat_of_nat)

lemma range_ld8: "range_ok s a n \<Longrightarrow> i < n \<Longrightarrow> ld8 s (a + of_nat i) = Some (mbytes s (unat a + i))"
  by (simp add: range_ok_def ld8_def mapped_def unat_plus_nat)

lemma range_st8: "range_ok s a n \<Longrightarrow> i < n \<Longrightarrow> st8 s (a + of_nat i) v = Some (s\<lparr>mbytes := (mbytes s)(unat a + i := v)\<rparr>)"
  by (simp add: range_ok_def st8_def mapped_def unat_plus_nat)

lemma range_ok_bytes [simp]: "range_ok (s\<lparr>mbytes := b\<rparr>) a n = range_ok s a n"
  by (simp add: range_ok_def mapped_def)

lemma range_ok_put [simp]: "range_ok (put_bytes b xs s) a n = range_ok s a n"
  by (simp add: put_bytes_def)

lemma bytes_put_apart: "apart a (length xs) b m \<Longrightarrow> bytes_at (put_bytes a xs s) b m = bytes_at s b m"
  by (auto simp: bytes_at_def put_bytes_def apart_def)

lemma bytes_put: "bytes_at (put_bytes a xs s) a (length xs) = xs"
  by (rule nth_equalityI) (simp_all add: bytes_at_def put_bytes_def)

lemma cstring_byte: "cstring s a xs \<Longrightarrow> i \<le> length xs \<Longrightarrow> ld8 s (a + of_nat i) = Some ((xs @ [0]) ! i)"
proof -
  assume c: "cstring s a xs" and i: "i \<le> length xs"
  have "bytes_at s a (length xs + 1) ! i = mbytes s (unat a + i)" using i unfolding bytes_at_def by (subst nth_map) (auto simp del: upt_Suc)
  then show ?thesis using c i range_ld8[of s a "length xs + 1" i] by (simp add: cstring_def)
qed

lemma cstring_Cons:
  assumes "cstring s a (x # xs)"
  shows "ld8 s a = Some x" "x \<noteq> 0" "cstring s (a + 1) xs"
proof -
  show "ld8 s a = Some x" using cstring_byte[OF assms, of 0] by simp
  show "x \<noteq> 0" using assms by (auto simp: cstring_def)
  have r: "unat a + length xs + 2 \<le> 2 ^ 32" "mapped s (unat a) (unat a + (length xs + 2))" using assms by (auto simp: cstring_def range_ok_def)
  then have u: "unat (a + 1) = unat a + 1" using unat_plus_nat[of a 1] by simp
  have "[unat a..<unat a + (length xs + 2)] = unat a # [unat a + 1..<unat a + 1 + (length xs + 1)]" by (subst upt_conv_Cons) (auto simp del: upt_Suc)
  then have "bytes_at s a (length xs + 2) = mbytes s (unat a) # bytes_at s (a + 1) (length xs + 1)" by (simp add: bytes_at_def u)
  then show "cstring s (a + 1) xs" using assms r u by (auto simp: cstring_def range_ok_def elim: mapped_sub)
qed

lemma cstring_Nil: "cstring s a [] \<Longrightarrow> ld8 s a = Some 0"
  using cstring_byte[of s a "[]" 0] by simp

section \<open>Reading strings\<close>

lemma strlen_loop_ok:
  assumes "cstring s a xs" and "i \<le> length xs"
  shows "strlen_loop s a (int i) = Some (int (length xs) + 1)"
  using assms(2)
proof (induction "length xs - i" arbitrary: i)
  case 0
  then show ?case using cstring_byte[OF assms(1), of i] by (subst strlen_loop.simps) (simp add: nth_append)
next
  case (Suc n)
  then have "i < length xs" by simp
  moreover from this have "xs ! i \<noteq> 0" using assms(1) nth_mem by (fastforce simp: cstring_def)
  ultimately show ?case using cstring_byte[OF assms(1), of i] Suc.hyps(1)[of "i + 1"] Suc.hyps(2)
    by (subst strlen_loop.simps) (simp add: nth_append add.commute)
qed

lemma strlen_ok: "cstring s a xs \<Longrightarrow> strlen s a = Some (int (length xs) + 1)"
  using strlen_loop_ok[of s a xs 0] by (simp add: strlen_def)

lemma strchr_ok:
  "cstring s a xs \<Longrightarrow> strchr s a c = Some (if c \<in> set xs then a + of_nat (length (takeWhile (\<lambda>x. x \<noteq> c) xs)) else 0)"
proof (induction xs arbitrary: a)
  case Nil
  then show ?case using cstring_Nil[OF Nil] by (subst strchr.simps) simp
next
  case (Cons x xs)
  note c = cstring_Cons[OF Cons.prems]
  show ?case using c Cons.IH[OF c(3)] by (subst strchr.simps) (auto simp: ac_simps)
qed

text \<open>The difference of the first bytes that differ, where a shorter string ends with 0.\<close>

fun str_diff :: "u8 list \<Rightarrow> u8 list \<Rightarrow> int" where
  "str_diff (x # xs) (y # ys) = (if x = y then str_diff xs ys else uint x - uint y)"
| "str_diff (x # xs) [] = uint x"
| "str_diff [] (y # ys) = - uint y"
| "str_diff [] [] = 0"

lemma strcmp_ok: "cstring s a xs \<Longrightarrow> cstring s b ys \<Longrightarrow> strcmp s a b = Some (str_diff xs ys)"
proof (induction xs ys arbitrary: a b rule: str_diff.induct)
  case (1 x xs y ys)
  note c = cstring_Cons[OF 1(2)] and d = cstring_Cons[OF 1(3)]
  show ?case using c d 1(1)[OF _ c(3) d(3)] by (subst strcmp.simps) auto
next
  case (2 x xs)
  then show ?case using cstring_Cons(1)[OF 2(1)] cstring_Nil[OF 2(2)] cstring_Cons(2)[OF 2(1)] by (subst strcmp.simps) auto
next
  case (3 y ys)
  then show ?case using cstring_Cons(1)[OF 3(2)] cstring_Nil[OF 3(1)] by (subst strcmp.simps) auto
next
  case 4
  then show ?case using cstring_Nil[OF 4(1)] cstring_Nil[OF 4(2)] by (subst strcmp.simps) auto
qed

lemma uint_eq_u8: "uint x = uint y \<longleftrightarrow> x = y" for x y :: u8
  by (metis word_of_int_uint)

lemma str_diff_0: "0 \<notin> set xs \<Longrightarrow> 0 \<notin> set ys \<Longrightarrow> str_diff xs ys = 0 \<longleftrightarrow> xs = ys"
  by (induction xs ys rule: str_diff.induct) (auto simp: uint_0_iff uint_eq_u8)

lemma string_at_ok: "cstring s a xs \<Longrightarrow> string_at s a = Some xs"
proof (induction xs arbitrary: a)
  case Nil
  then show ?case using cstring_Nil[OF Nil] by (subst string_at.simps) simp
next
  case (Cons x xs)
  then show ?case using cstring_Cons[OF Cons.prems] by (subst string_at.simps) simp
qed

lemma lit_append: "lit (xs @ ys) = lit xs @ lit ys"
  by (simp add: lit_def)

section \<open>Copying\<close>

lemma put_bytes_Nil [simp]: "put_bytes a [] s = s"
proof -
  have "(\<lambda>n. if unat a \<le> n \<and> n < unat a then [] ! (n - unat a) else mbytes s n) = mbytes s" by (rule ext) auto
  then show ?thesis by (simp add: put_bytes_def)
qed

text \<open>Bytes that are stored one after another.\<close>

lemma put_bytes_snoc:
  assumes "unat a + length xs < 2 ^ 32"
  shows "(put_bytes a xs s)\<lparr>mbytes := (mbytes (put_bytes a xs s))(unat a + length xs := v)\<rparr> = put_bytes a (xs @ [v]) s"
proof -
  have "(\<lambda>n. if unat a \<le> n \<and> n < unat a + length xs then xs ! (n - unat a) else mbytes s n)(unat a + length xs := v)
      = (\<lambda>n. if unat a \<le> n \<and> n < unat a + length (xs @ [v]) then (xs @ [v]) ! (n - unat a) else mbytes s n)"
    by (rule ext) (auto simp: nth_append)
  then show ?thesis by (simp add: put_bytes_def)
qed

lemma bytes_at_nth: "i < n \<Longrightarrow> bytes_at s a n ! i = mbytes s (unat a + i)"
  by (simp add: bytes_at_def)

lemma length_bytes [simp]: "length (bytes_at s a n) = n"
  by (simp add: bytes_at_def)

lemma take_bytes_Suc: "i < n \<Longrightarrow> take (Suc i) (bytes_at s a n) = take i (bytes_at s a n) @ [mbytes s (unat a + i)]"
  by (simp add: take_Suc_conv_app_nth bytes_at_nth)

lemma put_mbytes_apart:
  assumes "apart d m sr m" and "i < m" and "length xs \<le> m"
  shows "mbytes (put_bytes d xs s) (unat sr + i) = mbytes s (unat sr + i)"
  using assms by (auto simp: put_bytes_def apart_def)

text \<open>After the first \<open>i\<close> bytes have been copied, the next \<open>n\<close>.\<close>

lemma copy_bytes_ok:
  assumes "range_ok s d m" and "range_ok s sr m" and "apart d m sr m" and "i + n \<le> m"
  shows "copy_bytes d sr (of_nat i) n (put_bytes d (take i (bytes_at s sr m)) s) = Some (put_bytes d (take (i + n) (bytes_at s sr m)) s)"
  using assms(4)
proof (induction n arbitrary: i)
  case (Suc n)
  let ?s = "put_bytes d (take i (bytes_at s sr m)) s"
  have i: "i < m" "length (take i (bytes_at s sr m)) = i" using Suc.prems by simp_all
  have l: "ld8 ?s (sr + of_nat i) = Some (mbytes s (unat sr + i))"
    using range_ld8[of ?s sr m i] assms(2) i put_mbytes_apart[OF assms(3) i(1), of "take i (bytes_at s sr m)" s] by simp
  have w: "st8 ?s (d + of_nat i) (mbytes s (unat sr + i)) = Some (put_bytes d (take (Suc i) (bytes_at s sr m)) s)"
    using range_st8[of ?s d m i "mbytes s (unat sr + i)", unfolded range_ok_put, OF assms(1)] assms(1) i put_bytes_snoc[of d "take i (bytes_at s sr m)" s "mbytes s (unat sr + i)"] take_bytes_Suc[of i m s sr]
    by (simp add: range_ok_def[of s d m])
  show ?case using l w Suc.IH[of "Suc i"] Suc.prems by (simp add: add.commute)
qed simp

lemma put_bytes_word:
  assumes "unat a + length xs + 4 \<le> 2 ^ 32"
  shows "wr (put_bytes a xs s) (unat a + length xs) (of_bytes b0 b1 b2 b3) = put_bytes a (xs @ [b0, b1, b2, b3]) s"
proof -
  have "(\<lambda>n. if unat a \<le> n \<and> n < unat a + length xs then xs ! (n - unat a) else mbytes s n)
       (unat a + length xs := b0, unat a + length xs + 1 := b1, unat a + length xs + 2 := b2, unat a + length xs + 3 := b3)
      = (\<lambda>n. if unat a \<le> n \<and> n < unat a + length (xs @ [b0, b1, b2, b3]) then (xs @ [b0, b1, b2, b3]) ! (n - unat a) else mbytes s n)"
    by (rule ext) (auto simp: nth_append nth_Cons' )
  then show ?thesis by (simp add: put_bytes_def wr_def)
qed

lemma take_bytes_word:
  assumes "i + 4 \<le> n"
  shows "take (i + 4) (bytes_at s a n) = take i (bytes_at s a n) @ [mbytes s (unat a + i), mbytes s (unat a + i + 1), mbytes s (unat a + i + 2), mbytes s (unat a + i + 3)]"
  using take_bytes_Suc[of i n s a] take_bytes_Suc[of "i + 1" n s a] take_bytes_Suc[of "i + 2" n s a] take_bytes_Suc[of "i + 3" n s a] assms
  by (simp add: numeral_eq_Suc)

lemma copy_words_ok:
  assumes "range_ok s d m" and "range_ok s sr m" and "apart d m sr m" and "4 * (i + n) \<le> m"
  shows "copy_words d sr (of_nat i) n (put_bytes d (take (4 * i) (bytes_at s sr m)) s) = Some (put_bytes d (take (4 * (i + n)) (bytes_at s sr m)) s)"
  using assms(4)
proof (induction n arbitrary: i)
  case (Suc n)
  let ?s = "put_bytes d (take (4 * i) (bytes_at s sr m)) s"
  have i: "4 * i + 4 \<le> m" "length (take (4 * i) (bytes_at s sr m)) = 4 * i" using Suc.prems by simp_all
  have e: "unat d + m \<le> 2 ^ 32" "unat sr + m \<le> 2 ^ 32" "mapped s (unat d) (unat d + m)" "mapped s (unat sr) (unat sr + m)"
    using assms(1,2) by (auto simp: range_ok_def)
  have u: "unat (sr + 4 * of_nat i) = unat sr + 4 * i" "unat (d + 4 * of_nat i) = unat d + 4 * i"
    using unat_plus_nat[of sr "4 * i"] unat_plus_nat[of d "4 * i"] e i by simp_all
  have mp: "mapped ?s a b = mapped s a b" for a b by (simp add: mapped_def put_bytes_def)
  have mp2: "mapped s (unat sr + 4 * i) (unat sr + 4 * i + 4)" "mapped s (unat d + 4 * i) (unat d + 4 * i + 4)"
    using mapped_sub[OF e(4)] mapped_sub[OF e(3)] i by simp_all
  have mb: "mbytes ?s (unat sr + j) = mbytes s (unat sr + j)" if "j < m" for j
    using put_mbytes_apart[OF assms(3) that, of "take (4 * i) (bytes_at s sr m)" s] i by simp
  have r: "rd ?s (unat sr + 4 * i) = of_bytes (mbytes s (unat sr + 4 * i)) (mbytes s (unat sr + 4 * i + 1)) (mbytes s (unat sr + 4 * i + 2)) (mbytes s (unat sr + 4 * i + 3))"
    using mb[of "4 * i"] mb[of "4 * i + 1"] mb[of "4 * i + 2"] mb[of "4 * i + 3"] i unfolding rd_def by (simp add: add.assoc)
  have l: "ld32 ?s (sr + 4 * of_nat i) = Some (rd ?s (unat sr + 4 * i))"
    using ld32_rd[of "sr + 4 * of_nat i" ?s] u e i mp mp2 by simp
  have w: "st32 ?s (d + 4 * of_nat i) (rd ?s (unat sr + 4 * i)) = Some (put_bytes d (take (4 * i + 4) (bytes_at s sr m)) s)"
    using st32_wr[of "d + 4 * of_nat i" ?s] u e i mp mp2 put_bytes_word[of d "take (4 * i) (bytes_at s sr m)" s] take_bytes_word[OF i(1), of s sr]
    by (simp add: r)
  show ?case using l w Suc.IH[of "Suc i"] Suc.prems by (simp add: add.commute)
qed simp

lemma memcpy_ok:
  assumes "range_ok s d m" and "range_ok s sr m" and "apart d m sr m"
  shows "memcpy d sr (int m) s = Some (d, put_bytes d (bytes_at s sr m) s)"
proof -
  define q r where "q = m div 4" and "r = m mod 4"
  have m: "m = 4 * q + r" "r < 4" "m \<le> 2 ^ 32" using assms(1) by (auto simp: q_def r_def range_ok_def)
  have qr: "int m sdiv 4 = int q" "int m smod 4 = int r" by (simp_all add: signed_divide_int_def signed_modulo_int_def q_def r_def zdiv_int zmod_int sgn_if)
  have u: "unat (of_nat q :: u32) = q" "unat (of_nat r :: u32) = r" using m by (simp_all add: unat_of_nat)
  have c: "copy_words d sr 0 q s = Some (put_bytes d (take (4 * q) (bytes_at s sr m)) s)"
    using copy_words_ok[OF assms, of 0 q] m by simp
  show ?thesis
  proof (cases "r = 0")
    case True
    then show ?thesis using c m qr u by (simp add: memcpy_def)
  next
    case False
    then have m32: "m < 2 ^ 32" using m by simp presburger
    have i: "of_nat m - of_nat r = (of_nat (4 * q) :: u32)" using m(1) by simp
    have ui: "unat (of_nat (4 * q) :: u32) = 4 * q" "unat (of_nat m :: u32) = m"
      using m m32 unat_of_nat_u32[of "4 * q"] unat_of_nat_u32[of m] by simp_all
    have "copy_bytes d sr (of_nat (4 * q)) (m - 4 * q) (put_bytes d (take (4 * q) (bytes_at s sr m)) s) = Some (put_bytes d (bytes_at s sr m) s)"
      using copy_bytes_ok[OF assms, of "4 * q" r] m(1) by simp
    moreover have "(of_nat r :: u32) \<noteq> 0" using u(2) False by auto
    ultimately show ?thesis using c qr u ui unfolding memcpy_def by (simp add: i Let_def del: of_nat_mult)
  qed
qed

section \<open>Filling\<close>

lemma set_bytes_ok:
  assumes "range_ok s d m" and "i + n \<le> m"
  shows "set_bytes d v (of_nat i) n (put_bytes d (replicate i v) s) = Some (put_bytes d (replicate (i + n) v) s)"
  using assms(2)
proof (induction n arbitrary: i)
  case (Suc n)
  let ?s = "put_bytes d (replicate i v) s"
  have w: "st8 ?s (d + of_nat i) v = Some (put_bytes d (replicate (Suc i) v) s)"
    using range_st8[of ?s d m i v, unfolded range_ok_put, OF assms(1)] put_bytes_snoc[of d "replicate i v" s v] assms(1) Suc.prems
    by (simp add: range_ok_def[of s d m] replicate_append_same)
  show ?case using w Suc.IH[of "Suc i"] Suc.prems by (simp add: add.commute)
qed simp

lemma memset_ok: "range_ok s d m \<Longrightarrow> memset d v (int m) s = Some (d, put_bytes d (replicate m v) s)"
  using set_bytes_ok[of s d m 0 m v] by (simp add: memset_def)

section \<open>Writing strings\<close>

lemma cstring_put_apart: "apart a (length xs) b (length ys + 1) \<Longrightarrow> cstring s b ys \<Longrightarrow> cstring (put_bytes a xs s) b ys"
  by (simp add: cstring_def bytes_put_apart)

lemma strcpy_ok:
  assumes "cstring s sr xs" and "range_ok s sr (length xs + 2)" and "range_ok s d (length xs + 2)" and "apart d (length xs + 2) sr (length xs + 2)"
  shows "strcpy d sr s = Some (sr, put_bytes d (xs @ [0, mbytes s (unat sr + length xs + 1)]) s)"
proof -
  have "bytes_at s sr (length xs + 2) = bytes_at s sr (length xs + 1) @ [mbytes s (unat sr + length xs + 1)]" by (simp add: bytes_at_def)
  then have b: "bytes_at s sr (length xs + 2) = xs @ [0, mbytes s (unat sr + length xs + 1)]" using assms(1) by (simp add: cstring_def)
  have "memcpy d sr (int (length xs) + 1 + 1) s = Some (d, put_bytes d (xs @ [0, mbytes s (unat sr + length xs + 1)]) s)"
    using memcpy_ok[OF assms(3,2,4)] unfolding b by simp
  then show ?thesis by (simp add: strcpy_def strlen_ok[OF assms(1)])
qed

lemma strcat_loop_ok:
  assumes "cstring s sr ys" and "range_ok s d (length ys)" and "apart d (length ys) sr (length ys + 1)"
  shows "strcat_loop d sr s = Some (d + of_nat (length ys), put_bytes d ys s)"
proof -
  have "strcat_loop (d + of_nat i) (sr + of_nat i) (put_bytes d (take i ys) s) = Some (d + of_nat (length ys), put_bytes d ys s)" if "i \<le> length ys" for i
    using that
  proof (induction "length ys - i" arbitrary: i)
    case 0
    have c: "cstring (put_bytes d (take i ys) s) sr ys" using assms 0 by (intro cstring_put_apart) auto
    then show ?case using cstring_byte[OF c, of i] 0 by (subst strcat_loop.simps) (simp add: nth_append)
  next
    case (Suc n)
    then have i: "i < length ys" by simp
    have c: "cstring (put_bytes d (take i ys) s) sr ys" using assms i by (intro cstring_put_apart) (auto simp: apart_def)
    have nz: "ys ! i \<noteq> 0" using assms(1) i nth_mem by (fastforce simp: cstring_def)
    have w: "st8 (put_bytes d (take i ys) s) (d + of_nat i) (ys ! i) = Some (put_bytes d (take (Suc i) ys) s)"
      using range_st8[of "put_bytes d (take i ys) s" d "length ys" i "ys ! i", unfolded range_ok_put, OF assms(2)]
        put_bytes_snoc[of d "take i ys" s "ys ! i"] assms(2) i
      by (simp add: range_ok_def[of s d "length ys"] take_Suc_conv_app_nth)
    show ?case using cstring_byte[OF c, of i] nz w Suc.hyps(1)[of "Suc i"] Suc.hyps(2) i
      by (subst strcat_loop.simps) (simp add: nth_append ac_simps)
  qed
  from this[of 0] show ?thesis by simp
qed

lemma strcat_ok:
  assumes "cstring s d xs" and "cstring s sr ys" and "range_ok s d (length xs + length ys + 1)"
    and "apart d (length xs + length ys + 1) sr (length ys + 1)"
  shows "strcat d sr s = Some (d, put_bytes (d + of_nat (length xs)) (ys @ [0]) s)"
proof -
  let ?e = "d + of_nat (length xs) :: u32"
  have r: "unat d + (length xs + length ys + 1) \<le> 2 ^ 32" "mapped s (unat d) (unat d + (length xs + length ys + 1))" using assms(3) by (auto simp: range_ok_def)
  then have u: "unat ?e = unat d + length xs" by (intro unat_plus_nat) simp
  have re: "range_ok s ?e (length ys + 1)" "range_ok s ?e (length ys)" using r u by (auto simp: range_ok_def elim: mapped_sub)
  have ap: "apart ?e (length ys) sr (length ys + 1)" using assms(4) u by (auto simp: apart_def)
  have w: "st8 (put_bytes ?e ys s) (?e + of_nat (length ys)) 0 = Some (put_bytes ?e (ys @ [0]) s)"
    using range_st8[of "put_bytes ?e ys s" ?e "length ys + 1" "length ys" 0, unfolded range_ok_put, OF re(1)] put_bytes_snoc[of ?e ys s 0] r u by simp
  show ?thesis using strcat_loop_ok[OF assms(2) re(2) ap] w by (simp add: strcat_def strlen_ok[OF assms(1)])
qed

lemma bytes_at_split: "bytes_at s a (i + j) = bytes_at s a i @ map (mbytes s) [unat a + i ..< unat a + i + j]"
  using upt_add_eq_append[of "unat a" "unat a + i" j] by (simp add: bytes_at_def add.assoc flip: map_append)

text \<open>A string that is appended to one, and a string that is written with a further byte.\<close>

lemma cstring_append:
  assumes "cstring s d xs" and "0 \<notin> set ys" and "range_ok s d (length xs + length ys + 1)"
  shows "cstring (put_bytes (d + of_nat (length xs)) (ys @ [0]) s) d (xs @ ys)"
proof -
  let ?e = "d + of_nat (length xs) :: u32" and ?n = "length xs" and ?m = "length ys"
  let ?s = "put_bytes ?e (ys @ [0]) s"
  have u: "unat ?e = unat d + ?n" using assms(3) by (intro unat_plus_nat) (simp add: range_ok_def)
  then have "bytes_at ?s d ?n = xs" using bytes_put_apart[of ?e "ys @ [0]" d ?n s] assms(1) bytes_at_split[of s d ?n 1] by (simp add: apart_def cstring_def)
  moreover have "map (mbytes ?s) [unat d + ?n ..< unat d + ?n + (?m + 1)] = ys @ [0]" using bytes_put[of ?e "ys @ [0]" s] by (simp add: bytes_at_def u)
  ultimately have "bytes_at ?s d (?n + (?m + 1)) = xs @ ys @ [0]" by (simp only: bytes_at_split)
  then show ?thesis using assms by (simp add: cstring_def add.assoc)
qed

lemma cstring_put:
  assumes "0 \<notin> set ys" and "range_ok s d (length ys + 1)"
  shows "cstring (put_bytes d (ys @ 0 # zs) s) d ys"
proof -
  have "bytes_at (put_bytes d (ys @ 0 # zs) s) d ((length ys + 1) + length zs) = (ys @ [0]) @ zs" using bytes_put[of d "ys @ 0 # zs" s] by simp
  then have "bytes_at (put_bytes d (ys @ 0 # zs) s) d (length ys + 1) = ys @ [0]" unfolding bytes_at_split[of _ d "length ys + 1" "length zs"]
    by (subst (asm) append_eq_append_conv) simp_all
  then show ?thesis using assms by (simp add: cstring_def)
qed

section \<open>Properties\<close>

text \<open>
  C33. \<open>memcpy\<close>, which copies words and then the remaining bytes, is the copy of all bytes for
  ranges that do not overlap: the destination holds the bytes of the source, and no other byte
  changes; \<open>memset\<close> fills exactly its range.
\<close>

theorem memcpy_copies:
  assumes "range_ok s d m" and "range_ok s sr m" and "apart d m sr m"
  shows "(\<exists>s'. memcpy d sr (int m) s = Some (d, s') \<and> bytes_at s' d m = bytes_at s sr m \<and> bytes_at s' sr m = bytes_at s sr m
         \<and> mpresent s' = mpresent s \<and> (\<forall>n. n < unat d \<or> unat d + m \<le> n \<longrightarrow> mbytes s' n = mbytes s n))
    \<and> (\<exists>s'. memset d v (int m) s = Some (d, s') \<and> bytes_at s' d m = replicate m v
         \<and> mpresent s' = mpresent s \<and> (\<forall>n. n < unat d \<or> unat d + m \<le> n \<longrightarrow> mbytes s' n = mbytes s n))"
proof (intro conjI exI)
  show "memcpy d sr (int m) s = Some (d, put_bytes d (bytes_at s sr m) s)" by (rule memcpy_ok[OF assms])
  show "bytes_at (put_bytes d (bytes_at s sr m) s) d m = bytes_at s sr m" using bytes_put[of d "bytes_at s sr m" s] by simp
  show "bytes_at (put_bytes d (bytes_at s sr m) s) sr m = bytes_at s sr m" using assms(3) by (simp add: bytes_put_apart)
  show "memset d v (int m) s = Some (d, put_bytes d (replicate m v) s)" by (rule memset_ok[OF assms(1)])
  show "bytes_at (put_bytes d (replicate m v) s) d m = replicate m v" using bytes_put[of d "replicate m v" s] by simp
qed (auto simp: put_bytes_def)

text \<open>A page of memory at 0x1000 with the strings \<open>abc\<close> at its start and \<open>abd\<close> at 0x1010.\<close>

definition demo_mem :: "unit cmem_scheme" where
  "demo_mem = \<lparr>mbytes = (\<lambda>n. 0)(0x1000 := 97, 0x1001 := 98, 0x1002 := 99, 0x1010 := 97, 0x1011 := 98, 0x1012 := 100),
     mpresent = (\<lambda>n. n = 1)\<rparr>"

lemma demo_range: "0x1000 \<le> unat a \<Longrightarrow> unat a + n \<le> 0x2000 \<Longrightarrow> range_ok demo_mem a n"
  by (auto simp: range_ok_def mapped_def demo_mem_def)

lemma demo_strings: "cstring demo_mem 0x1000 [97, 98, 99]" "cstring demo_mem 0x1010 [97, 98, 100]"
  by (simp_all add: cstring_def demo_range) (simp_all add: bytes_at_def demo_mem_def upt_rec)

theorem memcpy_copies_witness:
  "\<exists>s'. memcpy 0x1101 0x1010 6 demo_mem = Some (0x1101, s') \<and> bytes_at s' 0x1101 6 = [97, 98, 100, 0, 0, 0]"
proof -
  have h: "range_ok demo_mem 0x1101 6" "range_ok demo_mem 0x1010 6" "apart 0x1101 6 0x1010 6" by (auto simp: demo_range apart_def)
  have "bytes_at demo_mem 0x1010 6 = [97, 98, 100, 0, 0, 0]" by (simp add: bytes_at_def demo_mem_def upt_rec)
  then show ?thesis using memcpy_copies[OF h, of 0] by auto
qed

text \<open>
  On terminated strings the functions that read end and return: \<open>strlen\<close> the length with the
  terminating zero, \<open>strchr\<close> the address of the first occurrence of a character or null, and
  \<open>strcmp\<close> 0 exactly for equal strings.
\<close>

theorem string_reads:
  assumes "cstring s a xs" and "cstring s b ys"
  shows "strlen s a = Some (int (length xs) + 1)
    \<and> strchr s a c = Some (if c \<in> set xs then a + of_nat (length (takeWhile (\<lambda>x. x \<noteq> c) xs)) else 0)
    \<and> (\<exists>r. strcmp s a b = Some r \<and> (r = 0 \<longleftrightarrow> xs = ys) \<and> r = str_diff xs ys)"
proof -
  have "str_diff xs ys = 0 \<longleftrightarrow> xs = ys" using assms by (intro str_diff_0) (auto simp: cstring_def)
  then show ?thesis using strlen_ok[OF assms(1)] strchr_ok[OF assms(1)] strcmp_ok[OF assms] by simp
qed

theorem string_reads_witness:
  "strlen demo_mem 0x1000 = Some 4 \<and> strchr demo_mem 0x1000 98 = Some 0x1001 \<and> strcmp demo_mem 0x1000 0x1010 = Some (- 1)"
  using string_reads[OF demo_strings, of 98] by simp

text \<open>
  \<open>strcat\<close> puts the second string behind the first one, in a buffer with room for both;
  \<open>strcpy\<close> makes a copy of a string, but reads and writes one byte more than it has.
\<close>

theorem string_writes:
  assumes "cstring s d xs" and "cstring s sr ys" and "range_ok s d (length xs + length ys + 2)" and "range_ok s sr (length ys + 2)"
    and "apart d (length xs + length ys + 2) sr (length ys + 2)"
  shows "(\<exists>s'. strcat d sr s = Some (d, s') \<and> cstring s' d (xs @ ys) \<and> cstring s' sr ys)
    \<and> (\<exists>s'. strcpy d sr s = Some (sr, s') \<and> cstring s' d ys \<and> cstring s' sr ys
         \<and> mbytes s' (unat d + length ys + 1) = mbytes s (unat sr + length ys + 1))"
proof -
  let ?n = "length xs" and ?m = "length ys"
  let ?e = "d + of_nat ?n :: u32"
  have r: "unat d + (?n + ?m + 2) \<le> 2 ^ 32" "mapped s (unat d) (unat d + (?n + ?m + 2))" using assms(3) by (auto simp: range_ok_def)
  then have u: "unat ?e = unat d + ?n" by (intro unat_plus_nat) simp
  have rr: "range_ok s d (?n + ?m + 1)" "range_ok s d (?m + 2)" "range_ok s d (?m + 1)" using r by (auto simp: range_ok_def elim: mapped_sub)
  have ap: "apart d (?n + ?m + 1) sr (?m + 1)" "apart d (?m + 2) sr (?m + 2)" "apart ?e (length (ys @ [0 :: u8])) sr (?m + 1)"
     "apart ?e (length (ys @ [0 :: u8])) d ?n" "apart d (length (ys @ [0, x :: u8])) sr (?m + 1)" for x
    using assms(5) u by (auto simp: apart_def)
  have "0 \<notin> set ys" using assms(2) by (simp add: cstring_def)
  then have c1: "cstring (put_bytes ?e (ys @ [0]) s) d (xs @ ys)" and c2: "cstring (put_bytes d (ys @ [0, mbytes s (unat sr + ?m + 1)]) s) d ys"
    using cstring_append[OF assms(1) _ rr(1)] cstring_put[OF _ rr(3)] by auto
  have b2: "mbytes (put_bytes d (ys @ [0, v]) s) (unat d + ?m + 1) = v" for v by (simp add: put_bytes_def nth_append)
  show ?thesis using strcat_ok[OF assms(1,2) rr(1) ap(1)] strcpy_ok[OF assms(2,4) rr(2) ap(2)] c1 c2 b2
      cstring_put_apart[OF ap(3) assms(2)] cstring_put_apart[OF ap(5) assms(2)] by blast
qed

theorem string_writes_witness:
  "(\<exists>s'. strcat 0x1000 0x1010 demo_mem = Some (0x1000, s') \<and> cstring s' 0x1000 [97, 98, 99, 97, 98, 100])
   \<and> (\<exists>s'. strcpy 0x1000 0x1010 demo_mem = Some (0x1010, s') \<and> cstring s' 0x1000 [97, 98, 100])"
  using string_writes[OF demo_strings] by (auto simp: demo_range apart_def)

end
