(* ===== verification/UShm.thy ===== *)
theory UShm
  imports Seg
begin

text \<open>
  The manager of a process's shared memory space, \<^verbatim>\<open>src/library/gc/shm.c\<close>: a doubly linked list of
  blocks, used ones and holes, that tile the addresses from 0x80000000 to 0xD0000000. The structures come from
  \<open>malloc\<close>, which is a parameter here: \<open>usupply\<close> are the addresses that it will return, and it returns null after that. The mutex
  makes the calls atomic and is not modelled. Theorems: the blocks refine a list of
  intervals; allocation is best fit; release merges holes and undoes an allocation.
\<close>

section \<open>Model\<close>

record shm_block =
  sb_start :: u32
  sb_size :: u32
  is_hole :: bool
  sb_prev :: ptr
  sb_next :: ptr

record ushm =
  ublocks :: ptr
  ustore :: "ptr \<rightharpoonup> shm_block"
  usupply :: "ptr list"

definition the_blk :: "ushm \<Rightarrow> ptr \<Rightarrow> shm_block option" where
  "the_blk s p = (if p = 0 then None else ustore s p)"

definition upd_blk :: "ptr \<Rightarrow> (shm_block \<Rightarrow> shm_block) \<Rightarrow> ushm \<Rightarrow> ushm option" where
  "upd_blk p f s = do { x \<leftarrow> the_blk s p; Some (s\<lparr>ustore := (ustore s)(p \<mapsto> f x)\<rparr>) }"

text \<open>A new structure with the given contents; writing to null faults.\<close>

definition new_blk :: "shm_block \<Rightarrow> ushm \<Rightarrow> (ptr \<times> ushm) option" where
  "new_blk x s = (case usupply s of [] \<Rightarrow> None
     | p # ps \<Rightarrow> if p = 0 then None else Some (p, s\<lparr>usupply := ps, ustore := (ustore s)(p \<mapsto> x)\<rparr>))"

definition shm_init :: "ushm \<Rightarrow> ushm option" where
  "shm_init s = do {
     (b, s) \<leftarrow> new_blk \<lparr>sb_start = 0x80000000, sb_size = 0xD0000000 - 0x80000000, is_hole = True, sb_prev = 0, sb_next = 0\<rparr> s;
     Some (s\<lparr>ublocks := b\<rparr>) }"

text \<open>The loop over all blocks for the smallest hole that is large enough.\<close>

partial_function (option) best_fit :: "ushm \<Rightarrow> u32 \<Rightarrow> ptr \<Rightarrow> ptr \<Rightarrow> ptr option" where
  "best_fit s sz i block =
     (if i = 0 then Some block
      else do {
        x \<leftarrow> the_blk s i;
        better \<leftarrow> (if sb_size x \<ge> sz \<and> is_hole x then
                    (if block = 0 then Some True else do { b \<leftarrow> the_blk s block; Some (sb_size x < sb_size b) })
                  else Some False);
        best_fit s sz (sb_next x) (if better then i else block) })"

text \<open>The back link of the block \<open>i\<close>, when there is one.\<close>

definition set_prev :: "ptr \<Rightarrow> ptr \<Rightarrow> ushm \<Rightarrow> ushm option" where
  "set_prev i p s = (if i \<noteq> 0 then upd_blk i (\<lambda>n. n\<lparr>sb_prev := p\<rparr>) s else Some s)"

definition split_block :: "ptr \<Rightarrow> u32 \<Rightarrow> ushm \<Rightarrow> ushm option" where
  "split_block block sz s = do {
     b \<leftarrow> the_blk s block;
     if sb_size b > sz then do {
       (newb, s) \<leftarrow> new_blk \<lparr>sb_start = sb_start b + sz, sb_size = sb_size b - sz, is_hole = True, sb_prev = block, sb_next = sb_next b\<rparr> s;
       s \<leftarrow> upd_blk block (\<lambda>b. b\<lparr>sb_size := sz\<rparr>) s;
       s \<leftarrow> set_prev (sb_next b) newb s;
       upd_blk block (\<lambda>b. b\<lparr>sb_next := newb\<rparr>) s }
     else Some s }"

definition shm_alloc :: "u32 \<Rightarrow> ushm \<Rightarrow> (u32 \<times> ushm) option" where
  "shm_alloc sz s = do {
     s \<leftarrow> (if ublocks s = 0 then shm_init s else Some s);
     let sz = page_up sz;
     block \<leftarrow> best_fit s sz (ublocks s) 0;
     if block = 0 then Some (0, s)
     else do {
       s \<leftarrow> split_block block sz s;
       s \<leftarrow> upd_blk block (\<lambda>b. b\<lparr>is_hole := False\<rparr>) s;
       b \<leftarrow> the_blk s block;
       Some (sb_start b, s) } }"

definition unify :: "ptr \<Rightarrow> ushm \<Rightarrow> ushm option" where
  "unify p s = do {
     b \<leftarrow> the_blk s p;
     if sb_next b = 0 \<or> \<not> is_hole b then Some s
     else do {
       n \<leftarrow> the_blk s (sb_next b);
       if \<not> is_hole n then Some s
       else do {
         s \<leftarrow> upd_blk p (\<lambda>b. b\<lparr>sb_size := sb_size b + sb_size n\<rparr>) s;
         s \<leftarrow> set_prev (sb_next n) p s;
         s \<leftarrow> upd_blk p (\<lambda>b. b\<lparr>sb_next := sb_next n\<rparr>) s;
         Some (s\<lparr>ustore := (ustore s)(sb_next b := None)\<rparr>) } } }"

partial_function (option) find_start :: "ushm \<Rightarrow> u32 \<Rightarrow> ptr \<Rightarrow> ptr option" where
  "find_start s p i =
     (if i = 0 then Some 0 else do { x \<leftarrow> the_blk s i; if sb_start x = p then Some i else find_start s p (sb_next x) })"

definition unify_after :: "ptr \<Rightarrow> ushm \<Rightarrow> ushm option" where
  "unify_after bl s = do {
     b \<leftarrow> the_blk s bl;
     if sb_next b \<noteq> 0 then do { n \<leftarrow> the_blk s (sb_next b); if is_hole n then unify bl s else Some s } else Some s }"

definition unify_before :: "ptr \<Rightarrow> ushm \<Rightarrow> ushm option" where
  "unify_before bl s = do {
     b \<leftarrow> the_blk s bl;
     if sb_prev b \<noteq> 0 then do { q \<leftarrow> the_blk s (sb_prev b); if is_hole q then unify (sb_prev b) s else Some s } else Some s }"

definition shm_free :: "u32 \<Rightarrow> ushm \<Rightarrow> ushm option" where
  "shm_free p s = do {
     bl \<leftarrow> find_start s p (ublocks s);
     if bl = 0 then Some s
     else do {
       s \<leftarrow> upd_blk bl (\<lambda>b. b\<lparr>is_hole := True\<rparr>) s;
       s \<leftarrow> unify_after bl s;
       unify_before bl s } }"

text \<open>With the system calls of the kernel, whose state is \<open>k\<close>.\<close>

definition shm_allocNew :: "u32 \<Rightarrow> ushm \<Rightarrow> kernel \<Rightarrow> (u32 \<times> ushm \<times> kernel) option" where
  "shm_allocNew sz s k = do {
     let sz = page_up sz;
     (p, s) \<leftarrow> shm_alloc sz s;
     (r, k) \<leftarrow> shm_create p sz k;
     if r \<noteq> 0 then do { s \<leftarrow> shm_free p s; Some (0, s, k) } else Some (p, s, k) }"

definition shm_freeDel :: "u32 \<Rightarrow> ushm \<Rightarrow> kernel \<Rightarrow> (ushm \<times> kernel) option" where
  "shm_freeDel p s k = do { (r, k) \<leftarrow> shm_delete p k; s \<leftarrow> shm_free p s; Some (s, k) }"

section \<open>The doubly linked list\<close>

text \<open>
  A list from \<open>p\<close> on, whose first element has the predecessor \<open>q\<close>; and a segment that ends with the element
  \<open>q'\<close>, which is followed by \<open>p'\<close>.
\<close>

fun dlist :: "(ptr \<rightharpoonup> shm_block) \<Rightarrow> ptr \<Rightarrow> ptr \<Rightarrow> ptr list \<Rightarrow> bool" where
  "dlist st q p [] \<longleftrightarrow> p = 0"
| "dlist st q p (x # xs) \<longleftrightarrow> p = x \<and> x \<noteq> 0 \<and> (\<exists>b. st x = Some b \<and> sb_prev b = q \<and> dlist st x (sb_next b) xs)"

fun dseg :: "(ptr \<rightharpoonup> shm_block) \<Rightarrow> ptr \<Rightarrow> ptr \<Rightarrow> ptr list \<Rightarrow> ptr \<Rightarrow> ptr \<Rightarrow> bool" where
  "dseg st q p [] q' p' \<longleftrightarrow> q = q' \<and> p = p'"
| "dseg st q p (x # xs) q' p' \<longleftrightarrow> p = x \<and> x \<noteq> 0 \<and> (\<exists>b. st x = Some b \<and> sb_prev b = q \<and> dseg st x (sb_next b) xs q' p')"

lemma dlist_other [simp]: "x \<notin> set xs \<Longrightarrow> dlist (st(x := b)) q p xs = dlist st q p xs"
  by (induction xs arbitrary: q p) auto

lemma dseg_other [simp]: "x \<notin> set xs \<Longrightarrow> dseg (st(x := b)) q p xs q' p' = dseg st q p xs q' p'"
  by (induction xs arbitrary: q p) auto

lemma dlist_append: "dlist st q p (xs @ ys) \<longleftrightarrow> (\<exists>q' p'. dseg st q p xs q' p' \<and> dlist st q' p' ys)"
  by (induction xs arbitrary: q p) auto

lemma dseg_append: "dseg st q p (xs @ ys) q'' p'' \<longleftrightarrow> (\<exists>q' p'. dseg st q p xs q' p' \<and> dseg st q' p' ys q'' p'')"
  by (induction xs arbitrary: q p) auto

lemma dlist_known: "dlist st q p xs \<Longrightarrow> x \<in> set xs \<Longrightarrow> \<exists>b. st x = Some b \<and> x \<noteq> 0"
  by (induction xs arbitrary: q p) auto

lemma dseg_last: "dseg st q p xs q' p' \<Longrightarrow> q' = (if xs = [] then q else last xs)"
  by (induction xs arbitrary: q p) auto

lemma dlist_first: "dlist st q p xs \<Longrightarrow> p = (if xs = [] then 0 else hd xs)"
  by (cases xs) auto

text \<open>Another predecessor for the first element.\<close>

definition relink :: "ptr \<Rightarrow> ptr \<Rightarrow> (ptr \<rightharpoonup> shm_block) \<Rightarrow> (ptr \<rightharpoonup> shm_block)" where
  "relink p q st = (case st p of None \<Rightarrow> st | Some b \<Rightarrow> if p = 0 then st else st(p \<mapsto> b\<lparr>sb_prev := q\<rparr>))"

lemma dlist_relink: "dlist st q p xs \<Longrightarrow> distinct xs \<Longrightarrow> dlist (relink p q' st) q' p xs"
  by (cases xs) (auto simp: relink_def split: option.splits)

lemma relink_other: "x \<noteq> p \<Longrightarrow> relink p q st x = st x"
  by (simp add: relink_def split: option.splits)

lemma dseg_relink: "p \<notin> set xs \<Longrightarrow> dseg (relink p q' st) q r xs a b = dseg st q r xs a b"
  by (simp add: relink_def split: option.splits)

section \<open>The intervals\<close>

type_synonym blk = "nat \<times> nat \<times> bool"

text \<open>The start, the size and whether it is a hole.\<close>

definition tr :: "(ptr \<rightharpoonup> shm_block) \<Rightarrow> ptr \<Rightarrow> blk" where
  "tr st x = (case st x of None \<Rightarrow> (0, 0, False) | Some b \<Rightarrow> (unat (sb_start b), unat (sb_size b), is_hole b))"

fun tiles :: "nat \<Rightarrow> nat \<Rightarrow> blk list \<Rightarrow> bool" where
  "tiles a e [] \<longleftrightarrow> a = e"
| "tiles a e ((st, sz, h) # bs) \<longleftrightarrow> st = a \<and> 0 < sz \<and> tiles (a + sz) e bs"

fun merged :: "blk list \<Rightarrow> bool" where
  "merged (a # b # bs) \<longleftrightarrow> \<not> (snd (snd a) \<and> snd (snd b)) \<and> merged (b # bs)"
| "merged _ \<longleftrightarrow> True"

lemma tiles_le: "tiles a e bs \<Longrightarrow> a \<le> e"
  by (induction bs arbitrary: a) fastforce+

lemma tiles_append: "tiles a e (bs @ cs) \<longleftrightarrow> (\<exists>m. tiles a m bs \<and> tiles m e cs)"
  by (induction bs arbitrary: a) auto

lemma tiles_mem: "tiles a e bs \<Longrightarrow> (st, sz, h) \<in> set bs \<Longrightarrow> a \<le> st \<and> 0 < sz \<and> st + sz \<le> e"
proof (induction bs arbitrary: a)
  case (Cons b bs)
  obtain s0 z0 h0 where b: "b = (s0, z0, h0)" by (cases b)
  then show ?case using Cons.IH[of "a + z0"] Cons.prems tiles_le[of "a + z0" e bs] by auto
qed simp

text \<open>Two blocks of a tiling are the same or disjoint.\<close>

lemma tiles_disjoint:
  assumes "tiles a e bs" and "(st, sz, h) \<in> set bs" and "(st', sz', h') \<in> set bs"
  shows "(st, sz, h) = (st', sz', h') \<or> st + sz \<le> st' \<or> st' + sz' \<le> st"
  using assms
proof (induction bs arbitrary: a)
  case (Cons b bs)
  obtain s0 z0 h0 where b: "b = (s0, z0, h0)" by (cases b)
  then have t: "tiles (a + z0) e bs" "s0 = a" using Cons.prems(1) by auto
  show ?case using Cons.prems(2,3) b Cons.IH[OF t(1)] tiles_mem[OF t(1), of st sz h] tiles_mem[OF t(1), of st' sz' h'] t(2) by auto
qed simp

lemma tr_upd [simp]: "tr (st(x := b)) y = (if y = x then (case b of None \<Rightarrow> (0, 0, False) | Some b \<Rightarrow> (unat (sb_start b), unat (sb_size b), is_hole b)) else tr st y)"
  by (simp add: tr_def)

lemma tr_relink [simp]: "tr (relink p q st) y = tr st y"
  by (simp add: relink_def tr_def split: option.splits)

section \<open>Best fit\<close>

definition fits :: "(ptr \<rightharpoonup> shm_block) \<Rightarrow> u32 \<Rightarrow> ptr \<Rightarrow> bool" where
  "fits st sz x \<longleftrightarrow> (case st x of None \<Rightarrow> False | Some b \<Rightarrow> sz \<le> sb_size b \<and> is_hole b)"

definition bsize_of :: "(ptr \<rightharpoonup> shm_block) \<Rightarrow> ptr \<Rightarrow> u32" where
  "bsize_of st x = (case st x of None \<Rightarrow> 0 | Some b \<Rightarrow> sb_size b)"

text \<open>The best of the candidate so far (0 for none) and a list of blocks.\<close>

definition best_of :: "(ptr \<rightharpoonup> shm_block) \<Rightarrow> u32 \<Rightarrow> ptr \<Rightarrow> ptr list \<Rightarrow> ptr \<Rightarrow> bool" where
  "best_of st sz block xs r \<longleftrightarrow>
     (if r = 0 then block = 0 \<and> (\<forall>x\<in>set xs. \<not> fits st sz x)
      else (r = block \<or> r \<in> set xs) \<and> fits st sz r \<and> (\<forall>x\<in>set xs. fits st sz x \<longrightarrow> bsize_of st r \<le> bsize_of st x)
        \<and> (block \<noteq> 0 \<longrightarrow> bsize_of st r \<le> bsize_of st block))"

lemma best_of_take:
  assumes "best_of st sz y xs r" and "y \<noteq> 0" and "fits st sz y" and "block = 0 \<or> bsize_of st y < bsize_of st block"
  shows "best_of st sz block (y # xs) r"
proof -
  have "r \<noteq> 0" using assms(1,2) by (simp add: best_of_def split: if_splits)
  then have r: "r = y \<or> r \<in> set xs" "fits st sz r" "\<forall>x\<in>set xs. fits st sz x \<longrightarrow> bsize_of st r \<le> bsize_of st x" "bsize_of st r \<le> bsize_of st y"
    using assms(1,2) by (simp_all add: best_of_def)
  then have "block \<noteq> 0 \<longrightarrow> bsize_of st r \<le> bsize_of st block" using assms(4) by force
  then show ?thesis using r \<open>r \<noteq> 0\<close> assms(3) by (auto simp: best_of_def)
qed

lemma best_of_skip:
  assumes "best_of st sz block xs r" and "fits st sz y \<Longrightarrow> block \<noteq> 0 \<and> bsize_of st block \<le> bsize_of st y"
  shows "best_of st sz block (y # xs) r"
proof (cases "r = 0")
  case False
  then have r: "r = block \<or> r \<in> set xs" "fits st sz r" "\<forall>x\<in>set xs. fits st sz x \<longrightarrow> bsize_of st r \<le> bsize_of st x"
     "block \<noteq> 0 \<longrightarrow> bsize_of st r \<le> bsize_of st block"
    using assms(1) by (simp_all add: best_of_def)
  then have "fits st sz y \<longrightarrow> bsize_of st r \<le> bsize_of st y" using assms(2) by force
  then show ?thesis using r False by (auto simp: best_of_def)
qed (use assms in \<open>auto simp: best_of_def\<close>)

lemma best_fit_ok:
  assumes "dlist (ustore s) q i xs" and "block \<noteq> 0 \<Longrightarrow> \<exists>b. the_blk s block = Some b"
    and "block \<noteq> 0 \<Longrightarrow> fits (ustore s) sz block"
  shows "\<exists>r. best_fit s sz i block = Some r \<and> best_of (ustore s) sz block xs r"
  using assms
proof (induction xs arbitrary: q i block)
  case Nil
  then show ?case by (subst best_fit.simps) (auto simp: best_of_def)
next
  case (Cons y xs)
  then obtain b where b: "i = y" "y \<noteq> 0" "ustore s y = Some b" "dlist (ustore s) y (sb_next b) xs" by auto
  have tb: "the_blk s y = Some b" using b by (simp add: the_blk_def)
  have f: "fits (ustore s) sz y \<longleftrightarrow> sz \<le> sb_size b \<and> is_hole b" using b(3) by (simp add: fits_def)
  have sb: "bsize_of (ustore s) y = sb_size b" using b(3) by (simp add: bsize_of_def)
  show ?case
  proof (cases "fits (ustore s) sz y \<and> (block = 0 \<or> sb_size b < bsize_of (ustore s) block)")
    case True
    then have e: "best_fit s sz i block = best_fit s sz (sb_next b) y"
      using Cons.prems(2) tb b(1,2) f by (subst best_fit.simps) (auto simp: bsize_of_def the_blk_def split: if_splits)
    show ?thesis using Cons.IH[OF b(4), of y] tb True e sb b(2) best_of_take[of "ustore s" sz y xs _ block] by auto
  next
    case False
    then have e: "best_fit s sz i block = best_fit s sz (sb_next b) block"
      using Cons.prems(2) tb b(1,2) f by (subst best_fit.simps) (auto simp: bsize_of_def the_blk_def split: if_splits)
    show ?thesis using Cons.IH[OF b(4) Cons.prems(2,3)] False e sb best_of_skip[of "ustore s" sz block xs _ y] by auto
  qed
qed

section \<open>The steps on the list\<close>

definition shm_list :: "ushm \<Rightarrow> ptr list \<Rightarrow> blk list \<Rightarrow> bool" where
  "shm_list s ps bs \<longleftrightarrow> dlist (ustore s) 0 (ublocks s) ps \<and> distinct ps \<and> map (tr (ustore s)) ps = bs"

text \<open>The block \<open>p\<close> between \<open>xs\<close> and \<open>ys\<close>.\<close>

lemma dlist_at:
  assumes "dlist st q h (xs @ p # ys)"
  obtains b where "st p = Some b" "p \<noteq> 0" "dseg st q h xs (sb_prev b) p" "dlist st p (sb_next b) ys"
  using assms by (auto simp: dlist_append)

lemma upd_next:
  assumes "dlist (ustore s) q i ys"
  shows "set_prev i p s = Some (s\<lparr>ustore := relink i p (ustore s)\<rparr>)"
  using assms by (cases ys) (auto simp: set_prev_def upd_blk_def the_blk_def relink_def split: option.splits)

lemma hole_list:
  assumes "shm_list s (xs @ p # ys) (as @ (a, w, h) # cs)" and "length as = length xs"
  shows "\<exists>s'. upd_blk p (\<lambda>b. b\<lparr>is_hole := v\<rparr>) s = Some s' \<and> shm_list s' (xs @ p # ys) (as @ (a, w, v) # cs)
     \<and> usupply s' = usupply s \<and> ublocks s' = ublocks s"
proof -
  have d: "dlist (ustore s) 0 (ublocks s) (xs @ p # ys)" "p \<notin> set xs" "p \<notin> set ys" using assms(1) by (auto simp: shm_list_def)
  from d(1) obtain b where b: "ustore s p = Some b" "p \<noteq> 0" "dseg (ustore s) 0 (ublocks s) xs (sb_prev b) p" "dlist (ustore s) p (sb_next b) ys"
    by (rule dlist_at)
  define s' where "s' = s\<lparr>ustore := (ustore s)(p \<mapsto> b\<lparr>is_hole := v\<rparr>)\<rparr>"
  have u: "upd_blk p (\<lambda>b. b\<lparr>is_hole := v\<rparr>) s = Some s'" using b by (simp add: upd_blk_def the_blk_def s'_def)
  have "shm_list s' (xs @ p # ys) (as @ (a, w, v) # cs)"
    using assms b d by (auto simp: shm_list_def s'_def dlist_append tr_def[of "ustore s" p])
  then show ?thesis using u by (auto simp: s'_def)
qed

lemma split_block_list:
  assumes l: "shm_list s (xs @ p # ys) (as @ (a, w, h) # cs)" and len: "length as = length xs"
    and sz: "unat sz < w" and e: "a + w < 2 ^ 32" and n: "usupply s = n # ns" "n \<noteq> 0" "n \<notin> set (xs @ p # ys)"
  shows "\<exists>s'. split_block p sz s = Some s'
     \<and> shm_list s' (xs @ p # n # ys) (as @ (a, unat sz, h) # (a + unat sz, w - unat sz, True) # cs)
     \<and> ublocks s' = ublocks s \<and> usupply s' = ns"
proof -
  have d: "dlist (ustore s) 0 (ublocks s) (xs @ p # ys)" "p \<notin> set xs" "p \<notin> set ys" "distinct xs" "distinct ys" "set xs \<inter> set ys = {}"
    using l by (auto simp: shm_list_def)
  from d(1) obtain b where b: "ustore s p = Some b" "p \<noteq> 0" "dseg (ustore s) 0 (ublocks s) xs (sb_prev b) p" "dlist (ustore s) p (sb_next b) ys"
    by (rule dlist_at)
  have tb: "unat (sb_start b) = a" "unat (sb_size b) = w" "is_hole b = h" "map (tr (ustore s)) xs = as" "map (tr (ustore s)) ys = cs"
    using l len b(1) by (auto simp: shm_list_def tr_def[of "ustore s" p])
  define N where "N = \<lparr>sb_start = sb_start b + sz, sb_size = sb_size b - sz, is_hole = True, sb_prev = p, sb_next = sb_next b\<rparr>"
  define st1 where "st1 = (ustore s)(n \<mapsto> N, p \<mapsto> b\<lparr>sb_size := sz\<rparr>)"
  define s' where "s' = s\<lparr>usupply := ns, ustore := (relink (sb_next b) n st1)(p \<mapsto> b\<lparr>sb_size := sz, sb_next := n\<rparr>)\<rparr>"
  have l1: "dlist st1 p (sb_next b) ys" using b(4) d(3) n(3) by (simp add: st1_def)
  have nx: "sb_next b \<noteq> p" "sb_next b \<noteq> n" "sb_next b \<notin> set xs"
    using dlist_first[OF b(4)] b(2) n(2,3) d dlist_known[OF d(1)] by (cases ys; fastforce)+
  have u: "new_blk N s = Some (n, s\<lparr>usupply := ns, ustore := (ustore s)(n \<mapsto> N)\<rparr>)"
     "upd_blk p (\<lambda>b. b\<lparr>sb_size := sz\<rparr>) (s\<lparr>usupply := ns, ustore := (ustore s)(n \<mapsto> N)\<rparr>) = Some (s\<lparr>usupply := ns, ustore := st1\<rparr>)"
     "set_prev (sb_next b) n (s\<lparr>usupply := ns, ustore := st1\<rparr>) = Some (s\<lparr>usupply := ns, ustore := relink (sb_next b) n st1\<rparr>)"
    using b(1,2) n upd_next[of "s\<lparr>usupply := ns, ustore := st1\<rparr>" p "sb_next b" ys n] l1
    by (auto simp: new_blk_def upd_blk_def the_blk_def st1_def)
  have "upd_blk p (\<lambda>b. b\<lparr>sb_next := n\<rparr>) (s\<lparr>usupply := ns, ustore := relink (sb_next b) n st1\<rparr>) = Some s'"
    using b(2) nx(1) by (simp add: upd_blk_def the_blk_def relink_other) (simp add: st1_def s'_def)
  then have "split_block p sz s = Some s'"
    using b(1,2) sz tb(2) by (simp add: split_block_def the_blk_def N_def[symmetric] word_less_nat_alt u)
  moreover have "dlist (ustore s') 0 (ublocks s') (xs @ p # n # ys)"
  proof -
    have "dseg (ustore s') 0 (ublocks s') xs (sb_prev b) p" using b(3) d(2) n(3) nx by (simp add: s'_def dseg_relink st1_def)
    moreover have "dlist (ustore s') n (sb_next b) ys" using dlist_relink[OF l1 d(5)] d(3) by (simp add: s'_def)
    ultimately show ?thesis using b(2) n(2,3) nx by (auto simp: dlist_append s'_def relink_other st1_def N_def)
  qed
  moreover have "unat (sb_start b + sz) = a + unat sz" "unat (sb_size b - sz) = w - unat sz"
    using tb sz e unat_sub[of sz "sb_size b"] by (auto simp: unat_word_ariths word_le_nat_alt)
  then have "map (tr (ustore s')) (xs @ p # n # ys) = as @ (a, unat sz, h) # (a + unat sz, w - unat sz, True) # cs"
    using tb d(2,3) n(3) nx by (auto simp: s'_def st1_def N_def)
  ultimately show ?thesis using d n(3) by (auto simp: shm_list_def s'_def)
qed

lemma unify_list:
  assumes l: "shm_list s (xs @ p # n # ys) (as @ (a, w, True) # (c, v, True) # cs)" and len: "length as = length xs"
    and e: "w + v < 2 ^ 32"
  shows "\<exists>s'. unify p s = Some s' \<and> shm_list s' (xs @ p # ys) (as @ (a, w + v, True) # cs)
     \<and> ublocks s' = ublocks s \<and> usupply s' = usupply s"
proof -
  have d: "dlist (ustore s) 0 (ublocks s) (xs @ p # n # ys)" "p \<notin> set xs" "p \<notin> set ys" "n \<noteq> p" "n \<notin> set xs" "n \<notin> set ys"
     "distinct xs" "distinct ys" "set xs \<inter> set ys = {}"
    using l by (auto simp: shm_list_def)
  from d(1) obtain b where b: "ustore s p = Some b" "p \<noteq> 0" "dseg (ustore s) 0 (ublocks s) xs (sb_prev b) p" "dlist (ustore s) p (sb_next b) (n # ys)"
    by (rule dlist_at)
  then obtain m where m: "sb_next b = n" "n \<noteq> 0" "ustore s n = Some m" "dlist (ustore s) n (sb_next m) ys" by auto
  have tb: "unat (sb_start b) = a" "unat (sb_size b) = w" "is_hole b" "unat (sb_size m) = v" "is_hole m"
     "map (tr (ustore s)) xs = as" "map (tr (ustore s)) ys = cs"
    using l len b(1) m(3) by (auto simp: shm_list_def tr_def[of "ustore s" p] tr_def[of "ustore s" n])
  define st1 where "st1 = (ustore s)(p \<mapsto> b\<lparr>sb_size := sb_size b + sb_size m\<rparr>)"
  define s' where "s' = s\<lparr>ustore := (relink (sb_next m) p st1)(p \<mapsto> b\<lparr>sb_size := sb_size b + sb_size m, sb_next := sb_next m\<rparr>, n := None)\<rparr>"
  have l1: "dlist st1 n (sb_next m) ys" using m(4) d(3) by (simp add: st1_def)
  have nx: "sb_next m \<noteq> p" "sb_next m \<notin> set xs"
    using dlist_first[OF m(4)] b(2) d dlist_known[OF d(1)] by (cases ys; fastforce)+
  have u: "upd_blk p (\<lambda>b. b\<lparr>sb_size := sb_size b + sb_size m\<rparr>) s = Some (s\<lparr>ustore := st1\<rparr>)"
     "set_prev (sb_next m) p (s\<lparr>ustore := st1\<rparr>) = Some (s\<lparr>ustore := relink (sb_next m) p st1\<rparr>)"
    using b(1,2) upd_next[of "s\<lparr>ustore := st1\<rparr>" n "sb_next m" ys p] l1 by (simp_all add: upd_blk_def the_blk_def st1_def)
  have "upd_blk p (\<lambda>b. b\<lparr>sb_next := sb_next m\<rparr>) (s\<lparr>ustore := relink (sb_next m) p st1\<rparr>)
      = Some (s\<lparr>ustore := (relink (sb_next m) p st1)(p \<mapsto> b\<lparr>sb_size := sb_size b + sb_size m, sb_next := sb_next m\<rparr>)\<rparr>)"
    using b(2) nx(1) by (simp add: upd_blk_def the_blk_def relink_other) (simp add: st1_def)
  then have "unify p s = Some s'"
    using b(1,2) m(1-3) tb(3,5) by (simp add: unify_def the_blk_def u s'_def)
  moreover have "dlist (ustore s') 0 (ublocks s') (xs @ p # ys)"
  proof -
    have "dseg (ustore s') 0 (ublocks s') xs (sb_prev b) p" using b(3) d(2,5) nx by (simp add: s'_def dseg_relink st1_def)
    moreover have "dlist (ustore s') p (sb_next m) ys" using dlist_relink[OF l1 d(8)] d(3,6) by (simp add: s'_def)
    ultimately show ?thesis using b(2) d(4) by (auto simp: dlist_append s'_def)
  qed
  moreover have "unat (sb_size b + sb_size m) = w + v" using tb e by (simp add: unat_word_ariths)
  then have "map (tr (ustore s')) (xs @ p # ys) = as @ (a, w + v, True) # cs" using tb d(2-6) by (auto simp: s'_def st1_def)
  ultimately show ?thesis using d by (auto simp: shm_list_def s'_def)
qed

section \<open>The abstract lists\<close>

definition shm_rep :: "ushm \<Rightarrow> ptr list \<Rightarrow> blk list \<Rightarrow> bool" where
  "shm_rep s ps bs \<longleftrightarrow> shm_list s ps bs \<and> ps \<noteq> [] \<and> tiles 0x80000000 0xD0000000 bs \<and> merged bs"

text \<open>What an allocation of \<open>z\<close> bytes at \<open>a\<close> does to the blocks: the smallest hole that is large enough is split.\<close>

definition allocated :: "nat \<Rightarrow> blk list \<Rightarrow> nat \<Rightarrow> blk list \<Rightarrow> bool" where
  "allocated z bs a bs' \<longleftrightarrow> (\<exists>xs w ys. bs = xs @ (a, w, True) # ys \<and> z \<le> w \<and> (\<forall>(c, v, h)\<in>set bs. h \<longrightarrow> z \<le> v \<longrightarrow> w \<le> v)
     \<and> bs' = xs @ (a, z, False) # (if z < w then [(a + z, w - z, True)] else []) @ ys)"

text \<open>The block at an address becomes a hole, and all neighbouring holes become one.\<close>

fun merge_holes :: "blk list \<Rightarrow> blk list" where
  "merge_holes (x # y # bs) =
     (if snd (snd x) \<and> snd (snd y) then merge_holes ((fst x, fst (snd x) + fst (snd y), True) # bs) else x # merge_holes (y # bs))"
| "merge_holes bs = bs"

definition mark_hole :: "nat \<Rightarrow> blk \<Rightarrow> blk" where
  "mark_hole a = (\<lambda>(c, v, h). (c, v, h \<or> c = a))"

definition released :: "nat \<Rightarrow> blk list \<Rightarrow> blk list" where
  "released a bs = merge_holes (map (mark_hole a) bs)"

lemma merged_tl: "merged (x # bs) \<Longrightarrow> merged bs"
  by (cases bs) auto

lemma merge_merged [simp]: "merged bs \<Longrightarrow> merge_holes bs = bs"
  by (induction bs rule: merged.induct) auto

lemma merge_append:
  "merged (xs @ [y]) \<Longrightarrow> merge_holes (xs @ y # ys) = xs @ merge_holes (y # ys)"
  by (induction xs rule: merged.induct) auto

fun absorb :: "blk list \<Rightarrow> nat \<times> blk list" where
  "absorb ((c, v, True) # cs) = (v, cs)"
| "absorb cs = (0, cs)"

lemma merge_hole: "merged cs \<Longrightarrow> merge_holes ((a, w, True) # cs) = (a, w + fst (absorb cs), True) # snd (absorb cs)"
proof (cases cs rule: absorb.cases)
  case (1 c v cs')
  assume "merged cs"
  then have "merged ((a, w + v, True) # cs')" using 1 by (cases cs') auto
  then show ?thesis using 1 by simp
qed auto

lemma tiles_merge: "tiles a e bs \<Longrightarrow> tiles a e (merge_holes bs)"
  by (induction bs arbitrary: a rule: merge_holes.induct) (auto simp: add.assoc)

lemma merge_hd: "\<exists>y zs. merge_holes (x # bs) = y # zs \<and> snd (snd y) = snd (snd x)"
  by (induction "x # bs" arbitrary: x bs rule: merge_holes.induct) auto

lemma merged_merge: "merged (merge_holes bs)"
proof (induction bs rule: merge_holes.induct)
  case (1 x y bs)
  then show ?case using merge_hd[of y bs] by auto
qed auto

lemma find_start_ok:
  "dlist (ustore s) q i xs \<Longrightarrow> find_start s p i = Some (case find (\<lambda>x. fst (tr (ustore s) x) = unat p) xs of None \<Rightarrow> 0 | Some x \<Rightarrow> x)"
proof (induction xs arbitrary: q i)
  case Nil
  then show ?case by (subst find_start.simps) simp
next
  case (Cons y xs)
  then obtain b where "i = y" "y \<noteq> 0" "ustore s y = Some b" "dlist (ustore s) y (sb_next b) xs" by auto
  then show ?case using Cons.IH[of y "sb_next b"] by (subst find_start.simps) (auto simp: the_blk_def tr_def eq_u32)
qed

lemma unify_after_list:
  assumes "shm_list s (xs @ p # ys) (as @ (a, w, True) # cs)" and "length as = length xs" and "tiles lo 0xD0000000 (as @ (a, w, True) # cs)"
  shows "\<exists>s' ys'. unify_after p s = Some s' \<and> shm_list s' (xs @ p # ys') (as @ (a, w + fst (absorb cs), True) # snd (absorb cs))
     \<and> ublocks s' = ublocks s \<and> usupply s' = usupply s"
proof -
  have d: "dlist (ustore s) 0 (ublocks s) (xs @ p # ys)" "map (tr (ustore s)) ys = cs" using assms(1,2) by (auto simp: shm_list_def)
  from d(1) obtain b where b: "ustore s p = Some b" "p \<noteq> 0" "dlist (ustore s) p (sb_next b) ys" by (rule dlist_at)
  show ?thesis
  proof (cases ys)
    case Nil
    then show ?thesis using b d assms by (intro exI[of _ s] exI[of _ ys]) (auto simp: unify_after_def the_blk_def)
  next
    case (Cons n ns)
    then obtain m where m: "sb_next b = n" "n \<noteq> 0" "ustore s n = Some m" using b(3) by auto
    have cs: "cs = (unat (sb_start m), unat (sb_size m), is_hole m) # map (tr (ustore s)) ns" using d(2) m(3) Cons by (auto simp: tr_def)
    show ?thesis
    proof (cases "is_hole m")
      case False
      then show ?thesis using b m cs assms Cons by (intro exI[of _ s] exI[of _ ys]) (auto simp: unify_after_def the_blk_def)
    next
      case True
      have "w + unat (sb_size m) < 2 ^ 32" using assms(3) cs tiles_le by (fastforce simp: tiles_append)
      from unify_list[of s xs p n ns as a w "unat (sb_start m)" "unat (sb_size m)" "map (tr (ustore s)) ns", OF _ assms(2) this]
      show ?thesis using assms(1) True b m cs Cons by (auto simp: unify_after_def the_blk_def)
    qed
  qed
qed

lemma unify_before_list:
  assumes "shm_list s (xs @ p # ys) (as @ (a, w, True) # cs)" and "length as = length xs" and "tiles lo 0xD0000000 (as @ (a, w, True) # cs)"
    and "merged ((a, w, True) # cs)" and "merged as"
  shows "\<exists>s' ps'. unify_before p s = Some s' \<and> shm_list s' ps' (merge_holes (as @ (a, w, True) # cs)) \<and> ps' \<noteq> []
     \<and> ublocks s' = ublocks s \<and> usupply s' = usupply s"
proof -
  have d: "dlist (ustore s) 0 (ublocks s) (xs @ p # ys)" "map (tr (ustore s)) xs = as" using assms(1,2) by (auto simp: shm_list_def)
  from d(1) obtain b where b: "ustore s p = Some b" "p \<noteq> 0" "dseg (ustore s) 0 (ublocks s) xs (sb_prev b) p" by (rule dlist_at)
  show ?thesis
  proof (cases xs rule: rev_cases)
    case Nil
    then show ?thesis using b d assms by (intro exI[of _ s] exI[of _ "xs @ p # ys"]) (auto simp: unify_before_def the_blk_def)
  next
    case (snoc xs0 q)
    then obtain m where m: "sb_prev b = q" "q \<noteq> 0" "ustore s q = Some m" using b(3) by (auto simp: dseg_append)
    define as0 where "as0 = map (tr (ustore s)) xs0"
    have as: "as = as0 @ [(unat (sb_start m), unat (sb_size m), is_hole m)]" using d(2) m(3) snoc by (auto simp: tr_def as0_def)
    have mg: "merge_holes (as @ (a, w, True) # cs) = as0 @ merge_holes ((unat (sb_start m), unat (sb_size m), is_hole m) # (a, w, True) # cs)"
      using merge_append[of as0 "(unat (sb_start m), unat (sb_size m), is_hole m)"] assms(5) as by simp
    show ?thesis
    proof (cases "is_hole m")
      case False
      then have "merge_holes (as @ (a, w, True) # cs) = as @ (a, w, True) # cs" using mg assms(4) as by simp
      then show ?thesis using b m assms False by (intro exI[of _ s] exI[of _ "xs @ p # ys"]) (auto simp: unify_before_def the_blk_def)
    next
      case True
      have e: "unat (sb_size m) + w < 2 ^ 32" using assms(3) as tiles_le by (fastforce simp: tiles_append)
      have "merged ((unat (sb_start m), unat (sb_size m) + w, True) # cs)" using assms(4) by (cases cs) auto
      then have mg2: "merge_holes (as @ (a, w, True) # cs) = as0 @ (unat (sb_start m), unat (sb_size m) + w, True) # cs" using mg True by simp
      from unify_list[of s xs0 q p ys as0 "unat (sb_start m)" "unat (sb_size m)" a w cs, OF _ _ e]
      obtain s' where "unify q s = Some s'" "shm_list s' (xs0 @ q # ys) (as0 @ (unat (sb_start m), unat (sb_size m) + w, True) # cs)"
         "ublocks s' = ublocks s" "usupply s' = usupply s"
        using assms(1,2) as snoc True by auto
      then show ?thesis using b m True mg2 by (intro exI[of _ s'] exI[of _ "xs0 @ q # ys"]) (auto simp: unify_before_def the_blk_def)
    qed
  qed
qed

lemma tiles_starts:
  assumes "tiles lo e (as @ (a, w, h) # cs)"
  shows "map (mark_hole a) (as @ (a, w, h) # cs) = as @ (a, w, True) # cs"
proof -
  from assms obtain m where t: "tiles lo a as" "tiles (a + w) e cs" "0 < w" by (auto simp: tiles_append)
  have "\<forall>x\<in>set as. mark_hole a x = x" "\<forall>x\<in>set cs. mark_hole a x = x"
    using tiles_mem[OF t(1)] tiles_mem[OF t(2)] t(3) by (fastforce simp: mark_hole_def)+
  then show ?thesis by (auto simp: mark_hole_def map_idI)
qed

lemma merged_append: "merged (xs @ ys) \<Longrightarrow> merged xs \<and> merged ys"
  by (induction xs rule: merged.induct) (auto dest: merged_tl)

lemma merge_absorb:
  assumes "merged as" and "merged cs"
  shows "merge_holes (as @ (a, w + fst (absorb cs), True) # snd (absorb cs)) = merge_holes (as @ (a, w, True) # cs)"
proof -
  note mc = merge_hole[OF assms(2), of a w]
  have mc2: "merged ((a, w + fst (absorb cs), True) # snd (absorb cs))" using merged_merge[of "(a, w, True) # cs"] mc by simp
  show ?thesis
  proof (cases as rule: rev_cases)
    case Nil
    then show ?thesis using mc mc2 by simp
  next
    case (snoc as0 y)
    have "merge_holes (y # (a, w + fst (absorb cs), True) # snd (absorb cs)) = merge_holes (y # (a, w, True) # cs)"
      using mc mc2 by (cases y; cases cs rule: absorb.cases) (auto simp: add.assoc)
    then show ?thesis using snoc assms(1) merge_append[of as0 y] by simp
  qed
qed

lemma shm_free_rep:
  assumes "shm_rep s ps bs"
  shows "\<exists>s' ps'. shm_free p s = Some s' \<and> shm_rep s' ps' (released (unat p) bs) \<and> ublocks s' = ublocks s \<and> usupply s' = usupply s"
proof -
  have l: "dlist (ustore s) 0 (ublocks s) ps" "map (tr (ustore s)) ps = bs" "shm_list s ps bs" "ps \<noteq> []" "tiles 0x80000000 0xD0000000 bs" "merged bs"
    using assms by (auto simp: shm_rep_def shm_list_def)
  note fs = find_start_ok[OF l(1), of p]
  show ?thesis
  proof (cases "find (\<lambda>x. fst (tr (ustore s) x) = unat p) ps")
    case None
    then have "\<forall>x\<in>set bs. fst x \<noteq> unat p" using l(2) by (auto simp: find_None_iff) (metis fst_conv)
    then have "map (mark_hole (unat p)) bs = bs" by (intro map_idI) (auto simp: mark_hole_def)
    then have "released (unat p) bs = bs" using l(6) by (simp add: released_def)
    then show ?thesis using fs None assms by (intro exI[of _ s] exI[of _ ps]) (simp add: shm_free_def)
  next
    case (Some x)
    then have x: "x \<in> set ps" "fst (tr (ustore s) x) = unat p" by (auto simp: find_Some_iff)
    then obtain xs ys where ps: "ps = xs @ x # ys" by (meson split_list)
    obtain a w h where tx: "tr (ustore s) x = (a, w, h)" by (cases "tr (ustore s) x")
    define as cs where "as = map (tr (ustore s)) xs" and "cs = map (tr (ustore s)) ys"
    have bs: "bs = as @ (unat p, w, h) # cs" and len: "length as = length xs" using l(2) ps tx x(2) by (auto simp: as_def cs_def)
    have "x \<noteq> 0" using dlist_known[OF l(1) x(1)] by blast
    have rel: "released (unat p) bs = merge_holes (as @ (unat p, w, True) # cs)"
      using tiles_starts[of "0x80000000" "0xD0000000" as "unat p" w h cs] l(5) bs by (simp add: released_def)
    have mg: "merged as" "merged cs" using l(6) bs merged_append[of as "(unat p, w, h) # cs"] merged_tl by auto
    have ti: "tiles 0x80000000 0xD0000000 (as @ (unat p, w, True) # cs)" using l(5) bs by (auto simp: tiles_append)
    from l(3) hole_list[of s xs x ys as "unat p" w h cs True] obtain s1 where s1: "upd_blk x (\<lambda>b. b\<lparr>is_hole := True\<rparr>) s = Some s1"
       "shm_list s1 (xs @ x # ys) (as @ (unat p, w, True) # cs)" "usupply s1 = usupply s" "ublocks s1 = ublocks s" using ps bs len by blast
    from unify_after_list[OF s1(2) len ti] obtain s2 ys2 where s2: "unify_after x s1 = Some s2"
       "shm_list s2 (xs @ x # ys2) (as @ (unat p, w + fst (absorb cs), True) # snd (absorb cs))" "ublocks s2 = ublocks s1" "usupply s2 = usupply s1" by blast
    define w2 cs2 where "w2 = w + fst (absorb cs)" and "cs2 = snd (absorb cs)"
    have mc: "merge_holes ((unat p, w, True) # cs) = (unat p, w2, True) # cs2" using merge_hole[OF mg(2)] by (simp add: w2_def cs2_def)
    have mc2: "merged ((unat p, w2, True) # cs2)" using merged_merge[of "(unat p, w, True) # cs"] mc by simp
    obtain m where m: "tiles 0x80000000 m as" "tiles m 0xD0000000 ((unat p, w, True) # cs)" using ti by (auto simp: tiles_append)
    have ti2: "tiles 0x80000000 0xD0000000 (as @ (unat p, w2, True) # cs2)"
      using m(1) tiles_merge[OF m(2)] unfolding mc tiles_append by blast
    note same = merge_absorb[OF mg, of "unat p" w, folded w2_def cs2_def]
    from unify_before_list[OF s2(2)[folded w2_def cs2_def] len ti2 mc2 mg(1)] obtain s3 ps3 where s3: "unify_before x s2 = Some s3"
       "shm_list s3 ps3 (merge_holes (as @ (unat p, w2, True) # cs2))" "ps3 \<noteq> []" "ublocks s3 = ublocks s2" "usupply s3 = usupply s2" by blast
    have "shm_free p s = Some s3" using fs Some s1(1) s2(1) s3(1) \<open>x \<noteq> 0\<close> by (simp add: shm_free_def)
    moreover have "shm_rep s3 ps3 (released (unat p) bs)"
      using s3(2,3) tiles_merge[OF ti] merged_merge same by (simp add: shm_rep_def rel)
    ultimately show ?thesis using s1(3,4) s2(3,4) s3(4,5) by auto
  qed
qed

lemma allocated_tiles:
  assumes "allocated z bs a bs'" and "tiles lo e bs" and "0 < z"
  shows "tiles lo e bs'"
proof -
  obtain xs w ys where x: "bs = xs @ (a, w, True) # ys" "z \<le> w" "bs' = xs @ (a, z, False) # (if z < w then [(a + z, w - z, True)] else []) @ ys"
    using assms(1) by (auto simp: allocated_def)
  then show ?thesis using assms(2,3) by (auto simp: tiles_append)
qed

lemma merged_used: "merged (xs @ (a, w, True) # ys) \<Longrightarrow> merged (xs @ (a, z, False) # (if k then [(b, v, True)] else []) @ ys)"
proof (induction xs rule: merged.induct)
  case "2_1"
  then show ?case by (cases ys) auto
qed (cases ys; auto)+

lemma merged_resize: "merged (xs @ [(a, w, h)]) \<Longrightarrow> merged (xs @ [(b, v, h)])"
  by (induction xs rule: merged.induct) auto

lemma allocated_merged: "allocated z bs a bs' \<Longrightarrow> merged bs \<Longrightarrow> merged bs'"
  unfolding allocated_def using merged_used by blast

lemma allocated_released:
  assumes "allocated z bs a bs'" and "tiles lo e bs" and "0 < z" and "merged bs"
  shows "released a bs' = bs"
proof -
  obtain xs w ys where x: "bs = xs @ (a, w, True) # ys" "z \<le> w" "bs' = xs @ (a, z, False) # (if z < w then [(a + z, w - z, True)] else []) @ ys"
    using assms(1) by (auto simp: allocated_def)
  have m: "map (mark_hole a) bs' = xs @ (a, z, True) # (if z < w then [(a + z, w - z, True)] else []) @ ys"
    unfolding x(3) by (rule tiles_starts) (use allocated_tiles[OF assms(1-3)] x(3) in simp)
  have "merged (xs @ [(a, z, True)])" using assms(4) merged_append[of "xs @ [(a, w, True)]" ys] x(1) merged_resize by auto
  from merge_append[OF this] have "released a bs' = xs @ merge_holes ((a, z, True) # (if z < w then [(a + z, w - z, True)] else []) @ ys)"
    by (simp add: released_def m)
  moreover have "merged ((a, w, True) # ys)" using assms(4) x(1) merged_append by blast
  ultimately show ?thesis using x(1,2) by (cases "z < w") auto
qed

lemma fits_tr: "fits st sz x \<longleftrightarrow> snd (snd (tr st x)) \<and> unat sz \<le> fst (snd (tr st x))"
  by (auto simp: fits_def tr_def le_u32 split: option.splits)

lemma bsize_tr: "unat (bsize_of st x) = fst (snd (tr st x))"
  by (simp add: bsize_of_def tr_def split: option.splits)

text \<open>An allocation of a size that is already rounded.\<close>

lemma shm_alloc_rep:
  assumes rep: "shm_rep s ps bs" and z: "page_up sz = z" "z \<noteq> 0" and n: "usupply s = n # ns" "n \<noteq> 0" "n \<notin> set ps"
  shows "(\<exists>s' ps' bs' p. shm_alloc sz s = Some (p, s') \<and> p \<noteq> 0 \<and> shm_rep s' ps' bs' \<and> allocated (unat z) bs (unat p) bs')
    \<or> shm_alloc sz s = Some (0, s) \<and> (\<forall>(c, v, h)\<in>set bs. h \<longrightarrow> v < unat z)"
proof -
  have l: "dlist (ustore s) 0 (ublocks s) ps" "map (tr (ustore s)) ps = bs" "shm_list s ps bs" "ps \<noteq> []" "tiles 0x80000000 0xD0000000 bs" "merged bs" "distinct ps"
    using rep by (auto simp: shm_rep_def shm_list_def)
  have "ublocks s \<noteq> 0" using l(1,4) by (cases ps) auto
  from best_fit_ok[OF l(1), of 0 z] obtain x where x: "best_fit s z (ublocks s) 0 = Some x" "best_of (ustore s) z 0 ps x" by auto
  show ?thesis
  proof (cases "x = 0")
    case True
    then have "\<forall>y\<in>set ps. \<not> fits (ustore s) z y" using x(2) by (simp add: best_of_def)
    then have "\<forall>b\<in>set bs. snd (snd b) \<longrightarrow> fst (snd b) < unat z" using l(2)[symmetric] by (auto simp: fits_tr)
    then have "\<forall>(c, v, h)\<in>set bs. h \<longrightarrow> v < unat z" by fastforce
    then show ?thesis using True x(1) z(1) \<open>ublocks s \<noteq> 0\<close> by (simp add: shm_alloc_def)
  next
    case False
    then have f: "x \<in> set ps" "fits (ustore s) z x" "\<forall>y\<in>set ps. fits (ustore s) z y \<longrightarrow> bsize_of (ustore s) x \<le> bsize_of (ustore s) y"
      using x(2) by (simp_all add: best_of_def)
    from f(1) obtain xs ys where ps: "ps = xs @ x # ys" by (meson split_list)
    obtain a w h where tx: "tr (ustore s) x = (a, w, h)" by (cases "tr (ustore s) x")
    then have w: "h" "unat z \<le> w" using f(2) by (auto simp: fits_tr)
    define as cs where "as = map (tr (ustore s)) xs" and "cs = map (tr (ustore s)) ys"
    have bs: "bs = as @ (a, w, True) # cs" and len: "length as = length xs" using l(2) ps tx w(1) by (auto simp: as_def cs_def)
    have bound: "0x80000000 \<le> a" "a + w \<le> 0xD0000000" using tiles_mem[OF l(5), of a w True] bs by auto
    have min: "\<forall>(c, v, h)\<in>set bs. h \<longrightarrow> unat z \<le> v \<longrightarrow> w \<le> v"
    proof -
      have "\<forall>b\<in>set bs. snd (snd b) \<longrightarrow> unat z \<le> fst (snd b) \<longrightarrow> w \<le> fst (snd b)"
        using f(3) tx l(2)[symmetric] by (auto simp: fits_tr le_u32 bsize_tr)
      then show ?thesis by fastforce
    qed
    define rest where "rest = (if unat z < w then [(a + unat z, w - unat z, True)] else [])"
    have "\<exists>s1 zs. split_block x z s = Some s1 \<and> shm_list s1 (xs @ x # zs) (as @ (a, unat z, True) # rest @ cs) \<and> ublocks s1 = ublocks s"
    proof (cases "unat z < w")
      case True
      from split_block_list[of s xs x ys as a w True cs z n ns, OF _ len True _ n(1,2)] show ?thesis
        using l(3) ps bs n(3) bound True by (auto simp: rest_def)
    next
      case False
      then have "w = unat z" using w by simp
      obtain b where "ustore s x = Some b" "x \<noteq> 0" using dlist_known[OF l(1) f(1)] by blast
      then show ?thesis using \<open>w = unat z\<close> tx l(3) ps bs
        by (intro exI[of _ s] exI[of _ ys]) (auto simp: split_block_def the_blk_def tr_def rest_def less_u32)
    qed
    then obtain s1 zs where s1: "split_block x z s = Some s1" "shm_list s1 (xs @ x # zs) (as @ (a, unat z, True) # rest @ cs)" "ublocks s1 = ublocks s" by blast
    from hole_list[OF s1(2) len, of False] obtain s2 where s2: "upd_blk x (\<lambda>b. b\<lparr>is_hole := False\<rparr>) s1 = Some s2"
       "shm_list s2 (xs @ x # zs) (as @ (a, unat z, False) # rest @ cs)" by blast
    have al: "allocated (unat z) bs a (as @ (a, unat z, False) # rest @ cs)"
      using bs w(2) min unfolding allocated_def rest_def by blast
    have "0 < unat z" using z(2) by (simp add: unat_gt_0)
    with al have rep2: "shm_rep s2 (xs @ x # zs) (as @ (a, unat z, False) # rest @ cs)"
      using s2(2) allocated_tiles allocated_merged l(5,6) by (simp add: shm_rep_def)
    have "tr (ustore s2) x = (a, unat z, False)" "dlist (ustore s2) 0 (ublocks s2) (xs @ x # zs)" using s2(2) len by (auto simp: shm_list_def)
    then obtain b where b: "the_blk s2 x = Some b" "unat (sb_start b) = a" using dlist_known[of "ustore s2" 0 "ublocks s2" _ x] by (fastforce simp: tr_def the_blk_def)
    have "shm_alloc sz s = Some (sb_start b, s2)" using x(1) z(1) False s1 s2 b \<open>ublocks s \<noteq> 0\<close> by (simp add: shm_alloc_def)
    moreover have "sb_start b \<noteq> 0" using b(2) bound(1) by auto
    ultimately show ?thesis using al rep2 b(2) by blast
  qed
qed

section \<open>The contract of a block manager\<close>

text \<open>
  What the library relies on: \<open>st s bs\<close> says that the manager in state \<open>s\<close> stands for the intervals \<open>bs\<close>, and \<open>ready\<close> that it has the memory it needs.
\<close>

locale block_manager =
  fixes alloc :: "u32 \<Rightarrow> 's \<Rightarrow> (u32 \<times> 's) option" and release :: "u32 \<Rightarrow> 's \<Rightarrow> 's option"
    and st :: "'s \<Rightarrow> blk list \<Rightarrow> bool" and ready :: "'s \<Rightarrow> bool"
  assumes shape: "st s bs \<Longrightarrow> tiles 0x80000000 0xD0000000 bs \<and> merged bs"
    and alloc_law: "\<lbrakk> st s bs; ready s; page_up sz = z; z \<noteq> 0 \<rbrakk> \<Longrightarrow>
        (\<exists>p s' bs'. alloc sz s = Some (p, s') \<and> p \<noteq> 0 \<and> st s' bs' \<and> allocated (unat z) bs (unat p) bs')
      \<or> (\<exists>s'. alloc sz s = Some (0, s') \<and> st s' bs \<and> (\<forall>(c, v, h)\<in>set bs. h \<longrightarrow> v < unat z))"
    and release_law: "st s bs \<Longrightarrow> \<exists>s'. release p s = Some s' \<and> st s' (released (unat p) bs)"
begin

lemma alloc_best_fit:
  assumes "st s bs" and "ready s" and "page_up sz = z" and "z \<noteq> 0"
  shows "(\<exists>p s' bs'. alloc sz s = Some (p, s') \<and> st s' bs' \<and> allocated (unat z) bs (unat p) bs'
       \<and> tiles 0x80000000 0xD0000000 bs' \<and> 0x80000000 \<le> unat p \<and> unat p + unat z \<le> 0xD0000000
       \<and> (\<forall>(c, v, h)\<in>set bs. h \<or> c + v \<le> unat p \<or> unat p + unat z \<le> c))
    \<or> (\<exists>s'. alloc sz s = Some (0, s') \<and> st s' bs \<and> (\<forall>(c, v, h)\<in>set bs. h \<longrightarrow> v < unat z))"
  using alloc_law[OF assms]
proof (elim disjE exE conjE)
  fix p s' bs'
  assume a: "alloc sz s = Some (p, s')" "st s' bs'" "allocated (unat z) bs (unat p) bs'"
  note t = shape[OF assms(1), THEN conjunct1]
  from a(3) obtain xs w ys where "bs = xs @ (unat p, w, True) # ys" "unat z \<le> w" unfolding allocated_def by blast
  then have w: "(unat p, w, True) \<in> set bs" "unat z \<le> w" by simp_all
  have "\<forall>(c, v, h)\<in>set bs. h \<or> c + v \<le> unat p \<or> unat p + unat z \<le> c" using tiles_disjoint[OF t w(1)] w(2) by fastforce
  then show ?thesis using a shape[OF a(2)] tiles_mem[OF t w(1)] w(2) by (intro disjI1 exI[of _ p] exI[of _ s'] exI[of _ bs']) auto
qed blast

lemma alloc_release:
  assumes "st s bs" and "ready s" and "page_up sz = z" and "z \<noteq> 0"
  shows "\<exists>p s'. alloc sz s = Some (p, s') \<and> (p \<noteq> 0 \<longrightarrow> (\<exists>s''. release p s' = Some s'' \<and> st s'' bs))"
  using alloc_law[OF assms]
proof (elim disjE exE conjE)
  fix p s' bs'
  assume a: "alloc sz s = Some (p, s')" "st s' bs'" "allocated (unat z) bs (unat p) bs'"
  have "0 < unat z" using assms(4) by (simp add: unat_gt_0)
  then have "released (unat p) bs' = bs" using allocated_released[OF a(3)] shape[OF assms(1)] by blast
  then show ?thesis using release_law[OF a(2), of p] a(1) by auto
qed blast

end

section \<open>Properties\<close>

text \<open>
  The state of the manager and the intervals it stands for: before the first allocation there is no list, and the
  whole space is one hole.
\<close>

definition shm_state :: "ushm \<Rightarrow> blk list \<Rightarrow> bool" where
  "shm_state s bs \<longleftrightarrow> (if ublocks s = 0 then bs = [(0x80000000, 0x50000000, True)] else \<exists>ps. shm_rep s ps bs)"

text \<open>The next two structures that \<open>malloc\<close> returns are not null and not in use.\<close>

definition supply_ok :: "ushm \<Rightarrow> bool" where
  "supply_ok s \<longleftrightarrow> (case usupply s of m # n # ns \<Rightarrow> m \<noteq> n \<and> m \<noteq> 0 \<and> n \<noteq> 0 \<and> ustore s m = None \<and> ustore s n = None | _ \<Rightarrow> False)"

lemma shm_rep_blocks: "shm_rep s ps bs \<Longrightarrow> ublocks s \<noteq> 0"
  by (cases ps) (auto simp: shm_rep_def shm_list_def)

lemma shm_stateI: "shm_rep s ps bs \<Longrightarrow> shm_state s bs"
  using shm_rep_blocks[of s ps bs] by (auto simp: shm_state_def)

text \<open>Every call of \<open>shm_alloc\<close> works as one on a list that exists.\<close>

lemma shm_alloc_ready:
  assumes "shm_state s bs" and "supply_ok s"
  shows "\<exists>s1 ps n ns. shm_alloc sz s = shm_alloc sz s1 \<and> shm_rep s1 ps bs \<and> usupply s1 = n # ns \<and> n \<noteq> 0 \<and> n \<notin> set ps"
proof (cases "ublocks s = 0")
  case False
  then obtain ps where ps: "shm_rep s ps bs" using assms(1) by (auto simp: shm_state_def)
  then have "dlist (ustore s) 0 (ublocks s) ps" by (simp add: shm_rep_def shm_list_def)
  from dlist_known[OF this] show ?thesis using ps assms(2)
    by (intro exI[of _ s] exI[of _ ps]) (fastforce simp: supply_ok_def split: list.splits)
next
  case True
  obtain m n ns where sup: "usupply s = m # n # ns" "m \<noteq> n" "m \<noteq> 0" "n \<noteq> 0" using assms(2) by (auto simp: supply_ok_def split: list.splits)
  define s1 where "s1 = s\<lparr>usupply := n # ns, ustore := (ustore s)(m \<mapsto> \<lparr>sb_start = 0x80000000, sb_size = 0x50000000, is_hole = True, sb_prev = 0, sb_next = 0\<rparr>), ublocks := m\<rparr>"
  have "shm_init s = Some s1" using sup by (simp add: shm_init_def new_blk_def s1_def)
  then have "shm_alloc sz s = shm_alloc sz s1" using True sup by (simp add: shm_alloc_def) (simp add: s1_def)
  moreover have "shm_rep s1 [m] bs" using True assms(1) sup by (simp add: shm_rep_def shm_list_def s1_def shm_state_def)
  ultimately show ?thesis using sup by (intro exI[of _ s1] exI[of _ "[m]"]) (auto simp: s1_def)
qed

lemma shm_alloc_ok:
  assumes "shm_state s bs" and "supply_ok s" and "page_up sz = z" and "z \<noteq> 0"
  shows "(\<exists>p s' bs'. shm_alloc sz s = Some (p, s') \<and> p \<noteq> 0 \<and> shm_state s' bs' \<and> allocated (unat z) bs (unat p) bs')
    \<or> (\<exists>s'. shm_alloc sz s = Some (0, s') \<and> shm_state s' bs \<and> (\<forall>(c, v, h)\<in>set bs. h \<longrightarrow> v < unat z))"
proof -
  from shm_alloc_ready[OF assms(1,2)] obtain s1 ps n ns where r: "shm_alloc sz s = shm_alloc sz s1" "shm_rep s1 ps bs"
     "usupply s1 = n # ns" "n \<noteq> 0" "n \<notin> set ps" by blast
  show ?thesis using shm_alloc_rep[OF r(2) assms(3,4) r(3-5)] r(1,2) shm_stateI by metis
qed

lemma shm_free_ok:
  assumes "shm_state s bs"
  shows "\<exists>s'. shm_free p s = Some s' \<and> shm_state s' (released (unat p) bs)"
proof (cases "ublocks s = 0")
  case True
  then show ?thesis using assms find_start.simps[of s p 0] by (simp add: shm_free_def shm_state_def released_def mark_hole_def)
next
  case False
  then obtain ps where "shm_rep s ps bs" using assms by (auto simp: shm_state_def)
  from shm_free_rep[OF this] show ?thesis using shm_stateI by blast
qed

lemma page_up_idem:
  assumes "unat x \<le> 0xFFFFF000"
  shows "page_up (page_up x) = page_up x"
  using page_up_props(3)[OF assms] by (intro page_up_aligned) (simp add: dvd_eq_mod_eq_0)

interpretation sm: block_manager shm_alloc shm_free shm_state supply_ok
proof unfold_locales
  show "tiles 0x80000000 0xD0000000 bs \<and> merged bs" if "shm_state s bs" for s bs
    using that by (auto simp: shm_state_def shm_rep_def split: if_splits)
qed (rule shm_alloc_ok shm_free_ok; assumption)+

text \<open>
  C28. An allocation takes the smallest hole that is large enough, cuts the rest off as a new hole, and returns an
  address in the shared memory space whose range overlaps no block in use; the blocks tile the space as before. If no hole is large enough it returns 0 and
  nothing changes.
\<close>

theorem shm_alloc_best_fit:
  assumes "shm_state s bs" and "supply_ok s" and "page_up sz = z" and "z \<noteq> 0"
  shows "(\<exists>p s' bs'. shm_alloc sz s = Some (p, s') \<and> shm_state s' bs' \<and> allocated (unat z) bs (unat p) bs'
       \<and> tiles 0x80000000 0xD0000000 bs' \<and> 0x80000000 \<le> unat p \<and> unat p + unat z \<le> 0xD0000000
       \<and> (\<forall>(c, v, h)\<in>set bs. h \<or> c + v \<le> unat p \<or> unat p + unat z \<le> c))
    \<or> (\<exists>s'. shm_alloc sz s = Some (0, s') \<and> shm_state s' bs \<and> (\<forall>(c, v, h)\<in>set bs. h \<longrightarrow> v < unat z))"
  using assms by (rule sm.alloc_best_fit)

text \<open>A process that has allocated 0x2000 bytes and 0x1000 bytes and has released the first block.\<close>

definition demo_shm :: ushm where
  "demo_shm = \<lparr>ublocks = 16, ustore = [16 \<mapsto> \<lparr>sb_start = 0x80000000, sb_size = 0x2000, is_hole = True, sb_prev = 0, sb_next = 32\<rparr>,
     32 \<mapsto> \<lparr>sb_start = 0x80002000, sb_size = 0x1000, is_hole = False, sb_prev = 16, sb_next = 48\<rparr>,
     48 \<mapsto> \<lparr>sb_start = 0x80003000, sb_size = 0x4FFFD000, is_hole = True, sb_prev = 32, sb_next = 0\<rparr>], usupply = [64, 80]\<rparr>"

lemma demo_shm_state: "shm_state demo_shm [(0x80000000, 0x2000, True), (0x80002000, 0x1000, False), (0x80003000, 0x4FFFD000, True)]"
  by (rule shm_stateI[of _ "[16, 32, 48]"]) (simp add: shm_rep_def shm_list_def demo_shm_def tr_def)

lemma demo_shm_supply: "supply_ok demo_shm"
  by (simp add: supply_ok_def demo_shm_def)

theorem shm_alloc_best_fit_witness:
  "\<exists>s'. shm_alloc 0x800 demo_shm = Some (0x80000000, s')
    \<and> shm_state s' [(0x80000000, 0x1000, False), (0x80001000, 0x1000, True), (0x80002000, 0x1000, False), (0x80003000, 0x4FFFD000, True)]"
proof -
  have p: "page_up 0x800 = 0x1000" "(0x1000 :: u32) \<noteq> 0" by (simp_all add: page_up_def)
  have a: "unat q = 0x80000000 \<and> bs' = [(0x80000000, 0x1000, False), (0x80001000, 0x1000, True), (0x80002000, 0x1000, False), (0x80003000, 0x4FFFD000, True)]"
    if "allocated (unat (0x1000 :: u32)) [(0x80000000, 0x2000, True), (0x80002000, 0x1000, False), (0x80003000, 0x4FFFD000, True)] (unat q) bs'" for q :: u32 and bs'
    using that by (auto simp: allocated_def Cons_eq_append_conv)
  show ?thesis using shm_alloc_best_fit[OF demo_shm_state demo_shm_supply p]
  proof (elim disjE exE conjE)
    fix q s' bs'
    assume "shm_alloc 0x800 demo_shm = Some (q, s')" "shm_state s' bs'"
      "allocated (unat (0x1000 :: u32)) [(0x80000000, 0x2000, True), (0x80002000, 0x1000, False), (0x80003000, 0x4FFFD000, True)] (unat q) bs'"
    moreover from a[OF this(3)] have "q = 0x80000000" by (simp add: eq_u32)
    ultimately show ?thesis using a by blast
  qed auto
qed

text \<open>
  C29. Releasing an address makes its block a hole and joins it with the holes before and after it; an address
  that is the start of no block changes nothing. The loops end and no null pointer is followed, in any state of the manager.
\<close>

theorem shm_free_merges:
  assumes "shm_state s bs"
  shows "\<exists>s'. shm_free p s = Some s' \<and> shm_state s' (released (unat p) bs)
     \<and> ((\<forall>(c, v, h)\<in>set bs. c \<noteq> unat p) \<longrightarrow> released (unat p) bs = bs)"
proof -
  have "merged bs" using sm.shape[OF assms] by simp
  then have "released (unat p) bs = bs" if "\<forall>(c, v, h)\<in>set bs. c \<noteq> unat p"
    using that by (simp add: released_def) (subst map_idI; fastforce simp: mark_hole_def)
  then show ?thesis using sm.release_law[OF assms, of p] by blast
qed

theorem shm_free_merges_witness:
  "\<exists>s'. shm_free 0x80002000 demo_shm = Some s' \<and> shm_state s' [(0x80000000, 0x50000000, True)]"
  using shm_free_merges[OF demo_shm_state, of "0x80002000"] by (auto simp: released_def mark_hole_def)

text \<open>
  Releasing what an allocation returned gives back the blocks that were there before; so does \<open>shm_allocNew\<close>
  when the kernel refuses to create the segment, and it returns the address and keeps the block when the kernel creates it.
\<close>

theorem shm_alloc_free:
  assumes "shm_state s bs" and "supply_ok s" and "page_up sz = z" and "z \<noteq> 0" and "unat sz \<le> 0xFFFFF000"
  shows "\<exists>p s'. shm_alloc sz s = Some (p, s') \<and> (p \<noteq> 0 \<longrightarrow> (\<exists>s''. shm_free p s' = Some s'' \<and> shm_state s'' bs
     \<and> (\<forall>k r k'. shm_create p z k = Some (r, k') \<longrightarrow> shm_allocNew sz s k = Some (if r = 0 then (p, s', k') else (0, s'', k')))))"
proof -
  have same: "shm_alloc z s = shm_alloc sz s" using page_up_idem[OF assms(5)] assms(3) by (simp add: shm_alloc_def)
  from sm.alloc_release[OF assms(1-4)] obtain p s' where a: "shm_alloc sz s = Some (p, s')" "p \<noteq> 0 \<Longrightarrow> \<exists>s''. shm_free p s' = Some s'' \<and> shm_state s'' bs" by blast
  have "shm_allocNew sz s k = Some (if r = 0 then (p, s', k') else (0, s'', k'))" if "shm_create p z k = Some (r, k')" "shm_free p s' = Some s''" for k r k' s''
    using that a(1) same assms(3) by (simp add: shm_allocNew_def)
  then show ?thesis using a by (intro exI[of _ p] exI[of _ s']) blast
qed

text \<open>The kernel refuses a segment of 0x10000000 bytes; the manager had never been called.\<close>

theorem shm_alloc_free_witness:
  "\<forall>k. \<exists>s''. shm_allocNew 0x10000000 \<lparr>ublocks = 0, ustore = Map.empty, usupply = [16, 32]\<rparr> k = Some (0, s'', k)
     \<and> shm_state s'' [(0x80000000, 0x50000000, True)]"
proof -
  let ?s = "\<lparr>ublocks = 0, ustore = Map.empty, usupply = [16, 32]\<rparr> :: ushm"
  have h: "shm_state ?s [(0x80000000, 0x50000000, True)]" "supply_ok ?s" "page_up 0x10000000 = 0x10000000" "(0x10000000 :: u32) \<noteq> 0"
     "unat (0x10000000 :: u32) \<le> 0xFFFFF000"
    by (simp_all add: shm_state_def supply_ok_def page_up_def)
  from shm_alloc_free[OF h] obtain p s' where a: "shm_alloc 0x10000000 ?s = Some (p, s')"
    "p \<noteq> 0 \<Longrightarrow> \<exists>s''. shm_state s'' [(0x80000000, 0x50000000, True)]
       \<and> (\<forall>k r k'. shm_create p 0x10000000 k = Some (r, k') \<longrightarrow> shm_allocNew 0x10000000 ?s k = Some (if r = 0 then (p, s', k') else (0, s'', k')))" by blast
  have "p \<noteq> 0" using shm_alloc_ok[OF h(1-4)] a(1) by auto
  moreover have "shm_create p 0x10000000 k = Some (- 1, k)" for k by (simp add: shm_create_def)
  ultimately show ?thesis using a(2) by fastforce
qed

end
