(* ===== verification/Server.thy ===== *)
theory Server
  imports Rpc UShm
begin

text \<open>
  Object servers in a user process, \<^verbatim>\<open>src/library/gc/server.c\<close>: the list of servers, their tables of method
  handlers, and \<open>srv_handle\<close>, which receives a request, calls the handler and answers. The client side are the calls of
  \<^verbatim>\<open>src/library/gm/call.c\<close>. Handlers of an application are code outside the library and appear as a
  function \<open>env\<close> from their address to what they do. Theorems: a table behaves as a map; creation, search and deletion of servers;
  a complete \<open>c_handleCheck\<close> from the client through the kernel to the server and back; unhandled requests.
\<close>

section \<open>Model\<close>

text \<open>Method numbers: the types of the result and the parameters are in the high byte.\<close>

definition MP :: "u32 \<Rightarrow> u32 \<Rightarrow> u32 \<Rightarrow> u32 \<Rightarrow> u32" where
  "MP r a b c = push_bit 24 (push_bit 6 r OR push_bit 4 a OR push_bit 2 b OR c)"

definition M_HANDLECHECK_BIVV :: u32 where "M_HANDLECHECK_BIVV = 1 OR MP 2 2 0 0"
definition M_HANDLECHECK_BMIV :: u32 where "M_HANDLECHECK_BMIV = 1 OR MP 2 3 2 0"
definition M_NOTHING_VVVV :: u32 where "M_NOTHING_VVVV = 2"
definition ME_UNHANDLED :: u32 where "ME_UNHANDLED = - 32767"

text \<open>A pointer to a handler: null, one of the two of the library, or one of the application.\<close>

datatype handler = NoHandler | CheckIfHandles | CheckIfHandlesMany | AppHandler u32

record method_srv =
  ms_id :: u32
  ms_h :: handler
  ms_next :: ptr

record object_srv =
  srv_id :: u32
  srv_methods :: ptr
  srv_data :: u32
  srv_next :: ptr

text \<open>
  The state of a process: the address of the global variable \<open>procServer\<close>, the structures, what \<open>malloc\<close> will return,
  the shared memory manager, the memory, and the kernel that its system calls change.
\<close>

record lib =
  procServer :: ptr
  servers :: ptr
  srvs :: "ptr \<rightharpoonup> object_srv"
  meths :: "ptr \<rightharpoonup> method_srv"
  lib_supply :: "ptr list"
  lib_shm :: ushm
  lib_mem :: cmem
  lib_k :: kernel

record method_param =
  mp_val :: u32
  mp_type :: u32
  keepShm :: bool
  mp_shmsize :: u32

record method_data =
  md_parameters :: "method_param list"
  md_func :: u32
  md_pid :: u32
  md_blocking :: bool
  md_obj :: ptr

record method_ret =
  mr_val :: u64
  mr_type :: u32
  mr_status :: u32

definition the_srv :: "'a lib_scheme \<Rightarrow> ptr \<Rightarrow> object_srv option" where
  "the_srv l p = (if p = 0 then None else srvs l p)"

definition upd_srv :: "ptr \<Rightarrow> (object_srv \<Rightarrow> object_srv) \<Rightarrow> 'a lib_scheme \<Rightarrow> 'a lib_scheme option" where
  "upd_srv p f l = do { x \<leftarrow> the_srv l p; Some (l\<lparr>srvs := (srvs l)(p \<mapsto> f x)\<rparr>) }"

definition the_meth :: "'a lib_scheme \<Rightarrow> ptr \<Rightarrow> method_srv option" where
  "the_meth l p = (if p = 0 then None else meths l p)"

text \<open>Memory for a structure, which is written to at once.\<close>

definition lib_malloc :: "'a lib_scheme \<Rightarrow> (ptr \<times> 'a lib_scheme) option" where
  "lib_malloc l = (case lib_supply l of [] \<Rightarrow> None | p # ps \<Rightarrow> if p = 0 then None else Some (p, l\<lparr>lib_supply := ps\<rparr>))"

subsection \<open>Results of methods\<close>

definition mr_long :: "u32 \<Rightarrow> method_ret" where "mr_long val = \<lparr>mr_val = ucast val, mr_type = PT_LONG, mr_status = 0\<rparr>"
definition mr_llong :: "u64 \<Rightarrow> method_ret" where "mr_llong val = \<lparr>mr_val = val, mr_type = PT_LONGLONG, mr_status = 0\<rparr>"
definition mr_obj :: "u32 \<Rightarrow> method_ret" where "mr_obj obj = \<lparr>mr_val = ucast obj, mr_type = PT_OBJDESC, mr_status = 0\<rparr>"
definition mr_void :: "u64 \<Rightarrow> method_ret" where "mr_void junk = \<lparr>mr_val = junk, mr_type = PT_VOID, mr_status = 0\<rparr>"
definition mr_err :: "u32 \<Rightarrow> method_ret" where "mr_err error = \<lparr>mr_val = 0, mr_type = PT_VOID, mr_status = error\<rparr>"

definition mr_srv :: "ptr \<Rightarrow> 'a lib_scheme \<Rightarrow> method_ret option" where
  "mr_srv obj l = do { x \<leftarrow> the_srv l obj; Some \<lparr>mr_val = ucast (srv_id x), mr_type = PT_OBJDESC, mr_status = 0\<rparr> }"

subsection \<open>Tables of handlers\<close>

partial_function (option) find_handler :: "'a lib_scheme \<Rightarrow> u32 \<Rightarrow> ptr \<Rightarrow> handler option" where
  "find_handler l m i = (if i = 0 then Some NoHandler
     else do { x \<leftarrow> the_meth l i; if ms_id x = m then Some (ms_h x) else find_handler l m (ms_next x) })"

definition getHandler :: "ptr \<Rightarrow> u32 \<Rightarrow> 'a lib_scheme \<Rightarrow> handler option" where
  "getHandler o' m l = do { x \<leftarrow> the_srv l o'; find_handler l m (srv_methods x) }"

definition srv_addHandler :: "ptr \<Rightarrow> u32 \<Rightarrow> handler \<Rightarrow> 'a lib_scheme \<Rightarrow> 'a lib_scheme option" where
  "srv_addHandler o' m h l = do {
     (p, l) \<leftarrow> lib_malloc l;
     x \<leftarrow> the_srv l o';
     let l = l\<lparr>meths := (meths l)(p \<mapsto> \<lparr>ms_id = m, ms_h = h, ms_next = srv_methods x\<rparr>)\<rparr>;
     upd_srv o' (\<lambda>x. x\<lparr>srv_methods := p\<rparr>) l }"

definition add_checks :: "ptr \<Rightarrow> 'a lib_scheme \<Rightarrow> 'a lib_scheme option" where
  "add_checks o' l = do {
     l \<leftarrow> srv_addHandler o' M_HANDLECHECK_BIVV CheckIfHandles l;
     srv_addHandler o' M_HANDLECHECK_BMIV CheckIfHandlesMany l }"

subsection \<open>Servers\<close>

definition objsrv_init :: "'a lib_scheme \<Rightarrow> 'a lib_scheme option" where
  "objsrv_init l = do {
     let l = l\<lparr>srvs := (srvs l)(procServer l \<mapsto> \<lparr>srv_id = 0, srv_methods = 0, srv_data = 0, srv_next = 0\<rparr>), servers := procServer l\<rparr>;
     add_checks (procServer l) l }"

definition srv_create :: "'a lib_scheme \<Rightarrow> (ptr \<times> 'a lib_scheme) option" where
  "srv_create l = do {
     (p, l) \<leftarrow> lib_malloc l;
     (d, k) \<leftarrow> object_create (lib_k l);
     let l = l\<lparr>lib_k := k, srvs := (srvs l)(p \<mapsto> \<lparr>srv_id = d, srv_methods = 0, srv_data = 0, srv_next = servers l\<rparr>)\<rparr>;
     l \<leftarrow> add_checks p l;
     Some (p, l\<lparr>servers := p\<rparr>) }"

partial_function (option) get_srv_from :: "'a lib_scheme \<Rightarrow> u32 \<Rightarrow> ptr \<Rightarrow> ptr option" where
  "get_srv_from l d i = (if i = 0 then Some 0
     else do { x \<leftarrow> the_srv l i; if srv_id x = d then Some i else get_srv_from l d (srv_next x) })"

definition srv_get :: "u32 \<Rightarrow> 'a lib_scheme \<Rightarrow> ptr option" where
  "srv_get d l = get_srv_from l d (servers l)"

partial_function (option) unlink_srv :: "ptr \<Rightarrow> ptr \<Rightarrow> 'a lib_scheme \<Rightarrow> 'a lib_scheme option" where
  "unlink_srv i p l = do {
     x \<leftarrow> the_srv l i;
     if srv_next x = 0 then Some l
     else if srv_next x = p then do { y \<leftarrow> the_srv l p; upd_srv i (\<lambda>x. x\<lparr>srv_next := srv_next y\<rparr>) l }
     else unlink_srv (srv_next x) p l }"

partial_function (option) free_methods :: "ptr \<Rightarrow> 'a lib_scheme \<Rightarrow> 'a lib_scheme option" where
  "free_methods p l = do {
     x \<leftarrow> the_srv l p;
     if srv_methods x = 0 then Some l
     else do {
       m \<leftarrow> the_meth l (srv_methods x);
       l \<leftarrow> upd_srv p (\<lambda>x. x\<lparr>srv_methods := ms_next m\<rparr>) (l\<lparr>meths := (meths l)(srv_methods x := None)\<rparr>);
       free_methods p l } }"

text \<open>\<open>free\<close> ignores the global variable, which is not in the heap.\<close>

definition srv_delete :: "ptr \<Rightarrow> 'a lib_scheme \<Rightarrow> 'a lib_scheme option" where
  "srv_delete p l = do {
     l \<leftarrow> (if servers l = p then do { x \<leftarrow> the_srv l p; Some (l\<lparr>servers := srv_next x\<rparr>) } else unlink_srv (servers l) p l);
     x \<leftarrow> the_srv l p;
     k \<leftarrow> object_close (srv_id x) (lib_k l);
     l \<leftarrow> free_methods p (l\<lparr>lib_k := k\<rparr>);
     Some (if p = procServer l then l else l\<lparr>srvs := (srvs l)(p := None)\<rparr>) }"

subsection \<open>Handlers of the library\<close>

definition checkIfHandles :: "method_data \<Rightarrow> 'a lib_scheme \<Rightarrow> method_ret option" where
  "checkIfHandles d l = do {
     h \<leftarrow> getHandler (md_obj d) (mp_val (md_parameters d ! 0)) l;
     Some (mr_long (if h = NoHandler then 0 else 1)) }"

fun check_many :: "ptr \<Rightarrow> u32 \<Rightarrow> u32 \<Rightarrow> nat \<Rightarrow> 'a lib_scheme \<Rightarrow> method_ret option" where
  "check_many o' data i 0 l = Some (mr_long 1)"
| "check_many o' data i (Suc n) l = do {
     m \<leftarrow> ld32 (lib_mem l) (data + 4 * i);
     h \<leftarrow> getHandler o' m l;
     if h = NoHandler then Some (mr_long 0) else check_many o' data (i + 1) n l }"

definition checkIfHandlesMany :: "method_data \<Rightarrow> 'a lib_scheme \<Rightarrow> method_ret option" where
  "checkIfHandlesMany d l =
     (if mp_type (md_parameters d ! 0) \<noteq> PT_SHM then Some (mr_err (- 1))
      else if mp_type (md_parameters d ! 1) \<noteq> PT_LONG then Some (mr_err (- 1))
      else if mp_val (md_parameters d ! 0) = 0 then Some (mr_long 0)
      else check_many (md_obj d) (mp_val (md_parameters d ! 0)) 0 (unat (mp_val (md_parameters d ! 1))) l)"

text \<open>A handler may change the structure it gets, and may wait in a call of its own; those of the library do neither.\<close>

type_synonym 'a app = "u32 \<Rightarrow> method_data \<Rightarrow> cpu \<Rightarrow> 'a lib_scheme \<Rightarrow> ((method_ret \<times> method_data) outcome \<times> 'a lib_scheme) option"

definition call_handler :: "'a app \<Rightarrow> handler \<Rightarrow> method_data \<Rightarrow> cpu \<Rightarrow> 'a lib_scheme \<Rightarrow> ((method_ret \<times> method_data) outcome \<times> 'a lib_scheme) option" where
  "call_handler env h d r l = (case h of NoHandler \<Rightarrow> None
     | CheckIfHandles \<Rightarrow> do { v \<leftarrow> checkIfHandles d l; Some (Return (v, d), l) }
     | CheckIfHandlesMany \<Rightarrow> do { v \<leftarrow> checkIfHandlesMany d l; Some (Return (v, d), l) }
     | AppHandler a \<Rightarrow> env a d r l)"

subsection \<open>Handling a request\<close>

text \<open>A parameter; the structure is on the stack and has some contents \<open>j\<close> before.\<close>

definition get_param :: "u32 \<Rightarrow> user_request \<Rightarrow> nat \<Rightarrow> method_param \<Rightarrow> 'a lib_scheme \<Rightarrow> (method_param \<times> 'a lib_scheme) option" where
  "get_param d rq i j l = (
     let t = param_type (ur_func rq) i; j = j\<lparr>mp_type := t\<rparr>; v = ur_params rq ! i; sz = ur_shmsize rq ! i in
     if t = PT_LONG \<or> t = PT_OBJDESC then Some (j\<lparr>mp_val := v\<rparr>, l)
     else if t = PT_SHM then
       (let j = j\<lparr>keepShm := True, mp_shmsize := sz\<rparr> in
        if v = 0 then do {
          (p, sh) \<leftarrow> shm_alloc sz (lib_shm l);
          let l = l\<lparr>lib_shm := sh\<rparr>;
          if p \<noteq> 0 then do {
            (_, k) \<leftarrow> request_mapShm d p (int i) (lib_k l);
            Some (j\<lparr>mp_val := p, keepShm := False\<rparr>, l\<lparr>lib_k := k\<rparr>) }
          else Some (j\<lparr>mp_val := p\<rparr>, l) }
        else Some (j\<lparr>mp_val := v\<rparr>, l))
     else Some (j, l))"

definition get_params :: "u32 \<Rightarrow> user_request \<Rightarrow> method_param list \<Rightarrow> 'a lib_scheme \<Rightarrow> (method_param list \<times> 'a lib_scheme) option" where
  "get_params d rq js l = do {
     (a, l) \<leftarrow> get_param d rq 0 (js ! 0) l;
     (b, l) \<leftarrow> get_param d rq 1 (js ! 1) l;
     (c, l) \<leftarrow> get_param d rq 2 (js ! 2) l;
     Some ([a, b, c], l) }"

definition answer_of :: "method_ret \<Rightarrow> u32 \<times> u32" where
  "answer_of ret = (
     let a = (if mr_type ret = PT_OBJDESC \<or> mr_type ret = PT_LONG then ucast (mr_val ret) else 0) in
     if mr_type ret = PT_LONGLONG then (ucast (mr_val ret), ucast (drop_bit 32 (mr_val ret))) else (a, 0))"

fun free_shms :: "method_param list \<Rightarrow> 'a lib_scheme \<Rightarrow> 'a lib_scheme option" where
  "free_shms [] l = Some l"
| "free_shms (j # js) l = do {
     l \<leftarrow> (if mp_type j = PT_SHM \<and> mp_val j \<noteq> 0 then do { sh \<leftarrow> shm_free (mp_val j) (lib_shm l); Some (l\<lparr>lib_shm := sh\<rparr>) } else Some l);
     free_shms js l }"

fun del_shms :: "method_param list \<Rightarrow> 'a lib_scheme \<Rightarrow> 'a lib_scheme option" where
  "del_shms [] l = Some l"
| "del_shms (j # js) l = do {
     l \<leftarrow> (if mp_type j = PT_SHM \<and> \<not> keepShm j then do { (sh, k) \<leftarrow> shm_freeDel (mp_val j) (lib_shm l) (lib_k l); Some (l\<lparr>lib_shm := sh, lib_k := k\<rparr>) } else Some l);
     del_shms js l }"

text \<open>What \<open>srv_handle\<close> does when the handler has returned, and with a request that it has received.\<close>

definition serve_end :: "ptr \<Rightarrow> user_request \<Rightarrow> method_ret \<Rightarrow> method_data \<Rightarrow> 'a lib_scheme \<Rightarrow> 'a lib_scheme option" where
  "serve_end o' rq ret d l = (if ur_isBlocking rq then do {
         x \<leftarrow> the_srv l o';
         let (a, b) = answer_of ret;
         k \<leftarrow> request_answer (srv_id x) a b (mr_status ret) (lib_k l);
         free_shms (md_parameters d) (l\<lparr>lib_k := k\<rparr>) }
       else del_shms (md_parameters d) l)"

definition serve :: "'a app \<Rightarrow> method_param list \<Rightarrow> ptr \<Rightarrow> user_request \<Rightarrow> cpu \<Rightarrow> 'a lib_scheme \<Rightarrow> (unit outcome \<times> 'a lib_scheme) option" where
  "serve env js o' rq r l = do {
     x \<leftarrow> the_srv l o';
     h \<leftarrow> getHandler o' (ur_func rq) l;
     if h = NoHandler then
       (if ur_isBlocking rq then do { k \<leftarrow> request_answer (srv_id x) 0 0 ME_UNHANDLED (lib_k l); Some (Return (), l\<lparr>lib_k := k\<rparr>) } else Some (Return (), l))
     else do {
       (ps, l) \<leftarrow> get_params (srv_id x) rq js l;
       (v, l) \<leftarrow> call_handler env h \<lparr>md_parameters = ps, md_func = ur_func rq, md_pid = ur_pid rq, md_blocking = ur_isBlocking rq, md_obj = o'\<rparr> r l;
       case v of Wait r \<Rightarrow> Some (Wait r, l) | Return (ret, d) \<Rightarrow> do { l \<leftarrow> serve_end o' rq ret d l; Some (Return (), l) } } }"

text \<open>
  One call with \<open>HA_ONCE\<close> or, if \<open>wait\<close>, with \<open>HA_WAIT\<close>. A thread that had to wait for the request continues with \<open>serve\<close>, and one whose handler
  waits continues with the rest of the handler and \<open>serve_end\<close>.
\<close>

definition srv_handle :: "'a app \<Rightarrow> method_param list \<Rightarrow> ptr \<Rightarrow> bool \<Rightarrow> cpu \<Rightarrow> 'a lib_scheme \<Rightarrow> (unit outcome \<times> 'a lib_scheme) option" where
  "srv_handle env js o' wait r l = do {
     x \<leftarrow> the_srv l o';
     (v, k) \<leftarrow> request_get (srv_id x) wait r (lib_k l);
     let l = l\<lparr>lib_k := k\<rparr>;
     case v of Wait r \<Rightarrow> Some (Wait r, l)
     | Return (e, rq) \<Rightarrow> (case rq of Some rq \<Rightarrow> (if e = 0 then serve env js o' rq r l else Some (Return (), l))
         | None \<Rightarrow> Some (Return (), l)) }"

text \<open>With \<open>HA_LOOP\<close> it never returns; these are \<open>n\<close> rounds of its loop.\<close>

fun srv_loop :: "'a app \<Rightarrow> method_param list \<Rightarrow> ptr \<Rightarrow> nat \<Rightarrow> cpu \<Rightarrow> 'a lib_scheme \<Rightarrow> (unit outcome \<times> 'a lib_scheme) option" where
  "srv_loop env js o' 0 r l = Some (Return (), l)"
| "srv_loop env js o' (Suc n) r l = do {
     (v, l) \<leftarrow> srv_handle env js o' True r l;
     case v of Wait r \<Rightarrow> Some (Wait r, l) | Return _ \<Rightarrow> srv_loop env js o' n r l }"

partial_function (option) handle_from :: "'a app \<Rightarrow> method_param list \<Rightarrow> ptr \<Rightarrow> cpu \<Rightarrow> 'a lib_scheme \<Rightarrow> (unit outcome \<times> 'a lib_scheme) option" where
  "handle_from env js i r l = (if i = 0 then Some (Return (), l)
     else do {
       (v, l) \<leftarrow> srv_handle env js i False r l;
       case v of Wait r \<Rightarrow> Some (Wait r, l)
       | Return _ \<Rightarrow> do { x \<leftarrow> the_srv l i; handle_from env js (srv_next x) r l } })"

definition srv_handleAll :: "'a app \<Rightarrow> method_param list \<Rightarrow> cpu \<Rightarrow> 'a lib_scheme \<Rightarrow> (unit outcome \<times> 'a lib_scheme) option" where
  "srv_handleAll env js r l = handle_from env js (servers l) r l"

subsection \<open>Clients\<close>

text \<open>
  The macro \<open>_CHC\<close>: a request or a message with the structure \<open>sr\<close>, which is then what the kernel left there. A thread that
  waits for the answer continues behind it.
\<close>

definition CHC :: "u32 \<Rightarrow> bool \<Rightarrow> user_sendrequest \<Rightarrow> cpu \<Rightarrow> kernel \<Rightarrow> (user_sendrequest outcome \<times> kernel) option" where
  "CHC o' block sr r k = (if block then do {
       (v, k) \<leftarrow> request o' sr r k;
       Some (case v of Wait r \<Rightarrow> (Wait r, k) | Return _ \<Rightarrow> (Return sr, k)) }
     else do {
       (v, k) \<leftarrow> send_msg o' sr r k;
       Some (case v of Wait r \<Rightarrow> (Wait r, k) | Return (_, sr) \<Rightarrow> (Return sr, k)) })"

definition handleCheck_sr :: "u32 \<Rightarrow> user_sendrequest \<Rightarrow> user_sendrequest" where
  "handleCheck_sr m junk = junk\<lparr>us_func := M_HANDLECHECK_BIVV, us_a := m\<rparr>"

definition handleCheck_result :: "user_sendrequest \<Rightarrow> u32" where
  "handleCheck_result sr = (if us_errcode sr \<noteq> 0 then 0 else us_answeri sr)"

definition c_handleCheck :: "u32 \<Rightarrow> bool \<Rightarrow> u32 \<Rightarrow> user_sendrequest \<Rightarrow> cpu \<Rightarrow> kernel \<Rightarrow> (u32 outcome \<times> kernel) option" where
  "c_handleCheck o' block m junk r k = do {
     (v, k) \<leftarrow> CHC o' block (handleCheck_sr m junk) r k;
     Some (case v of Wait r \<Rightarrow> (Wait r, k) | Return sr \<Rightarrow> (Return (handleCheck_result sr), k)) }"

definition c_nothing :: "u32 \<Rightarrow> bool \<Rightarrow> user_sendrequest \<Rightarrow> cpu \<Rightarrow> kernel \<Rightarrow> (u32 outcome \<times> kernel) option" where
  "c_nothing o' block junk r k = do {
     (v, k) \<leftarrow> CHC o' block (junk\<lparr>us_func := M_NOTHING_VVVV\<rparr>) r k;
     Some (case v of Wait r \<Rightarrow> (Wait r, k) | Return sr \<Rightarrow> (Return (us_errcode sr), k)) }"

section \<open>Tables of handlers\<close>

fun mlist :: "(ptr \<rightharpoonup> method_srv) \<Rightarrow> ptr \<Rightarrow> (ptr \<times> u32 \<times> handler) list \<Rightarrow> bool" where
  "mlist st p [] \<longleftrightarrow> p = 0"
| "mlist st p ((x, m, h) # xs) \<longleftrightarrow> p = x \<and> x \<noteq> 0 \<and> (\<exists>n. st x = Some \<lparr>ms_id = m, ms_h = h, ms_next = n\<rparr> \<and> mlist st n xs)"

text \<open>The server \<open>o'\<close> has the nodes \<open>xs\<close>, with the table \<open>map snd xs\<close>.\<close>

definition srv_table :: "'a lib_scheme \<Rightarrow> ptr \<Rightarrow> (ptr \<times> u32 \<times> handler) list \<Rightarrow> bool" where
  "srv_table l o' xs \<longleftrightarrow> (\<exists>x. the_srv l o' = Some x \<and> mlist (meths l) (srv_methods x) xs) \<and> distinct (map fst xs)"

definition look :: "(ptr \<times> u32 \<times> handler) list \<Rightarrow> u32 \<Rightarrow> handler" where
  "look xs m = (case map_of (map snd xs) m of None \<Rightarrow> NoHandler | Some h \<Rightarrow> h)"

lemma look_simps [simp]: "look [] m = NoHandler" "look ((p, m', h) # xs) m = (if m = m' then h else look xs m)"
  by (simp_all add: look_def)

lemma srv_table_k [simp]: "the_srv (l\<lparr>lib_k := k\<rparr>) o' = the_srv l o'" "srv_table (l\<lparr>lib_k := k\<rparr>) o' xs = srv_table l o' xs"
  by (simp_all add: srv_table_def the_srv_def)

lemma mlist_other [simp]: "x \<notin> fst ` set xs \<Longrightarrow> mlist (st(x := v)) p xs = mlist st p xs"
  by (induction xs arbitrary: p) auto

lemma mlist_known: "mlist st p xs \<Longrightarrow> x \<in> fst ` set xs \<Longrightarrow> st x \<noteq> None \<and> x \<noteq> 0"
  by (induction st p xs rule: mlist.induct) (simp_all, metis option.distinct(1))

lemma find_handler_ok: "mlist (meths l) i xs \<Longrightarrow> find_handler l m i = Some (look xs m)"
proof (induction xs arbitrary: i)
  case Nil
  then show ?case by (subst find_handler.simps) simp
next
  case (Cons y xs)
  obtain x m' h where y: "y = (x, m', h)" by (cases y)
  with Cons.prems obtain n where "i = x" "x \<noteq> 0" "meths l x = Some \<lparr>ms_id = m', ms_h = h, ms_next = n\<rparr>" "mlist (meths l) n xs" by auto
  then show ?case using Cons.IH[of n] y by (subst find_handler.simps) (auto simp: the_meth_def)
qed

lemma getHandler_ok: "srv_table l o' xs \<Longrightarrow> getHandler o' m l = Some (look xs m)"
  using find_handler_ok by (auto simp: srv_table_def getHandler_def)

lemma addHandler_ok:
  assumes "srv_table l o' xs" and "lib_supply l = p # ps" and "p \<noteq> 0" and "meths l p = None"
  shows "\<exists>l' x. srv_addHandler o' m h l = Some l' \<and> srv_table l' o' ((p, m, h) # xs) \<and> (\<forall>o2 ys. o2 \<noteq> o' \<and> srv_table l o2 ys \<longrightarrow> srv_table l' o2 ys)
     \<and> the_srv l o' = Some x
     \<and> l' = l\<lparr>lib_supply := ps, meths := (meths l)(p \<mapsto> \<lparr>ms_id = m, ms_h = h, ms_next = srv_methods x\<rparr>), srvs := (srvs l)(o' \<mapsto> x\<lparr>srv_methods := p\<rparr>)\<rparr>"
proof -
  obtain x where x: "the_srv l o' = Some x" "mlist (meths l) (srv_methods x) xs" using assms(1) by (auto simp: srv_table_def)
  define l' where "l' = l\<lparr>lib_supply := ps, meths := (meths l)(p \<mapsto> \<lparr>ms_id = m, ms_h = h, ms_next = srv_methods x\<rparr>), srvs := (srvs l)(o' \<mapsto> x\<lparr>srv_methods := p\<rparr>)\<rparr>"
  have n: "p \<notin> fst ` set ys" if "mlist (meths l) q ys" for q ys using mlist_known[OF that] assms(4) by blast
  have o: "o' \<noteq> 0" using x(1) by (auto simp: the_srv_def split: if_splits)
  have "srv_addHandler o' m h l = Some l'" using x(1) o assms(2,3) by (simp add: srv_addHandler_def lib_malloc_def upd_srv_def the_srv_def l'_def)
  moreover have "srv_table l' o' ((p, m, h) # xs)" using x(2) n[OF x(2)] o assms(1,3) by (simp add: srv_table_def the_srv_def l'_def)
  moreover have "srv_table l' o2 ys" if "o2 \<noteq> o'" "srv_table l o2 ys" for o2 ys
    using that n by (auto simp: srv_table_def the_srv_def l'_def split: if_splits)
  ultimately show ?thesis using x(1) l'_def by blast
qed

lemma add_checks_ok:
  assumes "srv_table l o' xs" and "lib_supply l = p # q # ps" and "p \<noteq> 0" and "q \<noteq> 0" and "p \<noteq> q" and "meths l p = None" and "meths l q = None"
  shows "\<exists>l' x f. add_checks o' l = Some l' \<and> srv_table l' o' ((q, M_HANDLECHECK_BMIV, CheckIfHandlesMany) # (p, M_HANDLECHECK_BIVV, CheckIfHandles) # xs)
     \<and> (\<forall>o2 ys. o2 \<noteq> o' \<and> srv_table l o2 ys \<longrightarrow> srv_table l' o2 ys) \<and> the_srv l o' = Some x
     \<and> l' = l\<lparr>lib_supply := ps, meths := f, srvs := (srvs l)(o' \<mapsto> x\<lparr>srv_methods := q\<rparr>)\<rparr> \<and> (\<forall>n. n \<noteq> p \<and> n \<noteq> q \<longrightarrow> f n = meths l n)"
proof -
  from addHandler_ok[OF assms(1,2,3,6), of M_HANDLECHECK_BIVV CheckIfHandles] obtain l1 x where
    l1: "srv_addHandler o' M_HANDLECHECK_BIVV CheckIfHandles l = Some l1" "srv_table l1 o' ((p, M_HANDLECHECK_BIVV, CheckIfHandles) # xs)"
      "\<forall>o2 ys. o2 \<noteq> o' \<and> srv_table l o2 ys \<longrightarrow> srv_table l1 o2 ys" "the_srv l o' = Some x"
      "l1 = l\<lparr>lib_supply := q # ps, meths := (meths l)(p \<mapsto> \<lparr>ms_id = M_HANDLECHECK_BIVV, ms_h = CheckIfHandles, ms_next = srv_methods x\<rparr>), srvs := (srvs l)(o' \<mapsto> x\<lparr>srv_methods := p\<rparr>)\<rparr>"
    by (elim exE conjE) (rule that; assumption)
  have "lib_supply l1 = q # ps" "meths l1 q = None" using l1(5) assms(5,7) by simp_all
  from addHandler_ok[OF l1(2) this(1) assms(4) this(2), of M_HANDLECHECK_BMIV CheckIfHandlesMany] obtain l2 x2 where
    l2: "srv_addHandler o' M_HANDLECHECK_BMIV CheckIfHandlesMany l1 = Some l2" "srv_table l2 o' ((q, M_HANDLECHECK_BMIV, CheckIfHandlesMany) # (p, M_HANDLECHECK_BIVV, CheckIfHandles) # xs)"
      "\<forall>o2 ys. o2 \<noteq> o' \<and> srv_table l1 o2 ys \<longrightarrow> srv_table l2 o2 ys" "the_srv l1 o' = Some x2"
      "l2 = l1\<lparr>lib_supply := ps, meths := (meths l1)(q \<mapsto> \<lparr>ms_id = M_HANDLECHECK_BMIV, ms_h = CheckIfHandlesMany, ms_next = srv_methods x2\<rparr>), srvs := (srvs l1)(o' \<mapsto> x2\<lparr>srv_methods := q\<rparr>)\<rparr>"
    by (elim exE conjE) (rule that; assumption)
  have "o' \<noteq> 0" using l1(4) by (auto simp: the_srv_def split: if_splits)
  then have x2: "x2 = x\<lparr>srv_methods := p\<rparr>" using l2(4) l1(5) by (simp add: the_srv_def)
  have "l2 = l\<lparr>lib_supply := ps, meths := meths l2, srvs := (srvs l)(o' \<mapsto> x\<lparr>srv_methods := q\<rparr>)\<rparr>" using l2(5) l1(5) x2 by simp
  moreover have "\<forall>n. n \<noteq> p \<and> n \<noteq> q \<longrightarrow> meths l2 n = meths l n" using l2(5) l1(5) by simp
  ultimately show ?thesis using l1(1,3,4) l2(1-3) unfolding add_checks_def by (intro exI[of _ l2] exI[of _ x] exI[of _ "meths l2"]) auto
qed

section \<open>The list of servers\<close>

fun slist :: "(ptr \<rightharpoonup> object_srv) \<Rightarrow> ptr \<Rightarrow> (ptr \<times> u32) list \<Rightarrow> bool" where
  "slist st p [] \<longleftrightarrow> p = 0"
| "slist st p ((x, d) # xs) \<longleftrightarrow> p = x \<and> x \<noteq> 0 \<and> (\<exists>b. st x = Some b \<and> srv_id b = d \<and> slist st (srv_next b) xs)"

definition srv_list :: "'a lib_scheme \<Rightarrow> (ptr \<times> u32) list \<Rightarrow> bool" where
  "srv_list l xs \<longleftrightarrow> slist (srvs l) (servers l) xs \<and> distinct (map fst xs)"

lemma slist_other [simp]: "x \<notin> fst ` set xs \<Longrightarrow> slist (st(x := v)) p xs = slist st p xs"
  by (induction xs arbitrary: p) auto

lemma slist_known: "slist st p xs \<Longrightarrow> x \<in> fst ` set xs \<Longrightarrow> st x \<noteq> None \<and> x \<noteq> 0"
  by (induction st p xs rule: slist.induct) (simp_all, metis option.distinct(1))

lemma slist_same:
  "slist st p xs \<Longrightarrow> (\<forall>x\<in>fst ` set xs. \<forall>b. st x = Some b \<longrightarrow> (\<exists>b'. st' x = Some b' \<and> srv_id b' = srv_id b \<and> srv_next b' = srv_next b)) \<Longrightarrow> slist st' p xs"
  by (induction xs arbitrary: p) fastforce+

lemma slist_at: "slist st i (xs @ (p, d) # ys) \<Longrightarrow> st p = Some x \<Longrightarrow> srv_id x = d"
  by (induction xs arbitrary: i) auto

lemma get_srv_ok: "slist (srvs l) i xs \<Longrightarrow> get_srv_from l d i = Some (case find (\<lambda>x. snd x = d) xs of None \<Rightarrow> 0 | Some x \<Rightarrow> fst x)"
proof (induction xs arbitrary: i)
  case Nil
  then show ?case by (subst get_srv_from.simps) simp
next
  case (Cons y xs)
  obtain x e where y: "y = (x, e)" by (cases y)
  with Cons.prems obtain b where "i = x" "x \<noteq> 0" "srvs l x = Some b" "srv_id b = e" "slist (srvs l) (srv_next b) xs" by auto
  then show ?case using Cons.IH[of "srv_next b"] y by (subst get_srv_from.simps) (auto simp: the_srv_def)
qed

lemma unlink_srv_ok:
  assumes "slist (srvs l) i (xs @ (p, d) # ys)" and "distinct (map fst (xs @ (p, d) # ys))" and "xs \<noteq> []"
  shows "\<exists>l' st. unlink_srv i p l = Some l' \<and> l' = l\<lparr>srvs := st\<rparr> \<and> slist st i (xs @ ys) \<and> st p = srvs l p
     \<and> (\<forall>x. x \<notin> fst ` set xs \<longrightarrow> st x = srvs l x)"
  using assms
proof (induction xs arbitrary: i)
  case (Cons a as)
  obtain q e where a: "a = (q, e)" by (cases a)
  with Cons.prems obtain b where b: "i = q" "q \<noteq> 0" "srvs l q = Some b" "srv_id b = e" "slist (srvs l) (srv_next b) (as @ (p, d) # ys)" by auto
  show ?case
  proof (cases as)
    case Nil
    then obtain c where c: "srv_next b = p" "p \<noteq> 0" "srvs l p = Some c" "slist (srvs l) (srv_next c) ys" using b(5) by auto
    have q: "q \<noteq> p" "q \<notin> fst ` set ys" using Cons.prems(2) a by auto
    define st where "st = (srvs l)(q \<mapsto> b\<lparr>srv_next := srv_next c\<rparr>)"
    have "unlink_srv i p l = Some (l\<lparr>srvs := st\<rparr>)"
      using b c by (subst unlink_srv.simps) (simp add: the_srv_def upd_srv_def st_def)
    moreover have "slist st i (xs @ ys)" if "xs = [(q, e)]" for xs using b(1,2,4) c(4) q that by (simp add: st_def)
    moreover have "st p = srvs l p" "\<forall>x. x \<noteq> q \<longrightarrow> st x = srvs l x" using q by (simp_all add: st_def)
    ultimately show ?thesis using a Nil by auto
  next
    case (Cons a2 as2)
    have n: "srv_next b \<noteq> 0" "srv_next b \<noteq> p" using b(5) Cons Cons.prems(2) a by (cases a2; auto)+
    have "distinct (map fst (as @ (p, d) # ys))" "as \<noteq> []" using Cons.prems(2) a Cons by auto
    from Cons.IH[OF b(5) this] obtain st where st: "unlink_srv (srv_next b) p l = Some (l\<lparr>srvs := st\<rparr>)" "slist st (srv_next b) (as @ ys)" "st p = srvs l p"
       "\<forall>x. x \<notin> fst ` set as \<longrightarrow> st x = srvs l x" by blast
    have "q \<notin> fst ` set as" using Cons.prems(2) a by (auto simp: image_iff)
    then have "st q = Some b" using st(4) b(3) by simp
    then show ?thesis using st b n a by (intro exI[of _ "l\<lparr>srvs := st\<rparr>"] exI[of _ st]) (subst unlink_srv.simps, auto simp: the_srv_def)
  qed
qed simp

lemma free_methods_ok:
  assumes "srv_table l p xs" and "the_srv l p = Some x"
  shows "free_methods p l = Some (l\<lparr>meths := (\<lambda>n. if n \<in> fst ` set xs then None else meths l n), srvs := (srvs l)(p \<mapsto> x\<lparr>srv_methods := 0\<rparr>)\<rparr>)"
proof -
  have "p \<noteq> 0" using assms(2) by (auto simp: the_srv_def split: if_splits)
  have "mlist (meths l) (srv_methods x) xs" "distinct (map fst xs)" using assms by (auto simp: srv_table_def)
  then show ?thesis using assms(2)
  proof (induction xs arbitrary: l x)
    case Nil
    then have "l\<lparr>meths := \<lambda>n. meths l n, srvs := (srvs l)(p \<mapsto> x\<lparr>srv_methods := 0\<rparr>)\<rparr> = l"
      using \<open>p \<noteq> 0\<close> by (auto simp: the_srv_def map_upd_triv)
    then show ?case using Nil by (subst free_methods.simps) simp
  next
    case (Cons y ys)
    obtain q m h where y: "y = (q, m, h)" by (cases y)
    then obtain n where q: "srv_methods x = q" "q \<noteq> 0" "meths l q = Some \<lparr>ms_id = m, ms_h = h, ms_next = n\<rparr>" "mlist (meths l) n ys" "q \<notin> fst ` set ys"
      using Cons.prems(1,2) by auto
    define l1 where "l1 = l\<lparr>meths := (meths l)(q := None), srvs := (srvs l)(p \<mapsto> x\<lparr>srv_methods := n\<rparr>)\<rparr>"
    have "free_methods p l = free_methods p l1"
      using Cons.prems(3) q \<open>p \<noteq> 0\<close> by (subst free_methods.simps) (simp add: the_meth_def upd_srv_def the_srv_def l1_def)
    moreover have "mlist (meths l1) (srv_methods (x\<lparr>srv_methods := n\<rparr>)) ys" "the_srv l1 p = Some (x\<lparr>srv_methods := n\<rparr>)"
      using q \<open>p \<noteq> 0\<close> by (simp_all add: l1_def the_srv_def)
    moreover have "(\<lambda>i. if i \<in> fst ` set ys then None else meths l1 i) = (\<lambda>i. if i \<in> fst ` set (y # ys) then None else meths l i)"
      using y by (auto simp: l1_def)
    moreover have "(srvs l1)(p \<mapsto> x\<lparr>srv_methods := n\<rparr>\<lparr>srv_methods := 0\<rparr>) = (srvs l)(p \<mapsto> x\<lparr>srv_methods := 0\<rparr>)" by (simp add: l1_def)
    moreover have "l1\<lparr>meths := f, srvs := g\<rparr> = l\<lparr>meths := f, srvs := g\<rparr>" for f g by (simp add: l1_def)
    ultimately show ?case using Cons.IH[of l1 "x\<lparr>srv_methods := n\<rparr>"] Cons.prems(2) by auto
  qed
qed

lemma srv_get_ok: "srv_list l ss \<Longrightarrow> srv_get d l = Some (case find (\<lambda>x. snd x = d) ss of None \<Rightarrow> 0 | Some x \<Rightarrow> fst x)"
  by (simp add: srv_get_def srv_list_def get_srv_ok)

lemma srv_create_ok:
  assumes "srv_list l ss" and "lib_supply l = p # q # r # ps" and "p \<noteq> 0" "q \<noteq> 0" "r \<noteq> 0" "q \<noteq> r"
    and "srvs l p = None" "meths l q = None" "meths l r = None" and "object_create (lib_k l) = Some (d, k)"
  shows "\<exists>l'. srv_create l = Some (p, l') \<and> srv_list l' ((p, d) # ss) \<and> lib_k l' = k \<and> procServer l' = procServer l
     \<and> srv_table l' p [(r, M_HANDLECHECK_BMIV, CheckIfHandlesMany), (q, M_HANDLECHECK_BIVV, CheckIfHandles)]
     \<and> (\<forall>o2 ys. o2 \<noteq> p \<and> srv_table l o2 ys \<longrightarrow> srv_table l' o2 ys)
     \<and> (\<forall>x. x \<noteq> p \<longrightarrow> srvs l' x = srvs l x) \<and> (\<forall>n. n \<noteq> q \<and> n \<noteq> r \<longrightarrow> meths l' n = meths l n)"
proof -
  define l1 where "l1 = l\<lparr>lib_supply := q # r # ps, lib_k := k, srvs := (srvs l)(p \<mapsto> \<lparr>srv_id = d, srv_methods = 0, srv_data = 0, srv_next = servers l\<rparr>)\<rparr>"
  have t: "srv_table l1 p []" using assms(3) by (simp add: srv_table_def the_srv_def l1_def)
  have "lib_supply l1 = q # r # ps" "meths l1 q = None" "meths l1 r = None" using assms(8,9) by (simp_all add: l1_def)
  from add_checks_ok[OF t this(1) assms(4,5,6) this(2,3)] obtain l2 x f where
    l2: "add_checks p l1 = Some l2" "srv_table l2 p [(r, M_HANDLECHECK_BMIV, CheckIfHandlesMany), (q, M_HANDLECHECK_BIVV, CheckIfHandles)]"
      "\<forall>o2 ys. o2 \<noteq> p \<and> srv_table l1 o2 ys \<longrightarrow> srv_table l2 o2 ys" "the_srv l1 p = Some x"
      "l2 = l1\<lparr>lib_supply := ps, meths := f, srvs := (srvs l1)(p \<mapsto> x\<lparr>srv_methods := r\<rparr>)\<rparr>" "\<forall>n. n \<noteq> q \<and> n \<noteq> r \<longrightarrow> f n = meths l1 n"
    by (elim exE conjE) (rule that; assumption)
  have "servers l1 = servers l" by (simp add: l1_def)
  then have c: "srv_create l = Some (p, l2\<lparr>servers := p\<rparr>)" using assms(2,3,10) l2(1)
    by (simp add: srv_create_def lib_malloc_def) (simp add: l1_def)
  have x: "x = \<lparr>srv_id = d, srv_methods = 0, srv_data = 0, srv_next = servers l\<rparr>" using l2(4) assms(3) by (simp add: the_srv_def l1_def)
  have np: "p \<notin> fst ` set ss" using slist_known[of "srvs l" "servers l" ss p] assms(1,7) by (auto simp: srv_list_def)
  have s2: "srvs l2 = (srvs l)(p \<mapsto> x\<lparr>srv_methods := r\<rparr>)" using l2(5) by (simp add: l1_def)
  have "srv_list (l2\<lparr>servers := p\<rparr>) ((p, d) # ss)" using assms(1,3) np s2 x by (simp add: srv_list_def)
  moreover have "srv_table (l2\<lparr>servers := p\<rparr>) o2 ys = srv_table l2 o2 ys" for o2 ys by (simp add: srv_table_def the_srv_def)
  moreover have "srv_table l1 o2 ys" if "o2 \<noteq> p" "srv_table l o2 ys" for o2 ys using that by (auto simp: srv_table_def the_srv_def l1_def split: if_splits)
  moreover have "lib_k l2 = k" "procServer l2 = procServer l" "\<forall>n. n \<noteq> q \<and> n \<noteq> r \<longrightarrow> meths l2 n = meths l n" using l2(5,6) by (simp_all add: l1_def)
  ultimately show ?thesis using c l2(2,3) s2 by (intro exI[of _ "l2\<lparr>servers := p\<rparr>"]) auto
qed

lemma srv_delete_ok:
  assumes "srv_list l (xs @ (p, d) # ys)" and "srv_table l p ms" and "object_close d (lib_k l) = Some k" and "p \<noteq> procServer l"
  shows "\<exists>l'. srv_delete p l = Some l' \<and> srv_list l' (xs @ ys) \<and> lib_k l' = k \<and> srvs l' p = None
     \<and> meths l' = (\<lambda>n. if n \<in> fst ` set ms then None else meths l n) \<and> (\<forall>x. x \<noteq> p \<and> x \<notin> fst ` set xs \<longrightarrow> srvs l' x = srvs l x)"
proof -
  have sl: "slist (srvs l) (servers l) (xs @ (p, d) # ys)" "distinct (map fst (xs @ (p, d) # ys))" using assms(1) by (auto simp: srv_list_def)
  have nd: "p \<notin> fst ` set xs" "p \<notin> fst ` set ys" "distinct (map fst (xs @ ys))" using sl(2) by auto
  obtain x where x: "the_srv l p = Some x" using assms(2) by (auto simp: srv_table_def)
  have xp: "srvs l p = Some x" "p \<noteq> 0" using x by (auto simp: the_srv_def split: if_splits)
  have dx: "srv_id x = d" by (rule slist_at[OF sl(1) xp(1)])
  have "\<exists>l1 st h. (if servers l = p then do { x \<leftarrow> the_srv l p; Some (l\<lparr>servers := srv_next x\<rparr>) } else unlink_srv (servers l) p l) = Some l1
     \<and> l1 = l\<lparr>srvs := st, servers := h\<rparr> \<and> slist st h (xs @ ys) \<and> st p = srvs l p \<and> (\<forall>x. x \<notin> fst ` set xs \<longrightarrow> st x = srvs l x)"
  proof (cases xs)
    case Nil
    then show ?thesis using sl(1) x xp by (intro exI[of _ "l\<lparr>servers := srv_next x\<rparr>"] exI[of _ "srvs l"] exI[of _ "srv_next x"]) auto
  next
    case (Cons a as)
    then have "servers l \<noteq> p" using sl(1) nd(1) by (cases a) auto
    moreover from unlink_srv_ok[OF sl] Cons obtain st where "unlink_srv (servers l) p l = Some (l\<lparr>srvs := st\<rparr>)" "slist st (servers l) (xs @ ys)"
       "st p = srvs l p" "\<forall>x. x \<notin> fst ` set xs \<longrightarrow> st x = srvs l x" by blast
    moreover have "l\<lparr>srvs := st\<rparr> = l\<lparr>srvs := st, servers := servers l\<rparr>" for st by simp
    ultimately show ?thesis by (intro exI[of _ "l\<lparr>srvs := st\<rparr>"] exI[of _ st] exI[of _ "servers l"]) simp
  qed
  then obtain st h where st: "(if servers l = p then do { x \<leftarrow> the_srv l p; Some (l\<lparr>servers := srv_next x\<rparr>) } else unlink_srv (servers l) p l) = Some (l\<lparr>srvs := st, servers := h\<rparr>)"
     "slist st h (xs @ ys)" "st p = srvs l p" "\<forall>x. x \<notin> fst ` set xs \<longrightarrow> st x = srvs l x" by auto
  let ?l2 = "l\<lparr>srvs := st, servers := h, lib_k := k\<rparr>"
  have t2: "srv_table ?l2 p ms" "the_srv ?l2 p = Some x" using assms(2) x xp st(3) by (simp_all add: srv_table_def the_srv_def)
  define l3 where "l3 = ?l2\<lparr>meths := (\<lambda>n. if n \<in> fst ` set ms then None else meths ?l2 n), srvs := (srvs ?l2)(p \<mapsto> x\<lparr>srv_methods := 0\<rparr>)\<rparr>"
  have "free_methods p ?l2 = Some l3" using free_methods_ok[OF t2] by (simp add: l3_def)
  moreover have "the_srv (l\<lparr>srvs := st, servers := h\<rparr>) p = Some x" "procServer l3 = procServer l" using xp st(3) by (simp_all add: the_srv_def l3_def)
  ultimately have "srv_delete p l = Some (l3\<lparr>srvs := (srvs l3)(p := None)\<rparr>)"
    using assms(3,4) dx unfolding srv_delete_def st(1) by simp
  moreover have "srv_list (l3\<lparr>srvs := (srvs l3)(p := None)\<rparr>) (xs @ ys)" using st(2) nd by (simp add: srv_list_def l3_def image_Un)
  ultimately show ?thesis using st(4) by (intro exI[of _ "l3\<lparr>srvs := (srvs l3)(p := None)\<rparr>"]) (auto simp: l3_def)
qed

section \<open>Properties\<close>

text \<open>
  Tables of handlers: after \<open>srv_addHandler\<close> the method has the new handler, all other methods of the server and all
  other servers have those they had before; \<open>getHandler\<close> returns the handler that was added last, or null.
\<close>

theorem handler_table:
  assumes "srv_table l o' xs" and "lib_supply l = p # ps" and "p \<noteq> 0" and "meths l p = None"
  shows "\<exists>l'. srv_addHandler o' m h l = Some l' \<and> srv_table l' o' ((p, m, h) # xs)
     \<and> (\<forall>m'. getHandler o' m' l = Some (look xs m') \<and> getHandler o' m' l' = (if m' = m then Some h else getHandler o' m' l))
     \<and> (\<forall>o2 ys m'. o2 \<noteq> o' \<and> srv_table l o2 ys \<longrightarrow> getHandler o2 m' l' = getHandler o2 m' l)"
proof -
  from addHandler_ok[OF assms, of m h] obtain l' where l': "srv_addHandler o' m h l = Some l'" "srv_table l' o' ((p, m, h) # xs)"
    "\<And>o2 ys. o2 \<noteq> o' \<Longrightarrow> srv_table l o2 ys \<Longrightarrow> srv_table l' o2 ys" by blast
  have "getHandler o' m' l = Some (look xs m')" "getHandler o' m' l' = Some (look ((p, m, h) # xs) m')" for m'
    using getHandler_ok[OF assms(1)] getHandler_ok[OF l'(2)] by blast+
  moreover have "getHandler o2 m' l' = getHandler o2 m' l" if "o2 \<noteq> o'" "srv_table l o2 ys" for o2 ys m'
    using getHandler_ok[OF that(2)] getHandler_ok[OF l'(3)[OF that]] by simp
  ultimately show ?thesis using l'(1,2) by (intro exI[of _ l']) auto
qed

text \<open>A process before \<open>objsrv_init\<close>, on the kernel of the example for remote calls.\<close>

definition demo_lib :: "kernel \<Rightarrow> lib" where
  "demo_lib k = \<lparr>procServer = 100, servers = 0, srvs = Map.empty, meths = Map.empty, lib_supply = [101, 102, 103, 104, 105, 106],
     lib_shm = \<lparr>ublocks = 0, ustore = Map.empty, usupply = []\<rparr>, lib_mem = \<lparr>mbytes = (\<lambda>_. 0), mpresent = (\<lambda>_. False)\<rparr>, lib_k = k\<rparr>"

lemma demo_init:
  "\<exists>l. objsrv_init (demo_lib k) = Some l \<and> srv_list l [(100, 0)] \<and> lib_k l = k \<and> procServer l = 100 \<and> lib_supply l = [103, 104, 105, 106]
     \<and> srv_table l 100 [(102, M_HANDLECHECK_BMIV, CheckIfHandlesMany), (101, M_HANDLECHECK_BIVV, CheckIfHandles)]
     \<and> (\<forall>n. n \<noteq> 101 \<and> n \<noteq> 102 \<longrightarrow> meths l n = None) \<and> (\<forall>n. n \<noteq> 100 \<longrightarrow> srvs l n = None)"
proof -
  define l1 where "l1 = (demo_lib k)\<lparr>srvs := [100 \<mapsto> \<lparr>srv_id = 0, srv_methods = 0, srv_data = 0, srv_next = 0\<rparr>], servers := 100\<rparr>"
  have f: "lib_supply l1 = [101, 102, 103, 104, 105, 106]" "meths l1 = Map.empty" "servers l1 = 100" "procServer l1 = 100" "lib_k l1 = k"
    by (simp_all add: l1_def demo_lib_def)
  have t: "srv_table l1 100 []" by (simp add: srv_table_def the_srv_def l1_def)
  have "(101 :: nat) \<noteq> 0" "(102 :: nat) \<noteq> 0" "(101 :: nat) \<noteq> 102" "meths l1 101 = None" "meths l1 102 = None" by (simp_all add: f)
  from add_checks_ok[OF t f(1) this] obtain l2 x g where
    l2: "add_checks 100 l1 = Some l2" "srv_table l2 100 [(102, M_HANDLECHECK_BMIV, CheckIfHandlesMany), (101, M_HANDLECHECK_BIVV, CheckIfHandles)]"
      "the_srv l1 100 = Some x" "l2 = l1\<lparr>lib_supply := [103, 104, 105, 106], meths := g, srvs := (srvs l1)(100 \<mapsto> x\<lparr>srv_methods := 102\<rparr>)\<rparr>"
      "\<forall>n. n \<noteq> 101 \<and> n \<noteq> 102 \<longrightarrow> g n = meths l1 n"
    by (elim exE conjE) (rule that; assumption)
  have "objsrv_init (demo_lib k) = Some l2" using l2(1) f(4) by (simp add: objsrv_init_def) (simp add: l1_def demo_lib_def)
  moreover have "x = \<lparr>srv_id = 0, srv_methods = 0, srv_data = 0, srv_next = 0\<rparr>" using l2(3) by (simp add: the_srv_def l1_def)
  moreover have "srvs l1 = [100 \<mapsto> \<lparr>srv_id = 0, srv_methods = 0, srv_data = 0, srv_next = 0\<rparr>]" by (simp add: l1_def)
  ultimately show ?thesis using l2(2,4,5) f by (intro exI[of _ l2]) (simp add: srv_list_def)
qed

theorem handler_table_witness:
  "\<exists>l l'. objsrv_init (demo_lib (rpc_demo 8)) = Some l \<and> srv_addHandler 100 7 (AppHandler 0x40000000) l = Some l'
     \<and> getHandler 100 7 l = Some NoHandler \<and> getHandler 100 7 l' = Some (AppHandler 0x40000000)
     \<and> getHandler 100 0xA0000001 l' = Some CheckIfHandles"
proof -
  from demo_init[of "rpc_demo 8"] obtain l where l: "objsrv_init (demo_lib (rpc_demo 8)) = Some l" "lib_supply l = [103, 104, 105, 106]"
     "srv_table l 100 [(102, M_HANDLECHECK_BMIV, CheckIfHandlesMany), (101, M_HANDLECHECK_BIVV, CheckIfHandles)]" "meths l 103 = None" by auto
  have m: "M_HANDLECHECK_BIVV = 0xA0000001" "M_HANDLECHECK_BMIV = 0xB8000001"
    by (simp_all add: M_HANDLECHECK_BIVV_def M_HANDLECHECK_BMIV_def MP_def push_bit_eq_mult)
  show ?thesis using handler_table[OF l(3,2) _ l(4), of 7 "AppHandler 0x40000000"] l(1) by (auto simp: m)
qed

text \<open>A process can create an object, and close it.\<close>

lemma object_create_close:
  assumes "current_process s = Some cp" and "desc_table s cp t" and "the_proc s cp = Some pr" and "next_objdesc pr \<noteq> - 1"
    and "next_ptr s \<noteq> 0" and "next_ptr s \<notin> snd ` set t"
  shows "\<exists>k k'. object_create s = Some (next_objdesc pr, k) \<and> object_close (next_objdesc pr) k = Some k' \<and> desc_table k' cp t"
proof -
  define x where "x = \<lparr>owner = cp, descriptors = 0, busyMutex = MUTEX_UNLOCKED, ob_request = 0, wakeupOnRq = 0\<rparr>"
  define s1 where "s1 = s\<lparr>next_ptr := next_ptr s + 1, objs := (objs s)(next_ptr s \<mapsto> x)\<rparr>"
  have p1: "the_proc s1 cp = Some pr" "the_obj s1 (next_ptr s) = Some x" "next_ptr s1 \<noteq> 0" using assms(3,5) by (auto simp: s1_def the_proc_def the_obj_def)
  obtain ds where ds: "desc_list s cp ds t" using assms(2) by (auto simp: desc_table_def)
  have "entry s1 = entry s" by (rule entry_cong) (simp add: s1_def)
  then have "desc_list s1 cp ds t" using ds assms(3) p1(1) by (auto simp: desc_list_def s1_def dest: less_SucI)
  then have t1: "desc_table s1 cp t" by (auto simp: desc_table_def)
  let ?k = "added cp (next_ptr s) pr x s1"
  have a: "objdesc_add cp (next_ptr s) s1 = Some (next_objdesc pr, ?k)"
    by (rule objdesc_add_eq[OF objdesc_get_new[OF t1 assms(6)] p1])
  have c: "object_create s = Some (next_objdesc pr, ?k)"
    using assms(1) a by (simp add: object_create_def obj_createP_def obj_new_def kmalloc_ptr_def) (simp add: s1_def x_def)
  obtain es where es: "desc_list ?k cp es ((next_objdesc pr, next_ptr s) # t)"
    using added_table(1)[OF t1 p1(1) assms(4,6) p1(3)] by (auto simp: desc_table_def)
  then obtain e es' where e: "es = e # es'" by (cases es) (auto simp: desc_list_def)
  have ob: "the_obj ?k (next_ptr s) = Some (x\<lparr>descriptors := 1\<rparr>)" using assms(5) by (simp add: added_def the_obj_def x_def)
  from closeP_head[OF es[unfolded e] ob] obtain k' where k': "obj_closeP cp (next_objdesc pr) ?k = Some k'" "desc_list k' cp es' t" by auto
  have "current_process ?k = Some cp" using assms(1) by (simp add: current_process_def the_thr_def added_def s1_def)
  then show ?thesis using c k' by (intro exI[of _ ?k] exI[of _ k']) (auto simp: object_close_def desc_table_def)
qed

text \<open>
  \<open>srv_create\<close> makes a server for a new object, with the handlers of the library; \<open>srv_get\<close> finds it by its descriptor and
  all others as before. \<open>srv_delete\<close> closes the object, frees the server and its handlers and removes it from
  the list, which is then as before.
\<close>

theorem server_lifecycle:
  assumes "srv_list l ss" and "lib_supply l = p # q # r # ps" and "p \<noteq> 0" "q \<noteq> 0" "r \<noteq> 0" "q \<noteq> r" "p \<noteq> procServer l"
    and "srvs l p = None" "meths l q = None" "meths l r = None"
    and "current_process (lib_k l) = Some cp" and "desc_table (lib_k l) cp t" and "the_proc (lib_k l) cp = Some pr" and "next_objdesc pr = d" "d \<noteq> - 1"
    and "next_ptr (lib_k l) \<noteq> 0" and "next_ptr (lib_k l) \<notin> snd ` set t"
  shows "\<exists>l1 l2. srv_create l = Some (p, l1) \<and> srv_get d l1 = Some p \<and> (\<forall>e. e \<noteq> d \<longrightarrow> srv_get e l1 = srv_get e l)
     \<and> getHandler p M_HANDLECHECK_BIVV l1 = Some CheckIfHandles
     \<and> srv_delete p l1 = Some l2 \<and> desc_table (lib_k l2) cp t \<and> srv_list l2 ss \<and> srvs l2 = srvs l \<and> meths l2 = meths l"
proof -
  from object_create_close[OF assms(11-13)] assms(14-17) obtain k k' where
    k: "object_create (lib_k l) = Some (d, k)" "object_close d k = Some k'" "desc_table k' cp t" by auto
  from srv_create_ok[OF assms(1-6,8-10) k(1)] obtain l1 where
    l1: "srv_create l = Some (p, l1)" "srv_list l1 ((p, d) # ss)" "lib_k l1 = k" "procServer l1 = procServer l"
      "srv_table l1 p [(r, M_HANDLECHECK_BMIV, CheckIfHandlesMany), (q, M_HANDLECHECK_BIVV, CheckIfHandles)]"
      "\<forall>x. x \<noteq> p \<longrightarrow> srvs l1 x = srvs l x" "\<forall>n. n \<noteq> q \<and> n \<noteq> r \<longrightarrow> meths l1 n = meths l n"
    by (elim exE conjE) (rule that; assumption)
  have m: "M_HANDLECHECK_BIVV \<noteq> M_HANDLECHECK_BMIV" by (simp add: M_HANDLECHECK_BIVV_def M_HANDLECHECK_BMIV_def MP_def push_bit_eq_mult)
  from srv_delete_ok[of l1 "[]" p d ss, OF _ l1(5)] l1(2-4) assms(7) k(2) obtain l2 where
    l2: "srv_delete p l1 = Some l2" "srv_list l2 ss" "lib_k l2 = k'" "srvs l2 p = None" "meths l2 = (\<lambda>n. if n \<in> {r, q} then None else meths l1 n)"
      "\<forall>x. x \<noteq> p \<longrightarrow> srvs l2 x = srvs l1 x" by auto
  have "srvs l2 = srvs l" "meths l2 = meths l"
    by (rule ext, use l2(4,6) l1(6) assms(8) in metis) (use l2(5) l1(7) assms(9,10) in \<open>auto simp: fun_eq_iff\<close>)
  moreover have "srv_get d l1 = Some p" "e \<noteq> d \<Longrightarrow> srv_get e l1 = srv_get e l" for e
    using srv_get_ok[OF l1(2)] srv_get_ok[OF assms(1)] by simp_all
  moreover have "getHandler p M_HANDLECHECK_BIVV l1 = Some CheckIfHandles" using getHandler_ok[OF l1(5), of M_HANDLECHECK_BIVV] m by simp
  ultimately show ?thesis using l1(1) l2(1-3) k(3) by blast
qed

theorem server_lifecycle_witness:
  "\<exists>l l1 l2. objsrv_init (demo_lib (rpc_demo 8)) = Some l \<and> srv_create l = Some (103, l1) \<and> srv_get 1 l1 = Some 103 \<and> srv_get 0 l1 = Some 100
     \<and> srv_delete 103 l1 = Some l2 \<and> srvs l2 = srvs l \<and> desc_table (lib_k l2) 7 [(0, 30)]"
proof -
  from demo_init[of "rpc_demo 8"] obtain l where l: "objsrv_init (demo_lib (rpc_demo 8)) = Some l" "srv_list l [(100, 0)]" "lib_k l = rpc_demo 8" "procServer l = 100"
     "lib_supply l = [103, 104, 105, 106]" "srvs l 103 = None" "meths l 104 = None" "meths l 105 = None" by auto
  let ?pr = "(demo_proc 2 8)\<lparr>pid := 3, objects := 21, next_objdesc := 1\<rparr>"
  have h: "(103 :: nat) \<noteq> 0" "(104 :: nat) \<noteq> 0" "(105 :: nat) \<noteq> 0" "(104 :: nat) \<noteq> 105" "103 \<noteq> procServer l" by (simp_all add: l)
  have k: "current_process (lib_k l) = Some 7" "desc_table (lib_k l) 7 [(0, 30)]" "the_proc (lib_k l) 7 = Some ?pr" "next_objdesc ?pr = 1" "(1 :: u32) \<noteq> - 1"
     "next_ptr (lib_k l) \<noteq> 0" "next_ptr (lib_k l) \<notin> snd ` set [(0 :: u32, 30)]"
    using rpc_process(2) rpc_tables(2) by (simp_all add: l(3) rpc_fields) (simp add: rpc_demo_def the_proc_def)
  have "srv_get 0 l = Some 100" using srv_get_ok[OF l(2)] by simp
  then show ?thesis using server_lifecycle[OF l(2,5) h l(6-8) k] l(1) by fastforce
qed

subsection \<open>A remote check\<close>

lemma BIVV_types: "plain M_HANDLECHECK_BIVV" "result_type M_HANDLECHECK_BIVV = PT_LONG" "param_type M_HANDLECHECK_BIVV 0 = PT_LONG"
  "param_type M_HANDLECHECK_BIVV 1 = PT_VOID" "param_type M_HANDLECHECK_BIVV (Suc 0) = PT_VOID" "param_type M_HANDLECHECK_BIVV 2 = PT_VOID"
proof -
  have m: "M_HANDLECHECK_BIVV = 0xA0000001" by (simp add: M_HANDLECHECK_BIVV_def MP_def push_bit_eq_mult)
  show p: "param_type M_HANDLECHECK_BIVV 0 = PT_LONG" "param_type M_HANDLECHECK_BIVV 1 = PT_VOID" "param_type M_HANDLECHECK_BIVV (Suc 0) = PT_VOID" "param_type M_HANDLECHECK_BIVV 2 = PT_VOID"
    by (simp_all add: m param_type_def drop_bit_eq_div rq_consts)
  show "plain M_HANDLECHECK_BIVV" using p by (auto simp: plain_def less_Suc_eq numeral_3_eq_3 numeral_2_eq_2)
  show "result_type M_HANDLECHECK_BIVV = PT_LONG" by (simp add: m result_type_def drop_bit_eq_div rq_consts)
qed

lemma ucast_up: "ucast (ucast v :: u64) = v" for v :: u32
  by (rule bit_word_eqI) (auto simp: bit_simps)

text \<open>A server with this table answers whether it has a handler for the method.\<close>

lemma serve_check:
  assumes "srv_table l o' xs" and "the_srv l o' = Some srv" and "look xs M_HANDLECHECK_BIVV = CheckIfHandles"
    and "ur_func ur = M_HANDLECHECK_BIVV" and "ur_params ur ! 0 = m" and "ur_isBlocking ur"
    and "request_answer (srv_id srv) (if look xs m = NoHandler then 0 else 1) 0 0 (lib_k l) = Some k"
  shows "serve env js o' ur r l = Some (Return (), l\<lparr>lib_k := k\<rparr>)"
proof -
  note tp = BIVV_types(3-6) and c = rq_consts
  define ps where "ps = [(js ! 0)\<lparr>mp_type := PT_LONG, mp_val := m\<rparr>, (js ! 1)\<lparr>mp_type := PT_VOID\<rparr>, (js ! 2)\<lparr>mp_type := PT_VOID\<rparr>]"
  have g: "get_params (srv_id srv) ur js l = Some (ps, l)"
    using assms(4,5) tp by (simp add: get_params_def get_param_def Let_def ps_def) (simp add: c)
  have f: "free_shms ps l' = Some l'" for l' by (simp add: ps_def) (simp add: c)
  have ch: "call_handler env CheckIfHandles \<lparr>md_parameters = ps, md_func = M_HANDLECHECK_BIVV, md_pid = ur_pid ur, md_blocking = True, md_obj = o'\<rparr> r l
     = Some (Return (mr_long (if look xs m = NoHandler then 0 else 1), \<lparr>md_parameters = ps, md_func = M_HANDLECHECK_BIVV, md_pid = ur_pid ur, md_blocking = True, md_obj = o'\<rparr>), l)"
    by (simp add: call_handler_def checkIfHandles_def getHandler_ok[OF assms(1)] ps_def)
  have an: "answer_of (mr_long v) = (v, 0)" "mr_status (mr_long v) = 0" for v
    by (simp_all add: answer_of_def mr_long_def Let_def ucast_up) (simp_all add: c)
  show ?thesis unfolding serve_def serve_end_def using assms(2,3,4,6,7)
    by (simp add: getHandler_ok[OF assms(1)] g ch f an)
qed

text \<open>
  C30. A complete remote call through client library, kernel and server library: the thread that calls \<open>c_handleCheck\<close> waits;
  when a thread of the owner of the object calls \<open>srv_handle\<close> for the server of this object, it finds the request, runs the handler and answers, and the
  client becomes ready; and when the client runs again its call returns 1 if the server has a handler for the method and 0 if not.
\<close>

theorem handle_check:
  assumes "can_send s i ob cp p x" and "sched_inv (current_thread s) s Q" and "processes s \<noteq> 0" and "rq = next_ptr s" and "c = current_thread s"
  shows "\<exists>r1 s1. c_handleCheck i True m junk r s = Some (Wait r1, s1)
     \<and> (\<forall>l o' srv xs Q2 env js wait r'. untouched ob rq s1 (lib_k l) \<and> serves (owner x) (srv_id srv) ob (lib_k l)
          \<and> the_srv l o' = Some srv \<and> srv_table l o' xs \<and> look xs M_HANDLECHECK_BIVV = CheckIfHandles
          \<and> sched_inv (current_thread (lib_k l)) (lib_k l) Q2 \<and> live (lib_k l) c \<and> waiting (lib_k l) c
          \<and> c \<noteq> current_thread (lib_k l) \<and> c \<noteq> idle_thread (lib_k l) \<longrightarrow>
          (\<exists>k. srv_handle env js o' wait r' l = Some (Return (), l\<lparr>lib_k := k\<rparr>) \<and> ready (current_thread (lib_k l)) k c
             \<and> the_obj k ob = Some (x\<lparr>ob_request := 0, wakeupOnRq := 0\<rparr>)
             \<and> (\<forall>t. the_rq t rq = the_rq k rq \<longrightarrow> (\<exists>sr. request_resume rq (handleCheck_sr m junk) t = Some (0, sr, kfree_ptr rq t)
                  \<and> handleCheck_result sr = (if look xs m = NoHandler then 0 else 1)))))"
proof -
  let ?u = "handleCheck_sr m junk"
  have u: "us_func ?u = M_HANDLECHECK_BIVV" "us_a ?u = m" by (simp_all add: handleCheck_sr_def)
  have pl: "plain (us_func ?u)" "result_type (us_func ?u) \<noteq> PT_OBJDESC" using BIVV_types(1,2) by (simp_all add: u rq_consts)
  have ar: "arg M_HANDLECHECK_BIVV 0 v = v" for v by (simp add: arg_def BIVV_types)
  have res: "handleCheck_result (returned v 0 0 ?u) = v" for v using BIVV_types(2) by (simp add: returned_def u handleCheck_result_def)
  from remote_call_ok[OF assms(1) pl assms(2-5), of r] obtain r1 s1 where s1: "request i ?u r s = Some (Wait r1, s1)"
    and srv: "\<forall>t j wait r'. untouched ob rq s1 t \<and> serves (owner x) j ob t \<longrightarrow>
          (\<exists>ur s2. request_get j wait r' t = Some (Return (0, Some ur), s2) \<and> ur_func ur = us_func ?u
             \<and> ur_params ur = [arg (us_func ?u) 0 (us_a ?u), arg (us_func ?u) 1 (us_b ?u), arg (us_func ?u) 2 (us_c ?u)]
             \<and> ur_pid ur = pid p \<and> ur_isBlocking ur \<and> (\<exists>f. s2 = t\<lparr>rqs := f\<rparr>)
             \<and> (\<forall>t2 Q2 ans ans2 err. untouched ob rq s2 t2 \<and> serves (owner x) j ob t2 \<and> sched_inv (current_thread t2) t2 Q2
                  \<and> live t2 c \<and> waiting t2 c \<and> c \<noteq> current_thread t2 \<and> c \<noteq> idle_thread t2 \<longrightarrow>
                  (\<exists>s3. request_answer j ans ans2 err t2 = Some s3 \<and> ready (current_thread t2) s3 c
                     \<and> the_obj s3 ob = Some (x\<lparr>ob_request := 0, wakeupOnRq := 0\<rparr>)
                     \<and> (\<forall>t3. the_rq t3 rq = the_rq s3 rq \<longrightarrow>
                          request_resume rq ?u t3 = Some (0, returned ans ans2 err ?u, kfree_ptr rq t3)))))"
    by (elim exE conjE) (rule that; assumption)
  have key: "\<exists>k. srv_handle env js o' wait r' l = Some (Return (), l\<lparr>lib_k := k\<rparr>) \<and> ready (current_thread (lib_k l)) k c
             \<and> the_obj k ob = Some (x\<lparr>ob_request := 0, wakeupOnRq := 0\<rparr>)
             \<and> (\<forall>t. the_rq t rq = the_rq k rq \<longrightarrow> request_resume rq ?u t = Some (0, returned (if look xs m = NoHandler then 0 else 1) 0 0 ?u, kfree_ptr rq t))"
    if h: "untouched ob rq s1 (lib_k l)" "serves (owner x) (srv_id srv) ob (lib_k l)" "the_srv l o' = Some srv" "srv_table l o' xs"
      "look xs M_HANDLECHECK_BIVV = CheckIfHandles" "sched_inv (current_thread (lib_k l)) (lib_k l) Q2" "live (lib_k l) c" "waiting (lib_k l) c"
      "c \<noteq> current_thread (lib_k l)" "c \<noteq> idle_thread (lib_k l)" for l o' srv xs Q2 env js wait r'
  proof -
    from srv[rule_format, OF conjI[OF h(1,2)], of wait r'] obtain ur s2 f where
      g0: "request_get (srv_id srv) wait r' (lib_k l) = Some (Return (0, Some ur), s2)" "ur_func ur = us_func ?u"
        "ur_params ur = [arg (us_func ?u) 0 (us_a ?u), arg (us_func ?u) 1 (us_b ?u), arg (us_func ?u) 2 (us_c ?u)]" "ur_isBlocking ur" "s2 = (lib_k l)\<lparr>rqs := f\<rparr>"
      and an: "\<forall>t2 Q2 ans ans2 err. untouched ob rq s2 t2 \<and> serves (owner x) (srv_id srv) ob t2 \<and> sched_inv (current_thread t2) t2 Q2
                  \<and> live t2 c \<and> waiting t2 c \<and> c \<noteq> current_thread t2 \<and> c \<noteq> idle_thread t2 \<longrightarrow>
                  (\<exists>s3. request_answer (srv_id srv) ans ans2 err t2 = Some s3 \<and> ready (current_thread t2) s3 c
                     \<and> the_obj s3 ob = Some (x\<lparr>ob_request := 0, wakeupOnRq := 0\<rparr>)
                     \<and> (\<forall>t3. the_rq t3 rq = the_rq s3 rq \<longrightarrow>
                          request_resume rq ?u t3 = Some (0, returned ans ans2 err ?u, kfree_ptr rq t3)))"
      by (elim exE conjE) (rule that; assumption)
    have g: "request_get (srv_id srv) wait r' (lib_k l) = Some (Return (0, Some ur), (lib_k l)\<lparr>rqs := f\<rparr>)" "ur_func ur = M_HANDLECHECK_BIVV"
        "ur_params ur ! 0 = m" "ur_isBlocking ur"
      using g0 by (simp_all add: u ar)
    let ?k = "(lib_k l)\<lparr>rqs := f\<rparr>"
    have "untouched ob rq s2 ?k \<and> serves (owner x) (srv_id srv) ob ?k \<and> sched_inv (current_thread ?k) ?k Q2 \<and> live ?k c \<and> waiting ?k c
        \<and> c \<noteq> current_thread ?k \<and> c \<noteq> idle_thread ?k"
      using h serves_rqs[OF h(2)] g0(5) by (simp add: untouched_def)
    from an[rule_format, OF this, of "if look xs m = NoHandler then 0 else 1" 0 0] obtain k where
      k: "request_answer (srv_id srv) (if look xs m = NoHandler then 0 else 1) 0 0 ?k = Some k" "ready (current_thread ?k) k c"
        "the_obj k ob = Some (x\<lparr>ob_request := 0, wakeupOnRq := 0\<rparr>)"
        "\<forall>t. the_rq t rq = the_rq k rq \<longrightarrow> request_resume rq ?u t = Some (0, returned (if look xs m = NoHandler then 0 else 1) 0 0 ?u, kfree_ptr rq t)"
      by (elim exE conjE) (rule that; assumption)
    have l2: "srv_table (l\<lparr>lib_k := ?k\<rparr>) o' xs" "the_srv (l\<lparr>lib_k := ?k\<rparr>) o' = Some srv" using h(3,4) by simp_all
    from serve_check[OF l2 h(5) g(2-4), of k env js r'] k(1) have "serve env js o' ur r' (l\<lparr>lib_k := ?k\<rparr>) = Some (Return (), l\<lparr>lib_k := k\<rparr>)" by simp
    then show ?thesis using g(1) h(3) k(2-4) by (intro exI[of _ k]) (simp add: srv_handle_def)
  qed
  show ?thesis
  proof (rule exI[of _ r1], rule exI[of _ s1], intro conjI allI impI, goal_cases)
    case 1
    then show ?case using s1 by (simp add: c_handleCheck_def CHC_def)
  next
    case (2 l o' srv xs Q2 env js wait r')
    then have "untouched ob rq s1 (lib_k l)" "serves (owner x) (srv_id srv) ob (lib_k l)" "the_srv l o' = Some srv" "srv_table l o' xs"
      "look xs M_HANDLECHECK_BIVV = CheckIfHandles" "sched_inv (current_thread (lib_k l)) (lib_k l) Q2" "live (lib_k l) c" "waiting (lib_k l) c"
      "c \<noteq> current_thread (lib_k l)" "c \<noteq> idle_thread (lib_k l)" by simp_all
    from key[OF this, of env js wait r'] obtain k where k: "srv_handle env js o' wait r' l = Some (Return (), l\<lparr>lib_k := k\<rparr>)" "ready (current_thread (lib_k l)) k c"
      "the_obj k ob = Some (x\<lparr>ob_request := 0, wakeupOnRq := 0\<rparr>)"
      "\<forall>t. the_rq t rq = the_rq k rq \<longrightarrow> request_resume rq ?u t = Some (0, returned (if look xs m = NoHandler then 0 else 1) 0 0 ?u, kfree_ptr rq t)"
      by (elim exE conjE) (rule that; assumption)
    then show ?case by (intro exI[of _ k]) (simp add: res)
  qed
qed

text \<open>
  C32. A message for which the server has no handler and that carries shared memory from another process is never finished: \<open>srv_handle\<close> drops it,
  but the kernel keeps it as the current request of the object until the memory is mapped, and every later round of \<open>srv_handle\<close>, also with \<open>HA_WAIT\<close>, returns at once
  and serves nothing.
\<close>

theorem unhandled_message_blocks:
  assumes "the_srv l o' = Some srv" and "srv_table l o' xs" and "serves (owner x) (srv_id srv) ob (lib_k l)" and "the_obj (lib_k l) ob = Some x"
    and "busyMutex x = MUTEX_LOCKED" and "the_rq (lib_k l) (ob_request x) = Some q" and "acknowledged q = RS_PENDING" and "requester q = 0"
    and "\<exists>a\<in>set (shm_sndr q). a \<noteq> 0" and "look xs (func q) = NoHandler"
  shows "\<exists>l'. srv_handle env js o' wait r l = Some (Return (), l') \<and> (\<forall>n. srv_loop env js o' n r l' = Some (Return (), l'))"
proof -
  have nz: "ob_request x \<noteq> 0" "ob \<noteq> 0" using assms(4,6) by (auto simp: the_rq_def the_obj_def split: if_splits)
  define k where "k = (lib_k l)\<lparr>rqs := (rqs (lib_k l))(ob_request x \<mapsto> q\<lparr>acknowledged := RS_PROCESSED\<rparr>)\<rparr>"
  have "request_take ob (lib_k l) = Some ((0, Some (seen q)), k)"
    using assms(4,6,9) nz by (simp add: request_take_def upd_rq_def the_rq_def seen_def Let_def k_def)
  then have g: "request_get (srv_id srv) wait r (lib_k l) = Some (Return (0, Some (seen q)), k)"
    using request_get_pending[OF assms(4,5) refl assms(6,7,3), of wait r] by simp
  have s: "serve env js o' (seen q) r (l\<lparr>lib_k := k\<rparr>) = Some (Return (), l\<lparr>lib_k := k\<rparr>)"
    using assms(1,8,10) getHandler_ok[of "l\<lparr>lib_k := k\<rparr>" o' xs "func q"] assms(2) by (simp add: serve_def seen_def)
  have h: "srv_handle env js o' wait r l = Some (Return (), l\<lparr>lib_k := k\<rparr>)" using g s assms(1) by (simp add: srv_handle_def)
  have kq: "the_rq k (ob_request x) = Some (q\<lparr>acknowledged := RS_PROCESSED\<rparr>)" "the_obj k ob = Some x" "serves (owner x) (srv_id srv) ob k"
    using assms(3,4) nz serves_rqs by (simp_all add: k_def the_rq_def)
  have g2: "request_get (srv_id srv) True r k = Some (Return (- 3, None), k)"
    using kq nz by (simp add: request_get_def serves_def) (simp add: rq_consts)
  have "srv_handle env js o' True r (l\<lparr>lib_k := k\<rparr>) = Some (Return (), l\<lparr>lib_k := k\<rparr>)" using g2 assms(1) by (simp add: srv_handle_def)
  then have "srv_loop env js o' n r (l\<lparr>lib_k := k\<rparr>) = Some (Return (), l\<lparr>lib_k := k\<rparr>)" for n by (induction n) simp_all
  then show ?thesis using h by blast
qed

section \<open>Examples\<close>

text \<open>Process 7 of the example of remote calls, with the server 100 for its object 0.\<close>

lemma demo_server:
  assumes "lib_k l = rpc_demo 8\<lparr>objs := f, rqs := g\<rparr>"
  shows "sched_inv (current_thread (lib_k l)) (lib_k l) ((\<lambda>_. [])(3 := [2, 3]))" "live (lib_k l) 6" "waiting (lib_k l) 6"
    "6 \<noteq> current_thread (lib_k l)" "6 \<noteq> idle_thread (lib_k l)" "serves 7 0 30 (lib_k l)" "current_thread (lib_k l) = 8"
  using rpc_inv[of 8] rpc_serves by (simp_all add: assms live_def waiting_def rpc_threads rpc_fields rpc_thread_def)

theorem handle_check_witness:
  "\<exists>r1 s1 l k sr. c_handleCheck 0 True 0xB8000001 rpc_call \<lparr>esp = 0, ebp = 0, eip = 0\<rparr> (rpc_demo 6) = Some (Wait r1, s1)
     \<and> objsrv_init (demo_lib (rpc_demo 8\<lparr>objs := objs s1, rqs := rqs s1\<rparr>)) = Some l
     \<and> srv_handle (\<lambda>_ _ _ _. None) [] 100 True r1 l = Some (Return (), l\<lparr>lib_k := k\<rparr>) \<and> ready 8 k 6
     \<and> request_resume 40 (handleCheck_sr 0xB8000001 rpc_call) k = Some (0, sr, kfree_ptr 40 k) \<and> handleCheck_result sr = 1"
proof -
  let ?r = "\<lparr>esp = 0, ebp = 0, eip = 0 :: u32\<rparr>" and ?m = "0xB8000001 :: u32"
  have "sched_inv (current_thread (rpc_demo 6)) (rpc_demo 6) ((\<lambda>_. [])(3 := [2, 3]))" "processes (rpc_demo 6) \<noteq> 0"
      "40 = next_ptr (rpc_demo 6)" "6 = current_thread (rpc_demo 6)"
    using rpc_inv[of 6] by (simp_all add: rpc_fields)
  note hc = handle_check[OF rpc_can_send this, of ?m rpc_call ?r]
  have own: "owner rpc_object = 7" by (simp add: rpc_object_def)
  obtain r1 s1 where s1: "c_handleCheck 0 True ?m rpc_call ?r (rpc_demo 6) = Some (Wait r1, s1)"
    and srv: "\<forall>(l :: lib) o' srv xs Q2 env js wait r'. untouched 30 40 s1 (lib_k l) \<and> serves (owner rpc_object) (srv_id srv) 30 (lib_k l)
          \<and> the_srv l o' = Some srv \<and> srv_table l o' xs \<and> look xs M_HANDLECHECK_BIVV = CheckIfHandles
          \<and> sched_inv (current_thread (lib_k l)) (lib_k l) Q2 \<and> live (lib_k l) 6 \<and> waiting (lib_k l) 6
          \<and> 6 \<noteq> current_thread (lib_k l) \<and> 6 \<noteq> idle_thread (lib_k l) \<longrightarrow>
          (\<exists>k. srv_handle env js o' wait r' l = Some (Return (), l\<lparr>lib_k := k\<rparr>) \<and> ready (current_thread (lib_k l)) k 6
             \<and> the_obj k 30 = Some (rpc_object\<lparr>ob_request := 0, wakeupOnRq := 0\<rparr>)
             \<and> (\<forall>t. the_rq t 40 = the_rq k 40 \<longrightarrow> (\<exists>sr. request_resume 40 (handleCheck_sr ?m rpc_call) t = Some (0, sr, kfree_ptr 40 t)
                  \<and> handleCheck_result sr = (if look xs ?m = NoHandler then 0 else 1))))"
    using hc by (elim exE conjE) (rule that; assumption)
  from demo_init[of "rpc_demo 8\<lparr>objs := objs s1, rqs := rqs s1\<rparr>"] obtain l where
    l: "objsrv_init (demo_lib (rpc_demo 8\<lparr>objs := objs s1, rqs := rqs s1\<rparr>)) = Some l" "srv_list l [(100, 0)]" "lib_k l = rpc_demo 8\<lparr>objs := objs s1, rqs := rqs s1\<rparr>"
       "srv_table l 100 [(102, M_HANDLECHECK_BMIV, CheckIfHandlesMany), (101, M_HANDLECHECK_BIVV, CheckIfHandles)]"
    by (elim exE conjE) (rule that; assumption)
  let ?xs = "[(102, M_HANDLECHECK_BMIV, CheckIfHandlesMany), (101, M_HANDLECHECK_BIVV, CheckIfHandles)] :: (nat \<times> u32 \<times> handler) list"
  have m: "M_HANDLECHECK_BIVV = 0xA0000001" "M_HANDLECHECK_BMIV = 0xB8000001"
    by (simp_all add: M_HANDLECHECK_BIVV_def M_HANDLECHECK_BMIV_def MP_def push_bit_eq_mult)
  have lk: "look ?xs M_HANDLECHECK_BIVV = CheckIfHandles" "look ?xs ?m \<noteq> NoHandler" by (simp_all add: m)
  obtain sv where sv: "the_srv l 100 = Some sv" "srv_id sv = 0" using l(2) by (auto simp: srv_list_def the_srv_def)
  have u: "untouched 30 40 s1 (lib_k l)" by (simp add: untouched_def the_obj_def the_rq_def l(3))
  note d = demo_server[OF l(3)]
  from srv[rule_format, of l sv 100 ?xs "(\<lambda>_. [])(3 := [2, 3])" "\<lambda>_ _ _ _. None" "[]" True r1] u d sv l(4) lk(1) obtain k where
    k: "srv_handle (\<lambda>_ _ _ _. None) [] 100 True r1 l = Some (Return (), l\<lparr>lib_k := k\<rparr>)" "ready 8 k 6"
      "\<forall>t. the_rq t 40 = the_rq k 40 \<longrightarrow> (\<exists>sr. request_resume 40 (handleCheck_sr ?m rpc_call) t = Some (0, sr, kfree_ptr 40 t)
                  \<and> handleCheck_result sr = (if look ?xs ?m = NoHandler then 0 else 1))"
    unfolding own by metis
  from k(3) lk(2) obtain sr where "request_resume 40 (handleCheck_sr ?m rpc_call) k = Some (0, sr, kfree_ptr 40 k)" "handleCheck_result sr = 1" by auto
  then show ?thesis using s1 l(1) k(1,2) by blast
qed

theorem unhandled_message_blocks_witness:
  "\<exists>l l'. objsrv_init (demo_lib (rpc_demo 8\<lparr>objs := [30 \<mapsto> rpc_object\<lparr>busyMutex := 1, ob_request := 39\<rparr>],
        rqs := [39 \<mapsto> (blank_request 30 0 0x30000007 1 0)\<lparr>shm_sndr := [50, 0, 0]\<rparr>]\<rparr>)) = Some l
     \<and> srv_handle (\<lambda>_ _ _ _. None) [] 100 True \<lparr>esp = 0, ebp = 0, eip = 0\<rparr> l = Some (Return (), l')
     \<and> srv_loop (\<lambda>_ _ _ _. None) [] 100 1000 \<lparr>esp = 0, ebp = 0, eip = 0\<rparr> l' = Some (Return (), l')"
proof -
  let ?x = "rpc_object\<lparr>busyMutex := 1, ob_request := 39\<rparr>" and ?q = "(blank_request 30 0 0x30000007 1 0)\<lparr>shm_sndr := [50, 0, 0]\<rparr>"
  let ?k = "rpc_demo 8\<lparr>objs := [30 \<mapsto> ?x], rqs := [39 \<mapsto> ?q]\<rparr>"
  from demo_init[of ?k] obtain l where
    l: "objsrv_init (demo_lib ?k) = Some l" "srv_list l [(100, 0)]" "lib_k l = ?k"
       "srv_table l 100 [(102, M_HANDLECHECK_BMIV, CheckIfHandlesMany), (101, M_HANDLECHECK_BIVV, CheckIfHandles)]"
    by (elim exE conjE) (rule that; assumption)
  obtain sv where sv: "the_srv l 100 = Some sv" "srv_id sv = 0" using l(2) by (auto simp: srv_list_def the_srv_def)
  have h: "serves (owner ?x) (srv_id sv) 30 (lib_k l)" "the_obj (lib_k l) 30 = Some ?x" "busyMutex ?x = MUTEX_LOCKED" "the_rq (lib_k l) (ob_request ?x) = Some ?q"
     "acknowledged ?q = RS_PENDING" "requester ?q = 0" "\<exists>a\<in>set (shm_sndr ?q). a \<noteq> 0"
     "look [(102, M_HANDLECHECK_BMIV, CheckIfHandlesMany), (101, M_HANDLECHECK_BIVV, CheckIfHandles)] (func ?q) = NoHandler"
    using demo_server(6)[OF l(3)] sv(2)
    by (simp_all add: l(3) the_obj_def the_rq_def blank_request_def rpc_object_def rq_consts M_HANDLECHECK_BIVV_def M_HANDLECHECK_BMIV_def MP_def push_bit_eq_mult)
  show ?thesis using unhandled_message_blocks[OF sv(1) l(4) h, of "\<lambda>_ _ _ _. None" "[]" True "\<lparr>esp = 0, ebp = 0, eip = 0\<rparr>"] l(1) by blast
qed

end
