(* ===== verification/Gdt.thy ===== *)
theory Gdt
  imports Prelude
begin

text \<open>
  The global descriptor table and the task state segment, \<^verbatim>\<open>src/kernel/mem/gdt.c\<close> and \<^verbatim>\<open>gdt.h\<close>. The processor reads
  a descriptor by putting the pieces of base and limit together again; theorems: what it reads is what
  \<open>gdt_setGate\<close> was called with, and which segments \<open>gdt_init\<close> defines.
\<close>

section \<open>Model\<close>

record gdt_entry =
  limit_low :: u16
  base_low :: u16
  base_middle :: u8
  access :: u8
  granularity :: u8
  base_high :: u8

record gdt_ptr =
  gp_limit :: u16
  gp_base :: u32

record tss_entry =
  prev_tss :: u32
  tss_esp0 :: u32
  tss_ss0 :: u32
  tss_esp1 :: u32
  tss_ss1 :: u32
  tss_esp2 :: u32
  tss_ss2 :: u32
  tss_cr3 :: u32
  tss_eip :: u32
  tss_eflags :: u32
  tss_eax :: u32
  tss_ecx :: u32
  tss_edx :: u32
  tss_ebx :: u32
  tss_esp :: u32
  tss_ebp :: u32
  tss_esi :: u32
  tss_edi :: u32
  tss_es :: u32
  tss_cs :: u32
  tss_ss :: u32
  tss_ds :: u32
  tss_fs :: u32
  tss_gs :: u32
  tss_ldt :: u32
  tss_trap :: u16
  tss_iomap_base :: u16

text \<open>The static variables, their addresses, and the register that \<open>gdt_flush\<close> loads.\<close>

record gdt =
  gdt_entries :: "gdt_entry list"
  the_gdt_ptr :: gdt_ptr
  the_tss :: tss_entry
  addr_entries :: u32
  addr_tss :: u32
  gdtr :: "gdt_ptr option"

definition GDT_ENTRIES :: nat where "GDT_ENTRIES = 6"

definition zero_tss :: tss_entry where
  "zero_tss = \<lparr>prev_tss = 0, tss_esp0 = 0, tss_ss0 = 0, tss_esp1 = 0, tss_ss1 = 0, tss_esp2 = 0, tss_ss2 = 0, tss_cr3 = 0, tss_eip = 0,
     tss_eflags = 0, tss_eax = 0, tss_ecx = 0, tss_edx = 0, tss_ebx = 0, tss_esp = 0, tss_ebp = 0, tss_esi = 0, tss_edi = 0, tss_es = 0,
     tss_cs = 0, tss_ss = 0, tss_ds = 0, tss_fs = 0, tss_gs = 0, tss_ldt = 0, tss_trap = 0, tss_iomap_base = 0\<rparr>"

definition sizeof_gdt_entry :: u32 where "sizeof_gdt_entry = 8"
definition sizeof_tss_entry :: u32 where "sizeof_tss_entry = 104"

definition gate :: "u32 \<Rightarrow> u32 \<Rightarrow> u8 \<Rightarrow> u8 \<Rightarrow> gdt_entry" where
  "gate base limit acc gran =
     \<lparr>limit_low = ucast (limit AND 0xFFFF), base_low = ucast (base AND 0xFFFF), base_middle = ucast (drop_bit 16 base AND 0xFF), access = acc,
      granularity = ucast (drop_bit 16 limit AND 0x0F) OR (gran AND 0xF0), base_high = ucast (drop_bit 24 base AND 0xFF)\<rparr>"

text \<open>An index outside of the table is a fault.\<close>

definition gdt_setGate :: "nat \<Rightarrow> u32 \<Rightarrow> u32 \<Rightarrow> u8 \<Rightarrow> u8 \<Rightarrow> gdt \<Rightarrow> gdt option" where
  "gdt_setGate num base limit acc gran g =
     (if num < length (gdt_entries g) then Some (g\<lparr>gdt_entries := (gdt_entries g)[num := gate base limit acc gran]\<rparr>) else None)"

definition gdt_writeTss :: "nat \<Rightarrow> u32 \<Rightarrow> u32 \<Rightarrow> gdt \<Rightarrow> gdt option" where
  "gdt_writeTss num ss0 esp0 g = do {
     let base = addr_tss g;
     let limit = base + sizeof_tss_entry;
     g \<leftarrow> gdt_setGate num base limit 0xE9 0 g;
     Some (g\<lparr>the_tss := zero_tss\<lparr>tss_ss0 := ss0, tss_esp0 := esp0, tss_cs := 0x0b, tss_ss := 0x13, tss_ds := 0x13, tss_es := 0x13, tss_fs := 0x13, tss_gs := 0x13\<rparr>\<rparr>) }"

definition gdt_flush :: "gdt \<Rightarrow> gdt" where
  "gdt_flush g = g\<lparr>gdtr := Some (the_gdt_ptr g)\<rparr>"

definition gdt_init :: "gdt \<Rightarrow> gdt option" where
  "gdt_init g = do {
     let g = g\<lparr>the_gdt_ptr := \<lparr>gp_limit = ucast (sizeof_gdt_entry * of_nat GDT_ENTRIES - 1), gp_base = addr_entries g\<rparr>\<rparr>;
     g \<leftarrow> gdt_setGate 0 0 0 0 0 g;
     g \<leftarrow> gdt_setGate 1 0 0xFFFFFFFF 0x9A 0xCF g;
     g \<leftarrow> gdt_setGate 2 0 0xFFFFFFFF 0x92 0xCF g;
     g \<leftarrow> gdt_setGate 3 0 0xFFFFFFFF 0xFA 0xCF g;
     g \<leftarrow> gdt_setGate 4 0 0xFFFFFFFF 0xF2 0xCF g;
     g \<leftarrow> gdt_writeTss 5 0x10 0 g;
     Some (gdt_flush g) }"

section \<open>How the processor reads a descriptor\<close>

definition seg_base :: "gdt_entry \<Rightarrow> u32" where
  "seg_base e = ucast (base_low e) OR push_bit 16 (ucast (base_middle e)) OR push_bit 24 (ucast (base_high e))"

definition raw_limit :: "gdt_entry \<Rightarrow> u32" where
  "raw_limit e = ucast (limit_low e) OR push_bit 16 (ucast (granularity e) AND 0xF)"

text \<open>With the granularity bit the limit counts pages; the last byte of the segment.\<close>

definition seg_last :: "gdt_entry \<Rightarrow> u32" where
  "seg_last e = (if bit (granularity e) 7 then push_bit 12 (raw_limit e) OR 0xFFF else raw_limit e)"

definition seg_dpl :: "gdt_entry \<Rightarrow> u8" where
  "seg_dpl e = drop_bit 5 (access e) AND 3"

definition seg_present :: "gdt_entry \<Rightarrow> bool" where
  "seg_present e \<longleftrightarrow> bit (access e) 7"

lemma mask_literals: "(0xFFFF :: u32) = mask 16" "(0xFF :: u32) = mask 8" "(0xF :: u32) = mask 4" "(0xFFFFF :: u32) = mask 20" "(0xF0 :: u8) = NOT (mask 4)"
  by (simp_all add: mask_eq_exp_minus_1)

lemma gate_base:
  fixes base :: u32
  shows "ucast (ucast (base AND 0xFFFF) :: u16) OR push_bit 16 (ucast (ucast (drop_bit 16 base AND 0xFF) :: u8)) OR push_bit 24 (ucast (ucast (drop_bit 24 base AND 0xFF) :: u8)) = base"
  unfolding mask_literals
proof (rule bit_word_eqI)
  fix n assume "n < LENGTH(32)"
  then consider "n < 16" | "16 \<le> n" "n < 24" | "24 \<le> n" "n < 32" by fastforce
  then show "bit (ucast (ucast (base AND mask 16) :: u16) OR push_bit 16 (ucast (ucast (drop_bit 16 base AND mask 8) :: u8)) OR push_bit 24 (ucast (ucast (drop_bit 24 base AND mask 8) :: u8)) :: u32) n = bit base n"
    by cases (auto simp: bit_simps)
qed

lemma gate_limit:
  fixes limit :: u32 and gran :: u8
  shows "ucast (ucast (limit AND 0xFFFF) :: u16) OR push_bit 16 (ucast (ucast (drop_bit 16 limit AND 0xF) OR (gran AND 0xF0) :: u8) AND 0xF) = limit AND 0xFFFFF"
  unfolding mask_literals
proof (rule bit_word_eqI)
  fix n assume "n < LENGTH(32)"
  then consider "n < 16" | "16 \<le> n" "n < 20" | "20 \<le> n" "n < 32" by fastforce
  then show "bit (ucast (ucast (limit AND mask 16) :: u16) OR push_bit 16 (ucast (ucast (drop_bit 16 limit AND mask 4) OR (gran AND NOT (mask 4)) :: u8) AND mask 4) :: u32) n = bit (limit AND mask 20) n"
    by cases (auto simp: bit_simps)
qed

lemma gate_flags:
  fixes limit :: u32 and gran :: u8
  shows "(ucast (drop_bit 16 limit AND 0xF) OR (gran AND 0xF0)) AND 0xF0 = gran AND 0xF0"
  unfolding mask_literals by (rule bit_word_eqI) (auto simp: bit_simps)

lemma gate_read:
  "seg_base (gate base limit acc gran) = base" "raw_limit (gate base limit acc gran) = limit mod 2 ^ 20" "access (gate base limit acc gran) = acc"
  "granularity (gate base limit acc gran) AND 0xF0 = gran AND 0xF0" "bit (granularity (gate base limit acc gran)) 7 = bit gran 7"
proof -
  show f: "granularity (gate base limit acc gran) AND 0xF0 = gran AND 0xF0" by (simp add: gate_def gate_flags)
  have "bit (x AND 0xF0) 7 = bit x 7" for x :: u8 unfolding mask_literals by (simp add: bit_simps)
  then show "bit (granularity (gate base limit acc gran)) 7 = bit gran 7" using f by metis
  show "raw_limit (gate base limit acc gran) = limit mod 2 ^ 20" using gate_limit[of limit gran] by (simp add: gate_def raw_limit_def and_low20)
qed (simp_all add: gate_def seg_base_def gate_base)

section \<open>Properties\<close>

text \<open>
  \<open>gdt_setGate\<close> and the processor agree: the descriptor that is written is read back with the base, the access byte and the flags that were
  given, and with the low 20 bits of the limit; the other descriptors do not change. An index outside of the table is refused.
\<close>

theorem gate_roundtrip:
  "(num < length (gdt_entries g) \<longrightarrow> (\<exists>g' e. gdt_setGate num base limit acc gran g = Some g' \<and> gdt_entries g' ! num = e
     \<and> seg_base e = base \<and> raw_limit e = limit mod 2 ^ 20 \<and> access e = acc \<and> granularity e AND 0xF0 = gran AND 0xF0
     \<and> (\<forall>n. n \<noteq> num \<longrightarrow> gdt_entries g' ! n = gdt_entries g ! n)))
   \<and> (length (gdt_entries g) \<le> num \<longrightarrow> gdt_setGate num base limit acc gran g = None)"
  by (simp add: gdt_setGate_def gate_read)

definition demo_gdt :: gdt where
  "demo_gdt = \<lparr>gdt_entries = replicate 6 \<lparr>limit_low = 0, base_low = 0, base_middle = 0, access = 0, granularity = 0, base_high = 0\<rparr>,
     the_gdt_ptr = \<lparr>gp_limit = 0, gp_base = 0\<rparr>, the_tss = zero_tss, addr_entries = 0xE0101000, addr_tss = 0xE0102000, gdtr = None\<rparr>"

theorem gate_roundtrip_witness:
  "\<exists>g' e. gdt_setGate 1 0x12345678 0xABCDE 0x9A 0xCF demo_gdt = Some g' \<and> gdt_entries g' ! 1 = e
     \<and> seg_base e = 0x12345678 \<and> raw_limit e = 0xABCDE \<and> access e = 0x9A"
  using gate_roundtrip[of 1 demo_gdt "0x12345678" "0xABCDE" "0x9A" "0xCF"] by (auto simp: demo_gdt_def)

text \<open>
  \<open>gdt_init\<close> defines flat segments for code and data of the kernel (privilege 0) and of user code (privilege 3) that cover all
  addresses, at the selectors 0x08, 0x10, 0x18 and 0x20, and loads a table of exactly the six descriptors. The descriptor of the task
  state segment has its address, but its limit is the low part of the address behind the segment instead of its size.
\<close>

theorem flat_segments:
  assumes "length (gdt_entries g) = 6"
  shows "\<exists>g'. gdt_init g = Some g' \<and> length (gdt_entries g') = 6 \<and> gdtr g' = Some \<lparr>gp_limit = 6 * 8 - 1, gp_base = addr_entries g\<rparr>
     \<and> (\<forall>i\<in>{1, 2, 3, 4}. seg_base (gdt_entries g' ! i) = 0 \<and> seg_last (gdt_entries g' ! i) = 0xFFFFFFFF \<and> seg_present (gdt_entries g' ! i)
          \<and> seg_dpl (gdt_entries g' ! i) = (if i \<le> 2 then 0 else 3) \<and> (bit (access (gdt_entries g' ! i)) 3 \<longleftrightarrow> odd i))
     \<and> \<not> seg_present (gdt_entries g' ! 0)
     \<and> seg_base (gdt_entries g' ! 5) = addr_tss g \<and> seg_last (gdt_entries g' ! 5) = (addr_tss g + 104) mod 2 ^ 20
     \<and> tss_ss0 (the_tss g') = 0x10 \<and> tss_esp0 (the_tss g') = 0"
proof -
  obtain e0 e1 e2 e3 e4 e5 where e: "gdt_entries g = [e0, e1, e2, e3, e4, e5]"
    using assms by (auto simp: numeral_eq_Suc length_Suc_conv)
  define es where "es = [gate 0 0 0 0, gate 0 0xFFFFFFFF 0x9A 0xCF, gate 0 0xFFFFFFFF 0x92 0xCF, gate 0 0xFFFFFFFF 0xFA 0xCF, gate 0 0xFFFFFFFF 0xF2 0xCF,
     gate (addr_tss g) (addr_tss g + 104) 0xE9 0]"
  obtain g' where g': "gdt_init g = Some g'" "gdt_entries g' = es" "gdtr g' = Some \<lparr>gp_limit = 6 * 8 - 1, gp_base = addr_entries g\<rparr>"
     "tss_ss0 (the_tss g') = 0x10" "tss_esp0 (the_tss g') = 0"
    by (simp add: gdt_init_def gdt_writeTss_def gdt_setGate_def e gdt_flush_def GDT_ENTRIES_def sizeof_gdt_entry_def sizeof_tss_entry_def es_def Let_def)
  have n: "es ! 0 = gate 0 0 0 0" "es ! 1 = gate 0 0xFFFFFFFF 0x9A 0xCF" "es ! 2 = gate 0 0xFFFFFFFF 0x92 0xCF" "es ! 3 = gate 0 0xFFFFFFFF 0xFA 0xCF"
     "es ! 4 = gate 0 0xFFFFFFFF 0xF2 0xCF" "es ! 5 = gate (addr_tss g) (addr_tss g + 104) 0xE9 0" "length es = 6" by (simp_all add: es_def)
  have f: "bit (0xCF :: u8) 7" "\<not> bit (0 :: u8) 7" by (simp_all add: bit_iff_odd)
  have "(0xFFFFFFFF :: u32) mod 2 ^ 20 = 0xFFFFF" "push_bit 12 (0xFFFFF :: u32) OR 0xFFF = 0xFFFFFFFF" by (simp_all add: push_bit_eq_mult)
  then have flat: "seg_last (gate 0 0xFFFFFFFF a 0xCF) = 0xFFFFFFFF" for a by (simp add: seg_last_def gate_read f)
  have dpl: "drop_bit 5 (0x9A :: u8) AND 3 = 0" "drop_bit 5 (0x92 :: u8) AND 3 = 0" "drop_bit 5 (0xFA :: u8) AND 3 = 3" "drop_bit 5 (0xF2 :: u8) AND 3 = 3"
    by (simp_all add: drop_bit_eq_div)
  have bits: "bit (0x9A :: u8) 7" "bit (0x92 :: u8) 7" "bit (0xFA :: u8) 7" "bit (0xF2 :: u8) 7" "bit (0x9A :: u8) 3" "\<not> bit (0x92 :: u8) 3" "bit (0xFA :: u8) 3" "\<not> bit (0xF2 :: u8) 3"
    by (simp_all add: bit_iff_odd)
  show ?thesis unfolding g'(1) by (rule exI[of _ g']) (simp add: g' n n(2)[unfolded One_nat_def] gate_read flat seg_present_def seg_dpl_def seg_last_def f dpl bits)
qed

theorem flat_segments_witness:
  "\<exists>g'. gdt_init demo_gdt = Some g' \<and> seg_last (gdt_entries g' ! 3) = 0xFFFFFFFF \<and> seg_dpl (gdt_entries g' ! 3) = 3 \<and> seg_last (gdt_entries g' ! 5) = 0x2068"
proof -
  have "length (gdt_entries demo_gdt) = 6" by (simp add: demo_gdt_def)
  from flat_segments[OF this] show ?thesis by (auto simp: demo_gdt_def)
qed

end
