(* ===== verification/Stdio.thy ===== *)
theory Stdio
  imports Monitor
begin

text \<open>
  Printing of numbers in the user library, \<^verbatim>\<open>src/library/std/stdio.c\<close>. The buffer of \<open>printk_int\<close> comes from \<open>malloc\<close>, a parameter here:
  \<open>alloc n\<close> are the contents of \<open>n\<close> new bytes. A write outside of an array is a fault. The result is what is passed to \<open>printk\<close>. Theorem: it is the decimal notation.
\<close>

section \<open>Model\<close>

definition set_at :: "u8 list \<Rightarrow> nat \<Rightarrow> u8 \<Rightarrow> u8 list option" where
  "set_at s i c = (if i < length s then Some (s[i := c]) else None)"

function count_digits :: "int \<Rightarrow> nat \<Rightarrow> nat" where
  "count_digits temp order = (if temp > 0 then count_digits (temp div 10) (order + 1) else order)"
  by auto

termination by (relation "measure (\<lambda>(t, _). nat t)") auto

declare count_digits.simps [simp del]

text \<open>The loop from \<open>i\<close> digits down; \<open>off\<close> is where \<open>r\<close> points to in the buffer.\<close>

fun fill_digits :: "nat \<Rightarrow> nat \<Rightarrow> int \<Rightarrow> u8 list \<Rightarrow> u8 list option" where
  "fill_digits off 0 n s = Some s"
| "fill_digits off (Suc i) n s = do {
     c \<leftarrow> char_at numbers (nat (n mod 10));
     s \<leftarrow> set_at s (off + i) c;
     fill_digits off i (n div 10) s }"

definition printk_int :: "(nat \<Rightarrow> u8 list option) \<Rightarrow> u32 \<Rightarrow> u8 list option" where
  "printk_int alloc number =
     (if number = 0 then Some [0x30]
      else do {
        let negative = (sint number < 0);
        let number = (if negative then 0 - number else number);
        let order = count_digits (sint number) 0;
        s \<leftarrow> alloc (order + (if negative then 2 else 1));
        s \<leftarrow> (if negative then set_at s 0 0x2D else Some s);
        let r = (if negative then 1 else 0);
        s \<leftarrow> fill_digits r order (sint number) s;
        s \<leftarrow> set_at s (r + order) 0;
        Some (takeWhile (\<lambda>c. c \<noteq> 0) s) })"

definition HEXDIGITS :: "u8 list" where
  "HEXDIGITS = [0x30, 0x31, 0x32, 0x33, 0x34, 0x35, 0x36, 0x37, 0x38, 0x39, 0x41, 0x42, 0x43, 0x44, 0x45, 0x46, 0]"

fun hex_fill :: "nat \<Rightarrow> nat \<Rightarrow> u32 \<Rightarrow> u8 list \<Rightarrow> u8 list option" where
  "hex_fill i 0 v s = Some s"
| "hex_fill i (Suc n) v s = do {
     c \<leftarrow> char_at HEXDIGITS (unat (drop_bit 28 v));
     s \<leftarrow> set_at s (i + 2) c;
     hex_fill (i + 1) n (push_bit 4 v) s }"

definition printk_hex :: "u32 \<Rightarrow> u8 list option" where
  "printk_hex v = do {
     s \<leftarrow> hex_fill 0 8 v ([0x30, 0x78] @ replicate 9 0);
     s \<leftarrow> set_at s 11 0;
     Some (takeWhile (\<lambda>c. c \<noteq> 0) s) }"

section \<open>Digits\<close>

lemma digits_snoc: "digits (Suc k) v = digits k (v div 10) @ [v mod 10]"
proof (induction k arbitrary: v)
  case (Suc k)
  have m: "v mod 10 ^ Suc k = 10 * (v div 10 mod 10 ^ k) + v mod 10" using mod_mult2_eq[of v 10 "10 ^ k"] by simp
  then have "(v mod 10 ^ Suc k) div 10 = v div 10 mod 10 ^ k" "(v mod 10 ^ Suc k) mod 10 = v mod 10" by simp_all
  moreover have "v div 10 ^ Suc k = v div 10 div 10 ^ k" by (simp add: div_mult2_eq)
  moreover have "digits (Suc (Suc k)) v = v div 10 ^ Suc k mod 10 # digits (Suc k) (v mod 10 ^ Suc k)" by simp
  ultimately show ?case using Suc.IH[of "v mod 10 ^ Suc k"] by simp
qed simp

lemma count_digits_ok:
  "0 < v \<Longrightarrow> \<exists>k. count_digits (int v) j = j + Suc k \<and> 10 ^ k \<le> v \<and> v < 10 ^ Suc k"
proof (induction v arbitrary: j rule: less_induct)
  case (less v)
  have e: "count_digits (int v) j = count_digits (int (v div 10)) (j + 1)" using less.prems by (subst count_digits.simps) (simp add: zdiv_int)
  show ?case
  proof (cases "v < 10")
    case True
    then have "count_digits (int v) j = j + 1" using e by (simp add: count_digits.simps[of 0])
    then show ?thesis using True less.prems by (intro exI[of _ 0]) simp
  next
    case False
    then have "0 < v div 10" "v div 10 < v" by simp_all
    from less.IH[OF this(2,1), of "j + 1"] obtain k where k: "count_digits (int (v div 10)) (j + 1) = j + 1 + Suc k" "10 ^ k \<le> v div 10" "v div 10 < 10 ^ Suc k" by blast
    then have "10 ^ Suc k \<le> v" "v < 10 ^ Suc (Suc k)" by (simp_all add: less_eq_div_iff_mult_less_eq div_less_iff_less_mult)
    then show ?thesis using e k(1) by (intro exI[of _ "Suc k"]) simp
  qed
qed

lemma char_at_numbers: "d < 10 \<Longrightarrow> char_at numbers d = Some (of_nat d + 0x30)"
  by (auto simp: char_at_def numbers_def less_Suc_eq numeral_eq_Suc)

lemma fill_digits_ok:
  "off + i \<le> length s \<Longrightarrow> fill_digits off i (int v) s = Some (take off s @ map (\<lambda>d. of_nat d + 0x30) (digits i v) @ drop (off + i) s)"
proof (induction i arbitrary: v s)
  case (Suc i)
  let ?c = "of_nat (v mod 10) + 0x30 :: u8" and ?s = "s[off + i := of_nat (v mod 10) + 0x30]"
  have "nat (int v mod 10) = v mod 10" "int v div 10 = int (v div 10)" by (simp_all add: nat_mod_distrib zdiv_int)
  then have "fill_digits off (Suc i) (int v) s = fill_digits off i (int (v div 10)) ?s"
    using Suc.prems char_at_numbers[of "v mod 10"] by (simp add: set_at_def)
  also have "\<dots> = Some (take off ?s @ map (\<lambda>d. of_nat d + 0x30) (digits i (v div 10)) @ drop (off + i) ?s)" using Suc.prems by (intro Suc.IH) simp
  also have "drop (off + i) ?s = ?c # drop (off + Suc i) s" using Suc.prems by (simp add: drop_update_swap Cons_nth_drop_Suc[symmetric])
  finally show ?case using digits_snoc[of i v] by simp
qed simp

lemma sint_range: "- 2147483648 \<le> sint x" "sint x < 2147483648" for x :: u32
  using sint_greater_eq[of x] sint_less[of x] by simp_all

lemma sint_neg: "sint x \<noteq> - 2147483648 \<Longrightarrow> sint (- x) = - sint x" for x :: u32
  using sint_range[of x] signed_take_bit_int_eq_self[of 31 "- sint x"] by (simp add: sint_word_ariths(4))

lemma sint_inj: "sint x = sint y \<longleftrightarrow> x = y" for x y :: u32
  by (metis uint_sint word_of_int_uint)

lemma sint_min: "sint x = - 2147483648 \<longleftrightarrow> x = 0x80000000" for x :: u32
  using sint_inj[of x "0x80000000"] by simp

lemma digit_byte: "d < 10 \<Longrightarrow> (of_nat d + 0x30 :: u8) \<noteq> 0"
proof -
  assume "d < 10"
  then have "unat (of_nat d + 0x30 :: u8) = d + 0x30" by (simp add: unat_word_ariths unat_of_nat)
  then show ?thesis by auto
qed

lemma takeWhile_digits: "takeWhile (\<lambda>c. c \<noteq> 0) (map (\<lambda>d. of_nat d + 0x30 :: u8) (digits k v) @ 0 # xs) = map (\<lambda>d. of_nat d + 0x30) (digits k v)"
proof -
  have "\<forall>c\<in>set (map (\<lambda>d. of_nat d + 0x30 :: u8) (digits k v)). c \<noteq> 0" using digits_range digit_byte by force
  then show ?thesis by (subst takeWhile_append2) auto
qed

text \<open>A number that is positive once its sign is removed.\<close>

lemma printk_positive:
  assumes "\<And>n. n \<le> 12 \<Longrightarrow> \<exists>b. alloc n = Some b \<and> length b = n" and "sint v \<noteq> - 2147483648" and "v \<noteq> 0"
  shows "\<exists>k. printk_int alloc v = Some ((if sint v < 0 then [0x2D] else []) @ map (\<lambda>d. of_nat d + 0x30) (digits (Suc k) (nat \<bar>sint v\<bar>)))
     \<and> 10 ^ k \<le> nat \<bar>sint v\<bar> \<and> nat \<bar>sint v\<bar> < 10 ^ Suc k"
proof -
  define m where "m = nat \<bar>sint v\<bar>"
  have m: "sint (if sint v < 0 then 0 - v else v) = int m" "0 < m" "m < 2147483648"
    using sint_neg[OF assms(2)] sint_range[of v] assms(2,3) sint_inj[of v 0] by (auto simp: m_def)
  from count_digits_ok[OF m(2), of 0] obtain k where k: "count_digits (int m) 0 = Suc k" "10 ^ k \<le> m" "m < 10 ^ Suc k" by auto
  have "(10 :: nat) ^ k < 10 ^ 10" using k(2) m(3) by simp
  then have "k < 10" by (rule power_less_imp_less_exp[rotated]) simp
  let ?off = "if sint v < 0 then 1 else 0 :: nat" and ?ds = "map (\<lambda>d. of_nat d + 0x30 :: u8) (digits (Suc k) m)"
  obtain b where b: "alloc (Suc k + (if sint v < 0 then 2 else 1)) = Some b" "length b = Suc k + (if sint v < 0 then 2 else 1)"
    using assms(1)[of "Suc k + (if sint v < 0 then 2 else 1)"] \<open>k < 10\<close> by (cases "sint v < 0") auto
  define c where "c = (if sint v < 0 then b[0 := 0x2D] else b)"
  have c: "(if sint v < 0 then set_at b 0 0x2D else Some b) = Some c" "length c = ?off + Suc k + 1" "take ?off c = (if sint v < 0 then [0x2D] else [])"
    using b(2) by (auto simp: set_at_def c_def take_Suc_conv_app_nth)
  have f: "fill_digits ?off (Suc k) (int m) c = Some (take ?off c @ ?ds @ drop (?off + Suc k) c)" using fill_digits_ok[of ?off "Suc k" c m] c(2) by simp
  obtain z where z: "drop (?off + Suc k) c = [z]" using c(2) by (metis Cons_nth_drop_Suc drop_all less_add_one order_refl Suc_eq_plus1)
  have "set_at (take ?off c @ ?ds @ [z]) (?off + Suc k) 0 = Some (take ?off c @ ?ds @ [0])" using c(2) by (simp add: set_at_def list_update_append)
  moreover have "takeWhile (\<lambda>c. c \<noteq> 0) (take ?off c @ ?ds @ [0]) = take ?off c @ ?ds" using takeWhile_digits[of "Suc k" m "[]"] by (simp add: c(3) del: digits.simps)
  ultimately have "printk_int alloc v = Some (take ?off c @ ?ds)"
    using assms(3) m(1) k(1) b(1) c(1) f z unfolding printk_int_def Let_def by (simp del: digits.simps fill_digits.simps)
  then show ?thesis using k(2,3) c(3) by (intro exI[of _ k]) (simp add: m_def)
qed

section \<open>Properties\<close>

text \<open>
  \<open>printk_int\<close> prints the decimal notation of every signed number, without leading zeros, if \<open>malloc\<close> returns the buffer; only for the least number, whose
  negation overflows, it prints a sign and nothing else. \<open>printk_hex\<close> writes behind the end of its array for every number.
\<close>

theorem printk_int_decimal:
  assumes "\<And>n. n \<le> 12 \<Longrightarrow> \<exists>b. alloc n = Some b \<and> length b = n"
  shows "(v \<noteq> 0x80000000 \<longrightarrow> (\<exists>ds. printk_int alloc v = Some ((if sint v < 0 then [0x2D] else []) @ map (\<lambda>d. of_nat d + 0x30) ds)
       \<and> (\<forall>d\<in>set ds. d < 10) \<and> ds \<noteq> [] \<and> (v \<noteq> 0 \<longrightarrow> hd ds \<noteq> 0) \<and> int (foldl (\<lambda>a d. 10 * a + d) 0 ds) = \<bar>sint v\<bar>))
     \<and> printk_int alloc 0x80000000 = Some [0x2D] \<and> printk_hex w = None"
proof (intro conjI impI)
  assume "v \<noteq> 0x80000000"
  then have v: "sint v \<noteq> - 2147483648" using sint_min by blast
  show "\<exists>ds. printk_int alloc v = Some ((if sint v < 0 then [0x2D] else []) @ map (\<lambda>d. of_nat d + 0x30) ds)
       \<and> (\<forall>d\<in>set ds. d < 10) \<and> ds \<noteq> [] \<and> (v \<noteq> 0 \<longrightarrow> hd ds \<noteq> 0) \<and> int (foldl (\<lambda>a d. 10 * a + d) 0 ds) = \<bar>sint v\<bar>"
  proof (cases "v = 0")
    case True
    then show ?thesis by (intro exI[of _ "[0]"]) (simp add: printk_int_def)
  next
    case False
    from printk_positive[OF assms v False] obtain k where k: "printk_int alloc v = Some ((if sint v < 0 then [0x2D] else []) @ map (\<lambda>d. of_nat d + 0x30) (digits (Suc k) (nat \<bar>sint v\<bar>)))"
       "10 ^ k \<le> nat \<bar>sint v\<bar>" "nat \<bar>sint v\<bar> < 10 ^ Suc k" by blast
    then have "nat \<bar>sint v\<bar> div 10 ^ k \<noteq> 0" "nat \<bar>sint v\<bar> div 10 ^ k < 10" by (simp_all add: div_less_iff_less_mult div_eq_0_iff not_less)
    then have hd: "hd (digits (Suc k) (nat \<bar>sint v\<bar>)) \<noteq> 0" by simp
    define ds where "ds = digits (Suc k) (nat \<bar>sint v\<bar>)"
    have "\<forall>d\<in>set ds. d < 10" using digits_range unfolding ds_def by blast
    moreover have "length ds = Suc k" by (simp only: ds_def length_digits)
    moreover have "foldl (\<lambda>a d. 10 * a + d) 0 ds = nat \<bar>sint v\<bar>" using digits_value[OF k(3), of 0] unfolding ds_def by simp
    ultimately show ?thesis using k(1) hd unfolding ds_def[symmetric] by (intro exI[of _ ds]) auto
  qed
next
  obtain b where b: "alloc 2 = Some b" "length b = 2" using assms[of 2] by auto
  have c: "count_digits (- 2147483648) 0 = 0" by (subst count_digits.simps) simp
  obtain x y where xy: "b = [x, y]" using b(2) by (metis (no_types, lifting) length_0_conv length_Suc_conv numeral_2_eq_2)
  show "printk_int alloc 0x80000000 = Some [0x2D]"
    using b(1)[unfolded numeral_2_eq_2] by (simp add: printk_int_def Let_def c xy set_at_def)
next
  have "length t = length s" if "hex_fill i n x s = Some t" for i n x s t
    using that by (induction n arbitrary: i x s) (auto simp: set_at_def split: if_splits bind_splits)
  then have "length t = 11" if "hex_fill 0 8 w ([0x30, 0x78] @ replicate 9 0) = Some t" for t using that by fastforce
  then show "printk_hex w = None" unfolding printk_hex_def by (cases "hex_fill 0 8 w ([0x30, 0x78] @ replicate 9 0)") (auto simp: set_at_def)
qed

theorem printk_int_decimal_witness:
  "\<exists>ds. printk_int (\<lambda>n. Some (replicate n 7)) (- 1234) = Some (0x2D # map (\<lambda>d. of_nat d + 0x30) ds) \<and> int (foldl (\<lambda>a d. 10 * a + d) 0 ds) = 1234"
  using printk_int_decimal[of "\<lambda>n. Some (replicate n 7)" "- 1234" 0] by auto

end
