(* ===== verification/UMutex.thy ===== *)
theory UMutex
  imports Object
begin

text \<open>
  The mutex of the user library, \<^verbatim>\<open>src/library/std/mutex.c\<close>, with which the functions of the shared memory manager (\<^verbatim>\<open>src/library/gc/shm.c\<close>) exclude each
  other; \<open>malloc\<close> and \<open>free\<close> do not use it. A step of a thread is one execution of the atomic exchange, or one sleep, or one unlocking; threads interleave in any way. Theorem: at
  most one thread holds the mutex, in every reachable state, and the mutex is never lost.
\<close>

section \<open>Model\<close>

definition umutex_exchange :: "u32 \<Rightarrow> u32 \<Rightarrow> u32 \<times> u32" where
  "umutex_exchange m newval = (m, newval)"

text \<open>One round of the loop of \<open>mutex_lock\<close>: has it got the mutex?\<close>

definition umutex_lock :: "u32 \<Rightarrow> bool \<times> u32" where
  "umutex_lock m = (let (r, m) = umutex_exchange m MUTEX_LOCKED in (r \<noteq> MUTEX_LOCKED, m))"

definition umutex_lockE :: "u32 \<Rightarrow> u32 \<times> u32" where
  "umutex_lockE m = (let (r, m) = umutex_exchange m MUTEX_LOCKED in (if r = MUTEX_LOCKED then 0 else 1, m))"

definition umutex_unlock :: "u32 \<Rightarrow> u32" where
  "umutex_unlock m = MUTEX_UNLOCKED"

section \<open>Threads\<close>

text \<open>Where a thread is: not in the code, at the exchange in \<open>mutex_lock\<close>, asleep in its loop, or between locking and unlocking.\<close>

datatype position = Outside | Locking | Asleep | Holding

record mutex_world =
  mutex_word :: u32
  position :: "nat \<Rightarrow> position"

definition mutex_start :: mutex_world where
  "mutex_start = \<lparr>mutex_word = MUTEX_UNLOCKED, position = (\<lambda>_. Outside)\<rparr>"

inductive mutex_step :: "mutex_world \<Rightarrow> mutex_world \<Rightarrow> bool" where
  call: "position w t = Outside \<Longrightarrow> mutex_step w (w\<lparr>position := (position w)(t := Locking)\<rparr>)"
| lock: "position w t = Locking \<Longrightarrow> umutex_lock (mutex_word w) = (got, m) \<Longrightarrow>
     mutex_step w (w\<lparr>mutex_word := m, position := (position w)(t := if got then Holding else Asleep)\<rparr>)"
| wake: "position w t = Asleep \<Longrightarrow> mutex_step w (w\<lparr>position := (position w)(t := Locking)\<rparr>)"
| try_lock: "position w t = Outside \<Longrightarrow> umutex_lockE (mutex_word w) = (r, m) \<Longrightarrow>
     mutex_step w (w\<lparr>mutex_word := m, position := (position w)(t := if r \<noteq> 0 then Holding else Outside)\<rparr>)"
| unlock: "position w t = Holding \<Longrightarrow>
     mutex_step w (w\<lparr>mutex_word := umutex_unlock (mutex_word w), position := (position w)(t := Outside)\<rparr>)"

inductive_cases mutex_stepE: "mutex_step w w'"

text \<open>\<open>h\<close> is the thread that holds the mutex, if any; the mutex is locked exactly while there is one.\<close>

definition mutex_inv :: "nat option \<Rightarrow> mutex_world \<Rightarrow> bool" where
  "mutex_inv h w \<longleftrightarrow> (\<forall>t. position w t = Holding \<longleftrightarrow> h = Some t) \<and> mutex_word w = (if h = None then MUTEX_UNLOCKED else MUTEX_LOCKED)"

lemmas mutex_defs = umutex_lock_def umutex_lockE_def umutex_unlock_def umutex_exchange_def MUTEX_LOCKED_def MUTEX_UNLOCKED_def

lemma mutex_inv_start: "mutex_inv None mutex_start"
  by (simp add: mutex_inv_def mutex_start_def)

lemma mutex_invD: "mutex_inv h w \<Longrightarrow> position w t \<noteq> Holding \<Longrightarrow> h \<noteq> Some t"
  by (auto simp: mutex_inv_def)

lemma mutex_inv_step: "mutex_step w w' \<Longrightarrow> mutex_inv h w \<Longrightarrow> \<exists>h'. mutex_inv h' w'"
proof (induction rule: mutex_step.induct)
  case (call w t)
  then show ?case using mutex_invD[of h w t] by (intro exI[of _ h]) (auto simp: mutex_inv_def)
next
  case (lock w t got m)
  then show ?case using mutex_invD[of h w t] by (intro exI[of _ "if h = None then Some t else h"]) (auto simp: mutex_inv_def mutex_defs split: if_splits)
next
  case (wake w t)
  then show ?case using mutex_invD[of h w t] by (intro exI[of _ h]) (auto simp: mutex_inv_def)
next
  case (try_lock w t r m)
  then show ?case using mutex_invD[of h w t] by (intro exI[of _ "if h = None then Some t else h"]) (auto simp: mutex_inv_def mutex_defs split: if_splits)
next
  case (unlock w t)
  then show ?case by (intro exI[of _ None]) (auto simp: mutex_inv_def mutex_defs)
qed

lemma mutex_inv_reachable: "mutex_step\<^sup>*\<^sup>* mutex_start w \<Longrightarrow> \<exists>h. mutex_inv h w"
  by (induction rule: rtranclp_induct) (use mutex_inv_start mutex_inv_step in blast)+

section \<open>Properties\<close>

text \<open>
  C31. Mutual exclusion: in every state that any number of threads can reach by locking, trying to lock, sleeping and unlocking, at most one thread
  holds the mutex; if none does, the next exchange of any thread succeeds; and if one does, every other exchange fails and leaves the mutex locked.
\<close>

theorem mutual_exclusion:
  assumes "mutex_step\<^sup>*\<^sup>* mutex_start w"
  shows "(position w t = Holding \<longrightarrow> position w t' = Holding \<longrightarrow> t = t')
     \<and> ((\<forall>t. position w t \<noteq> Holding) \<longrightarrow> umutex_lock (mutex_word w) = (True, MUTEX_LOCKED) \<and> umutex_lockE (mutex_word w) = (1, MUTEX_LOCKED))
     \<and> (position w t = Holding \<longrightarrow> umutex_lock (mutex_word w) = (False, mutex_word w) \<and> umutex_lockE (mutex_word w) = (0, mutex_word w))"
proof -
  from mutex_inv_reachable[OF assms] obtain h where "mutex_inv h w" by blast
  then show ?thesis by (cases h) (auto simp: mutex_inv_def mutex_defs)
qed

text \<open>Thread 1 takes the mutex and thread 2 goes to sleep.\<close>

theorem mutual_exclusion_witness:
  "\<exists>w. mutex_step\<^sup>*\<^sup>* mutex_start w \<and> position w 1 = Holding \<and> position w 2 = Asleep \<and> umutex_lock (mutex_word w) = (False, mutex_word w)"
proof -
  define w1 where "w1 = mutex_start\<lparr>position := (position mutex_start)(1 := Locking)\<rparr>"
  define w2 where "w2 = w1\<lparr>mutex_word := MUTEX_LOCKED, position := (position w1)(1 := Holding)\<rparr>"
  define w3 where "w3 = w2\<lparr>position := (position w2)(2 := Locking)\<rparr>"
  define w4 where "w4 = w3\<lparr>mutex_word := MUTEX_LOCKED, position := (position w3)(2 := Asleep)\<rparr>"
  have "mutex_step mutex_start w1" unfolding w1_def by (rule call) (simp add: mutex_start_def)
  moreover have "mutex_step w1 w2" using lock[of w1 1 True MUTEX_LOCKED] by (simp add: w2_def) (simp add: w1_def mutex_start_def mutex_defs)
  moreover have "mutex_step w2 w3" unfolding w3_def by (rule call) (simp add: w2_def w1_def mutex_start_def)
  moreover have "mutex_step w3 w4" using lock[of w3 2 False MUTEX_LOCKED] by (simp add: w4_def) (simp add: w3_def w2_def mutex_defs)
  ultimately have r: "mutex_step\<^sup>*\<^sup>* mutex_start w4" by (meson converse_rtranclp_into_rtranclp rtranclp.rtrancl_refl)
  have p: "position w4 1 = Holding" "position w4 2 = Asleep" by (simp_all add: w4_def w3_def w2_def)
  show ?thesis using mutual_exclusion[OF r, of 1 2] r p by (intro exI[of _ w4]) simp
qed

end
