(* ===== verification/PageCache.thy ===== *)
theory PageCache
  imports Seg
begin

text \<open>
  The page allocator of \<^verbatim>\<open>src/kernel/mem/mem.c\<close> at work: \<open>get_free_pages\<close> fills the cache from the last 4 MB of the
  address space, and \<open>kmalloc_page\<close> takes a page from it. The definitions are in theory \<open>Paging\<close>; here is the invariant of the cache and the proof
  that \<open>kmalloc_page\<close> returns, with a page that nobody else has, as long as there are frames and free pages in the last table.
\<close>

section \<open>The last page table of the kernel\<close>

text \<open>The address of page \<open>j\<close> of the last table.\<close>

definition top_page :: "nat \<Rightarrow> u32" where
  "top_page j = 0xFFC00000 + 0x1000 * of_nat j"

lemma unat_top_page: "j < 1024 \<Longrightarrow> unat (top_page j) = 0xFFC00000 + 4096 * j"
proof -
  assume j: "j < 1024"
  have "unat (0x1000 * of_nat j :: u32) = 4096 * j" using j by (subst unat_mult_u32) (simp_all add: unat_of_nat_u32)
  then show ?thesis using j unfolding top_page_def by (subst unat_add_u32) simp_all
qed

lemma top_page_index: "j < 1024 \<Longrightarrow> unat (top_page j) div 4096 div 1024 = 1023" "j < 1024 \<Longrightarrow> unat (top_page j) div 4096 mod 1024 = j"
proof -
  assume j: "j < 1024"
  then have e: "unat (top_page j) div 4096 = j + 1024 * 1023" by (simp add: unat_top_page)
  show "unat (top_page j) div 4096 div 1024 = 1023" unfolding e using j by simp
  show "unat (top_page j) div 4096 mod 1024 = j" unfolding e mod_mult_self2 using j by simp
qed

lemma top_page_inj: "i < 1024 \<Longrightarrow> j < 1024 \<Longrightarrow> top_page i = top_page j \<longleftrightarrow> i = j"
  by (metis top_page_index(2))

definition free_top :: "(nat \<Rightarrow> page) \<Rightarrow> nat set" where
  "free_top t = {j. j < 1024 \<and> pg_frame (t j) = 0}"

lemma finite_free_top [simp]: "finite (free_top t)"
  by (simp add: free_top_def)

definition free_fr :: "kernel \<Rightarrow> nat set" where
  "free_fr s = {..<frame_cap s} - bs_used (frames s)"

lemma finite_free_fr [simp]: "finite (free_fr s)"
  by (simp add: free_fr_def)

text \<open>The view of the present pages is that of the tables.\<close>

definition mmu_ok :: "kernel \<Rightarrow> bool" where
  "mmu_ok s \<longleftrightarrow> mpresent s = hw_present s (current_pagedir s)"

text \<open>
  The invariant, for the last table \<open>t\<close> at \<open>kt\<close>: the pages in the cache are pages of this table, are distinct and have a frame;
  neither these nor the free pages of the table hold the table itself.
\<close>

definition cache_ok :: "kernel \<Rightarrow> ptr \<Rightarrow> (nat \<Rightarrow> page) \<Rightarrow> bool" where
  "cache_ok s kt t \<longleftrightarrow> kheap_working s \<and> (\<exists>kd. the_pd s (kernel_pagedir s) = Some kd \<and> pd_tables kd 1023 = kt) \<and> kt \<noteq> 0 \<and> ptables s kt = Some t
     \<and> frames_ok s \<and> frame_cap s \<le> 0x100000 \<and> 0 \<in> bs_used (frames s) \<and> mmu_ok s
     \<and> (\<forall>j\<in>free_top t. \<not> pg_present (t j) \<and> kt \<noteq> unat (top_page j))
     \<and> (\<forall>v\<in>fst ` set (freepages s). \<exists>j<1024. v = top_page j \<and> j \<notin> free_top t \<and> kt \<noteq> unat v)
     \<and> distinct (map fst (freepages s)) \<and> length (freepages s) \<le> 5"

text \<open>What an allocation of a page changes.\<close>

definition cache_only :: "kernel \<Rightarrow> kernel \<Rightarrow> bool" where
  "cache_only s s' \<longleftrightarrow> (\<exists>mp fr pt fps l. s' = s\<lparr>mpresent := mp, frames := fr, ptables := pt, freepages := fps, if_locks := l\<rparr>)"

lemma cache_only_refl [simp]: "cache_only s s"
  unfolding cache_only_def by (rule exI[of _ "mpresent s"], rule exI[of _ "frames s"], rule exI[of _ "ptables s"], rule exI[of _ "freepages s"], rule exI[of _ "if_locks s"]) simp

lemma cache_only_trans: "cache_only s s' \<Longrightarrow> cache_only s' s'' \<Longrightarrow> cache_only s s''"
  unfolding cache_only_def by (elim exE) (simp, blast)

lemma cache_only_fields:
  assumes "cache_only s s'"
  shows "pdirs s' = pdirs s" "current_pagedir s' = current_pagedir s" "kernel_pagedir s' = kernel_pagedir s" "segs s' = segs s" "segmaps s' = segmaps s"
    "mbytes s' = mbytes s" "procs s' = procs s" "kheap_working s' = kheap_working s"
  using assms by (auto simp: cache_only_def)

section \<open>Filling the cache\<close>

lemma find_page_top:
  assumes "the_pd s (kernel_pagedir s) = Some kd" and "pd_tables kd 1023 = kt" and "kt \<noteq> 0" and "ptables s kt = Some t"
    and "j0 \<in> free_top t"
  shows "j0 \<le> j \<Longrightarrow> j < 1024 \<Longrightarrow> (\<And>i. j0 < i \<Longrightarrow> i \<le> j \<Longrightarrow> i \<notin> free_top t) \<Longrightarrow> j - j0 < n
     \<Longrightarrow> find_page n (top_page j) s = Some (top_page j0, s)"
proof (induction n arbitrary: j)
  case (Suc n)
  have g: "getPage_with kmalloc_page_nested (kernel_pagedir s) (top_page j) True s = Some (Some (kt, j), s)"
    using getPage_known[OF assms(1), of "top_page j"] assms(2,3) Suc.prems(2) by (simp add: top_page_index)
  show ?case
  proof (cases "j = j0")
    case True
    then show ?thesis using g assms(4,5) by (simp add: get_page_def free_top_def)
  next
    case False
    then have j: "j0 < j" using Suc.prems(1) by simp
    have "pg_frame (t j) \<noteq> 0" using Suc.prems(3)[of j] j Suc.prems(2) by (simp add: free_top_def)
    moreover have "top_page j - 0x1000 = top_page (j - 1)" using j by (cases j) (simp_all add: top_page_def algebra_simps)
    moreover have "find_page n (top_page (j - 1)) s = Some (top_page j0, s)" using Suc.prems j by (intro Suc.IH) auto
    ultimately show ?thesis using g assms(4) by (simp add: get_page_def)
  qed
qed simp

lemma find_free_page:
  assumes "the_pd s (kernel_pagedir s) = Some kd" and "pd_tables kd 1023 = kt" and "kt \<noteq> 0" and "ptables s kt = Some t" and "free_top t \<noteq> {}"
  shows "\<exists>j\<in>free_top t. find_page 0x10000 0xFFFFF000 s = Some (top_page j, s)"
proof -
  have m: "Max (free_top t) \<in> free_top t" using assms(5) by simp
  then have "Max (free_top t) < 1024" by (simp add: free_top_def)
  moreover have "i \<notin> free_top t" if "Max (free_top t) < i" for i using that Max_ge[of "free_top t" i] by fastforce
  ultimately have "find_page 0x10000 (top_page 1023) s = Some (top_page (Max (free_top t)), s)"
    by (intro find_page_top[OF assms(1-4) m]) auto
  then show ?thesis using m by (auto simp: top_page_def)
qed

lemma frame_alloc_free:
  assumes "frames_ok s" and "free_fr s \<noteq> {}"
  shows "\<exists>f s1. frame_alloc s = Some (f, s1) \<and> unat f \<in> free_fr s \<and> s1 = s\<lparr>frames := frames s1\<rparr>
     \<and> bs_used (frames s1) = insert (unat f) (bs_used (frames s)) \<and> free_fr s1 = free_fr s - {unat f} \<and> frame_cap s1 = frame_cap s \<and> frames_ok s1"
proof -
  obtain n where "n < frame_cap s" "n \<notin> bs_used (frames s)" using assms(2) by (auto simp: free_fr_def)
  from fp.alloc_ok[OF assms(1) this] obtain f s1 where "frame_alloc s = Some (f, s1)" "unat f < frame_cap s" "unat f \<notin> bs_used (frames s)"
     "bs_used (frames s1) = insert (unat f) (bs_used (frames s))" "frame_cap s1 = frame_cap s" "frames_ok s1" by blast
  then show ?thesis using frame_alloc_frames[of s f s1] by (auto simp: free_fr_def)
qed

text \<open>One page more in the cache.\<close>

definition cached_page :: "u32 \<Rightarrow> page" where
  "cached_page f = \<lparr>pg_present = True, pg_rw = False, pg_user = False, pg_frame = f\<rparr>"

lemma frame_phys:
  fixes f :: u32
  assumes "unat f < 0x100000"
  shows "f * 0x1000 div 0x1000 AND 0xFFFFF = f"
proof -
  have "unat (f * 0x1000) = unat f * 4096" using assms by (subst unat_mult_u32) simp_all
  then show ?thesis using assms by (intro unat_eqD) (simp add: and_low20 unat_mod_u32 unat_div_u32)
qed

lemma free_top_upd: "j \<in> free_top t \<Longrightarrow> pg_frame p \<noteq> 0 \<Longrightarrow> free_top (t(j := p)) = free_top t - {j}"
  by (auto simp: free_top_def)

lemma mmu_kheap [simp]: "kheap_working (mmu s) = kheap_working s"
  by (simp add: mmu_def)

lemma mmu_mmu_ok [simp]: "mmu_ok (mmu s)"
  using hw_present_cong[of "mmu s" s] by (simp add: mmu_ok_def)

lemma mmu_ok_frame [simp]: "mmu_ok (s\<lparr>freepages := x\<rparr>) = mmu_ok s" "mmu_ok (s\<lparr>if_locks := l\<rparr>) = mmu_ok s" "mmu_ok (s\<lparr>frames := f\<rparr>) = mmu_ok s"
  using hw_present_cong[of "s\<lparr>freepages := x\<rparr>" s] hw_present_cong[of "s\<lparr>if_locks := l\<rparr>" s] hw_present_cong[of "s\<lparr>frames := f\<rparr>" s] by (simp_all add: mmu_ok_def)

lemma refill_step:
  assumes ok: "cache_ok s kt t" and len: "length (freepages s) < 5" and ne: "free_fr s \<noteq> {}" "free_top t \<noteq> {}"
  shows "\<exists>s1 j f. get_free_pages s = get_free_pages s1 \<and> cache_ok s1 kt (t(j := cached_page f)) \<and> cache_only s s1
     \<and> j \<in> free_top t \<and> f \<noteq> 0 \<and> unat f \<in> free_fr s \<and> bs_used (frames s1) = insert (unat f) (bs_used (frames s)) \<and> free_fr s1 = free_fr s - {unat f}
     \<and> frame_cap s1 = frame_cap s
     \<and> freepages s1 = (top_page j, f * 0x1000) # freepages s \<and> ptables s1 = (ptables s)(kt \<mapsto> t(j := cached_page f))"
proof -
  obtain kd where kd: "the_pd s (kernel_pagedir s) = Some kd" "pd_tables kd 1023 = kt" "kt \<noteq> 0" "ptables s kt = Some t" "kheap_working s"
    "frames_ok s" "frame_cap s \<le> 0x100000" "0 \<in> bs_used (frames s)" using ok by (auto simp: cache_ok_def)
  obtain j where j: "j \<in> free_top t" "find_page 0x10000 0xFFFFF000 s = Some (top_page j, s)" using find_free_page[OF kd(1-4) ne(2)] by blast
  then have jj: "j < 1024" "pg_frame (t j) = 0" "\<not> pg_present (t j)" using ok by (auto simp: free_top_def cache_ok_def)
  obtain f s0 where f: "frame_alloc s = Some (f, s0)" "unat f \<in> free_fr s" "s0 = s\<lparr>frames := frames s0\<rparr>" "bs_used (frames s0) = insert (unat f) (bs_used (frames s))"
    "free_fr s0 = free_fr s - {unat f}" "frame_cap s0 = frame_cap s" "frames_ok s0" using frame_alloc_free[OF kd(6) ne(1)] by blast
  have fl: "unat f < 0x100000" "f \<noteq> 0" using f(2) kd(7,8) by (auto simp: free_fr_def)
  define s1 where "s1 = (mmu (s\<lparr>frames := frames s0, ptables := (ptables s)(kt \<mapsto> t(j := cached_page f))\<rparr>))\<lparr>freepages := (top_page j, f * 0x1000) # freepages s\<rparr>"
  have s0: "the_pd s0 (kernel_pagedir s0) = Some kd" "ptables s0 = ptables s" "freepages s0 = freepages s" using kd(1) by (subst f(3), simp)+
  have g: "getPage_with kmalloc_page_nested (kernel_pagedir s0) (top_page j) False s0 = Some (Some (kt, j), s0)"
    using getPage_known[OF s0(1), of "top_page j"] kd(2,3) jj(1) by (simp add: top_page_index)
  have m: "page_map (Some (kt, j)) (f * 0x1000 div 0x1000) False False s0 = Some (mmu (s\<lparr>frames := frames s0, ptables := (ptables s)(kt \<mapsto> t(j := cached_page f))\<rparr>))"
    using kd(4) jj s0(2) fl(1) by (subst f(3)) (simp add: page_map_def get_page_def set_page_def cached_page_def frame_phys)
  have "get_free_pages s = get_free_pages s1"
    using len kd(5) j(2) f(1) g m s0(3) by (subst get_free_pages.simps) (simp add: FREEPAGESTOKEEP_def Let_def s1_def mmu_def)
  moreover have "cache_only s s1" unfolding cache_only_def s1_def mmu_def
    by (intro exI) (rule kernel.equality; simp; fail)
  moreover have "cache_ok s1 kt (t(j := cached_page f))"
  proof -
    have ft: "free_top (t(j := cached_page f)) = free_top t - {j}" using free_top_upd[OF j(1)] fl(2) by (simp add: cached_page_def)
    have "frames_ok s1" "frame_cap s1 = frame_cap s" using f(6,7) by (simp_all add: s1_def frames_ok_def frame_cap_def)
    moreover have "the_pd s1 (kernel_pagedir s1) = Some kd" using kd(1) by (auto simp: s1_def the_pd_def split: if_splits)
    moreover have "top_page j \<notin> fst ` set (freepages s)" using ok j(1) jj(1) by (auto simp: cache_ok_def top_page_inj free_top_def)
    ultimately show ?thesis using ok kd f(4) len jj(1) j(1) unfolding cache_ok_def ft by (simp add: s1_def mmu_def[of s]) (auto simp: ft cached_page_def)
  qed
  ultimately show ?thesis using j(1) f fl by (intro exI[of _ s1] exI[of _ j] exI[of _ f]) (simp add: s1_def free_fr_def frame_cap_def)
qed

text \<open>What allocations do to the last table: pages that are in use stay as they are.\<close>

definition top_grows :: "(nat \<Rightarrow> page) \<Rightarrow> (nat \<Rightarrow> page) \<Rightarrow> bool" where
  "top_grows t t' \<longleftrightarrow> (\<forall>j. j \<notin> free_top t \<longrightarrow> t' j = t j) \<and> free_top t' \<subseteq> free_top t"

lemma top_grows_refl [simp]: "top_grows t t"
  by (simp add: top_grows_def)

lemma top_grows_trans: "top_grows t t' \<Longrightarrow> top_grows t' t'' \<Longrightarrow> top_grows t t''"
  unfolding top_grows_def by (metis subset_iff)

lemma fill_cache:
  assumes "cache_ok s kt t" and "5 - length (freepages s) \<le> card (free_fr s)" and "5 - length (freepages s) \<le> card (free_top t)"
  shows "\<exists>s' t'. get_free_pages s = Some s' \<and> cache_ok s' kt t' \<and> cache_only s s' \<and> length (freepages s') = 5 \<and> top_grows t t'
     \<and> ptables s' = (ptables s)(kt \<mapsto> t') \<and> bs_used (frames s) \<subseteq> bs_used (frames s') \<and> frame_cap s' = frame_cap s
     \<and> card (free_fr s') + 5 = card (free_fr s) + length (freepages s) \<and> card (free_top t') + 5 = card (free_top t) + length (freepages s)
     \<and> fst ` set (freepages s') \<subseteq> fst ` set (freepages s) \<union> top_page ` free_top t"
  using assms
proof (induction "5 - length (freepages s)" arbitrary: s t)
  case 0
  then have "length (freepages s) = 5" "ptables s kt = Some t" by (auto simp: cache_ok_def)
  then show ?case using 0 by (intro exI[of _ s] exI[of _ t]) (subst get_free_pages.simps, simp add: FREEPAGESTOKEEP_def map_upd_triv)
next
  case (Suc n)
  then have "length (freepages s) < 5" "free_fr s \<noteq> {}" "free_top t \<noteq> {}" by auto
  from refill_step[OF Suc.prems(1) this] obtain s1 j f where
    s1: "get_free_pages s = get_free_pages s1" "cache_ok s1 kt (t(j := cached_page f))" "cache_only s s1" "j \<in> free_top t" "f \<noteq> 0" "unat f \<in> free_fr s"
      "bs_used (frames s1) = insert (unat f) (bs_used (frames s))" "free_fr s1 = free_fr s - {unat f}" "frame_cap s1 = frame_cap s"
      "freepages s1 = (top_page j, f * 0x1000) # freepages s" "ptables s1 = (ptables s)(kt \<mapsto> t(j := cached_page f))"
    by (elim exE conjE) (rule that; assumption)
  let ?t1 = "t(j := cached_page f)"
  have ft: "free_top ?t1 = free_top t - {j}" using free_top_upd[OF s1(4)] s1(5) by (simp add: cached_page_def)
  have c: "card (free_fr s1) + 1 = card (free_fr s)" "card (free_top ?t1) + 1 = card (free_top t)"
    using s1(4,6,8) card_Suc_Diff1[OF finite_free_fr s1(6)] card_Suc_Diff1[OF finite_free_top s1(4)] by (simp_all add: ft)
  have n1: "n = 5 - length (freepages s1)" using Suc.hyps(2) s1(10) by simp
  have n2: "5 - length (freepages s1) \<le> card (free_fr s1)" "5 - length (freepages s1) \<le> card (free_top ?t1)"
    using Suc.hyps(2) Suc.prems(2,3) c s1(10) by simp_all
  from Suc.hyps(1)[OF n1 s1(2) n2] obtain s' t' where
    r: "get_free_pages s1 = Some s'" "cache_ok s' kt t'" "cache_only s1 s'" "length (freepages s') = 5" "top_grows ?t1 t'"
      "ptables s' = (ptables s1)(kt \<mapsto> t')" "bs_used (frames s1) \<subseteq> bs_used (frames s')" "frame_cap s' = frame_cap s1"
      "card (free_fr s') + 5 = card (free_fr s1) + length (freepages s1)" "card (free_top t') + 5 = card (free_top ?t1) + length (freepages s1)"
      "fst ` set (freepages s') \<subseteq> fst ` set (freepages s1) \<union> top_page ` free_top ?t1"
    by (elim exE conjE) (rule that; assumption)
  have "top_grows t ?t1" using s1(4) by (auto simp: top_grows_def ft)
  then show ?case using s1 r c Suc.hyps(2) cache_only_trans[OF s1(3) r(3)] top_grows_trans[OF _ r(5)]
    by (intro exI[of _ s'] exI[of _ t']) (auto simp: ft)
qed

text \<open>
  \<open>kmalloc_page\<close>: the page it returns was in the cache or free, and is no longer in either. Frames and pages that the cache holds count as
  available, so each call uses up one.
\<close>

lemma kmalloc_page_ok:
  assumes "cache_ok s kt t" and "5 \<le> card (free_fr s) + length (freepages s)" and "5 \<le> card (free_top t) + length (freepages s)"
  shows "\<exists>v ph s' t'. kmalloc_page s = Some (v, ph, s') \<and> cache_ok s' kt t' \<and> cache_only s s' \<and> top_grows t t'
     \<and> ptables s' = (ptables s)(kt \<mapsto> t') \<and> bs_used (frames s) \<subseteq> bs_used (frames s') \<and> frame_cap s' = frame_cap s
     \<and> card (free_fr s') + length (freepages s') + 1 = card (free_fr s) + length (freepages s)
     \<and> card (free_top t') + length (freepages s') + 1 = card (free_top t) + length (freepages s)
     \<and> v \<in> fst ` set (freepages s) \<union> top_page ` free_top t \<and> v \<notin> fst ` set (freepages s') \<union> top_page ` free_top t' \<and> unat v \<noteq> kt \<and> v \<noteq> 0
     \<and> fst ` set (freepages s') \<subseteq> fst ` set (freepages s) \<union> top_page ` free_top t"
proof -
  let ?c = "cli s"
  have c: "cache_ok ?c kt t" "freepages ?c = freepages s" "free_fr ?c = free_fr s"
    using assms(1) by (simp_all add: cli_def cache_ok_def frames_ok_def frame_cap_def free_fr_def)
  have "5 - length (freepages ?c) \<le> card (free_fr ?c)" "5 - length (freepages ?c) \<le> card (free_top t)" using assms(2,3) unfolding c(2,3) by simp_all
  from fill_cache[OF c(1) this] obtain s' t' where
    r: "get_free_pages ?c = Some s'" "cache_ok s' kt t'" "cache_only ?c s'" "length (freepages s') = 5" "top_grows t t'"
      "ptables s' = (ptables ?c)(kt \<mapsto> t')" "bs_used (frames ?c) \<subseteq> bs_used (frames s')" "frame_cap s' = frame_cap ?c"
      "card (free_fr s') + 5 = card (free_fr ?c) + length (freepages ?c)" "card (free_top t') + 5 = card (free_top t) + length (freepages ?c)"
      "fst ` set (freepages s') \<subseteq> fst ` set (freepages ?c) \<union> top_page ` free_top t"
    by (elim exE conjE) (rule that; assumption)
  obtain v ph rest where fp: "freepages s' = (v, ph) # rest" using r(4) by (cases "freepages s'") auto
  define s2 where "s2 = snd (sti (s'\<lparr>freepages := rest\<rparr>))"
  have s2: "s2 = s'\<lparr>freepages := rest, if_locks := if_locks s2\<rparr>" by (simp add: s2_def sti_def Let_def)
  have e: "kmalloc_page s = Some (v, ph, s2)" using r(1) fp by (simp add: kmalloc_page_def s2_def)
  have v: "\<exists>j<1024. v = top_page j \<and> j \<notin> free_top t' \<and> kt \<noteq> unat v" "v \<notin> fst ` set rest"
    using r(2) fp by (auto simp: cache_ok_def)
  have f2: "frames s2 = frames s'" "ptables s2 = ptables s'" "freepages s2 = rest" "free_fr s2 = free_fr s'" "frame_cap s2 = frame_cap s'"
    by (subst s2, simp add: free_fr_def frame_cap_def)+
  have "cache_ok (s'\<lparr>freepages := rest, if_locks := l\<rparr>) kt t'" for l using r(2) fp by (simp add: cache_ok_def frames_ok_def frame_cap_def the_pd_def)
  then have "cache_ok s2 kt t'" by (subst s2) 
  moreover have "cache_only s s2"
  proof -
    have "cache_only s ?c" unfolding cache_only_def cli_def by (intro exI) (rule kernel.equality; simp; fail)
    moreover have "cache_only s' s2" unfolding cache_only_def by (subst s2, intro exI) (rule kernel.equality; simp; fail)
    ultimately show ?thesis using cache_only_trans r(3) by blast
  qed
  moreover have "v \<notin> top_page ` free_top t'" using v(1) by (auto simp: top_page_inj free_top_def)
  moreover have "v \<noteq> 0" using v(1) unat_top_page by fastforce
  moreover have "length rest = 4" "fst ` set rest \<subseteq> fst ` set (freepages s) \<union> top_page ` free_top t" "v \<in> fst ` set (freepages s) \<union> top_page ` free_top t"
    using r(4,11) fp c(2) by auto
  ultimately have "cache_ok s2 kt t' \<and> cache_only s s2 \<and> v \<notin> fst ` set rest \<union> top_page ` free_top t' \<and> v \<noteq> 0 \<and> length rest = 4
      \<and> fst ` set rest \<subseteq> fst ` set (freepages s) \<union> top_page ` free_top t \<and> v \<in> fst ` set (freepages s) \<union> top_page ` free_top t"
    using v(2) by simp
  moreover have "frame_cap s' = frame_cap s" "bs_used (frames s) \<subseteq> bs_used (frames s')" "ptables s' = (ptables s)(kt \<mapsto> t')" "unat v \<noteq> kt"
    using r(6-8) v(1) by (auto simp: cli_def frame_cap_def)
  moreover have "card (free_fr s') + 5 = card (free_fr s) + length (freepages s)" "card (free_top t') + 5 = card (free_top t) + length (freepages s)"
    using r(9,10) unfolding c(2,3) by simp_all
  moreover note e r(5)
  ultimately show ?thesis
    by - (rule exI[of _ v], rule exI[of _ ph], rule exI[of _ s2], rule exI[of _ t'], simp add: f2)
qed

end
