(* ===== verification/Vmem.thy ===== *)
theory Vmem
  imports PageCache "HOL-Library.Signed_Division"
begin

text \<open>
  Virtual memory as the code of the kernel sees it when it accesses the address space of a process: the processor translates an address
  with the current page directory to an address in the physical memory, and an access to a page that is not present calls \<open>paging_fault\<close>, which maps
  a frame there if the address is in a segment. Theorems: such accesses succeed in the segments of a process, and change
  exactly the bytes that they write, in frames that no other page has.

  The addresses from \<^verbatim>\<open>0xE0000000\<close> on are the memory of the kernel, whose contents is in the state of the kernel.
\<close>

section \<open>Model\<close>

record machine =
  kern :: kernel
  ram :: "nat \<Rightarrow> u8"

text \<open>The frame of page \<open>n\<close>, as the processor finds it.\<close>

definition hw_frame :: "kernel \<Rightarrow> ptr \<Rightarrow> nat \<Rightarrow> u32 option" where
  "hw_frame s pd n = (case pdirs s pd of None \<Rightarrow> None | Some d \<Rightarrow>
     if bit (pd_tablesPhysical d (n div 1024)) 0
     then (case ptables s (pd_tables d (n div 1024)) of None \<Rightarrow> None | Some t \<Rightarrow>
       if pg_present (t (n mod 1024)) then Some (pg_frame (t (n mod 1024))) else None)
     else None)"

text \<open>An access of kernel code; the fault handler only looks at whether the code is in the kernel. A fault that is not handled ends in a panic.\<close>

definition access :: "u32 \<Rightarrow> u32 \<Rightarrow> machine \<Rightarrow> machine option" where
  "access err a m = (
     if hw_frame (kern m) (current_pagedir (kern m)) (unat a div 4096) \<noteq> None then Some m
     else do {
       (r, k) \<leftarrow> paging_fault a err 0xE0000000 (kern m);
       if r = 0 \<and> hw_frame k (current_pagedir k) (unat a div 4096) \<noteq> None then Some (m\<lparr>kern := k\<rparr>) else None })"

definition phys_of :: "machine \<Rightarrow> ptr \<Rightarrow> nat \<Rightarrow> nat option" where
  "phys_of m pd a = map_option (\<lambda>f. unat f * 4096 + a mod 4096) (hw_frame (kern m) pd (a div 4096))"

definition vld8 :: "u32 \<Rightarrow> machine \<Rightarrow> (u8 \<times> machine) option" where
  "vld8 a m = do {
     m \<leftarrow> access 0 a m;
     if a < 0xE0000000 then do { p \<leftarrow> phys_of m (current_pagedir (kern m)) (unat a); Some (ram m p, m) }
     else Some (mbytes (kern m) (unat a), m) }"

definition vst8 :: "u32 \<Rightarrow> u8 \<Rightarrow> machine \<Rightarrow> machine option" where
  "vst8 a v m = do {
     m \<leftarrow> access 2 a m;
     if a < 0xE0000000 then do { p \<leftarrow> phys_of m (current_pagedir (kern m)) (unat a); Some (m\<lparr>ram := (ram m)(p := v)\<rparr>) }
     else Some (m\<lparr>kern := (kern m)\<lparr>mbytes := (mbytes (kern m))(unat a := v)\<rparr>\<rparr>) }"

definition vld16 :: "u32 \<Rightarrow> machine \<Rightarrow> (u16 \<times> machine) option" where
  "vld16 a m = do { (b0, m) \<leftarrow> vld8 a m; (b1, m) \<leftarrow> vld8 (a + 1) m; Some (ucast b0 OR push_bit 8 (ucast b1), m) }"

definition vld32 :: "u32 \<Rightarrow> machine \<Rightarrow> (u32 \<times> machine) option" where
  "vld32 a m = do {
     (b0, m) \<leftarrow> vld8 a m; (b1, m) \<leftarrow> vld8 (a + 1) m; (b2, m) \<leftarrow> vld8 (a + 2) m; (b3, m) \<leftarrow> vld8 (a + 3) m;
     Some (of_bytes b0 b1 b2 b3, m) }"

definition vst32 :: "u32 \<Rightarrow> u32 \<Rightarrow> machine \<Rightarrow> machine option" where
  "vst32 a v m = do {
     m \<leftarrow> vst8 a (byte_of 0 v) m; m \<leftarrow> vst8 (a + 1) (byte_of 1 v) m;
     m \<leftarrow> vst8 (a + 2) (byte_of 2 v) m; vst8 (a + 3) (byte_of 3 v) m }"

text \<open>\<open>memcpy\<close> and \<open>memset\<close> of \<^verbatim>\<open>lib/stdlib.c\<close> on these accesses.\<close>

fun vcopy_words :: "u32 \<Rightarrow> u32 \<Rightarrow> u32 \<Rightarrow> nat \<Rightarrow> machine \<Rightarrow> machine option" where
  "vcopy_words d s i 0 m = Some m"
| "vcopy_words d s i (Suc n) m = do {
     (v, m) \<leftarrow> vld32 (s + 4 * i) m;
     m \<leftarrow> vst32 (d + 4 * i) v m;
     vcopy_words d s (i + 1) n m }"

fun vcopy_bytes :: "u32 \<Rightarrow> u32 \<Rightarrow> u32 \<Rightarrow> nat \<Rightarrow> machine \<Rightarrow> machine option" where
  "vcopy_bytes dest src i 0 m = Some m"
| "vcopy_bytes dest src i (Suc n) m = do {
     (v, m) \<leftarrow> vld8 (src + i) m;
     m \<leftarrow> vst8 (dest + i) v m;
     vcopy_bytes dest src (i + 1) n m }"

definition vmemcpy :: "u32 \<Rightarrow> u32 \<Rightarrow> int \<Rightarrow> machine \<Rightarrow> machine option" where
  "vmemcpy vd vs count m = do {
     let f = (of_int (count smod 4) :: u32);
     let n = (of_int (count sdiv 4) :: u32);
     m \<leftarrow> vcopy_words vd vs 0 (unat n) m;
     if f \<noteq> 0 then (let i = of_int count - f in vcopy_bytes vd vs i (unat (of_int count :: u32) - unat i) m) else Some m }"

fun vset_bytes :: "u32 \<Rightarrow> u8 \<Rightarrow> u32 \<Rightarrow> nat \<Rightarrow> machine \<Rightarrow> machine option" where
  "vset_bytes dest val i 0 m = Some m"
| "vset_bytes dest val i (Suc n) m = do { m \<leftarrow> vst8 (dest + i) val m; vset_bytes dest val (i + 1) n m }"

definition vmemset :: "u32 \<Rightarrow> u8 \<Rightarrow> int \<Rightarrow> machine \<Rightarrow> machine option" where
  "vmemset dest val count m = vset_bytes dest val 0 (nat count) m"

section \<open>Address spaces\<close>

lemma hw_frame_present: "hw_present s pd n \<longleftrightarrow> hw_frame s pd n \<noteq> None"
  by (simp add: hw_present_def hw_frame_def split: option.split)

lemma hw_frame_cong: "pdirs s = pdirs s' \<Longrightarrow> ptables s = ptables s' \<Longrightarrow> hw_frame s = hw_frame s'"
  by (intro ext) (simp add: hw_frame_def split: option.split)

lemma hw_frame_mmu [simp]: "hw_frame (mmu s) = hw_frame s"
  by (rule hw_frame_cong) simp_all

text \<open>
  The tables of a user address space are different from each other and from those of the kernel, and are not among the pages that
  the allocator may still hand out.
\<close>

definition tables_ok :: "kernel \<Rightarrow> page_directory \<Rightarrow> ptr \<Rightarrow> (nat \<Rightarrow> page) \<Rightarrow> bool" where
  "tables_ok s d kt t \<longleftrightarrow>
     (\<forall>i. pd_tables d i \<noteq> 0 \<longrightarrow> pd_tables d i \<notin> unat ` (fst ` set (freepages s) \<union> top_page ` free_top t))
     \<and> (\<forall>i<896. pd_tables d i \<noteq> 0 \<longrightarrow> ptables s (pd_tables d i) \<noteq> None \<and> bit (pd_tablesPhysical d i) 0 \<and> pd_tables d i \<noteq> kt)
     \<and> (\<forall>i<896. pd_tables d i = 0 \<longrightarrow> \<not> bit (pd_tablesPhysical d i) 0)
     \<and> (\<forall>i<896. \<forall>j. pd_tables d i \<noteq> 0 \<and> pd_tables d i = pd_tables d j \<longrightarrow> i = j)
     \<and> (\<forall>i<896. \<forall>u j. pd_tables d i \<noteq> 0 \<and> ptables s (pd_tables d i) = Some u \<and> j < 1024 \<longrightarrow> (pg_present (u j) \<longleftrightarrow> pg_frame (u j) \<noteq> 0))"

text \<open>The number of pages below the memory of the kernel.\<close>

definition user_pages :: nat where "user_pages = 917504"

definition space_ok :: "kernel \<Rightarrow> ptr \<Rightarrow> ptr \<Rightarrow> (nat \<Rightarrow> page) \<Rightarrow> bool" where
  "space_ok s pd kt t \<longleftrightarrow> pd \<noteq> kernel_pagedir s \<and> (\<exists>d. the_pd s pd = Some d \<and> tables_ok s d kt t)
     \<and> (\<forall>n<user_pages. \<forall>f. hw_frame s pd n = Some f \<longrightarrow> unat f \<in> bs_used (frames s))
     \<and> (\<forall>n<user_pages. \<forall>n'<user_pages. \<forall>f. hw_frame s pd n = Some f \<and> hw_frame s pd n' = Some f \<longrightarrow> n = n')"

text \<open>Two directories with the same tables for the memory of the kernel.\<close>

definition same_half :: "page_directory \<Rightarrow> page_directory \<Rightarrow> bool" where
  "same_half d d' \<longleftrightarrow> (\<forall>i\<ge>896. pd_tables d' i = pd_tables d i \<and> pd_tablesPhysical d' i = pd_tablesPhysical d i)"

definition dir_kept :: "page_directory \<Rightarrow> page_directory \<Rightarrow> bool" where
  "dir_kept d d' \<longleftrightarrow> pd_mappedSegs d' = pd_mappedSegs d \<and> same_half d d'"

lemma dir_kept_refl [simp]: "dir_kept d d"
  by (simp add: dir_kept_def same_half_def)

lemma dir_kept_trans: "dir_kept d d' \<Longrightarrow> dir_kept d' d'' \<Longrightarrow> dir_kept d d''"
  by (simp add: dir_kept_def same_half_def)

text \<open>What a page fault in a simple segment changes.\<close>

definition fault_only :: "ptr \<Rightarrow> kernel \<Rightarrow> kernel \<Rightarrow> bool" where
  "fault_only pd s s' \<longleftrightarrow> (\<exists>mp fr pt fps l pds. s' = s\<lparr>mpresent := mp, frames := fr, ptables := pt, freepages := fps, if_locks := l, pdirs := pds\<rparr>)
     \<and> (\<forall>x. x \<noteq> pd \<longrightarrow> pdirs s' x = pdirs s x) \<and> (\<forall>d. pdirs s pd = Some d \<longrightarrow> (\<exists>d'. pdirs s' pd = Some d' \<and> dir_kept d d'))"

lemma fault_onlyI:
  "s' = s\<lparr>mpresent := mp, frames := fr, ptables := pt, freepages := fps, if_locks := l, pdirs := pds\<rparr> \<Longrightarrow> (\<And>x. x \<noteq> pd \<Longrightarrow> pds x = pdirs s x)
     \<Longrightarrow> (\<And>d. pdirs s pd = Some d \<Longrightarrow> \<exists>d'. pds pd = Some d' \<and> dir_kept d d') \<Longrightarrow> fault_only pd s s'"
  unfolding fault_only_def by (simp, blast)

lemma fault_only_trans: "fault_only pd s s' \<Longrightarrow> fault_only pd s' s'' \<Longrightarrow> fault_only pd s s''"
  unfolding fault_only_def by (elim exE conjE, intro conjI) (simp, blast, simp, blast intro: dir_kept_trans)

lemma cache_only_fault: "cache_only s s' \<Longrightarrow> fault_only pd s s'"
  unfolding cache_only_def by (elim exE) (rule fault_onlyI[where pds = "pdirs s"], rule kernel.equality; simp; fail)

lemma fault_only_refl [simp]: "fault_only pd s s"
  by (rule cache_only_fault) simp

lemma fault_only_fields:
  assumes "fault_only pd s s'"
  shows "current_pagedir s' = current_pagedir s" "kernel_pagedir s' = kernel_pagedir s" "segs s' = segs s" "segmaps s' = segmaps s"
    "mbytes s' = mbytes s" "procs s' = procs s" "thrs s' = thrs s" "next_ptr s' = next_ptr s"
  using assms by (auto simp: fault_only_def)

lemma fault_only_maps:
  assumes "fault_only pd s s'" and "maps_of s pd ms"
  shows "maps_of s' pd ms"
proof -
  obtain d where d: "the_pd s pd = Some d" "map_path (segmaps s) (pd_mappedSegs d) ms" "distinct ms" using assms(2) by (auto simp: maps_of_def)
  then have "pd \<noteq> 0" "pdirs s pd = Some d" by (auto simp: the_pd_def split: if_splits)
  then obtain d' where "pdirs s' pd = Some d'" "pd_mappedSegs d' = pd_mappedSegs d" using assms(1) unfolding fault_only_def dir_kept_def by blast
  then show ?thesis using d \<open>pd \<noteq> 0\<close> fault_only_fields[OF assms(1)] by (simp add: maps_of_def the_pd_def)
qed

lemma hw_frame_eq:
  "the_pd s pd = Some d \<Longrightarrow> hw_frame s pd n = (if bit (pd_tablesPhysical d (n div 1024)) 0
     then (case ptables s (pd_tables d (n div 1024)) of None \<Rightarrow> None | Some t \<Rightarrow> if pg_present (t (n mod 1024)) then Some (pg_frame (t (n mod 1024))) else None)
     else None)"
  by (auto simp: hw_frame_def the_pd_def split: if_splits)

text \<open>A new page table for a user address space, from a page \<open>v\<close> that the allocator has handed out.\<close>

definition with_table :: "ptr \<Rightarrow> page_directory \<Rightarrow> nat \<Rightarrow> u32 \<Rightarrow> u32 \<Rightarrow> kernel \<Rightarrow> kernel" where
  "with_table pd d i v ph s = mmu (s\<lparr>ptables := (ptables s)(unat v \<mapsto> empty_table),
     pdirs := (pdirs s)(pd \<mapsto> d\<lparr>pd_tables := (pd_tables d)(i := unat v), pd_tablesPhysical := (pd_tablesPhysical d)(i := ph OR 7)\<rparr>)\<rparr>)"

lemma getPage_make:
  assumes "the_pd s pd = Some d" and "pd_tables d (unat a div 4096 div 1024) = 0" and "unat a div 4096 div 1024 < 896" and "kmalloc_page s = Some (v, ph, s1)"
    and "pdirs s1 = pdirs s"
  shows "pagedir_getPage pd a True s = Some (Some (unat v, unat a div 4096 mod 1024), with_table pd d (unat a div 4096 div 1024) v ph s1)"
proof -
  have "pd \<noteq> 0" "the_pd s1 pd = Some d" using assms(1,5) by (auto simp: the_pd_def split: if_splits)
  then show ?thesis using assms(1-4) by (simp add: pagedir_getPage_def getPage_with_def upd_pd_def the_pd_def Let_def with_table_def)
qed

lemma with_table_fields [simp]:
  "frames (with_table pd d i v ph s) = frames s" "freepages (with_table pd d i v ph s) = freepages s" "kernel_pagedir (with_table pd d i v ph s) = kernel_pagedir s"
  "kheap_working (with_table pd d i v ph s) = kheap_working s" "mmu_ok (with_table pd d i v ph s)"
  "ptables (with_table pd d i v ph s) = (ptables s)(unat v \<mapsto> empty_table)"
  "pdirs (with_table pd d i v ph s) = (pdirs s)(pd \<mapsto> d\<lparr>pd_tables := (pd_tables d)(i := unat v), pd_tablesPhysical := (pd_tablesPhysical d)(i := ph OR 7)\<rparr>)"
  by (simp_all add: with_table_def) (simp add: mmu_def)

lemma with_table_other: "x \<noteq> pd \<Longrightarrow> the_pd (with_table pd d i v ph s) x = the_pd s x"
  by (simp add: the_pd_def)

lemma with_table_fault:
  "pdirs s pd = Some d \<Longrightarrow> i < 896 \<Longrightarrow> fault_only pd s (with_table pd d i v ph s)"
  by (rule fault_onlyI[where pds = "pdirs (with_table pd d i v ph s)"], simp only: with_table_def mmu_def, rule kernel.equality)
    (simp_all add: dir_kept_def same_half_def)

lemma or_7_present [simp]: "bit (w OR 7) 0" for w :: u32
  by (simp add: bit_or_iff bit_numeral_rec)

lemma unat_in_pool: "unat v \<in> unat ` A \<longleftrightarrow> v \<in> A" for v :: u32
  by (auto dest: unat_eqD)

text \<open>What the allocation of a page leaves of an address space.\<close>

lemma space_cache:
  assumes "cache_ok s kt t" and "space_ok s pd kt t" and "cache_only s s'" and "top_grows t t'" and "ptables s' = (ptables s)(kt \<mapsto> t')"
    and "bs_used (frames s) \<subseteq> bs_used (frames s')"
    and "fst ` set (freepages s') \<subseteq> fst ` set (freepages s) \<union> top_page ` free_top t"
  shows "space_ok s' pd kt t'" "hw_frame s pd n = Some f \<Longrightarrow> hw_frame s' pd n = Some f" "n < user_pages \<Longrightarrow> hw_frame s' pd n = hw_frame s pd n"
proof -
  note f = cache_only_fields[OF assms(3)]
  obtain d where d: "the_pd s pd = Some d" "tables_ok s d kt t" using assms(2) by (auto simp: space_ok_def)
  have d': "the_pd s' pd = Some d" using d(1) deref_cong(3)[OF f(1)] by simp
  have kt: "ptables s kt = Some t" "kt \<noteq> 0" "\<And>j. j \<in> free_top t \<Longrightarrow> \<not> pg_present (t j)" using assms(1) by (auto simp: cache_ok_def)
  have t': "pg_present (t j) \<Longrightarrow> t' j = t j" for j using kt(3) assms(4) by (auto simp: top_grows_def)
  show hw: "hw_frame s' pd n = Some f" if "hw_frame s pd n = Some f" for n f
    using that kt(1) t' unfolding hw_frame_eq[OF d(1)] hw_frame_eq[OF d'] by (auto simp: assms(5) split: if_splits option.splits)
  show same: "hw_frame s' pd n = hw_frame s pd n" if "n < user_pages" for n
  proof -
    have "n div 1024 < 896" using that by (simp add: user_pages_def)
    then have "pd_tables d (n div 1024) \<noteq> kt" if "bit (pd_tablesPhysical d (n div 1024)) 0" using d(2) that by (auto simp: tables_ok_def)
    then show ?thesis unfolding hw_frame_eq[OF d(1)] hw_frame_eq[OF d'] by (simp add: assms(5))
  qed
  have "fst ` set (freepages s') \<union> top_page ` free_top t' \<subseteq> fst ` set (freepages s) \<union> top_page ` free_top t"
    using assms(4,7) by (auto simp: top_grows_def)
  then have pool: "x \<notin> unat ` (fst ` set (freepages s') \<union> top_page ` free_top t')" if "x \<notin> unat ` (fst ` set (freepages s) \<union> top_page ` free_top t)" for x
    using that image_mono by (metis subset_iff)
  note c = d(2)[unfolded tables_ok_def]
  have "tables_ok s' d kt t'" unfolding tables_ok_def
  proof (intro conjI allI impI, goal_cases)
    case (1 i)
    show ?case by (rule pool) (rule conjunct1[OF c, rule_format, OF 1])
  next
    case (2 i)
    then show ?case using c by (simp add: assms(5))
  next
    case (7 i u j)
    then have "pd_tables d i \<noteq> kt" using c by simp
    then have "ptables s (pd_tables d i) = Some u" using 7 by (simp add: assms(5))
    then show ?case using 7 c by blast
  qed (use c in blast)+
  then show "space_ok s' pd kt t'" using assms(2,6) d' same f(3) unfolding space_ok_def by auto
qed

text \<open>Entering the new table.\<close>

lemma space_with_table:
  assumes "space_ok s pd kt t" and "the_pd s pd = Some d" and "pd_tables d i = 0" and "i < 896"
    and "v \<noteq> 0" and "unat v \<noteq> kt" and "v \<notin> fst ` set (freepages s) \<union> top_page ` free_top t" and "\<forall>j. pd_tables d j \<noteq> unat v"
  shows "space_ok (with_table pd d i v ph s) pd kt t" "hw_frame s pd n = Some f \<Longrightarrow> hw_frame (with_table pd d i v ph s) pd n = Some f"
    "n < user_pages \<Longrightarrow> hw_frame (with_table pd d i v ph s) pd n = hw_frame s pd n"
proof -
  let ?s = "with_table pd d i v ph s" and ?d = "d\<lparr>pd_tables := (pd_tables d)(i := unat v), pd_tablesPhysical := (pd_tablesPhysical d)(i := ph OR 7)\<rparr>"
  have d: "tables_ok s d kt t" using assms(1,2) by (auto simp: space_ok_def)
  have nb: "\<not> bit (pd_tablesPhysical d i) 0" using d assms(3,4) by (simp add: tables_ok_def)
  have d': "the_pd ?s pd = Some ?d" using assms(2) by (auto simp: the_pd_def split: if_splits)
  show same: "hw_frame ?s pd n = hw_frame s pd n" for n
    using nb assms(8) unfolding hw_frame_eq[OF assms(2)] hw_frame_eq[OF d'] by (simp add: empty_table_def)
  then show "hw_frame s pd n = Some f \<Longrightarrow> hw_frame ?s pd n = Some f" for n f by simp
  note c = d[unfolded tables_ok_def]
  have v0: "unat v \<noteq> 0" using assms(5) unat_eqD[of v 0] by auto
  have "tables_ok ?s ?d kt t" unfolding tables_ok_def
  proof (intro conjI allI impI, goal_cases)
    case (1 j)
    then show ?case using c assms(7) by (cases "j = i") (simp_all add: unat_in_pool del: image_Un)
  next
    case (2 j)
    then show ?case using assms(8) c by (cases "j = i") auto
  next
    case (3 j)
    then show ?case using c assms(8) by (cases "j = i") simp_all
  next
    case (4 j)
    then show ?case using c assms(6) by (cases "j = i") simp_all
  next
    case (5 j)
    then show ?case using c v0 by (cases "j = i") simp_all
  next
    case (6 j j')
    then show ?case using c assms(8) by (cases "j = i"; cases "j' = i") auto
  next
    case (7 j u j')
    then show ?case using c assms(8) by (cases "j = i") (auto simp: empty_table_def)
  qed
  then show "space_ok ?s pd kt t" using assms(1) d' same unfolding space_ok_def by simp
qed

text \<open>What is available, if the frames and pages in the cache are counted.\<close>

definition room :: "kernel \<Rightarrow> (nat \<Rightarrow> page) \<Rightarrow> nat \<Rightarrow> nat \<Rightarrow> bool" where
  "room s t a b \<longleftrightarrow> 5 + a \<le> card (free_fr s) + length (freepages s) \<and> 5 + b \<le> card (free_top t) + length (freepages s)"

text \<open>A part of the handling of a page fault.\<close>

definition fault_step :: "ptr \<Rightarrow> kernel \<Rightarrow> kernel \<Rightarrow> bool" where
  "fault_step pd s s' \<longleftrightarrow> fault_only pd s s' \<and> (\<forall>n f. hw_frame s pd n = Some f \<longrightarrow> hw_frame s' pd n = Some f)
     \<and> bs_used (frames s) \<subseteq> bs_used (frames s') \<and> frame_cap s' = frame_cap s"

lemma fault_step_refl [simp]: "fault_step pd s s"
  by (simp add: fault_step_def)

lemma fault_step_trans: "fault_step pd s s' \<Longrightarrow> fault_step pd s' s'' \<Longrightarrow> fault_step pd s s''"
  unfolding fault_step_def by (auto intro: fault_only_trans)

lemma user_table_ok:
  assumes "cache_ok s kt t" and "space_ok s pd kt t" and "n = unat a div 4096" and "n < user_pages" and "room s t (Suc k) (Suc l)"
  shows "\<exists>tbl s1 t1 d1. pagedir_getPage pd a True s = Some (Some (tbl, n mod 1024), s1) \<and> cache_ok s1 kt t1 \<and> space_ok s1 pd kt t1 \<and> fault_step pd s s1
     \<and> the_pd s1 pd = Some d1 \<and> pd_tables d1 (n div 1024) = tbl \<and> tbl \<noteq> 0 \<and> (\<forall>m<user_pages. hw_frame s1 pd m = hw_frame s pd m) \<and> room s1 t1 k l"
proof -
  obtain d where d: "the_pd s pd = Some d" "tables_ok s d kt t" "pd \<noteq> kernel_pagedir s" using assms(2) by (auto simp: space_ok_def)
  have i: "n div 1024 < 896" using assms(4) by (simp add: user_pages_def)
  show ?thesis
  proof (cases "pd_tables d (n div 1024) = 0")
    case False
    then have "pagedir_getPage pd a True s = Some (Some (pd_tables d (n div 1024), n mod 1024), s)"
      using getPage_known[OF d(1), of a] by (simp add: pagedir_getPage_def assms(3))
    then show ?thesis using False assms(1,2,5) d(1) by (fastforce simp: room_def)
  next
    case True
    have "5 \<le> card (free_fr s) + length (freepages s)" "5 \<le> card (free_top t) + length (freepages s)" using assms(5) by (simp_all add: room_def)
    from kmalloc_page_ok[OF assms(1) this] obtain v ph s' t' where
      k: "kmalloc_page s = Some (v, ph, s')" "cache_ok s' kt t'" "cache_only s s'" "top_grows t t'" "ptables s' = (ptables s)(kt \<mapsto> t')"
        "bs_used (frames s) \<subseteq> bs_used (frames s')" "frame_cap s' = frame_cap s"
        "card (free_fr s') + length (freepages s') + 1 = card (free_fr s) + length (freepages s)"
        "card (free_top t') + length (freepages s') + 1 = card (free_top t) + length (freepages s)"
        "v \<in> fst ` set (freepages s) \<union> top_page ` free_top t" "v \<notin> fst ` set (freepages s') \<union> top_page ` free_top t'" "unat v \<noteq> kt" "v \<noteq> 0"
        "fst ` set (freepages s') \<subseteq> fst ` set (freepages s) \<union> top_page ` free_top t"
      by (elim exE conjE) (rule that; assumption)
    note sc = space_cache[OF assms(1,2) k(3-6,14)]
    have d': "the_pd s' pd = Some d" "pd \<noteq> 0" "pdirs s' pd = Some d" "pd \<noteq> kernel_pagedir s'"
      using d(1,3) deref_cong(3)[OF cache_only_fields(1)[OF k(3)]] cache_only_fields(1,3)[OF k(3)] by (auto simp: the_pd_def split: if_splits)
    have nv: "pd_tables d j \<noteq> unat v" for j
    proof
      assume "pd_tables d j = unat v"
      moreover have "unat v \<noteq> 0" using k(13) unat_eqD[of v 0] by auto
      ultimately show False using d(2) k(10) unfolding tables_ok_def by (metis imageI)
    qed
    let ?i = "n div 1024" and ?s = "with_table pd d (n div 1024) v ph s'"
    have nv': "\<forall>j. pd_tables d j \<noteq> unat v" using nv by blast
    note st = space_with_table[OF sc(1) d'(1) True i k(13,12,11) nv', where ph = ph]
    have g: "pagedir_getPage pd a True s = Some (Some (unat v, n mod 1024), ?s)"
      using getPage_make[OF d(1) _ _ k(1) cache_only_fields(1)[OF k(3)], of a] True i by (simp add: assms(3))
    have "cache_ok ?s kt t'" using k(2,12) d'(4) by (auto simp: cache_ok_def frames_ok_def frame_cap_def with_table_other)
    moreover have "fault_step pd s ?s"
      unfolding fault_step_def using fault_only_trans[OF cache_only_fault[OF k(3)] with_table_fault[OF d'(3) i]] sc(2) st(2) k(6,7) by (simp add: frame_cap_def)
    moreover have "the_pd ?s pd = Some (d\<lparr>pd_tables := (pd_tables d)(?i := unat v), pd_tablesPhysical := (pd_tablesPhysical d)(?i := ph OR 7)\<rparr>)"
      using d'(2) by (simp add: the_pd_def)
    moreover have "unat v \<noteq> 0" using k(13) unat_eqD[of v 0] by auto
    moreover have "hw_frame ?s pd m = hw_frame s pd m" if "m < user_pages" for m using st(3)[OF that] sc(3)[OF that] by simp
    moreover have "room ?s t' k l" using assms(5) k(8,9) by (simp add: room_def free_fr_def frame_cap_def)
    ultimately show ?thesis using g st(1)
      by - (rule exI[of _ "unat v"], rule exI[of _ ?s], rule exI[of _ t'], rule exI, intro conjI, assumption+, simp_all)
  qed
qed

text \<open>Mapping a page of a table to a new frame.\<close>

definition with_page :: "ptr \<Rightarrow> (nat \<Rightarrow> page) \<Rightarrow> nat \<Rightarrow> u32 \<Rightarrow> bool \<Rightarrow> bitset \<Rightarrow> kernel \<Rightarrow> kernel" where
  "with_page tbl u j f w fr s = mmu (s\<lparr>frames := fr, ptables := (ptables s)(tbl \<mapsto> u(j := \<lparr>pg_present = True, pg_rw = w, pg_user = True, pg_frame = f\<rparr>))\<rparr>)"

lemma with_page_fields [simp]:
  "frames (with_page tbl u j f w fr s) = fr" "freepages (with_page tbl u j f w fr s) = freepages s" "kernel_pagedir (with_page tbl u j f w fr s) = kernel_pagedir s"
  "kheap_working (with_page tbl u j f w fr s) = kheap_working s" "mmu_ok (with_page tbl u j f w fr s)" "pdirs (with_page tbl u j f w fr s) = pdirs s"
  "ptables (with_page tbl u j f w fr s) = (ptables s)(tbl \<mapsto> u(j := \<lparr>pg_present = True, pg_rw = w, pg_user = True, pg_frame = f\<rparr>))"
  "the_pd (with_page tbl u j f w fr s) = the_pd s"
  by (simp_all add: with_page_def) (simp_all add: mmu_def)

lemma with_page_fault: "fault_only pd s (with_page tbl u j f w fr s)"
  by (rule fault_onlyI[where pds = "pdirs s"], simp only: with_page_def mmu_def, rule kernel.equality) simp_all

lemma frame_mask: "unat f < 0x100000 \<Longrightarrow> f AND 0xFFFFF = f" for f :: u32
  by (intro unat_eqD) (simp add: and_low20 unat_mod_u32)

lemma page_index: "m div 1024 = n div 1024 \<Longrightarrow> m mod 1024 = n mod 1024 \<Longrightarrow> m = n" for m n :: nat
  by (metis div_mult_mod_eq)

lemma hw_frame_with_page:
  assumes "the_pd s pd = Some d" and "tables_ok s d kt t" and "n < user_pages" and "tbl = pd_tables d (n div 1024)" and "tbl \<noteq> 0" and "ptables s tbl = Some u"
  shows "hw_frame (with_page tbl u (n mod 1024) f w fr s) pd m = (if m = n then Some f else hw_frame s pd m)"
proof -
  let ?s = "with_page tbl u (n mod 1024) f w fr s"
  have i: "n div 1024 < 896" using assms(3) by (simp add: user_pages_def)
  have b: "bit (pd_tablesPhysical d (n div 1024)) 0" and inj: "\<And>j. pd_tables d (n div 1024) = pd_tables d j \<Longrightarrow> n div 1024 = j"
    using assms(2,4,5) i unfolding tables_ok_def by blast+
  have d': "the_pd ?s pd = Some d" using assms(1) by simp
  show ?thesis
  proof (cases "m div 1024 = n div 1024")
    case True
    then have "m mod 1024 = n mod 1024 \<longleftrightarrow> m = n" using page_index by blast
    then show ?thesis using True b assms(4,6) unfolding hw_frame_eq[OF d'] hw_frame_eq[OF assms(1)] by simp
  next
    case False
    then have "pd_tables d (m div 1024) \<noteq> tbl" using inj[of "m div 1024"] unfolding assms(4) by metis
    moreover have "m \<noteq> n" using False by blast
    ultimately show ?thesis unfolding hw_frame_eq[OF d'] hw_frame_eq[OF assms(1)] by simp
  qed
qed

lemma map_user_page:
  assumes "cache_ok s kt t" and "space_ok s pd kt t" and "the_pd s pd = Some d" and "tbl = pd_tables d (n div 1024)" and "tbl \<noteq> 0"
    and "n < user_pages" and "hw_frame s pd n = None" and "room s t (Suc k) l"
  shows "\<exists>p f s1 s2. get_page s (tbl, n mod 1024) = Some p \<and> pg_frame p = 0 \<and> frame_alloc s = Some (f, s1) \<and> page_map (Some (tbl, n mod 1024)) f True w s1 = Some s2
     \<and> cache_ok s2 kt t \<and> space_ok s2 pd kt t \<and> fault_step pd s s2 \<and> hw_frame s2 pd n = Some f \<and> unat f \<notin> bs_used (frames s)
     \<and> (\<forall>m. m \<noteq> n \<longrightarrow> hw_frame s2 pd m = hw_frame s pd m) \<and> room s2 t k l"
proof -
  have d: "tables_ok s d kt t" using assms(2,3) by (auto simp: space_ok_def)
  note c = d[unfolded tables_ok_def]
  have i: "n div 1024 < 896" using assms(6) by (simp add: user_pages_def)
  obtain u where u: "ptables s tbl = Some u" "tbl \<noteq> kt" "bit (pd_tablesPhysical d (n div 1024)) 0" using c i assms(4,5) by auto
  have p: "\<not> pg_present (u (n mod 1024))" using assms(7) u assms(4) by (simp add: hw_frame_eq[OF assms(3)] split: if_splits)
  then have p0: "pg_frame (u (n mod 1024)) = 0" using c i u(1) assms(4,5) by auto
  have ck: "frames_ok s" "frame_cap s \<le> 0x100000" "0 \<in> bs_used (frames s)" "length (freepages s) \<le> 5" using assms(1) by (auto simp: cache_ok_def)
  have "free_fr s \<noteq> {}" using assms(8) ck(4) by (auto simp: room_def)
  from frame_alloc_free[OF ck(1) this] obtain f s1 where f: "frame_alloc s = Some (f, s1)" "unat f \<in> free_fr s" "s1 = s\<lparr>frames := frames s1\<rparr>"
     "bs_used (frames s1) = insert (unat f) (bs_used (frames s))" "free_fr s1 = free_fr s - {unat f}" "frame_cap s1 = frame_cap s" "frames_ok s1" by blast
  have fl: "unat f < 0x100000" "unat f \<notin> bs_used (frames s)" "f \<noteq> 0" using f(2) ck(2,3) by (auto simp: free_fr_def)
  define s2 where "s2 = with_page tbl u (n mod 1024) f w (frames s1) s"
  have pm: "page_map (Some (tbl, n mod 1024)) f True w s1 = Some s2"
    using u(1) p p0 frame_mask[OF fl(1)] by (subst f(3)) (simp add: page_map_def get_page_def set_page_def s2_def with_page_def)
  have hw: "hw_frame s2 pd m = (if m = n then Some f else hw_frame s pd m)" for m
    unfolding s2_def by (rule hw_frame_with_page[OF assms(3) d assms(6,4,5) u(1)])
  have f2: "frame_cap s2 = frame_cap s" "free_fr s2 = free_fr s - {unat f}" "frames_ok s2" "bs_used (frames s2) = insert (unat f) (bs_used (frames s))"
    using f(4-7) by (simp_all add: s2_def free_fr_def frame_cap_def frames_ok_def)
  have co: "cache_ok s2 kt t" using assms(1) u(2) f2 by (auto simp: cache_ok_def s2_def)
  have "tables_ok s2 d kt t" unfolding tables_ok_def
  proof (intro conjI allI impI, goal_cases)
    case (7 i' x j)
    then show ?case using c u(1) fl(3) by (auto simp: s2_def split: if_splits)
  qed (use c in \<open>auto simp: s2_def\<close>)
  then have "space_ok s2 pd kt t" unfolding space_ok_def
  proof (intro conjI allI impI, goal_cases)
    case (3 m g)
    then show ?case using assms(2) unfolding hw f2(4) space_ok_def by (cases "m = n") auto
  next
    case (4 m m' g)
    have "unat f \<in> bs_used (frames s)" if "hw_frame s pd x = Some f" "x < user_pages" for x using assms(2) that unfolding space_ok_def by blast
    moreover have "m = m'" if "hw_frame s pd m = Some g" "hw_frame s pd m' = Some g" using 4 assms(2) that unfolding space_ok_def by blast
    ultimately show ?case using 4 fl(2) unfolding hw by (cases "m = n"; cases "m' = n") auto
  qed (use assms(2,3) in \<open>auto simp: space_ok_def s2_def\<close>)
  moreover have "fault_step pd s s2" using with_page_fault assms(7) hw f2 by (auto simp: fault_step_def s2_def)
  moreover have "card (free_fr s2) + 1 = card (free_fr s)" using card_Suc_Diff1[OF finite_free_fr f(2)] by (metis f2(2) Suc_eq_plus1)
  then have "room s2 t k l" using assms(8) by (simp add: room_def s2_def)
  ultimately show ?thesis using co u(1) p0 f(1) pm fl(2) hw by (auto simp: get_page_def)
qed

section \<open>Page faults in simple segments\<close>

text \<open>All segments that are mapped are simple; pointers from \<open>next_ptr\<close> on are not in use.\<close>

definition simple_maps :: "kernel \<Rightarrow> ptr \<Rightarrow> ptr list \<Rightarrow> bool" where
  "simple_maps s pd ms \<longleftrightarrow> maps_of s pd ms \<and> next_ptr s \<noteq> 0 \<and> (\<forall>x\<ge>next_ptr s. segs s x = None \<and> segmaps s x = None) \<and> (\<forall>m\<in>set ms. \<exists>sm sg ss. segmaps s m = Some sm \<and> sm_pagedir sm = pd
     \<and> the_seg s (sm_seg sm) = Some sg \<and> sg_data sg = SimpleSeg ss)"

lemma fault_new_page:
  assumes "cache_ok s kt t" and "space_ok s pd kt t" and "current_pagedir s = pd" and "simple_maps s pd ms"
    and "x \<in> set ms" and "covers s a x" and "n = unat a div 4096" and "n < user_pages" and "hw_frame s pd n = None" and "room s t (Suc (Suc k)) (Suc l)"
  shows "\<exists>s' t' f. paging_fault a err 0xE0000000 s = Some (0, s') \<and> cache_ok s' kt t' \<and> space_ok s' pd kt t' \<and> fault_step pd s s'
     \<and> hw_frame s' pd n = Some f \<and> unat f \<notin> bs_used (frames s) \<and> (\<forall>m<user_pages. m \<noteq> n \<longrightarrow> hw_frame s' pd m = hw_frame s pd m) \<and> room s' t' k l"
proof -
  obtain d where d: "the_pd s pd = Some d" "map_path (segmaps s) (pd_mappedSegs d) ms" using assms(4) by (auto simp: simple_maps_def maps_of_def)
  obtain y ys where y: "filter (covers s a) ms = y # ys" using assms(5,6) by (cases "filter (covers s a) ms") (auto simp: filter_empty_conv)
  then have "y \<in> set (filter (covers s a) ms)" by simp
  then have "y \<in> set ms" by simp
  then obtain sm sg ss where m: "segmaps s y = Some sm" "sm_pagedir sm = pd" "the_seg s (sm_seg sm) = Some sg" "sg_data sg = SimpleSeg ss" "y \<noteq> 0"
    using assms(4) linked_known[OF d(2)] unfolding simple_maps_def by blast
  let ?a = "a AND 0xFFFFF000"
  have pn: "n = unat ?a div 4096" unfolding assms(7) unat_and_high20 by (simp add: minus_mod_eq_mult_div)
  from user_table_ok[OF assms(1,2) pn assms(8,10)] obtain tbl s1 t1 d1 where
    g: "pagedir_getPage pd ?a True s = Some (Some (tbl, n mod 1024), s1)" "cache_ok s1 kt t1" "space_ok s1 pd kt t1" "fault_step pd s s1"
      "the_pd s1 pd = Some d1" "pd_tables d1 (n div 1024) = tbl" "tbl \<noteq> 0" "\<forall>m<user_pages. hw_frame s1 pd m = hw_frame s pd m" "room s1 t1 (Suc k) l"
    by (elim exE conjE) (rule that; assumption)
  have h1: "hw_frame s1 pd n = None" using g(8) assms(8,9) by simp
  from map_user_page[OF g(2,3,5) g(6)[symmetric] g(7) assms(8) h1 g(9), of "ss_writable ss"] obtain p f s2 s3 where
    w: "get_page s1 (tbl, n mod 1024) = Some p" "pg_frame p = 0" "frame_alloc s1 = Some (f, s2)" "page_map (Some (tbl, n mod 1024)) f True (ss_writable ss) s2 = Some s3"
      "cache_ok s3 kt t1" "space_ok s3 pd kt t1" "fault_step pd s1 s3" "hw_frame s3 pd n = Some f" "unat f \<notin> bs_used (frames s1)"
      "\<forall>m. m \<noteq> n \<longrightarrow> hw_frame s3 pd m = hw_frame s1 pd m" "room s3 t1 k l"
    by (elim exE conjE) (rule that; assumption)
  have "simpleseg_handleFault sm ss a False s = Some (0, s3)" using g(1) m(2) w(1-4) by (simp add: simpleseg_handleFault_def)
  then have "paging_fault a err 0xE0000000 s = Some (0, s3)"
    using d(1) assms(3) find_seg_ok[OF d(2), of a] y m by (simp add: paging_fault_def the_map_def Let_def)
  moreover have "unat f \<notin> bs_used (frames s)" using w(9) g(4) by (auto simp: fault_step_def)
  ultimately show ?thesis using w(5-8,10,11) fault_step_trans[OF g(4) w(7)] g(8) by auto
qed

section \<open>Accesses\<close>

text \<open>
  The segments of the address space \<open>pd\<close> are \<open>ms\<close>, all simple, and there is memory for those of the pages \<open>P\<close> that have no frame yet; for
  \<open>vm_ok\<close>, it is the current one.
\<close>

definition vm_ready :: "machine \<Rightarrow> ptr \<Rightarrow> ptr list \<Rightarrow> nat set \<Rightarrow> bool" where
  "vm_ready m pd ms P \<longleftrightarrow> (\<exists>kt t. cache_ok (kern m) kt t \<and> space_ok (kern m) pd kt t
       \<and> room (kern m) t (2 * card {n \<in> P. hw_frame (kern m) pd n = None}) (card {n \<in> P. hw_frame (kern m) pd n = None}))
     \<and> simple_maps (kern m) pd ms \<and> finite P \<and> (\<forall>n\<in>P. n < user_pages)"

definition vm_ok :: "machine \<Rightarrow> ptr \<Rightarrow> ptr list \<Rightarrow> nat set \<Rightarrow> bool" where
  "vm_ok m pd ms P \<longleftrightarrow> vm_ready m pd ms P \<and> current_pagedir (kern m) = pd"

text \<open>The page of the address can be accessed: it has a frame or is in a segment.\<close>

definition reachable :: "machine \<Rightarrow> ptr \<Rightarrow> ptr list \<Rightarrow> u32 \<Rightarrow> bool" where
  "reachable m pd ms a \<longleftrightarrow> hw_frame (kern m) pd (unat a div 4096) \<noteq> None \<or> (\<exists>x\<in>set ms. covers (kern m) a x)"

lemma simple_maps_fault: "fault_only pd s s' \<Longrightarrow> simple_maps s pd ms \<Longrightarrow> simple_maps s' pd ms"
  using fault_only_maps[of pd s s' ms] fault_only_fields(3,4,8)[of pd s s'] deref_cong(4)[of s' s] unfolding simple_maps_def by simp

definition shares_kernel :: "kernel \<Rightarrow> ptr \<Rightarrow> ptr \<Rightarrow> bool" where
  "shares_kernel s r pd \<longleftrightarrow> (\<exists>d d'. the_pd s r = Some d \<and> the_pd s pd = Some d' \<and> same_half d d')"

lemma shares_kernel_frame: "shares_kernel s r pd \<Longrightarrow> user_pages \<le> n \<Longrightarrow> hw_frame s r n = hw_frame s pd n"
proof -
  assume "shares_kernel s r pd" and n: "user_pages \<le> n"
  then obtain d d' where d: "the_pd s r = Some d" "the_pd s pd = Some d'" "same_half d d'" by (auto simp: shares_kernel_def)
  have "896 \<le> n div 1024" using n by (simp add: user_pages_def)
  then show ?thesis using d(3) unfolding hw_frame_eq[OF d(1)] hw_frame_eq[OF d(2)] by (simp add: same_half_def)
qed

lemma shares_kernel_fault:
  assumes "fault_only pd s s'" and "shares_kernel s r pd"
  shows "shares_kernel s' r pd"
proof -
  obtain d d' where d: "the_pd s r = Some d" "the_pd s pd = Some d'" "same_half d d'" using assms(2) by (auto simp: shares_kernel_def)
  then have nz: "r \<noteq> 0" "pd \<noteq> 0" "pdirs s r = Some d" "pdirs s pd = Some d'" by (auto simp: the_pd_def split: if_splits)
  then obtain d2 where d2: "pdirs s' pd = Some d2" "same_half d' d2" using assms(1) unfolding fault_only_def dir_kept_def by blast
  have "\<exists>d1. pdirs s' r = Some d1 \<and> same_half d1 d2"
  proof (cases "r = pd")
    case False
    then have "pdirs s' r = Some d" using assms(1) nz(3) by (simp add: fault_only_def)
    then show ?thesis using d(3) d2(2) by (simp add: same_half_def)
  qed (use d2(1) in \<open>simp add: same_half_def\<close>)
  then show ?thesis using nz d2(1) by (auto simp: shares_kernel_def the_pd_def)
qed

text \<open>From one state to another, the address space keeps the pages and the segments that it has.\<close>

definition keeps_pages :: "ptr \<Rightarrow> kernel \<Rightarrow> kernel \<Rightarrow> bool" where
  "keeps_pages pd s s' \<longleftrightarrow> (\<forall>n f. hw_frame s pd n = Some f \<longrightarrow> hw_frame s' pd n = Some f) \<and> bs_used (frames s) \<subseteq> bs_used (frames s')
     \<and> mbytes s' = mbytes s \<and> segmaps s \<subseteq>\<^sub>m segmaps s' \<and> segs s \<subseteq>\<^sub>m segs s' \<and> (\<forall>r. shares_kernel s r pd \<longrightarrow> shares_kernel s' r pd) \<and> procs s' = procs s"

lemma keeps_pages_refl [simp]: "keeps_pages pd s s"
  by (simp add: keeps_pages_def)

lemma keeps_pages_trans: "keeps_pages pd s s' \<Longrightarrow> keeps_pages pd s' s'' \<Longrightarrow> keeps_pages pd s s''"
  unfolding keeps_pages_def by (auto intro: map_le_trans)

lemma keeps_covers: "keeps_pages pd s s' \<Longrightarrow> covers s a x \<Longrightarrow> covers s' a x"
  by (auto simp: keeps_pages_def covers_def map_le_def dom_def split: option.splits)

lemma fault_step_keeps: "fault_step pd s s' \<Longrightarrow> keeps_pages pd s s'"
  using fault_only_fields(3,4,5,6)[of pd s s'] shares_kernel_fault[of pd s s'] by (simp add: fault_step_def keeps_pages_def)

lemma access_ok:
  assumes "vm_ok m pd ms P" and "unat a div 4096 \<in> P" and "reachable m pd ms a"
  shows "\<exists>m' f. access err a m = Some m' \<and> vm_ok m' pd ms P \<and> keeps_pages pd (kern m) (kern m') \<and> ram m' = ram m
     \<and> hw_frame (kern m') pd (unat a div 4096) = Some f \<and> (hw_frame (kern m) pd (unat a div 4096) = None \<longrightarrow> unat f \<notin> bs_used (frames (kern m)))
     \<and> (\<forall>n<user_pages. n \<noteq> unat a div 4096 \<longrightarrow> hw_frame (kern m') pd n = hw_frame (kern m) pd n)"
proof (cases "hw_frame (kern m) pd (unat a div 4096)")
  case (Some f)
  then show ?thesis using assms(1) by (intro exI[of _ m] exI[of _ f]) (simp add: access_def vm_ok_def)
next
  case None
  let ?n = "unat a div 4096" and ?U = "{n \<in> P. hw_frame (kern m) pd n = None}"
  obtain kt t where v: "cache_ok (kern m) kt t" "space_ok (kern m) pd kt t" "room (kern m) t (2 * card ?U) (card ?U)" "current_pagedir (kern m) = pd"
    "simple_maps (kern m) pd ms" "finite P" "\<forall>n\<in>P. n < user_pages" using assms(1) by (auto simp: vm_ok_def vm_ready_def)
  obtain x where x: "x \<in> set ms" "covers (kern m) a x" using assms(3) None by (auto simp: reachable_def)
  have nU: "?n \<in> ?U" "?n < user_pages" "finite ?U" using None assms(2) v(6,7) by auto
  have c: "card ?U = Suc (card (?U - {?n}))" using card_Suc_Diff1[OF nU(3,1)] by simp
  have r: "room (kern m) t (Suc (Suc (2 * card (?U - {?n})))) (Suc (card (?U - {?n})))" using v(3) unfolding c by simp
  from fault_new_page[OF v(1,2,4,5) x refl nU(2) None r, of err] obtain s' t' f where
    s': "paging_fault a err 0xE0000000 (kern m) = Some (0, s')" "cache_ok s' kt t'" "space_ok s' pd kt t'" "fault_step pd (kern m) s'" "hw_frame s' pd ?n = Some f"
      "unat f \<notin> bs_used (frames (kern m))" "\<forall>n<user_pages. n \<noteq> ?n \<longrightarrow> hw_frame s' pd n = hw_frame (kern m) pd n" "room s' t' (2 * card (?U - {?n})) (card (?U - {?n}))"
    by (elim exE conjE) (rule that; assumption)
  have "{n \<in> P. hw_frame s' pd n = None} = ?U - {?n}" using s'(5,7) v(7) by auto
  moreover have "fault_only pd (kern m) s'" using s'(4) by (simp add: fault_step_def)
  ultimately have "vm_ok (m\<lparr>kern := s'\<rparr>) pd ms P"
    using s'(2,3,8) v(4-7) simple_maps_fault[OF _ v(5)] fault_only_fields(1)[of pd "kern m" s'] unfolding vm_ok_def vm_ready_def by auto
  moreover have "access err a m = Some (m\<lparr>kern := s'\<rparr>)" using None v(4) s'(1,4,5) fault_only_fields(1)[of pd "kern m" s'] by (simp add: access_def fault_step_def)
  ultimately show ?thesis using fault_step_keeps[OF s'(4)] s'(5-7) by (intro exI[of _ "m\<lparr>kern := s'\<rparr>"] exI[of _ f]) simp
qed

text \<open>
  From \<open>m\<close> to \<open>m'\<close> exactly the bytes at the virtual addresses \<open>A\<close> were written, with the values \<open>g\<close>; only pages of these addresses became
  present, and they have frames that were free.
\<close>

definition wrote :: "ptr \<Rightarrow> nat set \<Rightarrow> (nat \<Rightarrow> u8) \<Rightarrow> machine \<Rightarrow> machine \<Rightarrow> bool" where
  "wrote pd A g m m' \<longleftrightarrow> keeps_pages pd (kern m) (kern m') \<and> (\<forall>a\<in>A. \<exists>p. phys_of m' pd a = Some p \<and> ram m' p = g a)
     \<and> (\<forall>p. ram m' p \<noteq> ram m p \<longrightarrow> (\<exists>a\<in>A. phys_of m' pd a = Some p))
     \<and> (\<forall>n<user_pages. \<forall>f. hw_frame (kern m) pd n = None \<and> hw_frame (kern m') pd n = Some f \<longrightarrow>
        unat f \<notin> bs_used (frames (kern m)) \<and> n \<in> (\<lambda>a. a div 4096) ` A)"

lemma phys_keeps: "keeps_pages pd (kern m) (kern m') \<Longrightarrow> phys_of m pd a = Some p \<Longrightarrow> phys_of m' pd a = Some p"
  by (auto simp: keeps_pages_def phys_of_def)

lemma phys_inj:
  assumes "vm_ok m pd ms P" and "phys_of m pd a = Some p" and "phys_of m pd b = Some p" and "a < user_pages * 4096" and "b < user_pages * 4096"
  shows "a = b"
proof -
  obtain f g where fg: "hw_frame (kern m) pd (a div 4096) = Some f" "hw_frame (kern m) pd (b div 4096) = Some g"
     "p = unat f * 4096 + a mod 4096" "p = unat g * 4096 + b mod 4096" using assms(2,3) by (auto simp: phys_of_def)
  have "unat f = p div 4096" "a mod 4096 = p mod 4096" using fg(3) by simp_all
  moreover have "unat g = p div 4096" "b mod 4096 = p mod 4096" using fg(4) by simp_all
  ultimately have "f = g" "a mod 4096 = b mod 4096" by (metis unat_eqD)+
  moreover have "a div 4096 < user_pages" "b div 4096 < user_pages" using assms(4,5) by (simp_all add: less_mult_imp_div_less)
  ultimately have "a div 4096 = b div 4096" using fg(1,2) assms(1) unfolding vm_ok_def vm_ready_def space_ok_def by blast
  then show ?thesis using \<open>a mod 4096 = b mod 4096\<close> by (metis div_mult_mod_eq)
qed

lemma wrote_refl [simp]: "wrote pd {} g m m"
  by (auto simp: wrote_def)

lemma wrote_trans:
  assumes "wrote pd A g m m1" and "wrote pd B h m1 m2" and "vm_ok m2 pd ms P" and "A \<union> B \<subseteq> {..<user_pages * 4096}"
  shows "wrote pd (A \<union> B) (\<lambda>a. if a \<in> B then h a else g a) m m2"
proof -
  have k: "keeps_pages pd (kern m) (kern m1)" "keeps_pages pd (kern m1) (kern m2)" using assms(1,2) by (auto simp: wrote_def)
  have "\<exists>p. phys_of m2 pd a = Some p \<and> ram m2 p = g a" if "a \<in> A" "a \<notin> B" for a
  proof -
    obtain p where p: "phys_of m1 pd a = Some p" "ram m1 p = g a" using assms(1) \<open>a \<in> A\<close> by (auto simp: wrote_def)
    have p2: "phys_of m2 pd a = Some p" by (rule phys_keeps[OF k(2) p(1)])
    have "ram m2 p = ram m1 p"
    proof (rule ccontr)
      assume "ram m2 p \<noteq> ram m1 p"
      then obtain b where "b \<in> B" "phys_of m2 pd b = Some p" using assms(2) by (auto simp: wrote_def)
      then show False using phys_inj[OF assms(3) p2] that assms(4) by (auto simp: subset_iff)
    qed
    then show ?thesis using p p2 by simp
  qed
  moreover have "\<exists>a\<in>A \<union> B. phys_of m2 pd a = Some p" if "ram m2 p \<noteq> ram m p" for p
  proof (cases "ram m1 p = ram m p")
    case True
    then have "ram m2 p \<noteq> ram m1 p" using that by simp
    then show ?thesis using assms(2) unfolding wrote_def by blast
  next
    case False
    then have "\<exists>a\<in>A. phys_of m1 pd a = Some p" using assms(1) unfolding wrote_def by blast
    then show ?thesis using phys_keeps[OF k(2)] by blast
  qed
  moreover have "unat f \<notin> bs_used (frames (kern m)) \<and> n \<in> (\<lambda>a. a div 4096) ` (A \<union> B)"
    if "n < user_pages" "hw_frame (kern m) pd n = None" "hw_frame (kern m2) pd n = Some f" for n f
  proof (cases "hw_frame (kern m1) pd n")
    case None
    then have "unat f \<notin> bs_used (frames (kern m1)) \<and> n \<in> (\<lambda>a. a div 4096) ` B" using that assms(2) unfolding wrote_def by blast
    then show ?thesis using k(1) by (auto simp: keeps_pages_def)
  next
    case (Some f1)
    then have "f1 = f" using k(2) that(3) by (auto simp: keeps_pages_def)
    then show ?thesis using Some that assms(1) unfolding wrote_def by blast
  qed
  moreover have "\<exists>p. phys_of m2 pd b = Some p \<and> ram m2 p = h b" if "b \<in> B" for b using assms(2) that unfolding wrote_def by blast
  ultimately show ?thesis using keeps_pages_trans[OF k] unfolding wrote_def by auto
qed

lemma wrote_cong: "wrote pd A g m m' \<Longrightarrow> A = B \<Longrightarrow> (\<And>a. a \<in> B \<Longrightarrow> g a = h a) \<Longrightarrow> wrote pd B h m m'"
  by (simp add: wrote_def)

lemma reachable_keeps: "keeps_pages pd (kern m) (kern m') \<Longrightarrow> reachable m pd ms a \<Longrightarrow> reachable m' pd ms a"
  using keeps_covers[of pd "kern m" "kern m'" a] unfolding reachable_def keeps_pages_def by (metis not_None_eq)

lemma vst8_ok:
  assumes "vm_ok m pd ms P" and "unat a div 4096 \<in> P" and "reachable m pd ms a" and "a < 0xE0000000"
  shows "\<exists>m'. vst8 a v m = Some m' \<and> vm_ok m' pd ms P \<and> wrote pd {unat a} (\<lambda>_. v) m m'"
proof -
  from access_ok[OF assms(1-3), of 2] obtain m1 f where
    m1: "access 2 a m = Some m1" "vm_ok m1 pd ms P" "keeps_pages pd (kern m) (kern m1)" "ram m1 = ram m" "hw_frame (kern m1) pd (unat a div 4096) = Some f"
      "hw_frame (kern m) pd (unat a div 4096) = None \<longrightarrow> unat f \<notin> bs_used (frames (kern m))"
      "\<forall>n<user_pages. n \<noteq> unat a div 4096 \<longrightarrow> hw_frame (kern m1) pd n = hw_frame (kern m) pd n" by (elim exE conjE) (rule that; assumption)
  define p where "p = unat f * 4096 + unat a mod 4096"
  define m2 where "m2 = m1\<lparr>ram := (ram m1)(p := v)\<rparr>"
  have "current_pagedir (kern m1) = pd" using m1(2) by (simp add: vm_ok_def)
  then have "vst8 a v m = Some m2" using m1(1,5) assms(4) by (simp add: vst8_def phys_of_def m2_def p_def)
  moreover have "vm_ok m2 pd ms P" using m1(2) by (simp add: vm_ok_def vm_ready_def m2_def)
  moreover have "wrote pd {unat a} (\<lambda>_. v) m m2"
    using m1(3-7) by (auto simp: wrote_def m2_def phys_of_def p_def split: if_splits)
  ultimately show ?thesis by blast
qed

section \<open>Copying\<close>

text \<open>All addresses from \<open>lo\<close> to \<open>hi\<close> can be written.\<close>

definition writable :: "machine \<Rightarrow> ptr \<Rightarrow> ptr list \<Rightarrow> nat set \<Rightarrow> nat \<Rightarrow> nat \<Rightarrow> bool" where
  "writable m pd ms P lo hi \<longleftrightarrow> hi \<le> 0xE0000000 \<and> (\<forall>x. lo \<le> x \<and> x < hi \<longrightarrow> x div 4096 \<in> P \<and> reachable m pd ms (of_nat x))"

lemma writable_keeps: "writable m pd ms P lo hi \<Longrightarrow> wrote pd A g m m' \<Longrightarrow> writable m' pd ms P lo hi"
  unfolding writable_def wrote_def using reachable_keeps by blast

text \<open>Contents of the memory of the kernel.\<close>

definition source :: "machine \<Rightarrow> ptr \<Rightarrow> u32 \<Rightarrow> u8 list \<Rightarrow> bool" where
  "source m pd a xs \<longleftrightarrow> unat a + length xs < 4294967296 \<and> 0xE0000000 \<le> unat a
     \<and> (\<forall>i<length xs. hw_frame (kern m) pd ((unat a + i) div 4096) \<noteq> None \<and> mbytes (kern m) (unat a + i) = xs ! i)"

lemma source_keeps: "source m pd a xs \<Longrightarrow> wrote pd A g m m' \<Longrightarrow> source m' pd a xs"
  unfolding source_def wrote_def keeps_pages_def by fastforce

lemma source_sub:
  assumes "source m pd a xs" and "i + n \<le> length xs"
  shows "source m pd (a + of_nat i) (take n (drop i xs))"
proof -
  have "unat a + i < 4294967296" using assms by (auto simp: source_def)
  then have "unat (a + of_nat i) = unat a + i" by (simp add: unat_add_u32 unat_of_nat_u32)
  then show ?thesis using assms by (auto simp: source_def add.assoc)
qed

lemma vld8_source:
  assumes "source m pd a xs" and "current_pagedir (kern m) = pd" and "i < length xs"
  shows "vld8 (a + of_nat i) m = Some (xs ! i, m)"
proof -
  have u: "unat (a + of_nat i) = unat a + i" using assms(1,3) by (simp add: source_def unat_add_u32 unat_of_nat_u32)
  then have "\<not> a + of_nat i < 0xE0000000" using assms(1) by (simp add: source_def less_u32)
  then show ?thesis using assms u by (auto simp: vld8_def access_def source_def)
qed

lemma vld32_source:
  assumes "source m pd a xs" and "current_pagedir (kern m) = pd" and "i + 4 \<le> length xs"
  shows "vld32 (a + of_nat i) m = Some (of_bytes (xs ! i) (xs ! (i + 1)) (xs ! (i + 2)) (xs ! (i + 3)), m)"
proof -
  have "vld8 (a + of_nat i + of_nat k) m = Some (xs ! (i + k), m)" if "k < 4" for k using vld8_source[OF assms(1,2), of "i + k"] assms(3) that by (simp add: add.assoc)
  from this[of 0] this[of 1] this[of 2] this[of 3] show ?thesis by (simp add: vld32_def)
qed

lemma vst8_at:
  assumes "vm_ok m pd ms P" and "writable m pd ms P lo hi" and "lo \<le> x" and "x < hi" and "unat a = x"
  shows "\<exists>m'. vst8 a v m = Some m' \<and> vm_ok m' pd ms P \<and> wrote pd {x} (\<lambda>_. v) m m' \<and> writable m' pd ms P lo hi"
proof -
  have "a = of_nat x" using assms(5) by auto
  then have "unat a div 4096 \<in> P" "reachable m pd ms a" "a < 0xE0000000" using assms(2-5) by (auto simp: writable_def less_u32)
  from vst8_ok[OF assms(1) this, of v] show ?thesis using writable_keeps[OF assms(2)] assms(5) by blast
qed

text \<open>One more byte, or word, behind those that were written since \<open>m0\<close>.\<close>

lemma vst8_more:
  assumes "vm_ok m pd ms P" and "writable m0 pd ms P lo hi" and "wrote pd {lo..<x} g m0 m" and "lo \<le> x" and "x < hi" and "unat a = x" and "g x = v"
  shows "\<exists>m'. vst8 a v m = Some m' \<and> vm_ok m' pd ms P \<and> wrote pd {lo..<Suc x} g m0 m'"
proof -
  from vst8_at[OF assms(1) writable_keeps[OF assms(2,3)] assms(4-6), of v] obtain m' where
    m': "vst8 a v m = Some m'" "vm_ok m' pd ms P" "wrote pd {x} (\<lambda>_. v) m m'" by blast
  have "{lo..<x} \<union> {x} \<subseteq> {..<user_pages * 4096}" using assms(2,4,5) by (auto simp: writable_def user_pages_def)
  from wrote_trans[OF assms(3) m'(3,2) this] have "wrote pd {lo..<Suc x} g m0 m'" by (rule wrote_cong) (use assms(4,7) in auto)
  then show ?thesis using m' by blast
qed

lemma vst32_more:
  assumes "vm_ok m pd ms P" and "writable m0 pd ms P lo hi" and "wrote pd {lo..<x} g m0 m" and "lo \<le> x" and "x + 4 \<le> hi" and "unat a = x"
    and "w = of_bytes (g x) (g (x + 1)) (g (x + 2)) (g (x + 3))"
  shows "\<exists>m'. vst32 a w m = Some m' \<and> vm_ok m' pd ms P \<and> wrote pd {lo..<x + 4} g m0 m'"
proof -
  have hi: "x + 4 \<le> 4294967296" using assms(2,5) by (simp add: writable_def)
  then have u: "unat (a + 1) = Suc x" "unat (a + 2) = Suc (Suc x)" "unat (a + 3) = Suc (Suc (Suc x))" using unat_offsets[of a] assms(6) by simp_all
  have w: "g x = byte_of 0 w" "g (Suc x) = byte_of 1 w" "g (Suc (Suc x)) = byte_of 2 w" "g (Suc (Suc (Suc x))) = byte_of 3 w"
    using byte_of_of_bytes[of "g x" "g (x + 1)" "g (x + 2)" "g (x + 3)"] by (simp_all add: assms(7) eval_nat_numeral)
  have x: "x < hi" "Suc x < hi" "Suc (Suc x) < hi" "Suc (Suc (Suc x)) < hi" "lo \<le> Suc x" "lo \<le> Suc (Suc x)" "lo \<le> Suc (Suc (Suc x))" using assms(4,5) by simp_all
  from vst8_more[OF assms(1-4) x(1) assms(6) w(1)] obtain m1 where
    m1: "vst8 a (byte_of 0 w) m = Some m1" "vm_ok m1 pd ms P" "wrote pd {lo..<Suc x} g m0 m1" by blast
  from vst8_more[OF m1(2) assms(2) m1(3) x(5,2) u(1) w(2)] obtain m2 where
    m2: "vst8 (a + 1) (byte_of 1 w) m1 = Some m2" "vm_ok m2 pd ms P" "wrote pd {lo..<Suc (Suc x)} g m0 m2" by blast
  from vst8_more[OF m2(2) assms(2) m2(3) x(6,3) u(2) w(3)] obtain m3 where
    m3: "vst8 (a + 2) (byte_of 2 w) m2 = Some m3" "vm_ok m3 pd ms P" "wrote pd {lo..<Suc (Suc (Suc x))} g m0 m3" by blast
  from vst8_more[OF m3(2) assms(2) m3(3) x(7,4) u(3) w(4)] obtain m4 where
    m4: "vst8 (a + 3) (byte_of 3 w) m3 = Some m4" "vm_ok m4 pd ms P" "wrote pd {lo..<Suc (Suc (Suc (Suc x)))} g m0 m4" by blast
  have "wrote pd {lo..<x + 4} g m0 m4" using m4(3) by (simp add: eval_nat_numeral)
  then show ?thesis using m1(1) m2(1) m3(1) m4(1,2) by (simp add: vst32_def)
qed

text \<open>The loops; the first \<open>i\<close> elements are done.\<close>

lemma vm_current: "vm_ok m pd ms P \<Longrightarrow> current_pagedir (kern m) = pd"
  by (simp add: vm_ok_def)

lemma unat_plus: "unat a + i < 4294967296 \<Longrightarrow> unat (a + of_nat i) = unat a + i" for a :: u32
  by (simp add: unat_add_u32 unat_of_nat_u32)

lemma vcopy_words_ok:
  assumes "source m0 pd src xs" and "writable m0 pd ms P (unat d) (unat d + length xs)"
    and "vm_ok m pd ms P" and "wrote pd {unat d..<unat d + 4 * i} (\<lambda>y. xs ! (y - unat d)) m0 m" and "4 * (i + n) \<le> length xs"
  shows "\<exists>m'. vcopy_words d src (of_nat i) n m = Some m' \<and> vm_ok m' pd ms P \<and> wrote pd {unat d..<unat d + 4 * (i + n)} (\<lambda>y. xs ! (y - unat d)) m0 m'"
  using assms(3-)
proof (induction n arbitrary: i m)
  case (Suc n)
  let ?x = "unat d + 4 * i" and ?w = "of_bytes (xs ! (4 * i)) (xs ! (4 * i + 1)) (xs ! (4 * i + 2)) (xs ! (4 * i + 3))"
  have u: "unat (d + of_nat (4 * i)) = ?x" using assms(2) Suc.prems(3) by (intro unat_plus) (simp add: writable_def)
  have l: "vld32 (src + of_nat (4 * i)) m = Some (?w, m)"
    using vld32_source[OF source_keeps[OF assms(1) Suc.prems(2)] vm_current[OF Suc.prems(1)], of "4 * i"] Suc.prems(3) by simp
  have w: "?w = of_bytes (xs ! (?x - unat d)) (xs ! (?x + 1 - unat d)) (xs ! (?x + 2 - unat d)) (xs ! (?x + 3 - unat d))" by simp
  from vst32_more[OF Suc.prems(1) assms(2) Suc.prems(2) _ _ u w] Suc.prems(3) obtain m1 where
    m1: "vst32 (d + of_nat (4 * i)) ?w m = Some m1" "vm_ok m1 pd ms P" "wrote pd {unat d..<?x + 4} (\<lambda>y. xs ! (y - unat d)) m0 m1" by auto
  have "wrote pd {unat d..<unat d + 4 * (i + 1)} (\<lambda>y. xs ! (y - unat d)) m0 m1" using m1(3) by (simp add: algebra_simps)
  from Suc.IH[OF m1(2) this] Suc.prems(3) obtain m' where
    "vcopy_words d src (of_nat (i + 1)) n m1 = Some m'" "vm_ok m' pd ms P" "wrote pd {unat d..<unat d + 4 * (i + 1 + n)} (\<lambda>y. xs ! (y - unat d)) m0 m'" by auto
  then show ?case using l m1(1) by (simp add: add.commute)
qed auto

lemma vcopy_bytes_ok:
  assumes "source m0 pd src xs" and "writable m0 pd ms P (unat d) (unat d + length xs)"
    and "vm_ok m pd ms P" and "wrote pd {unat d..<unat d + i} (\<lambda>y. xs ! (y - unat d)) m0 m" and "i + n \<le> length xs"
  shows "\<exists>m'. vcopy_bytes d src (of_nat i) n m = Some m' \<and> vm_ok m' pd ms P \<and> wrote pd {unat d..<unat d + (i + n)} (\<lambda>y. xs ! (y - unat d)) m0 m'"
  using assms(3-)
proof (induction n arbitrary: i m)
  case (Suc n)
  let ?x = "unat d + i"
  have u: "unat (d + of_nat i) = ?x" using assms(2) Suc.prems(3) by (intro unat_plus) (simp add: writable_def)
  have l: "vld8 (src + of_nat i) m = Some (xs ! i, m)"
    using vld8_source[OF source_keeps[OF assms(1) Suc.prems(2)] vm_current[OF Suc.prems(1)], of i] Suc.prems(3) by simp
  from vst8_more[OF Suc.prems(1) assms(2) Suc.prems(2) _ _ u refl] Suc.prems(3) obtain m1 where
    m1: "vst8 (d + of_nat i) (xs ! i) m = Some m1" "vm_ok m1 pd ms P" "wrote pd {unat d..<unat d + (i + 1)} (\<lambda>y. xs ! (y - unat d)) m0 m1" by auto
  from Suc.IH[OF m1(2,3)] Suc.prems(3) obtain m' where
    "vcopy_bytes d src (of_nat (i + 1)) n m1 = Some m'" "vm_ok m' pd ms P" "wrote pd {unat d..<unat d + (i + 1 + n)} (\<lambda>y. xs ! (y - unat d)) m0 m'" by auto
  then show ?case using l m1(1) by (simp add: add.commute)
qed auto

lemma vset_bytes_ok:
  assumes "writable m0 pd ms P (unat d) (unat d + k)"
    and "vm_ok m pd ms P" and "wrote pd {unat d..<unat d + i} (\<lambda>_. v) m0 m" and "i + n \<le> k"
  shows "\<exists>m'. vset_bytes d v (of_nat i) n m = Some m' \<and> vm_ok m' pd ms P \<and> wrote pd {unat d..<unat d + (i + n)} (\<lambda>_. v) m0 m'"
  using assms(2-)
proof (induction n arbitrary: i m)
  case (Suc n)
  have u: "unat (d + of_nat i) = unat d + i" using assms(1) Suc.prems(3) by (intro unat_plus) (simp add: writable_def)
  from vst8_more[OF Suc.prems(1) assms(1) Suc.prems(2) _ _ u refl] Suc.prems(3) obtain m1 where
    m1: "vst8 (d + of_nat i) v m = Some m1" "vm_ok m1 pd ms P" "wrote pd {unat d..<unat d + (i + 1)} (\<lambda>_. v) m0 m1" by auto
  from Suc.IH[OF m1(2,3)] Suc.prems(3) obtain m' where
    "vset_bytes d v (of_nat (i + 1)) n m1 = Some m'" "vm_ok m' pd ms P" "wrote pd {unat d..<unat d + (i + 1 + n)} (\<lambda>_. v) m0 m'" by auto
  then show ?case using m1(1) by (simp add: add.commute)
qed auto

lemma vmemcpy_ok:
  assumes "source m pd src xs" and "writable m pd ms P (unat d) (unat d + length xs)" and "vm_ok m pd ms P"
  shows "\<exists>m'. vmemcpy d src (int (length xs)) m = Some m' \<and> vm_ok m' pd ms P \<and> wrote pd {unat d..<unat d + length xs} (\<lambda>y. xs ! (y - unat d)) m m'"
proof -
  define q r where "q = length xs div 4" and "r = length xs mod 4"
  have m: "length xs = 4 * q + r" "r < 4" "length xs < 4294967296" using assms(1) by (auto simp: q_def r_def source_def)
  have qr: "int (length xs) sdiv 4 = int q" "int (length xs) smod 4 = int r"
    by (simp_all add: signed_divide_int_def signed_modulo_int_def q_def r_def zdiv_int zmod_int sgn_if)
  have u: "unat (of_nat q :: u32) = q" "unat (of_nat r :: u32) = r" "unat (of_nat (4 * q) :: u32) = 4 * q" "unat (of_nat (length xs) :: u32) = length xs"
    using m unat_of_nat_u32[of q] unat_of_nat_u32[of r] unat_of_nat_u32[of "4 * q"] unat_of_nat_u32[of "length xs"] by simp_all
  from vcopy_words_ok[OF assms, of 0 q] m(1) obtain m1 where
    m1: "vcopy_words d src 0 q m = Some m1" "vm_ok m1 pd ms P" "wrote pd {unat d..<unat d + 4 * q} (\<lambda>y. xs ! (y - unat d)) m m1" by auto
  show ?thesis
  proof (cases "r = 0")
    case True
    then show ?thesis using m1 m(1) qr u by (simp add: vmemcpy_def)
  next
    case False
    have i: "of_nat (length xs) - of_nat r = (of_nat (4 * q) :: u32)" using m(1) by simp
    from vcopy_bytes_ok[OF assms(1,2) m1(2,3), of r] m(1) obtain m2 where
      "vcopy_bytes d src (of_nat (4 * q)) r m1 = Some m2" "vm_ok m2 pd ms P" "wrote pd {unat d..<unat d + length xs} (\<lambda>y. xs ! (y - unat d)) m m2" by auto
    moreover have "(of_nat r :: u32) \<noteq> 0" using u(2) False by auto
    moreover have "length xs - 4 * q = r" using m(1) by simp
    ultimately show ?thesis using m1(1) qr u unfolding vmemcpy_def by (simp add: i Let_def del: of_nat_mult)
  qed
qed

lemma vmemset_ok:
  assumes "writable m pd ms P (unat d) (unat d + n)" and "vm_ok m pd ms P"
  shows "\<exists>m'. vmemset d v (int n) m = Some m' \<and> vm_ok m' pd ms P \<and> wrote pd {unat d..<unat d + n} (\<lambda>_. v) m m'"
  using vset_bytes_ok[OF assms, of 0 v n] by (simp add: vmemset_def)

end
