(* ===== verification/EarlyPaging.thy ===== *)
theory EarlyPaging
  imports Vmem
begin

text \<open>
  The initialisation of paging, \<open>paging_init\<close> and \<open>paging_cleanup\<close> of \<^verbatim>\<open>src/kernel/mem/paging.c\<close>. It runs before the kernel has a heap: memory comes from
  increasing the address \<open>mem_placementAddr\<close>, also while the loop that maps the kernel up to this address needs page tables.

  The bitmap of frames gets a quarter of the memory it needs, and the directory of the kernel comes right behind it: the rest of the bitmap and the
  array \<open>tables\<close> of the directory are the same memory. The model has this overlap.

  Theorems: with little memory in use, the loop ends, and exactly the memory of the kernel up to the final address is mapped, with an offset of \<^verbatim>\<open>0xE0000000\<close>, on which the
  physical addresses of the page tables rely; what \<open>paging_cleanup\<close> does to the bitmap otherwise.
\<close>

section \<open>Model\<close>

subsection \<open>The bitmap and the directory behind it\<close>

text \<open>
  A bitmap for \<open>size\<close> frames has \<open>size / 32\<close> words, but \<open>kmalloc\<close> gives it \<open>size / 32\<close> bytes. The next object is the directory, which starts with \<open>tables\<close>. Memory is
  little-endian, so that bit \<open>n\<close> of the bitmap is bit \<open>n mod 8\<close> of its byte \<open>n div 8\<close>; the bits from \<open>8 * bitmap_bytes\<close> on are those of the words of \<open>tables\<close>, one after the
  other, whether the words are aligned to each other or not.
\<close>

definition bitmap_bytes :: "bitset \<Rightarrow> nat" where
  "bitmap_bytes t = unat (INDEX_FROM_BIT (bsize t))"

definition word_of_bits :: "(nat \<Rightarrow> bool) \<Rightarrow> u32" where
  "word_of_bits P = horner_sum of_bool 2 (map P [0..<32])"

text \<open>The bitmap after a write to \<open>tables\<close>, and \<open>tables\<close> after a write to the bitmap.\<close>

definition bits_over :: "page_directory \<Rightarrow> bitset \<Rightarrow> bitset" where
  "bits_over d t = t\<lparr>bits := map (\<lambda>w. word_of_bits (\<lambda>k. let n = 32 * w + k; e = 8 * bitmap_bytes t in
     if e \<le> n then bit (of_nat (pd_tables d ((n - e) div 32)) :: u32) ((n - e) mod 32) else bit (bits t ! w) k)) [0..<length (bits t)]\<rparr>"

definition tables_over :: "bitset \<Rightarrow> page_directory \<Rightarrow> page_directory" where
  "tables_over t d = d\<lparr>pd_tables := (\<lambda>i. let e = 8 * bitmap_bytes t + 32 * i; l = 32 * length (bits t) in
     if e < l then unat (word_of_bits (\<lambda>k. if e + k < l then bit (bits t ! ((e + k) div 32)) ((e + k) mod 32) else bit (of_nat (pd_tables d i) :: u32) k))
     else pd_tables d i)\<rparr>"

definition tables_written :: "kernel \<Rightarrow> kernel option" where
  "tables_written s = do { d \<leftarrow> the_pd s (kernel_pagedir s); Some (s\<lparr>frames := bits_over d (frames s)\<rparr>) }"

definition bitmap_written :: "kernel \<Rightarrow> kernel option" where
  "bitmap_written s = upd_pd (kernel_pagedir s) (tables_over (frames s)) s"

subsection \<open>Initialisation and cleaning up\<close>

text \<open>The loops of the two functions. C leaves open which of the two arguments of \<open>page_map\<close> is computed first; here it is the page.\<close>

partial_function (option) init_map :: "u32 \<Rightarrow> kernel \<Rightarrow> kernel option" where
  "init_map i s =
     (if i < mem_placementAddr s then do {
        (pg, s) \<leftarrow> pagedir_getPage (kernel_pagedir s) i True s;
        s \<leftarrow> tables_written s;
        (f, s) \<leftarrow> frame_alloc s;
        s \<leftarrow> bitmap_written s;
        s \<leftarrow> page_map pg f False False s;
        init_map (i + 0x1000) s }
      else Some s)"

definition low_tables :: "kernel \<Rightarrow> nat" where
  "low_tables s = unat ((mem_placementAddr s - 0xE0000000) div 0x100000)"

text \<open>
  \<open>bits0\<close> is what the memory of the bitmap contains; the code does not clear it. With more than about 170 megabytes of memory the bitmap also covers the fields behind \<open>tables\<close> and the
  pages behind the directory; this is not described (\<^const>\<open>None\<close>).
\<close>

definition paging_init :: "u32 \<Rightarrow> u32 list \<Rightarrow> kernel \<Rightarrow> kernel option" where
  "paging_init totalRam bits0 s = do {
     let sz = totalRam div 0x1000;
     let s = s\<lparr>frames := \<lparr>bits = bits0, bsize = sz\<rparr>,
                mem_placementAddr := mem_placementAddr s + INDEX_FROM_BIT sz\<rparr>;
     let kpd = unat (mem_placementAddr s);
     let s = s\<lparr>mem_placementAddr := mem_placementAddr s + 4108, kernel_pagedir := kpd\<rparr>;
     if 4 * length bits0 > bitmap_bytes (frames s) + 4096 then None
     else do {
       (virt, phys, s) \<leftarrow> kmalloc_page s;
       let s = s\<lparr>pdirs := (pdirs s)(kpd \<mapsto>
         \<lparr>pd_tables = (\<lambda>_. 0), pd_tablesPhysical = (\<lambda>_. 0), pd_page = virt, pd_physicalAddr = phys, pd_mappedSegs = 0\<rparr>)\<rparr>;
       s \<leftarrow> tables_written s;
       s \<leftarrow> init_map 0xE0000000 s;
       let n = low_tables s;
       s \<leftarrow> upd_pd kpd (\<lambda>d. d\<lparr>pd_tables := (\<lambda>i. if i < n then pd_tables d (i + 896) else pd_tables d i),
              pd_tablesPhysical := (\<lambda>i. if i < n then pd_tablesPhysical d (i + 896) else pd_tablesPhysical d i)\<rparr>) s;
       s \<leftarrow> tables_written s;
       pagedir_switch kpd s } }"

definition paging_cleanup :: "kernel \<Rightarrow> kernel option" where
  "paging_cleanup s = do {
     let n = low_tables s;
     s \<leftarrow> upd_pd (kernel_pagedir s) (\<lambda>d. d\<lparr>pd_tables := (\<lambda>i. if i < n then 0 else pd_tables d i),
            pd_tablesPhysical := (\<lambda>i. if i < n then 0 else pd_tablesPhysical d i)\<rparr>) s;
     s \<leftarrow> tables_written s;
     Some (mmu s) }"

section \<open>When the overlap does no harm\<close>

text \<open>
  All used frames are in the part of the bitmap that has its own memory, the entries of \<open>tables\<close> for addresses below \<^verbatim>\<open>0xE0000000\<close> are null, and the bitmap ends before those of the
  kernel (less than 150 megabytes).
\<close>

definition harmless :: "bitset \<Rightarrow> bool" where
  "harmless t \<longleftrightarrow> bs_used t \<subseteq> {..<8 * bitmap_bytes t} \<and> length (bits t) = unat (bsize t) div 32 \<and> length (bits t) \<le> 1194"

lemma bit_word_of_bits: "bit (word_of_bits P) k \<longleftrightarrow> k < 32 \<and> P k"
  by (auto simp: word_of_bits_def bit_horner_sum_bit_word_iff)

lemma word_of_bits_bit: "word_of_bits (bit w) = w"
  by (rule bit_word_eqI) (simp add: bit_word_of_bits)

lemma word_of_bits_0: "(\<And>k. \<not> P k) \<Longrightarrow> word_of_bits P = 0"
  by (rule bit_word_eqI) (simp add: bit_word_of_bits)

lemma bitmap_end: "harmless t \<Longrightarrow> 32 * length (bits t) \<le> 8 * bitmap_bytes t + 32 * 896"
  by (simp add: harmless_def bitmap_bytes_def idx_off)

lemma bits_over_bits: "bitmap_bytes (bits_over d t) = bitmap_bytes t" "length (bits (bits_over d t)) = length (bits t)" "bsize (bits_over d t) = bsize t"
  by (simp_all add: bits_over_def bitmap_bytes_def)

lemma bits_over_id:
  assumes "harmless t" and "\<forall>i<896. pd_tables d i = 0"
  shows "bits_over d t = t"
proof -
  define f where "f = (\<lambda>w. word_of_bits (\<lambda>k. let n = 32 * w + k; e = 8 * bitmap_bytes t in
     if e \<le> n then bit (of_nat (pd_tables d ((n - e) div 32)) :: u32) ((n - e) mod 32) else bit (bits t ! w) k))"
  have "f w = bits t ! w" if w: "w < length (bits t)" for w
  proof (rule bit_word_eqI)
    fix k assume "k < LENGTH(32)"
    then have k: "k < 32" by simp
    have n: "32 * w + k < 32 * length (bits t)" using w k by linarith
    show "bit (f w) k = bit (bits t ! w) k"
    proof (cases "8 * bitmap_bytes t \<le> 32 * w + k")
      case True
      have "32 * w + k - 8 * bitmap_bytes t < 32 * 896" using n bitmap_end[OF assms(1)] True by linarith
      then have "(32 * w + k - 8 * bitmap_bytes t) div 32 < 896" by (simp add: less_mult_imp_div_less)
      then have z: "pd_tables d ((32 * w + k - 8 * bitmap_bytes t) div 32) = 0" using assms(2) by blast
      have "32 * w + k \<notin> bs_used t" using assms(1) True by (auto simp: harmless_def)
      then have "\<not> bit (bits t ! w) k" using n k by (simp add: bs_used_def)
      then show ?thesis using True z k by (simp add: f_def bit_word_of_bits)
    qed (use k in \<open>simp add: f_def bit_word_of_bits\<close>)
  qed
  then have "map f [0..<length (bits t)] = map ((!) (bits t)) [0..<length (bits t)]" by (intro map_cong) simp_all
  moreover have "bits_over d t = t\<lparr>bits := map f [0..<length (bits t)]\<rparr>" unfolding bits_over_def f_def ..
  ultimately show ?thesis by (simp add: map_nth)
qed

lemma tables_over_id:
  assumes "harmless t" and "\<forall>i<896. pd_tables d i = 0"
  shows "tables_over t d = d"
proof -
  define g where "g = (\<lambda>i. let e = 8 * bitmap_bytes t + 32 * i; l = 32 * length (bits t) in
     if e < l then unat (word_of_bits (\<lambda>k. if e + k < l then bit (bits t ! ((e + k) div 32)) ((e + k) mod 32) else bit (of_nat (pd_tables d i) :: u32) k))
     else pd_tables d i)"
  have "g i = pd_tables d i" for i
  proof (cases "8 * bitmap_bytes t + 32 * i < 32 * length (bits t)")
    case True
    let ?e = "8 * bitmap_bytes t + 32 * i" and ?l = "32 * length (bits t)"
    have z: "pd_tables d i = 0" using True bitmap_end[OF assms(1)] assms(2) by simp
    have "\<not> bit (bits t ! ((?e + k) div 32)) ((?e + k) mod 32)" if "?e + k < ?l" for k
    proof -
      have "?e + k \<notin> bs_used t" using assms(1) by (auto simp: harmless_def)
      then show ?thesis using that unfolding bs_used_def by blast
    qed
    then have "\<not> (if ?e + k < ?l then bit (bits t ! ((?e + k) div 32)) ((?e + k) mod 32) else bit (of_nat (pd_tables d i) :: u32) k)" for k
      by (cases "?e + k < ?l") (simp only: if_True not_False_eq_True, simp add: z)
    from word_of_bits_0[OF this]
    have "word_of_bits (\<lambda>k. if ?e + k < ?l then bit (bits t ! ((?e + k) div 32)) ((?e + k) mod 32) else bit (of_nat (pd_tables d i) :: u32) k) = 0" .
    then show ?thesis unfolding g_def Let_def using True by (simp only: if_True unat_0 z)
  qed (simp only: g_def Let_def if_False)
  then have "g = pd_tables d" by (rule ext)
  moreover have "tables_over t d = d\<lparr>pd_tables := g\<rparr>" unfolding tables_over_def g_def ..
  ultimately show ?thesis by simp
qed

text \<open>Only the last write to \<open>tables\<close> matters.\<close>

lemma bits_over_twice: "bits_over d (bits_over d' t) = bits_over d t"
proof -
  have "bit (bits (bits_over d' t) ! w) k = bit (bits t ! w) k" if "w < length (bits t)" "k < 32" "\<not> 8 * bitmap_bytes t \<le> 32 * w + k" for w k
    using that by (simp add: bits_over_def bit_word_of_bits)
  then have "bits (bits_over d (bits_over d' t)) = bits (bits_over d t)"
    by (intro nth_equalityI) (auto simp: bits_over_bits bits_over_def[of d] word_of_bits_def Let_def intro!: arg_cong[where f = "horner_sum of_bool 2"] map_cong)
  then show ?thesis by (simp add: bits_over_def)
qed

section \<open>Pages before the heap\<close>

text \<open>The cached pages are below the placement address, are no tables, and have physical addresses with the offset.\<close>

definition early_page :: "nat \<Rightarrow> kernel \<Rightarrow> u32 \<Rightarrow> bool" where
  "early_page L s v \<longleftrightarrow> L \<le> unat v \<and> 0xE0000000 < unat v \<and> 4096 dvd unat v \<and> unat v + 4096 \<le> unat (mem_placementAddr s) \<and> unat v \<notin> dom (ptables s)"

definition early :: "nat \<Rightarrow> kernel \<Rightarrow> bool" where
  "early L s \<longleftrightarrow> \<not> kheap_working s \<and> processes s = 0 \<and> length (freepages s) \<le> 5 \<and> distinct (map fst (freepages s))
     \<and> (\<forall>x\<in>set (freepages s). snd x = fst x - 0xE0000000 \<and> early_page L s (fst x))
     \<and> 0xE0000000 \<le> unat (mem_placementAddr s) \<and> L \<le> unat (mem_placementAddr s) \<and> (\<forall>t\<in>dom (ptables s). L \<le> t \<and> t < unat (mem_placementAddr s))"

lemma early_tables: "early L s \<Longrightarrow> t \<in> dom (ptables s) \<Longrightarrow> t < unat (mem_placementAddr s)"
  unfolding early_def by blast

lemma next_page:
  assumes "0xE0000000 \<le> unat p" and "unat p + 0x2000 < 2 ^ 32"
  defines "a \<equiv> (if p AND 0xFFFFF000 \<noteq> 0 then (p AND 0xFFFFF000) + 0x1000 else p) :: u32"
  shows "4096 dvd unat a" "unat p < unat a" "unat a \<le> unat p + 4096" "unat (a + 0x1000) = unat a + 4096"
proof -
  have h: "unat (p AND 0xFFFFF000) = unat p div 4096 * 4096" by (simp add: unat_and_high20 minus_mod_eq_div_mult)
  have le: "unat p div 4096 * 4096 \<le> unat p" "unat p < unat p div 4096 * 4096 + 4096" using dividend_less_div_times[of 4096 "unat p"] by simp_all
  have "p AND 0xFFFFF000 \<noteq> 0"
  proof
    assume "p AND 0xFFFFF000 = 0"
    then have "unat p div 4096 * 4096 = 0" using h by (metis unat_0)
    then show False using le(2) assms(1) by linarith
  qed
  moreover have "unat ((p AND 0xFFFFF000) + 0x1000) = unat p div 4096 * 4096 + 4096" using h le assms(2) by (subst unat_add_u32) simp_all
  ultimately have a: "unat a = unat p div 4096 * 4096 + 4096" by (simp add: a_def)
  then show "4096 dvd unat a" "unat p < unat a" "unat a \<le> unat p + 4096" using le by simp_all
  then show "unat (a + 0x1000) = unat a + 4096" using assms(2) by (subst unat_add_u32) simp_all
qed

lemma early_page_mono: "early_page L s v \<Longrightarrow> unat (mem_placementAddr s) \<le> unat p \<Longrightarrow> early_page L (s\<lparr>mem_placementAddr := p, freepages := c\<rparr>) v"
  by (simp add: early_page_def)

lemma early_next:
  assumes "early L s" and "length (freepages s) < 5" and "4096 dvd unat a" and "unat (mem_placementAddr s) < unat a" and "unat (a + 0x1000) = unat a + 4096"
  shows "early L (s\<lparr>mem_placementAddr := a + 0x1000, freepages := (a, a - 0xE0000000) # freepages s\<rparr>)"
proof -
  let ?s = "s\<lparr>mem_placementAddr := a + 0x1000, freepages := (a, a - 0xE0000000) # freepages s\<rparr>"
  have le: "unat (mem_placementAddr s) \<le> unat (a + 0x1000)" using assms(4,5) by simp
  have "early_page L ?s v" if "v \<in> fst ` set (freepages s)" for v using that assms(1) le by (auto simp: early_def intro: early_page_mono)
  moreover have "0xE0000000 < unat a" using assms(1,4) by (auto simp: early_def)
  moreover have "unat a \<notin> dom (ptables s)" using early_tables[OF assms(1), of "unat a"] assms(4) by linarith
  moreover have "a \<notin> fst ` set (freepages s)" using assms(1,4) by (auto simp: early_def early_page_def)
  moreover have "\<forall>t\<in>dom (ptables s). t < unat a + 4096" using early_tables[OF assms(1)] assms(4) by fastforce
  moreover have "L \<le> unat a" using assms(1,4) by (auto simp: early_def)
  ultimately show ?thesis using assms le by (auto simp: early_def early_page_def)
qed

lemma get_free_early:
  assumes "early L s" and "unat (mem_placementAddr s) + 0x2000 * 5 < 2 ^ 32"
  shows "\<exists>p c. get_free_pages s = Some (s\<lparr>mem_placementAddr := p, freepages := c\<rparr>) \<and> early L (s\<lparr>mem_placementAddr := p, freepages := c\<rparr>)
     \<and> length c = 5 \<and> unat (mem_placementAddr s) \<le> unat p \<and> unat p \<le> unat (mem_placementAddr s) + 0x2000 * (5 - length (freepages s))"
proof -
  have "\<exists>p c. get_free_pages s = Some (s\<lparr>mem_placementAddr := p, freepages := c\<rparr>) \<and> early L (s\<lparr>mem_placementAddr := p, freepages := c\<rparr>)
     \<and> length c = 5 \<and> unat (mem_placementAddr s) \<le> unat p \<and> unat p \<le> unat (mem_placementAddr s) + 0x2000 * k"
    if "k = 5 - length (freepages s)" "unat (mem_placementAddr s) + 0x2000 * k < 2 ^ 32" "early L s" for k
    using that
  proof (induction k arbitrary: s)
    case 0
    then have "length (freepages s) = 5" by (simp add: early_def)
    then show ?case using 0 by (subst get_free_pages.simps) (intro exI[of _ "mem_placementAddr s"] exI[of _ "freepages s"], simp add: FREEPAGESTOKEEP_def)
  next
    case (Suc k)
    let ?p = "mem_placementAddr s"
    define a where "a = (if ?p AND 0xFFFFF000 \<noteq> 0 then (?p AND 0xFFFFF000) + 0x1000 else ?p)"
    let ?s = "s\<lparr>mem_placementAddr := a + 0x1000, freepages := (a, a - 0xE0000000) # freepages s\<rparr>"
    have p: "0xE0000000 \<le> unat ?p" "unat ?p + 0x2000 < 2 ^ 32" using Suc.prems by (auto simp: early_def)
    note n = next_page[OF p, folded a_def]
    have e: "early L ?s" using Suc.prems early_next[OF Suc.prems(3) _ n(1,2,4)] by simp
    have "length (freepages s) < 5" using Suc.prems(1) by linarith
    then have "get_free_pages s = get_free_pages ?s" using Suc.prems(3) by (subst get_free_pages.simps) (simp add: FREEPAGESTOKEEP_def early_def a_def Let_def)
    moreover have "k = 5 - length (freepages ?s)" "unat (mem_placementAddr ?s) + 0x2000 * k < 2 ^ 32" using Suc.prems(1,2) n by auto
    ultimately obtain p c where "get_free_pages s = Some (s\<lparr>mem_placementAddr := p, freepages := c\<rparr>)" "early L (s\<lparr>mem_placementAddr := p, freepages := c\<rparr>)" "length c = 5"
       "unat a + 4096 \<le> unat p" "unat p \<le> unat a + 4096 + 0x2000 * k" using Suc.IH[OF _ _ e] n(4) by auto
    then show ?case using n by (intro exI[of _ p] exI[of _ c]) simp
  qed
  from this[OF refl _ assms(1)] assms(2) show ?thesis by auto
qed

lemma kmalloc_page_early:
  assumes "early L s" and "unat (mem_placementAddr s) + 0xA000 < 2 ^ 32"
  shows "\<exists>v p c l. kmalloc_page s = Some (v, v - 0xE0000000, s\<lparr>mem_placementAddr := p, freepages := c, if_locks := l\<rparr>)
     \<and> early L (s\<lparr>mem_placementAddr := p, freepages := c, if_locks := l\<rparr>) \<and> early_page L (s\<lparr>mem_placementAddr := p\<rparr>) v \<and> v \<notin> fst ` set c
     \<and> unat (mem_placementAddr s) \<le> unat p \<and> unat p \<le> unat (mem_placementAddr s) + 0xA000"
proof -
  have e: "early L (s\<lparr>if_locks := l\<rparr>) = early L s" "early_page L (s\<lparr>if_locks := l\<rparr>) v = early_page L s v" for l v s by (simp_all add: early_def early_page_def)
  have ec: "early L (cli s)" using assms(1) e by (simp add: cli_def)
  from get_free_early[OF ec] assms(2) obtain p c where
    g: "get_free_pages (cli s) = Some ((cli s)\<lparr>mem_placementAddr := p, freepages := c\<rparr>)" "early L ((cli s)\<lparr>mem_placementAddr := p, freepages := c\<rparr>)" "length c = 5"
       "unat (mem_placementAddr s) \<le> unat p" "unat p \<le> unat (mem_placementAddr s) + 0x2000 * (5 - length (freepages s))"
    by (auto simp: cli_def)
  obtain v q rest where c: "c = (v, q) # rest" using g(3) by (cases c) auto
  have v: "q = v - 0xE0000000" "early_page L (s\<lparr>mem_placementAddr := p\<rparr>) v" "v \<notin> fst ` set rest"
    using g(2) by (auto simp: early_def early_page_def c cli_def)
  define l where "l = if_locks (snd (sti ((cli s)\<lparr>mem_placementAddr := p, freepages := rest\<rparr>)))"
  have "kmalloc_page s = Some (v, q, s\<lparr>mem_placementAddr := p, freepages := rest, if_locks := l\<rparr>)"
    using g(1) by (auto simp: kmalloc_page_def c l_def cli_def sti_def Let_def)
  moreover have "early L (s\<lparr>mem_placementAddr := p, freepages := rest, if_locks := l\<rparr>)" using g(2) by (auto simp: early_def early_page_def c cli_def)
  ultimately show ?thesis using v g(4,5) by (intro exI[of _ v] exI[of _ p] exI[of _ rest] exI[of _ l]) auto
qed

section \<open>The loop\<close>

text \<open>
  When the first \<open>m\<close> tables of the kernel are made and its first \<open>n\<close> pages are mapped: page \<open>n\<close> of the kernel has frame \<open>n\<close>, and a table is where the directory says, both as a
  pointer and as a physical address.
\<close>

definition kpage :: "nat \<Rightarrow> page" where
  "kpage n = \<lparr>pg_present = True, pg_rw = False, pg_user = False, pg_frame = of_nat n\<rparr>"

definition table_ok :: "kernel \<Rightarrow> page_directory \<Rightarrow> nat \<Rightarrow> nat \<Rightarrow> bool" where
  "table_ok s d n t \<longleftrightarrow> (\<exists>v tab. pd_tables d (896 + t) = unat v \<and> pd_tablesPhysical d (896 + t) = (v - 0xE0000000) OR 7
     \<and> 0xE0000000 < unat v \<and> 4096 dvd unat v \<and> unat v < unat (mem_placementAddr s) \<and> ptables s (unat v) = Some tab
     \<and> (\<forall>j<1024. tab j = (if 1024 * t + j < n then kpage (1024 * t + j) else empty_table j)))"

definition kmapped :: "nat \<Rightarrow> ptr \<Rightarrow> nat \<Rightarrow> nat \<Rightarrow> kernel \<Rightarrow> bool" where
  "kmapped L kpd m n s \<longleftrightarrow> early L s \<and> kpd \<noteq> 0 \<and> kernel_pagedir s = kpd \<and> frames_ok s \<and> harmless (frames s) \<and> bs_used (frames s) = {..<n}
     \<and> (\<exists>d. pdirs s kpd = Some d \<and> L \<le> unat (pd_page d) \<and> (\<forall>i<896. pd_tables d i = 0 \<and> pd_tablesPhysical d i = 0)
         \<and> (\<forall>t<m. table_ok s d n t) \<and> (\<forall>t\<ge>m. pd_tables d (896 + t) = 0 \<and> pd_tablesPhysical d (896 + t) = 0) \<and> inj_on (\<lambda>t. pd_tables d (896 + t)) {..<m})"

lemma writes_id:
  assumes "kmapped L kpd m n s"
  shows "tables_written s = Some s" "bitmap_written s = Some s"
proof -
  from assms obtain d where d: "pdirs s kpd = Some d" "\<forall>i<896. pd_tables d i = 0" "harmless (frames s)" "kpd \<noteq> 0" "kernel_pagedir s = kpd" by (auto simp: kmapped_def)
  note id = bits_over_id[OF d(3,2)] tables_over_id[OF d(3,2)]
  show "tables_written s = Some s" using d id by (simp add: tables_written_def the_pd_def)
  show "bitmap_written s = Some s" using d id by (simp add: bitmap_written_def upd_pd_def the_pd_def fun_upd_idem)
qed

lemma kernel_address:
  assumes "n < 0x20000"
  shows "unat (0xE0000000 + 0x1000 * of_nat n :: u32) = 0xE0000000 + 4096 * n" "unat (0xE0000000 + 0x1000 * of_nat n :: u32) div 4096 div 1024 = 896 + n div 1024"
    "unat (0xE0000000 + 0x1000 * of_nat n :: u32) div 4096 mod 1024 = n mod 1024"
proof -
  have n: "unat (of_nat n :: u32) = n" using assms by (simp add: unat_of_nat_u32)
  then have "unat (0x1000 * of_nat n :: u32) = 4096 * n" using assms by (subst unat_mult_u32) simp_all
  then show u: "unat (0xE0000000 + 0x1000 * of_nat n :: u32) = 0xE0000000 + 4096 * n" using assms by (subst unat_add_u32) simp_all
  have "(0xE0000000 + 4096 * n) div 4096 = 896 * 1024 + n" by simp
  then show "unat (0xE0000000 + 0x1000 * of_nat n :: u32) div 4096 div 1024 = 896 + n div 1024" "unat (0xE0000000 + 0x1000 * of_nat n :: u32) div 4096 mod 1024 = n mod 1024"
    using mod_mult_self3[of 896 1024 n] unfolding u by simp_all
qed

lemma table_ok_place: "table_ok s d n t \<Longrightarrow> ptables s' = ptables s \<Longrightarrow> unat (mem_placementAddr s) \<le> unat (mem_placementAddr s') \<Longrightarrow> table_ok s' d n t"
  by (fastforce simp: table_ok_def)

text \<open>The page for the next mapping, with a new table if the last one is full.\<close>

lemma getPage_known_table:
  assumes "kmapped L kpd m n s" and "n < 1024 * m" and "n < 0x20000"
  shows "\<exists>d. pdirs s kpd = Some d \<and> pagedir_getPage kpd (0xE0000000 + 0x1000 * of_nat n) True s = Some (Some (pd_tables d (896 + n div 1024), n mod 1024), s)"
proof -
  from assms(1) obtain d where d: "pdirs s kpd = Some d" "\<forall>t<m. table_ok s d n t" "kpd \<noteq> 0" by (auto simp: kmapped_def)
  have "n div 1024 < m" using assms(2) by (simp add: less_mult_imp_div_less mult.commute)
  then have "table_ok s d n (n div 1024)" using d(2) by blast
  then have "pd_tables d (896 + n div 1024) \<noteq> 0" by (auto simp: table_ok_def)
  then show ?thesis using d kernel_address[OF assms(3)] by (simp add: pagedir_getPage_def getPage_with_def the_pd_def Let_def)
qed

lemma getPage_new_table:
  assumes k: "kmapped L kpd m n s" and n: "n = 1024 * m" "n < 0x20000" and p: "unat (mem_placementAddr s) + 0xA000 < 2 ^ 32"
  shows "\<exists>d s'. pagedir_getPage kpd (0xE0000000 + 0x1000 * of_nat n) True s = Some (Some (pd_tables d (896 + n div 1024), n mod 1024), s')
     \<and> kmapped L kpd (Suc m) n s' \<and> pdirs s' kpd = Some d \<and> frames s' = frames s \<and> mbytes s' = mbytes s
     \<and> unat (mem_placementAddr s) \<le> unat (mem_placementAddr s') \<and> unat (mem_placementAddr s') \<le> unat (mem_placementAddr s) + 0xA000"
proof -
  from k obtain d where d: "pdirs s kpd = Some d" "\<forall>i<896. pd_tables d i = 0 \<and> pd_tablesPhysical d i = 0" "\<forall>t<m. table_ok s d n t"
      "\<forall>t\<ge>m. pd_tables d (896 + t) = 0 \<and> pd_tablesPhysical d (896 + t) = 0" "inj_on (\<lambda>t. pd_tables d (896 + t)) {..<m}" and
    e: "early L s" "kpd \<noteq> 0" "kernel_pagedir s = kpd" "frames_ok s" "bs_used (frames s) = {..<n}" "harmless (frames s)" "L \<le> unat (pd_page d)" by (auto simp: kmapped_def)
  from kmalloc_page_early[OF e(1) p] obtain v q c l where
    v: "kmalloc_page s = Some (v, v - 0xE0000000, s\<lparr>mem_placementAddr := q, freepages := c, if_locks := l\<rparr>)"
       "early L (s\<lparr>mem_placementAddr := q, freepages := c, if_locks := l\<rparr>)" "early_page L (s\<lparr>mem_placementAddr := q\<rparr>) v" "v \<notin> fst ` set c"
       "unat (mem_placementAddr s) \<le> unat q" "unat q \<le> unat (mem_placementAddr s) + 0xA000" by blast
  have vp: "0xE0000000 < unat v" "unat v < unat q" "ptables s (unat v) = None" "4096 dvd unat v" "L \<le> unat v" using v(3) by (auto simp: early_page_def)
  define d' where "d' = d\<lparr>pd_tables := (pd_tables d)(896 + m := unat v), pd_tablesPhysical := (pd_tablesPhysical d)(896 + m := (v - 0xE0000000) OR 7)\<rparr>"
  define s1 where "s1 = s\<lparr>mem_placementAddr := q, freepages := c, if_locks := l, ptables := (ptables s)(unat v \<mapsto> empty_table), pdirs := (pdirs s)(kpd \<mapsto> d')\<rparr>"
  have nm: "n div 1024 = m" "n mod 1024 = 0" using n(1) by simp_all
  have pr: "update_pds 0 i t ph x = Some x" for i t ph x by (subst update_pds.simps) simp
  have "processes s = 0" using e(1) by (simp add: early_def)
  then have g: "pagedir_getPage kpd (0xE0000000 + 0x1000 * of_nat n) True s = Some (Some (unat v, 0), mmu s1)"
    using d(1,4) e(2) v(1) kernel_address[OF n(2)] nm
    by (simp add: pagedir_getPage_def getPage_with_def the_pd_def Let_def upd_pd_def tasking_updateKernelPagetable_def pr s1_def d'_def)
  have m1: "mem_placementAddr (mmu x) = mem_placementAddr x" "early L (mmu x) = early L x" for x by (simp_all add: mmu_def early_def early_page_def)
  have "unat x \<noteq> unat v" if "x \<in> fst ` set c" for x using that v(4) by (metis unat_eqD)
  then have e1: "early L s1" using v(2) vp by (auto simp: early_def early_page_def s1_def)
  have t: "table_ok (mmu s1) d' n t" if "t < m" for t
  proof -
    from d(3) that obtain w tab where w: "pd_tables d (896 + t) = unat w" "pd_tablesPhysical d (896 + t) = (w - 0xE0000000) OR 7"
       "0xE0000000 < unat w" "4096 dvd unat w" "unat w < unat (mem_placementAddr s)" "ptables s (unat w) = Some tab"
       "\<forall>j<1024. tab j = (if 1024 * t + j < n then kpage (1024 * t + j) else empty_table j)" unfolding table_ok_def by blast
    then have "unat w \<noteq> unat v" using vp(3) by auto
    then show ?thesis unfolding table_ok_def using w that v(5) by (intro exI[of _ w] exI[of _ tab]) (simp add: d'_def s1_def m1)
  qed
  have tm: "table_ok (mmu s1) d' n m" unfolding table_ok_def using vp n(1) by (intro exI[of _ v] exI[of _ empty_table]) (simp add: d'_def s1_def m1)
  have tv: "\<forall>t<m. pd_tables d (896 + t) \<noteq> unat v" using d(3) vp(3) by (fastforce simp: table_ok_def)
  have "\<forall>t<Suc m. table_ok (mmu s1) d' n t" using t tm by (auto simp: less_Suc_eq)
  moreover have "inj_on (\<lambda>t. pd_tables d' (896 + t)) {..<Suc m}" using d(5) tv by (auto simp: inj_on_def d'_def less_Suc_eq dest: sym)
  moreover have "\<forall>i<896. pd_tables d' i = 0 \<and> pd_tablesPhysical d' i = 0" "\<forall>t\<ge>Suc m. pd_tables d' (896 + t) = 0 \<and> pd_tablesPhysical d' (896 + t) = 0"
    using d(2,4) by (auto simp: d'_def)
  moreover have "pdirs (mmu s1) kpd = Some d'" "frames (mmu s1) = frames s" "kernel_pagedir (mmu s1) = kpd" using e(3) by (simp_all add: s1_def)
  moreover have "pd_page d' = pd_page d" by (simp add: d'_def)
  ultimately have "kmapped L kpd (Suc m) n (mmu s1)" unfolding kmapped_def using e e1 m1 by (simp add: frames_ok_def)
  then show ?thesis using g v(5,6) nm by (intro exI[of _ d'] exI[of _ "mmu s1"]) (simp add: m1 s1_def, simp add: d'_def)
qed

text \<open>The frame that is allocated is the one with the number of the page.\<close>

lemma frame_alloc_next:
  assumes "frames_ok s" and "bs_used (frames s) = {..<n}" and "n < frame_cap s"
  shows "\<exists>b. frame_alloc s = Some (of_nat n, s\<lparr>frames := b\<rparr>) \<and> bs_used b = {..<Suc n} \<and> frames_ok (s\<lparr>frames := b\<rparr>) \<and> bsize b = bsize (frames s) \<and> length (bits b) = length (bits (frames s))"
proof -
  from firstFree_least[OF assms(1)[unfolded frames_ok_def]] obtain r where r: "bitset_firstFree (frames s) = Some r"
    and c: "if r = 0xFFFFFFFF then \<forall>m < 32 * (unat (bsize (frames s)) div 32). m \<in> bs_used (frames s)
     else unat r < 32 * (unat (bsize (frames s)) div 32) \<and> unat r \<notin> bs_used (frames s) \<and> (\<forall>m < unat r. m \<in> bs_used (frames s))"
    by (elim exE conjE)
  have "r \<noteq> 0xFFFFFFFF"
  proof
    assume "r = 0xFFFFFFFF"
    then have "n \<in> bs_used (frames s)" using c assms(3) unfolding frame_cap_def by presburger
    then show False using assms(2) by simp
  qed
  then have "unat r \<notin> {..<n}" "\<forall>m<unat r. m \<in> {..<n}" using c unfolding assms(2) by presburger+
  then have n: "unat r = n" by (metis lessThan_iff linorder_neqE_nat order_less_irrefl)
  then have "frame_alloc s = Some (of_nat n, s\<lparr>frames := b\<rparr>)" if "bitset_set (frames s) r = Some b" for b
    using r that by (auto simp: frame_alloc_def)
  moreover from fp.alloc_ok[OF assms(1,3)] assms(2) obtain f s' where "frame_alloc s = Some (f, s')" "bs_used (frames s') = insert (unat f) {..<n}" "frames_ok s'"
    by auto
  moreover from this(1) r obtain b where "bitset_set (frames s) r = Some b" "f = r" "s' = s\<lparr>frames := b\<rparr>" by (auto simp: frame_alloc_def split: bind_splits)
  moreover from this(1) have "bsize b = bsize (frames s)" "length (bits b) = length (bits (frames s))" by (auto simp: bitset_set_def Let_def split: if_splits option.splits bind_splits)
  ultimately show ?thesis using n by (intro exI[of _ b]) (simp add: lessThan_Suc)
qed

lemma table_ok_other:
  assumes "table_ok s d n t" and "t \<noteq> n div 1024" and "pd_tables d (896 + t) \<noteq> q" and "ptables s' = (ptables s)(q \<mapsto> x)" and "mem_placementAddr s' = mem_placementAddr s"
  shows "table_ok s' d (Suc n) t"
proof -
  have "1024 * t + j < Suc n \<longleftrightarrow> 1024 * t + j < n" if "j < 1024" for j
  proof -
    have "(1024 * t + j) div 1024 = t" using that by simp
    then have "1024 * t + j \<noteq> n" using assms(2) by auto
    then show ?thesis by linarith
  qed
  then show ?thesis using assms(1,3) unfolding table_ok_def by (elim exE conjE) (intro exI conjI; auto simp: assms(4,5))
qed

lemma map_next:
  assumes k: "kmapped L kpd m n s" and d: "pdirs s kpd = Some d" and n: "n < 1024 * m" "n < 0x20000" "n < 8 * bitmap_bytes (frames s)"
  shows "\<exists>s1 s'. frame_alloc s = Some (of_nat n, s1) \<and> bitmap_written s1 = Some s1 \<and> page_map (Some (pd_tables d (896 + n div 1024), n mod 1024)) (of_nat n) False False s1 = Some s'
     \<and> kmapped L kpd m (Suc n) s' \<and> mem_placementAddr s' = mem_placementAddr s \<and> bitmap_bytes (frames s') = bitmap_bytes (frames s) \<and> mbytes s' = mbytes s"
proof -
  from k d have e: "early L s" "kpd \<noteq> 0" "kernel_pagedir s = kpd" "frames_ok s" "bs_used (frames s) = {..<n}" "\<forall>i<896. pd_tables d i = 0 \<and> pd_tablesPhysical d i = 0"
      "\<forall>t<m. table_ok s d n t" "\<forall>t\<ge>m. pd_tables d (896 + t) = 0 \<and> pd_tablesPhysical d (896 + t) = 0" "inj_on (\<lambda>t. pd_tables d (896 + t)) {..<m}" "harmless (frames s)" "L \<le> unat (pd_page d)"
    by (auto simp: kmapped_def)
  have "n < frame_cap s" using n(3) by (simp add: bitmap_bytes_def idx_off frame_cap_def)
  from frame_alloc_next[OF e(4,5) this] obtain b where
    b: "frame_alloc s = Some (of_nat n, s\<lparr>frames := b\<rparr>)" "bs_used b = {..<Suc n}" "frames_ok (s\<lparr>frames := b\<rparr>)" "bsize b = bsize (frames s)" "length (bits b) = length (bits (frames s))" by blast
  have bb: "bitmap_bytes b = bitmap_bytes (frames s)" using b(4) by (simp add: bitmap_bytes_def)
  have hb: "harmless b" using e(10) b n(3) by (simp add: harmless_def bb)
  have bw: "bitmap_written (s\<lparr>frames := b\<rparr>) = Some (s\<lparr>frames := b\<rparr>)"
    using tables_over_id[OF hb, of d] e d by (simp add: bitmap_written_def upd_pd_def the_pd_def fun_upd_idem)
  let ?t = "n div 1024" and ?j = "n mod 1024"
  have t: "?t < m" "1024 * ?t + ?j = n" "?j < 1024" using n(1) by (simp_all add: less_mult_imp_div_less mult.commute)
  from e(7) t(1) obtain v tab where v: "pd_tables d (896 + ?t) = unat v" "pd_tablesPhysical d (896 + ?t) = (v - 0xE0000000) OR 7"
       "0xE0000000 < unat v" "4096 dvd unat v" "unat v < unat (mem_placementAddr s)" "ptables s (unat v) = Some tab"
       "\<forall>j<1024. tab j = (if 1024 * ?t + j < n then kpage (1024 * ?t + j) else empty_table j)" unfolding table_ok_def by blast
  have "tab ?j = empty_table ?j" using v(7) t(2,3) by simp
  moreover have "unat (of_nat n :: u32) < 0x100000" using n(2) by (simp add: unat_of_nat_u32)
  note frame_mask[OF this]
  moreover define s' where "s' = mmu (s\<lparr>frames := b, ptables := (ptables s)(unat v \<mapsto> tab(?j := kpage n))\<rparr>)"
  ultimately have pm: "page_map (Some (pd_tables d (896 + ?t), ?j)) (of_nat n) False False (s\<lparr>frames := b\<rparr>) = Some s'"
    using v(1,6) by (simp add: page_map_def get_page_def set_page_def empty_table_def kpage_def)
  have f: "mem_placementAddr s' = mem_placementAddr s" "mbytes s' = mbytes s" "pdirs s' = pdirs s" "frames s' = b" "kernel_pagedir s' = kernel_pagedir s" "ptables s' = (ptables s)(unat v \<mapsto> tab(?j := kpage n))"
    by (simp_all add: s'_def mmu_def)
  have "dom (ptables s') = dom (ptables s)" using v(6) by (auto simp: f)
  then have "early L s'" using e(1) by (simp add: early_def early_page_def f) (simp add: s'_def mmu_def)
  moreover have "table_ok s' d (Suc n) t'" if t': "t' < m" for t'
  proof (cases "t' = ?t")
    case True
    have "(tab(?j := kpage n)) j = (if 1024 * ?t + j < Suc n then kpage (1024 * ?t + j) else empty_table j)" if "j < 1024" for j
    proof -
      have "1024 * ?t + j = n \<longleftrightarrow> j = ?j" using t(2) by linarith
      then show ?thesis using v(7) that by (cases "j = ?j") (auto simp: less_Suc_eq)
    qed
    then show ?thesis unfolding table_ok_def True using v by (intro exI[of _ v] exI[of _ "tab(?j := kpage n)"]) (simp add: f)
  next
    case False
    then have "pd_tables d (896 + t') \<noteq> unat v" using inj_onD[OF e(9), of t' ?t] t' t(1) v(1) by auto
    then show ?thesis using table_ok_other[of s d n t' "unat v"] e(7) t' False by (simp add: f)
  qed
  ultimately have "kmapped L kpd m (Suc n) s'" unfolding kmapped_def using e d b(2,3) hb by (simp add: f frames_ok_def)
  moreover have "bitmap_bytes (frames s') = bitmap_bytes (frames s)" using bb by (simp add: f)
  ultimately show ?thesis using b(1) bw pm f(1,2) by blast
qed

text \<open>
  The loop ends although it moves the end it runs to: with every new table, for 1024 pages, the end moves by at most ten pages.
\<close>

definition kpages :: "kernel \<Rightarrow> nat" where
  "kpages s = (unat (mem_placementAddr s) - 0xE0000000 + 4095) div 4096"

lemma kpages_mono:
  assumes "unat (mem_placementAddr s) \<le> unat (mem_placementAddr s')" and "unat (mem_placementAddr s') \<le> unat (mem_placementAddr s) + 0xA000" and "0xE0000000 \<le> unat (mem_placementAddr s)"
  shows "kpages s \<le> kpages s'" "kpages s' \<le> kpages s + 10"
proof -
  show "kpages s \<le> kpages s'" unfolding kpages_def using assms(1) by (intro div_le_mono) simp
  have "unat (mem_placementAddr s') - 0xE0000000 + 4095 \<le> unat (mem_placementAddr s) - 0xE0000000 + 4095 + 10 * 4096" using assms by simp
  then have "kpages s' \<le> (unat (mem_placementAddr s) - 0xE0000000 + 4095 + 10 * 4096) div 4096" unfolding kpages_def by (rule div_le_mono)
  then show "kpages s' \<le> kpages s + 10" by (simp add: kpages_def)
qed

lemma div_bound: "x div 4096 \<le> k \<Longrightarrow> x < 4096 * k + 4096" for x k :: nat
  using dividend_less_div_times[of 4096 x] by simp

lemma kpages_bound: "kpages s \<le> k \<Longrightarrow> unat (mem_placementAddr s) \<le> 0xE0000000 + 4096 * k"
  using div_bound[of "unat (mem_placementAddr s) - 0xE0000000 + 4095" k] unfolding kpages_def by linarith

lemma loop_condition:
  assumes "0xE0000000 \<le> unat (mem_placementAddr s)" and "n < 0x20000"
  shows "(0xE0000000 + 0x1000 * of_nat n < mem_placementAddr s) = (n < kpages s)"
proof -
  have "(0xE0000000 + 4096 * n < unat (mem_placementAddr s)) = (n < kpages s)" unfolding kpages_def using assms(1) by (simp add: less_eq_div_iff_mult_less_eq Suc_le_eq[symmetric]) linarith
  then show ?thesis using kernel_address(1)[OF assms(2)] by (simp add: less_u32)
qed

lemma getPage_ready:
  assumes k: "kmapped L kpd m n s" and "n \<le> 1024 * m" and "m = 0 \<or> 1024 * (m - 1) < n" and "n \<le> kpages s" and "kpages s + 10 * (10 - m) \<le> 0x2800" and "n < kpages s"
  shows "\<exists>d s1 m1. pagedir_getPage kpd (0xE0000000 + 0x1000 * of_nat n) True s = Some (Some (pd_tables d (896 + n div 1024), n mod 1024), s1)
     \<and> kmapped L kpd m1 n s1 \<and> pdirs s1 kpd = Some d \<and> frames s1 = frames s \<and> mbytes s1 = mbytes s \<and> n < 1024 * m1 \<and> 1024 * (m1 - 1) \<le> n \<and> m1 \<noteq> 0
     \<and> unat (mem_placementAddr s) \<le> unat (mem_placementAddr s1) \<and> kpages s \<le> kpages s1 \<and> kpages s1 + 10 * (10 - m1) \<le> kpages s + 10 * (10 - m)"
proof -
  have p: "0xE0000000 \<le> unat (mem_placementAddr s)" using k by (simp add: kmapped_def early_def)
  have n: "n < 0x20000" using assms(5,6) by linarith
  have m10: "m < 10 \<or> n < 1024 * m" using assms(2,5,6) by linarith
  show ?thesis
  proof (cases "n = 1024 * m")
    case eq: True
    have "kpages s \<le> 0x2800" using assms(5) by linarith
    from kpages_bound[OF this] have "unat (mem_placementAddr s) + 0xA000 < 2 ^ 32" by simp
    from getPage_new_table[OF k eq n this] obtain d s1 where s1: "pagedir_getPage kpd (0xE0000000 + 0x1000 * of_nat n) True s = Some (Some (pd_tables d (896 + n div 1024), n mod 1024), s1)"
        "kmapped L kpd (Suc m) n s1" "pdirs s1 kpd = Some d" "frames s1 = frames s" "mbytes s1 = mbytes s"
        "unat (mem_placementAddr s) \<le> unat (mem_placementAddr s1)" "unat (mem_placementAddr s1) \<le> unat (mem_placementAddr s) + 0xA000" by (elim exE conjE)
    show ?thesis using s1 kpages_mono[OF s1(6,7) p] eq m10 by (intro exI[of _ d] exI[of _ s1] exI[of _ "Suc m"]) simp
  next
    case False
    then have n2: "n < 1024 * m" using assms(2) by simp
    from getPage_known_table[OF k this n] obtain d where "pdirs s kpd = Some d"
         "pagedir_getPage kpd (0xE0000000 + 0x1000 * of_nat n) True s = Some (Some (pd_tables d (896 + n div 1024), n mod 1024), s)" by (elim exE conjE)
    then show ?thesis using k n2 assms(3) by (intro exI[of _ d] exI[of _ s] exI[of _ m]) auto
  qed
qed

lemma init_map_step:
  "i < mem_placementAddr s \<Longrightarrow> pagedir_getPage (kernel_pagedir s) i True s = Some (pg, s1) \<Longrightarrow> tables_written s1 = Some s1
    \<Longrightarrow> frame_alloc s1 = Some (f, s2) \<Longrightarrow> bitmap_written s2 = Some s2 \<Longrightarrow> page_map pg f False False s2 = Some s3
    \<Longrightarrow> init_map i s = init_map (i + 0x1000) s3"
  by (subst init_map.simps) simp

lemma init_map_ok:
  assumes "kmapped L kpd m n s" and "n \<le> 1024 * m" and "m = 0 \<or> 1024 * (m - 1) < n" and "n \<le> kpages s" and "kpages s + 10 * (10 - m) \<le> 8 * bitmap_bytes (frames s)" and "kpages s + 10 * (10 - m) \<le> 0x2800"
  shows "\<exists>s' m'. init_map (0xE0000000 + 0x1000 * of_nat n) s = Some s' \<and> kmapped L kpd m' (kpages s') s' \<and> kpages s' \<le> 1024 * m' \<and> (m' = 0 \<or> 1024 * (m' - 1) < kpages s')
     \<and> unat (mem_placementAddr s) \<le> unat (mem_placementAddr s') \<and> kpages s' \<le> 0x2800 \<and> mbytes s' = mbytes s \<and> bitmap_bytes (frames s') = bitmap_bytes (frames s)"
  using assms
proof (induction "kpages s + 10 * (10 - m) - n" arbitrary: m n s rule: less_induct)
  case less
  note k = less.prems(1)
  have p: "0xE0000000 \<le> unat (mem_placementAddr s)" using k by (simp add: kmapped_def early_def)
  have n: "n < 0x20000" using less.prems(4,6) by linarith
  show ?case
  proof (cases "n < kpages s")
    case False
    then show ?thesis using less.prems loop_condition[OF p n] by (subst init_map.simps) (intro exI[of _ s] exI[of _ m], auto)
  next
    case True
    from getPage_ready[OF k less.prems(2-4,6) True] obtain d s1 m1 where g: "pagedir_getPage kpd (0xE0000000 + 0x1000 * of_nat n) True s = Some (Some (pd_tables d (896 + n div 1024), n mod 1024), s1)"
        "kmapped L kpd m1 n s1" "pdirs s1 kpd = Some d" "frames s1 = frames s" "mbytes s1 = mbytes s" "n < 1024 * m1" "1024 * (m1 - 1) \<le> n" "m1 \<noteq> 0"
        "unat (mem_placementAddr s) \<le> unat (mem_placementAddr s1)" "kpages s \<le> kpages s1" "kpages s1 + 10 * (10 - m1) \<le> kpages s + 10 * (10 - m)"
      by (elim exE conjE)
    have "n < 8 * bitmap_bytes (frames s1)" using True less.prems(5) g(4) by simp
    from map_next[OF g(2,3,6) n this] obtain s2 s3 where s3: "frame_alloc s1 = Some (of_nat n, s2)" "bitmap_written s2 = Some s2" "page_map (Some (pd_tables d (896 + n div 1024), n mod 1024)) (of_nat n) False False s2 = Some s3"
       "kmapped L kpd m1 (Suc n) s3" "mem_placementAddr s3 = mem_placementAddr s1" "bitmap_bytes (frames s3) = bitmap_bytes (frames s1)" "mbytes s3 = mbytes s1" by blast
    have kp: "kpages s3 = kpages s1" using s3(5) by (simp add: kpages_def)
    have kd: "kernel_pagedir s = kpd" using k by (simp add: kmapped_def)
    have ad: "0xE0000000 + 0x1000 * of_nat n + 0x1000 = (0xE0000000 + 0x1000 * of_nat (Suc n) :: u32)" by (simp add: algebra_simps)
    have "init_map (0xE0000000 + 0x1000 * of_nat n) s = init_map (0xE0000000 + 0x1000 * of_nat (Suc n)) s3"
      using init_map_step[OF loop_condition[OF p n, THEN iffD2, OF True] g(1)[folded kd] writes_id(1)[OF g(2)] s3(1-3)] unfolding ad .
    note step = this
    have "kpages s3 + 10 * (10 - m1) - Suc n < kpages s + 10 * (10 - m) - n" using g(11) True by (simp add: kp)
    from less.hyps[OF this s3(4)] have ih: "\<exists>s' m'. init_map (0xE0000000 + 0x1000 * of_nat (Suc n)) s3 = Some s' \<and> kmapped L kpd m' (kpages s') s' \<and> kpages s' \<le> 1024 * m' \<and> (m' = 0 \<or> 1024 * (m' - 1) < kpages s')
     \<and> unat (mem_placementAddr s3) \<le> unat (mem_placementAddr s') \<and> kpages s' \<le> 0x2800 \<and> mbytes s' = mbytes s3 \<and> bitmap_bytes (frames s') = bitmap_bytes (frames s3)"
      using g(6,7,10,11) True less.prems(5,6) g(4) s3(6) by (simp add: kp)
    have "unat (mem_placementAddr s) \<le> unat (mem_placementAddr s3)" "mbytes s3 = mbytes s" "bitmap_bytes (frames s3) = bitmap_bytes (frames s)" using g(4,5,9) s3(5-7) by simp_all
    then show ?thesis unfolding step using ih by (elim exE conjE) (intro exI conjI, assumption+, erule order_trans, assumption+, simp_all)
  qed
qed

section \<open>The property\<close>

lemma kmapped_frame:
  assumes "kmapped L kpd m n s" and "n \<le> 1024 * m" and "n < 0x20000"
  shows "hw_frame s kpd (0xE0000 + x) = (if x < n then Some (of_nat x) else None)" "y < 0xE0000 \<Longrightarrow> hw_frame s kpd y = None"
proof -
  from assms(1) obtain d where d: "pdirs s kpd = Some d" "\<forall>i<896. pd_tables d i = 0 \<and> pd_tablesPhysical d i = 0" "\<forall>t<m. table_ok s d n t"
      "\<forall>t\<ge>m. pd_tables d (896 + t) = 0 \<and> pd_tablesPhysical d (896 + t) = 0" by (auto simp: kmapped_def)
  have dm: "(0xE0000 + x) div 1024 = 896 + x div 1024" "(0xE0000 + x) mod 1024 = x mod 1024" using mod_mult_self3[of 896 1024 x] by simp_all
  show "hw_frame s kpd (0xE0000 + x) = (if x < n then Some (of_nat x) else None)"
  proof (cases "x div 1024 < m")
    case True
    then obtain v tab where v: "pd_tables d (896 + x div 1024) = unat v" "pd_tablesPhysical d (896 + x div 1024) = (v - 0xE0000000) OR 7" "ptables s (unat v) = Some tab"
       "\<forall>j<1024. tab j = (if 1024 * (x div 1024) + j < n then kpage (1024 * (x div 1024) + j) else empty_table j)" using d(3) unfolding table_ok_def by blast
    have "tab (x mod 1024) = (if x < n then kpage x else empty_table (x mod 1024))" using v(4) by simp
    then show ?thesis using d(1) v(1-3) by (simp add: hw_frame_def dm kpage_def empty_table_def bit_simps)
  next
    case False
    then have "\<not> x < n" using assms(2) less_mult_imp_div_less[of x m 1024] by linarith
    then show ?thesis using d(1,4) False by (simp add: hw_frame_def dm)
  qed
  show "y < 0xE0000 \<Longrightarrow> hw_frame s kpd y = None" using d(1,2) by (simp add: hw_frame_def less_mult_imp_div_less)
qed

lemma low_tables_enough:
  assumes "0xE0100000 \<le> unat (mem_placementAddr s)" and "x < kpages s"
  shows "x div 1024 < low_tables s"
proof -
  define l where "l = unat (mem_placementAddr s) - 0xE0000000"
  have low: "low_tables s = l div 0x100000" using assms(1) unfolding low_tables_def l_def by (simp add: unat_div_u32 unat_sub_u32 le_u32)
  have "0x100000 \<le> l" using assms(1) unfolding l_def by linarith
  then have one: "0 < l div 0x100000" by (simp add: div_greater_zero_iff)
  have "Suc x \<le> (l + 4095) div 4096" using assms(2) unfolding kpages_def l_def by simp
  then have "Suc x * 4096 \<le> l + 4095" by (simp add: less_eq_div_iff_mult_less_eq)
  moreover have "4096 * (1024 * (x div 1024)) \<le> 4096 * x" by (intro mult_left_mono) simp_all
  ultimately have "4 * (x div 1024) * 0x100000 \<le> l" by simp
  then have "4 * (x div 1024) \<le> l div 0x100000" by (simp add: less_eq_div_iff_mult_less_eq)
  then show ?thesis using one unfolding low by linarith
qed

lemma table_phys:
  fixes v :: u32
  assumes "0xE0000000 < unat v" and "4096 dvd unat v"
  shows "v - 0xE0000000 = 0x1000 * of_nat ((unat v - 0xE0000000) div 4096)" "unat v div 4096 = 0xE0000 + (unat v - 0xE0000000) div 4096"
proof -
  obtain q where q: "unat v = 4096 * q" using assms(2) by (elim dvdE)
  then have d: "(unat v - 0xE0000000) div 4096 = q - 0xE0000" "0xE0000 < q" "q < 0x100000" using assms(1) unat_u32_less[of v] by simp_all
  have "unat (v - 0xE0000000) = 4096 * (q - 0xE0000)" using assms(1) q by (subst unat_sub_u32) (simp_all add: le_u32)
  moreover have "unat (of_nat (q - 0xE0000) :: u32) = q - 0xE0000" using d(3) by (subst unat_of_nat_u32) simp_all
  then have "unat (0x1000 * of_nat (q - 0xE0000) :: u32) = 4096 * (q - 0xE0000)" using d(3) by (subst unat_mult_u32) simp_all
  ultimately show "v - 0xE0000000 = 0x1000 * of_nat ((unat v - 0xE0000000) div 4096)" unfolding d(1) by (intro unat_eqD) simp
  show "unat v div 4096 = 0xE0000 + (unat v - 0xE0000000) div 4096" using d q by simp
qed

text \<open>The tables of the kernel are also those of the low addresses; afterwards they are removed there.\<close>

definition low_pd :: "nat \<Rightarrow> page_directory \<Rightarrow> page_directory" where
  "low_pd n d = d\<lparr>pd_tables := (\<lambda>i. if i < n then pd_tables d (i + 896) else pd_tables d i),
     pd_tablesPhysical := (\<lambda>i. if i < n then pd_tablesPhysical d (i + 896) else pd_tablesPhysical d i)\<rparr>"

definition with_low :: "ptr \<Rightarrow> kernel \<Rightarrow> kernel" where
  "with_low kpd s = (case pdirs s kpd of None \<Rightarrow> s | Some d \<Rightarrow>
     mmu (s\<lparr>pdirs := (pdirs s)(kpd \<mapsto> low_pd (low_tables s) d), frames := bits_over (low_pd (low_tables s) d) (frames s), current_pagedir := kpd\<rparr>))"

lemma low_tables_less:
  assumes "0xE0100000 \<le> unat (mem_placementAddr s)"
  shows "low_tables s < 896"
proof -
  have "unat (mem_placementAddr s) - 0xE0000000 < 896 * 0x100000" using unat_u32_less[of "mem_placementAddr s"] by linarith
  then have "(unat (mem_placementAddr s) - 0xE0000000) div 0x100000 < 896" by (rule less_mult_imp_div_less)
  then show ?thesis unfolding low_tables_def using assms by (simp add: unat_div_u32 unat_sub_u32 le_u32)
qed

lemma table_below:
  fixes v :: u32
  assumes "0xE0000000 < unat v" and "4096 dvd unat v" and "unat v < unat (mem_placementAddr s)"
  shows "(unat v - 0xE0000000) div 4096 < kpages s"
proof -
  have "Suc ((unat v - 0xE0000000) div 4096) = (unat v - 0xE0000000 + 4096) div 4096" by simp
  also have "\<dots> \<le> kpages s" unfolding kpages_def using assms(1,3) by (intro div_le_mono) linarith
  finally show ?thesis by simp
qed

lemma low_frames:
  assumes k: "kmapped L kpd m (kpages s) s" and n: "kpages s \<le> 1024 * m" "kpages s < 0x20000" and p: "0xE0100000 \<le> unat (mem_placementAddr s)"
  shows "hw_frame (with_low kpd s) kpd (0xE0000 + x) = (if x < kpages s then Some (of_nat x) else None)"
    "y < 0xE0000 \<Longrightarrow> hw_frame (with_low kpd s) kpd y = (if y < kpages s then Some (of_nat y) else None)"
proof -
  from k obtain d where d: "pdirs s kpd = Some d" by (auto simp: kmapped_def)
  note low = low_tables_less[OF p]
  have sh: "hw_frame (with_low kpd s) kpd z = (if z div 1024 < low_tables s then hw_frame s kpd (0xE0000 + z) else hw_frame s kpd z)" for z
  proof -
    have "(0xE0000 + z) div 1024 = 896 + z div 1024" "(0xE0000 + z) mod 1024 = z mod 1024" using mod_mult_self3[of 896 1024 z] by simp_all
    then show ?thesis using d by (simp add: with_low_def low_pd_def hw_frame_def add.commute[of _ 896] split: option.split)
  qed
  show "hw_frame (with_low kpd s) kpd (0xE0000 + x) = (if x < kpages s then Some (of_nat x) else None)"
  proof -
    have "(0xE0000 + x) div 1024 = 896 + x div 1024" by simp
    then show ?thesis using low kmapped_frame(1)[OF k n, of x] by (simp add: sh)
  qed
  show "hw_frame (with_low kpd s) kpd y = (if y < kpages s then Some (of_nat y) else None)" if "y < 0xE0000"
    using low_tables_enough[OF p, of y] kmapped_frame[OF k n] that by (simp add: sh)
qed

lemma kmapped_start:
  assumes "early L s" and "kpd \<noteq> 0" and "kernel_pagedir s = kpd" and "frames_ok s" and "bs_used (frames s) = {}" and "harmless (frames s)" and "L \<le> unat v"
    and "pdirs s kpd = Some \<lparr>pd_tables = (\<lambda>_. 0), pd_tablesPhysical = (\<lambda>_. 0), pd_page = v, pd_physicalAddr = ph, pd_mappedSegs = 0\<rparr>"
  shows "kmapped L kpd 0 0 s"
  using assms by (simp add: kmapped_def)

text \<open>
  In general \<open>paging_cleanup\<close> clears a word of the bitmap with each entry of \<open>tables\<close> that it clears. The frames of these words are free afterwards, also those that hold
  the kernel or a module.
\<close>

lemma paging_cleanup_frees:
  assumes "paging_cleanup s = Some s'"
  shows "bs_used (frames s') \<inter> {8 * bitmap_bytes (frames s) ..< 8 * bitmap_bytes (frames s) + 32 * low_tables s} = {}"
proof -
  from assms obtain d where f: "frames s' = bits_over d (frames s)" "\<forall>i<low_tables s. pd_tables d i = 0"
    by (auto simp: paging_cleanup_def tables_written_def upd_pd_def Let_def the_pd_def mmu_def split: bind_splits if_splits)
  have "n \<notin> bs_used (frames s')" if n: "8 * bitmap_bytes (frames s) \<le> n" "n < 8 * bitmap_bytes (frames s) + 32 * low_tables s" for n
  proof -
    have "(n - 8 * bitmap_bytes (frames s)) div 32 < low_tables s" using n by (simp add: less_mult_imp_div_less)
    then have "pd_tables d ((n - 8 * bitmap_bytes (frames s)) div 32) = 0" using f(2) by blast
    moreover have "n div 32 < length (bits (frames s))" if "n < 32 * length (bits (frames s))" using that by (simp add: less_mult_imp_div_less)
    ultimately show ?thesis using n(1) by (auto simp: f(1) bs_used_def bits_over_def bit_word_of_bits)
  qed
  then show ?thesis by auto
qed

text \<open>The boot of the memory: before there is a heap, a process or a page table.\<close>

definition booting :: "kernel \<Rightarrow> bool" where
  "booting s \<longleftrightarrow> \<not> kheap_working s \<and> processes s = 0 \<and> freepages s = [] \<and> ptables s = Map.empty"

text \<open>Where the memory is that is taken at boot: the bitmap, the directory of the kernel behind it, the page of the directory, the page tables and the cached pages.\<close>

definition boot_memory :: "kernel \<Rightarrow> nat set" where
  "boot_memory s = {kernel_pagedir s - bitmap_bytes (frames s), kernel_pagedir s} \<union> (case pdirs s (kernel_pagedir s) of None \<Rightarrow> {} | Some d \<Rightarrow> {unat (pd_page d)})
     \<union> dom (ptables s) \<union> (\<lambda>x. unat (fst x)) ` set (freepages s)"

lemma paging_init_steps:
  assumes b: "booting s" and p: "0xE0100000 \<le> unat (mem_placementAddr s)"
    and f: "length bits0 = unat (totalRam div 0x1000) div 32" "bs_used \<lparr>bits = bits0, bsize = totalRam div 0x1000\<rparr> = {}" "unat totalRam < 0x9560000"
    and c: "(unat (mem_placementAddr s) - 0xE0000000) div 4096 + 120 \<le> 8 * (unat (totalRam div 0x1000) div 32)"
  shows "\<exists>s' m kpd. paging_init totalRam bits0 s = Some (with_low kpd s') \<and> kmapped (unat (mem_placementAddr s)) kpd m (kpages s') s' \<and> kpages s' \<le> 1024 * m \<and> kpages s' < 0x20000
     \<and> unat (mem_placementAddr s) \<le> unat (mem_placementAddr s') \<and> mbytes s' = mbytes s \<and> kpd = unat (mem_placementAddr s) + bitmap_bytes (frames s')"
proof -
  let ?sz = "totalRam div 0x1000" and ?L = "unat (mem_placementAddr s)"
  let ?p1 = "mem_placementAddr s + INDEX_FROM_BIT ?sz"
  define s1 where "s1 = s\<lparr>frames := \<lparr>bits = bits0, bsize = ?sz\<rparr>, mem_placementAddr := ?p1 + 4108, kernel_pagedir := unat ?p1\<rparr>"
  have "unat ?sz < 0x9560" using f(3) by (simp add: unat_div_u32 less_mult_imp_div_less)
  then have sz: "unat ?sz div 32 \<le> 1194" by simp
  then have i: "unat (INDEX_FROM_BIT ?sz) \<le> 1194" unfolding idx_off(1) .
  have "(?L - 0xE0000000) div 4096 \<le> 9432" using c sz by linarith
  from div_bound[OF this] have pb: "?L \<le> 0xE3000000" by simp
  have u1: "unat ?p1 = ?L + unat (INDEX_FROM_BIT ?sz)" using pb i by (subst unat_add_u32) simp_all
  have u2: "unat (?p1 + 4108) = unat ?p1 + 4108" using pb i u1 by (subst unat_add_u32) simp_all
  have e1: "early ?L s1" using b p u1 u2 by (simp add: s1_def booting_def early_def)
  have pl1: "unat (mem_placementAddr s1) = ?L + unat (INDEX_FROM_BIT ?sz) + 4108" using u1 u2 by (simp add: s1_def)
  then have "unat (mem_placementAddr s1) + 0xA000 < 2 ^ 32" using pb i by simp
  from kmalloc_page_early[OF e1 this] obtain v q cs l where
    v: "kmalloc_page s1 = Some (v, v - 0xE0000000, s1\<lparr>mem_placementAddr := q, freepages := cs, if_locks := l\<rparr>)"
       "early ?L (s1\<lparr>mem_placementAddr := q, freepages := cs, if_locks := l\<rparr>)" "early_page ?L (s1\<lparr>mem_placementAddr := q\<rparr>) v"
       "unat (mem_placementAddr s1) \<le> unat q" "unat q \<le> unat (mem_placementAddr s1) + 0xA000"
    by (elim exE conjE)
  let ?d = "\<lparr>pd_tables = (\<lambda>_. 0), pd_tablesPhysical = (\<lambda>_. 0), pd_page = v, pd_physicalAddr = v - 0xE0000000, pd_mappedSegs = 0\<rparr>"
  define s2 where "s2 = s1\<lparr>mem_placementAddr := q, freepages := cs, if_locks := l, pdirs := (pdirs s1)(unat ?p1 \<mapsto> ?d)\<rparr>"
  have e2: "early ?L s2" using v(2) by (simp add: s2_def early_def early_page_def)
  have "unat ?p1 \<noteq> 0" "?L \<le> unat v" using p u1 v(3) by (simp_all add: early_page_def)
  moreover have "harmless (frames s2)" using f sz by (simp add: s2_def s1_def harmless_def)
  ultimately have k2: "kmapped ?L (unat ?p1) 0 0 s2" using f e2 by (intro kmapped_start) (simp_all add: s2_def s1_def frames_ok_def bs_ok_def)
  have bb: "bitmap_bytes (frames s2) = unat ?sz div 32" by (simp add: s2_def s1_def bitmap_bytes_def idx_off)
  have kp: "kpages s2 \<le> (?L - 0xE0000000) div 4096 + 13"
  proof -
    have "unat q - 0xE0000000 + 4095 \<le> ?L - 0xE0000000 + 13 * 4096" using v(5) pl1 i p by linarith
    then have "kpages s2 \<le> (?L - 0xE0000000 + 13 * 4096) div 4096" unfolding kpages_def by (simp add: s2_def div_le_mono)
    then show ?thesis by simp
  qed
  then have "kpages s2 + 10 * (10 - 0) \<le> 8 * bitmap_bytes (frames s2)" "kpages s2 + 10 * (10 - 0) \<le> 0x2800" using c sz unfolding bb by linarith+
  from init_map_ok[OF k2 _ _ _ this] obtain s' m where s': "init_map 0xE0000000 s2 = Some s'" "kmapped ?L (unat ?p1) m (kpages s') s'" "kpages s' \<le> 1024 * m"
      "unat (mem_placementAddr s2) \<le> unat (mem_placementAddr s')" "kpages s' \<le> 0x2800" "mbytes s' = mbytes s" "bitmap_bytes (frames s') = bitmap_bytes (frames s2)" by (auto simp: s2_def s1_def)
  from s'(2) obtain d where d: "pdirs s' (unat ?p1) = Some d" "unat ?p1 \<noteq> 0" "kernel_pagedir s' = unat ?p1" by (auto simp: kmapped_def)
  have small: "\<not> 4 * length bits0 > bitmap_bytes (frames s1) + 4096" using sz by (simp add: f(1) s1_def bitmap_bytes_def idx_off)
  have "paging_init totalRam bits0 s = Some (with_low (unat ?p1) s')"
    using v(1) s'(1) d small writes_id(1)[OF k2]
    by (simp add: paging_init_def Let_def s1_def s2_def upd_pd_def the_pd_def pagedir_switch_def with_low_def low_pd_def tables_written_def)
  moreover have "?L \<le> unat (mem_placementAddr s')" using s'(4) v(4) pl1 by (simp add: s2_def)
  moreover have "unat ?p1 = ?L + bitmap_bytes (frames s')" using u1 s'(7) bb by (simp add: idx_off)
  ultimately show ?thesis using s'(2,3,5,6) by (intro exI[of _ s'] exI[of _ m] exI[of _ "unat ?p1"]) simp
qed

text \<open>Cleaning up restores the bitmap as well: the words that it clears were copied there from \<open>tables\<close>.\<close>

lemma cleanup_frames:
  assumes k: "kmapped L kpd m (kpages s) s" and n: "kpages s \<le> 1024 * m" "kpages s < 0x20000" and p: "0xE0100000 \<le> unat (mem_placementAddr s)"
  shows "\<exists>s'. paging_cleanup (with_low kpd s) = Some s' \<and> current_pagedir s' = kpd \<and> kernel_pagedir s' = kpd \<and> mem_placementAddr s' = mem_placementAddr s \<and> frames s' = frames s
     \<and> pdirs s' kpd = pdirs s kpd \<and> ptables s' = ptables s \<and> freepages s' = freepages s \<and> mbytes s' = mbytes s"
proof -
  from k obtain d where d: "pdirs s kpd = Some d" "kernel_pagedir s = kpd" "kpd \<noteq> 0" "\<forall>i<896. pd_tables d i = 0 \<and> pd_tablesPhysical d i = 0" "harmless (frames s)" by (auto simp: kmapped_def)
  have low: "low_tables (with_low kpd s) = low_tables s" "low_tables s < 896" using low_tables_less[OF p] d(1) by (simp_all add: low_tables_def with_low_def mmu_def)
  let ?d2 = "low_pd (low_tables s) d"
  have w: "pdirs (with_low kpd s) = (pdirs s)(kpd \<mapsto> ?d2)" "kernel_pagedir (with_low kpd s) = kpd" "current_pagedir (with_low kpd s) = kpd" "ptables (with_low kpd s) = ptables s"
     "frames (with_low kpd s) = bits_over ?d2 (frames s)" "mem_placementAddr (with_low kpd s) = mem_placementAddr s" "mbytes (with_low kpd s) = mbytes s" "freepages (with_low kpd s) = freepages s"
    using d(1,2) by (simp_all add: with_low_def mmu_def)
  have "(\<lambda>i. if i < low_tables s then 0 else pd_tables ?d2 i) = pd_tables d" "(\<lambda>i. if i < low_tables s then 0 else pd_tablesPhysical ?d2 i) = pd_tablesPhysical d"
    using d(4) low(2) by (auto simp: fun_eq_iff low_pd_def)
  then have r: "?d2\<lparr>pd_tables := (\<lambda>i. if i < low_tables s then 0 else pd_tables ?d2 i), pd_tablesPhysical := (\<lambda>i. if i < low_tables s then 0 else pd_tablesPhysical ?d2 i)\<rparr> = d"
    by (cases d) (simp only: low_pd_def page_directory.simps)
  let ?s1 = "(with_low kpd s)\<lparr>pdirs := (pdirs s)(kpd \<mapsto> d)\<rparr>"
  have u: "upd_pd kpd (\<lambda>d. d\<lparr>pd_tables := (\<lambda>i. if i < low_tables s then 0 else pd_tables d i),
            pd_tablesPhysical := (\<lambda>i. if i < low_tables s then 0 else pd_tablesPhysical d i)\<rparr>) (with_low kpd s) = Some ?s1"
    using d(3) by (simp only: upd_pd_def the_pd_def w fun_upd_same if_False Option.bind.simps r fun_upd_upd)
  have "tables_written ?s1 = Some (?s1\<lparr>frames := frames s\<rparr>)"
    using d bits_over_id[OF d(5), of d] by (simp add: tables_written_def the_pd_def w bits_over_twice)
  then have "paging_cleanup (with_low kpd s) = Some (mmu (?s1\<lparr>frames := frames s\<rparr>))"
    by (simp only: paging_cleanup_def low(1) w(2) Let_def u Option.bind.simps)
  then show ?thesis using w d(1) by (intro exI[of _ "mmu (?s1\<lparr>frames := frames s\<rparr>)"]) (simp add: mmu_def)
qed

lemma paging_init_ok:
  assumes "booting s" and "0xE0100000 \<le> unat (mem_placementAddr s)"
    and "length bits0 = unat (totalRam div 0x1000) div 32" and "bs_used \<lparr>bits = bits0, bsize = totalRam div 0x1000\<rparr> = {}" and "unat totalRam < 0x9560000"
    and "(unat (mem_placementAddr s) - 0xE0000000) div 4096 + 120 \<le> 8 * (unat (totalRam div 0x1000) div 32)"
  shows "\<exists>s1 s2 kpd d. paging_init totalRam bits0 s = Some s1 \<and> paging_cleanup s1 = Some s2
     \<and> current_pagedir s2 = kpd \<and> kernel_pagedir s2 = kpd \<and> pdirs s2 kpd = Some d \<and> unat (mem_placementAddr s) \<le> unat (mem_placementAddr s2) \<and> bs_used (frames s2) = {..<kpages s2} \<and> mbytes s2 = mbytes s
     \<and> kpd = unat (mem_placementAddr s) + bitmap_bytes (frames s2)
     \<and> (\<forall>a\<in>boot_memory s2. unat (mem_placementAddr s) \<le> a)
     \<and> (\<forall>x. hw_frame s1 kpd (0xE0000 + x) = (if x < kpages s2 then Some (of_nat x) else None) \<and> hw_frame s2 kpd (0xE0000 + x) = hw_frame s1 kpd (0xE0000 + x))
     \<and> (\<forall>x<0xE0000. hw_frame s1 kpd x = (if x < kpages s2 then Some (of_nat x) else None) \<and> hw_frame s2 kpd x = None)
     \<and> (\<forall>t. 1024 * t < kpages s2 \<longrightarrow> (\<exists>f. hw_frame s2 kpd (pd_tables d (896 + t) div 4096) = Some f \<and> pd_tablesPhysical d (896 + t) = f * 0x1000 OR 7))"
proof -
  from paging_init_steps[OF assms] obtain s' m kpd where s': "paging_init totalRam bits0 s = Some (with_low kpd s')" "kmapped (unat (mem_placementAddr s)) kpd m (kpages s') s'"
     "kpages s' \<le> 1024 * m" "kpages s' < 0x20000" "unat (mem_placementAddr s) \<le> unat (mem_placementAddr s')" "mbytes s' = mbytes s" "kpd = unat (mem_placementAddr s) + bitmap_bytes (frames s')"
    by (elim exE conjE)
  have p: "0xE0100000 \<le> unat (mem_placementAddr s')" using s'(5) assms(2) by linarith
  from cleanup_frames[OF s'(2-4) p] obtain s2 where s2: "paging_cleanup (with_low kpd s') = Some s2" "current_pagedir s2 = kpd" "kernel_pagedir s2 = kpd"
     "mem_placementAddr s2 = mem_placementAddr s'" "frames s2 = frames s'" "pdirs s2 kpd = pdirs s' kpd" "ptables s2 = ptables s'" "freepages s2 = freepages s'" "mbytes s2 = mbytes s'" by (elim exE conjE)
  have kp: "kpages s2 = kpages s'" using s2(4) by (simp add: kpages_def)
  have hf: "hw_frame s2 kpd x = hw_frame s' kpd x" for x using s2(6,7) by (simp add: hw_frame_def split: option.split)
  note l = low_frames[OF s'(2-4) p] and h = kmapped_frame[OF s'(2-4)]
  from s'(2) obtain d where d: "pdirs s' kpd = Some d" "\<forall>t<m. table_ok s' d (kpages s') t" "bs_used (frames s') = {..<kpages s'}" "unat (mem_placementAddr s) \<le> unat (pd_page d)"
    "early (unat (mem_placementAddr s)) s'" by (auto simp: kmapped_def)
  have "\<exists>f. hw_frame s2 kpd (pd_tables d (896 + t) div 4096) = Some f \<and> pd_tablesPhysical d (896 + t) = f * 0x1000 OR 7" if "1024 * t < kpages s2" for t
  proof -
    have "t < m" using that s'(3) kp by linarith
    with d(2) obtain v where v: "pd_tables d (896 + t) = unat v" "pd_tablesPhysical d (896 + t) = (v - 0xE0000000) OR 7" "0xE0000000 < unat v" "4096 dvd unat v"
      "unat v < unat (mem_placementAddr s')" unfolding table_ok_def by blast
    let ?x = "(unat v - 0xE0000000) div 4096"
    have "?x < kpages s'" using table_below[OF v(3-5)] .
    then show ?thesis using v(1,2) table_phys[OF v(3,4)] h(1)[of ?x] by (intro exI[of _ "of_nat ?x"]) (simp add: hf mult.commute)
  qed
  moreover have kq: "kpd = unat (mem_placementAddr s) + bitmap_bytes (frames s2)" using s'(7) s2(5) by simp
  moreover have "\<forall>a\<in>boot_memory s2. unat (mem_placementAddr s) \<le> a"
    using d(1,4,5) kq unfolding boot_memory_def s2(3,6-8) by (auto simp: early_def early_page_def)
  moreover have "unat (mem_placementAddr s) \<le> unat (mem_placementAddr s2)" "mbytes s2 = mbytes s" "pdirs s2 kpd = Some d" "bs_used (frames s2) = {..<kpages s2}" using s'(5,6) s2 d(1,3) kp by simp_all
  moreover have "hw_frame (with_low kpd s') kpd (0xE0000 + x) = (if x < kpages s2 then Some (of_nat x) else None)" "hw_frame s2 kpd (0xE0000 + x) = hw_frame (with_low kpd s') kpd (0xE0000 + x)" for x
    using l(1) h(1) by (simp_all add: kp hf)
  moreover have "hw_frame (with_low kpd s') kpd x = (if x < kpages s2 then Some (of_nat x) else None)" "hw_frame s2 kpd x = None" if "x < 0xE0000" for x using l(2) h(2) that by (simp_all add: kp hf)
  ultimately show ?thesis using s'(1) s2(1-3) by blast
qed


text \<open>A machine with 16 megabytes, whose kernel ends at \<^verbatim>\<open>0xE0110000\<close>.\<close>

definition boot_demo :: kernel where
  "boot_demo = (kernel0 (\<lambda>_. True) (\<lambda>_. 0))\<lparr>mem_placementAddr := 0xE0110000\<rparr>"


end
