(* ===== verification/Elf.thy ===== *)
theory Elf
  imports Vmem Process
begin

text \<open>
  The loader of program files, \<^verbatim>\<open>src/kernel/linker/elf.c\<close>. It reads a file that is in the memory of the kernel, maps a segment for every
  program header of type \<open>PT_LOAD\<close>, and copies the contents there with the address space of the new process as the current one, so that
  the copy causes the page faults which provide the frames.
\<close>

section \<open>Model\<close>

definition PT_LOAD :: u32 where "PT_LOAD = 1"
definition PF_W :: u32 where "PF_W = push_bit 1 1"

text \<open>The fields of the file header that are used, at their offsets in \<open>struct elf_ehdr\<close>.\<close>

definition e_entry :: "u32 \<Rightarrow> machine \<Rightarrow> (u32 \<times> machine) option" where "e_entry ehdr m = vld32 (ehdr + 24) m"
definition e_phoff :: "u32 \<Rightarrow> machine \<Rightarrow> (u32 \<times> machine) option" where "e_phoff ehdr m = vld32 (ehdr + 28) m"
definition e_phnum :: "u32 \<Rightarrow> machine \<Rightarrow> (u16 \<times> machine) option" where "e_phnum ehdr m = vld16 (ehdr + 44) m"

record elf_phdr =
  p_type :: u32
  p_offset :: u32
  p_vaddr :: u32
  p_paddr :: u32
  p_filesz :: u32
  p_memsz :: u32
  p_flags :: u32
  p_align :: u32

definition get_phdr :: "u32 \<Rightarrow> machine \<Rightarrow> (elf_phdr \<times> machine) option" where
  "get_phdr a m = do {
     (ty, m) \<leftarrow> vld32 a m; (off, m) \<leftarrow> vld32 (a + 4) m; (va, m) \<leftarrow> vld32 (a + 8) m; (pa, m) \<leftarrow> vld32 (a + 12) m;
     (fs, m) \<leftarrow> vld32 (a + 16) m; (mz, m) \<leftarrow> vld32 (a + 20) m; (fl, m) \<leftarrow> vld32 (a + 24) m; (al, m) \<leftarrow> vld32 (a + 28) m;
     Some (\<lparr>p_type = ty, p_offset = off, p_vaddr = va, p_paddr = pa, p_filesz = fs, p_memsz = mz, p_flags = fl, p_align = al\<rparr>, m) }"

fun same_bytes :: "u32 \<Rightarrow> u8 list \<Rightarrow> machine \<Rightarrow> (bool \<times> machine) option" where
  "same_bytes a [] m = Some (True, m)"
| "same_bytes a (x # xs) m = do { (b, m) \<leftarrow> vld8 a m; if b = x then same_bytes (a + 1) xs m else Some (False, m) }"

definition elf_check :: "u32 \<Rightarrow> machine \<Rightarrow> (u32 \<times> machine) option" where
  "elf_check data m = do {
     (b, m) \<leftarrow> same_bytes data [0x7F, 0x45, 0x4C, 0x46] m;
     Some (if b then 0 else 1, m) }"

text \<open>
  The body of the loop for one program header. Of a header with another type only the type is read; of one to load \<open>get_phdr\<close> reads
  all fields at once, before the segment is made and again after the copy, which may have changed them. The sizes are passed as \<open>int\<close> to the functions of the library.
\<close>

definition load_segment :: "u32 \<Rightarrow> u32 \<Rightarrow> ptr \<Rightarrow> machine \<Rightarrow> machine option" where
  "load_segment data ph process m = do {
     (ty, m) \<leftarrow> vld32 ph m;
     if ty = PT_LOAD then do {
       (h, m) \<leftarrow> get_phdr ph m;
       p \<leftarrow> the_proc (kern m) process;
       let (sg, k) = simpleseg_make (p_vaddr h) (p_memsz h) (p_flags h AND PF_W \<noteq> 0) (kern m);
       (_, k) \<leftarrow> seg_map sg (pagedir p) 0 k;
       m \<leftarrow> vmemcpy (p_vaddr h) (data + p_offset h) (sint (p_filesz h)) (m\<lparr>kern := k\<rparr>);
       (h, m) \<leftarrow> get_phdr ph m;
       if p_memsz h > p_filesz h then vmemset (p_vaddr h + p_memsz h) 0 (sint (p_memsz h - p_filesz h)) m else Some m }
     else Some m }"

partial_function (option) load_segments :: "u32 \<Rightarrow> u32 \<Rightarrow> ptr \<Rightarrow> nat \<Rightarrow> machine \<Rightarrow> machine option" where
  "load_segments data phdr process i m = do {
     (n, m) \<leftarrow> e_phnum data m;
     if i < unat n then do { m \<leftarrow> load_segment data (phdr + 32 * of_nat i) process m; load_segments data phdr process (Suc i) m }
     else Some m }"

definition elf_load :: "u32 \<Rightarrow> ptr \<Rightarrow> machine \<Rightarrow> (u32 \<times> machine) option" where
  "elf_load data process m = do {
     (c, m) \<leftarrow> elf_check data m;
     if c \<noteq> 0 then Some (0, m)
     else do {
       let r = current_pagedir (kern m);
       p \<leftarrow> the_proc (kern m) process;
       k \<leftarrow> pagedir_switch (pagedir p) (cli (kern m));
       (off, m) \<leftarrow> e_phoff data (m\<lparr>kern := k\<rparr>);
       m \<leftarrow> load_segments data (data + off) process 0 m;
       k \<leftarrow> pagedir_switch r (kern m);
       e_entry data (m\<lparr>kern := snd (sti k)\<rparr>) } }"

definition elf_exec :: "u32 \<Rightarrow> u32 \<Rightarrow> machine \<Rightarrow> (ptr \<times> machine) option" where
  "elf_exec data priv m = do {
     (c, m) \<leftarrow> elf_check data m;
     if c \<noteq> 0 then Some (0, m)
     else do {
       (p, k) \<leftarrow> process_new 0 0 priv (kern m);
       (e, m) \<leftarrow> elf_load data p (m\<lparr>kern := k\<rparr>);
       (_, k) \<leftarrow> thread_new p e 0 (kern m);
       Some (p, m\<lparr>kern := k\<rparr>) } }"

section \<open>Program files\<close>

text \<open>The contents of a file as a list of bytes, and what the loader reads from it.\<close>

definition le16 :: "u8 list \<Rightarrow> nat \<Rightarrow> u16" where
  "le16 img i = ucast (img ! i) OR push_bit 8 (ucast (img ! (i + 1)))"

definition le32 :: "u8 list \<Rightarrow> nat \<Rightarrow> u32" where
  "le32 img i = of_bytes (img ! i) (img ! (i + 1)) (img ! (i + 2)) (img ! (i + 3))"

definition ph_at :: "u8 list \<Rightarrow> nat \<Rightarrow> elf_phdr" where
  "ph_at img o' = \<lparr>p_type = le32 img o', p_offset = le32 img (o' + 4), p_vaddr = le32 img (o' + 8), p_paddr = le32 img (o' + 12),
     p_filesz = le32 img (o' + 16), p_memsz = le32 img (o' + 20), p_flags = le32 img (o' + 24), p_align = le32 img (o' + 28)\<rparr>"

definition phdrs :: "u8 list \<Rightarrow> elf_phdr list" where
  "phdrs img = map (\<lambda>i. ph_at img (unat (le32 img 28) + 32 * i)) [0..<unat (le16 img 44)]"

definition loads :: "u8 list \<Rightarrow> elf_phdr list" where
  "loads img = filter (\<lambda>h. p_type h = PT_LOAD) (phdrs img)"

text \<open>
  The addresses of the bytes that come from the file, and of those that the loader clears: these are not the bytes behind the ones from the file, but as
  many bytes behind the end of the segment.
\<close>

definition file_bytes :: "elf_phdr \<Rightarrow> nat set" where
  "file_bytes h = {unat (p_vaddr h)..<unat (p_vaddr h) + unat (p_filesz h)}"

definition cleared_bytes :: "elf_phdr \<Rightarrow> nat set" where
  "cleared_bytes h = {unat (p_vaddr h) + unat (p_memsz h)..<unat (p_vaddr h) + 2 * unat (p_memsz h) - unat (p_filesz h)}"

text \<open>
  The contents are in the file and the segment is in the user part of the address space. For \<open>ph_ok\<close>, what the loader clears is on the last page of the contents. This leaves out the usual
  programs with a larger area of uninitialised data, which the loader does not load: see \<open>elf_bss_faults\<close>.
\<close>

definition ph_fits :: "u8 list \<Rightarrow> elf_phdr \<Rightarrow> bool" where
  "ph_fits img h \<longleftrightarrow> unat (p_offset h) + unat (p_filesz h) \<le> length img \<and> p_filesz h \<le> p_memsz h \<and> unat (p_vaddr h) + unat (p_memsz h) \<le> 0xE0000000"

definition ph_ok :: "u8 list \<Rightarrow> elf_phdr \<Rightarrow> bool" where
  "ph_ok img h \<longleftrightarrow> ph_fits img h \<and> (p_filesz h < p_memsz h \<longrightarrow> 0 < p_filesz h \<and> (unat (p_vaddr h) + 2 * unat (p_memsz h) - unat (p_filesz h) - 1) div 4096 = (unat (p_vaddr h) + unat (p_filesz h) - 1) div 4096)"

lemmas ph_defs = ph_ok_def ph_fits_def

text \<open>A file that this loader can load: the headers are in it, and no segment overwrites the contents of an earlier one.\<close>

definition elf_ok :: "u8 list \<Rightarrow> bool" where
  "elf_ok img \<longleftrightarrow> 52 \<le> length img \<and> take 4 img = [0x7F, 0x45, 0x4C, 0x46] \<and> unat (le32 img 28) + 32 * unat (le16 img 44) \<le> length img
     \<and> (\<forall>h\<in>set (loads img). ph_ok img h)
     \<and> sorted_wrt (\<lambda>h h'. file_bytes h \<inter> (file_bytes h' \<union> cleared_bytes h') = {}) (loads img)"

definition file_pages :: "elf_phdr list \<Rightarrow> nat set" where
  "file_pages hs = (\<Union>h\<in>set hs. (\<lambda>x. x div 4096) ` file_bytes h)"

section \<open>Reading the file\<close>

lemma source_bound: "source m pd data img \<Longrightarrow> length img < 0x20000000"
  by (simp add: source_def)

lemma same_bytes_source:
  assumes "source m pd data img" and "current_pagedir (kern m) = pd"
  shows "i + length xs \<le> length img \<Longrightarrow> same_bytes (data + of_nat i) xs m = Some (take (length xs) (drop i img) = xs, m)"
proof (induction xs arbitrary: i)
  case (Cons x xs)
  have "vld8 (data + of_nat i) m = Some (img ! i, m)" using vld8_source[OF assms, of i] Cons.prems by simp
  moreover have "same_bytes (data + of_nat (Suc i)) xs m = Some (take (length xs) (drop (Suc i) img) = xs, m)" using Cons.IH[of "Suc i"] Cons.prems by simp
  moreover have "drop i img = img ! i # drop (Suc i) img" using Cons.prems by (simp add: Cons_nth_drop_Suc)
  ultimately show ?case by (simp add: add.commute add.left_commute)
qed simp

lemma elf_check_source:
  assumes "source m pd data img" and "current_pagedir (kern m) = pd" and "4 \<le> length img"
  shows "elf_check data m = Some (if take 4 img = [0x7F, 0x45, 0x4C, 0x46] then 0 else 1, m)"
  using same_bytes_source[OF assms(1,2), of 0 "[0x7F, 0x45, 0x4C, 0x46]"] assms(3) by (simp add: elf_check_def eval_nat_numeral del: same_bytes.simps)

lemma vld32_le32: "source m pd data img \<Longrightarrow> current_pagedir (kern m) = pd \<Longrightarrow> i + 4 \<le> length img \<Longrightarrow> vld32 (data + of_nat i) m = Some (le32 img i, m)"
  by (simp add: vld32_source le32_def)

lemma e_phnum_source: "source m pd data img \<Longrightarrow> current_pagedir (kern m) = pd \<Longrightarrow> 46 \<le> length img \<Longrightarrow> e_phnum data m = Some (le16 img 44, m)"
  using vld8_source[of m pd data img 44] vld8_source[of m pd data img 45] by (simp add: e_phnum_def vld16_def le16_def add.commute)

lemma get_phdr_source:
  assumes "source m pd data img" and "current_pagedir (kern m) = pd" and "i + 32 \<le> length img"
  shows "get_phdr (data + of_nat i) m = Some (ph_at img i, m)"
proof -
  have "vld32 (data + of_nat i + of_nat k) m = Some (le32 img (i + k), m)" if "k + 4 \<le> 32" for k
    using vld32_le32[OF assms(1,2), of "i + k"] assms(3) that by (simp add: add.assoc)
  from this[of 0] this[of 4] this[of 8] this[of 12] this[of 16] this[of 20] this[of 24] this[of 28]
  show ?thesis by (simp add: get_phdr_def ph_at_def)
qed

section \<open>A new segment\<close>

definition with_seg :: "ptr \<Rightarrow> page_directory \<Rightarrow> u32 \<Rightarrow> u32 \<Rightarrow> bool \<Rightarrow> kernel \<Rightarrow> kernel" where
  "with_seg pd d va mz w s = (let n = next_ptr s in s\<lparr>next_ptr := n + 3,
     segs := (segs s)(n + 1 \<mapsto> \<lparr>sg_data = SimpleSeg \<lparr>ss_writable = w, ss_start = va, ss_len = mz\<rparr>, sg_dataAt = n, sg_mappings = 1\<rparr>),
     segmaps := (segmaps s)(n + 2 \<mapsto> \<lparr>sm_seg = n + 1, sm_pagedir = pd, sm_start = va, sm_len = mz, sm_next = pd_mappedSegs d\<rparr>),
     pdirs := (pdirs s)(pd \<mapsto> d\<lparr>pd_mappedSegs := n + 2\<rparr>)\<rparr>)"

lemma make_and_map:
  assumes "the_pd s pd = Some d" and "simpleseg_make va mz w s = (sg, s1)"
  shows "seg_map sg pd 0 s1 = Some (next_ptr s + 2, with_seg pd d va mz w s)"
proof -
  have "pd \<noteq> 0" "pdirs s pd = Some d" using assms(1) by (auto simp: the_pd_def split: if_splits)
  then show ?thesis using assms(2)
    by (auto simp: simpleseg_make_def kmalloc_ptr_def seg_map_def simpleseg_map_def new_map_def upd_seg_def upd_map_def upd_pd_def deref_defs Let_def with_seg_def)
qed

lemma with_seg_fields [simp]:
  "frames (with_seg pd d va mz w s) = frames s" "freepages (with_seg pd d va mz w s) = freepages s" "kernel_pagedir (with_seg pd d va mz w s) = kernel_pagedir s"
  "kheap_working (with_seg pd d va mz w s) = kheap_working s" "ptables (with_seg pd d va mz w s) = ptables s" "mbytes (with_seg pd d va mz w s) = mbytes s"
  "current_pagedir (with_seg pd d va mz w s) = current_pagedir s" "mpresent (with_seg pd d va mz w s) = mpresent s" "procs (with_seg pd d va mz w s) = procs s"
  "pdirs (with_seg pd d va mz w s) = (pdirs s)(pd \<mapsto> d\<lparr>pd_mappedSegs := next_ptr s + 2\<rparr>)" "next_ptr (with_seg pd d va mz w s) = next_ptr s + 3"
  "segs (with_seg pd d va mz w s) = (segs s)(next_ptr s + 1 \<mapsto>
     \<lparr>sg_data = SimpleSeg \<lparr>ss_writable = w, ss_start = va, ss_len = mz\<rparr>, sg_dataAt = next_ptr s, sg_mappings = 1\<rparr>)"
  "segmaps (with_seg pd d va mz w s) = (segmaps s)(next_ptr s + 2 \<mapsto>
     \<lparr>sm_seg = next_ptr s + 1, sm_pagedir = pd, sm_start = va, sm_len = mz, sm_next = pd_mappedSegs d\<rparr>)"
  by (simp_all add: with_seg_def Let_def)

lemma hw_frame_with_seg:
  assumes "pdirs s pd = Some d"
  shows "hw_frame (with_seg pd d va mz w s) x n = hw_frame s x n" "hw_present (with_seg pd d va mz w s) x n = hw_present s x n"
  using assms by (auto simp: hw_frame_def hw_present_def split: option.split)

lemma with_seg_maps:
  assumes "simple_maps s pd ms" and "the_pd s pd = Some d"
  shows "simple_maps (with_seg pd d va mz w s) pd ((next_ptr s + 2) # ms)"
proof -
  let ?s = "with_seg pd d va mz w s"
  have pd: "pd \<noteq> 0" "pdirs s pd = Some d" using assms(2) by (auto simp: the_pd_def split: if_splits)
  have ms: "map_path (segmaps s) (pd_mappedSegs d) ms" "distinct ms" "\<And>x. x \<ge> next_ptr s \<Longrightarrow> segs s x = None \<and> segmaps s x = None" "next_ptr s \<noteq> 0"
    using assms by (auto simp: simple_maps_def maps_of_def)
  have new: "next_ptr s + 2 \<notin> set ms" using linked_known[OF ms(1)] ms(3)[of "next_ptr s + 2"] by auto
  have "maps_of ?s pd ((next_ptr s + 2) # ms)" using pd ms(1,2) new by (simp add: maps_of_def the_pd_def linked_other)
  moreover have "\<exists>sm sg ss. segmaps ?s x = Some sm \<and> sm_pagedir sm = pd \<and> the_seg ?s (sm_seg sm) = Some sg \<and> sg_data sg = SimpleSeg ss" if x: "x \<in> set ms" for x
  proof -
    obtain sm sg ss where "segmaps s x = Some sm" "sm_pagedir sm = pd" "the_seg s (sm_seg sm) = Some sg" "sg_data sg = SimpleSeg ss"
      using assms(1) x unfolding simple_maps_def by blast
    moreover have "sm_seg sm \<noteq> next_ptr s + 1" using calculation(3) ms(3)[of "next_ptr s + 1"] by (auto simp: the_seg_def split: if_splits)
    moreover have "x \<noteq> next_ptr s + 2" using new x by auto
    ultimately show ?thesis by (auto simp: the_seg_def split: if_splits)
  qed
  ultimately show ?thesis using ms(3,4) unfolding simple_maps_def by (simp add: the_seg_def)
qed

lemma new_segment_ok:
  assumes "vm_ok m pd ms P" and "the_pd (kern m) pd = Some d" and "m' = m\<lparr>kern := with_seg pd d va mz w (kern m)\<rparr>"
  shows "vm_ok m' pd ((next_ptr (kern m) + 2) # ms) P" "wrote pd {} g m m'"
proof -
  let ?s = "kern m" and ?s' = "with_seg pd d va mz w (kern m)"
  have pd: "pd \<noteq> 0" "pdirs ?s pd = Some d" using assms(2) by (auto simp: the_pd_def split: if_splits)
  note hw = hw_frame_with_seg[OF pd(2), where va = va and mz = mz and w = w]
  obtain kt t where v: "cache_ok ?s kt t" "space_ok ?s pd kt t"
     "room ?s t (2 * card {n \<in> P. hw_frame ?s pd n = None}) (card {n \<in> P. hw_frame ?s pd n = None})"
     "current_pagedir ?s = pd" "simple_maps ?s pd ms" "finite P" "\<forall>n\<in>P. n < user_pages" using assms(1) by (auto simp: vm_ok_def vm_ready_def)
  have npd: "pd \<noteq> kernel_pagedir ?s" using v(2) by (simp add: space_ok_def)
  have t: "the_pd ?s' x = (if x = pd then Some (d\<lparr>pd_mappedSegs := next_ptr ?s + 2\<rparr>) else the_pd ?s x)" for x using pd(1) by (simp add: the_pd_def)
  have "cache_ok ?s' kt t" using v(1) npd hw(2) unfolding cache_ok_def by (auto simp: t mmu_ok_def frames_ok_def frame_cap_def)
  moreover have "tables_ok ?s' (d\<lparr>pd_mappedSegs := next_ptr ?s + 2\<rparr>) kt t" using v(2) assms(2) by (auto simp: space_ok_def tables_ok_def)
  then have "space_ok ?s' pd kt t" using v(2) unfolding space_ok_def hw(1) by (simp add: t)
  moreover have "room ?s' t a b = room ?s t a b" for a b by (simp add: room_def free_fr_def frame_cap_def)
  ultimately show "vm_ok m' pd ((next_ptr (kern m) + 2) # ms) P"
    using v with_seg_maps[OF v(5) assms(2)] unfolding vm_ok_def vm_ready_def assms(3) by (auto simp: hw(1))
  have fr: "segs ?s (next_ptr ?s + 1) = None" "segmaps ?s (next_ptr ?s + 2) = None" using v(5) by (auto simp: simple_maps_def)
  have "shares_kernel ?s' r pd" if "shares_kernel ?s r pd" for r
    using that assms(2) by (cases "r = pd") (auto simp: shares_kernel_def t same_half_def)
  then have "keeps_pages pd ?s ?s'" using fr by (simp add: keeps_pages_def hw(1) map_le_def dom_def)
  then show "wrote pd {} g m m'" by (auto simp: wrote_def assms(3) hw(1))
qed

section \<open>Loading a segment\<close>

definition seg_for :: "kernel \<Rightarrow> ptr \<Rightarrow> elf_phdr \<Rightarrow> bool" where
  "seg_for s x h \<longleftrightarrow> (\<exists>sm sg. segmaps s x = Some sm \<and> sm_start sm = p_vaddr h \<and> sm_len sm = p_memsz h \<and> segs s (sm_seg sm) = Some sg
     \<and> sg_data sg = SimpleSeg \<lparr>ss_writable = (p_flags h AND PF_W \<noteq> 0), ss_start = p_vaddr h, ss_len = p_memsz h\<rparr>)"

lemma seg_for_keeps: "keeps_pages pd s s' \<Longrightarrow> seg_for s x h \<Longrightarrow> seg_for s' x h"
  unfolding keeps_pages_def seg_for_def map_le_def by (metis domI)

definition file_byte :: "u8 list \<Rightarrow> elf_phdr \<Rightarrow> nat \<Rightarrow> u8" where
  "file_byte img h x = img ! (unat (p_offset h) + (x - unat (p_vaddr h)))"

lemma sint_small: "unat w < 0x80000000 \<Longrightarrow> sint w = int (unat w)" for w :: u32
proof -
  assume a: "unat w < 0x80000000"
  have "sint w = signed_take_bit 31 (int (unat w))" by (simp add: sint_uint)
  also have "\<dots> = int (unat w)"
  proof (rule signed_take_bit_int_eq_self)
    show "- (2 ^ 31) \<le> int (unat w)" by (rule order_trans[of _ 0]) simp_all
    have "int (unat w) < int 0x80000000" using a by (simp only: of_nat_less_iff)
    then show "int (unat w) < 2 ^ 31" by simp
  qed
  finally show ?thesis .
qed

lemma covered_writable:
  assumes "segmaps (kern m) x = Some sm" and "sm_start sm = va" and "sm_len sm = mz" and "x \<in> set ms" and "unat va + unat mz \<le> 0xE0000000"
    and "n \<le> unat mz" and "(\<lambda>y. y div 4096) ` {unat va..<unat va + n} \<subseteq> P"
  shows "writable m pd ms P (unat va) (unat va + n)"
  unfolding writable_def
proof (intro conjI allI impI)
  fix y assume y: "unat va \<le> y \<and> y < unat va + n"
  then show "y div 4096 \<in> P" using assms(7) by auto
  have "unat (of_nat y :: u32) = y" "unat (va + mz) = unat va + unat mz" using y assms(5,6) by (simp_all add: unat_of_nat_u32 unat_add_u32)
  then have "covers (kern m) (of_nat y) x" using y assms(1-3,6) by (simp add: covers_def le_u32 less_u32)
  then show "reachable m pd ms (of_nat y)" using assms(4) by (auto simp: reachable_def)
qed (use assms(5,6) in simp)

text \<open>What is cleared is on the page of the last byte from the file, which has a frame then.\<close>

lemma cleared_range:
  assumes "ph_ok img h" and "p_filesz h < p_memsz h"
  shows "unat (p_vaddr h + p_memsz h) = unat (p_vaddr h) + unat (p_memsz h)"
    "cleared_bytes h = {unat (p_vaddr h + p_memsz h)..<unat (p_vaddr h + p_memsz h) + unat (p_memsz h - p_filesz h)}"
    "x \<in> cleared_bytes h \<Longrightarrow> x div 4096 = (unat (p_vaddr h) + unat (p_filesz h) - 1) div 4096" "unat (p_vaddr h) + unat (p_filesz h) - 1 \<in> file_bytes h"
    "unat (p_memsz h - p_filesz h) < 0x80000000" "unat (p_vaddr h + p_memsz h) + unat (p_memsz h - p_filesz h) \<le> 0xE0000000"
proof -
  let ?v = "unat (p_vaddr h)" and ?f = "unat (p_filesz h)" and ?z = "unat (p_memsz h)"
  have a: "?v + ?z \<le> 0xE0000000" "?f < ?z" "0 < ?f" "(?v + 2 * ?z - ?f - 1) div 4096 = (?v + ?f - 1) div 4096"
    using assms by (auto simp: ph_defs less_u32)
  show v: "unat (p_vaddr h + p_memsz h) = ?v + ?z" using a(1) by (simp add: unat_add_u32)
  have d: "unat (p_memsz h - p_filesz h) = ?z - ?f" using a(2) by (simp add: unat_sub_u32)
  show "cleared_bytes h = {unat (p_vaddr h + p_memsz h)..<unat (p_vaddr h + p_memsz h) + unat (p_memsz h - p_filesz h)}"
    unfolding v d cleared_bytes_def using a(2) by auto
  show "x div 4096 = (?v + ?f - 1) div 4096" if "x \<in> cleared_bytes h"
  proof (rule antisym)
    have "x \<le> ?v + 2 * ?z - ?f - 1" "?v + ?f - 1 \<le> x" using that a(2) by (auto simp: cleared_bytes_def)
    then show "x div 4096 \<le> (?v + ?f - 1) div 4096" "(?v + ?f - 1) div 4096 \<le> x div 4096" using a(4) div_le_mono by (metis, blast)
  qed
  show "?v + ?f - 1 \<in> file_bytes h" using a(3) by (simp add: file_bytes_def)
  define q where "q = (?v + ?f - 1) div 4096"
  have "?v + 2 * ?z - ?f - 1 < (q + 1) * 4096" "q * 4096 \<le> ?v + ?f - 1"
    using page_bounds(2)[of "?v + 2 * ?z - ?f - 1"] page_bounds(1)[of "?v + ?f - 1"] a(4) unfolding q_def by simp_all
  moreover have "q < 917504" using a(1,2) by (simp add: q_def less_mult_imp_div_less)
  ultimately show "unat (p_memsz h - p_filesz h) < 0x80000000" "unat (p_vaddr h + p_memsz h) + unat (p_memsz h - p_filesz h) \<le> 0xE0000000"
    using a(2,3) unfolding v d by auto
qed

text \<open>The copy of the contents, when the segment has been mapped, and the clearing.\<close>

lemma copy_ok:
  assumes "source m pd data img" and "vm_ok m pd ms P" and "ph_fits img h" and "x \<in> set ms" and "seg_for (kern m) x h" and "file_pages [h] \<subseteq> P"
  shows "\<exists>m'. vmemcpy (p_vaddr h) (data + p_offset h) (sint (p_filesz h)) m = Some m' \<and> vm_ok m' pd ms P \<and> wrote pd (file_bytes h) (file_byte img h) m m'"
proof -
  let ?xs = "take (unat (p_filesz h)) (drop (unat (p_offset h)) img)"
  have h: "unat (p_offset h) + unat (p_filesz h) \<le> length img" "unat (p_filesz h) \<le> unat (p_memsz h)" "unat (p_vaddr h) + unat (p_memsz h) \<le> 0xE0000000"
    using assms(3) by (auto simp: ph_fits_def le_u32)
  have src: "source m pd (data + p_offset h) ?xs" using source_sub[OF assms(1) h(1)] by simp
  have len: "length ?xs = unat (p_filesz h)" using h(1) by simp
  have sz: "sint (p_filesz h) = int (length ?xs)" using source_bound[OF assms(1)] h(1) unfolding len by (intro sint_small) simp
  obtain sm where "segmaps (kern m) x = Some sm" "sm_start sm = p_vaddr h" "sm_len sm = p_memsz h" using assms(5) by (auto simp: seg_for_def)
  then have "writable m pd ms P (unat (p_vaddr h)) (unat (p_vaddr h) + length ?xs)"
    using covered_writable[OF _ _ _ assms(4) h(3,2)] assms(6) unfolding len by (simp add: file_pages_def file_bytes_def)
  from vmemcpy_ok[OF src this assms(2)] obtain m' where m': "vmemcpy (p_vaddr h) (data + p_offset h) (sint (p_filesz h)) m = Some m'" "vm_ok m' pd ms P"
    "wrote pd {unat (p_vaddr h)..<unat (p_vaddr h) + length ?xs} (\<lambda>y. ?xs ! (y - unat (p_vaddr h))) m m'" unfolding sz by blast
  have "wrote pd (file_bytes h) (file_byte img h) m m'"
    by (rule wrote_cong[OF m'(3)]) (use len h(1) in \<open>auto simp: file_bytes_def file_byte_def\<close>)
  then show ?thesis using m'(1,2) by blast
qed

lemma clear_ok:
  assumes "vm_ok m pd ms P" and "ph_ok img h" and "p_filesz h < p_memsz h" and "file_pages [h] \<subseteq> P" and "\<forall>a\<in>file_bytes h. \<exists>p. phys_of m pd a = Some p"
  shows "\<exists>m'. vmemset (p_vaddr h + p_memsz h) 0 (sint (p_memsz h - p_filesz h)) m = Some m' \<and> vm_ok m' pd ms P \<and> wrote pd (cleared_bytes h) (\<lambda>_. 0) m m'"
proof -
  note c = cleared_range[OF assms(2,3)]
  let ?lo = "unat (p_vaddr h + p_memsz h)" and ?n = "unat (p_memsz h - p_filesz h)" and ?l = "unat (p_vaddr h) + unat (p_filesz h) - 1"
  have "writable m pd ms P ?lo (?lo + ?n)" unfolding writable_def
  proof (intro conjI allI impI)
    fix x assume "?lo \<le> x \<and> x < ?lo + ?n"
    then have x: "x div 4096 = ?l div 4096" "x < 4294967296" using c(2) c(3)[of x] c(6) by auto
    then show "x div 4096 \<in> P" using c(4) assms(4) by (auto simp: file_pages_def)
    obtain p where "phys_of m pd ?l = Some p" using assms(5) c(4) by blast
    then show "reachable m pd ms (of_nat x)" using x by (auto simp: reachable_def phys_of_def unat_of_nat_u32)
  qed (rule c(6))
  from vmemset_ok[OF this assms(1), of 0] show ?thesis using sint_small[OF c(5)] c(2) by simp
qed

lemma wrote_subset: "ph_fits img h \<Longrightarrow> file_bytes h \<subseteq> {..<user_pages * 4096}" "ph_ok img h \<Longrightarrow> cleared_bytes h \<subseteq> {..<user_pages * 4096}"
proof -
  assume "ph_fits img h"
  then show "file_bytes h \<subseteq> {..<user_pages * 4096}" by (auto simp: ph_fits_def file_bytes_def user_pages_def le_u32)
next
  assume h: "ph_ok img h"
  show "cleared_bytes h \<subseteq> {..<user_pages * 4096}"
  proof (cases "p_filesz h < p_memsz h")
    case True
    then show ?thesis using cleared_range(2,6)[OF h True] by (auto simp: user_pages_def)
  next
    case False
    then show ?thesis using h by (auto simp: cleared_bytes_def ph_defs)
  qed
qed

definition seg_byte :: "u8 list \<Rightarrow> elf_phdr \<Rightarrow> nat \<Rightarrow> u8" where
  "seg_byte img h x = (if x \<in> file_bytes h then file_byte img h x else 0)"

text \<open>Up to the point where the loader decides whether to clear something.\<close>

lemma load_until_clear:
  assumes "source m pd data img" and "vm_ok m pd ms P" and "the_proc (kern m) pr = Some p" and "pagedir p = pd"
    and "h = ph_at img i" and "i + 32 \<le> length img" and "p_type h = PT_LOAD" and "ph_fits img h" and "file_pages [h] \<subseteq> P"
  shows "\<exists>m' x. load_segment data (data + of_nat i) pr m =
       (if p_memsz h > p_filesz h then vmemset (p_vaddr h + p_memsz h) 0 (sint (p_memsz h - p_filesz h)) m' else Some m')
     \<and> vm_ok m' pd (x # ms) P \<and> wrote pd (file_bytes h) (file_byte img h) m m' \<and> seg_for (kern m') x h"
proof -
  obtain d where d: "the_pd (kern m) pd = Some d" using assms(2) by (auto simp: vm_ok_def vm_ready_def space_ok_def)
  let ?w = "p_flags h AND PF_W \<noteq> 0" and ?x = "next_ptr (kern m) + 2"
  define m1 where "m1 = m\<lparr>kern := with_seg pd d (p_vaddr h) (p_memsz h) ?w (kern m)\<rparr>"
  note n = new_segment_ok[OF assms(2) d m1_def]
  have r: "get_phdr (data + of_nat i) m' = Some (h, m')" if "wrote pd A g m m'" "vm_ok m' pd ms' P" for A g m' ms'
    using get_phdr_source[OF source_keeps[OF assms(1) that(1)] vm_current[OF that(2)] assms(6)] by (simp add: assms(5))
  have ty: "vld32 (data + of_nat i) m = Some (PT_LOAD, m)" using vld32_le32[OF assms(1) vm_current[OF assms(2)], of i] assms(5-7) by (simp add: ph_at_def)
  have s1: "seg_for (kern m1) ?x h" by (simp add: seg_for_def m1_def)
  from copy_ok[OF source_keeps[OF assms(1) n(2)] n(1) assms(8) _ s1 assms(9)] obtain m2 where
    m2: "vmemcpy (p_vaddr h) (data + p_offset h) (sint (p_filesz h)) m1 = Some m2" "vm_ok m2 pd (?x # ms) P" "wrote pd (file_bytes h) (file_byte img h) m1 m2" by auto
  have w2: "wrote pd (file_bytes h) (file_byte img h) m m2"
    by (rule wrote_cong[OF wrote_trans[OF n(2) m2(3,2)]]) (use wrote_subset(1)[OF assms(8)] in auto)
  have "load_segment data (data + of_nat i) pr m = (if p_memsz h > p_filesz h then vmemset (p_vaddr h + p_memsz h) 0 (sint (p_memsz h - p_filesz h)) m2 else Some m2)"
    using ty r[OF wrote_refl assms(2)] assms(3,4) make_and_map[OF d] r[OF w2 m2(2)] m2(1)
    by (cases "simpleseg_make (p_vaddr h) (p_memsz h) ?w (kern m)") (simp add: load_segment_def m1_def)
  moreover have "seg_for (kern m2) ?x h" using seg_for_keeps[OF _ s1] m2(3) unfolding wrote_def by blast
  ultimately show ?thesis using m2(2) w2 by blast
qed

lemma load_segment_ok:
  assumes "source m pd data img" and "vm_ok m pd ms P" and "the_proc (kern m) pr = Some p" and "pagedir p = pd"
    and "h = ph_at img i" and "i + 32 \<le> length img" and "p_type h = PT_LOAD" and "ph_ok img h" and "file_pages [h] \<subseteq> P"
  shows "\<exists>m' x. load_segment data (data + of_nat i) pr m = Some m' \<and> vm_ok m' pd (x # ms) P
     \<and> wrote pd (file_bytes h \<union> cleared_bytes h) (seg_byte img h) m m' \<and> seg_for (kern m') x h"
proof -
  have fits: "ph_fits img h" using assms(8) by (simp add: ph_ok_def)
  from load_until_clear[OF assms(1-7) fits assms(9)] obtain m2 x where
    m2: "load_segment data (data + of_nat i) pr m = (if p_memsz h > p_filesz h then vmemset (p_vaddr h + p_memsz h) 0 (sint (p_memsz h - p_filesz h)) m2 else Some m2)"
      "vm_ok m2 pd (x # ms) P" "wrote pd (file_bytes h) (file_byte img h) m m2" "seg_for (kern m2) x h" by blast
  have "\<exists>m'. load_segment data (data + of_nat i) pr m = Some m' \<and> vm_ok m' pd (x # ms) P \<and> wrote pd (cleared_bytes h) (\<lambda>_. 0) m2 m'"
  proof (cases "p_filesz h < p_memsz h")
    case True
    have "\<forall>a\<in>file_bytes h. \<exists>p. phys_of m2 pd a = Some p" using m2(3) unfolding wrote_def by blast
    from clear_ok[OF m2(2) assms(8) True assms(9) this] show ?thesis using True m2(1) by simp
  next
    case False
    then have "cleared_bytes h = {}" using assms(8) by (auto simp: cleared_bytes_def ph_defs)
    then show ?thesis using False m2(1,2) by simp
  qed
  then obtain m3 where m3: "load_segment data (data + of_nat i) pr m = Some m3" "vm_ok m3 pd (x # ms) P" "wrote pd (cleared_bytes h) (\<lambda>_. 0) m2 m3" by blast
  have dj: "file_bytes h \<inter> cleared_bytes h = {}" using assms(8) by (auto simp: ph_defs file_bytes_def cleared_bytes_def le_u32)
  have "wrote pd (file_bytes h \<union> cleared_bytes h) (seg_byte img h) m m3"
    by (rule wrote_cong[OF wrote_trans[OF m2(3) m3(3,2)]]) (use wrote_subset(1)[OF fits] wrote_subset(2)[OF assms(8)] dj in \<open>auto simp: seg_byte_def\<close>)
  moreover have "seg_for (kern m3) x h" using seg_for_keeps[OF _ m2(4)] m3(3) unfolding wrote_def by blast
  ultimately show ?thesis using m3(1,2) by blast
qed

section \<open>Loading a file\<close>

text \<open>The loop over the program headers \<open>hs\<close> that remain.\<close>

lemma load_segments_ok:
  assumes "source m0 pd data img" and "the_proc (kern m0) pr = Some p" and "pagedir p = pd" and "elf_ok img" and "file_pages (loads img) \<subseteq> P"
  shows "vm_ok m pd ms P \<Longrightarrow> wrote pd A g m0 m \<Longrightarrow> A \<subseteq> {..<user_pages * 4096} \<Longrightarrow> i \<le> unat (le16 img 44) \<Longrightarrow>
     hs = filter (\<lambda>h. p_type h = PT_LOAD) (drop i (phdrs img)) \<Longrightarrow>
     \<exists>m' xs A' g'. load_segments data (data + le32 img 28) pr i m = Some m' \<and> vm_ok m' pd (xs @ ms) P \<and> wrote pd A' g' m0 m'
       \<and> A' = A \<union> (\<Union>h\<in>set hs. file_bytes h \<union> cleared_bytes h) \<and> (\<forall>h\<in>set hs. \<forall>x\<in>file_bytes h. g' x = file_byte img h x)
       \<and> (\<forall>x. x \<notin> (\<Union>h\<in>set hs. file_bytes h \<union> cleared_bytes h) \<longrightarrow> g' x = g x) \<and> list_all2 (seg_for (kern m')) xs (rev hs)
       \<and> keeps_pages pd (kern m) (kern m')"
proof (induction "unat (le16 img 44) - i" arbitrary: i m ms A g hs)
  case 0
  have n: "e_phnum data m = Some (le16 img 44, m)"
    using e_phnum_source[OF source_keeps[OF assms(1) 0(3)] vm_current[OF 0(2)]] assms(4) by (simp add: elf_ok_def)
  have "hs = []" using 0(1,5,6) by (simp add: phdrs_def)
  then show ?case using 0 n by (intro exI[of _ m] exI[of _ "[]"] exI[of _ A] exI[of _ g]) (subst load_segments.simps, simp)
next
  case (Suc k)
  let ?L = "\<lambda>h. p_type h = PT_LOAD" and ?o = "unat (le32 img 28) + 32 * i" and ?W = "\<lambda>h. file_bytes h \<union> cleared_bytes h"
  define h where "h = ph_at img ?o"
  have i: "i < unat (le16 img 44)" "k = unat (le16 img 44) - Suc i" "Suc i \<le> unat (le16 img 44)" using Suc.hyps(2) by simp_all
  have o: "?o + 32 \<le> length img" "46 \<le> length img" using assms(4) i(1) by (auto simp: elf_ok_def)
  note src = source_keeps[OF assms(1) Suc.prems(2)] and cur = vm_current[OF Suc.prems(1)]
  have n: "e_phnum data m = Some (le16 img 44, m)" by (rule e_phnum_source[OF src cur o(2)])
  have a: "data + le32 img 28 + 32 * of_nat i = data + of_nat ?o" by (simp add: add.assoc)
  have dr: "drop i (phdrs img) = h # drop (Suc i) (phdrs img)" using i(1) by (simp add: phdrs_def h_def Cons_nth_drop_Suc[symmetric])
  define hs' where "hs' = filter ?L (drop (Suc i) (phdrs img))"
  have ld: "loads img = filter ?L (take i (phdrs img)) @ hs" unfolding loads_def Suc.prems(5) filter_append[symmetric] by simp
  have pr: "the_proc (kern m) pr = Some p" using assms(2) Suc.prems(2) by (simp add: wrote_def keeps_pages_def the_proc_def split: if_splits)
  have st: "load_segments data (data + le32 img 28) pr i m = do { m \<leftarrow> load_segment data (data + of_nat ?o) pr m; load_segments data (data + le32 img 28) pr (Suc i) m }"
    using n i(1) by (subst load_segments.simps) (simp add: a)
  show ?case
  proof (cases "?L h")
    case False
    have "load_segment data (data + of_nat ?o) pr m = Some m" using vld32_le32[OF src cur, of ?o] o(1) False by (simp add: load_segment_def h_def ph_at_def)
    moreover have "hs = hs'" using False by (simp add: Suc.prems(5) dr hs'_def)
    ultimately show ?thesis using Suc.hyps(1)[OF i(2) Suc.prems(1-3) i(3) hs'_def] st by simp
  next
    case True
    then have hs: "hs = h # hs'" by (simp add: Suc.prems(5) dr hs'_def)
    have h: "ph_ok img h" "file_pages [h] \<subseteq> P" "\<forall>h'\<in>set hs'. file_bytes h \<inter> ?W h' = {}"
      using assms(4,5) unfolding elf_ok_def ld hs by (auto simp: file_pages_def sorted_wrt_append)
    from load_segment_ok[OF src Suc.prems(1) pr assms(3) h_def o(1) True h(1,2)] obtain m1 x where
      m1: "load_segment data (data + of_nat ?o) pr m = Some m1" "vm_ok m1 pd (x # ms) P" "wrote pd (?W h) (seg_byte img h) m m1" "seg_for (kern m1) x h" by blast
    have sub: "A \<union> ?W h \<subseteq> {..<user_pages * 4096}" using Suc.prems(3) wrote_subset(1)[of img h] wrote_subset(2)[OF h(1)] h(1) by (simp add: ph_ok_def)
    let ?g = "\<lambda>a. if a \<in> ?W h then seg_byte img h a else g a"
    from Suc.hyps(1)[OF i(2) m1(2) wrote_trans[OF Suc.prems(2) m1(3,2) sub] sub i(3) hs'_def] obtain m' xs g' where
      r: "load_segments data (data + le32 img 28) pr (Suc i) m1 = Some m'" "vm_ok m' pd (xs @ x # ms) P" "wrote pd (A \<union> ?W h \<union> (\<Union>h\<in>set hs'. ?W h)) g' m0 m'"
        "\<forall>h\<in>set hs'. \<forall>x\<in>file_bytes h. g' x = file_byte img h x" "\<forall>x. x \<notin> (\<Union>h\<in>set hs'. ?W h) \<longrightarrow> g' x = ?g x"
        "list_all2 (seg_for (kern m')) xs (rev hs')" "keeps_pages pd (kern m1) (kern m')" by blast
    have "g' y = file_byte img h y" if "y \<in> file_bytes h" for y
    proof -
      have "y \<notin> (\<Union>h\<in>set hs'. ?W h)" using h(3) that by blast
      then show ?thesis using r(5) that by (simp add: seg_byte_def)
    qed
    moreover have "g' y = g y" if "y \<notin> (\<Union>h\<in>set hs. ?W h)" for y using r(5) that by (simp add: hs)
    moreover have "list_all2 (seg_for (kern m')) (xs @ [x]) (rev hs)" using r(6) seg_for_keeps[OF r(7) m1(4)] by (simp add: hs list_all2_appendI)
    moreover have "keeps_pages pd (kern m) (kern m')" using m1(3) keeps_pages_trans[OF _ r(7)] by (simp add: wrote_def)
    moreover have "A \<union> ?W h \<union> (\<Union>h\<in>set hs'. ?W h) = A \<union> (\<Union>h\<in>set hs. ?W h)" by (auto simp: hs)
    ultimately show ?thesis using st m1(1) r(1-4)
      by (intro exI[of _ m'] exI[of _ "xs @ [x]"] exI[of _ "A \<union> (\<Union>h\<in>set hs. ?W h)"] exI[of _ g']) (simp add: hs)
  qed
qed

lemma source_shared:
  assumes "source m pd a xs" and "shares_kernel (kern m) r pd"
  shows "source m r a xs"
proof -
  have "user_pages \<le> (unat a + i) div 4096" for i using assms(1) by (simp add: source_def user_pages_def less_eq_div_iff_mult_less_eq)
  then show ?thesis using assms by (simp add: source_def shares_kernel_frame)
qed

text \<open>Switching to the address space of the process, and back.\<close>

lemma switch_ok:
  assumes "vm_ready m pd ms P" and "m1 = m\<lparr>kern := mmu ((cli (kern m))\<lparr>current_pagedir := pd\<rparr>)\<rparr>"
  shows "pagedir_switch pd (cli (kern m)) = Some (kern m1)" "vm_ok m1 pd ms P" "wrote pd {} g m m1"
proof -
  define k where "k = mmu ((cli (kern m))\<lparr>current_pagedir := pd\<rparr>)"
  have f: "pdirs k = pdirs (kern m)" "ptables k = ptables (kern m)" "frames k = frames (kern m)" "freepages k = freepages (kern m)" "kernel_pagedir k = kernel_pagedir (kern m)"
    "kheap_working k = kheap_working (kern m)" "segs k = segs (kern m)" "segmaps k = segmaps (kern m)" "next_ptr k = next_ptr (kern m)" "mbytes k = mbytes (kern m)"
    "procs k = procs (kern m)" "current_pagedir k = pd" by (simp_all add: k_def mmu_def cli_def)
  have hw: "hw_frame k = hw_frame (kern m)" by (rule hw_frame_cong) (simp_all add: f)
  have t: "the_pd k = the_pd (kern m)" "the_seg k = the_seg (kern m)" using deref_cong(3,4) f by blast+
  obtain d where "the_pd (kern m) pd = Some d" using assms(1) by (auto simp: vm_ready_def space_ok_def)
  then show "pagedir_switch pd (cli (kern m)) = Some (kern m1)" by (simp add: pagedir_switch_def assms(2) the_pd_def cli_def split: if_splits)
  have "mmu_ok k" unfolding k_def by simp
  then have "cache_ok k kt t" if "cache_ok (kern m) kt t" for kt t
    using that by (auto simp: cache_ok_def f t frames_ok_def frame_cap_def)
  moreover have "space_ok k pd kt t = space_ok (kern m) pd kt t" for kt t by (simp add: space_ok_def tables_ok_def f hw t)
  moreover have "room k t a b = room (kern m) t a b" for t a b by (simp add: room_def f free_fr_def frame_cap_def)
  moreover have "simple_maps k pd ms = simple_maps (kern m) pd ms" by (simp add: simple_maps_def maps_of_def f t)
  ultimately show "vm_ok m1 pd ms P" using assms(1) unfolding vm_ok_def vm_ready_def assms(2) k_def[symmetric] by (auto simp: f hw)
  show "wrote pd {} g m m1" unfolding assms(2) k_def[symmetric] by (auto simp: wrote_def keeps_pages_def f hw shares_kernel_def t)
qed

section \<open>Properties\<close>

text \<open>
  C5. Loading a program: for a file in the memory of the kernel that is well-formed for this loader, and a process with enough memory left, \<open>elf_load\<close> returns the entry point. Well-formed means
  that the headers are in the file, that no segment overwrites contents of an earlier one, and that what the loader clears is on the last page of the contents. The process then has a
  segment for every program header to load, with its address, size and permission, and in its address space every byte
  of the contents of the file is where the program header says. No byte of the physical memory behind the user part of address spaces changes but those that
  the loader writes in the address space of the process: the contents, and the bytes behind the end of a segment
  that it clears instead of those behind the contents, which therefore keep whatever the frame held before. No byte of the memory of the kernel changes. Every frame that the process got was free.
  The address space of the caller is current again.
\<close>

theorem elf_load_correct:
  assumes "source m pd data img" and "elf_ok img" and "the_proc (kern m) pr = Some p" and "pagedir p = pd"
    and "shares_kernel (kern m) (current_pagedir (kern m)) pd" and "vm_ready m pd ms (file_pages (loads img))"
  shows "\<exists>m' xs. elf_load data pr m = Some (le32 img 24, m') \<and> current_pagedir (kern m') = current_pagedir (kern m)
     \<and> maps_of (kern m') pd (xs @ ms) \<and> list_all2 (seg_for (kern m')) xs (rev (loads img))
     \<and> (\<forall>h\<in>set (loads img). \<forall>j<unat (p_filesz h). \<exists>q. phys_of m' pd (unat (p_vaddr h) + j) = Some q \<and> ram m' q = img ! (unat (p_offset h) + j))
     \<and> (\<forall>q. ram m' q \<noteq> ram m q \<longrightarrow> (\<exists>h\<in>set (loads img). \<exists>a\<in>file_bytes h \<union> cleared_bytes h. phys_of m' pd a = Some q)) \<and> mbytes (kern m') = mbytes (kern m)
     \<and> (\<forall>n<user_pages. \<forall>f. hw_frame (kern m) pd n = None \<and> hw_frame (kern m') pd n = Some f \<longrightarrow> unat f \<notin> bs_used (frames (kern m)))"
proof -
  let ?r = "current_pagedir (kern m)"
  define m1 where "m1 = m\<lparr>kern := mmu ((cli (kern m))\<lparr>current_pagedir := pd\<rparr>)\<rparr>"
  note sw = switch_ok[OF assms(6) m1_def]
  note w1 = sw(3)[of "\<lambda>_. 0"]
  have l: "52 \<le> length img" "take 4 img = [0x7F, 0x45, 0x4C, 0x46]" using assms(2) by (auto simp: elf_ok_def)
  have c: "elf_check data m = Some (0, m)" using elf_check_source[OF source_shared[OF assms(1,5)] refl] l by simp
  have off: "e_phoff data m1 = Some (le32 img 28, m1)"
    using vld32_le32[OF source_keeps[OF assms(1) w1] vm_current[OF sw(2)], of 28] l(1) by (simp add: e_phoff_def)
  have hs: "loads img = filter (\<lambda>h. p_type h = PT_LOAD) (drop 0 (phdrs img))" by (simp add: loads_def)
  from load_segments_ok[OF assms(1,3,4,2) subset_refl sw(2) w1 _ _ hs] obtain m2 xs g where
    m2: "load_segments data (data + le32 img 28) pr 0 m1 = Some m2" "vm_ok m2 pd (xs @ ms) (file_pages (loads img))"
      "wrote pd (\<Union>h\<in>set (loads img). file_bytes h \<union> cleared_bytes h) g m m2" "\<forall>h\<in>set (loads img). \<forall>x\<in>file_bytes h. g x = file_byte img h x"
      "list_all2 (seg_for (kern m2)) xs (rev (loads img))" by auto
  have sh: "shares_kernel (kern m2) ?r pd" using m2(3) assms(5) by (simp add: wrote_def keeps_pages_def)
  then obtain dr where dr: "the_pd (kern m2) ?r = Some dr" by (auto simp: shares_kernel_def)
  define m3 where "m3 = m2\<lparr>kern := snd (sti (mmu ((kern m2)\<lparr>current_pagedir := ?r\<rparr>)))\<rparr>"
  have k: "pdirs (kern m3) = pdirs (kern m2)" "ptables (kern m3) = ptables (kern m2)" "segs (kern m3) = segs (kern m2)" "segmaps (kern m3) = segmaps (kern m2)"
    "mbytes (kern m3) = mbytes (kern m2)" "current_pagedir (kern m3) = ?r" "ram m3 = ram m2" by (simp_all add: m3_def sti_def mmu_def Let_def)
  have hw: "hw_frame (kern m3) = hw_frame (kern m2)" by (rule hw_frame_cong) (simp_all add: k)
  have "source m3 ?r data img" using source_shared[OF source_keeps[OF assms(1) m2(3)] sh] by (simp add: source_def k hw)
  then have e: "e_entry data m3 = Some (le32 img 24, m3)" using vld32_le32[OF _ k(6), of data img 24] l(1) by (simp add: e_entry_def)
  have ld: "elf_load data pr m = Some (le32 img 24, m3)"
  proof -
    have "pagedir_switch ?r (kern m2) = Some (mmu ((kern m2)\<lparr>current_pagedir := ?r\<rparr>))" using dr by (simp add: pagedir_switch_def)
    moreover have "m\<lparr>kern := kern m1\<rparr> = m1" by (simp add: m1_def)
    ultimately show ?thesis using c assms(3,4) sw(1) off m2(1) e by (simp add: elf_load_def m3_def)
  qed
  have ph: "phys_of m3 = phys_of m2" by (intro ext) (simp add: phys_of_def hw)
  have "\<exists>q. phys_of m3 pd (unat (p_vaddr h) + j) = Some q \<and> ram m3 q = img ! (unat (p_offset h) + j)" if "h \<in> set (loads img)" "j < unat (p_filesz h)" for h j
  proof -
    have x: "unat (p_vaddr h) + j \<in> file_bytes h" using that(2) by (simp add: file_bytes_def)
    then show ?thesis using m2(3,4) that(1) unfolding ph k(7) wrote_def by (fastforce simp: file_byte_def)
  qed
  moreover have "maps_of (kern m3) pd (xs @ ms)" using m2(2) deref_cong(3)[OF k(1)] by (simp add: vm_ok_def vm_ready_def simple_maps_def maps_of_def k)
  moreover have "seg_for (kern m3) = seg_for (kern m2)" by (intro ext) (simp add: seg_for_def k)
  moreover have "mbytes (kern m3) = mbytes (kern m)" using m2(3) k(5) by (simp add: wrote_def keeps_pages_def)
  ultimately show ?thesis using ld m2(3,5) k(6,7) ph unfolding wrote_def by (intro exI[of _ m3] exI[of _ xs]) (auto simp: hw)
qed

text \<open>
  A file without the magic number is refused: \<open>elf_load\<close> and \<open>elf_exec\<close> return null and nothing changes.
\<close>

theorem elf_bad_magic:
  assumes "source m (current_pagedir (kern m)) data img" and "4 \<le> length img" and "take 4 img \<noteq> [0x7F, 0x45, 0x4C, 0x46]"
  shows "elf_load data pr m = Some (0, m) \<and> elf_exec data priv m = Some (0, m)"
  using elf_check_source[OF assms(1) refl assms(2)] assms(3) by (simp add: elf_load_def elf_exec_def)

text \<open>A write to a page without a frame and outside of all segments is a fault that is not handled.\<close>

lemma vset_outside:
  assumes "vm_ok m pd ms P" and "hw_frame (kern m) pd (unat a div 4096) = None" and "\<forall>x\<in>set ms. \<not> covers (kern m) a x" and "0 < n"
  shows "vmemset a v n m = None"
proof -
  have "maps_of (kern m) (current_pagedir (kern m)) ms" "current_pagedir (kern m) = pd" using assms(1) by (auto simp: vm_ok_def vm_ready_def simple_maps_def)
  then have "vst8 a v m = None" using fault_outside[OF _ assms(3), of 2 "0xE0000000"] assms(2) by (simp add: vst8_def access_def)
  then show ?thesis using assms(4) by (cases "nat n") (simp_all add: vmemset_def)
qed

text \<open>
  C24. The loader does not clear the part of a segment behind the contents from the file but as many bytes behind the end of the segment: if the segment of the first program header ends at a
  page boundary, is not filled by the contents, and nothing is mapped behind it, loading ends in an unhandled page fault of the kernel.
\<close>

theorem elf_bss_faults:
  assumes "source m pd data img" and "52 \<le> length img" and "take 4 img = [0x7F, 0x45, 0x4C, 0x46]" and "0 < le16 img 44" and "unat (le32 img 28) + 32 \<le> length img"
    and "h = ph_at img (unat (le32 img 28))" and "p_type h = PT_LOAD" and "unat (p_offset h) + unat (p_filesz h) \<le> length img"
    and "p_filesz h < p_memsz h" and "p_memsz h - p_filesz h < 0x80000000" and "unat (p_vaddr h) + unat (p_memsz h) < 0xE0000000" and "4096 dvd unat (p_vaddr h) + unat (p_memsz h)"
    and "the_proc (kern m) pr = Some p" and "pagedir p = pd" and "shares_kernel (kern m) (current_pagedir (kern m)) pd" and "vm_ready m pd ms (file_pages [h])"
    and "hw_frame (kern m) pd ((unat (p_vaddr h) + unat (p_memsz h)) div 4096) = None" and "\<forall>x\<in>set ms. \<not> covers (kern m) (p_vaddr h + p_memsz h) x"
  shows "elf_load data pr m = None"
proof -
  let ?e = "unat (p_vaddr h) + unat (p_memsz h)" and ?a = "p_vaddr h + p_memsz h"
  define m1 where "m1 = m\<lparr>kern := mmu ((cli (kern m))\<lparr>current_pagedir := pd\<rparr>)\<rparr>"
  note sw = switch_ok[OF assms(16) m1_def] and w1 = switch_ok(3)[OF assms(16) m1_def, of "\<lambda>_. 0"]
  note src = source_keeps[OF assms(1) w1] and cur = vm_current[OF sw(2)]
  have c: "elf_check data m = Some (0, m)" using elf_check_source[OF source_shared[OF assms(1,15)] refl] assms(2,3) by simp
  have off: "e_phoff data m1 = Some (le32 img 28, m1)" using vld32_le32[OF src cur, of 28] assms(2) by (simp add: e_phoff_def)
  have n: "e_phnum data m1 = Some (le16 img 44, m1)" using e_phnum_source[OF src cur] assms(2) by simp
  have pr: "the_proc (kern m1) pr = Some p" using assms(13) by (simp add: m1_def mmu_def cli_def the_proc_def)
  have fits: "ph_fits img h" using assms(8,9,11) by (simp add: ph_fits_def)
  from load_until_clear[OF src sw(2) pr assms(14,6,5,7) fits subset_refl] assms(9) obtain m2 x where
    m2: "load_segment data (data + le32 img 28) pr m1 = vmemset ?a 0 (sint (p_memsz h - p_filesz h)) m2" "vm_ok m2 pd (x # ms) (file_pages [h])"
      "wrote pd (file_bytes h) (file_byte img h) m1 m2" "seg_for (kern m2) x h" by auto
  have ua: "unat ?a = ?e" using assms(11) by (simp add: unat_add_u32)
  have pg: "y div 4096 \<noteq> ?e div 4096" if "y \<in> file_bytes h" for y
  proof -
    have "y < ?e div 4096 * 4096" using that assms(9,12) by (auto simp: file_bytes_def less_u32)
    then show ?thesis by (simp add: div_less_iff_less_mult less_imp_neq)
  qed
  have w: "wrote pd (file_bytes h) (file_byte img h) m m2"
    by (rule wrote_cong[OF wrote_trans[OF w1 m2(3,2)]]) (use wrote_subset(1)[OF fits] in auto)
  have "hw_frame (kern m2) pd (unat ?a div 4096) = None"
  proof (rule ccontr)
    assume "hw_frame (kern m2) pd (unat ?a div 4096) \<noteq> None"
    moreover have "?e div 4096 < user_pages" using assms(11) by (simp add: user_pages_def less_mult_imp_div_less)
    ultimately have "?e div 4096 \<in> (\<lambda>a. a div 4096) ` file_bytes h" using w assms(17) unfolding wrote_def ua by blast
    then obtain y where "y \<in> file_bytes h" "?e div 4096 = y div 4096" by blast
    then show False using pg[of y] by argo
  qed
  moreover have "\<not> covers (kern m2) ?a y" if "y \<in> set (x # ms)" for y
  proof (cases "y = x")
    case True
    then show ?thesis using m2(4) by (auto simp: seg_for_def covers_def)
  next
    case False
    then have "y \<in> set ms" using that by simp
    then obtain sm where "segmaps (kern m) y = Some sm" using assms(16) unfolding vm_ready_def simple_maps_def by blast
    moreover from this have "segmaps (kern m2) y = Some sm" using w by (auto simp: wrote_def keeps_pages_def map_le_def dom_def)
    ultimately show ?thesis using False that assms(18) by (auto simp: covers_def)
  qed
  moreover have "0 < sint (p_memsz h - p_filesz h)"
  proof -
    have d: "0 < unat (p_memsz h - p_filesz h)" "unat (p_memsz h - p_filesz h) < 0x80000000" using assms(9,10) by (simp_all add: less_u32 unat_sub_u32)
    then show ?thesis unfolding sint_small[OF d(2)] by (simp only: of_nat_0_less_iff)
  qed
  ultimately have "load_segments data (data + le32 img 28) pr 0 m1 = None"
    using vset_outside[OF m2(2)] m2(1) n assms(4) by (subst load_segments.simps) (simp add: word_less_nat_alt)
  then show ?thesis using c assms(13,14) sw(1) off by (simp add: elf_load_def m1_def)
qed

section \<open>Examples\<close>

text \<open>A file with four bytes of contents for the address \<^verbatim>\<open>0x10000000\<close>; \<open>a\<close> and \<open>b\<close> are the lower bytes of the size of the segment.\<close>

definition elf_image :: "u8 \<Rightarrow> u8 \<Rightarrow> u8 list" where
  "elf_image a b = [0x7F, 0x45, 0x4C, 0x46] @ replicate 20 0 @ [0, 0, 0, 0x10, 52, 0, 0, 0] @ replicate 12 0 @ [1, 0] @ replicate 6 0
     @ [1, 0, 0, 0, 84, 0, 0, 0, 0, 0, 0, 0x10, 0, 0, 0, 0, 4, 0, 0, 0, a, b, 0, 0, 5, 0, 0, 0, 0, 0, 0, 0] @ [0xDE, 0xAD, 0xBE, 0xEF]"

definition elf_dir :: page_directory where
  "elf_dir = \<lparr>pd_tables = (\<lambda>_. 0)(896 := 6, 1023 := 5), pd_tablesPhysical = (\<lambda>_. 0)(896 := 0x6007, 1023 := 0x5007), pd_page = 0, pd_physicalAddr = 0x1000, pd_mappedSegs = 0\<rparr>"

definition elf_top :: "nat \<Rightarrow> page" where
  "elf_top = (\<lambda>j. if 1019 \<le> j then cached_page (of_nat j) else \<lparr>pg_present = False, pg_rw = False, pg_user = False, pg_frame = 0\<rparr>)"

definition elf_kernel :: "u8 list \<Rightarrow> kernel" where
  "elf_kernel img = mmu ((kernel0 (\<lambda>_. False) (\<lambda>_. 0))\<lparr>mbytes := (\<lambda>a. if 0xE0000000 \<le> a \<and> a < 0xE0000000 + length img then img ! (a - 0xE0000000) else 0),
     kheap_working := True, kernel_pagedir := 10, current_pagedir := 10, pdirs := [10 \<mapsto> elf_dir, 11 \<mapsto> elf_dir],
     ptables := [5 \<mapsto> elf_top, 6 \<mapsto> (\<lambda>j. cached_page (of_nat j))], frames := \<lparr>bits = [- 1, 0], bsize = 64\<rparr>,
     freepages := map (\<lambda>j. (top_page j, 0x1000 * of_nat j)) [1019..<1024], next_ptr := 30,
     procs := [1 \<mapsto> blank_process 1 0 2 0 11 0 0]\<rparr>)"

definition elf_machine :: "u8 list \<Rightarrow> machine" where
  "elf_machine img = \<lparr>kern = elf_kernel img, ram = (\<lambda>_. 0xAA)\<rparr>"

lemma elf_kernel_fields [simp]:
  "kern (elf_machine img) = elf_kernel img"
  "pdirs (elf_kernel img) = [10 \<mapsto> elf_dir, 11 \<mapsto> elf_dir]" "ptables (elf_kernel img) = [5 \<mapsto> elf_top, 6 \<mapsto> (\<lambda>j. cached_page (of_nat j))]"
  "frames (elf_kernel img) = \<lparr>bits = [- 1, 0], bsize = 64\<rparr>" "freepages (elf_kernel img) = map (\<lambda>j. (top_page j, 0x1000 * of_nat j)) [1019..<1024]"
  "kernel_pagedir (elf_kernel img) = 10" "current_pagedir (elf_kernel img) = 10" "kheap_working (elf_kernel img)" "next_ptr (elf_kernel img) = 30" "mmu_ok (elf_kernel img)"
  "segs (elf_kernel img) = Map.empty" "segmaps (elf_kernel img) = Map.empty" "procs (elf_kernel img) = [1 \<mapsto> blank_process 1 0 2 0 11 0 0]"
  "mbytes (elf_kernel img) = (\<lambda>a. if 0xE0000000 \<le> a \<and> a < 0xE0000000 + length img then img ! (a - 0xE0000000) else 0)"
  by (simp_all add: elf_kernel_def elf_machine_def) (simp_all add: mmu_def kernel0_def)

lemma elf_free_top: "free_top elf_top = {..<1019}"
proof -
  have "(of_nat j :: u32) \<noteq> 0" if "1019 \<le> j" "j < 1024" for j
  proof
    assume "(of_nat j :: u32) = 0"
    then show False using that unat_of_nat_u32[of j] by simp
  qed
  then show ?thesis by (force simp: free_top_def elf_top_def cached_page_def not_le)
qed

lemma elf_kernel_used: "bs_used (frames (elf_kernel img)) = {..<32}" "frame_cap (elf_kernel img) = 64" "frames_ok (elf_kernel img)" "card (free_fr (elf_kernel img)) = 32"
proof -
  have "n < 64 \<Longrightarrow> bit ([- 1 :: u32, 0] ! (n div 32)) (n mod 32) \<longleftrightarrow> n < 32" for n
    by (cases "n < 32") (auto simp: nth_Cons' div_eq_0_iff)
  then show u: "bs_used (frames (elf_kernel img)) = {..<32}" by (auto simp: bs_used_def)
  show "frame_cap (elf_kernel img) = 64" "frames_ok (elf_kernel img)" by (simp_all add: frame_cap_def frames_ok_def bs_ok_def)
  then show "card (free_fr (elf_kernel img)) = 32" unfolding free_fr_def u by (simp add: card_Diff_subset)
qed

lemma elf_kernel_frames: "hw_frame (elf_kernel img) 11 n = (if n div 1024 = 896 then Some (of_nat (n mod 1024)) else
     if n div 1024 = 1023 \<and> 1019 \<le> n mod 1024 then Some (of_nat (n mod 1024)) else None)"
  by (auto simp: hw_frame_def elf_dir_def elf_top_def cached_page_def bit_numeral_rec)

lemma elf_kernel_cache: "cache_ok (elf_kernel img) 5 elf_top"
proof -
  have t: "unat (top_page j) \<noteq> 5" if "j < 1024" for j using unat_top_page[OF that] by simp
  have d: "distinct (map top_page [1019..<1024])" by (auto simp: distinct_map inj_on_def top_page_inj)
  have f: "fst ` set (freepages (elf_kernel img)) = top_page ` {1019..<1024}" by (simp only: elf_kernel_fields set_map set_upt image_image fst_conv)
  then have "\<forall>v\<in>fst ` set (freepages (elf_kernel img)). \<exists>j<1024. v = top_page j \<and> j \<notin> {..<1019} \<and> 5 \<noteq> unat v" using t unfolding f by force
  moreover have "distinct (map fst (freepages (elf_kernel img)))" using d by (simp add: comp_def)
  moreover have "\<forall>j\<in>{..<1019}. \<not> pg_present (elf_top j) \<and> 5 \<noteq> unat (top_page j)" using t by (auto simp: elf_top_def)
  moreover have "0 \<in> bs_used (frames (elf_kernel img))" unfolding elf_kernel_used by simp
  ultimately show ?thesis unfolding cache_ok_def elf_free_top elf_kernel_used(2)
    using elf_kernel_used(3) by (simp add: the_pd_def elf_dir_def)
qed

lemma elf_kernel_space: "space_ok (elf_kernel img) 11 5 elf_top"
proof -
  have "unat (top_page j) \<noteq> 5 \<and> unat (top_page j) \<noteq> 6" if "j < 1024" for j using unat_top_page[OF that] by simp
  then have "tables_ok (elf_kernel img) elf_dir 5 elf_top" unfolding tables_ok_def elf_free_top by (auto simp: elf_dir_def split: if_splits)
  moreover have "hw_frame (elf_kernel img) 11 n = None" if "n < user_pages" for n
  proof -
    have "n div 1024 < 896" using that by (simp add: user_pages_def less_mult_imp_div_less)
    then show ?thesis by (simp add: elf_kernel_frames)
  qed
  ultimately show ?thesis by (simp add: space_ok_def the_pd_def)
qed

lemma elf_machine_ready: "finite P \<Longrightarrow> \<forall>n\<in>P. n < user_pages \<Longrightarrow> card P \<le> 16 \<Longrightarrow> vm_ready (elf_machine img) 11 [] P"
proof -
  assume P: "finite P" "\<forall>n\<in>P. n < user_pages" "card P \<le> 16"
  have "card {n \<in> P. hw_frame (elf_kernel img) 11 n = None} \<le> card P" using P(1) by (intro card_mono) auto
  then have "room (elf_kernel img) elf_top (2 * card {n \<in> P. hw_frame (elf_kernel img) 11 n = None}) (card {n \<in> P. hw_frame (elf_kernel img) 11 n = None})"
    using P(3) by (simp add: room_def elf_free_top elf_kernel_used)
  moreover have "simple_maps (elf_kernel img) 11 []" by (simp add: simple_maps_def maps_of_def the_pd_def elf_dir_def)
  ultimately show ?thesis using P(1,2) elf_kernel_cache elf_kernel_space unfolding vm_ready_def elf_kernel_fields(1) by blast
qed

lemma elf_machine_source:
  assumes "length img \<le> 4096"
  shows "source (elf_machine img) 11 0xE0000000 img" "shares_kernel (kern (elf_machine img)) (current_pagedir (kern (elf_machine img))) 11"
    "the_proc (kern (elf_machine img)) 1 = Some (blank_process 1 0 2 0 11 0 0)"
proof -
  have "(0xE0000000 + i) div 4096 div 1024 = 896" if "i < 4096" for i :: nat using that by simp
  then show "source (elf_machine img) 11 0xE0000000 img" using assms by (auto simp: source_def elf_kernel_frames)
qed (simp_all add: shares_kernel_def the_pd_def same_half_def the_proc_def)

lemma elf_image_parts:
  "length (elf_image a b) = 88" "take 4 (elf_image a b) = [0x7F, 0x45, 0x4C, 0x46]" "le16 (elf_image a b) 44 = 1" "le32 (elf_image a b) 28 = 52" "le32 (elf_image a b) 24 = 0x10000000"
  "ph_at (elf_image a b) 52 = \<lparr>p_type = 1, p_offset = 84, p_vaddr = 0x10000000, p_paddr = 0, p_filesz = 4, p_memsz = of_bytes a b 0 0, p_flags = 5, p_align = 0\<rparr>"
  "drop 84 (elf_image a b) = [0xDE, 0xAD, 0xBE, 0xEF]"
  by (simp_all add: elf_image_def le16_def le32_def ph_at_def of_bytes_def nth_append nth_Cons' push_bit_eq_mult)

lemma elf_image_loads: "loads (elf_image a b) = [ph_at (elf_image a b) 52]"
  by (simp add: loads_def phdrs_def elf_image_parts(3,4)) (simp add: elf_image_parts PT_LOAD_def)

lemma elf_image_pages: "file_pages [ph_at (elf_image a b) 52] = {65536}"
proof -
  have "x div 4096 = 65536" if "268435456 \<le> x" "x < 268435460" for x :: nat
  proof (rule antisym)
    show "x div 4096 \<le> 65536" using that div_le_mono[of x 268435459 4096] by simp
    show "65536 \<le> x div 4096" using that div_le_mono[of 268435456 x 4096] by simp
  qed
  then show ?thesis by (force simp: file_pages_def file_bytes_def elf_image_parts image_iff)
qed

lemma elf_image_sizes: "of_bytes 4 0 0 0 = 4" "of_bytes 0 0x10 0 0 = 0x1000"
  by (simp_all add: of_bytes_def push_bit_eq_mult)

theorem elf_load_correct_witness:
  "\<exists>m' q. elf_load 0xE0000000 1 (elf_machine (elf_image 4 0)) = Some (0x10000000, m') \<and> phys_of m' 11 0x10000002 = Some q \<and> ram m' q = 0xBE"
proof -
  let ?i = "elf_image 4 0" and ?h = "ph_at (elf_image 4 0) 52"
  have l: "length ?i \<le> 4096" by (simp add: elf_image_parts)
  have ok: "elf_ok ?i" unfolding elf_ok_def elf_image_loads
    by (simp add: elf_image_parts ph_defs elf_image_sizes le_u32 less_u32)
  have r: "vm_ready (elf_machine ?i) 11 [] (file_pages (loads ?i))"
    unfolding elf_image_loads elf_image_pages by (rule elf_machine_ready) (simp_all add: user_pages_def)
  have pd: "pagedir (blank_process 1 0 2 0 11 0 0) = 11" by (simp add: blank_process_def)
  from elf_load_correct[OF elf_machine_source(1)[OF l] ok elf_machine_source(3)[OF l] pd elf_machine_source(2)[OF l] r] obtain m' where
    m': "elf_load 0xE0000000 1 (elf_machine ?i) = Some (le32 ?i 24, m')"
      "\<forall>h\<in>set (loads ?i). \<forall>j<unat (p_filesz h). \<exists>q. phys_of m' 11 (unat (p_vaddr h) + j) = Some q \<and> ram m' q = ?i ! (unat (p_offset h) + j)" by blast
  have "\<exists>q. phys_of m' 11 (unat (p_vaddr ?h) + 2) = Some q \<and> ram m' q = ?i ! (unat (p_offset ?h) + 2)"
    using m'(2) by (simp only: elf_image_loads) (drule bspec[where x = ?h], simp, drule spec[where x = 2], simp add: elf_image_parts)
  moreover have "?i ! 86 = 0xBE" by (simp add: elf_image_def nth_append nth_Cons')
  ultimately show ?thesis using m'(1) by (auto simp: elf_image_parts)
qed

theorem elf_bss_faults_witness: "elf_load 0xE0000000 1 (elf_machine (elf_image 0 0x10)) = None"
proof -
  let ?i = "elf_image 0 0x10"
  have l: "length ?i \<le> 4096" by (simp add: elf_image_parts)
  have r: "vm_ready (elf_machine ?i) 11 [] (file_pages [ph_at ?i (unat (le32 ?i 28))])"
    by (simp only: elf_image_parts(4)) (simp add: elf_image_pages elf_machine_ready user_pages_def)
  have pd: "pagedir (blank_process 1 0 2 0 11 0 0) = 11" by (simp add: blank_process_def)
  show ?thesis
    by (rule elf_bss_faults[where ms = "[]", OF elf_machine_source(1)[OF l] _ _ _ _ refl _ _ _ _ _ _ elf_machine_source(3)[OF l] pd elf_machine_source(2)[OF l] r])
      (simp_all add: elf_image_parts elf_image_sizes PT_LOAD_def elf_kernel_frames)
qed

end
