(* ===== verification/Boot.thy ===== *)
theory Boot
  imports EarlyPaging Elf Idt Timer Gdt KHeap Strings
begin

text \<open>
  Start and stop of the machine: \<open>kmain\<close> of \<^verbatim>\<open>src/kernel/core/kmain.c\<close>, with the structures of the boot loader in \<^verbatim>\<open>src/kernel/core/multiboot.h\<close>, and the functions of
  \<^verbatim>\<open>src/kernel/core/sys.c\<close> that report a panic. \<open>kmain\<close> composes the initialisers of the other theories; the messages that they print, and that their own definitions leave out, are
  printed here.

  Theorems: the modules are not overwritten by memory that the kernel takes, and can be read at their addresses when paging is on; what a panic prints.
\<close>

section \<open>Model\<close>

subsection \<open>Panics\<close>

text \<open>The memory \<open>s\<close> holds the stacks; a frame has the address of the next one and the return address.\<close>

fun trace_loop :: "nat \<Rightarrow> u32 \<Rightarrow> u32 \<Rightarrow> 'a cmem_scheme \<Rightarrow> monitor \<Rightarrow> monitor option" where
  "trace_loop 0 bp stack s m = Some m"
| "trace_loop (Suc n) bp stack s m = (
     if stack > 0xE0000000 \<and> stack < bp + 0x8000 then do {
       m \<leftarrow> monitor_write (lit '' '') m;
       m \<leftarrow> monitor_writeHex stack m;
       m \<leftarrow> monitor_write ([9] @ lit ''next:'') m;
       nxt \<leftarrow> ld32 s stack;
       m \<leftarrow> monitor_writeHex nxt m;
       m \<leftarrow> monitor_write ([9, 9] @ lit ''ret:'') m;
       ret \<leftarrow> ld32 s (stack + 4);
       m \<leftarrow> monitor_writeHex ret m;
       m \<leftarrow> monitor_write [10] m;
       trace_loop n bp nxt s m }
     else Some m)"

definition stack_trace :: "u32 \<Rightarrow> 'a cmem_scheme \<Rightarrow> monitor \<Rightarrow> monitor option" where
  "stack_trace bp s m = trace_loop 5 bp bp s m"

text \<open>The processor stops at the end; \<open>bp\<close> is its register.\<close>

definition panic_do :: "u8 list \<Rightarrow> u32 \<Rightarrow> u32 \<Rightarrow> 'a cmem_scheme \<Rightarrow> monitor \<Rightarrow> monitor option" where
  "panic_do file line bp s m = do {
     m \<leftarrow> monitor_write ([10] @ lit '' File:'' @ [9, 9]) m;
     m \<leftarrow> monitor_write file m;
     m \<leftarrow> monitor_put (of_char CHR '':'') m;
     m \<leftarrow> monitor_writeDec line m;
     m \<leftarrow> monitor_write ([10] @ lit ''Trace:'' @ [10]) m;
     m \<leftarrow> stack_trace bp s m;
     monitor_write ([10, 9, 9] @ lit ''System halted -_-'' @ [39, 10]) m }"

definition panic :: "u8 list \<Rightarrow> u8 list \<Rightarrow> u32 \<Rightarrow> u32 \<Rightarrow> 'a cmem_scheme \<Rightarrow> monitor \<Rightarrow> monitor option" where
  "panic message file line bp s m = do {
     m \<leftarrow> monitor_write ([10, 10] @ lit ''PANIC:'' @ [9, 9]) m;
     m \<leftarrow> monitor_write message m;
     panic_do file line bp s m }"

definition panic_assert :: "u8 list \<Rightarrow> u8 list \<Rightarrow> u32 \<Rightarrow> u32 \<Rightarrow> 'a cmem_scheme \<Rightarrow> monitor \<Rightarrow> monitor option" where
  "panic_assert assertion file line bp s m = do {
     m \<leftarrow> monitor_write ([10, 10] @ lit ''ASSERT FAILED:'' @ [9]) m;
     m \<leftarrow> monitor_write assertion m;
     panic_do file line bp s m }"

subsection \<open>Structures of the boot loader\<close>

definition MULTIBOOT_BOOTLOADER_MAGIC :: u32 where "MULTIBOOT_BOOTLOADER_MAGIC = 0x2BADB002"

record multiboot_info =
  mb_flags :: u32
  mem_lower :: u32
  mem_upper :: u32
  boot_device :: u32
  cmdline :: u32
  mods_count :: u32
  mods_addr :: u32
  mb_u :: "u32 list"
  mmap_length :: u32
  mmap_addr :: u32

record module_t =
  mod_start :: u32
  mod_end :: u32
  mod_string :: u32
  mod_reserved :: u32

text \<open>The machine with the screen, the tables of the processor, the kernel heap, and the structures of the boot loader: \<open>mods\<close> is the array at \<open>mods_addr\<close>.\<close>

record boot =
  mon :: monitor
  mach :: machine
  idt :: "idt_entry list"
  the_gdt :: gdt
  kheap :: heap
  mbd :: multiboot_info
  mods :: "module_t list"

subsection \<open>The main function\<close>

definition moved :: "module_t \<Rightarrow> module_t" where
  "moved x = x\<lparr>mod_start := mod_start x + 0xE0000000, mod_end := mod_end x + 0xE0000000, mod_string := mod_string x + 0xE0000000\<rparr>"

fun reloc_loop :: "nat \<Rightarrow> nat \<Rightarrow> module_t list \<Rightarrow> u32 \<Rightarrow> (module_t list \<times> u32) option" where
  "reloc_loop i 0 ms place = Some (ms, place)"
| "reloc_loop i (Suc n) ms place = (
     if i < length ms then
       (let x = moved (ms ! i); place = (if mod_end x > place then (mod_end x AND 0xFFFFF000) + 0x1000 else place) in
        reloc_loop (Suc i) n (ms[i := x]) place)
     else None)"

text \<open>
  The addresses \<open>kend\<close> (the end of the kernel), \<open>isr\<close>, \<open>irq\<close>, \<open>sc\<close> (the entry stubs) and \<open>idle\<close> come from the linker; \<open>bits0\<close> is what the memory for the bitmap of frames contains.
  The first part of \<open>kmain\<close>, until paging and segments are set up:
\<close>

definition kmain_start :: "u32 \<Rightarrow> (nat \<Rightarrow> u32) \<Rightarrow> (nat \<Rightarrow> u32) \<Rightarrow> u32 \<Rightarrow> u32 list \<Rightarrow> u32 \<Rightarrow> boot \<Rightarrow> boot option" where
  "kmain_start kend isr irq sc bits0 magic b = do {
     m \<leftarrow> monitor_clear (mon b);
     if magic \<noteq> MULTIBOOT_BOOTLOADER_MAGIC then None
     else do {
       let mb = (mbd b)\<lparr>cmdline := cmdline (mbd b) + 0xE0000000, mods_addr := mods_addr (mbd b) + 0xE0000000\<rparr>;
       (ms, place) \<leftarrow> reloc_loop 0 (unat (mods_count mb)) (mods b) kend;
       let k = (kern (mach b))\<lparr>mem_placementAddr := place\<rparr>;
       m \<leftarrow> monitor_write (lit ''Grapes 0.0.4 'Cat in my heart' starting up :'' @ [10]) m;
       (es, m, k) \<leftarrow> idt_init isr irq sc m k;
       let totalRam = (mem_upper mb + mem_lower mb) * 1024;
       k \<leftarrow> paging_init totalRam bits0 k;
       pd \<leftarrow> the_pd k (kernel_pagedir k);
       m \<leftarrow> monitor_write (lit ''{PD: '') m;
       m \<leftarrow> monitor_writeHex (pd_physicalAddr pd) m;
       m \<leftarrow> monitor_write (lit ''} [Paging] '') m;
       g \<leftarrow> gdt_init (the_gdt b);
       m \<leftarrow> monitor_write (lit ''[GDT] '') m;
       k \<leftarrow> paging_cleanup k;
       m \<leftarrow> monitor_write (lit ''[PD Cleanup] '') m;
       Some (b\<lparr>mon := m, mach := (mach b)\<lparr>kern := k\<rparr>, idt := es, the_gdt := g, mbd := mb, mods := ms\<rparr>) } }"

text \<open>The loop that starts the modules.\<close>

fun load_modules :: "nat \<Rightarrow> nat \<Rightarrow> module_t list \<Rightarrow> machine \<Rightarrow> monitor \<Rightarrow> (machine \<times> monitor) option" where
  "load_modules i 0 ms x m = Some (x, m)"
| "load_modules i (Suc n) ms x m = (
     if i < length ms then do {
       m \<leftarrow> monitor_write (lit '' * '') m;
       cs \<leftarrow> string_at (kern x) (mod_string (ms ! i));
       m \<leftarrow> monitor_write cs m;
       (c, x) \<leftarrow> elf_check (mod_start (ms ! i)) x;
       (x, m) \<leftarrow> (if c \<noteq> 0 then do { m \<leftarrow> monitor_write (lit '' : Invalid ELF file'' @ [10]) m; Some (x, m) }
         else do {
           (pr, x) \<leftarrow> elf_exec (mod_start (ms ! i)) PL_DRIVER x;
           if pr = 0 then do { m \<leftarrow> monitor_write (lit '' : Error loading'' @ [10]) m; Some (x, m) }
           else do {
             p \<leftarrow> the_proc (kern x) pr;
             m \<leftarrow> monitor_write (lit '' : OK pid:'') m;
             m \<leftarrow> monitor_writeDec (pid p) m;
             m \<leftarrow> monitor_write [10] m;
             Some (x, m) } });
       load_modules (Suc i) n ms x m }
     else None)"

text \<open>The rest: the switch at the end continues in a thread of a module; \<open>r\<close> are the registers, which are not needed again.\<close>

definition kmain_rest :: "u32 \<Rightarrow> cpu \<Rightarrow> boot \<Rightarrow> (cpu \<times> boot) option" where
  "kmain_rest idle r b = do {
     (h, k) \<leftarrow> kheap_init (kheap b) (kern (mach b));
     m \<leftarrow> monitor_write (lit ''[KHeap] '') (mon b);
     k \<leftarrow> timer_init 30 k;
     m \<leftarrow> monitor_write (lit ''[PIT] '') m;
     k \<leftarrow> tasking_init idle k;
     m \<leftarrow> monitor_write (lit ''[Tasking] '') m;
     m \<leftarrow> monitor_write ([10] @ lit ''Loading modules :'' @ [10]) m;
     (x, m) \<leftarrow> load_modules 0 (unat (mods_count (mbd b))) (mods b) ((mach b)\<lparr>kern := k\<rparr>) m;
     m \<leftarrow> monitor_write (lit ''Modules now RULE THE WORLD !'' @ [10]) m;
     (r, k) \<leftarrow> tasking_switch r (snd (sti (kern x)));
     Some (r, b\<lparr>mon := m, mach := x\<lparr>kern := k\<rparr>, kheap := h\<rparr>) }"

definition kmain :: "u32 \<Rightarrow> (nat \<Rightarrow> u32) \<Rightarrow> (nat \<Rightarrow> u32) \<Rightarrow> u32 \<Rightarrow> u32 \<Rightarrow> u32 list \<Rightarrow> u32 \<Rightarrow> cpu \<Rightarrow> boot \<Rightarrow> (cpu \<times> boot) option" where
  "kmain kend isr irq sc idle bits0 magic r b = do { b \<leftarrow> kmain_start kend isr irq sc bits0 magic b; kmain_rest idle r b }"

section \<open>What is printed\<close>

lemma write_append: "0 \<notin> set xs \<Longrightarrow> monitor_write (xs @ ys) m = do { m \<leftarrow> monitor_write xs m; monitor_write ys m }"
proof (induction xs m rule: monitor_write.induct)
  case (2 c cs m)
  then show ?case by (cases "monitor_put c m") auto
qed simp

definition hex_text :: "u32 \<Rightarrow> u8 list" where
  "hex_text v = [0x30, 0x78] @ map (\<lambda>d. hexdigits ! d) (nibbles 8 v)"

lemma writeHex_text: "monitor_writeHex v m = monitor_write (hex_text v) m"
  by (cases "monitor_put 0x30 m") (simp_all add: monitor_writeHex_def hex_loop_nibbles hex_text_def)

lemma hex_text_nonzero: "0 \<notin> set (hex_text v)"
proof -
  have "set (nibbles n v) \<subseteq> {..<16}" for n by (induction n v rule: nibbles.induct) (auto simp: top_nibble)
  then have "hexdigits ! d \<noteq> 0" if "d \<in> set (nibbles 8 v)" for d using that hexdigit[of d] by blast
  then show ?thesis by (auto simp: hex_text_def simp del: nibbles.simps)
qed

text \<open>The frames that a trace goes through, and its text.\<close>

fun trace_frames :: "nat \<Rightarrow> u32 \<Rightarrow> u32 \<Rightarrow> 'a cmem_scheme \<Rightarrow> (u32 \<times> u32 \<times> u32) list option" where
  "trace_frames 0 bp stack s = Some []"
| "trace_frames (Suc n) bp stack s = (if stack > 0xE0000000 \<and> stack < bp + 0x8000
     then do { nxt \<leftarrow> ld32 s stack; ret \<leftarrow> ld32 s (stack + 4); fs \<leftarrow> trace_frames n bp nxt s; Some ((stack, nxt, ret) # fs) }
     else Some [])"

definition frame_text :: "u32 \<times> u32 \<times> u32 \<Rightarrow> u8 list" where
  "frame_text f = (case f of (a, nxt, ret) \<Rightarrow> lit '' '' @ hex_text a @ ([9] @ lit ''next:'') @ hex_text nxt @ ([9, 9] @ lit ''ret:'') @ hex_text ret @ [10])"

definition trace_text :: "(u32 \<times> u32 \<times> u32) list \<Rightarrow> u8 list" where
  "trace_text fs = concat (map frame_text fs)"

lemma trace_text_Cons: "trace_text (f # fs) = frame_text f @ trace_text fs"
  by (simp add: trace_text_def)

lemma frame_text_nonzero: "0 \<notin> set (frame_text f)"
  using hex_text_nonzero by (auto simp: frame_text_def lit_def split: prod.splits)

lemma frame_text_write:
  "monitor_write (frame_text (a, nxt, ret) @ ys) m = do { m \<leftarrow> monitor_write (lit '' '') m; m \<leftarrow> monitor_writeHex a m; m \<leftarrow> monitor_write ([9] @ lit ''next:'') m;
     m \<leftarrow> monitor_writeHex nxt m; m \<leftarrow> monitor_write ([9, 9] @ lit ''ret:'') m; m \<leftarrow> monitor_writeHex ret m; m \<leftarrow> monitor_write [10] m; monitor_write ys m }"
proof -
  have z: "0 \<notin> set (lit '' '')" "0 \<notin> set ([9] @ lit ''next:'')" "0 \<notin> set ([9, 9] @ lit ''ret:'')" "0 \<notin> set [10 :: u8]" by (simp_all add: lit_def)
  have "frame_text (a, nxt, ret) @ ys = lit '' '' @ hex_text a @ ([9] @ lit ''next:'') @ hex_text nxt @ ([9, 9] @ lit ''ret:'') @ hex_text ret @ [10] @ ys" by (simp add: frame_text_def)
  then show ?thesis by (simp only: write_append[OF z(1)] write_append[OF z(2)] write_append[OF z(3)] write_append[OF z(4)] write_append[OF hex_text_nonzero] writeHex_text)
qed

lemma trace_loop_text: "trace_frames n bp stack s = Some fs \<Longrightarrow> trace_loop n bp stack s m = monitor_write (trace_text fs) m"
proof (induction n arbitrary: stack fs m)
  case 0
  then show ?case by (simp add: trace_text_def)
next
  case (Suc n)
  show ?case
  proof (cases "stack > 0xE0000000 \<and> stack < bp + 0x8000")
    case True
    with Suc.prems obtain nxt ret gs where f: "ld32 s stack = Some nxt" "ld32 s (stack + 4) = Some ret" "trace_frames n bp nxt s = Some gs" "fs = (stack, nxt, ret) # gs"
      by (auto split: bind_splits)
    have "trace_loop n bp nxt s = monitor_write (trace_text gs)" using Suc.IH[OF f(3)] by (rule ext)
    then show ?thesis using True f(1,2) unfolding f(4) trace_text_Cons frame_text_write by simp
  next
    case False
    then have "trace_loop (Suc n) bp stack s m = Some m" "fs = []" using Suc.prems unfolding trace_loop.simps trace_frames.simps if_not_P[OF False] by simp_all
    then show ?thesis by (simp add: trace_text_def)
  qed
qed

lemma trace_frames_range: "trace_frames n bp stack s = Some fs \<Longrightarrow> length fs \<le> n \<and> (\<forall>f\<in>set fs. 0xE0000000 < fst f \<and> fst f < bp + 0x8000)"
  by (induction n arbitrary: stack fs) (fastforce split: bind_splits if_splits)+

definition dec_text :: "nat list \<Rightarrow> u8 list" where
  "dec_text ds = map (\<lambda>d. of_nat d + 0x30) ds"

lemma dec_text_nonzero: "\<forall>d\<in>set ds. d < 10 \<Longrightarrow> 0 \<notin> set (dec_text ds)"
proof -
  have "of_nat d + 0x30 \<noteq> (0 :: u8)" if "d < 10" for d
  proof -
    have "unat (of_nat d + 0x30 :: u8) = d + 0x30" using that by (simp add: unat_word_ariths unat_of_nat)
    then show ?thesis by auto
  qed
  then show "\<forall>d\<in>set ds. d < 10 \<Longrightarrow> 0 \<notin> set (dec_text ds)" by (force simp: dec_text_def)
qed

lemma write_char: "c \<noteq> 0 \<Longrightarrow> monitor_put c m = monitor_write [c] m"
  by (cases "monitor_put c m") simp_all

definition panic_text :: "u8 list \<Rightarrow> nat list \<Rightarrow> (u32 \<times> u32 \<times> u32) list \<Rightarrow> u8 list" where
  "panic_text file ds fs = ([10] @ lit '' File:'' @ [9, 9]) @ file @ [of_char CHR '':''] @ dec_text ds @ ([10] @ lit ''Trace:'' @ [10]) @ trace_text fs
     @ ([10, 9, 9] @ lit ''System halted -_-'' @ [39, 10])"

lemma panic_do_text:
  assumes "trace_frames 5 bp bp s = Some fs" and "0 \<notin> set file" and "\<forall>d\<in>set ds. d < 10" and "\<And>m. monitor_writeDec line m = monitor_write (dec_text ds) m"
  shows "panic_do file line bp s m = monitor_write (panic_text file ds fs) m"
proof -
  have z: "0 \<notin> set ([10] @ lit '' File:'' @ [9, 9])" "0 \<notin> set ([10] @ lit ''Trace:'' @ [10])" "(of_char CHR '':'' :: u8) \<noteq> 0" "0 \<notin> set [of_char CHR '':'' :: u8]" by (simp_all add: lit_def)
  have t: "0 \<notin> set (trace_text fs)" using frame_text_nonzero by (auto simp: trace_text_def)
  show ?thesis unfolding panic_do_def panic_text_def stack_trace_def assms(4) write_char[OF z(3)] trace_loop_text[OF assms(1)] write_append[OF z(1)] write_append[OF assms(2)]
      write_append[OF z(4)] write_append[OF dec_text_nonzero[OF assms(3)]] write_append[OF z(2)] write_append[OF t] ..
qed

lemma monitor_clear_ok:
  assumes "on_screen m"
  shows "\<exists>m'. monitor_clear m = Some m' \<and> on_screen m' \<and> video_memory m' = replicate 2000 (blank m)"
proof -
  have "fill_blank 0 2000 (blank m) m = Some (m\<lparr>video_memory := replicate 2000 (blank m)\<rparr>)" using assms fill_blank_ok[of 0 2000 m "blank m"] by (simp add: on_screen_def)
  then show ?thesis by (simp add: monitor_clear_def on_screen_def move_cursor_def)
qed

section \<open>Modules\<close>

lemma unat_moved: "unat (mod_end x) < 0x1FFFF000 \<Longrightarrow> unat (mod_end (moved x)) = unat (mod_end x) + 0xE0000000"
  by (simp add: moved_def unat_add_u32)

lemma placement_step:
  fixes e p :: u32
  assumes "unat e < 0xFFFFF000"
  defines "p' \<equiv> (if e > p then (e AND 0xFFFFF000) + 0x1000 else p)"
  shows "unat p \<le> unat p'" "unat e \<le> unat p'" "unat p \<le> B \<Longrightarrow> unat e + 4096 \<le> B \<Longrightarrow> unat p' \<le> B" "p' = p \<or> 4096 dvd unat p'"
proof -
  have h: "unat (e AND 0xFFFFF000) = unat e div 4096 * 4096" by (simp add: unat_and_high20 minus_mod_eq_div_mult)
  have le: "unat e div 4096 * 4096 \<le> unat e" "unat e < unat e div 4096 * 4096 + 4096" using dividend_less_div_times[of 4096 "unat e"] by simp_all
  have "unat ((e AND 0xFFFFF000) + 0x1000) = unat e div 4096 * 4096 + 4096" using h le assms(1) by (subst unat_add_u32) simp_all
  then have a: "unat p' = (if unat e > unat p then unat e div 4096 * 4096 + 4096 else unat p)" "p' = p \<or> unat p' = unat e div 4096 * 4096 + 4096" by (simp_all add: p'_def less_u32)
  show "unat p \<le> unat p'" "unat e \<le> unat p'" "unat p \<le> B \<Longrightarrow> unat e + 4096 \<le> B \<Longrightarrow> unat p' \<le> B" using a(1) le by (simp_all split: if_splits)
  show "p' = p \<or> 4096 dvd unat p'" using a(2) by auto
qed

lemma reloc_ok:
  assumes "i + n \<le> length ms" and "\<forall>j. i \<le> j \<and> j < i + n \<longrightarrow> unat (mod_end (ms ! j)) < 0x1FFFF000"
  shows "\<exists>ms' p'. reloc_loop i n ms p = Some (ms', p') \<and> length ms' = length ms \<and> (\<forall>j. ms' ! j = (if i \<le> j \<and> j < i + n then moved (ms ! j) else ms ! j))
     \<and> unat p \<le> unat p' \<and> (\<forall>j. i \<le> j \<and> j < i + n \<longrightarrow> unat (mod_end (moved (ms ! j))) \<le> unat p') \<and> (p' = p \<or> 4096 dvd unat p')
     \<and> (\<forall>B. unat p \<le> B \<and> (\<forall>j. i \<le> j \<and> j < i + n \<longrightarrow> unat (mod_end (moved (ms ! j))) + 4096 \<le> B) \<longrightarrow> unat p' \<le> B)"
  using assms
proof (induction n arbitrary: i ms p)
  case 0
  then show ?case by auto
next
  case (Suc n)
  let ?x = "moved (ms ! i)" and ?ms = "ms[i := moved (ms ! i)]"
  define q where "q = (if mod_end ?x > p then (mod_end ?x AND 0xFFFFF000) + 0x1000 else p)"
  have "unat (mod_end ?x) < 0xFFFFF000" using unat_moved[of "ms ! i"] Suc.prems by simp
  note st = placement_step[OF this, of p, folded q_def]
  have "Suc i + n \<le> length ?ms" "\<forall>j. Suc i \<le> j \<and> j < Suc i + n \<longrightarrow> unat (mod_end (?ms ! j)) < 0x1FFFF000" using Suc.prems by auto
  from Suc.IH[OF this, of q] obtain ms' p' where r: "reloc_loop (Suc i) n ?ms q = Some (ms', p')" "length ms' = length ms"
    "\<forall>j. ms' ! j = (if Suc i \<le> j \<and> j < Suc i + n then moved (?ms ! j) else ?ms ! j)" "unat q \<le> unat p'"
    "\<forall>j. Suc i \<le> j \<and> j < Suc i + n \<longrightarrow> unat (mod_end (moved (?ms ! j))) \<le> unat p'" "p' = q \<or> 4096 dvd unat p'"
    "\<forall>B. unat q \<le> B \<and> (\<forall>j. Suc i \<le> j \<and> j < Suc i + n \<longrightarrow> unat (mod_end (moved (?ms ! j))) + 4096 \<le> B) \<longrightarrow> unat p' \<le> B" by auto
  have i: "i < length ms" using Suc.prems by simp
  have nth: "?ms ! j = (if j = i then ?x else ms ! j)" for j using i by (cases "j = i") simp_all
  have c: "i \<le> j \<and> j < i + Suc n \<longleftrightarrow> j = i \<or> Suc i \<le> j \<and> j < Suc i + n" for j by auto
  have l: "reloc_loop i (Suc n) ms p = Some (ms', p')" using i r(1) by (simp add: q_def Let_def)
  show ?case
  proof (intro exI[of _ ms'] exI[of _ p'] conjI allI impI)
    show "ms' ! j = (if i \<le> j \<and> j < i + Suc n then moved (ms ! j) else ms ! j)" for j unfolding c using r(3)[rule_format, of j] by (auto simp: nth)
    show "unat p \<le> unat p'" using st(1) r(4) by linarith
    show "unat (mod_end (moved (ms ! j))) \<le> unat p'" if "i \<le> j \<and> j < i + Suc n" for j
      using that[unfolded c] r(5)[rule_format, of j] st(2) r(4) by (auto simp: nth)
    show "p' = p \<or> 4096 dvd unat p'" using r(6) st(4) by auto
    show "unat p' \<le> B" if B: "unat p \<le> B \<and> (\<forall>j. i \<le> j \<and> j < i + Suc n \<longrightarrow> unat (mod_end (moved (ms ! j))) + 4096 \<le> B)" for B
    proof (rule r(7)[rule_format], intro conjI allI impI)
      show "unat q \<le> B" using st(3)[of B] B[unfolded c] by blast
      show "unat (mod_end (moved (?ms ! j))) + 4096 \<le> B" if "Suc i \<le> j \<and> j < Suc i + n" for j using B[unfolded c] that by (auto simp: nth)
    qed
  qed (use l r(2) in auto)
qed

text \<open>The parts of \<open>kmain_start\<close> succeed.\<close>

lemma idt_init_ok:
  assumes "on_screen m"
  shows "\<exists>es m' p. idt_init isr irq sc m s = Some (es, m', s\<lparr>port_out := p\<rparr>) \<and> on_screen m' \<and> length es = 256"
proof -
  obtain m' where m': "monitor_write [0x5B, 0x49, 0x44, 0x54, 0x5D, 0x20] m = Some m'" "on_screen m'" using monitor_write_ok[OF assms] by blast
  have l: "length (foldl (\<lambda>es (n, a). idt_setGate (of_nat n) a sl fl es) es gs) = length es" for sl fl es gs
    by (induction gs arbitrary: es) (auto simp: idt_setGate_def)
  show ?thesis using m' by (auto simp: idt_init_def Let_def l outbs_log)
qed

lemma writes_ok: "on_screen m \<Longrightarrow> \<exists>m'. monitor_write cs m = Some m' \<and> on_screen m'" "on_screen m \<Longrightarrow> \<exists>m'. monitor_writeHex v m = Some m' \<and> on_screen m'"
  using monitor_write_ok[of m] by (auto simp: writeHex_text)

lemma paging_messages:
  assumes "on_screen m"
  shows "\<exists>m'. do { m \<leftarrow> monitor_write (lit ''{PD: '') m; m \<leftarrow> monitor_writeHex v m; monitor_write (lit ''} [Paging] '') m } = Some m' \<and> on_screen m'"
proof -
  from writes_ok(1)[OF assms] obtain a where a: "monitor_write (lit ''{PD: '') m = Some a" "on_screen a" by blast
  from writes_ok(2)[OF a(2)] obtain c where c: "monitor_writeHex v a = Some c" "on_screen c" by blast
  from writes_ok(1)[OF c(2)] show ?thesis using a(1) c(1) by simp
qed

lemma phys_identity:
  assumes "\<forall>x. hw_frame (kern m) pd (0xE0000 + x) = (if x < kpages (kern m) then Some (of_nat x) else None)" and "0xE0000000 + a < unat (mem_placementAddr (kern m))"
  shows "phys_of m pd (0xE0000000 + a) = Some a"
proof -
  have d: "(0xE0000000 + a) div 4096 = 0xE0000 + a div 4096" "(0xE0000000 + a) mod 4096 = a mod 4096" using mod_mult_self3[of 917504 4096 a] by simp_all
  have "Suc (a div 4096) = (a + 4096) div 4096" by simp
  also have "\<dots> \<le> kpages (kern m)" unfolding kpages_def using assms(2) by (intro div_le_mono) linarith
  finally have "a div 4096 < kpages (kern m)" by simp
  moreover have "a < 4294967296" using assms(2) unat_u32_less[of "mem_placementAddr (kern m)"] by linarith
  then have "unat (of_nat (a div 4096) :: u32) = a div 4096" by (simp add: unat_of_nat_u32 less_mult_imp_div_less)
  ultimately show ?thesis using assms(1) d by (simp add: phys_of_def)
qed

lemma source_identity:
  assumes "\<forall>x. hw_frame (kern m) pd (0xE0000 + x) = (if x < kpages (kern m) then Some (of_nat x) else None)" and "0xE0000000 + e \<le> unat (mem_placementAddr (kern m))"
    and "unat v = 0xE0000000 + l" and "l \<le> e" and "mbytes (kern m) = f"
  shows "source m pd v (map (\<lambda>a. f (0xE0000000 + a)) [l..<e])"
proof -
  have "hw_frame (kern m) pd ((0xE0000000 + (l + i)) div 4096) \<noteq> None" if "i < e - l" for i
  proof -
    have "0xE0000000 + (l + i) < unat (mem_placementAddr (kern m))" using assms(2,4) that by linarith
    from phys_identity[OF assms(1) this] show ?thesis by (auto simp: phys_of_def)
  qed
  moreover have "0xE0000000 + e < 4294967296" using assms(2) unat_u32_less[of "mem_placementAddr (kern m)"] by linarith
  ultimately show ?thesis unfolding source_def using assms(3-5) by (simp add: add.assoc)
qed

lemma kmain_start_ok:
  assumes scr: "on_screen (mon b)" and g: "length (gdt_entries (the_gdt b)) = 6" and bt: "booting (kern (mach b))"
    and rl: "reloc_loop 0 (unat (mods_count (mbd b))) (mods b) kend = Some (ms', p)" and p: "0xE0100000 \<le> unat p"
    and ram: "totalRam = (mem_upper (mbd b) + mem_lower (mbd b)) * 1024" "length bits0 = unat (totalRam div 0x1000) div 32"
      "bs_used \<lparr>bits = bits0, bsize = totalRam div 0x1000\<rparr> = {}" "unat totalRam < 0x9560000" "(unat p - 0xE0000000) div 4096 + 120 \<le> 8 * (unat (totalRam div 0x1000) div 32)"
  shows "\<exists>b' k kpd. kmain_start kend isr irq sc bits0 MULTIBOOT_BOOTLOADER_MAGIC b = Some b' \<and> on_screen (mon b') \<and> length (idt b') = 256 \<and> gdtr (the_gdt b') \<noteq> None
     \<and> mods b' = ms' \<and> k = kern (mach b') \<and> kpd = current_pagedir k \<and> kernel_pagedir k = kpd \<and> unat p \<le> unat (mem_placementAddr k) \<and> mbytes k = mbytes (kern (mach b))
     \<and> (\<forall>x. hw_frame k kpd (0xE0000 + x) = (if x < kpages k then Some (of_nat x) else None)) \<and> bs_used (frames k) = {..<kpages k} \<and> (\<forall>a\<in>boot_memory k. unat p \<le> a)"
proof -
  from monitor_clear_ok[OF scr] obtain m1 where m1: "monitor_clear (mon b) = Some m1" "on_screen m1" by blast
  from writes_ok(1)[OF m1(2)] obtain m2 where m2: "monitor_write (lit ''Grapes 0.0.4 'Cat in my heart' starting up :'' @ [10]) m1 = Some m2" "on_screen m2" by blast
  define k0 where "k0 = (kern (mach b))\<lparr>mem_placementAddr := p\<rparr>"
  from idt_init_ok[OF m2(2), of isr irq sc k0] obtain es m3 po where m3: "idt_init isr irq sc m2 k0 = Some (es, m3, k0\<lparr>port_out := po\<rparr>)" "on_screen m3" "length es = 256" by blast
  have bk: "booting (k0\<lparr>port_out := po\<rparr>)" "mem_placementAddr (k0\<lparr>port_out := po\<rparr>) = p" "mbytes (k0\<lparr>port_out := po\<rparr>) = mbytes (kern (mach b))" using bt by (simp_all add: k0_def booting_def)
  from paging_init_ok[OF bk(1), unfolded bk(2,3), OF p ram(2-5)] obtain s1 s2 kpd where
    k: "paging_init totalRam bits0 (k0\<lparr>port_out := po\<rparr>) = Some s1" "paging_cleanup s1 = Some s2" "current_pagedir s2 = kpd" "kernel_pagedir s2 = kpd" "unat p \<le> unat (mem_placementAddr s2)"
      "bs_used (frames s2) = {..<kpages s2}" "mbytes s2 = mbytes (kern (mach b))" "\<forall>a\<in>boot_memory s2. unat p \<le> a"
      "\<forall>x. hw_frame s1 kpd (0xE0000 + x) = (if x < kpages s2 then Some (of_nat x) else None) \<and> hw_frame s2 kpd (0xE0000 + x) = hw_frame s1 kpd (0xE0000 + x)"
    by (elim exE conjE)
  from k(2) obtain d where d: "the_pd s1 (kernel_pagedir s1) = Some d" by (auto simp: paging_cleanup_def upd_pd_def Let_def split: bind_splits)
  from paging_messages[OF m3(2), of "pd_physicalAddr d"] obtain m4 x y where
    m4: "monitor_write (lit ''{PD: '') m3 = Some x" "monitor_writeHex (pd_physicalAddr d) x = Some y" "monitor_write (lit ''} [Paging] '') y = Some m4" "on_screen m4" by (auto split: bind_splits)
  from flat_segments[OF g] obtain g' where g': "gdt_init (the_gdt b) = Some g'" "gdtr g' \<noteq> None" by fastforce
  from writes_ok(1)[OF m4(4)] obtain m5 where m5: "monitor_write (lit ''[GDT] '') m4 = Some m5" "on_screen m5" by blast
  from writes_ok(1)[OF m5(2)] obtain m6 where m6: "monitor_write (lit ''[PD Cleanup] '') m5 = Some m6" "on_screen m6" by blast
  define mb where "mb = (mbd b)\<lparr>cmdline := cmdline (mbd b) + 0xE0000000, mods_addr := mods_addr (mbd b) + 0xE0000000\<rparr>"
  define b' where "b' = b\<lparr>mon := m6, mach := (mach b)\<lparr>kern := s2\<rparr>, idt := es, the_gdt := g', mbd := mb, mods := ms'\<rparr>"
  have mb: "mods_count mb = mods_count (mbd b)" "(mem_upper mb + mem_lower mb) * 1024 = totalRam" by (simp_all add: mb_def ram(1))
  have "kmain_start kend isr irq sc bits0 MULTIBOOT_BOOTLOADER_MAGIC b = Some b'"
    unfolding kmain_start_def m1(1) Option.bind.bind_lunit mb_def[symmetric] Let_def mb rl using m2(1) m3(1) k(1,2) d m4(1-3) g'(1) m5(1) m6(1)
    by (simp add: k0_def[symmetric] b'_def)
  then show ?thesis using m6(2) m3(3) g'(2) k(3-9) by (intro exI[of _ b'] exI[of _ s2] exI[of _ kpd]) (simp add: b'_def)
qed

section \<open>Properties\<close>

text \<open>
  C7. The first part of \<open>kmain\<close>, on a machine with less than 150 megabytes whose boot loader has put the modules into the first quarter of the memory, with a margin (beyond it the bitmap of frames overlaps
  \<open>tables\<close>, see \<open>paging_init_maps_kernel\<close>): it succeeds; the memory that the kernel takes, for the bitmap, the directory, the page tables and the cached pages, and all that it takes from then on,
  is above the kernel and above all modules; the interrupt and segment tables are loaded; exactly the memory up to there is mapped at \<^verbatim>\<open>0xE0000000\<close>, and these frames are used; and every
  byte of a module can be read at its new address, from the physical address at which the boot loader has put it, with the contents that it had.
\<close>

theorem modules_survive_boot:
  assumes scr: "on_screen (mon b)" and g: "length (gdt_entries (the_gdt b)) = 6" and bt: "booting (kern (mach b))"
    and n: "n = unat (mods_count (mbd b))" "n \<le> length (mods b)"
    and ms: "\<forall>i<n. unat (mod_end (mods b ! i)) + 0xE0001000 \<le> B \<and> mod_start (mods b ! i) \<le> mod_end (mods b ! i)"
    and ke: "0xE0100000 \<le> unat kend" "unat kend \<le> B"
    and ram: "totalRam = (mem_upper (mbd b) + mem_lower (mbd b)) * 1024" "length bits0 = unat (totalRam div 0x1000) div 32"
      "bs_used \<lparr>bits = bits0, bsize = totalRam div 0x1000\<rparr> = {}" "unat totalRam < 0x9560000" "(B - 0xE0000000) div 4096 + 120 \<le> 8 * (unat (totalRam div 0x1000) div 32)"
  shows "\<exists>b' k kpd. kmain_start kend isr irq sc bits0 MULTIBOOT_BOOTLOADER_MAGIC b = Some b' \<and> on_screen (mon b') \<and> length (idt b') = 256 \<and> gdtr (the_gdt b') \<noteq> None
     \<and> k = kern (mach b') \<and> kpd = current_pagedir k \<and> kernel_pagedir k = kpd \<and> unat kend \<le> unat (mem_placementAddr k)
     \<and> (\<forall>x. hw_frame k kpd (0xE0000 + x) = (if x < kpages k then Some (of_nat x) else None)) \<and> bs_used (frames k) = {..<kpages k} \<and> (\<forall>a\<in>boot_memory k. unat kend \<le> a)
     \<and> (\<forall>i<n. mods b' ! i = moved (mods b ! i) \<and> unat (mod_end (mods b' ! i)) \<le> unat (mem_placementAddr k) \<and> (\<forall>a\<in>boot_memory k. unat (mod_end (mods b' ! i)) \<le> a)
          \<and> (\<forall>a. unat (mod_start (mods b ! i)) \<le> a \<and> a < unat (mod_end (mods b ! i)) \<longrightarrow> phys_of (mach b') kpd (0xE0000000 + a) = Some a)
          \<and> source (mach b') kpd (mod_start (mods b' ! i)) (map (\<lambda>a. mbytes (kern (mach b)) (0xE0000000 + a)) [unat (mod_start (mods b ! i))..<unat (mod_end (mods b ! i))]))"
proof -
  have "unat (totalRam div 0x1000) < 0x9560" using ram(4) by (simp add: unat_div_u32 less_mult_imp_div_less)
  then have "unat (totalRam div 0x1000) div 32 \<le> 1194" by simp
  then have "(B - 0xE0000000) div 4096 \<le> 9432" using ram(5) by linarith
  from div_bound[OF this] have "B \<le> 0xE7000000" by simp
  note ke = ke this
  have r: "\<forall>j. 0 \<le> j \<and> j < 0 + n \<longrightarrow> unat (mod_end (mods b ! j)) < 0x1FFFF000" using ms ke(3) by fastforce
  from reloc_ok[OF _ r, of kend] n(2) obtain ms' p where rl: "reloc_loop 0 n (mods b) kend = Some (ms', p)" "\<forall>j. ms' ! j = (if j < n then moved (mods b ! j) else mods b ! j)"
     "unat kend \<le> unat p" "\<forall>j<n. unat (mod_end (moved (mods b ! j))) \<le> unat p" "\<forall>B. unat kend \<le> B \<and> (\<forall>j<n. unat (mod_end (moved (mods b ! j))) + 4096 \<le> B) \<longrightarrow> unat p \<le> B" by auto
  have mv: "unat (mod_end (moved (mods b ! j))) = unat (mod_end (mods b ! j)) + 0xE0000000" if "j < n" for j using unat_moved r that by simp
  have pB: "unat p \<le> B" using rl(5) ke(2) ms mv by (simp add: add.commute add.left_commute)
  then have "(unat p - 0xE0000000) div 4096 \<le> (B - 0xE0000000) div 4096" by (intro div_le_mono) simp
  then have c: "(unat p - 0xE0000000) div 4096 + 120 \<le> 8 * (unat (totalRam div 0x1000) div 32)" using ram(5) by linarith
  have "0xE0100000 \<le> unat p" using ke rl(3) by linarith
  from kmain_start_ok[OF scr g bt rl(1)[unfolded n(1)] this ram(1-4) c, of isr irq sc] obtain b' k kpd where
    b': "kmain_start kend isr irq sc bits0 MULTIBOOT_BOOTLOADER_MAGIC b = Some b'" "on_screen (mon b')" "length (idt b') = 256" "gdtr (the_gdt b') \<noteq> None" "mods b' = ms'" and
    k: "k = kern (mach b')" "kpd = current_pagedir k" "kernel_pagedir k = kpd" "unat p \<le> unat (mem_placementAddr k)" "mbytes k = mbytes (kern (mach b))"
      "\<forall>x. hw_frame k kpd (0xE0000 + x) = (if x < kpages k then Some (of_nat x) else None)" "bs_used (frames k) = {..<kpages k}" "\<forall>a\<in>boot_memory k. unat p \<le> a"
    by (elim exE conjE)
  have e: "0xE0000000 + unat (mod_end (mods b ! i)) \<le> unat (mem_placementAddr k)" if "i < n" for i using k(4) rl(4) mv[OF that] that by fastforce
  have "phys_of (mach b') kpd (0xE0000000 + a) = Some a" if "i < n" "a < unat (mod_end (mods b ! i))" for i a
    using phys_identity[of "mach b'" kpd a] k(1,6) e[OF that(1)] that(2) by simp
  moreover have "source (mach b') kpd (mod_start (moved (mods b ! i))) (map (\<lambda>a. mbytes (kern (mach b)) (0xE0000000 + a)) [unat (mod_start (mods b ! i))..<unat (mod_end (mods b ! i))])" if "i < n" for i
  proof -
    have le: "unat (mod_start (mods b ! i)) \<le> unat (mod_end (mods b ! i))" "unat (mod_end (mods b ! i)) < 0x1FFFF000" using ms r that by (auto simp: le_u32)
    then have "unat (mod_start (moved (mods b ! i))) = 0xE0000000 + unat (mod_start (mods b ! i))" by (simp add: moved_def unat_add_u32)
    then show ?thesis using le(1) e[OF that] k(5,6) by (intro source_identity) (simp_all add: k(1))
  qed
  moreover have "unat kend \<le> unat (mem_placementAddr k)" using rl(3) k(4) by linarith
  moreover have "unat (mod_end (moved (mods b ! i))) \<le> a" if "a \<in> boot_memory k" "i < n" for a i using k(8) rl(4) that by fastforce
  moreover have "\<forall>a\<in>boot_memory k. unat kend \<le> a" using k(8) rl(3) by fastforce
  ultimately show ?thesis using b' k(1-3,6,7) rl(2) e mv by (intro exI[of _ b'] exI[of _ k] exI[of _ kpd]) (simp add: add.commute)
qed

text \<open>
  A panic prints its message, the file, the line in decimal notation and the trace, and nothing else, and stays on the screen. The trace has at most five frames, with addresses in the kernel and
  less than 32 kilobytes above the first one; their memory must be present.
\<close>

theorem panic_report:
  assumes "on_screen m" and "unat line < 10 ^ 9" and "trace_frames 5 bp bp s = Some fs" and "0 \<notin> set file" and "0 \<notin> set message"
  shows "\<exists>m' ds. panic message file line bp s m = monitor_write (([10, 10] @ lit ''PANIC:'' @ [9, 9]) @ message @ panic_text file ds fs) m
     \<and> panic message file line bp s m = Some m' \<and> on_screen m' \<and> foldl (\<lambda>a d. 10 * a + d) 0 ds = unat line \<and> (\<forall>d\<in>set ds. d < 10)
     \<and> length fs \<le> 5 \<and> (\<forall>f\<in>set fs. 0xE0000000 < fst f \<and> fst f < bp + 0x8000)"
proof -
  from writeDec_text[OF assms(2)] obtain ds where ds: "\<forall>m. monitor_writeDec line m = monitor_write (dec_text ds) m" "\<forall>d\<in>set ds. d < 10" "foldl (\<lambda>a d. 10 * a + d) 0 ds = unat line"
    unfolding dec_text_def by blast
  have z: "0 \<notin> set ([10, 10] @ lit ''PANIC:'' @ [9, 9])" by (simp add: lit_def)
  have "panic_do file line bp s = monitor_write (panic_text file ds fs)" using panic_do_text[OF assms(3,4) ds(2)] ds(1) by (intro ext) simp
  then have p: "panic message file line bp s m = monitor_write (([10, 10] @ lit ''PANIC:'' @ [9, 9]) @ message @ panic_text file ds fs) m"
    unfolding panic_def write_append[OF z] write_append[OF assms(5)] by simp
  obtain m' where "monitor_write (([10, 10] @ lit ''PANIC:'' @ [9, 9]) @ message @ panic_text file ds fs) m = Some m'" "on_screen m'" using writes_ok(1)[OF assms(1)] by blast
  then show ?thesis using p ds(2,3) trace_frames_range[OF assms(3)] by (intro exI[of _ m'] exI[of _ ds]) simp
qed

section \<open>Examples\<close>

text \<open>A machine with 16 megabytes, one module from 2 megabytes on with 64 kilobytes, and a kernel that ends at \<^verbatim>\<open>0xE0110000\<close>.\<close>

definition start_demo :: boot where
  "start_demo = \<lparr>mon = monitor0 (replicate 2000 0), mach = \<lparr>kern = kernel0 (\<lambda>_. True) (\<lambda>_. 0), ram = (\<lambda>_. 0)\<rparr>, idt = [], the_gdt = demo_gdt,
     kheap = \<lparr>hp_idx = 0, idxused = 0, start_addr = 0, end_addr = 0, max_end = 0\<rparr>,
     mbd = \<lparr>mb_flags = 0, mem_lower = 1024, mem_upper = 15360, boot_device = 0, cmdline = 0, mods_count = 1, mods_addr = 0x9000, mb_u = [], mmap_length = 0, mmap_addr = 0\<rparr>,
     mods = [\<lparr>mod_start = 0x200000, mod_end = 0x210000, mod_string = 0x9100, mod_reserved = 0\<rparr>]\<rparr>"

theorem modules_survive_boot_witness:
  "\<exists>b'. kmain_start 0xE0110000 (\<lambda>_. 0) (\<lambda>_. 0) 0 (replicate 128 0) MULTIBOOT_BOOTLOADER_MAGIC start_demo = Some b' \<and> on_screen (mon b')
     \<and> phys_of (mach b') (current_pagedir (kern (mach b'))) 0xE0208000 = Some 0x208000 \<and> (\<forall>a\<in>boot_memory (kern (mach b')). 0xE0210000 \<le> a)"
proof -
  have h: "on_screen (mon start_demo)" "length (gdt_entries (the_gdt start_demo)) = 6" "booting (kern (mach start_demo))" "1 = unat (mods_count (mbd start_demo))" "1 \<le> length (mods start_demo)"
    "\<forall>i<1. unat (mod_end (mods start_demo ! i)) + 0xE0001000 \<le> 0xE0300000 \<and> mod_start (mods start_demo ! i) \<le> mod_end (mods start_demo ! i)"
    "0xE0100000 \<le> unat (0xE0110000 :: u32)" "unat (0xE0110000 :: u32) \<le> 0xE0300000"
    "0x1000000 = (mem_upper (mbd start_demo) + mem_lower (mbd start_demo)) * 1024"
    by (simp_all add: start_demo_def on_screen_def monitor0_def demo_gdt_def booting_def kernel0_def)
  have z: "length (replicate 128 (0 :: u32)) = unat (0x1000000 div 0x1000 :: u32) div 32" "bs_used \<lparr>bits = replicate 128 0, bsize = 0x1000000 div 0x1000\<rparr> = {}" "unat (0x1000000 :: u32) < 0x9560000"
      "(0xE0300000 - 0xE0000000) div 4096 + 120 \<le> 8 * (unat (0x1000000 div 0x1000 :: u32) div 32)"
    by (auto simp: bs_used_def less_mult_imp_div_less)
  have "unat (mod_start (mods start_demo ! 0)) \<le> 0x208000 \<and> 0x208000 < unat (mod_end (mods start_demo ! 0))" by (simp add: start_demo_def)
  moreover have "unat (mod_end (moved (mods start_demo ! 0))) = 0xE0210000" by (simp add: start_demo_def moved_def)
  ultimately show ?thesis using modules_survive_boot[OF h z, of "\<lambda>_. 0" "\<lambda>_. 0" 0] by fastforce
qed

theorem panic_report_witness:
  "\<exists>m' ds. panic (lit ''No processes are running !'') (lit ''task.c'') 62 0xE0100000 (kernel0 (\<lambda>_. True) (\<lambda>_. 0)) (monitor0 (replicate 2000 0)) = Some m' \<and> on_screen m'
     \<and> panic (lit ''No processes are running !'') (lit ''task.c'') 62 0xE0100000 (kernel0 (\<lambda>_. True) (\<lambda>_. 0)) (monitor0 (replicate 2000 0))
       = monitor_write (([10, 10] @ lit ''PANIC:'' @ [9, 9]) @ lit ''No processes are running !'' @ panic_text (lit ''task.c'') ds [(0xE0100000, 0, 0)]) (monitor0 (replicate 2000 0))"
proof -
  have h: "on_screen (monitor0 (replicate 2000 0))" "unat (62 :: u32) < 10 ^ 9" "0 \<notin> set (lit ''task.c'')" "0 \<notin> set (lit ''No processes are running !'')"
    by (simp_all add: on_screen_def monitor0_def lit_def)
  have ld: "ld32 (kernel0 (\<lambda>_. True) (\<lambda>_. 0)) a = Some 0" for a by (simp add: ld32_def ld8_def kernel0_def of_bytes_def)
  have "(5 :: nat) = Suc (Suc 3)" by simp
  then have "trace_frames 5 0xE0100000 0xE0100000 (kernel0 (\<lambda>_. True) (\<lambda>_. 0)) = Some [(0xE0100000, 0, 0)]"
    by (simp only: trace_frames.simps ld) simp
  from panic_report[OF h(1,2) this h(3,4)] show ?thesis by blast
qed

end
