(* ===== verification/ShmPass.thy ===== *)
theory ShmPass
  imports Rpc Process
begin

text \<open>
  Shared memory as a parameter of a message (\<^verbatim>\<open>src/kernel/ipc/request.c\<close>, \<^verbatim>\<open>src/kernel/ipc/shm.c\<close>). Theorems: the
  receiver can map the segment of the sender into its own address space; but the request refers to the mapping of the sender, which is freed when the sender deletes the
  segment before the receiver has mapped it.
\<close>

section \<open>Looking for a segment\<close>

definition is_shm :: "segment \<Rightarrow> bool" where
  "is_shm g = (case sg_data g of ShmSeg _ \<Rightarrow> True | SimpleSeg _ \<Rightarrow> False)"

text \<open>The search depends on the mappings and on the kinds of their segments only, and new ones do not matter.\<close>

definition same_maps :: "kernel \<Rightarrow> kernel \<Rightarrow> bool" where
  "same_maps s s' \<longleftrightarrow> (\<forall>n x. the_map s n = Some x \<longrightarrow> the_map s' n = Some x) \<and> (\<forall>n g. the_seg s n = Some g \<longrightarrow> (\<exists>g'. the_seg s' n = Some g' \<and> is_shm g' = is_shm g))"

lemma getByOff_step:
  "getByOff s m off = (if m = 0 then Some 0 else do { x \<leftarrow> the_map s m;
     if sm_start x = off then do { sg \<leftarrow> the_seg s (sm_seg x); if is_shm sg then Some m else getByOff s (sm_next x) off }
     else getByOff s (sm_next x) off })"
  by (subst getByOff.simps) (auto simp: is_shm_def split: segdata.split Option.bind_split)

lemma getByOff_same:
  assumes "same_maps s s'"
  shows "getByOff s m off = Some v \<Longrightarrow> getByOff s' m off = Some v"
proof -
  have "t = s \<longrightarrow> getByOff s' m off = Some v" if "getByOff t m off = Some v" for t
  proof (rule getByOff.raw_induct[where P = "\<lambda>t m off v. t = s \<longrightarrow> getByOff s' m off = Some v", OF _ that], intro impI)
    fix g :: "kernel \<Rightarrow> nat \<Rightarrow> u32 \<Rightarrow> nat option" and t m off v
    assume IH: "\<And>t m off v. g t m off = Some v \<Longrightarrow> t = s \<longrightarrow> getByOff s' m off = Some v" and t: "t = s"
      and b: "(if m = 0 then Some 0 else do { x \<leftarrow> the_map t m;
        if sm_start x = off then do { sg \<leftarrow> the_seg t (sm_seg x); case sg_data sg of SimpleSeg _ \<Rightarrow> g t (sm_next x) off | ShmSeg _ \<Rightarrow> Some m }
        else g t (sm_next x) off }) = Some v"
    show "getByOff s' m off = Some v"
    proof (cases "m = 0")
      case True
      then show ?thesis using b by (subst getByOff_step) simp
    next
      case False
      with b t obtain x where x: "the_map s m = Some x" "the_map s' m = Some x" using assms by (auto simp: same_maps_def split: bind_splits)
      have rec: "getByOff s' (sm_next x) off = Some v" if "g s (sm_next x) off = Some v" using IH[OF that] by simp
      show ?thesis
      proof (cases "sm_start x = off")
        case True
        with b t x False obtain sg where sg: "the_seg s (sm_seg x) = Some sg" "(if is_shm sg then Some m else g s (sm_next x) off) = Some v"
          by (auto simp: is_shm_def split: bind_splits segdata.splits)
        obtain sg' where "the_seg s' (sm_seg x) = Some sg'" "is_shm sg' = is_shm sg" using assms sg(1) unfolding same_maps_def by blast
        then show ?thesis using True False x(2) sg(2) rec by (subst getByOff_step) (auto split: if_splits)
      next
        case neq: False
        then show ?thesis using b t x False rec by (subst getByOff_step) simp
      qed
    qed
  qed
  then show "getByOff s m off = Some v \<Longrightarrow> getByOff s' m off = Some v" by blast
qed

lemma shmseg_getByOff_same:
  assumes "same_maps s s'" and "procs s' = procs s" and "pdirs s' = pdirs s"
  shows "shmseg_getByOff pr off s = Some m \<Longrightarrow> shmseg_getByOff pr off s' = Some m"
  using getByOff_same[OF assms(1)] deref_cong(1)[OF assms(2)] deref_cong(3)[OF assms(3)]
  by (auto simp: shmseg_getByOff_def split: bind_splits)

section \<open>Sending\<close>

text \<open>The first parameter is shared memory and the others are plain.\<close>

definition shm_call :: "u32 \<Rightarrow> bool" where
  "shm_call f \<longleftrightarrow> param_type f 0 = PT_SHM \<and> (\<forall>i\<in>{1, 2}. param_type f i = PT_VOID \<or> param_type f i = PT_LONG)"

text \<open>Process \<open>cp\<close> has the shared segment \<open>sg\<close> at the address \<open>a\<close>, by its mapping \<open>m\<close>.\<close>

definition has_shm :: "kernel \<Rightarrow> ptr \<Rightarrow> u32 \<Rightarrow> ptr \<Rightarrow> segment_map \<Rightarrow> segment \<Rightarrow> bool" where
  "has_shm s cp a m sm sg \<longleftrightarrow> shmseg_getByOff cp a s = Some m \<and> the_map s m = Some sm \<and> the_seg s (sm_seg sm) = Some sg \<and> is_shm sg"

definition shm_rq :: "ptr \<Rightarrow> ptr \<Rightarrow> u32 \<Rightarrow> u32 \<Rightarrow> u32 \<Rightarrow> u32 \<Rightarrow> nat \<Rightarrow> ptr \<Rightarrow> u32 \<Rightarrow> request" where
  "shm_rq ob rqer f b c p junk m len = (blank_request ob rqer f p junk)\<lparr>params := [0, arg f 1 b, arg f 2 c],
     shm_sndr := [m, 0, 0], shmsize := [len, of_nat junk, of_nat junk]\<rparr>"

lemma shm_rq_fields:
  "func (shm_rq ob rqer f b c p junk m len) = f" "requester (shm_rq ob rqer f b c p junk m len) = rqer" "acknowledged (shm_rq ob rqer f b c p junk m len) = RS_PENDING"
  "shm_sndr (shm_rq ob rqer f b c p junk m len) = [m, 0, 0]" "shm_rcv (shm_rq ob rqer f b c p junk m len) = [0, 0, 0]" "shmsize (shm_rq ob rqer f b c p junk m len) ! 0 = len"
  by (simp_all add: shm_rq_def blank_request_def)

definition one_more :: "segment \<Rightarrow> segment" where
  "one_more sg = sg\<lparr>sg_mappings := sg_mappings sg + 1\<rparr>"

lemma has_shm_same:
  "has_shm s cp a m sm sg \<Longrightarrow> segmaps s' = segmaps s \<Longrightarrow> segs s' = segs s \<Longrightarrow> procs s' = procs s \<Longrightarrow> pdirs s' = pdirs s \<Longrightarrow> has_shm s' cp a m sm sg"
  using shmseg_getByOff_same[of s s' cp a m] deref_cong(4)[of s' s] deref_cong(5)[of s' s] by (auto simp: has_shm_def same_maps_def)

lemma mk_param_shm:
  assumes "the_rq s rq = Some q" and "param_type (func q) i = PT_SHM" and "own \<noteq> cp" and "has_shm s cp v m sm sg"
  shows "mk_param cp own rq i v s = Some (s\<lparr>rqs := (rqs s)(rq \<mapsto> q\<lparr>shm_sndr := (shm_sndr q)[i := m], shmsize := (shmsize q)[i := sm_len sm]\<rparr>),
     segs := (segs s)(sm_seg sm \<mapsto> one_more sg)\<rparr>)"
proof -
  have rq: "rq \<noteq> 0" "rqs s rq = Some q" using assms(1) by (auto simp: the_rq_def split: if_splits)
  define q1 where "q1 = q\<lparr>shmsize := (shmsize q)[i := 0]\<rparr>"
  define s1 where "s1 = s\<lparr>rqs := (rqs s)(rq \<mapsto> q1)\<rparr>"
  have u: "upd_rq rq (\<lambda>q. q\<lparr>shmsize := (shmsize q)[i := 0]\<rparr>) s = Some s1" using assms(1) by (simp add: upd_rq_def s1_def q1_def)
  have "has_shm s1 cp v m sm sg" by (rule has_shm_same[OF assms(4)]) (simp_all add: s1_def)
  then have h: "shmseg_getByOff cp v s1 = Some m" "the_map s m = Some sm" "the_seg s (sm_seg sm) = Some sg"
    using assms(4) by (simp_all add: has_shm_def)
  have nz: "sm_seg sm \<noteq> 0" "m \<noteq> 0" using h(2,3) by (auto simp: the_seg_def the_map_def split: if_splits)
  have c: "PT_SHM \<noteq> PT_OBJDESC" "PT_SHM \<noteq> PT_LONG" by (simp_all add: rq_consts)
  show ?thesis using assms(1-3) u h nz rq c
    by (simp add: mk_param_def upd_rq_def upd_seg_def the_rq_def s1_def q1_def one_more_def)
qed

text \<open>Without shared memory at the address the kernel dereferences null.\<close>

lemma mk_param_no_shm:
  assumes "the_rq s rq = Some q" and "param_type (func q) i = PT_SHM" and "own \<noteq> cp" and "shmseg_getByOff cp v s = Some 0"
  shows "mk_param cp own rq i v s = None"
proof -
  have rq: "rq \<noteq> 0" using assms(1) by (auto simp: the_rq_def split: if_splits)
  define s1 where "s1 = s\<lparr>rqs := (rqs s)(rq \<mapsto> q\<lparr>shmsize := (shmsize q)[i := 0]\<rparr>)\<rparr>"
  have "same_maps s s1" by (simp add: same_maps_def s1_def the_map_def the_seg_def)
  then have g: "shmseg_getByOff cp v s1 = Some 0" using shmseg_getByOff_same[OF _ _ _ assms(4)] by (simp add: s1_def)
  have "upd_rq rq (\<lambda>q. q\<lparr>shmsize := (shmsize q)[i := 0]\<rparr>) s = Some s1" "the_rq s1 rq = Some (q\<lparr>shmsize := (shmsize q)[i := 0]\<rparr>)"
    using assms(1) rq by (simp_all add: upd_rq_def s1_def the_rq_def)
  then show ?thesis using assms(1-3) g by (simp add: mk_param_def rq_consts) (simp add: upd_rq_def the_map_def)
qed

lemma mkrequest_no_shm:
  assumes c: "can_send s i ob cp p x" and o: "owner x \<noteq> cp" and f: "param_type f 0 = PT_SHM" and g: "shmseg_getByOff cp a s = Some 0"
  shows "mkrequest i rqer f a b c r s = None"
proof -
  let ?s = "locked ob x s" and ?rq = "next_ptr s"
  define q where "q = blank_request ob rqer f (pid p) (kjunk s ?rq)"
  define s1 where "s1 = ?s\<lparr>next_ptr := ?rq + 1, rqs := (rqs ?s)(?rq \<mapsto> q)\<rparr>"
  have "same_maps s s1" by (simp add: same_maps_def s1_def the_map_def the_seg_def)
  then have "shmseg_getByOff cp a s1 = Some 0" using shmseg_getByOff_same[OF _ _ _ g] by (simp add: s1_def)
  moreover have "the_rq s1 ?rq = Some q" "func q = f" using c by (simp_all add: s1_def the_rq_def can_send_def q_def)
  ultimately have "mk_param cp (owner x) ?rq 0 a s1 = None" using mk_param_no_shm[of s1 ?rq q 0 "owner x" cp a] f o by simp
  then have "mkrequest_fill ob rqer f a b c ?s = None"
    using mkrequest_unlocked(2,3)[OF c] c by (simp add: mkrequest_fill_def can_send_def kmalloc_ptr_def Let_def mk_params_def) (simp add: s1_def q_def)
  then show ?thesis using mkrequest_unlocked(1)[OF c, of rqer f a b c r] by simp
qed

text \<open>The memory of the kernel after a request with the mapping \<open>m\<close> was made.\<close>

definition maps_kept :: "kernel \<Rightarrow> segment_map \<Rightarrow> segment \<Rightarrow> kernel \<Rightarrow> bool" where
  "maps_kept s sm sg s' \<longleftrightarrow> segmaps s' = segmaps s \<and> segs s' = (segs s)(sm_seg sm \<mapsto> one_more sg) \<and> pdirs s' = pdirs s \<and> procs s' = procs s
     \<and> freed_ptrs s' = freed_ptrs s"

lemma mkrequest_fill_shm:
  assumes cp: "current_process s = Some cp" "the_proc s cp = Some p" and x: "the_obj s ob = Some x" "owner x \<noteq> 0" "owner x \<noteq> cp"
    and f: "shm_call f" and np: "next_ptr s \<noteq> 0" and I: "sched_inv (current_thread s) s Q"
    and w: "wakeupOnRq x = 0 \<or> live s (wakeupOnRq x) \<and> wakeupOnRq x \<noteq> current_thread s" and h: "has_shm s cp a m sm sg"
  shows "\<exists>s' Q'. mkrequest_fill ob rqer f a b c s = Some ((next_ptr s, 0), s')
     \<and> the_obj s' ob = Some (x\<lparr>ob_request := next_ptr s, wakeupOnRq := 0\<rparr>)
     \<and> the_rq s' (next_ptr s) = Some (shm_rq ob rqer f b c (pid p) (kjunk s (next_ptr s)) m (sm_len sm))
     \<and> sched_inv (current_thread s) s' Q' \<and> current_thread s' = current_thread s \<and> maps_kept s sm sg s'
     \<and> (waiting s (wakeupOnRq x) \<and> wakeupOnRq x \<noteq> idle_thread s \<longrightarrow> ready (current_thread s) s' (wakeupOnRq x))"
proof -
  let ?rq = "next_ptr s" and ?c = "current_thread s"
  have ob: "ob \<noteq> 0" "objs s ob = Some x" using x(1) by (auto simp: the_obj_def split: if_splits)
  have t: "param_type f 0 = PT_SHM" "param_type f 1 = PT_VOID \<or> param_type f 1 = PT_LONG" "param_type f 2 = PT_VOID \<or> param_type f 2 = PT_LONG"
    using f by (auto simp: shm_call_def)
  define q where "q = shm_rq ob rqer f b c (pid p) (kjunk s ?rq) m (sm_len sm)"
  define q0 where "q0 = blank_request ob rqer f (pid p) (kjunk s ?rq)"
  define s0 where "s0 = s\<lparr>next_ptr := ?rq + 1, rqs := (rqs s)(?rq \<mapsto> q0)\<rparr>"
  define s1 where "s1 = s\<lparr>next_ptr := ?rq + 1, rqs := (rqs s)(?rq \<mapsto> q), segs := (segs s)(sm_seg sm \<mapsto> one_more sg)\<rparr>"
  have h0: "has_shm s0 cp a m sm sg" by (rule has_shm_same[OF h]) (simp_all add: s0_def)
  have q0: "the_rq s0 ?rq = Some q0" "func q0 = f" "params q0 = [0, 0, 0]" "shm_sndr q0 = [0, 0, 0]" "shmsize q0 = [of_nat (kjunk s ?rq), of_nat (kjunk s ?rq), of_nat (kjunk s ?rq)]"
    using np by (simp_all add: s0_def the_rq_def q0_def blank_request_def)
  define qa where "qa = q0\<lparr>shm_sndr := [m, 0, 0], shmsize := [sm_len sm, of_nat (kjunk s ?rq), of_nat (kjunk s ?rq)]\<rparr>"
  define st where "st q = s\<lparr>next_ptr := ?rq + 1, rqs := (rqs s)(?rq \<mapsto> q), segs := (segs s)(sm_seg sm \<mapsto> one_more sg)\<rparr>" for q
  have st: "the_rq (st q) ?rq = Some q" "st q\<lparr>rqs := (rqs (st q))(?rq \<mapsto> q')\<rparr> = st q'" for q q' using np by (simp_all add: st_def the_rq_def)
  have "mk_param cp (owner x) ?rq 0 a s0 = Some (st qa)"
    using mk_param_shm[OF q0(1) _ x(3) h0, of 0] t(1) by (simp only: q0 qa_def list_update_code) (simp add: s0_def st_def)
  moreover have "mk_param cp (owner x) ?rq 1 b (st qa) = Some (st (qa\<lparr>params := [0, arg f 1 b, 0]\<rparr>))"
    using mk_param_value[OF st(1) _ t(2), of qa cp "owner x" b] by (simp add: st(2) qa_def q0)
  moreover have "mk_param cp (owner x) ?rq 2 c (st (qa\<lparr>params := [0, arg f 1 b, 0]\<rparr>)) = Some s1"
    using mk_param_value[OF st(1) _ t(3), of "qa\<lparr>params := [0, arg f 1 b, 0]\<rparr>" cp "owner x" c]
    by (simp add: st(2) qa_def q0 numeral_2_eq_2) (simp add: st_def s1_def q_def shm_rq_def q0_def blank_request_def numeral_2_eq_2)
  ultimately have "mk_params cp (owner x) ?rq a b c s0 = Some s1" by (simp add: mk_params_def)
  then have e: "mkrequest_fill ob rqer f a b c s = (do { s \<leftarrow> attach_request ob ?rq s1; Some ((?rq, 0), s) })"
    using cp x by (simp add: mkrequest_fill_def kmalloc_ptr_def Let_def s0_def q0_def)
  have s1: "the_obj s1 ob = Some x" "sched_inv ?c s1 Q" "\<And>t. live s1 t = live s t" "\<And>t. waiting s1 t = waiting s t" "idle_thread s1 = idle_thread s"
    "objs s1 = objs s" "rqs s1 ?rq = Some q" "current_thread s1 = ?c" "maps_kept s sm sg s1"
    using x(1) I by (simp_all add: s1_def the_obj_def maps_kept_def)
  have "wakeupOnRq x = 0 \<or> live s1 (wakeupOnRq x) \<and> wakeupOnRq x \<noteq> ?c" using w s1(3) by simp
  from attach_request_ok[OF s1(1,2) this, of ?rq] obtain s2 s' Q' where s': "attach_request ob ?rq s1 = Some s'" "switch_only s1 s2"
      "s' = s2\<lparr>objs := (objs s1)(ob \<mapsto> x\<lparr>ob_request := ?rq, wakeupOnRq := 0\<rparr>)\<rparr>" "sched_inv ?c s' Q'" "current_thread s' = current_thread s1"
      "waiting s1 (wakeupOnRq x) \<and> wakeupOnRq x \<noteq> idle_thread s1 \<longrightarrow> ready ?c s' (wakeupOnRq x)"
    by (elim exE conjE) (rule that; assumption)
  note k = switch_only_fields[OF s'(2)]
  have "the_obj s' ob = Some (x\<lparr>ob_request := ?rq, wakeupOnRq := 0\<rparr>)" "the_rq s' ?rq = Some q" "maps_kept s sm sg s'"
    using s'(3) ob np k s1(6-9) by (simp_all add: the_obj_def the_rq_def maps_kept_def)
  then show ?thesis using e s' s1 by (intro exI[of _ s'] exI[of _ Q']) (simp add: q_def)
qed

lemma mkrequest_shm:
  assumes c: "can_send s i ob cp p x" "owner x \<noteq> cp" and f: "shm_call f" and I: "sched_inv (current_thread s) s Q" and h: "has_shm s cp a m sm sg"
  shows "\<exists>s' Q'. mkrequest i rqer f a b c r s = Some (Return (next_ptr s, 0), s') \<and> the_obj s' ob = Some (busy_with (next_ptr s) x)
     \<and> the_rq s' (next_ptr s) = Some (shm_rq ob rqer f b c (pid p) (kjunk s (next_ptr s)) m (sm_len sm))
     \<and> sched_inv (current_thread s) s' Q' \<and> current_thread s' = current_thread s \<and> maps_kept s sm sg s'
     \<and> (waiting s (wakeupOnRq x) \<and> wakeupOnRq x \<noteq> idle_thread s \<longrightarrow> ready (current_thread s) s' (wakeupOnRq x))"
proof -
  have "has_shm (locked ob x s) cp a m sm sg" by (rule has_shm_same[OF h]) simp_all
  then show ?thesis
    using mkrequest_fill_shm[OF mkrequest_unlocked(2)[OF c(1)] _ mkrequest_unlocked(3)[OF c(1)], of p f Q a m sm sg rqer b c]
      mkrequest_unlocked(1)[OF c(1), of rqer f a b c r] f c I
    by (simp add: busy_with_def can_send_def maps_kept_def) (elim exE conjE, intro exI conjI, (assumption | simp)+)
qed

section \<open>Receiving\<close>

lemma seg_map_frame:
  "seg_map g pd off s = Some (m, s') \<Longrightarrow> rqs s' = rqs s \<and> objs s' = objs s \<and> freed_ptrs s' = freed_ptrs s"
  by (auto simp: seg_map_def simpleseg_map_def shmseg_map_def new_map_def kmalloc_ptr_def Let_def upd_defs split: bind_splits if_splits segdata.splits)

lemma maps_of_same: "segmaps s' = segmaps s \<Longrightarrow> pdirs s' = pdirs s \<Longrightarrow> maps_of s' pd ms = maps_of s pd ms"
  using deref_cong(3)[of s' s] by (simp add: maps_of_def)

lemma mapShm_message:
  assumes y: "the_obj t ob = Some y" "ob_request y = rq" and q: "the_rq t rq = Some q" "acknowledged q = RS_PROCESSED" "requester q = 0" "shm_sndr q = [m, 0, 0]" "shm_rcv q = [0, 0, 0]"
      "param_type (func q) 0 = PT_SHM"
    and o: "serves (owner y) j ob t" "the_proc t (owner y) = Some po" "maps_of t (pagedir po) ms" "next_ptr t \<noteq> 0" "next_ptr t \<notin> set ms"
    and m: "the_map t m = Some sm" "the_seg t (sm_seg sm) = Some g" "sg_data g = ShmSeg sh"
  shows "\<exists>t' sm'. request_mapShm j pos 0 t = Some (0, t') \<and> maps_of t' (pagedir po) (next_ptr t # ms)
     \<and> segmaps t' (next_ptr t) = Some sm' \<and> sm_seg sm' = sm_seg sm \<and> sm_start sm' = pos \<and> sm_len sm' = sh_len sh
     \<and> segs t' (sm_seg sm) = Some g \<and> the_obj t' ob = Some (y\<lparr>ob_request := 0, busyMutex := MUTEX_UNLOCKED\<rparr>) \<and> rq \<in> freed_ptrs t'"
proof -
  have nz: "rq \<noteq> 0" "ob \<noteq> 0" "m \<noteq> 0" "sm_seg sm \<noteq> 0" using y(1) q(1) m(1,2) by (auto simp: the_rq_def the_obj_def the_map_def the_seg_def split: if_splits)
  from seg_map_ok[OF o(3) m(2) o(4,5), of pos] m(3) obtain t1 sm' where t1: "seg_map (sm_seg sm) (pagedir po) pos t = Some (next_ptr t, t1)"
      "maps_of t1 (pagedir po) (next_ptr t # ms)" "segs t1 (sm_seg sm) = Some (g\<lparr>sg_mappings := sg_mappings g + 1\<rparr>)" "segmaps t1 (next_ptr t) = Some sm'"
      "sm_seg sm' = sm_seg sm" "sm_start sm' = pos" "sm_len sm' = sh_len sh" by auto
  from seg_map_frame[OF t1(1)] have f: "rqs t1 = rqs t" "objs t1 = objs t" "freed_ptrs t1 = freed_ptrs t" by auto
  define q' where "q' = q\<lparr>shm_rcv := [next_ptr t, 0, 0]\<rparr>"
  define t2 where "t2 = t1\<lparr>rqs := (rqs t)(rq \<mapsto> q'), segs := (segs t1)(sm_seg sm \<mapsto> g)\<rparr>"
  have mp: "map_param (owner y) rq q pos 0 t = Some t2"
    using m(1) o(2) t1(1,3) q(1,4,5) nz f by (simp add: map_param_def upd_rq_def upd_seg_def the_rq_def the_seg_def t2_def q'_def)
  have t2: "the_rq t2 rq = Some q'" "maps_of t2 (pagedir po) (next_ptr t # ms)" "the_obj t2 ob = Some y" "segmaps t2 = segmaps t1" "segs t2 (sm_seg sm) = Some g"
    using nz y(1) f maps_of_same[of t2 t1] t1(2) by (simp_all add: t2_def the_rq_def the_obj_def)
  define t3 where "t3 = t2\<lparr>freed_ptrs := insert rq (freed_ptrs t2), objs := (objs t2)(ob \<mapsto> y\<lparr>ob_request := 0, busyMutex := MUTEX_UNLOCKED\<rparr>)\<rparr>"
  have fin: "finish_request ob rq t2 = Some t3"
    using t2(3) nz by (simp add: finish_request_def kfree_ptr_def mutex_unlock_def upd_obj_def the_obj_def t3_def)
  have "request_mapShm j pos 0 t = Some (0, t3)"
    using o(1) y q nz mp t2(1) fin o(4) by (simp add: request_mapShm_def serves_def rq_consts q'_def)
  moreover have "maps_of t3 (pagedir po) (next_ptr t # ms)" using t2(2) maps_of_same[of t3 t2] by (simp add: t3_def)
  ultimately show ?thesis using t1(4-7) t2(4,5) nz by (intro exI[of _ t3] exI[of _ sm']) (simp add: t3_def the_obj_def)
qed

section \<open>Properties\<close>

text \<open>
  C35. Shared memory in a message: the sender names it by its address, the receiver gets its size, and \<open>request_mapShm\<close> puts a mapping of the same segment at
  an address of its choice into its own address space, with one mapping more counted; then the message is done and the object is free again. (The mapping of the sender has to exist
  until then.)
\<close>

theorem shm_delivery:
  assumes "can_send s i ob cp p x" and "owner x \<noteq> cp" and "shm_call (us_func u)" and "sched_inv (current_thread s) s Q" and "has_shm s cp (us_a u) m sm sg"
  shows "\<exists>s'. send_msg i u r s = Some (Return (0, u\<lparr>us_errcode := 0\<rparr>), s')
     \<and> (waiting s (wakeupOnRq x) \<and> wakeupOnRq x \<noteq> idle_thread s \<longrightarrow> ready (current_thread s) s' (wakeupOnRq x))
     \<and> (\<forall>t j wait r' po ms sh pos. untouched ob (next_ptr s) s' t \<and> serves (owner x) j ob t \<and> the_map t m = Some sm \<and> segs t (sm_seg sm) = segs s' (sm_seg sm)
          \<and> sg_data sg = ShmSeg sh \<and> the_proc t (owner x) = Some po \<and> maps_of t (pagedir po) ms \<and> next_ptr t \<noteq> 0 \<and> next_ptr t \<notin> set ms \<longrightarrow>
          (\<exists>ur t1 t2 sm'. request_get j wait r' t = Some (Return (0, Some ur), t1) \<and> ur_func ur = us_func u \<and> ur_shmsize ur ! 0 = sm_len sm \<and> \<not> ur_isBlocking ur
             \<and> request_mapShm j pos 0 t1 = Some (0, t2) \<and> maps_of t2 (pagedir po) (next_ptr t # ms) \<and> segmaps t2 (next_ptr t) = Some sm'
             \<and> sm_seg sm' = sm_seg sm \<and> sm_start sm' = pos \<and> sm_len sm' = sh_len sh
             \<and> segs t2 (sm_seg sm) = Some (sg\<lparr>sg_mappings := sg_mappings sg + 1\<rparr>)
             \<and> the_obj t2 ob = Some (x\<lparr>ob_request := 0, wakeupOnRq := 0\<rparr>) \<and> next_ptr s \<in> freed_ptrs t2))"
proof -
  let ?rq = "next_ptr s" and ?q = "shm_rq ob 0 (us_func u) (us_b u) (us_c u) (pid p) (kjunk s (next_ptr s)) m (sm_len sm)"
  obtain s' where s': "mkrequest i 0 (us_func u) (us_a u) (us_b u) (us_c u) r s = Some (Return (?rq, 0), s')" "the_obj s' ob = Some (busy_with ?rq x)" "the_rq s' ?rq = Some ?q"
      "maps_kept s sm sg s'" "waiting s (wakeupOnRq x) \<and> wakeupOnRq x \<noteq> idle_thread s \<longrightarrow> ready (current_thread s) s' (wakeupOnRq x)"
    using mkrequest_shm[OF assms, of 0 "us_b u" "us_c u" r] by (elim exE conjE) (rule that; assumption)
  have nz: "?rq \<noteq> 0" "busyMutex x = MUTEX_UNLOCKED" "m \<noteq> 0" "sm_seg sm \<noteq> 0"
    using assms(1,5) by (auto simp: can_send_def has_shm_def the_map_def the_seg_def split: if_splits)
  note q = shm_rq_fields[of ob 0 "us_func u" "us_b u" "us_c u" "pid p" "kjunk s ?rq" m "sm_len sm"]
  let ?q' = "?q\<lparr>acknowledged := RS_PROCESSED\<rparr>" and ?y = "busy_with ?rq x"
  have rcv: "\<exists>ur t1 t2 sm'. request_get j wait r' t = Some (Return (0, Some ur), t1) \<and> ur_func ur = us_func u \<and> ur_shmsize ur ! 0 = sm_len sm \<and> \<not> ur_isBlocking ur
             \<and> request_mapShm j pos 0 t1 = Some (0, t2) \<and> maps_of t2 (pagedir po) (next_ptr t # ms) \<and> segmaps t2 (next_ptr t) = Some sm'
             \<and> sm_seg sm' = sm_seg sm \<and> sm_start sm' = pos \<and> sm_len sm' = sh_len sh \<and> segs t2 (sm_seg sm) = Some (one_more sg)
             \<and> the_obj t2 ob = Some (x\<lparr>ob_request := 0, wakeupOnRq := 0\<rparr>) \<and> ?rq \<in> freed_ptrs t2"
    if t: "untouched ob ?rq s' t" "serves (owner x) j ob t" "the_map t m = Some sm" "segs t (sm_seg sm) = segs s' (sm_seg sm)" "sg_data sg = ShmSeg sh"
      "the_proc t (owner x) = Some po" "maps_of t (pagedir po) ms" "next_ptr t \<noteq> 0" "next_ptr t \<notin> set ms" for t j wait r' po ms sh pos
  proof -
    define t1 where "t1 = t\<lparr>rqs := (rqs t)(?rq \<mapsto> ?q')\<rparr>"
    have o: "the_obj t ob = Some ?y" "the_rq t ?rq = Some ?q" using t(1) s'(2,3) by (simp_all add: untouched_def)
    have "request_take ob t = Some ((0, Some (seen ?q)), t1)" using request_take_kept[OF o(1), of ?q] o(2) nz(3) by (simp add: q t1_def)
    then have get: "request_get j wait r' t = Some (Return (0, Some (seen ?q)), t1)" using request_get_pending[OF o(1) _ _ o(2)] t(2) by (simp add: q)
    have "maps_of t1 (pagedir po) ms" using t(7) maps_of_same[of t1 t] by (simp add: t1_def)
    moreover have "the_obj t1 ob = Some ?y" "the_rq t1 ?rq = Some ?q'" "the_proc t1 (owner ?y) = Some po" "next_ptr t1 = next_ptr t" "the_map t1 m = Some sm" "serves (owner ?y) j ob t1"
      using o t(2,3,6) nz(1) serves_rqs[OF t(2)] by (simp_all add: t1_def the_obj_def the_rq_def the_proc_def the_map_def)
    moreover have "the_seg t1 (sm_seg sm) = Some (one_more sg)" "sg_data (one_more sg) = ShmSeg sh" "param_type (us_func u) 0 = PT_SHM"
      using t(4,5) s'(4) nz(4) assms(3) by (simp_all add: t1_def the_seg_def maps_kept_def one_more_def shm_call_def)
    ultimately obtain t2 sm' where "request_mapShm j pos 0 t1 = Some (0, t2)" "maps_of t2 (pagedir po) (next_ptr t # ms)" "segmaps t2 (next_ptr t) = Some sm'"
      "sm_seg sm' = sm_seg sm" "sm_start sm' = pos" "sm_len sm' = sh_len sh" "segs t2 (sm_seg sm) = Some (one_more sg)"
      "the_obj t2 ob = Some (?y\<lparr>ob_request := 0, busyMutex := MUTEX_UNLOCKED\<rparr>)" "?rq \<in> freed_ptrs t2"
      using mapShm_message[of t1 ob ?y ?rq ?q' m j po ms sm "one_more sg" sh pos] t(8,9) by (auto simp: q)
    moreover have "?y\<lparr>ob_request := 0, busyMutex := MUTEX_UNLOCKED\<rparr> = x\<lparr>ob_request := 0, wakeupOnRq := 0\<rparr>" using nz(2) by (simp add: busy_with_def)
    ultimately show ?thesis using get by (intro exI[of _ "seen ?q"] exI[of _ t1] exI[of _ t2] exI[of _ sm']) (simp add: seen_def q)
  qed
  show ?thesis using s'(1,5) nz(1) rcv unfolding one_more_def by (intro exI[of _ s'] conjI allI impI) (simp_all add: send_msg_def msg_made_def)
qed

lemma seg_unmap_freed: "seg_unmap m s = Some s' \<Longrightarrow> m \<in> freed_ptrs s'"
  by (auto simp: seg_unmap_def kfree_ptr_def the_map_def split: bind_splits if_splits)

text \<open>A pending request whose shared memory the sender deletes.\<close>

lemma delete_pending:
  assumes "current_process s = Some cp" and "shmseg_getByOff cp a s = Some m" and "m \<noteq> 0" and "shm_delete a s = Some (e, t)"
  shows "e = 0 \<and> m \<in> freed_ptrs t \<and> the_obj t = the_obj s \<and> the_rq t = the_rq s"
proof -
  from assms have e: "e = 0" "seg_unmap m s = Some t" by (auto simp: shm_delete_def current_process_def split: bind_splits if_splits)
  from seg_unmap_not_mem[OF e(2)] have "objs t = objs s" "rqs t = rqs s" by (simp_all add: not_mem_def)
  then show ?thesis using e(1) seg_unmap_freed[OF e(2)] deref_cong(6,8) by blast
qed

text \<open>
  C40. A message refers to the mapping of the sender, and sending returns at once: if the sender deletes the shared memory before the receiver has mapped it, as \<open>c_registerSvc\<close> does, the
  pending request refers to freed memory, which \<open>request_mapShm\<close> of the receiver will read.
\<close>

theorem shm_message_dangling:
  assumes "can_send s i ob cp p x" and "owner x \<noteq> cp" and "shm_call (us_func u)" and "sched_inv (current_thread s) s Q" and "has_shm s cp (us_a u) m sm sg"
  shows "\<exists>s' q. send_msg i u r s = Some (Return (0, u\<lparr>us_errcode := 0\<rparr>), s') \<and> freed_ptrs s' = freed_ptrs s \<and> acknowledged q = RS_PENDING \<and> shm_sndr q ! 0 = m
     \<and> (\<forall>t e t'. untouched ob (next_ptr s) s' t \<and> current_process t = Some cp \<and> shmseg_getByOff cp (us_a u) t = Some m \<and> shm_delete (us_a u) t = Some (e, t') \<longrightarrow>
          e = 0 \<and> the_obj t' ob = Some (busy_with (next_ptr s) x) \<and> the_rq t' (next_ptr s) = Some q \<and> m \<in> freed_ptrs t')"
proof -
  let ?rq = "next_ptr s" and ?q = "shm_rq ob 0 (us_func u) (us_b u) (us_c u) (pid p) (kjunk s (next_ptr s)) m (sm_len sm)"
  obtain s' where s': "mkrequest i 0 (us_func u) (us_a u) (us_b u) (us_c u) r s = Some (Return (?rq, 0), s')" "the_obj s' ob = Some (busy_with ?rq x)" "the_rq s' ?rq = Some ?q"
      "maps_kept s sm sg s'"
    using mkrequest_shm[OF assms, of 0 "us_b u" "us_c u" r] by (elim exE conjE) (rule that; assumption)
  have nz: "?rq \<noteq> 0" "m \<noteq> 0" using assms(1,5) by (auto simp: can_send_def has_shm_def the_map_def split: if_splits)
  have "send_msg i u r s = Some (Return (0, u\<lparr>us_errcode := 0\<rparr>), s')" using s'(1) nz(1) by (simp add: send_msg_def msg_made_def)
  moreover have "freed_ptrs s' = freed_ptrs s" "acknowledged ?q = RS_PENDING" "shm_sndr ?q ! 0 = m" using s'(4) by (simp_all add: maps_kept_def shm_rq_fields)
  moreover have "e = 0 \<and> the_obj t' ob = Some (busy_with ?rq x) \<and> the_rq t' ?rq = Some ?q \<and> m \<in> freed_ptrs t'"
    if "untouched ob ?rq s' t" "current_process t = Some cp" "shmseg_getByOff cp (us_a u) t = Some m" "shm_delete (us_a u) t = Some (e, t')" for t e t'
    using delete_pending[OF that(2,3) nz(2) that(4)] that(1) s'(2,3) by (simp add: untouched_def)
  ultimately show ?thesis by blast
qed

section \<open>Examples\<close>

text \<open>
  The processes 1 and 7 of the example of remote calls with an address space each; process 1 has the shared segment 36 of two pages at 0x80000000.
\<close>

definition shm_dir :: "ptr \<Rightarrow> page_directory" where
  "shm_dir m = \<lparr>pd_tables = (\<lambda>_. 0), pd_tablesPhysical = (\<lambda>_. 0), pd_page = 0, pd_physicalAddr = 0x2000, pd_mappedSegs = m\<rparr>"

definition shm_segment :: segment where
  "shm_segment = \<lparr>sg_data = ShmSeg \<lparr>sh_len = 0x2000, sh_frames = [0, 0], sh_framesAt = 37, sh_owner = 1\<rparr>, sg_dataAt = 38, sg_mappings = 1\<rparr>"

definition shm_mapping :: segment_map where
  "shm_mapping = \<lparr>sm_seg = 36, sm_pagedir = 10, sm_start = 0x80000000, sm_len = 0x2000, sm_next = 0\<rparr>"

definition shm_demo :: "ptr \<Rightarrow> kernel" where
  "shm_demo c = rpc_demo c\<lparr>procs := (procs (rpc_demo c))(7 \<mapsto> (demo_proc 2 8)\<lparr>pid := 3, objects := 21, next_objdesc := 1, pagedir := 11\<rparr>),
     pdirs := [10 \<mapsto> shm_dir 35, 11 \<mapsto> shm_dir 0], segs := [36 \<mapsto> shm_segment], segmaps := [35 \<mapsto> shm_mapping]\<rparr>"

definition shm_request :: user_sendrequest where
  "shm_request = rpc_call\<lparr>us_func := 0x3800000C, us_a := 0x80000000\<rparr>"

lemma sched_inv_memory:
  assumes I: "sched_inv c s Q" and s': "s' = s\<lparr>procs := P, pdirs := D, segs := G, segmaps := M\<rparr>"
    and p: "\<And>x y. the_proc s x = Some y \<Longrightarrow> \<exists>y' d. the_proc s' x = Some y' \<and> privilege y' = privilege y \<and> the_pd s' (pagedir y') = Some d"
  shows "sched_inv c s' Q"
proof -
  have th: "the_thr s' = the_thr s" "freed_ptrs s' = freed_ptrs s" "idle_thread s' = idle_thread s" using deref_cong(2)[of s' s] by (simp_all add: s')
  then have l: "live s' t = live s t" "ready c s' t = ready c s t" for t by (simp_all add: live_def ready_def)
  have ok: "thr_ok s' t" "PRIORITY s' t = PRIORITY s t" if "live s t" for t
    using sched_invD(3)[OF I that] p by (fastforce simp: thr_ok_def PRIORITY_def th)+
  have "runq s' Q" using sched_invD(1)[OF I] by (simp add: runq_def s')
  then show ?thesis using I ok ready_live[of c s] by (auto simp: sched_inv_def l th)
qed

lemma shm_demo_inv: "c = 6 \<or> c = 8 \<Longrightarrow> sched_inv c (shm_demo c) ((\<lambda>_. [])(3 := [2, 3]))"
  by (rule sched_inv_memory[OF rpc_inv shm_demo_def])
    (auto simp: shm_demo_def the_proc_def the_pd_def rpc_demo_def demo_proc_def split: if_splits)

lemma shm_demo_same:
  "descs (shm_demo c) = descs (rpc_demo c)" "objs (shm_demo c) = objs (rpc_demo c)" "thrs (shm_demo c) = thrs (rpc_demo c)" "freed_ptrs (shm_demo c) = freed_ptrs (rpc_demo c)"
  "current_thread (shm_demo c) = c" "next_ptr (shm_demo c) = 40" "idle_thread (shm_demo c) = 4" "segmaps (shm_demo c) = [35 \<mapsto> shm_mapping]" "segs (shm_demo c) = [36 \<mapsto> shm_segment]"
  "pdirs (shm_demo c) = [10 \<mapsto> shm_dir 35, 11 \<mapsto> shm_dir 0]"
  by (simp_all add: shm_demo_def rpc_fields)

lemma shm_demo_procs:
  "the_proc (shm_demo c) 1 = Some ((demo_proc 3 2)\<lparr>objects := 22, next_objdesc := 2\<rparr>)"
  "the_proc (shm_demo c) 7 = Some ((demo_proc 2 8)\<lparr>pid := 3, objects := 21, next_objdesc := 1, pagedir := 11\<rparr>)"
  by (simp_all add: shm_demo_def rpc_demo_def the_proc_def)

lemmas shm_procs = shm_demo_procs shm_demo_procs(1)[unfolded One_nat_def]

lemma shm_demo_tables: "desc_table (shm_demo c) 1 [(0, 30), (1, 31)]" "desc_table (shm_demo c) 7 [(0, 30)]"
proof -
  have "desc_list (shm_demo c) 1 [22, 23] [(0, 30), (1, 31)]" "desc_list (shm_demo c) 7 [21] [(0, 30)]"
    by (simp_all add: desc_list_def shm_procs entry_def shm_demo_same) (simp_all add: rpc_demo_def)
  then show "desc_table (shm_demo c) 1 [(0, 30), (1, 31)]" "desc_table (shm_demo c) 7 [(0, 30)]" by (auto simp: desc_table_def)
qed

lemma shm_demo_send: "can_send (shm_demo 6) 0 30 1 ((demo_proc 3 2)\<lparr>objects := 22, next_objdesc := 2\<rparr>) rpc_object"
proof -
  have "objdesc_read 1 0 (shm_demo 6) = Some 30" using dt.read_entry[OF shm_demo_tables(1)] by simp
  moreover have "live (shm_demo 6) 8" "current_process (shm_demo 6) = Some 1" "the_obj (shm_demo 6) 30 = Some rpc_object"
    using rpc_process(1) rpc_fields(6)[of 6] deref_cong(2)[OF shm_demo_same(3)] deref_cong(6)[OF shm_demo_same(2)]
    by (simp_all add: live_def current_process_def shm_demo_same rpc_fields rpc_threads)
  ultimately show ?thesis by (simp add: can_send_def shm_procs shm_demo_same) (simp add: rpc_object_def MUTEX_UNLOCKED_def)
qed

lemma shm_demo_has: "has_shm (shm_demo 6) 1 0x80000000 35 shm_mapping shm_segment"
proof -
  have "getByOff (shm_demo 6) 35 0x80000000 = Some 35"
    by (subst getByOff_step) (simp add: the_map_def the_seg_def shm_demo_same shm_mapping_def shm_segment_def is_shm_def)
  then have "shmseg_getByOff 1 0x80000000 (shm_demo 6) = Some 35"
    by (simp add: shmseg_getByOff_def shm_procs the_pd_def shm_demo_same demo_proc_def shm_dir_def)
  then show ?thesis by (simp add: has_shm_def the_map_def the_seg_def shm_demo_same) (simp add: shm_mapping_def shm_segment_def is_shm_def)
qed

lemma shm_demo_call: "shm_call (us_func shm_request)"
  by (simp add: shm_call_def shm_request_def param_type_def drop_bit_eq_div rq_consts)

theorem shm_delivery_witness:
  "\<exists>s' ur t1 t2 sm'. send_msg 0 shm_request \<lparr>esp = 0, ebp = 0, eip = 0\<rparr> (shm_demo 6) = Some (Return (0, shm_request), s') \<and> ready 6 s' 8
     \<and> request_get 0 True \<lparr>esp = 0, ebp = 0, eip = 0\<rparr> (shm_demo 8\<lparr>objs := objs s', rqs := rqs s', segs := segs s'\<rparr>) = Some (Return (0, Some ur), t1)
     \<and> ur_shmsize ur ! 0 = 0x2000 \<and> request_mapShm 0 0x90000000 0 t1 = Some (0, t2) \<and> maps_of t2 11 [40] \<and> segmaps t2 40 = Some sm'
     \<and> sm_seg sm' = 36 \<and> sm_start sm' = 0x90000000 \<and> sm_len sm' = 0x2000"
proof -
  let ?r = "\<lparr>esp = 0, ebp = 0, eip = 0 :: u32\<rparr>" and ?t = "\<lambda>s'. shm_demo 8\<lparr>objs := objs s', rqs := rqs s', segs := segs s'\<rparr>"
  have f: "us_a shm_request = 0x80000000" "shm_request\<lparr>us_errcode := 0\<rparr> = shm_request" "owner rpc_object = 7" "wakeupOnRq rpc_object = 8"
    by (simp_all add: shm_request_def rpc_call_def rpc_object_def)
  have I: "sched_inv (current_thread (shm_demo 6)) (shm_demo 6) ((\<lambda>_. [])(3 := [2, 3]))" using shm_demo_inv[of 6] by (simp add: shm_demo_same)
  have w: "waiting (shm_demo 6) 8" using deref_cong(2)[OF shm_demo_same(3)] by (simp add: waiting_def rpc_threads rpc_thread_def)
  have "owner rpc_object \<noteq> 1" "has_shm (shm_demo 6) 1 (us_a shm_request) 35 shm_mapping shm_segment" using shm_demo_has by (simp_all add: f)
  note d = shm_delivery[OF shm_demo_send this(1) shm_demo_call I this(2), of ?r, unfolded f shm_demo_same]
  obtain s' where s': "send_msg 0 shm_request ?r (shm_demo 6) = Some (Return (0, shm_request), s')" "ready 6 s' 8"
    and g: "\<forall>t j wait r' po ms sh pos. untouched 30 40 s' t \<and> serves 7 j 30 t \<and> the_map t 35 = Some shm_mapping \<and> segs t (sm_seg shm_mapping) = segs s' (sm_seg shm_mapping)
          \<and> sg_data shm_segment = ShmSeg sh \<and> the_proc t 7 = Some po \<and> maps_of t (pagedir po) ms \<and> next_ptr t \<noteq> 0 \<and> next_ptr t \<notin> set ms \<longrightarrow>
          (\<exists>ur t1 t2 sm'. request_get j wait r' t = Some (Return (0, Some ur), t1) \<and> ur_func ur = us_func shm_request \<and> ur_shmsize ur ! 0 = sm_len shm_mapping \<and> \<not> ur_isBlocking ur
             \<and> request_mapShm j pos 0 t1 = Some (0, t2) \<and> maps_of t2 (pagedir po) (next_ptr t # ms) \<and> segmaps t2 (next_ptr t) = Some sm'
             \<and> sm_seg sm' = sm_seg shm_mapping \<and> sm_start sm' = pos \<and> sm_len sm' = sh_len sh
             \<and> segs t2 (sm_seg shm_mapping) = Some (shm_segment\<lparr>sg_mappings := sg_mappings shm_segment + 1\<rparr>)
             \<and> the_obj t2 30 = Some (rpc_object\<lparr>ob_request := 0, wakeupOnRq := 0\<rparr>) \<and> 40 \<in> freed_ptrs t2)"
    using d by (elim exE conjE) (rule that, assumption, use w in simp, assumption)
  let ?po = "(demo_proc 2 8)\<lparr>pid := 3, objects := 21, next_objdesc := 1, pagedir := 11\<rparr>"
  let ?sh = "\<lparr>sh_len = 0x2000, sh_frames = [0, 0], sh_framesAt = 37, sh_owner = 1\<rparr>"
  have "objdesc_read 7 0 (?t s') = Some 30"
    using objdesc_read_same[of "?t s'" "shm_demo 8"] dt.read_entry[OF shm_demo_tables(2)] by simp
  moreover have "current_process (shm_demo 8) = Some 7" using rpc_process(2) deref_cong(2)[OF shm_demo_same(3)] by (simp add: current_process_def shm_demo_same rpc_fields)
  ultimately have "serves 7 0 30 (?t s')" by (simp add: serves_def current_process_def)
  moreover have "untouched 30 40 s' (?t s')" "the_map (?t s') 35 = Some shm_mapping" "the_proc (?t s') 7 = Some ?po" "maps_of (?t s') (pagedir ?po) []"
    "next_ptr (?t s') = 40" "sg_data shm_segment = ShmSeg ?sh"
    using shm_procs(2)[of 8] by (simp_all add: untouched_def the_obj_def the_rq_def the_map_def the_proc_def maps_of_def the_pd_def shm_demo_same shm_dir_def shm_segment_def)
  ultimately obtain ur t1 t2 sm' where "request_get 0 True ?r (?t s') = Some (Return (0, Some ur), t1)" "ur_shmsize ur ! 0 = sm_len shm_mapping"
      "request_mapShm 0 0x90000000 0 t1 = Some (0, t2)" "maps_of t2 (pagedir ?po) [40]" "segmaps t2 40 = Some sm'"
      "sm_seg sm' = sm_seg shm_mapping" "sm_start sm' = 0x90000000" "sm_len sm' = sh_len ?sh"
    using g[THEN spec[where x = "?t s'"], THEN spec[where x = 0], THEN spec[where x = True], THEN spec[where x = ?r], THEN spec[where x = ?po], THEN spec[where x = "[]"], THEN spec[where x = ?sh], THEN spec[where x = "0x90000000"]]
    by auto
  then show ?thesis using s' by (intro exI[of _ s'] exI[of _ ur] exI[of _ t1] exI[of _ t2] exI[of _ sm']) (simp add: shm_mapping_def)
qed

lemma shm_demo_delete:
  fixes f g
  defines "t \<equiv> shm_demo 6\<lparr>objs := f, rqs := g, segs := [36 \<mapsto> one_more shm_segment]\<rparr>"
  shows "\<exists>t'. shm_delete 0x80000000 t = Some (0, t')" "current_process t = Some 1" "shmseg_getByOff 1 0x80000000 t = Some 35"
proof -
  have d: "the_pd t 10 = Some (shm_dir 35)" "the_map t 35 = Some shm_mapping" "the_seg t 36 = Some (one_more shm_segment)"
    by (simp_all add: t_def the_pd_def the_map_def the_seg_def shm_demo_same)
  have pg: "pagedir_getPage 10 a False t = Some (None, t)" for a by (simp add: pagedir_getPage_def getPage_with_def d(1) shm_dir_def Let_def)
  have "unmap_range 10 0x80000000 0x2000 0x2000 t = Some t" "unmap_range 10 0x80000000 0x1000 0x2000 t = unmap_range 10 0x80000000 0x2000 0x2000 t"
    "unmap_range 10 0x80000000 0 0x2000 t = unmap_range 10 0x80000000 0x1000 0x2000 t"
    by (subst unmap_range.simps, simp add: pg page_unmap_def)+
  then have "shmseg_unmap shm_mapping t = Some t" by (simp add: shmseg_unmap_def shm_mapping_def)
  moreover have "unlink_map 35 shm_mapping t = Some (t\<lparr>pdirs := (pdirs t)(10 \<mapsto> (shm_dir 35)\<lparr>pd_mappedSegs := 0\<rparr>)\<rparr>)"
    using d by (simp add: unlink_map_def upd_pd_def) (simp add: shm_mapping_def shm_dir_def upd_pd_def)
  ultimately have "\<exists>t'. seg_unmap 35 t = Some t'" using d
    by (simp add: seg_unmap_def) (simp add: shm_mapping_def upd_seg_def the_seg_def one_more_def shm_segment_def)
  have "same_maps (shm_demo 6) t" using shm_demo_same(9)[of 6] by (auto simp: same_maps_def t_def the_seg_def one_more_def is_shm_def shm_segment_def split: if_splits)
  then show gb: "shmseg_getByOff 1 0x80000000 t = Some 35" using shm_demo_has shmseg_getByOff_same[of "shm_demo 6" t] by (simp add: has_shm_def t_def)
  show cp: "current_process t = Some 1" using shm_demo_send by (simp add: can_send_def t_def current_process_def)
  show "\<exists>t'. shm_delete 0x80000000 t = Some (0, t')" using \<open>\<exists>t'. _\<close> gb cp by (auto simp: shm_delete_def current_process_def split: bind_splits)
qed

theorem shm_message_dangling_witness:
  "\<exists>s' t' q. send_msg 0 shm_request \<lparr>esp = 0, ebp = 0, eip = 0\<rparr> (shm_demo 6) = Some (Return (0, shm_request), s')
     \<and> shm_delete 0x80000000 (shm_demo 6\<lparr>objs := objs s', rqs := rqs s', segs := [36 \<mapsto> one_more shm_segment]\<rparr>) = Some (0, t')
     \<and> the_rq t' 40 = Some q \<and> acknowledged q = RS_PENDING \<and> shm_sndr q ! 0 = 35 \<and> 35 \<in> freed_ptrs t'"
proof -
  let ?r = "\<lparr>esp = 0, ebp = 0, eip = 0 :: u32\<rparr>" and ?t = "\<lambda>s'. shm_demo 6\<lparr>objs := objs s', rqs := rqs s', segs := [36 \<mapsto> one_more shm_segment]\<rparr>"
  have f: "us_a shm_request = 0x80000000" "shm_request\<lparr>us_errcode := 0\<rparr> = shm_request" "owner rpc_object \<noteq> 1"
    by (simp_all add: shm_request_def rpc_call_def rpc_object_def)
  have I: "sched_inv (current_thread (shm_demo 6)) (shm_demo 6) ((\<lambda>_. [])(3 := [2, 3]))" using shm_demo_inv[of 6] by (simp add: shm_demo_same)
  have h: "has_shm (shm_demo 6) 1 (us_a shm_request) 35 shm_mapping shm_segment" using shm_demo_has by (simp add: f)
  obtain s' q where s': "send_msg 0 shm_request ?r (shm_demo 6) = Some (Return (0, shm_request), s')" "acknowledged q = RS_PENDING" "shm_sndr q ! 0 = 35"
    and d: "\<And>t e t'. untouched 30 40 s' t \<and> current_process t = Some 1 \<and> shmseg_getByOff 1 0x80000000 t = Some 35 \<and> shm_delete 0x80000000 t = Some (e, t') \<Longrightarrow>
      the_rq t' 40 = Some q \<and> 35 \<in> freed_ptrs t'"
    using shm_message_dangling[OF shm_demo_send f(3) shm_demo_call I h, of ?r] unfolding f shm_demo_same by blast
  have "untouched 30 40 s' (?t s')" by (simp add: untouched_def the_obj_def the_rq_def)
  then show ?thesis using d[of "?t s'"] shm_demo_delete[where f = "objs s'" and g = "rqs s'"] s' by blast
qed

end
