(* ===== verification/Calls.thy ===== *)
theory Calls
  imports Server Strings ShmPass
begin

text \<open>
  Calls of a client that pass strings or arrays in shared memory: \<open>c_handleCheckA\<close> of \<^verbatim>\<open>src/library/gm/call.c\<close> and the calls to the
  manager, \<^verbatim>\<open>src/library/gm/call/manager.c\<close>. Each makes a new segment of shared memory, copies into it, makes a request or sends a message, and
  deletes the segment. The pages of shared memory come from the kernel when they are accessed; here they are part of
  the memory that the process sees. A function that waits for an answer is split: what follows has the suffix \<open>_end\<close>.

  Theorem: \<open>c_handleCheckA\<close> passes the wrong address, which stops the kernel.
\<close>

section \<open>Model\<close>

definition M_OPEN_OMVV :: u32 where "M_OPEN_OMVV = 10 OR MP 1 3 0 0"
definition M_REGISTERSVC_VMOV :: u32 where "M_REGISTERSVC_VMOV = 11 OR MP 0 3 1 0"
definition M_LOGSVC_VMIV :: u32 where "M_LOGSVC_VMIV = 12 OR MP 0 3 2 0"

definition lib_allocNew :: "u32 \<Rightarrow> 'a lib_scheme \<Rightarrow> (u32 \<times> 'a lib_scheme) option" where
  "lib_allocNew sz l = do { (p, sh, k) \<leftarrow> shm_allocNew sz (lib_shm l) (lib_k l); Some (p, l\<lparr>lib_shm := sh, lib_k := k\<rparr>) }"

definition lib_freeDel :: "u32 \<Rightarrow> 'a lib_scheme \<Rightarrow> 'a lib_scheme option" where
  "lib_freeDel p l = do { (sh, k) \<leftarrow> shm_freeDel p (lib_shm l) (lib_k l); Some (l\<lparr>lib_shm := sh, lib_k := k\<rparr>) }"

text \<open>The contents of \<open>sr\<close> before the call are \<open>junk\<close>; \<open>ptr\<close> and \<open>sr\<close> are local variables.\<close>

definition c_handleCheckA_end :: "u32 \<Rightarrow> user_sendrequest \<Rightarrow> 'a lib_scheme \<Rightarrow> (u32 \<times> 'a lib_scheme) option" where
  "c_handleCheckA_end ptr sr l = do { l \<leftarrow> lib_freeDel ptr l; Some (if us_errcode sr \<noteq> 0 then 0 else us_answeri sr, l) }"

definition c_handleCheckA :: "u32 \<Rightarrow> bool \<Rightarrow> u32 \<Rightarrow> u32 \<Rightarrow> user_sendrequest \<Rightarrow> cpu \<Rightarrow> 'a lib_scheme \<Rightarrow> (u32 outcome \<times> 'a lib_scheme) option" where
  "c_handleCheckA o' bl methods number junk r l = do {
     (ptr, l) \<leftarrow> lib_allocNew (4 * number) l;
     (_, s) \<leftarrow> memcpy ptr methods (sint (4 * number)) (lib_mem l);
     let l = l\<lparr>lib_mem := s\<rparr>;
     (v, k) \<leftarrow> CHC o' bl (junk\<lparr>us_func := M_HANDLECHECK_BMIV, us_a := methods, us_b := number\<rparr>) r (lib_k l);
     let l = l\<lparr>lib_k := k\<rparr>;
     case v of Wait r \<Rightarrow> Some (Wait r, l) | Return sr \<Rightarrow> do { (x, l) \<leftarrow> c_handleCheckA_end ptr sr l; Some (Return x, l) } }"

definition c_open_end :: "u32 \<Rightarrow> user_sendrequest \<Rightarrow> 'a lib_scheme \<Rightarrow> (u32 \<times> 'a lib_scheme) option" where
  "c_open_end ptr sr l = do { l \<leftarrow> lib_freeDel ptr l; Some (if us_errcode sr \<noteq> 0 then - 1 else us_answeri sr, l) }"

definition c_open :: "u32 \<Rightarrow> bool \<Rightarrow> u32 \<Rightarrow> user_sendrequest \<Rightarrow> cpu \<Rightarrow> 'a lib_scheme \<Rightarrow> (u32 outcome \<times> 'a lib_scheme) option" where
  "c_open o' bl c junk r l = do {
     n \<leftarrow> strlen (lib_mem l) c;
     (ptr, l) \<leftarrow> lib_allocNew (of_int (n + 1)) l;
     (_, s) \<leftarrow> strcpy ptr c (lib_mem l);
     let l = l\<lparr>lib_mem := s\<rparr>;
     (v, k) \<leftarrow> CHC o' bl (junk\<lparr>us_func := M_OPEN_OMVV, us_a := ptr\<rparr>) r (lib_k l);
     let l = l\<lparr>lib_k := k\<rparr>;
     case v of Wait r \<Rightarrow> Some (Wait r, l) | Return sr \<Rightarrow> do { (x, l) \<leftarrow> c_open_end ptr sr l; Some (Return x, l) } }"

definition open_obj :: "u32 \<Rightarrow> user_sendrequest \<Rightarrow> cpu \<Rightarrow> 'a lib_scheme \<Rightarrow> (u32 outcome \<times> 'a lib_scheme) option" where
  "open_obj c junk r l = c_open 1 True c junk r l"

definition c_registerSvc_end :: "u32 \<Rightarrow> 'a lib_scheme \<Rightarrow> 'a lib_scheme option" where
  "c_registerSvc_end ptr l = lib_freeDel ptr l"

definition c_registerSvc :: "u32 \<Rightarrow> user_sendrequest \<Rightarrow> cpu \<Rightarrow> 'a lib_scheme \<Rightarrow> (unit outcome \<times> 'a lib_scheme) option" where
  "c_registerSvc name junk r l = do {
     n \<leftarrow> strlen (lib_mem l) name;
     (ptr, l) \<leftarrow> lib_allocNew (of_int (n + 1)) l;
     (_, s) \<leftarrow> strcpy ptr name (lib_mem l);
     let l = l\<lparr>lib_mem := s\<rparr>;
     (v, k) \<leftarrow> send_msg 1 (junk\<lparr>us_func := M_REGISTERSVC_VMOV, us_a := ptr, us_b := 0\<rparr>) r (lib_k l);
     let l = l\<lparr>lib_k := k\<rparr>;
     case v of Wait r \<Rightarrow> Some (Wait r, l) | Return _ \<Rightarrow> do { l \<leftarrow> c_registerSvc_end ptr l; Some (Return (), l) } }"

definition c_logSvc_end :: "u32 \<Rightarrow> 'a lib_scheme \<Rightarrow> 'a lib_scheme option" where
  "c_logSvc_end ptr l = lib_freeDel ptr l"

definition c_logSvc :: "u32 \<Rightarrow> u32 \<Rightarrow> user_sendrequest \<Rightarrow> cpu \<Rightarrow> 'a lib_scheme \<Rightarrow> (unit outcome \<times> 'a lib_scheme) option" where
  "c_logSvc log level junk r l = do {
     n \<leftarrow> strlen (lib_mem l) log;
     (ptr, l) \<leftarrow> lib_allocNew (of_int (n + 1)) l;
     if ptr = 0 then Some (Return (), l)
     else do {
       (_, s) \<leftarrow> strcpy ptr log (lib_mem l);
       let l = l\<lparr>lib_mem := s\<rparr>;
       (v, k) \<leftarrow> request 1 (junk\<lparr>us_func := M_LOGSVC_VMIV, us_a := ptr, us_b := level\<rparr>) r (lib_k l);
       let l = l\<lparr>lib_k := k\<rparr>;
       case v of Wait r \<Rightarrow> Some (Wait r, l) | Return _ \<Rightarrow> do { l \<leftarrow> c_logSvc_end ptr l; Some (Return (), l) } } }"

text \<open>
  The start of a process, \<^verbatim>\<open>src/library/start.c\<close>, with the program \<open>main\<close> that is linked to it. A program that waits, and one that ends, is left by a switch
  to another thread.
\<close>

definition start_end :: "u32 \<Rightarrow> cpu \<Rightarrow> 'a lib_scheme \<Rightarrow> (cpu \<times> 'a lib_scheme) option" where
  "start_end ret r l = do { (r, k) \<leftarrow> process_exit ret r (lib_k l); Some (r, l\<lparr>lib_k := k\<rparr>) }"

definition process_start :: "(cpu \<Rightarrow> 'a lib_scheme \<Rightarrow> (u32 outcome \<times> 'a lib_scheme) option) \<Rightarrow> cpu \<Rightarrow> 'a lib_scheme \<Rightarrow> (cpu \<times> 'a lib_scheme) option" where
  "process_start main r l = do {
     l \<leftarrow> objsrv_init l;
     (v, l) \<leftarrow> main r l;
     case v of Wait r \<Rightarrow> Some (r, l) | Return ret \<Rightarrow> start_end ret r l }"

section \<open>The kernel after a new segment\<close>

definition fresh_segs :: "kernel \<Rightarrow> bool" where
  "fresh_segs k \<longleftrightarrow> next_ptr k \<noteq> 0 \<and> (\<forall>n\<ge>next_ptr k. segmaps k n = None \<and> segs k n = None)"

lemma shm_map_new:
  assumes "fresh_segs k" and "shmseg_make len own k = (se, k1)" and "seg_map se pd off k1 = Some (m, k')"
  shows "\<exists>d g. the_pd k pd = Some d \<and> is_shm g \<and> k' = k\<lparr>next_ptr := next_ptr k + 4, segs := (segs k)(next_ptr k + 1 \<mapsto> g),
     segmaps := (segmaps k)(next_ptr k + 3 \<mapsto> \<lparr>sm_seg = next_ptr k + 1, sm_pagedir = pd, sm_start = off, sm_len = len, sm_next = pd_mappedSegs d\<rparr>),
     pdirs := (pdirs k)(pd \<mapsto> d\<lparr>pd_mappedSegs := next_ptr k + 3\<rparr>)\<rparr>"
proof -
  let ?n = "next_ptr k"
  define g where "g = \<lparr>sg_data = ShmSeg \<lparr>sh_len = len, sh_frames = replicate (unat (len div 0x1000)) 0, sh_framesAt = ?n + 2, sh_owner = own\<rparr>, sg_dataAt = ?n, sg_mappings = 0\<rparr>"
  have k1: "se = ?n + 1" "k1 = k\<lparr>next_ptr := ?n + 3, segs := (segs k)(?n + 1 \<mapsto> g)\<rparr>"
    using assms(2) by (auto simp: shmseg_make_def kmalloc_ptr_def Let_def g_def eval_nat_numeral)
  have sg: "the_seg k1 se = Some g" "sg_data g = ShmSeg \<lparr>sh_len = len, sh_frames = replicate (unat (len div 0x1000)) 0, sh_framesAt = ?n + 2, sh_owner = own\<rparr>"
    by (simp_all add: k1 the_seg_def g_def)
  obtain d where d: "the_pd k pd = Some d" using assms(3) sg
    by (auto simp: seg_map_def shmseg_map_def new_map_def kmalloc_ptr_def Let_def upd_seg_def k1 the_pd_def the_seg_def split: bind_splits if_splits)
  then have "pd \<noteq> 0" "pdirs k pd = Some d" by (auto simp: the_pd_def split: if_splits)
  then show ?thesis using assms(3) sg d
    by (simp add: seg_map_def shmseg_map_def new_map_def kmalloc_ptr_def Let_def upd_seg_def upd_map_def upd_pd_def k1 the_pd_def the_seg_def the_map_def eval_nat_numeral)
      (intro exI[of _ "g\<lparr>sg_mappings := sg_mappings g + 1\<rparr>"], auto simp: is_shm_def)
qed

text \<open>A new segment at another address: descriptors, objects and the other segments of the process stay.\<close>

lemma shm_create_keeps:
  assumes "shm_create off len k = Some (e, k')" and c: "can_send k i ob cp p x" and fr: "fresh_segs k" and a: "a \<noteq> off" "shmseg_getByOff cp a k = Some m"
  shows "can_send k' i ob cp p x \<and> shmseg_getByOff cp a k' = Some m"
proof (cases "k' = k")
  case False
  have p: "current_process k = Some cp" "the_proc k cp = Some p" using c by (simp_all add: can_send_def)
  then obtain m' se k1 where "shmseg_make len cp k = (se, k1)" "seg_map se (pagedir p) off k1 = Some (m', k')"
    using assms(1) False by (auto simp: shm_create_def current_process_def split: bind_splits if_splits prod.splits)
  from shm_map_new[OF fr this] obtain d g where d: "the_pd k (pagedir p) = Some d" and k': "k' = k\<lparr>next_ptr := next_ptr k + 4, segs := (segs k)(next_ptr k + 1 \<mapsto> g),
     segmaps := (segmaps k)(next_ptr k + 3 \<mapsto> \<lparr>sm_seg = next_ptr k + 1, sm_pagedir = pagedir p, sm_start = off, sm_len = len, sm_next = pd_mappedSegs d\<rparr>),
     pdirs := (pdirs k)(pagedir p \<mapsto> d\<lparr>pd_mappedSegs := next_ptr k + 3\<rparr>)\<rparr>" by blast
  have f: "procs k' = procs k" "descs k' = descs k" "objs k' = objs k" "thrs k' = thrs k" "freed_ptrs k' = freed_ptrs k" "current_thread k' = current_thread k"
    by (simp_all add: k')
  have "can_send k' i ob cp p x" using c objdesc_read_same[OF f(1,2)] deref_cong(1)[OF f(1)] deref_cong(2)[OF f(4)] deref_cong(6)[OF f(3)] f(5,6)
    by (auto simp: can_send_def current_process_def live_def k')
  have nn: "segmaps k n = None" "segs k n = None" if "n \<ge> next_ptr k" for n using fr that by (auto simp: fresh_segs_def)
  have sm: "same_maps k k'" using nn[of "next_ptr k + 3"] nn(2)[of "next_ptr k + 1"] by (auto simp: same_maps_def k' the_map_def the_seg_def split: if_splits)
  have "getByOff k (pd_mappedSegs d) a = Some m" using a(2) p d by (simp add: shmseg_getByOff_def)
  from getByOff_same[OF sm this] have "getByOff k' (next_ptr k + 3) a = Some m"
    using a(1) by (subst getByOff_step) (simp add: k' the_map_def)
  moreover have "the_proc k' cp = Some p" "the_pd k' (pagedir p) = Some (d\<lparr>pd_mappedSegs := next_ptr k + 3\<rparr>)"
    using p(2) d deref_cong(1)[OF f(1)] by (auto simp: k' the_pd_def split: if_splits)
  ultimately show ?thesis using \<open>can_send k' i ob cp p x\<close> by (simp add: shmseg_getByOff_def)
qed (use c a in simp)

text \<open>The new segment can be passed by its address.\<close>

lemma sched_inv_dirs:
  assumes "sched_inv c k Q" and "the_pd k pd = Some d" and "k' = k\<lparr>next_ptr := n, segs := g, segmaps := m, pdirs := (pdirs k)(pd \<mapsto> d')\<rparr>"
  shows "sched_inv c k' Q"
proof -
  have "pd \<noteq> 0" using assms(2) by (auto simp: the_pd_def split: if_splits)
  then have pd: "\<exists>e'. the_pd k' x = Some e'" if "the_pd k x = Some e" for x e using that by (auto simp: assms(3) the_pd_def split: if_splits)
  have f: "the_thr k' = the_thr k" "the_proc k' = the_proc k" "PRIORITY k' = PRIORITY k" "live k' = live k" "ready c k' = ready c k" "idle_thread k' = idle_thread k" "runq k' Q = runq k Q"
    by (auto simp: assms(3) fun_eq_iff the_thr_def the_proc_def PRIORITY_def live_def ready_def runq_def)
  have "thr_ok k' t" if "thr_ok k t" for t using that pd unfolding thr_ok_def f by blast
  then show ?thesis using assms(1) unfolding sched_inv_def f by blast
qed

lemma shm_create_has:
  assumes "shm_create off len k = Some (0, k')" and c: "can_send k i ob cp p x" and fr: "fresh_segs k" and I: "sched_inv (current_thread k) k Q"
  shows "\<exists>m sm sg. has_shm k' cp off m sm sg \<and> sched_inv (current_thread k') k' Q"
proof -
  have p: "current_process k = Some cp" "the_proc k cp = Some p" using c by (simp_all add: can_send_def)
  then obtain m' se k1 where "shmseg_make len cp k = (se, k1)" "seg_map se (pagedir p) off k1 = Some (m', k')"
    using assms(1) by (auto simp: shm_create_def current_process_def split: bind_splits if_splits prod.splits)
  from shm_map_new[OF fr this] obtain d g where d: "the_pd k (pagedir p) = Some d" "is_shm g" and k': "k' = k\<lparr>next_ptr := next_ptr k + 4, segs := (segs k)(next_ptr k + 1 \<mapsto> g),
     segmaps := (segmaps k)(next_ptr k + 3 \<mapsto> \<lparr>sm_seg = next_ptr k + 1, sm_pagedir = pagedir p, sm_start = off, sm_len = len, sm_next = pd_mappedSegs d\<rparr>),
     pdirs := (pdirs k)(pagedir p \<mapsto> d\<lparr>pd_mappedSegs := next_ptr k + 3\<rparr>)\<rparr>" by blast
  let ?sm = "\<lparr>sm_seg = next_ptr k + 1, sm_pagedir = pagedir p, sm_start = off, sm_len = len, sm_next = pd_mappedSegs d\<rparr>"
  have m: "the_map k' (next_ptr k + 3) = Some ?sm" "the_seg k' (next_ptr k + 1) = Some g" by (simp_all add: k' the_map_def the_seg_def)
  have "getByOff k' (next_ptr k + 3) off = Some (next_ptr k + 3)" using m d(2) by (subst getByOff_step) simp
  moreover have "the_proc k' cp = Some p" "the_pd k' (pagedir p) = Some (d\<lparr>pd_mappedSegs := next_ptr k + 3\<rparr>)"
    using p(2) d by (auto simp: k' the_pd_def the_proc_def split: if_splits)
  ultimately have "has_shm k' cp off (next_ptr k + 3) ?sm g" using m d(2) by (simp add: has_shm_def shmseg_getByOff_def)
  moreover have "sched_inv (current_thread k') k' Q" using sched_inv_dirs[OF I d(1) k'] by (simp add: k')
  ultimately show ?thesis by blast
qed

section \<open>Properties\<close>

text \<open>
  C39. \<open>c_handleCheckA\<close> copies the array of methods to shared memory but sends the address of the array itself. Suppose that there is no shared memory at this address, which is so for an array on the
  stack, that the object is of another process, and that the allocation and the copy succeed. Then the kernel dereferences null when it makes the request, and the call does not return; with the address of
  the shared memory in its place the kernel would have made the request.
\<close>

theorem handleCheckA_crashes:
  assumes "can_send (lib_k l) o' ob cp p x" and "owner x \<noteq> cp" and "shmseg_getByOff cp methods (lib_k l) = Some 0" and "fresh_segs (lib_k l)" and "sched_inv (current_thread (lib_k l)) (lib_k l) Q"
    and "lib_allocNew (4 * number) l = Some (ptr, l1)" and "ptr \<noteq> methods" and "ptr \<noteq> 0" and "memcpy ptr methods (sint (4 * number)) (lib_mem l1) = Some (d, s1)"
  shows "mkrequest o' rqer M_HANDLECHECK_BMIV methods number c r (lib_k l1) = None
     \<and> (\<exists>rq k. mkrequest o' rqer M_HANDLECHECK_BMIV ptr number c r (lib_k l1) = Some (Return (rq, 0), k) \<and> rq \<noteq> 0)
     \<and> c_handleCheckA o' bl methods number junk r l = None"
proof -
  from assms(6,8) obtain k' sh where k: "shm_create ptr (page_up (4 * number)) (lib_k l) = Some (0, k')" "l1 = l\<lparr>lib_shm := sh, lib_k := k'\<rparr>"
    by (auto simp: lib_allocNew_def shm_allocNew_def Let_def split: bind_splits if_splits)
  from shm_create_keeps[OF k(1) assms(1,4) _ assms(3)] assms(7) have c: "can_send (lib_k l1) o' ob cp p x" "shmseg_getByOff cp methods (lib_k l1) = Some 0"
    by (auto simp: k(2))
  from shm_create_has[OF k(1) assms(1,4,5)] obtain m sm sg where h: "has_shm (lib_k l1) cp ptr m sm sg" "sched_inv (current_thread (lib_k l1)) (lib_k l1) Q" by (auto simp: k(2))
  have t: "param_type M_HANDLECHECK_BMIV 0 = PT_SHM" "shm_call M_HANDLECHECK_BMIV"
    by (simp_all add: shm_call_def M_HANDLECHECK_BMIV_def MP_def param_type_def drop_bit_eq_div push_bit_eq_mult rq_consts)
  have no: "mkrequest o' rq M_HANDLECHECK_BMIV methods n cc r (lib_k l1) = None" for rq n cc by (rule mkrequest_no_shm[OF c(1) assms(2) t(1) c(2)])
  then have n: "CHC o' bl (junk\<lparr>us_func := M_HANDLECHECK_BMIV, us_a := methods, us_b := number\<rparr>) r (lib_k l1) = None"
    by (simp add: CHC_def request_def send_msg_def)
  have "\<exists>rq k. mkrequest o' rqer M_HANDLECHECK_BMIV ptr number c r (lib_k l1) = Some (Return (rq, 0), k) \<and> rq \<noteq> 0"
    using mkrequest_shm[OF c(1) assms(2) t(2) h(2,1), of rqer number c r] c(1) by (auto simp: can_send_def)
  moreover have "c_handleCheckA o' bl methods number junk r l = None" using n assms(6,9) by (simp add: c_handleCheckA_def)
  ultimately show ?thesis using no by blast
qed

text \<open>A client whose array is at 0x30000000, and which allocates its first shared memory; all of its memory can be accessed.\<close>

definition calls_demo :: lib where
  "calls_demo = (demo_lib (rpc_demo 6))\<lparr>lib_shm := \<lparr>ublocks = 0, ustore = Map.empty, usupply = [16, 32]\<rparr>, lib_mem := \<lparr>mbytes = (\<lambda>_. 0), mpresent = (\<lambda>_. True)\<rparr>\<rparr>"

lemma calls_demo_alloc: "\<exists>l1. lib_allocNew 8 calls_demo = Some (0x80000000, l1) \<and> lib_mem l1 = \<lparr>mbytes = (\<lambda>_. 0), mpresent = (\<lambda>_. True)\<rparr>"
proof -
  let ?s = "\<lparr>ublocks = 0, ustore = Map.empty, usupply = [16, 32]\<rparr> :: ushm"
  have pu: "page_up 8 = 0x1000" "page_up 0x1000 = 0x1000" by (simp_all add: page_up_def)
  have "shm_state ?s [(0x80000000, 0x50000000, True)]" "supply_ok ?s" by (simp_all add: shm_state_def supply_ok_def)
  from shm_alloc_ok[OF this pu(2)] obtain p s' bs' where a: "shm_alloc 0x1000 ?s = Some (p, s')" "allocated (unat (0x1000 :: u32)) [(0x80000000, 0x50000000, True)] (unat p) bs'" by auto
  from a(2) have "p = 0x80000000" by (auto simp: allocated_def Cons_eq_append_conv eq_u32)
  moreover have "\<exists>k. shm_create 0x80000000 0x1000 (rpc_demo 6) = Some (0, k)"
    by (simp add: shm_create_def rpc_fields rpc_threads rpc_thread_def demo_thread_def rpc_demo_def sched_demo_def the_proc_def the_thr_def demo_proc_def
        shmseg_make_def seg_map_def shmseg_map_def new_map_def kmalloc_ptr_def Let_def upd_defs the_pd_def the_seg_def the_map_def)
  ultimately show ?thesis using a(1) by (auto simp: lib_allocNew_def shm_allocNew_def pu calls_demo_def demo_lib_def)
qed

theorem handleCheckA_crashes_witness:
  "\<exists>l1 d s1 rq k. lib_allocNew 8 calls_demo = Some (0x80000000, l1) \<and> memcpy 0x80000000 0x30000000 8 (lib_mem l1) = Some (d, s1)
     \<and> mkrequest 0 6 M_HANDLECHECK_BMIV 0x80000000 2 0 \<lparr>esp = 0, ebp = 0, eip = 0\<rparr> (lib_k l1) = Some (Return (rq, 0), k)
     \<and> c_handleCheckA 0 True 0x30000000 2 rpc_call \<lparr>esp = 0, ebp = 0, eip = 0\<rparr> calls_demo = None"
proof -
  have k: "lib_k calls_demo = rpc_demo 6" "owner rpc_object \<noteq> 1" by (simp_all add: calls_demo_def demo_lib_def rpc_object_def)
  have h: "shmseg_getByOff 1 0x30000000 (rpc_demo 6) = Some 0" "fresh_segs (rpc_demo 6)" "sched_inv (current_thread (rpc_demo 6)) (rpc_demo 6) ((\<lambda>_. [])(3 := [2, 3]))"
    using rpc_inv[of 6] by (simp_all add: shmseg_getByOff_def rpc_demo_def sched_demo_def kernel0_def the_proc_def demo_proc_def the_pd_def getByOff.simps fresh_segs_def)
  obtain l1 where l1: "lib_allocNew 8 calls_demo = Some (0x80000000, l1)" "lib_mem l1 = \<lparr>mbytes = (\<lambda>_. 0), mpresent = (\<lambda>_. True)\<rparr>" using calls_demo_alloc by auto
  obtain d s1 where cp: "memcpy 0x80000000 0x30000000 (int 8) (lib_mem l1) = Some (d, s1)"
    using memcpy_ok[of "lib_mem l1" "0x80000000" 8 "0x30000000"] by (auto simp: l1(2) range_ok_def apart_def mapped_def)
  have n: "4 * 2 = (8 :: u32)" "sint (8 :: u32) = 8" "int 8 = 8" "(0x80000000 :: u32) \<noteq> 0x30000000" "(0x80000000 :: u32) \<noteq> 0" by simp_all
  show ?thesis using handleCheckA_crashes[of calls_demo 0 30 1 _ rpc_object "0x30000000" _ 2 "0x80000000" l1 d s1 6 0 "\<lparr>esp = 0, ebp = 0, eip = 0\<rparr>" True rpc_call]
      rpc_can_send k h l1(1) cp n by (simp only: k n) blast
qed

end
