(* ===== verification/Manager.thy ===== *)
theory Manager
  imports Calls
begin

text \<open>
  The manager, \<^verbatim>\<open>src/modules/manager/main.c\<close>: a process that keeps the list of services by name, hands out their objects, and prints log messages. It is an
  application of the server library. The names are strings in memory; \<open>malloc\<close> is a parameter, as in the library: structures come from \<open>lib_supply\<close> and
  copies of strings from \<open>pool\<close>. What \<open>printk\<close> prints is collected in \<open>console\<close>.

  Theorems: a log message is printed as one line; a service that is registered is found under its name; a name with a resource is not found;
  a name that is too long overwrites the stack; the state after the configuration.
\<close>

section \<open>Model\<close>

record service =
  sv_name :: u32
  sv_pid :: u32
  sv_obj :: u32
  sv_next :: ptr

record manager = lib +
  services :: ptr
  svcs :: "ptr \<rightharpoonup> service"
  loglevel :: int
  console :: "u8 list"
  pool :: "u32 list"

definition LL_CRITICAL :: int where "LL_CRITICAL = 0"
definition LL_ERROR :: int where "LL_ERROR = 1"
definition LL_WARNING :: int where "LL_WARNING = 2"
definition LL_NOTICE :: int where "LL_NOTICE = 3"
definition LL_STATUS :: int where "LL_STATUS = 4"
definition LL_DEBUG :: int where "LL_DEBUG = 5"

text \<open>An argument that is a string is a literal or an address.\<close>

datatype msgtext = Lit string | At u32

definition loglevels :: "string list" where
  "loglevels = [''Critical'', ''Error'', ''Warning'', ''Notice'', ''Status'', ''Debug'']"

subsection \<open>Printing\<close>

definition text_bytes :: "msgtext \<Rightarrow> 'a cmem_scheme \<Rightarrow> u8 list option" where
  "text_bytes t s = (case t of Lit cs \<Rightarrow> Some (lit cs) | At a \<Rightarrow> string_at s a)"

definition printk :: "msgtext \<Rightarrow> manager \<Rightarrow> manager option" where
  "printk t m = do { cs \<leftarrow> text_bytes t (lib_mem m); Some (m\<lparr>console := console m @ cs\<rparr>) }"

subsection \<open>Services\<close>

definition the_svc :: "manager \<Rightarrow> ptr \<Rightarrow> service option" where
  "the_svc m p = (if p = 0 then None else svcs m p)"

partial_function (option) find_pid :: "manager \<Rightarrow> u32 \<Rightarrow> ptr \<Rightarrow> ptr option" where
  "find_pid m pid' svc = (if svc = 0 then Some 0
     else do { x \<leftarrow> the_svc m svc; if sv_pid x = pid' then Some svc else find_pid m pid' (sv_next x) })"

definition logsvc :: "u32 \<Rightarrow> msgtext \<Rightarrow> int \<Rightarrow> manager \<Rightarrow> manager option" where
  "logsvc pid' log level m = (
     if level > loglevel m \<or> level < 0 then Some m
     else do {
       svc \<leftarrow> find_pid m pid' (services m);
       m \<leftarrow> (if svc = 0 then printk (Lit ''[log:??] '') m
         else do { x \<leftarrow> the_svc m svc; m \<leftarrow> printk (Lit ''[log:'') m; m \<leftarrow> printk (At (sv_name x)) m; printk (Lit ''] '') m });
       m \<leftarrow> (if nat level < length loglevels then printk (Lit (loglevels ! nat level)) m else None);
       m \<leftarrow> printk (Lit '': '') m;
       m \<leftarrow> printk log m;
       printk (Lit [CHR 0x0A]) m })"

definition pool_malloc :: "u32 list \<Rightarrow> 'a cmem_scheme \<Rightarrow> u32 \<Rightarrow> (u32 \<times> u32 list \<times> 'a cmem_scheme) option" where
  "pool_malloc ps s sz = (case ps of [] \<Rightarrow> Some (0, [], s) | p # ps \<Rightarrow> Some (p, ps, s))"

fun store_bytes :: "u32 \<Rightarrow> u8 list \<Rightarrow> 'a cmem_scheme \<Rightarrow> 'a cmem_scheme option" where
  "store_bytes a [] s = Some s"
| "store_bytes a (x # xs) s = do { s \<leftarrow> st8 s a x; store_bytes (a + 1) xs s }"

text \<open>The array \<open>msg\<close> of 100 bytes is on the stack at the address \<open>stk\<close>; the rest of it is cleared.\<close>

definition registersvc :: "u32 \<Rightarrow> u32 \<Rightarrow> u32 \<Rightarrow> u32 \<Rightarrow> manager \<Rightarrow> manager option" where
  "registersvc stk pid' name descriptor m = do {
     (svc, m) \<leftarrow> lib_malloc m;
     (nm, ps, s) \<leftarrow> strdup pool_malloc (pool m) name (lib_mem m);
     let m = m\<lparr>pool := ps, lib_mem := s, svcs := (svcs m)(svc \<mapsto> \<lparr>sv_name = nm, sv_pid = pid', sv_obj = descriptor, sv_next = services m\<rparr>), services := svc\<rparr>;
     s \<leftarrow> store_bytes stk (lit ''Service registered: '' @ replicate 80 0) (lib_mem m);
     (_, s) \<leftarrow> strcat stk nm s;
     logsvc 1 (At stk) LL_NOTICE (m\<lparr>lib_mem := s\<rparr>) }"

subsection \<open>Handlers\<close>

text \<open>The macro \<open>CHKSSTR\<close>: whether the string in shared memory is terminated.\<close>

fun chk_loop :: "u32 \<Rightarrow> u32 \<Rightarrow> nat \<Rightarrow> 'a cmem_scheme \<Rightarrow> bool option" where
  "chk_loop p i 0 s = Some False"
| "chk_loop p i (Suc n) s = do { c \<leftarrow> ld8 s (p + i); if c = 0 then Some True else chk_loop p (i + 1) n s }"

definition CHKSSTR :: "method_data \<Rightarrow> nat \<Rightarrow> 'a cmem_scheme \<Rightarrow> bool option" where
  "CHKSSTR d n s = (let j = md_parameters d ! n in
     if mp_val j = 0 then Some False
     else do { ok \<leftarrow> chk_loop (mp_val j) 0 (unat (mp_shmsize j)) s; Some (ok \<or> mp_shmsize j = 0) })"

definition handle_nothing :: "u64 \<Rightarrow> method_data \<Rightarrow> manager \<Rightarrow> (method_ret \<times> manager) option" where
  "handle_nothing junk d m = do {
     m \<leftarrow> (if md_blocking d then logsvc 1 (Lit ''Received a {nothing} request.'') LL_DEBUG m
           else logsvc 1 (Lit ''Received a {nothing} message.'') LL_DEBUG m);
     Some (mr_void junk, m) }"

partial_function (option) find_name :: "manager \<Rightarrow> u32 \<Rightarrow> ptr \<Rightarrow> ptr option" where
  "find_name m svc s = (if s = 0 then Some 0
     else do { x \<leftarrow> the_svc m s; r \<leftarrow> strcmp (lib_mem m) (sv_name x) svc; if r = 0 then Some s else find_name m svc (sv_next x) })"

definition put_char :: "u32 \<Rightarrow> u8 \<Rightarrow> manager \<Rightarrow> manager option" where
  "put_char a c m = do { s \<leftarrow> st8 (lib_mem m) a c; Some (m\<lparr>lib_mem := s\<rparr>) }"

text \<open>What follows when \<open>c_open\<close> of the service has returned \<open>r\<close>; a thread that waits in it continues with \<open>c_open_end\<close> and this.\<close>

definition handle_open_end :: "u32 \<Rightarrow> method_ret" where
  "handle_open_end r = (if r = - 1 then mr_err (- 3) else mr_obj r)"

definition handle_open :: "user_sendrequest \<Rightarrow> method_data \<Rightarrow> cpu \<Rightarrow> manager \<Rightarrow> (method_ret outcome \<times> manager) option" where
  "handle_open sr d r m = do {
     ok \<leftarrow> CHKSSTR d 0 (lib_mem m);
     if \<not> ok then Some (Return (mr_err (- 1)), m)
     else do {
       let svc = mp_val (md_parameters d ! 0);
       sep \<leftarrow> strchr (lib_mem m) svc (of_char CHR '':'');
       m \<leftarrow> (if sep \<noteq> 0 then put_char sep (of_char CHR ''0'') m else Some m);
       s \<leftarrow> find_name m svc (services m);
       if s = 0 then Some (Return (mr_err (- 2)), m)
       else do {
         x \<leftarrow> the_svc m s;
         if sep = 0 then Some (Return (mr_obj (sv_obj x)), m)
         else do {
           m \<leftarrow> put_char sep (of_char CHR '':'') m;
           (v, m) \<leftarrow> c_open (sv_obj x) True (sep + 1) sr r m;
           case v of Wait r \<Rightarrow> Some (Wait r, m) | Return y \<Rightarrow> Some (Return (handle_open_end y), m) } } } }"

definition handle_registersvc :: "u64 \<Rightarrow> u32 \<Rightarrow> method_data \<Rightarrow> manager \<Rightarrow> (method_ret \<times> manager) option" where
  "handle_registersvc junk stk d m = do {
     ok \<leftarrow> CHKSSTR d 0 (lib_mem m);
     if \<not> ok then Some (mr_err (- 1), m)
     else if mp_val (md_parameters d ! 1) = 0 then Some (mr_err (- 1), m)
     else do {
       m \<leftarrow> registersvc stk (md_pid d) (mp_val (md_parameters d ! 0)) (mp_val (md_parameters d ! 1)) m;
       Some (mr_void junk, m) } }"

definition handle_logsvc :: "u64 \<Rightarrow> method_data \<Rightarrow> manager \<Rightarrow> (method_ret \<times> manager) option" where
  "handle_logsvc junk d m = do {
     ok \<leftarrow> CHKSSTR d 0 (lib_mem m);
     if \<not> ok then Some (mr_err (- 1), m)
     else do {
       m \<leftarrow> logsvc (md_pid d) (At (mp_val (md_parameters d ! 0))) (sint (mp_val (md_parameters d ! 1))) m;
       Some (mr_void junk, m) } }"

subsection \<open>The program\<close>

text \<open>The addresses of the handlers.\<close>

definition H_NOTHING :: u32 where "H_NOTHING = 1"
definition H_OPEN :: u32 where "H_OPEN = 2"
definition H_REGISTERSVC :: u32 where "H_REGISTERSVC = 3"
definition H_LOGSVC :: u32 where "H_LOGSVC = 4"

definition manager_app :: "u64 \<Rightarrow> u32 \<Rightarrow> user_sendrequest \<Rightarrow> u32 \<Rightarrow> method_data \<Rightarrow> cpu \<Rightarrow> manager \<Rightarrow> ((method_ret \<times> method_data) outcome \<times> manager) option" where
  "manager_app junk stk sr h d r m = (
     if h = H_NOTHING then do { (v, m) \<leftarrow> handle_nothing junk d m; Some (Return (v, d), m) }
     else if h = H_OPEN then do { (v, m) \<leftarrow> handle_open sr d r m; Some (case v of Wait r \<Rightarrow> Wait r | Return y \<Rightarrow> Return (y, d), m) }
     else if h = H_REGISTERSVC then do { (v, m) \<leftarrow> handle_registersvc junk stk d m; Some (Return (v, d), m) }
     else if h = H_LOGSVC then do { (v, m) \<leftarrow> handle_logsvc junk d m; Some (Return (v, d), m) }
     else None)"

text \<open>\<open>main\<close> until the endless loop, which is \<open>srv_loop\<close> with \<open>manager_app\<close> for any number of rounds; \<open>mname\<close> is the address of the literal \<^verbatim>\<open>manager\<close>.\<close>

definition manager_main :: "u32 \<Rightarrow> u32 \<Rightarrow> manager \<Rightarrow> (ptr \<times> manager) option" where
  "manager_main stk mname m = do {
     m \<leftarrow> logsvc 1 (Lit ''Manager module configuring...'') LL_NOTICE m;
     m \<leftarrow> registersvc stk 1 mname 0 m;
     mgr \<leftarrow> srv_get 0 m;
     m \<leftarrow> srv_addHandler mgr M_NOTHING_VVVV (AppHandler H_NOTHING) m;
     m \<leftarrow> srv_addHandler mgr M_OPEN_OMVV (AppHandler H_OPEN) m;
     m \<leftarrow> srv_addHandler mgr M_REGISTERSVC_VMOV (AppHandler H_REGISTERSVC) m;
     m \<leftarrow> srv_addHandler mgr M_LOGSVC_VMIV (AppHandler H_LOGSVC) m;
     m \<leftarrow> logsvc 1 (Lit ''Manager module configured : starting request handling.'') LL_STATUS m;
     Some (mgr, m) }"

definition manager_loop :: "u64 \<Rightarrow> u32 \<Rightarrow> user_sendrequest \<Rightarrow> method_param list \<Rightarrow> ptr \<Rightarrow> nat \<Rightarrow> cpu \<Rightarrow> manager \<Rightarrow> (unit outcome \<times> manager) option" where
  "manager_loop junk stk sr js mgr n r m = srv_loop (manager_app junk stk sr) js mgr n r m"

section \<open>The list of services\<close>

text \<open>A service as a value: its structure, and the address and contents of its name.\<close>

record entry =
  en_at :: ptr
  en_addr :: u32
  en_pid :: u32
  en_name :: "u8 list"
  en_obj :: u32

fun svlist :: "(ptr \<rightharpoonup> service) \<Rightarrow> 'a cmem_scheme \<Rightarrow> ptr \<Rightarrow> entry list \<Rightarrow> bool" where
  "svlist st s p [] \<longleftrightarrow> p = 0"
| "svlist st s p (e # es) \<longleftrightarrow> p = en_at e \<and> p \<noteq> 0 \<and> cstring s (en_addr e) (en_name e)
     \<and> (\<exists>n. st p = Some \<lparr>sv_name = en_addr e, sv_pid = en_pid e, sv_obj = en_obj e, sv_next = n\<rparr> \<and> svlist st s n es)"

definition svc_list :: "manager \<Rightarrow> entry list \<Rightarrow> bool" where
  "svc_list m es \<longleftrightarrow> svlist (svcs m) (lib_mem m) (services m) es"

lemma svlist_known: "svlist st s p es \<Longrightarrow> e \<in> set es \<Longrightarrow> st (en_at e) \<noteq> None \<and> en_at e \<noteq> 0 \<and> cstring s (en_addr e) (en_name e)"
  by (induction st s p es rule: svlist.induct) auto

lemma svlist_keep:
  "svlist st s p es \<Longrightarrow> (\<forall>e\<in>set es. cstring s (en_addr e) (en_name e) \<longrightarrow> cstring s' (en_addr e) (en_name e)) \<Longrightarrow> st q = None \<Longrightarrow> svlist (st(q \<mapsto> x)) s' p es"
  by (induction st s p es rule: svlist.induct) auto

lemma svlist_mem: "svlist st s p es \<Longrightarrow> (\<forall>e\<in>set es. cstring s (en_addr e) (en_name e) \<longrightarrow> cstring s' (en_addr e) (en_name e)) \<Longrightarrow> svlist st s' p es"
  by (induction st s p es rule: svlist.induct) auto

text \<open>Finding the first entry with a property.\<close>

definition at_of :: "entry option \<Rightarrow> ptr" where
  "at_of r = (case r of None \<Rightarrow> 0 | Some e \<Rightarrow> en_at e)"

lemma find_pid_ok: "svlist (svcs m) s p es \<Longrightarrow> find_pid m i p = Some (at_of (find (\<lambda>e. en_pid e = i) es))"
proof (induction es arbitrary: p)
  case Nil
  then show ?case by (subst find_pid.simps) (simp add: at_of_def)
next
  case (Cons e es)
  then obtain n where "svcs m p = Some \<lparr>sv_name = en_addr e, sv_pid = en_pid e, sv_obj = en_obj e, sv_next = n\<rparr>" "svlist (svcs m) s n es" "p = en_at e" "p \<noteq> 0" by auto
  then show ?case using Cons.IH[of n] by (subst find_pid.simps) (simp add: the_svc_def at_of_def)
qed

lemma find_name_ok:
  assumes "cstring (lib_mem m) a ys"
  shows "svlist (svcs m) (lib_mem m) p es \<Longrightarrow> find_name m a p = Some (at_of (find (\<lambda>e. en_name e = ys) es))"
proof (induction es arbitrary: p)
  case Nil
  then show ?case by (subst find_name.simps) (simp add: at_of_def)
next
  case (Cons e es)
  then obtain n where e: "svcs m p = Some \<lparr>sv_name = en_addr e, sv_pid = en_pid e, sv_obj = en_obj e, sv_next = n\<rparr>" "svlist (svcs m) (lib_mem m) n es" "p = en_at e" "p \<noteq> 0"
      "cstring (lib_mem m) (en_addr e) (en_name e)" by auto
  have "strcmp (lib_mem m) (en_addr e) a = Some (str_diff (en_name e) ys)" by (rule strcmp_ok[OF e(5) assms])
  moreover have "str_diff (en_name e) ys = 0 \<longleftrightarrow> en_name e = ys" using e(5) assms by (intro str_diff_0) (auto simp: cstring_def)
  ultimately show ?case using e Cons.IH[of n] by (subst find_name.simps) (simp add: the_svc_def at_of_def)
qed

lemma svlist_the:
  assumes "svlist (svcs m) s p es" and "find P es = Some e"
  shows "\<exists>n. the_svc m (en_at e) = Some \<lparr>sv_name = en_addr e, sv_pid = en_pid e, sv_obj = en_obj e, sv_next = n\<rparr>" "en_at e \<noteq> 0" "cstring s (en_addr e) (en_name e)"
proof -
  have "\<exists>n. svcs m (en_at e) = Some \<lparr>sv_name = en_addr e, sv_pid = en_pid e, sv_obj = en_obj e, sv_next = n\<rparr>"
    using assms by (induction es arbitrary: p) (auto split: if_splits)
  moreover have "e \<in> set es" using assms(2) by (auto simp: find_Some_iff in_set_conv_nth)
  ultimately show "\<exists>n. the_svc m (en_at e) = Some \<lparr>sv_name = en_addr e, sv_pid = en_pid e, sv_obj = en_obj e, sv_next = n\<rparr>" "en_at e \<noteq> 0" "cstring s (en_addr e) (en_name e)"
    using svlist_known[OF assms(1), of e] by (auto simp: the_svc_def)
qed

section \<open>Log lines\<close>

definition name_of :: "entry list \<Rightarrow> u32 \<Rightarrow> u8 list" where
  "name_of es i = (case find (\<lambda>e. en_pid e = i) es of None \<Rightarrow> lit ''??'' | Some e \<Rightarrow> en_name e)"

definition log_line :: "entry list \<Rightarrow> u32 \<Rightarrow> int \<Rightarrow> u8 list \<Rightarrow> u8 list" where
  "log_line es i level xs = lit ''[log:'' @ name_of es i @ lit ''] '' @ lit (loglevels ! nat level) @ lit '': '' @ xs @ [10]"

lemma printk_lit: "printk (Lit cs) m = Some (m\<lparr>console := console m @ lit cs\<rparr>)"
  by (simp add: printk_def text_bytes_def)

lemma printk_at: "cstring (lib_mem m) a xs \<Longrightarrow> printk (At a) m = Some (m\<lparr>console := console m @ xs\<rparr>)"
  by (simp add: printk_def text_bytes_def string_at_ok)

lemma logsvc_ok:
  assumes es: "svc_list m es" and t: "text_bytes t (lib_mem m) = Some xs" and l: "0 \<le> level" "level \<le> loglevel m" "loglevel m \<le> LL_DEBUG"
  shows "logsvc i t level m = Some (m\<lparr>console := console m @ log_line es i level xs\<rparr>)"
proof -
  have sv: "svlist (svcs m) (lib_mem m) (services m) es" using es by (simp add: svc_list_def)
  have n: "nat level < length loglevels" using l by (simp add: loglevels_def LL_DEBUG_def)
  have p: "printk t m' = Some (m'\<lparr>console := console m' @ xs\<rparr>)" if "lib_mem m' = lib_mem m" for m' using t that by (simp add: printk_def)
  have nl: "lit [CHR 0x0A] = [10]" by (simp add: lit_def)
  have q: "lit ''[log:??] '' = lit ''[log:'' @ lit ''??'' @ lit ''] ''" by (simp flip: lit_append)
  show ?thesis
  proof (cases "find (\<lambda>e. en_pid e = i) es")
    case None
    then show ?thesis using l n find_pid_ok[OF sv, of i] by (simp add: logsvc_def at_of_def printk_lit p nl q log_line_def name_of_def)
  next
    case (Some e)
    note v = svlist_the[OF sv Some]
    have pa: "printk (At (en_addr e)) m' = Some (m'\<lparr>console := console m' @ en_name e\<rparr>)" if "lib_mem m' = lib_mem m" for m' using printk_at[of m'] v(3) that by simp
    show ?thesis using l n find_pid_ok[OF sv, of i] Some v(1,2) by (auto simp: logsvc_def at_of_def printk_lit p pa nl log_line_def name_of_def)
  qed
qed

lemma logsvc_off: "level < 0 \<or> level > loglevel m \<Longrightarrow> logsvc i t level m = Some m"
  by (auto simp: logsvc_def)

section \<open>Strings in memory\<close>

lemma store_bytes_from:
  assumes "range_ok s a (length ps + length xs)"
  shows "store_bytes (a + of_nat (length ps)) xs (put_bytes a ps s) = Some (put_bytes a (ps @ xs) s)"
  using assms
proof (induction xs arbitrary: ps)
  case (Cons x xs)
  have "unat a + length ps < 2 ^ 32" using Cons.prems by (simp add: range_ok_def)
  then have "st8 (put_bytes a ps s) (a + of_nat (length ps)) x = Some (put_bytes a (ps @ [x]) s)"
    using range_st8[of "put_bytes a ps s" a "length ps + length (x # xs)" "length ps" x] Cons.prems put_bytes_snoc[of a ps s x] by simp
  then show ?case using Cons.IH[of "ps @ [x]"] Cons.prems by (simp add: ac_simps)
qed simp

lemma store_bytes_ok: "range_ok s a (length xs) \<Longrightarrow> store_bytes a xs s = Some (put_bytes a xs s)"
  using store_bytes_from[of s a "[]" xs] by simp

lemma strdup_ok:
  assumes "cstring s sr xs" and "range_ok s sr (length xs + 2)" and "range_ok s p (length xs + 2)" and "apart p (length xs + 2) sr (length xs + 2)" and "p \<noteq> 0"
  shows "strdup pool_malloc (p # ps) sr s = Some (p, ps, put_bytes p (xs @ [0, mbytes s (unat sr + length xs + 1)]) s)"
  using strcpy_ok[OF assms(1-4)] assms(5) by (simp add: strdup_def strlen_ok[OF assms(1)] pool_malloc_def)

lemma chk_loop_ok: "cstring s p xs \<Longrightarrow> i \<le> length xs \<Longrightarrow> chk_loop p (of_nat i) n s = Some (length xs < i + n)"
proof (induction n arbitrary: i)
  case (Suc n)
  show ?case
  proof (cases "i = length xs")
    case True
    then show ?thesis using cstring_byte[OF Suc.prems] by simp
  next
    case False
    then have "i < length xs" using Suc.prems by simp
    moreover from this have "xs ! i \<noteq> 0" using Suc.prems(1) nth_mem by (fastforce simp: cstring_def)
    ultimately show ?thesis using cstring_byte[OF Suc.prems] Suc.IH[of "Suc i"] Suc.prems by (simp add: nth_append add.commute)
  qed
qed simp

text \<open>A parameter of a method that is a terminated string.\<close>

definition str_param :: "method_data \<Rightarrow> u8 list \<Rightarrow> manager \<Rightarrow> bool" where
  "str_param d xs m \<longleftrightarrow> (let j = md_parameters d ! 0 in
     mp_val j \<noteq> 0 \<and> cstring (lib_mem m) (mp_val j) xs \<and> (mp_shmsize j = 0 \<or> length xs < unat (mp_shmsize j)))"

lemma CHKSSTR_ok: "str_param d xs m \<Longrightarrow> CHKSSTR d 0 (lib_mem m) = Some True"
  using chk_loop_ok[of "lib_mem m" "mp_val (md_parameters d ! 0)" xs 0 "unat (mp_shmsize (md_parameters d ! 0))"]
  by (auto simp: CHKSSTR_def str_param_def Let_def)

section \<open>Registering and opening\<close>

text \<open>The name and the new memory are mapped and apart from the names that are known.\<close>

definition can_register :: "u32 \<Rightarrow> u32 \<Rightarrow> u8 list \<Rightarrow> entry list \<Rightarrow> ptr \<Rightarrow> u32 \<Rightarrow> manager \<Rightarrow> bool" where
  "can_register stk name xs es q p m \<longleftrightarrow> (let n = length xs; k = max 100 (n + 21) in
     svc_list m es \<and> LL_NOTICE \<le> loglevel m \<and> loglevel m \<le> LL_DEBUG
     \<and> lib_supply m \<noteq> [] \<and> hd (lib_supply m) = q \<and> q \<noteq> 0 \<and> svcs m q = None
     \<and> pool m \<noteq> [] \<and> hd (pool m) = p \<and> p \<noteq> 0
     \<and> cstring (lib_mem m) name xs \<and> range_ok (lib_mem m) name (n + 2) \<and> range_ok (lib_mem m) p (n + 2) \<and> range_ok (lib_mem m) stk k
     \<and> apart p (n + 2) name (n + 2) \<and> apart stk k p (n + 2)
     \<and> (\<forall>e\<in>set es. apart p (n + 2) (en_addr e) (length (en_name e) + 1) \<and> apart stk k (en_addr e) (length (en_name e) + 1)))"

definition greeting :: "u8 list" where "greeting = lit ''Service registered: ''"

lemma greeting_length: "length greeting = 20" "0 \<notin> set greeting"
  by (simp_all add: greeting_def lit_def)

text \<open>The memory after the name has been copied, and after the message has been put together.\<close>

definition name_copied :: "u32 \<Rightarrow> u8 list \<Rightarrow> u32 \<Rightarrow> manager \<Rightarrow> cmem" where
  "name_copied name xs p m = put_bytes p (xs @ [0, mbytes (lib_mem m) (unat name + length xs + 1)]) (lib_mem m)"

definition registered_mem :: "u32 \<Rightarrow> u32 \<Rightarrow> u8 list \<Rightarrow> u32 \<Rightarrow> manager \<Rightarrow> cmem" where
  "registered_mem stk name xs p m = put_bytes (stk + 20) (xs @ [0]) (put_bytes stk (greeting @ replicate 80 0) (name_copied name xs p m))"

lemma cstring_registered:
  assumes "can_register stk name xs es q p m" and "cstring (name_copied name xs p m) a ys" and "apart stk (max 100 (length xs + 21)) a (length ys + 1)"
  shows "cstring (registered_mem stk name xs p m) a ys"
proof -
  have "unat stk + 20 < 2 ^ 32" using assms(1) by (auto simp: can_register_def Let_def range_ok_def)
  then have "unat (stk + 20) = unat stk + 20" using unat_plus_nat[of stk 20] by simp
  then show ?thesis unfolding registered_mem_def using assms(2,3)
    by (intro cstring_put_apart) (auto simp: apart_def greeting_length)
qed

lemma cstring_kept:
  assumes "can_register stk name xs es q p m" and "cstring (lib_mem m) a ys"
    and "apart stk (max 100 (length xs + 21)) a (length ys + 1)" and "apart p (length xs + 2) a (length ys + 1)"
  shows "cstring (registered_mem stk name xs p m) a ys"
  by (rule cstring_registered[OF assms(1) _ assms(3)]) (use assms(2,4) in \<open>simp add: name_copied_def cstring_put_apart\<close>)

lemma registersvc_ok:
  assumes c: "can_register stk name xs es q p m" and e: "e = \<lparr>en_at = q, en_addr = p, en_pid = i, en_name = xs, en_obj = d\<rparr>"
  shows "\<exists>m'. registersvc stk i name d m = Some m' \<and> svc_list m' (e # es) \<and> lib_mem m' = registered_mem stk name xs p m
     \<and> console m' = console m @ log_line (e # es) 1 LL_NOTICE (greeting @ xs) \<and> loglevel m' = loglevel m
     \<and> lib_supply m' = tl (lib_supply m) \<and> pool m' = tl (pool m) \<and> srvs m' = srvs m \<and> meths m' = meths m \<and> servers m' = servers m"
proof -
  let ?n = "length xs" and ?s1 = "name_copied name xs p m"
  let ?s2 = "put_bytes stk (greeting @ replicate 80 0) ?s1" and ?s3 = "registered_mem stk name xs p m"
  note u = c[unfolded can_register_def Let_def]
  obtain qs ps where l: "lib_supply m = q # qs" "pool m = p # ps" using u by (metis list.collapse)
  have r: "range_ok (lib_mem m) stk 100" "range_ok (lib_mem m) stk (20 + ?n + 1)" "range_ok (lib_mem m) p (?n + 1)" "range_ok (lib_mem m) stk 21"
    using u by (auto simp: range_ok_def elim: mapped_sub)
  have z: "0 \<notin> set xs" using u by (simp add: cstring_def)
  have d1: "strdup pool_malloc (p # ps) name (lib_mem m) = Some (p, ps, ?s1)" unfolding name_copied_def using u by (intro strdup_ok) auto
  have cp: "cstring ?s1 p xs" unfolding name_copied_def using cstring_put[OF z r(3)] by simp
  have ap: "apart stk (max 100 (?n + 21)) p (?n + 1)" using u by (auto simp: apart_def)
  have s2: "store_bytes stk (greeting @ replicate 80 0) ?s1 = Some ?s2" using r(1) by (intro store_bytes_ok) (simp add: greeting_length name_copied_def)
  have g2: "cstring ?s2 stk greeting" using cstring_put[of greeting ?s1 stk "replicate 79 0"] r(4) by (simp add: greeting_length name_copied_def numeral_eq_Suc)
  have c2: "cstring ?s2 p xs" using ap by (intro cstring_put_apart[OF _ cp]) (auto simp: apart_def greeting_length)
  have s3: "strcat stk p ?s2 = Some (stk, ?s3)" unfolding registered_mem_def
    using strcat_ok[OF g2 c2] r(2) ap by (auto simp: greeting_length name_copied_def apart_def)
  have g3: "cstring ?s3 stk (greeting @ xs)" unfolding registered_mem_def using cstring_append[OF g2 z] r(2) by (simp add: greeting_length name_copied_def)
  define m2 where "m2 = m\<lparr>lib_supply := qs, pool := ps, svcs := (svcs m)(q \<mapsto> \<lparr>sv_name = p, sv_pid = i, sv_obj = d, sv_next = services m\<rparr>), services := q, lib_mem := ?s3\<rparr>"
  have sv: "svlist (svcs m) (lib_mem m) (services m) es" "svcs m q = None" "q \<noteq> 0" using u unfolding svc_list_def by blast+
  have "svlist ((svcs m)(q \<mapsto> y)) ?s3 (services m) es" for y using u by (intro svlist_keep[OF sv(1) _ sv(2)] ballI impI cstring_kept[OF c]) blast+
  then have es: "svc_list m2 (e # es)" using sv(3) cstring_registered[OF c cp ap] by (simp add: svc_list_def m2_def e)
  have "logsvc 1 (At stk) LL_NOTICE m2 = Some (m2\<lparr>console := console m2 @ log_line (e # es) 1 LL_NOTICE (greeting @ xs)\<rparr>)"
    using u string_at_ok[OF g3] by (intro logsvc_ok[OF es]) (simp_all add: text_bytes_def m2_def LL_NOTICE_def)
  moreover have "registersvc stk i name d m = logsvc 1 (At stk) LL_NOTICE m2"
    using l u d1 s2 s3 by (simp add: registersvc_def lib_malloc_def Let_def greeting_def[symmetric] m2_def)
  moreover have "svc_list (m2\<lparr>console := y\<rparr>) (e # es)" for y using es by (simp add: svc_list_def del: svlist.simps)
  ultimately show ?thesis by (simp del: svlist.simps) (simp add: m2_def l)
qed

lemma handle_open_plain:
  assumes "svc_list m es" and "str_param d ys m" and "of_char CHR '':'' \<notin> set ys"
  shows "handle_open sr d r m = Some (Return (case find (\<lambda>e. en_name e = ys) es of None \<Rightarrow> mr_err (- 2) | Some e \<Rightarrow> mr_obj (en_obj e)), m)"
proof -
  let ?a = "mp_val (md_parameters d ! 0)"
  have sv: "svlist (svcs m) (lib_mem m) (services m) es" using assms(1) by (simp add: svc_list_def)
  have c: "cstring (lib_mem m) ?a ys" using assms(2) by (simp add: str_param_def Let_def)
  note h = CHKSSTR_ok[OF assms(2)] strchr_ok[OF c, of "of_char CHR '':''"] find_name_ok[OF c sv]
  show ?thesis
  proof (cases "find (\<lambda>e. en_name e = ys) es")
    case None
    then show ?thesis using h assms(3) by (simp add: handle_open_def at_of_def Let_def)
  next
    case (Some e)
    then show ?thesis using h assms(3) svlist_the[OF sv Some] by (auto simp: handle_open_def at_of_def Let_def)
  qed
qed

text \<open>One byte of a string is replaced.\<close>

lemma cstring_update:
  assumes "cstring s a xs" and "i < length xs" and "v \<noteq> 0"
  shows "st8 s (a + of_nat i) v = Some (put_bytes (a + of_nat i) [v] s)" "cstring (put_bytes (a + of_nat i) [v] s) a (xs[i := v])"
proof -
  have r: "range_ok s a (length xs + 1)" "unat a + i < 2 ^ 32" and b: "bytes_at s a (length xs + 1) = xs @ [0]" and z: "0 \<notin> set xs"
    using assms by (auto simp: cstring_def range_ok_def)
  have u: "unat (a + of_nat i) = unat a + i" using r(2) by (rule unat_plus_nat)
  show "st8 s (a + of_nat i) v = Some (put_bytes (a + of_nat i) [v] s)"
    using range_st8[OF r(1), of i v] put_bytes_snoc[of "a + of_nat i" "[]" s v] assms(2) r(2) u by simp
  have "bytes_at (put_bytes (a + of_nat i) [v] s) a (length xs + 1) = (xs @ [0])[i := v]" (is "?l = _")
  proof (rule nth_equalityI)
    fix j assume "j < length ?l"
    then have j: "j < length xs + 1" by simp
    have "mbytes s (unat a + j) = (xs @ [0]) ! j" using bytes_at_nth[OF j, of s a] unfolding b by (rule sym)
    then show "?l ! j = (xs @ [0])[i := v] ! j" using j u assms(2) by (cases "j = i") (auto simp: bytes_at_nth put_bytes_def)
  qed simp
  moreover have "0 \<notin> set (xs[i := v])" using set_update_subset_insert[of xs i v] z assms(3) by auto
  ultimately show "cstring (put_bytes (a + of_nat i) [v] s) a (xs[i := v])" using r(1) assms(2) by (simp add: cstring_def list_update_append)
qed

lemma srv_table_same: "srvs l' = srvs l \<Longrightarrow> meths l' = meths l \<Longrightarrow> srv_table l' o' xs = srv_table l o' xs"
  by (simp add: srv_table_def the_srv_def)

text \<open>Several handlers that are added one after the other.\<close>

fun addHandlers :: "ptr \<Rightarrow> (u32 \<times> handler) list \<Rightarrow> 'a lib_scheme \<Rightarrow> 'a lib_scheme option" where
  "addHandlers o' [] l = Some l"
| "addHandlers o' ((f, h) # hs) l = do { l \<leftarrow> srv_addHandler o' f h l; addHandlers o' hs l }"

lemma addHandlers_ok:
  "srv_table l o' xs \<Longrightarrow> lib_supply l = ps @ qs \<Longrightarrow> length ps = length hs \<Longrightarrow> distinct ps \<Longrightarrow> \<forall>p\<in>set ps. p \<noteq> 0 \<and> meths l p = None \<Longrightarrow>
   \<exists>g f. addHandlers o' hs l = Some (l\<lparr>lib_supply := qs, meths := g, srvs := f\<rparr>)
     \<and> srv_table (l\<lparr>lib_supply := qs, meths := g, srvs := f\<rparr>) o' (rev (zip ps hs) @ xs)"
proof (induction hs arbitrary: l ps xs)
  case Nil
  then show ?case by (intro exI[of _ "meths l"] exI[of _ "srvs l"]) (simp add: srv_table_same[of "l\<lparr>lib_supply := qs\<rparr>" l])
next
  case (Cons h hs)
  obtain m' h' where h: "h = (m', h')" by (cases h)
  obtain p ps' where ps: "ps = p # ps'" using Cons.prems(3) by (cases ps) auto
  have "lib_supply l = p # ps' @ qs" "p \<noteq> 0" "meths l p = None" using Cons.prems(2,5) by (simp_all add: ps)
  from addHandler_ok[OF Cons.prems(1) this, of m' h'] obtain l' x where
    l': "srv_addHandler o' m' h' l = Some l'" "srv_table l' o' ((p, h) # xs)"
      "l' = l\<lparr>lib_supply := ps' @ qs, meths := (meths l)(p \<mapsto> \<lparr>ms_id = m', ms_h = h', ms_next = srv_methods x\<rparr>), srvs := (srvs l)(o' \<mapsto> x\<lparr>srv_methods := p\<rparr>)\<rparr>"
    unfolding h by blast
  have "lib_supply l' = ps' @ qs" "length ps' = length hs" "distinct ps'" "\<forall>q\<in>set ps'. q \<noteq> 0 \<and> meths l' q = None"
    using Cons.prems by (auto simp: l'(3) ps)
  from Cons.IH[OF l'(2) this] show ?case using l'(1) by (auto simp: h ps l'(3))
qed

definition configuring :: "u8 list" where "configuring = lit ''Manager module configuring...''"
definition configured :: "u8 list" where "configured = lit ''Manager module configured : starting request handling.''"

lemma logsvc_lit:
  "svc_list m es \<Longrightarrow> loglevel m = LL_DEBUG \<Longrightarrow> 0 \<le> level \<Longrightarrow> level \<le> LL_DEBUG
    \<Longrightarrow> logsvc i (Lit cs) level m = Some (m\<lparr>console := console m @ log_line es i level (lit cs)\<rparr>)"
  by (rule logsvc_ok) (simp_all add: text_bytes_def)

section \<open>Properties\<close>

text \<open>
  A log message of a process is printed as one line with the name of its first registered service, or question marks for a process without service, the name of the level and the text;
  a message with a level below 0 or above the level of the manager prints nothing.
\<close>

theorem log_message:
  assumes "svc_list m es" and "str_param d xs m" and "loglevel m = LL_DEBUG"
  shows "handle_logsvc junk d m = Some (mr_void junk, m\<lparr>console := console m @ (
      let level = sint (mp_val (md_parameters d ! 1)) in
      if level < 0 \<or> level > 5 then [] else log_line es (md_pid d) level xs)\<rparr>)"
proof -
  let ?l = "sint (mp_val (md_parameters d ! 1))"
  have t: "text_bytes (At (mp_val (md_parameters d ! 0))) (lib_mem m) = Some xs"
    using assms(2) by (simp add: text_bytes_def str_param_def Let_def string_at_ok)
  show ?thesis
  proof (cases "?l < 0 \<or> ?l > 5")
    case True
    then show ?thesis using CHKSSTR_ok[OF assms(2)] logsvc_off[of ?l m] assms(3) by (auto simp: handle_logsvc_def LL_DEBUG_def)
  next
    case False
    then show ?thesis using CHKSSTR_ok[OF assms(2)] logsvc_ok[OF assms(1) t, of ?l] assms(3) by (auto simp: handle_logsvc_def LL_DEBUG_def)
  qed
qed

text \<open>
  C36. A service that is registered under a name is what \<open>open\<close> finds under that name, other names are found as before, and unknown ones give the error -2; registering is logged in the
  name of the manager. The name must be shorter than 80 bytes, or the stack behind the message must be free.
\<close>

theorem register_open:
  assumes "can_register stk (mp_val (md_parameters d ! 0)) xs es q p m" and "str_param d xs m" and "mp_val (md_parameters d ! 1) \<noteq> 0"
  shows "\<exists>m' e. handle_registersvc junk stk d m = Some (mr_void junk, m') \<and> svc_list m' (e # es) \<and> en_name e = xs \<and> en_pid e = md_pid d
     \<and> console m' = console m @ log_line (e # es) 1 LL_NOTICE (greeting @ xs)
     \<and> (\<forall>d2 ys sr r. str_param d2 ys m' \<and> of_char CHR '':'' \<notin> set ys \<longrightarrow>
          handle_open sr d2 r m' = Some (Return (if ys = xs then mr_obj (mp_val (md_parameters d ! 1))
             else case find (\<lambda>e. en_name e = ys) es of None \<Rightarrow> mr_err (- 2) | Some e \<Rightarrow> mr_obj (en_obj e)), m'))"
proof -
  let ?e = "\<lparr>en_at = q, en_addr = p, en_pid = md_pid d, en_name = xs, en_obj = mp_val (md_parameters d ! 1)\<rparr>"
  from registersvc_ok[OF assms(1) refl, of "md_pid d" "mp_val (md_parameters d ! 1)"] obtain m' where
    m': "registersvc stk (md_pid d) (mp_val (md_parameters d ! 0)) (mp_val (md_parameters d ! 1)) m = Some m'" "svc_list m' (?e # es)"
      "console m' = console m @ log_line (?e # es) 1 LL_NOTICE (greeting @ xs)" by blast
  have "handle_registersvc junk stk d m = Some (mr_void junk, m')" using m'(1) CHKSSTR_ok[OF assms(2)] assms(3) by (simp add: handle_registersvc_def)
  then show ?thesis using m' handle_open_plain[OF m'(2)] by (intro exI[of _ m'] exI[of _ ?e]) (auto)
qed

text \<open>
  C38. A name with a colon, which asks for a resource of a service, is searched with the character 0 in place of the colon and not with the end of the string there: a service
  with the name before the colon is not found, the error is -2, and the string of the caller stays changed.
\<close>

theorem open_resource_fails:
  assumes "svc_list m es" and "str_param d (xs @ of_char CHR '':'' # ys) m" and "of_char CHR '':'' \<notin> set xs"
    and "\<forall>e\<in>set es. en_name e \<noteq> xs @ of_char CHR ''0'' # ys"
    and "\<forall>e\<in>set es. apart (mp_val (md_parameters d ! 0)) (length xs + length ys + 2) (en_addr e) (length (en_name e) + 1)"
  shows "\<exists>m'. handle_open sr d r m = Some (Return (mr_err (- 2)), m') \<and> svc_list m' es
     \<and> cstring (lib_mem m') (mp_val (md_parameters d ! 0)) (xs @ of_char CHR ''0'' # ys)"
proof -
  let ?a = "mp_val (md_parameters d ! 0)" and ?zs = "xs @ of_char CHR '':'' # ys" and ?n = "length xs"
  define s' where "s' = put_bytes (?a + of_nat ?n) [of_char CHR ''0''] (lib_mem m)"
  have c: "cstring (lib_mem m) ?a ?zs" using assms(2) by (simp add: str_param_def Let_def)
  have "unat ?a + length ?zs + 1 \<le> 2 ^ 32" using c by (simp add: cstring_def range_ok_def)
  then have u: "unat (?a + of_nat ?n) = unat ?a + ?n" by (intro unat_plus_nat) simp
  have "takeWhile (\<lambda>x. x \<noteq> of_char CHR '':'') ?zs = xs" using assms(3) by (subst takeWhile_append2) auto
  then have sep: "strchr (lib_mem m) ?a (of_char CHR '':'') = Some (?a + of_nat ?n)" using strchr_ok[OF c, of "of_char CHR '':''"] by simp
  have "?a + of_nat ?n \<noteq> 0" using assms(2) u by (auto simp: str_param_def Let_def unat_eq_zero)
  have s': "put_char (?a + of_nat ?n) (of_char CHR ''0'') m = Some (m\<lparr>lib_mem := s'\<rparr>)" "cstring s' ?a (xs @ of_char CHR ''0'' # ys)"
    using cstring_update[OF c, of ?n "of_char CHR ''0''"] by (simp_all add: put_char_def s'_def)
  have "apart (?a + of_nat ?n) (length [of_char CHR ''0'' :: u8]) (en_addr e) (length (en_name e) + 1)" if "e \<in> set es" for e
    using assms(5)[rule_format, OF that] u by (auto simp: apart_def)
  then have sv: "svlist (svcs m) s' (services m) es" unfolding s'_def
    by (intro svlist_mem[OF assms(1)[unfolded svc_list_def]] ballI impI cstring_put_apart)
  have "find (\<lambda>e. en_name e = xs @ of_char CHR ''0'' # ys) es = None" using assms(4) by (simp add: find_None_iff)
  then have "find_name (m\<lparr>lib_mem := s'\<rparr>) ?a (services m) = Some 0"
    using find_name_ok[of "m\<lparr>lib_mem := s'\<rparr>" ?a, OF _ ] s'(2) sv by (simp add: at_of_def)
  then have "handle_open sr d r m = Some (Return (mr_err (- 2)), m\<lparr>lib_mem := s'\<rparr>)"
    using CHKSSTR_ok[OF assms(2)] sep s'(1) \<open>?a + of_nat ?n \<noteq> 0\<close> by (simp add: handle_open_def Let_def)
  then show ?thesis using sv s'(2) by (intro exI[of _ "m\<lparr>lib_mem := s'\<rparr>"]) (simp add: svc_list_def)
qed

text \<open>
  For a name of 80 bytes or more the message of \<open>registersvc\<close> does not fit in its array: the bytes of the name from the 80th are written to the stack behind it.
\<close>

theorem long_name_overflow:
  assumes "can_register stk name xs es q p m" and "80 \<le> length xs"
  shows "\<exists>m'. registersvc stk i name d m = Some m' \<and> (\<forall>j. 80 \<le> j \<and> j \<le> length xs \<longrightarrow> mbytes (lib_mem m') (unat stk + 20 + j) = (xs @ [0]) ! j)"
proof -
  from registersvc_ok[OF assms(1) refl, of i d] obtain m' where m': "registersvc stk i name d m = Some m'" "lib_mem m' = registered_mem stk name xs p m" by blast
  have "unat stk + 20 < 2 ^ 32" using assms(1) by (auto simp: can_register_def Let_def range_ok_def)
  then have "unat (stk + 20) = unat stk + 20" using unat_plus_nat[of stk 20] by simp
  then show ?thesis using m' by (intro exI[of _ m']) (simp add: registered_mem_def put_bytes_def)
qed

text \<open>
  C37. \<open>main\<close> registers the manager itself as the service of process 1, prints its three log lines, the first of them without a name as it is not registered yet, and
  adds handlers for its four methods in front of those of the library.
\<close>

theorem manager_configured:
  assumes "can_register stk mname (lit ''manager'') [] q p m" and "loglevel m = LL_DEBUG" and "srv_list m [(o', 0)]" and "srv_table m o' xs"
    and "lib_supply m = q # [a, b, c, d] @ ps" and "distinct [a, b, c, d]" and "\<forall>x\<in>{a, b, c, d}. x \<noteq> 0 \<and> meths m x = None"
  shows "\<exists>m' e. manager_main stk mname m = Some (o', m') \<and> svc_list m' [e] \<and> en_pid e = 1 \<and> en_name e = lit ''manager'' \<and> en_obj e = 0
     \<and> srv_table m' o' ([(d, M_LOGSVC_VMIV, AppHandler H_LOGSVC), (c, M_REGISTERSVC_VMOV, AppHandler H_REGISTERSVC), (b, M_OPEN_OMVV, AppHandler H_OPEN),
         (a, M_NOTHING_VVVV, AppHandler H_NOTHING)] @ xs)
     \<and> console m' = console m @ lit ''[log:??] Notice: '' @ configuring @ [10] @ lit ''[log:manager] Notice: '' @ greeting @ lit ''manager'' @ [10]
         @ lit ''[log:manager] Status: '' @ configured @ [10]"
proof -
  let ?hs = "[(M_NOTHING_VVVV, AppHandler H_NOTHING), (M_OPEN_OMVV, AppHandler H_OPEN), (M_REGISTERSVC_VMOV, AppHandler H_REGISTERSVC), (M_LOGSVC_VMIV, AppHandler H_LOGSVC)]"
  let ?e = "\<lparr>en_at = q, en_addr = p, en_pid = 1, en_name = lit ''manager'', en_obj = 0\<rparr>"
  define m1 where "m1 = m\<lparr>console := console m @ log_line [] 1 LL_NOTICE configuring\<rparr>"
  have es: "svc_list m []" using assms(1) by (simp add: can_register_def Let_def)
  have l1: "logsvc 1 (Lit ''Manager module configuring...'') LL_NOTICE m = Some m1"
    using logsvc_lit[OF es assms(2)] by (simp add: m1_def configuring_def LL_NOTICE_def LL_DEBUG_def)
  have "can_register stk mname (lit ''manager'') [] q p m1" using assms(1) by (simp add: can_register_def svc_list_def m1_def)
  from registersvc_ok[OF this refl, of 1 0] obtain m2 where
    m2: "registersvc stk 1 mname 0 m1 = Some m2" "svc_list m2 [?e]" "loglevel m2 = LL_DEBUG" "lib_supply m2 = [a, b, c, d] @ ps" "srvs m2 = srvs m" "meths m2 = meths m" "servers m2 = servers m"
      "console m2 = console m1 @ log_line [?e] 1 LL_NOTICE (greeting @ lit ''manager'')"
    using assms(2,5) by (auto simp: m1_def)
  have t: "srv_table m2 o' xs" "srv_list m2 [(o', 0)]" using assms(3,4) m2(5-7) by (simp_all add: srv_table_def srv_list_def the_srv_def)
  from addHandlers_ok[OF t(1) m2(4) _ assms(6), of ?hs] assms(7) m2(6) obtain g f where
    m3: "addHandlers o' ?hs m2 = Some (m2\<lparr>lib_supply := ps, meths := g, srvs := f\<rparr>)"
      "srv_table (m2\<lparr>lib_supply := ps, meths := g, srvs := f\<rparr>) o' (rev (zip [a, b, c, d] ?hs) @ xs)" by auto
  let ?m3 = "m2\<lparr>lib_supply := ps, meths := g, srvs := f\<rparr>"
  have l3: "logsvc 1 (Lit ''Manager module configured : starting request handling.'') LL_STATUS ?m3 = Some (?m3\<lparr>console := console m2 @ log_line [?e] 1 LL_STATUS configured\<rparr>)"
    using logsvc_lit[of ?m3 "[?e]" LL_STATUS] m2(2,3) by (simp add: svc_list_def configured_def LL_STATUS_def LL_DEBUG_def del: svlist.simps)
  define m4 where "m4 = ?m3\<lparr>console := console m2 @ log_line [?e] 1 LL_STATUS configured\<rparr>"
  have "manager_main stk mname m = Some (o', m4)"
    using l1 m2(1) srv_get_ok[OF t(2), of 0] m3(1) l3 by (auto simp: manager_main_def m4_def bind_eq_Some_conv)
  moreover have "srv_table m4 o' (rev (zip [a, b, c, d] ?hs) @ xs)" using m3(2) unfolding m4_def by (subst srv_table_same[of _ ?m3]) simp_all
  moreover have "console m4 = console m @ lit ''[log:??] Notice: '' @ configuring @ [10] @ lit ''[log:manager] Notice: '' @ greeting @ lit ''manager'' @ [10]
         @ lit ''[log:manager] Status: '' @ configured @ [10]"
    using m2(8) by (simp add: m4_def m1_def log_line_def name_of_def loglevels_def LL_NOTICE_def LL_STATUS_def lit_def)
  moreover have "svc_list m4 [?e]" using m2(2) by (simp add: m4_def svc_list_def del: svlist.simps)
  ultimately show ?thesis by (intro exI[of _ m4] exI[of _ ?e]) simp
qed

section \<open>Examples\<close>

text \<open>
  A manager with two pages of memory from 0x1000: the name \<open>ab\<close> at 0x1000, \<open>ab:c\<close> at 0x1010, the literal \<open>manager\<close> at 0x1020, a string of 81 letters at 0x1100, and the stack at 0x2000.
\<close>

definition mgr_bytes :: "nat \<Rightarrow> u8" where
  "mgr_bytes n = (if 0x1100 \<le> n \<and> n < 0x1151 then 97 else if 0x1020 \<le> n \<and> n < 0x1027 then lit ''manager'' ! (n - 0x1020)
     else if 0x1010 \<le> n \<and> n < 0x1014 then lit ''ab:c'' ! (n - 0x1010) else if 0x1000 \<le> n \<and> n < 0x1002 then lit ''ab'' ! (n - 0x1000) else 0)"

definition mgr_demo :: manager where
  "mgr_demo = \<lparr>procServer = 100, servers = 100, srvs = [100 \<mapsto> \<lparr>srv_id = 0, srv_methods = 0, srv_data = 0, srv_next = 0\<rparr>], meths = Map.empty,
     lib_supply = [101, 102, 103, 104, 105], lib_shm = \<lparr>ublocks = 0, ustore = Map.empty, usupply = []\<rparr>,
     lib_mem = \<lparr>mbytes = mgr_bytes, mpresent = (\<lambda>n. n = 1 \<or> n = 2)\<rparr>, lib_k = rpc_demo 6,
     services = 0, svcs = Map.empty, loglevel = LL_DEBUG, console = [], pool = [0x1800, 0x1900]\<rparr>"

definition mgr_call :: "u32 \<Rightarrow> u32 \<Rightarrow> method_data" where
  "mgr_call a v = \<lparr>md_parameters = [\<lparr>mp_val = a, mp_type = PT_SHM, keepShm = False, mp_shmsize = 0x1000\<rparr>, \<lparr>mp_val = v, mp_type = PT_LONG, keepShm = False, mp_shmsize = 0\<rparr>],
     md_func = 0, md_pid = 3, md_blocking = True, md_obj = 100\<rparr>"

lemma mgr_range: "0x1000 \<le> unat a \<Longrightarrow> unat a + n \<le> 0x3000 \<Longrightarrow> range_ok (lib_mem mgr_demo) a n"
  by (auto simp: range_ok_def mapped_def mgr_demo_def)

lemma mgr_names: "cstring (lib_mem mgr_demo) 0x1000 (lit ''ab'')" "cstring (lib_mem mgr_demo) 0x1010 (lit ''ab:c'')" "cstring (lib_mem mgr_demo) 0x1020 (lit ''manager'')"
  by (simp_all add: cstring_def mgr_range lit_def) (simp_all add: bytes_at_def mgr_demo_def mgr_bytes_def lit_def upt_rec)

lemma mgr_long: "cstring (lib_mem mgr_demo) 0x1100 (replicate 81 97)"
proof -
  have "bytes_at (lib_mem mgr_demo) 0x1100 81 = replicate 81 97"
    by (rule nth_equalityI) (simp_all add: bytes_at_nth, simp add: mgr_demo_def mgr_bytes_def)
  then have "bytes_at (lib_mem mgr_demo) 0x1100 (81 + 1) = replicate 81 97 @ [0]"
    unfolding bytes_at_split by (simp add: mgr_demo_def mgr_bytes_def)
  then show ?thesis by (simp add: cstring_def mgr_range)
qed

lemma mgr_list: "svc_list mgr_demo []" "loglevel mgr_demo = LL_DEBUG" "console mgr_demo = []"
  by (simp_all add: svc_list_def mgr_demo_def)

lemma mgr_can:
  assumes "cstring (lib_mem mgr_demo) a xs" and "0x1000 \<le> unat a" and "unat a + length xs + 2 \<le> 0x1800" and "length xs \<le> 100"
  shows "can_register 0x2000 a xs [] 101 0x1800 mgr_demo"
proof -
  have "lib_supply mgr_demo \<noteq> []" "hd (lib_supply mgr_demo) = 101" "svcs mgr_demo 101 = None" "pool mgr_demo \<noteq> []" "hd (pool mgr_demo) = 0x1800"
    by (simp_all add: mgr_demo_def)
  then show ?thesis using assms mgr_list by (simp add: can_register_def Let_def mgr_range apart_def LL_NOTICE_def LL_DEBUG_def)
qed

lemma mgr_param: "cstring (lib_mem mgr_demo) a xs \<Longrightarrow> a \<noteq> 0 \<Longrightarrow> length xs < 0x1000 \<Longrightarrow> str_param (mgr_call a v) xs mgr_demo"
  by (simp add: str_param_def mgr_call_def)

theorem log_message_witness:
  "handle_logsvc 0 (mgr_call 0x1000 2) mgr_demo = Some (mr_void 0, mgr_demo\<lparr>console := lit ''[log:??] Warning: ab'' @ [10]\<rparr>)
   \<and> handle_logsvc 0 (mgr_call 0x1000 6) mgr_demo = Some (mr_void 0, mgr_demo)"
proof -
  have p: "str_param (mgr_call 0x1000 v) (lit ''ab'') mgr_demo" for v using mgr_param[OF mgr_names(1)] by (simp add: lit_def)
  show ?thesis using log_message[OF mgr_list(1) p mgr_list(2), of 0 2] log_message[OF mgr_list(1) p mgr_list(2), of 0 6]
    by (simp add: mgr_call_def log_line_def name_of_def loglevels_def mgr_list lit_def)
qed

theorem register_open_witness:
  "\<exists>m'. handle_registersvc 0 0x2000 (mgr_call 0x1000 5) mgr_demo = Some (mr_void 0, m') \<and> console m' = lit ''[log:??] Notice: Service registered: ab'' @ [10]"
proof -
  have h: "can_register 0x2000 (mp_val (md_parameters (mgr_call 0x1000 5) ! 0)) (lit ''ab'') [] 101 0x1800 mgr_demo" "str_param (mgr_call 0x1000 5) (lit ''ab'') mgr_demo"
      "mp_val (md_parameters (mgr_call 0x1000 5) ! 1) \<noteq> 0"
    using mgr_can[OF mgr_names(1)] mgr_param[OF mgr_names(1)] by (simp_all add: mgr_call_def lit_def)
  from register_open[OF h, of 0] obtain m' e where "handle_registersvc 0 0x2000 (mgr_call 0x1000 5) mgr_demo = Some (mr_void 0, m')" "en_pid e = 3"
      "console m' = log_line [e] 1 LL_NOTICE (greeting @ lit ''ab'')" by (auto simp: mgr_list mgr_call_def)
  then show ?thesis by (simp add: log_line_def name_of_def loglevels_def LL_NOTICE_def greeting_def lit_def)
qed

theorem open_resource_fails_witness:
  "\<exists>m'. handle_open rpc_call (mgr_call 0x1010 0) \<lparr>esp = 0, ebp = 0, eip = 0\<rparr> mgr_demo = Some (Return (mr_err (- 2)), m')
     \<and> cstring (lib_mem m') 0x1010 (lit ''ab0c'')"
proof -
  have l: "lit ''ab:c'' = lit ''ab'' @ of_char CHR '':'' # lit ''c''" "lit ''ab0c'' = lit ''ab'' @ of_char CHR ''0'' # lit ''c''" by (simp_all add: lit_def)
  have h: "str_param (mgr_call 0x1010 0) (lit ''ab'' @ of_char CHR '':'' # lit ''c'') mgr_demo" "(of_char CHR '':'' :: u8) \<notin> set (lit ''ab'')"
    using mgr_param[OF mgr_names(2)] by (simp_all add: lit_def)
  have "mp_val (md_parameters (mgr_call 0x1010 0) ! 0) = 0x1010" by (simp add: mgr_call_def)
  then show ?thesis using open_resource_fails[OF mgr_list(1) h, of rpc_call "\<lparr>esp = 0, ebp = 0, eip = 0\<rparr>"] unfolding l by auto
qed

theorem long_name_overflow_witness:
  "\<exists>m'. registersvc 0x2000 3 0x1100 5 mgr_demo = Some m' \<and> mbytes (lib_mem mgr_demo) 0x2064 = 0 \<and> mbytes (lib_mem m') 0x2064 = 97"
proof -
  have c: "can_register 0x2000 0x1100 (replicate 81 97) [] 101 0x1800 mgr_demo" using mgr_can[OF mgr_long] by simp
  from long_name_overflow[OF c, of 3 5] obtain m' where
    "registersvc 0x2000 3 0x1100 5 mgr_demo = Some m'" "\<forall>j. 80 \<le> j \<and> j \<le> 81 \<longrightarrow> mbytes (lib_mem m') (0x2014 + j) = (replicate 81 97 @ [0]) ! j" by auto
  moreover from this(2)[rule_format, of 80] have "mbytes (lib_mem m') 0x2064 = 97" by (simp add: nth_append)
  ultimately show ?thesis by (simp add: mgr_demo_def mgr_bytes_def)
qed

theorem manager_configured_witness:
  "\<exists>m'. manager_main 0x2000 0x1020 mgr_demo = Some (100, m') \<and> getHandler 100 M_OPEN_OMVV m' = Some (AppHandler H_OPEN)"
proof -
  have c: "can_register 0x2000 0x1020 (lit ''manager'') [] 101 0x1800 mgr_demo" using mgr_can[OF mgr_names(3)] by (simp add: lit_def)
  have s: "srv_list mgr_demo [(100, 0)]" "srv_table mgr_demo 100 []" "lib_supply mgr_demo = 101 # [102, 103, 104, 105] @ []"
      "distinct [102, 103, 104, 105 :: nat]" "\<forall>x\<in>{102, 103, 104, 105}. x \<noteq> 0 \<and> meths mgr_demo x = None"
    by (simp_all add: srv_list_def srv_table_def the_srv_def mgr_demo_def)
  from manager_configured[OF c mgr_list(2) s] obtain m' where m': "manager_main 0x2000 0x1020 mgr_demo = Some (100, m')"
    "srv_table m' 100 ([(105, M_LOGSVC_VMIV, AppHandler H_LOGSVC), (104, M_REGISTERSVC_VMOV, AppHandler H_REGISTERSVC), (103, M_OPEN_OMVV, AppHandler H_OPEN),
         (102, M_NOTHING_VVVV, AppHandler H_NOTHING)] @ [])" by blast
  have "M_OPEN_OMVV \<noteq> M_LOGSVC_VMIV" "M_OPEN_OMVV \<noteq> M_REGISTERSVC_VMOV"
    by (simp_all add: M_OPEN_OMVV_def M_LOGSVC_VMIV_def M_REGISTERSVC_VMOV_def MP_def push_bit_eq_mult)
  then show ?thesis using m'(1) getHandler_ok[OF m'(2), of M_OPEN_OMVV] by simp
qed

end
