(* ===== verification/Spec2Isabelle.thy ===== *)
theory Spec2Isabelle
  imports KHeap Syscall Strings Server Gdt Stdio UMutex Boot Manager
begin

text \<open>
  \<^bold>\<open>Verification of the Grapes kernel and its user library\<close>

  Grapes is a small microkernel for i586 processors, written in C. The kernel (\<^verbatim>\<open>src/src/kernel\<close>) manages memory, threads and
  processes, and passes requests between processes; everything else is meant to run in user processes that link a library
  (\<^verbatim>\<open>src/src/library\<close>, headers in \<^verbatim>\<open>src/src/include\<close>). This development models both as functions in higher-order
  logic that follow the C functions statement by statement, and proves what makes the parts correct. Paths below are relative to
  \<^verbatim>\<open>src/src\<close>.

  \<^bold>\<open>Parts of the program and how they interact.\<close> At the bottom, a bitmap of physical frames and page tables
  (\<^verbatim>\<open>kernel/mem/paging.c\<close>) give memory to segments (\<^verbatim>\<open>kernel/mem/seg.c\<close>, \<^verbatim>\<open>kernel/ipc/shm.c\<close>), which the page fault handler fills on
  demand, and to the kernel heap (\<^verbatim>\<open>kernel/mem/heap.c\<close>, \<^verbatim>\<open>kernel/mem/mem.c\<close>). Threads live in run queues (\<^verbatim>\<open>kernel/task/sched.c\<close>);
  \<open>tasking_switch\<close> (\<^verbatim>\<open>kernel/task/task.c\<close>) saves and loads contexts, called by the timer interrupt, by threads that block and by
  threads that end. Processes own objects (\<^verbatim>\<open>kernel/ipc/object.c\<close>) and make requests to objects of others (\<^verbatim>\<open>kernel/ipc/request.c\<close>).
  User code enters the kernel through interrupt 64 (\<^verbatim>\<open>kernel/task/idt.c\<close>, \<^verbatim>\<open>kernel/task/syscall.c\<close>). The library has the stubs of the
  system calls (\<^verbatim>\<open>library/gc/syscall.c\<close>), a heap that grows through one of them (\<^verbatim>\<open>library/gc/mem.c\<close>), a manager of the addresses for shared
  memory (\<^verbatim>\<open>library/gc/shm.c\<close>), servers that dispatch requests to handlers (\<^verbatim>\<open>library/gc/server.c\<close>), and calls that pass strings to the manager
  (\<^verbatim>\<open>library/gm/call/manager.c\<close>), the process that knows the services by name (\<^verbatim>\<open>modules/manager/main.c\<close>).

  \<^bold>\<open>Conventions.\<close> A C function is a function of the same name from its arguments and the state to its result and the new state.
  A result of type \<^typ>\<open>'a option\<close> that is \<^const>\<open>None\<close> is a fault of the running code: a null pointer or an unmapped address that is used, an index out
  of range, a panic, undefined arithmetic, or a loop that does not end. Error codes are ordinary values. 32-bit integers are \<^typ>\<open>32 word\<close>, so
  that all arithmetic wraps as in C; the theorems state the ranges in which it does not. Structures that the code reaches
  through pointers are records in a store (a partial map from pointers), so that aliasing and freed memory can be spoken about; the heaps work on
  bytes. Loops over linked structures are partial functions in the option monad, and termination is part of each theorem that
  says that they return a value; loops with a fixed number of rounds are primitive recursive. There is no fuel. A function that blocks its thread is split at the
  switch: it returns \<open>Wait\<close>, and a second definition, named in the text, is what the thread does when it runs again. Interrupts are off inside the
  kernel, so its functions are atomic; interleavings of threads are sequences of such steps. Inner loops and larger parts of a function
  have definitions of their own. Uninitialised memory is an argument (\<open>junk\<close>).

  \<^bold>\<open>Theories.\<close>
  \<^item> \<open>Prelude\<close>: word types, arithmetic of addresses, rounding to pages.
  \<^item> \<open>Cmem\<close>: byte memory with pages that may be absent.
  \<^item> \<open>Bitset\<close> (\<^verbatim>\<open>kernel/lib/bitset.c\<close>): the bitmap; the search returns the least free position.
  \<^item> \<open>HeapIdx\<close>, \<open>HeapCore\<close>, \<open>HeapFree\<close>, \<open>HeapResize\<close> (\<^verbatim>\<open>library/gc/mem.c\<close> and \<^verbatim>\<open>kernel/mem/heap.c\<close>): the allocator that both have. The heap is
    a sequence of blocks with header and footer and a sorted index of holes; the invariant says that the blocks tile the heap and that the index lists exactly
    the holes. The locales \<open>heap_source\<close> and \<open>heap_sink\<close> are the contracts of growing and shrinking.
  \<^item> \<open>UHeap\<close> (\<^verbatim>\<open>library/gc/mem.c\<close>): \<open>malloc\<close> and \<open>free\<close> with the system call \<open>proc_setheap\<close>, whose contract is the locale \<open>heap_segment\<close>: they return,
    keep the invariant and all other blocks, and give fresh memory.
  \<^item> \<open>KState\<close>: the state of the kernel, with the structures of \<^verbatim>\<open>paging.h\<close>, \<^verbatim>\<open>seg.h\<close>, \<^verbatim>\<open>task.h\<close>, \<^verbatim>\<open>object.h\<close> and \<^verbatim>\<open>request.h\<close>. Structures of the
    kernel come from a supply of fresh pointers, not from the model of the kernel heap.
  \<^item> \<open>Sched\<close> (\<^verbatim>\<open>kernel/task/sched.c\<close>): linked run queues refine queues; locale \<open>run_queue\<close>.
  \<^item> \<open>Paging\<close> (\<^verbatim>\<open>kernel/mem/paging.c\<close>, \<^verbatim>\<open>mem.c\<close>): frames (locale \<open>frame_pool\<close>), pages, tables, directories, the cache of free pages.
  \<^item> \<open>KHeap\<close> (\<^verbatim>\<open>kernel/mem/heap.c\<close>, \<^verbatim>\<open>mem.c\<close>): the allocator over the operations that map and unmap kernel pages (locale \<open>kernel_pages\<close>).
  \<^item> \<open>Seg\<close> (\<^verbatim>\<open>kernel/mem/seg.c\<close>, \<^verbatim>\<open>kernel/ipc/shm.c\<close>, \<open>paging_fault\<close>): segments and page faults.
  \<^item> \<open>PageCache\<close>: that \<open>kmalloc_page\<close> of \<open>Paging\<close> returns, and gives a page of the kernel that nothing else has, while frames and addresses last.
  \<^item> \<open>Vmem\<close> (\<open>memcpy\<close>, \<open>memset\<close> of \<^verbatim>\<open>kernel/lib/stdlib.c\<close>): what kernel code does to the memory of a process. Accesses go through the page tables to a physical
    memory, and to \<open>paging_fault\<close> when a page is absent; in the segments of a process they succeed, and write exactly the bytes that they should.
  \<^item> \<open>Tasking\<close> (\<^verbatim>\<open>kernel/task/task.c\<close>): switches, blocking and waking up; the scheduling invariant over the step relation \<open>sched_step\<close>, that contexts come back,
    and that every ready thread gets its turn.
  \<^item> \<open>Timer\<close> (\<^verbatim>\<open>kernel/task/timer.c\<close>): the clock and sleeping threads.
  \<^item> \<open>Process\<close> (\<^verbatim>\<open>kernel/task/task.c\<close>): creation and end of threads and processes, the heap segment, exceptions.
  \<^item> \<open>Elf\<close> (\<^verbatim>\<open>kernel/linker/elf.c\<close>): the loader of program files; a well-formed file is loaded completely, into fresh frames.
  \<^item> \<open>EarlyPaging\<close> (\<open>paging_init\<close>, \<open>paging_cleanup\<close> of \<^verbatim>\<open>kernel/mem/paging.c\<close>): the loop that maps the kernel ends, and maps exactly its memory. The bitmap of frames and the entries of the kernel
    directory overlap, as in the code; the theorem has the bounds below which this does no harm.
  \<^item> \<open>Boot\<close> (\<^verbatim>\<open>kernel/core/kmain.c\<close>, \<^verbatim>\<open>kernel/core/sys.c\<close>): \<open>kmain\<close> as the composition of the initialisers and the loop that starts the modules; the modules stay readable
    when paging is on; what a panic prints. In the other theories a panic is \<^const>\<open>None\<close>.
  \<^item> \<open>Object\<close> (\<^verbatim>\<open>kernel/ipc/object.c\<close>): objects and descriptors; locale \<open>descriptor_table\<close>.
  \<^item> \<open>Request\<close>, \<open>Rpc\<close>, \<open>IpcInv\<close> (\<^verbatim>\<open>kernel/ipc/request.c\<close>, \<^verbatim>\<open>kernel/lib/mutex.c\<close>): requests and messages; delivery of messages, complete remote calls, passing of
    descriptors, error codes, and the invariant of locking over all steps of the protocol (\<open>ipc_step\<close>).
  \<^item> \<open>Monitor\<close> (\<^verbatim>\<open>kernel/core/monitor.c\<close>): the text screen stays within video memory; numbers are printed right.
  \<^item> \<open>Idt\<close>, \<open>Syscall\<close> (\<^verbatim>\<open>kernel/task/idt.c\<close>, \<^verbatim>\<open>kernel/task/syscall.c\<close>, \<^verbatim>\<open>library/gc/syscall.c\<close>): interrupt gates, interrupt requests, and the agreement
    of the two sides of the system calls.
  \<^item> \<open>Gdt\<close> (\<^verbatim>\<open>kernel/mem/gdt.c\<close>): segment descriptors as the processor reads them.
  \<^item> \<open>UShm\<close> (\<^verbatim>\<open>library/gc/shm.c\<close>): the doubly linked list of blocks refines a list of intervals that tile the space; allocation is best fit, release merges holes, and
    undoes an allocation; locale \<open>block_manager\<close>.
  \<^item> \<open>UMutex\<close> (\<^verbatim>\<open>library/std/mutex.c\<close>): mutual exclusion of any number of threads.
  \<^item> \<open>Strings\<close> (\<^verbatim>\<open>library/std/string.c\<close>, \<^verbatim>\<open>kernel/lib/stdlib.c\<close>): copying by words equals copying bytes; strings.
  \<^item> \<open>Stdio\<close> (\<^verbatim>\<open>library/std/stdio.c\<close>): printing of numbers.
  \<^item> \<open>Server\<close> (\<^verbatim>\<open>library/gc/server.c\<close>, \<^verbatim>\<open>library/gm/call.c\<close>): tables of handlers, servers, and a call that goes through client library, kernel and server library.
    The handlers of an application are a parameter; they may wait in calls of their own.
  \<^item> \<open>ShmPass\<close>: theorems about \<open>Request\<close> and \<open>Seg\<close> for parameters that are shared memory: the receiver maps the segment of the sender; the sender can delete it too early.
  \<^item> \<open>Calls\<close> (\<^verbatim>\<open>library/gm/call.c\<close>, \<^verbatim>\<open>library/gm/call/manager.c\<close>): the calls of a client that copy an argument to new shared memory; the start of a process (\<^verbatim>\<open>library/start.c\<close>).
  \<^item> \<open>Manager\<close> (\<^verbatim>\<open>modules/manager/main.c\<close>, the macro \<open>CHKSSTR\<close> of \<^verbatim>\<open>include/gc/server.h\<close>): the application that the parameter of \<open>Server\<close> stands for, over strings in memory: registering and opening of
    services, log lines, configuration.

  \<^bold>\<open>Theorems that state defects.\<close> Some theorems show that the code does not do what its comments say:
  \<open>Object.objdesc_rm_wrong\<close>, \<open>KHeap.kheap_contract_end\<close>, \<open>Paging.kernel_table_not_present\<close>, \<open>Server.unhandled_message_blocks\<close>, \<open>Elf.elf_bss_faults\<close>, \<open>Calls.handleCheckA_crashes\<close>, \<open>ShmPass.shm_message_dangling\<close>,
  \<open>Manager.open_resource_fails\<close>, \<open>Manager.long_name_overflow\<close>, and parts of
  \<open>Idt.idt_table\<close>, \<open>Monitor.writeDec_digits\<close>, \<open>Gdt.flat_segments\<close>, \<open>Stdio.printk_int_decimal\<close> and \<open>Strings.string_writes\<close>.

  \<^bold>\<open>Hypotheses.\<close> The theorems assume a well-formed state (invariants that the other theorems show to be kept) and, where the code does not check it, that memory
  suffices. Each theorem with hypotheses is followed, in its theory, by one of the same name with the suffix \<open>_witness\<close> that applies it to a concrete state.

  \<^bold>\<open>Not modelled.\<close> Assembly (entry stubs, the switch to user mode, loading of control registers), whose effect is part of the functions that call it;
  what is printed on exceptions (\<^verbatim>\<open>kernel/task/task.c\<close>, \<^verbatim>\<open>kernel/task/idt.c\<close>); \<open>outw\<close>, \<open>inb\<close> and \<open>inw\<close>, which are not used; the demonstration program
  \<^verbatim>\<open>modules/test\<close>. In \<open>Server\<close>, \<open>Calls\<close> and \<open>Manager\<close> the pages of shared memory are part of the memory that the process sees, and are not connected to the frames of \<open>Seg\<close>. The mutex around \<open>shm_alloc\<close> and
  \<open>shm_free\<close> makes these functions atomic with respect to each other (theory \<open>UMutex\<close>) and does not appear in their definitions; \<^verbatim>\<open>library/gc/mem.c\<close> has none, and the theorems about \<open>malloc\<close> and \<open>free\<close> are
  about complete calls.

  \<^bold>\<open>Simplifications.\<close>
  \<^item> After boot the bitmap of frames is treated as storage of its own. Below 150 megabytes it only overlaps the entries of the kernel directory for user addresses, which no code reads after boot.
  \<^item> The record \<open>cpu\<close> has the registers that \<open>tasking_switch\<close> saves, \<open>esp\<close>, \<open>ebp\<close> and \<open>eip\<close>; whether the compiler keeps values in others across the inline assembly is not modelled.
  \<^item> \<open>proc_setheap\<close> of \<open>UHeap\<close> is the view of the process: the pages of the heap appear at once, and the frames for them do not run out. The kernel side is in \<open>Process\<close> and \<open>Seg\<close>.
  \<^item> Pointers to structures of the kernel are not used again after \<open>kfree\<close>, so that a use of freed memory is visible as such; what a second use of the memory would do is not.
  \<^item> The count of mappings of a segment is an unbounded integer.
  \<^item> \<^const>\<open>None\<close> does not tell a fault of user code from one of the kernel; theorems in which it matters, such as \<open>Calls.handleCheckA_crashes\<close>, state where the fault is.
\<close>

end
